(* ===== verification/Jay_Prelude.thy ===== *)
theory Jay_Prelude
  imports Main "HOL-Library.Word"
begin

text \<open>
  Shared vocabulary of the development.  The first part models the storage macros of
  \<^verbatim>\<open>jay/defs.h\<close>: bit sets kept in arrays of 32-bit words (\<open>WORDSIZE\<close>, \<open>BIT\<close>,
  \<open>SETBIT\<close>) and the two pointer loops that every pass of the generator uses on a row of
  such an array, \<^verbatim>\<open>*fp1++ |= *fp2++\<close> (\<open>or_row\<close>) and \<^verbatim>\<open>*fp2++ = *fp1++\<close> (\<open>copy_row\<close>).
  A C array is a list, a pointer into it an index, and a pointer to a row the index of the
  row's first word.  The second part says what those loops do to the sets of bits the rows
  stand for (\<open>rowset\<close>); the passes are proved correct through these lemmas only.
\<close>

unbundle bit_operations_syntax

declare push_bit_of_1 [simp del]

named_theorems row_simps \<open>length and content of rows after a row operation\<close>

type_synonym u32 = "32 word"

section \<open>Error values\<close>

text \<open>
  \<^verbatim>\<open>fatal\<close> and \<^verbatim>\<open>assert\<close> end the program; an operation that can reach one returns a sum,
  with the reason on the left.  \<open>BadAccess\<close> is a null pointer that is followed or an access
  outside of an array, where the C code would go wrong.  \<open>OutOfShort\<close> is a number that does not fit into
  the \<^verbatim>\<open>short\<close> it is assigned to: the code goes on with another number, and the model stops.
\<close>

datatype jay_error = Fatal string | AssertFailed | BadAccess | OutOfShort

text \<open>A loop whose body can stop with an error.\<close>

fun fold_sum :: "('a \<Rightarrow> 's \<Rightarrow> 'e + 's) \<Rightarrow> 'a list \<Rightarrow> 's \<Rightarrow> 'e + 's" where
  "fold_sum f [] s = Inr s"
| "fold_sum f (x # xs) s = (case f x s of Inl e \<Rightarrow> Inl e | Inr s' \<Rightarrow> fold_sum f xs s')"

lemma fold_sum_append:
  "fold_sum f (xs @ ys) s = (case fold_sum f xs s of Inl e \<Rightarrow> Inl e | Inr s' \<Rightarrow> fold_sum f ys s')"
  by (induction xs arbitrary: s) (auto split: sum.splits)

lemma fold_sum_Inr:
  "(\<And>x s. x \<in> set xs \<Longrightarrow> f x s = Inr (h x s)) \<Longrightarrow> fold_sum f xs s = Inr (fold h xs s)"
  by (induction xs arbitrary: s) auto

definition MAXSHORT :: nat where
  "MAXSHORT = 32767"

definition MAXTABLE :: nat where
  "MAXTABLE = 32500"

text \<open>A \<^verbatim>\<open>short\<close> has 16 bits; a conversion keeps the low ones.\<close>

definition short :: "int \<Rightarrow> int" where
  "short i = signed_take_bit 15 i"

lemma short_id: "- 32768 \<le> i \<Longrightarrow> i \<le> 32767 \<Longrightarrow> short i = i"
  by (simp add: short_def signed_take_bit_int_eq_self)

lemma short_bounds: "- 32768 \<le> short i" "short i \<le> 32767"
  using signed_take_bit_int_greater_eq_minus_exp [of 15 i] signed_take_bit_int_less_exp [of 15 i]
  by (simp_all add: short_def)

section \<open>Keyword codes\<close>

text \<open>The codes that \<^verbatim>\<open>keyword\<close> returns; the first four also say how a symbol associates.\<close>

definition TOKEN :: nat where "TOKEN = 0"

definition LEFT :: nat where "LEFT = 1"

definition RIGHT :: nat where "RIGHT = 2"

definition NONASSOC :: nat where "NONASSOC = 3"

definition MARK :: nat where "MARK = 4"

definition TEXT :: nat where "TEXT = 5"

definition TYPE_KW :: nat where "TYPE_KW = 6"

definition START :: nat where "START = 7"

section \<open>Bit sets in word arrays\<close>

definition BITS_PER_WORD :: nat where
  "BITS_PER_WORD = 32"

definition WORDSIZE :: "nat \<Rightarrow> nat" where
  "WORDSIZE n = (n + (BITS_PER_WORD - 1)) div BITS_PER_WORD"

definition BIT :: "u32 list \<Rightarrow> nat \<Rightarrow> nat \<Rightarrow> bool" where
  "BIT R r n \<longleftrightarrow> drop_bit (n AND 31) (R ! (r + drop_bit 5 n)) AND 1 = 1"

definition SETBIT :: "u32 list \<Rightarrow> nat \<Rightarrow> nat \<Rightarrow> u32 list" where
  "SETBIT R r n =
     R[r + drop_bit 5 n := R ! (r + drop_bit 5 n) OR push_bit (n AND 31) 1]"

text \<open>The loop \<^verbatim>\<open>while (p < end) *p++ |= *q++\<close> over \<open>k\<close> words of one array.\<close>

primrec or_row :: "nat \<Rightarrow> u32 list \<Rightarrow> nat \<Rightarrow> nat \<Rightarrow> u32 list" where
  "or_row 0 F p q = F"
| "or_row (Suc k) F p q = or_row k (F[p := F ! p OR F ! q]) (Suc p) (Suc q)"

text \<open>The same loop between two arrays, and the loop \<^verbatim>\<open>*q++ = *p++\<close>.\<close>

primrec or_from :: "nat \<Rightarrow> u32 list \<Rightarrow> nat \<Rightarrow> u32 list \<Rightarrow> nat \<Rightarrow> u32 list" where
  "or_from 0 A p B q = A"
| "or_from (Suc k) A p B q = or_from k (A[p := A ! p OR B ! q]) (Suc p) B (Suc q)"

primrec copy_row :: "nat \<Rightarrow> u32 list \<Rightarrow> nat \<Rightarrow> nat \<Rightarrow> u32 list" where
  "copy_row 0 F p q = F"
| "copy_row (Suc k) F p q = copy_row k (F[q := F ! p]) (Suc p) (Suc q)"

section \<open>Lists\<close>

lemma nth_upd: "xs[i := x] ! j = (if i = j \<and> j < length xs then x else xs ! j)"
  by (cases "i < length xs") (auto simp: nth_list_update list_update_beyond)

lemma upt_split: "a \<le> b \<Longrightarrow> b \<le> c \<Longrightarrow> [a..<c] = [a..<b] @ [b..<c]"
  by (metis le_add_diff_inverse upt_add_eq_append)

lemma list_all2_ex_right: "list_all2 P xs ys \<Longrightarrow> x \<in> set xs \<Longrightarrow> \<exists>y \<in> set ys. P x y"
  by (induction rule: list_all2_induct) auto

lemma list_all2_ex_left: "list_all2 P xs ys \<Longrightarrow> y \<in> set ys \<Longrightarrow> \<exists>x \<in> set xs. P x y"
  by (induction rule: list_all2_induct) auto

lemma fold_nested:
  "fold (\<lambda>x. fold (f (num x)) (h x)) xs s =
   fold (\<lambda>(p, t). f p t) (concat (map (\<lambda>x. map (Pair (num x)) (h x)) xs)) s"
  by (induction xs arbitrary: s) (simp_all add: fold_map comp_def)

lemma fold_sum_nested:
  "fold_sum (\<lambda>x. fold_sum (f (num x)) (h x)) xs s =
   fold_sum (\<lambda>(p, t). f p t) (concat (map (\<lambda>x. map (Pair (num x)) (h x)) xs)) s"
proof (induction xs arbitrary: s)
  case (Cons x xs)
  have "fold_sum (\<lambda>(p, t). f p t) (map (Pair p) ys) s = fold_sum (f p) ys s" for p ys s
    by (induction ys arbitrary: s) (auto split: sum.splits)
  then show ?case by (auto simp: fold_sum_append Cons.IH split: sum.splits)
qed simp

section \<open>Insertion sort\<close>

text \<open>
  The loop that moves larger elements up by one and puts a new one into the gap; \<^verbatim>\<open>append_states\<close> and
  \<^verbatim>\<open>pack_symbols\<close> have it.
\<close>

fun shift_down :: "'a::linorder list \<Rightarrow> nat \<Rightarrow> 'a \<Rightarrow> 'a list" where
  "shift_down xs j symbol =
     (if 0 < j \<and> symbol < xs ! (j - 1) then shift_down (xs[j := xs ! (j - 1)]) (j - 1) symbol
      else xs[j := symbol])"

declare shift_down.simps [simp del]

lemma insort_last:
  fixes s :: "'a::linorder"
  shows "sorted l \<Longrightarrow> \<forall>a \<in> set l. a \<le> s \<Longrightarrow> insort s l = l @ [s]"
proof (induction l)
  case (Cons y ys)
  show ?case
  proof (cases "s \<le> y")
    case True
    then have "s = y" using Cons.prems(2) by auto
    have "insort s ys = s # ys" using Cons.prems(1) \<open>s = y\<close> by (intro insort_is_Cons) auto
    then have "insort s (y # ys) = y # insort s ys" using True \<open>s = y\<close> by simp
    also have "\<dots> = y # ys @ [s]" using Cons by auto
    finally show ?thesis by simp
  next
    case False
    then show ?thesis using Cons by simp
  qed
qed simp

lemma shift_down_split:
  "sorted xs \<Longrightarrow> shift_down (xs @ y # ys) (length xs) s = insort s xs @ ys"
proof (induction xs arbitrary: y ys rule: rev_induct)
  case Nil
  then show ?case by (simp add: shift_down.simps [of "y # ys" 0])
next
  case (snoc x xs)
  have srt: "sorted xs" "\<forall>a \<in> set xs. a \<le> x" using snoc.prems by (auto simp: sorted_append)
  show ?case
  proof (cases "s < x")
    case True
    have "shift_down ((xs @ [x]) @ y # ys) (length (xs @ [x])) s =
      shift_down (xs @ x # (x # ys)) (length xs) s"
      unfolding shift_down.simps [of "(xs @ [x]) @ y # ys" "length (xs @ [x])" s]
      using True by (simp add: nth_append list_update_append)
    also have "\<dots> = insort s xs @ x # ys" by (rule snoc.IH [OF srt(1)])
    also have "insort s xs @ x # ys = insort s (xs @ [x]) @ ys"
      using True srt by (induction xs) auto
    finally show ?thesis .
  next
    case False
    have "insort s (xs @ [x]) = (xs @ [x]) @ [s]"
      using False srt snoc.prems by (intro insort_last) fastforce+
    then show ?thesis
      unfolding shift_down.simps [of "(xs @ [x]) @ y # ys" "length (xs @ [x])" s]
      using False by (simp add: nth_append list_update_append)
  qed
qed

section \<open>Filling buckets\<close>

text \<open>
  A counting sort: every key has a range of the output, the ranges follow each other in the
  order of the keys (\<open>bucket_base\<close>), and a pointer per key says where its next element goes.
\<close>

definition bucket_put :: "('a \<Rightarrow> nat) \<Rightarrow> 'a \<Rightarrow> nat list \<times> 'a list \<Rightarrow> nat list \<times> 'a list" where
  "bucket_put key x = (\<lambda>(temp, out).
     (temp[key x := temp ! key x + 1], out[temp ! key x := x]))"

definition bucket_of :: "('a \<Rightarrow> nat) \<Rightarrow> 'a list \<Rightarrow> nat \<Rightarrow> 'a list" where
  "bucket_of key xs A = filter (\<lambda>x. key x = A) xs"

definition bucket_base :: "('a \<Rightarrow> nat) \<Rightarrow> 'a list \<Rightarrow> nat \<Rightarrow> nat" where
  "bucket_base key xs A = (\<Sum>B<A. length (bucket_of key xs B))"

lemma bucket_base_Suc: "bucket_base key xs (Suc A) = bucket_base key xs A + length (bucket_of key xs A)"
  by (simp add: bucket_base_def)

lemma bucket_base_mono: "A \<le> B \<Longrightarrow> bucket_base key xs A \<le> bucket_base key xs B"
  by (induction rule: dec_induct) (auto simp: bucket_base_Suc)

lemma bucket_base_total:
  assumes "\<forall>x \<in> set xs. key x < n"
  shows "bucket_base key xs n = length xs"
  using assms
proof (induction xs)
  case Nil
  then show ?case by (simp add: bucket_base_def bucket_of_def)
next
  case (Cons x xs)
  have "bucket_base key (x # xs) n = (\<Sum>B<n. length (bucket_of key xs B) + (if B = key x then 1 else 0))"
    unfolding bucket_base_def by (intro sum.cong) (auto simp: bucket_of_def)
  also have "\<dots> = bucket_base key xs n + 1"
    using Cons.prems by (simp add: sum.distrib bucket_base_def)
  finally show ?case using Cons by simp
qed

lemma bucket_slot_inj:
  assumes "bucket_base key xs A + m = bucket_base key xs B + l"
    and "m < length (bucket_of key xs A)" "l < length (bucket_of key xs B)"
  shows "A = B"
  using assms bucket_base_mono [of "Suc A" B key xs] bucket_base_mono [of "Suc B" A key xs]
  by (metis Suc_leI add_less_cancel_left bucket_base_Suc le_add1 linorder_neqE_nat not_le order_le_less_trans)

lemma bucket_slot_bound:
  assumes "A < n" "m < length (bucket_of key xs A)"
  shows "bucket_base key xs A + m < bucket_base key xs n"
  using assms bucket_base_mono [of "Suc A" n key xs] by (simp add: bucket_base_Suc)

lemma bucket_fold:
  assumes keys: "\<forall>x \<in> set xs. key x < n" and "n \<le> length temp" "length out = length xs"
    and temp: "\<forall>A < n. temp ! A = bucket_base key xs A"
  shows "length (snd (fold (bucket_put key) xs (temp, out))) = length xs \<and>
    (\<forall>A m. A < n \<longrightarrow> m < length (bucket_of key xs A) \<longrightarrow>
      snd (fold (bucket_put key) xs (temp, out)) ! (bucket_base key xs A + m) = bucket_of key xs A ! m)"
proof -
  have total: "bucket_base key xs n = length xs" by (rule bucket_base_total [OF keys])
  have "\<exists>t o'. fold (bucket_put key) ys (temp, out) = (t, o') \<and> n \<le> length t \<and> length o' = length xs \<and>
    (\<forall>A < n. t ! A = bucket_base key xs A + length (bucket_of key ys A)) \<and>
    (\<forall>A m. A < n \<longrightarrow> m < length (bucket_of key ys A) \<longrightarrow>
      o' ! (bucket_base key xs A + m) = bucket_of key ys A ! m)"
    if "ys @ zs = xs" for ys zs
    using that
  proof (induction ys arbitrary: zs rule: rev_induct)
    case Nil
    then show ?case using assms by (simp add: bucket_of_def)
  next
    case (snoc y ys)
    have "ys @ y # zs = xs" using snoc.prems by simp
    from snoc.IH [OF this] obtain t o' where I:
      "fold (bucket_put key) ys (temp, out) = (t, o')" "n \<le> length t" "length o' = length xs"
      "\<And>A. A < n \<Longrightarrow> t ! A = bucket_base key xs A + length (bucket_of key ys A)"
      "\<And>A m. A < n \<Longrightarrow> m < length (bucket_of key ys A) \<Longrightarrow>
        o' ! (bucket_base key xs A + m) = bucket_of key ys A ! m"
      by blast
    let ?A = "key y" and ?l = "length (bucket_of key ys (key y))"
    have A: "?A < n" using keys snoc.prems by auto
    have on: "bucket_of key (ys @ [y]) B = bucket_of key ys B @ (if B = ?A then [y] else [])" for B
      by (simp add: bucket_of_def)
    have pre: "length (bucket_of key (ys @ [y]) B) \<le> length (bucket_of key xs B)" for B
      using snoc.prems by (auto simp: bucket_of_def)
    have l: "?l < length (bucket_of key xs ?A)" using pre [of ?A] by (simp add: on)
    have slot: "bucket_base key xs ?A + ?l < length xs" using bucket_slot_bound [OF A l] total by simp
    have out: "o'[t ! ?A := y] ! (bucket_base key xs B + m) = bucket_of key (ys @ [y]) B ! m"
      if B: "B < n" "m < length (bucket_of key (ys @ [y]) B)" for B m
    proof (cases "bucket_base key xs ?A + ?l = bucket_base key xs B + m")
      case True
      have "m < length (bucket_of key xs B)" using B(2) pre [of B] by simp
      from bucket_slot_inj [OF True l this] True slot I(3) show ?thesis
        by (auto simp: I(4) [OF A] on nth_append)
    next
      case False
      then have "m < length (bucket_of key ys B)" using B(2) by (auto simp: on split: if_splits)
      with False I(5) [OF B(1)] show ?thesis by (simp add: I(4) [OF A] on nth_append)
    qed
    have "(t[?A := t ! ?A + 1]) ! B = bucket_base key xs B + length (bucket_of key (ys @ [y]) B)" if "B < n" for B
      using I(2) I(4) [OF that] that A by (auto simp: on nth_list_update)
    moreover have "bucket_put key y (t, o') = (t[?A := t ! ?A + 1], o'[t ! ?A := y])"
      by (simp add: bucket_put_def)
    ultimately show ?case using out I(1-3) by simp
  qed
  from this [of xs "[]"] show ?thesis by auto
qed

section \<open>Division of a bit number into word and bit\<close>

lemma WORDSIZE_eq: "WORDSIZE n = (n + 31) div 32"
  by (simp add: WORDSIZE_def BITS_PER_WORD_def)

lemma WORDSIZE_bound: "n \<le> 32 * WORDSIZE n"
  using div_mult_mod_eq [of "n + 31" 32] mod_less_divisor [of 32 "n + 31"]
  unfolding WORDSIZE_eq by linarith

lemma WORDSIZE_zero_iff [simp]: "WORDSIZE n = 0 \<longleftrightarrow> n = 0"
  using WORDSIZE_bound [of n] by (auto simp: WORDSIZE_eq)

lemma div_32_less: "k < 32 * w \<Longrightarrow> k div 32 < (w::nat)"
  by (simp add: less_mult_imp_div_less mult.commute)

lemma WORDSIZE_div: "k < n \<Longrightarrow> k div 32 < WORDSIZE n"
  using WORDSIZE_bound [of n] by (intro div_32_less) linarith

lemma drop_bit_5_div: "drop_bit 5 (n::nat) = n div 32"
  by (simp add: drop_bit_eq_div)

lemma and_31_mod: "(n::nat) AND 31 = n mod 32"
proof -
  have "(31::nat) = mask 5" by (simp add: mask_eq_exp_minus_1)
  then have "n AND 31 = take_bit 5 n" by (simp add: take_bit_eq_mask)
  then show ?thesis by (simp add: take_bit_eq_mod)
qed

lemma BIT_iff: "BIT R r n \<longleftrightarrow> bit (R ! (r + n div 32)) (n mod 32)"
proof -
  have "w AND 1 = 1 \<longleftrightarrow> bit w 0" for w :: u32
    by (auto simp: and_one_eq bit_0 odd_iff_mod_2_eq_one)
  then show ?thesis
    by (simp add: BIT_def and_31_mod drop_bit_5_div bit_drop_bit_eq)
qed

lemma bit_one_pushed: "bit (push_bit m (1::u32)) k \<longleftrightarrow> k = m \<and> m < 32"
  unfolding bit_push_bit_iff bit_1_iff by auto

lemma and_bit_test: "m < 32 \<Longrightarrow> (w AND push_bit m (1::u32) \<noteq> 0) = bit w m"
  by (metis and_exp_eq_0_iff_not_bit push_bit_of_1)

lemma length_SETBIT [simp, row_simps]: "length (SETBIT R r n) = length R"
  by (simp add: SETBIT_def)

lemma div_mod_32_eq: "(a::nat) div 32 = b div 32 \<Longrightarrow> a mod 32 = b mod 32 \<Longrightarrow> a = b"
  by (metis div_mult_mod_eq)

lemma BIT_SETBIT:
  assumes "r + n div 32 < length R"
  shows "BIT (SETBIT R r n) q m \<longleftrightarrow>
    (q + m div 32 = r + n div 32 \<and> m mod 32 = n mod 32) \<or> BIT R q m"
proof -
  have S: "SETBIT R r n = R[r + n div 32 := R ! (r + n div 32) OR push_bit (n mod 32) 1]"
    by (simp add: SETBIT_def and_31_mod drop_bit_5_div)
  show ?thesis
    unfolding BIT_iff S using assms
    by (cases "q + m div 32 = r + n div 32")
       (auto simp: bit_or_iff bit_one_pushed)
qed

section \<open>What the row loops compute\<close>

lemma length_or_row [simp, row_simps]: "length (or_row k F p q) = length F"
  by (induction k arbitrary: F p q) auto

lemma length_or_from [simp, row_simps]: "length (or_from k A p B q) = length A"
  by (induction k arbitrary: A p q) auto

lemma length_copy_row [simp, row_simps]: "length (copy_row k F p q) = length F"
  by (induction k arbitrary: F p q) auto

lemma nth_or_row:
  "p + k \<le> length F \<Longrightarrow> p = q \<or> p + k \<le> q \<or> q + k \<le> p \<Longrightarrow>
   or_row k F p q ! x = (if p \<le> x \<and> x < p + k then F ! x OR F ! (q + (x - p)) else F ! x)"
proof (induction k arbitrary: F p q)
  case 0
  then show ?case by auto
next
  case (Suc k)
  let ?F = "F[p := F ! p OR F ! q]"
  have "or_row k ?F (Suc p) (Suc q) ! x =
    (if Suc p \<le> x \<and> x < Suc p + k then ?F ! x OR ?F ! (Suc q + (x - Suc p)) else ?F ! x)"
    using Suc.prems by (intro Suc.IH) auto
  with Suc.prems show ?case
    by (auto simp: nth_list_update Suc_diff_Suc [symmetric] Suc_diff_le split: if_splits)
qed

lemma nth_or_from:
  "p + k \<le> length A \<Longrightarrow>
   or_from k A p B q ! x = (if p \<le> x \<and> x < p + k then A ! x OR B ! (q + (x - p)) else A ! x)"
proof (induction k arbitrary: A p q)
  case 0
  then show ?case by auto
next
  case (Suc k)
  let ?A = "A[p := A ! p OR B ! q]"
  have "or_from k ?A (Suc p) B (Suc q) ! x =
    (if Suc p \<le> x \<and> x < Suc p + k then ?A ! x OR B ! (Suc q + (x - Suc p)) else ?A ! x)"
    using Suc.prems by (intro Suc.IH) auto
  with Suc.prems show ?case
    by (auto simp: nth_list_update Suc_diff_Suc [symmetric] Suc_diff_le split: if_splits)
qed

lemma nth_copy_row:
  "q + k \<le> length F \<Longrightarrow> p = q \<or> p + k \<le> q \<or> q + k \<le> p \<Longrightarrow>
   copy_row k F p q ! x = (if q \<le> x \<and> x < q + k then F ! (p + (x - q)) else F ! x)"
proof (induction k arbitrary: F p q)
  case 0
  then show ?case by auto
next
  case (Suc k)
  let ?F = "F[q := F ! p]"
  have "copy_row k ?F (Suc p) (Suc q) ! x =
    (if Suc q \<le> x \<and> x < Suc q + k then ?F ! (Suc p + (x - Suc q)) else ?F ! x)"
    using Suc.prems by (intro Suc.IH) auto
  with Suc.prems show ?case
    by (auto simp: nth_list_update Suc_diff_Suc [symmetric] Suc_diff_le split: if_splits)
qed

section \<open>Rows as sets\<close>

text \<open>The set of bit numbers that the row of \<open>w\<close> words at index \<open>r\<close> holds.\<close>

definition rowset :: "u32 list \<Rightarrow> nat \<Rightarrow> nat \<Rightarrow> nat set" where
  "rowset R r w = {k. k < 32 * w \<and> BIT R r k}"

lemma in_rowset: "k \<in> rowset R r w \<longleftrightarrow> k < 32 * w \<and> bit (R ! (r + k div 32)) (k mod 32)"
  by (simp add: rowset_def BIT_iff)

lemma rowset_bound: "k \<in> rowset R r w \<Longrightarrow> k < 32 * w"
  by (simp add: rowset_def)

lemma row_end: "i < (n::nat) \<Longrightarrow> i * w + w \<le> n * w"
  by (metis Suc_leI add.commute mult_Suc mult_le_mono1)

lemma row_disjoint: "i \<noteq> (j::nat) \<Longrightarrow> i * w + w \<le> j * w \<or> j * w + w \<le> i * w"
  by (metis nat_neq_iff row_end)

lemma row_index:
  assumes "c < w"
  shows "i * w \<le> x * w + c \<and> x * w + c < i * w + w \<longleftrightarrow> x = (i::nat)"
  using row_disjoint [of x i w] assms by fastforce

lemma in_rowset_word:
  "k \<in> rowset R r w \<longleftrightarrow> k < 32 * w \<and> k div 32 < w \<and> bit (R ! (r + k div 32)) (k mod 32)"
  unfolding in_rowset using div_32_less by blast

lemma or_row_word:
  assumes "i < n" "j < n" "length F = n * w" "c < w"
  shows "or_row w F (i * w) (j * w) ! (x * w + c) =
    (if x = i then F ! (x * w + c) OR F ! (j * w + c) else F ! (x * w + c))"
proof -
  have le: "i * w + w \<le> length F" using row_end [OF assms(1)] assms(3) by simp
  have dj: "i * w = j * w \<or> i * w + w \<le> j * w \<or> j * w + w \<le> i * w"
    using row_disjoint [of i j w] by fastforce
  have "i * w + c - i * w = c" by simp
  then show ?thesis unfolding nth_or_row [OF le dj] row_index [OF assms(4)]
    by (cases "x = i") (simp_all only: if_True if_False simp_thms)
qed

lemma copy_row_word:
  assumes "i < n" "j < n" "length F = n * w" "c < w"
  shows "copy_row w F (i * w) (j * w) ! (x * w + c) =
    (if x = j then F ! (i * w + c) else F ! (x * w + c))"
proof -
  have le: "j * w + w \<le> length F" using row_end [OF assms(2)] assms(3) by simp
  have dj: "i * w = j * w \<or> i * w + w \<le> j * w \<or> j * w + w \<le> i * w"
    using row_disjoint [of i j w] by fastforce
  have "j * w + c - j * w = c" by simp
  then show ?thesis unfolding nth_copy_row [OF le dj] row_index [OF assms(4)]
    by (cases "x = j") (simp_all only: if_True if_False simp_thms)
qed

lemma or_from_word:
  assumes "i < n" "length A = n * w" "c < w"
  shows "or_from w A (i * w) B q ! (x * w + c) =
    (if x = i then A ! (x * w + c) OR B ! (q + c) else A ! (x * w + c))"
proof -
  have le: "i * w + w \<le> length A" using row_end [OF assms(1)] assms(2) by simp
  show ?thesis unfolding nth_or_from [OF le] row_index [OF assms(3)]
    by (cases "x = i") simp_all
qed

lemma rowset_or_row [row_simps]:
  assumes "i < n" "j < n" "length F = n * w"
  shows "rowset (or_row w F (i * w) (j * w)) (x * w) w =
    (if x = i then rowset F (i * w) w \<union> rowset F (j * w) w else rowset F (x * w) w)"
  using or_row_word [OF assms]
  by (intro set_eqI) (auto simp: in_rowset_word bit_or_iff)

lemma rowset_copy_row [row_simps]:
  assumes "i < n" "j < n" "length F = n * w"
  shows "rowset (copy_row w F (i * w) (j * w)) (x * w) w =
    (if x = j then rowset F (i * w) w else rowset F (x * w) w)"
  using copy_row_word [OF assms]
  by (intro set_eqI) (auto simp: in_rowset_word)

lemma rowset_or_from [row_simps]:
  assumes "i < n" "length A = n * w"
  shows "rowset (or_from w A (i * w) B q) (x * w) w =
    (if x = i then rowset A (i * w) w \<union> rowset B q w else rowset A (x * w) w)"
  using or_from_word [OF assms]
  by (intro set_eqI) (auto simp: in_rowset_word bit_or_iff)

lemma rowset_SETBIT [row_simps]:
  assumes "i < n" "length R = n * w" "b < 32 * w"
  shows "rowset (SETBIT R (i * w) b) (x * w) w =
    (if x = i then insert b (rowset R (i * w) w) else rowset R (x * w) w)"
proof -
  have "i * w + b div 32 < length R"
    using row_end [OF assms(1), of w] div_32_less [OF assms(3)] assms(2) by linarith
  note B = BIT_SETBIT [OF this]
  have E: "x * w + k div 32 = i * w + b div 32 \<and> k mod 32 = b mod 32 \<longleftrightarrow> x = i \<and> k = b"
    if "k < 32 * w" for k
  proof
    assume *: "x * w + k div 32 = i * w + b div 32 \<and> k mod 32 = b mod 32"
    have "i * w \<le> x * w + k div 32" "x * w + k div 32 < i * w + w"
      using * div_32_less [OF assms(3)] by auto
    then have "x = i" using row_index [OF div_32_less [OF \<open>k < 32 * w\<close>]] by blast
    with * show "x = i \<and> k = b" by (auto intro: div_mod_32_eq)
  qed auto
  have E1: "k div 32 = b div 32 \<and> k mod 32 = b mod 32 \<longleftrightarrow> k = b" for k
    using div_mod_32_eq by blast
  show ?thesis
    using assms(3) E E1 by (intro set_eqI) (auto simp: rowset_def B)
qed

lemma rowset_replicate_0 [simp]: "r + w \<le> m \<Longrightarrow> rowset (replicate m 0) r w = {}"
  by (auto simp: in_rowset)

end
