(* ===== verification/CText.thy ===== *)
theory CText
  imports Jay_Prelude
begin

text \<open>
  Characters and numbers as text, the way the generator's reader and printers use them: the
  character classes of \<^verbatim>\<open>ctype.h\<close> in the C locale, the macros \<^verbatim>\<open>IS_IDENT\<close> and \<^verbatim>\<open>IS_OCTAL\<close> of
  \<^verbatim>\<open>jay/defs.h\<close>, \<^verbatim>\<open>hexval\<close> and the digit loop of \<^verbatim>\<open>get_number\<close> in \<^verbatim>\<open>jay/reader.c\<close>, and what
  \<^verbatim>\<open>fprintf\<close> does for \<^verbatim>\<open>%d\<close>.  A C string is a \<open>string\<close> without its final NUL.  The theory ends with
  the round trip between \<^verbatim>\<open>%d\<close> and \<^verbatim>\<open>get_number\<close>.
\<close>

section \<open>Characters\<close>

abbreviation code :: "char \<Rightarrow> nat" where
  "code c \<equiv> of_char c"

definition BS :: char where "BS = CHR 0x08"

definition HT :: char where "HT = CHR 0x09"

definition NEWLINE :: char where "NEWLINE = CHR 0x0A"

definition VT :: char where "VT = CHR 0x0B"

definition FF :: char where "FF = CHR 0x0C"

definition CR :: char where "CR = CHR 0x0D"

definition SP :: char where "SP = CHR 0x20"

definition DOUBLE_QUOTE :: char where "DOUBLE_QUOTE = CHR 0x22"

definition QUOTE :: char where "QUOTE = CHR 0x27"

definition BACKSLASH :: char where "BACKSLASH = CHR 0x5C"

definition isdigit :: "char \<Rightarrow> bool" where
  "isdigit c \<longleftrightarrow> 48 \<le> code c \<and> code c \<le> 57"

definition isupper :: "char \<Rightarrow> bool" where
  "isupper c \<longleftrightarrow> 65 \<le> code c \<and> code c \<le> 90"

definition islower :: "char \<Rightarrow> bool" where
  "islower c \<longleftrightarrow> 97 \<le> code c \<and> code c \<le> 122"

definition isalpha :: "char \<Rightarrow> bool" where
  "isalpha c \<longleftrightarrow> isupper c \<or> islower c"

definition isalnum :: "char \<Rightarrow> bool" where
  "isalnum c \<longleftrightarrow> isalpha c \<or> isdigit c"

definition isprint :: "char \<Rightarrow> bool" where
  "isprint c \<longleftrightarrow> 32 \<le> code c \<and> code c \<le> 126"

definition tolower :: "char \<Rightarrow> char" where
  "tolower c = (if isupper c then char_of (code c + 32) else c)"

definition IS_IDENT :: "char \<Rightarrow> bool" where
  "IS_IDENT c \<longleftrightarrow> isalnum c \<or> c = CHR ''_'' \<or> c = CHR ''.'' \<or> c = CHR ''$''"

definition IS_OCTAL :: "char \<Rightarrow> bool" where
  "IS_OCTAL c \<longleftrightarrow> 48 \<le> code c \<and> code c \<le> 55"

definition MAXCHAR :: nat where "MAXCHAR = 255"

text \<open>\<open>None\<close> is the result -1.\<close>

definition hexval :: "char \<Rightarrow> nat option" where
  "hexval c =
     (if 48 \<le> code c \<and> code c \<le> 57 then Some (code c - 48)
      else if 65 \<le> code c \<and> code c \<le> 70 then Some (code c - 65 + 10)
      else if 97 \<le> code c \<and> code c \<le> 102 then Some (code c - 97 + 10)
      else None)"

lemmas char_defs = NEWLINE_def HT_def VT_def FF_def CR_def BS_def SP_def QUOTE_def DOUBLE_QUOTE_def BACKSLASH_def

lemmas ctype_defs = isdigit_def isupper_def islower_def isalpha_def isalnum_def isprint_def
  IS_IDENT_def IS_OCTAL_def char_defs

lemma code_eqD: "code c = code d \<Longrightarrow> c = d"
  by simp

section \<open>Numbers in and out\<close>

text \<open>An \<^verbatim>\<open>int\<close> has 32 bits; a conversion keeps the low ones, as that to a \<^verbatim>\<open>short\<close> does.\<close>

definition int32 :: "int \<Rightarrow> int" where
  "int32 i = signed_take_bit 31 i"

lemma int32_id: "- 2147483648 \<le> i \<Longrightarrow> i \<le> 2147483647 \<Longrightarrow> int32 i = i"
  by (simp add: int32_def signed_take_bit_int_eq_self)

text \<open>The loop \<^verbatim>\<open>for (c = *cptr; isdigit(c); c = *++cptr) n = 10*n + (c - '0')\<close>.\<close>

fun number_chars :: "int \<Rightarrow> string \<Rightarrow> int \<times> string" where
  "number_chars n [] = (n, [])"
| "number_chars n (c # s) =
     (if isdigit c then number_chars (int32 (10 * n + (int (code c) - 48))) s else (n, c # s))"

definition digit_char :: "nat \<Rightarrow> char" where
  "digit_char d = char_of (48 + d)"

text \<open>\<^verbatim>\<open>%d\<close> of a natural number, of an integer, and padded on the left to a width.\<close>

fun show_nat :: "nat \<Rightarrow> string" where
  "show_nat n = (if n < 10 then [digit_char n] else show_nat (n div 10) @ [digit_char (n mod 10)])"

declare show_nat.simps [simp del]

definition show_int :: "int \<Rightarrow> string" where
  "show_int i = (if i < 0 then CHR ''-'' # show_nat (nat (- i)) else show_nat (nat i))"

definition pad_left :: "nat \<Rightarrow> string \<Rightarrow> string" where
  "pad_left w s = replicate (w - length s) SP @ s"

lemma code_digit_char: "d < 10 \<Longrightarrow> code (digit_char d) = 48 + d"
  by (simp add: digit_char_def)

lemma isdigit_digit_char: "d < 10 \<Longrightarrow> isdigit (digit_char d)"
  by (simp add: isdigit_def code_digit_char)

lemma show_nat_not_Nil [simp]: "show_nat n \<noteq> []"
  by (subst show_nat.simps) simp

lemma show_nat_digits: "c \<in> set (show_nat n) \<Longrightarrow> isdigit c"
proof (induction n rule: less_induct)
  case (less n)
  from less.prems show ?case
    using less.IH [of "n div 10"] by (auto simp: show_nat.simps [of n] isdigit_digit_char split: if_splits)
qed

lemma hd_show_nat_digit: "isdigit (hd (show_nat n))"
  using show_nat_digits [of "hd (show_nat n)" n] by simp

lemma number_chars_show:
  "int n \<le> 2147483647 \<Longrightarrow> number_chars 0 (show_nat n @ s) = number_chars (int n) s"
proof (induction n arbitrary: s rule: less_induct)
  case (less n)
  show ?case
  proof (cases "n < 10")
    case True
    then show ?thesis
      by (subst show_nat.simps) (simp add: isdigit_digit_char code_digit_char int32_id)
  next
    case False
    have "number_chars 0 (show_nat n @ s) = number_chars (int (n div 10)) (digit_char (n mod 10) # s)"
      using False less.IH [of "n div 10" "digit_char (n mod 10) # s"] less.prems
      by (subst show_nat.simps) simp
    also have "\<dots> = number_chars (int n) s"
    proof -
      have "10 * int (n div 10) + int (n mod 10) = int n"
        by (metis mult_div_mod_eq of_nat_add of_nat_mult of_nat_numeral)
      then show ?thesis
        using less.prems by (simp add: isdigit_digit_char code_digit_char int32_id)
    qed
    finally show ?thesis .
  qed
qed

text \<open>What \<^verbatim>\<open>%d\<close> prints, \<^verbatim>\<open>get_number\<close> reads back, whatever follows.\<close>

lemma number_roundtrip:
  assumes "int n \<le> 2147483647" "s = [] \<or> \<not> isdigit (hd s)"
  shows "number_chars 0 (show_nat n @ s) = (int n, s)"
  using assms number_chars_show [of n s] by (cases s) simp_all

lemma show_nat_inject:
  assumes "show_nat m = show_nat n" "int m \<le> 2147483647" "int n \<le> 2147483647"
  shows "m = n"
  using number_roundtrip [of m "[]"] number_roundtrip [of n "[]"] assms by simp

lemma number_chars_length: "number_chars n s = (m, r) \<Longrightarrow> length r \<le> length s"
  by (induction n s rule: number_chars.induct) (auto split: if_splits)

lemma number_chars_suffix: "number_chars n s = (m, r) \<Longrightarrow> \<exists>p. s = p @ r \<and> (\<forall>c \<in> set p. isdigit c)"
proof (induction n s rule: number_chars.induct)
  case (2 n c s)
  show ?case
  proof (cases "isdigit c")
    case True
    with 2 obtain p where "s = p @ r" "\<forall>c \<in> set p. isdigit c" by auto
    with True show ?thesis by (intro exI [of _ "c # p"]) simp
  next
    case False
    with 2 show ?thesis by auto
  qed
qed simp

end
