(* ===== verification/Options.thy ===== *)
theory Options
  imports CText
begin

text \<open>
  The arguments and the file names of \<^verbatim>\<open>jay/main.c\<close>: \<^verbatim>\<open>getargs\<close> and \<^verbatim>\<open>create_file_names\<close>.  \<^verbatim>\<open>argv\<close> is the list
  of the arguments behind the program's name.  A call of \<^verbatim>\<open>usage\<close> does not return and is \<open>None\<close>.  The
  environment variable \<^verbatim>\<open>TMPDIR\<close> is a parameter.  A name is built in a block of memory of the size the code
  asks for; writing behind it is an error.
\<close>

section \<open>Arguments\<close>

text \<open>The globals \<^verbatim>\<open>getargs\<close> sets; \<open>op_input = None\<close> is the standard input.\<close>

record options =
  op_tflag :: bool
  op_vflag :: bool
  op_prefix :: string
  op_input :: "string option"

definition no_options :: options where
  "no_options = \<lparr>op_tflag = False, op_vflag = False, op_prefix = ''y'', op_input = None\<rparr>"

text \<open>The flags behind the first one of an argument.\<close>

fun more_flags :: "string \<Rightarrow> options \<Rightarrow> options option" where
  "more_flags [] op = Some op"
| "more_flags (c # s) op =
     (if c = CHR ''t'' then more_flags s (op\<lparr>op_tflag := True\<rparr>)
      else if c = CHR ''v'' then more_flags s (op\<lparr>op_vflag := True\<rparr>)
      else None)"

definition input_name :: "string list \<Rightarrow> options \<Rightarrow> options option" where
  "input_name args op = (case args of [s] \<Rightarrow> Some (op\<lparr>op_input := Some s\<rparr>) | _ \<Rightarrow> None)"

fun getargs :: "string list \<Rightarrow> options \<Rightarrow> options option" where
  "getargs [] op = input_name [] op"
| "getargs (s # args) op =
     (case s of
        [] \<Rightarrow> input_name (s # args) op
      | d # f \<Rightarrow>
          if d \<noteq> CHR ''-'' then input_name (s # args) op
          else (case f of
              [] \<Rightarrow> if args \<noteq> [] then None else Some (op\<lparr>op_input := None\<rparr>)
            | c # rest \<Rightarrow>
                if c = CHR ''-'' then input_name args op
                else if c = CHR ''b'' then
                  (if rest \<noteq> [] then getargs args (op\<lparr>op_prefix := rest\<rparr>)
                   else (case args of [] \<Rightarrow> None | p # args \<Rightarrow> getargs args (op\<lparr>op_prefix := p\<rparr>)))
                else (case more_flags f op of None \<Rightarrow> None | Some op \<Rightarrow> getargs args op)))"

text \<open>
  The arguments for given options, as a user may write them.
\<close>

definition args_of :: "options \<Rightarrow> string list" where
  "args_of op =
     (if op_tflag op \<and> op_vflag op then [''-tv''] else if op_tflag op then [''-t''] else if op_vflag op then [''-v''] else []) @
     [''-b'', op_prefix op] @ (case op_input op of None \<Rightarrow> [''-''] | Some f \<Rightarrow> [''--'', f])"

lemma getargs_args_of: "getargs (args_of op) no_options = Some op"
  by (cases op) (auto simp: args_of_def no_options_def input_name_def split: option.split)

section \<open>File names\<close>

text \<open>
  \<^verbatim>\<open>strcpy(p + i, s)\<close> into a block of \<open>n\<close> bytes that holds the characters \<open>buf\<close>, with a byte for the NUL,
  and an assignment \<^verbatim>\<open>p[i] = c\<close>.
\<close>

definition copy_at :: "nat \<Rightarrow> nat \<Rightarrow> string \<Rightarrow> string \<Rightarrow> jay_error + string" where
  "copy_at n i s buf = (if i + length s + 1 \<le> n then Inr (take i buf @ s) else Inl BadAccess)"

definition poke :: "nat \<Rightarrow> nat \<Rightarrow> char \<Rightarrow> string \<Rightarrow> jay_error + string" where
  "poke n i c buf =
     (if i < n then Inr (if i < length buf then buf[i := c] else buf @ [c]) else Inl BadAccess)"

definition also_do :: "jay_error + 'a \<Rightarrow> ('a \<Rightarrow> jay_error + 'b) \<Rightarrow> jay_error + 'b" where
  "also_do x f = (case x of Inl e \<Rightarrow> Inl e | Inr a \<Rightarrow> f a)"

definition temp_form :: string where "temp_form = ''yacc.XXXXXXX''"

definition VERBOSE_SUFFIX :: string where "VERBOSE_SUFFIX = ''.output''"

text \<open>The names of the three temporary files differ in one letter; \<^verbatim>\<open>mktemp\<close> makes them unique.\<close>

definition temp_name :: "string \<Rightarrow> char \<Rightarrow> jay_error + string" where
  "temp_name tmpdir c =
     (let len = length tmpdir; slash = (len \<noteq> 0 \<and> tmpdir ! (len - 1) \<noteq> CHR ''/'');
          i = (if slash then len + 13 + 1 else len + 13)
      in also_do (copy_at i 0 tmpdir []) (\<lambda>buf.
         also_do (if slash then poke i len (CHR ''/'') buf else Inr buf) (\<lambda>buf.
         let len = (if slash then len + 1 else len)
         in also_do (copy_at i len temp_form buf) (\<lambda>buf. poke i (len + 5) c buf))))"

definition verbose_name :: "string \<Rightarrow> jay_error + string" where
  "verbose_name file_prefix =
     (let len = length file_prefix
      in also_do (copy_at (len + 8) 0 file_prefix []) (\<lambda>buf. copy_at (len + 8) len VERBOSE_SUFFIX buf))"

record file_names =
  fn_action :: string
  fn_prolog :: string
  fn_local :: string
  fn_verbose :: "string option"

definition create_file_names :: "(string \<Rightarrow> string) \<Rightarrow> string option \<Rightarrow> options \<Rightarrow> jay_error + file_names" where
  "create_file_names mktemp env op =
     (let tmpdir = (case env of None \<Rightarrow> ''/tmp'' | Some d \<Rightarrow> d)
      in also_do (temp_name tmpdir (CHR ''a'')) (\<lambda>a.
         also_do (temp_name tmpdir (CHR ''p'')) (\<lambda>p.
         also_do (temp_name tmpdir (CHR ''l'')) (\<lambda>l.
         also_do (if op_vflag op then also_do (verbose_name (op_prefix op)) (\<lambda>v. Inr (Some v)) else Inr None) (\<lambda>v.
           Inr \<lparr>fn_action = mktemp a, fn_prolog = mktemp p, fn_local = mktemp l, fn_verbose = v\<rparr>)))))"

lemma temp_name_fits:
  "temp_name tmpdir c =
     Inr (tmpdir @ (if tmpdir \<noteq> [] \<and> last tmpdir \<noteq> CHR ''/'' then ''/'' else []) @ ''yacc.'' @ c # ''XXXXXX'')"
  by (auto simp: temp_name_def also_do_def copy_at_def poke_def temp_form_def Let_def last_conv_nth nth_append
      list_update_append numeral_eq_Suc)

text \<open>
  For the directory in \<^verbatim>\<open>TMPDIR\<close>, with a slash at its end or without, or empty, or not set, and any prefix for
  the listing, \<^verbatim>\<open>create_file_names\<close> writes inside the blocks it has allocated, and the names are those of three
  files in the directory and of the listing.
\<close>

theorem file_names_fit:
  "create_file_names mktemp env op =
     (let d = (case env of None \<Rightarrow> ''/tmp'' | Some d \<Rightarrow> d);
          path = (\<lambda>c. d @ (if d \<noteq> [] \<and> last d \<noteq> CHR ''/'' then ''/'' else []) @ ''yacc.'' @ c # ''XXXXXX'')
      in Inr \<lparr>fn_action = mktemp (path (CHR ''a'')), fn_prolog = mktemp (path (CHR ''p'')), fn_local = mktemp (path (CHR ''l'')),
           fn_verbose = (if op_vflag op then Some (op_prefix op @ ''.output'') else None)\<rparr>)"
  by (simp add: create_file_names_def temp_name_fits also_do_def verbose_name_def copy_at_def VERBOSE_SUFFIX_def Let_def
      numeral_eq_Suc)

end
