(* ===== verification/Warshall.thy ===== *)
theory Warshall
  imports Jay_Prelude
begin

text \<open>
  \<^verbatim>\<open>jay/warshall.c\<close>: Warshall's closure of a relation kept as a bit matrix.  The pointers of
  the C functions (\<^verbatim>\<open>cword\<close>, \<^verbatim>\<open>rowi\<close>, \<^verbatim>\<open>ccol\<close>, \<^verbatim>\<open>rowj\<close>) are indices into the matrix; the
  two nested loops are \<open>tc_rowj\<close> and \<open>tc_rowi\<close>.  The main lemmas say that
  \<open>transitive_closure\<close> turns the relation \<open>rel_of\<close> the matrix stands for into its
  transitive closure, and that \<open>reflexive_transitive_closure\<close> adds the diagonal.
\<close>

section \<open>The code\<close>

text \<open>The inner loop, over the rows \<open>rowj\<close>; \<open>n * rowsize\<close> is \<^verbatim>\<open>relend\<close>.\<close>

function tc_rowj :: "nat \<Rightarrow> nat \<Rightarrow> nat \<Rightarrow> nat \<Rightarrow> u32 list \<Rightarrow> nat \<Rightarrow> nat \<Rightarrow> u32 list" where
  "tc_rowj n rowsize i rowi R ccol rowj =
     (if rowj < n * rowsize then
        (if R ! ccol AND push_bit i 1 \<noteq> 0
         then tc_rowj n rowsize i rowi (or_row rowsize R rowj rowi) (ccol + rowsize) (rowj + rowsize)
         else tc_rowj n rowsize i rowi R (ccol + rowsize) (rowj + rowsize))
      else R)"
  by pat_completeness auto
termination
proof (relation "measure (\<lambda>(n, rowsize, i, rowi, R, ccol, rowj). n * rowsize - rowj)", goal_cases)
  case (2 n rowsize)
  then show ?case by (cases rowsize) auto
next
  case (3 n rowsize)
  then show ?case by (cases rowsize) auto
qed simp

text \<open>The outer loop, over the rows \<open>rowi\<close> and the column \<open>(cword, i)\<close>.\<close>

function tc_rowi :: "nat \<Rightarrow> nat \<Rightarrow> u32 list \<Rightarrow> nat \<Rightarrow> nat \<Rightarrow> nat \<Rightarrow> u32 list" where
  "tc_rowi n rowsize R cword i rowi =
     (if rowi < n * rowsize then
        let R' = tc_rowj n rowsize i rowi R cword 0 in
        if i + 1 \<ge> BITS_PER_WORD
        then tc_rowi n rowsize R' (cword + 1) 0 (rowi + rowsize)
        else tc_rowi n rowsize R' cword (i + 1) (rowi + rowsize)
      else R)"
  by pat_completeness auto
termination
proof (relation "measure (\<lambda>(n, rowsize, R, cword, i, rowi). n * rowsize - rowi)", goal_cases)
  case (2 n rowsize)
  then show ?case by (cases rowsize) auto
next
  case (3 n rowsize)
  then show ?case by (cases rowsize) auto
qed simp

definition transitive_closure :: "u32 list \<Rightarrow> nat \<Rightarrow> u32 list" where
  "transitive_closure R n = tc_rowi n (WORDSIZE n) R 0 0 0"

text \<open>The loop of \<open>reflexive_transitive_closure\<close>; \<open>rp\<close> also moves one word on every 32 rows.\<close>

function rtc_diag :: "nat \<Rightarrow> nat \<Rightarrow> u32 list \<Rightarrow> nat \<Rightarrow> nat \<Rightarrow> u32 list" where
  "rtc_diag n rowsize R i rp =
     (if rp < n * rowsize then
        let R' = R[rp := R ! rp OR push_bit i 1] in
        if i + 1 \<ge> BITS_PER_WORD
        then rtc_diag n rowsize R' 0 (rp + 1 + rowsize)
        else rtc_diag n rowsize R' (i + 1) (rp + rowsize)
      else R)"
  by pat_completeness auto
termination
proof (relation "measure (\<lambda>(n, rowsize, R, i, rp). n * rowsize - rp)", goal_cases)
  case (3 n rowsize)
  then show ?case by (cases rowsize) auto
qed auto

definition reflexive_transitive_closure :: "u32 list \<Rightarrow> nat \<Rightarrow> u32 list" where
  "reflexive_transitive_closure R n =
     rtc_diag n (WORDSIZE n) (transitive_closure R n) 0 0"

declare tc_rowj.simps [simp del] tc_rowi.simps [simp del] rtc_diag.simps [simp del]

section \<open>Abstract view: one step of the closure\<close>

text \<open>
  The relation a matrix of \<open>n\<close> rows of \<open>w\<close> words stands for, and the step that the outer
  loop makes for the intermediate element \<open>k\<close>.
\<close>

definition rel_of :: "u32 list \<Rightarrow> nat \<Rightarrow> nat \<Rightarrow> (nat \<times> nat) set" where
  "rel_of R n w = {(x, y). x < n \<and> y \<in> rowset R (x * w) w}"

definition through :: "nat \<Rightarrow> (nat \<times> nat) set \<Rightarrow> (nat \<times> nat) set" where
  "through k r = r \<union> {(x, y). (x, k) \<in> r \<and> (k, y) \<in> r}"

text \<open>A relation is closed below \<open>k\<close> if it composes through every element below \<open>k\<close>.\<close>

definition closed_below :: "nat \<Rightarrow> (nat \<times> nat) set \<Rightarrow> bool" where
  "closed_below k r \<longleftrightarrow> (\<forall>m<k. \<forall>x y. (x, m) \<in> r \<longrightarrow> (m, y) \<in> r \<longrightarrow> (x, y) \<in> r)"

lemma through_closed_below:
  assumes "closed_below k r"
  shows "closed_below (Suc k) (through k r)"
proof -
  have c: "(x, y) \<in> r" if "m < k" "(x, m) \<in> r" "(m, y) \<in> r" for x y m
    using assms that by (auto simp: closed_below_def)
  have "(x, y) \<in> through k r" if "m < k" "(x, m) \<in> through k r" "(m, y) \<in> through k r" for m x y
    using that(2,3) c [OF that(1)] by (auto simp: through_def)
  moreover have "(x, y) \<in> through k r"
    if "(x, k) \<in> through k r" "(k, y) \<in> through k r" for x y
    using that by (auto simp: through_def)
  ultimately show ?thesis
    unfolding closed_below_def less_Suc_eq by blast
qed

lemma through_trancl: "r \<subseteq> s\<^sup>+ \<Longrightarrow> through k r \<subseteq> s\<^sup>+"
  by (auto simp: through_def intro: trancl_trans)

lemma fold_through:
  "closed_below k (fold through [0..<k] r) \<and> r \<subseteq> fold through [0..<k] r \<and>
   fold through [0..<k] r \<subseteq> r\<^sup>+"
proof (induction k)
  case 0
  then show ?case by (auto simp: closed_below_def)
next
  case (Suc k)
  then have "closed_below (Suc k) (through k (fold through [0..<k] r))"
    and "through k (fold through [0..<k] r) \<subseteq> r\<^sup>+"
    by (simp_all add: through_closed_below through_trancl)
  moreover have "r \<subseteq> through k (fold through [0..<k] r)"
    using Suc unfolding through_def by blast
  ultimately show ?case by simp
qed

text \<open>Composing through every element of the field makes the relation transitive.\<close>

lemma fold_through_trancl:
  assumes "r \<subseteq> {..<n} \<times> {..<n}"
  shows "fold through [0..<n] r = r\<^sup>+"
proof
  let ?f = "fold through [0..<n] r"
  show "?f \<subseteq> r\<^sup>+" using fold_through by blast
  have "trans ?f"
  proof (rule transI)
    fix x y z assume xy: "(x, y) \<in> ?f" and yz: "(y, z) \<in> ?f"
    from xy have "(x, y) \<in> r\<^sup>+" using fold_through by blast
    then have "y < n" using assms by (auto elim: tranclE)
    with xy yz show "(x, z) \<in> ?f" using fold_through [of n r] by (auto simp: closed_below_def)
  qed
  moreover have "r \<subseteq> ?f" using fold_through by blast
  ultimately show "r\<^sup>+ \<subseteq> ?f" by (metis trancl_id trancl_mono_subset)
qed

section \<open>The loops implement the step\<close>

lemma length_tc_rowj [simp, row_simps]: "length (tc_rowj n w i rowi R ccol rowj) = length R"
proof (induction n w i rowi R ccol rowj rule: tc_rowj.induct)
  case (1 n w i rowi R ccol rowj)
  then show ?case by (subst tc_rowj.simps) auto
qed

lemma BIT_rowset:
  "y < 32 * w \<Longrightarrow> bit (R ! (y div 32 + x * w)) (y mod 32) \<longleftrightarrow> y \<in> rowset R (x * w) w"
  by (simp add: in_rowset add.commute)

lemma tc_rowj_rows:
  assumes "k < n" "length R = n * w" "k < 32 * w" "j \<le> n"
  shows "rowset (tc_rowj n w (k mod 32) (k * w) R (k div 32 + j * w) (j * w)) (x * w) w =
    (if j \<le> x \<and> x < n \<and> k \<in> rowset R (x * w) w
     then rowset R (x * w) w \<union> rowset R (k * w) w else rowset R (x * w) w)"
  using assms
proof (induction "n - j" arbitrary: j R)
  case 0
  then show ?case by (subst tc_rowj.simps) auto
next
  case (Suc d)
  then have jn: "j < n" and w: "0 < w" by auto
  have guard: "j * w < n * w" using jn w by simp
  have nxt: "k div 32 + j * w + w = k div 32 + Suc j * w" "j * w + w = Suc j * w" by simp_all
  have test: "R ! (k div 32 + j * w) AND push_bit (k mod 32) 1 \<noteq> 0 \<longleftrightarrow> k \<in> rowset R (j * w) w"
    using and_bit_test [of "k mod 32"] BIT_rowset [OF Suc.prems(3)] by simp
  note IH = Suc.hyps(1) [of "Suc j"]
  show ?case
  proof (cases "k \<in> rowset R (j * w) w")
    case True
    let ?R = "or_row w R (j * w) (k * w)"
    have row: "rowset ?R (y * w) w =
      (if y = j then rowset R (j * w) w \<union> rowset R (k * w) w else rowset R (y * w) w)" for y
      using Suc.prems(1,2) jn by (simp add: rowset_or_row)
    have k: "rowset ?R (k * w) w = rowset R (k * w) w"
      using row [of k] by auto
    have "rowset (tc_rowj n w (k mod 32) (k * w) ?R (k div 32 + Suc j * w) (Suc j * w)) (x * w) w =
      (if Suc j \<le> x \<and> x < n \<and> k \<in> rowset ?R (x * w) w
       then rowset ?R (x * w) w \<union> rowset ?R (k * w) w else rowset ?R (x * w) w)"
      using Suc.hyps(2) Suc.prems jn by (intro IH) auto
    then show ?thesis
      using True test guard jn unfolding tc_rowj.simps [of n w "k mod 32" "k * w" R "k div 32 + j * w" "j * w"] k nxt
      by (auto simp: row split: if_splits)
  next
    case False
    have "rowset (tc_rowj n w (k mod 32) (k * w) R (k div 32 + Suc j * w) (Suc j * w)) (x * w) w =
      (if Suc j \<le> x \<and> x < n \<and> k \<in> rowset R (x * w) w
       then rowset R (x * w) w \<union> rowset R (k * w) w else rowset R (x * w) w)"
      using Suc.hyps(2) Suc.prems jn by (intro IH) auto
    moreover have "tc_rowj n w (k mod 32) (k * w) R (k div 32 + j * w) (j * w) =
      tc_rowj n w (k mod 32) (k * w) R (k div 32 + Suc j * w) (Suc j * w)"
      using False test guard unfolding tc_rowj.simps [of n w "k mod 32" "k * w" R "k div 32 + j * w" "j * w"] nxt by simp
    moreover have "x \<noteq> j" if "k \<in> rowset R (x * w) w" using that False by auto
    ultimately show ?thesis by (auto simp: Suc_le_eq)
  qed
qed

corollary tc_rowj_through:
  assumes "k < n" "length R = n * w" "n \<le> 32 * w"
  shows "rel_of (tc_rowj n w (k mod 32) (k * w) R (k div 32) 0) n w = through k (rel_of R n w)"
  using tc_rowj_rows [of k n R w 0] assms
  by (auto simp: rel_of_def through_def split: if_splits)

lemma tc_rowi_fold:
  assumes "length R = n * w" "n \<le> 32 * w" "k \<le> n"
  shows "length (tc_rowi n w R (k div 32) (k mod 32) (k * w)) = n * w \<and>
    rel_of (tc_rowi n w R (k div 32) (k mod 32) (k * w)) n w =
    fold through [k..<n] (rel_of R n w)"
  using assms
proof (induction "n - k" arbitrary: k R)
  case 0
  then show ?case by (subst (1 2) tc_rowi.simps) auto
next
  case (Suc d)
  then have kn: "k < n" and w: "0 < w" by auto
  let ?R = "tc_rowj n w (k mod 32) (k * w) R (k div 32) 0"
  have st: "rel_of ?R n w = through k (rel_of R n w)"
    using tc_rowj_through kn Suc.prems by blast
  have "tc_rowi n w R (k div 32) (k mod 32) (k * w) =
    tc_rowi n w ?R (Suc k div 32) (Suc k mod 32) (Suc k * w)"
    using kn w unfolding tc_rowi.simps [of n w R "k div 32" "k mod 32" "k * w"]
    by (auto simp: BITS_PER_WORD_def Let_def div_Suc mod_Suc add.commute)
  moreover have "length (tc_rowi n w ?R (Suc k div 32) (Suc k mod 32) (Suc k * w)) = n * w \<and>
    rel_of (tc_rowi n w ?R (Suc k div 32) (Suc k mod 32) (Suc k * w)) n w =
    fold through [Suc k..<n] (rel_of ?R n w)"
    using Suc.hyps(2) Suc.prems kn by (intro Suc.hyps(1)) auto
  moreover have "[k..<n] = k # [Suc k..<n]" using kn by (rule upt_conv_Cons)
  ultimately show ?case using st by simp
qed

section \<open>Correctness\<close>

lemma rel_of_transitive_closure:
  assumes "length R = n * WORDSIZE n"
    and "rel_of R n (WORDSIZE n) \<subseteq> {..<n} \<times> {..<n}"
  shows "length (transitive_closure R n) = n * WORDSIZE n \<and>
    rel_of (transitive_closure R n) n (WORDSIZE n) = (rel_of R n (WORDSIZE n))\<^sup>+"
  using tc_rowi_fold [of R n "WORDSIZE n" 0] assms WORDSIZE_bound [of n]
    fold_through_trancl [OF assms(2)]
  by (simp add: transitive_closure_def)

lemma rtc_diag_rows:
  assumes "length R = n * w" "n \<le> 32 * w" "k \<le> n"
  shows "length (rtc_diag n w R (k mod 32) (k div 32 + k * w)) = n * w \<and>
    (\<forall>x<n. rowset (rtc_diag n w R (k mod 32) (k div 32 + k * w)) (x * w) w =
      (if k \<le> x then insert x (rowset R (x * w) w) else rowset R (x * w) w))"
  using assms
proof (induction "n - k" arbitrary: k R)
  case 0
  then have "k = n" by simp
  then have "\<not> k div 32 + k * w < n * w" by simp
  then show ?case using 0 by (subst (1 2) rtc_diag.simps) auto
next
  case (Suc d)
  then have kn: "k < n" by simp
  then have k32: "k < 32 * w" using Suc.prems(2) by simp
  let ?R = "R[k div 32 + k * w := R ! (k div 32 + k * w) OR push_bit (k mod 32) 1]"
  have R: "?R = SETBIT R (k * w) k"
    by (simp add: SETBIT_def and_31_mod drop_bit_5_div add.commute)
  have row: "rowset ?R (x * w) w = (if x = k then insert k (rowset R (k * w) w) else rowset R (x * w) w)"
    for x unfolding R using rowset_SETBIT [OF kn Suc.prems(1) k32] by simp
  have guard: "k div 32 + k * w < n * w"
    using row_end [OF kn, of w] div_32_less [OF k32] by linarith
  have "rtc_diag n w R (k mod 32) (k div 32 + k * w) =
    rtc_diag n w ?R (Suc k mod 32) (Suc k div 32 + Suc k * w)"
    using guard unfolding rtc_diag.simps [of n w R "k mod 32" "k div 32 + k * w"]
    by (auto simp: BITS_PER_WORD_def Let_def div_Suc mod_Suc ac_simps)
  moreover have "length (rtc_diag n w ?R (Suc k mod 32) (Suc k div 32 + Suc k * w)) = n * w \<and>
    (\<forall>x<n. rowset (rtc_diag n w ?R (Suc k mod 32) (Suc k div 32 + Suc k * w)) (x * w) w =
      (if Suc k \<le> x then insert x (rowset ?R (x * w) w) else rowset ?R (x * w) w))"
    using Suc.hyps(2) Suc.prems kn by (intro Suc.hyps(1)) auto
  moreover have "k \<le> x \<longleftrightarrow> x = k \<or> Suc k \<le> x" for x by auto
  ultimately show ?case by (simp add: row)
qed

lemma rel_of_reflexive_transitive_closure:
  assumes "length R = n * WORDSIZE n"
    and "rel_of R n (WORDSIZE n) \<subseteq> {..<n} \<times> {..<n}"
  shows "length (reflexive_transitive_closure R n) = n * WORDSIZE n \<and>
    rel_of (reflexive_transitive_closure R n) n (WORDSIZE n) =
    {(x, y). x < n \<and> (x, y) \<in> (rel_of R n (WORDSIZE n))\<^sup>*}"
proof -
  let ?w = "WORDSIZE n" and ?T = "transitive_closure R n"
  note T = rel_of_transitive_closure [OF assms]
  have D: "length (rtc_diag n ?w ?T 0 0) = n * ?w \<and>
    (\<forall>x<n. rowset (rtc_diag n ?w ?T 0 0) (x * ?w) ?w = insert x (rowset ?T (x * ?w) ?w))"
    using rtc_diag_rows [of ?T n ?w 0] T WORDSIZE_bound by simp
  have "y \<in> rowset ?T (x * ?w) ?w \<longleftrightarrow> (x, y) \<in> (rel_of R n ?w)\<^sup>+" if "x < n" for x y
    using T that by (auto simp: rel_of_def)
  with D show ?thesis
    unfolding reflexive_transitive_closure_def rel_of_def [of "rtc_diag n ?w ?T 0 0"]
    by (auto simp: rtrancl_eq_or_trancl)
qed

section \<open>Properties\<close>

text \<open>\<^verbatim>\<open>transitive_closure\<close> replaces the rows of a relation by the rows of its transitive closure.\<close>

theorem transitive_closure_correct:
  assumes "length R = n * WORDSIZE n" "rel_of R n (WORDSIZE n) \<subseteq> {..<n} \<times> {..<n}"
  shows "rel_of (transitive_closure R n) n (WORDSIZE n) = (rel_of R n (WORDSIZE n))\<^sup>+"
  using rel_of_transitive_closure [OF assms] by simp

lemma small_rel: "rel_of [1, 1] 2 1 \<subseteq> {..<2} \<times> {..<2}"
proof
  fix p assume "p \<in> rel_of [1, 1] 2 1"
  then obtain x y where p: "p = (x, y)" "x < 2" "bit ([1, 1 :: u32] ! x) y"
    by (auto simp: rel_of_def in_rowset)
  moreover have "[1, 1 :: u32] ! x = 1" using p(2) by (cases x) (auto simp: less_Suc_eq)
  ultimately show "p \<in> {..<2} \<times> {..<2}" by (simp add: bit_1_iff)
qed

theorem transitive_closure_correct_witness:
  "rel_of (transitive_closure [1, 1] 2) 2 (WORDSIZE 2) = (rel_of [1, 1] 2 (WORDSIZE 2))\<^sup>+"
  by (rule transitive_closure_correct) (use small_rel in \<open>simp_all add: WORDSIZE_eq\<close>)

text \<open>\<^verbatim>\<open>reflexive_transitive_closure\<close> adds the diagonal: the row of \<open>x\<close> holds what \<open>x\<close> reaches.\<close>

theorem reflexive_transitive_closure_correct:
  assumes "length R = n * WORDSIZE n" "rel_of R n (WORDSIZE n) \<subseteq> {..<n} \<times> {..<n}"
  shows "rel_of (reflexive_transitive_closure R n) n (WORDSIZE n) =
    {(x, y). x < n \<and> (x, y) \<in> (rel_of R n (WORDSIZE n))\<^sup>*}"
  using rel_of_reflexive_transitive_closure [OF assms] by simp

theorem reflexive_transitive_closure_correct_witness:
  "rel_of (reflexive_transitive_closure [1, 1] 2) 2 (WORDSIZE 2) =
    {(x, y). x < 2 \<and> (x, y) \<in> (rel_of [1, 1] 2 (WORDSIZE 2))\<^sup>*}"
  by (rule reflexive_transitive_closure_correct) (use small_rel in \<open>simp_all add: WORDSIZE_eq\<close>)

end
