(* ===== verification/Grammar.thy ===== *)
theory Grammar
  imports Jay_Prelude
begin

text \<open>
  The packed grammar that \<^verbatim>\<open>jay/reader.c\<close> (\<^verbatim>\<open>pack_symbols\<close>, \<^verbatim>\<open>pack_grammar\<close>) leaves in global
  variables and every later pass reads, and \<open>wf_grammar\<close>, the layout those functions
  produce.  Symbols are numbered: the tokens from 0 (\<^verbatim>\<open>$end\<close>), the nonterminals from
  \<^verbatim>\<open>start_symbol\<close> (\<^verbatim>\<open>$accept\<close>).  \<^verbatim>\<open>ritem\<close> holds all right-hand sides one after another, each
  ended by minus its rule number; \<^verbatim>\<open>rrhs[r]\<close> is where rule \<open>r\<close> begins.  An item (a rule with
  a dot) is an index into \<^verbatim>\<open>ritem\<close>.  The C arrays hold \<^verbatim>\<open>short\<close> values; \<open>wf_grammar\<close> bounds
  the sizes, so that the numbers of symbols, rules and items are \<^verbatim>\<open>short\<close>s.  What the passes store beyond these
  (totals and the numbers of gotos, edges and vectors) is not bounded by this, and each pass says where it may not fit.
\<close>

section \<open>Data\<close>

record grammar =
  nitems :: nat
  nrules :: nat
  nsyms :: nat
  ntokens :: nat
  nvars :: nat
  start_symbol :: nat
  ritem :: "int list"
  rlhs :: "nat list"
  rrhs :: "nat list"
  rprec :: "int list"
  rassoc :: "nat list"
  symbol_value :: "int list"
  symbol_prec :: "int list"
  symbol_assoc :: "nat list"

definition ISTOKEN :: "grammar \<Rightarrow> int \<Rightarrow> bool" where
  "ISTOKEN g s \<longleftrightarrow> s < int (start_symbol g)"

definition ISVAR :: "grammar \<Rightarrow> int \<Rightarrow> bool" where
  "ISVAR g s \<longleftrightarrow> s \<ge> int (start_symbol g)"

section \<open>The layout of a packed grammar\<close>

text \<open>
  Rules 0 and 1 are place holders, rule 2 is \<^verbatim>\<open>$accept : goal $end\<close>, the rules of the input
  start at 3 and mention neither \<^verbatim>\<open>$end\<close> nor \<^verbatim>\<open>$accept\<close>.
\<close>

definition wf_sizes :: "grammar \<Rightarrow> bool" where
  "wf_sizes g \<longleftrightarrow>
     nitems g = length (ritem g) \<and> nrules g = length (rlhs g) \<and>
     length (rrhs g) = Suc (nrules g) \<and> nsyms g = ntokens g + nvars g \<and>
     start_symbol g = ntokens g \<and> 2 \<le> ntokens g \<and> 2 \<le> nvars g \<and> 3 \<le> nrules g \<and>
     4 \<le> nitems g \<and> nitems g \<le> MAXSHORT \<and> nsyms g \<le> MAXSHORT + 1 \<and> nrules g \<le> MAXSHORT"

definition wf_header :: "grammar \<Rightarrow> bool" where
  "wf_header g \<longleftrightarrow>
     rrhs g ! 0 = 0 \<and> rrhs g ! 1 = 0 \<and> rrhs g ! 2 = 1 \<and> rrhs g ! 3 = 4 \<and>
     rrhs g ! nrules g = nitems g \<and>
     rlhs g ! 0 = 0 \<and> rlhs g ! 1 = 0 \<and> rlhs g ! 2 = start_symbol g \<and>
     ritem g ! 0 = - 1 \<and> ritem g ! 1 = int (start_symbol g) + 1 \<and>
     ritem g ! 2 = 0 \<and> ritem g ! 3 = - 2"

definition wf_rule :: "grammar \<Rightarrow> nat \<Rightarrow> bool" where
  "wf_rule g r \<longleftrightarrow>
     start_symbol g < rlhs g ! r \<and> rlhs g ! r < nsyms g \<and>
     rrhs g ! r < rrhs g ! Suc r \<and> rrhs g ! Suc r \<le> nitems g \<and>
     ritem g ! (rrhs g ! Suc r - 1) = - int r \<and>
     (\<forall>i \<in> {rrhs g ! r ..< rrhs g ! Suc r - 1}.
        0 < ritem g ! i \<and> ritem g ! i < int (nsyms g) \<and> ritem g ! i \<noteq> int (start_symbol g))"

definition wf_grammar :: "grammar \<Rightarrow> bool" where
  "wf_grammar g \<longleftrightarrow> wf_sizes g \<and> wf_header g \<and> (\<forall>r \<in> {3..<nrules g}. wf_rule g r)"

text \<open>The right-hand side of a rule, and the rules of a nonterminal.\<close>

definition rhs_syms :: "grammar \<Rightarrow> nat \<Rightarrow> nat list" where
  "rhs_syms g r = map (\<lambda>i. nat (ritem g ! i)) [rrhs g ! r ..< rrhs g ! Suc r - 1]"

definition rules_of :: "grammar \<Rightarrow> nat \<Rightarrow> nat list" where
  "rules_of g A = filter (\<lambda>r. rlhs g ! r = A) [0..<nrules g]"

section \<open>Facts about the layout\<close>

lemma wf_sizesD:
  assumes "wf_grammar g"
  shows "nitems g = length (ritem g)" "nrules g = length (rlhs g)"
    "length (rrhs g) = Suc (nrules g)" "nsyms g = ntokens g + nvars g"
    "start_symbol g = ntokens g" "2 \<le> ntokens g" "2 \<le> nvars g" "3 \<le> nrules g"
    "4 \<le> nitems g" "nitems g \<le> MAXSHORT" "nsyms g \<le> MAXSHORT + 1" "nrules g \<le> MAXSHORT"
  using assms by (auto simp: wf_grammar_def wf_sizes_def)

lemma wf_headerD:
  assumes "wf_grammar g"
  shows "rrhs g ! 0 = 0" "rrhs g ! 1 = 0" "rrhs g ! Suc 0 = 0" "rrhs g ! 2 = 1" "rrhs g ! 3 = 4"
    "rrhs g ! nrules g = nitems g"
    "rlhs g ! 0 = 0" "rlhs g ! 1 = 0" "rlhs g ! Suc 0 = 0" "rlhs g ! 2 = start_symbol g"
    "ritem g ! 0 = - 1" "ritem g ! 1 = int (start_symbol g) + 1"
    "ritem g ! Suc 0 = int (start_symbol g) + 1"
    "ritem g ! 2 = 0" "ritem g ! 3 = - 2"
  using assms by (auto simp: wf_grammar_def wf_header_def)

lemma wf_ruleD:
  assumes "wf_grammar g" "3 \<le> r" "r < nrules g"
  shows "start_symbol g < rlhs g ! r" "rlhs g ! r < nsyms g"
    "rrhs g ! r < rrhs g ! Suc r" "rrhs g ! Suc r \<le> nitems g"
    "ritem g ! (rrhs g ! Suc r - 1) = - int r"
    "\<And>i. rrhs g ! r \<le> i \<Longrightarrow> i < rrhs g ! Suc r - 1 \<Longrightarrow>
       0 < ritem g ! i \<and> ritem g ! i < int (nsyms g) \<and> ritem g ! i \<noteq> int (start_symbol g)"
  using assms by (auto simp: wf_grammar_def wf_rule_def)

text \<open>The same facts for every rule from 1 on, with the weaker bound on the symbols.\<close>

lemma rule_block:
  assumes wf: "wf_grammar g" and r: "1 \<le> r" "r < nrules g"
  shows "rrhs g ! r < rrhs g ! Suc r" "rrhs g ! Suc r \<le> nitems g"
    "ritem g ! (rrhs g ! Suc r - 1) = - int r"
    "\<And>i. rrhs g ! r \<le> i \<Longrightarrow> i < rrhs g ! Suc r - 1 \<Longrightarrow>
       0 \<le> ritem g ! i \<and> ritem g ! i < int (nsyms g)"
proof -
  have two: "Suc (Suc 0) = 2" "Suc 2 = 3" by simp_all
  have one: "Suc 1 = 2" by simp
  consider "r = 1" | "r = 2" | "3 \<le> r" using r by linarith
  then have "rrhs g ! r < rrhs g ! Suc r \<and> rrhs g ! Suc r \<le> nitems g \<and>
    ritem g ! (rrhs g ! Suc r - 1) = - int r \<and>
    (\<forall>i. rrhs g ! r \<le> i \<longrightarrow> i < rrhs g ! Suc r - 1 \<longrightarrow>
       0 \<le> ritem g ! i \<and> ritem g ! i < int (nsyms g))"
  proof cases
    assume [simp]: "r = 1"
    show ?thesis
      unfolding \<open>r = 1\<close> one using wf_headerD(2,4,11) [OF wf] wf_sizesD(9) [OF wf] by simp
  next
    assume [simp]: "r = 2"
    have "i = 1 \<or> i = 2" if "1 \<le> i" "i < (3::nat)" for i using that by arith
    then show ?thesis
      using wf_headerD [OF wf] wf_sizesD [OF wf] two by fastforce
  next
    assume "3 \<le> r"
    then show ?thesis using wf_ruleD [OF wf _ r(2)] by fastforce
  qed
  then show "rrhs g ! r < rrhs g ! Suc r" "rrhs g ! Suc r \<le> nitems g"
    "ritem g ! (rrhs g ! Suc r - 1) = - int r"
    "\<And>i. rrhs g ! r \<le> i \<Longrightarrow> i < rrhs g ! Suc r - 1 \<Longrightarrow>
       0 \<le> ritem g ! i \<and> ritem g ! i < int (nsyms g)" by blast+
qed

lemma rlhs_bound:
  assumes wf: "wf_grammar g" and r: "r < nrules g"
  shows "rlhs g ! r < nsyms g"
proof -
  consider "r = 0" | "r = 1" | "r = 2" | "3 \<le> r" by linarith
  then show ?thesis
    by cases (use wf_headerD [OF wf] wf_sizesD [OF wf] wf_ruleD(2) [OF wf _ r] in auto)
qed

lemma rlhs_var:
  assumes wf: "wf_grammar g" and r: "2 \<le> r" "r < nrules g"
  shows "start_symbol g \<le> rlhs g ! r"
proof -
  consider "r = 2" | "3 \<le> r" using r by linarith
  then show ?thesis
    by cases (use wf_headerD [OF wf] wf_ruleD(1) [OF wf _ r(2)] in auto)
qed

lemma rlhs_var_ge_2:
  assumes wf: "wf_grammar g" and r: "r < nrules g" "start_symbol g \<le> rlhs g ! r"
  shows "2 \<le> r"
proof (rule ccontr)
  assume "\<not> 2 \<le> r"
  then have "r = 0 \<or> r = 1" by linarith
  then show False using wf_headerD(7,8) [OF wf] wf_sizesD(5,6) [OF wf] r(2) by auto
qed

lemma rrhs_less:
  assumes wf: "wf_grammar g" and "1 \<le> r" "r < q" "q \<le> nrules g"
  shows "rrhs g ! r < rrhs g ! q"
  using assms(3,4)
proof (induction q)
  case 0
  then show ?case by simp
next
  case (Suc q)
  then have "rrhs g ! q < rrhs g ! Suc q" using rule_block(1) [OF wf, of q] assms(2) by simp
  with Suc show ?case by (cases "r = q") (auto simp: less_Suc_eq)
qed

lemma rrhs_mono:
  "wf_grammar g \<Longrightarrow> 1 \<le> r \<Longrightarrow> r \<le> q \<Longrightarrow> q \<le> nrules g \<Longrightarrow> rrhs g ! r \<le> rrhs g ! q"
  using rrhs_less [of g r q] by (cases "r = q") auto

lemma rrhs_inj:
  "wf_grammar g \<Longrightarrow> 1 \<le> r \<Longrightarrow> 1 \<le> q \<Longrightarrow> r < nrules g \<Longrightarrow> q < nrules g \<Longrightarrow>
   rrhs g ! r = rrhs g ! q \<Longrightarrow> r = q"
  using rrhs_less [of g r q] rrhs_less [of g q r] by (metis less_irrefl less_or_eq_imp_le nat_neq_iff)

lemma rrhs_bound: "wf_grammar g \<Longrightarrow> 1 \<le> r \<Longrightarrow> r < nrules g \<Longrightarrow> rrhs g ! r < nitems g"
  using rule_block(1,2) [of g r] by simp

text \<open>Every item belongs to exactly one rule.\<close>

lemma item_rule:
  assumes wf: "wf_grammar g" and i: "i < nitems g"
  shows "\<exists>r. 1 \<le> r \<and> r < nrules g \<and> rrhs g ! r \<le> i \<and> i < rrhs g ! Suc r"
proof -
  have "\<exists>r. 1 \<le> r \<and> r < q \<and> rrhs g ! r \<le> i \<and> i < rrhs g ! Suc r"
    if "1 \<le> q" "q \<le> nrules g" "i < rrhs g ! q" for q
    using that
  proof (induction q)
    case (Suc q)
    show ?case
    proof (cases "q = 0")
      case True
      with Suc.prems show ?thesis using wf_headerD(2) [OF wf] by simp
    next
      case False
      show ?thesis
      proof (cases "i < rrhs g ! q")
        case True
        with False Suc show ?thesis by (auto simp: less_Suc_eq)
      next
        case nlt: False
        with False Suc.prems show ?thesis by (intro exI [of _ q]) auto
      qed
    qed
  qed simp
  from this [of "nrules g"] show ?thesis using i wf_headerD(6) [OF wf] wf_sizesD(8) [OF wf] by simp
qed

lemma ritem_cases:
  assumes wf: "wf_grammar g" and i: "i < nitems g"
  obtains (sym) "0 \<le> ritem g ! i" "ritem g ! i < int (nsyms g)" "Suc i < nitems g"
  | (end_of) r where "1 \<le> r" "r < nrules g" "ritem g ! i = - int r" "i = rrhs g ! Suc r - 1"
proof -
  obtain r where r: "1 \<le> r" "r < nrules g" "rrhs g ! r \<le> i" "i < rrhs g ! Suc r"
    using item_rule [OF wf i] by blast
  note b = rule_block [OF wf r(1,2)]
  show ?thesis
  proof (cases "i = rrhs g ! Suc r - 1")
    case True
    then show ?thesis using b(3) r by (intro end_of) auto
  next
    case False
    then have "i < rrhs g ! Suc r - 1" using r by linarith
    then show ?thesis using b(2) b(4) [of i] r by (intro sym) auto
  qed
qed

lemma ritem_sym:
  assumes wf: "wf_grammar g" and i: "i < nitems g" and s: "0 \<le> ritem g ! i"
  shows "ritem g ! i < int (nsyms g)" "Suc i < nitems g"
proof -
  have "ritem g ! i < int (nsyms g) \<and> Suc i < nitems g"
    using s by (cases rule: ritem_cases [OF wf i]) simp_all
  then show "ritem g ! i < int (nsyms g)" "Suc i < nitems g" by simp_all
qed

lemma ritem_end:
  assumes wf: "wf_grammar g" and i: "i < nitems g" and s: "ritem g ! i < 0"
  obtains r where "1 \<le> r" "r < nrules g" "ritem g ! i = - int r" "i = rrhs g ! Suc r - 1"
  using s by (cases rule: ritem_cases [OF wf i]) auto

lemma set_rules_of: "set (rules_of g A) = {r. r < nrules g \<and> rlhs g ! r = A}"
  by (auto simp: rules_of_def)

lemma rhs_syms_bound:
  assumes "wf_grammar g" "1 \<le> r" "r < nrules g" "s \<in> set (rhs_syms g r)"
  shows "s < nsyms g"
  using assms(4) rule_block(4) [OF assms(1-3)] by (auto simp: rhs_syms_def nat_less_iff)

section \<open>A small grammar\<close>

text \<open>
  \<open>S : 'a' S | ;\<close> in the packed layout: tokens \<^verbatim>\<open>$end\<close> 0, \<^verbatim>\<open>error\<close> 1, \<open>'a'\<close> 2, nonterminals \<^verbatim>\<open>$accept\<close> 3
  and \<open>S\<close> 4.  The witnesses of the development run on it.
\<close>

definition sample_grammar :: grammar where
  "sample_grammar =
     \<lparr>nitems = 8, nrules = 5, nsyms = 5, ntokens = 3, nvars = 2, start_symbol = 3,
      ritem = [- 1, 4, 0, - 2, 2, 4, - 3, - 4], rlhs = [0, 0, 3, 4, 4], rrhs = [0, 0, 1, 4, 7, 8],
      rprec = [0, 0, 0, 0, 0], rassoc = [0, 0, 0, 0, 0], symbol_value = [0, 256, 97, - 1, 0],
      symbol_prec = [0, 0, 0, 0, 0], symbol_assoc = [0, 0, 0, 0, 0]\<rparr>"

lemma sample_wf: "wf_grammar sample_grammar"
proof -
  have "wf_sizes sample_grammar" "wf_header sample_grammar"
    by (simp_all add: wf_sizes_def wf_header_def sample_grammar_def MAXSHORT_def)
  moreover have "wf_rule sample_grammar r" if "r \<in> {3..<5}" for r
  proof -
    have "r = 3 \<or> r = 4" using that by auto
    moreover have "{4..<Suc 5} = {4, 5::nat}" by auto
    ultimately show ?thesis
      by (auto simp: wf_rule_def sample_grammar_def nth_Cons' elim!: less_natE)
  qed
  ultimately show ?thesis by (simp add: wf_grammar_def sample_grammar_def)
qed

end
