(* ===== verification/Derives.thy ===== *)
theory Derives
  imports Grammar
begin

text \<open>
  The two preparatory passes of \<^verbatim>\<open>jay/lr0.c\<close>: \<open>set_derives\<close>, which lists the rules of every
  nonterminal in one array of \<open>- 1\<close>-terminated rows, and \<open>set_nullable\<close>, the fixpoint loop
  for the nullable symbols.  The lemmas say that row \<open>A\<close> of the first is \<open>rules_of g A\<close>, and
  that the second terminates and marks exactly the symbols that derive the empty string.
\<close>

section \<open>set\_derives\<close>

text \<open>
  \<^verbatim>\<open>derives[lhs]\<close> is a pointer into \<^verbatim>\<open>rules\<close>; here it is an index.  A loop
  \<^verbatim>\<open>for (sp = derives[A]; *sp >= 0; sp++)\<close> visits \<open>derive_row dv A\<close>.
\<close>

record derives_table =
  derives :: "nat list"
  derive_rules :: "int list"

definition set_derives_rule :: "grammar \<Rightarrow> nat \<Rightarrow> nat \<Rightarrow> int list \<times> nat \<Rightarrow> int list \<times> nat" where
  "set_derives_rule g lhs i = (\<lambda>(rules, k).
     if rlhs g ! i = lhs then (rules[k := int i], k + 1) else (rules, k))"

definition set_derives_lhs ::
  "grammar \<Rightarrow> nat \<Rightarrow> nat list \<times> int list \<times> nat \<Rightarrow> nat list \<times> int list \<times> nat" where
  "set_derives_lhs g lhs = (\<lambda>(dv, rules, k).
     let dv = dv[lhs := k];
         (rules, k) = fold (set_derives_rule g lhs) [0..<nrules g] (rules, k)
     in (dv, rules[k := - 1], k + 1))"

definition set_derives :: "grammar \<Rightarrow> derives_table" where
  "set_derives g =
     (let dv = replicate (nsyms g) 0;
          rules = replicate (nvars g + nrules g) 0;
          (dv, rules, k) = fold (set_derives_lhs g) [start_symbol g..<nsyms g] (dv, rules, 0)
      in \<lparr>derives = dv, derive_rules = rules\<rparr>)"

definition derive_row :: "derives_table \<Rightarrow> nat \<Rightarrow> nat list" where
  "derive_row dv A = map nat (takeWhile (\<lambda>r. 0 \<le> r) (drop (derives dv ! A) (derive_rules dv)))"

subsection \<open>Correctness\<close>

definition derive_block :: "grammar \<Rightarrow> nat \<Rightarrow> int list" where
  "derive_block g A = map int (rules_of g A) @ [- 1]"

definition derive_blocks :: "grammar \<Rightarrow> nat \<Rightarrow> nat \<Rightarrow> int list" where
  "derive_blocks g a b = concat (map (derive_block g) [a..<b])"

lemma take_snoc_update:
  "k < length xs \<Longrightarrow> take (Suc k) (xs[k := y]) = take k xs @ [y]"
  by (simp add: take_Suc_conv_app_nth)

lemma fold_set_derives_rule:
  assumes "k + length (filter (\<lambda>i. rlhs g ! i = lhs) is) \<le> length rules"
  shows "\<exists>rules'. fold (set_derives_rule g lhs) is (rules, k) =
      (rules', k + length (filter (\<lambda>i. rlhs g ! i = lhs) is)) \<and>
    length rules' = length rules \<and>
    take (k + length (filter (\<lambda>i. rlhs g ! i = lhs) is)) rules' =
      take k rules @ map int (filter (\<lambda>i. rlhs g ! i = lhs) is)"
  using assms
proof (induction "is" arbitrary: rules k)
  case Nil
  then show ?case by simp
next
  case (Cons i "is")
  show ?case
  proof (cases "rlhs g ! i = lhs")
    case True
    with Cons.prems have k: "k < length rules" by simp
    from Cons.IH [of "Suc k" "rules[k := int i]"] Cons.prems True k show ?thesis
      by (simp add: set_derives_rule_def take_snoc_update)
  next
    case False
    with Cons.IH [of k rules] Cons.prems show ?thesis by (simp add: set_derives_rule_def)
  qed
qed

lemma length_derive_block: "length (derive_block g A) = Suc (length (rules_of g A))"
  by (simp add: derive_block_def)

lemma derive_blocks_Suc:
  "a \<le> b \<Longrightarrow> derive_blocks g a (Suc b) = derive_blocks g a b @ derive_block g b"
  by (simp add: derive_blocks_def)

lemma length_derive_blocks:
  assumes "a \<le> b"
  shows "length (derive_blocks g a b) =
    (b - a) + length (filter (\<lambda>r. a \<le> rlhs g ! r \<and> rlhs g ! r < b) [0..<nrules g])"
  using assms
proof (induction b rule: dec_induct)
  case base
  then show ?case by (simp add: derive_blocks_def)
next
  case (step b)
  have "length (filter (\<lambda>r. a \<le> rlhs g ! r \<and> rlhs g ! r < Suc b) rs) =
    length (filter (\<lambda>r. a \<le> rlhs g ! r \<and> rlhs g ! r < b) rs) +
    length (filter (\<lambda>r. rlhs g ! r = b) rs)" for rs
    using step.hyps(1) by (induction rs) auto
  with step show ?case
    by (simp add: derive_blocks_Suc length_derive_block rules_of_def)
qed

lemma derive_blocks_bound:
  assumes "a \<le> b"
  shows "length (derive_blocks g a b) \<le> (b - a) + nrules g"
  using length_derive_blocks [OF assms, of g] length_filter_le [of _ "[0..<nrules g]"]
  by (metis add_left_mono diff_zero length_upt)

lemma set_derives_lhs_step:
  assumes "length rules = N" "take k rules = bs" "k = length bs"
    and "k + length (derive_block g lhs) \<le> N"
  shows "\<exists>rules'. set_derives_lhs g lhs (dv, rules, k) =
      (dv[lhs := k], rules', length (bs @ derive_block g lhs)) \<and>
    length rules' = N \<and> take (length (bs @ derive_block g lhs)) rules' = bs @ derive_block g lhs"
proof -
  let ?n = "length (rules_of g lhs)"
  have le: "k + length (filter (\<lambda>i. rlhs g ! i = lhs) [0..<nrules g]) \<le> length rules"
    using assms by (simp add: length_derive_block rules_of_def)
  obtain rules' where r: "fold (set_derives_rule g lhs) [0..<nrules g] (rules, k) = (rules', k + ?n)"
    "length rules' = N" "take (k + ?n) rules' = bs @ map int (rules_of g lhs)"
    using fold_set_derives_rule [OF le] assms by (auto simp: rules_of_def)
  have "k + ?n < length rules'" using assms r by (simp add: length_derive_block)
  from take_snoc_update [OF this, of "- 1"] r assms show ?thesis
    by (intro exI [of _ "rules'[k + ?n := - 1]"])
       (simp add: set_derives_lhs_def derive_block_def)
qed

lemma fold_set_derives_lhs:
  assumes "start_symbol g \<le> b" "b \<le> nsyms g" "nsyms g = start_symbol g + nvars g"
  shows "\<exists>dv rules. fold (set_derives_lhs g) [start_symbol g..<b]
      (replicate (nsyms g) 0, replicate (nvars g + nrules g) 0, 0) =
      (dv, rules, length (derive_blocks g (start_symbol g) b)) \<and>
    length dv = nsyms g \<and> length rules = nvars g + nrules g \<and>
    take (length (derive_blocks g (start_symbol g) b)) rules = derive_blocks g (start_symbol g) b \<and>
    (\<forall>A. start_symbol g \<le> A \<longrightarrow> A < b \<longrightarrow> dv ! A = length (derive_blocks g (start_symbol g) A))"
  using assms(1,2)
proof (induction b rule: dec_induct)
  case base
  then show ?case by (simp add: derive_blocks_def)
next
  case (step b)
  let ?bs = "derive_blocks g (start_symbol g) b"
  from step obtain dv rules where IH:
    "fold (set_derives_lhs g) [start_symbol g..<b]
      (replicate (nsyms g) 0, replicate (nvars g + nrules g) 0, 0) = (dv, rules, length ?bs)"
    "length dv = nsyms g" "length rules = nvars g + nrules g" "take (length ?bs) rules = ?bs"
    "\<And>A. start_symbol g \<le> A \<Longrightarrow> A < b \<Longrightarrow> dv ! A = length (derive_blocks g (start_symbol g) A)"
    by auto
  have S: "derive_blocks g (start_symbol g) (Suc b) = ?bs @ derive_block g b"
    using step.hyps by (simp add: derive_blocks_Suc)
  have "length (derive_blocks g (start_symbol g) (Suc b)) \<le> Suc b - start_symbol g + nrules g"
    using step.hyps by (intro derive_blocks_bound) simp
  then have fits: "length ?bs + length (derive_block g b) \<le> nvars g + nrules g"
    using step.prems assms(3) unfolding S by simp
  obtain rules' where r: "set_derives_lhs g b (dv, rules, length ?bs) =
      (dv[b := length ?bs], rules', length (?bs @ derive_block g b))"
    "length rules' = nvars g + nrules g"
    "take (length (?bs @ derive_block g b)) rules' = ?bs @ derive_block g b"
    using set_derives_lhs_step [OF IH(3,4) refl fits] by blast
  have "[start_symbol g..<Suc b] = [start_symbol g..<b] @ [b]" using step.hyps by simp
  then show ?case
    using IH r step.hyps step.prems unfolding S by (auto simp: nth_list_update less_Suc_eq)
qed

lemma derive_blocks_split:
  assumes "a \<le> A" "A < b"
  shows "\<exists>rest. derive_blocks g a b = derive_blocks g a A @ derive_block g A @ rest"
proof -
  have "[a..<b] = [a..<A] @ A # [Suc A..<b]"
    using assms upt_split [of a A b] by (simp add: upt_conv_Cons)
  then show ?thesis by (simp add: derive_blocks_def)
qed

theorem derive_row_set_derives:
  assumes wf: "wf_grammar g" and A: "start_symbol g \<le> A" "A < nsyms g"
  shows "derive_row (set_derives g) A = rules_of g A"
proof -
  let ?bs = "derive_blocks g (start_symbol g)"
  have n: "nsyms g = start_symbol g + nvars g" using wf_sizesD [OF wf] by simp
  obtain dv rules where f:
    "fold (set_derives_lhs g) [start_symbol g..<nsyms g]
      (replicate (nsyms g) 0, replicate (nvars g + nrules g) 0, 0) =
      (dv, rules, length (?bs (nsyms g)))"
    "take (length (?bs (nsyms g))) rules = ?bs (nsyms g)"
    "dv ! A = length (?bs A)"
    using fold_set_derives_lhs [OF _ order_refl n] A by auto
  obtain rest where "?bs (nsyms g) = ?bs A @ derive_block g A @ rest"
    using derive_blocks_split [OF A] by blast
  then have "rules = ?bs A @ derive_block g A @ rest @ drop (length (?bs (nsyms g))) rules"
    using append_take_drop_id [of "length (?bs (nsyms g))" rules] f(2) by (metis append.assoc)
  then have "drop (dv ! A) rules = derive_block g A @ rest @ drop (length (?bs (nsyms g))) rules"
    using f(3) by (metis append_eq_conv_conj)
  moreover have "takeWhile (\<lambda>r. 0 \<le> r) (derive_block g A @ xs) = map int (rules_of g A)" for xs
    by (simp add: derive_block_def takeWhile_append takeWhile_map)
  ultimately show ?thesis
    using f(1) by (simp add: derive_row_def set_derives_def Let_def comp_def)
qed

section \<open>set\_nullable\<close>

text \<open>
  The scan of one right-hand side, \<^verbatim>\<open>while ((j = ritem[i]) >= 0)\<close>: the position of its end
  marker and whether all its symbols are nullable.  The test \<open>i < length (ritem g)\<close> only
  makes the recursion total; the scan stops at the end marker.
\<close>

function rhs_scan :: "grammar \<Rightarrow> bool list \<Rightarrow> nat \<Rightarrow> bool \<Rightarrow> nat \<times> bool" where
  "rhs_scan g nullable i emp =
     (if i < length (ritem g) \<and> 0 \<le> ritem g ! i
      then rhs_scan g nullable (Suc i) (if \<not> nullable ! nat (ritem g ! i) then False else emp)
      else (i, emp))"
  by pat_completeness auto
termination by (relation "measure (\<lambda>(g, nullable, i, emp). length (ritem g) - i)") auto

declare rhs_scan.simps [simp del]

lemma rhs_scan_ge: "i \<le> fst (rhs_scan g nl i e)"
proof (induction g nl i e rule: rhs_scan.induct)
  case (1 g nl i e)
  then show ?case by (subst rhs_scan.simps) (auto dest: Suc_leD)
qed

text \<open>One pass \<^verbatim>\<open>for (i = 1; i < nitems; i++)\<close>; the state is \<^verbatim>\<open>nullable\<close> and \<^verbatim>\<open>done\<close>.\<close>

function nullable_pass :: "grammar \<Rightarrow> nat \<Rightarrow> bool list \<times> bool \<Rightarrow> bool list \<times> bool" where
  "nullable_pass g i st =
     (if i < nitems g then
        let (e, emp) = rhs_scan g (fst st) i True;
            j = rlhs g ! nat (- (ritem g ! e)) in
        nullable_pass g (Suc e)
          (if emp \<and> \<not> fst st ! j then ((fst st)[j := True], False) else st)
      else st)"
  by pat_completeness auto
termination
proof (relation "measure (\<lambda>(g, i, st). nitems g - i)", goal_cases)
  case (2 g i st x e emp)
  then have "i \<le> e" using rhs_scan_ge [of i g "fst st" True] by (metis fst_conv)
  with 2 show ?case by simp
qed simp

declare nullable_pass.simps [simp del]

text \<open>
  The loop \<^verbatim>\<open>while (!done)\<close>, with fuel for its rounds; every round but the last marks a new
  symbol, so \<open>nsyms + 1\<close> rounds are enough (\<open>set_nullable_terminates\<close>).
\<close>

fun nullable_loop :: "nat \<Rightarrow> grammar \<Rightarrow> bool list \<Rightarrow> bool list option" where
  "nullable_loop 0 g nullable = None"
| "nullable_loop (Suc fuel) g nullable =
     (let (nullable', done) = nullable_pass g 1 (nullable, True) in
      if done then Some nullable' else nullable_loop fuel g nullable')"

definition set_nullable :: "grammar \<Rightarrow> bool list option" where
  "set_nullable g = nullable_loop (Suc (nsyms g)) g (replicate (nsyms g) False)"

subsection \<open>Specification\<close>

text \<open>A symbol is nullable if some rule rewrites it to nullable symbols.\<close>

inductive derives_empty :: "grammar \<Rightarrow> nat \<Rightarrow> bool" for g where
  rule: "2 \<le> r \<Longrightarrow> r < nrules g \<Longrightarrow> (\<And>s. s \<in> set (rhs_syms g r) \<Longrightarrow> derives_empty g s) \<Longrightarrow>
    derives_empty g (rlhs g ! r)"

subsection \<open>A pass is a fold over the rules\<close>

definition rule_step :: "grammar \<Rightarrow> nat \<Rightarrow> bool list \<times> bool \<Rightarrow> bool list \<times> bool" where
  "rule_step g r st =
     (if (\<forall>s \<in> set (rhs_syms g r). fst st ! s) \<and> \<not> fst st ! (rlhs g ! r)
      then ((fst st)[rlhs g ! r := True], False) else st)"

lemma rhs_scan_rule:
  assumes wf: "wf_grammar g" and r: "1 \<le> r" "r < nrules g"
    and i: "rrhs g ! r \<le> i" "i < rrhs g ! Suc r"
  shows "rhs_scan g nl i e = (rrhs g ! Suc r - 1,
    e \<and> (\<forall>k \<in> {i..<rrhs g ! Suc r - 1}. nl ! nat (ritem g ! k)))"
  using i
proof (induction "rrhs g ! Suc r - 1 - i" arbitrary: i e)
  case 0
  then have "i = rrhs g ! Suc r - 1" by linarith
  then show ?case using rule_block(3) [OF wf r] r by (subst rhs_scan.simps) simp
next
  case (Suc d)
  note b = rule_block [OF wf r]
  have lt: "i < rrhs g ! Suc r - 1" using Suc.hyps(2) by linarith
  have "rhs_scan g nl i e =
    rhs_scan g nl (Suc i) (if \<not> nl ! nat (ritem g ! i) then False else e)"
    using b(2) b(4) [OF Suc.prems(1) lt] Suc.prems wf_sizesD(1) [OF wf]
    by (subst rhs_scan.simps) simp
  also have "\<dots> = (rrhs g ! Suc r - 1, (if \<not> nl ! nat (ritem g ! i) then False else e) \<and>
    (\<forall>k \<in> {Suc i..<rrhs g ! Suc r - 1}. nl ! nat (ritem g ! k)))"
    using Suc.hyps(2) Suc.prems lt by (intro Suc.hyps(1)) auto
  finally have step: "rhs_scan g nl i e = \<dots>" .
  have "{i..<rrhs g ! Suc r - 1} = insert i {Suc i..<rrhs g ! Suc r - 1}" using lt by auto
  then show ?case unfolding step by auto
qed

lemma nullable_pass_fold:
  assumes wf: "wf_grammar g" and r: "2 \<le> r" "r \<le> nrules g"
  shows "nullable_pass g (rrhs g ! r) st = fold (rule_step g) [r..<nrules g] st"
  using r
proof (induction "nrules g - r" arbitrary: r st)
  case 0
  then have "r = nrules g" by simp
  then show ?case using wf_headerD(6) [OF wf] by (subst nullable_pass.simps) simp
next
  case (Suc d)
  then have r: "1 \<le> r" "r < nrules g" by auto
  note b = rule_block [OF wf r]
  have "nullable_pass g (rrhs g ! r) st = nullable_pass g (rrhs g ! Suc r) (rule_step g r st)"
    using b(1,2,3) by (subst nullable_pass.simps)
      (auto simp: rhs_scan_rule [OF wf r order_refl] rule_step_def rhs_syms_def Let_def)
  moreover have "[r..<nrules g] = r # [Suc r..<nrules g]" using r by (simp add: upt_conv_Cons)
  ultimately show ?case using Suc by simp
qed

lemma nullable_pass_eq:
  "wf_grammar g \<Longrightarrow> nullable_pass g 1 st = fold (rule_step g) [2..<nrules g] st"
  using nullable_pass_fold [of g 2 st] wf_headerD(4) [of g] wf_sizesD(8) [of g] by simp

lemma nullable_loop_Suc:
  assumes "wf_grammar g"
  shows "nullable_loop (Suc fuel) g nl =
    (let p = fold (rule_step g) [2..<nrules g] (nl, True) in
     if snd p then Some (fst p) else nullable_loop fuel g (fst p))"
  unfolding nullable_loop.simps nullable_pass_eq [OF assms] Let_def case_prod_beta by (rule refl)

declare nullable_loop.simps(2) [simp del]

subsection \<open>Termination and correctness\<close>

lemma rule_step_mono:
  "length (fst (rule_step g r st)) = length (fst st) \<and>
   (\<forall>j. fst st ! j \<longrightarrow> fst (rule_step g r st) ! j)"
  by (auto simp: rule_step_def nth_upd)

lemma fold_rule_step_mono:
  "length (fst (fold (rule_step g) rs st)) = length (fst st) \<and>
   (\<forall>j. fst st ! j \<longrightarrow> fst (fold (rule_step g) rs st) ! j) \<and>
   (snd (fold (rule_step g) rs st) \<longrightarrow> snd st)"
proof (induction rs arbitrary: st)
  case (Cons r rs)
  have "snd (rule_step g r st) \<longrightarrow> snd st" by (auto simp: rule_step_def)
  then show ?case using Cons [of "rule_step g r st"] rule_step_mono [of g r st] by auto
qed simp

lemma rule_step_done:
  "snd (rule_step g r st) \<Longrightarrow> rule_step g r st = st \<and>
   ((\<forall>s \<in> set (rhs_syms g r). fst st ! s) \<longrightarrow> fst st ! (rlhs g ! r))"
  by (auto simp: rule_step_def split: if_splits)

lemma fold_rule_step_done:
  "snd (fold (rule_step g) rs st) \<Longrightarrow>
   fst (fold (rule_step g) rs st) = fst st \<and>
   (\<forall>r \<in> set rs. (\<forall>s \<in> set (rhs_syms g r). fst st ! s) \<longrightarrow> fst st ! (rlhs g ! r))"
proof (induction rs arbitrary: st)
  case (Cons r rs)
  have "snd (rule_step g r st)" using Cons.prems fold_rule_step_mono [of g rs "rule_step g r st"] by simp
  from rule_step_done [OF this] show ?case using Cons by auto
qed simp

definition unmarked :: "bool list \<Rightarrow> nat set" where
  "unmarked nl = {j. j < length nl \<and> \<not> nl ! j}"

lemma finite_unmarked [simp]: "finite (unmarked nl)"
  by (simp add: unmarked_def)

lemma fold_rule_step_progress:
  assumes wf: "wf_grammar g" and "length (fst st) = nsyms g" "set rs \<subseteq> {2..<nrules g}"
    and "snd st" "\<not> snd (fold (rule_step g) rs st)"
  shows "unmarked (fst (fold (rule_step g) rs st)) \<subset> unmarked (fst st)"
  using assms(2-)
proof (induction rs arbitrary: st)
  case (Cons r rs)
  let ?st = "rule_step g r st"
  have mono: "unmarked (fst (fold (rule_step g) rs ?st)) \<subseteq> unmarked (fst ?st)"
    using fold_rule_step_mono [of g rs ?st] by (auto simp: unmarked_def)
  show ?case
  proof (cases "snd ?st")
    case True
    then have "?st = st" by (auto simp: rule_step_def split: if_splits)
    with Cons show ?thesis by auto
  next
    case False
    then have "?st = ((fst st)[rlhs g ! r := True], False)" "\<not> fst st ! (rlhs g ! r)"
      using Cons.prems(3) by (auto simp: rule_step_def split: if_splits)
    moreover have "rlhs g ! r < length (fst st)"
      using Cons.prems(1,2) rlhs_bound [OF wf, of r] by auto
    ultimately have "unmarked (fst ?st) \<subset> unmarked (fst st)"
      by (auto simp: unmarked_def nth_list_update)
    with mono show ?thesis by auto
  qed
qed simp

lemma nullable_loop_terminates:
  assumes wf: "wf_grammar g" and "length nl = nsyms g" "card (unmarked nl) < fuel"
  shows "\<exists>nl'. nullable_loop fuel g nl = Some nl'"
  using assms(2,3)
proof (induction fuel arbitrary: nl)
  case (Suc fuel)
  let ?p = "fold (rule_step g) [2..<nrules g] (nl, True)"
  show ?case
  proof (cases "snd ?p")
    case True
    then show ?thesis by (simp add: nullable_loop_Suc [OF wf])
  next
    case False
    have "unmarked (fst ?p) \<subset> unmarked nl"
      using fold_rule_step_progress [OF wf, of "(nl, True)" "[2..<nrules g]"] False Suc.prems by auto
    then have "card (unmarked (fst ?p)) < card (unmarked nl)" by (intro psubset_card_mono) auto
    then have "\<exists>nl'. nullable_loop fuel g (fst ?p) = Some nl'"
      using Suc.prems fold_rule_step_mono [of g "[2..<nrules g]" "(nl, True)"]
      by (intro Suc.IH) auto
    with False show ?thesis by (simp add: nullable_loop_Suc [OF wf])
  qed
qed simp

lemma set_nullable_terminates:
  assumes "wf_grammar g"
  shows "\<exists>nl. set_nullable g = Some nl"
proof -
  have "card (unmarked (replicate (nsyms g) False)) \<le> card {..<nsyms g}"
    by (intro card_mono) (auto simp: unmarked_def)
  then show ?thesis
    unfolding set_nullable_def using assms by (intro nullable_loop_terminates) auto
qed

lemma fold_rule_step_sound:
  assumes "set rs \<subseteq> {2..<nrules g}" "\<And>j. j < length (fst st) \<Longrightarrow> fst st ! j \<Longrightarrow> derives_empty g j"
    and wf: "wf_grammar g" and "length (fst st) = nsyms g"
  shows "\<forall>j < length (fst st). fst (fold (rule_step g) rs st) ! j \<longrightarrow> derives_empty g j"
  using assms(1,2,4)
proof (induction rs arbitrary: st)
  case (Cons r rs)
  let ?st = "rule_step g r st"
  have r: "2 \<le> r" "r < nrules g" using Cons.prems(1) by auto
  have bound: "s < length (fst st)" if "s \<in> set (rhs_syms g r)" for s
    using rhs_syms_bound [OF wf _ r(2) that] r Cons.prems(3) by simp
  have "derives_empty g j" if j: "j < length (fst ?st)" "fst ?st ! j" for j
  proof (cases "fst st ! j")
    case True
    with Cons.prems(2) j(1) rule_step_mono [of g r st] show ?thesis by simp
  next
    case False
    with j have "j = rlhs g ! r" "\<forall>s \<in> set (rhs_syms g r). fst st ! s"
      by (auto simp: rule_step_def nth_upd split: if_splits)
    then show ?thesis using Cons.prems(2) r bound by (auto intro: derives_empty.rule)
  qed
  then show ?case
    using Cons.IH [of ?st] Cons.prems rule_step_mono [of g r st] by auto
qed simp

lemma nullable_loop_correct:
  assumes wf: "wf_grammar g" and "nullable_loop fuel g nl = Some nl'"
    and "length nl = nsyms g" "\<And>j. j < nsyms g \<Longrightarrow> nl ! j \<Longrightarrow> derives_empty g j"
  shows "length nl' = nsyms g \<and> (\<forall>j<nsyms g. nl' ! j \<longleftrightarrow> derives_empty g j)"
  using assms(2-)
proof (induction fuel arbitrary: nl)
  case (Suc fuel)
  let ?p = "fold (rule_step g) [2..<nrules g] (nl, True)"
  have len: "length (fst ?p) = nsyms g"
    using fold_rule_step_mono [of g "[2..<nrules g]" "(nl, True)"] Suc.prems(2) by simp
  have sound: "\<forall>j < nsyms g. fst ?p ! j \<longrightarrow> derives_empty g j"
    using fold_rule_step_sound [of "[2..<nrules g]" g "(nl, True)"] Suc.prems wf by simp
  show ?case
  proof (cases "snd ?p")
    case True
    then have nl': "nl' = fst ?p"
      using Suc.prems(1) by (simp add: nullable_loop_Suc [OF wf])
    note fx = fold_rule_step_done [OF True]
    have "nl ! j" if "derives_empty g j" for j
      using that
    proof (induction rule: derives_empty.induct)
      case (rule r)
      then show ?case using fx by auto
    qed
    with fx sound len show ?thesis unfolding nl' by auto
  next
    case False
    then have "nullable_loop fuel g (fst ?p) = Some nl'"
      using Suc.prems(1) by (simp add: nullable_loop_Suc [OF wf])
    with Suc.IH len sound show ?thesis by blast
  qed
qed simp

lemma set_nullable_correct:
  assumes "wf_grammar g" "set_nullable g = Some nl"
  shows "length nl = nsyms g \<and> (\<forall>j<nsyms g. nl ! j \<longleftrightarrow> derives_empty g j)"
  using nullable_loop_correct [OF assms(1) assms(2) [unfolded set_nullable_def]] by simp

section \<open>Properties\<close>

text \<open>C36: \<^verbatim>\<open>set_nullable\<close> returns, and marks exactly the symbols from which the empty string can be derived.\<close>

theorem set_nullable_exact:
  assumes "wf_grammar g"
  shows "\<exists>nullable. set_nullable g = Some nullable \<and> length nullable = nsyms g \<and>
    (\<forall>X < nsyms g. nullable ! X \<longleftrightarrow> derives_empty g X)"
  using set_nullable_terminates [OF assms] set_nullable_correct [OF assms] by blast

theorem set_nullable_exact_witness:
  "\<exists>nullable. set_nullable sample_grammar = Some nullable \<and> length nullable = nsyms sample_grammar \<and>
    (\<forall>X < nsyms sample_grammar. nullable ! X \<longleftrightarrow> derives_empty sample_grammar X)"
  by (rule set_nullable_exact [OF sample_wf])

text \<open>The row that \<^verbatim>\<open>set_derives\<close> leaves for a nonterminal lists its rules, in the order of the grammar.\<close>

theorem set_derives_rows:
  assumes "wf_grammar g" "start_symbol g \<le> A" "A < nsyms g"
  shows "derive_row (set_derives g) A = filter (\<lambda>r. rlhs g ! r = A) [0..<nrules g]"
  using derive_row_set_derives [OF assms] by (simp add: rules_of_def)

theorem set_derives_rows_witness:
  "derive_row (set_derives sample_grammar) 4 = filter (\<lambda>r. rlhs sample_grammar ! r = 4) [0..<nrules sample_grammar]"
  by (rule set_derives_rows [OF sample_wf]) (simp_all add: sample_grammar_def)

end
