(* ===== verification/Closure.thy ===== *)
theory Closure
  imports Warshall Derives
begin

text \<open>
  \<^verbatim>\<open>jay/closure.c\<close>: the closure of an LR(0) kernel.  \<open>set_EFF\<close> computes which nonterminals can
  begin a nonterminal (``epsilon free firsts''), \<open>set_first_derives\<close> the rules each
  nonterminal can begin with, and \<open>closure\<close> merges the kernel with the first items of those
  rules.  The main lemma says that the merged list is the strictly sorted list of the LR(0)
  closure \<open>lr0_closure\<close>, the least set that holds the kernel and the first item of every rule
  for a nonterminal after a dot.
\<close>

section \<open>set\_EFF\<close>

text \<open>\<^verbatim>\<open>for (rule = *sp; rule > 0; rule = *++sp)\<close> over \<^verbatim>\<open>derives[A]\<close>.\<close>

definition positive_row :: "derives_table \<Rightarrow> nat \<Rightarrow> nat list" where
  "positive_row dv A = map nat (takeWhile (\<lambda>r. 0 < r) (drop (derives dv ! A) (derive_rules dv)))"

definition EFF_rule :: "grammar \<Rightarrow> nat \<Rightarrow> nat \<Rightarrow> u32 list \<Rightarrow> u32 list" where
  "EFF_rule g row rule EFF =
     (let symbol = ritem g ! (rrhs g ! rule) in
      if ISVAR g symbol then SETBIT EFF row (nat symbol - start_symbol g) else EFF)"

definition EFF_var :: "grammar \<Rightarrow> derives_table \<Rightarrow> nat \<Rightarrow> u32 list \<times> nat \<Rightarrow> u32 list \<times> nat" where
  "EFF_var g dv i = (\<lambda>(EFF, row).
     (fold (EFF_rule g row) (positive_row dv i) EFF, row + WORDSIZE (nvars g)))"

definition set_EFF :: "grammar \<Rightarrow> derives_table \<Rightarrow> u32 list" where
  "set_EFF g dv =
     (let EFF = replicate (nvars g * WORDSIZE (nvars g)) 0;
          (EFF, row) = fold (EFF_var g dv) [start_symbol g..<nsyms g] (EFF, 0)
      in reflexive_transitive_closure EFF (nvars g))"

section \<open>set\_first\_derives\<close>

text \<open>
  The C code keeps \<^verbatim>\<open>first_derives\<close> as a pointer \<^verbatim>\<open>ntokens\<close> rows before its storage; the row
  of nonterminal \<open>A\<close> starts at \<open>(A - ntokens) * rulesetsize\<close> of the list.
\<close>

definition FD_var :: "grammar \<Rightarrow> derives_table \<Rightarrow> u32 list \<Rightarrow> nat \<Rightarrow> nat \<Rightarrow>
    u32 list \<times> nat \<times> u32 \<times> nat \<Rightarrow> u32 list \<times> nat \<times> u32 \<times> nat" where
  "FD_var g dv EFF rrow j = (\<lambda>(fd, vrow, cword, k).
     let (cword, vrow, k) =
           (if k \<ge> BITS_PER_WORD then (EFF ! vrow, vrow + 1, 0) else (cword, vrow, k));
         fd = (if cword AND push_bit k 1 \<noteq> 0
               then fold (\<lambda>rule fd. SETBIT fd rrow rule) (derive_row dv j) fd else fd)
     in (fd, vrow, cword, k + 1))"

definition FD_row :: "grammar \<Rightarrow> derives_table \<Rightarrow> u32 list \<Rightarrow> nat \<Rightarrow> u32 list \<times> nat \<Rightarrow> u32 list \<times> nat" where
  "FD_row g dv EFF i = (\<lambda>(fd, rrow).
     let vrow = (i - ntokens g) * WORDSIZE (nvars g);
         (fd, vrow, cword, k) =
           fold (FD_var g dv EFF rrow) [start_symbol g..<nsyms g] (fd, vrow, 0, BITS_PER_WORD)
     in (fd, rrow + WORDSIZE (nrules g)))"

definition set_first_derives :: "grammar \<Rightarrow> derives_table \<Rightarrow> u32 list" where
  "set_first_derives g dv =
     (let fd = replicate (nvars g * WORDSIZE (nrules g)) 0;
          EFF = set_EFF g dv;
          (fd, rrow) = fold (FD_row g dv EFF) [start_symbol g..<nsyms g] (fd, 0)
      in fd)"

section \<open>closure\<close>

definition closure_symbol :: "grammar \<Rightarrow> u32 list \<Rightarrow> nat \<Rightarrow> u32 list \<Rightarrow> u32 list" where
  "closure_symbol g fd item ruleset =
     (let symbol = ritem g ! item; rulesetsize = WORDSIZE (nrules g) in
      if ISVAR g symbol
      then or_from rulesetsize ruleset 0 fd (nat symbol * rulesetsize - ntokens g * rulesetsize)
      else ruleset)"

text \<open>
  The two inner \<^verbatim>\<open>while\<close> loops around \<^verbatim>\<open>*itemsetend++ = itemno\<close>; \<open>csp\<close> is the rest of the
  nucleus and \<open>out\<close> the item set written so far.
\<close>

definition closure_item :: "nat \<Rightarrow> nat list \<times> nat list \<Rightarrow> nat list \<times> nat list" where
  "closure_item itemno = (\<lambda>(csp, out).
     (dropWhile (\<lambda>x. x = itemno) (dropWhile (\<lambda>x. x < itemno) csp),
      out @ takeWhile (\<lambda>x. x < itemno) csp @ [itemno]))"

definition closure_bit :: "grammar \<Rightarrow> nat \<Rightarrow> u32 \<Rightarrow> nat \<Rightarrow> nat list \<times> nat list \<Rightarrow> nat list \<times> nat list" where
  "closure_bit g ruleno word i st =
     (if word AND push_bit i 1 \<noteq> 0 then closure_item (rrhs g ! (ruleno + i)) st else st)"

definition closure_word :: "grammar \<Rightarrow> u32 \<Rightarrow>
    nat \<times> nat list \<times> nat list \<Rightarrow> nat \<times> nat list \<times> nat list" where
  "closure_word g word = (\<lambda>(ruleno, st).
     (ruleno + BITS_PER_WORD,
      if word \<noteq> 0 then fold (closure_bit g ruleno word) [0..<BITS_PER_WORD] st else st))"

definition closure :: "grammar \<Rightarrow> u32 list \<Rightarrow> nat list \<Rightarrow> nat list" where
  "closure g fd nucleus =
     (let ruleset = fold (closure_symbol g fd) nucleus (replicate (WORDSIZE (nrules g)) 0);
          (ruleno, csp, out) = fold (closure_word g) ruleset (0, nucleus, [])
      in out @ csp)"

section \<open>Specification\<close>

inductive_set lr0_closure :: "grammar \<Rightarrow> nat set \<Rightarrow> nat set" for g I where
  kernel: "i \<in> I \<Longrightarrow> i \<in> lr0_closure g I"
| predict: "i \<in> lr0_closure g I \<Longrightarrow> start_symbol g \<le> A \<Longrightarrow> ritem g ! i = int A \<Longrightarrow>
    r < nrules g \<Longrightarrow> rlhs g ! r = A \<Longrightarrow> rrhs g ! r \<in> lr0_closure g I"

definition first_var :: "grammar \<Rightarrow> (nat \<times> nat) set" where
  "first_var g = {(A, B). start_symbol g \<le> A \<and> start_symbol g \<le> B \<and>
     (\<exists>r < nrules g. rlhs g ! r = A \<and> ritem g ! (rrhs g ! r) = int B)}"

definition predicted :: "grammar \<Rightarrow> nat \<Rightarrow> nat set" where
  "predicted g A = {r. r < nrules g \<and> start_symbol g \<le> rlhs g ! r \<and> (A, rlhs g ! r) \<in> (first_var g)\<^sup>*}"

definition predicted_by :: "grammar \<Rightarrow> nat set \<Rightarrow> nat set" where
  "predicted_by g I = {r. \<exists>i \<in> I. \<exists>A. start_symbol g \<le> A \<and> ritem g ! i = int A \<and> r \<in> predicted g A}"

lemma predicted_closure:
  assumes "(A, B) \<in> (first_var g)\<^sup>*" "start_symbol g \<le> A"
    and "\<And>r. r < nrules g \<Longrightarrow> rlhs g ! r = A \<Longrightarrow> rrhs g ! r \<in> lr0_closure g I"
  shows "\<forall>r < nrules g. rlhs g ! r = B \<longrightarrow> rrhs g ! r \<in> lr0_closure g I"
  using assms(1)
proof (induction rule: rtrancl_induct)
  case base
  with assms(3) show ?case by blast
next
  case (step B C)
  then show ?case by (auto simp: first_var_def intro: lr0_closure.predict)
qed

lemma lr0_closure_predicted: "lr0_closure g I = I \<union> (\<lambda>r. rrhs g ! r) ` predicted_by g I"
proof
  show "I \<union> (\<lambda>r. rrhs g ! r) ` predicted_by g I \<subseteq> lr0_closure g I"
  proof (intro Un_least image_subsetI)
    show "I \<subseteq> lr0_closure g I" by (blast intro: lr0_closure.kernel)
    fix r assume "r \<in> predicted_by g I"
    then obtain i A where A: "i \<in> I" "start_symbol g \<le> A" "ritem g ! i = int A"
      "r < nrules g" "(A, rlhs g ! r) \<in> (first_var g)\<^sup>*"
      by (auto simp: predicted_by_def predicted_def)
    have "rrhs g ! q \<in> lr0_closure g I" if "q < nrules g" "rlhs g ! q = A" for q
      using lr0_closure.predict [OF lr0_closure.kernel] A(1-3) that by blast
    from predicted_closure [OF A(5,2) this] A(4) show "rrhs g ! r \<in> lr0_closure g I" by blast
  qed
  show "lr0_closure g I \<subseteq> I \<union> (\<lambda>r. rrhs g ! r) ` predicted_by g I"
  proof
    fix i assume "i \<in> lr0_closure g I"
    then show "i \<in> I \<union> (\<lambda>r. rrhs g ! r) ` predicted_by g I"
    proof (induction rule: lr0_closure.induct)
      case (predict i A r)
      from predict.IH show ?case
      proof
        assume "i \<in> I"
        with predict.hyps have "r \<in> predicted_by g I" by (auto simp: predicted_by_def predicted_def)
        then show ?thesis by blast
      next
        assume "i \<in> (\<lambda>r. rrhs g ! r) ` predicted_by g I"
        then obtain q j B where q: "i = rrhs g ! q" "j \<in> I" "start_symbol g \<le> B" "ritem g ! j = int B"
          "q < nrules g" "start_symbol g \<le> rlhs g ! q" "(B, rlhs g ! q) \<in> (first_var g)\<^sup>*"
          by (auto simp: predicted_by_def predicted_def)
        with predict.hyps have "(rlhs g ! q, A) \<in> first_var g" by (auto simp: first_var_def)
        with q have "(B, A) \<in> (first_var g)\<^sup>*" by (blast intro: rtrancl_into_rtrancl)
        with predict.hyps q have "r \<in> predicted_by g I" by (auto simp: predicted_by_def predicted_def)
        then show ?thesis by blast
      qed
    qed simp
  qed
qed

section \<open>set\_EFF computes the closure of first\_var\<close>

lemma positive_row_set_derives:
  assumes wf: "wf_grammar g" and A: "start_symbol g \<le> A" "A < nsyms g"
  shows "positive_row (set_derives g) A = rules_of g A"
proof -
  have eq: "map nat (takeWhile (\<lambda>r. 0 \<le> r) (drop (derives (set_derives g) ! A) (derive_rules (set_derives g)))) =
    rules_of g A"
    using derive_row_set_derives [OF assms] by (simp add: derive_row_def)
  have pos: "0 < r" if "r \<in> set (rules_of g A)" for r
    using that rlhs_var_ge_2 [OF wf, of r] A by (auto simp: set_rules_of)
  have "takeWhile (\<lambda>r. 0 < r) xs = takeWhile (\<lambda>r. 0 \<le> r) xs"
    if "\<forall>r \<in> set (map nat (takeWhile (\<lambda>r. (0::int) \<le> r) xs)). 0 < r" for xs
    using that by (induction xs) auto
  from this [of "drop (derives (set_derives g) ! A) (derive_rules (set_derives g))"] eq pos
  show ?thesis unfolding positive_row_def by simp
qed

lemma first_var_bound:
  assumes wf: "wf_grammar g" and "(A, B) \<in> first_var g"
  shows "A < nsyms g" "B < nsyms g"
proof -
  obtain r where r: "r < nrules g" "rlhs g ! r = A" "ritem g ! (rrhs g ! r) = int B"
    "start_symbol g \<le> A"
    using assms(2) by (auto simp: first_var_def)
  then show "A < nsyms g" using rlhs_bound [OF wf r(1)] by simp
  have "2 \<le> r" using rlhs_var_ge_2 [OF wf r(1)] r by simp
  then have "rrhs g ! r < nitems g" using rrhs_bound [OF wf, of r] r(1) by simp
  from ritem_sym(1) [OF wf this] r(3) show "B < nsyms g" by simp
qed

lemma EFF_fold_rule:
  assumes wf: "wf_grammar g" and a: "a < nvars g" "length E = nvars g * WORDSIZE (nvars g)"
    and "set rs \<subseteq> {2..<nrules g}"
  shows "length (fold (EFF_rule g (a * WORDSIZE (nvars g))) rs E) = nvars g * WORDSIZE (nvars g) \<and>
    (\<forall>x. rowset (fold (EFF_rule g (a * WORDSIZE (nvars g))) rs E) (x * WORDSIZE (nvars g)) (WORDSIZE (nvars g)) =
      rowset E (x * WORDSIZE (nvars g)) (WORDSIZE (nvars g)) \<union>
      (if x = a then {b. \<exists>r \<in> set rs. \<exists>B. start_symbol g \<le> B \<and> ritem g ! (rrhs g ! r) = int B \<and> b = B - start_symbol g}
       else {}))"
  using assms(3,4)
proof (induction rs arbitrary: E)
  case Nil
  then show ?case by simp
next
  case (Cons r rs)
  let ?w = "WORDSIZE (nvars g)" and ?s = "ritem g ! (rrhs g ! r)"
  let ?E = "EFF_rule g (a * ?w) r E"
  have r: "1 \<le> r" "r < nrules g" using Cons.prems by auto
  have len: "length ?E = nvars g * ?w" using Cons.prems by (simp add: EFF_rule_def Let_def)
  have row: "rowset ?E (x * ?w) ?w = rowset E (x * ?w) ?w \<union>
      (if x = a then {b. \<exists>B. start_symbol g \<le> B \<and> ?s = int B \<and> b = B - start_symbol g} else {})" for x
  proof (cases "ISVAR g ?s")
    case True
    then have s: "start_symbol g \<le> nat ?s" "?s = int (nat ?s)" by (auto simp: ISVAR_def)
    have "?s < int (nsyms g)"
      using ritem_sym(1) [OF wf rrhs_bound [OF wf r]] s by simp
    then have "nat ?s - start_symbol g < nvars g" using s wf_sizesD [OF wf] by linarith
    then have "nat ?s - start_symbol g < 32 * ?w" using WORDSIZE_bound [of "nvars g"] by linarith
    from rowset_SETBIT [OF a(1) Cons.prems(1) this] True s show ?thesis
      by (auto simp: EFF_rule_def Let_def)
  next
    case False
    then show ?thesis by (auto simp: EFF_rule_def Let_def ISVAR_def)
  qed
  from Cons.IH [OF len] Cons.prems(2) show ?case by (auto simp: row)
qed

lemma EFF_fold_var:
  assumes wf: "wf_grammar g" and "start_symbol g \<le> b" "b \<le> nsyms g"
  defines "w \<equiv> WORDSIZE (nvars g)"
  shows "\<exists>E. fold (EFF_var g (set_derives g)) [start_symbol g..<b] (replicate (nvars g * w) 0, 0) =
      (E, (b - start_symbol g) * w) \<and> length E = nvars g * w \<and>
    (\<forall>x < nvars g. rowset E (x * w) w =
      (if x < b - start_symbol g
       then {c. \<exists>B. start_symbol g \<le> B \<and> (start_symbol g + x, B) \<in> first_var g \<and> c = B - start_symbol g}
       else {}))"
  using assms(2,3)
proof (induction b rule: dec_induct)
  case base
  have "x * w + w \<le> nvars g * w" if "x < nvars g" for x using row_end that by blast
  then show ?case by simp
next
  case (step b)
  let ?a = "b - start_symbol g"
  from step obtain E where E:
    "fold (EFF_var g (set_derives g)) [start_symbol g..<b] (replicate (nvars g * w) 0, 0) = (E, ?a * w)"
    "length E = nvars g * w"
    "\<And>x. x < nvars g \<Longrightarrow> rowset E (x * w) w =
      (if x < ?a
       then {c. \<exists>B. start_symbol g \<le> B \<and> (start_symbol g + x, B) \<in> first_var g \<and> c = B - start_symbol g}
       else {})"
    by auto
  have a: "?a < nvars g" using step.prems step.hyps wf_sizesD [OF wf] by linarith
  have rs: "set (rules_of g b) \<subseteq> {2..<nrules g}"
    using rlhs_var_ge_2 [OF wf] step.hyps by (auto simp: set_rules_of)
  have p: "positive_row (set_derives g) b = rules_of g b"
    using positive_row_set_derives [OF wf] step by simp
  let ?E = "fold (EFF_rule g (?a * w)) (rules_of g b) E"
  note F = EFF_fold_rule [OF wf a, of E, folded w_def, OF E(2) rs]
  have eq: "{c. \<exists>r \<in> set (rules_of g b). \<exists>B. start_symbol g \<le> B \<and> ritem g ! (rrhs g ! r) = int B \<and> c = B - start_symbol g} =
    {c. \<exists>B. start_symbol g \<le> B \<and> (b, B) \<in> first_var g \<and> c = B - start_symbol g}"
    using step.hyps by (auto simp: set_rules_of first_var_def)
  have b: "start_symbol g + ?a = b" "Suc b - start_symbol g = Suc ?a" using step.hyps by auto
  have "fold (EFF_var g (set_derives g)) [start_symbol g..<Suc b] (replicate (nvars g * w) 0, 0) =
    (?E, (Suc b - start_symbol g) * w)"
    using E(1) step.hyps by (simp add: EFF_var_def p w_def Suc_diff_le add.commute)
  moreover have "rowset ?E (x * w) w =
      (if x < Suc b - start_symbol g
       then {c. \<exists>B. start_symbol g \<le> B \<and> (start_symbol g + x, B) \<in> first_var g \<and> c = B - start_symbol g}
       else {})" if "x < nvars g" for x
    using F E(3) [OF that] unfolding eq b(2) by (auto simp: less_Suc_eq b(1))
  ultimately show ?case using F by blast
qed

text \<open>A relation on nonterminals and its image on bit numbers have matching closures.\<close>

definition shifted :: "nat \<Rightarrow> (nat \<times> nat) set \<Rightarrow> (nat \<times> nat) set" where
  "shifted s r = {(a, b). (s + a, s + b) \<in> r}"

lemma shifted_rtrancl:
  assumes "r \<subseteq> {s..} \<times> {s..}"
  shows "(a, b) \<in> (shifted s r)\<^sup>* \<longleftrightarrow> (s + a, s + b) \<in> r\<^sup>*"
proof
  show "(s + a, s + b) \<in> r\<^sup>*" if "(a, b) \<in> (shifted s r)\<^sup>*"
    using that
    by (induction rule: rtrancl_induct) (auto simp: shifted_def intro: rtrancl_into_rtrancl)
  have "y \<ge> s \<and> (a, y - s) \<in> (shifted s r)\<^sup>*" if "(s + a, y) \<in> r\<^sup>*" for y
    using that
  proof (induction rule: rtrancl_induct)
    case (step y z)
    then have "z \<ge> s" "(y - s, z - s) \<in> shifted s r" using assms by (auto simp: shifted_def)
    with step.IH show ?case by (auto intro: rtrancl_into_rtrancl)
  qed simp
  from this [of "s + b"] show "(s + a, s + b) \<in> r\<^sup>* \<Longrightarrow> (a, b) \<in> (shifted s r)\<^sup>*" by simp
qed

lemma set_EFF_rows:
  assumes wf: "wf_grammar g"
  defines "w \<equiv> WORDSIZE (nvars g)"
  shows "length (set_EFF g (set_derives g)) = nvars g * w \<and>
    (\<forall>a < nvars g. \<forall>b. b \<in> rowset (set_EFF g (set_derives g)) (a * w) w \<longleftrightarrow>
      (start_symbol g + a, start_symbol g + b) \<in> (first_var g)\<^sup>*)"
proof -
  have ns: "nsyms g - start_symbol g = nvars g" "start_symbol g \<le> nsyms g"
    "nsyms g = start_symbol g + nvars g"
    using wf_sizesD [OF wf] by auto
  obtain E where E: "fold (EFF_var g (set_derives g)) [start_symbol g..<nsyms g]
      (replicate (nvars g * w) 0, 0) = (E, nvars g * w)" "length E = nvars g * w"
    "\<And>x. x < nvars g \<Longrightarrow> rowset E (x * w) w =
      {c. \<exists>B. start_symbol g \<le> B \<and> (start_symbol g + x, B) \<in> first_var g \<and> c = B - start_symbol g}"
    using EFF_fold_var [OF wf ns(2) order_refl] unfolding ns(1) w_def [symmetric] by auto
  have fv: "first_var g \<subseteq> {start_symbol g..} \<times> {start_symbol g..}"
    by (auto simp: first_var_def)
  have rel: "rel_of E (nvars g) w = shifted (start_symbol g) (first_var g)"
  proof (intro set_eqI iffI; clarify)
    fix a b
    show "(a, b) \<in> shifted (start_symbol g) (first_var g)" if "(a, b) \<in> rel_of E (nvars g) w"
      using that E(3) by (auto simp: rel_of_def shifted_def)
    assume s: "(a, b) \<in> shifted (start_symbol g) (first_var g)"
    then have "start_symbol g + a < nsyms g"
      using first_var_bound(1) [OF wf, of "start_symbol g + a" "start_symbol g + b"] by (simp add: shifted_def)
    then have "a < nvars g" using ns(3) by linarith
    with s E(3) [OF this] show "(a, b) \<in> rel_of E (nvars g) w"
      by (auto simp: rel_of_def shifted_def intro!: exI [of _ "start_symbol g + b"])
  qed
  have bnd: "rel_of E (nvars g) w \<subseteq> {..<nvars g} \<times> {..<nvars g}"
  proof (clarify)
    fix a b assume "(a, b) \<in> rel_of E (nvars g) w"
    then have "(start_symbol g + a, start_symbol g + b) \<in> first_var g"
      unfolding rel by (simp add: shifted_def)
    from first_var_bound [OF wf this] ns(3) show "a \<in> {..<nvars g} \<and> b \<in> {..<nvars g}" by simp
  qed
  note R = rel_of_reflexive_transitive_closure [OF E(2) [unfolded w_def] bnd [unfolded w_def], folded w_def]
  have "set_EFF g (set_derives g) = reflexive_transitive_closure E (nvars g)"
    using E(1) by (simp add: set_EFF_def w_def Let_def)
  with R show ?thesis
    unfolding rel by (auto simp: rel_of_def shifted_rtrancl [OF fv])
qed

section \<open>set\_first\_derives\<close>

text \<open>After \<open>m\<close> variables of a row, \<open>vrow\<close>, \<open>cword\<close> and \<open>k\<close> stand at bit \<open>m\<close>.\<close>

definition FD_cursor :: "u32 list \<Rightarrow> nat \<Rightarrow> nat \<Rightarrow> nat \<Rightarrow> u32 \<Rightarrow> nat \<Rightarrow> bool" where
  "FD_cursor EFF base m vrow cword k \<longleftrightarrow>
     vrow = base + (m + 31) div 32 \<and>
     (if m mod 32 = 0 then k = 32 else k = m mod 32 \<and> cword = EFF ! (base + m div 32))"

lemma FD_var_step:
  assumes "FD_cursor EFF base m vrow cword k"
  shows "\<exists>vrow' cword' k'.
    FD_var g dv EFF rrow j (fd, vrow, cword, k) =
      (if bit (EFF ! (base + m div 32)) (m mod 32)
       then fold (\<lambda>rule fd. SETBIT fd rrow rule) (derive_row dv j) fd else fd, vrow', cword', k') \<and>
    FD_cursor EFF base (Suc m) vrow' cword' k'"
proof (cases "m mod 32 = 0")
  case True
  then have "(m + 31) div 32 = m div 32" "Suc m mod 32 = 1" "Suc m div 32 = m div 32"
    "(m + 32) div 32 = m div 32 + 1"
    by (auto simp: mod_Suc div_Suc dvd_eq_mod_eq_0 [symmetric] elim!: dvdE)
  with True assms and_bit_test [of 0 "EFF ! (base + m div 32)"] show ?thesis
    by (auto simp: FD_cursor_def FD_var_def BITS_PER_WORD_def)
next
  case False
  have lt: "m mod 32 < 32" by simp
  have "(m + 31) div 32 = m div 32 + 1"
  proof -
    have "m + 31 = (m mod 32 + 31) + m div 32 * 32" using div_mult_mod_eq [of m 32] by linarith
    moreover have "q \<noteq> 0 \<Longrightarrow> q < 32 \<Longrightarrow> (q + 31) div 32 = 1" for q :: nat
      by (intro div_nat_eqI) simp_all
    then have "(m mod 32 + 31) div 32 = 1" using False lt by blast
    ultimately show ?thesis by (metis add.commute div_mult_self1 zero_neq_numeral)
  qed
  moreover have "Suc m mod 32 = (if m mod 32 = 31 then 0 else Suc (m mod 32))"
    "Suc m mod 32 \<noteq> 0 \<Longrightarrow> Suc m div 32 = m div 32" "(32 + m) div 32 = Suc (m div 32)"
    by (simp_all add: mod_Suc div_Suc)
  ultimately show ?thesis
    using False assms lt and_bit_test [OF lt]
    by (cases "m mod 32 = 31") (auto simp: FD_cursor_def FD_var_def BITS_PER_WORD_def)
qed

lemma SETBIT_fold:
  assumes "i < n" "length R = n * w" "\<And>r. r \<in> set rs \<Longrightarrow> r < 32 * w"
  shows "length (fold (\<lambda>rule fd. SETBIT fd (i * w) rule) rs R) = n * w \<and>
    (\<forall>x. rowset (fold (\<lambda>rule fd. SETBIT fd (i * w) rule) rs R) (x * w) w =
      rowset R (x * w) w \<union> (if x = i then set rs else {}))"
  using assms(2,3)
proof (induction rs arbitrary: R)
  case (Cons r rs)
  from Cons.IH [of "SETBIT R (i * w) r"] Cons.prems show ?case
    by (auto simp: rowset_SETBIT [OF assms(1) Cons.prems(1)])
qed simp

lemma FD_fold_var:
  assumes wf: "wf_grammar g" and a: "a < nvars g" "length fd = nvars g * WORDSIZE (nrules g)"
    and m: "m \<le> nvars g"
  defines "w \<equiv> WORDSIZE (nvars g)" and "W \<equiv> WORDSIZE (nrules g)"
  shows "\<exists>fd' vrow cword k.
    fold (FD_var g (set_derives g) EFF (a * W)) [start_symbol g..<start_symbol g + m]
      (fd, a * w, 0, BITS_PER_WORD) = (fd', vrow, cword, k) \<and>
    FD_cursor EFF (a * w) m vrow cword k \<and> length fd' = nvars g * W \<and>
    (\<forall>x. rowset fd' (x * W) W = rowset fd (x * W) W \<union>
      (if x = a then {r. r < nrules g \<and> (\<exists>b < m. b \<in> rowset EFF (a * w) w \<and> rlhs g ! r = start_symbol g + b)}
       else {}))"
  using m
proof (induction m)
  case 0
  then show ?case using a by (simp add: FD_cursor_def BITS_PER_WORD_def W_def)
next
  case (Suc m)
  from Suc obtain fd' vrow cword k where I:
    "fold (FD_var g (set_derives g) EFF (a * W)) [start_symbol g..<start_symbol g + m]
      (fd, a * w, 0, BITS_PER_WORD) = (fd', vrow, cword, k)"
    "FD_cursor EFF (a * w) m vrow cword k" "length fd' = nvars g * W"
    "\<And>x. rowset fd' (x * W) W = rowset fd (x * W) W \<union>
      (if x = a then {r. r < nrules g \<and> (\<exists>b < m. b \<in> rowset EFF (a * w) w \<and> rlhs g ! r = start_symbol g + b)}
       else {})"
    by auto
  let ?j = "start_symbol g + m"
  let ?fd = "if bit (EFF ! (a * w + m div 32)) (m mod 32)
    then fold (\<lambda>rule fd. SETBIT fd (a * W) rule) (derive_row (set_derives g) ?j) fd' else fd'"
  have jn: "?j < nsyms g" using Suc.prems wf_sizesD [OF wf] by linarith
  have dr: "derive_row (set_derives g) ?j = rules_of g ?j"
    using derive_row_set_derives [OF wf] jn by simp
  have bitm: "bit (EFF ! (a * w + m div 32)) (m mod 32) \<longleftrightarrow> m \<in> rowset EFF (a * w) w"
    using Suc.prems WORDSIZE_bound [of "nvars g"] unfolding in_rowset w_def by linarith
  have rb: "r < 32 * W" if "r \<in> set (rules_of g ?j)" for r
    using that WORDSIZE_bound [of "nrules g"] unfolding W_def by (simp add: set_rules_of)
  note S = SETBIT_fold [OF a(1) I(3), of "rules_of g ?j", OF rb]
  have len: "length ?fd = nvars g * W" using S I(3) unfolding dr by simp
  have rows: "rowset ?fd (x * W) W = rowset fd (x * W) W \<union>
      (if x = a then {r. r < nrules g \<and> (\<exists>b < Suc m. b \<in> rowset EFF (a * w) w \<and> rlhs g ! r = start_symbol g + b)}
       else {})" for x
    using S [THEN conjunct2, rule_format, of x]
    unfolding dr bitm by (cases "m \<in> rowset EFF (a * w) w") (auto simp: I(4) set_rules_of less_Suc_eq)
  from FD_var_step [OF I(2), of g "set_derives g" "a * W" ?j fd'] obtain vrow' cword' k' where st:
    "FD_var g (set_derives g) EFF (a * W) ?j (fd', vrow, cword, k) = (?fd, vrow', cword', k')"
    "FD_cursor EFF (a * w) (Suc m) vrow' cword' k'"
    by blast
  have "fold (FD_var g (set_derives g) EFF (a * W)) [start_symbol g..<start_symbol g + Suc m]
      (fd, a * w, 0, BITS_PER_WORD) = (?fd, vrow', cword', k')"
    by (simp add: I(1) st(1))
  with st(2) len rows show ?case by blast
qed

lemma FD_fold_row:
  assumes wf: "wf_grammar g" and "m \<le> nvars g" and rows: "ntokens g = start_symbol g"
  defines "W \<equiv> WORDSIZE (nrules g)"
  shows "\<exists>fd. fold (FD_row g (set_derives g) (set_EFF g (set_derives g)))
      [start_symbol g..<start_symbol g + m] (replicate (nvars g * W) 0, 0) = (fd, m * W) \<and>
    length fd = nvars g * W \<and>
    (\<forall>x < nvars g. rowset fd (x * W) W = (if x < m then predicted g (start_symbol g + x) else {}))"
  using assms(2)
proof (induction m)
  case 0
  have "x * W + W \<le> nvars g * W" if "x < nvars g" for x using row_end that by blast
  then show ?case by simp
next
  case (Suc m)
  let ?EFF = "set_EFF g (set_derives g)" and ?w = "WORDSIZE (nvars g)"
  from Suc obtain fd where I:
    "fold (FD_row g (set_derives g) ?EFF) [start_symbol g..<start_symbol g + m]
      (replicate (nvars g * W) 0, 0) = (fd, m * W)" "length fd = nvars g * W"
    "\<And>x. x < nvars g \<Longrightarrow> rowset fd (x * W) W = (if x < m then predicted g (start_symbol g + x) else {})"
    by auto
  have m: "m < nvars g" using Suc.prems by simp
  have ns: "nsyms g = start_symbol g + nvars g" using wf_sizesD [OF wf] by linarith
  from FD_fold_var [OF wf m I(2) [unfolded W_def] order_refl, of ?EFF, folded W_def, folded ns]
  obtain fd' vrow cword k where F:
    "fold (FD_var g (set_derives g) ?EFF (m * W)) [start_symbol g..<nsyms g]
      (fd, m * ?w, 0, BITS_PER_WORD) = (fd', vrow, cword, k)" "length fd' = nvars g * W"
    "\<And>x. rowset fd' (x * W) W = rowset fd (x * W) W \<union>
      (if x = m then {r. r < nrules g \<and> (\<exists>b < nvars g. b \<in> rowset ?EFF (m * ?w) ?w \<and> rlhs g ! r = start_symbol g + b)}
       else {})"
    by blast
  have EFF: "b \<in> rowset ?EFF (m * ?w) ?w \<longleftrightarrow>
      (start_symbol g + m, start_symbol g + b) \<in> (first_var g)\<^sup>*" for b
    using set_EFF_rows [OF wf] m by blast
  have "{r. r < nrules g \<and> (\<exists>b < nvars g. b \<in> rowset ?EFF (m * ?w) ?w \<and> rlhs g ! r = start_symbol g + b)} =
    predicted g (start_symbol g + m)"
  proof (intro set_eqI iffI; clarify)
    fix r b assume "r < nrules g" "b \<in> rowset ?EFF (m * ?w) ?w" "rlhs g ! r = start_symbol g + b"
    then show "r \<in> predicted g (start_symbol g + m)" by (simp add: EFF predicted_def)
  next
    fix r assume r: "r \<in> predicted g (start_symbol g + m)"
    then have "r < nrules g" "start_symbol g + (rlhs g ! r - start_symbol g) = rlhs g ! r"
      by (auto simp: predicted_def)
    with r rlhs_bound [OF wf this(1)] ns
    show "r < nrules g \<and> (\<exists>b < nvars g. b \<in> rowset ?EFF (m * ?w) ?w \<and> rlhs g ! r = start_symbol g + b)"
      by (intro conjI exI [of _ "rlhs g ! r - start_symbol g"]) (auto simp: EFF predicted_def)
  qed
  with F(3) I(3) have "rowset fd' (x * W) W = (if x < Suc m then predicted g (start_symbol g + x) else {})"
    if "x < nvars g" for x
    using that by (auto simp: less_Suc_eq)
  moreover have "fold (FD_row g (set_derives g) ?EFF) [start_symbol g..<start_symbol g + Suc m]
      (replicate (nvars g * W) 0, 0) = (fd', Suc m * W)"
    using F(1) by (simp add: I(1) FD_row_def rows W_def [symmetric] Let_def)
  ultimately show ?case using F(2) by blast
qed

text \<open>
  Row \<open>A\<close> of \<open>first_derives\<close> holds the rules whose first items the closure adds for a dot
  before \<open>A\<close>.
\<close>

lemma set_first_derives_rows:
  assumes wf: "wf_grammar g" and A: "start_symbol g \<le> A" "A < nsyms g"
  defines "W \<equiv> WORDSIZE (nrules g)"
  shows "rowset (set_first_derives g (set_derives g)) (A * W - ntokens g * W) W = predicted g A"
proof -
  have ns: "nsyms g = start_symbol g + nvars g" "ntokens g = start_symbol g"
    using wf_sizesD [OF wf] by linarith+
  from FD_fold_row [OF wf order_refl ns(2), folded W_def, folded ns(1)]
  obtain fd where fd: "fold (FD_row g (set_derives g) (set_EFF g (set_derives g)))
      [start_symbol g..<nsyms g] (replicate (nvars g * W) 0, 0) = (fd, nvars g * W)"
    "\<And>x. x < nvars g \<Longrightarrow> rowset fd (x * W) W = predicted g (start_symbol g + x)"
    by auto
  have "set_first_derives g (set_derives g) = fd"
    using fd(1) by (simp add: set_first_derives_def W_def Let_def)
  moreover have "A * W - ntokens g * W = (A - start_symbol g) * W"
    unfolding ns(2) by (rule diff_mult_distrib [symmetric])
  moreover have "A - start_symbol g < nvars g" using A ns by linarith
  ultimately show ?thesis using fd(2) A(1) by simp
qed

section \<open>The rule set of a kernel\<close>

lemma closure_ruleset:
  assumes wf: "wf_grammar g" and I: "\<forall>i \<in> set is. i < nitems g"
    and "length R = WORDSIZE (nrules g)"
  defines "W \<equiv> WORDSIZE (nrules g)"
  shows "length (fold (closure_symbol g (set_first_derives g (set_derives g))) is R) = W \<and>
    rowset (fold (closure_symbol g (set_first_derives g (set_derives g))) is R) 0 W =
    rowset R 0 W \<union> predicted_by g (set is)"
  using I assms(3)
proof (induction "is" arbitrary: R)
  case Nil
  then show ?case by (simp add: predicted_by_def W_def)
next
  case (Cons i "is")
  let ?fd = "set_first_derives g (set_derives g)"
  let ?R = "closure_symbol g ?fd i R" and ?s = "ritem g ! i"
  have len: "length ?R = WORDSIZE (nrules g)"
    using Cons.prems by (simp add: closure_symbol_def Let_def)
  have "rowset ?R 0 W = rowset R 0 W \<union> predicted_by g {i}"
  proof (cases "ISVAR g ?s")
    case True
    then have s: "start_symbol g \<le> nat ?s" "?s = int (nat ?s)" by (auto simp: ISVAR_def)
    have "?s < int (nsyms g)" using ritem_sym(1) [OF wf, of i] Cons.prems(1) s(2) by simp
    then have "nat ?s < nsyms g" using s(2) by linarith
    note F = set_first_derives_rows [OF wf s(1) this, folded W_def]
    have "rowset (or_from W R 0 ?fd (nat ?s * W - ntokens g * W)) 0 W =
      rowset R 0 W \<union> predicted g (nat ?s)"
      using rowset_or_from [of 0 1 R W ?fd "nat ?s * W - ntokens g * W" 0] Cons.prems(2) F
      by (simp add: W_def)
    moreover have "predicted_by g {i} = predicted g (nat ?s)"
      using s by (auto simp: predicted_by_def)
    ultimately show ?thesis using True by (simp add: closure_symbol_def Let_def W_def)
  next
    case False
    then show ?thesis by (auto simp: closure_symbol_def predicted_by_def ISVAR_def)
  qed
  moreover have "predicted_by g (set (i # is)) = predicted_by g {i} \<union> predicted_by g (set is)"
    by (auto simp: predicted_by_def)
  moreover have "\<forall>i \<in> set is. i < nitems g" using Cons.prems by simp
  ultimately show ?case using Cons.IH [OF _ len] by auto
qed

section \<open>The merge\<close>

lemma closure_word_fold:
  "fold (closure_bit g n w) [0..<32] st =
   fold (\<lambda>r. closure_item (rrhs g ! r)) (map (\<lambda>i. n + i) (filter (\<lambda>i. bit w i) [0..<32])) st"
proof -
  have "fold (closure_bit g n w) is st =
    fold (\<lambda>r. closure_item (rrhs g ! r)) (map (\<lambda>i. n + i) (filter (\<lambda>i. bit w i) is)) st"
    if "\<forall>i \<in> set is. i < 32" for "is"
    using that
    by (induction "is" arbitrary: st) (auto simp: closure_bit_def and_bit_test)
  then show ?thesis by simp
qed

lemma row_bits_Cons:
  "filter (\<lambda>k. bit ((w # ws) ! (k div 32)) (k mod 32)) [0..<32 * Suc (length ws)] =
   filter (\<lambda>i. bit w i) [0..<32] @
   map (\<lambda>k. 32 + k) (filter (\<lambda>k. bit (ws ! (k div 32)) (k mod 32)) [0..<32 * length ws])"
proof -
  have "[0..<32 * Suc (length ws)] = [0..<32] @ map (\<lambda>k. k + 32) [0..<32 * length ws]"
    using upt_add_eq_append [of 0 32 "32 * length ws"] by (simp add: map_add_upt add.commute)
  moreover have "filter (\<lambda>k. bit ((w # ws) ! (k div 32)) (k mod 32)) [0..<32] = filter (\<lambda>i. bit w i) [0..<32]"
    by (intro filter_cong) auto
  moreover have "(k + 32) div 32 = Suc (k div 32)" for k :: nat by simp
  ultimately show ?thesis by (simp add: filter_map comp_def add.commute [of 32])
qed

lemma closure_fold:
  "fold (closure_word g) ws (n, st) =
   (n + 32 * length ws,
    fold (\<lambda>r. closure_item (rrhs g ! r))
      (map (\<lambda>k. n + k) (filter (\<lambda>k. bit (ws ! (k div 32)) (k mod 32)) [0..<32 * length ws])) st)"
proof (induction ws arbitrary: n st)
  case (Cons w ws)
  have "closure_word g w (n, st) =
    (n + 32, fold (\<lambda>r. closure_item (rrhs g ! r)) (map (\<lambda>i. n + i) (filter (\<lambda>i. bit w i) [0..<32])) st)"
    using closure_word_fold [of g n w st] by (simp add: closure_word_def BITS_PER_WORD_def)
  then show ?case
    unfolding list.size(4) add_Suc_right add_0_right row_bits_Cons
    by (simp add: Cons.IH comp_def add.assoc)
qed simp

lemma sorted_list_of_set_insert_min:
  assumes "finite Y" "\<forall>y \<in> Y. (m::nat) < y"
  shows "sorted_list_of_set (insert m Y) = m # sorted_list_of_set Y"
proof -
  have "m \<notin> Y" using assms(2) by blast
  then show ?thesis using assms
    by (simp add: insort_is_Cons less_imp_le)
qed

lemma merge_step:
  fixes x :: nat
  assumes "sorted_wrt (<) csp" "finite X" "\<forall>y \<in> X. x < y"
  shows "takeWhile (\<lambda>y. y < x) csp @ x # sorted_list_of_set
      (set (dropWhile (\<lambda>y. y = x) (dropWhile (\<lambda>y. y < x) csp)) \<union> X) =
    sorted_list_of_set (set csp \<union> insert x X)"
  using assms(1)
proof (induction csp)
  case Nil
  from sorted_list_of_set_insert_min [OF assms(2,3)] show ?case
    by (simp del: sorted_list_of_set_insert_remove)
next
  case (Cons c csp)
  note hd = sorted_list_of_set_insert_min
  have gt: "\<forall>y \<in> set csp. c < y" and s: "sorted_wrt (<) csp" using Cons.prems by auto
  consider "c < x" | "c = x" | "x < c" by linarith
  then show ?case
  proof cases
    case 1
    have "\<forall>y \<in> set csp \<union> insert x X. c < y" using gt 1 assms(3) by auto
    from hd [OF _ this] Cons.IH [OF s] 1 assms(2) show ?thesis
      by (simp add: insert_commute [of x c] del: sorted_list_of_set_insert_remove)
  next
    case 2
    have *: "dropWhile (\<lambda>y. y = x) csp = csp" using gt 2 by (cases csp) auto
    have "\<forall>y \<in> set csp \<union> X. x < y" using gt 2 assms(3) by auto
    from hd [OF _ this] 2 assms(2) * show ?thesis
      by (simp del: sorted_list_of_set_insert_remove)
  next
    case 3
    have "\<forall>y \<in> set (c # csp) \<union> X. x < y" using gt 3 assms(3) by auto
    from hd [OF _ this] 3 assms(2) show ?thesis
      by (simp del: sorted_list_of_set_insert_remove)
  qed
qed

lemma closure_merge:
  assumes "sorted_wrt (<) csp" "sorted_wrt (<) xs"
  shows "(case fold closure_item xs (csp, out) of (csp', out') \<Rightarrow> out' @ csp') =
    out @ sorted_list_of_set (set csp \<union> set xs)"
  using assms
proof (induction xs arbitrary: csp out)
  case Nil
  then show ?case by (simp add: sorted_list_of_set.idem_if_sorted_distinct strict_sorted_iff)
next
  case (Cons x xs)
  let ?c = "dropWhile (\<lambda>y. y = x) (dropWhile (\<lambda>y. y < x) csp)"
  have "sorted_wrt (<) ?c"
    using Cons.prems(1) by (metis sorted_wrt_drop dropWhile_eq_drop)
  from Cons.IH [OF this, of "out @ takeWhile (\<lambda>y. y < x) csp @ [x]"] Cons.prems
    merge_step [OF Cons.prems(1), of "set xs" x]
  show ?case by (simp add: closure_item_def)
qed

section \<open>The main lemma\<close>

lemma predicted_by_bound:
  assumes wf: "wf_grammar g" and "r \<in> predicted_by g I"
  shows "2 \<le> r" "r < nrules g"
  using assms rlhs_var_ge_2 [OF wf] by (auto simp: predicted_by_def predicted_def)

theorem closure_correct:
  assumes wf: "wf_grammar g" and "sorted_wrt (<) nucleus" and I: "\<forall>i \<in> set nucleus. i < nitems g"
  shows "closure g (set_first_derives g (set_derives g)) nucleus =
    sorted_list_of_set (lr0_closure g (set nucleus))"
proof -
  let ?W = "WORDSIZE (nrules g)" and ?fd = "set_first_derives g (set_derives g)"
  let ?R = "fold (closure_symbol g ?fd) nucleus (replicate ?W 0)"
  let ?rs = "filter (\<lambda>k. bit (?R ! (k div 32)) (k mod 32)) [0..<32 * ?W]"
  note C = closure_ruleset [OF wf I, of "replicate ?W 0", simplified]
  have set: "set ?rs = predicted_by g (set nucleus)"
    using C unfolding set_eq_iff in_rowset by auto
  have sorted: "sorted_wrt (<) (map (\<lambda>r. rrhs g ! r) ?rs)"
  proof -
    have 1: "sorted_wrt (<) ?rs" by (intro sorted_wrt_filter) simp
    have 2: "rrhs g ! a < rrhs g ! b" if ab: "a \<in> set ?rs" "b \<in> set ?rs" "a < b" for a b
    proof -
      have "1 \<le> a" "b \<le> nrules g"
        using ab(1,2) predicted_by_bound [OF wf, of a] predicted_by_bound [OF wf, of b]
        unfolding set by fastforce+
      from rrhs_less [OF wf this(1) ab(3) this(2)] show ?thesis .
    qed
    show ?thesis unfolding sorted_wrt_map by (rule sorted_wrt_mono_rel [OF 2 1])
  qed
  have "closure g ?fd nucleus =
    (case fold closure_item (map (\<lambda>r. rrhs g ! r) ?rs) (nucleus, []) of (csp, out) \<Rightarrow> out @ csp)"
    using C by (simp add: closure_def Let_def closure_fold fold_map comp_def case_prod_beta)
  also have "\<dots> = sorted_list_of_set (set nucleus \<union> (\<lambda>r. rrhs g ! r) ` set ?rs)"
    unfolding closure_merge [OF assms(2) sorted] by simp
  finally show ?thesis unfolding set lr0_closure_predicted .
qed

lemma lr0_closure_bound:
  assumes wf: "wf_grammar g" and "I \<subseteq> {..<nitems g}"
  shows "lr0_closure g I \<subseteq> {..<nitems g}"
  using assms(2) predicted_by_bound [OF wf] rrhs_bound [OF wf]
  unfolding lr0_closure_predicted by fastforce

lemma closure_bound:
  assumes wf: "wf_grammar g" and s: "sorted_wrt (<) nucleus" and I: "\<forall>i \<in> set nucleus. i < nitems g"
  shows "length (closure g (set_first_derives g (set_derives g)) nucleus) \<le> nitems g"
proof -
  have "lr0_closure g (set nucleus) \<subseteq> {..<nitems g}"
    using lr0_closure_bound [OF wf] I by auto
  from card_mono [OF _ this] show ?thesis by (simp add: closure_correct [OF assms])
qed

section \<open>Properties\<close>

text \<open>
  C20: on a kernel in ascending order \<^verbatim>\<open>closure\<close> writes the items of its LR(0) closure in
  ascending order, each once.
\<close>

theorem closure_items:
  assumes "wf_grammar g" "sorted_wrt (<) nucleus" "\<forall>i \<in> set nucleus. i < nitems g"
  shows "set (closure g (set_first_derives g (set_derives g)) nucleus) = lr0_closure g (set nucleus) \<and>
    sorted_wrt (<) (closure g (set_first_derives g (set_derives g)) nucleus)"
proof -
  have "finite (lr0_closure g (set nucleus))"
    by (rule finite_subset [OF lr0_closure_bound [OF assms(1)]]) (use assms(3) in auto)
  then show ?thesis by (simp add: closure_correct [OF assms])
qed

theorem closure_items_witness:
  "set (closure sample_grammar (set_first_derives sample_grammar (set_derives sample_grammar)) [1]) =
     lr0_closure sample_grammar (set [1]) \<and>
   sorted_wrt (<) (closure sample_grammar (set_first_derives sample_grammar (set_derives sample_grammar)) [1])"
  using closure_items [OF sample_wf, of "[1]"] by (simp add: sample_grammar_def)

text \<open>The row of \<^verbatim>\<open>first_derives\<close> of a nonterminal holds the rules of every nonterminal it can begin with.\<close>

theorem set_first_derives_exact:
  assumes "wf_grammar g" "start_symbol g \<le> A" "A < nsyms g"
  shows "rowset (set_first_derives g (set_derives g)) (A * WORDSIZE (nrules g) - ntokens g * WORDSIZE (nrules g))
      (WORDSIZE (nrules g)) =
    {r. r < nrules g \<and> start_symbol g \<le> rlhs g ! r \<and> (A, rlhs g ! r) \<in> (first_var g)\<^sup>*}"
  using set_first_derives_rows [OF assms] by (simp add: predicted_def)

theorem set_first_derives_exact_witness:
  "rowset (set_first_derives sample_grammar (set_derives sample_grammar))
     (4 * WORDSIZE (nrules sample_grammar) - ntokens sample_grammar * WORDSIZE (nrules sample_grammar))
     (WORDSIZE (nrules sample_grammar)) =
   {r. r < nrules sample_grammar \<and> start_symbol sample_grammar \<le> rlhs sample_grammar ! r \<and>
     (4, rlhs sample_grammar ! r) \<in> (first_var sample_grammar)\<^sup>*}"
  by (rule set_first_derives_exact [OF sample_wf]) (simp_all add: sample_grammar_def)

end
