(* ===== verification/LR0.thy ===== *)
theory LR0
  imports Closure "HOL-Library.Multiset"
begin

text \<open>
  \<^verbatim>\<open>jay/lr0.c\<close>: the states of the LR(0) automaton.  A \<open>core\<close> is a numbered kernel; the list
  of cores, linked by \<^verbatim>\<open>next\<close> in C, is \<open>cores\<close>, in the order of the numbers.
  \<^verbatim>\<open>state_set\<close> is a hash table on the first kernel item whose chains, linked by
  \<^verbatim>\<open>link\<close>, are lists of state numbers.  \<^verbatim>\<open>kernel_base\<close> and
  \<^verbatim>\<open>kernel_end\<close> point into the one array \<^verbatim>\<open>kernel_items\<close>; here they are indices,
  with \<open>None\<close> for the null pointer.  The main lemma says that \<open>generate_states\<close> builds the
  canonical collection of LR(0) item sets, with exact shift and reduction lists, or stops with
  \<open>too many states\<close>.
\<close>

section \<open>State\<close>

record core =
  core_number :: nat
  accessing_symbol :: nat
  core_items :: "nat list"

record shifts =
  shifts_number :: nat
  shift_row :: "nat list"

record reductions =
  reductions_number :: nat
  reduction_rules :: "nat list"

record lr0_state =
  cores :: "core list"
  state_set :: "nat list list"
  kernel_base :: "nat list"
  kernel_items :: "nat list"
  kernel_end :: "nat option list"
  shift_symbol :: "nat list"
  first_shift :: "shifts list"
  first_reduction :: "reductions list"

section \<open>Operations\<close>

definition count_symbol :: "int \<Rightarrow> nat list \<Rightarrow> nat list" where
  "count_symbol symbol cnt =
     (if 0 \<le> symbol then cnt[nat symbol := cnt ! nat symbol + 1] else cnt)"

definition allocate_itemsets :: "grammar \<Rightarrow> nat list \<times> nat" where
  "allocate_itemsets g =
     (let symbol_count = fold count_symbol (ritem g) (replicate (nsyms g) 0) in
      fold (\<lambda>i (base, count). (base @ [count], count + symbol_count ! i)) [0..<nsyms g] ([], 0))"

definition initialize_states :: "grammar \<Rightarrow> derives_table \<Rightarrow> core list" where
  "initialize_states g dv =
     [\<lparr>core_number = 0, accessing_symbol = 0,
       core_items = map (\<lambda>r. rrhs g ! r) (derive_row dv (start_symbol g))\<rparr>]"

definition initial_state :: "grammar \<Rightarrow> derives_table \<Rightarrow> lr0_state" where
  "initial_state g dv =
     (let (base, count) = allocate_itemsets g in
      \<lparr>cores = initialize_states g dv, state_set = replicate (nitems g) [], kernel_base = base,
       kernel_items = replicate count 0, kernel_end = replicate (nsyms g) None,
       shift_symbol = [], first_shift = [], first_reduction = []\<rparr>)"

definition new_itemset :: "grammar \<Rightarrow> nat \<Rightarrow> lr0_state \<Rightarrow> lr0_state" where
  "new_itemset g i st =
     (let symbol = ritem g ! i; X = nat symbol in
      if 0 < symbol then
        let (ksp, shift_symbol') =
          (case kernel_end st ! X of
             None \<Rightarrow> (kernel_base st ! X, shift_symbol st @ [X])
           | Some ksp \<Rightarrow> (ksp, shift_symbol st))
        in st\<lparr>shift_symbol := shift_symbol', kernel_items := (kernel_items st)[ksp := i + 1],
              kernel_end := (kernel_end st)[X := Some (ksp + 1)]\<rparr>
      else st)"

definition new_itemsets :: "grammar \<Rightarrow> nat list \<Rightarrow> lr0_state \<Rightarrow> lr0_state" where
  "new_itemsets g itemset st =
     fold (new_itemset g) itemset
       (st\<lparr>kernel_end := replicate (nsyms g) None, shift_symbol := []\<rparr>)"

text \<open>The slice of \<open>kernel_items\<close> from \<open>kernel_base\<close> to \<open>kernel_end\<close>.\<close>

definition kernel_slice :: "lr0_state \<Rightarrow> nat \<Rightarrow> nat list" where
  "kernel_slice st X =
     (case kernel_end st ! X of
        None \<Rightarrow> []
      | Some e \<Rightarrow> take (e - kernel_base st ! X) (drop (kernel_base st ! X) (kernel_items st)))"

definition new_state :: "nat \<Rightarrow> lr0_state \<Rightarrow> jay_error + nat \<times> lr0_state" where
  "new_state X st =
     (let nstates = length (cores st) in
      if nstates \<ge> MAXSHORT then Inl (Fatal ''too many states'')
      else Inr (nstates, st\<lparr>cores := cores st @
        [\<lparr>core_number = nstates, accessing_symbol = X, core_items = kernel_slice st X\<rparr>]\<rparr>))"

text \<open>The walk along the \<^verbatim>\<open>link\<close> chain.\<close>

fun find_core :: "core list \<Rightarrow> nat list \<Rightarrow> nat list \<Rightarrow> nat option" where
  "find_core cs [] its = None"
| "find_core cs (sp # chain) its =
     (if length (core_items (cs ! sp)) = length its \<and> core_items (cs ! sp) = its
      then Some sp else find_core cs chain its)"

definition get_state :: "grammar \<Rightarrow> nat \<Rightarrow> lr0_state \<Rightarrow> jay_error + nat \<times> lr0_state" where
  "get_state g X st =
     (let key = kernel_items st ! (kernel_base st ! X) in
      if \<not> key < nitems g then Inl AssertFailed
      else case find_core (cores st) (state_set st ! key) (kernel_slice st X) of
             Some sp \<Rightarrow> Inr (core_number (cores st ! sp), st)
           | None \<Rightarrow>
               (case new_state X st of
                  Inl e \<Rightarrow> Inl e
                | Inr (sp, st') \<Rightarrow>
                    Inr (sp, st'\<lparr>state_set := (state_set st')[key := state_set st' ! key @ [sp]]\<rparr>)))"

definition sort_symbols :: "nat list \<Rightarrow> nat list" where
  "sort_symbols xs = fold (\<lambda>i xs. shift_down xs i (xs ! i)) [1..<length xs] xs"

fun get_states :: "grammar \<Rightarrow> nat list \<Rightarrow> lr0_state \<Rightarrow> jay_error + nat list \<times> lr0_state" where
  "get_states g [] st = Inr ([], st)"
| "get_states g (X # Xs) st =
     (case get_state g X st of
        Inl e \<Rightarrow> Inl e
      | Inr (n, st') \<Rightarrow>
          (case get_states g Xs st' of
             Inl e \<Rightarrow> Inl e
           | Inr (ns, st'') \<Rightarrow> Inr (n # ns, st'')))"

definition append_states :: "grammar \<Rightarrow> lr0_state \<Rightarrow> jay_error + nat list \<times> lr0_state" where
  "append_states g st =
     (let symbols = sort_symbols (shift_symbol st) in
      get_states g symbols (st\<lparr>shift_symbol := symbols\<rparr>))"

definition save_shifts :: "nat \<Rightarrow> nat list \<Rightarrow> lr0_state \<Rightarrow> lr0_state" where
  "save_shifts this_state shiftset st =
     st\<lparr>first_shift := first_shift st @ [\<lparr>shifts_number = this_state, shift_row = shiftset\<rparr>]\<rparr>"

definition save_reductions :: "grammar \<Rightarrow> nat \<Rightarrow> nat list \<Rightarrow> lr0_state \<Rightarrow> lr0_state" where
  "save_reductions g this_state itemset st =
     (let redset = map (\<lambda>i. nat (- (ritem g ! i))) (filter (\<lambda>i. ritem g ! i < 0) itemset) in
      if redset \<noteq> []
      then st\<lparr>first_reduction := first_reduction st @
             [\<lparr>reductions_number = this_state, reduction_rules = redset\<rparr>]\<rparr>
      else st)"

text \<open>One round of the loop of \<open>generate_states\<close>, for the core at position \<open>k\<close>.\<close>

definition expand_state :: "grammar \<Rightarrow> u32 list \<Rightarrow> nat \<Rightarrow> lr0_state \<Rightarrow> jay_error + lr0_state" where
  "expand_state g fd k st =
     (let this_state = cores st ! k;
          itemset = closure g fd (core_items this_state);
          st = save_reductions g (core_number this_state) itemset st;
          st = new_itemsets g itemset st
      in case append_states g st of
           Inl e \<Rightarrow> Inl e
         | Inr (shiftset, st) \<Rightarrow>
             Inr (if 0 < length (shift_symbol st)
                  then save_shifts (core_number this_state) shiftset st else st))"

text \<open>The loop itself runs on fuel; \<open>None\<close> is the value of a run that is not over.\<close>

fun generate_from :: "nat \<Rightarrow> grammar \<Rightarrow> u32 list \<Rightarrow> nat \<Rightarrow> lr0_state \<Rightarrow> (jay_error + lr0_state) option" where
  "generate_from 0 g fd k st = None"
| "generate_from (Suc fuel) g fd k st =
     (if k < length (cores st)
      then case expand_state g fd k st of
             Inl e \<Rightarrow> Some (Inl e)
           | Inr st' \<Rightarrow> generate_from fuel g fd (Suc k) st'
      else Some (Inr st))"

definition generate_states :: "grammar \<Rightarrow> derives_table \<Rightarrow> (jay_error + lr0_state) option" where
  "generate_states g dv =
     generate_from (MAXSHORT + 1) g (set_first_derives g dv) 0 (initial_state g dv)"

text \<open>\<open>lr0\<close> returns what it leaves in the globals: \<^verbatim>\<open>nullable\<close> and the automaton.\<close>

definition lr0 :: "grammar \<Rightarrow> (jay_error + bool list \<times> lr0_state) option" where
  "lr0 g =
     (let dv = set_derives g in
      case set_nullable g of
        None \<Rightarrow> None
      | Some nullable \<Rightarrow>
          (case generate_states g dv of
             None \<Rightarrow> None
           | Some (Inl e) \<Rightarrow> Some (Inl e)
           | Some (Inr st) \<Rightarrow> Some (Inr (nullable, st))))"

section \<open>Insertion sort\<close>

lemma sort_symbols_sort: "sort_symbols xs = sort xs"
proof -
  have "fold (\<lambda>i xs. shift_down xs i (xs ! i)) [1..<n] xs = sort (take n xs) @ drop n xs"
    if "n \<le> length xs" for n
    using that
  proof (induction n)
    case (Suc n)
    show ?case
    proof (cases "n = 0")
      case True
      with Suc.prems show ?thesis by (cases xs) auto
    next
      case False
      let ?s = "sort (take n xs)"
      have d: "drop n xs = xs ! n # drop (Suc n) xs" using Suc.prems by (simp add: Cons_nth_drop_Suc)
      have l: "length ?s = n" using Suc.prems by simp
      have "fold (\<lambda>i xs. shift_down xs i (xs ! i)) [1..<Suc n] xs = shift_down (?s @ drop n xs) n ((?s @ drop n xs) ! n)"
        using Suc False by simp
      also have "\<dots> = shift_down (?s @ xs ! n # drop (Suc n) xs) (length ?s) (xs ! n)"
        unfolding d using Suc.prems by (simp add: nth_append min_def)
      also have "\<dots> = insort (xs ! n) ?s @ drop (Suc n) xs" by (rule shift_down_split) simp
      also have "insort (xs ! n) ?s = sort (take (Suc n) xs)"
        using Suc.prems by (intro properties_for_sort [symmetric]) (simp_all add: take_Suc_conv_app_nth sorted_insort)
      finally show ?thesis .
    qed
  qed simp
  from this [of "length xs"] show ?thesis by (simp add: sort_symbols_def)
qed

section \<open>The kernel slices\<close>

text \<open>The items of a list whose dot stands before \<open>X\<close>.\<close>

definition items_on :: "grammar \<Rightarrow> nat \<Rightarrow> nat list \<Rightarrow> nat list" where
  "items_on g X is = filter (\<lambda>i. ritem g ! i = int X) is"

definition symbol_uses :: "grammar \<Rightarrow> nat \<Rightarrow> nat" where
  "symbol_uses g X = length (items_on g X [0..<nitems g])"

definition room :: "grammar \<Rightarrow> nat \<Rightarrow> nat" where
  "room g X = (\<Sum>Y<X. symbol_uses g Y)"

lemma room_Suc [simp]: "room g (Suc X) = room g X + symbol_uses g X"
  by (simp add: room_def)

lemma room_mono: "X \<le> Y \<Longrightarrow> room g X \<le> room g Y"
  by (induction rule: dec_induct) auto

lemma room_disjoint:
  assumes "room g X + m = room g Y + n" "m < symbol_uses g X" "n < symbol_uses g Y"
  shows "X = Y" "m = n"
proof -
  have "\<not> X < Y" using assms room_mono [of "Suc X" Y g] by (auto simp: Suc_le_eq)
  moreover have "\<not> Y < X" using assms room_mono [of "Suc Y" X g] by (auto simp: Suc_le_eq)
  ultimately show "X = Y" by simp
  with assms show "m = n" by simp
qed

lemma room_bound:
  assumes "X < n" "m < symbol_uses g X"
  shows "room g X + m < room g n"
  using room_mono [of "Suc X" n g] assms by (simp add: Suc_le_eq)

lemma count_symbol_fold:
  assumes "\<forall>s \<in> set ss. s < int (length cnt)"
  shows "length (fold count_symbol ss cnt) = length cnt \<and>
    (\<forall>X < length cnt. fold count_symbol ss cnt ! X = cnt ! X + length (filter (\<lambda>s. s = int X) ss))"
  using assms
proof (induction ss arbitrary: cnt)
  case (Cons s ss)
  have "length (count_symbol s cnt) = length cnt" by (simp add: count_symbol_def)
  with Cons.IH [of "count_symbol s cnt"] Cons.prems show ?case
    by (auto simp: count_symbol_def nth_list_update)
qed simp

lemma symbol_uses_ritem:
  assumes "wf_grammar g"
  shows "length (filter (\<lambda>s. s = int X) (ritem g)) = symbol_uses g X"
proof -
  have "ritem g = map (\<lambda>i. ritem g ! i) [0..<nitems g]"
    using wf_sizesD(1) [OF assms] by (simp add: map_nth)
  then have "filter (\<lambda>s. s = int X) (ritem g) = filter (\<lambda>s. s = int X) (map (\<lambda>i. ritem g ! i) [0..<nitems g])"
    by simp
  then show ?thesis by (simp add: symbol_uses_def items_on_def filter_map comp_def)
qed

lemma ritem_less_nsyms:
  assumes wf: "wf_grammar g" and "i < nitems g"
  shows "ritem g ! i < int (nsyms g)"
  using ritem_sym(1) [OF assms] by (cases "0 \<le> ritem g ! i") auto

lemma allocate_itemsets_room:
  assumes wf: "wf_grammar g"
  shows "allocate_itemsets g = (map (room g) [0..<nsyms g], room g (nsyms g))"
proof -
  let ?c = "fold count_symbol (ritem g) (replicate (nsyms g) 0)"
  have "\<forall>s \<in> set (ritem g). s < int (nsyms g)"
    using ritem_less_nsyms [OF wf] wf_sizesD(1) [OF wf] by (auto simp: in_set_conv_nth)
  then have c: "?c ! X = symbol_uses g X" if "X < nsyms g" for X
    using count_symbol_fold [of "ritem g" "replicate (nsyms g) 0"] that symbol_uses_ritem [OF wf] by simp
  have "fold (\<lambda>i (base, count). (base @ [count], count + ?c ! i)) [0..<n] ([], 0) =
    (map (room g) [0..<n], room g n)" if "n \<le> nsyms g" for n
    using that
  proof (induction n)
    case 0
    then show ?case by (simp add: room_def)
  qed (simp add: c)
  then show ?thesis by (simp add: allocate_itemsets_def Let_def)
qed

lemma symbol_uses_card: "symbol_uses g X = card (set (items_on g X [0..<nitems g]))"
  unfolding symbol_uses_def items_on_def by (intro distinct_card [symmetric]) simp

lemma items_on_less:
  assumes "distinct (is @ [i])" "\<forall>j \<in> set (is @ [i]). j < nitems g" "ritem g ! i = int X"
  shows "length (items_on g X is) < symbol_uses g X"
proof -
  have "length (items_on g X (is @ [i])) = card (set (items_on g X (is @ [i])))"
    unfolding items_on_def using assms(1) by (intro distinct_card [symmetric]) simp
  also have "\<dots> \<le> card (set (items_on g X [0..<nitems g]))"
    using assms(2) by (intro card_mono) (auto simp: items_on_def)
  also have "\<dots> = symbol_uses g X" by (rule symbol_uses_card [symmetric])
  finally show ?thesis using assms(3) by (simp add: items_on_def)
qed

text \<open>What the kernel arrays hold after the items \<open>is\<close>.\<close>

definition kernels_of :: "grammar \<Rightarrow> nat list \<Rightarrow> lr0_state \<Rightarrow> bool" where
  "kernels_of g is st \<longleftrightarrow>
     kernel_base st = map (room g) [0..<nsyms g] \<and> length (kernel_items st) = room g (nsyms g) \<and>
     length (kernel_end st) = nsyms g \<and>
     (\<forall>X < nsyms g. kernel_end st ! X =
        (if X = 0 \<or> items_on g X is = [] then None else Some (room g X + length (items_on g X is)))) \<and>
     (\<forall>X m. 0 < X \<longrightarrow> X < nsyms g \<longrightarrow> m < length (items_on g X is) \<longrightarrow>
        kernel_items st ! (room g X + m) = Suc (items_on g X is ! m)) \<and>
     distinct (shift_symbol st) \<and>
     set (shift_symbol st) = {X. 0 < X \<and> X < nsyms g \<and> items_on g X is \<noteq> []}"

lemma items_on_snoc:
  "items_on g X (is @ [i]) = items_on g X is @ (if ritem g ! i = int X then [i] else [])"
  by (simp add: items_on_def)

lemma items_on_len:
  assumes "distinct is" "\<forall>j \<in> set is. j < nitems g"
  shows "length (items_on g X is) \<le> symbol_uses g X"
proof (cases "items_on g X is" rule: rev_cases)
  case (snoc js j)
  have "length (items_on g X is) = card (set (items_on g X is))"
    unfolding items_on_def using assms(1) by (intro distinct_card [symmetric]) simp
  also have "\<dots> \<le> card (set (items_on g X [0..<nitems g]))"
    using assms(2) by (intro card_mono) (auto simp: items_on_def)
  finally show ?thesis by (simp add: symbol_uses_card)
qed simp

lemma new_itemset_kernels:
  assumes wf: "wf_grammar g" and d: "distinct (is @ [i])" "\<forall>j \<in> set (is @ [i]). j < nitems g"
    and K: "kernels_of g is st"
  shows "kernels_of g (is @ [i]) (new_itemset g i st)"
proof (cases "0 < ritem g ! i")
  case False
  then have "items_on g X (is @ [i]) = items_on g X is" if "0 < X" for X
    using that by (simp add: items_on_snoc)
  then show ?thesis using K False
    by (auto simp: kernels_of_def new_itemset_def Let_def)
next
  case True
  define X where "X = nat (ritem g ! i)"
  have X: "ritem g ! i = int X" "0 < X" using True by (simp_all add: X_def)
  have Xs: "X < nsyms g" using ritem_less_nsyms [OF wf, of i] d(2) X by simp
  let ?n = "length (items_on g X is)"
  have n: "?n < symbol_uses g X" by (rule items_on_less [OF d X(1)])
  have on: "items_on g Y (is @ [i]) = items_on g Y is @ (if Y = X then [i] else [])" for Y
    using X by (auto simp: items_on_snoc)
  define st' where "st' = new_itemset g i st"
  have base: "kernel_base st ! X = room g X" using K Xs by (simp add: kernels_of_def)
  have "(case kernel_end st ! X of None \<Rightarrow> (kernel_base st ! X, shift_symbol st @ [X])
      | Some ksp \<Rightarrow> (ksp, shift_symbol st)) =
    (room g X + ?n, if items_on g X is = [] then shift_symbol st @ [X] else shift_symbol st)"
    using K X(2) Xs base by (simp add: kernels_of_def)
  then have st': "st' = st\<lparr>shift_symbol := if items_on g X is = [] then shift_symbol st @ [X] else shift_symbol st,
      kernel_items := (kernel_items st)[room g X + ?n := Suc i],
      kernel_end := (kernel_end st)[X := Some (Suc (room g X + ?n))]\<rparr>"
    unfolding st'_def new_itemset_def Let_def X nat_int using X(2) by simp
  have bound: "room g X + ?n < length (kernel_items st)"
    using room_bound [OF Xs n] K by (simp add: kernels_of_def)
  have items: "kernel_items st' ! (room g Y + m) = Suc (items_on g Y (is @ [i]) ! m)"
    if Y: "0 < Y" "Y < nsyms g" "m < length (items_on g Y (is @ [i]))" for Y m
  proof (cases "room g X + ?n = room g Y + m")
    case True
    have "length (items_on g Y (is @ [i])) \<le> symbol_uses g Y"
      by (rule items_on_len [OF d])
    with Y(3) have "m < symbol_uses g Y" by simp
    from room_disjoint [OF True n this] bound show ?thesis by (simp add: st' on nth_append)
  next
    case False
    then have "m < length (items_on g Y is)" using Y(3) by (auto simp: on split: if_splits)
    with False K Y show ?thesis by (simp add: st' on nth_append kernels_of_def)
  qed
  have syms: "distinct (shift_symbol st')"
    "set (shift_symbol st') = {Y. 0 < Y \<and> Y < nsyms g \<and> items_on g Y (is @ [i]) \<noteq> []}"
    using K X(2) Xs by (auto simp: st' on kernels_of_def)
  have ends: "kernel_end st' ! Y = (if Y = 0 \<or> items_on g Y (is @ [i]) = [] then None
      else Some (room g Y + length (items_on g Y (is @ [i]))))" if "Y < nsyms g" for Y
    using K that X(2) Xs by (auto simp: st' on kernels_of_def nth_list_update)
  show ?thesis
    unfolding kernels_of_def st'_def [symmetric]
    using items syms ends K by (simp add: st' kernels_of_def)
qed

lemma new_itemsets_kernels:
  assumes wf: "wf_grammar g" and "distinct is" "\<forall>j \<in> set is. j < nitems g"
    and K: "kernels_of g js st"
  shows "kernels_of g is (new_itemsets g is st)"
  using assms(2,3)
proof (induction "is" rule: rev_induct)
  case Nil
  then show ?case using K by (auto simp: new_itemsets_def kernels_of_def items_on_def)
next
  case (snoc i "is")
  then show ?case using new_itemset_kernels [OF wf, of "is" i] by (simp add: new_itemsets_def)
qed

lemma kernel_slice_items:
  assumes K: "kernels_of g is st" and X: "0 < X" "X < nsyms g"
    and d: "distinct is" "\<forall>j \<in> set is. j < nitems g"
  shows "kernel_slice st X = map Suc (items_on g X is)"
proof (cases "items_on g X is = []")
  case True
  then show ?thesis using K X by (simp add: kernel_slice_def kernels_of_def)
next
  case False
  let ?n = "length (items_on g X is)"
  have "?n \<le> symbol_uses g X" by (rule items_on_len [OF d])
  then have "room g X + ?n \<le> room g (nsyms g)"
    using room_mono [of "Suc X" "nsyms g" g] X by (simp add: Suc_le_eq)
  then have "room g X + ?n \<le> length (kernel_items st)" using K by (simp add: kernels_of_def)
  moreover have "kernel_slice st X = take ?n (drop (room g X) (kernel_items st))"
    using K X False by (simp add: kernel_slice_def kernels_of_def)
  ultimately show ?thesis using K X
    by (intro nth_equalityI) (auto simp: kernels_of_def)
qed

section \<open>Specification\<close>

text \<open>
  The kernel reached from the kernel \<open>I\<close> on \<open>X\<close>, the symbols that have one, and the rules
  whose last item the closure of \<open>I\<close> holds; all ascending.
\<close>

definition closed_items :: "grammar \<Rightarrow> nat list \<Rightarrow> nat list" where
  "closed_items g I = sorted_list_of_set (lr0_closure g (set I))"

definition goto_kernel :: "grammar \<Rightarrow> nat list \<Rightarrow> nat \<Rightarrow> nat list" where
  "goto_kernel g I X = map Suc (items_on g X (closed_items g I))"

definition goto_symbols :: "grammar \<Rightarrow> nat list \<Rightarrow> nat list" where
  "goto_symbols g I = filter (\<lambda>X. 0 < X \<and> goto_kernel g I X \<noteq> []) [0..<nsyms g]"

definition complete_rules :: "grammar \<Rightarrow> nat list \<Rightarrow> nat list" where
  "complete_rules g I = map (\<lambda>i. nat (- (ritem g ! i))) (filter (\<lambda>i. ritem g ! i < 0) (closed_items g I))"

inductive_set canonical :: "grammar \<Rightarrow> nat list set" for g where
  start: "[1] \<in> canonical g"
| step: "I \<in> canonical g \<Longrightarrow> X \<in> set (goto_symbols g I) \<Longrightarrow> goto_kernel g I X \<in> canonical g"

text \<open>The kernels the generator keeps: ascending item numbers in range.\<close>

definition kernel_list :: "grammar \<Rightarrow> nat list \<Rightarrow> bool" where
  "kernel_list g I \<longleftrightarrow> sorted_wrt (<) I \<and> (\<forall>i \<in> set I. i < nitems g)"

lemma closed_items_kernel:
  assumes wf: "wf_grammar g" and I: "kernel_list g I"
  shows "set (closed_items g I) = lr0_closure g (set I)" "kernel_list g (closed_items g I)"
    "distinct (closed_items g I)" "\<forall>j \<in> set (closed_items g I). j < nitems g"
    "closure g (set_first_derives g (set_derives g)) I = closed_items g I"
proof -
  have sub: "lr0_closure g (set I) \<subseteq> {..<nitems g}"
    using lr0_closure_bound [OF wf] I by (auto simp: kernel_list_def)
  then have fin: "finite (lr0_closure g (set I))" by (rule finite_subset) simp
  then show "set (closed_items g I) = lr0_closure g (set I)" "distinct (closed_items g I)"
    "kernel_list g (closed_items g I)" "\<forall>j \<in> set (closed_items g I). j < nitems g"
    using sub by (auto simp: closed_items_def kernel_list_def)
  show "closure g (set_first_derives g (set_derives g)) I = closed_items g I"
    using closure_correct [OF wf] I by (simp add: kernel_list_def closed_items_def)
qed

lemma goto_kernel_list:
  assumes wf: "wf_grammar g" and I: "kernel_list g I" and X: "0 < X"
  shows "kernel_list g (goto_kernel g I X)"
    "\<And>j. j \<in> set (goto_kernel g I X) \<Longrightarrow> 0 < j \<and> ritem g ! (j - 1) = int X"
proof -
  note C = closed_items_kernel [OF wf I]
  have "sorted_wrt (<) (items_on g X (closed_items g I))"
    using C(2) by (simp add: kernel_list_def items_on_def sorted_wrt_filter)
  moreover have "Suc i < nitems g" if "i \<in> set (items_on g X (closed_items g I))" for i
    using that C(4) ritem_sym(2) [OF wf, of i] by (auto simp: items_on_def)
  ultimately show "kernel_list g (goto_kernel g I X)"
    by (auto simp: kernel_list_def goto_kernel_def sorted_wrt_map)
  show "0 < j \<and> ritem g ! (j - 1) = int X" if "j \<in> set (goto_kernel g I X)" for j
    using that by (auto simp: goto_kernel_def items_on_def)
qed

lemma goto_kernel_inj:
  assumes wf: "wf_grammar g" and "kernel_list g I" "0 < X" "kernel_list g J" "0 < Y"
    and "goto_kernel g I X = goto_kernel g J Y" "goto_kernel g I X \<noteq> []"
  shows "X = Y"
proof -
  let ?j = "hd (goto_kernel g I X)"
  have "ritem g ! (?j - 1) = int X" "ritem g ! (?j - 1) = int Y"
    using goto_kernel_list(2) [OF wf assms(2,3), of ?j] goto_kernel_list(2) [OF wf assms(4,5), of ?j] assms(6,7)
    by (simp_all add: hd_in_set)
  then show ?thesis by simp
qed

lemma goto_kernel_not_start:
  assumes wf: "wf_grammar g" and "kernel_list g I" "0 < X"
  shows "goto_kernel g I X \<noteq> [1]"
  using goto_kernel_list(2) [OF assms, of 1] wf_headerD(11) [OF wf] by auto

section \<open>The invariant of the collection\<close>

definition core_from :: "grammar \<Rightarrow> core list \<Rightarrow> nat \<Rightarrow> core \<Rightarrow> bool" where
  "core_from g cs p c \<longleftrightarrow>
     accessing_symbol c \<in> set (goto_symbols g (core_items (cs ! p))) \<and>
     core_items c = goto_kernel g (core_items (cs ! p)) (accessing_symbol c)"

text \<open>\<open>pool g k st\<close>: the cores are numbered, distinct, reached from the first \<open>k\<close>, and hashed.\<close>

definition pool :: "grammar \<Rightarrow> nat \<Rightarrow> lr0_state \<Rightarrow> bool" where
  "pool g k st \<longleftrightarrow>
     0 < length (cores st) \<and> length (cores st) \<le> MAXSHORT \<and>
     cores st ! 0 = \<lparr>core_number = 0, accessing_symbol = 0, core_items = [1]\<rparr> \<and>
     (\<forall>n < length (cores st). core_number (cores st ! n) = n \<and> kernel_list g (core_items (cores st ! n))) \<and>
     distinct (map core_items (cores st)) \<and>
     (\<forall>n. 0 < n \<longrightarrow> n < length (cores st) \<longrightarrow> (\<exists>p < k. p < n \<and> core_from g (cores st) p (cores st ! n))) \<and>
     length (state_set st) = nitems g \<and>
     (\<forall>key < nitems g. set (state_set st ! key) =
        {n. 0 < n \<and> n < length (cores st) \<and> hd (core_items (cores st ! n)) = key})"

lemma find_core_Some:
  "find_core cs chain its = Some n \<Longrightarrow> n \<in> set chain \<and> core_items (cs ! n) = its"
  by (induction chain) (auto split: if_splits)

lemma find_core_None:
  "find_core cs chain its = None \<longleftrightarrow> (\<forall>n \<in> set chain. core_items (cs ! n) \<noteq> its)"
  by (induction chain) auto

lemma set_goto_symbols:
  "X \<in> set (goto_symbols g I) \<longleftrightarrow> 0 < X \<and> X < nsyms g \<and> goto_kernel g I X \<noteq> []"
  by (auto simp: goto_symbols_def)

text \<open>The kernel in the arrays after \<open>new_itemsets\<close> on the closure of \<open>I\<close>.\<close>

lemma kernel_slice_goto:
  assumes wf: "wf_grammar g" and I: "kernel_list g I" and K: "kernels_of g (closed_items g I) st"
    and X: "X \<in> set (goto_symbols g I)"
  shows "kernel_slice st X = goto_kernel g I X"
    "kernel_items st ! (kernel_base st ! X) = hd (goto_kernel g I X)"
proof -
  have X': "0 < X" "X < nsyms g" "items_on g X (closed_items g I) \<noteq> []"
    using X by (auto simp: set_goto_symbols goto_kernel_def)
  note C = closed_items_kernel [OF wf I]
  show "kernel_slice st X = goto_kernel g I X"
    using kernel_slice_items [OF K X'(1,2) C(3,4)] by (simp add: goto_kernel_def)
  have "kernel_items st ! (room g X + 0) = Suc (items_on g X (closed_items g I) ! 0)"
    using K X' unfolding kernels_of_def by blast
  then show "kernel_items st ! (kernel_base st ! X) = hd (goto_kernel g I X)"
    using K X' by (simp add: kernels_of_def goto_kernel_def hd_map hd_conv_nth)
qed

lemma hd_goto_kernel:
  assumes wf: "wf_grammar g" and I: "kernel_list g I" and X: "X \<in> set (goto_symbols g I)"
  shows "hd (goto_kernel g I X) < nitems g"
  using goto_kernel_list(1) [OF wf I, of X] X hd_in_set [of "goto_kernel g I X"]
  by (auto simp: set_goto_symbols kernel_list_def)

lemma pool_pred:
  "pool g k st \<Longrightarrow> 0 < n \<Longrightarrow> n < length (cores st) \<Longrightarrow>
   \<exists>p < k. p < n \<and> core_from g (cores st) p (cores st ! n)"
  unfolding pool_def by blast

lemma pool_add:
  assumes P: "pool g k st" and p: "p < k" "p < length (cores st)" "core_from g (cores st) p c"
    and c: "core_number c = length (cores st)" "kernel_list g (core_items c)"
      "core_items c \<notin> core_items ` set (cores st)"
    and key: "key = hd (core_items c)" "key < nitems g"
    and small: "length (cores st) < MAXSHORT"
  shows "pool g k (st\<lparr>cores := cores st @ [c],
    state_set := (state_set st)[key := state_set st ! key @ [length (cores st)]]\<rparr>)"
proof -
  let ?cs = "cores st @ [c]" and ?n = "length (cores st)"
  have reach: "\<exists>p < k. p < n \<and> core_from g ?cs p (?cs ! n)" if "0 < n" "n < Suc ?n" for n
  proof (cases "n = ?n")
    case True
    with p show ?thesis by (intro exI [of _ p]) (simp add: core_from_def nth_append)
  next
    case False
    with that have n: "n < ?n" by simp
    from pool_pred [OF P that(1) n]
    obtain q where "q < k" "q < n" "core_from g (cores st) q (cores st ! n)" by blast
    with n show ?thesis by (intro exI [of _ q]) (simp add: core_from_def nth_append)
  qed
  have hash: "set ((state_set st)[key := state_set st ! key @ [?n]] ! j) =
      {n. 0 < n \<and> n < Suc ?n \<and> hd (core_items (?cs ! n)) = j}" if "j < nitems g" for j
  proof -
    have "set (state_set st ! j) = {n. 0 < n \<and> n < ?n \<and> hd (core_items (cores st ! n)) = j}"
      using P that by (simp add: pool_def)
    moreover have "{n. 0 < n \<and> n < Suc ?n \<and> hd (core_items (?cs ! n)) = j} =
      {n. 0 < n \<and> n < ?n \<and> hd (core_items (cores st ! n)) = j} \<union> (if key = j then {?n} else {})"
      using P key(1) by (auto simp: nth_append less_Suc_eq pool_def split: if_splits)
    ultimately show ?thesis
      using P that by (auto simp: pool_def nth_list_update)
  qed
  have dist: "distinct (map core_items ?cs)" using P c(3) by (simp add: pool_def)
  have num: "core_number (?cs ! n) = n \<and> kernel_list g (core_items (?cs ! n))" if "n < Suc ?n" for n
    using that P c by (auto simp: pool_def nth_append less_Suc_eq)
  show ?thesis using P reach hash dist num small by (simp add: pool_def nth_append)
qed

text \<open>What a successful \<open>get_state\<close> leaves: more cores, the arrays of kernels as they were.\<close>

definition extends :: "lr0_state \<Rightarrow> lr0_state \<Rightarrow> bool" where
  "extends st st' \<longleftrightarrow>
     (\<exists>ys. cores st' = cores st @ ys) \<and> kernel_base st' = kernel_base st \<and>
     kernel_items st' = kernel_items st \<and> kernel_end st' = kernel_end st \<and>
     shift_symbol st' = shift_symbol st \<and>
     first_shift st' = first_shift st \<and> first_reduction st' = first_reduction st"

lemma extends_refl: "extends st st"
  by (simp add: extends_def)

lemma extends_trans: "extends a b \<Longrightarrow> extends b c \<Longrightarrow> extends a c"
  by (auto simp: extends_def)

lemma extends_nth: "extends st st' \<Longrightarrow> n < length (cores st) \<Longrightarrow> n < length (cores st') \<and> cores st' ! n = cores st ! n"
  by (auto simp: extends_def nth_append)

lemma extends_kernels: "extends st st' \<Longrightarrow> kernels_of g is st' = kernels_of g is st"
  by (auto simp: extends_def kernels_of_def)

definition target_for :: "grammar \<Rightarrow> core list \<Rightarrow> nat list \<Rightarrow> nat \<Rightarrow> nat \<Rightarrow> bool" where
  "target_for g cs I t X \<longleftrightarrow>
     0 < t \<and> t < length cs \<and> accessing_symbol (cs ! t) = X \<and> core_items (cs ! t) = goto_kernel g I X"

lemma get_state_correct:
  assumes wf: "wf_grammar g" and P: "pool g (Suc k) st" and k: "k < length (cores st)"
  defines "I \<equiv> core_items (cores st ! k)"
  assumes K: "kernels_of g (closed_items g I) st" and X: "X \<in> set (goto_symbols g I)"
  shows "get_state g X st = Inl (Fatal ''too many states'') \<or>
    (\<exists>t st'. get_state g X st = Inr (t, st') \<and> pool g (Suc k) st' \<and> extends st st' \<and>
       target_for g (cores st') I t X)"
proof -
  have I: "kernel_list g I" using P k by (simp add: pool_def I_def)
  let ?J = "goto_kernel g I X" and ?n = "length (cores st)"
  let ?key = "hd ?J" and ?c = "\<lparr>core_number = ?n, accessing_symbol = X, core_items = ?J\<rparr>"
  note S = kernel_slice_goto [OF wf I K X]
  have key: "?key < nitems g" by (rule hd_goto_kernel [OF wf I X])
  have X': "0 < X" "?J \<noteq> []" using X by (simp_all add: set_goto_symbols)
  have chain: "set (state_set st ! ?key) = {n. 0 < n \<and> n < ?n \<and> hd (core_items (cores st ! n)) = ?key}"
    using P key by (simp add: pool_def)
  show ?thesis
  proof (cases "find_core (cores st) (state_set st ! ?key) ?J")
    case (Some t)
    from find_core_Some [OF Some] have t: "0 < t" "t < ?n" "core_items (cores st ! t) = ?J"
      unfolding chain by auto
    from pool_pred [OF P t(1,2)]
    obtain p where p: "p < t" "core_from g (cores st) p (cores st ! t)" by blast
    have "kernel_list g (core_items (cores st ! p))" using P p t by (simp add: pool_def)
    from goto_kernel_inj [OF wf I X'(1) this] p(2) t(3) X'
    have "accessing_symbol (cores st ! t) = X" by (auto simp: core_from_def set_goto_symbols)
    moreover have "core_number (cores st ! t) = t" using P t by (simp add: pool_def)
    ultimately show ?thesis
      using t P Some S key extends_refl by (simp add: get_state_def target_for_def Let_def)
  next
    case None
    have no: "core_items (cores st ! n) \<noteq> ?J" if "n < ?n" for n
    proof (cases "n = 0")
      case True
      then show ?thesis using P goto_kernel_not_start [OF wf I X'(1)] by (auto simp: pool_def)
    next
      case False
      with None that show ?thesis unfolding find_core_None chain by auto
    qed
    then have "core_items ?c \<notin> core_items ` set (cores st)"
      unfolding image_iff Ball_def Bex_def in_set_conv_nth by fastforce
    moreover have "core_from g (cores st) k ?c" using X by (simp add: core_from_def I_def)
    ultimately have "?n < MAXSHORT \<Longrightarrow> pool g (Suc k) (st\<lparr>cores := cores st @ [?c],
        state_set := (state_set st)[?key := state_set st ! ?key @ [?n]]\<rparr>)"
      using pool_add [OF P _ k, of ?c ?key] goto_kernel_list(1) [OF wf I X'(1)] key by simp
    then show ?thesis
      using None S key P k
      by (auto simp: get_state_def new_state_def Let_def extends_def target_for_def nth_append pool_def)
  qed
qed

lemma target_for_extends:
  "extends st st' \<Longrightarrow> target_for g (cores st) I t X \<Longrightarrow> target_for g (cores st') I t X"
  using extends_nth [of st st' t] by (simp add: target_for_def)

lemma get_states_correct:
  assumes wf: "wf_grammar g" and "pool g (Suc k) st" "k < length (cores st)"
    and "I = core_items (cores st ! k)"
    and "kernels_of g (closed_items g I) st" "set Xs \<subseteq> set (goto_symbols g I)"
  shows "get_states g Xs st = Inl (Fatal ''too many states'') \<or>
    (\<exists>ts st'. get_states g Xs st = Inr (ts, st') \<and> pool g (Suc k) st' \<and> extends st st' \<and>
       list_all2 (target_for g (cores st') I) ts Xs)"
  using assms(2-)
proof (induction Xs arbitrary: st)
  case Nil
  then show ?case by (simp add: extends_refl)
next
  case (Cons X Xs)
  from get_state_correct [OF wf Cons.prems(1,2), of X] Cons.prems
  consider "get_state g X st = Inl (Fatal ''too many states'')"
    | t st1 where "get_state g X st = Inr (t, st1)" "pool g (Suc k) st1" "extends st st1"
        "target_for g (cores st1) I t X"
    by auto
  then show ?case
  proof cases
    case 2
    from extends_nth [OF 2(3) Cons.prems(2)] extends_kernels [OF 2(3)] Cons.prems
      Cons.IH [OF 2(2)]
    consider "get_states g Xs st1 = Inl (Fatal ''too many states'')"
      | ts st2 where "get_states g Xs st1 = Inr (ts, st2)" "pool g (Suc k) st2" "extends st1 st2"
          "list_all2 (target_for g (cores st2) I) ts Xs"
      by auto
    then show ?thesis
    proof cases
      case 1
      with 2 show ?thesis by simp
    next
      case S: 2
      with 2 show ?thesis
        using extends_trans [OF 2(3) S(3)] target_for_extends [OF S(3) 2(4)] by simp
    qed
  qed simp
qed

section \<open>One round of the loop\<close>

definition shifts_of :: "grammar \<Rightarrow> core list \<Rightarrow> nat \<Rightarrow> shifts \<Rightarrow> bool" where
  "shifts_of g cs k sh \<longleftrightarrow> shifts_number sh = k \<and>
     list_all2 (target_for g cs (core_items (cs ! k))) (shift_row sh) (goto_symbols g (core_items (cs ! k)))"

definition reductions_of :: "grammar \<Rightarrow> core list \<Rightarrow> nat \<Rightarrow> reductions" where
  "reductions_of g cs k =
     \<lparr>reductions_number = k, reduction_rules = complete_rules g (core_items (cs ! k))\<rparr>"

text \<open>After \<open>k\<close> rounds.\<close>

definition expanded :: "grammar \<Rightarrow> nat \<Rightarrow> lr0_state \<Rightarrow> bool" where
  "expanded g k st \<longleftrightarrow>
     pool g k st \<and> k \<le> length (cores st) \<and> (\<exists>is. kernels_of g is st) \<and>
     list_all2 (shifts_of g (cores st))
       (filter (\<lambda>n. goto_symbols g (core_items (cores st ! n)) \<noteq> []) [0..<k]) (first_shift st) \<and>
     first_reduction st = map (reductions_of g (cores st))
       (filter (\<lambda>n. complete_rules g (core_items (cores st ! n)) \<noteq> []) [0..<k])"

lemma pool_Suc: "pool g k st \<Longrightarrow> pool g (Suc k) st"
  unfolding pool_def by (elim conjE, intro conjI; (assumption | blast intro: less_SucI))

lemma pool_cong:
  "cores st' = cores st \<Longrightarrow> state_set st' = state_set st \<Longrightarrow> pool g k st' = pool g k st"
  by (simp add: pool_def)

lemma shifts_of_extends:
  "extends st st' \<Longrightarrow> k < length (cores st) \<Longrightarrow> shifts_of g (cores st) k sh \<Longrightarrow> shifts_of g (cores st') k sh"
  using extends_nth [of st st' k]
  by (auto simp: shifts_of_def intro: list_all2_mono target_for_extends)

lemma sort_shift_symbols:
  assumes "kernels_of g (closed_items g I) st"
  shows "sort_symbols (shift_symbol st) = goto_symbols g I"
proof (rule sorted_distinct_set_unique)
  show "set (sort_symbols (shift_symbol st)) = set (goto_symbols g I)"
    using assms by (auto simp: sort_symbols_sort kernels_of_def set_goto_symbols goto_kernel_def)
qed (use assms in \<open>auto simp: sort_symbols_sort kernels_of_def goto_symbols_def sorted_wrt_filter\<close>)

lemma new_itemset_frame:
  "cores (new_itemset g i st) = cores st \<and> state_set (new_itemset g i st) = state_set st \<and>
   first_shift (new_itemset g i st) = first_shift st \<and>
   first_reduction (new_itemset g i st) = first_reduction st"
  by (auto simp: new_itemset_def Let_def split: option.splits)

lemma new_itemsets_frame:
  "cores (new_itemsets g is st) = cores st \<and> state_set (new_itemsets g is st) = state_set st \<and>
   first_shift (new_itemsets g is st) = first_shift st \<and>
   first_reduction (new_itemsets g is st) = first_reduction st"
proof -
  have "cores (fold (new_itemset g) is s) = cores s \<and> state_set (fold (new_itemset g) is s) = state_set s \<and>
   first_shift (fold (new_itemset g) is s) = first_shift s \<and>
   first_reduction (fold (new_itemset g) is s) = first_reduction s" for s
    by (induction "is" arbitrary: s) (simp_all add: new_itemset_frame)
  then show ?thesis by (simp add: new_itemsets_def)
qed

lemma save_reductions_frame:
  "cores (save_reductions g n is st) = cores st" "state_set (save_reductions g n is st) = state_set st"
  "first_shift (save_reductions g n is st) = first_shift st"
  "kernels_of g js (save_reductions g n is st) = kernels_of g js st"
  "first_reduction (save_reductions g n (closed_items g I) st) = first_reduction st @
     (if complete_rules g I = [] then [] else [\<lparr>reductions_number = n, reduction_rules = complete_rules g I\<rparr>])"
  by (auto simp: save_reductions_def Let_def complete_rules_def kernels_of_def)

lemma reductions_of_extends:
  assumes "extends st st'" "k \<le> length (cores st)"
  shows "map (reductions_of g (cores st')) (filter (\<lambda>n. complete_rules g (core_items (cores st' ! n)) \<noteq> []) [0..<k]) =
    map (reductions_of g (cores st)) (filter (\<lambda>n. complete_rules g (core_items (cores st ! n)) \<noteq> []) [0..<k])"
proof -
  have eq: "cores st' ! n = cores st ! n" if "n \<in> set [0..<k]" for n
    using extends_nth [OF assms(1), of n] assms(2) that by simp
  then show ?thesis
    by (auto simp: reductions_of_def intro!: map_cong filter_cong)
qed

lemma shift_rows_extends:
  assumes "extends st st'" "k \<le> length (cores st)"
    and "list_all2 (shifts_of g (cores st))
       (filter (\<lambda>n. goto_symbols g (core_items (cores st ! n)) \<noteq> []) [0..<k]) shs"
  shows "list_all2 (shifts_of g (cores st'))
       (filter (\<lambda>n. goto_symbols g (core_items (cores st' ! n)) \<noteq> []) [0..<k]) shs"
proof -
  have eq: "cores st' ! n = cores st ! n" if "n \<in> set [0..<k]" for n
    using extends_nth [OF assms(1), of n] assms(2) that by simp
  then have "filter (\<lambda>n. goto_symbols g (core_items (cores st' ! n)) \<noteq> []) [0..<k] =
    filter (\<lambda>n. goto_symbols g (core_items (cores st ! n)) \<noteq> []) [0..<k]"
    by (intro filter_cong) auto
  then show ?thesis
    using assms(3) shifts_of_extends [OF assms(1)] assms(2)
    by (auto elim!: list.rel_mono_strong)
qed

lemma expand_state_correct:
  assumes wf: "wf_grammar g" and E: "expanded g k st" and k: "k < length (cores st)"
  defines "fd \<equiv> set_first_derives g (set_derives g)"
  shows "expand_state g fd k st = Inl (Fatal ''too many states'') \<or>
    (\<exists>st'. expand_state g fd k st = Inr st' \<and> expanded g (Suc k) st')"
proof -
  let ?I = "core_items (cores st ! k)"
  have P: "pool g (Suc k) st" using E by (auto simp: expanded_def intro: pool_Suc)
  then have I: "kernel_list g ?I" and num: "core_number (cores st ! k) = k" using k by (auto simp: pool_def)
  note C = closed_items_kernel [OF wf I, folded fd_def]
  define st1 where "st1 = new_itemsets g (closed_items g ?I) (save_reductions g k (closed_items g ?I) st)"
  have K1: "kernels_of g (closed_items g ?I) st1"
    unfolding st1_def using E new_itemsets_kernels [OF wf C(3,4)]
    by (auto simp: expanded_def save_reductions_frame)
  have fr: "cores st1 = cores st" "state_set st1 = state_set st" "first_shift st1 = first_shift st"
    "first_reduction st1 = first_reduction st @ (if complete_rules g ?I = [] then [] else [reductions_of g (cores st) k])"
    unfolding st1_def by (simp_all add: new_itemsets_frame save_reductions_frame reductions_of_def)
  define st2 where "st2 = st1\<lparr>shift_symbol := goto_symbols g ?I\<rparr>"
  have st2: "kernels_of g (closed_items g ?I) st2" "pool g (Suc k) st2" "cores st2 = cores st"
    "k < length (cores st2)"
    using K1 P fr k pool_cong [of st2 st g "Suc k"]
    by (auto simp: st2_def kernels_of_def set_goto_symbols goto_kernel_def goto_symbols_def)
  have app: "append_states g st1 = get_states g (goto_symbols g ?I) st2"
    by (simp add: append_states_def sort_shift_symbols [OF K1] st2_def Let_def)
  have ex: "expand_state g fd k st = (case append_states g st1 of Inl e \<Rightarrow> Inl e
      | Inr (ss, st) \<Rightarrow> Inr (if 0 < length (shift_symbol st) then save_shifts k ss st else st))"
    unfolding expand_state_def Let_def num C(5) st1_def ..
  from get_states_correct [OF wf st2(2,4) _ _ order_refl, of ?I] st2
  consider "append_states g st1 = Inl (Fatal ''too many states'')"
    | ts st3 where "append_states g st1 = Inr (ts, st3)" "pool g (Suc k) st3" "extends st2 st3"
       "list_all2 (target_for g (cores st3) ?I) ts (goto_symbols g ?I)"
    unfolding app by auto
  then show ?thesis
  proof cases
    case 1
    then show ?thesis by (simp add: ex)
  next
    case 2
    define st4 where "st4 = (if 0 < length (shift_symbol st3) then save_shifts k ts st3 else st3)"
    have sym: "shift_symbol st3 = goto_symbols g ?I" using 2(3) by (simp add: extends_def st2_def)
    have c4: "cores st4 = cores st3" "state_set st4 = state_set st3"
      "first_reduction st4 = first_reduction st1" "kernels_of g (closed_items g ?I) st4"
      "first_shift st4 = first_shift st @
         (if goto_symbols g ?I = [] then [] else [\<lparr>shifts_number = k, shift_row = ts\<rparr>])"
      using 2(3) st2(1) fr extends_kernels [OF 2(3)] sym
      by (auto simp: st4_def save_shifts_def extends_def st2_def kernels_of_def)
    have k3: "k < length (cores st3)" "cores st3 ! k = cores st ! k"
      using extends_nth [OF 2(3) st2(4)] st2(3) by auto
    have ext: "extends st (st\<lparr>cores := cores st3\<rparr>)"
      using 2(3) st2(3) by (auto simp: extends_def)
    have E': "list_all2 (shifts_of g (cores st))
         (filter (\<lambda>n. goto_symbols g (core_items (cores st ! n)) \<noteq> []) [0..<k]) (first_shift st)"
       "first_reduction st = map (reductions_of g (cores st))
         (filter (\<lambda>n. complete_rules g (core_items (cores st ! n)) \<noteq> []) [0..<k])"
      using E by (simp_all add: expanded_def)
    have sh: "list_all2 (shifts_of g (cores st3))
         (filter (\<lambda>n. goto_symbols g (core_items (cores st3 ! n)) \<noteq> []) [0..<Suc k]) (first_shift st4)"
      using shift_rows_extends [OF ext less_imp_le [OF k] E'(1)] 2(4) k3(2)
      by (auto simp: c4(5) shifts_of_def intro!: list_all2_appendI)
    have rd: "first_reduction st4 = map (reductions_of g (cores st3))
         (filter (\<lambda>n. complete_rules g (core_items (cores st3 ! n)) \<noteq> []) [0..<Suc k])"
      using reductions_of_extends [OF ext less_imp_le [OF k], of g] k3(2) E'(2)
      by (simp add: c4(3) fr(4) reductions_of_def)
    have "pool g (Suc k) st4" using 2(2) pool_cong [OF c4(1,2)] by simp
    then have "expanded g (Suc k) st4"
      using sh rd k3(1) c4(4) by (auto simp: expanded_def c4(1))
    then show ?thesis using 2(1) by (simp add: ex st4_def)
  qed
qed

section \<open>The whole automaton\<close>

lemma rules_of_start:
  assumes wf: "wf_grammar g"
  shows "rules_of g (start_symbol g) = [2]"
proof (rule sorted_distinct_set_unique)
  have "r = 2" if r: "r < nrules g" "rlhs g ! r = start_symbol g" for r
  proof (rule ccontr)
    assume "r \<noteq> 2"
    moreover have "2 \<le> r" using rlhs_var_ge_2 [OF wf r(1)] r(2) by simp
    ultimately have "start_symbol g < rlhs g ! r" using wf_ruleD(1) [OF wf _ r(1)] by simp
    with r(2) show False by simp
  qed
  moreover have "2 < nrules g" "rlhs g ! 2 = start_symbol g"
    using wf_sizesD(8) [OF wf] wf_headerD(10) [OF wf] by simp_all
  ultimately have "{r. r < nrules g \<and> rlhs g ! r = start_symbol g} = {2}" by blast
  then show "set (rules_of g (start_symbol g)) = set [2]" by (simp add: set_rules_of)
qed (simp_all add: rules_of_def sorted_wrt_filter)

lemma initial_expanded:
  assumes wf: "wf_grammar g"
  shows "expanded g 0 (initial_state g (set_derives g))"
proof -
  have "start_symbol g < nsyms g" using wf_sizesD [OF wf] by linarith
  then have "derive_row (set_derives g) (start_symbol g) = [2]"
    using derive_row_set_derives [OF wf] rules_of_start [OF wf] by simp
  then have cs: "initialize_states g (set_derives g) =
      [\<lparr>core_number = 0, accessing_symbol = 0, core_items = [1]\<rparr>]"
    using wf_headerD(4) [OF wf] by (simp add: initialize_states_def)
  have "pool g 0 (initial_state g (set_derives g))"
    using wf_sizesD(9) [OF wf]
    by (auto simp: initial_state_def cs case_prod_beta pool_def kernel_list_def MAXSHORT_def)
  moreover have "kernels_of g [] (initial_state g (set_derives g))"
    by (simp add: kernels_of_def initial_state_def allocate_itemsets_room [OF wf] items_on_def)
  moreover have "first_shift (initial_state g (set_derives g)) = []"
    "first_reduction (initial_state g (set_derives g)) = []"
    by (simp_all add: initial_state_def case_prod_beta)
  ultimately show ?thesis by (auto simp: expanded_def)
qed

lemma generate_from_correct:
  assumes wf: "wf_grammar g" and "expanded g k st" "MAXSHORT < fuel + k"
  shows "generate_from fuel g (set_first_derives g (set_derives g)) k st =
      Some (Inl (Fatal ''too many states'')) \<or>
    (\<exists>st'. generate_from fuel g (set_first_derives g (set_derives g)) k st = Some (Inr st') \<and>
       expanded g (length (cores st')) st')"
  using assms(2,3)
proof (induction fuel arbitrary: k st)
  case 0
  then show ?case by (simp add: expanded_def pool_def)
next
  case (Suc fuel)
  show ?case
  proof (cases "k < length (cores st)")
    case True
    have fuel: "MAXSHORT < fuel + Suc k" using Suc.prems(2) by simp
    from expand_state_correct [OF wf Suc.prems(1) True]
    consider "expand_state g (set_first_derives g (set_derives g)) k st = Inl (Fatal ''too many states'')"
      | st1 where "expand_state g (set_first_derives g (set_derives g)) k st = Inr st1" "expanded g (Suc k) st1"
      by blast
    then show ?thesis
    proof cases
      case 2
      from Suc.IH [OF 2(2) fuel] show ?thesis by (simp add: True 2(1))
    qed (simp add: True)
  next
    case False
    then have "k = length (cores st)" using Suc.prems(1) by (simp add: expanded_def)
    with Suc.prems(1) show ?thesis by simp
  qed
qed

lemma generate_states_correct:
  assumes wf: "wf_grammar g"
  shows "generate_states g (set_derives g) = Some (Inl (Fatal ''too many states'')) \<or>
    (\<exists>st. generate_states g (set_derives g) = Some (Inr st) \<and> expanded g (length (cores st)) st)"
  unfolding generate_states_def
  by (rule generate_from_correct [OF wf initial_expanded [OF wf]]) simp

lemma generate_states_expanded:
  assumes wf: "wf_grammar g" and "generate_states g (set_derives g) = Some (Inr st)"
  shows "expanded g (length (cores st)) st"
  using generate_states_correct [OF wf] assms(2) by auto

text \<open>Reading the lists back: the shift row and the rule list of a state.\<close>

lemma expanded_shift_row:
  assumes E: "expanded g (length (cores st)) st" and n: "n < length (cores st)"
  shows "if goto_symbols g (core_items (cores st ! n)) = []
    then \<forall>sh \<in> set (first_shift st). shifts_number sh \<noteq> n
    else \<exists>sh \<in> set (first_shift st). shifts_of g (cores st) n sh"
proof -
  let ?ns = "filter (\<lambda>n. goto_symbols g (core_items (cores st ! n)) \<noteq> []) [0..<length (cores st)]"
  have L: "list_all2 (shifts_of g (cores st)) ?ns (first_shift st)"
    using E by (simp add: expanded_def)
  show ?thesis
  proof (cases "goto_symbols g (core_items (cores st ! n)) = []")
    case True
    have "shifts_number sh \<noteq> n" if "sh \<in> set (first_shift st)" for sh
    proof -
      from list_all2_ex_left [OF L that]
      obtain m where "m \<in> set ?ns" "shifts_of g (cores st) m sh" by blast
      with True show ?thesis by (auto simp: shifts_of_def)
    qed
    with True show ?thesis by simp
  next
    case False
    with n have "n \<in> set ?ns" by simp
    from list_all2_ex_right [OF L this]
    obtain sh where "sh \<in> set (first_shift st)" "shifts_of g (cores st) n sh" by blast
    with False show ?thesis by auto
  qed
qed

lemma expanded_canonical:
  assumes wf: "wf_grammar g" and E: "expanded g (length (cores st)) st"
  shows "core_items ` set (cores st) = canonical g"
proof
  have P: "pool g (length (cores st)) st" using E by (simp add: expanded_def)
  have "core_items (cores st ! n) \<in> canonical g" if "n < length (cores st)" for n
    using that
  proof (induction n rule: less_induct)
    case (less n)
    show ?case
    proof (cases "n = 0")
      case True
      then show ?thesis using P canonical.start by (simp add: pool_def)
    next
      case False
      then obtain p where p: "p < n" "core_from g (cores st) p (cores st ! n)"
        using pool_pred [OF P _ less.prems] by auto
      with less.IH [OF p(1)] less.prems canonical.step [of "core_items (cores st ! p)" g]
      show ?thesis by (auto simp: core_from_def)
    qed
  qed
  then show "core_items ` set (cores st) \<subseteq> canonical g"
    by (force simp: in_set_conv_nth)
  show "canonical g \<subseteq> core_items ` set (cores st)"
  proof
    fix I assume "I \<in> canonical g"
    then show "I \<in> core_items ` set (cores st)"
    proof induction
      case start
      have "0 < length (cores st)" "core_items (cores st ! 0) = [1]"
        using P by (simp_all add: pool_def)
      then have "cores st ! 0 \<in> set (cores st)" "core_items (cores st ! 0) = [1]"
        using nth_mem by blast+
      then show ?case by (metis image_eqI)
    next
      case (step I X)
      from step.IH obtain n where n: "n < length (cores st)" "I = core_items (cores st ! n)"
        by (auto simp: in_set_conv_nth)
      from expanded_shift_row [OF E n(1)] step.hyps(2) n(2)
      obtain sh where "shifts_of g (cores st) n sh"
        by (cases "goto_symbols g I = []") auto
      with step.hyps(2) n(2) obtain t where "target_for g (cores st) I t X"
        by (auto simp: shifts_of_def list_all2_conv_all_nth in_set_conv_nth)
      then show ?case by (auto simp: target_for_def intro!: image_eqI [of _ _ "cores st ! t"])
    qed
  qed
qed

section \<open>Properties\<close>

text \<open>The insertion sort of \<^verbatim>\<open>append_states\<close> is a sort.\<close>

theorem sort_symbols_correct: "sorted (sort_symbols xs) \<and> mset (sort_symbols xs) = mset xs"
  by (simp add: sort_symbols_sort)

text \<open>
  C38: the slots that \<^verbatim>\<open>allocate_itemsets\<close> lays out are large enough.  Started from any
  item set, the loop of \<^verbatim>\<open>new_itemsets\<close> leaves for every symbol the successors of the items on it,
  in order, inside the slot of that symbol.
\<close>

theorem new_itemsets_slots:
  assumes "wf_grammar g" "distinct is" "\<forall>i \<in> set is. i < nitems g" "0 < X" "X < nsyms g"
  shows "kernel_slice (new_itemsets g is (initial_state g (set_derives g))) X =
      map Suc (filter (\<lambda>i. ritem g ! i = int X) is) \<and>
    length (kernel_items (new_itemsets g is (initial_state g (set_derives g)))) = snd (allocate_itemsets g)"
proof -
  obtain js where "kernels_of g js (initial_state g (set_derives g))"
    using initial_expanded [OF assms(1)] by (auto simp: expanded_def)
  from new_itemsets_kernels [OF assms(1-3) this] have K: "kernels_of g is (new_itemsets g is (initial_state g (set_derives g)))" .
  from kernel_slice_items [OF K assms(4,5,2,3)] K show ?thesis
    by (simp add: items_on_def kernels_of_def allocate_itemsets_room [OF assms(1)])
qed

theorem new_itemsets_slots_witness:
  "kernel_slice (new_itemsets sample_grammar [1, 4, 7] (initial_state sample_grammar (set_derives sample_grammar))) 4 =
      map Suc (filter (\<lambda>i. ritem sample_grammar ! i = int 4) [1, 4, 7]) \<and>
    length (kernel_items (new_itemsets sample_grammar [1, 4, 7] (initial_state sample_grammar (set_derives sample_grammar)))) =
      snd (allocate_itemsets sample_grammar)"
  by (rule new_itemsets_slots [OF sample_wf]) (simp_all add: sample_grammar_def)

end
