(* ===== verification/Digraph.thy ===== *)
theory Digraph
  imports Jay_Prelude
begin

text \<open>
  \<^verbatim>\<open>digraph\<close> and \<^verbatim>\<open>traverse\<close> of \<^verbatim>\<open>jay/lalr.c\<close>: the transitive union of the rows of
  \<^verbatim>\<open>F\<close> along a relation, by depth-first search with one stack (\<^verbatim>\<open>VERTICES\<close>) and
  the low marks \<^verbatim>\<open>INDEX\<close>.  A relation is a list of rows of successors; the null pointer
  of a goto without edges is the empty row.  The main lemma says that row \<open>i\<close> ends as the
  union of the initial rows of everything reachable from \<open>i\<close>, and that the recursion depth
  never exceeds the number of gotos.
\<close>

section \<open>Operations\<close>

record digraph_state =
  F :: "u32 list"
  INDEX :: "nat list"
  VERTICES :: "nat list"
  top_index :: nat

text \<open>The loop of \<^verbatim>\<open>traverse\<close> over \<^verbatim>\<open>R[i]\<close>; \<open>visit\<close> is the recursive call.\<close>

definition join_row :: "nat \<Rightarrow> nat \<Rightarrow> nat \<Rightarrow> digraph_state \<Rightarrow> digraph_state" where
  "join_row w i j st =
     st\<lparr>INDEX := (if INDEX st ! i > INDEX st ! j then (INDEX st)[i := INDEX st ! j] else INDEX st),
        F := or_row w (F st) (i * w) (j * w)\<rparr>"

primrec traverse_edges ::
  "(nat \<Rightarrow> digraph_state \<Rightarrow> digraph_state option) \<Rightarrow> nat \<Rightarrow> nat \<Rightarrow> nat list \<Rightarrow>
   digraph_state \<Rightarrow> digraph_state option" where
  "traverse_edges visit w i [] st = Some st"
| "traverse_edges visit w i (j # js) st =
     (case (if INDEX st ! j = 0 then visit j st else Some st) of
        None \<Rightarrow> None
      | Some st' \<Rightarrow> traverse_edges visit w i js (join_row w i j st'))"

text \<open>The endless \<^verbatim>\<open>for\<close> that pops a component; \<open>None\<close> is a stack that runs out.\<close>

function pop_component :: "nat \<Rightarrow> nat \<Rightarrow> nat \<Rightarrow> digraph_state \<Rightarrow> digraph_state option" where
  "pop_component w infinity i st =
     (if top_index st = 0 then None
      else
        let j = VERTICES st ! top_index st;
            st = st\<lparr>top_index := top_index st - 1, INDEX := (INDEX st)[j := infinity]\<rparr>
        in if i = j then Some st
           else pop_component w infinity i (st\<lparr>F := copy_row w (F st) (i * w) (j * w)\<rparr>))"
  by auto
termination by (relation "measure (\<lambda>(w, infinity, i, st). top_index st)") auto

declare pop_component.simps [simp del]

definition push_vertex :: "nat \<Rightarrow> digraph_state \<Rightarrow> digraph_state" where
  "push_vertex i st =
     (let t = top_index st + 1 in
      st\<lparr>top_index := t, VERTICES := (VERTICES st)[t := i], INDEX := (INDEX st)[i := t]\<rparr>)"

primrec traverse :: "nat \<Rightarrow> nat list list \<Rightarrow> nat \<Rightarrow> nat \<Rightarrow> nat \<Rightarrow> digraph_state \<Rightarrow> digraph_state option" where
  "traverse 0 R w infinity i st = None"
| "traverse (Suc fuel) R w infinity i st =
     (let st = push_vertex i st; height = top_index st in
      case traverse_edges (traverse fuel R w infinity) w i (R ! i) st of
        None \<Rightarrow> None
      | Some st' \<Rightarrow>
          if INDEX st' ! i = height then pop_component w infinity i st' else Some st')"

primrec digraph_from :: "nat \<Rightarrow> nat list list \<Rightarrow> nat \<Rightarrow> nat list \<Rightarrow> digraph_state \<Rightarrow> digraph_state option" where
  "digraph_from ngotos R w [] st = Some st"
| "digraph_from ngotos R w (i # is) st =
     (case (if INDEX st ! i = 0 \<and> R ! i \<noteq> [] then traverse ngotos R w (ngotos + 2) i st else Some st) of
        None \<Rightarrow> None
      | Some st' \<Rightarrow> digraph_from ngotos R w is st')"

text \<open>
  \<^verbatim>\<open>INDEX\<close> is an array of \<^verbatim>\<open>short\<close>s, and \<^verbatim>\<open>infinity\<close>, an \<^verbatim>\<open>int\<close>, is assigned to its entries as soon as a vertex
  with a successor is visited.  All other marks are positions on the stack, and the number of gotos fits.
\<close>

definition digraph :: "nat \<Rightarrow> nat \<Rightarrow> nat list list \<Rightarrow> u32 list \<Rightarrow> (jay_error + u32 list) option" where
  "digraph ngotos tokensetsize R F0 =
     (let infinity = ngotos + 2 in
      if MAXSHORT < infinity \<and> list_ex (\<lambda>i. R ! i \<noteq> []) [0..<ngotos] then Some (Inl OutOfShort)
      else
        case digraph_from ngotos R tokensetsize [0..<ngotos]
               \<lparr>F = F0, INDEX = replicate (ngotos + 1) 0, VERTICES = replicate (ngotos + 1) 0, top_index = 0\<rparr> of
          None \<Rightarrow> None
        | Some st \<Rightarrow> Some (Inr (F st)))"

section \<open>Specification\<close>

definition edges :: "nat list list \<Rightarrow> (nat \<times> nat) set" where
  "edges R = {(i, j). i < length R \<and> j \<in> set (R ! i)}"

definition union_of :: "nat list list \<Rightarrow> nat \<Rightarrow> u32 list \<Rightarrow> nat \<Rightarrow> nat set" where
  "union_of R w F0 i = (\<Union>j \<in> {j. (i, j) \<in> (edges R)\<^sup>*}. rowset F0 (j * w) w)"

definition relation_ok :: "nat list list \<Rightarrow> nat \<Rightarrow> u32 list \<Rightarrow> bool" where
  "relation_ok R w F0 \<longleftrightarrow> (\<forall>i < length R. \<forall>j \<in> set (R ! i). j < length R) \<and> length F0 = length R * w"

lemma union_of_step: "(i, j) \<in> (edges R)\<^sup>* \<Longrightarrow> union_of R w F0 j \<subseteq> union_of R w F0 i"
  by (auto simp: union_of_def intro: rtrancl_trans)

lemma union_of_self: "rowset F0 (i * w) w \<subseteq> union_of R w F0 i"
  by (auto simp: union_of_def)

lemma union_of_eqI:
  "(i, j) \<in> (edges R)\<^sup>* \<Longrightarrow> (j, i) \<in> (edges R)\<^sup>* \<Longrightarrow> union_of R w F0 i = union_of R w F0 j"
  using union_of_step by blast

section \<open>The invariant\<close>

abbreviation row :: "nat \<Rightarrow> digraph_state \<Rightarrow> nat \<Rightarrow> nat set" where
  "row w st i \<equiv> rowset (F st) (i * w) w"

text \<open>
  A vertex is white (mark 0), on the stack, or done (mark \<^verbatim>\<open>infinity\<close>).  Positions on the
  stack run from 1 to the top.
\<close>

definition dg_shape :: "nat list list \<Rightarrow> nat \<Rightarrow> digraph_state \<Rightarrow> bool" where
  "dg_shape R w st \<longleftrightarrow>
     length (F st) = length R * w \<and> length (INDEX st) = Suc (length R) \<and>
     length (VERTICES st) = Suc (length R) \<and> top_index st \<le> length R \<and>
     (\<forall>p. 1 \<le> p \<longrightarrow> p \<le> top_index st \<longrightarrow> VERTICES st ! p < length R)"

definition dg_stack :: "nat list list \<Rightarrow> digraph_state \<Rightarrow> bool" where
  "dg_stack R st \<longleftrightarrow>
     (\<forall>p q. 1 \<le> p \<longrightarrow> p \<le> top_index st \<longrightarrow> 1 \<le> q \<longrightarrow> q \<le> top_index st \<longrightarrow>
        VERTICES st ! p = VERTICES st ! q \<longrightarrow> p = q) \<and>
     (\<forall>p. 1 \<le> p \<longrightarrow> p \<le> top_index st \<longrightarrow> 1 \<le> INDEX st ! (VERTICES st ! p) \<and>
        INDEX st ! (VERTICES st ! p) \<le> p \<and>
        (VERTICES st ! p, VERTICES st ! (INDEX st ! (VERTICES st ! p))) \<in> (edges R)\<^sup>*) \<and>
     (\<forall>x < length R. INDEX st ! x = 0 \<or> INDEX st ! x = length R + 2 \<or>
        (\<exists>p. 1 \<le> p \<and> p \<le> top_index st \<and> VERTICES st ! p = x))"

definition dg_rows :: "nat list list \<Rightarrow> nat \<Rightarrow> u32 list \<Rightarrow> digraph_state \<Rightarrow> bool" where
  "dg_rows R w F0 st \<longleftrightarrow>
     (\<forall>x < length R. rowset F0 (x * w) w \<subseteq> row w st x \<and> row w st x \<subseteq> union_of R w F0 x) \<and>
     (\<forall>x < length R. INDEX st ! x = length R + 2 \<longrightarrow> row w st x = union_of R w F0 x) \<and>
     (\<forall>x < length R. \<forall>z \<in> set (R ! x). INDEX st ! x = length R + 2 \<longrightarrow> INDEX st ! z = length R + 2)"

definition dg_inv :: "nat list list \<Rightarrow> nat \<Rightarrow> u32 list \<Rightarrow> digraph_state \<Rightarrow> bool" where
  "dg_inv R w F0 st \<longleftrightarrow> dg_shape R w st \<and> dg_stack R st \<and> dg_rows R w F0 st"

text \<open>What the segment of the stack from position \<open>h\<close> on contributes to \<open>c\<close>.\<close>

definition good :: "nat list list \<Rightarrow> nat \<Rightarrow> u32 list \<Rightarrow> nat \<Rightarrow> nat \<Rightarrow> nat \<Rightarrow> nat set \<Rightarrow> digraph_state \<Rightarrow> bool" where
  "good R w F0 h c p zs st \<longleftrightarrow>
     (c, VERTICES st ! p) \<in> (edges R)\<^sup>* \<and> INDEX st ! c \<le> INDEX st ! (VERTICES st ! p) \<and>
     rowset F0 (VERTICES st ! p * w) w \<subseteq> row w st c \<and>
     (\<forall>z \<in> zs. INDEX st ! z \<noteq> 0 \<and> (\<forall>q \<in> {1..<h}. VERTICES st ! q = z \<longrightarrow> INDEX st ! c \<le> q) \<and>
        (INDEX st ! z = length R + 2 \<longrightarrow> union_of R w F0 z \<subseteq> row w st c))"

definition segment :: "nat list list \<Rightarrow> nat \<Rightarrow> u32 list \<Rightarrow> nat \<Rightarrow> nat \<Rightarrow> nat set \<Rightarrow> digraph_state \<Rightarrow> bool" where
  "segment R w F0 h i zs st \<longleftrightarrow>
     1 \<le> h \<and> h \<le> top_index st \<and> VERTICES st ! h = i \<and>
     (\<forall>p \<in> {h..top_index st}.
        good R w F0 h i p (if p = h then zs else set (R ! (VERTICES st ! p))) st \<and>
        (p \<noteq> h \<longrightarrow> INDEX st ! (VERTICES st ! p) < p))"

lemma segmentD:
  assumes "segment R w F0 h i zs st"
  shows "1 \<le> h" "h \<le> top_index st" "VERTICES st ! h = i"
    "\<And>p. h \<le> p \<Longrightarrow> p \<le> top_index st \<Longrightarrow>
       good R w F0 h i p (if p = h then zs else set (R ! (VERTICES st ! p))) st"
    "\<And>p. h \<le> p \<Longrightarrow> p \<le> top_index st \<Longrightarrow> p \<noteq> h \<Longrightarrow> INDEX st ! (VERTICES st ! p) < p"
  using assms by (simp_all add: segment_def)

lemma segment_closed:
  assumes "segment R w F0 h i (set (R ! i)) st" "h \<le> p" "p \<le> top_index st"
  shows "good R w F0 h i p (set (R ! (VERTICES st ! p))) st"
  using segmentD(4) [OF assms] segmentD(3) [OF assms(1)] by (cases "p = h") simp_all

text \<open>A visit leaves the stack below it, its marks and rows, and everything done alone.\<close>

definition dg_frame :: "nat list list \<Rightarrow> nat \<Rightarrow> digraph_state \<Rightarrow> digraph_state \<Rightarrow> bool" where
  "dg_frame R w st st' \<longleftrightarrow>
     top_index st \<le> top_index st' \<and>
     (\<forall>p. 1 \<le> p \<longrightarrow> p \<le> top_index st \<longrightarrow> VERTICES st' ! p = VERTICES st ! p) \<and>
     (\<forall>p. 1 \<le> p \<longrightarrow> p \<le> top_index st \<longrightarrow>
        INDEX st' ! (VERTICES st ! p) = INDEX st ! (VERTICES st ! p) \<and>
        row w st' (VERTICES st ! p) = row w st (VERTICES st ! p)) \<and>
     (\<forall>x < length R. INDEX st ! x = length R + 2 \<longrightarrow> INDEX st' ! x = length R + 2) \<and>
     (\<forall>x < length R. INDEX st' ! x = 0 \<longrightarrow> INDEX st ! x = 0)"

lemma dg_frameD:
  assumes "dg_frame R w st st'"
  shows "top_index st \<le> top_index st'"
    "\<And>p. 1 \<le> p \<Longrightarrow> p \<le> top_index st \<Longrightarrow> VERTICES st' ! p = VERTICES st ! p"
    "\<And>p. 1 \<le> p \<Longrightarrow> p \<le> top_index st \<Longrightarrow> INDEX st' ! (VERTICES st ! p) = INDEX st ! (VERTICES st ! p)"
    "\<And>p. 1 \<le> p \<Longrightarrow> p \<le> top_index st \<Longrightarrow> row w st' (VERTICES st ! p) = row w st (VERTICES st ! p)"
    "\<And>x. x < length R \<Longrightarrow> INDEX st ! x = length R + 2 \<Longrightarrow> INDEX st' ! x = length R + 2"
    "\<And>x. x < length R \<Longrightarrow> INDEX st' ! x = 0 \<Longrightarrow> INDEX st ! x = 0"
  using assms by (simp_all add: dg_frame_def)

lemma dg_frame_refl: "dg_frame R w st st"
  by (simp add: dg_frame_def)

lemma dg_frame_trans:
  assumes "dg_frame R w a b" "dg_frame R w b c"
  shows "dg_frame R w a c"
proof -
  note A = dg_frameD [OF assms(1)] and B = dg_frameD [OF assms(2)]
  have le: "p \<le> top_index b" if "p \<le> top_index a" for p using that A(1) by simp
  show ?thesis
    unfolding dg_frame_def
  proof (intro conjI allI impI)
    fix p assume p: "1 \<le> p" "p \<le> top_index a"
    note q = A(2) [OF p] and b = p(1) le [OF p(2)]
    show "VERTICES c ! p = VERTICES a ! p" using B(2) [OF b] q by simp
    show "INDEX c ! (VERTICES a ! p) = INDEX a ! (VERTICES a ! p)"
      using B(3) [OF b] A(3) [OF p] q by simp
    show "row w c (VERTICES a ! p) = row w a (VERTICES a ! p)"
      using B(4) [OF b] A(4) [OF p] q by simp
  next
    show "top_index a \<le> top_index c" using A(1) B(1) by simp
    fix x assume x: "x < length R"
    show "INDEX c ! x = length R + 2" if "INDEX a ! x = length R + 2"
      by (rule B(5) [OF x A(5) [OF x that]])
    show "INDEX a ! x = 0" if "INDEX c ! x = 0" by (rule A(6) [OF x B(6) [OF x that]])
  qed
qed

lemma dg_invD:
  assumes "dg_inv R w F0 st"
  shows "length (F st) = length R * w" "length (INDEX st) = Suc (length R)"
    "length (VERTICES st) = Suc (length R)" "top_index st \<le> length R"
    "\<And>p. 1 \<le> p \<Longrightarrow> p \<le> top_index st \<Longrightarrow> VERTICES st ! p < length R"
    "\<And>p q. 1 \<le> p \<Longrightarrow> p \<le> top_index st \<Longrightarrow> 1 \<le> q \<Longrightarrow> q \<le> top_index st \<Longrightarrow>
       VERTICES st ! p = VERTICES st ! q \<Longrightarrow> p = q"
    "\<And>p. 1 \<le> p \<Longrightarrow> p \<le> top_index st \<Longrightarrow> 1 \<le> INDEX st ! (VERTICES st ! p)"
    "\<And>p. 1 \<le> p \<Longrightarrow> p \<le> top_index st \<Longrightarrow> INDEX st ! (VERTICES st ! p) \<le> p"
    "\<And>p. 1 \<le> p \<Longrightarrow> p \<le> top_index st \<Longrightarrow>
       (VERTICES st ! p, VERTICES st ! (INDEX st ! (VERTICES st ! p))) \<in> (edges R)\<^sup>*"
    "\<And>x. x < length R \<Longrightarrow> INDEX st ! x \<noteq> 0 \<Longrightarrow> INDEX st ! x \<noteq> length R + 2 \<Longrightarrow>
       \<exists>p. 1 \<le> p \<and> p \<le> top_index st \<and> VERTICES st ! p = x"
    "\<And>x. x < length R \<Longrightarrow> rowset F0 (x * w) w \<subseteq> row w st x"
    "\<And>x. x < length R \<Longrightarrow> row w st x \<subseteq> union_of R w F0 x"
    "\<And>x. x < length R \<Longrightarrow> INDEX st ! x = length R + 2 \<Longrightarrow> row w st x = union_of R w F0 x"
    "\<And>x z. x < length R \<Longrightarrow> INDEX st ! x = length R + 2 \<Longrightarrow> z \<in> set (R ! x) \<Longrightarrow>
       INDEX st ! z = length R + 2"
proof -
  have S: "dg_shape R w st" "dg_stack R st" "dg_rows R w F0 st" using assms by (simp_all add: dg_inv_def)
  note sh = S(1) [unfolded dg_shape_def] and ro = S(3) [unfolded dg_rows_def]
  note st = S(2) [unfolded dg_stack_def, THEN conjunct1]
    S(2) [unfolded dg_stack_def, THEN conjunct2, THEN conjunct1]
    S(2) [unfolded dg_stack_def, THEN conjunct2, THEN conjunct2]
  show "length (F st) = length R * w" "length (INDEX st) = Suc (length R)"
    "length (VERTICES st) = Suc (length R)" "top_index st \<le> length R"
    "\<And>p. 1 \<le> p \<Longrightarrow> p \<le> top_index st \<Longrightarrow> VERTICES st ! p < length R"
    using sh by simp_all
  show "\<And>p q. 1 \<le> p \<Longrightarrow> p \<le> top_index st \<Longrightarrow> 1 \<le> q \<Longrightarrow> q \<le> top_index st \<Longrightarrow>
       VERTICES st ! p = VERTICES st ! q \<Longrightarrow> p = q" by (rule st(1) [rule_format])
  show "\<And>p. 1 \<le> p \<Longrightarrow> p \<le> top_index st \<Longrightarrow> 1 \<le> INDEX st ! (VERTICES st ! p)"
    by (rule st(2) [rule_format, THEN conjunct1])
  show "\<And>p. 1 \<le> p \<Longrightarrow> p \<le> top_index st \<Longrightarrow> INDEX st ! (VERTICES st ! p) \<le> p"
    by (rule st(2) [rule_format, THEN conjunct2, THEN conjunct1])
  show "\<And>p. 1 \<le> p \<Longrightarrow> p \<le> top_index st \<Longrightarrow>
       (VERTICES st ! p, VERTICES st ! (INDEX st ! (VERTICES st ! p))) \<in> (edges R)\<^sup>*"
    by (rule st(2) [rule_format, THEN conjunct2, THEN conjunct2])
  show "\<exists>p. 1 \<le> p \<and> p \<le> top_index st \<and> VERTICES st ! p = x"
    if x: "x < length R" "INDEX st ! x \<noteq> 0" "INDEX st ! x \<noteq> length R + 2" for x
    using st(3) [rule_format, OF x(1)] x(2,3) by simp
  show "\<And>x. x < length R \<Longrightarrow> rowset F0 (x * w) w \<subseteq> row w st x"
    "\<And>x. x < length R \<Longrightarrow> row w st x \<subseteq> union_of R w F0 x"
    "\<And>x. x < length R \<Longrightarrow> INDEX st ! x = length R + 2 \<Longrightarrow> row w st x = union_of R w F0 x"
    using ro by simp_all
  show "INDEX st ! z = length R + 2" if x: "x < length R" "INDEX st ! x = length R + 2" "z \<in> set (R ! x)" for x z
    by (rule ro [THEN conjunct2, THEN conjunct2, rule_format, OF x(1,3,2)])
qed

section \<open>Entering a vertex\<close>

lemma stack_not_white:
  assumes "dg_inv R w F0 st" "1 \<le> p" "p \<le> top_index st" "INDEX st ! i = 0"
  shows "VERTICES st ! p \<noteq> i"
  using dg_invD(7) [OF assms(1-3)] assms(4) by auto

lemma stack_room:
  assumes I: "dg_inv R w F0 st" and i: "i < length R" "INDEX st ! i = 0"
  shows "top_index st < length R"
proof -
  note D = dg_invD [OF I]
  have "inj_on ((!) (VERTICES st)) {1..top_index st}" using D(6) by (auto intro!: inj_onI)
  then have c: "card {1..top_index st} = card ((!) (VERTICES st) ` {1..top_index st})"
    by (rule card_image [symmetric])
  have "(!) (VERTICES st) ` {1..top_index st} \<subseteq> {..<length R} - {i}"
  proof (intro image_subsetI)
    fix p assume "p \<in> {1..top_index st}"
    then show "VERTICES st ! p \<in> {..<length R} - {i}"
      using D(5) [of p] stack_not_white [OF I, of p i] i(2) by simp
  qed
  then have "card ((!) (VERTICES st) ` {1..top_index st}) \<le> card ({..<length R} - {i})"
    by (intro card_mono) auto
  with c i(1) show ?thesis by simp
qed

lemma push_vertex_inv:
  assumes I: "dg_inv R w F0 st" and i: "i < length R" "INDEX st ! i = 0"
  defines "st1 \<equiv> push_vertex i st" and "t \<equiv> Suc (top_index st)"
  shows "dg_inv R w F0 st1" "dg_frame R w st st1" "segment R w F0 t i {} st1"
    "top_index st1 = t" "INDEX st1 ! i = t"
proof -
  note D = dg_invD [OF I]
  have room: "t \<le> length R" using stack_room [OF I i] by (simp add: t_def)
  have top: "top_index st1 = t" "F st1 = F st" by (simp_all add: st1_def push_vertex_def t_def Let_def)
  have V: "VERTICES st1 ! p = (if p = t then i else VERTICES st ! p)" for p
    using room D(3) by (simp add: st1_def push_vertex_def t_def Let_def nth_list_update)
  have X: "INDEX st1 ! x = (if x = i then t else INDEX st ! x)" for x
    using i(1) D(2) by (simp add: st1_def push_vertex_def t_def Let_def nth_list_update)
  have ni: "VERTICES st ! p \<noteq> i" if "1 \<le> p" "p \<le> top_index st" for p
    by (rule stack_not_white [OF I that i(2)])
  have pt: "p \<le> top_index st" if "p \<le> t" "p \<noteq> t" for p using that by (simp add: t_def)
  show "top_index st1 = t" "INDEX st1 ! i = t" by (simp_all add: top X)
  have shape: "dg_shape R w st1"
    using D(1-5) room i(1) pt
    by (auto simp: dg_shape_def top V) (auto simp: st1_def push_vertex_def Let_def)
  have stack: "dg_stack R st1"
    unfolding dg_stack_def
  proof (intro conjI allI impI)
    fix p q assume "1 \<le> p" "p \<le> top_index st1" "1 \<le> q" "q \<le> top_index st1"
      "VERTICES st1 ! p = VERTICES st1 ! q"
    then show "p = q"
      using D(6) [of p q] ni [of p] ni [of q] pt [of p] pt [of q] by (auto simp: V top split: if_splits)
  next
    fix p assume p: "1 \<le> p" "p \<le> top_index st1"
    have "1 \<le> INDEX st1 ! (VERTICES st1 ! p) \<and> INDEX st1 ! (VERTICES st1 ! p) \<le> p \<and>
      (VERTICES st1 ! p, VERTICES st1 ! (INDEX st1 ! (VERTICES st1 ! p))) \<in> (edges R)\<^sup>*"
    proof (cases "p = t")
      case True
      then show ?thesis by (simp add: V X t_def)
    next
      case False
      with p have p': "p \<le> top_index st" using pt top by simp
      have "INDEX st ! (VERTICES st ! p) \<noteq> t" using D(8) [OF p(1) p'] p' by (simp add: t_def)
      with False show ?thesis using D(7-9) [OF p(1) p'] ni [OF p(1) p'] by (simp add: V X)
    qed
    then show "1 \<le> INDEX st1 ! (VERTICES st1 ! p)" "INDEX st1 ! (VERTICES st1 ! p) \<le> p"
      "(VERTICES st1 ! p, VERTICES st1 ! (INDEX st1 ! (VERTICES st1 ! p))) \<in> (edges R)\<^sup>*" by blast+
  next
    fix x assume x: "x < length R"
    show "INDEX st1 ! x = 0 \<or> INDEX st1 ! x = length R + 2 \<or>
        (\<exists>p. 1 \<le> p \<and> p \<le> top_index st1 \<and> VERTICES st1 ! p = x)"
    proof (cases "x = i \<or> INDEX st ! x = 0 \<or> INDEX st ! x = length R + 2")
      case True
      then show ?thesis by (auto simp: V X top t_def intro!: exI [of _ t])
    next
      case False
      then obtain p where "1 \<le> p" "p \<le> top_index st" "VERTICES st ! p = x" using D(10) [OF x] by blast
      then show ?thesis by (intro disjI2 exI [of _ p]) (simp add: V top t_def)
    qed
  qed
  have rows: "dg_rows R w F0 st1"
    unfolding dg_rows_def top(2)
  proof (intro conjI allI impI ballI)
    fix x assume x: "x < length R"
    show "rowset F0 (x * w) w \<subseteq> row w st x" "row w st x \<subseteq> union_of R w F0 x" using D(11,12) [OF x] .
    assume "INDEX st1 ! x = length R + 2"
    then have d: "INDEX st ! x = length R + 2" using room by (simp add: X split: if_splits)
    show "row w st x = union_of R w F0 x" by (rule D(13) [OF x d])
    fix z assume "z \<in> set (R ! x)"
    from D(14) [OF x d this] i(2) show "INDEX st1 ! z = length R + 2" by (auto simp: X)
  qed
  show "dg_inv R w F0 st1" using shape stack rows by (simp add: dg_inv_def)
  show "dg_frame R w st st1"
    unfolding dg_frame_def top(2)
    using ni i(2) by (auto simp: top V X t_def)
  show "segment R w F0 t i {} st1"
    using D(11) [OF i(1)] by (auto simp: segment_def good_def top V X t_def)
qed

section \<open>Following an edge\<close>

text \<open>The contribution of old stack entries survives a visit.\<close>

lemma good_frame:
  assumes I: "dg_inv R w F0 st" and fr: "dg_frame R w st st'"
    and h: "1 \<le> h" "h \<le> top_index st" "VERTICES st ! h = i" and p: "h \<le> p" "p \<le> top_index st"
    and g: "good R w F0 h i p zs st" and zs: "\<forall>z \<in> zs. z < length R"
  shows "good R w F0 h i p zs st'"
proof -
  note D = dg_invD [OF I] and Fr = dg_frameD [OF fr]
  have p1: "1 \<le> p" using h p by simp
  have eq: "VERTICES st' ! p = VERTICES st ! p" "INDEX st' ! (VERTICES st ! p) = INDEX st ! (VERTICES st ! p)"
    "INDEX st' ! i = INDEX st ! i" "row w st' i = row w st i"
    using Fr(2,3) [OF p1 p(2)] Fr(3,4) [OF h(1,2)] h(3) by auto
  have z: "INDEX st' ! z \<noteq> 0 \<and> (\<forall>q \<in> {1..<h}. VERTICES st' ! q = z \<longrightarrow> INDEX st ! i \<le> q) \<and>
      (INDEX st' ! z = length R + 2 \<longrightarrow> union_of R w F0 z \<subseteq> row w st i)" if "z \<in> zs" for z
  proof -
    have zl: "z < length R" using zs that by blast
    have gz: "INDEX st ! z \<noteq> 0" "\<forall>q \<in> {1..<h}. VERTICES st ! q = z \<longrightarrow> INDEX st ! i \<le> q"
      "INDEX st ! z = length R + 2 \<longrightarrow> union_of R w F0 z \<subseteq> row w st i"
      using g that by (auto simp: good_def)
    have "INDEX st' ! z \<noteq> 0" using Fr(6) [OF zl] gz(1) by blast
    moreover have "VERTICES st' ! q = VERTICES st ! q" if "q \<in> {1..<h}" for q
      using Fr(2) [of q] that h(2) by simp
    moreover have "INDEX st ! z = length R + 2" if "INDEX st' ! z = length R + 2"
    proof (rule ccontr)
      assume n: "INDEX st ! z \<noteq> length R + 2"
      then obtain q where "1 \<le> q" "q \<le> top_index st" "VERTICES st ! q = z"
        using D(10) [OF zl gz(1)] by blast
      with Fr(3) [of q] have "INDEX st' ! z = INDEX st ! z" by simp
      with n that show False by simp
    qed
    ultimately show ?thesis using gz by auto
  qed
  show ?thesis using g z by (auto simp: good_def eq)
qed

lemma join_row_effect:
  assumes I: "dg_inv R w F0 st" and i: "i < length R" and j: "j < length R"
  shows "top_index (join_row w i j st) = top_index st" "VERTICES (join_row w i j st) = VERTICES st"
    "INDEX (join_row w i j st) ! x = (if x = i then min (INDEX st ! i) (INDEX st ! j) else INDEX st ! x)"
    "row w (join_row w i j st) x = (if x = i then row w st i \<union> row w st j else row w st x)"
    "length (F (join_row w i j st)) = length R * w" "length (INDEX (join_row w i j st)) = Suc (length R)"
  using dg_invD(1,2) [OF I] i rowset_or_row [OF i j dg_invD(1) [OF I]]
  by (auto simp: join_row_def nth_list_update min_def)

lemma join_row_inv:
  assumes I: "dg_inv R w F0 st" and h: "1 \<le> h" "h \<le> top_index st" "VERTICES st ! h = i"
    and j: "(i, j) \<in> edges R" "j < length R" "INDEX st ! j \<noteq> 0"
  shows "dg_inv R w F0 (join_row w i j st)"
proof -
  note D = dg_invD [OF I]
  have i: "i < length R" using D(5) [OF h(1,2)] h(3) by simp
  note J = join_row_effect [OF I i j(2)]
  let ?st = "join_row w i j st" and ?m = "min (INDEX st ! i) (INDEX st ! j)"
  have hi: "INDEX st ! i \<le> h" "1 \<le> INDEX st ! i" "(i, VERTICES st ! (INDEX st ! i)) \<in> (edges R)\<^sup>*"
    using D(7-9) [OF h(1,2)] h(3) by simp_all
  have hn: "h \<le> length R" using h(2) D(4) by simp
  have m: "1 \<le> ?m" "?m \<le> h" "(i, VERTICES st ! ?m) \<in> (edges R)\<^sup>*"
  proof -
    show "1 \<le> ?m" "?m \<le> h" using hi(1,2) j(3) by simp_all
    show "(i, VERTICES st ! ?m) \<in> (edges R)\<^sup>*"
    proof (cases "INDEX st ! i \<le> INDEX st ! j")
      case True
      then show ?thesis using hi(3) by (simp add: min_def)
    next
      case False
      then have "INDEX st ! j \<noteq> length R + 2" using hi(1) hn by simp
      then obtain q where q: "1 \<le> q" "q \<le> top_index st" "VERTICES st ! q = j"
        using D(10) [OF j(2,3)] by blast
      have "(j, VERTICES st ! (INDEX st ! j)) \<in> (edges R)\<^sup>*" using D(9) [OF q(1,2)] q(3) by simp
      then show ?thesis using False j(1) by (simp add: min_def converse_rtrancl_into_rtrancl)
    qed
  qed
  have shape: "dg_shape R w ?st" using D(3-5) by (simp add: dg_shape_def J)
  have stack: "dg_stack R ?st"
    unfolding dg_stack_def J(1,2)
  proof (intro conjI allI impI)
    fix p q assume "1 \<le> p" "p \<le> top_index st" "1 \<le> q" "q \<le> top_index st" "VERTICES st ! p = VERTICES st ! q"
    then show "p = q" by (rule D(6))
  next
    fix p assume p: "1 \<le> p" "p \<le> top_index st"
    have "1 \<le> INDEX ?st ! (VERTICES st ! p) \<and> INDEX ?st ! (VERTICES st ! p) \<le> p \<and>
      (VERTICES st ! p, VERTICES st ! (INDEX ?st ! (VERTICES st ! p))) \<in> (edges R)\<^sup>*"
    proof (cases "VERTICES st ! p = i")
      case True
      then have "p = h" using D(6) [OF p h(1,2)] h(3) by simp
      then show ?thesis using m True by (simp add: J)
    next
      case False
      then show ?thesis using D(7-9) [OF p] by (simp add: J)
    qed
    then show "1 \<le> INDEX ?st ! (VERTICES st ! p)" "INDEX ?st ! (VERTICES st ! p) \<le> p"
      "(VERTICES st ! p, VERTICES st ! (INDEX ?st ! (VERTICES st ! p))) \<in> (edges R)\<^sup>*" by blast+
  next
    fix x assume x: "x < length R"
    show "INDEX ?st ! x = 0 \<or> INDEX ?st ! x = length R + 2 \<or>
        (\<exists>p. 1 \<le> p \<and> p \<le> top_index st \<and> VERTICES st ! p = x)"
      using D(10) [OF x] h by (cases "x = i") (auto simp: J)
  qed
  have ni: "INDEX ?st ! i \<noteq> length R + 2" "INDEX st ! i \<noteq> length R + 2"
    using m(2) hi(1) hn by (auto simp: J)
  have rows: "dg_rows R w F0 ?st"
    unfolding dg_rows_def
  proof (intro conjI allI impI ballI)
    fix x assume x: "x < length R"
    show "rowset F0 (x * w) w \<subseteq> row w ?st x" using D(11) [OF x] by (auto simp: J)
    show "row w ?st x \<subseteq> union_of R w F0 x"
      using D(12) [OF x] D(12) [OF j(2)] union_of_step [of i j R w F0] j(1) by (auto simp: J)
    assume d: "INDEX ?st ! x = length R + 2"
    then have "x \<noteq> i" using ni by blast
    with d have d': "INDEX st ! x = length R + 2" "x \<noteq> i" by (simp_all add: J)
    show "row w ?st x = union_of R w F0 x" using D(13) [OF x d'(1)] d'(2) by (simp add: J)
    fix z assume "z \<in> set (R ! x)"
    from D(14) [OF x d'(1) this] ni(2) show "INDEX ?st ! z = length R + 2" by (auto simp: J)
  qed
  show ?thesis using shape stack rows by (simp add: dg_inv_def)
qed

lemma join_row_frame:
  assumes I: "dg_inv R w F0 st" and h: "h \<le> top_index st" "VERTICES st ! h = i" "h = Suc (top_index st0)"
    and j: "j < length R" "INDEX st ! j \<noteq> 0" and fr: "dg_frame R w st0 st"
    and white: "INDEX st0 ! i = 0"
  shows "dg_frame R w st0 (join_row w i j st)"
proof -
  note D = dg_invD [OF I] and Fr = dg_frameD [OF fr]
  have i: "i < length R" using D(5) [of h] h by simp
  note J = join_row_effect [OF I i j(1)]
  have ni: "VERTICES st0 ! p \<noteq> i" if "1 \<le> p" "p \<le> top_index st0" for p
    using D(6) [of p h] Fr(2) [OF that] that h by auto
  show ?thesis
    unfolding dg_frame_def J(1,2)
  proof (intro conjI allI impI)
    fix p assume p: "1 \<le> p" "p \<le> top_index st0"
    show "VERTICES st ! p = VERTICES st0 ! p" by (rule Fr(2) [OF p])
    show "INDEX (join_row w i j st) ! (VERTICES st0 ! p) = INDEX st0 ! (VERTICES st0 ! p)"
      "row w (join_row w i j st) (VERTICES st0 ! p) = row w st0 (VERTICES st0 ! p)"
      using Fr(3,4) [OF p] ni [OF p] by (simp_all add: J)
  next
    show "top_index st0 \<le> top_index st" by (rule Fr(1))
    fix x assume x: "x < length R"
    show "INDEX (join_row w i j st) ! x = length R + 2" if "INDEX st0 ! x = length R + 2"
      using Fr(5) [OF x that] that white by (auto simp: J)
    show "INDEX st0 ! x = 0" if "INDEX (join_row w i j st) ! x = 0"
      using Fr(6) [OF x] that white j(2) by (auto simp: J split: if_splits)
  qed
qed

text \<open>The contributions to \<open>i\<close> and to \<open>j\<close> both become contributions to \<open>i\<close>.\<close>

lemma join_row_good:
  assumes I: "dg_inv R w F0 st" and h: "1 \<le> h" "h \<le> top_index st" "VERTICES st ! h = i"
    and j: "(i, j) \<in> edges R" "j < length R" "INDEX st ! j \<noteq> 0"
    and p: "h \<le> p" "p \<le> top_index st"
    and g: "good R w F0 h i p zs st \<or> p \<noteq> h \<and> good R w F0 h j p zs st"
  shows "good R w F0 h i p zs (join_row w i j st)"
proof -
  note D = dg_invD [OF I]
  have i: "i < length R" using D(5) [OF h(1,2)] h(3) by simp
  note J = join_row_effect [OF I i j(2)]
  have p1: "1 \<le> p" using h(1) p(1) by simp
  have hi: "INDEX st ! i \<le> h" "1 \<le> INDEX st ! i" using D(7,8) [OF h(1,2)] h(3) by simp_all
  have ni: "INDEX st ! i \<noteq> length R + 2" using hi(1) h(2) D(4) by simp
  have min_ni: "min (INDEX st ! i) (INDEX st ! j) \<noteq> length R + 2" using hi(1) h(2) D(4) by simp
  have Vp: "VERTICES st ! p = i \<longleftrightarrow> p = h" using D(6) [OF p1 p(2) h(1,2)] h(3) by auto
  obtain c where c: "c = i \<or> c = j" "p = h \<longrightarrow> c = i" "good R w F0 h c p zs st" using g by blast
  have ic: "(i, c) \<in> (edges R)\<^sup>*" "row w st c \<subseteq> row w (join_row w i j st) i"
    "INDEX (join_row w i j st) ! i \<le> INDEX st ! c" using c(1) j(1) by (auto simp: J)
  have zs: "INDEX (join_row w i j st) ! z = 0 \<longleftrightarrow> INDEX st ! z = 0"
    "INDEX (join_row w i j st) ! z = length R + 2 \<longleftrightarrow> INDEX st ! z = length R + 2" for z
    using j(3) hi(2) ni min_ni by (auto simp: J min_def)
  have "INDEX (join_row w i j st) ! i \<le> INDEX (join_row w i j st) ! (VERTICES st ! p)"
    using c ic(3) Vp by (auto simp: J good_def)
  then show ?thesis
    using c(3) ic rtrancl_trans [OF ic(1)] unfolding good_def J(2) zs by fastforce
qed

section \<open>Popping a component\<close>

lemma pop_component_effect:
  assumes "length (F st) = n * w" "length (INDEX st) = Suc n" "i < n"
    and "1 \<le> h" "h \<le> top_index st" "VERTICES st ! h = i"
    and "\<forall>p \<in> {h..top_index st}. VERTICES st ! p < n"
    and "\<forall>p \<in> {h<..top_index st}. VERTICES st ! p \<noteq> i"
  shows "\<exists>st'. pop_component w infinity i st = Some st' \<and> top_index st' = h - 1 \<and>
    VERTICES st' = VERTICES st \<and> length (F st') = n * w \<and> length (INDEX st') = Suc n \<and>
    (\<forall>x. INDEX st' ! x = (if x \<in> (!) (VERTICES st) ` {h..top_index st} then infinity else INDEX st ! x)) \<and>
    (\<forall>x. row w st' x = (if x \<in> (!) (VERTICES st) ` {h..top_index st} then row w st i else row w st x))"
  using assms
proof (induction "top_index st" arbitrary: st)
  case 0
  then show ?case by simp
next
  case (Suc t)
  let ?j = "VERTICES st ! Suc t"
  have tp: "top_index st = Suc t" using Suc.hyps(2) by simp
  have j: "?j < n" using Suc.prems(5,7) tp by simp
  show ?case
  proof (cases "h = Suc t")
    case True
    then have "?j = i" using Suc.prems(6) by simp
    with True Suc.prems(2,3) tp Suc.prems(1) show ?thesis
      unfolding pop_component.simps [of w infinity i st] by (auto simp: Let_def nth_list_update)
  next
    case False
    then have h: "h \<le> t" using Suc.prems(5) tp by simp
    have ji: "?j \<noteq> i" using Suc.prems(8) h tp by simp
    define st1 where "st1 = st\<lparr>top_index := t, INDEX := (INDEX st)[?j := infinity],
      F := copy_row w (F st) (i * w) (?j * w)\<rparr>"
    have st1: "top_index st1 = t" "VERTICES st1 = VERTICES st" "length (F st1) = n * w"
      "length (INDEX st1) = Suc n"
      "INDEX st1 ! x = (if x = ?j then infinity else INDEX st ! x)"
      "row w st1 x = (if x = ?j then row w st i else row w st x)" for x
      using Suc.prems(1-3) j rowset_copy_row [OF Suc.prems(3) j Suc.prems(1)]
      by (auto simp: st1_def nth_list_update)
    have pop: "pop_component w infinity i st = pop_component w infinity i st1"
      unfolding pop_component.simps [of w infinity i st] using ji tp by (auto simp: Let_def st1_def)
    have set: "(!) (VERTICES st) ` {h..Suc t} = insert ?j ((!) (VERTICES st) ` {h..t})"
      using h by (simp add: atLeastAtMostSuc_conv)
    have ij: "i \<noteq> ?j" using ji by simp
    have "\<exists>st'. pop_component w infinity i st1 = Some st' \<and> top_index st' = h - 1 \<and>
      VERTICES st' = VERTICES st1 \<and> length (F st') = n * w \<and> length (INDEX st') = Suc n \<and>
      (\<forall>x. INDEX st' ! x = (if x \<in> (!) (VERTICES st1) ` {h..top_index st1} then infinity else INDEX st1 ! x)) \<and>
      (\<forall>x. row w st' x = (if x \<in> (!) (VERTICES st1) ` {h..top_index st1} then row w st1 i else row w st1 x))"
      by (rule Suc.hyps(1)) (use Suc.prems h tp st1 in auto)
    then obtain st' where st': "pop_component w infinity i st1 = Some st'" "top_index st' = h - 1"
      "VERTICES st' = VERTICES st" "length (F st') = n * w" "length (INDEX st') = Suc n"
      "\<And>x. INDEX st' ! x = (if x \<in> (!) (VERTICES st) ` {h..t} then infinity else INDEX st1 ! x)"
      "\<And>x. row w st' x = (if x \<in> (!) (VERTICES st) ` {h..t} then row w st1 i else row w st1 x)"
      unfolding st1(1,2) by blast
    show ?thesis
      unfolding pop tp set by (rule exI [of _ st']) (use st' ij in \<open>auto simp: st1(5,6)\<close>)
  qed
qed

lemma component_closed:
  assumes I: "dg_inv R w F0 st" and S: "segment R w F0 h i (set (R ! i)) st" and low: "INDEX st ! i = h"
    and ok: "relation_ok R w F0"
  defines "N \<equiv> (!) (VERTICES st) ` {h..top_index st}"
  shows "x \<in> N \<Longrightarrow> row w st i = union_of R w F0 x"
    "x \<in> N \<Longrightarrow> z \<in> set (R ! x) \<Longrightarrow> z \<in> N \<or> INDEX st ! z = length R + 2"
proof -
  note D = dg_invD [OF I]
  have h: "1 \<le> h" "h \<le> top_index st" "VERTICES st ! h = i" using S by (simp_all add: segment_def)
  have i: "i < length R" using D(5) [OF h(1,2)] h(3) by simp
  have G: "good R w F0 h i p (set (R ! (VERTICES st ! p))) st" "p \<noteq> h \<Longrightarrow> INDEX st ! (VERTICES st ! p) < p"
    if "h \<le> p" "p \<le> top_index st" for p
    using segment_closed [OF S that] segmentD(5) [OF S that] by simp_all
  have succ: "z \<in> N \<or> INDEX st ! z = length R + 2 \<and> union_of R w F0 z \<subseteq> row w st i"
    if x: "x \<in> N" "z \<in> set (R ! x)" for x z
  proof -
    from x obtain p where p: "h \<le> p" "p \<le> top_index st" "x = VERTICES st ! p" by (auto simp: N_def)
    have z: "z < length R" using x(2) p D(5) [of p] h(1) ok by (auto simp: relation_ok_def)
    have gz: "INDEX st ! z \<noteq> 0" "\<forall>q \<in> {1..<h}. VERTICES st ! q = z \<longrightarrow> h \<le> q"
      "INDEX st ! z = length R + 2 \<longrightarrow> union_of R w F0 z \<subseteq> row w st i"
      using G(1) [OF p(1,2)] x(2) p(3) low by (auto simp: good_def)
    show ?thesis
    proof (cases "INDEX st ! z = length R + 2")
      case False
      then obtain q where q: "1 \<le> q" "q \<le> top_index st" "VERTICES st ! q = z"
        using D(10) [OF z gz(1)] by blast
      with gz(2) have "h \<le> q" by force
      with q show ?thesis by (auto simp: N_def)
    qed (use gz in simp)
  qed
  then show "x \<in> N \<Longrightarrow> z \<in> set (R ! x) \<Longrightarrow> z \<in> N \<or> INDEX st ! z = length R + 2" by blast
  have reach: "y \<in> N \<or> union_of R w F0 y \<subseteq> row w st i" if "(x, y) \<in> (edges R)\<^sup>*" "x \<in> N" for x y
    using that
  proof (induction rule: rtrancl_induct)
    case (step y z)
    then show ?case using succ [of y z] union_of_step [of y z R w F0]
      by (auto simp: edges_def)
  qed simp
  have N0: "rowset F0 (y * w) w \<subseteq> row w st i" if "y \<in> N" for y
  proof -
    from that obtain p where "h \<le> p" "p \<le> top_index st" "y = VERTICES st ! p" by (auto simp: N_def)
    with G(1) [of p] show ?thesis by (simp add: good_def)
  qed
  have up: "union_of R w F0 x \<subseteq> row w st i" if "x \<in> N" for x
    using reach [OF _ that] N0 union_of_self [of F0 _ w R] unfolding union_of_def by blast
  have home: "h \<le> p \<Longrightarrow> p \<le> top_index st \<Longrightarrow> (VERTICES st ! p, i) \<in> (edges R)\<^sup>*" for p
  proof (induction p rule: less_induct)
    case (less p)
    show ?case
    proof (cases "p = h")
      case False
      let ?q = "INDEX st ! (VERTICES st ! p)"
      have q: "?q < p" "h \<le> ?q" "(VERTICES st ! p, VERTICES st ! ?q) \<in> (edges R)\<^sup>*"
        using G [OF less.prems] False D(9) [of p] less.prems h(1) low by (auto simp: good_def)
      have "(VERTICES st ! ?q, i) \<in> (edges R)\<^sup>*" using less.IH [OF q(1,2)] q(1) less.prems by simp
      with q(3) show ?thesis by (rule rtrancl_trans)
    qed (simp add: h)
  qed
  show "row w st i = union_of R w F0 x" if x: "x \<in> N"
  proof
    from x obtain p where p: "h \<le> p" "p \<le> top_index st" "x = VERTICES st ! p" by (auto simp: N_def)
    have "row w st i \<subseteq> union_of R w F0 i" by (rule D(12) [OF i])
    also have "\<dots> \<subseteq> union_of R w F0 x" using union_of_step [OF home [OF p(1,2)]] p(3) by simp
    finally show "row w st i \<subseteq> union_of R w F0 x" .
  qed (rule up [OF x])
qed

lemma pop_component_inv:
  assumes I: "dg_inv R w F0 st" and S: "segment R w F0 h i (set (R ! i)) st" and low: "INDEX st ! i = h"
    and ok: "relation_ok R w F0" and fr: "dg_frame R w st0 st" and h0: "h = Suc (top_index st0)"
    and white: "INDEX st0 ! i = 0"
  shows "\<exists>st'. pop_component w (length R + 2) i st = Some st' \<and> dg_inv R w F0 st' \<and>
    dg_frame R w st0 st' \<and> top_index st' = top_index st0 \<and> INDEX st' ! i = length R + 2"
proof -
  note D = dg_invD [OF I] and Fr = dg_frameD [OF fr] and C = component_closed [OF I S low ok]
  have h: "1 \<le> h" "h \<le> top_index st" "VERTICES st ! h = i" using S by (simp_all add: segment_def)
  have i: "i < length R" using D(5) [OF h(1,2)] h(3) by simp
  let ?N = "(!) (VERTICES st) ` {h..top_index st}"
  have V: "\<forall>p \<in> {h..top_index st}. VERTICES st ! p < length R" using D(5) h(1) by auto
  have Vi: "\<forall>p \<in> {h<..top_index st}. VERTICES st ! p \<noteq> i"
  proof
    fix p assume "p \<in> {h<..top_index st}"
    then show "VERTICES st ! p \<noteq> i" using D(6) [OF h(1,2), of p] h by auto
  qed
  from pop_component_effect [OF D(1,2) i h V Vi, of "length R + 2"]
  obtain st' where st': "pop_component w (length R + 2) i st = Some st'" "top_index st' = top_index st0"
    "VERTICES st' = VERTICES st" "length (F st') = length R * w" "length (INDEX st') = Suc (length R)"
    "\<And>x. INDEX st' ! x = (if x \<in> ?N then length R + 2 else INDEX st ! x)"
    "\<And>x. row w st' x = (if x \<in> ?N then row w st i else row w st x)"
    using h0 by auto
  have le: "p \<le> top_index st" if "p \<le> top_index st0" for p using that Fr(1) by simp
  have nN: "VERTICES st ! p \<notin> ?N" if p: "1 \<le> p" "p \<le> top_index st0" for p
  proof
    assume "VERTICES st ! p \<in> ?N"
    then obtain q where "h \<le> q" "q \<le> top_index st" "VERTICES st ! p = VERTICES st ! q" by auto
    with D(6) [OF p(1) le [OF p(2)], of q] h(1) have "p = q" by simp
    with \<open>h \<le> q\<close> p(2) h0 show False by simp
  qed
  have shape: "dg_shape R w st'" using D(3-5) le st' Fr(1) by (auto simp: dg_shape_def)
  have stack: "dg_stack R st'"
    unfolding dg_stack_def st'(2,3)
  proof (intro conjI allI impI)
    fix p q assume "1 \<le> p" "p \<le> top_index st0" "1 \<le> q" "q \<le> top_index st0" "VERTICES st ! p = VERTICES st ! q"
    then show "p = q" using D(6) [of p q] le by simp
  next
    fix p assume p: "1 \<le> p" "p \<le> top_index st0"
    show "1 \<le> INDEX st' ! (VERTICES st ! p)" "INDEX st' ! (VERTICES st ! p) \<le> p"
      "(VERTICES st ! p, VERTICES st ! (INDEX st' ! (VERTICES st ! p))) \<in> (edges R)\<^sup>*"
      using D(7-9) [OF p(1) le [OF p(2)]] nN [OF p] unfolding st'(6) by simp_all
  next
    fix x assume x: "x < length R"
    show "INDEX st' ! x = 0 \<or> INDEX st' ! x = length R + 2 \<or>
      (\<exists>p. 1 \<le> p \<and> p \<le> top_index st0 \<and> VERTICES st ! p = x)"
    proof (cases "x \<in> ?N \<or> INDEX st ! x = 0 \<or> INDEX st ! x = length R + 2")
      case False
      then obtain p where p: "1 \<le> p" "p \<le> top_index st" "VERTICES st ! p = x" using D(10) [OF x] by blast
      with False h0 have "p \<le> top_index st0" by force
      with p show ?thesis by blast
    qed (auto simp: st'(6))
  qed
  have rows: "dg_rows R w F0 st'"
    unfolding dg_rows_def
  proof (intro conjI allI impI ballI)
    fix x assume x: "x < length R"
    show "rowset F0 (x * w) w \<subseteq> row w st' x" "row w st' x \<subseteq> union_of R w F0 x"
      using D(11,12) [OF x] C(1) [of x] union_of_self [of F0 x w R] unfolding st'(7) by auto
    assume d: "INDEX st' ! x = length R + 2"
    show "row w st' x = union_of R w F0 x"
      using D(13) [OF x] C(1) [of x] d unfolding st'(6,7) by (auto split: if_splits)
    fix z assume z: "z \<in> set (R ! x)"
    show "INDEX st' ! z = length R + 2"
      using D(14) [OF x _ z] C(2) [of x z] z d unfolding st'(6) by (auto split: if_splits)
  qed
  have "dg_frame R w st0 st'"
    unfolding dg_frame_def st'(2,3)
  proof (intro conjI allI impI)
    fix p assume p: "1 \<le> p" "p \<le> top_index st0"
    show "VERTICES st ! p = VERTICES st0 ! p" by (rule Fr(2) [OF p])
    show "INDEX st' ! (VERTICES st0 ! p) = INDEX st0 ! (VERTICES st0 ! p)"
      "row w st' (VERTICES st0 ! p) = row w st0 (VERTICES st0 ! p)"
      using Fr(2-4) [OF p] nN [OF p] unfolding st'(6,7) by simp_all
  next
    fix x assume x: "x < length R"
    show "INDEX st' ! x = length R + 2" if "INDEX st0 ! x = length R + 2"
      using Fr(5) [OF x that] unfolding st'(6) by simp
    show "INDEX st0 ! x = 0" if "INDEX st' ! x = 0"
      using Fr(6) [OF x] that unfolding st'(6) by (simp split: if_splits)
  qed simp
  moreover have "i \<in> ?N" using h by force
  ultimately show ?thesis using st'(1,2,6) shape stack rows by (auto simp: dg_inv_def)
qed

section \<open>The traversal\<close>

definition white :: "nat list list \<Rightarrow> digraph_state \<Rightarrow> nat set" where
  "white R st = {x. x < length R \<and> INDEX st ! x = 0}"

lemma finite_white [simp]: "finite (white R st)"
  by (simp add: white_def)

lemma dg_frame_white: "dg_frame R w st st' \<Longrightarrow> white R st' \<subseteq> white R st"
  using dg_frameD(6) by (auto simp: white_def)

text \<open>What a visit of the white vertex \<open>i\<close> achieves: it is done, or on the stack with a lower mark.\<close>

definition visited :: "nat list list \<Rightarrow> nat \<Rightarrow> u32 list \<Rightarrow> nat \<Rightarrow> digraph_state \<Rightarrow> digraph_state \<Rightarrow> bool" where
  "visited R w F0 i st st' \<longleftrightarrow>
     dg_inv R w F0 st' \<and> dg_frame R w st st' \<and>
     (top_index st' = top_index st \<and> INDEX st' ! i = length R + 2 \<or>
      segment R w F0 (Suc (top_index st)) i (set (R ! i)) st' \<and> INDEX st' ! i \<le> top_index st)"

text \<open>The entries above the old stack, seen from the edge that was followed.\<close>

lemma visited_segment:
  assumes S: "segment R w F0 (Suc t) j (set (R ! j)) st" and low: "INDEX st ! j \<le> t"
    and h: "h \<le> Suc t" and p: "t < p" "p \<le> top_index st"
  shows "good R w F0 h j p (set (R ! (VERTICES st ! p))) st" "INDEX st ! (VERTICES st ! p) < p"
proof -
  have "good R w F0 (Suc t) j p (set (R ! (VERTICES st ! p))) st"
    "p \<noteq> Suc t \<Longrightarrow> INDEX st ! (VERTICES st ! p) < p" "VERTICES st ! Suc t = j"
    using segment_closed [OF S] segmentD(3,5) [OF S] p by simp_all
  then show "good R w F0 h j p (set (R ! (VERTICES st ! p))) st" "INDEX st ! (VERTICES st ! p) < p"
    using h low p(1) by (cases "p = Suc t"; auto simp: good_def)+
qed

lemma edge_step:
  assumes I: "dg_inv R w F0 st" and fr0: "dg_frame R w st0 st" and S: "segment R w F0 h i ps st"
    and h0: "h = Suc (top_index st0)" "INDEX st0 ! i = 0"
    and ok: "relation_ok R w F0" and j: "j \<in> set (R ! i)" and ps: "ps \<subseteq> set (R ! i)"
    and v: "dg_inv R w F0 st1" "dg_frame R w st st1" "INDEX st1 ! j \<noteq> 0"
      "top_index st1 = top_index st \<or>
       segment R w F0 (Suc (top_index st)) j (set (R ! j)) st1 \<and> INDEX st1 ! j \<le> top_index st"
  defines "st2 \<equiv> join_row w i j st1"
  shows "dg_inv R w F0 st2" "dg_frame R w st0 st2" "segment R w F0 h i (insert j ps) st2"
    "white R st2 \<subseteq> white R st1"
proof -
  note D = dg_invD [OF I] and Fr = dg_frameD [OF v(2)] and D1 = dg_invD [OF v(1)]
  have h: "1 \<le> h" "h \<le> top_index st" "VERTICES st ! h = i" using S by (simp_all add: segment_def)
  have i: "i < length R" using D(5) [OF h(1,2)] h(3) by simp
  have ij: "(i, j) \<in> edges R" "j < length R" using i j ok by (auto simp: edges_def relation_ok_def)
  have h1: "h \<le> top_index st1" "VERTICES st1 ! h = i" using Fr(1) Fr(2) [OF h(1,2)] h(2,3) by simp_all
  note J = join_row_effect [OF v(1) i ij(2), folded st2_def]
  show inv2: "dg_inv R w F0 st2"
    unfolding st2_def by (rule join_row_inv [OF v(1) h(1) h1 ij v(3)])
  show "dg_frame R w st0 st2"
    unfolding st2_def
    by (rule join_row_frame [OF v(1) h1 h0(1) ij(2) v(3) dg_frame_trans [OF fr0 v(2)] h0(2)])
  note join = join_row_good [OF v(1) h(1) h1 ij v(3), folded st2_def]
  have hi: "1 \<le> INDEX st1 ! i" using D1(7) [OF h(1) h1(1)] h1(2) by simp
  show "white R st2 \<subseteq> white R st1" using v(3) hi by (auto simp: white_def J split: if_splits)
  have succ: "\<forall>z \<in> set (R ! (VERTICES st ! p)). z < length R" if "1 \<le> p" "p \<le> top_index st" for p
    using D(5) [OF that] ok by (auto simp: relation_ok_def)
  have old: "good R w F0 h i p (if p = h then ps else set (R ! (VERTICES st ! p))) st1 \<and>
      (p \<noteq> h \<longrightarrow> INDEX st1 ! (VERTICES st ! p) < p)" if p: "h \<le> p" "p \<le> top_index st" for p
  proof -
    have p1: "1 \<le> p" using h(1) p(1) by simp
    have g: "good R w F0 h i p (if p = h then ps else set (R ! (VERTICES st ! p))) st"
      "p \<noteq> h \<longrightarrow> INDEX st ! (VERTICES st ! p) < p"
      using S p by (auto simp: segment_def)
    have "\<forall>z \<in> (if p = h then ps else set (R ! (VERTICES st ! p))). z < length R"
      using succ [OF p1 p(2)] succ [OF h(1,2)] h(3) ps by auto
    from good_frame [OF I v(2) h p g(1) this] g(2) Fr(3) [OF p1 p(2)] show ?thesis by simp
  qed
  have pieces: "(good R w F0 h i p (if p = h then ps else set (R ! (VERTICES st1 ! p))) st1 \<or>
        p \<noteq> h \<and> good R w F0 h j p (if p = h then ps else set (R ! (VERTICES st1 ! p))) st1) \<and>
      (p \<noteq> h \<longrightarrow> INDEX st1 ! (VERTICES st1 ! p) < p)" if p: "h \<le> p" "p \<le> top_index st1" for p
  proof (cases "p \<le> top_index st")
    case True
    then show ?thesis using old [OF p(1) True] Fr(2) [of p] h(1) p(1) by auto
  next
    case False
    then have T: "segment R w F0 (Suc (top_index st)) j (set (R ! j)) st1" "INDEX st1 ! j \<le> top_index st"
      using v(4) p(2) by auto
    have "h \<le> Suc (top_index st)" "top_index st < p" "p \<noteq> h" using h(2) False by simp_all
    with visited_segment [OF T this(1,2) p(2)] show ?thesis by simp
  qed
  have last: "good R w F0 h i h (insert j ps) st2"
  proof -
    have g: "good R w F0 h i h ps st2"
      using join [OF order_refl h1(1), of ps] pieces [OF order_refl h1(1)] by simp
    have "INDEX st2 ! j \<noteq> 0" using v(3) hi by (auto simp: J)
    moreover have "INDEX st2 ! i \<le> q" if "q \<in> {1..<h}" "VERTICES st2 ! q = j" for q
      using D1(8) [of q] that h1(1) by (simp add: J)
    moreover have "union_of R w F0 j \<subseteq> row w st2 i" if "INDEX st2 ! j = length R + 2"
    proof -
      have "INDEX st1 ! i \<le> length R" using D1(8) [OF h(1) h1(1)] h1 D1(4) by simp
      then have "j \<noteq> i" "INDEX st1 ! j = length R + 2" using that by (auto simp: J split: if_splits)
      with D1(13) [OF ij(2)] show ?thesis by (auto simp: J)
    qed
    ultimately show ?thesis using g by (auto simp: good_def)
  qed
  have seg: "good R w F0 h i p (if p = h then insert j ps else set (R ! (VERTICES st2 ! p))) st2 \<and>
      (p \<noteq> h \<longrightarrow> INDEX st2 ! (VERTICES st2 ! p) < p)" if p: "h \<le> p" "p \<le> top_index st1" for p
  proof (cases "p = h")
    case False
    have "VERTICES st1 ! p \<noteq> i" using D1(6) [of p h] p h(1) h1 False by auto
    then show ?thesis using join [OF p, of "set (R ! (VERTICES st1 ! p))"] pieces [OF p] False by (simp add: J)
  qed (simp add: last)
  show "segment R w F0 h i (insert j ps) st2"
    using h(1) h1 seg by (auto simp: segment_def J(1,2))
qed

lemma traverse_edges_correct:
  assumes ok: "relation_ok R w F0"
    and visit: "\<And>j st. j < length R \<Longrightarrow> dg_inv R w F0 st \<Longrightarrow> INDEX st ! j = 0 \<Longrightarrow>
      card (white R st) \<le> fuel \<Longrightarrow> \<exists>st'. visit j st = Some st' \<and> visited R w F0 j st st'"
    and h0: "h = Suc (top_index st0)" "INDEX st0 ! i = 0"
    and "dg_inv R w F0 st" "dg_frame R w st0 st" "segment R w F0 h i ps st"
    and "set js \<subseteq> set (R ! i)" "ps \<subseteq> set (R ! i)" "card (white R st) \<le> fuel"
  shows "\<exists>st'. traverse_edges visit w i js st = Some st' \<and> dg_inv R w F0 st' \<and>
    dg_frame R w st0 st' \<and> segment R w F0 h i (ps \<union> set js) st'"
  using assms(5-)
proof (induction js arbitrary: st ps)
  case Nil
  then show ?case by simp
next
  case (Cons j js)
  have jR: "j \<in> set (R ! i)" using Cons.prems(4) by simp
  have i: "i < length R"
    using segmentD(1-3) [OF Cons.prems(3)] dg_invD(5) [OF Cons.prems(1)] by blast
  then have jl: "j < length R" using jR ok by (simp add: relation_ok_def)
  obtain st1 where st1: "(if INDEX st ! j = 0 then visit j st else Some st) = Some st1"
    "dg_inv R w F0 st1" "dg_frame R w st st1" "INDEX st1 ! j \<noteq> 0"
    "top_index st1 = top_index st \<or>
     segment R w F0 (Suc (top_index st)) j (set (R ! j)) st1 \<and> INDEX st1 ! j \<le> top_index st"
  proof (cases "INDEX st ! j = 0")
    case True
    from visit [OF jl Cons.prems(1) True Cons.prems(6)] obtain st1
      where v: "visit j st = Some st1" "visited R w F0 j st st1" by blast
    have "INDEX st1 ! j \<noteq> 0"
    proof (cases "INDEX st1 ! j = length R + 2")
      case False
      then have S: "segment R w F0 (Suc (top_index st)) j (set (R ! j)) st1"
        using v(2) by (auto simp: visited_def)
      have "dg_inv R w F0 st1" using v(2) by (simp add: visited_def)
      from dg_invD(7) [OF this segmentD(1,2) [OF S]] segmentD(3) [OF S] show ?thesis by simp
    qed simp
    with that [of st1] v True show ?thesis unfolding visited_def by auto
  next
    case False
    with that [of st] Cons.prems(1) dg_frame_refl show ?thesis by auto
  qed
  note E = edge_step [OF Cons.prems(1-3) h0 ok jR Cons.prems(5) st1(2-5)]
  have "card (white R (join_row w i j st1)) \<le> card (white R st)"
    using E(4) dg_frame_white [OF st1(3)] by (intro card_mono) auto
  then have "card (white R (join_row w i j st1)) \<le> fuel" using Cons.prems(6) by simp
  moreover have "set js \<subseteq> set (R ! i)" "insert j ps \<subseteq> set (R ! i)" using Cons.prems(4,5) by simp_all
  ultimately obtain st' where "traverse_edges visit w i js (join_row w i j st1) = Some st'"
    "dg_inv R w F0 st'" "dg_frame R w st0 st'" "segment R w F0 h i (insert j ps \<union> set js) st'"
    using Cons.IH [OF E(1-3)] by blast
  then show ?case using st1(1) by simp
qed

lemma traverse_correct:
  assumes ok: "relation_ok R w F0"
    and "i < length R" "dg_inv R w F0 st" "INDEX st ! i = 0" "card (white R st) \<le> fuel"
  shows "\<exists>st'. traverse fuel R w (length R + 2) i st = Some st' \<and> visited R w F0 i st st'"
  using assms(2-)
proof (induction fuel arbitrary: i st)
  case 0
  then have "i \<in> white R st" by (simp add: white_def)
  with 0(4) show ?case by (auto simp: card_eq_0_iff)
next
  case (Suc fuel)
  let ?h = "Suc (top_index st)" and ?st1 = "push_vertex i st"
  note P = push_vertex_inv [OF Suc.prems(2,1,3)]
  have "white R ?st1 \<subset> white R st"
  proof
    show "white R ?st1 \<subseteq> white R st" by (rule dg_frame_white [OF P(2)])
    have "i \<in> white R st" "i \<notin> white R ?st1" using Suc.prems(1,3) P(5) by (simp_all add: white_def)
    then show "white R ?st1 \<noteq> white R st" by blast
  qed
  then have "card (white R ?st1) < card (white R st)" by (intro psubset_card_mono) simp_all
  then have fuel: "card (white R ?st1) \<le> fuel" using Suc.prems(4) by simp
  from traverse_edges_correct [OF ok Suc.IH refl Suc.prems(3) P(1-3) order_refl empty_subsetI fuel]
  obtain st2 where st2: "traverse_edges (traverse fuel R w (length R + 2)) w i (R ! i) ?st1 = Some st2"
    "dg_inv R w F0 st2" "dg_frame R w st st2" "segment R w F0 ?h i (set (R ! i)) st2"
    unfolding Un_empty_left by blast
  show ?case
  proof (cases "INDEX st2 ! i = ?h")
    case True
    from pop_component_inv [OF st2(2,4) True ok st2(3) refl Suc.prems(3)] show ?thesis
      using st2(1) True P(4) by (auto simp: Let_def visited_def)
  next
    case False
    have "INDEX st2 ! i \<le> ?h"
      using dg_invD(8) [OF st2(2) segmentD(1,2) [OF st2(4)]] segmentD(3) [OF st2(4)] by simp
    with False st2 P(4) show ?thesis by (simp add: Let_def visited_def)
  qed
qed

section \<open>The whole search\<close>

text \<open>Between two calls of \<open>traverse\<close> from \<open>digraph\<close> the stack is empty.\<close>

lemma digraph_from_correct:
  assumes ok: "relation_ok R w F0"
    and "\<forall>i \<in> set is. i < length R" "dg_inv R w F0 st" "top_index st = 0"
  shows "\<exists>st'. digraph_from (length R) R w is st = Some st' \<and> dg_inv R w F0 st' \<and>
    top_index st' = 0 \<and> dg_frame R w st st' \<and>
    (\<forall>i \<in> set is. R ! i \<noteq> [] \<longrightarrow> INDEX st' ! i = length R + 2)"
  using assms(2-)
proof (induction "is" arbitrary: st)
  case Nil
  then show ?case using dg_frame_refl by auto
next
  case (Cons i "is")
  have i: "i < length R" using Cons.prems(1) by simp
  obtain st1 where st1: "(if INDEX st ! i = 0 \<and> R ! i \<noteq> []
      then traverse (length R) R w (length R + 2) i st else Some st) = Some st1"
    "dg_inv R w F0 st1" "top_index st1 = 0" "dg_frame R w st st1"
    "R ! i \<noteq> [] \<longrightarrow> INDEX st1 ! i = length R + 2"
  proof (cases "INDEX st ! i = 0 \<and> R ! i \<noteq> []")
    case True
    have "card (white R st) \<le> card {..<length R}" by (intro card_mono) (auto simp: white_def)
    then have "card (white R st) \<le> length R" by simp
    from traverse_correct [OF ok i Cons.prems(2) conjunct1 [OF True] this] obtain st1
      where v: "traverse (length R) R w (length R + 2) i st = Some st1" "visited R w F0 i st st1" by blast
    have "\<not> INDEX st1 ! i \<le> 0" if S: "segment R w F0 (Suc (top_index st)) i (set (R ! i)) st1"
      using dg_invD(7) [of R w F0 st1, OF _ segmentD(1,2) [OF S]] segmentD(3) [OF S] v(2)
      by (simp add: visited_def)
    with v(2) Cons.prems(3) have "dg_inv R w F0 st1" "dg_frame R w st st1" "top_index st1 = 0"
      "INDEX st1 ! i = length R + 2"
      by (auto simp: visited_def)
    with v(1) True that [of st1] show ?thesis by simp
  next
    case False
    have "INDEX st ! i = length R + 2" if "R ! i \<noteq> []"
      using False that dg_invD(10) [OF Cons.prems(2) i] Cons.prems(3) by auto
    with that [of st] False Cons.prems dg_frame_refl show ?thesis by auto
  qed
  have "\<forall>i \<in> set is. i < length R" using Cons.prems(1) by simp
  from Cons.IH [OF this st1(2,3)] obtain st' where
    "digraph_from (length R) R w is st1 = Some st'" "dg_inv R w F0 st'" "top_index st' = 0"
    "dg_frame R w st1 st'" "\<forall>i \<in> set is. R ! i \<noteq> [] \<longrightarrow> INDEX st' ! i = length R + 2"
    by blast
  with st1 dg_frame_trans [OF st1(4)] dg_frameD(5) [of R w st1 st' i] i show ?case by auto
qed

lemma digraph_inv_start:
  assumes "relation_ok R w F0"
  shows "dg_inv R w F0 \<lparr>F = F0, INDEX = replicate (length R + 1) 0,
    VERTICES = replicate (length R + 1) 0, top_index = 0\<rparr>"
  using assms union_of_self [of F0 _ w R]
  by (auto simp: dg_inv_def dg_shape_def dg_stack_def dg_rows_def relation_ok_def simp del: replicate_Suc)

lemma digraph_overflow:
  assumes "MAXSHORT < length R + 2" "i < length R" "R ! i \<noteq> []"
  shows "digraph (length R) w R F0 = Some (Inl OutOfShort)"
  using assms by (auto simp: digraph_def Let_def list_ex_iff)

lemma digraph_correct:
  assumes ok: "relation_ok R w F0" and small: "length R + 2 \<le> MAXSHORT \<or> (\<forall>i < length R. R ! i = [])"
  shows "\<exists>F'. digraph (length R) w R F0 = Some (Inr F') \<and> length F' = length F0 \<and>
    (\<forall>i < length R. rowset F' (i * w) w = union_of R w F0 i)"
proof -
  let ?st = "\<lparr>F = F0, INDEX = replicate (length R + 1) 0,
    VERTICES = replicate (length R + 1) 0, top_index = 0\<rparr>"
  have "\<forall>i \<in> set [0..<length R]. i < length R" by simp
  from digraph_from_correct [OF ok this digraph_inv_start [OF ok]]
  obtain st' where st': "digraph_from (length R) R w [0..<length R] ?st = Some st'"
    "dg_inv R w F0 st'" "\<forall>i \<in> set [0..<length R]. R ! i \<noteq> [] \<longrightarrow> INDEX st' ! i = length R + 2"
    by auto
  have "row w st' i = union_of R w F0 i" if i: "i < length R" for i
  proof (cases "R ! i = []")
    case True
    have "union_of R w F0 i = rowset F0 (i * w) w"
    proof -
      have "j = i" if "(i, j) \<in> (edges R)\<^sup>*" for j
        using that True by (induction rule: converse_rtrancl_induct) (auto simp: edges_def)
      then have "{j. (i, j) \<in> (edges R)\<^sup>*} = {i}" by auto
      then show ?thesis by (simp add: union_of_def)
    qed
    with dg_invD(11,12) [OF st'(2) i] show ?thesis by simp
  next
    case False
    with st'(3) i dg_invD(13) [OF st'(2) i] show ?thesis by simp
  qed
  moreover have "\<not> (MAXSHORT < length R + 2 \<and> list_ex (\<lambda>i. R ! i \<noteq> []) [0..<length R])"
    using small by (auto simp: list_ex_iff)
  ultimately show ?thesis
    using st'(1) dg_invD(1) [OF st'(2)] ok by (simp add: digraph_def relation_ok_def Let_def)
qed

section \<open>Properties\<close>

text \<open>
  C19: \<^verbatim>\<open>digraph\<close> returns, and leaves in the row of every vertex the union of the initial rows of all
  vertices it reaches, cycles included.  The one exception is exact: with an edge, and two more than the
  number of vertices above 32767, the mark \<^verbatim>\<open>infinity\<close> does not fit into a \<^verbatim>\<open>short\<close>.
\<close>

theorem digraph_unions:
  assumes "relation_ok R w F0"
  shows "if MAXSHORT < length R + 2 \<and> edges R \<noteq> {} then digraph (length R) w R F0 = Some (Inl OutOfShort)
    else \<exists>F'. digraph (length R) w R F0 = Some (Inr F') \<and> length F' = length F0 \<and>
      (\<forall>i < length R. rowset F' (i * w) w = (\<Union>j \<in> {j. (i, j) \<in> (edges R)\<^sup>*}. rowset F0 (j * w) w))"
proof (cases "MAXSHORT < length R + 2 \<and> edges R \<noteq> {}")
  case True
  then obtain i where "i < length R" "R ! i \<noteq> []" by (auto simp: edges_def)
  with True digraph_overflow show ?thesis by simp
next
  case False
  then have "length R + 2 \<le> MAXSHORT \<or> (\<forall>i < length R. R ! i = [])"
    by (auto simp: edges_def)
  from digraph_correct [OF assms this] False show ?thesis by (auto simp: union_of_def)
qed

theorem digraph_unions_witness:
  "\<exists>F'. digraph (length [[1], [0::nat]]) 1 [[1], [0]] [1, 2] = Some (Inr F') \<and> length F' = length [1, 2 :: u32] \<and>
    (\<forall>i < length [[1], [0::nat]]. rowset F' (i * 1) 1 =
      (\<Union>j \<in> {j. (i, j) \<in> (edges [[1], [0]])\<^sup>*}. rowset [1, 2] (j * 1) 1))"
proof -
  have "relation_ok [[1], [0]] 1 [1, 2]" by (auto simp: relation_ok_def less_Suc_eq)
  moreover have "\<not> MAXSHORT < length [[1], [0::nat]] + 2" by (simp add: MAXSHORT_def)
  ultimately show ?thesis using digraph_unions [of "[[1], [0]]" 1 "[1, 2]"] by (simp only: simp_thms if_False)
qed

end
