(* ===== verification/Lalr.thy ===== *)
theory Lalr
  imports LR0 Digraph
begin

text \<open>
  \<^verbatim>\<open>jay/lalr.c\<close> around \<open>Digraph\<close>: the tables over states, the numbering of the
  nonterminal transitions (``gotos''), the relations \<^verbatim>\<open>reads\<close>, \<^verbatim>\<open>includes\<close> and
  \<^verbatim>\<open>lookback\<close> of DeRemer and Pennello, and the look-ahead sets.  A global array of the C file is
  a field of \<open>lalr_tables\<close>; \<^verbatim>\<open>goto_map\<close>, a pointer \<^verbatim>\<open>ntokens\<close> entries before its storage, is indexed by
  the symbol less \<^verbatim>\<open>ntokens\<close>.  Lists of shorts that end with \<open>- 1\<close> are lists, the null pointer
  the empty one.
\<close>

record lalr_tables =
  state_table :: "core option list"
  accessing :: "nat list"
  shift_table :: "shifts option list"
  reduction_table :: "reductions option list"
  maxrhs :: nat
  lookaheads :: "nat list"
  LAruleno :: "nat list"
  goto_map :: "nat list"
  from_state :: "nat list"
  to_state :: "nat list"

section \<open>Tables over states\<close>

definition set_state_table :: "nat \<Rightarrow> core list \<Rightarrow> core option list" where
  "set_state_table nstates cs =
     fold (\<lambda>sp t. t[core_number sp := Some sp]) cs (replicate nstates None)"

definition set_accessing_symbol :: "nat \<Rightarrow> core list \<Rightarrow> nat list" where
  "set_accessing_symbol nstates cs =
     fold (\<lambda>sp t. t[core_number sp := accessing_symbol sp]) cs (replicate nstates 0)"

definition set_shift_table :: "nat \<Rightarrow> shifts list \<Rightarrow> shifts option list" where
  "set_shift_table nstates shs =
     fold (\<lambda>sp t. t[shifts_number sp := Some sp]) shs (replicate nstates None)"

definition set_reduction_table :: "nat \<Rightarrow> reductions list \<Rightarrow> reductions option list" where
  "set_reduction_table nstates rds =
     fold (\<lambda>rp t. t[reductions_number rp := Some rp]) rds (replicate nstates None)"

definition set_maxrhs :: "grammar \<Rightarrow> nat" where
  "set_maxrhs g =
     snd (fold (\<lambda>item (len, mx). if 0 \<le> item then (len + 1, mx) else (0, if len > mx then len else mx))
            (ritem g) (0, 0))"

text \<open>
  \<^verbatim>\<open>lookaheads[i]\<close> is where the reductions of state \<open>i\<close> start in \<^verbatim>\<open>LAruleno\<close>.  The running total \<open>k\<close> is
  stored in \<^verbatim>\<open>short\<close>s; the last one stored is the largest.
\<close>

definition initialize_LA :: "nat \<Rightarrow> reductions option list \<Rightarrow> jay_error + nat list \<times> nat list" where
  "initialize_LA nstates rtab =
     (let (la, k) = fold (\<lambda>i (la, k). (la[i := k],
              k + (case rtab ! i of None \<Rightarrow> 0 | Some rp \<Rightarrow> length (reduction_rules rp))))
            [0..<nstates] (replicate (nstates + 1) 0, 0);
          la = la[nstates := k]
      in if MAXSHORT < k then Inl OutOfShort
         else let (ruleno, k) = fold (\<lambda>i st. case rtab ! i of None \<Rightarrow> st
              | Some rp \<Rightarrow> fold (\<lambda>r (ruleno, k). (ruleno[k := r], k + 1)) (reduction_rules rp) st)
            [0..<nstates] (replicate k 0, 0)
         in Inr (la, ruleno))"

section \<open>Gotos\<close>

text \<open>\<^verbatim>\<open>for (i = sp->nshifts - 1; i >= 0; i--)\<close> up to the \<^verbatim>\<open>break\<close> at a token.\<close>

definition var_shifts :: "grammar \<Rightarrow> nat list \<Rightarrow> shifts \<Rightarrow> nat list" where
  "var_shifts g acc sp = takeWhile (\<lambda>s. \<not> ISTOKEN g (int (acc ! s))) (rev (shift_row sp))"

definition count_goto :: "grammar \<Rightarrow> nat list \<Rightarrow> nat \<Rightarrow> nat \<times> nat list \<Rightarrow> jay_error + nat \<times> nat list" where
  "count_goto g acc s = (\<lambda>(ngotos, gmap).
     let symbol = acc ! s in
     if ngotos = MAXSHORT then Inl (Fatal ''too many gotos'')
     else Inr (ngotos + 1, gmap[symbol - ntokens g := gmap ! (symbol - ntokens g) + 1]))"

definition fill_goto :: "grammar \<Rightarrow> nat list \<Rightarrow> nat \<Rightarrow> nat \<Rightarrow>
    nat list \<times> nat list \<times> nat list \<Rightarrow> nat list \<times> nat list \<times> nat list" where
  "fill_goto g acc state1 state2 = (\<lambda>(temp_map, from, to).
     let symbol = acc ! state2; k = temp_map ! (symbol - ntokens g) in
     (temp_map[symbol - ntokens g := k + 1], from[k := state1], to[k := state2]))"

definition set_goto_map :: "grammar \<Rightarrow> nat list \<Rightarrow> shifts list \<Rightarrow>
    jay_error + nat list \<times> nat list \<times> nat list" where
  "set_goto_map g acc shs =
     (case fold_sum (\<lambda>sp. fold_sum (count_goto g acc) (var_shifts g acc sp)) shs
             (0, replicate (nvars g + 1) 0) of
        Inl e \<Rightarrow> Inl e
      | Inr (ngotos, gmap) \<Rightarrow>
          let (temp_map, k) = fold (\<lambda>i (temp_map, k). (temp_map[i - ntokens g := k], k + gmap ! (i - ntokens g)))
                [ntokens g..<nsyms g] (replicate (nvars g + 1) 0, 0);
              gmap = fold (\<lambda>i gmap. gmap[i - ntokens g := temp_map ! (i - ntokens g)]) [ntokens g..<nsyms g] gmap;
              gmap = gmap[nsyms g - ntokens g := ngotos];
              temp_map = temp_map[nsyms g - ntokens g := ngotos];
              (temp_map, from, to) =
                fold (\<lambda>sp. fold (fill_goto g acc (shifts_number sp)) (var_shifts g acc sp)) shs
                  (temp_map, replicate ngotos 0, replicate ngotos 0)
          in Inr (gmap, from, to))"

text \<open>The binary search of \<^verbatim>\<open>map_goto\<close>; \<open>high\<close> can fall below 0, so the bounds are integers.\<close>

function goto_search :: "nat list \<Rightarrow> nat \<Rightarrow> int \<Rightarrow> int \<Rightarrow> jay_error + nat" where
  "goto_search from state low high =
     (if \<not> low \<le> high then Inl AssertFailed
      else
        let middle = (low + high) div 2; s = from ! nat middle in
        if s = state then Inr (nat middle)
        else if s < state then goto_search from state (middle + 1) high
        else goto_search from state low (middle - 1))"
  by pat_completeness auto
termination by (relation "measure (\<lambda>(from, state, low, high). nat (high - low + 1))") auto

declare goto_search.simps [simp del]

definition map_goto :: "grammar \<Rightarrow> lalr_tables \<Rightarrow> nat \<Rightarrow> nat \<Rightarrow> jay_error + nat" where
  "map_goto g t state symbol =
     goto_search (from_state t) state
       (int (goto_map t ! (symbol - ntokens g))) (int (goto_map t ! (symbol + 1 - ntokens g)))"

section \<open>The relation reads\<close>

definition nullable_edge :: "grammar \<Rightarrow> lalr_tables \<Rightarrow> bool list \<Rightarrow> nat \<Rightarrow> nat \<Rightarrow> nat list \<Rightarrow> jay_error + nat list" where
  "nullable_edge g t nullable stateno symbol edge =
     (if nullable ! symbol
      then case map_goto g t stateno symbol of Inl e \<Rightarrow> Inl e | Inr k \<Rightarrow> Inr (edge @ [k])
      else Inr edge)"

definition initialize_F_row :: "grammar \<Rightarrow> lalr_tables \<Rightarrow> bool list \<Rightarrow> nat \<Rightarrow>
    u32 list \<times> nat list list \<Rightarrow> jay_error + u32 list \<times> nat list list" where
  "initialize_F_row g t nullable i = (\<lambda>(fw, reads).
     let stateno = to_state t ! i in
     case shift_table t ! stateno of
       None \<Rightarrow> Inr (fw, reads)
     | Some sp \<Rightarrow>
         let syms = map (\<lambda>s. accessing t ! s) (shift_row sp);
             fw' = fold (\<lambda>symbol fw. SETBIT fw (i * WORDSIZE (ntokens g)) symbol)
                    (takeWhile (\<lambda>s. \<not> ISVAR g (int s)) syms) fw
         in case fold_sum (nullable_edge g t nullable stateno) (dropWhile (\<lambda>s. \<not> ISVAR g (int s)) syms) [] of
              Inl e \<Rightarrow> Inl e
            | Inr edge \<Rightarrow> Inr (fw', reads[i := edge]))"

definition initialize_F :: "grammar \<Rightarrow> lalr_tables \<Rightarrow> bool list \<Rightarrow> jay_error + u32 list \<times> nat list list" where
  "initialize_F g t nullable =
     (let ngotos = length (from_state t) in
      case fold_sum (initialize_F_row g t nullable) [0..<ngotos]
             (replicate (ngotos * WORDSIZE (ntokens g)) 0, replicate ngotos []) of
        Inl e \<Rightarrow> Inl e
      | Inr (fw, reads) \<Rightarrow> Inr (SETBIT fw 0 0, reads))"

section \<open>The relations includes and lookback\<close>

definition add_lookback_edge :: "lalr_tables \<Rightarrow> nat \<Rightarrow> nat \<Rightarrow> nat \<Rightarrow> nat list list \<Rightarrow> jay_error + nat list list" where
  "add_lookback_edge t stateno ruleno gotono lookback =
     (case find (\<lambda>i. LAruleno t ! i = ruleno) [lookaheads t ! stateno..<lookaheads t ! (stateno + 1)] of
        None \<Rightarrow> Inl AssertFailed
      | Some i \<Rightarrow> Inr (lookback[i := gotono # lookback ! i]))"

text \<open>The search for the shift on \<open>symbol\<close>; without one the last state tried is kept.\<close>

fun find_shift :: "nat list \<Rightarrow> nat \<Rightarrow> nat list \<Rightarrow> nat \<Rightarrow> nat" where
  "find_shift acc symbol [] stateno = stateno"
| "find_shift acc symbol (s # ss) stateno =
     (if acc ! s = symbol then s else find_shift acc symbol ss s)"

function walk_rule :: "grammar \<Rightarrow> lalr_tables \<Rightarrow> nat \<Rightarrow> nat list \<Rightarrow> nat \<Rightarrow> jay_error + nat list \<times> nat \<times> nat" where
  "walk_rule g t rp states stateno =
     (if rp < length (ritem g) \<and> 0 \<le> ritem g ! rp
      then case shift_table t ! stateno of
             None \<Rightarrow> Inl BadAccess
           | Some sp \<Rightarrow>
               let stateno = find_shift (accessing t) (nat (ritem g ! rp)) (shift_row sp) stateno
               in walk_rule g t (Suc rp) (states @ [stateno]) stateno
      else Inr (states, stateno, rp))"
  by pat_completeness auto
termination by (relation "measure (\<lambda>(g, t, rp, states, stateno). length (ritem g) - rp)") auto

declare walk_rule.simps [simp del]

text \<open>
  The loop \<^verbatim>\<open>while (!done)\<close> that goes back over nullable nonterminals; \<open>len\<close> is \<^verbatim>\<open>length\<close>.  The buffer
  \<^verbatim>\<open>edge\<close> has room for \<^verbatim>\<open>ngotos + 1\<close> entries, and \<^verbatim>\<open>edge[nedges++]\<close> is not checked: one goto can be
  collected several times for the same left-hand side.
\<close>

definition put_edge :: "lalr_tables \<Rightarrow> nat \<Rightarrow> nat list \<Rightarrow> jay_error + nat list" where
  "put_edge t k edge = (if length edge < length (from_state t) + 1 then Inr (edge @ [k]) else Inl BadAccess)"

primrec includes_back :: "grammar \<Rightarrow> lalr_tables \<Rightarrow> bool list \<Rightarrow> nat list \<Rightarrow> nat \<Rightarrow> nat \<Rightarrow> nat list \<Rightarrow>
    jay_error + nat list" where
  "includes_back g t nullable states rp 0 edge =
     (if ISVAR g (ritem g ! (rp - 1)) then Inl BadAccess else Inr edge)"
| "includes_back g t nullable states rp (Suc len) edge =
     (let symbol = ritem g ! (rp - 1) in
      if ISVAR g symbol
      then case map_goto g t (states ! len) (nat symbol) of
             Inl e \<Rightarrow> Inl e
           | Inr k \<Rightarrow>
               (case put_edge t k edge of
                  Inl e \<Rightarrow> Inl e
                | Inr edge' \<Rightarrow>
                    if nullable ! nat symbol \<and> 0 < len
                    then includes_back g t nullable states (rp - 1) len edge'
                    else Inr edge')
      else Inr edge)"

definition relate_rule :: "grammar \<Rightarrow> lalr_tables \<Rightarrow> bool list \<Rightarrow> nat \<Rightarrow> nat \<Rightarrow> nat \<Rightarrow>
    nat list \<times> nat list list \<Rightarrow> jay_error + nat list \<times> nat list list" where
  "relate_rule g t nullable i state1 rule = (\<lambda>(edge, lookback).
     case walk_rule g t (rrhs g ! rule) [state1] state1 of
       Inl e \<Rightarrow> Inl e
     | Inr (states, stateno, rp) \<Rightarrow>
         (case add_lookback_edge t stateno rule i lookback of
            Inl e \<Rightarrow> Inl e
          | Inr lookback' \<Rightarrow>
              (case includes_back g t nullable states rp (length states - 1) edge of
                 Inl e \<Rightarrow> Inl e
               | Inr edge' \<Rightarrow> Inr (edge', lookback'))))"

definition relate_goto :: "grammar \<Rightarrow> derives_table \<Rightarrow> lalr_tables \<Rightarrow> bool list \<Rightarrow> nat \<Rightarrow>
    nat list list \<times> nat list list \<Rightarrow> jay_error + nat list list \<times> nat list list" where
  "relate_goto g dv t nullable i = (\<lambda>(includes, lookback).
     let state1 = from_state t ! i; symbol1 = accessing t ! (to_state t ! i) in
     case fold_sum (relate_rule g t nullable i state1) (derive_row dv symbol1) ([], lookback) of
       Inl e \<Rightarrow> Inl e
     | Inr (edge, lookback') \<Rightarrow> Inr (includes[i := edge], lookback'))"

text \<open>
  \<^verbatim>\<open>transpose\<close>: the rows are allocated from the counts in \<^verbatim>\<open>nedges\<close> and filled through the
  pointers \<^verbatim>\<open>temp_R\<close>, here positions in the rows.  The counts are \<^verbatim>\<open>short\<close>s.
\<close>

definition transpose_counts :: "nat list list \<Rightarrow> nat \<Rightarrow> nat list" where
  "transpose_counts R n = fold (\<lambda>i. fold (\<lambda>j c. c[j := c ! j + 1]) (R ! i)) [0..<n] (replicate n 0)"

definition transpose_put :: "nat \<Rightarrow> nat \<Rightarrow> nat list list \<times> nat list \<Rightarrow> nat list list \<times> nat list" where
  "transpose_put i j = (\<lambda>(new_R, temp_R).
     (new_R[j := (new_R ! j)[temp_R ! j := i]], temp_R[j := temp_R ! j + 1]))"

definition transpose_rows :: "nat list list \<Rightarrow> nat \<Rightarrow> nat list list" where
  "transpose_rows R n =
     (let new_R = map (\<lambda>k. replicate k 0) (transpose_counts R n)
      in fst (fold (\<lambda>i. fold (transpose_put i) (R ! i)) [0..<n] (new_R, replicate n 0)))"

definition transpose_relation :: "nat list list \<Rightarrow> nat \<Rightarrow> jay_error + nat list list" where
  "transpose_relation R n =
     (if list_ex (\<lambda>nedges. MAXSHORT < nedges) (transpose_counts R n) then Inl OutOfShort
      else Inr (transpose_rows R n))"

definition build_relations :: "grammar \<Rightarrow> derives_table \<Rightarrow> lalr_tables \<Rightarrow> bool list \<Rightarrow>
    jay_error + nat list list \<times> nat list list" where
  "build_relations g dv t nullable =
     (let ngotos = length (from_state t) in
      case fold_sum (relate_goto g dv t nullable) [0..<ngotos]
             (replicate ngotos [], replicate (length (LAruleno t)) []) of
        Inl e \<Rightarrow> Inl e
      | Inr (includes, lookback) \<Rightarrow>
          (case transpose_relation includes ngotos of
             Inl e \<Rightarrow> Inl e
           | Inr new_includes \<Rightarrow> Inr (new_includes, lookback)))"

section \<open>Look-ahead sets\<close>

definition compute_lookaheads :: "grammar \<Rightarrow> nat list list \<Rightarrow> u32 list \<Rightarrow> u32 list" where
  "compute_lookaheads g lookback fw =
     (let w = WORDSIZE (ntokens g) in
      fold (\<lambda>i. fold (\<lambda>v LA. or_from w LA (i * w) fw (w * v)) (lookback ! i))
        [0..<length lookback] (replicate (length lookback * w) 0))"

definition lalr_init :: "grammar \<Rightarrow> lr0_state \<Rightarrow> jay_error + lalr_tables" where
  "lalr_init g st =
     (let nstates = length (cores st);
          acc = set_accessing_symbol nstates (cores st);
          rtab = set_reduction_table nstates (first_reduction st)
      in case initialize_LA nstates rtab of
           Inl e \<Rightarrow> Inl e
         | Inr (la, ruleno) \<Rightarrow>
             (case set_goto_map g acc (first_shift st) of
                Inl e \<Rightarrow> Inl e
              | Inr (gmap, from, to) \<Rightarrow> Inr
                  \<lparr>state_table = set_state_table nstates (cores st), accessing = acc,
                   shift_table = set_shift_table nstates (first_shift st), reduction_table = rtab,
                   maxrhs = set_maxrhs g, lookaheads = la, LAruleno = ruleno,
                   goto_map = gmap, from_state = from, to_state = to\<rparr>))"

text \<open>The result is the tables and \<^verbatim>\<open>LA\<close>; \<open>None\<close> would be a search of \<open>digraph\<close> out of fuel.\<close>

definition lalr :: "grammar \<Rightarrow> derives_table \<Rightarrow> bool list \<Rightarrow> lr0_state \<Rightarrow>
    (jay_error + lalr_tables \<times> u32 list) option" where
  "lalr g dv nullable st =
     (case lalr_init g st of
        Inl e \<Rightarrow> Some (Inl e)
      | Inr t \<Rightarrow>
          let ngotos = length (from_state t); w = WORDSIZE (ntokens g) in
          (case initialize_F g t nullable of
             Inl e \<Rightarrow> Some (Inl e)
           | Inr (fw, reads) \<Rightarrow>
               (case digraph ngotos w reads fw of
                  None \<Rightarrow> None
                | Some (Inl e) \<Rightarrow> Some (Inl e)
                | Some (Inr fw) \<Rightarrow>
                    (case build_relations g dv t nullable of
                       Inl e \<Rightarrow> Some (Inl e)
                     | Inr (includes, lookback) \<Rightarrow>
                         (case digraph ngotos w includes fw of
                            None \<Rightarrow> None
                          | Some (Inl e) \<Rightarrow> Some (Inl e)
                          | Some (Inr fw) \<Rightarrow> Some (Inr (t, compute_lookaheads g lookback fw)))))))"

end
