(* ===== verification/Gotos.thy ===== *)
theory Gotos
  imports Lalr
begin

text \<open>
  Facts on the tables of \<open>Lalr\<close> that number states and gotos.  The automaton that
  \<open>generate_states\<close> leaves is read back as the transition relation \<open>lr_trans\<close>; the tables over
  states hold its entries, the goto numbers are in bijection with its transitions on
  nonterminals, and \<open>map_goto\<close> finds the number of every transition it is asked for.
\<close>

section \<open>The transition relation of the automaton\<close>

definition lr_trans :: "grammar \<Rightarrow> lr0_state \<Rightarrow> nat \<Rightarrow> nat \<Rightarrow> nat \<Rightarrow> bool" where
  "lr_trans g st p X t \<longleftrightarrow>
     p < length (cores st) \<and> X \<in> set (goto_symbols g (core_items (cores st ! p))) \<and>
     target_for g (cores st) (core_items (cores st ! p)) t X"

abbreviation automaton :: "grammar \<Rightarrow> lr0_state \<Rightarrow> bool" where
  "automaton g st \<equiv> expanded g (length (cores st)) st"

lemma transD:
  assumes "lr_trans g st p X t"
  shows "p < length (cores st)" "0 < t" "t < length (cores st)" "0 < X" "X < nsyms g"
    "accessing_symbol (cores st ! t) = X"
    "core_items (cores st ! t) = goto_kernel g (core_items (cores st ! p)) X"
    "X \<in> set (goto_symbols g (core_items (cores st ! p)))"
  using assms by (auto simp: lr_trans_def target_for_def set_goto_symbols)

lemma automaton_distinct:
  assumes "automaton g st" "s < length (cores st)" "t < length (cores st)"
    "core_items (cores st ! s) = core_items (cores st ! t)"
  shows "s = t"
proof -
  have "distinct (map core_items (cores st))" using assms(1) by (simp add: expanded_def pool_def)
  then show ?thesis using assms(2-4) by (auto simp: distinct_conv_nth)
qed

lemma automaton_kernel:
  assumes "automaton g st" "p < length (cores st)"
  shows "kernel_list g (core_items (cores st ! p))"
  using assms by (simp add: expanded_def pool_def)

lemma trans_unique: "automaton g st \<Longrightarrow> lr_trans g st p X s \<Longrightarrow> lr_trans g st p X t \<Longrightarrow> s = t"
  using automaton_distinct by (simp add: lr_trans_def target_for_def)

lemma automaton_numbers:
  assumes "automaton g st"
  shows "map shifts_number (first_shift st) =
      filter (\<lambda>n. goto_symbols g (core_items (cores st ! n)) \<noteq> []) [0..<length (cores st)]"
    "sorted_wrt (<) (map shifts_number (first_shift st))"
proof -
  have "list_all2 (shifts_of g (cores st))
       (filter (\<lambda>n. goto_symbols g (core_items (cores st ! n)) \<noteq> []) [0..<length (cores st)]) (first_shift st)"
    using assms by (simp add: expanded_def)
  then show eq: "map shifts_number (first_shift st) =
      filter (\<lambda>n. goto_symbols g (core_items (cores st ! n)) \<noteq> []) [0..<length (cores st)]"
    by (induction rule: list_all2_induct) (auto simp: shifts_of_def)
  show "sorted_wrt (<) (map shifts_number (first_shift st))"
    unfolding eq by (intro sorted_wrt_filter) simp
qed

text \<open>One shift row: its targets are the transitions of its state, in the order of the symbols.\<close>

lemma automaton_row:
  assumes E: "automaton g st" and sh: "sh \<in> set (first_shift st)"
  shows "shifts_number sh < length (cores st)" "shifts_of g (cores st) (shifts_number sh) sh"
    "map (\<lambda>t. accessing_symbol (cores st ! t)) (shift_row sh) =
       goto_symbols g (core_items (cores st ! shifts_number sh))"
    "\<And>t. t \<in> set (shift_row sh) \<longleftrightarrow> (\<exists>X. lr_trans g st (shifts_number sh) X t)"
proof -
  have L: "list_all2 (shifts_of g (cores st))
       (filter (\<lambda>n. goto_symbols g (core_items (cores st ! n)) \<noteq> []) [0..<length (cores st)]) (first_shift st)"
    using E by (simp add: expanded_def)
  from list_all2_ex_left [OF L sh] obtain n where n: "n < length (cores st)" "shifts_of g (cores st) n sh"
    by auto
  then have num: "shifts_number sh = n" by (simp add: shifts_of_def)
  show lt: "shifts_number sh < length (cores st)" and of: "shifts_of g (cores st) (shifts_number sh) sh"
    using n num by simp_all
  let ?I = "core_items (cores st ! shifts_number sh)"
  have A: "list_all2 (target_for g (cores st) ?I) (shift_row sh) (goto_symbols g ?I)"
    using of by (simp add: shifts_of_def)
  then show "map (\<lambda>t. accessing_symbol (cores st ! t)) (shift_row sh) = goto_symbols g ?I"
    by (induction rule: list_all2_induct) (auto simp: target_for_def)
  show "t \<in> set (shift_row sh) \<longleftrightarrow> (\<exists>X. lr_trans g st (shifts_number sh) X t)" for t
  proof
    assume "t \<in> set (shift_row sh)"
    from list_all2_ex_right [OF A this] show "\<exists>X. lr_trans g st (shifts_number sh) X t"
      using lt by (auto simp: lr_trans_def)
  next
    assume "\<exists>X. lr_trans g st (shifts_number sh) X t"
    then obtain X where X: "lr_trans g st (shifts_number sh) X t" ..
    from list_all2_ex_left [OF A transD(8) [OF X]] obtain s
      where s: "s \<in> set (shift_row sh)" "target_for g (cores st) ?I s X" by blast
    with X lt have "lr_trans g st (shifts_number sh) X s" by (simp add: lr_trans_def)
    from trans_unique [OF E this X] s(1) show "t \<in> set (shift_row sh)" by simp
  qed
qed

lemma trans_exists:
  assumes E: "automaton g st" and "p < length (cores st)" "X \<in> set (goto_symbols g (core_items (cores st ! p)))"
  shows "\<exists>t sh. lr_trans g st p X t \<and> sh \<in> set (first_shift st) \<and> shifts_number sh = p \<and> t \<in> set (shift_row sh)"
proof -
  from expanded_shift_row [OF E assms(2)] assms(3)
  obtain sh where sh: "sh \<in> set (first_shift st)" "shifts_of g (cores st) p sh"
    by (cases "goto_symbols g (core_items (cores st ! p)) = []") auto
  then have num: "shifts_number sh = p" by (simp add: shifts_of_def)
  from automaton_row(3) [OF E sh(1)] assms(3) num obtain t where "t \<in> set (shift_row sh)"
    "accessing_symbol (cores st ! t) = X"
    by (metis (no_types, lifting) image_iff list.set_map)
  with automaton_row(4) [OF E sh(1), of t] num sh(1) show ?thesis using transD(6) by metis
qed

section \<open>Tables over states\<close>

lemma table_fold:
  assumes "\<forall>x \<in> set xs. num x < length t" "distinct (map num xs)"
  shows "length (fold (\<lambda>x t. t[num x := v x]) xs t) = length t \<and>
    (\<forall>x \<in> set xs. fold (\<lambda>x t. t[num x := v x]) xs t ! num x = v x) \<and>
    (\<forall>k. k \<notin> num ` set xs \<longrightarrow> fold (\<lambda>x t. t[num x := v x]) xs t ! k = t ! k)"
  using assms
proof (induction xs arbitrary: t)
  case (Cons x xs)
  from Cons.IH [of "t[num x := v x]"] Cons.prems show ?case by auto
qed simp

lemma set_accessing_symbol_nth:
  assumes E: "automaton g st" and p: "p < length (cores st)"
  shows "set_accessing_symbol (length (cores st)) (cores st) ! p = accessing_symbol (cores st ! p)"
proof -
  have num: "core_number (cores st ! n) = n" if "n < length (cores st)" for n
    using E that by (simp add: expanded_def pool_def)
  then have m: "map core_number (cores st) = [0..<length (cores st)]"
    by (intro nth_equalityI) simp_all
  have "\<forall>x \<in> set (cores st). core_number x < length (replicate (length (cores st)) (0::nat))"
    using num by (auto simp: in_set_conv_nth)
  from table_fold [OF this, of accessing_symbol] m
  have "\<forall>x \<in> set (cores st). set_accessing_symbol (length (cores st)) (cores st) ! core_number x =
      accessing_symbol x"
    by (simp add: set_accessing_symbol_def)
  from bspec [OF this nth_mem [OF p]] num [OF p] show ?thesis by simp
qed

lemma set_shift_table_nth:
  assumes E: "automaton g st" and p: "p < length (cores st)"
  shows "case set_shift_table (length (cores st)) (first_shift st) ! p of
      None \<Rightarrow> goto_symbols g (core_items (cores st ! p)) = []
    | Some sh \<Rightarrow> sh \<in> set (first_shift st) \<and> shifts_number sh = p \<and>
        goto_symbols g (core_items (cores st ! p)) \<noteq> []"
proof -
  let ?n = "length (cores st)"
  have "distinct (map shifts_number (first_shift st))"
    using automaton_numbers(2) [OF E] strict_sorted_iff by blast
  moreover have "\<forall>sh \<in> set (first_shift st). shifts_number sh < length (replicate ?n (None :: shifts option))"
    using automaton_row(1) [OF E] by simp
  ultimately have T:
    "\<forall>sh \<in> set (first_shift st). set_shift_table ?n (first_shift st) ! shifts_number sh = Some sh"
    "\<forall>k. k \<notin> shifts_number ` set (first_shift st) \<longrightarrow>
       set_shift_table ?n (first_shift st) ! k = replicate ?n None ! k"
    using table_fold [of "first_shift st" shifts_number "replicate ?n None" Some]
    by (auto simp: set_shift_table_def)
  have S: "shifts_number ` set (first_shift st) =
      {n. n < ?n \<and> goto_symbols g (core_items (cores st ! n)) \<noteq> []}"
    using arg_cong [OF automaton_numbers(1) [OF E], of set] by auto
  show ?thesis
  proof (cases "goto_symbols g (core_items (cores st ! p)) = []")
    case True
    then have "p \<notin> shifts_number ` set (first_shift st)" using S by blast
    with T(2) p True show ?thesis by simp
  next
    case False
    then have "p \<in> shifts_number ` set (first_shift st)" using S p by blast
    then obtain sh where "sh \<in> set (first_shift st)" "shifts_number sh = p" by auto
    with T(1) False show ?thesis by auto
  qed
qed

section \<open>The goto pairs\<close>

text \<open>The pairs (state, target) that the loops of \<open>set_goto_map\<close> meet, in their order.\<close>

definition goto_pairs :: "grammar \<Rightarrow> nat list \<Rightarrow> shifts list \<Rightarrow> (nat \<times> nat) list" where
  "goto_pairs g acc shs =
     concat (map (\<lambda>sp. map (Pair (shifts_number sp)) (var_shifts g acc sp)) shs)"

definition goto_key :: "grammar \<Rightarrow> nat list \<Rightarrow> nat \<times> nat \<Rightarrow> nat" where
  "goto_key g acc x = acc ! snd x - ntokens g"

lemma takeWhile_sorted_desc:
  fixes xs :: "nat list"
  assumes "sorted_wrt (\<lambda>x y. f x > f y) xs"
  shows "takeWhile (\<lambda>x. (b::nat) \<le> f x) xs = filter (\<lambda>x. b \<le> f x) xs"
  using assms
proof (induction xs)
  case (Cons x xs)
  have "filter (\<lambda>x. b \<le> f x) xs = []" if "\<not> b \<le> f x"
    using that Cons.prems by (auto simp: filter_empty_conv)
  with Cons show ?case by auto
qed simp

lemma var_shifts_set:
  assumes E: "automaton g st" and sh: "sh \<in> set (first_shift st)" and wf: "wf_grammar g"
  defines "acc \<equiv> set_accessing_symbol (length (cores st)) (cores st)"
  shows "t \<in> set (var_shifts g acc sh) \<longleftrightarrow> (\<exists>A. start_symbol g \<le> A \<and> lr_trans g st (shifts_number sh) A t)"
    "distinct (map ((!) acc) (var_shifts g acc sh))"
proof -
  have acc: "acc ! t = accessing_symbol (cores st ! t)" if "t \<in> set (shift_row sh)" for t
  proof -
    have "t < length (cores st)" using automaton_row(4) [OF E sh, of t] that transD(3) by blast
    then show ?thesis unfolding acc_def by (rule set_accessing_symbol_nth [OF E])
  qed
  have m: "map ((!) acc) (shift_row sh) = goto_symbols g (core_items (cores st ! shifts_number sh))"
    using automaton_row(3) [OF E sh] acc by (metis (no_types, lifting) map_eq_conv)
  then have "sorted_wrt (<) (map ((!) acc) (shift_row sh))" by (simp add: goto_symbols_def sorted_wrt_filter)
  then have "sorted_wrt (\<lambda>x y. acc ! x > acc ! y) (rev (shift_row sh))"
    by (simp add: sorted_wrt_map sorted_wrt_rev)
  from takeWhile_sorted_desc [OF this]
  have vs: "var_shifts g acc sh = filter (\<lambda>t. start_symbol g \<le> acc ! t) (rev (shift_row sh))"
    by (simp add: var_shifts_def ISTOKEN_def not_less)
  show "t \<in> set (var_shifts g acc sh) \<longleftrightarrow> (\<exists>A. start_symbol g \<le> A \<and> lr_trans g st (shifts_number sh) A t)"
  proof
    assume t: "t \<in> set (var_shifts g acc sh)"
    then obtain X where "lr_trans g st (shifts_number sh) X t" using automaton_row(4) [OF E sh, of t] by (auto simp: vs)
    with t acc [of t] transD(6) show "\<exists>A. start_symbol g \<le> A \<and> lr_trans g st (shifts_number sh) A t"
      by (auto simp: vs)
  next
    assume "\<exists>A. start_symbol g \<le> A \<and> lr_trans g st (shifts_number sh) A t"
    then obtain A where A: "start_symbol g \<le> A" "lr_trans g st (shifts_number sh) A t" by blast
    then have "t \<in> set (shift_row sh)" using automaton_row(4) [OF E sh, of t] by blast
    with A acc transD(6) [OF A(2)] show "t \<in> set (var_shifts g acc sh)" by (simp add: vs)
  qed
  have "distinct (map ((!) acc) (shift_row sh))"
    using \<open>sorted_wrt (<) (map ((!) acc) (shift_row sh))\<close> strict_sorted_iff by blast
  then have "distinct (map ((!) acc) (rev (shift_row sh)))" by (simp add: rev_map [symmetric])
  then show "distinct (map ((!) acc) (var_shifts g acc sh))"
    unfolding vs by (simp add: distinct_map inj_on_def)
qed

lemma goto_pairs_set:
  assumes E: "automaton g st" and wf: "wf_grammar g"
  defines "acc \<equiv> set_accessing_symbol (length (cores st)) (cores st)"
  shows "(p, t) \<in> set (goto_pairs g acc (first_shift st)) \<longleftrightarrow> (\<exists>A. start_symbol g \<le> A \<and> lr_trans g st p A t)"
proof
  assume "(p, t) \<in> set (goto_pairs g acc (first_shift st))"
  then obtain sh where "sh \<in> set (first_shift st)" "p = shifts_number sh" "t \<in> set (var_shifts g acc sh)"
    by (auto simp: goto_pairs_def)
  with var_shifts_set(1) [OF E this(1) wf, of t] show "\<exists>A. start_symbol g \<le> A \<and> lr_trans g st p A t"
    unfolding acc_def by blast
next
  assume "\<exists>A. start_symbol g \<le> A \<and> lr_trans g st p A t"
  then obtain A where A: "start_symbol g \<le> A" "lr_trans g st p A t" by blast
  from trans_exists [OF E transD(1,8) [OF A(2)]] obtain sh
    where sh: "sh \<in> set (first_shift st)" "shifts_number sh = p" by blast
  with A have "t \<in> set (var_shifts g acc sh)"
    using var_shifts_set(1) [OF E sh(1) wf, of t] unfolding acc_def by blast
  with sh show "(p, t) \<in> set (goto_pairs g acc (first_shift st))" by (auto simp: goto_pairs_def)
qed

lemma sorted_concat_singles:
  assumes "sorted_wrt (<) (map num xs)"
    and "\<And>x. x \<in> set xs \<Longrightarrow> length (f x) \<le> 1 \<and> (\<forall>y \<in> set (f x). fst y = num x)"
  shows "sorted_wrt (<) (map fst (concat (map f xs)) :: nat list)"
  using assms
proof (induction xs)
  case (Cons x xs)
  have IH: "sorted_wrt (<) (map fst (concat (map f xs)))" using Cons by simp
  have gt: "num x < fst y" if "y \<in> set (concat (map f xs))" for y
    using that Cons.prems by fastforce
  show ?case
  proof (cases "f x")
    case (Cons y ys)
    then have "f x = [y]" "fst y = num x" using Cons.prems(2) [of x] by auto
    with IH gt show ?thesis by auto
  qed (use IH in simp)
qed simp

lemma goto_bucket_sorted:
  assumes E: "automaton g st" and wf: "wf_grammar g"
  defines "acc \<equiv> set_accessing_symbol (length (cores st)) (cores st)"
  shows "sorted_wrt (<) (map fst (bucket_of (goto_key g acc) (goto_pairs g acc (first_shift st)) a))"
proof -
  let ?f = "\<lambda>sp. filter (\<lambda>x. goto_key g acc x = a) (map (Pair (shifts_number sp)) (var_shifts g acc sp))"
  have b: "bucket_of (goto_key g acc) (goto_pairs g acc (first_shift st)) a = concat (map ?f (first_shift st))"
    by (simp add: bucket_of_def goto_pairs_def filter_concat comp_def)
  have one: "length (?f sp) \<le> 1" if sp: "sp \<in> set (first_shift st)" for sp
  proof -
    have d: "distinct (map ((!) acc) (var_shifts g acc sp))"
      unfolding acc_def by (rule var_shifts_set(2) [OF E sp wf])
    have ge: "ntokens g \<le> acc ! t" if "t \<in> set (var_shifts g acc sp)" for t
      using that wf_sizesD(5) [OF wf] set_takeWhileD by (fastforce simp: var_shifts_def ISTOKEN_def)
    have "length (filter (\<lambda>t. acc ! t - ntokens g = a) ts) \<le> 1"
      if "distinct (map ((!) acc) ts)" "\<forall>t \<in> set ts. ntokens g \<le> acc ! t" for ts
      using that
    proof (induction ts)
      case (Cons t ts)
      have "filter (\<lambda>t. acc ! t - ntokens g = a) ts = []" if "acc ! t - ntokens g = a"
        unfolding filter_empty_conv
      proof
        fix s assume s: "s \<in> set ts"
        then have "acc ! s \<noteq> acc ! t" using Cons.prems(1) by (auto dest: image_eqI [of _ "(!) acc", OF sym])
        then show "acc ! s - ntokens g \<noteq> a" using Cons.prems(2) s that by auto
      qed
      with Cons show ?case by auto
    qed simp
    from this [OF d] ge show ?thesis by (simp add: filter_map comp_def goto_key_def)
  qed
  show ?thesis unfolding b
    by (rule sorted_concat_singles [OF automaton_numbers(2) [OF E]]) (use one in auto)
qed

section \<open>set\_goto\_map\<close>

lemma count_goto_fold:
  assumes "n \<le> length cnt" "\<forall>x \<in> set xs. goto_key g acc x < n" "ngotos \<le> MAXSHORT"
  shows "fold_sum (\<lambda>(p, s). count_goto g acc s) xs (ngotos, cnt) = Inl (Fatal ''too many gotos'') \<or>
    (\<exists>cnt'. fold_sum (\<lambda>(p, s). count_goto g acc s) xs (ngotos, cnt) = Inr (ngotos + length xs, cnt') \<and>
       length cnt' = length cnt \<and> ngotos + length xs \<le> MAXSHORT \<and>
       (\<forall>a < n. cnt' ! a = cnt ! a + length (bucket_of (goto_key g acc) xs a)))"
  using assms
proof (induction xs arbitrary: ngotos cnt)
  case Nil
  then show ?case by (simp add: bucket_of_def)
next
  case (Cons x xs)
  obtain p s where x: "x = (p, s)" by fastforce
  let ?k = "goto_key g acc x"
  show ?case
  proof (cases "ngotos = MAXSHORT")
    case True
    then show ?thesis by (simp add: x count_goto_def)
  next
    case False
    have step: "(case x of (p, s) \<Rightarrow> count_goto g acc s) (ngotos, cnt) = Inr (Suc ngotos, cnt[?k := Suc (cnt ! ?k)])"
      using False by (simp add: x count_goto_def goto_key_def Let_def)
    have len: "n \<le> length (cnt[?k := Suc (cnt ! ?k)])" "\<forall>x \<in> set xs. goto_key g acc x < n"
      "Suc ngotos \<le> MAXSHORT" using Cons.prems False by simp_all
    have k: "?k < length cnt" using Cons.prems by simp
    from Cons.IH [OF len] k show ?thesis
      by (auto simp: step bucket_of_def nth_list_update)
  qed
qed

lemma prefix_sum_fold:
  assumes "b - nt \<le> length temp" "nt \<le> b"
  shows "\<exists>temp'. fold (\<lambda>i (temp_map, k). (temp_map[i - nt := k], k + c (i - nt))) [nt..<b] (temp, 0) =
      (temp', \<Sum>a<b - nt. c a) \<and> length temp' = length temp \<and>
    (\<forall>a < b - nt. temp' ! a = (\<Sum>a<a. c a)) \<and> (\<forall>a \<ge> b - nt. temp' ! a = temp ! a)"
  using assms(2,1)
proof (induction b rule: dec_induct)
  case (step b)
  then have "b - nt \<le> length temp" by simp
  from step.IH [OF this] obtain temp' where I:
    "fold (\<lambda>i (temp_map, k). (temp_map[i - nt := k], k + c (i - nt))) [nt..<b] (temp, 0) =
      (temp', \<Sum>a<b - nt. c a)" "length temp' = length temp"
    "\<forall>a < b - nt. temp' ! a = (\<Sum>a<a. c a)" "\<forall>a \<ge> b - nt. temp' ! a = temp ! a"
    by blast
  have b: "Suc b - nt = Suc (b - nt)" using step.hyps by simp
  show ?case
    using I step.hyps step.prems by (auto simp: b nth_list_update less_Suc_eq)
qed simp

lemma copy_prefix_fold:
  assumes "b - nt \<le> length gmap" "nt \<le> b"
  shows "length (fold (\<lambda>i gmap. gmap[i - nt := temp ! (i - nt)]) [nt..<b] gmap) = length gmap \<and>
    (\<forall>a < b - nt. fold (\<lambda>i gmap. gmap[i - nt := temp ! (i - nt)]) [nt..<b] gmap ! a = temp ! a) \<and>
    (\<forall>a \<ge> b - nt. fold (\<lambda>i gmap. gmap[i - nt := temp ! (i - nt)]) [nt..<b] gmap ! a = gmap ! a)"
  using assms(2,1)
proof (induction b rule: dec_induct)
  case (step b)
  have b: "Suc b - nt = Suc (b - nt)" using step.hyps by simp
  show ?case using step by (auto simp: b nth_list_update less_Suc_eq)
qed simp

lemma fill_goto_fold:
  assumes "length frm = length to"
  shows "\<exists>temp' frm' to'. fold (\<lambda>(p, t). fill_goto g acc p t) xs (temp, frm, to) = (temp', frm', to') \<and>
    length frm' = length frm \<and> length to' = length to \<and>
    fold (bucket_put (goto_key g acc)) xs (temp, zip frm to) = (temp', zip frm' to')"
  using assms
proof (induction xs arbitrary: temp frm to)
  case (Cons x xs)
  obtain p t where x: "x = (p, t)" by fastforce
  let ?k = "goto_key g acc x"
  let ?temp = "temp[?k := temp ! ?k + 1]" and ?frm = "frm[temp ! ?k := p]" and ?to = "to[temp ! ?k := t]"
  have "fill_goto g acc p t (temp, frm, to) = (?temp, ?frm, ?to)"
    by (simp add: fill_goto_def goto_key_def x Let_def)
  moreover have "bucket_put (goto_key g acc) x (temp, zip frm to) = (?temp, zip ?frm ?to)"
    by (simp add: bucket_put_def x update_zip)
  ultimately show ?case using Cons.IH [of ?frm ?to ?temp] Cons.prems by (simp add: x)
qed simp

text \<open>What the goto tables promise.\<close>

definition gotos_ok :: "grammar \<Rightarrow> lr0_state \<Rightarrow> nat list \<Rightarrow> nat list \<Rightarrow> nat list \<Rightarrow> bool" where
  "gotos_ok g st gmap frm to \<longleftrightarrow>
     length to = length frm \<and> gmap ! 0 = 0 \<and> gmap ! nvars g = length frm \<and>
     (\<forall>a < nvars g. gmap ! a \<le> gmap ! Suc a) \<and>
     (\<forall>a < nvars g. \<forall>k. gmap ! a \<le> k \<longrightarrow> k < gmap ! Suc a \<longrightarrow>
        k < length frm \<and> lr_trans g st (frm ! k) (start_symbol g + a) (to ! k)) \<and>
     (\<forall>a < nvars g. \<forall>k l. gmap ! a \<le> k \<longrightarrow> k < l \<longrightarrow> l < gmap ! Suc a \<longrightarrow> frm ! k < frm ! l) \<and>
     (\<forall>p A t. start_symbol g \<le> A \<longrightarrow> lr_trans g st p A t \<longrightarrow>
        (\<exists>k. gmap ! (A - start_symbol g) \<le> k \<and> k < gmap ! Suc (A - start_symbol g) \<and>
           frm ! k = p \<and> to ! k = t))"

lemma set_goto_map_correct:
  assumes wf: "wf_grammar g" and E: "automaton g st"
  defines "acc \<equiv> set_accessing_symbol (length (cores st)) (cores st)"
  shows "set_goto_map g acc (first_shift st) = Inl (Fatal ''too many gotos'') \<or>
    (\<exists>gmap frm to. set_goto_map g acc (first_shift st) = Inr (gmap, frm, to) \<and>
       gotos_ok g st gmap frm to \<and> length frm \<le> MAXSHORT)"
proof -
  let ?P = "goto_pairs g acc (first_shift st)" and ?key = "goto_key g acc"
  have nt: "ntokens g = start_symbol g" "nsyms g = start_symbol g + nvars g" "nsyms g - ntokens g = nvars g"
    using wf_sizesD [OF wf] by simp_all
  have P: "(p, t) \<in> set ?P \<longleftrightarrow> (\<exists>A. start_symbol g \<le> A \<and> lr_trans g st p A t)" for p t
    unfolding acc_def by (rule goto_pairs_set [OF E wf])
  have acc: "acc ! t = A" if "lr_trans g st p A t" for p A t
    using set_accessing_symbol_nth [OF E transD(3) [OF that]] transD(6) [OF that] by (simp add: acc_def)
  have keyP: "?key (p, t) = A - start_symbol g" if "lr_trans g st p A t" for p A t
    using acc [OF that] nt by (simp add: goto_key_def)
  have keys: "\<forall>x \<in> set ?P. ?key x < nvars g"
  proof
    fix x assume xP: "x \<in> set ?P"
    obtain p t where "x = (p, t)" by fastforce
    with xP P obtain A where x: "x = (p, t)" "start_symbol g \<le> A" "lr_trans g st p A t" by blast
    from keyP [OF x(3)] x(1,2) transD(5) [OF x(3)] nt show "?key x < nvars g" by simp
  qed
  have nested: "fold_sum (\<lambda>sp. fold_sum (count_goto g acc) (var_shifts g acc sp)) (first_shift st) s =
      fold_sum (\<lambda>(p, s). count_goto g acc s) ?P s" for s
    using fold_sum_nested [of "\<lambda>p. count_goto g acc" shifts_number "var_shifts g acc"]
    by (simp add: goto_pairs_def)
  let ?c = "replicate (nvars g + 1) (0::nat)"
  have "nvars g \<le> length ?c" "0 \<le> MAXSHORT" by simp_all
  note C = count_goto_fold [OF this(1) keys this(2)]
  have z: "?c ! a = 0" if "a < nvars g" for a using that by (simp del: replicate_Suc)
  consider "fold_sum (\<lambda>(p, s). count_goto g acc s) ?P (0, replicate (nvars g + 1) 0) = Inl (Fatal ''too many gotos'')"
    | cnt where "fold_sum (\<lambda>(p, s). count_goto g acc s) ?P (0, replicate (nvars g + 1) 0) = Inr (length ?P, cnt)"
      "length cnt = Suc (nvars g)" "length ?P \<le> MAXSHORT"
      "\<forall>a < nvars g. cnt ! a = length (bucket_of ?key ?P a)"
    using C unfolding length_replicate Suc_eq_plus1 [symmetric] by (auto simp: z simp del: replicate_Suc)
  then show ?thesis
  proof cases
    case 1
    then show ?thesis by (simp add: set_goto_map_def nested)
  next
    case 2
    have sum: "(\<Sum>a<m. cnt ! a) = bucket_base ?key ?P m" if "m \<le> nvars g" for m
      unfolding bucket_base_def using 2(4) that by (intro sum.cong) auto
    have total: "bucket_base ?key ?P (nvars g) = length ?P" by (rule bucket_base_total [OF keys])
    from prefix_sum_fold [of "nsyms g" "ntokens g" "replicate (nvars g + 1) 0" "(!) cnt"] nt
    obtain temp where temp: "fold (\<lambda>i (temp_map, k). (temp_map[i - ntokens g := k], k + cnt ! (i - ntokens g)))
          [ntokens g..<nsyms g] (replicate (nvars g + 1) 0, 0) = (temp, \<Sum>a<nvars g. cnt ! a)"
      "length temp = nvars g + 1" "\<forall>a < nvars g. temp ! a = bucket_base ?key ?P a"
      using sum by auto
    define gmap where "gmap = (fold (\<lambda>i gmap. gmap[i - ntokens g := temp ! (i - ntokens g)])
      [ntokens g..<nsyms g] cnt)[nvars g := length ?P]"
    have gmap: "gmap ! a = bucket_base ?key ?P a" if "a \<le> nvars g" for a
      using copy_prefix_fold [of "nsyms g" "ntokens g" cnt temp] that nt temp(3) 2(2) total
      by (cases "a = nvars g") (auto simp: gmap_def)
    let ?temp = "temp[nvars g := length ?P]"
    have tb: "\<forall>a < nvars g. ?temp ! a = bucket_base ?key ?P a" using temp(3) by simp
    have fillP: "fold (\<lambda>sp. fold (fill_goto g acc (shifts_number sp)) (var_shifts g acc sp)) (first_shift st) s =
        fold (\<lambda>(p, t). fill_goto g acc p t) ?P s" for s
      unfolding goto_pairs_def by (rule fold_nested)
    from fill_goto_fold [of "replicate (length ?P) 0" "replicate (length ?P) 0" g acc ?P ?temp]
    obtain temp' frm to where ft:
      "fold (\<lambda>(p, t). fill_goto g acc p t) ?P (?temp, replicate (length ?P) 0, replicate (length ?P) 0) =
         (temp', frm, to)" "length frm = length ?P" "length to = length ?P"
      "fold (bucket_put ?key) ?P (?temp, zip (replicate (length ?P) 0) (replicate (length ?P) 0)) =
         (temp', zip frm to)"
      by auto
    have res: "set_goto_map g acc (first_shift st) = Inr (gmap, frm, to)"
      unfolding set_goto_map_def nested 2(1) using temp(1) ft(1) nt(3)
      by (simp add: fillP gmap_def Let_def)
    have fill: "(frm ! (bucket_base ?key ?P a + m), to ! (bucket_base ?key ?P a + m)) = bucket_of ?key ?P a ! m \<and>
        bucket_base ?key ?P a + m < length ?P"
      if a: "a < nvars g" "m < length (bucket_of ?key ?P a)" for a m
    proof -
      have lt: "bucket_base ?key ?P a + m < length ?P" using bucket_slot_bound [OF a] total by simp
      have len: "nvars g \<le> length ?temp" using temp(2) by simp
      from bucket_fold [OF keys len _ tb, of "zip (replicate (length ?P) 0) (replicate (length ?P) 0)"] a ft(4)
      have "zip frm to ! (bucket_base ?key ?P a + m) = bucket_of ?key ?P a ! m" by simp
      with lt ft(2,3) show ?thesis by simp
    qed
    have inb: "lr_trans g st p (start_symbol g + a) t" if "(p, t) \<in> set (bucket_of ?key ?P a)" for p t a
    proof -
      from that P obtain A where A: "start_symbol g \<le> A" "lr_trans g st p A t" "?key (p, t) = a"
        by (auto simp: bucket_of_def)
      with keyP [OF A(2)] show ?thesis by simp
    qed
    have ok: "gotos_ok g st gmap frm to"
      unfolding gotos_ok_def
    proof (intro conjI allI impI)
      fix a assume a: "a < nvars g"
      then have ga: "gmap ! a = bucket_base ?key ?P a"
        "gmap ! Suc a = bucket_base ?key ?P a + length (bucket_of ?key ?P a)"
        by (simp_all add: gmap bucket_base_Suc)
      then show "gmap ! a \<le> gmap ! Suc a" by simp
      fix k assume k: "gmap ! a \<le> k"
      define m where "m = k - gmap ! a"
      have km: "k = bucket_base ?key ?P a + m" using k ga(1) by (simp add: m_def)
      { assume "k < gmap ! Suc a"
        then have m: "m < length (bucket_of ?key ?P a)" using ga km by simp
        note F = fill [OF a m, folded km]
        then show "k < length frm" using ft(2) by simp
        show "lr_trans g st (frm ! k) (start_symbol g + a) (to ! k)"
          using F nth_mem [OF m] by (intro inb) simp }
      fix l assume l: "k < l" "l < gmap ! Suc a"
      define n where "n = l - gmap ! a"
      have ln: "l = bucket_base ?key ?P a + n" "m < n" "n < length (bucket_of ?key ?P a)"
        using k l ga by (auto simp: n_def m_def)
      have "sorted_wrt (<) (map fst (bucket_of ?key ?P a))"
        unfolding acc_def by (rule goto_bucket_sorted [OF E wf])
      then have "fst (bucket_of ?key ?P a ! m) < fst (bucket_of ?key ?P a ! n)"
        using ln(2,3) by (simp add: sorted_wrt_iff_nth_less)
      moreover have mm: "m < length (bucket_of ?key ?P a)" using ln(2,3) by simp
      have "frm ! k = fst (bucket_of ?key ?P a ! m)"
        using arg_cong [OF conjunct1 [OF fill [OF a mm, folded km]], of fst] by simp
      moreover have "frm ! l = fst (bucket_of ?key ?P a ! n)"
        using arg_cong [OF conjunct1 [OF fill [OF a ln(3), folded ln(1)]], of fst] by simp
      ultimately show "frm ! k < frm ! l" by simp
    next
      fix p A t assume A: "start_symbol g \<le> A" "lr_trans g st p A t"
      let ?a = "A - start_symbol g"
      have a: "?a < nvars g" using A transD(5) [OF A(2)] nt by linarith
      have "(p, t) \<in> set (bucket_of ?key ?P ?a)" using A P keyP by (auto simp: bucket_of_def)
      then obtain m where m: "m < length (bucket_of ?key ?P ?a)" "bucket_of ?key ?P ?a ! m = (p, t)"
        by (auto simp: in_set_conv_nth)
      have "gmap ! ?a = bucket_base ?key ?P ?a"
        "gmap ! Suc ?a = bucket_base ?key ?P ?a + length (bucket_of ?key ?P ?a)"
        using a by (simp_all add: gmap bucket_base_Suc)
      with fill [OF a m(1)] m show "\<exists>k. gmap ! ?a \<le> k \<and> k < gmap ! Suc ?a \<and> frm ! k = p \<and> to ! k = t"
        by (intro exI [of _ "bucket_base ?key ?P ?a + m"]) simp
    qed (use ft(2,3) gmap total in \<open>simp_all add: bucket_base_def\<close>)
    with res 2(3) ft(2) show ?thesis by simp
  qed
qed

section \<open>initialize\_LA\<close>

abbreviation rules_at :: "grammar \<Rightarrow> lr0_state \<Rightarrow> nat \<Rightarrow> nat list" where
  "rules_at g st p \<equiv> complete_rules g (core_items (cores st ! p))"

lemma set_reduction_table_nth:
  assumes E: "automaton g st" and p: "p < length (cores st)"
  shows "set_reduction_table (length (cores st)) (first_reduction st) ! p =
    (if rules_at g st p = [] then None else Some (reductions_of g (cores st) p))"
proof -
  let ?n = "length (cores st)" and ?ps = "filter (\<lambda>n. rules_at g st n \<noteq> []) [0..<length (cores st)]"
  have fr: "first_reduction st = map (reductions_of g (cores st)) ?ps"
    using E by (simp add: expanded_def)
  have nums: "map reductions_number (first_reduction st) = ?ps"
    by (simp add: fr reductions_of_def comp_def)
  have "\<forall>r \<in> set (first_reduction st). reductions_number r < length (replicate ?n (None :: reductions option))"
    by (auto simp: fr reductions_of_def)
  moreover have "distinct (map reductions_number (first_reduction st))" by (simp add: nums)
  ultimately have T:
    "\<forall>r \<in> set (first_reduction st). set_reduction_table ?n (first_reduction st) ! reductions_number r = Some r"
    "\<forall>k. k \<notin> reductions_number ` set (first_reduction st) \<longrightarrow>
       set_reduction_table ?n (first_reduction st) ! k = replicate ?n None ! k"
    using table_fold [of "first_reduction st" reductions_number "replicate ?n None" Some]
    by (simp_all add: set_reduction_table_def)
  show ?thesis
  proof (cases "rules_at g st p = []")
    case True
    then have "p \<notin> reductions_number ` set (first_reduction st)"
      by (auto simp: fr reductions_of_def)
    with T(2) p True show ?thesis by simp
  next
    case False
    then have "reductions_of g (cores st) p \<in> set (first_reduction st)" using p by (auto simp: fr)
    from bspec [OF T(1) this] False show ?thesis by (simp add: reductions_of_def)
  qed
qed

lemma fill_from:
  assumes "k + length ys \<le> length xs"
  shows "fold (\<lambda>r (ruleno, k). (ruleno[k := r], k + 1)) ys (xs, k) =
    (take k xs @ ys @ drop (k + length ys) xs, k + length ys)"
  using assms
proof (induction ys arbitrary: xs k)
  case (Cons y ys)
  have "take (Suc k) (xs[k := y]) = take k xs @ [y]" using Cons.prems
    by (simp add: take_Suc_conv_app_nth)
  then show ?case using Cons.IH [of "Suc k" "xs[k := y]"] Cons.prems by simp
qed simp

lemma initialize_LA_correct:
  assumes E: "automaton g st"
  defines "n \<equiv> length (cores st)"
  shows "if MAXSHORT < length (concat (map (rules_at g st) [0..<n]))
    then initialize_LA n (set_reduction_table n (first_reduction st)) = Inl OutOfShort
    else \<exists>la. initialize_LA n (set_reduction_table n (first_reduction st)) =
        Inr (la, concat (map (rules_at g st) [0..<n])) \<and>
      (\<forall>p \<le> n. la ! p = length (concat (map (rules_at g st) [0..<p])))"
proof -
  let ?rtab = "set_reduction_table n (first_reduction st)"
  let ?c = "\<lambda>i. case ?rtab ! i of None \<Rightarrow> 0 | Some rp \<Rightarrow> length (reduction_rules rp)"
  have c: "?c i = length (rules_at g st i)" if "i < n" for i
    using set_reduction_table_nth [OF E that [unfolded n_def]] by (simp add: n_def reductions_of_def)
  have sum: "(\<Sum>a<p. ?c a) = length (concat (map (rules_at g st) [0..<p]))" if "p \<le> n" for p
    using that
  proof (induction p)
    case (Suc p)
    then show ?case using c [of p] by simp
  qed simp
  from prefix_sum_fold [of n 0 "replicate (n + 1) 0" ?c]
  obtain la where la: "fold (\<lambda>i (la, k). (la[i := k], k + ?c i)) [0..<n] (replicate (n + 1) 0, 0) =
      (la, \<Sum>a<n. ?c a)" "length la = n + 1" "\<forall>a < n. la ! a = (\<Sum>a<a. ?c a)"
    by auto
  have step: "(\<lambda>i s. case ?rtab ! i of None \<Rightarrow> s
        | Some rp \<Rightarrow> fold (\<lambda>r (ruleno, k). (ruleno[k := r], k + 1)) (reduction_rules rp) s) i s =
      fold (\<lambda>r (ruleno, k). (ruleno[k := r], k + 1)) (rules_at g st i) s" if "i < n" for i s
    using set_reduction_table_nth [OF E that [unfolded n_def]] by (auto simp: n_def reductions_of_def)
  have fill: "fold (\<lambda>i s. case ?rtab ! i of None \<Rightarrow> s
        | Some rp \<Rightarrow> fold (\<lambda>r (ruleno, k). (ruleno[k := r], k + 1)) (reduction_rules rp) s) is s =
      fold (\<lambda>r (ruleno, k). (ruleno[k := r], k + 1)) (concat (map (rules_at g st) is)) s"
    if "\<forall>i \<in> set is. i < n" for "is" s
    using that
  proof (induction "is" arbitrary: s)
    case (Cons i "is")
    then show ?case using step [of i s] by simp
  qed simp
  let ?ys = "concat (map (rules_at g st) [0..<n])"
  have "initialize_LA n ?rtab = (if MAXSHORT < length ?ys then Inl OutOfShort else Inr (la[n := length ?ys], ?ys))"
    unfolding initialize_LA_def la(1) Let_def prod.case
    using fill [of "[0..<n]"] fill_from [of 0 ?ys "replicate (length ?ys) 0"] sum [of n]
    by (simp add: case_prod_beta)
  moreover have "la[n := length ?ys] ! p = length (concat (map (rules_at g st) [0..<p]))" if "p \<le> n" for p
    using that la(2,3) sum [of p] by (cases "p = n") (auto simp: nth_list_update)
  ultimately show ?thesis by auto
qed

section \<open>map\_goto\<close>

lemma goto_search_finds:
  assumes "lo \<le> low" "low \<le> int idx" "int idx \<le> high" "idx < hi" "high \<le> int hi" "0 \<le> lo"
    and "\<And>k l. lo \<le> int k \<Longrightarrow> k < l \<Longrightarrow> l < hi \<Longrightarrow> frm ! k < (frm ! l :: nat)"
    and "state = frm ! idx"
  shows "goto_search frm state low high = Inr idx"
  using assms
proof (induction frm state low high rule: goto_search.induct)
  case (1 frm state low high)
  let ?m = "(low + high) div 2"
  have le: "low \<le> high" using "1.prems"(2,3) by simp
  have m: "low \<le> ?m" "?m \<le> high" using le by simp_all
  have m0: "0 \<le> ?m" "?m = int (nat ?m)" using m "1.prems"(1,6) by simp_all
  have mhi: "nat ?m < hi"
  proof (cases "low = high")
    case True
    then have "?m = int idx" using "1.prems"(2,3) by simp
    then show ?thesis using "1.prems"(4) by simp
  next
    case False
    then have "?m < high" using le by simp
    then show ?thesis using "1.prems"(5) m0 by linarith
  qed
  have mlo: "lo \<le> int (nat ?m)" using m m0 "1.prems"(1) by simp
  note mono = "1.prems"(7)
  consider "nat ?m = idx" | "nat ?m < idx" | "idx < nat ?m" by linarith
  then show ?case
  proof cases
    case 1
    then show ?thesis using le "1.prems"(8) by (subst goto_search.simps) (simp add: Let_def)
  next
    case 2
    then have lt: "frm ! nat ?m < state" using mono [OF mlo 2 "1.prems"(4)] "1.prems"(8) by simp
    have "goto_search frm state (?m + 1) high = Inr idx"
      by (rule "1.IH"(1) [OF _ refl refl]; (erule (2) mono)?)
        (use 2 lt le m0 "1.prems"(1-6,8) m in auto)
    then show ?thesis using le lt by (subst goto_search.simps) (simp add: Let_def)
  next
    case 3
    have "lo \<le> int idx" using "1.prems"(1,2) by simp
    then have gt: "state < frm ! nat ?m" using mono [OF _ 3 mhi] "1.prems"(8) by simp
    have "goto_search frm state low (?m - 1) = Inr idx"
      by (rule "1.IH"(2) [OF _ refl refl]; (erule (2) mono)?)
        (use 3 gt le m0 "1.prems"(1-6,8) m in auto)
    then show ?thesis using le gt by (subst goto_search.simps) (simp add: Let_def)
  qed
qed

text \<open>The number \<open>k\<close> of the transition of \<open>p\<close> on the nonterminal \<open>A\<close>.\<close>

definition goto_no :: "grammar \<Rightarrow> lalr_tables \<Rightarrow> nat \<Rightarrow> nat \<Rightarrow> nat \<Rightarrow> bool" where
  "goto_no g t k p A \<longleftrightarrow>
     start_symbol g \<le> A \<and> A < nsyms g \<and> k < length (from_state t) \<and>
     goto_map t ! (A - start_symbol g) \<le> k \<and> k < goto_map t ! Suc (A - start_symbol g) \<and>
     from_state t ! k = p"

lemma map_goto_finds:
  assumes wf: "wf_grammar g" and G: "gotos_ok g st (goto_map t) (from_state t) (to_state t)"
    and A: "start_symbol g \<le> A" "lr_trans g st p A q"
  shows "\<exists>k. map_goto g t p A = Inr k \<and> goto_no g t k p A \<and> to_state t ! k = q"
proof -
  have nt: "ntokens g = start_symbol g" "nsyms g = start_symbol g + nvars g"
    using wf_sizesD [OF wf] by simp_all
  let ?a = "A - start_symbol g" and ?gm = "goto_map t"
  have a: "?a < nvars g" using A transD(5) [OF A(2)] nt by linarith
  from G A obtain k where k: "?gm ! ?a \<le> k" "k < ?gm ! Suc ?a" "from_state t ! k = p" "to_state t ! k = q"
    unfolding gotos_ok_def by blast
  have kl: "k < length (from_state t)" using G a k(1,2) unfolding gotos_ok_def by blast
  have mono: "from_state t ! i < from_state t ! l" if "?gm ! ?a \<le> i" "i < l" "l < ?gm ! Suc ?a" for i l
    using G a that unfolding gotos_ok_def by blast
  have "A + 1 - ntokens g = Suc ?a" "A - ntokens g = ?a" using A(1) nt by simp_all
  then have "map_goto g t p A = Inr k"
    unfolding map_goto_def
    by (simp only:) (rule goto_search_finds [of "int (?gm ! ?a)" _ k _ "?gm ! Suc ?a"]; use k mono in simp)
  with k kl A(1) transD(5) [OF A(2)] show ?thesis by (auto simp: goto_no_def)
qed

section \<open>Properties\<close>

text \<open>The binary search of \<^verbatim>\<open>map_goto\<close> finds a state that is listed in its range of \<^verbatim>\<open>from_state\<close>.\<close>

theorem goto_search_correct:
  assumes "\<forall>i l. lo \<le> i \<longrightarrow> i < l \<longrightarrow> l < hi \<longrightarrow> frm ! i < frm ! l" "lo \<le> k" "k < hi"
  shows "goto_search frm (frm ! k) (int lo) (int hi) = Inr k"
  by (rule goto_search_finds [where lo = "int lo" and hi = hi]) (use assms in auto)

theorem goto_search_correct_witness: "goto_search [2, 5, 7, 9] ([2, 5, 7, 9] ! 2) (int 0) (int 4) = Inr 2"
proof (rule goto_search_correct)
  show "\<forall>i l. 0 \<le> i \<longrightarrow> i < l \<longrightarrow> l < 4 \<longrightarrow> [2, 5, 7, 9::nat] ! i < [2, 5, 7, 9] ! l"
    by (auto simp: less_Suc_eq numeral_eq_Suc)
qed simp_all

end
