(* ===== verification/Lookahead.thy ===== *)
theory Lookahead
  imports Gotos
begin

text \<open>
  Correctness of the look-ahead computation of \<open>Lalr\<close>.  The relations \<open>reads_rel\<close>,
  \<open>includes_rel\<close> and \<open>lookback_rel\<close> are those of DeRemer and Pennello, stated on the transition
  relation of the automaton; the arrays of goto numbers represent them, no assertion of the C code
  fails, and row by row \<^verbatim>\<open>LA\<close> is the set that the relations define (\<open>LALR_set\<close>).
\<close>

section \<open>transpose\<close>

definition rel_pairs :: "nat list list \<Rightarrow> nat \<Rightarrow> (nat \<times> nat) list" where
  "rel_pairs R n = concat (map (\<lambda>i. map (Pair i) (R ! i)) [0..<n])"

lemma transpose_count:
  assumes "\<forall>x \<in> set xs. snd x < length c"
  shows "length (fold (\<lambda>(i, j) c. c[j := c ! j + 1]) xs c) = length c \<and>
    (\<forall>j < length c. fold (\<lambda>(i, j) c. c[j := c ! j + 1]) xs c ! j = c ! j + length (bucket_of snd xs j))"
  using assms
proof (induction xs arbitrary: c)
  case (Cons x xs)
  obtain i j where x: "x = (i, j)" by fastforce
  from Cons.IH [of "c[j := c ! j + 1]"] Cons.prems show ?case
    by (auto simp: x bucket_of_def nth_list_update)
qed (simp add: bucket_of_def)

lemma transpose_fill:
  assumes "ys @ zs = xs" "\<forall>x \<in> set xs. snd x < n"
  shows "\<exists>new temp. fold (\<lambda>(i, j). transpose_put i j) ys
      (map (\<lambda>j. replicate (length (bucket_of snd xs j)) 0) [0..<n], replicate n 0) = (new, temp) \<and>
    length new = n \<and> length temp = n \<and>
    (\<forall>j < n. temp ! j = length (bucket_of snd ys j)) \<and>
    (\<forall>j < n. new ! j = map fst (bucket_of snd ys j) @ replicate (length (bucket_of snd zs j)) 0)"
  using assms(1)
proof (induction ys arbitrary: zs rule: rev_induct)
  case Nil
  then show ?case by (simp add: bucket_of_def)
next
  case (snoc y ys)
  obtain i j where y: "y = (i, j)" by fastforce
  have "ys @ y # zs = xs" using snoc.prems by simp
  from snoc.IH [OF this] obtain new temp where I:
    "fold (\<lambda>(i, j). transpose_put i j) ys
      (map (\<lambda>j. replicate (length (bucket_of snd xs j)) 0) [0..<n], replicate n 0) = (new, temp)"
    "length new = n" "length temp = n"
    "\<forall>j < n. temp ! j = length (bucket_of snd ys j)"
    "\<forall>j < n. new ! j = map fst (bucket_of snd ys j) @ replicate (length (bucket_of snd (y # zs) j)) 0"
    by blast
  have j: "j < n" using assms(2) snoc.prems y by auto
  have b: "bucket_of snd ((i, j) # zs) k = (if k = j then (i, j) # bucket_of snd zs k else bucket_of snd zs k)"
    "bucket_of snd (ys @ [(i, j)]) k = bucket_of snd ys k @ (if k = j then [(i, j)] else [])" for k
    by (auto simp: bucket_of_def)
  have "(new ! j)[temp ! j := i] = map fst (bucket_of snd (ys @ [(i, j)]) j) @ replicate (length (bucket_of snd zs j)) 0"
    using I(4,5) j by (simp add: b list_update_append y)
  with I j show ?case
    by (auto simp: y transpose_put_def b nth_list_update)
qed

lemma transpose_rows_correct:
  assumes R: "length R = n" "\<forall>i < n. \<forall>j \<in> set (R ! i). j < n"
  shows "length (transpose_rows R n) = n"
    "j < n \<Longrightarrow> set (transpose_rows R n ! j) = {i. i < n \<and> j \<in> set (R ! i)}"
proof -
  let ?P = "rel_pairs R n"
  have P: "set ?P = {(i, j). i < n \<and> j \<in> set (R ! i)}" by (auto simp: rel_pairs_def)
  then have lt: "\<forall>x \<in> set ?P. snd x < n" using R(2) by auto
  have "fold (\<lambda>i. fold (\<lambda>j c. c[j := c ! j + 1]) (R ! i)) [0..<n] (replicate n (0::nat)) =
      fold (\<lambda>(i, j) c. c[j := c ! j + 1]) ?P (replicate n 0)"
    using fold_nested [of "\<lambda>i j c. c[j := c ! j + (1::nat)]" id "\<lambda>i. R ! i" "[0..<n]" "replicate n 0"]
    by (simp add: rel_pairs_def)
  moreover have "fold (\<lambda>(i, j) c. c[j := c ! j + 1]) ?P (replicate n 0) = map (\<lambda>j. length (bucket_of snd ?P j)) [0..<n]"
    using transpose_count [of ?P "replicate n 0"] lt by (intro nth_equalityI) auto
  moreover have "fold (\<lambda>i. fold (transpose_put i) (R ! i)) [0..<n] s = fold (\<lambda>(i, j). transpose_put i j) ?P s" for s
    using fold_nested [of transpose_put id] by (simp add: rel_pairs_def)
  ultimately have T: "transpose_rows R n = fst (fold (\<lambda>(i, j). transpose_put i j) ?P
      (map (\<lambda>j. replicate (length (bucket_of snd ?P j)) 0) [0..<n], replicate n 0))"
    unfolding transpose_rows_def transpose_counts_def Let_def by (simp only: map_map comp_def)
  from transpose_fill [of ?P "[]", OF _ lt] obtain new temp where N:
    "fold (\<lambda>(i, j). transpose_put i j) ?P
      (map (\<lambda>j. replicate (length (bucket_of snd ?P j)) 0) [0..<n], replicate n 0) = (new, temp)"
    "length new = n" "\<forall>j < n. new ! j = map fst (bucket_of snd ?P j)"
    by (auto simp: bucket_of_def)
  show "length (transpose_rows R n) = n" using T N by simp
  show "set (transpose_rows R n ! j) = {i. i < n \<and> j \<in> set (R ! i)}" if "j < n"
  proof -
    have "set (map fst (bucket_of snd ?P j)) = {i. i < n \<and> j \<in> set (R ! i)}"
      by (auto simp: bucket_of_def P image_iff)
    with T N that show ?thesis by simp
  qed
qed

lemma transpose_relation_cases:
  assumes R: "length R = n" "\<forall>i < n. \<forall>j \<in> set (R ! i). j < n"
  shows "transpose_relation R n = Inr (transpose_rows R n) \<or>
    transpose_relation R n = Inl OutOfShort \<and> MAXSHORT < (\<Sum>i<n. length (R ! i))"
proof (cases "list_ex (\<lambda>c. MAXSHORT < c) (transpose_counts R n)")
  case True
  then obtain c where c: "c \<in> set (transpose_counts R n)" "MAXSHORT < c" by (auto simp: list_ex_iff)
  let ?P = "rel_pairs R n"
  have lt: "\<forall>x \<in> set ?P. snd x < length (replicate n (0::nat))" using R(2) by (auto simp: rel_pairs_def)
  have "transpose_counts R n = fold (\<lambda>(i, j) c. c[j := c ! j + 1]) ?P (replicate n 0)"
    unfolding transpose_counts_def
    using fold_nested [of "\<lambda>i j c. c[j := c ! j + (1::nat)]" id "\<lambda>i. R ! i" "[0..<n]" "replicate n 0"]
    by (simp add: rel_pairs_def)
  with c(1) transpose_count [OF lt] obtain j where "c = length (bucket_of snd ?P j)"
    by (auto simp: in_set_conv_nth)
  then have "c \<le> length ?P" by (simp add: bucket_of_def)
  also have "length ?P = (\<Sum>i<n. length (R ! i))"
    by (simp add: rel_pairs_def length_concat comp_def interv_sum_list_conv_sum_set_nat lessThan_atLeast0)
  finally show ?thesis using c(2) True by (simp add: transpose_relation_def)
qed (simp add: transpose_relation_def)

section \<open>The numbered gotos\<close>

definition tables_ok :: "grammar \<Rightarrow> lr0_state \<Rightarrow> lalr_tables \<Rightarrow> bool" where
  "tables_ok g st t \<longleftrightarrow>
     state_table t = set_state_table (length (cores st)) (cores st) \<and>
     accessing t = set_accessing_symbol (length (cores st)) (cores st) \<and>
     shift_table t = set_shift_table (length (cores st)) (first_shift st) \<and>
     reduction_table t = set_reduction_table (length (cores st)) (first_reduction st) \<and>
     LAruleno t = concat (map (rules_at g st) [0..<length (cores st)]) \<and>
     (\<forall>p \<le> length (cores st). lookaheads t ! p = length (concat (map (rules_at g st) [0..<p]))) \<and>
     gotos_ok g st (goto_map t) (from_state t) (to_state t)"

lemma lalr_init_correct:
  assumes wf: "wf_grammar g" and E: "automaton g st"
  shows "lalr_init g st = Inl (Fatal ''too many gotos'') \<or>
    lalr_init g st = Inl OutOfShort \<and> MAXSHORT < length (concat (map (rules_at g st) [0..<length (cores st)])) \<or>
    (\<exists>t. lalr_init g st = Inr t \<and> tables_ok g st t)"
proof (cases "MAXSHORT < length (concat (map (rules_at g st) [0..<length (cores st)]))")
  case True
  with initialize_LA_correct [OF E] show ?thesis by (simp add: lalr_init_def Let_def)
next
  case False
  with initialize_LA_correct [OF E] obtain la where
    "initialize_LA (length (cores st)) (set_reduction_table (length (cores st)) (first_reduction st)) =
      Inr (la, concat (map (rules_at g st) [0..<length (cores st)]))"
    "\<forall>p \<le> length (cores st). la ! p = length (concat (map (rules_at g st) [0..<p]))"
    by auto
  with set_goto_map_correct [OF wf E] show ?thesis
    by (auto simp: lalr_init_def tables_ok_def Let_def)
qed

text \<open>The transition a goto number stands for.\<close>

definition node :: "lalr_tables \<Rightarrow> nat \<Rightarrow> nat \<times> nat" where
  "node t k = (from_state t ! k, accessing t ! (to_state t ! k))"

definition is_goto :: "grammar \<Rightarrow> lr0_state \<Rightarrow> nat \<times> nat \<Rightarrow> bool" where
  "is_goto g st x \<longleftrightarrow> start_symbol g \<le> snd x \<and> (\<exists>q. lr_trans g st (fst x) (snd x) q)"

lemma accessing_trans:
  assumes "automaton g st" "tables_ok g st t" "lr_trans g st p X q"
  shows "accessing t ! q = X"
  using assms set_accessing_symbol_nth [OF assms(1) transD(3) [OF assms(3)]] transD(6) [OF assms(3)]
  by (simp add: tables_ok_def)

lemma monotone_bracket:
  assumes "\<forall>a < n. (gm :: nat list) ! a \<le> gm ! Suc a" "gm ! 0 \<le> k" "k < gm ! n"
  shows "\<exists>a < n. gm ! a \<le> k \<and> k < gm ! Suc a"
  using assms
proof (induction n)
  case (Suc n)
  then show ?case by (cases "k < gm ! n") (auto simp: less_Suc_eq not_less)
qed simp

lemma node_range:
  assumes E: "automaton g st" and T: "tables_ok g st t" and k: "k < length (from_state t)"
  shows "\<exists>a < nvars g. goto_map t ! a \<le> k \<and> k < goto_map t ! Suc a \<and> snd (node t k) = start_symbol g + a \<and>
    lr_trans g st (from_state t ! k) (start_symbol g + a) (to_state t ! k)"
proof -
  have G: "gotos_ok g st (goto_map t) (from_state t) (to_state t)" using T by (simp add: tables_ok_def)
  then have "\<forall>a < nvars g. goto_map t ! a \<le> goto_map t ! Suc a" "goto_map t ! 0 \<le> k" "k < goto_map t ! nvars g"
    using k by (simp_all add: gotos_ok_def)
  from monotone_bracket [OF this] obtain a where a: "a < nvars g" "goto_map t ! a \<le> k" "k < goto_map t ! Suc a"
    by blast
  with G have "lr_trans g st (from_state t ! k) (start_symbol g + a) (to_state t ! k)"
    unfolding gotos_ok_def by blast
  with a accessing_trans [OF E T this] show ?thesis by (auto simp: node_def)
qed

lemma node_trans:
  assumes "automaton g st" "tables_ok g st t" "k < length (from_state t)"
  shows "lr_trans g st (fst (node t k)) (snd (node t k)) (to_state t ! k)" "is_goto g st (node t k)"
  using node_range [OF assms] by (auto simp: node_def is_goto_def)

lemma node_inj:
  assumes E: "automaton g st" and T: "tables_ok g st t"
    and k: "k < length (from_state t)" and l: "l < length (from_state t)" and eq: "node t k = node t l"
  shows "k = l"
proof -
  have G: "gotos_ok g st (goto_map t) (from_state t) (to_state t)" using T by (simp add: tables_ok_def)
  from node_range [OF E T k] obtain a where a: "a < nvars g" "goto_map t ! a \<le> k" "k < goto_map t ! Suc a"
    "snd (node t k) = start_symbol g + a" by blast
  from node_range [OF E T l] obtain b where b: "goto_map t ! b \<le> l" "l < goto_map t ! Suc b"
    "snd (node t l) = start_symbol g + b" by blast
  have ab: "a = b" using a(4) b(3) eq by simp
  have mono: "from_state t ! i < from_state t ! j" if "goto_map t ! a \<le> i" "i < j" "j < goto_map t ! Suc a" for i j
    using G a(1) that unfolding gotos_ok_def by blast
  have "from_state t ! k = from_state t ! l" using eq by (simp add: node_def)
  then show ?thesis using mono [of k l] mono [of l k] a b ab by (metis less_irrefl nat_neq_iff)
qed

lemma map_goto_node:
  assumes wf: "wf_grammar g" and E: "automaton g st" and T: "tables_ok g st t"
    and A: "start_symbol g \<le> A" "lr_trans g st p A q"
  shows "\<exists>k < length (from_state t). map_goto g t p A = Inr k \<and> node t k = (p, A)"
proof -
  have "gotos_ok g st (goto_map t) (from_state t) (to_state t)" using T by (simp add: tables_ok_def)
  from map_goto_finds [OF wf this A] obtain k where "map_goto g t p A = Inr k" "goto_no g t k p A" "to_state t ! k = q"
    by blast
  with accessing_trans [OF E T A(2)] show ?thesis by (auto simp: goto_no_def node_def)
qed

lemma is_goto_node:
  assumes wf: "wf_grammar g" and E: "automaton g st" and T: "tables_ok g st t" and x: "is_goto g st x"
  shows "\<exists>k < length (from_state t). node t k = x"
  using x map_goto_node [OF wf E T] by (cases x) (fastforce simp: is_goto_def)

text \<open>The gotos of the automaton, as many as there are numbers.\<close>

definition gotos :: "grammar \<Rightarrow> lr0_state \<Rightarrow> (nat \<times> nat) set" where
  "gotos g st = {x. is_goto g st x}"

lemma gotos_bij:
  assumes wf: "wf_grammar g" and E: "automaton g st" and T: "tables_ok g st t"
  shows "bij_betw (node t) {..<length (from_state t)} (gotos g st)"
proof (rule bij_betwI')
  show "node t k = node t l \<longleftrightarrow> k = l" if "k \<in> {..<length (from_state t)}" "l \<in> {..<length (from_state t)}" for k l
    using node_inj [OF E T, of k l] that by auto
  show "node t k \<in> gotos g st" if "k \<in> {..<length (from_state t)}" for k
    using node_trans(2) [OF E T] that by (simp add: gotos_def)
  show "\<exists>k \<in> {..<length (from_state t)}. x = node t k" if "x \<in> gotos g st" for x
    using is_goto_node [OF wf E T, of x] that by (auto simp: gotos_def)
qed

lemma card_gotos:
  assumes wf: "wf_grammar g" and E: "automaton g st" and T: "tables_ok g st t"
  shows "card (gotos g st) = length (from_state t)"
  using bij_betw_same_card [OF gotos_bij [OF assms]] by simp

text \<open>A relation on gotos and its rows of numbers have matching closures.\<close>

definition represents :: "lalr_tables \<Rightarrow> nat list list \<Rightarrow> ((nat \<times> nat) \<times> nat \<times> nat) set \<Rightarrow> bool" where
  "represents t R r \<longleftrightarrow> length R = length (from_state t) \<and>
     (\<forall>i < length R. \<forall>k \<in> set (R ! i). k < length R) \<and>
     (\<forall>i < length R. \<forall>k < length R. k \<in> set (R ! i) \<longleftrightarrow> (node t i, node t k) \<in> r)"

lemma represents_rtrancl:
  assumes wf: "wf_grammar g" and E: "automaton g st" and T: "tables_ok g st t"
    and R: "represents t R r" and r: "\<forall>x y. (x, y) \<in> r \<longrightarrow> is_goto g st y"
    and i: "i < length R"
  shows "(i, k) \<in> (edges R)\<^sup>* \<longleftrightarrow> k < length R \<and> (node t i, node t k) \<in> r\<^sup>*"
proof
  assume "(i, k) \<in> (edges R)\<^sup>*"
  then show "k < length R \<and> (node t i, node t k) \<in> r\<^sup>*"
  proof (induction rule: rtrancl_induct)
    case (step j k)
    then have jk: "j < length R" "k \<in> set (R ! j)" by (simp_all add: edges_def)
    then have "k < length R" using R unfolding represents_def by blast
    moreover have "(node t j, node t k) \<in> r" using R jk calculation unfolding represents_def by blast
    ultimately have "k < length R" "(node t j, node t k) \<in> r" by blast+
    with step.IH show ?case by (meson rtrancl.rtrancl_into_rtrancl)
  qed (simp add: i)
next
  have len: "length R = length (from_state t)" using R by (simp add: represents_def)
  have "\<exists>k < length R. node t k = y \<and> (i, k) \<in> (edges R)\<^sup>*" if "(node t i, y) \<in> r\<^sup>*" for y
    using that
  proof (induction rule: rtrancl_induct)
    case base
    then show ?case using i by blast
  next
    case (step y z)
    from step.IH obtain j where j: "j < length R" "node t j = y" "(i, j) \<in> (edges R)\<^sup>*" by blast
    from is_goto_node [OF wf E T r [rule_format, OF step.hyps(2)]] obtain k
      where k: "k < length R" "node t k = z" using len by auto
    with step.hyps(2) j(1,2) R have "k \<in> set (R ! j)" by (auto simp: represents_def)
    with j(1) have "(j, k) \<in> edges R" by (simp add: edges_def)
    with j(3) have "(i, k) \<in> (edges R)\<^sup>*" by (rule rtrancl.rtrancl_into_rtrancl)
    with k show ?case by blast
  qed
  moreover assume "k < length R \<and> (node t i, node t k) \<in> r\<^sup>*"
  ultimately obtain l where "l < length R" "node t l = node t k" "(i, l) \<in> (edges R)\<^sup>*" "k < length R" by blast
  with node_inj [OF E T, of l k] len show "(i, k) \<in> (edges R)\<^sup>*" by simp
qed

section \<open>Items and transitions\<close>

lemma ritem_not_start:
  assumes wf: "wf_grammar g" and i: "i < nitems g"
  shows "ritem g ! i \<noteq> int (start_symbol g)"
proof
  assume eq: "ritem g ! i = int (start_symbol g)"
  obtain r where r: "1 \<le> r" "r < nrules g" "rrhs g ! r \<le> i" "i < rrhs g ! Suc r"
    using item_rule [OF wf i] by blast
  have s: "2 \<le> start_symbol g" using wf_sizesD(5,6) [OF wf] by simp
  note H = wf_headerD [OF wf]
  consider "r = 1" | "r = 2" | "3 \<le> r" using r(1) by linarith
  then show False
  proof cases
    case 1
    then have "i = 0" using r(4) H(4) by (simp add: numeral_2_eq_2)
    then show False using eq H(11) by simp
  next
    case 2
    then have "i < 4" "1 \<le> i" using r(3,4) H(4,5) by (simp_all add: numeral_3_eq_3 numeral_2_eq_2)
    then have "i = 1 \<or> i = 2 \<or> i = 3" by linarith
    then show False using eq s H(12,14,15) by auto
  next
    case 3
    show False
    proof (cases "i < rrhs g ! Suc r - 1")
      case True
      then show False using wf_ruleD(6) [OF wf 3 r(2,3)] eq by simp
    next
      case False
      then have "i = rrhs g ! Suc r - 1" using r(4) by linarith
      then show False using wf_ruleD(5) [OF wf 3 r(2)] eq s by simp
    qed
  qed
qed

lemma item_trans:
  assumes wf: "wf_grammar g" and E: "automaton g st" and p: "p < length (cores st)"
    and i: "i \<in> set (closed_items g (core_items (cores st ! p)))" "ritem g ! i = int X" "0 < X"
  shows "\<exists>q. lr_trans g st p X q \<and> Suc i \<in> set (closed_items g (core_items (cores st ! q)))"
proof -
  let ?I = "core_items (cores st ! p)"
  note C = closed_items_kernel [OF wf automaton_kernel [OF E p]]
  have "i < nitems g" using C(4) i(1) by blast
  then have "X < nsyms g" using ritem_less_nsyms [OF wf] i(2) by fastforce
  moreover have G: "Suc i \<in> set (goto_kernel g ?I X)" using i(1,2) by (auto simp: goto_kernel_def items_on_def)
  ultimately have "X \<in> set (goto_symbols g ?I)" using i(3) by (auto simp: set_goto_symbols)
  from trans_exists [OF E p this] obtain q where q: "lr_trans g st p X q" by blast
  have "Suc i \<in> lr0_closure g (set (core_items (cores st ! q)))"
    using G transD(7) [OF q] by (auto intro: lr0_closure.kernel)
  then show ?thesis
    using q closed_items_kernel(1) [OF wf automaton_kernel [OF E transD(3) [OF q]]] by auto
qed

lemma trans_item:
  assumes wf: "wf_grammar g" and E: "automaton g st" and q: "lr_trans g st p X q"
  shows "\<exists>i. i \<in> set (closed_items g (core_items (cores st ! p))) \<and> ritem g ! i = int X"
  using transD(8) [OF q] by (fastforce simp: set_goto_symbols goto_kernel_def items_on_def filter_empty_conv)

lemma no_goto_start:
  assumes wf: "wf_grammar g" and E: "automaton g st"
  shows "\<not> lr_trans g st p (start_symbol g) q"
proof
  assume q: "lr_trans g st p (start_symbol g) q"
  from trans_item [OF wf E q] obtain i where
    i: "i \<in> set (closed_items g (core_items (cores st ! p)))" "ritem g ! i = int (start_symbol g)" by blast
  have "i < nitems g" using closed_items_kernel(4) [OF wf automaton_kernel [OF E transD(1) [OF q]]] i(1) by blast
  from ritem_not_start [OF wf this] i(2) show False by simp
qed

text \<open>The first goto is the one of state 0 on the goal symbol.\<close>

lemma goal_trans:
  assumes wf: "wf_grammar g" and E: "automaton g st"
  shows "\<exists>q. lr_trans g st 0 (Suc (start_symbol g)) q"
proof -
  have P: "0 < length (cores st)" "core_items (cores st ! 0) = [1]" using E by (simp_all add: expanded_def pool_def)
  have "1 \<in> lr0_closure g (set (core_items (cores st ! 0)))" by (rule lr0_closure.kernel) (simp add: P(2))
  then have "1 \<in> set (closed_items g (core_items (cores st ! 0)))"
    using closed_items_kernel(1) [OF wf automaton_kernel [OF E P(1)]] by simp
  from item_trans [OF wf E P(1) this, of "Suc (start_symbol g)"] wf_headerD(13) [OF wf] show ?thesis by auto
qed

lemma gotos_okD:
  assumes "gotos_ok g st gmap frm to"
  shows "gmap ! 0 = 0" "gmap ! nvars g = length frm"
    "\<And>a k. a < nvars g \<Longrightarrow> gmap ! a \<le> k \<Longrightarrow> k < gmap ! Suc a \<Longrightarrow>
       lr_trans g st (frm ! k) (start_symbol g + a) (to ! k)"
    "\<And>a k l. a < nvars g \<Longrightarrow> gmap ! a \<le> k \<Longrightarrow> k < l \<Longrightarrow> l < gmap ! Suc a \<Longrightarrow> frm ! k < frm ! l"
proof -
  note G = assms [unfolded gotos_ok_def]
  show "gmap ! 0 = 0" "gmap ! nvars g = length frm" using G by blast+
  show "\<And>a k. a < nvars g \<Longrightarrow> gmap ! a \<le> k \<Longrightarrow> k < gmap ! Suc a \<Longrightarrow>
       lr_trans g st (frm ! k) (start_symbol g + a) (to ! k)" using G by blast
  show "\<And>a k l. a < nvars g \<Longrightarrow> gmap ! a \<le> k \<Longrightarrow> k < l \<Longrightarrow> l < gmap ! Suc a \<Longrightarrow> frm ! k < frm ! l"
    using G by blast
qed

lemma first_goto:
  assumes wf: "wf_grammar g" and E: "automaton g st" and T: "tables_ok g st t"
  shows "0 < length (from_state t)" "node t 0 = (0, Suc (start_symbol g))"
proof -
  have "gotos_ok g st (goto_map t) (from_state t) (to_state t)" using T by (simp add: tables_ok_def)
  note G = gotos_okD [OF this]
  have nv: "2 \<le> nvars g" using wf_sizesD(7) [OF wf] .
  obtain q where "lr_trans g st 0 (Suc (start_symbol g)) q" using goal_trans [OF wf E] by blast
  from map_goto_node [OF wf E T _ this] obtain k
    where k: "k < length (from_state t)" "node t k = (0, Suc (start_symbol g))" by auto
  show "0 < length (from_state t)" using k(1) by linarith
  from node_range [OF E T k(1)] obtain a where
    a: "goto_map t ! a \<le> k" "k < goto_map t ! Suc a" "snd (node t k) = start_symbol g + a" by blast
  have a1: "a = 1" using a(3) k(2) by simp
  have "goto_map t ! 1 = 0"
  proof (rule ccontr)
    assume "goto_map t ! 1 \<noteq> 0"
    then have "lr_trans g st (from_state t ! 0) (start_symbol g + 0) (to_state t ! 0)"
      using G(1) G(3) [of 0 0] nv by simp
    then show False using no_goto_start [OF wf E] by simp
  qed
  moreover have "from_state t ! k = 0" using k(2) by (simp add: node_def)
  ultimately have "k = 0" using G(4) [of 1 0 k] a(2) a1 nv by (cases "k = 0") auto
  with k(2) show "node t 0 = (0, Suc (start_symbol g))" by simp
qed

section \<open>reads\<close>

definition nullable_ok :: "grammar \<Rightarrow> bool list \<Rightarrow> bool" where
  "nullable_ok g nl \<longleftrightarrow> (\<forall>j < nsyms g. nl ! j \<longleftrightarrow> derives_empty g j)"

text \<open>The tokens that can be shifted right after the transition, and \<^verbatim>\<open>$end\<close> after the goal.\<close>

definition direct_reads :: "grammar \<Rightarrow> lr0_state \<Rightarrow> nat \<times> nat \<Rightarrow> nat set" where
  "direct_reads g st x =
     {s. s < start_symbol g \<and> (\<exists>q r. lr_trans g st (fst x) (snd x) q \<and> lr_trans g st q s r)} \<union>
     (if x = (0, Suc (start_symbol g)) then {0} else {})"

definition reads_rel :: "grammar \<Rightarrow> lr0_state \<Rightarrow> ((nat \<times> nat) \<times> nat \<times> nat) set" where
  "reads_rel g st = {(x, y). is_goto g st x \<and> is_goto g st y \<and> derives_empty g (snd y) \<and>
     lr_trans g st (fst x) (snd x) (fst y)}"

lemma sorted_split:
  assumes "sorted_wrt (<) (xs :: nat list)"
  shows "takeWhile (\<lambda>x. \<not> b \<le> x) xs = filter (\<lambda>x. x < b) xs"
    "dropWhile (\<lambda>x. \<not> b \<le> x) xs = filter (\<lambda>x. b \<le> x) xs"
proof -
  have "takeWhile (\<lambda>x. \<not> b \<le> x) xs = filter (\<lambda>x. x < b) xs \<and>
      dropWhile (\<lambda>x. \<not> b \<le> x) xs = filter (\<lambda>x. b \<le> x) xs"
    using assms
  proof (induction xs)
    case (Cons x xs)
    show ?case
    proof (cases "b \<le> x")
      case True
      then have "filter (\<lambda>x. x < b) xs = []" "filter (\<lambda>x. b \<le> x) xs = xs"
        using Cons.prems by (auto simp: filter_empty_conv filter_id_conv)
      with True show ?thesis by simp
    qed (use Cons in auto)
  qed simp
  then show "takeWhile (\<lambda>x. \<not> b \<le> x) xs = filter (\<lambda>x. x < b) xs"
    "dropWhile (\<lambda>x. \<not> b \<le> x) xs = filter (\<lambda>x. b \<le> x) xs" by blast+
qed

text \<open>The shift table entry of a state.\<close>

lemma shift_table_entry:
  assumes E: "automaton g st" and T: "tables_ok g st t" and q: "q < length (cores st)"
  shows "case shift_table t ! q of
      None \<Rightarrow> (\<forall>X s. \<not> lr_trans g st q X s)
    | Some sp \<Rightarrow> sorted_wrt (<) (map (\<lambda>s. accessing t ! s) (shift_row sp)) \<and>
        (\<forall>X. X \<in> set (map (\<lambda>s. accessing t ! s) (shift_row sp)) \<longleftrightarrow> (\<exists>s. lr_trans g st q X s)) \<and>
        (\<forall>s \<in> set (shift_row sp). lr_trans g st q (accessing t ! s) s)"
proof (cases "shift_table t ! q")
  case None
  with set_shift_table_nth [OF E q] T have "goto_symbols g (core_items (cores st ! q)) = []"
    by (simp add: tables_ok_def)
  with None show ?thesis using transD(8) by fastforce
next
  case (Some sp)
  with set_shift_table_nth [OF E q] T have sp: "sp \<in> set (first_shift st)" "shifts_number sp = q"
    by (simp_all add: tables_ok_def)
  note R = automaton_row [OF E sp(1), unfolded sp(2)]
  have acc: "accessing t ! s = accessing_symbol (cores st ! s)" if "s \<in> set (shift_row sp)" for s
  proof -
    from R(4) that obtain X where X: "lr_trans g st q X s" by blast
    show ?thesis using accessing_trans [OF E T X] transD(6) [OF X] by simp
  qed
  then have m: "map (\<lambda>s. accessing t ! s) (shift_row sp) = goto_symbols g (core_items (cores st ! q))"
    using R(3) by (metis (no_types, lifting) map_eq_conv)
  have "X \<in> set (map (\<lambda>s. accessing t ! s) (shift_row sp)) \<longleftrightarrow> (\<exists>s. lr_trans g st q X s)" for X
    unfolding m using trans_exists [OF E q] transD(8) by blast
  moreover have "lr_trans g st q (accessing t ! s) s" if "s \<in> set (shift_row sp)" for s
    using R(4) [of s] that accessing_trans [OF E T] by blast
  moreover have "sorted_wrt (<) (map (\<lambda>s. accessing t ! s) (shift_row sp))"
    unfolding m by (simp add: goto_symbols_def sorted_wrt_filter)
  ultimately show ?thesis unfolding Some option.case by blast
qed

lemma nullable_edges:
  assumes wf: "wf_grammar g" and E: "automaton g st" and T: "tables_ok g st t" and nl: "nullable_ok g nl"
    and Xs: "\<forall>X \<in> set Xs. start_symbol g \<le> X \<and> (\<exists>s. lr_trans g st q X s)"
  shows "\<exists>ks. fold_sum (nullable_edge g t nl q) Xs edge = Inr (edge @ ks) \<and>
    (\<forall>k. k \<in> set ks \<longleftrightarrow> k < length (from_state t) \<and> fst (node t k) = q \<and> snd (node t k) \<in> set Xs \<and>
       derives_empty g (snd (node t k)))"
  using Xs
proof (induction Xs arbitrary: edge)
  case (Cons X Xs)
  then obtain s where X: "start_symbol g \<le> X" "lr_trans g st q X s" by auto
  from map_goto_node [OF wf E T X] obtain k where
    k: "k < length (from_state t)" "map_goto g t q X = Inr k" "node t k = (q, X)" by blast
  have nX: "nl ! X \<longleftrightarrow> derives_empty g X" using nl transD(5) [OF X(2)] by (simp add: nullable_ok_def)
  have one: "l = k" if "l < length (from_state t)" "fst (node t l) = q" "snd (node t l) = X" for l
    using node_inj [OF E T that(1) k(1)] that k(3) by (metis prod.collapse)
  have tl: "\<forall>X \<in> set Xs. start_symbol g \<le> X \<and> (\<exists>s. lr_trans g st q X s)" using Cons.prems by simp
  show ?case
  proof (cases "derives_empty g X")
    case True
    from Cons.IH [OF tl, of "edge @ [k]"]
    obtain ks where ks: "fold_sum (nullable_edge g t nl q) Xs (edge @ [k]) = Inr ((edge @ [k]) @ ks)"
      "\<forall>k. k \<in> set ks \<longleftrightarrow> k < length (from_state t) \<and> fst (node t k) = q \<and> snd (node t k) \<in> set Xs \<and>
       derives_empty g (snd (node t k))"
      by blast
    have "fold_sum (nullable_edge g t nl q) (X # Xs) edge = Inr (edge @ k # ks)"
      using ks(1) True k(2) nX by (simp add: nullable_edge_def)
    moreover have "l \<in> set (k # ks) \<longleftrightarrow> l < length (from_state t) \<and> fst (node t l) = q \<and>
        snd (node t l) \<in> set (X # Xs) \<and> derives_empty g (snd (node t l))" for l
    proof (cases "l = k")
      case True
      with k \<open>derives_empty g X\<close> show ?thesis by simp
    next
      case False
      with one [of l] have "\<not> (l < length (from_state t) \<and> fst (node t l) = q \<and> snd (node t l) = X)" by blast
      with False ks(2) show ?thesis by (simp only: set_simps insert_iff) blast
    qed
    ultimately show ?thesis by blast
  next
    case False
    from Cons.IH [OF tl, of edge]
    obtain ks where ks: "fold_sum (nullable_edge g t nl q) Xs edge = Inr (edge @ ks)"
      "\<forall>k. k \<in> set ks \<longleftrightarrow> k < length (from_state t) \<and> fst (node t k) = q \<and> snd (node t k) \<in> set Xs \<and>
       derives_empty g (snd (node t k))"
      by blast
    have "fold_sum (nullable_edge g t nl q) (X # Xs) edge = Inr (edge @ ks)"
      using ks(1) False nX by (simp add: nullable_edge_def)
    moreover have "snd x \<in> set (X # Xs) \<and> derives_empty g (snd x) \<longleftrightarrow>
        snd x \<in> set Xs \<and> derives_empty g (snd x)" for x :: "nat \<times> nat"
      using False by auto
    ultimately show ?thesis using ks(2) by (intro exI [of _ ks] conjI allI) (assumption, blast)
  qed
qed simp

lemma SETBIT_tokens:
  assumes "i < n" "length R = n * w" "\<forall>r \<in> set rs. r < 32 * w"
  shows "length (fold (\<lambda>s fw. SETBIT fw (i * w) s) rs R) = n * w \<and>
    (\<forall>x. rowset (fold (\<lambda>s fw. SETBIT fw (i * w) s) rs R) (x * w) w =
      rowset R (x * w) w \<union> (if x = i then set rs else {}))"
  using SETBIT_fold [OF assms(1,2), of rs] assms(3) by blast

lemma initialize_F_row_correct:
  assumes wf: "wf_grammar g" and E: "automaton g st" and T: "tables_ok g st t" and nl: "nullable_ok g nl"
    and i: "i < length (from_state t)"
  defines "w \<equiv> WORDSIZE (ntokens g)"
  assumes len: "length fw = length (from_state t) * w" "length reads = length (from_state t)"
    and empty: "reads ! i = []"
  shows "\<exists>fw' edge. initialize_F_row g t nl i (fw, reads) = Inr (fw', reads[i := edge]) \<and>
    length fw' = length (from_state t) * w \<and>
    (\<forall>x. rowset fw' (x * w) w = rowset fw (x * w) w \<union>
       (if x = i then {s. s < start_symbol g \<and> (\<exists>r. lr_trans g st (to_state t ! i) s r)} else {})) \<and>
    set edge = {k. k < length (from_state t) \<and> (node t i, node t k) \<in> reads_rel g st}"
proof -
  let ?q = "to_state t ! i"
  have tr: "lr_trans g st (fst (node t i)) (snd (node t i)) ?q" "is_goto g st (node t i)"
    using node_trans [OF E T i] by simp_all
  have q: "?q < length (cores st)" by (rule transD(3) [OF tr(1)])
  have rr: "(node t i, y) \<in> reads_rel g st \<longleftrightarrow>
      is_goto g st y \<and> derives_empty g (snd y) \<and> fst y = ?q" for y
  proof -
    have "lr_trans g st (fst (node t i)) (snd (node t i)) z \<longleftrightarrow> z = ?q" for z
      using tr(1) trans_unique [OF E tr(1), of z] by blast
    then show ?thesis by (cases y) (simp add: reads_rel_def tr(2))
  qed
  show ?thesis
  proof (cases "shift_table t ! ?q")
    case None
    with shift_table_entry [OF E T q] have no: "\<not> lr_trans g st ?q X s" for X s by simp
    have "(node t i, y) \<notin> reads_rel g st" for y using no by (auto simp: rr is_goto_def)
    moreover have e: "{s. s < start_symbol g \<and> (\<exists>r. lr_trans g st ?q s r)} = {}" using no by blast
    moreover have "reads[i := []] = reads" using empty by (metis list_update_id)
    ultimately show ?thesis using None len(1) unfolding e
      by (intro exI [of _ fw] exI [of _ "[]"]) (simp add: initialize_F_row_def Let_def)
  next
    case (Some sp)
    let ?syms = "map (\<lambda>s. accessing t ! s) (shift_row sp)"
    from shift_table_entry [OF E T q] Some
    have S: "sorted_wrt (<) ?syms" "\<And>X. X \<in> set ?syms \<longleftrightarrow> (\<exists>s. lr_trans g st ?q X s)" by simp_all
    have split: "takeWhile (\<lambda>s. \<not> ISVAR g (int s)) ?syms = filter (\<lambda>x. x < start_symbol g) ?syms"
      "dropWhile (\<lambda>s. \<not> ISVAR g (int s)) ?syms = filter (\<lambda>x. start_symbol g \<le> x) ?syms"
      using sorted_split [OF S(1), of "start_symbol g"] by (simp_all add: ISVAR_def)
    have "\<forall>s \<in> set (filter (\<lambda>x. x < start_symbol g) ?syms). s < 32 * w"
      using WORDSIZE_bound [of "ntokens g"] wf_sizesD(5) [OF wf] unfolding w_def by fastforce
    note B = SETBIT_tokens [OF i len(1) this]
    have "\<forall>X \<in> set (filter (\<lambda>x. start_symbol g \<le> x) ?syms). start_symbol g \<le> X \<and> (\<exists>s. lr_trans g st ?q X s)"
      using S(2) by auto
    from nullable_edges [OF wf E T nl this, of "[]"] obtain ks where ks:
      "fold_sum (nullable_edge g t nl ?q) (filter (\<lambda>x. start_symbol g \<le> x) ?syms) [] = Inr ks"
      "\<forall>k. k \<in> set ks \<longleftrightarrow> k < length (from_state t) \<and> fst (node t k) = ?q \<and>
         snd (node t k) \<in> set (filter (\<lambda>x. start_symbol g \<le> x) ?syms) \<and> derives_empty g (snd (node t k))"
      by auto
    have step: "initialize_F_row g t nl i (fw, reads) =
        Inr (fold (\<lambda>s fw. SETBIT fw (i * w) s) (filter (\<lambda>x. x < start_symbol g) ?syms) fw, reads[i := ks])"
      unfolding initialize_F_row_def prod.case Let_def Some option.case split w_def ks(1) sum.case ..
    have tok: "set (filter (\<lambda>x. x < start_symbol g) ?syms) =
        {s. s < start_symbol g \<and> (\<exists>r. lr_trans g st ?q s r)}" using S(2) by auto
    have "set ks = {k. k < length (from_state t) \<and> (node t i, node t k) \<in> reads_rel g st}"
    proof (intro set_eqI iffI)
      fix k assume "k \<in> set ks"
      then show "k \<in> {k. k < length (from_state t) \<and> (node t i, node t k) \<in> reads_rel g st}"
        using ks(2) node_trans(2) [OF E T, of k] by (simp add: rr)
    next
      fix k assume "k \<in> {k. k < length (from_state t) \<and> (node t i, node t k) \<in> reads_rel g st}"
      then have k: "k < length (from_state t)" "fst (node t k) = ?q" "is_goto g st (node t k)" "derives_empty g (snd (node t k))"
        by (simp_all add: rr)
      then show "k \<in> set ks" using ks(2) S(2) [of "snd (node t k)"] by (auto simp: is_goto_def)
    qed
    with step B show ?thesis unfolding tok by blast
  qed
qed

lemma initialize_F_rows:
  assumes wf: "wf_grammar g" and E: "automaton g st" and T: "tables_ok g st t" and nl: "nullable_ok g nl"
    and m: "m \<le> length (from_state t)"
  defines "n \<equiv> length (from_state t)" and "w \<equiv> WORDSIZE (ntokens g)"
  shows "\<exists>fw reads. fold_sum (initialize_F_row g t nl) [0..<m] (replicate (n * w) 0, replicate n []) = Inr (fw, reads) \<and>
    length fw = n * w \<and> length reads = n \<and>
    (\<forall>x < n. rowset fw (x * w) w =
       (if x < m then {s. s < start_symbol g \<and> (\<exists>r. lr_trans g st (to_state t ! x) s r)} else {})) \<and>
    (\<forall>x < n. set (reads ! x) = (if x < m then {k. k < n \<and> (node t x, node t k) \<in> reads_rel g st} else {}))"
  using m
proof (induction m)
  case 0
  have "x * w + w \<le> n * w" if "x < n" for x using row_end that by blast
  then show ?case by simp
next
  case (Suc m)
  then have mn: "m < length (from_state t)" and "m \<le> length (from_state t)" by simp_all
  from Suc.IH [OF this(2)] obtain fw reads where I:
    "fold_sum (initialize_F_row g t nl) [0..<m] (replicate (n * w) 0, replicate n []) = Inr (fw, reads)"
    "length fw = n * w" "length reads = n"
    "\<forall>x < n. rowset fw (x * w) w =
       (if x < m then {s. s < start_symbol g \<and> (\<exists>r. lr_trans g st (to_state t ! x) s r)} else {})"
    "\<forall>x < n. set (reads ! x) = (if x < m then {k. k < n \<and> (node t x, node t k) \<in> reads_rel g st} else {})"
    by blast
  have "set (reads ! m) = {}" using I(5) mn by (simp add: n_def)
  then have "reads ! m = []" by simp
  from initialize_F_row_correct [OF wf E T nl mn I(2) [unfolded n_def w_def] I(3) [unfolded n_def] this, folded n_def w_def]
  obtain fw' edge where F: "initialize_F_row g t nl m (fw, reads) = Inr (fw', reads[m := edge])"
    "length fw' = n * w"
    "\<forall>x. rowset fw' (x * w) w = rowset fw (x * w) w \<union>
       (if x = m then {s. s < start_symbol g \<and> (\<exists>r. lr_trans g st (to_state t ! m) s r)} else {})"
    "set edge = {k. k < n \<and> (node t m, node t k) \<in> reads_rel g st}" by blast
  have "fold_sum (initialize_F_row g t nl) [0..<Suc m] (replicate (n * w) 0, replicate n []) = Inr (fw', reads[m := edge])"
    using I(1) F(1) by (simp add: fold_sum_append)
  moreover have "rowset fw' (x * w) w =
      (if x < Suc m then {s. s < start_symbol g \<and> (\<exists>r. lr_trans g st (to_state t ! x) s r)} else {})" if "x < n" for x
    using I(4) [rule_format, OF that] F(3) [rule_format, of x] by (cases "x = m") auto
  moreover have "set (reads[m := edge] ! x) =
      (if x < Suc m then {k. k < n \<and> (node t x, node t k) \<in> reads_rel g st} else {})" if "x < n" for x
    using I(5) [rule_format, OF that] F(4) I(3) that mn by (cases "x = m") (auto simp: n_def)
  ultimately show ?case using F(2) I(3) by (intro exI [of _ fw'] exI [of _ "reads[m := edge]"]) simp
qed

lemma initialize_F_correct:
  assumes wf: "wf_grammar g" and E: "automaton g st" and T: "tables_ok g st t" and nl: "nullable_ok g nl"
  defines "n \<equiv> length (from_state t)" and "w \<equiv> WORDSIZE (ntokens g)"
  shows "\<exists>fw reads. initialize_F g t nl = Inr (fw, reads) \<and> length fw = n * w \<and>
    represents t reads (reads_rel g st) \<and>
    (\<forall>x < n. rowset fw (x * w) w = direct_reads g st (node t x))"
proof -
  from initialize_F_rows [OF wf E T nl order_refl, folded n_def w_def]
  obtain fw reads where I:
    "fold_sum (initialize_F_row g t nl) [0..<n] (replicate (n * w) 0, replicate n []) = Inr (fw, reads)"
    "length fw = n * w" "length reads = n"
    "\<forall>x < n. rowset fw (x * w) w = {s. s < start_symbol g \<and> (\<exists>r. lr_trans g st (to_state t ! x) s r)}"
    "\<forall>x < n. set (reads ! x) = {k. k < n \<and> (node t x, node t k) \<in> reads_rel g st}"
    by auto
  note first = first_goto [OF wf E T, folded n_def]
  have "ntokens g \<noteq> 0" using wf_sizesD(6) [OF wf] by simp
  then have "WORDSIZE (ntokens g) \<noteq> 0" by simp
  then have w0: "0 < w" by (simp only: w_def neq0_conv)
  have S: "rowset (SETBIT fw 0 0) (x * w) w = rowset fw (x * w) w \<union> (if x = 0 then {0} else {})" for x
    using rowset_SETBIT [OF first(1) I(2), of 0 x] w0 by auto
  have "rowset (SETBIT fw 0 0) (x * w) w = direct_reads g st (node t x)" if x: "x < n" for x
  proof -
    have tr: "lr_trans g st (fst (node t x)) (snd (node t x)) (to_state t ! x)"
      using node_trans(1) [OF E T] x by (simp add: n_def)
    have "(\<exists>q r. lr_trans g st (fst (node t x)) (snd (node t x)) q \<and> lr_trans g st q s r) \<longleftrightarrow>
        (\<exists>r. lr_trans g st (to_state t ! x) s r)" for s
      using tr trans_unique [OF E tr] by blast
    moreover have "node t x = (0, Suc (start_symbol g)) \<longleftrightarrow> x = 0"
      using first node_inj [OF E T, of x 0] x by (auto simp: n_def)
    ultimately show ?thesis unfolding S direct_reads_def using I(4) x by simp
  qed
  moreover have "represents t reads (reads_rel g st)"
    using I(3,5) unfolding represents_def n_def by auto
  moreover have "initialize_F g t nl = Inr (SETBIT fw 0 0, reads)"
    using I(1) by (simp add: initialize_F_def n_def w_def Let_def)
  ultimately show ?thesis using I(2) by (intro exI [of _ "SETBIT fw 0 0"] exI [of _ reads]) simp
qed

section \<open>Walking a right-hand side\<close>

primrec lr_path :: "grammar \<Rightarrow> lr0_state \<Rightarrow> nat \<Rightarrow> nat list \<Rightarrow> nat \<Rightarrow> bool" where
  "lr_path g st p [] q \<longleftrightarrow> p = q \<and> p < length (cores st)"
| "lr_path g st p (X # Xs) q \<longleftrightarrow> (\<exists>s. lr_trans g st p X s \<and> lr_path g st s Xs q)"

lemma lr_path_unique:
  "automaton g st \<Longrightarrow> lr_path g st p Xs q \<Longrightarrow> lr_path g st p Xs q' \<Longrightarrow> q = q'"
  by (induction Xs arbitrary: p) (auto dest: trans_unique)

abbreviation state_items :: "grammar \<Rightarrow> lr0_state \<Rightarrow> nat \<Rightarrow> nat list" where
  "state_items g st p \<equiv> closed_items g (core_items (cores st ! p))"

lemma find_shift_found:
  "\<exists>s \<in> set ss. acc ! s = X \<Longrightarrow> find_shift acc X ss d \<in> set ss \<and> acc ! find_shift acc X ss d = X"
  by (induction ss arbitrary: d) auto

lemma find_shift_trans:
  assumes E: "automaton g st" and T: "tables_ok g st t" and tr: "lr_trans g st p X q"
  shows "\<exists>sp. shift_table t ! p = Some sp \<and> find_shift (accessing t) X (shift_row sp) d = q"
proof -
  have p: "p < length (cores st)" by (rule transD(1) [OF tr])
  show ?thesis
  proof (cases "shift_table t ! p")
    case None
    with shift_table_entry [OF E T p] tr show ?thesis by simp
  next
    case (Some sp)
    with shift_table_entry [OF E T p]
    have S: "X \<in> set (map (\<lambda>s. accessing t ! s) (shift_row sp)) \<longleftrightarrow> (\<exists>s. lr_trans g st p X s)"
      "\<forall>s \<in> set (shift_row sp). lr_trans g st p (accessing t ! s) s" by simp_all
    from S(1) tr have "\<exists>s \<in> set (shift_row sp). accessing t ! s = X" by auto
    from find_shift_found [OF this, of d] S(2) trans_unique [OF E tr] Some show ?thesis by metis
  qed
qed

lemma walk_rule_correct:
  assumes wf: "wf_grammar g" and E: "automaton g st" and T: "tables_ok g st t"
    and r: "3 \<le> r" "r < nrules g"
  defines "e \<equiv> rrhs g ! Suc r - 1"
  assumes "rrhs g ! r \<le> rp" "rp \<le> e" "s < length (cores st)" "rp \<in> set (state_items g st s)"
  shows "\<exists>ss q. walk_rule g t rp states s = Inr (states @ ss, q, e) \<and> length ss = e - rp \<and>
    q < length (cores st) \<and> e \<in> set (state_items g st q) \<and>
    (\<forall>m < e - rp. lr_trans g st ((s # ss) ! m) (nat (ritem g ! (rp + m))) (ss ! m)) \<and>
    lr_path g st s (map (\<lambda>i. nat (ritem g ! i)) [rp..<e]) q"
  using assms(7-)
proof (induction "e - rp" arbitrary: rp s states)
  case 0
  then have "rp = e" by simp
  moreover have "ritem g ! e < 0" using wf_ruleD(5) [OF wf r] r(1) by (simp add: e_def)
  ultimately show ?case using 0 by (subst walk_rule.simps) simp
next
  case (Suc d)
  then have lt: "rp < e" by simp
  then have pos: "0 < ritem g ! rp" using wf_ruleD(6) [OF wf r, of rp] Suc.prems(1) by (simp add: e_def)
  have len: "rp < length (ritem g)"
    using lt wf_ruleD(4) [OF wf r] wf_sizesD(1) [OF wf] by (simp add: e_def)
  let ?X = "nat (ritem g ! rp)"
  have X: "ritem g ! rp = int ?X" "0 < ?X" using pos by simp_all
  from item_trans [OF wf E Suc.prems(3,4) X] obtain q0 where
    q0: "lr_trans g st s ?X q0" "Suc rp \<in> set (state_items g st q0)" by blast
  from find_shift_trans [OF E T q0(1), of s] obtain sp where
    sp: "shift_table t ! s = Some sp" "find_shift (accessing t) ?X (shift_row sp) s = q0" by blast
  have "d = e - Suc rp" "rrhs g ! r \<le> Suc rp" "Suc rp \<le> e" using Suc.hyps(2) Suc.prems(1) lt by simp_all
  from Suc.hyps(1) [OF this transD(3) [OF q0(1)] q0(2), of "states @ [q0]"] obtain ss q where
    W: "walk_rule g t (Suc rp) (states @ [q0]) q0 = Inr ((states @ [q0]) @ ss, q, e)"
    "length ss = e - Suc rp" "q < length (cores st)" "e \<in> set (state_items g st q)"
    "\<forall>m < e - Suc rp. lr_trans g st ((q0 # ss) ! m) (nat (ritem g ! (Suc rp + m))) (ss ! m)"
    "lr_path g st q0 (map (\<lambda>i. nat (ritem g ! i)) [Suc rp..<e]) q" by blast
  have "walk_rule g t rp states s = Inr (states @ q0 # ss, q, e)"
    using len pos sp W(1) by (subst walk_rule.simps) (simp add: Let_def)
  moreover have "lr_trans g st ((s # q0 # ss) ! m) (nat (ritem g ! (rp + m))) ((q0 # ss) ! m)" if "m < e - rp" for m
    using W(5) q0(1) that by (cases m) auto
  moreover have "lr_path g st s (map (\<lambda>i. nat (ritem g ! i)) [rp..<e]) q"
    using W(6) q0(1) lt by (auto simp: upt_conv_Cons)
  ultimately show ?case using W(2-4) lt by (intro exI [of _ "q0 # ss"] exI [of _ q]) simp
qed

text \<open>The right-hand sides start in the closure of every state with the goto.\<close>

lemma goto_rule_item:
  assumes wf: "wf_grammar g" and E: "automaton g st" and tr: "lr_trans g st p B q"
    and r: "r < nrules g" "rlhs g ! r = B" and B: "start_symbol g \<le> B"
  shows "rrhs g ! r \<in> set (state_items g st p)" "3 \<le> r"
proof -
  have p: "p < length (cores st)" by (rule transD(1) [OF tr])
  note C = closed_items_kernel(1) [OF wf automaton_kernel [OF E p]]
  from trans_item [OF wf E tr] obtain i where i: "i \<in> set (state_items g st p)" "ritem g ! i = int B" by blast
  then show "rrhs g ! r \<in> set (state_items g st p)"
    using lr0_closure.predict [of i g _ B r] B r C by auto
  have "B \<noteq> start_symbol g" using no_goto_start [OF wf E] tr by auto
  moreover have "2 \<le> r" using rlhs_var_ge_2 [OF wf r(1)] r(2) B by simp
  moreover have "r \<noteq> 2" using wf_headerD(10) [OF wf] r(2) \<open>B \<noteq> start_symbol g\<close> by auto
  ultimately show "3 \<le> r" by simp
qed

text \<open>The position of the reduction by \<open>r\<close> in state \<open>q\<close>.\<close>

definition la_index :: "lalr_tables \<Rightarrow> nat \<Rightarrow> nat \<Rightarrow> nat \<Rightarrow> bool" where
  "la_index t q r l \<longleftrightarrow> lookaheads t ! q \<le> l \<and> l < lookaheads t ! Suc q \<and> LAruleno t ! l = r"

lemma la_row:
  assumes T: "tables_ok g st t" and q: "q < length (cores st)"
  shows "lookaheads t ! Suc q = lookaheads t ! q + length (rules_at g st q)"
    "m < length (rules_at g st q) \<Longrightarrow> LAruleno t ! (lookaheads t ! q + m) = rules_at g st q ! m"
    "lookaheads t ! Suc q \<le> length (LAruleno t)"
proof -
  let ?n = "length (cores st)"
  have la: "\<And>p. p \<le> ?n \<Longrightarrow> lookaheads t ! p = length (concat (map (rules_at g st) [0..<p]))"
    and ru: "LAruleno t = concat (map (rules_at g st) [0..<?n])" using T by (simp_all add: tables_ok_def)
  have "[0..<?n] = [0..<q] @ q # [Suc q..<?n]" using q by (metis less_imp_le le0 upt_split upt_conv_Cons)
  then have ru': "LAruleno t = concat (map (rules_at g st) [0..<q]) @ rules_at g st q @
      concat (map (rules_at g st) [Suc q..<?n])" unfolding ru by simp
  show l1: "lookaheads t ! Suc q = lookaheads t ! q + length (rules_at g st q)" using la q by simp
  show "LAruleno t ! (lookaheads t ! q + m) = rules_at g st q ! m" if "m < length (rules_at g st q)"
    using la [of q] q that unfolding ru' by (simp add: nth_append)
  show "lookaheads t ! Suc q \<le> length (LAruleno t)" using l1 la [of q] q unfolding ru' by simp
qed

lemma rules_at_distinct:
  assumes wf: "wf_grammar g" and E: "automaton g st" and q: "q < length (cores st)"
  shows "distinct (rules_at g st q)"
    "r \<in> set (rules_at g st q) \<longleftrightarrow> 1 \<le> r \<and> r < nrules g \<and> rrhs g ! Suc r - 1 \<in> set (state_items g st q)"
proof -
  note C = closed_items_kernel [OF wf automaton_kernel [OF E q]]
  have fin: "ritem g ! i = - int r \<longleftrightarrow> i = rrhs g ! Suc r - 1"
    if "i < nitems g" "ritem g ! i < 0 \<or> 1 \<le> r" "r < nrules g" "1 \<le> r" for i r
  proof
    assume "ritem g ! i = - int r"
    with that(4) have neg: "ritem g ! i < 0" by simp
    from ritem_end [OF wf that(1) neg] obtain k where "1 \<le> k" "ritem g ! i = - int k" "i = rrhs g ! Suc k - 1" by blast
    with \<open>ritem g ! i = - int r\<close> show "i = rrhs g ! Suc r - 1" by simp
  qed (use rule_block(3) [OF wf that(4,3)] in simp)
  have inj: "inj_on (\<lambda>i. nat (- (ritem g ! i))) {i. i < nitems g \<and> ritem g ! i < 0}"
  proof (rule inj_onI)
    fix i j assume i: "i \<in> {i. i < nitems g \<and> ritem g ! i < 0}" and j: "j \<in> {i. i < nitems g \<and> ritem g ! i < 0}"
      and eq: "nat (- (ritem g ! i)) = nat (- (ritem g ! j))"
    from i obtain a where a: "ritem g ! i = - int a" "i = rrhs g ! Suc a - 1" using ritem_end [OF wf, of i] by auto
    from j obtain b where b: "ritem g ! j = - int b" "j = rrhs g ! Suc b - 1" using ritem_end [OF wf, of j] by auto
    from eq a b show "i = j" by simp
  qed
  have sub: "set (filter (\<lambda>i. ritem g ! i < 0) (state_items g st q)) \<subseteq> {i. i < nitems g \<and> ritem g ! i < 0}"
    using C(4) by auto
  show "distinct (rules_at g st q)"
    unfolding complete_rules_def distinct_map using C(3) inj_on_subset [OF inj sub] by simp
  show "r \<in> set (rules_at g st q) \<longleftrightarrow> 1 \<le> r \<and> r < nrules g \<and> rrhs g ! Suc r - 1 \<in> set (state_items g st q)"
  proof
    assume "r \<in> set (rules_at g st q)"
    then obtain i where i: "i \<in> set (state_items g st q)" "ritem g ! i < 0" "r = nat (- (ritem g ! i))"
      by (auto simp: complete_rules_def)
    have "i < nitems g" using C(4) i(1) by blast
    from ritem_end [OF wf this i(2)] obtain k where "1 \<le> k" "k < nrules g" "ritem g ! i = - int k" "i = rrhs g ! Suc k - 1" by blast
    with i show "1 \<le> r \<and> r < nrules g \<and> rrhs g ! Suc r - 1 \<in> set (state_items g st q)" by simp
  next
    assume r: "1 \<le> r \<and> r < nrules g \<and> rrhs g ! Suc r - 1 \<in> set (state_items g st q)"
    then have "ritem g ! (rrhs g ! Suc r - 1) = - int r" using rule_block(3) [OF wf] by blast
    with r show "r \<in> set (rules_at g st q)" by (force simp: complete_rules_def)
  qed
qed

lemma la_index_exists:
  assumes wf: "wf_grammar g" and E: "automaton g st" and T: "tables_ok g st t" and q: "q < length (cores st)"
    and r: "r \<in> set (rules_at g st q)"
  shows "\<exists>l < length (LAruleno t). la_index t q r l \<and> (\<forall>k. la_index t q r k \<longrightarrow> k = l)"
proof -
  note L = la_row [OF T q]
  from r obtain m where m: "m < length (rules_at g st q)" "rules_at g st q ! m = r" by (auto simp: in_set_conv_nth)
  have "la_index t q r (lookaheads t ! q + m)" using m L(1) L(2) [OF m(1)] by (simp add: la_index_def)
  moreover have "k = lookaheads t ! q + m" if k: "la_index t q r k" for k
  proof -
    let ?j = "k - lookaheads t ! q"
    have j: "?j < length (rules_at g st q)" "k = lookaheads t ! q + ?j" using k L(1) by (auto simp: la_index_def)
    then have "rules_at g st q ! ?j = r" using k L(2) [OF j(1)] by (simp add: la_index_def)
    then have "?j = m"
      using nth_eq_iff_index_eq [OF rules_at_distinct(1) [OF wf E q] j(1) m(1)] m(2) by simp
    with j(2) show ?thesis by simp
  qed
  moreover have "lookaheads t ! q + m < length (LAruleno t)" using L(1,3) m(1) by simp
  ultimately show ?thesis by blast
qed

lemma add_lookback_edge_correct:
  assumes wf: "wf_grammar g" and E: "automaton g st" and T: "tables_ok g st t" and q: "q < length (cores st)"
    and r: "r \<in> set (rules_at g st q)"
  shows "\<exists>l < length (LAruleno t). add_lookback_edge t q r i lookback = Inr (lookback[l := i # lookback ! l]) \<and>
    la_index t q r l \<and> (\<forall>k. la_index t q r k \<longrightarrow> k = l)"
proof -
  from la_index_exists [OF assms] obtain l where l: "l < length (LAruleno t)" "la_index t q r l"
    "\<forall>k. la_index t q r k \<longrightarrow> k = l" by blast
  have "find (\<lambda>i. LAruleno t ! i = r) [lookaheads t ! q..<lookaheads t ! Suc q] = Some l"
  proof (cases "find (\<lambda>i. LAruleno t ! i = r) [lookaheads t ! q..<lookaheads t ! Suc q]")
    case None
    then show ?thesis using l(2) by (auto simp: find_None_iff la_index_def)
  next
    case (Some k)
    then have "la_index t q r k" by (auto simp: find_Some_iff la_index_def)
    with l(3) Some show ?thesis by simp
  qed
  then have "add_lookback_edge t q r i lookback = Inr (lookback[l := i # lookback ! l])"
    by (simp add: add_lookback_edge_def)
  with l show ?thesis by blast
qed

section \<open>includes and lookback\<close>

definition includes_rel :: "grammar \<Rightarrow> lr0_state \<Rightarrow> ((nat \<times> nat) \<times> nat \<times> nat) set" where
  "includes_rel g st = {(x, y). is_goto g st x \<and> is_goto g st y \<and>
     (\<exists>r < nrules g. rlhs g ! r = snd y \<and> (\<exists>\<beta> \<gamma>. rhs_syms g r = \<beta> @ snd x # \<gamma> \<and>
        (\<forall>s \<in> set \<gamma>. derives_empty g s) \<and> lr_path g st (fst y) \<beta> (fst x)))}"

definition lookback_rel :: "grammar \<Rightarrow> lr0_state \<Rightarrow> nat \<Rightarrow> nat \<Rightarrow> (nat \<times> nat) set" where
  "lookback_rel g st q r = {x. is_goto g st x \<and> snd x = rlhs g ! r \<and> lr_path g st (fst x) (rhs_syms g r) q}"

lemma derives_empty_var:
  assumes wf: "wf_grammar g" and "derives_empty g X"
  shows "start_symbol g \<le> X"
  using assms(2) rlhs_var [OF wf] by (auto elim: derives_empty.cases)

lemma includes_back_correct:
  assumes wf: "wf_grammar g" and E: "automaton g st" and T: "tables_ok g st t" and nl: "nullable_ok g nl"
    and r: "3 \<le> r" "r < nrules g"
  defines "sy \<equiv> \<lambda>m. nat (ritem g ! (rrhs g ! r + m))"
  assumes steps: "\<forall>m < M. lr_trans g st (S ! m) (sy m) (S ! Suc m)"
    and M: "M = rrhs g ! Suc r - 1 - rrhs g ! r" and len: "len \<le> M"
  shows "\<exists>ks. (\<forall>edge. length edge \<le> length (from_state t) + 1 \<longrightarrow>
      includes_back g t nl S (rrhs g ! r + len) len edge =
        (if length (edge @ ks) \<le> length (from_state t) + 1 then Inr (edge @ ks) else Inl BadAccess)) \<and>
    (\<forall>k. k \<in> set ks \<longleftrightarrow> k < length (from_state t) \<and> (\<exists>j < len. node t k = (S ! j, sy j) \<and>
       start_symbol g \<le> sy j \<and> (\<forall>i. j < i \<longrightarrow> i < len \<longrightarrow> derives_empty g (sy i)))) \<and>
    length ks = card {j. j < len \<and> start_symbol g \<le> sy j \<and> (\<forall>i. j < i \<longrightarrow> i < len \<longrightarrow> derives_empty g (sy i))}"
  using len
proof (induction len)
  case 0
  have "Suc (r - 1) = r" "1 \<le> r - 1" "r - 1 < nrules g" using r by simp_all
  with rule_block(3) [OF wf, of "r - 1"] r(1) have "ritem g ! (rrhs g ! r - 1) < 0" by simp
  then show ?case by (intro exI [of _ "[]"]) (simp add: ISVAR_def)
next
  case (Suc len)
  let ?b = "rrhs g ! r" and ?s = "ritem g ! (rrhs g ! r + len)" and ?room = "length (from_state t) + 1"
  have lt: "len < M" using Suc.prems by simp
  have "?b + len < rrhs g ! Suc r - 1" using lt M by linarith
  then have pos: "0 < ?s" using wf_ruleD(6) [OF wf r, of "?b + len"] by simp
  have tr: "lr_trans g st (S ! len) (sy len) (S ! Suc len)" using steps lt by blast
  have nl': "nl ! sy len \<longleftrightarrow> derives_empty g (sy len)"
    using nl transD(5) [OF tr] by (simp add: nullable_ok_def)
  have var: "ISVAR g ?s \<longleftrightarrow> start_symbol g \<le> sy len" using pos by (simp add: ISVAR_def sy_def nat_le_iff le_nat_iff)
  have split: "(\<exists>j < Suc len. node t k = (S ! j, sy j) \<and> start_symbol g \<le> sy j \<and>
        (\<forall>i. j < i \<longrightarrow> i < Suc len \<longrightarrow> derives_empty g (sy i))) \<longleftrightarrow>
      node t k = (S ! len, sy len) \<and> start_symbol g \<le> sy len \<or>
      derives_empty g (sy len) \<and> (\<exists>j < len. node t k = (S ! j, sy j) \<and> start_symbol g \<le> sy j \<and>
        (\<forall>i. j < i \<longrightarrow> i < len \<longrightarrow> derives_empty g (sy i)))" for k
    by (auto simp: less_Suc_eq)
  let ?V = "\<lambda>len. {j. j < len \<and> start_symbol g \<le> sy j \<and> (\<forall>i. j < i \<longrightarrow> i < len \<longrightarrow> derives_empty g (sy i))}"
  have V: "?V (Suc len) = (if start_symbol g \<le> sy len then {len} else {}) \<union> (if derives_empty g (sy len) then ?V len else {})"
    by (auto simp: less_Suc_eq)
  have cV: "card (insert len (?V len)) = Suc (card (?V len))" by (subst card_insert_disjoint) auto
  show ?case
  proof (cases "start_symbol g \<le> sy len")
    case False
    then have "\<not> derives_empty g (sy len)" using derives_empty_var [OF wf] by blast
    then show ?thesis using False var unfolding split V by (intro exI [of _ "[]"]) simp
  next
    case True
    from map_goto_node [OF wf E T True tr] obtain k where
      k: "k < length (from_state t)" "map_goto g t (S ! len) (sy len) = Inr k" "node t k = (S ! len, sy len)" by blast
    have one: "l < length (from_state t) \<and> node t l = (S ! len, sy len) \<longleftrightarrow> l = k" for l
      using node_inj [OF E T, of l k] k by auto
    note def = includes_back.simps(2) [of g t nl S "?b + Suc len" len]
    have rp: "?b + Suc len - 1 = ?b + len" by simp
    show ?thesis
    proof (cases "derives_empty g (sy len) \<and> 0 < len")
      case rec: True
      from Suc.IH [OF less_imp_le [OF lt]] obtain ks where
        ks: "\<forall>edge. length edge \<le> ?room \<longrightarrow> includes_back g t nl S (?b + len) len edge =
          (if length (edge @ ks) \<le> ?room then Inr (edge @ ks) else Inl BadAccess)"
        "\<forall>k. k \<in> set ks \<longleftrightarrow> k < length (from_state t) \<and> (\<exists>j < len. node t k = (S ! j, sy j) \<and>
          start_symbol g \<le> sy j \<and> (\<forall>i. j < i \<longrightarrow> i < len \<longrightarrow> derives_empty g (sy i)))"
        "length ks = card (?V len)" by blast
      have "includes_back g t nl S (?b + Suc len) (Suc len) edge =
          (if length (edge @ k # ks) \<le> ?room then Inr (edge @ k # ks) else Inl BadAccess)"
        if "length edge \<le> ?room" for edge
        unfolding def rp Let_def
        using True var k(2) rec nl' that ks(1) [rule_format, of "edge @ [k]"] by (simp add: sy_def put_edge_def)
      then show ?thesis using ks(2,3) rec True one cV unfolding split V
        by (intro exI [of _ "k # ks"] conjI allI impI) (blast, simp only: set_simps insert_iff, blast, simp)
    next
      case stop: False
      have "includes_back g t nl S (?b + Suc len) (Suc len) edge =
          (if length (edge @ [k]) \<le> ?room then Inr (edge @ [k]) else Inl BadAccess)" for edge
        unfolding def rp Let_def using True var k(2) stop nl' by (auto simp: sy_def put_edge_def)
      moreover have "\<not> (derives_empty g (sy len) \<and> (\<exists>j < len. P j))" for P using stop by auto
      moreover have "?V (Suc len) = {len}" unfolding V using True stop by auto
      ultimately show ?thesis using True one unfolding split
        by (intro exI [of _ "[k]"] conjI allI impI) (blast, simp only: set_simps insert_iff, blast, simp)
    qed
  qed
qed

lemma rhs_syms_map:
  "rhs_syms g r = map (\<lambda>m. nat (ritem g ! (rrhs g ! r + m))) [0..<rrhs g ! Suc r - 1 - rrhs g ! r]"
  unfolding rhs_syms_def by (intro nth_equalityI) simp_all

lemma lr_path_prefix:
  assumes "\<forall>m < M. lr_trans g st (S ! m) (sy m) (S ! Suc m)" "j \<le> M" "S ! 0 < length (cores st)"
  shows "lr_path g st (S ! 0) (map sy [0..<j]) (S ! j)"
proof -
  have snoc: "lr_path g st p (Xs @ [X]) q" if "lr_path g st p Xs s" "lr_trans g st s X q" for p Xs X s q
    using that by (induction Xs arbitrary: p) (auto dest: transD(3))
  show ?thesis using assms(2)
  proof (induction j)
    case (Suc j)
    then show ?case using snoc [of "S ! 0" "map sy [0..<j]" "S ! j"] assms(1) by simp
  qed (simp add: assms(3))
qed

lemma split_at_iff:
  "map sy [0..<M] = \<beta> @ X # \<gamma> \<longleftrightarrow>
   (length \<beta> < M \<and> \<beta> = map sy [0..<length \<beta>] \<and> X = sy (length \<beta>) \<and> \<gamma> = map sy [Suc (length \<beta>)..<M])"
proof
  assume eq: "map sy [0..<M] = \<beta> @ X # \<gamma>"
  have l: "length \<beta> < M" using arg_cong [OF eq, of length] by simp
  then have "[0..<M] = [0..<length \<beta>] @ length \<beta> # [Suc (length \<beta>)..<M]"
    by (metis le0 less_imp_le upt_conv_Cons upt_split)
  with eq have "map sy [0..<length \<beta>] @ sy (length \<beta>) # map sy [Suc (length \<beta>)..<M] = \<beta> @ X # \<gamma>" by simp
  then show "length \<beta> < M \<and> \<beta> = map sy [0..<length \<beta>] \<and> X = sy (length \<beta>) \<and> \<gamma> = map sy [Suc (length \<beta>)..<M]"
    using l by simp
next
  assume r: "length \<beta> < M \<and> \<beta> = map sy [0..<length \<beta>] \<and> X = sy (length \<beta>) \<and> \<gamma> = map sy [Suc (length \<beta>)..<M]"
  then have "[0..<M] = [0..<length \<beta>] @ length \<beta> # [Suc (length \<beta>)..<M]"
    by (metis le0 less_imp_le upt_conv_Cons upt_split)
  then have "map sy [0..<M] = map sy [0..<length \<beta>] @ sy (length \<beta>) # map sy [Suc (length \<beta>)..<M]" by simp
  with r show "map sy [0..<M] = \<beta> @ X # \<gamma>" by metis
qed

text \<open>The goto \<open>x\<close> is included in the goto of \<open>p\<close> on the left-hand side of \<open>r\<close>.\<close>

definition inc_via :: "grammar \<Rightarrow> lr0_state \<Rightarrow> nat \<Rightarrow> nat \<Rightarrow> nat \<times> nat \<Rightarrow> bool" where
  "inc_via g st p r x \<longleftrightarrow> is_goto g st x \<and>
     (\<exists>\<beta> \<gamma>. rhs_syms g r = \<beta> @ snd x # \<gamma> \<and> (\<forall>s \<in> set \<gamma>. derives_empty g s) \<and> lr_path g st p \<beta> (fst x))"

definition reduces :: "grammar \<Rightarrow> lr0_state \<Rightarrow> lalr_tables \<Rightarrow> nat \<Rightarrow> nat \<Rightarrow> nat \<Rightarrow> bool" where
  "reduces g st t p r l \<longleftrightarrow> (\<exists>q. lr_path g st p (rhs_syms g r) q \<and> la_index t q r l)"

text \<open>
  How many entries of \<^verbatim>\<open>edge\<close> a rule takes: one for each nonterminal with nothing but nullable symbols behind it;
  and how many the gotos on \<open>A\<close> take.
\<close>

definition back_vars :: "grammar \<Rightarrow> nat \<Rightarrow> nat" where
  "back_vars g r = card {j. j < length (rhs_syms g r) \<and> start_symbol g \<le> rhs_syms g r ! j \<and>
     (\<forall>i. j < i \<longrightarrow> i < length (rhs_syms g r) \<longrightarrow> derives_empty g (rhs_syms g r ! i))}"

definition edge_count :: "grammar \<Rightarrow> nat \<Rightarrow> nat" where
  "edge_count g A = sum_list (map (back_vars g) (rules_of g A))"

lemma relate_rule_correct:
  assumes wf: "wf_grammar g" and E: "automaton g st" and T: "tables_ok g st t" and nl: "nullable_ok g nl"
    and B: "start_symbol g \<le> B" "lr_trans g st p B q0" and r: "r \<in> set (rules_of g B)"
    and edge: "length edge \<le> length (from_state t) + 1"
  shows "\<exists>ks l. relate_rule g t nl i p r (edge, lookback) =
      (if length edge + back_vars g r \<le> length (from_state t) + 1
       then Inr (edge @ ks, lookback[l := i # lookback ! l]) else Inl BadAccess) \<and>
    length ks = back_vars g r \<and> l < length (LAruleno t) \<and> (\<forall>k. reduces g st t p r k \<longleftrightarrow> k = l) \<and>
    (\<forall>k. k \<in> set ks \<longleftrightarrow> k < length (from_state t) \<and> inc_via g st p r (node t k))"
proof -
  have rB: "r < nrules g" "rlhs g ! r = B" using r by (simp_all add: set_rules_of)
  note R = goto_rule_item [OF wf E B(2) rB B(1)]
  define b where "b = rrhs g ! r"
  define e where "e = rrhs g ! Suc r - 1"
  define M where "M = e - b"
  define sy where "sy = (\<lambda>m. nat (ritem g ! (b + m)))"
  have p: "p < length (cores st)" by (rule transD(1) [OF B(2)])
  have be: "b \<le> e" using wf_ruleD(3) [OF wf R(2) rB(1)] by (simp add: b_def e_def)
  have syms: "rhs_syms g r = map sy [0..<M]" unfolding rhs_syms_map sy_def M_def b_def e_def ..
  have "map (\<lambda>i. nat (ritem g ! i)) [b..<e] = map sy [0..<M]"
    using be by (intro nth_equalityI) (simp_all add: sy_def M_def)
  with walk_rule_correct [OF wf E T R(2) rB(1) order_refl _ p R(1), of "[p]", folded e_def b_def, OF be]
  obtain ss q where W: "walk_rule g t b [p] p = Inr (p # ss, q, e)" "length ss = M" "q < length (cores st)"
    "e \<in> set (state_items g st q)" "\<forall>m < M. lr_trans g st ((p # ss) ! m) (sy m) (ss ! m)"
    "lr_path g st p (map sy [0..<M]) q"
    unfolding sy_def M_def by auto
  have "r \<in> set (rules_at g st q)"
    using rules_at_distinct(2) [OF wf E W(3), of r] R(2) rB(1) W(4) by (simp add: e_def)
  from add_lookback_edge_correct [OF wf E T W(3) this] obtain l where
    l: "l < length (LAruleno t)" "add_lookback_edge t q r i lookback = Inr (lookback[l := i # lookback ! l])"
    "la_index t q r l" "\<forall>k. la_index t q r k \<longrightarrow> k = l" by blast
  let ?S = "p # ss"
  have steps: "\<forall>m < M. lr_trans g st (?S ! m) (sy m) (?S ! Suc m)" using W(5) by simp
  note IB = includes_back_correct [OF wf E T nl R(2) rB(1), of M ?S M, folded b_def, folded e_def, folded M_def,
    OF steps [unfolded sy_def] refl order_refl]
  have eM: "b + M = e" using be by (simp add: M_def)
  from IB [unfolded eM] edge obtain ks where ks: "includes_back g t nl ?S e M edge =
      (if length (edge @ ks) \<le> length (from_state t) + 1 then Inr (edge @ ks) else Inl BadAccess)"
    "\<forall>k. k \<in> set ks \<longleftrightarrow> k < length (from_state t) \<and> (\<exists>j < M. node t k = (?S ! j, sy j) \<and>
       start_symbol g \<le> sy j \<and> (\<forall>i. j < i \<longrightarrow> i < M \<longrightarrow> derives_empty g (sy i)))"
    "length ks = card {j. j < M \<and> start_symbol g \<le> sy j \<and> (\<forall>i. j < i \<longrightarrow> i < M \<longrightarrow> derives_empty g (sy i))}"
    unfolding sy_def by blast
  have "{j. j < M \<and> start_symbol g \<le> sy j \<and> (\<forall>i. j < i \<longrightarrow> i < M \<longrightarrow> derives_empty g (sy i))} =
      {j. j < length (rhs_syms g r) \<and> start_symbol g \<le> rhs_syms g r ! j \<and>
        (\<forall>i. j < i \<longrightarrow> i < length (rhs_syms g r) \<longrightarrow> derives_empty g (rhs_syms g r ! i))}"
    unfolding syms by auto
  then have num: "length ks = back_vars g r" unfolding ks(3) back_vars_def by (rule arg_cong)
  have "relate_rule g t nl i p r (edge, lookback) = (if length edge + back_vars g r \<le> length (from_state t) + 1
      then Inr (edge @ ks, lookback[l := i # lookback ! l]) else Inl BadAccess)"
    using W(1,2) l(2) ks(1) num by (simp add: relate_rule_def b_def [symmetric])
  moreover have "reduces g st t p r k \<longleftrightarrow> k = l" for k
    using W(6) l(3,4) lr_path_unique [OF E W(6)] unfolding reduces_def syms by blast
  moreover have "(\<exists>j < M. x = (?S ! j, sy j) \<and> start_symbol g \<le> sy j \<and>
      (\<forall>i. j < i \<longrightarrow> i < M \<longrightarrow> derives_empty g (sy i))) \<longleftrightarrow> inc_via g st p r x" (is "?L x \<longleftrightarrow> _") for x
  proof
    assume "?L x"
    then obtain j where j: "j < M" "x = (?S ! j, sy j)" "start_symbol g \<le> sy j"
      "\<forall>i. j < i \<longrightarrow> i < M \<longrightarrow> derives_empty g (sy i)" by blast
    have "is_goto g st x" using j(1-3) steps by (auto simp: is_goto_def)
    moreover have "map sy [0..<M] = map sy [0..<j] @ snd x # map sy [Suc j..<M]"
      using j(1,2) by (subst split_at_iff) simp
    moreover have "\<forall>s \<in> set (map sy [Suc j..<M]). derives_empty g s" using j(4) by auto
    moreover have "lr_path g st p (map sy [0..<j]) (fst x)"
      using lr_path_prefix [OF steps less_imp_le [OF j(1)]] p j(2) by simp
    ultimately show "inc_via g st p r x" unfolding inc_via_def syms by blast
  next
    assume "inc_via g st p r x"
    then obtain \<beta> \<gamma> where x: "is_goto g st x" "map sy [0..<M] = \<beta> @ snd x # \<gamma>"
      "\<forall>s \<in> set \<gamma>. derives_empty g s" "lr_path g st p \<beta> (fst x)" unfolding inc_via_def syms by blast
    let ?j = "length \<beta>"
    from x(2) have j: "?j < M" "\<beta> = map sy [0..<?j]" "snd x = sy ?j" "\<gamma> = map sy [Suc ?j..<M]"
      unfolding split_at_iff by blast+
    have "lr_path g st p (map sy [0..<?j]) (?S ! ?j)"
      using lr_path_prefix [OF steps less_imp_le [OF j(1)]] p by simp
    then have "lr_path g st p \<beta> (?S ! ?j)" using j(2) by simp
    then have "fst x = ?S ! ?j" using lr_path_unique [OF E x(4)] by blast
    then have "x = (?S ! ?j, sy ?j)" using j(3) by (simp add: prod_eq_iff)
    moreover have "start_symbol g \<le> sy ?j" using x(1) j(3) by (simp add: is_goto_def)
    moreover have "derives_empty g (sy i)" if "?j < i" "i < M" for i
    proof -
      have "i \<in> set [Suc ?j..<M]" using that by simp
      then have "sy i \<in> set \<gamma>" unfolding j(4) set_map by (rule imageI)
      with x(3) show ?thesis by blast
    qed
    ultimately show "?L x" using j(1) by blast
  qed
  ultimately show ?thesis using l(1) ks(2) num by (intro exI [of _ ks] exI [of _ l]) simp
qed

lemma relate_rules_correct:
  assumes wf: "wf_grammar g" and E: "automaton g st" and T: "tables_ok g st t" and nl: "nullable_ok g nl"
    and B: "start_symbol g \<le> B" "lr_trans g st p B q0" and "set rs \<subseteq> set (rules_of g B)"
    and "length lookback = length (LAruleno t)" and "length edge \<le> length (from_state t) + 1"
  shows "if length (from_state t) + 1 < length edge + sum_list (map (back_vars g) rs)
    then fold_sum (relate_rule g t nl i p) rs (edge, lookback) = Inl BadAccess
    else \<exists>edge' lookback'. fold_sum (relate_rule g t nl i p) rs (edge, lookback) = Inr (edge', lookback') \<and>
      length edge' = length edge + sum_list (map (back_vars g) rs) \<and>
      length lookback' = length (LAruleno t) \<and>
      (\<forall>k. k \<in> set edge' \<longleftrightarrow> k \<in> set edge \<or> k < length (from_state t) \<and> (\<exists>r \<in> set rs. inc_via g st p r (node t k))) \<and>
      (\<forall>l < length (LAruleno t). set (lookback' ! l) =
         set (lookback ! l) \<union> (if \<exists>r \<in> set rs. reduces g st t p r l then {i} else {}))"
  using assms(7-9)
proof (induction rs arbitrary: edge lookback)
  case (Cons r rs)
  have rB: "r \<in> set (rules_of g B)" and tl: "set rs \<subseteq> set (rules_of g B)" using Cons.prems(1) by simp_all
  from relate_rule_correct [OF wf E T nl B rB Cons.prems(3), of i lookback] obtain ks l where
    S0: "relate_rule g t nl i p r (edge, lookback) =
      (if length edge + back_vars g r \<le> length (from_state t) + 1
       then Inr (edge @ ks, lookback[l := i # lookback ! l]) else Inl BadAccess)" "length ks = back_vars g r"
    and S: "l < length (LAruleno t)" "\<forall>k. reduces g st t p r k \<longleftrightarrow> k = l"
    "\<forall>k. k \<in> set ks \<longleftrightarrow> k < length (from_state t) \<and> inc_via g st p r (node t k)" by blast
  show ?case
  proof (cases "length (from_state t) + 1 < length edge + sum_list (map (back_vars g) (r # rs))")
    case over: True
    show ?thesis
    proof (cases "length edge + back_vars g r \<le> length (from_state t) + 1")
      case True
      then have "length (edge @ ks) \<le> length (from_state t) + 1" using S0(2) by simp
      from Cons.IH [OF tl _ this, of "lookback[l := i # lookback ! l]"] Cons.prems(2) over True S0 show ?thesis by simp
    next
      case False
      with over S0(1) show ?thesis by simp
    qed
  next
    case fit: False
    then have one: "length edge + back_vars g r \<le> length (from_state t) + 1" by simp
    have len: "length (lookback[l := i # lookback ! l]) = length (LAruleno t)" using Cons.prems(2) by simp
    have "length (edge @ ks) \<le> length (from_state t) + 1" using S0(2) one by simp
    from Cons.IH [OF tl len this] fit S0(2) obtain edge' lookback' where
      I: "fold_sum (relate_rule g t nl i p) rs (edge @ ks, lookback[l := i # lookback ! l]) = Inr (edge', lookback')"
      "length lookback' = length (LAruleno t)"
      "\<forall>k. k \<in> set edge' \<longleftrightarrow> k \<in> set (edge @ ks) \<or>
        k < length (from_state t) \<and> (\<exists>r \<in> set rs. inc_via g st p r (node t k))"
      "\<forall>m < length (LAruleno t). set (lookback' ! m) =
         set (lookback[l := i # lookback ! l] ! m) \<union> (if \<exists>r \<in> set rs. reduces g st t p r m then {i} else {})"
      "length edge' = length edge + sum_list (map (back_vars g) (r # rs))" by auto
    have "set (lookback' ! m) = set (lookback ! m) \<union> (if \<exists>r \<in> set (r # rs). reduces g st t p r m then {i} else {})"
      if "m < length (LAruleno t)" for m
      using I(4) [rule_format, OF that] S(1,2) Cons.prems(2) by (cases "m = l") auto
    moreover have "k \<in> set edge' \<longleftrightarrow> k \<in> set edge \<or>
        k < length (from_state t) \<and> (\<exists>r \<in> set (r # rs). inc_via g st p r (node t k))" for k
      using I(3) [rule_format, of k] S(3) [rule_format, of k] by auto
    ultimately show ?thesis using S0(1) one fit I(1,2,5)
      by (simp only: if_False fold_sum.simps if_True sum.case) (intro exI [of _ edge'] exI [of _ lookback'], simp)
  qed
qed simp

lemma build_rows:
  assumes wf: "wf_grammar g" and E: "automaton g st" and T: "tables_ok g st t" and nl: "nullable_ok g nl"
    and m: "m \<le> length (from_state t)"
  defines "n \<equiv> length (from_state t)" and "L \<equiv> length (LAruleno t)"
  shows "if \<exists>x < m. n + 1 < edge_count g (snd (node t x))
    then fold_sum (relate_goto g (set_derives g) t nl) [0..<m] (replicate n [], replicate L []) = Inl BadAccess
    else \<exists>inc lb. fold_sum (relate_goto g (set_derives g) t nl) [0..<m] (replicate n [], replicate L []) = Inr (inc, lb) \<and>
      length inc = n \<and> length lb = L \<and> (\<forall>x < m. length (inc ! x) = edge_count g (snd (node t x))) \<and>
      (\<forall>x < n. set (inc ! x) = (if x < m
         then {k. k < n \<and> (\<exists>r \<in> set (rules_of g (snd (node t x))). inc_via g st (fst (node t x)) r (node t k))} else {})) \<and>
      (\<forall>l < L. set (lb ! l) = {x. x < m \<and> (\<exists>r \<in> set (rules_of g (snd (node t x))). reduces g st t (fst (node t x)) r l)})"
  using m
proof (induction m)
  case 0
  then show ?case by simp
next
  case (Suc m)
  then have mn: "m < length (from_state t)" and mle: "m \<le> length (from_state t)" by simp_all
  let ?p = "fst (node t m)" and ?B = "snd (node t m)"
  have tr: "lr_trans g st ?p ?B (to_state t ! m)" and B: "start_symbol g \<le> ?B"
    using node_trans [OF E T mn] by (simp_all add: is_goto_def)
  have dr: "derive_row (set_derives g) ?B = rules_of g ?B"
    by (rule derive_row_set_derives [OF wf B transD(5) [OF tr]])
  have step: "relate_goto g (set_derives g) t nl m (inc, lb) =
      (case fold_sum (relate_rule g t nl m ?p) (rules_of g ?B) ([], lb) of
         Inl e \<Rightarrow> Inl e | Inr (edge, lookback') \<Rightarrow> Inr (inc[m := edge], lookback'))" for inc lb
    using dr by (simp add: relate_goto_def node_def Let_def)
  note RR = relate_rules_correct [OF wf E T nl B tr order_refl, of _ "[]" m, folded edge_count_def]
  show ?case
  proof (cases "\<exists>x < m. n + 1 < edge_count g (snd (node t x))")
    case True
    with Suc.IH [OF mle] have "\<exists>x < Suc m. n + 1 < edge_count g (snd (node t x))"
      "fold_sum (relate_goto g (set_derives g) t nl) [0..<m] (replicate n [], replicate L []) = Inl BadAccess"
      by (auto simp: less_Suc_eq)
    then show ?thesis by (simp add: fold_sum_append)
  next
    case no: False
    from Suc.IH [OF mle, unfolded if_not_P [OF no]] obtain inc lb where I:
      "fold_sum (relate_goto g (set_derives g) t nl) [0..<m] (replicate n [], replicate L []) = Inr (inc, lb)"
      "length inc = n" "length lb = L"
      "\<forall>x < n. set (inc ! x) = (if x < m
         then {k. k < n \<and> (\<exists>r \<in> set (rules_of g (snd (node t x))). inc_via g st (fst (node t x)) r (node t k))} else {})"
      "\<forall>l < L. set (lb ! l) = {x. x < m \<and> (\<exists>r \<in> set (rules_of g (snd (node t x))). reduces g st t (fst (node t x)) r l)}"
      "\<forall>x < m. length (inc ! x) = edge_count g (snd (node t x))"
      by blast
    have lbl: "length lb = length (LAruleno t)" "length ([] :: nat list) \<le> length (from_state t) + 1"
      using I(3) by (simp_all add: L_def)
    show ?thesis
    proof (cases "n + 1 < edge_count g ?B")
      case True
      then have "\<exists>x < Suc m. n + 1 < edge_count g (snd (node t x))" by blast
      with RR [OF lbl] True I(1) step show ?thesis by (simp add: fold_sum_append n_def)
    next
      case fit: False
      with RR [OF lbl] obtain edge' lb' where
        F: "fold_sum (relate_rule g t nl m ?p) (rules_of g ?B) ([], lb) = Inr (edge', lb')" "length lb' = L"
        "\<forall>k. k \<in> set edge' \<longleftrightarrow> k < n \<and> (\<exists>r \<in> set (rules_of g ?B). inc_via g st ?p r (node t k))"
        "\<forall>l < L. set (lb' ! l) = set (lb ! l) \<union> (if \<exists>r \<in> set (rules_of g ?B). reduces g st t ?p r l then {m} else {})"
        "length edge' = edge_count g ?B"
        unfolding n_def L_def by auto
      have "relate_goto g (set_derives g) t nl m (inc, lb) = Inr (inc[m := edge'], lb')" using step F(1) by simp
      then have "fold_sum (relate_goto g (set_derives g) t nl) [0..<Suc m] (replicate n [], replicate L []) =
          Inr (inc[m := edge'], lb')" using I(1) by (simp add: fold_sum_append)
      moreover have "set (inc[m := edge'] ! x) = (if x < Suc m
          then {k. k < n \<and> (\<exists>r \<in> set (rules_of g (snd (node t x))). inc_via g st (fst (node t x)) r (node t k))} else {})"
        if "x < n" for x
        using I(4) [rule_format, OF that] F(3) I(2) mn that by (cases "x = m") (auto simp: n_def)
      moreover have "set (lb' ! l) = {x. x < Suc m \<and>
          (\<exists>r \<in> set (rules_of g (snd (node t x))). reduces g st t (fst (node t x)) r l)}" if "l < L" for l
        using I(5) [rule_format, OF that] F(4) [rule_format, OF that] by (auto simp: less_Suc_eq)
      moreover have "length (inc[m := edge'] ! x) = edge_count g (snd (node t x))" if "x < Suc m" for x
        using I(2,6) F(5) mn that by (cases "x = m") (auto simp: n_def)
      moreover have "\<not> (\<exists>x < Suc m. n + 1 < edge_count g (snd (node t x)))" using no fit by (auto simp: less_Suc_eq)
      ultimately show ?thesis using F(2) I(2)
        by (simp only: if_False) (intro exI [of _ "inc[m := edge']"] exI [of _ lb'], simp)
    qed
  qed
qed

text \<open>
  When the analysis leaves its arrays: the gotos on some nonterminal take more entries of \<^verbatim>\<open>edge\<close> than there are; and
  what has to be the case when a number leaves its \<^verbatim>\<open>short\<close>: there are too many reductions, gotos or edges in all.
\<close>

definition edge_overflow :: "grammar \<Rightarrow> lr0_state \<Rightarrow> bool" where
  "edge_overflow g st \<longleftrightarrow> (\<exists>x \<in> gotos g st. card (gotos g st) + 1 < edge_count g (snd x))"

definition beyond_shorts :: "grammar \<Rightarrow> lr0_state \<Rightarrow> bool" where
  "beyond_shorts g st \<longleftrightarrow>
     MAXSHORT < (\<Sum>q<length (cores st). length (rules_at g st q)) \<or>
     MAXSHORT < card (gotos g st) + 2 \<or>
     MAXSHORT < (\<Sum>x \<in> gotos g st. edge_count g (snd x))"

lemma edge_overflow_node:
  assumes wf: "wf_grammar g" and E: "automaton g st" and T: "tables_ok g st t"
  shows "edge_overflow g st \<longleftrightarrow> (\<exists>x < length (from_state t). length (from_state t) + 1 < edge_count g (snd (node t x)))"
  using bij_betw_imp_surj_on [OF gotos_bij [OF assms], symmetric] card_gotos [OF assms]
  by (auto simp: edge_overflow_def)

lemma build_relations_correct:
  assumes wf: "wf_grammar g" and E: "automaton g st" and T: "tables_ok g st t" and nl: "nullable_ok g nl"
  shows "build_relations g (set_derives g) t nl = Inl BadAccess \<and> edge_overflow g st \<or>
    build_relations g (set_derives g) t nl = Inl OutOfShort \<and> beyond_shorts g st \<or>
    (\<exists>inc lb. build_relations g (set_derives g) t nl = Inr (inc, lb) \<and> \<not> edge_overflow g st \<and>
    represents t inc (includes_rel g st) \<and> length lb = length (LAruleno t) \<and>
    (\<forall>l < length lb. set (lb ! l) =
       {x. x < length (from_state t) \<and> (\<exists>q r. la_index t q r l \<and> node t x \<in> lookback_rel g st q r)}))"
proof -
  let ?n = "length (from_state t)"
  note rows = build_rows [OF wf E T nl order_refl] and over = edge_overflow_node [OF wf E T]
  show ?thesis
  proof (cases "edge_overflow g st")
    case True
    with rows over have "fold_sum (relate_goto g (set_derives g) t nl) [0..<?n]
      (replicate ?n [], replicate (length (LAruleno t)) []) = Inl BadAccess" by simp
    with True show ?thesis by (simp add: build_relations_def Let_def)
  next
    case no: False
    from rows [unfolded over [symmetric], unfolded if_not_P [OF no]] obtain inc lb where
      I: "fold_sum (relate_goto g (set_derives g) t nl) [0..<?n]
        (replicate ?n [], replicate (length (LAruleno t)) []) = Inr (inc, lb)"
      "length inc = ?n" "length lb = length (LAruleno t)"
      "\<forall>x < ?n. set (inc ! x) = (if x < ?n
         then {k. k < ?n \<and> (\<exists>r \<in> set (rules_of g (snd (node t x))). inc_via g st (fst (node t x)) r (node t k))} else {})"
      "\<forall>l < length (LAruleno t). set (lb ! l) =
         {x. x < ?n \<and> (\<exists>r \<in> set (rules_of g (snd (node t x))). reduces g st t (fst (node t x)) r l)}"
      "\<forall>x < ?n. length (inc ! x) = edge_count g (snd (node t x))"
      by blast
    have raw: "k \<in> set (inc ! x) \<longleftrightarrow> (node t k, node t x) \<in> includes_rel g st" if "x < ?n" "k < ?n" for x k
      using I(4) that node_trans(2) [OF E T] by (auto simp: includes_rel_def inc_via_def set_rules_of)
    have lt: "\<forall>i < ?n. \<forall>j \<in> set (inc ! i). j < ?n" using I(4) by auto
    note tr = transpose_rows_correct [OF I(2) lt]
    have rep: "represents t (transpose_rows inc ?n) (includes_rel g st)"
      unfolding represents_def tr(1) using tr(2) raw by auto
    have sum: "(\<Sum>i<?n. length (inc ! i)) = (\<Sum>x \<in> gotos g st. edge_count g (snd x))"
      using I(6) by (subst sum.reindex_bij_betw [OF gotos_bij [OF wf E T], symmetric]) (rule sum.cong, simp_all)
    have eq: "(\<exists>r \<in> set (rules_of g (snd (node t x))). reduces g st t (fst (node t x)) r l) \<longleftrightarrow>
        (\<exists>q r. la_index t q r l \<and> node t x \<in> lookback_rel g st q r)"
      if x: "x < ?n" and l: "l < length (LAruleno t)" for x l
    proof
      assume "\<exists>r \<in> set (rules_of g (snd (node t x))). reduces g st t (fst (node t x)) r l"
      then obtain r q where "rlhs g ! r = snd (node t x)"
        "lr_path g st (fst (node t x)) (rhs_syms g r) q" "la_index t q r l"
        by (auto simp: reduces_def set_rules_of)
      then show "\<exists>q r. la_index t q r l \<and> node t x \<in> lookback_rel g st q r"
        using node_trans(2) [OF E T x] by (intro exI [of _ q] exI [of _ r]) (simp add: lookback_rel_def)
    next
      assume "\<exists>q r. la_index t q r l \<and> node t x \<in> lookback_rel g st q r"
      then obtain q r where q: "la_index t q r l" "snd (node t x) = rlhs g ! r"
        "lr_path g st (fst (node t x)) (rhs_syms g r) q" by (auto simp: lookback_rel_def)
      have "r = LAruleno t ! l" using q(1) by (simp add: la_index_def)
      then have "r \<in> set (LAruleno t)" using l by simp
      then obtain p where "p < length (cores st)" "r \<in> set (rules_at g st p)"
        using T by (auto simp: tables_ok_def)
      with rules_at_distinct(2) [OF wf E] have "r < nrules g" by blast
      with q show "\<exists>r \<in> set (rules_of g (snd (node t x))). reduces g st t (fst (node t x)) r l"
        by (auto simp: reduces_def set_rules_of)
    qed
    have "set (lb ! l) = {x. x < ?n \<and> (\<exists>q r. la_index t q r l \<and> node t x \<in> lookback_rel g st q r)}"
      if l: "l < length lb" for l
    proof -
      have lL: "l < length (LAruleno t)" using l I(3) by simp
      show ?thesis
        unfolding I(5) [rule_format, OF lL] by (rule Collect_cong, rule conj_cong [OF refl eq [OF _ lL]])
    qed
    with I(1,3) rep no transpose_relation_cases [OF I(2) lt] show ?thesis
      unfolding sum by (auto simp: build_relations_def Let_def beyond_shorts_def)
  qed
qed

section \<open>The look-ahead sets\<close>

definition reach_union :: "('a \<times> 'a) set \<Rightarrow> ('a \<Rightarrow> nat set) \<Rightarrow> 'a \<Rightarrow> nat set" where
  "reach_union r D x = (\<Union>y \<in> {y. (x, y) \<in> r\<^sup>*}. D y)"

text \<open>DeRemer and Pennello's \<open>Read\<close>, \<open>Follow\<close> and \<open>LA\<close>.\<close>

definition read_set :: "grammar \<Rightarrow> lr0_state \<Rightarrow> nat \<times> nat \<Rightarrow> nat set" where
  "read_set g st = reach_union (reads_rel g st) (direct_reads g st)"

definition follow_set :: "grammar \<Rightarrow> lr0_state \<Rightarrow> nat \<times> nat \<Rightarrow> nat set" where
  "follow_set g st = reach_union (includes_rel g st) (read_set g st)"

definition LALR_set :: "grammar \<Rightarrow> lr0_state \<Rightarrow> nat \<Rightarrow> nat \<Rightarrow> nat set" where
  "LALR_set g st q r = (\<Union>x \<in> lookback_rel g st q r. follow_set g st x)"

lemma digraph_represents:
  assumes wf: "wf_grammar g" and E: "automaton g st" and T: "tables_ok g st t"
    and R: "represents t R r" and r: "\<forall>x y. (x, y) \<in> r \<longrightarrow> is_goto g st y"
    and F: "length fw = length (from_state t) * w" "\<forall>x < length (from_state t). rowset fw (x * w) w = D (node t x)"
  shows "digraph (length (from_state t)) w R fw = Some (Inl OutOfShort) \<and> beyond_shorts g st \<or>
    (\<exists>fw'. digraph (length (from_state t)) w R fw = Some (Inr fw') \<and> length fw' = length (from_state t) * w \<and>
    (\<forall>x < length (from_state t). rowset fw' (x * w) w = reach_union r D (node t x)))"
proof -
  let ?n = "length (from_state t)"
  have len: "length R = ?n" and ok: "relation_ok R w fw"
    using R F(1) unfolding represents_def relation_ok_def by (blast, metis)
  show ?thesis
  proof (cases "length R + 2 \<le> MAXSHORT \<or> (\<forall>i < length R. R ! i = [])")
    case False
    then have "digraph (length R) w R fw = Some (Inl OutOfShort)" using digraph_overflow [of R] by fastforce
    moreover have "beyond_shorts g st" using False len card_gotos [OF wf E T] by (simp add: beyond_shorts_def)
    ultimately show ?thesis using len by simp
  next
    case True
    from digraph_correct [OF ok True] obtain fw' where fw':
      "digraph ?n w R fw = Some (Inr fw')" "length fw' = length fw" "\<forall>i < ?n. rowset fw' (i * w) w = union_of R w fw i"
      unfolding len by blast
    have "union_of R w fw i = reach_union r D (node t i)" if i: "i < ?n" for i
    proof -
      have iR: "i < length R" using i len by simp
      note rt = represents_rtrancl [OF wf E T R r iR]
      show ?thesis
      proof (intro set_eqI iffI)
        fix s assume "s \<in> union_of R w fw i"
        then obtain j where j: "(i, j) \<in> (edges R)\<^sup>*" "s \<in> rowset fw (j * w) w" by (auto simp: union_of_def)
        then have "j < ?n" "(node t i, node t j) \<in> r\<^sup>*" using rt len by auto
        with j(2) F(2) show "s \<in> reach_union r D (node t i)" unfolding reach_union_def by blast
      next
        fix s assume "s \<in> reach_union r D (node t i)"
        then obtain y where y: "(node t i, y) \<in> r\<^sup>*" "s \<in> D y" by (auto simp: reach_union_def)
        have "is_goto g st y" using y(1) node_trans(2) [OF E T i] r by (metis rtranclE)
        from is_goto_node [OF wf E T this] obtain j where j: "j < ?n" "node t j = y" by blast
        with y(1) have "(i, j) \<in> (edges R)\<^sup>*" using rt len by simp
        moreover have "s \<in> rowset fw (j * w) w" using F(2) j y(2) by simp
        ultimately show "s \<in> union_of R w fw i" by (auto simp: union_of_def)
      qed
    qed
    with fw' F(1) show ?thesis by auto
  qed
qed

lemma compute_lookaheads_rows:
  fixes g :: grammar
  assumes "\<forall>l < length lb. \<forall>v \<in> set (lb ! l). v < n" "l < length lb"
  defines "w \<equiv> WORDSIZE (ntokens g)"
  shows "length (compute_lookaheads g lb fw) = length lb * w"
    "rowset (compute_lookaheads g lb fw) (l * w) w = (\<Union>v \<in> set (lb ! l). rowset fw (v * w) w)"
proof -
  let ?L = "length lb"
  have inner: "length (fold (\<lambda>v LA. or_from w LA (i * w) fw (w * v)) vs LA) = length LA \<and>
      (\<forall>x. rowset (fold (\<lambda>v LA. or_from w LA (i * w) fw (w * v)) vs LA) (x * w) w =
        rowset LA (x * w) w \<union> (if x = i then \<Union>v \<in> set vs. rowset fw (v * w) w else {}))"
    if "i < ?L" "length LA = ?L * w" for i vs LA
    using that(2)
  proof (induction vs arbitrary: LA)
    case (Cons v vs)
    have "length (or_from w LA (i * w) fw (w * v)) = ?L * w" using Cons.prems by simp
    from Cons.IH [OF this] rowset_or_from [OF that(1) Cons.prems, of fw "w * v"] show ?case
      by (auto simp: mult.commute)
  qed simp
  have outer: "length (fold (\<lambda>i. fold (\<lambda>v LA. or_from w LA (i * w) fw (w * v)) (lb ! i)) [0..<m] (replicate (?L * w) 0)) = ?L * w \<and>
      (\<forall>x < ?L. rowset (fold (\<lambda>i. fold (\<lambda>v LA. or_from w LA (i * w) fw (w * v)) (lb ! i)) [0..<m] (replicate (?L * w) 0)) (x * w) w =
        (if x < m then \<Union>v \<in> set (lb ! x). rowset fw (v * w) w else {}))" if "m \<le> ?L" for m
    using that
  proof (induction m)
    case 0
    have "x * w + w \<le> ?L * w" if "x < ?L" for x using row_end that by blast
    then show ?case by simp
  next
    case (Suc m)
    let ?A = "fold (\<lambda>i. fold (\<lambda>v LA. or_from w LA (i * w) fw (w * v)) (lb ! i)) [0..<m] (replicate (?L * w) 0)"
    have I: "length ?A = ?L * w" "\<forall>x < ?L. rowset ?A (x * w) w = (if x < m then \<Union>v \<in> set (lb ! x). rowset fw (v * w) w else {})"
      using Suc by simp_all
    have "m < ?L" using Suc.prems by simp
    from inner [OF this I(1), of "lb ! m"] I show ?case by (auto simp: less_Suc_eq)
  qed
  show "length (compute_lookaheads g lb fw) = length lb * w"
    using outer [OF order_refl] by (simp add: compute_lookaheads_def w_def Let_def)
  show "rowset (compute_lookaheads g lb fw) (l * w) w = (\<Union>v \<in> set (lb ! l). rowset fw (v * w) w)"
    using outer [OF order_refl] assms(2) by (simp add: compute_lookaheads_def w_def Let_def)
qed

lemma la_index_inj:
  assumes T: "tables_ok g st t" and q: "q < length (cores st)" and "la_index t q r l" "la_index t p s l"
  shows "lookback_rel g st p s \<subseteq> lookback_rel g st q r"
proof
  fix x assume x: "x \<in> lookback_rel g st p s"
  have path: "lr_path g st a Xs b \<Longrightarrow> b < length (cores st)" for a Xs b
    by (induction Xs arbitrary: a) auto
  have p: "p < length (cores st)" using x path by (auto simp: lookback_rel_def)
  have mono: "lookaheads t ! a \<le> lookaheads t ! b" if "a \<le> b" "b \<le> length (cores st)" for a b
    using that
  proof (induction b rule: dec_induct)
    case (step b)
    then show ?case using la_row(1) [OF T, of b] by simp
  qed simp
  have "\<not> q < p" using mono [of "Suc q" p] assms(3,4) p by (auto simp: la_index_def Suc_le_eq)
  moreover have "\<not> p < q" using mono [of "Suc p" q] assms(3,4) q by (auto simp: la_index_def Suc_le_eq)
  ultimately have "p = q" by simp
  moreover have "r = s" using assms(3,4) by (simp add: la_index_def)
  ultimately show "x \<in> lookback_rel g st q r" using x by simp
qed

text \<open>The result of the analysis on every automaton.\<close>

theorem lalr_correct:
  assumes wf: "wf_grammar g" and E: "automaton g st" and nl: "nullable_ok g nl"
  defines "w \<equiv> WORDSIZE (ntokens g)"
  shows "lalr g (set_derives g) nl st = Some (Inl (Fatal ''too many gotos'')) \<or>
    lalr g (set_derives g) nl st = Some (Inl BadAccess) \<and> edge_overflow g st \<or>
    lalr g (set_derives g) nl st = Some (Inl OutOfShort) \<and> beyond_shorts g st \<or>
    (\<exists>t LA. lalr g (set_derives g) nl st = Some (Inr (t, LA)) \<and> \<not> edge_overflow g st \<and> tables_ok g st t \<and>
       length LA = length (LAruleno t) * w \<and>
       (\<forall>q < length (cores st). \<forall>r l. la_index t q r l \<longrightarrow> rowset LA (l * w) w = LALR_set g st q r))"
proof -
  have "length (concat (map (rules_at g st) [0..<length (cores st)])) = (\<Sum>q<length (cores st). length (rules_at g st q))"
    by (simp add: length_concat comp_def interv_sum_list_conv_sum_set_nat lessThan_atLeast0)
  with lalr_init_correct [OF wf E] consider "lalr_init g st = Inl (Fatal ''too many gotos'')"
    | "lalr_init g st = Inl OutOfShort" "beyond_shorts g st"
    | t where "lalr_init g st = Inr t" "tables_ok g st t" by (auto simp: beyond_shorts_def)
  then show ?thesis
  proof cases
    case 1
    then show ?thesis by (simp add: lalr_def)
  next
    case 2
    then show ?thesis by (simp add: lalr_def)
  next
    case (3 t)
    note T = 3(2)
    let ?n = "length (from_state t)"
    from initialize_F_correct [OF wf E T nl, folded w_def] obtain fw reads where
      F: "initialize_F g t nl = Inr (fw, reads)" "length fw = ?n * w" "represents t reads (reads_rel g st)"
      "\<forall>x < ?n. rowset fw (x * w) w = direct_reads g st (node t x)" by blast
    have "\<forall>x y. (x, y) \<in> reads_rel g st \<longrightarrow> is_goto g st y" by (simp add: reads_rel_def)
    from digraph_represents [OF wf E T F(3) this F(2,4)] consider
      "digraph ?n w reads fw = Some (Inl OutOfShort)" "beyond_shorts g st"
      | fw1 where "digraph ?n w reads fw = Some (Inr fw1)" "length fw1 = ?n * w"
        "\<forall>x < ?n. rowset fw1 (x * w) w = read_set g st (node t x)" unfolding read_set_def by blast
    then show ?thesis
    proof cases
      case 1
      then show ?thesis using 3(1) F(1) by (simp add: lalr_def Let_def w_def)
    next
      case D1: (2 fw1)
      from build_relations_correct [OF wf E T nl] consider
        (bad) "build_relations g (set_derives g) t nl = Inl BadAccess" "edge_overflow g st"
        | (short) "build_relations g (set_derives g) t nl = Inl OutOfShort" "beyond_shorts g st"
        | (ok) inc lb where "build_relations g (set_derives g) t nl = Inr (inc, lb)" "\<not> edge_overflow g st" "represents t inc (includes_rel g st)"
        "length lb = length (LAruleno t)" "\<forall>l < length lb. set (lb ! l) =
         {x. x < ?n \<and> (\<exists>q r. la_index t q r l \<and> node t x \<in> lookback_rel g st q r)}" by blast
      then show ?thesis
      proof cases
        case (ok inc lb)
        note B = ok(1,3-5)
        have "\<forall>x y. (x, y) \<in> includes_rel g st \<longrightarrow> is_goto g st y" by (simp add: includes_rel_def)
        from digraph_represents [OF wf E T B(2) this D1(2,3)] consider
          "digraph ?n w inc fw1 = Some (Inl OutOfShort)" "beyond_shorts g st"
          | fw2 where "digraph ?n w inc fw1 = Some (Inr fw2)" "length fw2 = ?n * w"
            "\<forall>x < ?n. rowset fw2 (x * w) w = follow_set g st (node t x)" unfolding follow_set_def by blast
        then show ?thesis
        proof cases
          case 1
          then show ?thesis using 3(1) F(1) D1(1) B(1) by (simp add: lalr_def Let_def w_def)
        next
          case D2: (2 fw2)
          let ?LA = "compute_lookaheads g lb fw2"
          have run: "lalr g (set_derives g) nl st = Some (Inr (t, ?LA))"
            using 3(1) F(1) D1(1) B(1) D2(1) by (simp add: lalr_def Let_def w_def)
          have lbn: "\<forall>l < length lb. \<forall>v \<in> set (lb ! l). v < ?n" using B(4) by auto
          have rows: "rowset ?LA (l * w) w = LALR_set g st q r"
            if q: "q < length (cores st)" and l: "la_index t q r l" for q r l
          proof -
            have ll: "l < length lb" using l la_row(3) [OF T q] B(3) by (auto simp: la_index_def)
            have "rowset ?LA (l * w) w = (\<Union>v \<in> set (lb ! l). rowset fw2 (v * w) w)"
              unfolding w_def by (rule compute_lookaheads_rows(2) [OF lbn ll])
            also have "\<dots> = (\<Union>x \<in> {x. x < ?n \<and> node t x \<in> lookback_rel g st q r}. follow_set g st (node t x))"
            proof -
              have "set (lb ! l) = {x. x < ?n \<and> node t x \<in> lookback_rel g st q r}"
                using B(4) ll l la_index_inj [OF T q l] by blast
              with D2(3) show ?thesis by auto
            qed
            also have "\<dots> = LALR_set g st q r"
            proof
              show "LALR_set g st q r \<subseteq> (\<Union>x \<in> {x. x < ?n \<and> node t x \<in> lookback_rel g st q r}. follow_set g st (node t x))"
              proof
                fix s assume "s \<in> LALR_set g st q r"
                then obtain x where x: "x \<in> lookback_rel g st q r" "s \<in> follow_set g st x" by (auto simp: LALR_set_def)
                then have "is_goto g st x" by (simp add: lookback_rel_def)
                from is_goto_node [OF wf E T this] obtain k where "k < ?n" "node t k = x" by blast
                with x show "s \<in> (\<Union>x \<in> {x. x < ?n \<and> node t x \<in> lookback_rel g st q r}. follow_set g st (node t x))"
                  by blast
              qed
            qed (auto simp: LALR_set_def)
            finally show ?thesis .
          qed
          have "length ?LA = length (LAruleno t) * w"
          proof -
            have "length (compute_lookaheads g lb fw2) = length lb * w" if "lb \<noteq> []"
              unfolding w_def using compute_lookaheads_rows(1) [OF lbn, of 0] that by simp
            then show ?thesis using B(3) by (cases "lb = []") (auto simp: compute_lookaheads_def)
          qed
          with run T rows ok(2) show ?thesis by blast
        qed
      qed (use 3(1) F(1) D1(1) in \<open>simp_all add: lalr_def Let_def w_def\<close>)
    qed
  qed
qed

section \<open>Properties\<close>

text \<open>\<^verbatim>\<open>transpose\<close> turns the rows of a relation into the rows of its converse.\<close>

theorem transpose_converse:
  assumes "\<forall>i < length R. \<forall>j \<in> set (R ! i). j < length R" "j < length R"
  shows "set (transpose_rows R (length R) ! j) = {i. i < length R \<and> j \<in> set (R ! i)}"
  by (rule transpose_rows_correct(2) [OF refl assms])

theorem transpose_converse_witness:
  "set (transpose_rows [[1], [0, 1]] (length [[1], [0, 1::nat]]) ! 1) =
    {i. i < length [[1], [0, 1::nat]] \<and> 1 \<in> set ([[1], [0, 1::nat]] ! i)}"
  by (rule transpose_converse) (auto simp: less_Suc_eq)

end
