(* ===== verification/Mkpar.thy ===== *)
theory Mkpar
  imports Lookahead
begin

text \<open>
  \<^verbatim>\<open>jay/mkpar.c\<close>: the action rows of the parser.  A row is the linked list of
  \<^verbatim>\<open>action\<close>s of a state, kept sorted by symbol, shift first, then the reductions by rule
  number; \<open>remove_conflicts\<close> marks actions as suppressed, \<open>defreds\<close> looks for states that
  can only reduce.  The lemmas say what a row holds before the conflicts are removed, that afterwards
  no symbol has two live actions, and that every conflict is counted once.
\<close>

section \<open>Actions\<close>

datatype action_code = SHIFT | REDUCE

record action =
  act_symbol :: nat
  act_number :: nat
  act_prec :: int
  act_code :: action_code
  act_assoc :: nat
  suppressed :: nat

definition shift_action :: "grammar \<Rightarrow> nat \<Rightarrow> nat \<Rightarrow> action" where
  "shift_action g symbol k =
     \<lparr>act_symbol = symbol, act_number = k, act_prec = symbol_prec g ! symbol, act_code = SHIFT,
      act_assoc = symbol_assoc g ! symbol, suppressed = 0\<rparr>"

definition reduce_action :: "grammar \<Rightarrow> nat \<Rightarrow> nat \<Rightarrow> action" where
  "reduce_action g symbol ruleno =
     \<lparr>act_symbol = symbol, act_number = ruleno, act_prec = rprec g ! ruleno, act_code = REDUCE,
      act_assoc = rassoc g ! ruleno, suppressed = 0\<rparr>"

section \<open>Building a row\<close>

definition get_shifts :: "grammar \<Rightarrow> lalr_tables \<Rightarrow> nat \<Rightarrow> action list" where
  "get_shifts g t stateno =
     (case shift_table t ! stateno of
        None \<Rightarrow> []
      | Some sp \<Rightarrow>
          fold (\<lambda>k actions.
              let symbol = accessing t ! k in
              if ISTOKEN g (int symbol) then shift_action g symbol k # actions else actions)
            (rev (shift_row sp)) [])"

text \<open>The three walks of \<^verbatim>\<open>add_reduce\<close> along the list, and the insertion.\<close>

definition add_reduce :: "grammar \<Rightarrow> action list \<Rightarrow> nat \<Rightarrow> nat \<Rightarrow> action list" where
  "add_reduce g actions ruleno symbol =
     (let below = (\<lambda>a. act_symbol a < symbol);
          shifted = (\<lambda>a. act_symbol a = symbol \<and> act_code a = SHIFT);
          before = (\<lambda>a. act_symbol a = symbol \<and> act_code a = REDUCE \<and> act_number a < ruleno);
          next1 = dropWhile below actions;
          next2 = dropWhile shifted next1;
          next3 = dropWhile before next2
      in takeWhile below actions @ takeWhile shifted next1 @ takeWhile before next2 @
         reduce_action g symbol ruleno # next3)"

definition add_rule_reductions :: "grammar \<Rightarrow> lalr_tables \<Rightarrow> u32 list \<Rightarrow> nat \<Rightarrow> action list \<Rightarrow> action list" where
  "add_rule_reductions g t LA i actions =
     fold (\<lambda>j actions. if BIT LA (i * WORDSIZE (ntokens g)) j
           then add_reduce g actions (LAruleno t ! i) j else actions)
       (rev [0..<ntokens g]) actions"

definition add_reductions :: "grammar \<Rightarrow> lalr_tables \<Rightarrow> u32 list \<Rightarrow> nat \<Rightarrow> action list \<Rightarrow> action list" where
  "add_reductions g t LA stateno actions =
     fold (add_rule_reductions g t LA) [lookaheads t ! stateno..<lookaheads t ! (stateno + 1)] actions"

definition parse_actions :: "grammar \<Rightarrow> lalr_tables \<Rightarrow> u32 list \<Rightarrow> nat \<Rightarrow> action list" where
  "parse_actions g t LA stateno = add_reductions g t LA stateno (get_shifts g t stateno)"

section \<open>The final state\<close>

text \<open>The loop over the shifts of state 0, from the last one down to the one on the goal.\<close>

fun find_goal :: "nat list \<Rightarrow> int \<Rightarrow> nat list \<Rightarrow> nat \<Rightarrow> nat" where
  "find_goal acc goal [] final_state = final_state"
| "find_goal acc goal (s # ss) final_state =
     (if int (acc ! s) = goal then s else find_goal acc goal ss s)"

definition find_final_state :: "grammar \<Rightarrow> lalr_tables \<Rightarrow> jay_error + nat" where
  "find_final_state g t =
     (case shift_table t ! 0 of
        None \<Rightarrow> Inl BadAccess
      | Some p \<Rightarrow> Inr (find_goal (accessing t) (ritem g ! 1) (rev (shift_row p)) 0))"

section \<open>Conflicts\<close>

text \<open>
  The state of the loop over one row: the row itself, the position of \<^verbatim>\<open>pref\<close>, the symbol of
  the current group (\<open>- 1\<close> at first) and the two counters.
\<close>

record conflict_state =
  row_actions :: "action list"
  pref :: nat
  cur_symbol :: int
  SRcount :: nat
  RRcount :: nat

definition suppress :: "nat \<Rightarrow> nat \<Rightarrow> conflict_state \<Rightarrow> conflict_state" where
  "suppress k v cs = cs\<lparr>row_actions := (row_actions cs)[k := (row_actions cs ! k)\<lparr>suppressed := v\<rparr>]\<rparr>"

definition remove_step :: "bool \<Rightarrow> nat \<Rightarrow> conflict_state \<Rightarrow> conflict_state" where
  "remove_step is_final k cs =
     (let p = row_actions cs ! k; q = row_actions cs ! pref cs in
      if int (act_symbol p) \<noteq> cur_symbol cs
      then cs\<lparr>pref := k, cur_symbol := int (act_symbol p)\<rparr>
      else if is_final \<and> cur_symbol cs = 0
      then suppress k 1 (cs\<lparr>SRcount := SRcount cs + 1\<rparr>)
      else if act_code q = SHIFT
      then
        (if act_prec q > 0 \<and> act_prec p > 0
         then
           (if act_prec q < act_prec p then (suppress (pref cs) 2 cs)\<lparr>pref := k\<rparr>
            else if act_prec q > act_prec p then suppress k 2 cs
            else if act_assoc q = LEFT then (suppress (pref cs) 2 cs)\<lparr>pref := k\<rparr>
            else if act_assoc q = RIGHT then suppress k 2 cs
            else suppress k 2 (suppress (pref cs) 2 cs))
         else suppress k 1 (cs\<lparr>SRcount := SRcount cs + 1\<rparr>))
      else suppress k 1 (cs\<lparr>RRcount := RRcount cs + 1\<rparr>))"

definition remove_row :: "bool \<Rightarrow> action list \<Rightarrow> conflict_state" where
  "remove_row is_final actions =
     fold (remove_step is_final) [0..<length actions]
       \<lparr>row_actions = actions, pref = 0, cur_symbol = - 1, SRcount = 0, RRcount = 0\<rparr>"

text \<open>The counts of a state are stored in \<^verbatim>\<open>short\<close>s, the totals in \<^verbatim>\<open>int\<close>s.\<close>

definition remove_conflicts :: "nat \<Rightarrow> action list list \<Rightarrow>
    jay_error + action list list \<times> nat list \<times> nat list \<times> nat \<times> nat" where
  "remove_conflicts final_state parser =
     (let rows = map (\<lambda>i. remove_row (i = final_state) (parser ! i)) [0..<length parser] in
      if list_ex (\<lambda>row. MAXSHORT < SRcount row \<or> MAXSHORT < RRcount row) rows then Inl OutOfShort
      else Inr (map row_actions rows, map SRcount rows, map RRcount rows,
        sum_list (map SRcount rows), sum_list (map RRcount rows)))"

section \<open>Unused rules and default reductions\<close>

definition mark_used :: "action \<Rightarrow> bool list \<Rightarrow> bool list" where
  "mark_used p used = (if act_code p = REDUCE \<and> suppressed p = 0 then used[act_number p := True] else used)"

definition unused_rules :: "grammar \<Rightarrow> action list list \<Rightarrow> bool list \<times> nat" where
  "unused_rules g parser =
     (let rules_used = fold (fold mark_used) parser (replicate (nrules g) False) in
      (rules_used, length (filter (\<lambda>i. \<not> rules_used ! i) [3..<nrules g])))"

text \<open>\<open>None\<close> is the early \<^verbatim>\<open>return (0)\<close>.\<close>

fun sole_reduction_scan :: "action list \<Rightarrow> nat \<Rightarrow> nat \<Rightarrow> (nat \<times> nat) option" where
  "sole_reduction_scan [] cnt ruleno = Some (cnt, ruleno)"
| "sole_reduction_scan (p # ps) cnt ruleno =
     (if act_code p = SHIFT \<and> suppressed p = 0 then None
      else if act_code p = REDUCE \<and> suppressed p = 0
      then
        (if ruleno > 0 \<and> act_number p \<noteq> ruleno then None
         else sole_reduction_scan ps (if act_symbol p \<noteq> 1 then cnt + 1 else cnt) (act_number p))
      else sole_reduction_scan ps cnt ruleno)"

definition sole_reduction :: "action list \<Rightarrow> nat" where
  "sole_reduction actions =
     (case sole_reduction_scan actions 0 0 of
        None \<Rightarrow> 0
      | Some (cnt, ruleno) \<Rightarrow> if cnt = 0 then 0 else ruleno)"

definition defreds :: "action list list \<Rightarrow> nat list" where
  "defreds parser = map sole_reduction parser"

record parser_tables =
  parser :: "action list list"
  final_state :: nat
  SRconflicts :: "nat list"
  RRconflicts :: "nat list"
  SRtotal :: nat
  RRtotal :: nat
  rules_used :: "bool list"
  nunused :: nat
  defred :: "nat list"

definition make_parser :: "grammar \<Rightarrow> lalr_tables \<Rightarrow> u32 list \<Rightarrow> nat \<Rightarrow> jay_error + parser_tables" where
  "make_parser g t LA nstates =
     (let actions = map (parse_actions g t LA) [0..<nstates] in
      case find_final_state g t of
        Inl e \<Rightarrow> Inl e
      | Inr final \<Rightarrow>
          (case remove_conflicts final actions of
             Inl e \<Rightarrow> Inl e
           | Inr (rows, SR, RR, SRt, RRt) \<Rightarrow>
               let (used, unused) = unused_rules g rows
               in Inr \<lparr>parser = rows, final_state = final, SRconflicts = SR, RRconflicts = RR,
                    SRtotal = SRt, RRtotal = RRt, rules_used = used, nunused = unused,
                    defred = defreds rows\<rparr>))"

section \<open>The order of a row\<close>

definition act_less :: "action \<Rightarrow> action \<Rightarrow> bool" where
  "act_less a b \<longleftrightarrow> act_symbol a < act_symbol b \<or> act_symbol a = act_symbol b \<and>
     act_code b = REDUCE \<and> (act_code a = SHIFT \<or> act_number a < act_number b)"

lemma act_less_trans: "act_less a b \<Longrightarrow> act_less b c \<Longrightarrow> act_less a c"
  by (auto simp: act_less_def)

text \<open>The insertion point of \<open>add_reduce\<close> is the one of an ordered insertion.\<close>

lemma add_reduce_split:
  assumes "sorted_wrt act_less as"
  shows "add_reduce g as r s =
    takeWhile (\<lambda>a. act_less a (reduce_action g s r)) as @ reduce_action g s r #
    dropWhile (\<lambda>a. act_less a (reduce_action g s r)) as"
  using assms
proof (induction as)
  case Nil
  then show ?case by (simp add: add_reduce_def)
next
  case (Cons a as)
  have tl: "\<forall>b \<in> set as. act_less a b" and srt: "sorted_wrt act_less as" using Cons.prems by simp_all
  have lt: "act_less b (reduce_action g s r) \<longleftrightarrow> act_symbol b < s \<or> act_symbol b = s \<and>
      (act_code b = SHIFT \<or> act_number b < r)" for b
    by (auto simp: act_less_def reduce_action_def)
  consider "act_symbol a < s" | "act_symbol a = s" "act_code a = SHIFT"
    | "act_symbol a = s" "act_code a = REDUCE" "act_number a < r"
    | "\<not> act_less a (reduce_action g s r)"
    using lt [of a] by (cases "act_code a") auto
  then show ?case
  proof cases
    case 1
    with Cons.IH [OF srt] lt [of a] show ?thesis by (simp add: add_reduce_def Let_def)
  next
    case 2
    have no: "takeWhile (\<lambda>b. act_symbol b < s) as = [] \<and> dropWhile (\<lambda>b. act_symbol b < s) as = as"
      using tl 2 by (cases as) (auto simp: act_less_def)
    with 2 no Cons.IH [OF srt] lt [of a] show ?thesis by (simp add: add_reduce_def Let_def)
  next
    case 3
    have skip: "\<not> act_symbol b < s" "\<not> (act_symbol b = s \<and> act_code b = SHIFT)" if "b \<in> set as" for b
    proof -
      have "s < act_symbol b \<or> s = act_symbol b \<and> act_code b = REDUCE"
        using bspec [OF tl that] unfolding act_less_def 3(1,2) by blast
      then show "\<not> act_symbol b < s" "\<not> (act_symbol b = s \<and> act_code b = SHIFT)" by auto
    qed
    have no: "takeWhile (\<lambda>b. act_symbol b < s) as = [] \<and> dropWhile (\<lambda>b. act_symbol b < s) as = as"
      using skip(1) by (cases as) simp_all
    have no2: "takeWhile (\<lambda>b. act_symbol b = s \<and> act_code b = SHIFT) as = [] \<and>
       dropWhile (\<lambda>b. act_symbol b = s \<and> act_code b = SHIFT) as = as"
      using skip(2) by (cases as) auto
    with 3 no no2 Cons.IH [OF srt] lt [of a] show ?thesis by (simp add: add_reduce_def Let_def)
  next
    case 4
    then have "\<not> act_symbol a < s" "\<not> (act_symbol a = s \<and> act_code a = SHIFT)"
      "\<not> (act_symbol a = s \<and> act_code a = REDUCE \<and> act_number a < r)" using lt [of a] by auto
    with 4 show ?thesis
      by (cases "act_symbol a = s"; cases "act_code a") (simp_all add: add_reduce_def Let_def)
  qed
qed

lemma add_reduce_sorted:
  assumes "sorted_wrt act_less as" "\<forall>a \<in> set as. \<not> (act_code a = REDUCE \<and> act_symbol a = s \<and> act_number a = r)"
  shows "sorted_wrt act_less (add_reduce g as r s)" "set (add_reduce g as r s) = insert (reduce_action g s r) (set as)"
proof -
  let ?x = "reduce_action g s r"
  have tot: "act_less a ?x \<or> act_less ?x a" if "a \<in> set as" for a
    using that assms(2) by (cases "act_code a") (auto simp: act_less_def reduce_action_def)
  have "sorted_wrt act_less (takeWhile (\<lambda>a. act_less a ?x) as @ ?x # dropWhile (\<lambda>a. act_less a ?x) as)"
    using assms(1) tot
  proof (induction as)
    case (Cons a as)
    show ?case
    proof (cases "act_less a ?x")
      case True
      have "b \<in> set (takeWhile (\<lambda>a. act_less a ?x) as) \<or> b \<in> set (dropWhile (\<lambda>a. act_less a ?x) as) \<Longrightarrow>
          act_less a b" for b
        using Cons.prems(1) by (auto dest: set_takeWhileD set_dropWhileD)
      with True Cons show ?thesis by auto
    next
      case False
      with Cons.prems have "act_less ?x a" by auto
      with False Cons.prems(1) show ?thesis by (auto intro: act_less_trans)
    qed
  qed simp
  then show "sorted_wrt act_less (add_reduce g as r s)" by (simp add: add_reduce_split [OF assms(1)])
  have "set (takeWhile P as) \<union> set (dropWhile P as) = set as" for P
    by (metis set_append takeWhile_dropWhile_id)
  then show "set (add_reduce g as r s) = insert ?x (set as)"
    unfolding add_reduce_split [OF assms(1)] by auto
qed

section \<open>What a row holds\<close>

lemma get_shifts_correct:
  assumes E: "automaton g st" and T: "tables_ok g st t" and q: "q < length (cores st)"
  shows "sorted_wrt act_less (get_shifts g t q)"
    "set (get_shifts g t q) = {shift_action g X s | X s. X < start_symbol g \<and> lr_trans g st q X s}"
proof -
  have G: "sorted_wrt act_less (get_shifts g t q) \<and>
    set (get_shifts g t q) = {shift_action g X s | X s. X < start_symbol g \<and> lr_trans g st q X s}"
  proof (cases "shift_table t ! q")
    case None
    with shift_table_entry [OF E T q] show ?thesis by (simp add: get_shifts_def)
  next
    case (Some sp)
    let ?acc = "\<lambda>s. accessing t ! s"
    from shift_table_entry [OF E T q] Some
    have S: "sorted_wrt (<) (map ?acc (shift_row sp))"
      "\<And>X. X \<in> set (map ?acc (shift_row sp)) \<longleftrightarrow> (\<exists>s. lr_trans g st q X s)"
      "\<forall>s \<in> set (shift_row sp). lr_trans g st q (?acc s) s" by simp_all
    let ?ss = "filter (\<lambda>k. ?acc k < start_symbol g) (shift_row sp)"
    have fold: "fold (\<lambda>k actions. if ISTOKEN g (int (?acc k)) then shift_action g (?acc k) k # actions else actions)
        (rev ks) as = map (\<lambda>k. shift_action g (?acc k) k) (filter (\<lambda>k. ?acc k < start_symbol g) ks) @ as" for ks as
      by (induction ks arbitrary: as) (auto simp: ISTOKEN_def)
    have gs: "get_shifts g t q = map (\<lambda>k. shift_action g (?acc k) k) ?ss"
      unfolding get_shifts_def Some option.case Let_def using fold [of "shift_row sp" "[]"] by simp
    have "sorted_wrt (\<lambda>a b. ?acc a < ?acc b) ?ss" using S(1) by (simp add: sorted_wrt_map sorted_wrt_filter)
    then have "sorted_wrt act_less (get_shifts g t q)"
      unfolding gs sorted_wrt_map by (rule sorted_wrt_mono_rel [rotated]) (simp add: act_less_def shift_action_def)
    moreover have "set (get_shifts g t q) = {shift_action g X s | X s. X < start_symbol g \<and> lr_trans g st q X s}"
    proof (intro set_eqI iffI)
      fix a assume "a \<in> set (get_shifts g t q)"
      then obtain s where "s \<in> set (shift_row sp)" "?acc s < start_symbol g" "a = shift_action g (?acc s) s"
        by (auto simp: gs)
      with S(3) show "a \<in> {shift_action g X s | X s. X < start_symbol g \<and> lr_trans g st q X s}" by blast
    next
      fix a assume "a \<in> {shift_action g X s | X s. X < start_symbol g \<and> lr_trans g st q X s}"
      then obtain X s where X: "a = shift_action g X s" "X < start_symbol g" "lr_trans g st q X s" by blast
      from S(2) [of X] X(3) obtain s' where s': "s' \<in> set (shift_row sp)" "?acc s' = X" by auto
      with S(3) have "lr_trans g st q X s'" by blast
      then have "s' = s" using trans_unique [OF E X(3)] by simp
      with s' X show "a \<in> set (get_shifts g t q)" by (auto simp: gs)
    qed
    ultimately show ?thesis by blast
  qed
  then show "sorted_wrt act_less (get_shifts g t q)"
    "set (get_shifts g t q) = {shift_action g X s | X s. X < start_symbol g \<and> lr_trans g st q X s}" by blast+
qed

lemma add_rule_reductions_fold:
  assumes "distinct js" "sorted_wrt act_less as" "\<forall>a \<in> set as. act_code a = REDUCE \<longrightarrow> act_number a \<noteq> r"
  shows "sorted_wrt act_less (fold (\<lambda>j as. if B j then add_reduce g as r j else as) js as) \<and>
    set (fold (\<lambda>j as. if B j then add_reduce g as r j else as) js as) =
      set as \<union> {reduce_action g j r | j. j \<in> set js \<and> B j}"
proof -
  have "sorted_wrt act_less (fold (\<lambda>j as. if B j then add_reduce g as r j else as) js as) \<and>
    set (fold (\<lambda>j as. if B j then add_reduce g as r j else as) js as) =
      set as \<union> {reduce_action g j r | j. j \<in> set js \<and> B j}"
    if "distinct js" "sorted_wrt act_less as"
      "\<forall>a \<in> set as. act_code a = REDUCE \<longrightarrow> act_number a \<noteq> r \<or> act_symbol a \<notin> set js" for js as
    using that
  proof (induction js arbitrary: as)
    case (Cons j js)
    let ?as = "if B j then add_reduce g as r j else as"
    have "\<forall>a \<in> set as. \<not> (act_code a = REDUCE \<and> act_symbol a = j \<and> act_number a = r)"
      using Cons.prems(3) by auto
    note A = add_reduce_sorted [OF Cons.prems(2) this, of g]
    have "sorted_wrt act_less ?as" "set ?as = set as \<union> (if B j then {reduce_action g j r} else {})"
      using A Cons.prems(2) by simp_all
    moreover from this(2) Cons.prems(1,3)
    have "\<forall>a \<in> set ?as. act_code a = REDUCE \<longrightarrow> act_number a \<noteq> r \<or> act_symbol a \<notin> set js"
      by (auto simp: reduce_action_def split: if_splits)
    ultimately show ?case using Cons.IH [of ?as] Cons.prems(1) by auto
  qed simp
  from this [OF assms(1,2)] assms(3) show ?thesis by blast
qed

text \<open>Before the conflicts are removed.\<close>

definition row_of :: "grammar \<Rightarrow> lr0_state \<Rightarrow> nat \<Rightarrow> action set" where
  "row_of g st q =
     {shift_action g X s | X s. X < start_symbol g \<and> lr_trans g st q X s} \<union>
     {reduce_action g X r | X r. X < ntokens g \<and> r \<in> set (rules_at g st q) \<and> X \<in> LALR_set g st q r}"

definition LA_ok :: "grammar \<Rightarrow> lr0_state \<Rightarrow> lalr_tables \<Rightarrow> u32 list \<Rightarrow> bool" where
  "LA_ok g st t LA \<longleftrightarrow> (\<forall>q < length (cores st). \<forall>r l. la_index t q r l \<longrightarrow>
     rowset LA (l * WORDSIZE (ntokens g)) (WORDSIZE (ntokens g)) = LALR_set g st q r)"

lemma parse_actions_correct:
  assumes wf: "wf_grammar g" and E: "automaton g st" and T: "tables_ok g st t" and LA: "LA_ok g st t LA"
    and q: "q < length (cores st)"
  shows "sorted_wrt act_less (parse_actions g t LA q)" "set (parse_actions g t LA q) = row_of g st q"
proof -
  let ?w = "WORDSIZE (ntokens g)" and ?la = "lookaheads t ! q" and ?rs = "rules_at g st q"
  note G = get_shifts_correct [OF E T q] and L = la_row [OF T q]
  have d: "distinct ?rs" by (rule rules_at_distinct(1) [OF wf E q])
  have bit: "BIT LA (l * ?w) j \<longleftrightarrow> j \<in> LALR_set g st q r" if "la_index t q r l" "j < ntokens g" for r l j
  proof -
    have "rowset LA (l * ?w) ?w = LALR_set g st q r" using LA q that(1) by (simp add: LA_ok_def)
    moreover have "j < 32 * ?w" using that(2) WORDSIZE_bound [of "ntokens g"] by linarith
    ultimately show ?thesis by (auto simp: rowset_def)
  qed
  have "sorted_wrt act_less (fold (add_rule_reductions g t LA) [?la..<?la + m] (get_shifts g t q)) \<and>
    set (fold (add_rule_reductions g t LA) [?la..<?la + m] (get_shifts g t q)) =
      {shift_action g X s | X s. X < start_symbol g \<and> lr_trans g st q X s} \<union>
      {reduce_action g X r | X r. X < ntokens g \<and> r \<in> set (take m ?rs) \<and> X \<in> LALR_set g st q r}"
    if "m \<le> length ?rs" for m
    using that
  proof (induction m)
    case 0
    then show ?case using G by simp
  next
    case (Suc m)
    let ?as = "fold (add_rule_reductions g t LA) [?la..<?la + m] (get_shifts g t q)"
    have I: "sorted_wrt act_less ?as" "set ?as =
      {shift_action g X s | X s. X < start_symbol g \<and> lr_trans g st q X s} \<union>
      {reduce_action g X r | X r. X < ntokens g \<and> r \<in> set (take m ?rs) \<and> X \<in> LALR_set g st q r}"
      using Suc by simp_all
    have m: "m < length ?rs" using Suc.prems by simp
    have idx: "la_index t q (?rs ! m) (?la + m)" "LAruleno t ! (?la + m) = ?rs ! m"
      using L(1) L(2) [OF m] m by (simp_all add: la_index_def)
    have "?rs ! m \<notin> set (take m ?rs)" using d m by (auto simp: in_set_conv_nth nth_eq_iff_index_eq)
    then have new: "\<forall>a \<in> set ?as. act_code a = REDUCE \<longrightarrow> act_number a \<noteq> ?rs ! m"
      unfolding I(2) by (auto simp: shift_action_def reduce_action_def)
    have js: "distinct (rev [0..<ntokens g])" by simp
    note F = add_rule_reductions_fold [OF js I(1) new, of "BIT LA ((?la + m) * ?w)" g]
    have step: "fold (add_rule_reductions g t LA) [?la..<?la + Suc m] (get_shifts g t q) =
        fold (\<lambda>j as. if BIT LA ((?la + m) * ?w) j then add_reduce g as (?rs ! m) j else as) (rev [0..<ntokens g]) ?as"
      by (simp add: add_rule_reductions_def idx(2) cong: if_cong)
    have "{reduce_action g j (?rs ! m) | j. j \<in> set (rev [0..<ntokens g]) \<and> BIT LA ((?la + m) * ?w) j} =
        {reduce_action g X (?rs ! m) | X. X < ntokens g \<and> X \<in> LALR_set g st q (?rs ! m)}"
      using bit [OF idx(1)] by auto
    with F I(2) show ?case unfolding step take_Suc_conv_app_nth [OF m] by auto
  qed
  from this [OF order_refl] have
    "sorted_wrt act_less (parse_actions g t LA q) \<and> set (parse_actions g t LA q) = row_of g st q"
    by (simp add: parse_actions_def add_reductions_def L(1) row_of_def)
  then show "sorted_wrt act_less (parse_actions g t LA q)" "set (parse_actions g t LA q) = row_of g st q" by blast+
qed

lemma find_goal_found:
  "\<exists>s \<in> set ss. int (acc ! s) = goal \<Longrightarrow>
   find_goal acc goal ss d \<in> set ss \<and> int (acc ! find_goal acc goal ss d) = goal"
  by (induction ss arbitrary: d) auto

lemma find_final_state_correct:
  assumes wf: "wf_grammar g" and E: "automaton g st" and T: "tables_ok g st t"
  shows "\<exists>s. find_final_state g t = Inr s \<and> lr_trans g st 0 (Suc (start_symbol g)) s"
proof -
  obtain q where q: "lr_trans g st 0 (Suc (start_symbol g)) q" using goal_trans [OF wf E] by blast
  from shift_table_entry [OF E T transD(1) [OF q]] q obtain sp where sp: "shift_table t ! 0 = Some sp"
    "Suc (start_symbol g) \<in> set (map (\<lambda>s. accessing t ! s) (shift_row sp))"
    "\<forall>s \<in> set (shift_row sp). lr_trans g st 0 (accessing t ! s) s"
    by (cases "shift_table t ! 0") auto
  have goal: "ritem g ! 1 = int (Suc (start_symbol g))" using wf_headerD(12) [OF wf] by simp
  from sp(2) obtain s where "s \<in> set (shift_row sp)" "accessing t ! s = Suc (start_symbol g)" by auto
  then have "\<exists>s \<in> set (rev (shift_row sp)). int (accessing t ! s) = int (Suc (start_symbol g))"
    by (intro bexI [of _ s]) simp_all
  from find_goal_found [OF this, of 0] sp(3) have
    "lr_trans g st 0 (Suc (start_symbol g)) (find_goal (accessing t) (int (Suc (start_symbol g))) (rev (shift_row sp)) 0)"
    by (metis of_nat_eq_iff set_rev)
  then show ?thesis by (simp add: find_final_state_def sp(1) goal [simplified])
qed

section \<open>Conflicts\<close>

text \<open>
  A shift and a reduction of the same positive precedence, the shift declared neither left nor
  right associative: the one case in which all actions of a symbol are dropped.
\<close>

definition nonassoc_tie :: "action list \<Rightarrow> nat \<Rightarrow> nat \<Rightarrow> bool" where
  "nonassoc_tie as k X \<longleftrightarrow> (\<exists>i < k. \<exists>j < k.
     act_symbol (as ! i) = X \<and> act_symbol (as ! j) = X \<and>
     act_code (as ! i) = SHIFT \<and> act_code (as ! j) = REDUCE \<and>
     0 < act_prec (as ! i) \<and> act_prec (as ! j) = act_prec (as ! i) \<and>
     act_assoc (as ! i) \<noteq> LEFT \<and> act_assoc (as ! i) \<noteq> RIGHT)"

lemma nonassoc_tie_mono: "nonassoc_tie as k X \<Longrightarrow> k \<le> m \<Longrightarrow> nonassoc_tie as m X"
  unfolding nonassoc_tie_def by (elim exE conjE, intro exI conjI) (assumption | erule (1) less_le_trans)+

text \<open>
  The flags are followed as a function \<open>s\<close> of the position; \<open>c\<close> is the sum of the counters, \<open>pf\<close>
  and \<open>cur\<close> are \<^verbatim>\<open>pref\<close> and \<^verbatim>\<open>symbol\<close> after the first \<open>k\<close> actions of the row \<open>as\<close>.
\<close>

definition one_live :: "action list \<Rightarrow> nat \<Rightarrow> (nat \<Rightarrow> nat) \<Rightarrow> bool" where
  "one_live as k s \<longleftrightarrow> (\<forall>i < k. \<forall>j < k. s i = 0 \<longrightarrow> s j = 0 \<longrightarrow>
     act_symbol (as ! i) = act_symbol (as ! j) \<longrightarrow> i = j)"

definition all_survive :: "action list \<Rightarrow> nat \<Rightarrow> (nat \<Rightarrow> nat) \<Rightarrow> bool" where
  "all_survive as k s \<longleftrightarrow> (\<forall>i < k. nonassoc_tie as k (act_symbol (as ! i)) \<or>
     (\<exists>j < k. act_symbol (as ! j) = act_symbol (as ! i) \<and> s j = 0))"

definition group_ok :: "action list \<Rightarrow> nat \<Rightarrow> (nat \<Rightarrow> nat) \<Rightarrow> nat \<Rightarrow> int \<Rightarrow> bool" where
  "group_ok as k s pf cur \<longleftrightarrow>
     (if k = 0 then cur = - 1
      else pf < k \<and> cur = int (act_symbol (as ! (k - 1))) \<and>
        act_symbol (as ! pf) = act_symbol (as ! (k - 1)) \<and> s pf \<noteq> 1 \<and>
        (s pf = 0 \<or> nonassoc_tie as k (act_symbol (as ! (k - 1)))) \<and>
        (\<forall>j < k. s j = 0 \<longrightarrow> act_symbol (as ! j) = act_symbol (as ! (k - 1)) \<longrightarrow> j = pf))"

definition conflict_inv :: "action list \<Rightarrow> nat \<Rightarrow> (nat \<Rightarrow> nat) \<Rightarrow> nat \<Rightarrow> int \<Rightarrow> nat \<Rightarrow> bool" where
  "conflict_inv as k s pf cur c \<longleftrightarrow>
     (\<forall>j \<ge> k. s j = 0) \<and> group_ok as k s pf cur \<and> one_live as k s \<and> all_survive as k s \<and>
     c = card {j. j < k \<and> s j = 1}"

lemma card_flags:
  "card {j. j < Suc k \<and> s j = (1::nat)} = card {j. j < k \<and> s j = 1} + (if s k = 1 then 1 else 0)"
proof -
  have "{j. j < Suc k \<and> s j = 1} = {j. j < k \<and> s j = 1} \<union> (if s k = 1 then {k} else {})"
    by (auto simp: less_Suc_eq)
  then show ?thesis by auto
qed

lemma conflict_invI:
  assumes "\<forall>j \<ge> Suc k. s j = 0" "group_ok as (Suc k) s pf cur" "one_live as (Suc k) s" "all_survive as (Suc k) s"
    "c = card {j. j < k \<and> s j = 1} + (if s k = 1 then 1 else 0)"
  shows "conflict_inv as (Suc k) s pf cur c"
  using assms unfolding conflict_inv_def card_flags by blast

lemma conflict_invD:
  assumes "conflict_inv as k s pf cur c"
  shows "\<forall>j \<ge> k. s j = 0" "group_ok as k s pf cur" "one_live as k s" "all_survive as k s"
    "c = card {j. j < k \<and> s j = 1}"
  using assms unfolding conflict_inv_def by blast+

lemma conflict_new_group:
  assumes I: "conflict_inv as k s pf cur c" and k: "k < length as"
    and sorted: "\<forall>i j. i < j \<longrightarrow> j < length as \<longrightarrow> act_symbol (as ! i) \<le> act_symbol (as ! j)"
    and new: "int (act_symbol (as ! k)) \<noteq> cur"
  shows "conflict_inv as (Suc k) s k (int (act_symbol (as ! k))) c"
proof -
  have sk: "s k = 0" using I by (simp add: conflict_inv_def)
  have prev: "act_symbol (as ! j) < act_symbol (as ! k)" if j: "j < k" for j
  proof -
    have "act_symbol (as ! j) \<le> act_symbol (as ! (k - 1))"
      using sorted j k by (cases "j = k - 1") auto
    moreover have "act_symbol (as ! (k - 1)) \<le> act_symbol (as ! k)" using sorted j k by simp
    moreover have "act_symbol (as ! (k - 1)) \<noteq> act_symbol (as ! k)"
      using I new j by (auto simp: conflict_inv_def group_ok_def)
    ultimately show ?thesis by linarith
  qed
  have "group_ok as (Suc k) s k (int (act_symbol (as ! k)))"
    using sk by (auto simp: group_ok_def less_Suc_eq dest!: prev)
  moreover have "one_live as (Suc k) s"
    unfolding one_live_def
  proof (intro allI impI)
    fix i j assume *: "i < Suc k" "j < Suc k" "s i = 0" "s j = 0" "act_symbol (as ! i) = act_symbol (as ! j)"
    show "i = j"
    proof (cases "i = k \<or> j = k")
      case True
      with * prev [of i] prev [of j] show ?thesis by (auto simp: less_Suc_eq)
    next
      case False
      with * I show ?thesis by (auto simp: conflict_inv_def one_live_def less_Suc_eq)
    qed
  qed
  moreover have "all_survive as (Suc k) s"
    unfolding all_survive_def
  proof (intro allI impI)
    fix i assume i: "i < Suc k"
    show "nonassoc_tie as (Suc k) (act_symbol (as ! i)) \<or>
        (\<exists>j < Suc k. act_symbol (as ! j) = act_symbol (as ! i) \<and> s j = 0)"
    proof (cases "i = k")
      case False
      then have "nonassoc_tie as k (act_symbol (as ! i)) \<or> (\<exists>j < k. act_symbol (as ! j) = act_symbol (as ! i) \<and> s j = 0)"
        using I i by (auto simp: conflict_inv_def all_survive_def less_Suc_eq)
      then show ?thesis using nonassoc_tie_mono [of as k _ "Suc k"] less_SucI by (metis le_SucI order_refl)
    qed (use sk in blast)
  qed
  ultimately show ?thesis
    using conflict_invD(1,5) [OF I] sk by (intro conflict_invI) (simp_all del: One_nat_def)
qed

lemma conflict_drop_new:
  assumes I: "conflict_inv as k s pf cur c" and k: "k < length as"
    and same: "int (act_symbol (as ! k)) = cur" and v: "v = 1 \<or> v = (2::nat)"
  shows "conflict_inv as (Suc k) (s(k := v)) pf cur (if v = 1 then c + 1 else c)"
proof -
  have k0: "0 < k"
  proof (rule ccontr)
    assume "\<not> 0 < k"
    then have "int (act_symbol (as ! k)) = - 1" using I same by (simp add: conflict_inv_def group_ok_def)
    then show False by linarith
  qed
  have G: "pf < k" "act_symbol (as ! (k - 1)) = act_symbol (as ! k)" "cur = int (act_symbol (as ! k))"
    "act_symbol (as ! pf) = act_symbol (as ! k)" "s pf \<noteq> 1"
    "s pf = 0 \<or> nonassoc_tie as k (act_symbol (as ! k))"
    "\<forall>j < k. s j = 0 \<longrightarrow> act_symbol (as ! j) = act_symbol (as ! k) \<longrightarrow> j = pf"
    using I k0 same by (auto simp: conflict_inv_def group_ok_def)
  have v0: "v \<noteq> 0" using v by auto
  have tie: "nonassoc_tie as k X \<Longrightarrow> nonassoc_tie as (Suc k) X" for X by (erule nonassoc_tie_mono) simp
  have "group_ok as (Suc k) (s(k := v)) pf cur"
    using G v0 tie by (auto simp: group_ok_def less_Suc_eq)
  moreover have "one_live as (Suc k) (s(k := v))"
    using I v0 unfolding conflict_inv_def one_live_def by (auto simp: less_Suc_eq)
  moreover have "all_survive as (Suc k) (s(k := v))"
    unfolding all_survive_def
  proof (intro allI impI)
    fix i assume i: "i < Suc k"
    obtain i' where i': "i' < k" "act_symbol (as ! i') = act_symbol (as ! i)"
      using i G(1,4) by (cases "i = k") (auto simp: less_Suc_eq intro: that)
    with I have "nonassoc_tie as k (act_symbol (as ! i)) \<or> (\<exists>j < k. act_symbol (as ! j) = act_symbol (as ! i) \<and> s j = 0)"
      unfolding conflict_inv_def all_survive_def by metis
    then show "nonassoc_tie as (Suc k) (act_symbol (as ! i)) \<or>
        (\<exists>j < Suc k. act_symbol (as ! j) = act_symbol (as ! i) \<and> (s(k := v)) j = 0)"
    proof
      assume "\<exists>j < k. act_symbol (as ! j) = act_symbol (as ! i) \<and> s j = 0"
      then obtain j where "j < k" "act_symbol (as ! j) = act_symbol (as ! i)" "s j = 0" by blast
      then show ?thesis by (intro disjI2 exI [of _ j]) simp
    qed (use tie in blast)
  qed
  moreover have "{j. j < k \<and> (s(k := v)) j = 1} = {j. j < k \<and> s j = 1}" by auto
  ultimately show ?thesis
    using conflict_invD(1,5) [OF I] v by (intro conflict_invI) (auto simp del: One_nat_def)
qed

lemma conflict_drop_pref:
  assumes I: "conflict_inv as k s pf cur c" and k: "k < length as"
    and same: "int (act_symbol (as ! k)) = cur"
  shows "conflict_inv as (Suc k) (s(pf := 2)) k cur c"
    "nonassoc_tie as (Suc k) (act_symbol (as ! k)) \<Longrightarrow> conflict_inv as (Suc k) (s(pf := 2, k := 2)) pf cur c"
proof -
  have k0: "0 < k"
  proof (rule ccontr)
    assume "\<not> 0 < k"
    then have "int (act_symbol (as ! k)) = - 1" using I same by (simp add: conflict_inv_def group_ok_def)
    then show False by linarith
  qed
  have G: "pf < k" "cur = int (act_symbol (as ! k))" "act_symbol (as ! pf) = act_symbol (as ! k)" "s pf \<noteq> 1"
    "\<forall>j < k. s j = 0 \<longrightarrow> act_symbol (as ! j) = act_symbol (as ! k) \<longrightarrow> j = pf" "s k = 0"
    using I k0 same by (auto simp: conflict_inv_def group_ok_def)
  have tie: "nonassoc_tie as k X \<Longrightarrow> nonassoc_tie as (Suc k) X" for X by (erule nonassoc_tie_mono) simp
  have old: "nonassoc_tie as (Suc k) (act_symbol (as ! i)) \<or>
      (\<exists>j < k. act_symbol (as ! j) = act_symbol (as ! i) \<and> s j = 0 \<and> j \<noteq> pf)"
    if "i < k" "act_symbol (as ! i) \<noteq> act_symbol (as ! k)" for i
    using I that tie G(3) unfolding conflict_inv_def all_survive_def by metis
  have card: "{j. j < k \<and> (s(pf := 2)) j = 1} = {j. j < k \<and> s j = 1}"
    "{j. j < k \<and> (s(pf := 2, k := 2)) j = 1} = {j. j < k \<and> s j = 1}" using G(4) by auto
  have live: "one_live as k (s(pf := 2))"
    using I unfolding conflict_inv_def one_live_def by auto
  show "conflict_inv as (Suc k) (s(pf := 2)) k cur c"
  proof -
    have "group_ok as (Suc k) (s(pf := 2)) k cur"
      using G by (auto simp: group_ok_def less_Suc_eq)
    moreover have "one_live as (Suc k) (s(pf := 2))"
      unfolding one_live_def
    proof (intro allI impI)
      fix i j assume *: "i < Suc k" "j < Suc k" "(s(pf := 2)) i = 0" "(s(pf := 2)) j = 0"
        "act_symbol (as ! i) = act_symbol (as ! j)"
      show "i = j"
      proof (cases "i = k \<or> j = k")
        case True
        with * G(5) show ?thesis by (auto simp: less_Suc_eq split: if_splits)
      next
        case False
        with * live show ?thesis unfolding one_live_def by (auto simp: less_Suc_eq)
      qed
    qed
    moreover have "all_survive as (Suc k) (s(pf := 2))"
      unfolding all_survive_def
    proof (intro allI impI)
      fix i assume i: "i < Suc k"
      show "nonassoc_tie as (Suc k) (act_symbol (as ! i)) \<or>
        (\<exists>j < Suc k. act_symbol (as ! j) = act_symbol (as ! i) \<and> (s(pf := 2)) j = 0)"
      proof (cases "act_symbol (as ! i) = act_symbol (as ! k)")
        case True
        then show ?thesis using G(1,6) by (intro disjI2 exI [of _ k]) simp
      next
        case False
        then have "i < k" using i by (auto simp: less_Suc_eq)
        from old [OF this False] show ?thesis by (auto intro: less_SucI)
      qed
    qed
    moreover have "(s(pf := 2)) k \<noteq> 1" using G(1,6) by simp
    ultimately show ?thesis
      using conflict_invD(1,5) [OF I] G(1) by (intro conflict_invI) (simp_all only: card if_False, simp_all)
  qed
  show "conflict_inv as (Suc k) (s(pf := 2, k := 2)) pf cur c"
    if t: "nonassoc_tie as (Suc k) (act_symbol (as ! k))"
  proof -
    have "group_ok as (Suc k) (s(pf := 2, k := 2)) pf cur"
      using G t by (auto simp: group_ok_def less_Suc_eq)
    moreover have "one_live as (Suc k) (s(pf := 2, k := 2))"
      using live unfolding one_live_def by (auto simp: less_Suc_eq)
    moreover have "all_survive as (Suc k) (s(pf := 2, k := 2))"
      unfolding all_survive_def
    proof (intro allI impI)
      fix i assume i: "i < Suc k"
      show "nonassoc_tie as (Suc k) (act_symbol (as ! i)) \<or>
        (\<exists>j < Suc k. act_symbol (as ! j) = act_symbol (as ! i) \<and> (s(pf := 2, k := 2)) j = 0)"
      proof (cases "act_symbol (as ! i) = act_symbol (as ! k)")
        case False
        then have "i < k" using i by (auto simp: less_Suc_eq)
        from old [OF this False] show ?thesis by (auto intro: less_SucI)
      qed (use t in simp)
    qed
    moreover have "(s(pf := 2, k := 2)) k \<noteq> 1" by simp
    ultimately show ?thesis
      using conflict_invD(1,5) [OF I] G(1) by (intro conflict_invI) (simp_all only: card if_False, simp_all)
  qed
qed

definition flagged :: "action list \<Rightarrow> (nat \<Rightarrow> nat) \<Rightarrow> action list" where
  "flagged as s = map (\<lambda>j. (as ! j)\<lparr>suppressed := s j\<rparr>) [0..<length as]"

lemma flagged_simps [simp]:
  "length (flagged as s) = length as"
  "j < length as \<Longrightarrow> flagged as s ! j = (as ! j)\<lparr>suppressed := s j\<rparr>"
  "j < length as \<Longrightarrow> (flagged as s)[j := (flagged as s ! j)\<lparr>suppressed := v\<rparr>] = flagged as (s(j := v))"
  by (auto simp: flagged_def nth_list_update intro!: nth_equalityI)

lemma flagged_zero: "\<forall>a \<in> set as. suppressed a = 0 \<Longrightarrow> flagged as (\<lambda>_. 0) = as"
  by (auto simp: flagged_def intro!: nth_equalityI action.equality)

lemma suppress_flagged:
  "row_actions cs = flagged as s \<Longrightarrow> j < length as \<Longrightarrow>
   suppress j v cs = cs\<lparr>row_actions := flagged as (s(j := v))\<rparr>"
  by (simp add: suppress_def flip: flagged_simps(3))

definition conflict_state_ok :: "action list \<Rightarrow> nat \<Rightarrow> conflict_state \<Rightarrow> bool" where
  "conflict_state_ok as k cs \<longleftrightarrow> (\<exists>s. row_actions cs = flagged as s \<and>
     conflict_inv as k s (pref cs) (cur_symbol cs) (SRcount cs + RRcount cs))"

lemma remove_step_ok:
  assumes srt: "sorted_wrt act_less as" and ok: "conflict_state_ok as k cs" and k: "k < length as"
  shows "conflict_state_ok as (Suc k) (remove_step is_final k cs)"
proof -
  obtain s where row: "row_actions cs = flagged as s"
    and I: "conflict_inv as k s (pref cs) (cur_symbol cs) (SRcount cs + RRcount cs)"
    using ok by (auto simp: conflict_state_ok_def)
  have less: "act_less (as ! i) (as ! j)" if "i < j" "j < length as" for i j
    using srt that by (simp add: sorted_wrt_iff_nth_less)
  have mono: "\<forall>i j. i < j \<longrightarrow> j < length as \<longrightarrow> act_symbol (as ! i) \<le> act_symbol (as ! j)"
  proof (intro allI impI)
    fix i j assume "i < j" "j < length as"
    from less [OF this] show "act_symbol (as ! i) \<le> act_symbol (as ! j)" by (auto simp: act_less_def)
  qed
  show ?thesis
  proof (cases "int (act_symbol (as ! k)) = cur_symbol cs")
    case False
    with row k have "remove_step is_final k cs = cs\<lparr>pref := k, cur_symbol := int (act_symbol (as ! k))\<rparr>"
      by (simp add: remove_step_def Let_def)
    with row conflict_new_group [OF I k mono False] show ?thesis by (auto simp: conflict_state_ok_def)
  next
    case same: True
    have k0: "0 < k"
    proof (rule ccontr)
      assume "\<not> 0 < k"
      then have "int (act_symbol (as ! k)) = - 1" using I same by (simp add: conflict_inv_def group_ok_def)
      then show False by linarith
    qed
    have pf: "pref cs < k" "act_symbol (as ! pref cs) = act_symbol (as ! k)"
      using conflict_invD(2) [OF I] k0 same by (auto simp: group_ok_def)
    then have pl: "pref cs < length as" using k by simp
    have red: "act_code (as ! k) = REDUCE" using less [OF pf(1) k] pf(2) by (simp add: act_less_def)
    let ?p = "as ! k" and ?q = "as ! pref cs"
    have new: "conflict_state_ok as (Suc k) (suppress k 1 (cs\<lparr>SRcount := SRcount cs + 1\<rparr>))"
      "conflict_state_ok as (Suc k) (suppress k 1 (cs\<lparr>RRcount := RRcount cs + 1\<rparr>))"
      "conflict_state_ok as (Suc k) (suppress k 2 cs)"
      using conflict_drop_new [OF I k same, of 1] conflict_drop_new [OF I k same, of 2] row k
      by (auto simp: conflict_state_ok_def suppress_flagged)
    have pref: "conflict_state_ok as (Suc k) ((suppress (pref cs) 2 cs)\<lparr>pref := k\<rparr>)"
      using conflict_drop_pref(1) [OF I k same] row pl by (auto simp: conflict_state_ok_def suppress_flagged)
    have both: "conflict_state_ok as (Suc k) (suppress k 2 (suppress (pref cs) 2 cs))"
      if "act_code ?q = SHIFT" "0 < act_prec ?q" "act_prec ?p = act_prec ?q" "act_assoc ?q \<noteq> LEFT" "act_assoc ?q \<noteq> RIGHT"
    proof -
      have "nonassoc_tie as (Suc k) (act_symbol ?p)"
        unfolding nonassoc_tie_def 
        by (rule exI [of _ "pref cs"], rule conjI, use pf in simp, rule exI [of _ k]) (use that red pf in simp)
      from conflict_drop_pref(2) [OF I k same this] row k pl show ?thesis
        by (auto simp: conflict_state_ok_def suppress_flagged [where s = "s(pref cs := 2)"] suppress_flagged)
    qed
    show ?thesis
      using new pref both pl k unfolding remove_step_def Let_def row
      by (auto simp: same split: if_splits)
  qed
qed

lemma remove_row_ok:
  assumes srt: "sorted_wrt act_less as" and zero: "\<forall>a \<in> set as. suppressed a = 0"
  shows "conflict_state_ok as (length as) (remove_row is_final as)"
proof -
  let ?cs = "\<lparr>row_actions = as, pref = 0, cur_symbol = - 1, SRcount = 0, RRcount = 0\<rparr>"
  have "conflict_state_ok as k (fold (remove_step is_final) [0..<k] ?cs)" if "k \<le> length as" for k
    using that
  proof (induction k)
    case 0
    show ?case
      unfolding conflict_state_ok_def
      by (rule exI [of _ "\<lambda>_. 0"])
        (simp add: flagged_zero [OF zero] conflict_inv_def group_ok_def one_live_def all_survive_def)
  next
    case (Suc k)
    then show ?case using remove_step_ok [OF srt, of k] by simp
  qed
  then show ?thesis by (simp add: remove_row_def)
qed

text \<open>What \<^verbatim>\<open>remove_conflicts\<close> makes of a row \<open>as\<close>.\<close>

definition resolved :: "action list \<Rightarrow> action list \<Rightarrow> nat \<Rightarrow> bool" where
  "resolved as bs c \<longleftrightarrow> length bs = length as \<and>
     (\<forall>i < length as. \<exists>v. bs ! i = (as ! i)\<lparr>suppressed := v\<rparr>) \<and>
     (\<forall>i < length as. \<forall>j < length as. suppressed (bs ! i) = 0 \<longrightarrow> suppressed (bs ! j) = 0 \<longrightarrow>
        act_symbol (as ! i) = act_symbol (as ! j) \<longrightarrow> i = j) \<and>
     (\<forall>i < length as. nonassoc_tie as (length as) (act_symbol (as ! i)) \<or>
        (\<exists>j < length as. act_symbol (as ! j) = act_symbol (as ! i) \<and> suppressed (bs ! j) = 0)) \<and>
     c = card {j. j < length as \<and> suppressed (bs ! j) = 1}"

lemma remove_row_resolved:
  assumes "sorted_wrt act_less as" "\<forall>a \<in> set as. suppressed a = 0"
  shows "resolved as (row_actions (remove_row is_final as))
    (SRcount (remove_row is_final as) + RRcount (remove_row is_final as))"
proof -
  from remove_row_ok [OF assms, of is_final] obtain s where
    row: "row_actions (remove_row is_final as) = flagged as s" and
    I: "conflict_inv as (length as) s (pref (remove_row is_final as)) (cur_symbol (remove_row is_final as))
      (SRcount (remove_row is_final as) + RRcount (remove_row is_final as))"
    by (auto simp: conflict_state_ok_def)
  have "{j. j < length as \<and> suppressed (flagged as s ! j) = 1} = {j. j < length as \<and> s j = 1}" by auto
  note C = conflict_invD(3-5) [OF I, unfolded one_live_def all_survive_def]
  have fl: "suppressed (flagged as s ! j) = s j" if "j < length as" for j using that by simp
  show ?thesis
    unfolding resolved_def row
  proof (intro conjI allI impI)
    fix i assume i: "i < length as"
    then show "\<exists>v. flagged as s ! i = (as ! i)\<lparr>suppressed := v\<rparr>" by auto
    from C(2) i fl show "nonassoc_tie as (length as) (act_symbol (as ! i)) \<or>
        (\<exists>j < length as. act_symbol (as ! j) = act_symbol (as ! i) \<and> suppressed (flagged as s ! j) = 0)"
      by metis
  next
    fix i j assume "i < length as" "j < length as" "suppressed (flagged as s ! i) = 0"
      "suppressed (flagged as s ! j) = 0" "act_symbol (as ! i) = act_symbol (as ! j)"
    then show "i = j" using C(1) fl by metis
  next
    show "SRcount (remove_row is_final as) + RRcount (remove_row is_final as) =
        card {j. j < length as \<and> suppressed (flagged as s ! j) = 1}"
      using C(3) by (simp only: \<open>{j. j < length as \<and> suppressed (flagged as s ! j) = 1} = _\<close>)
  qed simp
qed

section \<open>Default reductions\<close>

definition live :: "action list \<Rightarrow> action set" where
  "live as = {a \<in> set as. suppressed a = 0}"

lemma sole_reduction_scan_Some:
  assumes "\<forall>a \<in> live as. act_code a = REDUCE \<longrightarrow> act_number a > 0"
  shows "sole_reduction_scan as c r = Some (c', r') \<longleftrightarrow>
    (\<forall>a \<in> live as. act_code a = REDUCE \<and> act_number a = r') \<and> (r = r' \<or> r = 0 \<and> live as \<noteq> {}) \<and>
    c' = c + length (filter (\<lambda>a. suppressed a = 0 \<and> act_symbol a \<noteq> 1) as)"
  using assms
proof (induction as arbitrary: c r)
  case Nil
  then show ?case by (auto simp: live_def)
next
  case (Cons a as)
  have L: "live (a # as) = (if suppressed a = 0 then insert a (live as) else live as)" by (auto simp: live_def)
  have P: "\<forall>a \<in> live as. act_code a = REDUCE \<longrightarrow> act_number a > 0" using Cons.prems by (auto simp: L)
  note IH = Cons.IH [OF P]
  show ?case
  proof (cases "suppressed a = 0")
    case False
    then show ?thesis using IH by (simp add: L)
  next
    case True
    then show ?thesis
      using IH Cons.prems by (cases "act_code a") (auto simp: L)
  qed
qed

text \<open>A default reduction: the row reduces by one rule on every symbol it still has, one of them not \<open>error\<close>.\<close>

lemma sole_reduction_iff:
  assumes "\<forall>a \<in> live as. act_code a = REDUCE \<longrightarrow> act_number a > 0" "0 < r"
  shows "sole_reduction as = r \<longleftrightarrow>
    (\<forall>a \<in> live as. act_code a = REDUCE \<and> act_number a = r) \<and> (\<exists>a \<in> live as. act_symbol a \<noteq> 1)"
proof -
  note S = sole_reduction_scan_Some [OF assms(1), of 0 0]
  have len: "length (filter (\<lambda>a. suppressed a = 0 \<and> act_symbol a \<noteq> 1) as) = 0 \<longleftrightarrow>
      \<not> (\<exists>a \<in> live as. act_symbol a \<noteq> 1)" by (auto simp: live_def filter_empty_conv)
  show ?thesis
  proof (cases "sole_reduction_scan as 0 0")
    case None
    then have "\<not> ((\<forall>a \<in> live as. act_code a = REDUCE \<and> act_number a = r) \<and> live as \<noteq> {})"
      using S [of _ r] by auto
    with None assms(2) show ?thesis by (auto simp: sole_reduction_def)
  next
    case (Some cr)
    obtain c' r' where cr: "cr = (c', r')" by (cases cr)
    from S [of c' r'] Some cr assms(2) len show ?thesis
      by (auto simp: sole_reduction_def split: if_splits)
  qed
qed

section \<open>Unused rules\<close>

lemma mark_used_fold:
  assumes "\<forall>a \<in> set as. act_code a = REDUCE \<longrightarrow> act_number a < length used"
  shows "length (fold mark_used as used) = length used"
    "i < length used \<Longrightarrow> fold mark_used as used ! i \<longleftrightarrow>
       used ! i \<or> (\<exists>a \<in> live as. act_code a = REDUCE \<and> act_number a = i)"
  using assms
proof (induction as arbitrary: used)
  case (Cons a as)
  {
    case 1
    with Cons.IH(1) [of "mark_used a used"] show ?case by (simp add: mark_used_def)
  next
    case 2
    with Cons.IH(2) [of "mark_used a used"] show ?case
      by (auto simp: mark_used_def live_def nth_list_update)
  }
qed (auto simp: live_def)

lemma unused_rules_used:
  assumes "\<forall>as \<in> set rows. \<forall>a \<in> set as. act_code a = REDUCE \<longrightarrow> act_number a < nrules g"
  shows "length (fst (unused_rules g rows)) = nrules g"
    "i < nrules g \<Longrightarrow> fst (unused_rules g rows) ! i \<longleftrightarrow>
       (\<exists>as \<in> set rows. \<exists>a \<in> live as. act_code a = REDUCE \<and> act_number a = i)"
proof -
  have "length (fold (fold mark_used) rows used) = length used \<and>
    (\<forall>i < length used. fold (fold mark_used) rows used ! i \<longleftrightarrow>
      used ! i \<or> (\<exists>as \<in> set rows. \<exists>a \<in> live as. act_code a = REDUCE \<and> act_number a = i))"
    if "\<forall>as \<in> set rows. \<forall>a \<in> set as. act_code a = REDUCE \<longrightarrow> act_number a < length used" for used
    using that
  proof (induction rows arbitrary: used)
    case (Cons as rows)
    have "\<forall>a \<in> set as. act_code a = REDUCE \<longrightarrow> act_number a < length used" using Cons.prems by simp
    note M = mark_used_fold [OF this]
    have "\<forall>as \<in> set rows. \<forall>a \<in> set as. act_code a = REDUCE \<longrightarrow> act_number a < length (fold mark_used as used)"
      using Cons.prems mark_used_fold(1) [of _ used] by simp
    with Cons.IH [of "fold mark_used as used"] Cons.prems M show ?case by auto
  qed simp
  from this [of "replicate (nrules g) False"] assms
  show "length (fst (unused_rules g rows)) = nrules g"
    "i < nrules g \<Longrightarrow> fst (unused_rules g rows) ! i \<longleftrightarrow>
       (\<exists>as \<in> set rows. \<exists>a \<in> live as. act_code a = REDUCE \<and> act_number a = i)"
    by (simp_all add: unused_rules_def Let_def)
qed

section \<open>The whole of \<^verbatim>\<open>make_parser\<close>\<close>

lemma parse_actions_zero:
  assumes "set as = row_of g st q"
  shows "\<forall>a \<in> set as. suppressed a = 0"
  unfolding assms row_of_def shift_action_def reduce_action_def by auto

text \<open>What the tables say of one state.\<close>

definition row_ok :: "grammar \<Rightarrow> lr0_state \<Rightarrow> parser_tables \<Rightarrow> nat \<Rightarrow> bool" where
  "row_ok g st p q \<longleftrightarrow> (\<exists>as. sorted_wrt act_less as \<and> set as = row_of g st q \<and>
     resolved as (parser p ! q) (SRconflicts p ! q + RRconflicts p ! q))"

definition parser_ok :: "grammar \<Rightarrow> lr0_state \<Rightarrow> parser_tables \<Rightarrow> bool" where
  "parser_ok g st p \<longleftrightarrow>
     length (parser p) = length (cores st) \<and> length (SRconflicts p) = length (cores st) \<and>
     length (RRconflicts p) = length (cores st) \<and> (\<forall>q < length (cores st). row_ok g st p q) \<and>
     lr_trans g st 0 (Suc (start_symbol g)) (final_state p) \<and>
     SRtotal p = sum_list (SRconflicts p) \<and> RRtotal p = sum_list (RRconflicts p) \<and>
     defred p = map sole_reduction (parser p) \<and>
     (rules_used p, nunused p) = unused_rules g (parser p)"

lemma act_sorted_distinct: "sorted_wrt act_less as \<Longrightarrow> distinct as"
proof -
  have "\<not> act_less a a" for a by (simp add: act_less_def)
  then show "sorted_wrt act_less as \<Longrightarrow> distinct as"
    by (metis sorted_wrt_iff_nth_less distinct_conv_nth nat_neq_iff)
qed

text \<open>A state has no more conflicts than actions.\<close>

lemma resolved_count:
  assumes "resolved as bs c" "sorted_wrt act_less as"
  shows "c \<le> card (set as)"
proof -
  have "c = card {j. j < length as \<and> suppressed (bs ! j) = 1}" using assms(1) by (simp add: resolved_def)
  also have "\<dots> \<le> card {..<length as}" by (rule card_mono) auto
  also have "\<dots> = card (set as)" using distinct_card [OF act_sorted_distinct [OF assms(2)]] by simp
  finally show ?thesis .
qed

lemma make_parser_correct:
  assumes wf: "wf_grammar g" and E: "automaton g st" and T: "tables_ok g st t" and LA: "LA_ok g st t LA"
  shows "make_parser g t LA (length (cores st)) = Inl OutOfShort \<and>
      (\<exists>q < length (cores st). MAXSHORT < card (row_of g st q)) \<or>
    (\<exists>p. make_parser g t LA (length (cores st)) = Inr p \<and> parser_ok g st p)"
proof -
  obtain s where s: "find_final_state g t = Inr s" "lr_trans g st 0 (Suc (start_symbol g)) s"
    using find_final_state_correct [OF wf E T] by blast
  let ?n = "length (cores st)"
  let ?acts = "map (parse_actions g t LA) [0..<?n]"
  let ?rows = "map (\<lambda>i. remove_row (i = s) (?acts ! i)) [0..<length ?acts]"
  let ?used = "unused_rules g (map row_actions ?rows)"
  let ?p = "\<lparr>parser = map row_actions ?rows, final_state = s, SRconflicts = map SRcount ?rows,
      RRconflicts = map RRcount ?rows, SRtotal = sum_list (map SRcount ?rows),
      RRtotal = sum_list (map RRcount ?rows), rules_used = fst ?used, nunused = snd ?used,
      defred = defreds (map row_actions ?rows)\<rparr>"
  have R: "resolved (parse_actions g t LA q) (row_actions (?rows ! q)) (SRcount (?rows ! q) + RRcount (?rows ! q))"
    "sorted_wrt act_less (parse_actions g t LA q)" "set (parse_actions g t LA q) = row_of g st q" if q: "q < ?n" for q
  proof -
    note P = parse_actions_correct [OF wf E T LA q]
    from remove_row_resolved [OF P(1) parse_actions_zero [OF P(2)], of "q = s"] q P
    show "resolved (parse_actions g t LA q) (row_actions (?rows ! q)) (SRcount (?rows ! q) + RRcount (?rows ! q))"
      "sorted_wrt act_less (parse_actions g t LA q)" "set (parse_actions g t LA q) = row_of g st q" by simp_all
  qed
  have make: "make_parser g t LA ?n = Inl OutOfShort \<and> (\<exists>q < ?n. MAXSHORT < card (row_of g st q)) \<or>
      make_parser g t LA ?n = Inr ?p"
  proof (cases "list_ex (\<lambda>row. MAXSHORT < SRcount row \<or> MAXSHORT < RRcount row) ?rows")
    case True
    then obtain q where q: "q < ?n" "MAXSHORT < SRcount (?rows ! q) + RRcount (?rows ! q)"
      by (fastforce simp: list_ex_iff)
    from less_le_trans [OF q(2) resolved_count [OF R(1,2) [OF q(1)]]] have "MAXSHORT < card (row_of g st q)"
      unfolding R(3) [OF q(1)] .
    with q(1) True show ?thesis unfolding make_parser_def s(1) Let_def remove_conflicts_def by auto
  next
    case False
    then show ?thesis unfolding make_parser_def s(1) Let_def remove_conflicts_def by (simp add: case_prod_beta)
  qed
  have "row_ok g st ?p q" if q: "q < ?n" for q
    using R [OF q] q unfolding row_ok_def by (intro exI [of _ "parse_actions g t LA q"]) simp
  then have "parser_ok g st ?p" using s(2) by (simp add: parser_ok_def defreds_def)
  with make show ?thesis by blast
qed

section \<open>Properties\<close>

text \<open>
  C17: conflict resolution on a row as \<^verbatim>\<open>parse_actions\<close> builds it.  Afterwards a symbol has at
  most one live action; it keeps one unless a shift that is neither left nor right associative meets
  a reduction of the same precedence; and the two counters add up to the number of actions marked
  as dropped by a conflict.
\<close>

theorem conflict_resolution:
  assumes "sorted_wrt act_less as" "\<forall>a \<in> set as. suppressed a = 0"
  shows "(\<forall>i < length as. \<forall>j < length as.
      suppressed (row_actions (remove_row is_final as) ! i) = 0 \<longrightarrow>
      suppressed (row_actions (remove_row is_final as) ! j) = 0 \<longrightarrow>
      act_symbol (as ! i) = act_symbol (as ! j) \<longrightarrow> i = j) \<and>
    (\<forall>i < length as. nonassoc_tie as (length as) (act_symbol (as ! i)) \<or>
      (\<exists>j < length as. act_symbol (as ! j) = act_symbol (as ! i) \<and>
         suppressed (row_actions (remove_row is_final as) ! j) = 0)) \<and>
    SRcount (remove_row is_final as) + RRcount (remove_row is_final as) =
      card {j. j < length as \<and> suppressed (row_actions (remove_row is_final as) ! j) = 1}"
  using remove_row_resolved [OF assms, of is_final] unfolding resolved_def by blast

definition clash_row :: "action list" where
  "clash_row =
     [\<lparr>act_symbol = 2, act_number = 5, act_prec = 0, act_code = SHIFT, act_assoc = 0, suppressed = 0\<rparr>,
      \<lparr>act_symbol = 2, act_number = 3, act_prec = 0, act_code = REDUCE, act_assoc = 0, suppressed = 0\<rparr>]"

theorem conflict_resolution_witness:
  "map suppressed (row_actions (remove_row False clash_row)) = [0, 1] \<and> SRcount (remove_row False clash_row) = 1 \<and>
   card {j. j < length clash_row \<and> suppressed (row_actions (remove_row False clash_row) ! j) = 1} = 1"
proof -
  have r: "map suppressed (row_actions (remove_row False clash_row)) = [0, 1]"
    "SRcount (remove_row False clash_row) = 1" "RRcount (remove_row False clash_row) = 0"
    by (simp_all add: remove_row_def clash_row_def remove_step_def suppress_def)
  have "sorted_wrt act_less clash_row" "\<forall>a \<in> set clash_row. suppressed a = 0"
    by (simp_all add: clash_row_def act_less_def)
  from conflict_resolution [OF this, of False] r(2,3) have
    "card {j. j < length clash_row \<and> suppressed (row_actions (remove_row False clash_row) ! j) = 1} = 1"
    by linarith
  with r show ?thesis by blast
qed

text \<open>
  A state gets a default reduction exactly if all its live actions reduce by one rule and one
  of them is on a symbol other than \<^verbatim>\<open>error\<close>.
\<close>

theorem default_reduction_iff:
  assumes "\<forall>a \<in> set as. suppressed a = 0 \<longrightarrow> act_code a = REDUCE \<longrightarrow> act_number a > 0" "0 < r"
  shows "sole_reduction as = r \<longleftrightarrow>
    (\<forall>a \<in> set as. suppressed a = 0 \<longrightarrow> act_code a = REDUCE \<and> act_number a = r) \<and>
    (\<exists>a \<in> set as. suppressed a = 0 \<and> act_symbol a \<noteq> 1)"
  using sole_reduction_iff [of as r] assms by (auto simp: live_def)

theorem default_reduction_iff_witness:
  "sole_reduction (tl clash_row) = 3 \<longleftrightarrow>
    (\<forall>a \<in> set (tl clash_row). suppressed a = 0 \<longrightarrow> act_code a = REDUCE \<and> act_number a = 3) \<and>
    (\<exists>a \<in> set (tl clash_row). suppressed a = 0 \<and> act_symbol a \<noteq> 1)"
  by (rule default_reduction_iff) (simp_all add: clash_row_def)

text \<open>
  \<^verbatim>\<open>unused_rules\<close> marks exactly the rules that some live action reduces by, and counts the rules
  of the input that are not marked.
\<close>

theorem unused_rules_exact:
  assumes "\<forall>as \<in> set rows. \<forall>a \<in> set as. act_code a = REDUCE \<longrightarrow> act_number a < nrules g"
  shows "snd (unused_rules g rows) = card {i \<in> {3..<nrules g}.
    \<not> (\<exists>as \<in> set rows. \<exists>a \<in> set as. suppressed a = 0 \<and> act_code a = REDUCE \<and> act_number a = i)}"
proof -
  note U = unused_rules_used [OF assms]
  have "snd (unused_rules g rows) = length (filter (\<lambda>i. \<not> fst (unused_rules g rows) ! i) [3..<nrules g])"
    by (simp add: unused_rules_def Let_def)
  also have "\<dots> = card (set (filter (\<lambda>i. \<not> fst (unused_rules g rows) ! i) [3..<nrules g]))"
    by (rule distinct_card [symmetric]) simp
  also have "set (filter (\<lambda>i. \<not> fst (unused_rules g rows) ! i) [3..<nrules g]) = {i \<in> {3..<nrules g}.
    \<not> (\<exists>as \<in> set rows. \<exists>a \<in> set as. suppressed a = 0 \<and> act_code a = REDUCE \<and> act_number a = i)}"
  proof (intro set_eqI iffI)
    fix i assume "i \<in> set (filter (\<lambda>i. \<not> fst (unused_rules g rows) ! i) [3..<nrules g])"
    then have "i \<in> {3..<nrules g}" "\<not> fst (unused_rules g rows) ! i" by simp_all
    with U(2) [of i] show "i \<in> {i \<in> {3..<nrules g}.
      \<not> (\<exists>as \<in> set rows. \<exists>a \<in> set as. suppressed a = 0 \<and> act_code a = REDUCE \<and> act_number a = i)}"
      by (auto simp: live_def)
  next
    fix i assume "i \<in> {i \<in> {3..<nrules g}.
      \<not> (\<exists>as \<in> set rows. \<exists>a \<in> set as. suppressed a = 0 \<and> act_code a = REDUCE \<and> act_number a = i)}"
    with U(2) [of i] show "i \<in> set (filter (\<lambda>i. \<not> fst (unused_rules g rows) ! i) [3..<nrules g])"
      by (auto simp: live_def)
  qed
  finally show ?thesis .
qed

theorem unused_rules_exact_witness:
  "snd (unused_rules sample_grammar [clash_row]) = card {i \<in> {3..<nrules sample_grammar}.
    \<not> (\<exists>as \<in> set [clash_row]. \<exists>a \<in> set as. suppressed a = 0 \<and> act_code a = REDUCE \<and> act_number a = i)}"
  by (rule unused_rules_exact) (simp add: clash_row_def sample_grammar_def)

end
