(* ===== verification/Pack.thy ===== *)
theory Pack
  imports Mkpar
begin

text \<open>
  \<^verbatim>\<open>jay/output.c\<close>, from \<^verbatim>\<open>token_actions\<close> to \<^verbatim>\<open>pack_table\<close>: the rows of the parser become
  vectors of (key, entry) pairs, one per state for its shifts, one per state for its reductions, one
  per nonterminal for its gotos, and the vectors are overlaid in one table, checked by the key.  The
  lemmas show that looking a key up in the packed table gives the entry of the vector and nothing
  else, whatever was overlaid.
\<close>

section \<open>Vectors\<close>

text \<open>\<^verbatim>\<open>froms\<close>, \<^verbatim>\<open>tos\<close>, \<^verbatim>\<open>tally\<close> and \<^verbatim>\<open>width\<close>; the empty list is the null pointer of a vector never set.\<close>

record vectors =
  froms :: "int list list"
  tos :: "int list list"
  tally :: "nat list"
  width :: "int list"

definition no_vectors :: "nat \<Rightarrow> vectors" where
  "no_vectors n = \<lparr>froms = replicate n [], tos = replicate n [], tally = replicate n 0, width = replicate n 0\<rparr>"

definition set_vector :: "nat \<Rightarrow> int list \<Rightarrow> int list \<Rightarrow> int \<Rightarrow> vectors \<Rightarrow> vectors" where
  "set_vector i fs ts w av =
     av\<lparr>froms := (froms av)[i := fs], tos := (tos av)[i := ts], width := (width av)[i := short w]\<rparr>"

section \<open>token\_actions\<close>

definition put_action :: "nat \<Rightarrow> nat \<Rightarrow> action \<Rightarrow> nat list \<times> nat \<times> nat \<Rightarrow> nat list \<times> nat \<times> nat" where
  "put_action nt dr p = (\<lambda>(actionrow, shiftcount, reducecount).
     if suppressed p = 0 then
       if act_code p = SHIFT then (actionrow[act_symbol p := act_number p], shiftcount + 1, reducecount)
       else if act_code p = REDUCE \<and> act_number p \<noteq> dr
       then (actionrow[act_symbol p + nt := act_number p], shiftcount, reducecount + 1)
       else (actionrow, shiftcount, reducecount)
     else (actionrow, shiftcount, reducecount))"

text \<open>The loop that fills \<^verbatim>\<open>froms\<close> and \<^verbatim>\<open>tos\<close> from one half of \<^verbatim>\<open>actionrow\<close>, and follows \<^verbatim>\<open>min\<close> and \<^verbatim>\<open>max\<close>.\<close>

definition take_entry :: "grammar \<Rightarrow> nat list \<Rightarrow> nat \<Rightarrow> int \<Rightarrow> nat \<Rightarrow>
    int \<times> int \<times> int list \<times> int list \<Rightarrow> int \<times> int \<times> int list \<times> int list" where
  "take_entry g actionrow off d j = (\<lambda>(mn, mx, r, s).
     if actionrow ! (off + j) \<noteq> 0
     then (if mn > symbol_value g ! j then symbol_value g ! j else mn,
           if mx < symbol_value g ! j then symbol_value g ! j else mx,
           r @ [symbol_value g ! j], s @ [int (actionrow ! (off + j)) - d])
     else (mn, mx, r, s))"

definition take_entries :: "grammar \<Rightarrow> nat list \<Rightarrow> nat \<Rightarrow> int \<Rightarrow> int \<times> int \<times> int list \<times> int list" where
  "take_entries g actionrow off d =
     fold (take_entry g actionrow off d) [0..<ntokens g] (int MAXSHORT, 0, [], [])"

definition token_row :: "grammar \<Rightarrow> nat \<Rightarrow> parser_tables \<Rightarrow> nat \<Rightarrow> vectors \<Rightarrow> vectors" where
  "token_row g nstates p i av =
     (if parser p ! i = [] then av
      else
        let (actionrow, shiftcount, reducecount) =
              fold (put_action (ntokens g) (defred p ! i)) (parser p ! i) (replicate (2 * ntokens g) 0, 0, 0);
            av = av\<lparr>tally := (tally av)[i := shiftcount, nstates + i := reducecount],
                    width := (width av)[i := 0, nstates + i := 0]\<rparr>;
            av = (if shiftcount > 0
                  then let (mn, mx, r, s) = take_entries g actionrow 0 0 in set_vector i r s (mx - mn + 1) av
                  else av)
        in (if reducecount > 0
            then let (mn, mx, r, s) = take_entries g actionrow (ntokens g) 2
                 in set_vector (nstates + i) r s (mx - mn + 1) av
            else av))"

definition token_actions :: "grammar \<Rightarrow> nat \<Rightarrow> parser_tables \<Rightarrow> vectors \<Rightarrow> vectors" where
  "token_actions g nstates p av = fold (token_row g nstates p) [0..<nstates] av"

section \<open>goto\_actions\<close>

definition default_goto :: "grammar \<Rightarrow> lalr_tables \<Rightarrow> nat \<Rightarrow> nat \<Rightarrow> nat" where
  "default_goto g t nstates symbol =
     (let m = goto_map t ! (symbol - ntokens g); n = goto_map t ! (symbol + 1 - ntokens g) in
      if m = n then 0
      else
        let state_count = fold (\<lambda>i cnt. cnt[to_state t ! i := cnt ! (to_state t ! i) + 1]) [m..<n] (replicate nstates 0);
            (mx, default_state) =
              fold (\<lambda>i (mx, ds). if state_count ! i > mx then (state_count ! i, i) else (mx, ds)) [0..<nstates] (0::nat, 0)
        in default_state)"

definition save_column :: "grammar \<Rightarrow> lalr_tables \<Rightarrow> nat \<Rightarrow> nat \<Rightarrow> nat \<Rightarrow> vectors \<Rightarrow> vectors" where
  "save_column g t nstates symbol default_state av =
     (let m = goto_map t ! (symbol - ntokens g); n = goto_map t ! (symbol + 1 - ntokens g);
          others = filter (\<lambda>i. to_state t ! i \<noteq> default_state) [m..<n];
          cnt = length others
      in if cnt = 0 then av
         else
           let symno = nat (symbol_value g ! symbol) + 2 * nstates;
               sp = map (\<lambda>i. int (from_state t ! i)) others;
               sp2 = map (\<lambda>i. int (to_state t ! i)) others
           in (set_vector symno sp sp2 (last sp - hd sp + 1) av)\<lparr>tally := (tally av)[symno := cnt]\<rparr>)"

text \<open>The numbers printed into \<^verbatim>\<open>yyDgoto\<close>, the goal's first, and the vectors with the columns added.\<close>

definition goto_step :: "grammar \<Rightarrow> lalr_tables \<Rightarrow> nat \<Rightarrow> nat \<Rightarrow> nat list \<times> vectors \<Rightarrow> nat list \<times> vectors" where
  "goto_step g t nstates i = (\<lambda>(dgoto, av).
     let k = default_goto g t nstates i in (dgoto @ [k], save_column g t nstates i k av))"

definition goto_actions :: "grammar \<Rightarrow> lalr_tables \<Rightarrow> nat \<Rightarrow> vectors \<Rightarrow> nat list \<times> vectors" where
  "goto_actions g t nstates av =
     fold (goto_step g t nstates) [start_symbol g + 2..<nsyms g]
       (goto_step g t nstates (start_symbol g + 1) ([], av))"

section \<open>sort\_actions\<close>

text \<open>
  The two walks down from the end of \<^verbatim>\<open>order\<close>, then the insertion behind where they stop.  \<^verbatim>\<open>order\<close> holds
  \<^verbatim>\<open>short\<close>s, but there are up to two vectors for each state and one for each nonterminal.
\<close>

definition insert_place :: "vectors \<Rightarrow> nat \<Rightarrow> nat list \<Rightarrow> nat list" where
  "insert_place av i order =
     (let t = tally av ! i; w = width av ! i;
          r1 = dropWhile (\<lambda>j. width av ! j < w) (rev order);
          r2 = dropWhile (\<lambda>j. width av ! j = w \<and> tally av ! j < t) r1
      in rev r2 @ i # drop (length r2) order)"

definition insert_vector :: "vectors \<Rightarrow> nat \<Rightarrow> nat list \<Rightarrow> jay_error + nat list" where
  "insert_vector av i order =
     (if tally av ! i > 0 then
        if MAXSHORT < i then Inl OutOfShort else Inr (insert_place av i order)
      else Inr order)"

definition sort_actions :: "vectors \<Rightarrow> nat \<Rightarrow> jay_error + nat list" where
  "sort_actions av nvectors = fold_sum (insert_vector av) [0..<nvectors] []"

section \<open>pack\_table\<close>

text \<open>The arrays of the packer; \<^verbatim>\<open>maxtable\<close> is the length of \<open>tbl\<close> and \<open>chk\<close>.\<close>

record pack_state =
  base :: "int list"
  pos :: "int list"
  tbl :: "int list"
  chk :: "int list"
  lowzero :: nat
  high :: nat

text \<open>The loop over the earlier vectors of the same size, from the last one down; \<open>- 1\<close> for none.\<close>

fun match_prev :: "vectors \<Rightarrow> nat \<Rightarrow> nat list \<Rightarrow> int" where
  "match_prev av i [] = - 1"
| "match_prev av i (j # js) =
     (if width av ! j \<noteq> width av ! i \<or> tally av ! j \<noteq> tally av ! i then - 1
      else if list_all (\<lambda>k. tos av ! j ! k = tos av ! i ! k \<and> froms av ! j ! k = froms av ! i ! k) [0..<tally av ! i]
      then int j
      else match_prev av i js)"

definition matching_vector :: "vectors \<Rightarrow> nat \<Rightarrow> nat list \<Rightarrow> nat \<Rightarrow> int" where
  "matching_vector av nstates order vector =
     (let i = order ! vector in
      if i \<ge> 2 * nstates then - 1 else match_prev av i (rev (take vector order)))"

text \<open>\<^verbatim>\<open>do { newmax += 200; } while (newmax <= loc)\<close>.\<close>

function grown :: "nat \<Rightarrow> nat \<Rightarrow> nat" where
  "grown newmax loc = (if newmax + 200 \<le> loc then grown (newmax + 200) loc else newmax + 200)"
  by pat_completeness auto
termination by (relation "measure (\<lambda>(newmax, loc). loc - newmax)") auto

declare grown.simps [simp del]

definition grow_table :: "int \<Rightarrow> pack_state \<Rightarrow> jay_error + pack_state" where
  "grow_table loc ps =
     (let maxtable = length (chk ps) in
      if loc \<ge> int maxtable then
        if loc \<ge> int MAXTABLE then Inl (Fatal ''maximum table size exceeded'')
        else
          let newmax = grown maxtable (nat loc)
          in Inr (ps\<lparr>tbl := tbl ps @ replicate (newmax - maxtable) 0,
                     chk := chk ps @ replicate (newmax - maxtable) (- 1)\<rparr>)
      else Inr ps)"

text \<open>The loop that tries offset \<open>j\<close>: it stops at the first place already taken.\<close>

fun try_places :: "int \<Rightarrow> int list \<Rightarrow> pack_state \<Rightarrow> jay_error + bool \<times> pack_state" where
  "try_places j [] ps = Inr (True, ps)"
| "try_places j (f # fs) ps =
     (case grow_table (j + f) ps of
        Inl e \<Rightarrow> Inl e
      | Inr ps \<Rightarrow> if chk ps ! nat (j + f) \<noteq> - 1 then Inr (False, ps) else try_places j fs ps)"

text \<open>
  \<^verbatim>\<open>maxtable\<close> can pass \<open>MAXTABLE\<close> by the last step of 200; the bound \<open>table_bound\<close> is kept by
  every growth, and an offset that is not refused stays below it.
\<close>

definition table_bound :: "pack_state \<Rightarrow> int" where
  "table_bound ps = max (int (length (chk ps))) (int MAXTABLE + 200)"

lemma grown_bounds:
  "n \<le> loc \<Longrightarrow> loc < grown n loc" "n \<le> loc \<Longrightarrow> grown n loc \<le> loc + 200" "n < grown n loc"
proof -
  have "n < grown n loc \<and> (n \<le> loc \<longrightarrow> loc < grown n loc \<and> grown n loc \<le> loc + 200)"
    by (induction n loc rule: grown.induct) (subst (1 2 3) grown.simps, auto)
  then show "n \<le> loc \<Longrightarrow> loc < grown n loc" "n \<le> loc \<Longrightarrow> grown n loc \<le> loc + 200" "n < grown n loc" by blast+
qed

lemma grow_table_cases:
  assumes "grow_table loc ps = Inr ps'"
  shows "loc < int (length (chk ps'))" "loc < table_bound ps" "table_bound ps' = table_bound ps"
    "\<exists>m. ps' = ps\<lparr>tbl := tbl ps @ replicate m 0, chk := chk ps @ replicate m (- 1)\<rparr>"
proof -
  have "loc < int (length (chk ps')) \<and> loc < table_bound ps \<and> table_bound ps' = table_bound ps \<and>
    (\<exists>m. ps' = ps\<lparr>tbl := tbl ps @ replicate m 0, chk := chk ps @ replicate m (- 1)\<rparr>)"
  proof (cases "loc \<ge> int (length (chk ps))")
    case False
    then have "ps' = ps" using assms by (auto simp: grow_table_def Let_def)
    then show ?thesis using False by (auto simp: table_bound_def intro: exI [of _ 0])
  next
    case True
    then have lt: "loc < int MAXTABLE" and ps': "ps' = ps\<lparr>tbl := tbl ps @ replicate (grown (length (chk ps)) (nat loc) - length (chk ps)) 0,
        chk := chk ps @ replicate (grown (length (chk ps)) (nat loc) - length (chk ps)) (- 1)\<rparr>"
      using assms by (auto simp: grow_table_def Let_def split: if_splits)
    from True have n: "length (chk ps) \<le> nat loc" by linarith
    note G = grown_bounds(1,2) [OF n]
    have len: "length (chk ps') = grown (length (chk ps)) (nat loc)" using G n by (simp add: ps')
    have "loc < int (length (chk ps'))" using G True unfolding len by linarith
    moreover have "table_bound ps' = table_bound ps" using G True lt unfolding table_bound_def len by linarith
    moreover have "loc < table_bound ps" using lt by (simp add: table_bound_def)
    ultimately show ?thesis using ps' by blast
  qed
  then show "loc < int (length (chk ps'))" "loc < table_bound ps" "table_bound ps' = table_bound ps"
    "\<exists>m. ps' = ps\<lparr>tbl := tbl ps @ replicate m 0, chk := chk ps @ replicate m (- 1)\<rparr>" by blast+
qed

lemma try_places_bound:
  assumes "try_places j fs ps = Inr (ok, ps')"
  shows "table_bound ps' = table_bound ps" "fs \<noteq> [] \<Longrightarrow> j + hd fs < table_bound ps"
proof -
  have "table_bound ps' = table_bound ps \<and> (fs \<noteq> [] \<longrightarrow> j + hd fs < table_bound ps)"
    using assms
  proof (induction j fs ps rule: try_places.induct)
    case (2 j f fs ps)
    then obtain ps1 where G: "grow_table (j + f) ps = Inr ps1" by (auto split: sum.splits)
    note B = grow_table_cases(2,3) [OF G]
    show ?case using 2 G B by (auto split: if_splits)
  qed simp
  then show "table_bound ps' = table_bound ps" "fs \<noteq> [] \<Longrightarrow> j + hd fs < table_bound ps" by blast+
qed

definition put_entry :: "int \<Rightarrow> int \<times> int \<Rightarrow> pack_state \<Rightarrow> pack_state" where
  "put_entry j = (\<lambda>(f, v) ps.
     let loc = nat (j + f) in
     ps\<lparr>tbl := (tbl ps)[loc := v], chk := (chk ps)[loc := f], high := (if loc > high ps then loc else high ps)\<rparr>)"

text \<open>\<^verbatim>\<open>while (check[lowzero] != -1) ++lowzero\<close> does not look at \<^verbatim>\<open>maxtable\<close>: a full table is left.\<close>

definition next_zero :: "pack_state \<Rightarrow> jay_error + pack_state" where
  "next_zero ps =
     (let low = lowzero ps + length (takeWhile (\<lambda>c. c \<noteq> - 1) (drop (lowzero ps) (chk ps)))
      in if low < length (chk ps) then Inr (ps\<lparr>lowzero := low\<rparr>) else Inl BadAccess)"

definition first_offset :: "nat \<Rightarrow> int list \<Rightarrow> int" where
  "first_offset low fs =
     fold (\<lambda>f j. if int low - f > j then int low - f else j) (tl fs) (int low - hd fs)"

function place_from :: "int \<Rightarrow> int list \<Rightarrow> int list \<Rightarrow> nat \<Rightarrow> pack_state \<Rightarrow> jay_error + int \<times> pack_state" where
  "place_from j fs ts vector ps =
     (if fs = [] then Inl AssertFailed
      else if j = 0 then place_from (j + 1) fs ts vector ps
      else
        case try_places j fs ps of
          Inl e \<Rightarrow> Inl e
        | Inr (ok, ps) \<Rightarrow>
            if ok \<and> \<not> list_ex (\<lambda>k. pos ps ! k = j) [0..<vector]
            then (case next_zero (fold (put_entry j) (zip fs ts) ps) of
                    Inl e \<Rightarrow> Inl e
                  | Inr ps \<Rightarrow> Inr (j, ps))
            else place_from (j + 1) fs ts vector ps)"
  by pat_completeness auto
termination
proof (relation "measure (\<lambda>(j, fs, ts, vector, ps). nat (table_bound ps - hd fs - j) + nat (1 - j))", goal_cases)
  case (3 j fs ts vector ps bp ok ps')
  then have "table_bound ps' = table_bound ps" "j + hd fs < table_bound ps"
    using try_places_bound [of j fs ps ok ps'] by auto
  then show ?case by simp
qed auto

declare place_from.simps [simp del]

definition pack_vector :: "vectors \<Rightarrow> nat list \<Rightarrow> nat \<Rightarrow> pack_state \<Rightarrow> jay_error + int \<times> pack_state" where
  "pack_vector av order vector ps =
     (let i = order ! vector; t = tally av ! i in
      if t = 0 then Inl AssertFailed
      else
        let fs = take t (froms av ! i); ts = take t (tos av ! i)
        in place_from (first_offset (lowzero ps) fs) fs ts vector ps)"

definition pack_step :: "vectors \<Rightarrow> nat \<Rightarrow> nat list \<Rightarrow> nat \<Rightarrow> pack_state \<Rightarrow> jay_error + pack_state" where
  "pack_step av nstates order i ps =
     (let state = matching_vector av nstates order i in
      case (if state < 0 then pack_vector av order i ps else Inr (base ps ! nat state, ps)) of
        Inl e \<Rightarrow> Inl e
      | Inr (place, ps) \<Rightarrow>
          Inr (ps\<lparr>pos := (pos ps)[i := place], base := (base ps)[order ! i := place]\<rparr>))"

definition empty_table :: "nat \<Rightarrow> nat \<Rightarrow> pack_state" where
  "empty_table nvectors nentries =
     \<lparr>base = replicate nvectors 0, pos = replicate nentries 0, tbl = replicate 1000 0,
      chk = replicate 1000 (- 1), lowzero = 0, high = 0\<rparr>"

definition pack_table :: "vectors \<Rightarrow> nat \<Rightarrow> nat \<Rightarrow> jay_error + pack_state" where
  "pack_table av nstates nvectors =
     (case sort_actions av nvectors of
        Inl e \<Rightarrow> Inl e
      | Inr order \<Rightarrow> fold_sum (pack_step av nstates order) [0..<length order] (empty_table nvectors (length order)))"

text \<open>
  How the emitted parser reads the table (\<^verbatim>\<open>yySindex\<close>, \<^verbatim>\<open>yyRindex\<close> and \<^verbatim>\<open>yyGindex\<close> are parts of
  \<^verbatim>\<open>base\<close>; the arrays \<^verbatim>\<open>yyTable\<close> and \<^verbatim>\<open>yyCheck\<close> are printed up to \<^verbatim>\<open>high\<close>).
\<close>

definition table_lookup :: "pack_state \<Rightarrow> int \<Rightarrow> int \<Rightarrow> int option" where
  "table_lookup ps b key =
     (if b \<noteq> 0 \<and> 0 \<le> b + key \<and> b + key < int (high ps) + 1 \<and> chk ps ! nat (b + key) = key
      then Some (tbl ps ! nat (b + key)) else None)"

section \<open>The order of the vectors\<close>

definition better :: "vectors \<Rightarrow> nat \<Rightarrow> nat \<Rightarrow> bool" where
  "better av i j \<longleftrightarrow> width av ! i > width av ! j \<or> width av ! i = width av ! j \<and> tally av ! i \<ge> tally av ! j"

lemma better_trans: "better av i j \<Longrightarrow> better av j k \<Longrightarrow> better av i k"
  by (auto simp: better_def)

lemma sorted_wrt_insert:
  "sorted_wrt R (xs @ ys @ zs) \<Longrightarrow> \<forall>x \<in> set xs \<union> set ys. R x i \<Longrightarrow> \<forall>z \<in> set zs. R i z \<Longrightarrow>
   sorted_wrt R (xs @ ys @ i # zs)"
  unfolding sorted_wrt_append list.set set_append sorted_wrt.simps by blast

lemma insert_place_rev:
  fixes order :: "nat list"
  assumes t: "tally av ! i > 0"
  defines "r1 \<equiv> dropWhile (\<lambda>j. width av ! j < width av ! i) (rev order)"
  defines "r2 \<equiv> dropWhile (\<lambda>j. width av ! j = width av ! i \<and> tally av ! j < tally av ! i) r1"
  shows "rev (insert_place av i order) =
    takeWhile (\<lambda>j. width av ! j < width av ! i) (rev order) @
    takeWhile (\<lambda>j. width av ! j = width av ! i \<and> tally av ! j < tally av ! i) r1 @ i # r2"
proof -
  let ?t1 = "takeWhile (\<lambda>j. width av ! j < width av ! i) (rev order)"
  let ?t2 = "takeWhile (\<lambda>j. width av ! j = width av ! i \<and> tally av ! j < tally av ! i) r1"
  have "rev order = ?t1 @ ?t2 @ r2" by (simp add: r1_def r2_def)
  then have "order = rev (?t1 @ ?t2 @ r2)" unfolding rev_swap .
  then have "order = rev r2 @ rev ?t2 @ rev ?t1" unfolding rev_append append_assoc .
  moreover have "drop (length a) order = b" if "order = rev a @ b" for a b using that by simp
  ultimately have "drop (length r2) order = rev ?t2 @ rev ?t1" by blast
  then show ?thesis using t by (simp add: insert_place_def Let_def r1_def r2_def)
qed

lemma insert_place_sorted:
  assumes "sorted_wrt (better av) order" "tally av ! i > 0"
  shows "sorted_wrt (better av) (insert_place av i order)" "set (insert_place av i order) = insert i (set order)"
    "distinct order \<Longrightarrow> i \<notin> set order \<Longrightarrow> distinct (insert_place av i order)"
proof -
  let ?P = "\<lambda>j. width av ! j < width av ! i" and ?Q = "\<lambda>j. width av ! j = width av ! i \<and> tally av ! j < tally av ! i"
  let ?r1 = "dropWhile ?P (rev order)"
  let ?r2 = "dropWhile ?Q ?r1" and ?t1 = "takeWhile ?P (rev order)" and ?t2 = "takeWhile ?Q ?r1"
  note R = insert_place_rev [OF assms(2), of order]
  have split: "rev order = ?t1 @ ?t2 @ ?r2" by simp
  have S: "sorted_wrt (\<lambda>a b. better av b a) (?t1 @ ?t2 @ ?r2)"
    using assms(1) unfolding split [symmetric] by (simp add: sorted_wrt_rev)
  have low: "better av i x" if "x \<in> set ?t1 \<union> set ?t2" for x
    using that by (auto simp: better_def dest: set_takeWhileD)
  have r1: "width av ! i \<le> width av ! y" if "y \<in> set ?r1" for y
  proof (cases ?r1)
    case (Cons z zs)
    then have "\<not> ?P z" using hd_dropWhile [of ?P "rev order"] by simp
    moreover have "sorted_wrt (\<lambda>a b. better av b a) (z # zs)"
      using S unfolding Cons [symmetric] by (simp add: sorted_wrt_append)
    ultimately show ?thesis using that Cons by (auto simp: better_def)
  next
    case Nil
    with that show ?thesis by (simp only: list.set) blast
  qed
  have high: "better av y i" if "y \<in> set ?r2" for y
  proof (cases ?r2)
    case (Cons z zs)
    have "z \<in> set ?r1" using Cons set_dropWhileD [of z ?Q ?r1] by simp
    then have "width av ! i \<le> width av ! z" by (rule r1)
    moreover have "\<not> ?Q z" using hd_dropWhile [of ?Q ?r1] Cons by simp
    ultimately have "better av z i" by (auto simp: better_def)
    moreover have "y = z \<or> better av y z" using S that Cons by (auto simp: sorted_wrt_append)
    ultimately show ?thesis using better_trans by blast
  next
    case Nil
    with that show ?thesis by (simp only: list.set) blast
  qed
  have "sorted_wrt (\<lambda>a b. better av b a) (?t1 @ ?t2 @ i # ?r2)"
    using S low high by (intro sorted_wrt_insert) blast+
  then show "sorted_wrt (better av) (insert_place av i order)"
    unfolding R [symmetric] by (simp add: sorted_wrt_rev)
  have perm: "mset (insert_place av i order) = add_mset i (mset order)"
  proof -
    have "mset (rev (insert_place av i order)) = add_mset i (mset (rev order))"
      unfolding R by (subst split) (simp del: takeWhile_dropWhile_id)
    then show ?thesis by simp
  qed
  then show "set (insert_place av i order) = insert i (set order)"
    by (metis set_mset_add_mset_insert set_mset_mset)
  show "distinct (insert_place av i order)" if "distinct order" "i \<notin> set order"
    using that by (metis perm distinct.simps(2) mset.simps(2) mset_eq_imp_distinct_iff)
qed

text \<open>The order of the vectors with entries, whatever their numbers.\<close>

definition vector_order :: "vectors \<Rightarrow> nat \<Rightarrow> nat list" where
  "vector_order av n = fold (\<lambda>i order. if tally av ! i > 0 then insert_place av i order else order) [0..<n] []"

lemma vector_order_correct:
  shows "sorted_wrt (better av) (vector_order av n)" "distinct (vector_order av n)"
    "set (vector_order av n) = {i. i < n \<and> tally av ! i > 0}"
proof -
  have "sorted_wrt (better av) (vector_order av n) \<and> distinct (vector_order av n) \<and>
    set (vector_order av n) = {i. i < n \<and> tally av ! i > 0}"
  proof (induction n)
    case (Suc n)
    show ?case
    proof (cases "tally av ! n > 0")
      case True
      have step: "vector_order av (Suc n) = insert_place av n (vector_order av n)"
        using True by (simp add: vector_order_def)
      note I = insert_place_sorted [OF conjunct1 [OF Suc] True]
      have new: "n \<notin> set (vector_order av n)" using Suc by simp
      have "set (insert_place av n (vector_order av n)) = {i. i < Suc n \<and> tally av ! i > 0}"
        unfolding I(2) using Suc True by (auto simp: less_Suc_eq)
      then show ?thesis unfolding step using I(1) I(3) [OF _ new] Suc by blast
    next
      case False
      then have step: "vector_order av (Suc n) = vector_order av n" using False by (simp add: vector_order_def)
      have "{i. i < Suc n \<and> tally av ! i > 0} = {i. i < n \<and> tally av ! i > 0}"
        using False by (auto simp: less_Suc_eq)
      with Suc show ?thesis unfolding step by simp
    qed
  qed (simp add: vector_order_def)
  then show "sorted_wrt (better av) (vector_order av n)" "distinct (vector_order av n)"
    "set (vector_order av n) = {i. i < n \<and> tally av ! i > 0}" by blast+
qed

lemma sort_actions_order:
  "sort_actions av n = (if \<exists>v < n. MAXSHORT < v \<and> 0 < tally av ! v then Inl OutOfShort else Inr (vector_order av n))"
proof (induction n)
  case (Suc n)
  have step: "sort_actions av (Suc n) =
      (case sort_actions av n of Inl e \<Rightarrow> Inl e | Inr order \<Rightarrow> insert_vector av n order)"
    by (auto simp: sort_actions_def fold_sum_append split: sum.splits)
  show ?case
  proof (cases "\<exists>v < n. MAXSHORT < v \<and> 0 < tally av ! v")
    case True
    then have "\<exists>v < Suc n. MAXSHORT < v \<and> 0 < tally av ! v" using less_Suc_eq by blast
    with True Suc step show ?thesis by simp
  next
    case False
    then have "(\<exists>v < Suc n. MAXSHORT < v \<and> 0 < tally av ! v) \<longleftrightarrow> MAXSHORT < n \<and> 0 < tally av ! n"
      by (auto simp: less_Suc_eq)
    with False Suc have "sort_actions av n = Inr (vector_order av n)"
      "(\<exists>v < Suc n. MAXSHORT < v \<and> 0 < tally av ! v) \<longleftrightarrow> MAXSHORT < n \<and> 0 < tally av ! n" by auto
    with step show ?thesis by (simp add: insert_vector_def vector_order_def)
  qed
qed (simp add: sort_actions_def vector_order_def)

section \<open>Placing one vector\<close>

definition widened :: "pack_state \<Rightarrow> pack_state \<Rightarrow> bool" where
  "widened ps ps' \<longleftrightarrow> (\<exists>m. ps' = ps\<lparr>tbl := tbl ps @ replicate m 0, chk := chk ps @ replicate m (- 1)\<rparr>)"

lemma widened_refl: "widened ps ps"
  by (auto simp: widened_def intro: exI [of _ 0])

lemma widened_trans: "widened a b \<Longrightarrow> widened b c \<Longrightarrow> widened a c"
  by (auto simp: widened_def replicate_add [symmetric])

lemma widenedD:
  assumes "widened a b"
  shows "base b = base a" "pos b = pos a" "lowzero b = lowzero a" "high b = high a"
    "length (chk a) \<le> length (chk b)" "length (tbl a) = length (chk a) \<Longrightarrow> length (tbl b) = length (chk b)"
    "l < length (chk b) \<Longrightarrow> chk b ! l = (if l < length (chk a) then chk a ! l else - 1)"
    "l < length (tbl a) \<Longrightarrow> tbl b ! l = tbl a ! l"
  using assms by (auto simp: widened_def nth_append)

lemma try_places_ok:
  assumes "try_places j fs ps = Inr (ok, ps')" "\<forall>f \<in> set fs. 0 \<le> j + f"
  shows "widened ps ps'"
    "ok \<longrightarrow> (\<forall>f \<in> set fs. nat (j + f) < length (chk ps') \<and> chk ps' ! nat (j + f) = - 1)"
proof -
  have "widened ps ps' \<and> (ok \<longrightarrow> (\<forall>f \<in> set fs. nat (j + f) < length (chk ps') \<and> chk ps' ! nat (j + f) = - 1))"
    using assms
  proof (induction j fs ps rule: try_places.induct)
    case (2 j f fs ps)
    from 2(2) obtain ps1 where G: "grow_table (j + f) ps = Inr ps1" by (auto split: sum.splits)
    from grow_table_cases(1,4) [OF G] have w: "widened ps ps1" and r: "j + f < int (length (chk ps1))"
      by (auto simp: widened_def)
    show ?case
    proof (cases "chk ps1 ! nat (j + f) = - 1")
      case False
      with 2(2) G w show ?thesis by simp
    next
      case True
      with 2(2) G have rest: "try_places j fs ps1 = Inr (ok, ps')" by simp
      have "\<forall>f \<in> set fs. 0 \<le> j + f" using 2(3) by simp
      from 2(1) [OF G _ rest this] True have IH: "widened ps1 ps'"
        "ok \<longrightarrow> (\<forall>f \<in> set fs. nat (j + f) < length (chk ps') \<and> chk ps' ! nat (j + f) = - 1)" by simp_all
      have "0 \<le> j + f" using 2(3) by simp
      with r have l: "nat (j + f) < length (chk ps1)" by linarith
      then have "nat (j + f) < length (chk ps')" "chk ps' ! nat (j + f) = - 1"
        using widenedD(5,7) [OF IH(1)] True by (auto intro: less_le_trans)
      with IH widened_trans [OF w IH(1)] show ?thesis by simp
    qed
  qed (simp add: widened_refl)
  then show "widened ps ps'"
    "ok \<longrightarrow> (\<forall>f \<in> set fs. nat (j + f) < length (chk ps') \<and> chk ps' ! nat (j + f) = - 1)" by blast+
qed

lemma first_offset_le:
  assumes "f \<in> set fs"
  shows "int low - f \<le> first_offset low fs"
proof -
  let ?G = "\<lambda>f j. if int low - f > j then int low - f else j"
  have up: "j \<le> fold ?G fs j" for j fs
  proof (induction fs arbitrary: j)
    case (Cons f fs)
    have "j \<le> ?G f j" by simp
    with Cons [of "?G f j"] show ?case by (simp only: fold_simps)
  qed simp
  have "\<forall>f \<in> set fs. int low - f \<le> fold ?G fs j" for j fs
  proof (induction fs arbitrary: j)
    case (Cons f fs)
    have "int low - f \<le> ?G f j" by simp
    also have "\<dots> \<le> fold ?G fs (?G f j)" by (rule up)
    finally show ?case using Cons [of "?G f j"] by (simp only: fold_simps list.set ball_simps)
  qed simp
  from this [of "tl fs" "int low - hd fs"] up [of "int low - hd fs" "tl fs"] assms show ?thesis
    unfolding first_offset_def by (cases fs) auto
qed

text \<open>The entries of a vector, written at offset \<open>j\<close>.\<close>

definition written :: "int \<Rightarrow> int list \<Rightarrow> int list \<Rightarrow> pack_state \<Rightarrow> pack_state \<Rightarrow> bool" where
  "written j fs ts ps ps' \<longleftrightarrow>
     base ps' = base ps \<and> pos ps' = pos ps \<and> length (chk ps') = length (chk ps) \<and> length (tbl ps') = length (tbl ps) \<and>
     high ps \<le> high ps' \<and> high ps' < length (chk ps') \<and>
     (\<forall>m < length fs. nat (j + fs ! m) \<le> high ps' \<and>
        chk ps' ! nat (j + fs ! m) = fs ! m \<and> tbl ps' ! nat (j + fs ! m) = ts ! m) \<and>
     (\<forall>l. (\<forall>f \<in> set fs. l \<noteq> nat (j + f)) \<longrightarrow> chk ps' ! l = chk ps ! l \<and> tbl ps' ! l = tbl ps ! l)"

lemma put_entries_written:
  assumes "distinct fs" "length ts = length fs" "\<forall>f \<in> set fs. 0 \<le> j + f \<and> nat (j + f) < length (chk ps)"
    "length (tbl ps) = length (chk ps)" "high ps < length (chk ps)"
  shows "written j fs ts ps (fold (put_entry j) (zip fs ts) ps) \<and> lowzero (fold (put_entry j) (zip fs ts) ps) = lowzero ps"
  using assms
proof (induction fs arbitrary: ts ps)
  case Nil
  then show ?case by (simp add: written_def)
next
  case (Cons f fs)
  obtain v vs where ts: "ts = v # vs" using Cons.prems(2) by (cases ts) auto
  let ?ps = "put_entry j (f, v) ps" and ?l = "nat (j + f)"
  have ps: "base ?ps = base ps" "pos ?ps = pos ps" "lowzero ?ps = lowzero ps" "chk ?ps = (chk ps)[?l := f]"
    "tbl ?ps = (tbl ps)[?l := v]" "high ?ps = max ?l (high ps)"
    by (auto simp: put_entry_def Let_def max_def)
  have l: "?l < length (chk ps)" "0 \<le> j + f" using Cons.prems(3) by simp_all
  have "written j fs vs ?ps (fold (put_entry j) (zip fs vs) ?ps) \<and>
      lowzero (fold (put_entry j) (zip fs vs) ?ps) = lowzero ?ps"
    by (rule Cons.IH) (use Cons.prems ts ps l in auto)
  then have IH: "written j fs vs ?ps (fold (put_entry j) (zip fs vs) ?ps)"
    "lowzero (fold (put_entry j) (zip fs vs) ?ps) = lowzero ps" using ps by simp_all
  let ?ps' = "fold (put_entry j) (zip fs vs) ?ps"
  have other: "?l \<noteq> nat (j + f')" if "f' \<in> set fs" for f'
    using that Cons.prems(1,3) by (auto simp: nat_eq_iff2)
  have at: "chk ?ps' ! ?l = f" "tbl ?ps' ! ?l = v" "?l \<le> high ?ps'"
    using IH(1) other ps l Cons.prems(4) unfolding written_def by auto
  have "written j (f # fs) (v # vs) ps ?ps'"
    unfolding written_def
  proof (intro conjI allI impI)
    fix m assume m: "m < length (f # fs)"
    show "nat (j + (f # fs) ! m) \<le> high ?ps'" "chk ?ps' ! nat (j + (f # fs) ! m) = (f # fs) ! m"
      "tbl ?ps' ! nat (j + (f # fs) ! m) = (v # vs) ! m"
      using m at IH(1) unfolding written_def by (cases m; simp)+
  next
    fix k assume "\<forall>f' \<in> set (f # fs). k \<noteq> nat (j + f')"
    then show "chk ?ps' ! k = chk ps ! k" "tbl ?ps' ! k = tbl ps ! k"
      using IH(1) ps unfolding written_def by auto
  qed (use IH(1) ps in \<open>auto simp: written_def\<close>)
  then show ?case using IH(2) by (simp add: ts)
qed

lemma next_zero_ok:
  assumes "next_zero ps = Inr ps'"
  shows "\<exists>low. ps' = ps\<lparr>lowzero := low\<rparr>"
  using assms by (auto simp: next_zero_def Let_def split: if_splits)

lemma place_from_ok:
  assumes "place_from j fs ts vector ps = Inr (j', ps')" "\<forall>f \<in> set fs. 0 \<le> j + f"
    "distinct fs" "length ts = length fs" "length (tbl ps) = length (chk ps)" "high ps < length (chk ps)"
  shows "j \<le> j' \<and> j' \<noteq> 0 \<and> (\<forall>k < vector. pos ps ! k \<noteq> j') \<and>
    (\<exists>ps1 ps2 low. widened ps ps1 \<and> (\<forall>f \<in> set fs. nat (j' + f) < length (chk ps1) \<and> chk ps1 ! nat (j' + f) = - 1) \<and>
       written j' fs ts ps1 ps2 \<and> ps' = ps2\<lparr>lowzero := low\<rparr>)"
  using assms
proof (induction j fs ts vector ps rule: place_from.induct)
  case (1 j fs ts vector ps)
  have fs: "fs \<noteq> []" using 1(3) by (auto simp: place_from.simps [of j fs ts vector ps])
  show ?case
  proof (cases "j = 0")
    case True
    have "place_from (j + 1) fs ts vector ps = Inr (j', ps')"
      using 1(3) fs True by (simp add: place_from.simps [of 0 fs ts vector ps])
    from 1(1) [OF fs True this] 1(4-) show ?thesis by fastforce
  next
    case j: False
    obtain ok ps1 where T: "try_places j fs ps = Inr (ok, ps1)"
      using 1(3) fs j by (auto simp: place_from.simps [of j fs ts vector ps] split: sum.splits)
    note W = try_places_ok [OF T 1(4)]
    let ?C = "ok \<and> \<not> list_ex (\<lambda>k. pos ps1 ! k = j) [0..<vector]"
    show ?thesis
    proof (cases ?C)
      case True
      then have "place_from j fs ts vector ps =
          (case next_zero (fold (put_entry j) (zip fs ts) ps1) of Inl e \<Rightarrow> Inl e | Inr ps \<Rightarrow> Inr (j, ps))"
        using fs j T by (simp add: place_from.simps [of j fs ts vector ps])
      with 1(3) have j': "j' = j" and nz: "next_zero (fold (put_entry j) (zip fs ts) ps1) = Inr ps'"
        by (auto split: sum.splits)
      from True W have free: "\<forall>f \<in> set fs. nat (j + f) < length (chk ps1) \<and> chk ps1 ! nat (j + f) = - 1" by blast
      have "written j fs ts ps1 (fold (put_entry j) (zip fs ts) ps1)"
        using put_entries_written [OF 1(5,6)] free 1(4,7,8) widenedD(4-6) [OF W(1)]
        by (metis less_le_trans)
      moreover have "\<forall>k < vector. pos ps ! k \<noteq> j" using True widenedD(2) [OF W(1)] by (auto simp: list_ex_iff)
      ultimately show ?thesis using next_zero_ok [OF nz] W(1) free j j' by blast
    next
      case False
      have go: "place_from (j + 1) fs ts vector ps1 = Inr (j', ps')"
        using 1(3) fs j T False by (simp add: place_from.simps [of j fs ts vector ps] split: if_splits)
      have "j + 1 \<le> j' \<and> j' \<noteq> 0 \<and> (\<forall>k < vector. pos ps1 ! k \<noteq> j') \<and>
        (\<exists>ps2 ps3 low. widened ps1 ps2 \<and> (\<forall>f \<in> set fs. nat (j' + f) < length (chk ps2) \<and> chk ps2 ! nat (j' + f) = - 1) \<and>
         written j' fs ts ps2 ps3 \<and> ps' = ps3\<lparr>lowzero := low\<rparr>)"
        using 1(4-) widenedD(4-6) [OF W(1)] by (intro 1(2) [OF fs j T refl False go]) auto
      with widenedD(2) [OF W(1)] widened_trans [OF W(1)] show ?thesis by (smt (verit))
    qed
  qed
qed

section \<open>The packed table\<close>

definition vectors_ok :: "vectors \<Rightarrow> nat \<Rightarrow> bool" where
  "vectors_ok av n \<longleftrightarrow> length (froms av) = n \<and> length (tos av) = n \<and> length (tally av) = n \<and> length (width av) = n \<and>
     (\<forall>i < n. length (froms av ! i) = tally av ! i \<and> length (tos av ! i) = tally av ! i \<and>
        distinct (froms av ! i) \<and> (\<forall>f \<in> set (froms av ! i). 0 \<le> f))"

text \<open>The invariant after the first \<open>k\<close> vectors of \<open>order\<close>.\<close>

definition offsets_ok :: "vectors \<Rightarrow> nat list \<Rightarrow> nat \<Rightarrow> pack_state \<Rightarrow> bool" where
  "offsets_ok av order k ps \<longleftrightarrow>
     (\<forall>i < k. pos ps ! i \<noteq> 0 \<and> base ps ! (order ! i) = pos ps ! i) \<and>
     (\<forall>i < k. \<forall>i' < k. pos ps ! i = pos ps ! i' \<longrightarrow>
        froms av ! (order ! i) = froms av ! (order ! i') \<and> tos av ! (order ! i) = tos av ! (order ! i')) \<and>
     (\<forall>v < length (base ps). v \<notin> set (take k order) \<longrightarrow> base ps ! v = 0)"

definition entries_in :: "vectors \<Rightarrow> nat list \<Rightarrow> nat \<Rightarrow> pack_state \<Rightarrow> bool" where
  "entries_in av order k ps \<longleftrightarrow> (\<forall>i < k. \<forall>m < length (froms av ! (order ! i)).
     0 \<le> pos ps ! i + froms av ! (order ! i) ! m \<and>
     nat (pos ps ! i + froms av ! (order ! i) ! m) \<le> high ps \<and>
     chk ps ! nat (pos ps ! i + froms av ! (order ! i) ! m) = froms av ! (order ! i) ! m \<and>
     tbl ps ! nat (pos ps ! i + froms av ! (order ! i) ! m) = tos av ! (order ! i) ! m)"

definition entries_from :: "vectors \<Rightarrow> nat list \<Rightarrow> nat \<Rightarrow> pack_state \<Rightarrow> bool" where
  "entries_from av order k ps \<longleftrightarrow> (\<forall>l < length (chk ps). chk ps ! l \<noteq> - 1 \<longrightarrow>
     (\<exists>i < k. chk ps ! l \<in> set (froms av ! (order ! i)) \<and> int l = pos ps ! i + chk ps ! l))"

definition packed :: "vectors \<Rightarrow> nat \<Rightarrow> nat list \<Rightarrow> nat \<Rightarrow> pack_state \<Rightarrow> bool" where
  "packed av n order k ps \<longleftrightarrow>
     length (base ps) = n \<and> length (pos ps) = length order \<and> length (tbl ps) = length (chk ps) \<and>
     high ps < length (chk ps) \<and>
     offsets_ok av order k ps \<and> entries_in av order k ps \<and> entries_from av order k ps"

lemma packedD:
  assumes "packed av n order k ps"
  shows "length (base ps) = n" "length (pos ps) = length order" "length (tbl ps) = length (chk ps)"
    "high ps < length (chk ps)" "offsets_ok av order k ps" "entries_in av order k ps" "entries_from av order k ps"
  using assms unfolding packed_def by blast+

lemma offsets_ok_cong:
  "base ps' = base ps \<Longrightarrow> pos ps' = pos ps \<Longrightarrow> offsets_ok av order k ps' \<longleftrightarrow> offsets_ok av order k ps"
  unfolding offsets_ok_def by (simp only:)

lemma offsets_okD:
  assumes "offsets_ok av order k ps"
  shows "\<forall>i < k. pos ps ! i \<noteq> 0 \<and> base ps ! (order ! i) = pos ps ! i"
    "\<forall>i < k. \<forall>i' < k. pos ps ! i = pos ps ! i' \<longrightarrow>
        froms av ! (order ! i) = froms av ! (order ! i') \<and> tos av ! (order ! i) = tos av ! (order ! i')"
    "\<forall>v < length (base ps). v \<notin> set (take k order) \<longrightarrow> base ps ! v = 0"
  using assms unfolding offsets_ok_def by blast+

lemma entries_inD:
  assumes "entries_in av order k ps" "i < k" "m < length (froms av ! (order ! i))"
  shows "0 \<le> pos ps ! i + froms av ! (order ! i) ! m"
     "nat (pos ps ! i + froms av ! (order ! i) ! m) \<le> high ps"
     "chk ps ! nat (pos ps ! i + froms av ! (order ! i) ! m) = froms av ! (order ! i) ! m"
     "tbl ps ! nat (pos ps ! i + froms av ! (order ! i) ! m) = tos av ! (order ! i) ! m"
  using assms unfolding entries_in_def by blast+

lemma packed_widened:
  assumes P: "packed av n order k ps" and W: "widened ps ps'"
  shows "packed av n order k ps'"
proof -
  note D = widenedD [OF W]
  note len = packedD(3,4) [OF P]
  have "offsets_ok av order k ps'" using packedD(5) [OF P] unfolding offsets_ok_cong [OF D(1,2)] .
  moreover have "entries_in av order k ps'"
    unfolding entries_in_def D(2,4)
  proof (intro allI impI)
    fix i m assume "i < k" "m < length (froms av ! (order ! i))"
    note * = entries_inD [OF packedD(6) [OF P] this]
    have "nat (pos ps ! i + froms av ! (order ! i) ! m) < length (chk ps)" using *(2) len(2) by linarith
    with * D(5,7,8) len(1) show "0 \<le> pos ps ! i + froms av ! (order ! i) ! m \<and>
     nat (pos ps ! i + froms av ! (order ! i) ! m) \<le> high ps \<and>
     chk ps' ! nat (pos ps ! i + froms av ! (order ! i) ! m) = froms av ! (order ! i) ! m \<and>
     tbl ps' ! nat (pos ps ! i + froms av ! (order ! i) ! m) = tos av ! (order ! i) ! m"
      by (simp add: less_le_trans)
  qed
  moreover have "entries_from av order k ps'"
    using packedD(7) [OF P] D(2,7) unfolding entries_from_def by (auto split: if_splits)
  ultimately show ?thesis using packedD(1,2) [OF P] D(1,2,4-6) len by (simp add: packed_def)
qed

text \<open>The step that finds an offset, and the one that shares the offset of an equal vector.\<close>

definition placed :: "nat list \<Rightarrow> nat \<Rightarrow> int \<Rightarrow> pack_state \<Rightarrow> pack_state" where
  "placed order k place ps = ps\<lparr>pos := (pos ps)[k := place], base := (base ps)[order ! k := place]\<rparr>"

lemma placed_offsets:
  assumes O: "offsets_ok av order k ps" and k: "k < length order" "length (pos ps) = length order"
    and d: "distinct order" "order ! k < length (base ps)" and p: "place \<noteq> 0"
    and share: "\<forall>i < k. pos ps ! i = place \<longrightarrow>
      froms av ! (order ! i) = froms av ! (order ! k) \<and> tos av ! (order ! i) = tos av ! (order ! k)"
  shows "offsets_ok av order (Suc k) (placed order k place ps)"
proof -
  have ne: "order ! i \<noteq> order ! k" if "i < k" for i using d(1) k(1) that by (simp add: nth_eq_iff_index_eq)
  have posk: "pos (placed order k place ps) ! i = (if i = k then place else pos ps ! i)" for i
    using k by (simp add: placed_def nth_list_update)
  have basek: "base (placed order k place ps) ! v = (if v = order ! k then place else base ps ! v)" for v
    using d(2) by (simp add: placed_def nth_list_update)
  show ?thesis
    unfolding offsets_ok_def
  proof (intro conjI allI impI)
    fix i assume i: "i < Suc k"
    show "pos (placed order k place ps) ! i \<noteq> 0"
      "base (placed order k place ps) ! (order ! i) = pos (placed order k place ps) ! i"
      using offsets_okD(1) [OF O] ne [of i] i p by (auto simp: posk basek less_Suc_eq)
  next
    fix i i' assume i: "i < Suc k" "i' < Suc k" "pos (placed order k place ps) ! i = pos (placed order k place ps) ! i'"
    have "froms av ! (order ! i) = froms av ! (order ! i') \<and> tos av ! (order ! i) = tos av ! (order ! i')"
    proof (cases "i = k \<or> i' = k")
      case True
      with i share show ?thesis by (auto simp: posk less_Suc_eq)
    next
      case False
      with i have "i < k" "i' < k" "pos ps ! i = pos ps ! i'" by (simp_all add: posk)
      with offsets_okD(2) [OF O] show ?thesis by blast
    qed
    then show "froms av ! (order ! i) = froms av ! (order ! i')" "tos av ! (order ! i) = tos av ! (order ! i')" by blast+
  next
    fix v assume "v < length (base (placed order k place ps))" "v \<notin> set (take (Suc k) order)"
    with k(1) have "v < length (base ps)" "v \<noteq> order ! k" "v \<notin> set (take k order)"
      by (auto simp: placed_def take_Suc_conv_app_nth)
    with offsets_okD(3) [OF O] show "base (placed order k place ps) ! v = 0" by (simp add: basek)
  qed
qed

lemma placed_packed:
  assumes P: "packed av n order k ps" and k: "k < length order"
    and d: "distinct order" "order ! k < n" and p: "place \<noteq> 0"
    and share: "\<forall>i < k. pos ps ! i = place \<longrightarrow>
      froms av ! (order ! i) = froms av ! (order ! k) \<and> tos av ! (order ! i) = tos av ! (order ! k)"
    and new: "\<forall>m < length (froms av ! (order ! k)).
      0 \<le> place + froms av ! (order ! k) ! m \<and> nat (place + froms av ! (order ! k) ! m) \<le> high ps' \<and>
      chk ps' ! nat (place + froms av ! (order ! k) ! m) = froms av ! (order ! k) ! m \<and>
      tbl ps' ! nat (place + froms av ! (order ! k) ! m) = tos av ! (order ! k) ! m"
    and old: "\<forall>l < length (chk ps). chk ps ! l \<noteq> - 1 \<longrightarrow> chk ps' ! l = chk ps ! l \<and> tbl ps' ! l = tbl ps ! l"
    and origin: "\<forall>l < length (chk ps'). chk ps' ! l \<noteq> - 1 \<longrightarrow> chk ps' ! l = chk ps ! l \<or>
      chk ps' ! l \<in> set (froms av ! (order ! k)) \<and> int l = place + chk ps' ! l"
    and frame: "base ps' = base ps" "pos ps' = pos ps" "length (chk ps') = length (chk ps)"
      "length (tbl ps') = length (tbl ps)" "high ps \<le> high ps'" "high ps' < length (chk ps')"
    and pos0: "\<forall>i < n. \<forall>f \<in> set (froms av ! i). 0 \<le> f" "\<forall>i < length order. order ! i < n"
  shows "packed av n order (Suc k) (placed order k place ps')"
proof -
  have lens: "length (base ps') = n" "length (pos ps') = length order" "length (tbl ps') = length (chk ps')"
    using packedD(1-3) [OF P] frame by simp_all
  have O': "offsets_ok av order k ps'" using packedD(5) [OF P] unfolding offsets_ok_cong [OF frame(1,2)] .
  have share': "\<forall>i < k. pos ps' ! i = place \<longrightarrow>
      froms av ! (order ! i) = froms av ! (order ! k) \<and> tos av ! (order ! i) = tos av ! (order ! k)"
    unfolding frame(2) by (rule share)
  have O: "offsets_ok av order (Suc k) (placed order k place ps')"
    by (rule placed_offsets [OF O' k lens(2) d(1) _ p share']) (simp only: lens(1) d(2))
  have posk: "pos (placed order k place ps') ! i = (if i = k then place else pos ps ! i)" if "i < Suc k" for i
    using that k lens(2) frame(2) by (simp add: placed_def nth_list_update)
  have same: "chk (placed order k place ps') = chk ps'" "tbl (placed order k place ps') = tbl ps'"
    "high (placed order k place ps') = high ps'" by (simp_all add: placed_def)
  have "entries_in av order (Suc k) (placed order k place ps')"
    unfolding entries_in_def same
  proof (intro allI impI)
    fix i m assume i: "i < Suc k" and m: "m < length (froms av ! (order ! i))"
    let ?f = "froms av ! (order ! i) ! m"
    have "0 \<le> (if i = k then place else pos ps ! i) + ?f \<and>
      nat ((if i = k then place else pos ps ! i) + ?f) \<le> high ps' \<and>
      chk ps' ! nat ((if i = k then place else pos ps ! i) + ?f) = ?f \<and>
      tbl ps' ! nat ((if i = k then place else pos ps ! i) + ?f) = tos av ! (order ! i) ! m"
    proof (cases "i = k")
      case True
      with new m show ?thesis by simp
    next
      case False
      then have ik: "i < k" using i by simp
      have "order ! i < n" using ik k pos0(2) by simp
      with pos0(1) m have "0 \<le> ?f" by simp
      note * = entries_inD [OF packedD(6) [OF P] ik m]
      have l: "nat (pos ps ! i + ?f) < length (chk ps)" using *(2) packedD(4) [OF P] by simp
      have "chk ps ! nat (pos ps ! i + ?f) \<noteq> - 1" using *(3) \<open>0 \<le> ?f\<close> by simp
      with old l * have "chk ps' ! nat (pos ps ! i + ?f) = ?f" "tbl ps' ! nat (pos ps ! i + ?f) = tos av ! (order ! i) ! m"
        by simp_all
      moreover have "nat (pos ps ! i + ?f) \<le> high ps'" using *(2) frame(5) by simp
      ultimately show ?thesis using *(1) False by simp
    qed
    then show "0 \<le> pos (placed order k place ps') ! i + ?f \<and>
      nat (pos (placed order k place ps') ! i + ?f) \<le> high ps' \<and>
      chk ps' ! nat (pos (placed order k place ps') ! i + ?f) = ?f \<and>
      tbl ps' ! nat (pos (placed order k place ps') ! i + ?f) = tos av ! (order ! i) ! m"
      unfolding posk [OF i] .
  qed
  moreover have "entries_from av order (Suc k) (placed order k place ps')"
    unfolding entries_from_def same
  proof (intro allI impI)
    fix l assume l: "l < length (chk ps')" "chk ps' ! l \<noteq> - 1"
    show "\<exists>i < Suc k. chk ps' ! l \<in> set (froms av ! (order ! i)) \<and> int l = pos (placed order k place ps') ! i + chk ps' ! l"
    proof (cases "chk ps' ! l = chk ps ! l")
      case True
      from packedD(7) [OF P, unfolded entries_from_def, rule_format, of l] l True frame(3)
      obtain i where i: "i < k" "chk ps ! l \<in> set (froms av ! (order ! i))" "int l = pos ps ! i + chk ps ! l"
        by auto
      then have "pos (placed order k place ps') ! i = pos ps ! i" using posk [of i] by simp
      with i True show ?thesis by (intro exI [of _ i]) (simp only: less_SucI simp_thms)
    next
      case False
      with origin l have "chk ps' ! l \<in> set (froms av ! (order ! k)) \<and> int l = place + chk ps' ! l" by blast
      with posk [of k] show ?thesis by (intro exI [of _ k]) simp
    qed
  qed
  ultimately show ?thesis using O lens frame(6) unfolding packed_def by (simp add: placed_def)
qed

lemma match_prev_ok:
  assumes "\<not> match_prev av i js < 0"
  shows "\<exists>j \<in> set js. match_prev av i js = int j \<and> tally av ! j = tally av ! i \<and>
    (\<forall>k < tally av ! i. tos av ! j ! k = tos av ! i ! k \<and> froms av ! j ! k = froms av ! i ! k)"
  using assms
proof (induction js)
  case (Cons j js)
  show ?case
  proof (cases "(width av ! j \<noteq> width av ! i \<or> tally av ! j \<noteq> tally av ! i) \<or>
      list_all (\<lambda>k. tos av ! j ! k = tos av ! i ! k \<and> froms av ! j ! k = froms av ! i ! k) [0..<tally av ! i]")
    case True
    with Cons.prems show ?thesis by (intro bexI [of _ j]) (auto simp: list_all_iff split: if_splits)
  next
    case False
    then have "match_prev av i (j # js) = match_prev av i js" by simp
    with Cons show ?thesis by (simp only: list.set) blast
  qed
qed simp

lemma pack_step_packed:
  assumes P: "packed av n order k ps" and V: "vectors_ok av n" and k: "k < length order"
    and d: "distinct order" "\<forall>v \<in> set order. v < n \<and> tally av ! v > 0"
    and step: "pack_step av nstates order k ps = Inr ps'"
  shows "packed av n order (Suc k) ps'"
proof -
  let ?v = "order ! k"
  have v: "?v < n" "tally av ! ?v > 0" using d(2) k by simp_all
  have lenv: "length (froms av ! w) = tally av ! w" "length (tos av ! w) = tally av ! w" "distinct (froms av ! w)"
    "\<forall>f \<in> set (froms av ! w). 0 \<le> f" if "w < n" for w using V that by (simp_all add: vectors_ok_def)
  have pos0: "\<forall>i < n. \<forall>f \<in> set (froms av ! i). 0 \<le> f" using lenv(4) by blast
  have ord: "\<forall>i < length order. order ! i < n" using d(2) by simp
  let ?m = "matching_vector av nstates order k"
  show ?thesis
  proof (cases "?m < 0")
    case True
    have take: "take (tally av ! ?v) (froms av ! ?v) = froms av ! ?v" "take (tally av ! ?v) (tos av ! ?v) = tos av ! ?v"
      using lenv(1,2) [OF v(1)] by simp_all
    from step True obtain place ps1 where pv: "pack_vector av order k ps = Inr (place, ps1)"
      and ps': "ps' = placed order k place ps1"
      by (auto simp: pack_step_def Let_def placed_def split: sum.splits)
    let ?fs = "froms av ! ?v" and ?ts = "tos av ! ?v"
    have pf: "place_from (first_offset (lowzero ps) ?fs) ?fs ?ts k ps = Inr (place, ps1)"
      using pv v(2) by (simp add: pack_vector_def Let_def take)
    have nn: "\<forall>f \<in> set ?fs. 0 \<le> first_offset (lowzero ps) ?fs + f"
      using first_offset_le [of _ ?fs "lowzero ps"] by fastforce
    have lt: "length ?ts = length ?fs" using lenv(1,2) [OF v(1)] by simp
    from place_from_ok [OF pf nn lenv(3) [OF v(1)] lt packedD(3,4) [OF P]]
    obtain psw psx low where W: "first_offset (lowzero ps) ?fs \<le> place" "place \<noteq> 0" "\<forall>i < k. pos ps ! i \<noteq> place"
      "widened ps psw" "\<forall>f \<in> set ?fs. nat (place + f) < length (chk psw) \<and> chk psw ! nat (place + f) = - 1"
      "written place ?fs ?ts psw psx" "ps1 = psx\<lparr>lowzero := low\<rparr>" by blast
    have Pw: "packed av n order k psw" by (rule packed_widened [OF P W(4)])
    have same: "base ps1 = base psx" "pos ps1 = pos psx" "chk ps1 = chk psx" "tbl ps1 = tbl psx" "high ps1 = high psx"
      using W(7) by simp_all
    note WR = W(6) [unfolded written_def, folded same]
    have pl: "0 \<le> place + f" if "f \<in> set ?fs" for f using nn that W(1) by fastforce
    show ?thesis
      unfolding ps'
    proof (rule placed_packed [OF Pw k d(1) v(1) W(2)])
      show "\<forall>i < k. pos psw ! i = place \<longrightarrow> froms av ! (order ! i) = ?fs \<and> tos av ! (order ! i) = ?ts"
        using W(3) widenedD(2) [OF W(4)] by simp
      show "\<forall>m < length ?fs. 0 \<le> place + ?fs ! m \<and> nat (place + ?fs ! m) \<le> high ps1 \<and>
          chk ps1 ! nat (place + ?fs ! m) = ?fs ! m \<and> tbl ps1 ! nat (place + ?fs ! m) = ?ts ! m"
        using WR pl by auto
      show "\<forall>l < length (chk psw). chk psw ! l \<noteq> - 1 \<longrightarrow> chk ps1 ! l = chk psw ! l \<and> tbl ps1 ! l = tbl psw ! l"
      proof (intro allI impI)
        fix l assume "l < length (chk psw)" "chk psw ! l \<noteq> - 1"
        then have "\<forall>f \<in> set ?fs. l \<noteq> nat (place + f)" using W(5) by auto
        with WR show "chk ps1 ! l = chk psw ! l \<and> tbl ps1 ! l = tbl psw ! l" by blast
      qed
      show "\<forall>l < length (chk ps1). chk ps1 ! l \<noteq> - 1 \<longrightarrow> chk ps1 ! l = chk psw ! l \<or>
          chk ps1 ! l \<in> set ?fs \<and> int l = place + chk ps1 ! l"
      proof (intro allI impI)
        fix l assume "l < length (chk ps1)"
        show "chk ps1 ! l = chk psw ! l \<or> chk ps1 ! l \<in> set ?fs \<and> int l = place + chk ps1 ! l"
        proof (cases "\<forall>f \<in> set ?fs. l \<noteq> nat (place + f)")
          case True
          with WR show ?thesis by blast
        next
          case False
          then obtain m where m: "m < length ?fs" "l = nat (place + ?fs ! m)" by (auto simp: in_set_conv_nth)
          then have "chk ps1 ! l = ?fs ! m" using WR by blast
          moreover have "int l = place + ?fs ! m" using pl [of "?fs ! m"] m by simp
          ultimately show ?thesis using m(1) by simp
        qed
      qed
    qed (use WR pos0 ord in blast)+
  next
    case False
    then have lt: "\<not> ?v \<ge> 2 * nstates" by (auto simp: matching_vector_def Let_def split: if_splits)
    then have m: "?m = match_prev av ?v (rev (take k order))" by (simp add: matching_vector_def)
    with False have "\<not> match_prev av ?v (rev (take k order)) < 0" by simp
    from match_prev_ok [OF this] m obtain j where j: "j \<in> set (take k order)" "?m = int j" "tally av ! j = tally av ! ?v"
      "\<forall>i < tally av ! ?v. tos av ! j ! i = tos av ! ?v ! i \<and> froms av ! j ! i = froms av ! ?v ! i" by auto
    then obtain i where i: "i < k" "order ! i = j" using k by (auto simp: in_set_conv_nth)
    have jn: "j < n" using i k ord by auto
    have eq: "froms av ! j = froms av ! ?v" "tos av ! j = tos av ! ?v"
      using j(3,4) lenv(1,2) [OF jn] lenv(1,2) [OF v(1)] by (auto intro!: nth_equalityI)
    note O = offsets_okD [OF packedD(5) [OF P]]
    let ?place = "pos ps ! i"
    have bi: "base ps ! j = ?place" "?place \<noteq> 0" using O(1) i by auto
    have ps': "ps' = placed order k ?place ps"
      using step False j(2) bi(1) by (simp add: pack_step_def Let_def placed_def)
    show ?thesis
      unfolding ps'
    proof (rule placed_packed [OF P k d(1) v(1) bi(2)])
      show "\<forall>l < k. pos ps ! l = ?place \<longrightarrow> froms av ! (order ! l) = froms av ! ?v \<and> tos av ! (order ! l) = tos av ! ?v"
        using O(2) i eq by metis
      show "\<forall>m < length (froms av ! ?v). 0 \<le> ?place + froms av ! ?v ! m \<and> nat (?place + froms av ! ?v ! m) \<le> high ps \<and>
          chk ps ! nat (?place + froms av ! ?v ! m) = froms av ! ?v ! m \<and>
          tbl ps ! nat (?place + froms av ! ?v ! m) = tos av ! ?v ! m"
        using entries_inD [OF packedD(6) [OF P] i(1), unfolded i(2) eq] by blast
    qed (use pos0 ord packedD(4) [OF P] in blast)+
  qed
qed

lemma pack_table_packed:
  assumes V: "vectors_ok av n" and pt: "pack_table av nstates n = Inr ps"
  shows "packed av n (vector_order av n) (length (vector_order av n)) ps"
proof -
  let ?o = "vector_order av n"
  have d: "distinct ?o" "\<forall>v \<in> set ?o. v < n \<and> tally av ! v > 0" using vector_order_correct(2,3) [of av n] by auto
  have "packed av n ?o k ps'" if "fold_sum (pack_step av nstates ?o) [0..<k] (empty_table n (length ?o)) = Inr ps'"
    "k \<le> length ?o" for k ps'
    using that
  proof (induction k arbitrary: ps')
    case 0
    then have "ps' = empty_table n (length ?o)" by simp
    then show ?case
      by (simp add: packed_def empty_table_def offsets_ok_def entries_in_def entries_from_def)
  next
    case (Suc k)
    then obtain ps1 where f: "fold_sum (pack_step av nstates ?o) [0..<k] (empty_table n (length ?o)) = Inr ps1"
      and s: "pack_step av nstates ?o k ps1 = Inr ps'"
      by (auto simp: fold_sum_append split: sum.splits)
    have "packed av n ?o k ps1" using Suc f by simp
    from pack_step_packed [OF this V _ d s] Suc.prems(2) show ?case by simp
  qed
  from this [of "length ?o"] pt show ?thesis
    by (simp add: pack_table_def sort_actions_order split: if_splits)
qed

theorem pack_table_lookup:
  assumes V: "vectors_ok av n" and pt: "pack_table av nstates n = Inr ps" and v: "v < n" and c: "0 \<le> c"
  shows "table_lookup ps (base ps ! v) c = map_of (zip (froms av ! v) (tos av ! v)) c"
proof -
  let ?o = "vector_order av n" let ?b = "base ps ! v"
  note P = packedD [OF pack_table_packed [OF V pt]] and S = vector_order_correct(3) [of av n]
  note O = offsets_okD [OF P(5)]
  have lenv: "length (froms av ! v) = tally av ! v" "length (tos av ! v) = tally av ! v" "distinct (froms av ! v)"
    using V v by (simp_all add: vectors_ok_def)
  show ?thesis
  proof (cases "v \<in> set ?o")
    case False
    then have "froms av ! v = []" using S v lenv(1) by auto
    moreover have "?b = 0" using O(3) False v P(1) by simp
    ultimately show ?thesis by (simp add: table_lookup_def)
  next
    case True
    then obtain i where i: "i < length ?o" "?o ! i = v" by (auto simp: in_set_conv_nth)
    have b: "?b = pos ps ! i" "?b \<noteq> 0" using O(1) i by auto
    note E = entries_inD [OF P(6) i(1), unfolded i(2), folded b(1)]
    show ?thesis
    proof (cases "c \<in> set (froms av ! v)")
      case True
      then obtain m where m: "m < length (froms av ! v)" "froms av ! v ! m = c" by (auto simp: in_set_conv_nth)
      note Em = E [OF m(1), unfolded m(2)]
      have "?b + c < int (high ps) + 1" using Em(1,2) by linarith
      then have "table_lookup ps ?b c = Some (tos av ! v ! m)" using Em b(2) by (simp add: table_lookup_def)
      moreover have "map_of (zip (froms av ! v) (tos av ! v)) c = Some (tos av ! v ! m)"
        using map_of_zip_nth [of "froms av ! v" "tos av ! v" m] lenv m by simp
      ultimately show ?thesis by simp
    next
      case False
      have "table_lookup ps ?b c = None"
      proof (rule ccontr)
        assume "table_lookup ps ?b c \<noteq> None"
        then have l: "0 \<le> ?b + c" "nat (?b + c) \<le> high ps" "chk ps ! nat (?b + c) = c"
          by (auto simp: table_lookup_def split: if_splits)
        have "nat (?b + c) < length (chk ps)" using l(2) P(4) by simp
        with P(7) [unfolded entries_from_def, rule_format, of "nat (?b + c)"] l(1,3) c
        obtain i' where i': "i' < length ?o" "c \<in> set (froms av ! (?o ! i'))" "?b = pos ps ! i'" by auto
        then have "froms av ! (?o ! i) = froms av ! (?o ! i')" using O(2) i(1) b(1) by metis
        with i'(2) i(2) False show False by simp
      qed
      moreover have "map_of (zip (froms av ! v) (tos av ! v)) c = None"
        using False lenv(1,2) by (simp add: map_of_zip_is_None)
      ultimately show ?thesis by simp
    qed
  qed
qed

text \<open>The packer gives up only at \<open>MAXTABLE\<close>, or when no free place is left below \<^verbatim>\<open>maxtable\<close>.\<close>

lemma grow_table_error: "grow_table loc ps = Inl e \<Longrightarrow> e = Fatal ''maximum table size exceeded''"
  by (auto simp: grow_table_def Let_def split: if_splits)

lemma try_places_error: "try_places j fs ps = Inl e \<Longrightarrow> e = Fatal ''maximum table size exceeded''"
  by (induction j fs ps rule: try_places.induct) (auto split: sum.splits if_splits dest: grow_table_error)

lemma place_from_error:
  "place_from j fs ts vector ps = Inl e \<Longrightarrow> fs \<noteq> [] \<Longrightarrow>
   e \<in> {Fatal ''maximum table size exceeded'', BadAccess}"
proof (induction j fs ts vector ps rule: place_from.induct)
  case (1 j fs ts vector ps)
  show ?case
  proof (cases "j = 0")
    case True
    have "place_from (j + 1) fs ts vector ps = Inl e"
      using 1(3,4) True by (simp add: place_from.simps [of 0 fs ts vector ps])
    from 1(1) [OF 1(4) True this 1(4)] show ?thesis .
  next
    case j: False
    show ?thesis
    proof (cases "try_places j fs ps")
      case (Inl e')
      then have "e' = e" using 1(3,4) j by (simp add: place_from.simps [of j fs ts vector ps])
      with try_places_error [OF Inl] show ?thesis by simp
    next
      case (Inr b)
      obtain ok ps1 where b: "b = (ok, ps1)" by (cases b)
      note eq = 1(3) [unfolded place_from.simps [of j fs ts vector ps]]
      show ?thesis
      proof (cases "ok \<and> \<not> list_ex (\<lambda>k. pos ps1 ! k = j) [0..<vector]")
        case True
        with eq 1(4) j Inr b have "next_zero (fold (put_entry j) (zip fs ts) ps1) = Inl e"
          by (simp split: sum.splits)
        then show ?thesis by (auto simp: next_zero_def Let_def split: if_splits)
      next
        case False
        with eq 1(4) j Inr b have "place_from (j + 1) fs ts vector ps1 = Inl e" by (simp split: if_splits)
        with False 1(4) show ?thesis by (intro 1(2) [OF 1(4) j Inr b [symmetric]]) auto
      qed
    qed
  qed
qed

lemma pack_table_error:
  assumes V: "vectors_ok av n" and pt: "pack_table av nstates n = Inl e"
  shows "e = OutOfShort \<and> (\<exists>v < n. MAXSHORT < v \<and> 0 < tally av ! v) \<or>
    e \<in> {Fatal ''maximum table size exceeded'', BadAccess} \<and> \<not> (\<exists>v < n. MAXSHORT < v \<and> 0 < tally av ! v)"
proof -
  let ?o = "vector_order av n"
  have d: "\<forall>v \<in> set ?o. v < n \<and> tally av ! v > 0" using vector_order_correct(3) [of av n] by auto
  have step: "e \<in> {Fatal ''maximum table size exceeded'', BadAccess}"
    if "pack_step av nstates ?o k ps = Inl e" "k < length ?o" for k ps
  proof -
    have "?o ! k \<in> set ?o" using that(2) by simp
    with d have v: "?o ! k < n" "0 < tally av ! (?o ! k)" by blast+
    with V have "take (tally av ! (?o ! k)) (froms av ! (?o ! k)) \<noteq> []" by (auto simp: vectors_ok_def)
    with that(1) v(2) place_from_error show ?thesis
      by (fastforce simp: pack_step_def pack_vector_def Let_def split: sum.splits if_splits)
  qed
  have "fold_sum (pack_step av nstates ?o) ks ps = Inl e \<Longrightarrow> \<forall>k \<in> set ks. k < length ?o \<Longrightarrow>
    e \<in> {Fatal ''maximum table size exceeded'', BadAccess}" for ks ps
    by (induction ks arbitrary: ps) (auto split: sum.splits dest: step)
  from this [of "[0..<length ?o]"] pt show ?thesis
    by (auto simp: pack_table_def sort_actions_order split: if_splits)
qed

section \<open>Properties\<close>

text \<open>
  C18: packing vectors into the comb.  If a vector with entries has a number above 32767, it does not fit into
  \<^verbatim>\<open>order\<close> (and only then the model stops for that).  Otherwise it ends with the error of a full table, or with
  a table in which looking up any key of any vector gives the entry of that vector, and a key the vector does not
  have gives nothing, although all vectors share the same two arrays.
\<close>

theorem packed_table_exact:
  assumes "vectors_ok av n"
  shows "if \<exists>v < n. MAXSHORT < v \<and> 0 < tally av ! v then pack_table av nstates n = Inl OutOfShort
    else (\<exists>e \<in> {Fatal ''maximum table size exceeded'', BadAccess}. pack_table av nstates n = Inl e) \<or>
      (\<exists>ps. pack_table av nstates n = Inr ps \<and> (\<forall>v < n. \<forall>c \<ge> 0.
         table_lookup ps (base ps ! v) c = map_of (zip (froms av ! v) (tos av ! v)) c))"
proof (cases "\<exists>v < n. MAXSHORT < v \<and> 0 < tally av ! v")
  case True
  then show ?thesis by (simp add: pack_table_def sort_actions_order)
next
  case False
  with pack_table_error [OF assms] pack_table_lookup [OF assms] show ?thesis
    by (cases "pack_table av nstates n") (simp_all only: if_False sum.inject, blast+)
qed

definition two_vectors :: vectors where
  "two_vectors = \<lparr>froms = [[3, 5], [3]], tos = [[7, 8], [2]], tally = [2, 1], width = [3, 1]\<rparr>"

theorem packed_table_exact_witness:
  "(\<exists>e \<in> {Fatal ''maximum table size exceeded'', BadAccess}. pack_table two_vectors 1 2 = Inl e) \<or>
    (\<exists>ps. pack_table two_vectors 1 2 = Inr ps \<and> (\<forall>v < 2. \<forall>c \<ge> 0.
       table_lookup ps (base ps ! v) c = map_of (zip (froms two_vectors ! v) (tos two_vectors ! v)) c))"
proof -
  have no: "\<not> (\<exists>v < 2. MAXSHORT < v \<and> 0 < tally two_vectors ! v)" by (simp add: MAXSHORT_def)
  have "vectors_ok two_vectors 2" by (auto simp: vectors_ok_def two_vectors_def less_Suc_eq numeral_2_eq_2)
  from packed_table_exact [OF this, of 1, unfolded if_not_P [OF no]] show ?thesis .
qed

text \<open>
  \<^verbatim>\<open>sort_actions\<close> orders the vectors that have entries, each once, by width and then by tally,
  largest first, if their numbers are \<^verbatim>\<open>short\<close>s.
\<close>

theorem sort_actions_sorted:
  "(\<exists>v < n. MAXSHORT < v \<and> 0 < tally av ! v) \<and> sort_actions av n = Inl OutOfShort \<or>
   (\<exists>order. sort_actions av n = Inr order \<and>
     sorted_wrt (\<lambda>i j. width av ! i > width av ! j \<or> width av ! i = width av ! j \<and> tally av ! i \<ge> tally av ! j) order \<and>
     distinct order \<and> set order = {i. i < n \<and> 0 < tally av ! i})"
  using vector_order_correct [of av n] unfolding sort_actions_order better_def by simp

end
