(* ===== verification/Vectors.thy ===== *)
theory Vectors
  imports Pack
begin

text \<open>
  What \<open>token_actions\<close> and \<open>goto_actions\<close> put into the vectors, and with the packed table what
  the emitted parser reads: in every state the shift and the reduction left for a token, and for every
  goto of the automaton its target.
\<close>

section \<open>One row of actions\<close>

definition live_shifts :: "action list \<Rightarrow> action list" where
  "live_shifts as = filter (\<lambda>a. suppressed a = 0 \<and> act_code a = SHIFT) as"

definition live_reductions :: "nat \<Rightarrow> action list \<Rightarrow> action list" where
  "live_reductions dr as = filter (\<lambda>a. suppressed a = 0 \<and> act_code a = REDUCE \<and> act_number a \<noteq> dr) as"

definition numbers_on :: "action list \<Rightarrow> nat \<Rightarrow> nat option" where
  "numbers_on as = map_of (map (\<lambda>a. (act_symbol a, act_number a)) as)"

lemma numbers_on_Some:
  "distinct (map act_symbol as) \<Longrightarrow> numbers_on as X = Some n \<longleftrightarrow> (\<exists>a \<in> set as. act_symbol a = X \<and> act_number a = n)"
  by (auto simp: numbers_on_def comp_def)

lemma numbers_on_None: "numbers_on as X = None \<longleftrightarrow> X \<notin> act_symbol ` set as"
  by (auto simp: numbers_on_def map_of_eq_None_iff image_image)

definition option_number :: "nat option \<Rightarrow> nat" where
  "option_number x = (case x of None \<Rightarrow> 0 | Some n \<Rightarrow> n)"

lemma put_action_fold:
  assumes "distinct (map act_symbol (live_shifts as))" "distinct (map act_symbol (live_reductions dr as))"
    "\<forall>a \<in> set as. act_symbol a < nt" "length r = 2 * nt"
  shows "\<exists>r'. fold (put_action nt dr) as (r, b, c) =
      (r', b + length (live_shifts as), c + length (live_reductions dr as)) \<and> length r' = 2 * nt \<and>
    (\<forall>X < nt. r' ! X = (case numbers_on (live_shifts as) X of None \<Rightarrow> r ! X | Some n \<Rightarrow> n) \<and>
       r' ! (nt + X) = (case numbers_on (live_reductions dr as) X of None \<Rightarrow> r ! (nt + X) | Some n \<Rightarrow> n))"
  using assms
proof (induction as arbitrary: r b c)
  case Nil
  then show ?case by (simp add: live_shifts_def live_reductions_def numbers_on_def)
next
  case (Cons a as)
  have nt: "act_symbol a < nt" "\<forall>a \<in> set as. act_symbol a < nt" using Cons.prems(3) by simp_all
  have d: "distinct (map act_symbol (live_shifts as))" "distinct (map act_symbol (live_reductions dr as))"
    using Cons.prems(1,2) by (auto simp: live_shifts_def live_reductions_def split: if_splits)
  consider (s) "suppressed a = 0" "act_code a = SHIFT"
    | (r) "suppressed a = 0" "act_code a = REDUCE" "act_number a \<noteq> dr"
    | (n) "suppressed a \<noteq> 0 \<or> act_code a = REDUCE \<and> act_number a = dr"
    by (cases "act_code a") auto
  then show ?case
  proof cases
    case s
    let ?r = "r[act_symbol a := act_number a]"
    have len: "length ?r = 2 * nt" using Cons.prems(4) by simp
    have L: "live_shifts (a # as) = a # live_shifts as" "live_reductions dr (a # as) = live_reductions dr as"
      using s by (simp_all add: live_shifts_def live_reductions_def)
    have put: "put_action nt dr a (r, b, c) = (?r, b + 1, c)" using s by (simp add: put_action_def)
    from Cons.IH [OF d nt(2) len, of "b + 1" c] obtain r' where r':
      "fold (put_action nt dr) as (?r, b + 1, c) = (r', b + 1 + length (live_shifts as), c + length (live_reductions dr as))"
      "length r' = 2 * nt"
      "\<forall>X < nt. r' ! X = (case numbers_on (live_shifts as) X of None \<Rightarrow> ?r ! X | Some n \<Rightarrow> n) \<and>
       r' ! (nt + X) = (case numbers_on (live_reductions dr as) X of None \<Rightarrow> ?r ! (nt + X) | Some n \<Rightarrow> n)" by blast
    have "numbers_on (live_shifts as) (act_symbol a) = None"
      using Cons.prems(1) unfolding L numbers_on_None by simp
    then have "r' ! X = (case numbers_on (live_shifts (a # as)) X of None \<Rightarrow> r ! X | Some n \<Rightarrow> n)" if "X < nt" for X
      using r'(3) that nt(1) Cons.prems(4) unfolding L
      by (cases "X = act_symbol a") (auto simp: numbers_on_def split: option.splits)
    moreover have "r' ! (nt + X) = (case numbers_on (live_reductions dr (a # as)) X of None \<Rightarrow> r ! (nt + X) | Some n \<Rightarrow> n)"
      if "X < nt" for X
    proof -
      have "act_symbol a \<noteq> nt + X" using nt(1) by simp
      then show ?thesis using r'(3) that unfolding L by (simp split: option.splits)
    qed
    ultimately show ?thesis using r'(1,2) put by (auto simp: L)
  next
    case r
    let ?r = "r[act_symbol a + nt := act_number a]"
    have len: "length ?r = 2 * nt" using Cons.prems(4) by simp
    have L: "live_shifts (a # as) = live_shifts as" "live_reductions dr (a # as) = a # live_reductions dr as"
      using r by (simp_all add: live_shifts_def live_reductions_def)
    have put: "put_action nt dr a (r, b, c) = (?r, b, c + 1)" using r by (simp add: put_action_def)
    from Cons.IH [OF d nt(2) len, of b "c + 1"] obtain r' where r':
      "fold (put_action nt dr) as (?r, b, c + 1) = (r', b + length (live_shifts as), c + 1 + length (live_reductions dr as))"
      "length r' = 2 * nt"
      "\<forall>X < nt. r' ! X = (case numbers_on (live_shifts as) X of None \<Rightarrow> ?r ! X | Some n \<Rightarrow> n) \<and>
       r' ! (nt + X) = (case numbers_on (live_reductions dr as) X of None \<Rightarrow> ?r ! (nt + X) | Some n \<Rightarrow> n)" by blast
    have "numbers_on (live_reductions dr as) (act_symbol a) = None"
      using Cons.prems(2) unfolding L numbers_on_None by simp
    then have "r' ! (nt + X) = (case numbers_on (live_reductions dr (a # as)) X of None \<Rightarrow> r ! (nt + X) | Some n \<Rightarrow> n)"
      if "X < nt" for X
      using r'(3) [rule_format, OF that, THEN conjunct2] that nt(1) Cons.prems(4) unfolding L
      by (cases "X = act_symbol a") (auto simp: numbers_on_def nth_list_update split: option.splits)
    moreover have "r' ! X = (case numbers_on (live_shifts (a # as)) X of None \<Rightarrow> r ! X | Some n \<Rightarrow> n)" if "X < nt" for X
    proof -
      have "act_symbol a + nt \<noteq> X" using that by simp
      then show ?thesis using r'(3) that unfolding L by (simp split: option.splits)
    qed
    ultimately show ?thesis using r'(1,2) put by (auto simp: L)
  next
    case n
    then have L: "live_shifts (a # as) = live_shifts as" "live_reductions dr (a # as) = live_reductions dr as"
      by (auto simp: live_shifts_def live_reductions_def)
    have put: "put_action nt dr a (r, b, c) = (r, b, c)" using n by (auto simp: put_action_def)
    from Cons.IH [OF d nt(2) Cons.prems(4)] show ?thesis by (simp add: put L)
  qed
qed

lemma take_entries_lists:
  "\<exists>mn mx. take_entries g ar off d = (mn, mx,
     map (\<lambda>j. symbol_value g ! j) (filter (\<lambda>j. ar ! (off + j) \<noteq> 0) [0..<ntokens g]),
     map (\<lambda>j. int (ar ! (off + j)) - d) (filter (\<lambda>j. ar ! (off + j) \<noteq> 0) [0..<ntokens g]))"
proof -
  have "snd (snd (fold (take_entry g ar off d) js (a, b, r, s))) = (
     r @ map (\<lambda>j. symbol_value g ! j) (filter (\<lambda>j. ar ! (off + j) \<noteq> 0) js),
     s @ map (\<lambda>j. int (ar ! (off + j)) - d) (filter (\<lambda>j. ar ! (off + j) \<noteq> 0) js))" for js a b r s
  proof (induction js arbitrary: a b r s)
    case (Cons j js)
    then show ?case by (cases "ar ! (off + j) = 0") (simp_all add: take_entry_def)
  qed simp
  from this [of "[0..<ntokens g]" "int MAXSHORT" 0 "[]" "[]"] show ?thesis
    unfolding take_entries_def by (intro exI) (rule prod_eqI, simp, rule prod_eqI, simp_all)
qed

text \<open>The values of the symbols: distinct for tokens, and counted from the goal for nonterminals.\<close>

definition values_ok :: "grammar \<Rightarrow> bool" where
  "values_ok g \<longleftrightarrow> inj_on ((!) (symbol_value g)) {0..<ntokens g} \<and> (\<forall>X < ntokens g. 0 \<le> symbol_value g ! X) \<and>
     (\<forall>X. start_symbol g < X \<and> X < nsyms g \<longrightarrow> symbol_value g ! X = int (X - start_symbol g - 1))"

text \<open>A vector that holds the numbers a row has for the tokens, less \<open>d\<close>.\<close>

definition token_vector :: "grammar \<Rightarrow> (nat \<Rightarrow> nat option) \<Rightarrow> int \<Rightarrow> int list \<Rightarrow> int list \<Rightarrow> bool" where
  "token_vector g num d fs ts \<longleftrightarrow> length ts = length fs \<and> distinct fs \<and> (\<forall>f \<in> set fs. 0 \<le> f) \<and>
     set fs \<subseteq> (!) (symbol_value g) ` {0..<ntokens g} \<and>
     (\<forall>X < ntokens g. map_of (zip fs ts) (symbol_value g ! X) = map_option (\<lambda>n. int n - d) (num X))"

lemma map_of_zip_map:
  "inj_on v (set js) \<Longrightarrow> j \<in> set js \<Longrightarrow> map_of (zip (map v js) (map e js)) (v j) = Some (e j)"
  by (induction js) (auto simp: inj_on_def)

lemma entries_vector:
  assumes V: "values_ok g"
    and num: "\<forall>X < ntokens g. ar ! (off + X) = option_number (num X) \<and> num X \<noteq> Some 0"
  shows "token_vector g num d
    (map (\<lambda>j. symbol_value g ! j) (filter (\<lambda>j. ar ! (off + j) \<noteq> 0) [0..<ntokens g]))
    (map (\<lambda>j. int (ar ! (off + j)) - d) (filter (\<lambda>j. ar ! (off + j) \<noteq> 0) [0..<ntokens g]))"
proof -
  let ?js = "filter (\<lambda>j. ar ! (off + j) \<noteq> 0) [0..<ntokens g]" and ?v = "\<lambda>j. symbol_value g ! j"
  have inj: "inj_on ?v {0..<ntokens g}" and nn: "\<forall>X < ntokens g. 0 \<le> ?v X" using V by (auto simp: values_ok_def)
  have injs: "inj_on ?v (set ?js)" by (rule inj_on_subset [OF inj]) auto
  have "map_of (zip (map ?v ?js) (map (\<lambda>j. int (ar ! (off + j)) - d) ?js)) (?v X) = map_option (\<lambda>n. int n - d) (num X)"
    if X: "X < ntokens g" for X
  proof (cases "num X")
    case None
    then have "X \<notin> set ?js" using num X by (simp add: option_number_def)
    moreover have "?v X \<in> ?v ` set ?js \<longleftrightarrow> X \<in> set ?js" by (rule inj_on_image_mem_iff [OF inj]) (use X in auto)
    ultimately have "?v X \<notin> ?v ` set ?js" by blast
    then have "map_of (zip (map ?v ?js) (map (\<lambda>j. int (ar ! (off + j)) - d) ?js)) (?v X) = None"
      by (subst map_of_zip_is_None) (simp_all del: set_filter)
    with None show ?thesis by simp
  next
    case (Some n)
    with num X have "ar ! (off + X) = n" "n \<noteq> 0" by (auto simp: option_number_def)
    then have "X \<in> set ?js" using X by simp
    from map_of_zip_map [OF injs this, of "\<lambda>j. int (ar ! (off + j)) - d"] Some \<open>ar ! (off + X) = n\<close> show ?thesis by simp
  qed
  moreover have "distinct (map ?v ?js)" using injs by (simp add: distinct_map)
  ultimately show ?thesis using nn unfolding token_vector_def by auto
qed

lemma entries_number:
  assumes "distinct (map act_symbol as)" "\<forall>a \<in> set as. act_symbol a < nt \<and> 0 < act_number a"
    and "\<forall>X < nt. ar ! (off + X) = option_number (numbers_on as X)"
  shows "length (filter (\<lambda>j. ar ! (off + j) \<noteq> 0) [0..<nt]) = length as"
proof -
  have "set (filter (\<lambda>j. ar ! (off + j) \<noteq> 0) [0..<nt]) = act_symbol ` set as"
  proof (intro set_eqI iffI)
    fix X assume "X \<in> set (filter (\<lambda>j. ar ! (off + j) \<noteq> 0) [0..<nt])"
    then have "numbers_on as X \<noteq> None" using assms(3) by (auto simp: option_number_def split: option.splits)
    then show "X \<in> act_symbol ` set as" by (simp add: numbers_on_None)
  next
    fix X assume "X \<in> act_symbol ` set as"
    then obtain a where a: "a \<in> set as" "act_symbol a = X" by blast
    then have "numbers_on as X = Some (act_number a)" using numbers_on_Some [OF assms(1)] by blast
    with a assms(2,3) show "X \<in> set (filter (\<lambda>j. ar ! (off + j) \<noteq> 0) [0..<nt])"
      by (auto simp: option_number_def)
  qed
  moreover have "distinct (filter (\<lambda>j. ar ! (off + j) \<noteq> 0) [0..<nt])" by simp
  ultimately show ?thesis using assms(1)
    by (metis distinct_card length_map list.set_map)
qed

section \<open>The rows of all states\<close>

definition sized :: "nat \<Rightarrow> vectors \<Rightarrow> bool" where
  "sized n av \<longleftrightarrow> length (froms av) = n \<and> length (tos av) = n \<and> length (tally av) = n \<and> length (width av) = n"

definition vec :: "vectors \<Rightarrow> nat \<Rightarrow> int list \<times> int list \<times> nat" where
  "vec av i = (froms av ! i, tos av ! i, tally av ! i)"

definition row_fit :: "grammar \<Rightarrow> parser_tables \<Rightarrow> nat \<Rightarrow> bool" where
  "row_fit g p q \<longleftrightarrow> distinct (map act_symbol (live_shifts (parser p ! q))) \<and>
     distinct (map act_symbol (live_reductions (defred p ! q) (parser p ! q))) \<and>
     (\<forall>a \<in> set (parser p ! q). act_symbol a < ntokens g \<and> 0 < act_number a)"

definition holds_row :: "grammar \<Rightarrow> action list \<Rightarrow> int \<Rightarrow> int list \<times> int list \<times> nat \<Rightarrow> bool" where
  "holds_row g as d v \<longleftrightarrow> (case v of (fs, ts, n) \<Rightarrow> token_vector g (numbers_on as) d fs ts \<and> n = length fs)"

lemma holds_row_none: "holds_row g [] d ([], [], 0)"
  by (simp add: holds_row_def token_vector_def numbers_on_def)

lemma vec_simps [simp]:
  "sized n av \<Longrightarrow> sized n (set_vector i fs ts w av)"
  "sized n av \<Longrightarrow> sized n (av\<lparr>tally := (tally av)[i := a, j := b], width := (width av)[i := c, j := e]\<rparr>)"
  "sized n av \<Longrightarrow> i < n \<Longrightarrow> k < n \<Longrightarrow>
     vec (set_vector i fs ts w av) k = (if k = i then (fs, ts, tally av ! i) else vec av k)"
  "sized n av \<Longrightarrow> i < n \<Longrightarrow> j < n \<Longrightarrow> k < n \<Longrightarrow>
     vec (av\<lparr>tally := (tally av)[i := a, j := b], width := (width av)[i := c, j := e]\<rparr>) k =
     (froms av ! k, tos av ! k, if k = j then b else if k = i then a else tally av ! k)"
  by (auto simp: sized_def set_vector_def vec_def nth_list_update)

lemma vec_set_if:
  assumes "sized m av" "i < m" "k < m"
  shows "vec (if b then set_vector i fs ts w av else av) k = (if k = i \<and> b then (fs, ts, tally av ! i) else vec av k)"
    "tally (if b then set_vector i fs ts w av else av) = tally av"
  using assms by (simp_all, simp add: set_vector_def)

lemma token_row_vec:
  assumes V: "values_ok g" and S: "sized m av" and q: "q < n" "2 * n \<le> m" and R: "row_fit g p q"
    and fresh: "vec av q = ([], [], 0)" "vec av (n + q) = ([], [], 0)"
  shows "sized m (token_row g n p q av)"
    "holds_row g (live_shifts (parser p ! q)) 0 (vec (token_row g n p q av) q)"
    "holds_row g (live_reductions (defred p ! q) (parser p ! q)) 2 (vec (token_row g n p q av) (n + q))"
    "\<forall>k < m. k \<noteq> q \<longrightarrow> k \<noteq> n + q \<longrightarrow> vec (token_row g n p q av) k = vec av k"
proof -
  let ?as = "parser p ! q" let ?ls = "live_shifts ?as" and ?lr = "live_reductions (defred p ! q) ?as"
  let ?nt = "ntokens g"
  have "sized m (token_row g n p q av) \<and> holds_row g ?ls 0 (vec (token_row g n p q av) q) \<and>
    holds_row g ?lr 2 (vec (token_row g n p q av) (n + q)) \<and>
    (\<forall>k < m. k \<noteq> q \<longrightarrow> k \<noteq> n + q \<longrightarrow> vec (token_row g n p q av) k = vec av k)"
  proof (cases "?as = []")
    case True
    then have "token_row g n p q av = av" "?ls = []" "?lr = []"
      by (simp_all add: token_row_def live_shifts_def live_reductions_def)
    with S fresh holds_row_none show ?thesis by simp
  next
    case False
    have fit: "distinct (map act_symbol ?ls)" "distinct (map act_symbol ?lr)"
      "\<forall>a \<in> set ?as. act_symbol a < ?nt \<and> 0 < act_number a" using R by (simp_all add: row_fit_def)
    have lt: "\<forall>a \<in> set ?as. act_symbol a < ?nt" using fit(3) by blast
    from put_action_fold [OF fit(1,2) lt, of "replicate (2 * ?nt) 0" 0 0] obtain ar where
      f: "fold (put_action ?nt (defred p ! q)) ?as (replicate (2 * ?nt) 0, 0, 0) = (ar, length ?ls, length ?lr)"
      and A: "\<forall>X < ?nt. ar ! X = (case numbers_on ?ls X of None \<Rightarrow> replicate (2 * ?nt) 0 ! X | Some n \<Rightarrow> n) \<and>
         ar ! (?nt + X) = (case numbers_on ?lr X of None \<Rightarrow> replicate (2 * ?nt) 0 ! (?nt + X) | Some n \<Rightarrow> n)"
      by auto
    have nz: "numbers_on ?ls X \<noteq> Some 0" "numbers_on ?lr X \<noteq> Some 0" for X
      using fit numbers_on_Some [OF fit(1)] numbers_on_Some [OF fit(2)]
      by (auto simp: live_shifts_def live_reductions_def)
    have ar: "\<forall>X < ?nt. ar ! (0 + X) = option_number (numbers_on ?ls X)"
      "\<forall>X < ?nt. ar ! (?nt + X) = option_number (numbers_on ?lr X)"
      using A by (auto simp: option_number_def split: option.splits)
    let ?fs = "\<lambda>off. map (\<lambda>j. symbol_value g ! j) (filter (\<lambda>j. ar ! (off + j) \<noteq> 0) [0..<?nt])"
    let ?ts = "\<lambda>off d. map (\<lambda>j. int (ar ! (off + j)) - d) (filter (\<lambda>j. ar ! (off + j) \<noteq> 0) [0..<?nt])"
    have lens: "length (?fs 0) = length ?ls" "length (?fs ?nt) = length ?lr"
      using entries_number [OF fit(1), of ?nt ar 0] entries_number [OF fit(2), of ?nt ar ?nt] ar fit(3)
      by (auto simp: live_shifts_def live_reductions_def)
    have H: "holds_row g ?ls 0 (?fs 0, ?ts 0 0, length ?ls)" "holds_row g ?lr 2 (?fs ?nt, ?ts ?nt 2, length ?lr)"
      using entries_vector [OF V, of ar 0 "numbers_on ?ls" 0] entries_vector [OF V, of ar ?nt "numbers_on ?lr" 2] ar nz lens
      by (simp_all add: holds_row_def)
    obtain a1 b1 where t1: "take_entries g ar 0 0 = (a1, b1, ?fs 0, ?ts 0 0)" using take_entries_lists [of g ar 0 0] by auto
    obtain a2 b2 where t2: "take_entries g ar ?nt 2 = (a2, b2, ?fs ?nt, ?ts ?nt 2)" using take_entries_lists [of g ar ?nt 2] by auto
    let ?av1 = "av\<lparr>tally := (tally av)[q := length ?ls, n + q := length ?lr], width := (width av)[q := 0, n + q := 0]\<rparr>"
    let ?av2 = "if length ?ls > 0 then set_vector q (?fs 0) (?ts 0 0) (b1 - a1 + 1) ?av1 else ?av1"
    let ?av3 = "if length ?lr > 0 then set_vector (n + q) (?fs ?nt) (?ts ?nt 2) (b2 - a2 + 1) ?av2 else ?av2"
    have step: "token_row g n p q av = ?av3"
      using False by (simp add: token_row_def f t1 t2)
    have lt2: "q < m" "n + q < m" "q \<noteq> n + q" using q by simp_all
    have S1: "sized m ?av1" using S by simp
    have S2: "sized m ?av2" by (cases "length ?ls > 0") (simp_all only: if_True if_False S1 vec_simps(1) [OF S1])
    have S3: "sized m ?av3" by (cases "length ?lr > 0") (simp_all only: if_True if_False S2 vec_simps(1) [OF S2])
    have v1: "vec ?av1 k = (froms av ! k, tos av ! k, if k = n + q then length ?lr else if k = q then length ?ls else tally av ! k)"
      if "k < m" for k using that S lt2 by simp
    have v2: "vec ?av2 k = (if k = q \<and> length ?ls > 0 then (?fs 0, ?ts 0 0, length ?ls) else vec ?av1 k)" if "k < m" for k
      using lt2 S by (subst vec_set_if(1) [OF S1 lt2(1) that]) (simp add: sized_def)
    have v3: "vec ?av3 k = (if k = n + q \<and> length ?lr > 0 then (?fs ?nt, ?ts ?nt 2, length ?lr) else vec ?av2 k)" if "k < m" for k
      using lt2 S by (subst vec_set_if(1) [OF S2 lt2(2) that], subst vec_set_if(2) [OF S1 lt2(1) that]) (simp add: sized_def)
    have e: "froms av ! q = []" "tos av ! q = []" "froms av ! (n + q) = []" "tos av ! (n + q) = []"
      using fresh by (simp_all add: vec_def)
    have "holds_row g ?ls 0 (vec ?av3 q)"
      using H(1) v3 [OF lt2(1)] v2 [OF lt2(1)] v1 [OF lt2(1)] lt2 e holds_row_none by (cases "?ls = []") auto
    moreover have "holds_row g ?lr 2 (vec ?av3 (n + q))"
      using H(2) v3 [OF lt2(2)] v2 [OF lt2(2)] v1 [OF lt2(2)] lt2 e holds_row_none by (cases "?lr = []") auto
    moreover have "\<forall>k < m. k \<noteq> q \<longrightarrow> k \<noteq> n + q \<longrightarrow> vec ?av3 k = vec av k"
      using v1 v2 v3 by (simp add: vec_def)
    ultimately show ?thesis unfolding step using S3 by blast
  qed
  then show "sized m (token_row g n p q av)" "holds_row g ?ls 0 (vec (token_row g n p q av) q)"
    "holds_row g ?lr 2 (vec (token_row g n p q av) (n + q))"
    "\<forall>k < m. k \<noteq> q \<longrightarrow> k \<noteq> n + q \<longrightarrow> vec (token_row g n p q av) k = vec av k" by blast+
qed

lemma no_vectors_vec: "k < m \<Longrightarrow> vec (no_vectors m) k = ([], [], 0)" "sized m (no_vectors m)"
  by (simp_all add: vec_def no_vectors_def sized_def)

lemma token_actions_vec:
  assumes V: "values_ok g" and m: "2 * n \<le> m" and R: "\<forall>q < n. row_fit g p q"
  shows "sized m (token_actions g n p (no_vectors m)) \<and>
    (\<forall>q < n. holds_row g (live_shifts (parser p ! q)) 0 (vec (token_actions g n p (no_vectors m)) q) \<and>
       holds_row g (live_reductions (defred p ! q) (parser p ! q)) 2 (vec (token_actions g n p (no_vectors m)) (n + q))) \<and>
    (\<forall>k < m. 2 * n \<le> k \<longrightarrow> vec (token_actions g n p (no_vectors m)) k = ([], [], 0))"
proof -
  let ?f = "\<lambda>i. fold (token_row g n p) [0..<i] (no_vectors m)"
  have "sized m (?f i) \<and>
    (\<forall>q < i. holds_row g (live_shifts (parser p ! q)) 0 (vec (?f i) q) \<and>
       holds_row g (live_reductions (defred p ! q) (parser p ! q)) 2 (vec (?f i) (n + q))) \<and>
    (\<forall>k < m. i \<le> k \<longrightarrow> k < n \<or> n + i \<le> k \<longrightarrow> vec (?f i) k = ([], [], 0))"
    if "i \<le> n" for i
    using that
  proof (induction i)
    case 0
    then show ?case by (simp add: no_vectors_vec)
  next
    case (Suc i)
    then have IH: "sized m (?f i)" "\<forall>q < i. holds_row g (live_shifts (parser p ! q)) 0 (vec (?f i) q) \<and>
       holds_row g (live_reductions (defred p ! q) (parser p ! q)) 2 (vec (?f i) (n + q))"
      "\<forall>k < m. i \<le> k \<longrightarrow> k < n \<or> n + i \<le> k \<longrightarrow> vec (?f i) k = ([], [], 0)" by simp_all
    have i: "i < n" "row_fit g p i" using Suc.prems R by simp_all
    have fr: "vec (?f i) i = ([], [], 0)" "vec (?f i) (n + i) = ([], [], 0)"
      using IH(3) i(1) m by simp_all
    note T = token_row_vec [OF V IH(1) i(1) m i(2) fr]
    have step: "?f (Suc i) = token_row g n p i (?f i)" by simp
    have "vec (?f (Suc i)) q = vec (?f i) q" "vec (?f (Suc i)) (n + q) = vec (?f i) (n + q)" if "q < i" for q
      using T(4) that i(1) m unfolding step by simp_all
    with IH(2) T(2,3) have "\<forall>q < Suc i. holds_row g (live_shifts (parser p ! q)) 0 (vec (?f (Suc i)) q) \<and>
       holds_row g (live_reductions (defred p ! q) (parser p ! q)) 2 (vec (?f (Suc i)) (n + q))"
      unfolding less_Suc_eq step by auto
    moreover have "\<forall>k < m. Suc i \<le> k \<longrightarrow> k < n \<or> n + Suc i \<le> k \<longrightarrow> vec (?f (Suc i)) k = ([], [], 0)"
      using IH(3) T(4) unfolding step by auto
    ultimately show ?case using T(1) unfolding step by blast
  qed
  from this [OF order_refl] show ?thesis by (simp add: token_actions_def)
qed

section \<open>The columns of the gotos\<close>

definition goto_range :: "grammar \<Rightarrow> lalr_tables \<Rightarrow> nat \<Rightarrow> nat list" where
  "goto_range g t X = [goto_map t ! (X - ntokens g)..<goto_map t ! (X + 1 - ntokens g)]"

definition other_gotos :: "grammar \<Rightarrow> lalr_tables \<Rightarrow> nat \<Rightarrow> nat \<Rightarrow> nat list" where
  "other_gotos g t X d = filter (\<lambda>i. to_state t ! i \<noteq> d) (goto_range g t X)"

definition column :: "lalr_tables \<Rightarrow> nat list \<Rightarrow> int list \<times> int list \<times> nat" where
  "column t is = (map (\<lambda>i. int (from_state t ! i)) is, map (\<lambda>i. int (to_state t ! i)) is, length is)"

text \<open>The default goto of a nonterminal is its most frequent target, the smallest one of them.\<close>

lemma count_states_fold:
  "\<forall>s \<in> set xs. s < length cnt \<Longrightarrow>
   fold (\<lambda>s cnt. cnt[s := cnt ! s + 1]) xs cnt = map (\<lambda>s. cnt ! s + count_list xs s) [0..<length cnt]"
proof (induction xs arbitrary: cnt)
  case Nil
  then show ?case by (simp add: map_nth)
next
  case (Cons x xs)
  from Cons.IH [of "cnt[x := cnt ! x + 1]"] Cons.prems show ?case by (auto simp: nth_list_update)
qed

lemma max_scan:
  fixes cnt :: "nat \<Rightarrow> nat"
  assumes "fold (\<lambda>i (mx, ds). if cnt i > mx then (cnt i, i) else (mx, ds)) [0..<n] (0, 0) = (mx, ds)"
  shows "\<forall>i < n. cnt i \<le> mx" "0 < mx \<Longrightarrow> ds < n \<and> cnt ds = mx \<and> (\<forall>i < ds. cnt i < mx)"
proof -
  have "(\<forall>i < n. cnt i \<le> mx) \<and> (0 < mx \<longrightarrow> ds < n \<and> cnt ds = mx \<and> (\<forall>i < ds. cnt i < mx))"
    using assms
  proof (induction n arbitrary: mx ds)
    case (Suc n)
    obtain mx' ds' where f: "fold (\<lambda>i (mx, ds). if cnt i > mx then (cnt i, i) else (mx, ds)) [0..<n] (0, 0) = (mx', ds')"
      by fastforce
    have "(if cnt n > mx' then (cnt n, n) else (mx', ds')) = (mx, ds)" using Suc.prems f by simp
    with Suc.IH [OF f] show ?case by (auto simp: less_Suc_eq split: if_splits intro: le_less_trans)
  qed simp
  then show "\<forall>i < n. cnt i \<le> mx" "0 < mx \<Longrightarrow> ds < n \<and> cnt ds = mx \<and> (\<forall>i < ds. cnt i < mx)" by blast+
qed

lemma default_goto_correct:
  assumes "goto_range g t X \<noteq> []" "\<forall>i \<in> set (goto_range g t X). to_state t ! i < n"
  shows "default_goto g t n X \<in> set (map ((!) (to_state t)) (goto_range g t X))"
    "count_list (map ((!) (to_state t)) (goto_range g t X)) s \<le>
     count_list (map ((!) (to_state t)) (goto_range g t X)) (default_goto g t n X)"
    "s < default_goto g t n X \<Longrightarrow> count_list (map ((!) (to_state t)) (goto_range g t X)) s <
     count_list (map ((!) (to_state t)) (goto_range g t X)) (default_goto g t n X)"
proof -
  let ?T = "map ((!) (to_state t)) (goto_range g t X)"
  let ?m = "goto_map t ! (X - ntokens g)" and ?n = "goto_map t ! (X + 1 - ntokens g)"
  have ne: "?m \<noteq> ?n" using assms(1) by (auto simp: goto_range_def)
  have lt: "\<forall>s \<in> set ?T. s < n" using assms(2) by simp
  have "fold (\<lambda>i cnt. cnt[to_state t ! i := cnt ! (to_state t ! i) + 1]) [?m..<?n] (replicate n 0) =
      fold (\<lambda>s cnt. cnt[s := cnt ! s + 1]) ?T (replicate n 0)"
    by (simp add: goto_range_def fold_map comp_def)
  also have "\<dots> = map (count_list ?T) [0..<n]"
    using count_states_fold [of ?T "replicate n 0"] lt by (simp del: set_map)
  finally have cnt: "fold (\<lambda>i cnt. cnt[to_state t ! i := cnt ! (to_state t ! i) + 1]) [?m..<?n] (replicate n 0) =
      map (count_list ?T) [0..<n]" .
  obtain mx ds where f: "fold (\<lambda>i (mx, ds). if count_list ?T i > mx then (count_list ?T i, i) else (mx, ds)) [0..<n] (0, 0) = (mx, ds)"
    by fastforce
  have "fold (\<lambda>i (mx, ds). if map (count_list ?T) [0..<n] ! i > mx then (map (count_list ?T) [0..<n] ! i, i) else (mx, ds))
      [0..<n] (0, 0) = (mx, ds)"
    unfolding f [symmetric] by (rule fold_cong) auto
  then have d: "default_goto g t n X = ds"
    unfolding default_goto_def Let_def cnt using ne by simp
  note M = max_scan [OF f]
  obtain s0 where s0: "s0 \<in> set ?T" "s0 < n" using assms by (cases "goto_range g t X") auto
  have "0 < count_list ?T s0" using s0(1) count_list_0_iff by (metis gr0I)
  then have "0 < mx" using M(1) s0(2) by (metis not_less0 not_gr_zero le_zero_eq)
  note D = M(2) [OF this]
  then have pos: "0 < count_list ?T ds" using \<open>0 < mx\<close> by simp
  then show "default_goto g t n X \<in> set ?T" unfolding d by (metis count_notin less_irrefl)
  show "count_list ?T s \<le> count_list ?T (default_goto g t n X)"
  proof (cases "s < n")
    case True
    with M(1) D show ?thesis unfolding d by simp
  next
    case False
    then have "s \<notin> set ?T" using lt by blast
    then show ?thesis by (simp add: count_notin)
  qed
  show "s < default_goto g t n X \<Longrightarrow> count_list ?T s < count_list ?T (default_goto g t n X)"
    using D unfolding d by simp
qed

lemma save_column_vec:
  assumes S: "sized m av" and k: "nat (symbol_value g ! X) + 2 * n < m"
    and fresh: "vec av (nat (symbol_value g ! X) + 2 * n) = ([], [], 0)"
  shows "sized m (save_column g t n X d av)"
    "vec (save_column g t n X d av) (nat (symbol_value g ! X) + 2 * n) = column t (other_gotos g t X d)"
    "\<forall>j < m. j \<noteq> nat (symbol_value g ! X) + 2 * n \<longrightarrow> vec (save_column g t n X d av) j = vec av j"
proof -
  let ?s = "nat (symbol_value g ! X) + 2 * n" and ?o = "other_gotos g t X d"
  have eq: "save_column g t n X d av = (if ?o = [] then av else
      (set_vector ?s (map (\<lambda>i. int (from_state t ! i)) ?o) (map (\<lambda>i. int (to_state t ! i)) ?o)
        (last (map (\<lambda>i. int (from_state t ! i)) ?o) - hd (map (\<lambda>i. int (from_state t ! i)) ?o) + 1) av)
        \<lparr>tally := (tally av)[?s := length ?o]\<rparr>)"
    by (simp add: save_column_def other_gotos_def goto_range_def Let_def)
  show "sized m (save_column g t n X d av)" using S unfolding eq by (auto simp: sized_def set_vector_def)
  show "vec (save_column g t n X d av) ?s = column t ?o"
    using S k fresh unfolding eq by (auto simp: sized_def set_vector_def vec_def column_def)
  show "\<forall>j < m. j \<noteq> ?s \<longrightarrow> vec (save_column g t n X d av) j = vec av j"
    using S unfolding eq by (auto simp: sized_def set_vector_def vec_def)
qed

lemma goto_actions_vec:
  assumes V: "values_ok g" and wf: "wf_grammar g" and S: "sized m av" and m: "m = 2 * n + nvars g"
    and fresh: "\<forall>k < m. 2 * n \<le> k \<longrightarrow> vec av k = ([], [], 0)"
  shows "\<exists>av'. goto_actions g t n av = (map (default_goto g t n) [start_symbol g + 1..<nsyms g], av') \<and> sized m av' \<and>
    (\<forall>k < 2 * n. vec av' k = vec av k) \<and>
    (\<forall>a < nvars g - 1. vec av' (2 * n + a) =
       column t (other_gotos g t (start_symbol g + 1 + a) (default_goto g t n (start_symbol g + 1 + a)))) \<and>
    vec av' (2 * n + (nvars g - 1)) = ([], [], 0)"
proof -
  let ?s = "start_symbol g + 1"
  have sz: "nsyms g = start_symbol g + nvars g" "2 \<le> nvars g" using wf_sizesD [OF wf] by simp_all
  have up: "[?s..<nsyms g] = ?s # [start_symbol g + 2..<nsyms g]" using sz by (simp add: upt_conv_Cons)
  have val: "nat (symbol_value g ! (?s + a)) = a" if "a < nvars g - 1" for a
    using V that sz by (simp add: values_ok_def)
  have "\<exists>av'. fold (goto_step g t n) [?s..<?s + b] ([], av) = (map (default_goto g t n) [?s..<?s + b], av') \<and> sized m av' \<and>
    (\<forall>k < 2 * n. vec av' k = vec av k) \<and>
    (\<forall>a < b. vec av' (2 * n + a) = column t (other_gotos g t (?s + a) (default_goto g t n (?s + a)))) \<and>
    (\<forall>k < m. 2 * n + b \<le> k \<longrightarrow> vec av' k = ([], [], 0))" if "b \<le> nvars g - 1" for b
    using that
  proof (induction b)
    case 0
    then show ?case using S fresh by simp
  next
    case (Suc b)
    then obtain av' where av': "fold (goto_step g t n) [?s..<?s + b] ([], av) = (map (default_goto g t n) [?s..<?s + b], av')"
      "sized m av'" "\<forall>k < 2 * n. vec av' k = vec av k"
      "\<forall>a < b. vec av' (2 * n + a) = column t (other_gotos g t (?s + a) (default_goto g t n (?s + a)))"
      "\<forall>k < m. 2 * n + b \<le> k \<longrightarrow> vec av' k = ([], [], 0)" by auto
    let ?d = "default_goto g t n (?s + b)"
    have v: "nat (symbol_value g ! (?s + b)) + 2 * n = 2 * n + b" using val [of b] Suc.prems by simp
    have k: "2 * n + b < m" using m Suc.prems by simp
    note C = save_column_vec [OF av'(2), of g "?s + b" n t ?d, unfolded v, OF k av'(5) [rule_format, OF k order_refl]]
    have split: "[?s..<?s + Suc b] = [?s..<?s + b] @ [?s + b]" by simp
    have "fold (goto_step g t n) [?s..<?s + Suc b] ([], av) =
        (map (default_goto g t n) [?s..<?s + Suc b], save_column g t n (?s + b) ?d av')"
      unfolding split fold_append comp_def av'(1) map_append by (simp add: goto_step_def Let_def)
    moreover have "\<forall>k < 2 * n. vec (save_column g t n (?s + b) ?d av') k = vec av k"
      using av'(3) C(3) k by simp
    moreover have "\<forall>a < Suc b. vec (save_column g t n (?s + b) ?d av') (2 * n + a) =
        column t (other_gotos g t (?s + a) (default_goto g t n (?s + a)))"
      using av'(4) C(2,3) k by (auto simp: less_Suc_eq)
    moreover have "\<forall>k < m. 2 * n + Suc b \<le> k \<longrightarrow> vec (save_column g t n (?s + b) ?d av') k = ([], [], 0)"
      using av'(5) C(3) by simp
    ultimately show ?case using C(1) by blast
  qed
  from this [of "nvars g - 1"] obtain av' where av':
    "fold (goto_step g t n) [?s..<?s + (nvars g - 1)] ([], av) = (map (default_goto g t n) [?s..<?s + (nvars g - 1)], av')"
    "sized m av'" "\<forall>k < 2 * n. vec av' k = vec av k"
    "\<forall>a < nvars g - 1. vec av' (2 * n + a) = column t (other_gotos g t (?s + a) (default_goto g t n (?s + a)))"
    "\<forall>k < m. 2 * n + (nvars g - 1) \<le> k \<longrightarrow> vec av' k = ([], [], 0)" by auto
  have e: "?s + (nvars g - 1) = nsyms g" using sz by simp
  have "goto_actions g t n av = fold (goto_step g t n) [?s..<nsyms g] ([], av)"
    unfolding up by (simp add: goto_actions_def)
  with av' show ?thesis unfolding e using m sz(2) by auto
qed

section \<open>output\_actions\<close>

definition output_actions :: "grammar \<Rightarrow> lalr_tables \<Rightarrow> nat \<Rightarrow> parser_tables \<Rightarrow> jay_error + nat list \<times> pack_state" where
  "output_actions g t nstates p =
     (let nvectors = 2 * nstates + nvars g;
          av = token_actions g nstates p (no_vectors nvectors);
          (dgoto, av) = goto_actions g t nstates av
      in case pack_table av nstates nvectors of
           Inl e \<Rightarrow> Inl e
         | Inr ps \<Rightarrow> Inr (dgoto, ps))"

text \<open>The three ways in which the emitted parser consults the tables.\<close>

definition shift_lookup :: "grammar \<Rightarrow> pack_state \<Rightarrow> nat \<Rightarrow> nat \<Rightarrow> int option" where
  "shift_lookup g ps q X = table_lookup ps (base ps ! q) (symbol_value g ! X)"

definition reduce_lookup :: "grammar \<Rightarrow> pack_state \<Rightarrow> nat \<Rightarrow> nat \<Rightarrow> nat \<Rightarrow> int option" where
  "reduce_lookup g ps n q X = table_lookup ps (base ps ! (n + q)) (symbol_value g ! X)"

definition goto_lookup :: "pack_state \<Rightarrow> nat list \<Rightarrow> nat \<Rightarrow> nat \<Rightarrow> nat \<Rightarrow> int" where
  "goto_lookup ps dgoto n a q =
     (case table_lookup ps (base ps ! (2 * n + a)) (int q) of Some s \<Rightarrow> s | None \<Rightarrow> int (dgoto ! a))"

lemma resolvedD:
  assumes "resolved as bs c"
  shows "length bs = length as" "\<forall>i < length as. \<exists>v. bs ! i = (as ! i)\<lparr>suppressed := v\<rparr>"
    "\<forall>i < length as. \<forall>j < length as. suppressed (bs ! i) = 0 \<longrightarrow> suppressed (bs ! j) = 0 \<longrightarrow>
        act_symbol (as ! i) = act_symbol (as ! j) \<longrightarrow> i = j"
  using assms unfolding resolved_def by blast+

lemma resolved_symbols:
  assumes R: "resolved as bs c"
  shows "distinct (map act_symbol (live_shifts bs))" "distinct (map act_symbol (live_reductions d bs))"
proof -
  note D = resolvedD [OF R]
  have sym: "act_symbol (bs ! i) = act_symbol (as ! i)" if "i < length bs" for i
    using D(2) [rule_format, of i] that D(1) by auto
  have one: "i = j" if "i < length bs" "j < length bs" "suppressed (bs ! i) = 0" "suppressed (bs ! j) = 0"
    "act_symbol (bs ! i) = act_symbol (bs ! j)" for i j
    using D(3) [rule_format, of i j] that D(1) sym by simp
  have dist: "distinct (map f (filter P xs))"
    if "\<forall>i < length xs. \<forall>j < length xs. P (xs ! i) \<longrightarrow> P (xs ! j) \<longrightarrow> f (xs ! i) = f (xs ! j) \<longrightarrow> i = j"
    for f :: "action \<Rightarrow> nat" and P xs
    using that
  proof (induction xs)
    case (Cons x xs)
    have "\<forall>i < length xs. \<forall>j < length xs. P (xs ! i) \<longrightarrow> P (xs ! j) \<longrightarrow> f (xs ! i) = f (xs ! j) \<longrightarrow> i = j"
    proof (intro allI impI)
      fix i j assume "i < length xs" "j < length xs" "P (xs ! i)" "P (xs ! j)" "f (xs ! i) = f (xs ! j)"
      then show "i = j" using Cons.prems [rule_format, of "Suc i" "Suc j"] by simp
    qed
    moreover have "f x \<notin> f ` set (filter P xs)" if "P x"
    proof
      assume "f x \<in> f ` set (filter P xs)"
      then obtain j where "j < length xs" "P (xs ! j)" "f x = f (xs ! j)" by (auto simp: in_set_conv_nth)
      then show False using Cons.prems [rule_format, of 0 "Suc j"] that by simp
    qed
    ultimately show ?case using Cons.IH by auto
  qed simp
  show "distinct (map act_symbol (live_shifts bs))" "distinct (map act_symbol (live_reductions d bs))"
    unfolding live_shifts_def live_reductions_def by (rule dist, blast intro: one)+
qed

lemma resolved_members:
  assumes "resolved as bs c" "b \<in> set bs"
  shows "\<exists>a \<in> set as. \<exists>v. b = a\<lparr>suppressed := v\<rparr>"
proof -
  from assms(2) obtain i where i: "i < length bs" "b = bs ! i" by (auto simp: in_set_conv_nth)
  with resolvedD(1,2) [OF assms(1)] obtain v where "b = (as ! i)\<lparr>suppressed := v\<rparr>" "i < length as" by auto
  then show ?thesis using nth_mem by blast
qed

lemma parser_ok_row_fit:
  assumes wf: "wf_grammar g" and E: "automaton g st" and P: "parser_ok g st p" and q: "q < length (cores st)"
  shows "row_fit g p q"
proof -
  from P q obtain as where A: "set as = row_of g st q" "resolved as (parser p ! q) (SRconflicts p ! q + RRconflicts p ! q)"
    by (auto simp: parser_ok_def row_ok_def)
  have "act_symbol a < ntokens g \<and> 0 < act_number a" if "a \<in> set as" for a
  proof -
    from that A(1) consider (s) X s where "a = shift_action g X s" "X < start_symbol g" "lr_trans g st q X s"
      | (r) X r where "a = reduce_action g X r" "X < ntokens g" "r \<in> set (rules_at g st q)"
      by (auto simp: row_of_def)
    then show ?thesis
    proof cases
      case s
      then show ?thesis using transD(2) [OF s(3)] wf_sizesD(5) [OF wf] by (simp add: shift_action_def)
    next
      case r
      have "0 < r" using r(3) by (auto simp: complete_rules_def)
      with r show ?thesis by (simp add: reduce_action_def)
    qed
  qed
  then have "\<forall>b \<in> set (parser p ! q). act_symbol b < ntokens g \<and> 0 < act_number b"
    using resolved_members [OF A(2)] by fastforce
  with resolved_symbols [OF A(2)] show ?thesis by (simp add: row_fit_def)
qed

lemma numbers_live:
  assumes "distinct (map act_symbol as)"
  shows "map_option (\<lambda>n. int n - d) (numbers_on as X) = Some v \<longleftrightarrow>
    (\<exists>a \<in> set as. act_symbol a = X \<and> int (act_number a) - d = v)"
  using numbers_on_Some [OF assms] by fastforce

lemma other_gotos_pairs:
  assumes wf: "wf_grammar g" and E: "automaton g st" and T: "tables_ok g st t" and a: "a < nvars g - 1"
  defines "X \<equiv> start_symbol g + 1 + a"
  shows "\<forall>i \<in> set (goto_range g t X). lr_trans g st (from_state t ! i) X (to_state t ! i)"
    "lr_trans g st q X s \<Longrightarrow> \<exists>i \<in> set (goto_range g t X). from_state t ! i = q \<and> to_state t ! i = s"
    "distinct (map (\<lambda>i. int (from_state t ! i)) (other_gotos g t X d))"
proof -
  have sz: "ntokens g = start_symbol g" "2 \<le> nvars g" using wf_sizesD [OF wf] by simp_all
  have b: "Suc a < nvars g" using a by simp
  have G: "gotos_ok g st (goto_map t) (from_state t) (to_state t)" using T by (simp add: tables_ok_def)
  have rng: "goto_range g t X = [goto_map t ! Suc a..<goto_map t ! Suc (Suc a)]"
    by (simp add: goto_range_def X_def sz)
  show "\<forall>i \<in> set (goto_range g t X). lr_trans g st (from_state t ! i) X (to_state t ! i)"
  proof
    fix i assume "i \<in> set (goto_range g t X)"
    then have "goto_map t ! Suc a \<le> i" "i < goto_map t ! Suc (Suc a)" by (simp_all add: rng)
    with G b have "lr_trans g st (from_state t ! i) (start_symbol g + Suc a) (to_state t ! i)"
      unfolding gotos_ok_def by blast
    then show "lr_trans g st (from_state t ! i) X (to_state t ! i)" by (simp add: X_def)
  qed
  show "\<exists>i \<in> set (goto_range g t X). from_state t ! i = q \<and> to_state t ! i = s" if "lr_trans g st q X s"
  proof -
    have "start_symbol g \<le> X" "X - start_symbol g = Suc a" by (simp_all add: X_def)
    with G that obtain i where "goto_map t ! Suc a \<le> i" "i < goto_map t ! Suc (Suc a)" "from_state t ! i = q" "to_state t ! i = s"
      unfolding gotos_ok_def by metis
    then show ?thesis unfolding rng by (intro bexI [of _ i]) simp_all
  qed
  have mono: "from_state t ! k < from_state t ! l"
    if "goto_map t ! Suc a \<le> k" "k < l" "l < goto_map t ! Suc (Suc a)" for k l
    using G b that unfolding gotos_ok_def by blast
  have "inj_on (\<lambda>i. int (from_state t ! i)) (set (goto_range g t X))"
  proof (rule inj_onI)
    fix k l assume "k \<in> set (goto_range g t X)" "l \<in> set (goto_range g t X)" "int (from_state t ! k) = int (from_state t ! l)"
    then show "k = l" unfolding rng using mono [of k l] mono [of l k] by (cases k l rule: linorder_cases) auto
  qed
  then show "distinct (map (\<lambda>i. int (from_state t ! i)) (other_gotos g t X d))"
    unfolding other_gotos_def by (auto simp: distinct_map goto_range_def intro: inj_on_subset)
qed

lemma column_lookup:
  assumes "distinct (map (\<lambda>i. int (from_state t ! i)) is)"
  shows "i \<in> set is \<Longrightarrow> from_state t ! i = q \<Longrightarrow>
      map_of (zip (fst (column t is)) (fst (snd (column t is)))) (int q) = Some (int (to_state t ! i))"
    "\<forall>i \<in> set is. from_state t ! i \<noteq> q \<Longrightarrow> map_of (zip (fst (column t is)) (fst (snd (column t is)))) (int q) = None"
proof -
  assume i: "i \<in> set is" "from_state t ! i = q"
  have "inj_on (\<lambda>i. int (from_state t ! i)) (set is)" using assms by (simp add: distinct_map)
  from map_of_zip_map [OF this i(1), of "\<lambda>i. int (to_state t ! i)"] i(2)
  show "map_of (zip (fst (column t is)) (fst (snd (column t is)))) (int q) = Some (int (to_state t ! i))"
    by (simp add: column_def)
next
  assume "\<forall>i \<in> set is. from_state t ! i \<noteq> q"
  then have "int q \<notin> set (map (\<lambda>i. int (from_state t ! i)) is)" by auto
  then have "map_of (zip (map (\<lambda>i. int (from_state t ! i)) is) (map (\<lambda>i. int (to_state t ! i)) is)) (int q) = None"
    by (subst map_of_zip_is_None) simp_all
  then show "map_of (zip (fst (column t is)) (fst (snd (column t is)))) (int q) = None" by (simp add: column_def)
qed

text \<open>The vectors of all states and nonterminals are in the shape the packer asks for.\<close>

definition all_vectors :: "grammar \<Rightarrow> lr0_state \<Rightarrow> lalr_tables \<Rightarrow> parser_tables \<Rightarrow> vectors \<Rightarrow> bool" where
  "all_vectors g st t p av \<longleftrightarrow> (let n = length (cores st) in
     (\<forall>q < n. holds_row g (live_shifts (parser p ! q)) 0 (vec av q) \<and>
        holds_row g (live_reductions (defred p ! q) (parser p ! q)) 2 (vec av (n + q))) \<and>
     (\<forall>a < nvars g - 1. vec av (2 * n + a) =
        column t (other_gotos g t (start_symbol g + 1 + a) (default_goto g t n (start_symbol g + 1 + a)))) \<and>
     vec av (2 * n + (nvars g - 1)) = ([], [], 0))"

lemma index_cases:
  assumes "i < 2 * n + v" "2 \<le> (v::nat)"
  shows "i < n \<or> (\<exists>q < n. i = n + q) \<or> (\<exists>a < v - 1. i = 2 * n + a) \<or> i = 2 * n + (v - 1)"
proof -
  consider "i < n" | "n \<le> i" "i < 2 * n" | "2 * n \<le> i" "i < 2 * n + (v - 1)" | "i = 2 * n + (v - 1)"
    using assms by linarith
  then show ?thesis
  proof cases
    case 2
    then have "i - n < n" "i = n + (i - n)" by simp_all
    then show ?thesis by blast
  next
    case 3
    then have "i - 2 * n < v - 1" "i = 2 * n + (i - 2 * n)" by simp_all
    then show ?thesis by blast
  qed blast+
qed

lemma all_vectors_ok:
  assumes wf: "wf_grammar g" and E: "automaton g st" and T: "tables_ok g st t"
    and S: "sized (2 * length (cores st) + nvars g) av" and A: "all_vectors g st t p av"
  shows "vectors_ok av (2 * length (cores st) + nvars g)"
proof -
  let ?n = "length (cores st)"
  define good where "good = (\<lambda>v :: int list \<times> int list \<times> nat. length (fst v) = snd (snd v) \<and>
    length (fst (snd v)) = snd (snd v) \<and> distinct (fst v) \<and> (\<forall>f \<in> set (fst v). 0 \<le> f))"
  have row: "good v" if "holds_row g as d v" for as d v
    using that by (cases v) (auto simp: good_def holds_row_def token_vector_def)
  have "good (vec av i)" if i: "i < 2 * ?n + nvars g" for i
  proof -
    from index_cases [OF i wf_sizesD(7) [OF wf]]
    consider (s) "i < ?n" | (r) q where "q < ?n" "i = ?n + q" | (g) a where "a < nvars g - 1" "i = 2 * ?n + a"
      | (l) "i = 2 * ?n + (nvars g - 1)" by blast
    then show ?thesis
    proof cases
      case g
      have "good (column t (other_gotos g t (start_symbol g + 1 + a) (default_goto g t ?n (start_symbol g + 1 + a))))"
        using other_gotos_pairs(3) [OF wf E T g(1)] by (simp add: good_def column_def)
      with A g show ?thesis by (simp add: all_vectors_def Let_def)
    next
      case l
      with A show ?thesis by (simp add: all_vectors_def Let_def good_def)
    next
      case s
      with A have "holds_row g (live_shifts (parser p ! i)) 0 (vec av i)" by (simp add: all_vectors_def Let_def)
      then show ?thesis by (rule row)
    next
      case r
      with A have "holds_row g (live_reductions (defred p ! q) (parser p ! q)) 2 (vec av (?n + q))"
        by (simp add: all_vectors_def Let_def)
      then show ?thesis unfolding r(2) by (rule row)
    qed
  qed
  with S show ?thesis by (simp add: vectors_ok_def sized_def good_def vec_def)
qed

lemma vectors_built:
  assumes wf: "wf_grammar g" and V: "values_ok g" and E: "automaton g st" and T: "tables_ok g st t"
    and P: "parser_ok g st p"
  defines "n \<equiv> length (cores st)"
  shows "\<exists>av. goto_actions g t n (token_actions g n p (no_vectors (2 * n + nvars g))) =
      (map (default_goto g t n) [start_symbol g + 1..<nsyms g], av) \<and>
    sized (2 * n + nvars g) av \<and> all_vectors g st t p av"
proof -
  let ?m = "2 * n + nvars g" let ?av = "token_actions g n p (no_vectors ?m)"
  have "\<forall>q < n. row_fit g p q" using parser_ok_row_fit [OF wf E P] by (simp add: n_def)
  from token_actions_vec [OF V _ this, of ?m]
  have A: "sized ?m ?av" "\<forall>q < n. holds_row g (live_shifts (parser p ! q)) 0 (vec ?av q) \<and>
       holds_row g (live_reductions (defred p ! q) (parser p ! q)) 2 (vec ?av (n + q))"
    "\<forall>k < ?m. 2 * n \<le> k \<longrightarrow> vec ?av k = ([], [], 0)" by simp_all
  from goto_actions_vec [OF V wf A(1) refl A(3), of t]
  obtain av' where av': "goto_actions g t n ?av = (map (default_goto g t n) [start_symbol g + 1..<nsyms g], av')"
    "sized ?m av'" "\<forall>k < 2 * n. vec av' k = vec ?av k"
    "\<forall>a < nvars g - 1. vec av' (2 * n + a) =
       column t (other_gotos g t (start_symbol g + 1 + a) (default_goto g t n (start_symbol g + 1 + a)))"
    "vec av' (2 * n + (nvars g - 1)) = ([], [], 0)" by blast
  have "all_vectors g st t p av'"
    unfolding all_vectors_def Let_def n_def [symmetric] using A(2) av'(3-5) by simp
  with av'(1,2) show ?thesis by blast
qed

lemma token_lookup:
  assumes "holds_row g as d (vec av v)" "X < ntokens g" "distinct (map act_symbol as)"
  shows "map_of (zip (froms av ! v) (tos av ! v)) (symbol_value g ! X) = Some w \<longleftrightarrow>
    (\<exists>a \<in> set as. act_symbol a = X \<and> int (act_number a) - d = w)"
  using assms numbers_live [OF assms(3), of d X w] by (simp add: holds_row_def vec_def token_vector_def)

text \<open>A token that is no value of the grammar is found in no row.\<close>

theorem output_actions_unknown:
  assumes wf: "wf_grammar g" and V: "values_ok g" and E: "automaton g st" and T: "tables_ok g st t"
    and P: "parser_ok g st p" and out: "output_actions g t (length (cores st)) p = Inr (dgoto, ps)"
    and q: "q < length (cores st)" and k: "0 \<le> k" "k \<notin> (!) (symbol_value g) ` {0..<ntokens g}"
  shows "table_lookup ps (base ps ! q) k = None" "table_lookup ps (base ps ! (length (cores st) + q)) k = None"
proof -
  let ?n = "length (cores st)" let ?m = "2 * ?n + nvars g"
  from vectors_built [OF wf V E T P] obtain av where av:
    "goto_actions g t ?n (token_actions g ?n p (no_vectors ?m)) = (map (default_goto g t ?n) [start_symbol g + 1..<nsyms g], av)"
    "sized ?m av" "all_vectors g st t p av" by blast
  have pt: "pack_table av ?n ?m = Inr ps" using out by (auto simp: output_actions_def av(1) Let_def split: sum.splits)
  note L = pack_table_lookup [OF all_vectors_ok [OF wf E T av(2,3)] pt]
  have none: "map_of (zip (froms av ! v) (tos av ! v)) k = None" if "holds_row g as d (vec av v)" for as d v
    using that k(2) by (subst map_of_zip_is_None) (auto simp: holds_row_def vec_def token_vector_def)
  have "holds_row g (live_shifts (parser p ! q)) 0 (vec av q)"
    "holds_row g (live_reductions (defred p ! q) (parser p ! q)) 2 (vec av (?n + q))"
    using av(3) q by (simp_all add: all_vectors_def Let_def)
  from this [THEN none] L [OF _ k(1), of q] L [OF _ k(1), of "?n + q"] q
  show "table_lookup ps (base ps ! q) k = None" "table_lookup ps (base ps ! (?n + q)) k = None" by simp_all
qed

theorem output_actions_lookup:
  assumes wf: "wf_grammar g" and V: "values_ok g" and E: "automaton g st" and T: "tables_ok g st t"
    and P: "parser_ok g st p" and out: "output_actions g t (length (cores st)) p = Inr (dgoto, ps)"
  shows "q < length (cores st) \<Longrightarrow> X < ntokens g \<Longrightarrow> shift_lookup g ps q X = Some w \<longleftrightarrow>
      (\<exists>a \<in> live (parser p ! q). act_code a = SHIFT \<and> act_symbol a = X \<and> int (act_number a) = w)"
    "q < length (cores st) \<Longrightarrow> X < ntokens g \<Longrightarrow> reduce_lookup g ps (length (cores st)) q X = Some w \<longleftrightarrow>
      (\<exists>a \<in> live (parser p ! q). act_code a = REDUCE \<and> act_symbol a = X \<and> act_number a \<noteq> defred p ! q \<and>
         int (act_number a) - 2 = w)"
    "a < nvars g - 1 \<Longrightarrow> lr_trans g st q (start_symbol g + 1 + a) s \<Longrightarrow>
      goto_lookup ps dgoto (length (cores st)) a q = int s"
proof -
  let ?n = "length (cores st)" let ?m = "2 * ?n + nvars g"
  from vectors_built [OF wf V E T P] obtain av where av:
    "goto_actions g t ?n (token_actions g ?n p (no_vectors ?m)) = (map (default_goto g t ?n) [start_symbol g + 1..<nsyms g], av)"
    "sized ?m av" "all_vectors g st t p av" by blast
  have pt: "pack_table av ?n ?m = Inr ps" and dg: "dgoto = map (default_goto g t ?n) [start_symbol g + 1..<nsyms g]"
    using out by (auto simp: output_actions_def av(1) Let_def split: sum.splits)
  note L = pack_table_lookup [OF all_vectors_ok [OF wf E T av(2,3)] pt]
  have val: "0 \<le> symbol_value g ! X" if "X < ntokens g" using V that by (simp add: values_ok_def)
  show "shift_lookup g ps q X = Some w \<longleftrightarrow>
      (\<exists>a \<in> live (parser p ! q). act_code a = SHIFT \<and> act_symbol a = X \<and> int (act_number a) = w)"
    if q: "q < ?n" and X: "X < ntokens g"
  proof -
    have H: "holds_row g (live_shifts (parser p ! q)) 0 (vec av q)" using av(3) q by (simp add: all_vectors_def Let_def)
    have "distinct (map act_symbol (live_shifts (parser p ! q)))"
      using parser_ok_row_fit [OF wf E P q] by (simp add: row_fit_def)
    from token_lookup [OF H X this, of w] L [OF _ val [OF X], of q] q show ?thesis
      by (auto simp: shift_lookup_def live_def live_shifts_def)
  qed
  show "reduce_lookup g ps ?n q X = Some w \<longleftrightarrow>
      (\<exists>a \<in> live (parser p ! q). act_code a = REDUCE \<and> act_symbol a = X \<and> act_number a \<noteq> defred p ! q \<and>
         int (act_number a) - 2 = w)"
    if q: "q < ?n" and X: "X < ntokens g"
  proof -
    have H: "holds_row g (live_reductions (defred p ! q) (parser p ! q)) 2 (vec av (?n + q))"
      using av(3) q by (simp add: all_vectors_def Let_def)
    have "distinct (map act_symbol (live_reductions (defred p ! q) (parser p ! q)))"
      using parser_ok_row_fit [OF wf E P q] by (simp add: row_fit_def)
    from token_lookup [OF H X this, of w] L [OF _ val [OF X], of "?n + q"] q show ?thesis
      by (auto simp: reduce_lookup_def live_def live_reductions_def)
  qed
  show "goto_lookup ps dgoto ?n a q = int s"
    if a: "a < nvars g - 1" and tr: "lr_trans g st q (start_symbol g + 1 + a) s"
  proof -
    let ?X = "start_symbol g + 1 + a" let ?d = "default_goto g t ?n ?X"
    have col: "vec av (2 * ?n + a) = column t (other_gotos g t ?X ?d)" using av(3) a by (simp add: all_vectors_def Let_def)
    note G = other_gotos_pairs [OF wf E T a]
    from G(2) [OF tr] obtain i where i: "i \<in> set (goto_range g t ?X)" "from_state t ! i = q" "to_state t ! i = s" by blast
    have lk: "table_lookup ps (base ps ! (2 * ?n + a)) (int q) =
        map_of (zip (fst (column t (other_gotos g t ?X ?d))) (fst (snd (column t (other_gotos g t ?X ?d))))) (int q)"
      unfolding col [symmetric] using L [of "2 * ?n + a" "int q"] a by (simp add: vec_def)
    have "dgoto ! a = ?d" using a wf_sizesD(4,5) [OF wf] by (simp add: dg)
    show ?thesis
    proof (cases "s = ?d")
      case False
      then have "i \<in> set (other_gotos g t ?X ?d)" using i by (simp add: other_gotos_def)
      from column_lookup(1) [OF G(3) this i(2)] i(3) lk show ?thesis by (simp add: goto_lookup_def)
    next
      case True
      have "\<forall>k \<in> set (other_gotos g t ?X ?d). from_state t ! k \<noteq> q"
      proof
        fix k assume k: "k \<in> set (other_gotos g t ?X ?d)"
        show "from_state t ! k \<noteq> q"
        proof
          assume "from_state t ! k = q"
          with G(1) k have "lr_trans g st q ?X (to_state t ! k)" by (auto simp: other_gotos_def)
          from trans_unique [OF E this tr] k True show False by (simp add: other_gotos_def)
        qed
      qed
      from column_lookup(2) [OF G(3) this] lk True \<open>dgoto ! a = ?d\<close> show ?thesis by (simp add: goto_lookup_def)
    qed
  qed
qed

lemma output_actions_error:
  assumes wf: "wf_grammar g" and V: "values_ok g" and E: "automaton g st" and T: "tables_ok g st t"
    and P: "parser_ok g st p" and out: "output_actions g t (length (cores st)) p = Inl e"
  shows "e \<in> {Fatal ''maximum table size exceeded'', BadAccess} \<or>
    e = OutOfShort \<and> MAXSHORT < 2 * length (cores st) + nvars g"
proof -
  let ?n = "length (cores st)" let ?m = "2 * ?n + nvars g"
  from vectors_built [OF wf V E T P] obtain av where av:
    "goto_actions g t ?n (token_actions g ?n p (no_vectors ?m)) = (map (default_goto g t ?n) [start_symbol g + 1..<nsyms g], av)"
    "sized ?m av" "all_vectors g st t p av" by blast
  have "pack_table av ?n ?m = Inl e"
    using out by (auto simp: output_actions_def av(1) Let_def split: sum.splits)
  from pack_table_error [OF all_vectors_ok [OF wf E T av(2,3)] this] show ?thesis by fastforce
qed

section \<open>Properties\<close>

text \<open>
  \<^verbatim>\<open>default_goto\<close> of a nonterminal with gotos is their most frequent target, and of several such
  targets the one with the smallest number.
\<close>

theorem default_goto_most_frequent:
  fixes g t n X
  defines "T \<equiv> map ((!) (to_state t)) [goto_map t ! (X - ntokens g)..<goto_map t ! (X + 1 - ntokens g)]"
  assumes "T \<noteq> []" "\<forall>s \<in> set T. s < n"
  shows "default_goto g t n X \<in> set T \<and>
    (\<forall>s. count_list T s \<le> count_list T (default_goto g t n X)) \<and>
    (\<forall>s < default_goto g t n X. count_list T s < count_list T (default_goto g t n X))"
proof -
  have "goto_range g t X \<noteq> []" "\<forall>i \<in> set (goto_range g t X). to_state t ! i < n"
    using assms(2,3) by (auto simp: T_def goto_range_def)
  from default_goto_correct [OF this] show ?thesis by (auto simp: T_def goto_range_def)
qed

definition sample_tables :: lalr_tables where
  "sample_tables = \<lparr>state_table = [], accessing = [], shift_table = [], reduction_table = [], maxrhs = 0,
     lookaheads = [], LAruleno = [], goto_map = [0, 0, 3], from_state = [0, 1, 4], to_state = [2, 3, 3]\<rparr>"

theorem default_goto_most_frequent_witness:
  "let T = map ((!) (to_state sample_tables)) [0..<3] in
    default_goto sample_grammar sample_tables 5 4 \<in> set T \<and>
    (\<forall>s. count_list T s \<le> count_list T (default_goto sample_grammar sample_tables 5 4)) \<and>
    (\<forall>s < default_goto sample_grammar sample_tables 5 4.
       count_list T s < count_list T (default_goto sample_grammar sample_tables 5 4))"
proof -
  have m: "goto_map sample_tables ! (4 - ntokens sample_grammar) = 0"
    "goto_map sample_tables ! (4 + 1 - ntokens sample_grammar) = 3"
    by (simp_all add: sample_tables_def sample_grammar_def)
  have t: "map ((!) (to_state sample_tables)) [0..<3] = [2, 3, 3]" by (simp add: sample_tables_def upt_rec)
  show ?thesis
    using default_goto_most_frequent [of sample_tables 4 sample_grammar 5, unfolded m t]
    unfolding t Let_def by simp
qed

end
