(* ===== verification/Passes.thy ===== *)
theory Passes
  imports Vectors
begin

text \<open>
  The passes of \<^verbatim>\<open>jay/main.c\<close> after the reader, run one after another: \<^verbatim>\<open>lr0\<close>, \<^verbatim>\<open>lalr\<close>,
  \<^verbatim>\<open>make_parser\<close> and \<^verbatim>\<open>output_actions\<close>.  What each promises to the next one is a locale; the
  locales are interpreted on the model's passes, and composed they say what the emitted tables are.
\<close>

section \<open>The whole run\<close>

record run =
  run_nullable :: "bool list"
  run_automaton :: lr0_state
  run_tables :: lalr_tables
  run_LA :: "u32 list"
  run_parser :: parser_tables
  run_dgoto :: "nat list"
  run_packed :: pack_state

definition compile_tables :: "grammar \<Rightarrow> (jay_error + run) option" where
  "compile_tables g =
     (case lr0 g of
        None \<Rightarrow> None
      | Some (Inl e) \<Rightarrow> Some (Inl e)
      | Some (Inr (nl, st)) \<Rightarrow>
          (case lalr g (set_derives g) nl st of
             None \<Rightarrow> None
           | Some (Inl e) \<Rightarrow> Some (Inl e)
           | Some (Inr (t, LA)) \<Rightarrow>
               (case make_parser g t LA (length (cores st)) of
                  Inl e \<Rightarrow> Some (Inl e)
                | Inr p \<Rightarrow>
                    (case output_actions g t (length (cores st)) p of
                       Inl e \<Rightarrow> Some (Inl e)
                     | Inr (dgoto, ps) \<Rightarrow>
                         Some (Inr \<lparr>run_nullable = nl, run_automaton = st, run_tables = t, run_LA = LA,
                           run_parser = p, run_dgoto = dgoto, run_packed = ps\<rparr>)))))"

section \<open>What the passes promise to each other\<close>

text \<open>The automaton that \<^verbatim>\<open>lr0\<close> hands on.\<close>

definition automaton_ok :: "grammar \<Rightarrow> bool list \<Rightarrow> lr0_state \<Rightarrow> bool" where
  "automaton_ok g nl st \<longleftrightarrow> automaton g st \<and> nullable_ok g nl \<and> core_items ` set (cores st) = canonical g"

text \<open>The look-ahead sets that \<^verbatim>\<open>lalr\<close> hands on.\<close>

definition lookaheads_ok :: "grammar \<Rightarrow> lr0_state \<Rightarrow> lalr_tables \<Rightarrow> u32 list \<Rightarrow> bool" where
  "lookaheads_ok g st t LA \<longleftrightarrow> tables_ok g st t \<and> LA_ok g st t LA"

locale automaton_pass =
  fixes build :: "grammar \<Rightarrow> (jay_error + bool list \<times> lr0_state) option"
  assumes build_returns: "wf_grammar g \<Longrightarrow> build g \<noteq> None"
    and build_error: "wf_grammar g \<Longrightarrow> build g = Some (Inl e) \<Longrightarrow> e = Fatal ''too many states''"
    and build_ok: "wf_grammar g \<Longrightarrow> build g = Some (Inr (nl, st)) \<Longrightarrow> automaton_ok g nl st"
begin

lemma build_cases:
  assumes "wf_grammar g"
  obtains "build g = Some (Inl (Fatal ''too many states''))"
    | nl st where "build g = Some (Inr (nl, st))" "automaton_ok g nl st"
proof -
  obtain r where r: "build g = Some r" using build_returns [OF assms] by blast
  show thesis
  proof (cases r)
    case (Inl e)
    with r build_error [OF assms] that(1) show thesis by simp
  next
    case (Inr ns)
    obtain nl st where "ns = (nl, st)" by (cases ns)
    with r Inr build_ok [OF assms] that(2) show thesis by blast
  qed
qed

lemma build_states:
  assumes "wf_grammar g" "build g = Some (Inr (nl, st))"
  shows "core_items ` set (cores st) = canonical g" "distinct (map core_items (cores st))"
    "length (cores st) = card (canonical g)"
proof -
  have A: "automaton g st" "core_items ` set (cores st) = canonical g"
    using build_ok [OF assms] by (simp_all add: automaton_ok_def)
  then show "core_items ` set (cores st) = canonical g" by simp
  show d: "distinct (map core_items (cores st))" using A(1) by (simp add: expanded_def pool_def)
  show "length (cores st) = card (canonical g)"
    using distinct_card [OF d] A(2) by simp
qed

end

locale lookahead_pass =
  fixes analyse :: "grammar \<Rightarrow> bool list \<Rightarrow> lr0_state \<Rightarrow> (jay_error + lalr_tables \<times> u32 list) option"
  assumes analyse_returns: "wf_grammar g \<Longrightarrow> automaton_ok g nl st \<Longrightarrow> analyse g nl st \<noteq> None"
    and analyse_error: "wf_grammar g \<Longrightarrow> automaton_ok g nl st \<Longrightarrow> analyse g nl st = Some (Inl e) \<Longrightarrow>
      e \<in> {Fatal ''too many gotos'', BadAccess, OutOfShort}"
    and analyse_ok: "wf_grammar g \<Longrightarrow> automaton_ok g nl st \<Longrightarrow> analyse g nl st = Some (Inr (t, LA)) \<Longrightarrow>
      lookaheads_ok g st t LA"

text \<open>Both together: the front half of the generator, whatever the passes are.\<close>

locale lalr_front = automaton_pass build + lookahead_pass analyse
  for build :: "grammar \<Rightarrow> (jay_error + bool list \<times> lr0_state) option"
    and analyse :: "grammar \<Rightarrow> bool list \<Rightarrow> lr0_state \<Rightarrow> (jay_error + lalr_tables \<times> u32 list) option"
begin

definition front :: "grammar \<Rightarrow> (jay_error + (bool list \<times> lr0_state) \<times> lalr_tables \<times> u32 list) option" where
  "front g = (case build g of
     None \<Rightarrow> None
   | Some (Inl e) \<Rightarrow> Some (Inl e)
   | Some (Inr (nl, st)) \<Rightarrow> (case analyse g nl st of
        None \<Rightarrow> None
      | Some (Inl e) \<Rightarrow> Some (Inl e)
      | Some (Inr tabs) \<Rightarrow> Some (Inr ((nl, st), tabs))))"

lemma front_cases:
  assumes wf: "wf_grammar g"
  shows "(\<exists>e \<in> {Fatal ''too many states'', Fatal ''too many gotos'', BadAccess, OutOfShort}. front g = Some (Inl e)) \<or>
    (\<exists>nl st t LA. front g = Some (Inr ((nl, st), t, LA)) \<and> automaton_ok g nl st \<and> lookaheads_ok g st t LA)"
  using wf
proof (cases rule: build_cases)
  case 1
  then show ?thesis by (simp add: front_def)
next
  case (2 nl st)
  note A = analyse_returns [OF wf 2(2)] analyse_error [OF wf 2(2)] analyse_ok [OF wf 2(2)]
  obtain r where r: "analyse g nl st = Some r" using A(1) by blast
  show ?thesis
  proof (cases r)
    case (Inl e)
    with r A(2) 2(1) show ?thesis by (auto simp: front_def)
  next
    case (Inr tabs)
    obtain t LA where "tabs = (t, LA)" by (cases tabs)
    with Inr r A(3) 2 show ?thesis by (auto simp: front_def)
  qed
qed

end

section \<open>The model's passes\<close>

lemma lr0_correct:
  assumes wf: "wf_grammar g"
  shows "lr0 g = Some (Inl (Fatal ''too many states'')) \<or>
    (\<exists>nl st. lr0 g = Some (Inr (nl, st)) \<and> automaton_ok g nl st)"
proof -
  obtain nl where nl: "set_nullable g = Some nl" using set_nullable_terminates [OF wf] by blast
  have "nullable_ok g nl" using set_nullable_correct [OF wf nl] by (simp add: nullable_ok_def)
  with generate_states_correct [OF wf] expanded_canonical [OF wf] nl show ?thesis
    by (auto simp: lr0_def automaton_ok_def Let_def)
qed

interpretation lr0_run: automaton_pass lr0
proof (unfold_locales, goal_cases)
  case (1 g)
  then show ?case using lr0_correct by fastforce
next
  case (2 g e)
  then show ?case using lr0_correct by fastforce
next
  case (3 g nl st)
  then show ?case using lr0_correct by fastforce
qed

lemma lalr_pass_correct:
  assumes wf: "wf_grammar g" and A: "automaton_ok g nl st"
  shows "lalr g (set_derives g) nl st = Some (Inl (Fatal ''too many gotos'')) \<or>
    lalr g (set_derives g) nl st = Some (Inl BadAccess) \<and> edge_overflow g st \<or>
    lalr g (set_derives g) nl st = Some (Inl OutOfShort) \<and> beyond_shorts g st \<or>
    (\<exists>t LA. lalr g (set_derives g) nl st = Some (Inr (t, LA)) \<and> \<not> edge_overflow g st \<and> lookaheads_ok g st t LA)"
proof -
  have "automaton g st" "nullable_ok g nl" using A by (simp_all add: automaton_ok_def)
  from lalr_correct [OF wf this] show ?thesis
    unfolding lookaheads_ok_def LA_ok_def by blast
qed

interpretation lalr_run: lookahead_pass "\<lambda>g. lalr g (set_derives g)"
proof (unfold_locales, goal_cases)
  case (1 g nl st)
  then show ?case using lalr_pass_correct by fastforce
next
  case (2 g nl st e)
  then show ?case using lalr_pass_correct by fastforce
next
  case (3 g nl st t LA)
  then show ?case using lalr_pass_correct by fastforce
qed

interpretation jay: lalr_front lr0 "\<lambda>g. lalr g (set_derives g)" ..

definition run_ok :: "grammar \<Rightarrow> run \<Rightarrow> bool" where
  "run_ok g R \<longleftrightarrow> automaton_ok g (run_nullable R) (run_automaton R) \<and>
     lookaheads_ok g (run_automaton R) (run_tables R) (run_LA R) \<and>
     parser_ok g (run_automaton R) (run_parser R) \<and>
     output_actions g (run_tables R) (length (cores (run_automaton R))) (run_parser R) = Inr (run_dgoto R, run_packed R)"

text \<open>
  The capacity of the tables: three are noticed by the code and end it with a message; a write past \<^verbatim>\<open>edge\<close> or
  a search past the packed table, and a number that does not fit into its \<^verbatim>\<open>short\<close>, are not noticed.
\<close>

definition jay_limits :: "jay_error set" where
  "jay_limits = {Fatal ''too many states'', Fatal ''too many gotos'', Fatal ''maximum table size exceeded'',
     BadAccess, OutOfShort}"

text \<open>The run ends, with an error of the capacity of the tables or with tables that are right.\<close>

lemma compile_tables_correct:
  assumes wf: "wf_grammar g" and V: "values_ok g"
  shows "(\<exists>e \<in> jay_limits. compile_tables g = Some (Inl e)) \<or> (\<exists>R. compile_tables g = Some (Inr R) \<and> run_ok g R)"
proof -
  from jay.front_cases [OF wf] show ?thesis
  proof (elim disjE bexE exE conjE)
    fix e assume "e \<in> {Fatal ''too many states'', Fatal ''too many gotos'', BadAccess, OutOfShort}" "jay.front g = Some (Inl e)"
    then show ?thesis
      by (auto simp: jay.front_def compile_tables_def jay_limits_def split: option.splits sum.splits prod.splits)
  next
    fix nl st t LA
    assume front: "jay.front g = Some (Inr ((nl, st), t, LA))" and A: "automaton_ok g nl st" and L: "lookaheads_ok g st t LA"
    have run: "lr0 g = Some (Inr (nl, st))" "lalr g (set_derives g) nl st = Some (Inr (t, LA))"
      using front by (auto simp: jay.front_def split: option.splits sum.splits prod.splits)
    have E: "automaton g st" and T: "tables_ok g st t" "LA_ok g st t LA"
      using A L by (simp_all add: automaton_ok_def lookaheads_ok_def)
    from make_parser_correct [OF wf E T] consider "make_parser g t LA (length (cores st)) = Inl OutOfShort"
      | p where "make_parser g t LA (length (cores st)) = Inr p" "parser_ok g st p" by blast
    then show ?thesis
    proof cases
      case 1
      with run show ?thesis by (simp add: compile_tables_def jay_limits_def)
    next
      case p: (2 p)
      show ?thesis
      proof (cases "output_actions g t (length (cores st)) p")
        case (Inl e)
        with output_actions_error [OF wf V E T(1) p(2) Inl] run p show ?thesis
          by (auto simp: compile_tables_def jay_limits_def)
      next
        case (Inr dp)
        then show ?thesis
          using run p A L by (cases dp) (simp add: compile_tables_def run_ok_def)
      qed
    qed
  qed
qed

text \<open>
  What it takes for a number to leave its \<^verbatim>\<open>short\<close>: the automaton has more than 32767 reductions, edges or vectors,
  or more than 32765 gotos, or a state with more than 32767 actions.
\<close>

definition too_large :: "grammar \<Rightarrow> lr0_state \<Rightarrow> bool" where
  "too_large g st \<longleftrightarrow> beyond_shorts g st \<or> MAXSHORT < 2 * length (cores st) + nvars g \<or>
     (\<exists>q < length (cores st). MAXSHORT < card (row_of g st q))"

lemma compile_tables_OutOfShort:
  assumes wf: "wf_grammar g" and V: "values_ok g" and out: "compile_tables g = Some (Inl OutOfShort)"
  shows "\<exists>nl st. lr0 g = Some (Inr (nl, st)) \<and> too_large g st"
  using wf
proof (cases rule: lr0_run.build_cases)
  case 1
  with out show ?thesis by (simp add: compile_tables_def)
next
  case (2 nl st)
  note run = 2(1) out [unfolded compile_tables_def 2(1), simplified]
  from lalr_pass_correct [OF wf 2(2)] consider "too_large g st"
    | t LA where "lalr g (set_derives g) nl st = Some (Inr (t, LA))" "lookaheads_ok g st t LA"
    using run(2) by (auto simp: too_large_def)
  then show ?thesis
  proof cases
    case 1
    with run(1) show ?thesis by blast
  next
    case L: (2 t LA)
    have E: "automaton g st" and T: "tables_ok g st t" "LA_ok g st t LA"
      using 2(2) L(2) by (simp_all add: automaton_ok_def lookaheads_ok_def)
    from make_parser_correct [OF wf E T] consider "too_large g st"
      | p where "make_parser g t LA (length (cores st)) = Inr p" "parser_ok g st p" by (auto simp: too_large_def)
    then show ?thesis
    proof cases
      case 1
      with run(1) show ?thesis by blast
    next
      case p: (2 p)
      with run(2) L(1) have "output_actions g t (length (cores st)) p = Inl OutOfShort"
        by (auto split: sum.splits)
      from output_actions_error [OF wf V E T(1) p(2) this] run(1) show ?thesis by (auto simp: too_large_def)
    qed
  qed
qed

text \<open>And what it takes for an access outside of an array: \<^verbatim>\<open>edge\<close> overflows, or \<^verbatim>\<open>pack_vector\<close> leaves the table.\<close>

definition search_leaves_table :: "grammar \<Rightarrow> bool list \<Rightarrow> lr0_state \<Rightarrow> bool" where
  "search_leaves_table g nl st \<longleftrightarrow>
     (\<exists>t LA p. lalr g (set_derives g) nl st = Some (Inr (t, LA)) \<and> make_parser g t LA (length (cores st)) = Inr p \<and>
        output_actions g t (length (cores st)) p = Inl BadAccess)"

lemma compile_tables_BadAccess:
  assumes wf: "wf_grammar g" and out: "compile_tables g = Some (Inl BadAccess)"
  shows "\<exists>nl st. lr0 g = Some (Inr (nl, st)) \<and> (edge_overflow g st \<or> search_leaves_table g nl st)"
  using wf
proof (cases rule: lr0_run.build_cases)
  case 1
  with out show ?thesis by (simp add: compile_tables_def)
next
  case (2 nl st)
  note run = 2(1) out [unfolded compile_tables_def 2(1), simplified]
  from lalr_pass_correct [OF wf 2(2)] consider "edge_overflow g st"
    | t LA where "lalr g (set_derives g) nl st = Some (Inr (t, LA))" "lookaheads_ok g st t LA"
    using run(2) by auto
  then show ?thesis
  proof cases
    case 1
    with run(1) show ?thesis by blast
  next
    case L: (2 t LA)
    have E: "automaton g st" and T: "tables_ok g st t" "LA_ok g st t LA"
      using 2(2) L(2) by (simp_all add: automaton_ok_def lookaheads_ok_def)
    from make_parser_correct [OF wf E T] run(2) L(1) obtain p where
      p: "make_parser g t LA (length (cores st)) = Inr p" by auto
    with run(2) L(1) have "output_actions g t (length (cores st)) p = Inl BadAccess" by (auto split: sum.splits)
    with p L(1) run(1) show ?thesis unfolding search_leaves_table_def by blast
  qed
qed

text \<open>The rows of the parser, before and after the conflicts were removed.\<close>

lemma parser_row:
  assumes "parser_ok g st p" "q < length (cores st)"
  obtains as where "sorted_wrt act_less as" "set as = row_of g st q"
    "resolved as (parser p ! q) (SRconflicts p ! q + RRconflicts p ! q)" "parser p ! q \<in> set (parser p)"
proof -
  have "row_ok g st p q" "parser p ! q \<in> set (parser p)" using assms unfolding parser_ok_def by simp_all
  with that show thesis unfolding row_ok_def by blast
qed

lemma live_row:
  assumes "parser_ok g st p" "q < length (cores st)" "a \<in> live (parser p ! q)"
  shows "\<exists>b \<in> row_of g st q. \<exists>v. a = b\<lparr>suppressed := v\<rparr>"
  using parser_row [OF assms(1,2)]
proof (cases rule: parser_row [OF assms(1,2)])
  case (1 as)
  from resolved_members [OF 1(3), of a] assms(3) 1(2) show ?thesis by (auto simp: live_def)
qed

lemma rules_at_positive: "r \<in> set (rules_at g st q) \<Longrightarrow> 0 < r"
  by (auto simp: complete_rules_def)

lemma default_reduction_rule:
  assumes P: "parser_ok g st p" and q: "q < length (cores st)" and r: "0 < defred p ! q"
  shows "defred p ! q \<in> set (rules_at g st q)"
proof -
  have pos: "\<forall>a \<in> live (parser p ! q). act_code a = REDUCE \<longrightarrow> 0 < act_number a"
  proof (intro ballI impI)
    fix a assume "a \<in> live (parser p ! q)" "act_code a = REDUCE"
    with live_row [OF P q, of a] rules_at_positive show "0 < act_number a"
      by (fastforce simp: row_of_def shift_action_def reduce_action_def)
  qed
  have "length (parser p) = length (cores st)" "defred p = map sole_reduction (parser p)"
    using P unfolding parser_ok_def by blast+
  then have "sole_reduction (parser p ! q) = defred p ! q" using q by simp
  from sole_reduction_iff [OF pos r] this obtain a where
    "a \<in> live (parser p ! q)" "act_code a = REDUCE" "act_number a = defred p ! q" by blast
  with live_row [OF P q this(1)] show ?thesis
    by (auto simp: row_of_def shift_action_def reduce_action_def)
qed

text \<open>
  What the emitted parser reads from the packed tables is what the LALR(1) automaton of the grammar
  allows: a shift is a transition, a reduction and a default reduction are complete rules of the
  state, the first only on a symbol of its look-ahead set, and every goto has its target.
\<close>

definition tables_sound :: "grammar \<Rightarrow> run \<Rightarrow> bool" where
  "tables_sound g R \<longleftrightarrow>
     (let st = run_automaton R; p = run_parser R; ps = run_packed R
      in core_items ` set (cores st) = canonical g \<and>
      (\<forall>q < length (cores st). \<forall>X < ntokens g. \<forall>w.
         (shift_lookup g ps q X = Some w \<longrightarrow> (\<exists>s. w = int s \<and> lr_trans g st q X s)) \<and>
         (reduce_lookup g ps (length (cores st)) q X = Some w \<longrightarrow>
            (\<exists>r \<in> set (rules_at g st q). w = int r - 2 \<and> X \<in> LALR_set g st q r))) \<and>
      (\<forall>q < length (cores st). 0 < defred p ! q \<longrightarrow> defred p ! q \<in> set (rules_at g st q)) \<and>
      (\<forall>q a s. a < nvars g - 1 \<longrightarrow> lr_trans g st q (start_symbol g + 1 + a) s \<longrightarrow>
         goto_lookup ps (run_dgoto R) (length (cores st)) a q = int s))"

lemma run_tables_sound:
  assumes wf: "wf_grammar g" and V: "values_ok g" and R: "run_ok g R"
  shows "tables_sound g R"
proof -
  let ?st = "run_automaton R" and ?p = "run_parser R" and ?ps = "run_packed R"
  have E: "automaton g ?st" and T: "tables_ok g ?st (run_tables R)" and P: "parser_ok g ?st ?p"
    and C: "core_items ` set (cores ?st) = canonical g"
    and out: "output_actions g (run_tables R) (length (cores ?st)) ?p = Inr (run_dgoto R, ?ps)"
    using R unfolding run_ok_def automaton_ok_def lookaheads_ok_def by blast+
  note L = output_actions_lookup [OF wf V E T P out]
  note row = live_row [OF P]
  have lk: "(shift_lookup g ?ps q X = Some w \<longrightarrow> (\<exists>s. w = int s \<and> lr_trans g ?st q X s)) \<and>
       (reduce_lookup g ?ps (length (cores ?st)) q X = Some w \<longrightarrow>
          (\<exists>r \<in> set (rules_at g ?st q). w = int r - 2 \<and> X \<in> LALR_set g ?st q r))"
    if q: "q < length (cores ?st)" and X: "X < ntokens g" for q X w
  proof (intro conjI impI)
    assume "shift_lookup g ?ps q X = Some w"
    then obtain a where a: "a \<in> live (parser ?p ! q)" "act_code a = SHIFT" "act_symbol a = X" "int (act_number a) = w"
      using L(1) [OF q X] by blast
    from row [OF q a(1)] a(2-4) show "\<exists>s. w = int s \<and> lr_trans g ?st q X s"
      by (auto simp: row_of_def shift_action_def reduce_action_def)
  next
    assume "reduce_lookup g ?ps (length (cores ?st)) q X = Some w"
    then obtain a where a: "a \<in> live (parser ?p ! q)" "act_code a = REDUCE" "act_symbol a = X" "int (act_number a) - 2 = w"
      using L(2) [OF q X] by blast
    from row [OF q a(1)] a(2-4) show "\<exists>r \<in> set (rules_at g ?st q). w = int r - 2 \<and> X \<in> LALR_set g ?st q r"
      by (auto simp: row_of_def shift_action_def reduce_action_def)
  qed
  have A: "\<forall>q < length (cores ?st). \<forall>X < ntokens g. \<forall>w.
       (shift_lookup g ?ps q X = Some w \<longrightarrow> (\<exists>s. w = int s \<and> lr_trans g ?st q X s)) \<and>
       (reduce_lookup g ?ps (length (cores ?st)) q X = Some w \<longrightarrow>
          (\<exists>r \<in> set (rules_at g ?st q). w = int r - 2 \<and> X \<in> LALR_set g ?st q r))"
    by (intro allI impI) (rule lk)
  have D: "\<forall>q < length (cores ?st). 0 < defred ?p ! q \<longrightarrow> defred ?p ! q \<in> set (rules_at g ?st q)"
    by (intro allI impI) (rule default_reduction_rule [OF P])
  have G: "\<forall>q a s. a < nvars g - 1 \<longrightarrow> lr_trans g ?st q (start_symbol g + 1 + a) s \<longrightarrow>
       goto_lookup ?ps (run_dgoto R) (length (cores ?st)) a q = int s"
    by (intro allI impI) (rule L(3))
  show ?thesis unfolding tables_sound_def Let_def using C A D G by blast
qed

section \<open>Properties\<close>

text \<open>
  C10: \<^verbatim>\<open>lr0\<close> builds the canonical collection of LR(0) item sets, each state once, unless there
  are more states than \<^verbatim>\<open>MAXSHORT\<close>; and a state \<open>p\<close> shifts \<open>X\<close> to \<open>q\<close> exactly if the closure of the
  kernel of \<open>p\<close> has items before \<open>X\<close> and their successors are the kernel of \<open>q\<close>.
\<close>

theorem lr0_canonical:
  assumes "wf_grammar g"
  shows "lr0 g = Some (Inl (Fatal ''too many states'')) \<or>
    (\<exists>nullable st. lr0 g = Some (Inr (nullable, st)) \<and>
      core_items ` set (cores st) = canonical g \<and> length (cores st) = card (canonical g) \<and>
      (\<forall>p < length (cores st). \<forall>X q.
        (\<exists>sh \<in> set (first_shift st). shifts_number sh = p \<and> q \<in> set (shift_row sh) \<and> accessing_symbol (cores st ! q) = X) \<longleftrightarrow>
        q < length (cores st) \<and> X \<in> set (goto_symbols g (core_items (cores st ! p))) \<and>
        core_items (cores st ! q) = goto_kernel g (core_items (cores st ! p)) X))"
  using assms
proof (cases rule: lr0_run.build_cases)
  case (2 nl st)
  have E: "automaton g st" using 2(2) by (simp add: automaton_ok_def)
  have "(\<exists>sh \<in> set (first_shift st). shifts_number sh = p \<and> q \<in> set (shift_row sh) \<and> accessing_symbol (cores st ! q) = X) \<longleftrightarrow>
      q < length (cores st) \<and> X \<in> set (goto_symbols g (core_items (cores st ! p))) \<and>
      core_items (cores st ! q) = goto_kernel g (core_items (cores st ! p)) X" if p: "p < length (cores st)" for p X q
  proof
    assume "\<exists>sh \<in> set (first_shift st). shifts_number sh = p \<and> q \<in> set (shift_row sh) \<and> accessing_symbol (cores st ! q) = X"
    then obtain sh Y where "lr_trans g st p Y q" "accessing_symbol (cores st ! q) = X" using automaton_row(4) [OF E] by blast
    then show "q < length (cores st) \<and> X \<in> set (goto_symbols g (core_items (cores st ! p))) \<and>
      core_items (cores st ! q) = goto_kernel g (core_items (cores st ! p)) X" using transD [of g st p Y q] by simp
  next
    assume X: "q < length (cores st) \<and> X \<in> set (goto_symbols g (core_items (cores st ! p))) \<and>
      core_items (cores st ! q) = goto_kernel g (core_items (cores st ! p)) X"
    then obtain t sh where t: "lr_trans g st p X t" "sh \<in> set (first_shift st)" "shifts_number sh = p" "t \<in> set (shift_row sh)"
      using trans_exists [OF E p] by blast
    from automaton_distinct [OF E transD(3) [OF t(1)]] X transD(7) [OF t(1)] have "t = q" by simp
    with t transD(6) [OF t(1)] show "\<exists>sh \<in> set (first_shift st). shifts_number sh = p \<and> q \<in> set (shift_row sh) \<and>
      accessing_symbol (cores st ! q) = X" by blast
  qed
  with 2(1) lr0_run.build_states(1,3) [OF assms 2(1)] show ?thesis by blast
qed blast

theorem lr0_canonical_witness:
  "lr0 sample_grammar = Some (Inl (Fatal ''too many states'')) \<or>
    (\<exists>nullable st. lr0 sample_grammar = Some (Inr (nullable, st)) \<and>
      core_items ` set (cores st) = canonical sample_grammar \<and> length (cores st) = card (canonical sample_grammar) \<and>
      (\<forall>p < length (cores st). \<forall>X q.
        (\<exists>sh \<in> set (first_shift st). shifts_number sh = p \<and> q \<in> set (shift_row sh) \<and> accessing_symbol (cores st ! q) = X) \<longleftrightarrow>
        q < length (cores st) \<and> X \<in> set (goto_symbols sample_grammar (core_items (cores st ! p))) \<and>
        core_items (cores st ! q) = goto_kernel sample_grammar (core_items (cores st ! p)) X))"
  by (rule lr0_canonical [OF sample_wf])

text \<open>
  C11: run on the automaton of \<^verbatim>\<open>lr0\<close>, \<^verbatim>\<open>lalr\<close> returns, and the row of \<^verbatim>\<open>LA\<close> of each reduction
  of each state holds the LALR(1) look-ahead set of that state and rule (the union, over the gotos
  that lead there, of DeRemer and Pennello's \<open>Follow\<close> sets).  It does not if there are too many gotos; if it
  writes past the buffer \<^verbatim>\<open>edge\<close>, which it does only where the rules of some nonterminal with a goto have in all
  more than \<^verbatim>\<open>ngotos + 1\<close> nonterminals with nothing but nullable symbols behind them; or if a number does not fit
  into a \<^verbatim>\<open>short\<close>, for which there must be more than 32767 reductions or edges, or more than 32765 gotos.
\<close>

theorem lalr_lookahead_sets:
  assumes "wf_grammar g"
  shows "lr0 g = Some (Inl (Fatal ''too many states'')) \<or>
    (\<exists>nullable st. lr0 g = Some (Inr (nullable, st)) \<and>
      (lalr g (set_derives g) nullable st = Some (Inl (Fatal ''too many gotos'')) \<or>
       lalr g (set_derives g) nullable st = Some (Inl BadAccess) \<and>
         (\<exists>x \<in> gotos g st. card (gotos g st) + 1 < (\<Sum>r\<leftarrow>rules_of g (snd x). back_vars g r)) \<or>
       lalr g (set_derives g) nullable st = Some (Inl OutOfShort) \<and>
         (MAXSHORT < (\<Sum>q<length (cores st). length (rules_at g st q)) \<or> MAXSHORT < card (gotos g st) + 2 \<or>
          MAXSHORT < (\<Sum>x \<in> gotos g st. \<Sum>r\<leftarrow>rules_of g (snd x). back_vars g r)) \<or>
       (\<exists>t LA. lalr g (set_derives g) nullable st = Some (Inr (t, LA)) \<and>
        \<not> (\<exists>x \<in> gotos g st. card (gotos g st) + 1 < (\<Sum>r\<leftarrow>rules_of g (snd x). back_vars g r)) \<and>
        (\<forall>q < length (cores st). \<forall>m < length (rules_at g st q).
          LAruleno t ! (lookaheads t ! q + m) = rules_at g st q ! m \<and>
          rowset LA ((lookaheads t ! q + m) * WORDSIZE (ntokens g)) (WORDSIZE (ntokens g)) =
            LALR_set g st q (rules_at g st q ! m)))))"
  using assms
proof (cases rule: lr0_run.build_cases)
  case build: (2 nullable st)
  from lalr_pass_correct [OF assms(1) build(2), unfolded edge_overflow_def beyond_shorts_def edge_count_def] consider
    "lalr g (set_derives g) nullable st = Some (Inl (Fatal ''too many gotos''))"
    | "lalr g (set_derives g) nullable st = Some (Inl BadAccess)"
      "\<exists>x \<in> gotos g st. card (gotos g st) + 1 < (\<Sum>r\<leftarrow>rules_of g (snd x). back_vars g r)"
    | "lalr g (set_derives g) nullable st = Some (Inl OutOfShort)"
      "MAXSHORT < (\<Sum>q<length (cores st). length (rules_at g st q)) \<or> MAXSHORT < card (gotos g st) + 2 \<or>
       MAXSHORT < (\<Sum>x \<in> gotos g st. \<Sum>r\<leftarrow>rules_of g (snd x). back_vars g r)"
    | t LA where "lalr g (set_derives g) nullable st = Some (Inr (t, LA))" "lookaheads_ok g st t LA"
      "\<not> (\<exists>x \<in> gotos g st. card (gotos g st) + 1 < (\<Sum>r\<leftarrow>rules_of g (snd x). back_vars g r))" by blast
  then show ?thesis
  proof cases
    case (4 t LA)
    then have T: "tables_ok g st t" and L: "LA_ok g st t LA" by (simp_all add: lookaheads_ok_def)
    have "LAruleno t ! (lookaheads t ! q + m) = rules_at g st q ! m \<and>
        rowset LA ((lookaheads t ! q + m) * WORDSIZE (ntokens g)) (WORDSIZE (ntokens g)) =
          LALR_set g st q (rules_at g st q ! m)" if q: "q < length (cores st)" and m: "m < length (rules_at g st q)" for q m
    proof -
      note R = la_row [OF T q]
      have "la_index t q (rules_at g st q ! m) (lookaheads t ! q + m)"
        using R(1) R(2) [OF m] m by (simp add: la_index_def)
      with L q R(2) [OF m] show ?thesis by (simp add: LA_ok_def)
    qed
    with 4(1,3) build(1) show ?thesis by blast
  qed (use build(1) in blast)+
qed blast

theorem lalr_lookahead_sets_witness:
  "lr0 sample_grammar = Some (Inl (Fatal ''too many states'')) \<or>
    (\<exists>nullable st. lr0 sample_grammar = Some (Inr (nullable, st)) \<and>
      (lalr sample_grammar (set_derives sample_grammar) nullable st = Some (Inl (Fatal ''too many gotos'')) \<or>
       lalr sample_grammar (set_derives sample_grammar) nullable st = Some (Inl BadAccess) \<and>
         (\<exists>x \<in> gotos sample_grammar st. card (gotos sample_grammar st) + 1 <
            (\<Sum>r\<leftarrow>rules_of sample_grammar (snd x). back_vars sample_grammar r)) \<or>
       lalr sample_grammar (set_derives sample_grammar) nullable st = Some (Inl OutOfShort) \<and>
         (MAXSHORT < (\<Sum>q<length (cores st). length (rules_at sample_grammar st q)) \<or>
          MAXSHORT < card (gotos sample_grammar st) + 2 \<or>
          MAXSHORT < (\<Sum>x \<in> gotos sample_grammar st. \<Sum>r\<leftarrow>rules_of sample_grammar (snd x). back_vars sample_grammar r)) \<or>
       (\<exists>t LA. lalr sample_grammar (set_derives sample_grammar) nullable st = Some (Inr (t, LA)) \<and>
        \<not> (\<exists>x \<in> gotos sample_grammar st. card (gotos sample_grammar st) + 1 <
             (\<Sum>r\<leftarrow>rules_of sample_grammar (snd x). back_vars sample_grammar r)) \<and>
        (\<forall>q < length (cores st). \<forall>m < length (rules_at sample_grammar st q).
          LAruleno t ! (lookaheads t ! q + m) = rules_at sample_grammar st q ! m \<and>
          rowset LA ((lookaheads t ! q + m) * WORDSIZE (ntokens sample_grammar)) (WORDSIZE (ntokens sample_grammar)) =
            LALR_set sample_grammar st q (rules_at sample_grammar st q ! m)))))"
  by (rule lalr_lookahead_sets [OF sample_wf])

text \<open>
  C4: the whole run on a packed grammar.  It returns; the only errors are the capacity errors; and when
  there is none, what the emitted parser reads from the packed tables is what the LALR(1) automaton
  of the grammar allows: a shift is a transition, a reduction and a default reduction are complete
  rules of the state, the first only on a symbol of its look-ahead set, and every goto has its target.
\<close>

theorem emitted_tables_sound:
  assumes wf: "wf_grammar g" and V: "values_ok g"
  shows "(\<exists>e \<in> jay_limits. compile_tables g = Some (Inl e)) \<or>
    (\<exists>R st p ps. compile_tables g = Some (Inr R) \<and> st = run_automaton R \<and> p = run_parser R \<and> ps = run_packed R \<and>
      core_items ` set (cores st) = canonical g \<and>
      (\<forall>q < length (cores st). \<forall>X < ntokens g. \<forall>w.
         (shift_lookup g ps q X = Some w \<longrightarrow> (\<exists>s. w = int s \<and> lr_trans g st q X s)) \<and>
         (reduce_lookup g ps (length (cores st)) q X = Some w \<longrightarrow>
            (\<exists>r \<in> set (rules_at g st q). w = int r - 2 \<and> X \<in> LALR_set g st q r))) \<and>
      (\<forall>q < length (cores st). 0 < defred p ! q \<longrightarrow> defred p ! q \<in> set (rules_at g st q)) \<and>
      (\<forall>q a s. a < nvars g - 1 \<longrightarrow> lr_trans g st q (start_symbol g + 1 + a) s \<longrightarrow>
         goto_lookup ps (run_dgoto R) (length (cores st)) a q = int s))"
proof -
  from compile_tables_correct [OF assms] show ?thesis
  proof
    assume "\<exists>R. compile_tables g = Some (Inr R) \<and> run_ok g R"
    then obtain R where R: "compile_tables g = Some (Inr R)" "run_ok g R" by blast
    with run_tables_sound [OF assms R(2)] show ?thesis
      unfolding tables_sound_def Let_def by (intro disjI2 exI conjI [OF R(1)]) blast
  qed blast
qed

lemma sample_values: "values_ok sample_grammar"
  by (auto simp: values_ok_def sample_grammar_def inj_on_def less_Suc_eq numeral_3_eq_3 nth_Cons')

theorem emitted_tables_sound_witness:
  "(\<exists>e \<in> jay_limits. compile_tables sample_grammar = Some (Inl e)) \<or>
    (\<exists>R st p ps. compile_tables sample_grammar = Some (Inr R) \<and> st = run_automaton R \<and> p = run_parser R \<and> ps = run_packed R \<and>
      core_items ` set (cores st) = canonical sample_grammar \<and>
      (\<forall>q < length (cores st). \<forall>X < ntokens sample_grammar. \<forall>w.
         (shift_lookup sample_grammar ps q X = Some w \<longrightarrow> (\<exists>s. w = int s \<and> lr_trans sample_grammar st q X s)) \<and>
         (reduce_lookup sample_grammar ps (length (cores st)) q X = Some w \<longrightarrow>
            (\<exists>r \<in> set (rules_at sample_grammar st q). w = int r - 2 \<and> X \<in> LALR_set sample_grammar st q r))) \<and>
      (\<forall>q < length (cores st). 0 < defred p ! q \<longrightarrow> defred p ! q \<in> set (rules_at sample_grammar st q)) \<and>
      (\<forall>q a s. a < nvars sample_grammar - 1 \<longrightarrow> lr_trans sample_grammar st q (start_symbol sample_grammar + 1 + a) s \<longrightarrow>
         goto_lookup ps (run_dgoto R) (length (cores st)) a q = int s))"
  by (rule emitted_tables_sound [OF sample_wf sample_values])

lemma clean_row:
  assumes R: "resolved as bs c" and srt: "sorted_wrt act_less as" and inj: "inj_on act_symbol (set as)"
  shows "c = 0" "a \<in> set as \<Longrightarrow> a\<lparr>suppressed := 0\<rparr> \<in> live bs" "\<forall>b \<in> set bs. suppressed b = 0"
proof -
  note D = resolvedD [OF R]
  have "distinct as" by (rule act_sorted_distinct [OF srt])
  then have idx: "i = j" if "i < length as" "j < length as" "act_symbol (as ! i) = act_symbol (as ! j)" for i j
    using inj that by (metis inj_onD nth_mem nth_eq_iff_index_eq)
  have alive: "suppressed (bs ! i) = 0" if i: "i < length as" for i
  proof -
    have "\<not> nonassoc_tie as (length as) (act_symbol (as ! i))"
    proof
      assume "nonassoc_tie as (length as) (act_symbol (as ! i))"
      then obtain k l where "k < length as" "l < length as" "act_symbol (as ! k) = act_symbol (as ! l)"
        "act_code (as ! k) = SHIFT" "act_code (as ! l) = REDUCE" unfolding nonassoc_tie_def by metis
      with idx show False by fastforce
    qed
    with R i obtain j where j: "j < length as" "act_symbol (as ! j) = act_symbol (as ! i)" "suppressed (bs ! j) = 0"
      unfolding resolved_def by blast
    with idx [OF j(1) i] show ?thesis by simp
  qed
  have none: "{j. j < length as \<and> suppressed (bs ! j) = 1} = {}" using alive by auto
  have "c = card {j. j < length as \<and> suppressed (bs ! j) = 1}" using R unfolding resolved_def by blast
  then show "c = 0" unfolding none by simp
  show "\<forall>b \<in> set bs. suppressed b = 0" using alive D(1) by (auto simp: in_set_conv_nth)
  show "a\<lparr>suppressed := 0\<rparr> \<in> live bs" if "a \<in> set as"
  proof -
    from that obtain i where i: "i < length as" "as ! i = a" by (auto simp: in_set_conv_nth)
    from D(2) i obtain v where v: "bs ! i = a\<lparr>suppressed := v\<rparr>" by auto
    have "bs ! i \<in> set bs" using i D(1) by simp
    with v alive [OF i(1)] show ?thesis by (simp add: live_def)
  qed
qed

text \<open>In a state where no two actions are on the same symbol the whole row survives, and the tables hold all of it.\<close>

lemma conflict_free_row:
  assumes wf: "wf_grammar g" and V: "values_ok g" and R: "run_ok g R"
  defines "st \<equiv> run_automaton R" and "p \<equiv> run_parser R" and "ps \<equiv> run_packed R"
  assumes q: "q < length (cores st)" and inj: "inj_on act_symbol (row_of g st q)"
  shows "SRconflicts p ! q = 0" "RRconflicts p ! q = 0"
    "\<And>b. b \<in> row_of g st q \<Longrightarrow> b\<lparr>suppressed := 0\<rparr> \<in> live (parser p ! q)"
    "\<And>X s. X < ntokens g \<Longrightarrow> lr_trans g st q X s \<Longrightarrow> shift_lookup g ps q X = Some (int s)"
    "\<And>r X. r \<in> set (rules_at g st q) \<Longrightarrow> X < ntokens g \<Longrightarrow> X \<in> LALR_set g st q r \<Longrightarrow>
       r = defred p ! q \<or> reduce_lookup g ps (length (cores st)) q X = Some (int r - 2)"
proof -
  have E: "automaton g st" and T: "tables_ok g st (run_tables R)" and P: "parser_ok g st p"
    and out: "output_actions g (run_tables R) (length (cores st)) p = Inr (run_dgoto R, ps)"
    using R unfolding run_ok_def automaton_ok_def lookaheads_ok_def st_def p_def ps_def by blast+
  note L = output_actions_lookup [OF wf V E T P out]
  obtain as where as: "sorted_wrt act_less as" "set as = row_of g st q"
    "resolved as (parser p ! q) (SRconflicts p ! q + RRconflicts p ! q)"
    by (rule parser_row [OF P q])
  note C = clean_row [OF as(3,1), unfolded as(2), OF inj]
  show "SRconflicts p ! q = 0" "RRconflicts p ! q = 0" using C(1) by simp_all
  show "b\<lparr>suppressed := 0\<rparr> \<in> live (parser p ! q)" if "b \<in> row_of g st q" for b by (rule C(2) [OF that])
  show "shift_lookup g ps q X = Some (int s)" if X: "X < ntokens g" and tr: "lr_trans g st q X s" for X s
  proof -
    have "X < start_symbol g" using X wf_sizesD(5) [OF wf] by simp
    with tr have "shift_action g X s \<in> row_of g st q" unfolding row_of_def by blast
    from C(2) [OF this] show ?thesis unfolding L(1) [OF q X]
      by (intro bexI [of _ "(shift_action g X s)\<lparr>suppressed := 0\<rparr>"]) (simp_all add: shift_action_def)
  qed
  show "r = defred p ! q \<or> reduce_lookup g ps (length (cores st)) q X = Some (int r - 2)"
    if r: "r \<in> set (rules_at g st q)" and X: "X < ntokens g" "X \<in> LALR_set g st q r" for r X
  proof (cases "r = defred p ! q")
    case False
    from r X have "reduce_action g X r \<in> row_of g st q" unfolding row_of_def by blast
    from C(2) [OF this] False show ?thesis unfolding L(2) [OF q X(1)]
      by (intro disjI2 bexI [of _ "(reduce_action g X r)\<lparr>suppressed := 0\<rparr>"]) (simp_all add: reduce_action_def)
  qed simp
qed

text \<open>No conflict was met, not even one that a precedence resolved.\<close>

definition nothing_suppressed :: "parser_tables \<Rightarrow> bool" where
  "nothing_suppressed p \<longleftrightarrow> (\<forall>as \<in> set (parser p). \<forall>a \<in> set as. suppressed a = 0)"

lemma nothing_suppressed_iff:
  assumes P: "parser_ok g st p"
  shows "nothing_suppressed p \<longleftrightarrow> (\<forall>q < length (cores st). inj_on act_symbol (row_of g st q))"
proof
  assume N: "nothing_suppressed p"
  show "\<forall>q < length (cores st). inj_on act_symbol (row_of g st q)"
  proof (intro allI impI inj_onI)
    fix q a b assume q: "q < length (cores st)" and ab: "a \<in> row_of g st q" "b \<in> row_of g st q" "act_symbol a = act_symbol b"
    obtain as where as: "set as = row_of g st q" "resolved as (parser p ! q) (SRconflicts p ! q + RRconflicts p ! q)"
      "parser p ! q \<in> set (parser p)" by (rule parser_row [OF P q])
    obtain i j where i: "i < length as" "as ! i = a" and j: "j < length as" "as ! j = b"
      using ab(1,2) unfolding as(1) [symmetric] by (auto simp: in_set_conv_nth)
    note D = resolvedD [OF as(2)]
    have live: "suppressed (parser p ! q ! k) = 0" if "k < length as" for k
      using N as(3) D(1) that by (simp add: nothing_suppressed_def)
    have "i = j" using D(3) i j live [OF i(1)] live [OF j(1)] ab(3) by blast
    with i(2) j(2) show "a = b" by simp
  qed
next
  assume inj: "\<forall>q < length (cores st). inj_on act_symbol (row_of g st q)"
  have len: "length (parser p) = length (cores st)" using P unfolding parser_ok_def by blast
  have "\<forall>a \<in> set (parser p ! q). suppressed a = 0" if q: "q < length (cores st)" for q
  proof -
    obtain as where as: "sorted_wrt act_less as" "set as = row_of g st q"
      "resolved as (parser p ! q) (SRconflicts p ! q + RRconflicts p ! q)" by (rule parser_row [OF P q])
    have "inj_on act_symbol (set as)" using inj q as(2) by simp
    from clean_row(3) [OF as(3,1) this] show ?thesis .
  qed
  then show "nothing_suppressed p" unfolding nothing_suppressed_def all_set_conv_all_nth [of "parser p"] len by blast
qed

text \<open>
  C5: in a state where no two actions are on the same symbol, as every state of an LALR(1)
  grammar, no conflict is counted and nothing is lost: every transition on a token is found as a
  shift, and every complete rule is found on every symbol of its look-ahead set or is the default.
\<close>

theorem emitted_tables_complete:
  assumes wf: "wf_grammar g" and V: "values_ok g"
  shows "(\<exists>e \<in> jay_limits. compile_tables g = Some (Inl e)) \<or>
    (\<exists>R st p ps. compile_tables g = Some (Inr R) \<and> st = run_automaton R \<and> p = run_parser R \<and> ps = run_packed R \<and>
      (\<forall>q < length (cores st). inj_on act_symbol (row_of g st q) \<longrightarrow>
         SRconflicts p ! q = 0 \<and> RRconflicts p ! q = 0 \<and>
         (\<forall>X < ntokens g. \<forall>s. lr_trans g st q X s \<longrightarrow> shift_lookup g ps q X = Some (int s)) \<and>
         (\<forall>r \<in> set (rules_at g st q). \<forall>X < ntokens g. X \<in> LALR_set g st q r \<longrightarrow>
            r = defred p ! q \<or> reduce_lookup g ps (length (cores st)) q X = Some (int r - 2))))"
proof -
  from compile_tables_correct [OF assms] consider "\<exists>e \<in> jay_limits. compile_tables g = Some (Inl e)"
    | R where "compile_tables g = Some (Inr R)" "run_ok g R" by blast
  then show ?thesis
  proof cases
    case (2 R)
    note C = conflict_free_row [OF wf V 2(2)]
    show ?thesis
      by (intro disjI2 exI conjI, rule 2(1), rule refl, rule refl, rule refl) (use C(1,2,4,5) in blast)
  qed blast
qed

theorem emitted_tables_complete_witness:
  "(\<exists>e \<in> jay_limits. compile_tables sample_grammar = Some (Inl e)) \<or>
    (\<exists>R st p ps. compile_tables sample_grammar = Some (Inr R) \<and> st = run_automaton R \<and> p = run_parser R \<and> ps = run_packed R \<and>
      (\<forall>q < length (cores st). inj_on act_symbol (row_of sample_grammar st q) \<longrightarrow>
         SRconflicts p ! q = 0 \<and> RRconflicts p ! q = 0 \<and>
         (\<forall>X < ntokens sample_grammar. \<forall>s. lr_trans sample_grammar st q X s \<longrightarrow>
            shift_lookup sample_grammar ps q X = Some (int s)) \<and>
         (\<forall>r \<in> set (rules_at sample_grammar st q). \<forall>X < ntokens sample_grammar. X \<in> LALR_set sample_grammar st q r \<longrightarrow>
            r = defred p ! q \<or> reduce_lookup sample_grammar ps (length (cores st)) q X = Some (int r - 2))))"
  by (rule emitted_tables_complete [OF sample_wf sample_values])

text \<open>
  The final state that \<^verbatim>\<open>find_final_state\<close> returns is the one the automaton enters from state 0
  on the goal symbol, so the emitted \<^verbatim>\<open>yyFinal\<close> accepts after a goal.
\<close>

theorem final_state_correct:
  assumes wf: "wf_grammar g" and V: "values_ok g"
  shows "(\<exists>e \<in> jay_limits. compile_tables g = Some (Inl e)) \<or>
    (\<exists>R. compile_tables g = Some (Inr R) \<and> find_final_state g (run_tables R) = Inr (final_state (run_parser R)) \<and>
      lr_trans g (run_automaton R) 0 (start_symbol g + 1) (final_state (run_parser R)))"
proof -
  from compile_tables_correct [OF assms] consider "\<exists>e \<in> jay_limits. compile_tables g = Some (Inl e)"
    | R where "compile_tables g = Some (Inr R)" "run_ok g R" by blast
  then show ?thesis
  proof cases
    case (2 R)
    let ?st = "run_automaton R"
    have E: "automaton g ?st" and T: "tables_ok g ?st (run_tables R)" and P: "parser_ok g ?st (run_parser R)"
      using 2(2) unfolding run_ok_def automaton_ok_def lookaheads_ok_def by blast+
    obtain s where s: "find_final_state g (run_tables R) = Inr s" "lr_trans g ?st 0 (Suc (start_symbol g)) s"
      using find_final_state_correct [OF wf E T] by blast
    have "lr_trans g ?st 0 (Suc (start_symbol g)) (final_state (run_parser R))" using P unfolding parser_ok_def by blast
    from trans_unique [OF E s(2) this] s(1) this 2(1) show ?thesis
      by (intro disjI2 exI [of _ R]) (simp only: Suc_eq_plus1 simp_thms)
  qed blast
qed

theorem final_state_correct_witness:
  "(\<exists>e \<in> jay_limits. compile_tables sample_grammar = Some (Inl e)) \<or>
    (\<exists>R. compile_tables sample_grammar = Some (Inr R) \<and>
      find_final_state sample_grammar (run_tables R) = Inr (final_state (run_parser R)) \<and>
      lr_trans sample_grammar (run_automaton R) 0 (start_symbol sample_grammar + 1) (final_state (run_parser R)))"
  by (rule final_state_correct [OF sample_wf sample_values])

end
