(* ===== verification/Symtab.thy ===== *)
theory Symtab
  imports CText
begin

text \<open>
  The symbol table, \<^verbatim>\<open>jay/symtab.c\<close>.  Buckets live in the list \<open>st_buckets\<close> in the order in which
  they were made; a pointer to a bucket is an index into it.  The code links each new bucket to the
  last one with \<^verbatim>\<open>last_symbol->next = bp\<close>, so walking \<^verbatim>\<open>first_symbol\<close>, \<^verbatim>\<open>next\<close> is walking the list.  The
  \<^verbatim>\<open>link\<close> chains of the hash table are the lists of \<open>st_table\<close>.  The lemmas show that the table
  behaves as a finite map from names to buckets that only grows (\<open>st_find\<close>), state that contract as
  a locale and draw its consequences there.
\<close>

section \<open>Buckets\<close>

datatype symbol_class = Unknown | Term | Nonterm

definition UNDEFINED :: int where "UNDEFINED = - 1"

record bucket =
  b_name :: string
  b_tag :: "string option"
  b_value :: int
  b_index :: nat
  b_prec :: int
  b_class :: symbol_class
  b_assoc :: nat

record symtab =
  st_buckets :: "bucket list"
  st_table :: "nat list list"

definition TABLE_SIZE :: nat where "TABLE_SIZE = 1024"

text \<open>A \<^verbatim>\<open>char\<close> is signed.\<close>

definition signed_char :: "char \<Rightarrow> int" where
  "signed_char c = (if code c < 128 then int (code c) else int (code c) - 256)"

fun hash_step :: "int \<Rightarrow> string \<Rightarrow> int" where
  "hash_step k [] = k"
| "hash_step k (c # s) = hash_step ((31 * k + signed_char c) AND (int TABLE_SIZE - 1)) s"

definition hash :: "string \<Rightarrow> jay_error + nat" where
  "hash name =
     (case name of [] \<Rightarrow> Inl AssertFailed
      | c # s \<Rightarrow> (let k = hash_step (signed_char c) s in if k < 0 then Inl BadAccess else Inr (nat k)))"

definition make_bucket :: "string \<Rightarrow> bucket" where
  "make_bucket name =
     \<lparr>b_name = name, b_tag = None, b_value = UNDEFINED, b_index = 0, b_prec = 0, b_class = Unknown,
      b_assoc = TOKEN\<rparr>"

lemma make_bucket_name [simp]: "b_name (make_bucket name) = name"
  by (simp add: make_bucket_def)

fun chain_find :: "bucket list \<Rightarrow> string \<Rightarrow> nat list \<Rightarrow> nat option" where
  "chain_find bs name [] = None"
| "chain_find bs name (b # chain) = (if name = b_name (bs ! b) then Some b else chain_find bs name chain)"

text \<open>\<^verbatim>\<open>last_symbol->next = bp; last_symbol = bp\<close>.\<close>

definition append_bucket :: "bucket \<Rightarrow> symtab \<Rightarrow> symtab" where
  "append_bucket b st = st\<lparr>st_buckets := st_buckets st @ [b]\<rparr>"

definition lookup :: "string \<Rightarrow> symtab \<Rightarrow> jay_error + nat \<times> symtab" where
  "lookup name st =
     (case hash name of Inl e \<Rightarrow> Inl e
      | Inr h \<Rightarrow>
          (case chain_find (st_buckets st) name (st_table st ! h) of
             Some b \<Rightarrow> Inr (b, st)
           | None \<Rightarrow>
               (let b = length (st_buckets st) in
                Inr (b, append_bucket (make_bucket name)
                  (st\<lparr>st_table := (st_table st)[h := st_table st ! h @ [b]]\<rparr>)))))"

definition create_symbol_table :: "jay_error + symtab" where
  "create_symbol_table =
     (case hash ''error'' of Inl e \<Rightarrow> Inl e
      | Inr h \<Rightarrow> Inr \<lparr>st_buckets = [(make_bucket ''error'')\<lparr>b_index := 1, b_class := Term\<rparr>],
                     st_table = (replicate TABLE_SIZE [])[h := [0]]\<rparr>)"

text \<open>An assignment to fields of the bucket that \<open>b\<close> points to.\<close>

definition upd_bucket :: "nat \<Rightarrow> (bucket \<Rightarrow> bucket) \<Rightarrow> symtab \<Rightarrow> symtab" where
  "upd_bucket b f st = st\<lparr>st_buckets := (st_buckets st)[b := f (st_buckets st ! b)]\<rparr>"

text \<open>The first half of \<open>lookup\<close>: the bucket of a name, if there is one.\<close>

definition st_find :: "symtab \<Rightarrow> string \<Rightarrow> nat option" where
  "st_find st name =
     (case hash name of Inl e \<Rightarrow> None | Inr h \<Rightarrow> chain_find (st_buckets st) name (st_table st ! h))"

section \<open>The hash function\<close>

definition name_ok :: "string \<Rightarrow> bool" where
  "name_ok s \<longleftrightarrow> s \<noteq> [] \<and> code (hd s) < 128"

lemma and_1023: "k AND (int TABLE_SIZE - 1) = k mod 1024" for k :: int
proof -
  have "(1023::int) = mask 10" by (simp add: mask_eq_exp_minus_1)
  then have "k AND (1023::int) = take_bit 10 k" using take_bit_eq_mask [of 10 k] by (simp add: ac_simps)
  then show ?thesis by (simp add: take_bit_eq_mod TABLE_SIZE_def)
qed

lemma hash_step_bounds: "0 \<le> k \<Longrightarrow> k < 1024 \<Longrightarrow> 0 \<le> hash_step k s \<and> hash_step k s < 1024"
  by (induction k s rule: hash_step.induct) (simp_all add: and_1023)

lemma hash_ok: "name_ok s \<Longrightarrow> \<exists>h < TABLE_SIZE. hash s = Inr h"
proof (cases s)
  case (Cons c r)
  assume "name_ok s"
  with Cons have "0 \<le> signed_char c" "signed_char c < 1024" by (simp_all add: name_ok_def signed_char_def)
  from hash_step_bounds [OF this, of r] Cons show ?thesis
    by (auto simp: hash_def Let_def TABLE_SIZE_def nat_less_iff)
qed (simp add: name_ok_def)

lemma hash_bound:
  assumes "hash name = Inr h"
  shows "h < TABLE_SIZE"
proof (cases name)
  case (Cons c r)
  show ?thesis
  proof (cases r)
    case Nil
    with assms Cons show ?thesis by (auto simp: hash_def signed_char_def TABLE_SIZE_def split: if_splits)
  next
    case (Cons d q)
    have "hash_step (signed_char c) r < 1024"
      using hash_step_bounds [of "(31 * signed_char c + signed_char d) mod 1024" q] Cons by (simp add: and_1023)
    with assms \<open>name = c # r\<close> show ?thesis by (auto simp: hash_def Let_def TABLE_SIZE_def split: if_splits)
  qed
qed (use assms in \<open>simp add: hash_def\<close>)

text \<open>Every slot \<^verbatim>\<open>hash\<close> computes for a name that begins with an ASCII character lies in the table.\<close>

theorem hash_in_table:
  assumes "name_ok name"
  shows "\<exists>h. hash name = Inr h \<and> h < TABLE_SIZE"
  using hash_ok [OF assms] by blast

theorem hash_in_table_witness: "\<exists>h. hash ''error'' = Inr h \<and> h < TABLE_SIZE"
  by (rule hash_in_table) (simp add: name_ok_def)

section \<open>The table as a map\<close>

text \<open>Every bucket of a chain has a name that hashes there, and no chain holds a name twice.\<close>

definition symtab_ok :: "symtab \<Rightarrow> bool" where
  "symtab_ok st \<longleftrightarrow> length (st_table st) = TABLE_SIZE \<and>
     (\<forall>h < TABLE_SIZE. (\<forall>b \<in> set (st_table st ! h). b < length (st_buckets st) \<and>
        hash (b_name (st_buckets st ! b)) = Inr h) \<and>
        distinct (map (\<lambda>b. b_name (st_buckets st ! b)) (st_table st ! h)))"

lemma chain_find_cong:
  "\<forall>b \<in> set chain. b_name (bs ! b) = b_name (bs' ! b) \<Longrightarrow> chain_find bs name chain = chain_find bs' name chain"
  by (induction chain) auto

lemma chain_find_None: "chain_find bs name chain = None \<longleftrightarrow> name \<notin> (\<lambda>b. b_name (bs ! b)) ` set chain"
  by (induction chain) auto

lemma chain_find_Some: "chain_find bs name chain = Some b \<Longrightarrow> b \<in> set chain \<and> b_name (bs ! b) = name"
  by (induction chain) (auto split: if_splits)

lemma chain_find_append:
  "chain_find bs name (chain @ chain') =
   (case chain_find bs name chain of None \<Rightarrow> chain_find bs name chain' | Some b \<Rightarrow> Some b)"
  by (induction chain) auto

lemma st_find_Some:
  assumes "symtab_ok st" "st_find st name = Some b"
  shows "b < length (st_buckets st)" "b_name (st_buckets st ! b) = name"
proof -
  from assms(2) obtain h where h: "hash name = Inr h" "chain_find (st_buckets st) name (st_table st ! h) = Some b"
    by (auto simp: st_find_def split: sum.splits)
  from chain_find_Some [OF h(2)] have b: "b \<in> set (st_table st ! h)" "b_name (st_buckets st ! b) = name"
    by auto
  then show "b_name (st_buckets st ! b) = name" by simp
  show "b < length (st_buckets st)"
    using assms(1) b(1) hash_bound [OF h(1)] by (auto simp: symtab_ok_def)
qed

lemma symtab_ok_upd:
  assumes "symtab_ok st" "b_name (f (st_buckets st ! b)) = b_name (st_buckets st ! b)"
  shows "symtab_ok (upd_bucket b f st)" "st_find (upd_bucket b f st) = st_find st"
proof -
  have n: "b_name ((st_buckets st)[b := f (st_buckets st ! b)] ! c) = b_name (st_buckets st ! c)" for c
    using assms(2) by (auto simp: nth_upd)
  show "symtab_ok (upd_bucket b f st)"
    using assms(1) by (simp add: symtab_ok_def upd_bucket_def n)
  show "st_find (upd_bucket b f st) = st_find st"
    using chain_find_cong [of _ "(st_buckets st)[b := f (st_buckets st ! b)]" "st_buckets st"] n
    by (auto simp: fun_eq_iff st_find_def upd_bucket_def split: sum.splits)
qed

lemma symtab_ok_append:
  assumes "symtab_ok st"
  shows "symtab_ok (append_bucket b st)" "st_find (append_bucket b st) = st_find st"
proof -
  have n: "c < length (st_buckets st) \<Longrightarrow> (st_buckets st @ [b]) ! c = st_buckets st ! c" for c
    by (simp add: nth_append)
  have m: "map (\<lambda>c. b_name ((st_buckets st @ [b]) ! c)) (st_table st ! h) = map (\<lambda>c. b_name (st_buckets st ! c)) (st_table st ! h)"
    if "h < TABLE_SIZE" for h
    using assms that by (auto simp: symtab_ok_def n)
  show "symtab_ok (append_bucket b st)"
    using assms unfolding symtab_ok_def append_bucket_def by (auto simp: n m less_Suc_eq)
  have "st_find (append_bucket b st) name = st_find st name" for name
  proof (cases "hash name")
    case (Inr h)
    show ?thesis
      using Inr hash_bound [OF Inr] chain_find_cong [of "st_table st ! h" "st_buckets st @ [b]" "st_buckets st"] assms
      by (auto simp: st_find_def append_bucket_def symtab_ok_def n)
  qed (simp add: st_find_def)
  then show "st_find (append_bucket b st) = st_find st" by blast
qed

lemma symtab_ok_create:
  "\<exists>st. create_symbol_table = Inr st \<and> symtab_ok st \<and>
     st_buckets st = [(make_bucket ''error'')\<lparr>b_index := 1, b_class := Term\<rparr>]"
proof -
  obtain h where h: "hash ''error'' = Inr h" "h < TABLE_SIZE"
    using hash_ok [of "''error''"] by (auto simp: name_ok_def)
  have "symtab_ok \<lparr>st_buckets = [(make_bucket ''error'')\<lparr>b_index := 1, b_class := Term\<rparr>],
      st_table = (replicate TABLE_SIZE [])[h := [0]]\<rparr>"
    using h by (auto simp: symtab_ok_def nth_upd make_bucket_def)
  with h(1) show ?thesis by (simp add: create_symbol_table_def)
qed

lemma lookup_law:
  assumes ok: "symtab_ok st" and n: "name_ok name"
  obtains b st' where "lookup name st = Inr (b, st')" "symtab_ok st'"
    "\<And>m. st_find st' m = (if m = name then Some b else st_find st m)"
    "b < length (st_buckets st')" "b_name (st_buckets st' ! b) = name"
    "st_find st name = Some b \<and> st' = st \<or>
     st_find st name = None \<and> b = length (st_buckets st) \<and> st_buckets st' = st_buckets st @ [make_bucket name]"
proof -
  obtain h where h: "hash name = Inr h" "h < TABLE_SIZE" using hash_ok [OF n] by blast
  show thesis
  proof (cases "chain_find (st_buckets st) name (st_table st ! h)")
    case (Some b)
    have f: "st_find st name = Some b" using h(1) Some by (simp add: st_find_def)
    show thesis
      by (rule that [of b st]) (use ok h Some f st_find_Some [OF ok f] in \<open>auto simp: lookup_def\<close>)
  next
    case None
    let ?b = "length (st_buckets st)"
    let ?st = "append_bucket (make_bucket name) (st\<lparr>st_table := (st_table st)[h := st_table st ! h @ [?b]]\<rparr>)"
    have l: "lookup name st = Inr (?b, ?st)" using h(1) None by (simp add: lookup_def Let_def)
    have bs: "st_buckets ?st = st_buckets st @ [make_bucket name]" by (simp add: append_bucket_def)
    have nth: "c < ?b \<Longrightarrow> (st_buckets st @ [make_bucket name]) ! c = st_buckets st ! c" for c
      by (simp add: nth_append)
    have old: "c < ?b" "hash (b_name (st_buckets st ! c)) = Inr k" if "k < TABLE_SIZE" "c \<in> set (st_table st ! k)" for c k
      using ok that by (auto simp: symtab_ok_def)
    have len: "length (st_table st) = TABLE_SIZE" using ok by (simp add: symtab_ok_def)
    have names: "map (\<lambda>c. b_name ((st_buckets st @ [make_bucket name]) ! c)) (st_table st ! k) =
        map (\<lambda>c. b_name (st_buckets st ! c)) (st_table st ! k)" if "k < TABLE_SIZE" for k
      using old(1) [OF that] by (simp add: nth)
    have cf: "chain_find (st_buckets st @ [make_bucket name]) m (st_table st ! k) = chain_find (st_buckets st) m (st_table st ! k)"
      if "k < TABLE_SIZE" for m k
      using old(1) [OF that] by (intro chain_find_cong) (simp add: nth)
    have "symtab_ok ?st"
      unfolding symtab_ok_def
    proof (intro conjI allI impI ballI)
      fix k c assume k: "k < TABLE_SIZE" and c: "c \<in> set (st_table ?st ! k)"
      show "c < length (st_buckets ?st)" "hash (b_name (st_buckets ?st ! c)) = Inr k"
        using k c old [OF k, of c] h len
        by (auto simp: append_bucket_def nth_upd nth_append make_bucket_def split: if_splits)
    next
      fix k assume k: "k < TABLE_SIZE"
      have "distinct (map (\<lambda>c. b_name (st_buckets st ! c)) (st_table st ! k))" using ok k by (simp add: symtab_ok_def)
      moreover have "name \<notin> (\<lambda>c. b_name (st_buckets st ! c)) ` set (st_table st ! h)"
        using None by (simp add: chain_find_None)
      ultimately show "distinct (map (\<lambda>c. b_name (st_buckets ?st ! c)) (st_table ?st ! k))"
        using k h len old(1) names [OF k]
        by (auto simp: append_bucket_def nth_upd make_bucket_def nth distinct_map inj_on_def)
    qed (simp add: append_bucket_def len)
    moreover have "st_find ?st m = (if m = name then Some ?b else st_find st m)" for m
    proof (cases "hash m")
      case (Inl e)
      with h(1) show ?thesis by (auto simp: st_find_def)
    next
      case (Inr k)
      have "chain_find (st_buckets st @ [make_bucket name]) m [?b] = (if m = name then Some ?b else None)"
        by (simp add: make_bucket_def)
      then show ?thesis
        using Inr h None len cf [of h m] cf [of k m] hash_bound [OF Inr]
        by (auto simp: st_find_def append_bucket_def nth_upd chain_find_append split: option.splits)
    qed
    moreover have "st_find st name = None" using h(1) None by (simp add: st_find_def)
    ultimately show thesis
      using l bs by (intro that [of ?b ?st]) simp_all
  qed
qed

section \<open>What a client may rely on\<close>

text \<open>Looking names up one after another, the buckets in a list.\<close>

fun intern_all :: "(string \<Rightarrow> 's \<Rightarrow> 'e + nat \<times> 's) \<Rightarrow> string list \<Rightarrow> 's \<Rightarrow> 'e + nat list \<times> 's" where
  "intern_all look [] s = Inr ([], s)"
| "intern_all look (n # ns) s =
     (case look n s of Inl e \<Rightarrow> Inl e
      | Inr (b, s') \<Rightarrow> (case intern_all look ns s' of Inl e \<Rightarrow> Inl e | Inr (bs, s'') \<Rightarrow> Inr (b # bs, s'')))"

locale symbol_table =
  fixes look :: "string \<Rightarrow> 's \<Rightarrow> 'e + nat \<times> 's"
    and find :: "'s \<Rightarrow> string \<Rightarrow> nat option"
    and inv :: "'s \<Rightarrow> bool"
    and valid :: "string \<Rightarrow> bool"
  assumes look_ok: "inv s \<Longrightarrow> valid n \<Longrightarrow>
      \<exists>b s'. look n s = Inr (b, s') \<and> inv s' \<and> (\<forall>m. find s' m = (if m = n then Some b else find s m))"
    and look_old: "inv s \<Longrightarrow> valid n \<Longrightarrow> find s n = Some b \<Longrightarrow> look n s = Inr (b, s)"
    and find_inj: "inv s \<Longrightarrow> find s m = Some b \<Longrightarrow> find s n = Some b \<Longrightarrow> m = n"
begin

lemma look_mono:
  assumes "inv s" "valid n" "look n s = Inr (b, s')" "find s m = Some c"
  shows "find s' m = Some c"
proof (cases "m = n")
  case True
  with assms look_old [of s n c] show ?thesis by auto
next
  case False
  with look_ok [OF assms(1,2)] assms(3,4) show ?thesis by auto
qed

lemma intern_all_finds:
  assumes "inv s" "\<forall>n \<in> set ns. valid n"
  shows "\<exists>bs s'. intern_all look ns s = Inr (bs, s') \<and> inv s' \<and> length bs = length ns \<and>
    (\<forall>m c. find s m = Some c \<longrightarrow> find s' m = Some c) \<and>
    (\<forall>i < length ns. find s' (ns ! i) = Some (bs ! i))"
  using assms
proof (induction ns arbitrary: s)
  case (Cons n ns)
  obtain b s1 where b: "look n s = Inr (b, s1)" "inv s1" "find s1 n = Some b"
    using look_ok [OF Cons.prems(1), of n] Cons.prems(2) by auto
  obtain bs s2 where r: "intern_all look ns s1 = Inr (bs, s2)" "inv s2" "length bs = length ns"
    "\<forall>m c. find s1 m = Some c \<longrightarrow> find s2 m = Some c" "\<forall>i < length ns. find s2 (ns ! i) = Some (bs ! i)"
    using Cons.IH [OF b(2)] Cons.prems(2) by auto
  have "\<forall>m c. find s m = Some c \<longrightarrow> find s2 m = Some c"
    using look_mono [OF Cons.prems(1) _ b(1)] Cons.prems(2) r(4) by simp
  moreover have "find s2 ((n # ns) ! i) = Some ((b # bs) ! i)" if "i < length (n # ns)" for i
    using that r(4,5) b(3) by (cases i) simp_all
  ultimately show ?case using b(1) r(1-3) by simp
qed simp

text \<open>Two look-ups meet in one bucket exactly if the names are equal.\<close>

lemma intern_all_identity:
  assumes "inv s" "\<forall>n \<in> set ns. valid n"
  shows "\<exists>bs s'. intern_all look ns s = Inr (bs, s') \<and> length bs = length ns \<and>
    (\<forall>i < length ns. \<forall>j < length ns. (bs ! i = bs ! j) = (ns ! i = ns ! j))"
proof -
  obtain bs s' where r: "intern_all look ns s = Inr (bs, s')" "inv s'" "length bs = length ns"
    "\<forall>i < length ns. find s' (ns ! i) = Some (bs ! i)"
    using intern_all_finds [OF assms] by blast
  have "(bs ! i = bs ! j) = (ns ! i = ns ! j)" if "i < length ns" "j < length ns" for i j
    using r(4) that find_inj [OF r(2), of "ns ! i" "bs ! i" "ns ! j"] by (metis option.inject)
  with r show ?thesis by blast
qed

end

interpretation symtab: symbol_table lookup st_find symtab_ok name_ok
proof
  fix st n assume ok: "symtab_ok st" and n: "name_ok n"
  show "\<exists>b s'. lookup n st = Inr (b, s') \<and> symtab_ok s' \<and> (\<forall>m. st_find s' m = (if m = n then Some b else st_find st m))"
    by (rule lookup_law [OF ok n]) auto
next
  fix st n b assume ok: "symtab_ok st" and n: "name_ok n" and f: "st_find st n = Some b"
  show "lookup n st = Inr (b, st)"
    by (rule lookup_law [OF ok n]) (use f in auto)
next
  fix st m n b assume "symtab_ok st" "st_find st m = Some b" "st_find st n = Some b"
  then show "m = n" using st_find_Some(2) by metis
qed

text \<open>Starting from the table \<^verbatim>\<open>create_symbol_table\<close> makes, any sequence of look-ups succeeds, and
  two of them return the same bucket exactly if their names are equal.\<close>

theorem lookup_identity:
  assumes "\<forall>n \<in> set ns. name_ok n"
  shows "\<exists>st bs st'. create_symbol_table = Inr st \<and> intern_all lookup ns st = Inr (bs, st') \<and>
    length bs = length ns \<and> (\<forall>i < length ns. \<forall>j < length ns. (bs ! i = bs ! j) = (ns ! i = ns ! j))"
proof -
  obtain st where st: "create_symbol_table = Inr st" "symtab_ok st" using symtab_ok_create by blast
  from symtab.intern_all_identity [OF st(2) assms] st(1) show ?thesis by blast
qed

theorem lookup_identity_witness:
  "\<exists>st bs st'. create_symbol_table = Inr st \<and> intern_all lookup [''a'', ''b'', ''a''] st = Inr (bs, st') \<and>
    length bs = 3 \<and> bs ! 0 = bs ! 2 \<and> bs ! 0 \<noteq> bs ! 1"
proof -
  have ok: "\<forall>n \<in> set [''a'', ''b'', ''a'']. name_ok n" by (simp add: name_ok_def)
  obtain st bs st' where r: "create_symbol_table = Inr st" "intern_all lookup [''a'', ''b'', ''a''] st = Inr (bs, st')"
    "length bs = 3" and e: "\<forall>i < 3. \<forall>j < 3. (bs ! i = bs ! j) = ([''a'', ''b'', ''a''] ! i = [''a'', ''b'', ''a''] ! j)"
    using lookup_identity [OF ok] by auto
  have "bs ! 0 = bs ! 2" "bs ! 0 \<noteq> bs ! 1"
    using e [rule_format, of 0 2] e [rule_format, of 0 1] by simp_all
  with r show ?thesis by blast
qed

end
