(* ===== verification/Reader_Monad.thy ===== *)
theory Reader_Monad
  imports CText
begin

text \<open>
  The grammar reader changes global variables and may end the program with a message.  An operation
  of it is a function from a state to an error or a result and a new state; \<open>bind\<close> runs two after each
  other.  The errors are the messages of \<^verbatim>\<open>jay/error.c\<close> that call \<^verbatim>\<open>done(1)\<close>; beside them stand what a
  C program must not do (\<open>Internal\<close>) and a loop stopped by its fuel.  \<open>wp m Q s\<close> says that \<open>m\<close>, started in
  \<open>s\<close>, ends with such a message or with a result and a state that satisfy \<open>Q\<close>, so it excludes
  the last two; its equations reduce a statement about an operation to one about the states.
\<close>

section \<open>Errors\<close>

text \<open>A saved line number, a copy of the line (none after the end of the file) and a column in it.\<close>

record srcpos =
  pos_lineno :: nat
  pos_line :: "string option"
  pos_col :: nat

datatype reader_error =
    Unexpected_EOF nat
  | Syntax_error srcpos
  | Unterminated_comment srcpos
  | Unterminated_string srcpos
  | Unterminated_text srcpos
  | Illegal_tag srcpos
  | Illegal_character srcpos
  | Used_reserved nat string
  | Tokenized_start nat string
  | Terminal_start nat string
  | No_grammar nat
  | Terminal_lhs nat
  | Unterminated_action srcpos
  | Dollar_error srcpos
  | Unknown_rhs nat int
  | Undefined_goal string
  | Internal jay_error
  | Out_of_fuel

fun user_error :: "reader_error \<Rightarrow> bool" where
  "user_error (Internal e) = False"
| "user_error Out_of_fuel = False"
| "user_error e = True"

section \<open>Operations\<close>

type_synonym ('s, 'a) reads = "'s \<Rightarrow> reader_error + 'a \<times> 's"

definition return :: "'a \<Rightarrow> ('s, 'a) reads" where
  "return a = (\<lambda>s. Inr (a, s))"

definition bind :: "('s, 'a) reads \<Rightarrow> ('a \<Rightarrow> ('s, 'b) reads) \<Rightarrow> ('s, 'b) reads" where
  "bind m f = (\<lambda>s. case m s of Inl e \<Rightarrow> Inl e | Inr (a, s') \<Rightarrow> f a s')"

definition andThen :: "('s, 'a) reads \<Rightarrow> ('s, 'b) reads \<Rightarrow> ('s, 'b) reads" where
  "andThen m n = bind m (\<lambda>_. n)"

definition throw :: "reader_error \<Rightarrow> ('s, 'a) reads" where
  "throw e = (\<lambda>s. Inl e)"

definition gets :: "('s \<Rightarrow> 'a) \<Rightarrow> ('s, 'a) reads" where
  "gets f = (\<lambda>s. Inr (f s, s))"

definition modify :: "('s \<Rightarrow> 's) \<Rightarrow> ('s, unit) reads" where
  "modify f = (\<lambda>s. Inr ((), f s))"

text \<open>An operation on a part of the state.\<close>

definition zoom :: "('s \<Rightarrow> 't) \<Rightarrow> ('t \<Rightarrow> 's \<Rightarrow> 's) \<Rightarrow> ('t, 'a) reads \<Rightarrow> ('s, 'a) reads" where
  "zoom get put m = (\<lambda>s. case m (get s) of Inl e \<Rightarrow> Inl e | Inr (a, t) \<Rightarrow> Inr (a, put t s))"

section \<open>Weakest preconditions\<close>

definition wp :: "('s, 'a) reads \<Rightarrow> ('a \<Rightarrow> 's \<Rightarrow> bool) \<Rightarrow> 's \<Rightarrow> bool" where
  "wp m Q s = (case m s of Inl e \<Rightarrow> user_error e | Inr (a, s') \<Rightarrow> Q a s')"

named_theorems wp_simps \<open>equations for weakest preconditions\<close>

lemma wp_basic [wp_simps]:
  "wp (return a) Q = Q a"
  "wp (throw e) Q = (\<lambda>s. user_error e)"
  "wp (gets f) R = (\<lambda>s. R (f s) s)"
  "wp (modify h) P = (\<lambda>s. P () (h s))"
  by (simp_all add: fun_eq_iff wp_def return_def throw_def gets_def modify_def)

lemma wp_bind [wp_simps]: "wp (bind m f) Q = wp m (\<lambda>a. wp (f a) Q)"
  by (auto simp: fun_eq_iff wp_def bind_def split: sum.splits prod.splits)

lemma wp_andThen [wp_simps]: "wp (andThen m n) Q = wp m (\<lambda>_. wp n Q)"
  by (simp add: andThen_def wp_bind)

lemma wp_if [wp_simps]: "wp (if b then m else n) Q s = (if b then wp m Q s else wp n Q s)"
  by simp

lemma wp_option [wp_simps]:
  "wp (case x of None \<Rightarrow> m | Some y \<Rightarrow> f y) Q s = (case x of None \<Rightarrow> wp m Q s | Some y \<Rightarrow> wp (f y) Q s)"
  by (cases x) simp_all

lemma wp_list [wp_simps]:
  "wp (case x of [] \<Rightarrow> m | y # ys \<Rightarrow> g y ys) Q s = (case x of [] \<Rightarrow> wp m Q s | y # ys \<Rightarrow> wp (g y ys) Q s)"
  by (cases x) simp_all

lemma wp_sum [wp_simps]:
  "wp (case x of Inl y \<Rightarrow> f y | Inr z \<Rightarrow> g z) Q s = (case x of Inl y \<Rightarrow> wp (f y) Q s | Inr z \<Rightarrow> wp (g z) Q s)"
  by (cases x) simp_all

lemma wp_prod [wp_simps]: "wp (case p of (a, b) \<Rightarrow> f a b) Q s = (case p of (a, b) \<Rightarrow> wp (f a b) Q s)"
  by (cases p) simp

lemma wp_Let [wp_simps]: "wp (Let x f) Q s = (let y = x in wp (f y) Q s)"
  by simp

lemma wp_zoom [wp_simps]: "wp (zoom get put m) Q = (\<lambda>s. wp m (\<lambda>a t. Q a (put t s)) (get s))"
  by (auto simp: fun_eq_iff wp_def zoom_def split: sum.splits prod.splits)

lemma wp_mono: "wp m Q s \<Longrightarrow> (\<And>a s'. Q a s' \<Longrightarrow> Q' a s') \<Longrightarrow> wp m Q' s"
  by (auto simp: wp_def split: sum.splits)

lemma wp_conj: "wp m P s \<Longrightarrow> wp m Q s \<Longrightarrow> wp m (\<lambda>a s'. P a s' \<and> Q a s') s"
  by (auto simp: wp_def split: sum.splits)

text \<open>From a weakest precondition to the result of a run.\<close>

lemma wpE:
  assumes "wp m Q s"
  obtains e where "m s = Inl e" "user_error e" | a s' where "m s = Inr (a, s')" "Q a s'"
  using assms by (auto simp: wp_def split: sum.splits)

end
