(* ===== verification/Scanner.thy ===== *)
theory Scanner
  imports Reader_Monad "HOL-Library.Sublist"
begin

text \<open>
  The scanning half of \<^verbatim>\<open>jay/reader.c\<close>: the line buffer, white space and comments, and the words the
  reader is made of.  \<^verbatim>\<open>cptr\<close> points into \<^verbatim>\<open>line\<close>; here it is the text from there to the end of the
  line, newline included, so \<^verbatim>\<open>*cptr\<close> is its head, \<^verbatim>\<open>++cptr\<close> its tail and a column the difference of two
  lengths.  Reading past the newline is \<open>BadAccess\<close>.  A loop that may go to the next line has fuel,
  given by \<open>todo\<close>, a bound on the characters still to be read.
\<close>

section \<open>The line buffer\<close>

record scanner =
  sc_input :: string
  sc_eof :: bool
  sc_line :: "string option"
  sc_cptr :: string
  sc_lineno :: nat
  sc_linesize :: nat

text \<open>Before the first line is read.\<close>

definition open_input :: "string \<Rightarrow> scanner" where
  "open_input inp =
     \<lparr>sc_input = inp, sc_eof = False, sc_line = None, sc_cptr = [], sc_lineno = 0, sc_linesize = 0\<rparr>"

definition LINESIZE :: nat where "LINESIZE = 100"

text \<open>
  The loop of \<^verbatim>\<open>get_line\<close>: \<open>c\<close> goes to \<^verbatim>\<open>line[i]\<close>, and the buffer has grown before it is too small.
  The result is the line, the input left, whether it ended and the size of the buffer.
\<close>

definition grow_line :: "nat \<Rightarrow> nat \<Rightarrow> nat" where
  "grow_line sz i = (if sz \<le> i then sz + LINESIZE else sz)"

fun read_line :: "nat \<Rightarrow> nat \<Rightarrow> char \<Rightarrow> string \<Rightarrow> string \<times> string \<times> bool \<times> nat" where
  "read_line sz i c [] =
     (if c = NEWLINE then ([c], [], False, sz) else ([c, NEWLINE], [], True, grow_line sz (Suc i)))"
| "read_line sz i c (d # inp) =
     (if c = NEWLINE then ([c], d # inp, False, sz)
      else (case read_line (grow_line sz (Suc i)) (Suc i) d inp of
              (l, rest, eof, sz') \<Rightarrow> (c # l, rest, eof, sz')))"

definition get_line :: "scanner \<Rightarrow> scanner" where
  "get_line s =
     (if sc_eof s \<or> sc_input s = [] then s\<lparr>sc_line := None, sc_cptr := [], sc_eof := True\<rparr>
      else (case read_line (LINESIZE + 1) 0 (hd (sc_input s)) (tl (sc_input s)) of
              (l, rest, eof, sz) \<Rightarrow>
                s\<lparr>sc_input := rest, sc_eof := eof, sc_line := Some l, sc_cptr := l,
                  sc_lineno := Suc (sc_lineno s), sc_linesize := sz\<rparr>))"

text \<open>A position in the current line, as \<^verbatim>\<open>dup_line\<close> and a column save it.\<close>

definition pos_at :: "string \<Rightarrow> scanner \<Rightarrow> srcpos" where
  "pos_at p s =
     \<lparr>pos_lineno = sc_lineno s, pos_line = sc_line s,
      pos_col = (case sc_line s of None \<Rightarrow> 0 | Some l \<Rightarrow> length l - length p)\<rparr>"

definition here :: "(scanner, srcpos) reads" where
  "here = gets (\<lambda>s. pos_at (sc_cptr s) s)"

definition back_pos :: "nat \<Rightarrow> srcpos \<Rightarrow> srcpos" where
  "back_pos k p = p\<lparr>pos_col := pos_col p - k\<rparr>"

text \<open>\<^verbatim>\<open>*cptr\<close>, \<^verbatim>\<open>++cptr\<close> and \<^verbatim>\<open>*cptr++\<close>.\<close>

definition peek :: "(scanner, char) reads" where
  "peek = (\<lambda>s. case sc_cptr s of [] \<Rightarrow> Inl (Internal BadAccess) | c # r \<Rightarrow> Inr (c, s))"

definition advance :: "(scanner, unit) reads" where
  "advance = (\<lambda>s. case sc_cptr s of [] \<Rightarrow> Inl (Internal BadAccess) | c # r \<Rightarrow> Inr ((), s\<lparr>sc_cptr := r\<rparr>))"

definition next_char :: "(scanner, char) reads" where
  "next_char = bind peek (\<lambda>c. andThen advance (return c))"

definition set_cptr :: "string \<Rightarrow> (scanner, unit) reads" where
  "set_cptr p = modify (\<lambda>s. s\<lparr>sc_cptr := p\<rparr>)"

text \<open>\<^verbatim>\<open>get_line(); if (line == 0)\<close> followed by an error.\<close>

definition next_line :: "reader_error \<Rightarrow> (scanner, unit) reads" where
  "next_line e = andThen (modify get_line) (bind (gets sc_line) (\<lambda>l. if l = None then throw e else return ()))"

text \<open>Fuel for a loop over the characters that are left; a last line without newline gets one.\<close>

definition todo :: "scanner \<Rightarrow> nat" where
  "todo s = 2 * length (sc_input s) + length (sc_cptr s)"

definition with_fuel :: "(nat \<Rightarrow> (scanner, 'a) reads) \<Rightarrow> (scanner, 'a) reads" where
  "with_fuel f = bind (gets (\<lambda>s. Suc (todo s))) f"

section \<open>White space and comments\<close>

fun comment_loop :: "nat \<Rightarrow> srcpos \<Rightarrow> string \<Rightarrow> (scanner, unit) reads" where
  "comment_loop 0 st s = throw Out_of_fuel"
| "comment_loop (Suc k) st [] = throw (Internal BadAccess)"
| "comment_loop (Suc k) st (c # s) =
     (if c = CHR ''*'' \<and> s \<noteq> [] \<and> hd s = CHR ''/'' then set_cptr (tl s)
      else if c = NEWLINE then
        andThen (next_line (Unterminated_comment st)) (bind (gets sc_cptr) (comment_loop k st))
      else comment_loop k st s)"

definition skip_comment :: "(scanner, unit) reads" where
  "skip_comment = bind here (\<lambda>st. bind (gets (drop 2 \<circ> sc_cptr)) (\<lambda>s. with_fuel (\<lambda>k. comment_loop k st s)))"

text \<open>
  \<^verbatim>\<open>EOF\<close> is -1; a \<^verbatim>\<open>char\<close> is signed, so the character 255 is the same \<^verbatim>\<open>int\<close>.
\<close>

definition char_int :: "char \<Rightarrow> char option" where
  "char_int c = (if c = CHR 0xFF then None else Some c)"

definition skipped :: "char \<Rightarrow> bool" where
  "skipped c \<longleftrightarrow> c \<in> {SP, HT, FF, CR, VT, CHR '','', CHR '';''}"

fun nextc_loop :: "nat \<Rightarrow> string \<Rightarrow> (scanner, char option) reads" where
  "nextc_loop 0 s = throw Out_of_fuel"
| "nextc_loop (Suc k) [] = throw (Internal BadAccess)"
| "nextc_loop (Suc k) (c # s) =
     (if c = NEWLINE then
        andThen (modify get_line) (bind (gets sc_line) (\<lambda>l.
          if l = None then return None else bind (gets sc_cptr) (nextc_loop k)))
      else if skipped c then nextc_loop k s
      else if c = BACKSLASH then andThen (set_cptr (c # s)) (return (Some (CHR ''%'')))
      else if c = CHR ''/'' \<and> s \<noteq> [] \<and> hd s = CHR ''*'' then
        andThen (set_cptr (c # s)) (andThen skip_comment (bind (gets sc_cptr) (nextc_loop k)))
      else if c = CHR ''/'' \<and> s \<noteq> [] \<and> hd s = CHR ''/'' then
        andThen (modify get_line) (bind (gets sc_line) (\<lambda>l.
          if l = None then return None else bind (gets sc_cptr) (nextc_loop k)))
      else andThen (set_cptr (c # s)) (return (char_int c)))"

definition nextc :: "(scanner, char option) reads" where
  "nextc =
     bind (gets sc_line) (\<lambda>l.
       if l = None then
         andThen (modify get_line) (bind (gets sc_line) (\<lambda>l.
           if l = None then return None else bind (gets sc_cptr) (\<lambda>s. with_fuel (\<lambda>k. nextc_loop k s))))
       else bind (gets sc_cptr) (\<lambda>s. with_fuel (\<lambda>k. nextc_loop k s)))"

section \<open>Words\<close>

definition keyword :: "(scanner, nat) reads" where
  "keyword =
     bind here (\<lambda>t_cptr.
     andThen advance (bind peek (\<lambda>c.
       if isalpha c then
         bind (gets sc_cptr) (\<lambda>p.
           let cache = map tolower (takeWhile IS_IDENT p) in
           andThen (set_cptr (dropWhile IS_IDENT p))
             (if cache = ''token'' \<or> cache = ''term'' then return TOKEN
              else if cache = ''type'' then return TYPE_KW
              else if cache = ''left'' then return LEFT
              else if cache = ''right'' then return RIGHT
              else if cache = ''nonassoc'' \<or> cache = ''binary'' then return NONASSOC
              else if cache = ''start'' then return START
              else throw (Syntax_error t_cptr)))
       else
         andThen advance
           (if c = CHR ''{'' then return TEXT
            else if c = CHR ''%'' \<or> c = BACKSLASH then return MARK
            else if c = CHR ''<'' then return LEFT
            else if c = CHR ''>'' then return RIGHT
            else if c = CHR ''0'' then return TOKEN
            else if c = CHR ''2'' then return NONASSOC
            else throw (Syntax_error t_cptr)))))"

definition get_number :: "(scanner, int) reads" where
  "get_number = bind (gets (number_chars 0 \<circ> sc_cptr)) (\<lambda>(n, p). andThen (set_cptr p) (return n))"

text \<open>The characters of a name, the loop of \<^verbatim>\<open>get_name\<close>.\<close>

definition name_chars :: "(scanner, string) reads" where
  "name_chars = bind (gets sc_cptr) (\<lambda>p. andThen (set_cptr (dropWhile IS_IDENT p)) (return (takeWhile IS_IDENT p)))"

text \<open>The digits of an octal and of a hexadecimal escape.  \<open>None\<close> is an illegal character.\<close>

definition octal_escape :: "nat \<Rightarrow> string \<Rightarrow> nat option \<times> string" where
  "octal_escape n p =
     (let take_digit = (\<lambda>(n, p). (n * 8 + (code (hd p) - 48), tl p));
          one = (p \<noteq> [] \<and> IS_OCTAL (hd p));
          (n1, p1) = (if one then take_digit (n, p) else (n, p));
          (n2, p2) = (if one \<and> p1 \<noteq> [] \<and> IS_OCTAL (hd p1) then take_digit (n1, p1) else (n1, p1))
      in (if n2 > MAXCHAR then None else Some n2, p2))"

fun hex_escape :: "nat \<Rightarrow> string \<Rightarrow> nat option \<times> string" where
  "hex_escape n [] = (Some n, [])"
| "hex_escape n (c # p) =
     (case hexval c of None \<Rightarrow> (Some n, c # p)
      | Some i \<Rightarrow> if n * 16 + i > MAXCHAR then (None, p) else hex_escape (n * 16 + i) p)"

text \<open>The \<^verbatim>\<open>switch\<close> on the character after a backslash in a literal; \<open>None\<close> for a line that goes on.\<close>

definition letter_escape :: "char \<Rightarrow> char" where
  "letter_escape c =
     (if c = CHR ''a'' then char_of (7::nat) else if c = CHR ''b'' then BS
      else if c = CHR ''f'' then FF else if c = CHR ''n'' then NEWLINE
      else if c = CHR ''r'' then CR else if c = CHR ''t'' then HT
      else if c = CHR ''v'' then VT else c)"

definition take_escape :: "srcpos \<Rightarrow> nat option \<times> string \<Rightarrow> (scanner, char option) reads" where
  "take_escape c_cptr np =
     (case fst np of None \<Rightarrow> throw (Illegal_character c_cptr)
      | Some n \<Rightarrow> andThen (set_cptr (snd np)) (return (Some (char_of n))))"

definition literal_escape :: "srcpos \<Rightarrow> srcpos \<Rightarrow> char \<Rightarrow> (scanner, char option) reads" where
  "literal_escape st c_cptr c =
     (if c = NEWLINE then andThen (next_line (Unterminated_string st)) (return None)
      else if IS_OCTAL c then bind (gets (octal_escape (code c - 48) \<circ> sc_cptr)) (take_escape c_cptr)
      else if c = CHR ''x'' then
        bind next_char (\<lambda>c. case hexval c of
            None \<Rightarrow> throw (Illegal_character c_cptr)
          | Some n \<Rightarrow> bind (gets (hex_escape n \<circ> sc_cptr)) (take_escape c_cptr))
      else return (Some (letter_escape c)))"

fun literal_loop :: "nat \<Rightarrow> srcpos \<Rightarrow> char \<Rightarrow> string \<Rightarrow> (scanner, string) reads" where
  "literal_loop 0 st quote cache = throw Out_of_fuel"
| "literal_loop (Suc k) st quote cache =
     bind (gets (\<lambda>s. pos_at (sc_cptr s) s)) (\<lambda>c_cptr. bind next_char (\<lambda>c.
       if c = quote then return cache
       else if c = NEWLINE then throw (Unterminated_string st)
       else if c = BACKSLASH then
         bind (bind next_char (literal_escape st c_cptr)) (\<lambda>e. case e of
             None \<Rightarrow> literal_loop k st quote cache
           | Some c \<Rightarrow> literal_loop k st quote (cache @ [c]))
       else literal_loop k st quote (cache @ [c])))"

text \<open>The first half of \<^verbatim>\<open>get_literal\<close>, up to \<^verbatim>\<open>n = cinc\<close>.\<close>

definition literal_chars :: "(scanner, string) reads" where
  "literal_chars = bind here (\<lambda>st. bind next_char (\<lambda>quote. with_fuel (\<lambda>k. literal_loop k st quote [])))"

text \<open>The second half: the name a literal has in the symbol table.\<close>

definition octal_digit :: "nat \<Rightarrow> char" where
  "octal_digit n = char_of (n mod 8 + 48)"

definition quote_char :: "char \<Rightarrow> char \<Rightarrow> string" where
  "quote_char q c =
     (if c = BACKSLASH \<or> c = q then [BACKSLASH, c]
      else if isprint c then [c]
      else BACKSLASH #
        (if code c = 7 then ''a'' else if c = BS then ''b'' else if c = FF then ''f''
         else if c = NEWLINE then ''n'' else if c = CR then ''r'' else if c = HT then ''t''
         else if c = VT then ''v''
         else [octal_digit (code c div 64), octal_digit (code c div 8), octal_digit (code c)]))"

definition quote_literal :: "string \<Rightarrow> string" where
  "quote_literal s =
     (let q = (if length s = 1 then QUOTE else DOUBLE_QUOTE) in q # concat (map (quote_char q) s) @ [q])"

definition is_reserved :: "string \<Rightarrow> bool" where
  "is_reserved name \<longleftrightarrow> name = ''.'' \<or> name = ''$accept'' \<or> name = ''$end'' \<or>
     (length name \<ge> 3 \<and> take 2 name = ''$$'' \<and> (\<forall>c \<in> set (drop 2 name). isdigit c))"

section \<open>Lines\<close>

definition line_ok :: "string \<Rightarrow> bool" where
  "line_ok l \<longleftrightarrow> l \<noteq> [] \<and> last l = NEWLINE \<and> NEWLINE \<notin> set (butlast l)"

text \<open>\<^verbatim>\<open>cptr\<close> points into the line, or there is no line.\<close>

definition scan_ok :: "scanner \<Rightarrow> bool" where
  "scan_ok s \<longleftrightarrow>
     (case sc_line s of None \<Rightarrow> sc_cptr s = []
      | Some l \<Rightarrow> line_ok l \<and> sc_cptr s \<noteq> [] \<and> suffix (sc_cptr s) l)"

definition ready :: "scanner \<Rightarrow> bool" where
  "ready s \<longleftrightarrow> scan_ok s \<and> sc_line s \<noteq> None"

lemma ready_scan_ok [simp]: "ready s \<Longrightarrow> scan_ok s"
  by (simp add: ready_def)

lemma line_ok_Cons: "line_ok (c # r) \<longleftrightarrow> (if c = NEWLINE then r = [] else line_ok r)"
  by (auto simp: line_ok_def)

lemma line_ok_not_Nil [simp]: "\<not> line_ok []"
  by (simp add: line_ok_def)

lemma line_ok_suffix: "line_ok l \<Longrightarrow> suffix p l \<Longrightarrow> p \<noteq> [] \<Longrightarrow> line_ok p"
  by (auto simp: line_ok_def suffix_def butlast_append)

lemma line_ok_dropWhile: "line_ok p \<Longrightarrow> \<not> P NEWLINE \<Longrightarrow> line_ok (dropWhile P p)"
  by (induction p) (auto simp: line_ok_Cons split: if_splits)

lemma suffix_dropWhile': "suffix (dropWhile P p) p"
  using takeWhile_dropWhile_id [of P p] by (metis suffixI)

lemma readyD: "ready s \<Longrightarrow> line_ok (sc_cptr s)"
  by (auto simp: ready_def scan_ok_def intro: line_ok_suffix split: option.splits)

lemma ready_not_Nil: "ready s \<Longrightarrow> sc_cptr s \<noteq> []"
  using readyD [of s] by auto

lemma ready_cptr: "ready s \<Longrightarrow> suffix p (sc_cptr s) \<Longrightarrow> p \<noteq> [] \<Longrightarrow> ready (s\<lparr>sc_cptr := p\<rparr>)"
  by (auto simp: ready_def scan_ok_def intro: suffix_order.trans split: option.splits)

lemma ready_line_ok: "ready s \<Longrightarrow> suffix p (sc_cptr s) \<Longrightarrow> line_ok p \<Longrightarrow> ready (s\<lparr>sc_cptr := p\<rparr>)"
  by (rule ready_cptr) auto

lemma read_line_spec:
  assumes "read_line sz i c inp = (l, rest, eof, sz')"
  shows "line_ok l" "2 * length rest + length l \<le> 2 * Suc (length inp)"
    "l = takeWhile (\<lambda>d. d \<noteq> NEWLINE) (c # inp) @ [NEWLINE]"
    "rest = drop 1 (dropWhile (\<lambda>d. d \<noteq> NEWLINE) (c # inp))"
    "i < sz \<Longrightarrow> i + length l \<le> sz'"
proof -
  have "line_ok l \<and> 2 * length rest + length l \<le> 2 * Suc (length inp) \<and>
    l = takeWhile (\<lambda>d. d \<noteq> NEWLINE) (c # inp) @ [NEWLINE] \<and>
    rest = drop 1 (dropWhile (\<lambda>d. d \<noteq> NEWLINE) (c # inp)) \<and> (i < sz \<longrightarrow> i + length l \<le> sz')"
    using assms
  proof (induction sz i c inp arbitrary: l rest eof sz' rule: read_line.induct)
    case (1 sz i c)
    then show ?case by (auto simp: line_ok_Cons grow_line_def LINESIZE_def split: if_splits)
  next
    case (2 sz i c d inp)
    show ?case
    proof (cases "c = NEWLINE")
      case True
      with 2 show ?thesis by (auto simp: line_ok_Cons)
    next
      case False
      obtain l' where r: "read_line (grow_line sz (Suc i)) (Suc i) d inp = (l', rest, eof, sz')" "l = c # l'"
        using 2(2) False by (auto split: prod.splits)
      have "i < sz \<Longrightarrow> Suc i < grow_line sz (Suc i)" by (simp add: grow_line_def LINESIZE_def)
      with 2(1) [OF False r(1)] r(2) False show ?thesis by (auto simp: line_ok_Cons)
    qed
  qed
  then show "line_ok l" "2 * length rest + length l \<le> 2 * Suc (length inp)"
    "l = takeWhile (\<lambda>d. d \<noteq> NEWLINE) (c # inp) @ [NEWLINE]"
    "rest = drop 1 (dropWhile (\<lambda>d. d \<noteq> NEWLINE) (c # inp))"
    "i < sz \<Longrightarrow> i + length l \<le> sz'" by blast+
qed

lemma get_line_ok: "scan_ok (get_line s)"
  by (auto simp: get_line_def scan_ok_def dest: read_line_spec(1) split: prod.splits)

lemma get_line_ready: "sc_line (get_line s) \<noteq> None \<Longrightarrow> ready (get_line s)"
  by (simp add: ready_def get_line_ok)

lemma get_line_todo: "todo (get_line s) \<le> 2 * length (sc_input s)"
proof (cases "sc_input s")
  case (Cons c inp)
  then show ?thesis using read_line_spec(2) [of 101 0 c inp]
    by (auto simp: get_line_def todo_def LINESIZE_def split: prod.splits)
qed (simp add: get_line_def todo_def)

lemma get_line_le: "todo (get_line s) \<le> todo s"
  using get_line_todo [of s] by (simp add: todo_def)

lemma get_line_less: "sc_cptr s \<noteq> [] \<Longrightarrow> todo (get_line s) < todo s"
  using get_line_todo [of s] by (cases "sc_cptr s") (simp_all add: todo_def)

text \<open>
  \<^verbatim>\<open>get_line\<close> makes the next line of the input the current one, adds the newline a last line may
  lack, and has grown the buffer to hold it; at the end of the input there is no line.
\<close>

theorem get_line_correct:
  "if sc_eof s \<or> sc_input s = [] then sc_line (get_line s) = None \<and> sc_input (get_line s) = sc_input s
   else sc_line (get_line s) = Some (takeWhile (\<lambda>c. c \<noteq> NEWLINE) (sc_input s) @ [NEWLINE]) \<and>
     sc_cptr (get_line s) = takeWhile (\<lambda>c. c \<noteq> NEWLINE) (sc_input s) @ [NEWLINE] \<and>
     sc_input (get_line s) = drop 1 (dropWhile (\<lambda>c. c \<noteq> NEWLINE) (sc_input s)) \<and>
     sc_lineno (get_line s) = Suc (sc_lineno s) \<and>
     length (takeWhile (\<lambda>c. c \<noteq> NEWLINE) (sc_input s) @ [NEWLINE]) \<le> sc_linesize (get_line s)"
proof (cases "sc_eof s \<or> sc_input s = []")
  case True
  then show ?thesis by (simp add: get_line_def)
next
  case False
  then obtain c inp where i: "sc_input s = c # inp" by (cases "sc_input s") auto
  obtain l rest eof sz where r: "read_line (LINESIZE + 1) 0 c inp = (l, rest, eof, sz)"
    by (metis prod_cases4)
  have "0 + length l \<le> sz" by (rule read_line_spec(5) [OF r]) (simp add: LINESIZE_def)
  with read_line_spec(3,4) [OF r] False i r show ?thesis
    unfolding get_line_def by simp
qed

section \<open>What the scanning operations promise\<close>

text \<open>
  The rules for the operations: what holds before, and for which results and states the rest has to
  be right.  In each of them the amount of input left does not grow.
\<close>

lemma peek_wp: "ready s \<Longrightarrow> Q (hd (sc_cptr s)) s \<Longrightarrow> wp peek Q s"
  using ready_not_Nil [of s] by (auto simp: wp_def peek_def split: list.splits)

lemma advance_wp: "ready s \<Longrightarrow> Q () (s\<lparr>sc_cptr := tl (sc_cptr s)\<rparr>) \<Longrightarrow> wp advance Q s"
  using ready_not_Nil [of s] by (auto simp: wp_def advance_def split: list.splits)

lemma ready_tl: "ready s \<Longrightarrow> hd (sc_cptr s) \<noteq> NEWLINE \<Longrightarrow> ready (s\<lparr>sc_cptr := tl (sc_cptr s)\<rparr>)"
  using readyD [of s] by (cases "sc_cptr s") (auto simp: line_ok_Cons suffix_def intro!: ready_line_ok)

lemma todo_tl: "sc_cptr s \<noteq> [] \<Longrightarrow> todo (s\<lparr>sc_cptr := tl (sc_cptr s)\<rparr>) < todo s"
  by (cases "sc_cptr s") (simp_all add: todo_def)

lemma next_char_wp:
  assumes "ready s"
    and "\<And>c t. c = hd (sc_cptr s) \<Longrightarrow> t = s\<lparr>sc_cptr := tl (sc_cptr s)\<rparr> \<Longrightarrow> todo t < todo s \<Longrightarrow>
      (c \<noteq> NEWLINE \<Longrightarrow> ready t) \<Longrightarrow> Q c t"
  shows "wp next_char Q s"
  unfolding next_char_def wp_simps
  by (intro peek_wp advance_wp assms(1)) (simp add: assms todo_tl ready_not_Nil ready_tl)

lemma set_cptr_wp [wp_simps]: "wp (set_cptr p) Q = (\<lambda>s. Q () (s\<lparr>sc_cptr := p\<rparr>))"
  by (simp add: set_cptr_def wp_simps)

lemma here_wp [wp_simps]: "wp here Q = (\<lambda>s. Q (pos_at (sc_cptr s) s) s)"
  by (simp add: here_def wp_simps)

lemma with_fuel_wp [wp_simps]: "wp (with_fuel f) Q = (\<lambda>s. wp (f (Suc (todo s))) Q s)"
  by (simp add: with_fuel_def wp_simps)

lemma next_line_wp:
  assumes "user_error e"
    and "\<And>t. ready t \<Longrightarrow> todo t \<le> 2 * length (sc_input s) \<Longrightarrow> Q () t"
  shows "wp (next_line e) Q s"
  unfolding next_line_def wp_simps
  using assms get_line_ready [of s] get_line_todo [of s] by simp

lemma comment_loop_wp:
  assumes "2 * length (sc_input s) + length p < k" "sc_line s \<noteq> None" "ready (s\<lparr>sc_cptr := p\<rparr>)"
    and "\<And>t. ready t \<Longrightarrow> todo t \<le> 2 * length (sc_input s) + length p \<Longrightarrow> Q () t"
  shows "wp (comment_loop k st p) Q s"
  using assms
proof (induction k arbitrary: s p)
  case (Suc k)
  from Suc.prems(3) have l: "line_ok p" by (auto dest: readyD)
  then obtain c r where p: "p = c # r" by (cases p) auto
  have rr: "ready (s\<lparr>sc_cptr := r\<rparr>)" if "c \<noteq> NEWLINE"
    using ready_tl [OF Suc.prems(3)] that p by simp
  consider (stop) "c = CHR ''*''" "r \<noteq> []" "hd r = CHR ''/''" | (line) "c = NEWLINE"
    | (step) "c \<noteq> NEWLINE" "\<not> (c = CHR ''*'' \<and> r \<noteq> [] \<and> hd r = CHR ''/'')" by blast
  then show ?case
  proof cases
    case stop
    then have "ready (s\<lparr>sc_cptr := tl r\<rparr>)" using ready_tl [OF rr] by (simp add: char_defs)
    then show ?thesis using stop p Suc.prems(4) by (simp add: wp_simps todo_def)
  next
    case line
    have "wp (comment_loop (Suc k) st p) Q s \<longleftrightarrow>
        wp (next_line (Unterminated_comment st)) (\<lambda>_ t. wp (comment_loop k st (sc_cptr t)) Q t) s"
      using line p by (simp add: wp_simps char_defs)
    also have "\<dots>"
    proof (rule next_line_wp)
      fix t assume t: "ready t" "todo t \<le> 2 * length (sc_input s)"
      show "wp (comment_loop k st (sc_cptr t)) Q t"
        by (rule Suc.IH) (use t Suc.prems(1,4) p in \<open>auto simp: todo_def ready_def\<close>)
    qed simp
    finally show ?thesis .
  next
    case step
    have "wp (comment_loop k st r) Q s"
      using Suc.prems(1,2,4) p rr [OF step(1)] by (intro Suc.IH) auto
    with step p show ?thesis by auto
  qed
qed simp

lemma skip_comment_wp:
  assumes "ready s" "take 2 (sc_cptr s) = ''/*''"
    and "\<And>t. ready t \<Longrightarrow> todo t < todo s \<Longrightarrow> Q () t"
  shows "wp skip_comment Q s"
proof -
  obtain p where p: "sc_cptr s = CHR ''/'' # CHR ''*'' # p"
    using assms(2) by (cases "sc_cptr s"; cases "tl (sc_cptr s)") auto
  have r: "ready (s\<lparr>sc_cptr := p\<rparr>)"
    using ready_tl [OF ready_tl [OF assms(1)]] p by (simp add: char_defs)
  have "wp (comment_loop (Suc (todo s)) (pos_at (sc_cptr s) s) p) Q s"
  proof (rule comment_loop_wp [OF _ _ r])
    show "Q () t" if "ready t" "todo t \<le> 2 * length (sc_input s) + length p" for t
      using that p by (intro assms(3)) (simp_all add: todo_def)
  qed (use assms(1) p in \<open>auto simp: ready_def todo_def\<close>)
  then show ?thesis using p by (simp add: skip_comment_def wp_simps)
qed

text \<open>What \<^verbatim>\<open>nextc\<close> returns: nothing at the end, otherwise the character at \<^verbatim>\<open>cptr\<close>, \<^verbatim>\<open>%\<close> for a backslash.\<close>

definition nextc_post :: "char option \<Rightarrow> scanner \<Rightarrow> bool" where
  "nextc_post r t \<longleftrightarrow>
     (case sc_line t of None \<Rightarrow> r = None \<and> scan_ok t
      | Some l \<Rightarrow> ready t \<and> \<not> skipped (hd (sc_cptr t)) \<and> hd (sc_cptr t) \<noteq> NEWLINE \<and>
          r = (if hd (sc_cptr t) = BACKSLASH then Some (CHR ''%'') else char_int (hd (sc_cptr t))))"

lemma nextc_loop_wp:
  assumes "2 * length (sc_input s) + length p < k" "sc_line s \<noteq> None" "ready (s\<lparr>sc_cptr := p\<rparr>)"
    and "\<And>r t. nextc_post r t \<Longrightarrow> todo t \<le> 2 * length (sc_input s) + length p \<Longrightarrow> Q r t"
  shows "wp (nextc_loop k p) Q s"
  using assms
proof (induction k arbitrary: s p)
  case (Suc k)
  from Suc.prems(3) have l: "line_ok p" by (auto dest: readyD)
  then obtain c r where p: "p = c # r" by (cases p) auto
  have rr: "ready (s\<lparr>sc_cptr := r\<rparr>)" if "c \<noteq> NEWLINE"
    using ready_tl [OF Suc.prems(3)] that p by simp
  have line: "wp (bind (gets sc_line) (\<lambda>l. if l = None then return None else bind (gets sc_cptr) (nextc_loop k))) Q (get_line s)"
  proof (cases "sc_line (get_line s)")
    case None
    then have "nextc_post None (get_line s)" by (simp add: nextc_post_def get_line_ok)
    then show ?thesis using None Suc.prems(4) get_line_todo [of s] by (simp add: wp_simps)
  next
    case (Some l)
    have "wp (nextc_loop k (sc_cptr (get_line s))) Q (get_line s)"
      by (rule Suc.IH)
        (use Suc.prems(1,4) p get_line_todo [of s] get_line_ready [of s] Some in \<open>auto simp: todo_def\<close>)
    with Some show ?thesis by (simp add: wp_simps)
  qed
  have stop: "nextc_post (if c = BACKSLASH then Some (CHR ''%'') else char_int c) (s\<lparr>sc_cptr := p\<rparr>)"
    if "c \<noteq> NEWLINE" "\<not> skipped c"
    using that Suc.prems(2,3) p by (auto simp: nextc_post_def)
  consider "c = NEWLINE" | "c \<noteq> NEWLINE" "skipped c" | "c = BACKSLASH" "\<not> skipped c" "c \<noteq> NEWLINE"
    | "c = CHR ''/''" "r \<noteq> []" "hd r = CHR ''*''" "\<not> skipped c" "c \<noteq> NEWLINE"
    | "c = CHR ''/''" "r \<noteq> []" "hd r = CHR ''/''" "\<not> skipped c" "c \<noteq> NEWLINE"
    | "c \<noteq> NEWLINE" "\<not> skipped c" "c \<noteq> BACKSLASH" "\<not> (c = CHR ''/'' \<and> r \<noteq> [] \<and> (hd r = CHR ''*'' \<or> hd r = CHR ''/''))"
    by blast
  then show ?case
  proof cases
    case 1
    with line p show ?thesis by (simp add: wp_simps)
  next
    case 2
    have "wp (nextc_loop k r) Q s" using Suc.prems(1,2,4) p rr [OF 2(1)] by (intro Suc.IH) auto
    with 2 p show ?thesis by simp
  next
    case 3
    with stop have "Q (Some (CHR ''%'')) (s\<lparr>sc_cptr := p\<rparr>)" by (intro Suc.prems(4)) (auto simp: todo_def)
    with 3 p show ?thesis by (simp add: wp_simps)
  next
    case 4
    have "wp skip_comment (\<lambda>_ t. wp (nextc_loop k (sc_cptr t)) Q t) (s\<lparr>sc_cptr := p\<rparr>)"
    proof (rule skip_comment_wp [OF Suc.prems(3)])
      show "take 2 (sc_cptr (s\<lparr>sc_cptr := p\<rparr>)) = ''/*''" using 4 p by (cases r) auto
      fix t assume t: "ready t" "todo t < todo (s\<lparr>sc_cptr := p\<rparr>)"
      show "wp (nextc_loop k (sc_cptr t)) Q t"
        by (rule Suc.IH) (use t Suc.prems(1,4) p in \<open>auto simp: todo_def ready_def\<close>)
    qed
    with 4 p show ?thesis by (simp add: wp_simps char_defs)
  next
    case 5
    with line p show ?thesis by (simp add: wp_simps char_defs)
  next
    case 6
    with stop have "Q (char_int c) (s\<lparr>sc_cptr := p\<rparr>)" by (intro Suc.prems(4)) (auto simp: todo_def)
    with 6 p show ?thesis by (auto simp: wp_simps)
  qed
qed simp

lemma nextc_wp:
  assumes "scan_ok s" "\<And>r t. nextc_post r t \<Longrightarrow> todo t \<le> todo s \<Longrightarrow> Q r t"
  shows "wp nextc Q s"
proof (cases "sc_line s")
  case (Some l)
  with assms(1) have r: "ready s" by (simp add: ready_def)
  have "wp (nextc_loop (Suc (todo s)) (sc_cptr s)) Q s"
    by (rule nextc_loop_wp) (use Some r assms(2) in \<open>auto simp: todo_def\<close>)
  with Some show ?thesis by (simp add: nextc_def wp_simps)
next
  case None
  show ?thesis
  proof (cases "sc_line (get_line s)")
    case None': None
    then have "nextc_post None (get_line s)" by (simp add: nextc_post_def get_line_ok)
    then show ?thesis using None None' assms(2) get_line_le [of s] by (simp add: nextc_def wp_simps)
  next
    case (Some l)
    have "wp (nextc_loop (Suc (todo (get_line s))) (sc_cptr (get_line s))) Q (get_line s)"
      by (rule nextc_loop_wp)
        (use Some get_line_ready [of s] get_line_le [of s] assms(2) in \<open>auto simp: todo_def\<close>)
    with None Some show ?thesis by (simp add: nextc_def wp_simps)
  qed
qed

lemma ready_dropWhile:
  "\<not> P NEWLINE \<Longrightarrow> ready s \<Longrightarrow> ready (s\<lparr>sc_cptr := dropWhile P (sc_cptr s)\<rparr>)"
  by (intro ready_line_ok suffix_dropWhile' line_ok_dropWhile readyD)

lemma todo_dropWhile: "todo (s\<lparr>sc_cptr := dropWhile P (sc_cptr s)\<rparr>) \<le> todo s"
  by (simp add: todo_def length_dropWhile_le)

lemma todo_dropWhile_less:
  "P (hd (sc_cptr s)) \<Longrightarrow> sc_cptr s \<noteq> [] \<Longrightarrow> todo (s\<lparr>sc_cptr := dropWhile P (sc_cptr s)\<rparr>) < todo s"
  by (cases "sc_cptr s") (simp_all add: todo_def length_dropWhile_le less_Suc_eq_le)

lemma not_ident_newline [simp]: "\<not> IS_IDENT NEWLINE" "\<not> isalpha NEWLINE" "\<not> isdigit NEWLINE"
  by (simp_all add: ctype_defs)

lemma keyword_wp:
  assumes r: "ready s" and n: "hd (sc_cptr s) \<noteq> NEWLINE"
    and Q: "\<And>k t. ready t \<Longrightarrow> todo t < todo s \<Longrightarrow> Q k t"
  shows "wp keyword Q s"
proof -
  let ?s = "s\<lparr>sc_cptr := tl (sc_cptr s)\<rparr>"
  have r': "ready ?s" by (rule ready_tl [OF r n])
  have t': "todo ?s < todo s" by (rule todo_tl [OF ready_not_Nil [OF r]])
  have alpha: "Q k (s\<lparr>sc_cptr := dropWhile IS_IDENT (tl (sc_cptr s))\<rparr>)" for k
    using ready_dropWhile [OF _ r', of IS_IDENT] todo_dropWhile [of IS_IDENT ?s] t' by (intro Q) auto
  have other: "Q k (s\<lparr>sc_cptr := tl (tl (sc_cptr s))\<rparr>)" if "hd (tl (sc_cptr s)) \<noteq> NEWLINE" for k
    using ready_tl [OF r'] todo_tl [of ?s] ready_not_Nil [OF r'] t' that by (intro Q) auto
  show ?thesis
    unfolding keyword_def wp_simps
    by (intro advance_wp peek_wp r r')
      (auto simp: wp_simps Let_def alpha char_defs intro!: advance_wp r' other)
qed

lemma number_chars_ok: "line_ok p \<Longrightarrow> number_chars n p = (m, q) \<Longrightarrow> line_ok q \<and> suffix q p"
proof (induction n p rule: number_chars.induct)
  case (2 n c s)
  then show ?case by (cases "isdigit c") (auto simp: line_ok_Cons intro: suffix_ConsI split: if_splits)
qed simp

lemma get_number_wp:
  assumes "ready s" "\<And>n t. ready t \<Longrightarrow> todo t \<le> todo s \<Longrightarrow> (isdigit (hd (sc_cptr s)) \<Longrightarrow> todo t < todo s) \<Longrightarrow> Q n t"
  shows "wp get_number Q s"
proof -
  obtain n p where n: "number_chars 0 (sc_cptr s) = (n, p)" by force
  have p: "line_ok p" "suffix p (sc_cptr s)" using number_chars_ok [OF readyD [OF assms(1)] n] by auto
  have "length p \<le> length (tl (sc_cptr s))" if d: "isdigit (hd (sc_cptr s))"
    using n d number_chars_length ready_not_Nil [OF assms(1)] by (cases "sc_cptr s") auto
  then have "Q n (s\<lparr>sc_cptr := p\<rparr>)"
    using p number_chars_length [OF n] ready_not_Nil [OF assms(1)]
    by (intro assms(2) ready_line_ok [OF assms(1)]) (cases "sc_cptr s"; auto simp: todo_def)+
  then show ?thesis by (simp add: get_number_def wp_simps n)
qed

lemma name_chars_wp:
  assumes "ready s"
    and "\<And>t. ready t \<Longrightarrow> todo t \<le> todo s \<Longrightarrow> (IS_IDENT (hd (sc_cptr s)) \<Longrightarrow> todo t < todo s) \<Longrightarrow>
      Q (takeWhile IS_IDENT (sc_cptr s)) t"
  shows "wp name_chars Q s"
  unfolding name_chars_def wp_simps
  by (rule assms(2))
    (simp_all add: ready_dropWhile assms(1) todo_dropWhile todo_dropWhile_less ready_not_Nil)

lemma octal_escape_ok:
  assumes "line_ok p"
  shows "line_ok (snd (octal_escape n p)) \<and> suffix (snd (octal_escape n p)) p"
proof -
  have o: "\<not> IS_OCTAL NEWLINE" by (simp add: ctype_defs)
  obtain c r where p: "p = c # r" using assms(1) by (cases p) auto
  have c: "line_ok r" if "IS_OCTAL c" using that assms(1) p o by (auto simp: line_ok_Cons split: if_splits)
  have "line_ok (tl r) \<and> suffix (tl r) p" if "IS_OCTAL c" "r \<noteq> []" "IS_OCTAL (hd r)"
    using that c p o by (cases r) (auto simp: line_ok_Cons suffix_def split: if_splits)
  then show ?thesis using assms p c by (auto simp: octal_escape_def Let_def suffix_def split: if_splits)
qed

lemma hex_escape_ok:
  "line_ok p \<Longrightarrow> fst (hex_escape n p) \<noteq> None \<Longrightarrow>
   line_ok (snd (hex_escape n p)) \<and> suffix (snd (hex_escape n p)) p"
proof (induction n p rule: hex_escape.induct)
  case (2 n c p)
  have "hexval NEWLINE = None" by (simp add: hexval_def char_defs)
  with 2 show ?case by (auto simp: line_ok_Cons intro: suffix_ConsI split: option.splits if_splits)
qed simp

lemma take_escape_wp:
  assumes "line_ok p \<Longrightarrow> fst np \<noteq> None \<Longrightarrow> line_ok (snd np) \<and> suffix (snd np) p" "ready s" "p = sc_cptr s"
    and "\<And>e q. ready (s\<lparr>sc_cptr := q\<rparr>) \<Longrightarrow> length q \<le> length (sc_cptr s) \<Longrightarrow> Q e (s\<lparr>sc_cptr := q\<rparr>)"
  shows "wp (take_escape cp np) Q s"
  using assms readyD [OF assms(2)] ready_line_ok [OF assms(2), of "snd np"]
  by (auto simp: take_escape_def wp_simps suffix_def split: option.splits)

lemma literal_escape_wp:
  assumes r: "ready s" and Q: "\<And>e t. ready t \<Longrightarrow> todo t < todo s \<Longrightarrow> Q e t"
  shows "wp (bind next_char (literal_escape st cp)) Q s"
  unfolding wp_bind
proof (rule next_char_wp [OF r])
  fix c t assume less: "todo t < todo s" and rt: "c \<noteq> NEWLINE \<Longrightarrow> ready t"
  consider "c = NEWLINE" | "c \<noteq> NEWLINE" "IS_OCTAL c" | "c \<noteq> NEWLINE" "\<not> IS_OCTAL c" "c = CHR ''x''"
    | "c \<noteq> NEWLINE" "\<not> IS_OCTAL c" "c \<noteq> CHR ''x''" by blast
  then show "wp (literal_escape st cp c) Q t"
  proof cases
    case 1
    have "wp (next_line (Unterminated_string st)) (\<lambda>_. Q None) t"
      by (rule next_line_wp) (use less Q in \<open>auto simp: todo_def\<close>)
    with 1 show ?thesis by (simp add: literal_escape_def wp_simps)
  next
    case 2
    have "wp (take_escape cp (octal_escape (code c - 48) (sc_cptr t))) Q t"
      by (rule take_escape_wp [OF _ rt [OF 2(1)] refl])
        (use octal_escape_ok less Q in \<open>auto simp: todo_def\<close>)
    with 2 show ?thesis by (simp add: literal_escape_def wp_simps)
  next
    case 3
    have "wp next_char (\<lambda>d. wp (case hexval d of None \<Rightarrow> throw (Illegal_character cp)
        | Some n \<Rightarrow> bind (gets (hex_escape n \<circ> sc_cptr)) (take_escape cp)) Q) t"
    proof (rule next_char_wp [OF rt [OF 3(1)]])
      fix d u assume u: "todo u < todo t" "d \<noteq> NEWLINE \<Longrightarrow> ready u"
      have n: "hexval NEWLINE = None" by (simp add: hexval_def char_defs)
      have "wp (take_escape cp (hex_escape n (sc_cptr u))) Q u" if "d \<noteq> NEWLINE" for n
        by (rule take_escape_wp [OF _ u(2) [OF that] refl])
          (use hex_escape_ok u(1) less Q in \<open>auto simp: todo_def prod_eq_iff\<close>)
      with n show "wp (case hexval d of None \<Rightarrow> throw (Illegal_character cp)
        | Some n \<Rightarrow> bind (gets (hex_escape n \<circ> sc_cptr)) (take_escape cp)) Q u"
        by (cases "d = NEWLINE") (auto simp: wp_simps split: option.splits)
    qed
    with 3 show ?thesis by (simp add: literal_escape_def wp_simps)
  next
    case 4
    with Q [OF rt [OF 4(1)] less] show ?thesis by (simp add: literal_escape_def wp_simps)
  qed
qed

lemma literal_loop_wp:
  assumes "ready s" "todo s < k" "quote \<noteq> NEWLINE"
    and "\<And>cache t. ready t \<Longrightarrow> todo t < todo s \<Longrightarrow> Q cache t"
  shows "wp (literal_loop k st quote cache) Q s"
  using assms
proof (induction k arbitrary: s cache)
  case (Suc k)
  have IH: "wp (literal_loop k st quote cache) Q t" if "ready t" "todo t < todo s" for cache t
    by (rule Suc.IH) (use that Suc.prems in auto)
  show ?case
    unfolding literal_loop.simps wp_bind [of "gets (\<lambda>s. pos_at (sc_cptr s) s)"] wp_basic wp_bind [of next_char]
  proof (rule next_char_wp [OF Suc.prems(1)])
    fix c t assume t: "todo t < todo s" "c \<noteq> NEWLINE \<Longrightarrow> ready t"
    have esc: "wp (bind next_char (literal_escape st cp)) (\<lambda>e. wp (case e of None \<Rightarrow> literal_loop k st quote cache
        | Some c \<Rightarrow> literal_loop k st quote (cache @ [c])) Q) t" if "c \<noteq> NEWLINE" for cp
      by (rule literal_escape_wp [OF t(2) [OF that]]) (use IH t in \<open>auto simp: wp_simps split: option.splits\<close>)
    then show "wp (if c = quote then return cache
       else if c = NEWLINE then throw (Unterminated_string st)
       else if c = BACKSLASH then
         bind (bind next_char (literal_escape st (pos_at (sc_cptr s) s))) (\<lambda>e. case e of
             None \<Rightarrow> literal_loop k st quote cache
           | Some c \<Rightarrow> literal_loop k st quote (cache @ [c]))
       else literal_loop k st quote (cache @ [c])) Q t"
      using IH t Suc.prems(3,4) by (auto simp: wp_basic wp_bind [of "bind next_char _"])
  qed
qed simp

lemma literal_chars_wp:
  assumes "ready s" "hd (sc_cptr s) \<noteq> NEWLINE"
    and "\<And>cache t. ready t \<Longrightarrow> todo t < todo s \<Longrightarrow> Q cache t"
  shows "wp literal_chars Q s"
  unfolding literal_chars_def wp_simps
proof (rule next_char_wp [OF assms(1)])
  fix c t assume c: "c = hd (sc_cptr s)" "todo t < todo s" "c \<noteq> NEWLINE \<Longrightarrow> ready t"
  show "wp (literal_loop (Suc (todo t)) (pos_at (sc_cptr s) s) c []) Q t"
    by (rule literal_loop_wp) (use c assms(2,3) in auto)
qed

section \<open>Literals and their names\<close>

declare literal_loop.simps [simp del]

lemma next_char_eq: "next_char (s\<lparr>sc_cptr := c # r\<rparr>) = Inr (c, s\<lparr>sc_cptr := r\<rparr>)"
  by (simp add: next_char_def bind_def andThen_def peek_def advance_def return_def)

lemmas run_simps = bind_def andThen_def return_def gets_def modify_def throw_def set_cptr_def

lemma char_code_cases:
  fixes c :: char
  assumes "\<And>n. n < 256 \<Longrightarrow> P (char_of (n::nat))"
  shows "P c"
  using assms [of "code c"] by simp

lemma octal_digit_code: "code (octal_digit n) = n mod 8 + 48" "IS_OCTAL (octal_digit n)" "octal_digit n \<noteq> NEWLINE"
proof -
  show c: "code (octal_digit n) = n mod 8 + 48" by (simp add: octal_digit_def)
  then show "IS_OCTAL (octal_digit n)" by (simp add: IS_OCTAL_def)
  from c show "octal_digit n \<noteq> NEWLINE" by (auto simp: NEWLINE_def)
qed

lemma octal_escape_back:
  assumes "n < 256"
  shows "octal_escape (n div 64 mod 8) (octal_digit (n div 8) # octal_digit n # r) = (Some n, r)"
proof -
  have "n div 8 div 8 = n div 64" by (simp add: div_mult2_eq [symmetric])
  moreover have "n div 64 mod 8 = n div 64" using assms by simp
  ultimately have n: "n div 64 mod 8 * 64 + n div 8 mod 8 * 8 + n mod 8 = n"
    using mult_div_mod_eq [of 8 n] mult_div_mod_eq [of 8 "n div 8"] by linarith
  then show ?thesis using assms
    by (simp add: octal_escape_def octal_digit_code MAXCHAR_def Let_def algebra_simps)
qed

lemma literal_loop_char:
  assumes q: "q = QUOTE \<or> q = DOUBLE_QUOTE"
  shows "literal_loop (Suc k) st q cache (s\<lparr>sc_cptr := quote_char q c @ r\<rparr>) =
    literal_loop k st q (cache @ [c]) (s\<lparr>sc_cptr := r\<rparr>)"
proof -
  have loop: "literal_loop (Suc k) st q cache (s\<lparr>sc_cptr := BACKSLASH # d # p\<rparr>) =
      literal_loop k st q (cache @ [e]) (s\<lparr>sc_cptr := r\<rparr>)"
    if "\<And>cp. literal_escape st cp d (s\<lparr>sc_cptr := p\<rparr>) = Inr (Some e, s\<lparr>sc_cptr := r\<rparr>)" for d p e
  proof -
    have "BACKSLASH \<noteq> q" "BACKSLASH \<noteq> NEWLINE" using q by (auto simp: char_defs)
    then show ?thesis by (simp add: literal_loop.simps(2) bind_def gets_def next_char_eq that)
  qed
  have pq: "isprint BACKSLASH" "isprint q" using q by (auto simp: isprint_def char_defs)
  consider "c = BACKSLASH \<or> c = q" | "c \<noteq> BACKSLASH" "c \<noteq> q" "isprint c"
    | "\<not> isprint c" "code c = 7 \<or> c \<in> {BS, FF, NEWLINE, CR, HT, VT}"
    | "\<not> isprint c" "code c \<noteq> 7" "c \<notin> {BS, FF, NEWLINE, CR, HT, VT}" by blast
  then show ?thesis
  proof cases
    case 1
    with q have "c \<in> {BACKSLASH, QUOTE, DOUBLE_QUOTE}" by blast
    then have "c \<noteq> NEWLINE" "\<not> IS_OCTAL c" "c \<noteq> CHR ''x''" "letter_escape c = c"
      unfolding letter_escape_def IS_OCTAL_def char_defs by auto
    then have "literal_escape st cp c (s\<lparr>sc_cptr := r\<rparr>) = Inr (Some c, s\<lparr>sc_cptr := r\<rparr>)" for cp
      by (simp add: literal_escape_def return_def)
    from loop [OF this] 1 show ?thesis by (simp add: quote_char_def)
  next
    case 2
    then have "c \<noteq> NEWLINE" by (auto simp: isprint_def NEWLINE_def)
    with 2 show ?thesis by (simp add: literal_loop.simps(2) quote_char_def run_simps next_char_eq)
  next
    case 3
    then have np: "c \<noteq> BACKSLASH" "c \<noteq> q" using pq by blast+
    have "c = char_of (7::nat)" if "code c = 7" using that by (metis char_of_char)
    with 3(2) obtain d where d: "quote_char q c = [BACKSLASH, d]" "letter_escape d = c"
      "d \<noteq> NEWLINE" "\<not> IS_OCTAL d" "d \<noteq> CHR ''x''"
      using np 3(1) by (auto simp: quote_char_def letter_escape_def IS_OCTAL_def char_defs)
    then have "literal_escape st cp d (s\<lparr>sc_cptr := r\<rparr>) = Inr (Some c, s\<lparr>sc_cptr := r\<rparr>)" for cp
      by (simp add: literal_escape_def return_def)
    from loop [OF this] d(1) show ?thesis by simp
  next
    case 4
    then have np: "c \<noteq> BACKSLASH" "c \<noteq> q" using pq by blast+
    let ?d = "octal_digit (code c div 64)" and ?p = "octal_digit (code c div 8) # octal_digit (code c) # r"
    have "code ?d - 48 = code c div 64 mod 8" by (simp add: octal_digit_code)
    then have "literal_escape st cp ?d (s\<lparr>sc_cptr := ?p\<rparr>) = Inr (Some c, s\<lparr>sc_cptr := r\<rparr>)" for cp
      using octal_escape_back [of "code c" r]
      by (simp add: literal_escape_def take_escape_def run_simps octal_digit_code)
    from loop [OF this] 4 np show ?thesis by (simp add: quote_char_def)
  qed
qed

lemma literal_loop_quoted:
  assumes q: "q = QUOTE \<or> q = DOUBLE_QUOTE" and k: "length w < k"
  shows "literal_loop k st q cache (s\<lparr>sc_cptr := concat (map (quote_char q) w) @ q # r\<rparr>) =
    Inr (cache @ w, s\<lparr>sc_cptr := r\<rparr>)"
  using k
proof (induction w arbitrary: k cache)
  case Nil
  then obtain k' where "k = Suc k'" by (cases k) auto
  then show ?case by (simp add: literal_loop.simps(2) run_simps next_char_eq)
next
  case (Cons c w)
  then obtain k' where "k = Suc k'" "length w < k'" by (cases k) auto
  with Cons.IH [of k' "cache @ [c]"] show ?case
    using literal_loop_char [OF q, where r = "concat (map (quote_char q) w) @ q # r"]
    by simp
qed

lemma quote_char_length: "1 \<le> length (quote_char q c)"
  by (simp add: quote_char_def)

lemma quoted_length: "length w \<le> length (concat (map (quote_char q) w))"
proof (induction w)
  case (Cons c w)
  then show ?case using quote_char_length [of q c] by simp
qed simp

text \<open>
  C39: The name under which \<^verbatim>\<open>get_literal\<close> enters a literal in the symbol table is itself a literal, and
  reading it back gives the characters it was made from; so two literals share a name only if they
  have the same characters.
\<close>

theorem literal_roundtrip:
  "literal_chars (s\<lparr>sc_cptr := quote_literal w @ r\<rparr>) = Inr (w, s\<lparr>sc_cptr := r\<rparr>)"
proof -
  let ?q = "if length w = 1 then QUOTE else DOUBLE_QUOTE"
  have q: "?q = QUOTE \<or> ?q = DOUBLE_QUOTE" by simp
  have "length w < Suc (todo (s\<lparr>sc_cptr := concat (map (quote_char ?q) w) @ ?q # r\<rparr>))"
    using quoted_length [of w ?q] by (simp add: todo_def)
  from literal_loop_quoted [OF q this, of _ "[]" r s] show ?thesis
    by (simp add: literal_chars_def here_def with_fuel_def run_simps quote_literal_def Let_def
        next_char_eq)
qed

text \<open>
  \<^verbatim>\<open>get_number\<close> reads back any \<^verbatim>\<open>int\<close> that \<^verbatim>\<open>%d\<close> printed, up to the first character that is no digit.
\<close>

theorem get_number_roundtrip:
  assumes "n \<le> 2147483647" "r = [] \<or> \<not> isdigit (hd r)"
  shows "get_number (s\<lparr>sc_cptr := show_nat n @ r\<rparr>) = Inr (int n, s\<lparr>sc_cptr := r\<rparr>)"
  using number_roundtrip [of n r] assms by (simp add: get_number_def run_simps)

theorem get_number_roundtrip_witness:
  "get_number ((open_input [])\<lparr>sc_cptr := show_nat 2024 @ ''>''\<rparr>) = Inr (2024, (open_input [])\<lparr>sc_cptr := ''>''\<rparr>)"
  using get_number_roundtrip [of 2024 "''>''" "open_input []"] by (simp add: isdigit_def)

end
