(* ===== verification/Declarations.thy ===== *)
theory Declarations
  imports Symtab Scanner
begin

text \<open>
  The first section of a grammar file, \<^verbatim>\<open>read_declarations\<close> of \<^verbatim>\<open>jay/reader.c\<close>: the state of the reader,
  names, literals and tags, the copying of program text and the declarations.  The rules at the end
  show that every operation ends with a message or keeps the symbol table in order
  (\<open>sym_inv\<close>), and that it reads on; the fuel of each loop is the input that is left.
\<close>

section \<open>The state of the reader\<close>

datatype warning =
    Retyped nat string
  | Reprec nat string
  | Revalued nat string
  | Restarted nat
  | Prec_redeclared nat
  | Dollar_warning nat int
  | Untyped_lhs nat
  | Untyped_rhs nat int string
  | Default_action nat
  | Undefined_symbol string

record reader_state =
  rd_scan :: scanner
  rd_file :: string
  rd_syms :: symtab
  rd_tags :: "string list"
  rd_goal :: "nat option"
  rd_prec :: int
  rd_gensym :: nat
  rd_last_was_action :: bool
  rd_pitem :: "nat option list"
  rd_maxitems :: nat
  rd_plhs :: "nat option list"
  rd_nrules :: nat
  rd_maxrules :: nat
  rd_rprec :: "int list"
  rd_rassoc :: "nat list"
  rd_action :: string
  rd_prolog :: string
  rd_local :: string
  rd_warnings :: "warning list"

definition scan :: "(scanner, 'a) reads \<Rightarrow> (reader_state, 'a) reads" where
  "scan = zoom rd_scan (\<lambda>sc s. s\<lparr>rd_scan := sc\<rparr>)"

definition lineno :: "(reader_state, nat) reads" where
  "lineno = gets (sc_lineno \<circ> rd_scan)"

definition warn :: "(nat \<Rightarrow> warning) \<Rightarrow> (reader_state, unit) reads" where
  "warn w = modify (\<lambda>s. s\<lparr>rd_warnings := rd_warnings s @ [w (sc_lineno (rd_scan s))]\<rparr>)"

text \<open>The bucket a pointer points to, and an assignment to its fields.\<close>

definition bucket_at :: "nat \<Rightarrow> (reader_state, bucket) reads" where
  "bucket_at b = gets (\<lambda>s. st_buckets (rd_syms s) ! b)"

definition set_bucket :: "nat \<Rightarrow> (bucket \<Rightarrow> bucket) \<Rightarrow> (reader_state, unit) reads" where
  "set_bucket b f = modify (\<lambda>s. s\<lparr>rd_syms := upd_bucket b f (rd_syms s)\<rparr>)"

definition find_symbol :: "string \<Rightarrow> (reader_state, nat) reads" where
  "find_symbol name = (\<lambda>s. case lookup name (rd_syms s) of
     Inl e \<Rightarrow> Inl (Internal e) | Inr (b, st) \<Rightarrow> Inr (b, s\<lparr>rd_syms := st\<rparr>))"

definition unless :: "bool \<Rightarrow> (reader_state, unit) reads \<Rightarrow> (reader_state, unit) reads" where
  "unless b m = (if b then return () else m)"

definition reader_fuel :: "(nat \<Rightarrow> (reader_state, 'a) reads) \<Rightarrow> (reader_state, 'a) reads" where
  "reader_fuel f = bind (gets (\<lambda>s. Suc (todo (rd_scan s)))) f"

text \<open>\<^verbatim>\<open>c = nextc(); if (c == EOF) unexpected_EOF()\<close>, and \<^verbatim>\<open>syntax_error(lineno, line, cptr)\<close>.\<close>

definition nextc_EOF :: "(reader_state, char) reads" where
  "nextc_EOF = bind (scan nextc) (\<lambda>c. case c of
     None \<Rightarrow> bind lineno (\<lambda>n. throw (Unexpected_EOF n)) | Some c \<Rightarrow> return c)"

definition syntax_error :: "(reader_state, 'a) reads" where
  "syntax_error = bind (scan here) (\<lambda>p. throw (Syntax_error p))"

section \<open>Names, literals and tags\<close>

definition get_literal :: "(reader_state, nat) reads" where
  "get_literal =
     bind (scan literal_chars) (\<lambda>s.
     bind (find_symbol (quote_literal s)) (\<lambda>bp.
     andThen (set_bucket bp (\<lambda>b. b\<lparr>b_class := Term,
         b_value := if length s = 1 \<and> b_value b = UNDEFINED then int (code (hd s)) else b_value b\<rparr>))
       (return bp)))"

definition get_name :: "(reader_state, nat) reads" where
  "get_name =
     bind (scan name_chars) (\<lambda>name.
       if is_reserved name then bind lineno (\<lambda>n. throw (Used_reserved n name)) else find_symbol name)"

definition name_start :: "char option \<Rightarrow> bool" where
  "name_start c = (case c of None \<Rightarrow> False
     | Some c \<Rightarrow> isalpha c \<or> c = CHR ''_'' \<or> c = CHR ''.'' \<or> c = CHR ''$'')"

definition literal_start :: "char option \<Rightarrow> bool" where
  "literal_start c \<longleftrightarrow> c = Some QUOTE \<or> c = Some DOUBLE_QUOTE"

text \<open>The symbol that begins with \<open>c\<close>; the code has these tests in three places.\<close>

definition get_symbol :: "char option \<Rightarrow> (reader_state, nat option) reads" where
  "get_symbol c =
     (if name_start c then bind get_name (\<lambda>b. return (Some b))
      else if literal_start c then bind get_literal (\<lambda>b. return (Some b))
      else return None)"

text \<open>\<open>None\<close> is the empty tag \<^verbatim>\<open><>\<close>.  Tags are compared as pointers into \<^verbatim>\<open>tag_table\<close>, which has each once.\<close>

definition enter_tag :: "string \<Rightarrow> (reader_state, string option) reads" where
  "enter_tag cache =
     bind (gets rd_tags) (\<lambda>tags.
       andThen (if cache \<in> set tags then return () else modify (\<lambda>s. s\<lparr>rd_tags := tags @ [cache]\<rparr>))
         (return (Some cache)))"

definition close_tag :: "srcpos \<Rightarrow> string \<Rightarrow> (reader_state, string option) reads" where
  "close_tag t cache =
     bind nextc_EOF (\<lambda>c.
       if c \<noteq> CHR ''>'' then throw (Illegal_tag t) else andThen (scan advance) (enter_tag cache))"

definition get_tag :: "bool \<Rightarrow> (reader_state, string option) reads" where
  "get_tag emptyOk =
     bind (scan here) (\<lambda>t.
     andThen (scan advance) (bind nextc_EOF (\<lambda>c.
       if emptyOk \<and> c = CHR ''>'' then andThen (scan advance) (return None)
       else if \<not> isalpha c \<and> c \<noteq> CHR ''_'' \<and> c \<noteq> CHR ''$'' then throw (Illegal_tag t)
       else bind (scan name_chars) (close_tag t))))"

section \<open>Program text\<close>

text \<open>A quoted string and a comment inside copied text, after their first characters.\<close>

fun copy_string :: "nat \<Rightarrow> srcpos \<Rightarrow> char \<Rightarrow> string \<Rightarrow> (scanner, string) reads" where
  "copy_string 0 st quote out = throw Out_of_fuel"
| "copy_string (Suc k) st quote out =
     bind next_char (\<lambda>c.
       if c = quote then return (out @ [c])
       else if c = NEWLINE then throw (Unterminated_string st)
       else if c = BACKSLASH then
         bind next_char (\<lambda>d.
           andThen (if d = NEWLINE then next_line (Unterminated_string st) else return ())
             (copy_string k st quote (out @ [c, d])))
       else copy_string k st quote (out @ [c]))"

fun copy_comment :: "nat \<Rightarrow> srcpos \<Rightarrow> string \<Rightarrow> (scanner, string) reads" where
  "copy_comment 0 st out = throw Out_of_fuel"
| "copy_comment (Suc k) st out =
     bind next_char (\<lambda>c.
       if c = NEWLINE then
         andThen (next_line (Unterminated_comment st)) (copy_comment k st (out @ [c]))
       else if c = CHR ''*'' then
         bind peek (\<lambda>d. if d = CHR ''/'' then andThen advance (return (out @ ''*/''))
                        else copy_comment k st (out @ [c]))
       else copy_comment k st (out @ [c]))"

text \<open>
  One round of the loop of \<^verbatim>\<open>copy_text\<close>, by the first character: whether it was the last one,
  \<^verbatim>\<open>need_newline\<close> and the text written so far.
\<close>

definition copy_slash :: "srcpos \<Rightarrow> srcpos \<Rightarrow> string \<Rightarrow> (scanner, bool \<times> bool \<times> string) reads" where
  "copy_slash t p out =
     bind peek (\<lambda>d.
       if d = CHR ''/'' then
         bind (gets sc_cptr) (\<lambda>q. andThen (next_line (Unterminated_text t))
           (return (False, False, out @ takeWhile (\<lambda>e. e \<noteq> NEWLINE) q @ [NEWLINE])))
       else if d = CHR ''*'' then
         andThen advance
           (bind (with_fuel (\<lambda>n. copy_comment n p (out @ ''*''))) (\<lambda>out. return (False, True, out)))
       else return (False, True, out))"

definition copy_text_step :: "srcpos \<Rightarrow> bool \<Rightarrow> string \<Rightarrow> (scanner, bool \<times> bool \<times> string) reads" where
  "copy_text_step t need_newline out =
     bind here (\<lambda>p. bind next_char (\<lambda>c.
       if c = NEWLINE then
         andThen (next_line (Unterminated_text t)) (return (False, False, out @ [c]))
       else if c = QUOTE \<or> c = DOUBLE_QUOTE then
         bind (with_fuel (\<lambda>n. copy_string n p c (out @ [c]))) (\<lambda>out. return (False, True, out))
       else if c = CHR ''/'' then copy_slash t p (out @ [c])
       else if c = CHR ''%'' \<or> c = BACKSLASH then
         bind peek (\<lambda>d.
           if d = CHR ''}'' then
             andThen advance (return (True, need_newline, out @ (if need_newline then [NEWLINE] else [])))
           else return (False, True, out @ [c]))
       else return (False, True, out @ [c])))"

fun copy_text_loop :: "nat \<Rightarrow> srcpos \<Rightarrow> bool \<Rightarrow> string \<Rightarrow> (scanner, string) reads" where
  "copy_text_loop 0 t need_newline out = throw Out_of_fuel"
| "copy_text_loop (Suc k) t need_newline out =
     bind (copy_text_step t need_newline out) (\<lambda>(stop, need_newline, out).
       if stop then return out else copy_text_loop k t need_newline out)"

text \<open>\<^verbatim>\<open>fprintf(f, line_format, lineno, input_file_name)\<close>.\<close>

definition line_comment :: "nat \<Rightarrow> string \<Rightarrow> string" where
  "line_comment n file =
     replicate 5 HT @ ''// line '' @ show_nat n @ [SP, DOUBLE_QUOTE] @ file @ [DOUBLE_QUOTE, NEWLINE]"

definition copy_text :: "string \<Rightarrow> (scanner, string) reads" where
  "copy_text file =
     bind here (\<lambda>p. let t = back_pos 2 p in
     bind peek (\<lambda>c.
     andThen (if c = NEWLINE then next_line (Unterminated_text t) else return ())
       (bind (gets sc_lineno) (\<lambda>n. with_fuel (\<lambda>k. copy_text_loop k t False (line_comment n file))))))"

section \<open>Declarations\<close>

text \<open>The body of the loop of \<^verbatim>\<open>declare_tokens\<close> between the symbol and its value.\<close>

definition declare_token :: "nat \<Rightarrow> string option \<Rightarrow> nat \<Rightarrow> (reader_state, unit) reads" where
  "declare_token assoc tag bp =
     bind (bucket_at bp) (\<lambda>b. bind (gets rd_goal) (\<lambda>goal. bind lineno (\<lambda>n. bind (gets rd_prec) (\<lambda>prec.
       if goal = Some bp then throw (Tokenized_start n (b_name b))
       else
         andThen (set_bucket bp (\<lambda>b. b\<lparr>b_class := Term\<rparr>))
        (andThen (unless (tag = None)
          (andThen (unless (b_tag b = None \<or> tag = b_tag b) (warn (\<lambda>n. Retyped n (b_name b))))
            (set_bucket bp (\<lambda>b. b\<lparr>b_tag := tag\<rparr>))))
         (unless (assoc = TOKEN)
          (andThen (unless (b_prec b = 0 \<or> prec = b_prec b) (warn (\<lambda>n. Reprec n (b_name b))))
            (set_bucket bp (\<lambda>b. b\<lparr>b_assoc := assoc, b_prec := short prec\<rparr>)))))))))"

definition declare_value :: "nat \<Rightarrow> (reader_state, unit) reads" where
  "declare_value bp =
     bind (scan get_number) (\<lambda>v. bind (bucket_at bp) (\<lambda>b.
       andThen (unless (b_value b = UNDEFINED \<or> v = b_value b) (warn (\<lambda>n. Revalued n (b_name b))))
         (set_bucket bp (\<lambda>b. b\<lparr>b_value := short v\<rparr>))))"

fun declare_tokens_loop :: "nat \<Rightarrow> nat \<Rightarrow> string option \<Rightarrow> char \<Rightarrow> (reader_state, unit) reads" where
  "declare_tokens_loop 0 assoc tag c = throw Out_of_fuel"
| "declare_tokens_loop (Suc k) assoc tag c =
     bind (get_symbol (Some c)) (\<lambda>b. case b of
         None \<Rightarrow> return ()
       | Some bp \<Rightarrow>
           andThen (declare_token assoc tag bp)
             (bind nextc_EOF (\<lambda>c.
                if isdigit c then
                  andThen (declare_value bp) (bind nextc_EOF (declare_tokens_loop k assoc tag))
                else declare_tokens_loop k assoc tag c)))"

definition declare_tokens :: "nat \<Rightarrow> (reader_state, unit) reads" where
  "declare_tokens assoc =
     andThen (unless (assoc = TOKEN) (modify (\<lambda>s. s\<lparr>rd_prec := int32 (rd_prec s + 1)\<rparr>)))
       (bind nextc_EOF (\<lambda>c.
          if c = CHR ''<'' then
            bind (get_tag False) (\<lambda>tag. bind nextc_EOF (\<lambda>c.
              reader_fuel (\<lambda>k. declare_tokens_loop k assoc tag c)))
          else reader_fuel (\<lambda>k. declare_tokens_loop k assoc None c)))"

fun declare_types_loop :: "nat \<Rightarrow> string option \<Rightarrow> (reader_state, unit) reads" where
  "declare_types_loop 0 tag = throw Out_of_fuel"
| "declare_types_loop (Suc k) tag =
     bind (scan nextc) (\<lambda>c. bind (get_symbol c) (\<lambda>b. case b of
         None \<Rightarrow> return ()
       | Some bp \<Rightarrow> bind (bucket_at bp) (\<lambda>b.
           andThen (unless (b_tag b = None \<or> tag = b_tag b) (warn (\<lambda>n. Retyped n (b_name b))))
          (andThen (set_bucket bp (\<lambda>b. b\<lparr>b_tag := tag\<rparr>)) (declare_types_loop k tag)))))"

definition declare_types :: "(reader_state, unit) reads" where
  "declare_types =
     bind nextc_EOF (\<lambda>c.
       if c \<noteq> CHR ''<'' then syntax_error
       else bind (get_tag False) (\<lambda>tag. reader_fuel (\<lambda>k. declare_types_loop k tag)))"

definition declare_start :: "(reader_state, unit) reads" where
  "declare_start =
     bind nextc_EOF (\<lambda>c.
       if \<not> name_start (Some c) then syntax_error
       else bind get_name (\<lambda>bp. bind (bucket_at bp) (\<lambda>b. bind (gets rd_goal) (\<lambda>goal. bind lineno (\<lambda>n.
         if b_class b = Term then throw (Terminal_start n (b_name b))
         else
           andThen (unless (goal = None \<or> goal = Some bp) (warn Restarted))
             (modify (\<lambda>s. s\<lparr>rd_goal := Some bp\<rparr>)))))))"

definition copy_to :: "(string \<Rightarrow> reader_state \<Rightarrow> reader_state) \<Rightarrow> (reader_state, unit) reads" where
  "copy_to put = bind (gets rd_file) (\<lambda>file. bind (scan (copy_text file)) (\<lambda>out. modify (put out)))"

fun read_declarations_loop :: "nat \<Rightarrow> (reader_state, unit) reads" where
  "read_declarations_loop 0 = throw Out_of_fuel"
| "read_declarations_loop (Suc k) =
     bind nextc_EOF (\<lambda>c.
       if c \<noteq> CHR ''%'' then syntax_error
       else bind (scan keyword) (\<lambda>kw.
         if kw = MARK then return ()
         else andThen
           (if kw = TEXT then copy_to (\<lambda>out s. s\<lparr>rd_prolog := rd_prolog s @ out\<rparr>)
            else if kw = TYPE_KW then declare_types
            else if kw = START then declare_start
            else declare_tokens kw)
           (read_declarations_loop k)))"

definition read_declarations :: "(reader_state, unit) reads" where
  "read_declarations = reader_fuel read_declarations_loop"

declare copy_string.simps(2) [simp del] copy_comment.simps(2) [simp del] copy_text_loop.simps(2) [simp del]
  declare_tokens_loop.simps(2) [simp del] declare_types_loop.simps(2) [simp del] read_declarations_loop.simps(2) [simp del]

section \<open>Rules for the copied text\<close>

lemma copy_string_wp:
  assumes "ready s" "todo s < k" "quote \<noteq> NEWLINE"
    and "\<And>out t. ready t \<Longrightarrow> todo t \<le> todo s \<Longrightarrow> Q out t"
  shows "wp (copy_string k st quote out) Q s"
  using assms
proof (induction k arbitrary: s out)
  case (Suc k)
  have IH: "wp (copy_string k st quote out) Q t" if "ready t" "todo t < todo s" for out t
    by (rule Suc.IH) (use that Suc.prems in auto)
  show ?case
    unfolding copy_string.simps wp_bind [of next_char]
  proof (rule next_char_wp [OF Suc.prems(1)])
    fix c t assume t: "todo t < todo s" "c \<noteq> NEWLINE \<Longrightarrow> ready t"
    have esc: "wp next_char (\<lambda>d. wp (if d = NEWLINE then next_line (Unterminated_string st) else return ())
        (\<lambda>_. wp (copy_string k st quote (out @ [c, d])) Q)) t" if "c \<noteq> NEWLINE"
    proof (rule next_char_wp [OF t(2) [OF that]])
      fix d u assume u: "todo u < todo t" "d \<noteq> NEWLINE \<Longrightarrow> ready u"
      show "wp (if d = NEWLINE then next_line (Unterminated_string st) else return ())
        (\<lambda>_. wp (copy_string k st quote (out @ [c, d])) Q) u"
      proof (cases "d = NEWLINE")
        case True
        have "wp (next_line (Unterminated_string st)) (\<lambda>_. wp (copy_string k st quote (out @ [c, d])) Q) u"
          by (rule next_line_wp) (use t u in \<open>auto simp: todo_def intro!: IH\<close>)
        with True show ?thesis by simp
      next
        case False
        then show ?thesis using IH [OF u(2)] u(1) t(1) by (simp add: wp_simps)
      qed
    qed
    show "wp (if c = quote then return (out @ [c])
       else if c = NEWLINE then throw (Unterminated_string st)
       else if c = BACKSLASH then
         bind next_char (\<lambda>d.
           andThen (if d = NEWLINE then next_line (Unterminated_string st) else return ())
             (copy_string k st quote (out @ [c, d])))
       else copy_string k st quote (out @ [c])) Q t"
      using esc IH [OF t(2)] t Suc.prems(3,4) by (auto simp: wp_basic wp_bind wp_andThen)
  qed
qed simp

lemma copy_comment_wp:
  assumes "ready s" "todo s < k"
    and "\<And>out t. ready t \<Longrightarrow> todo t \<le> todo s \<Longrightarrow> Q out t"
  shows "wp (copy_comment k st out) Q s"
  using assms
proof (induction k arbitrary: s out)
  case (Suc k)
  have IH: "wp (copy_comment k st out) Q t" if "ready t" "todo t < todo s" for out t
    by (rule Suc.IH) (use that Suc.prems in auto)
  show ?case
    unfolding copy_comment.simps wp_bind [of next_char]
  proof (rule next_char_wp [OF Suc.prems(1)])
    fix c t assume t: "todo t < todo s" "c \<noteq> NEWLINE \<Longrightarrow> ready t"
    have line: "wp (next_line (Unterminated_comment st)) (\<lambda>_. wp (copy_comment k st (out @ [c])) Q) t"
      by (rule next_line_wp) (use t in \<open>auto simp: todo_def intro!: IH\<close>)
    have star: "wp peek (\<lambda>d. wp (if d = CHR ''/'' then andThen advance (return (out @ ''*/''))
        else copy_comment k st (out @ [c])) Q) t" if "c \<noteq> NEWLINE"
    proof (rule peek_wp [OF t(2) [OF that]])
      have r: "ready (t\<lparr>sc_cptr := tl (sc_cptr t)\<rparr>)" if "hd (sc_cptr t) = CHR ''/''"
        using ready_tl [OF t(2) [OF \<open>c \<noteq> NEWLINE\<close>]] that by (simp add: NEWLINE_def)
      show "wp (if hd (sc_cptr t) = CHR ''/'' then andThen advance (return (out @ ''*/''))
        else copy_comment k st (out @ [c])) Q t"
        using t(1) r todo_tl [OF ready_not_Nil [OF t(2) [OF that]]] IH [OF t(2) [OF that] t(1)]
        by (auto simp: wp_simps intro!: advance_wp t(2) that Suc.prems(3))
    qed
    show "wp (if c = NEWLINE then
         andThen (next_line (Unterminated_comment st)) (copy_comment k st (out @ [c]))
       else if c = CHR ''*'' then
         bind peek (\<lambda>d. if d = CHR ''/'' then andThen advance (return (out @ ''*/''))
                        else copy_comment k st (out @ [c]))
       else copy_comment k st (out @ [c])) Q t"
      using line star IH [OF t(2)] t by (auto simp: wp_bind wp_andThen)
  qed
qed simp

lemma copy_slash_wp:
  assumes r: "ready s" and Q: "\<And>x t. ready t \<Longrightarrow> todo t \<le> todo s \<Longrightarrow> Q (False, x) t"
  shows "wp (copy_slash tp p out) Q s"
proof -
  have line: "wp (next_line (Unterminated_text tp)) (\<lambda>_. Q (False, x)) s" for x
    by (rule next_line_wp) (auto simp: todo_def intro!: Q)
  have com: "wp advance (\<lambda>_ t. wp (copy_comment (Suc (todo t)) p o') (\<lambda>out. Q (False, True, out)) t) s"
    if "hd (sc_cptr s) = CHR ''*''" for o'
  proof (rule advance_wp [OF r], rule copy_comment_wp)
    show "ready (s\<lparr>sc_cptr := tl (sc_cptr s)\<rparr>)" using ready_tl [OF r] that by (simp add: NEWLINE_def)
  qed (use todo_tl [OF ready_not_Nil [OF r]] in \<open>auto intro!: Q\<close>)
  show ?thesis
    unfolding copy_slash_def wp_bind [of peek]
    by (rule peek_wp [OF r]) (use line com Q [OF r] in \<open>auto simp: wp_simps\<close>)
qed

lemma copy_text_step_wp:
  assumes r: "ready s" and Q: "\<And>x t. ready t \<Longrightarrow> todo t < todo s \<Longrightarrow> Q x t"
  shows "wp (copy_text_step tp nl out) Q s"
  unfolding copy_text_step_def wp_bind [of here] wp_bind [of next_char] here_wp
proof (rule next_char_wp [OF r])
  fix c t assume t: "todo t < todo s" "c \<noteq> NEWLINE \<Longrightarrow> ready t"
  have line: "wp (next_line (Unterminated_text tp)) (\<lambda>_. Q x) t" for x
    by (rule next_line_wp) (use t in \<open>auto simp: todo_def intro!: Q\<close>)
  have str: "wp (copy_string (Suc (todo t)) p c out') (\<lambda>out. Q (False, True, out)) t" if "c \<noteq> NEWLINE" for p out'
    by (rule copy_string_wp) (use t that in \<open>auto intro!: Q\<close>)
  have slash: "wp (copy_slash tp p out') Q t" if "c \<noteq> NEWLINE" for p out'
    by (rule copy_slash_wp) (use t that in \<open>auto intro!: Q\<close>)
  have stop: "wp advance (\<lambda>_. Q x) t" if "c \<noteq> NEWLINE" "hd (sc_cptr t) = CHR ''}''" for x
    using ready_tl [OF t(2)] todo_tl [OF ready_not_Nil [OF t(2)]] that t
    by (intro advance_wp Q) (auto simp: NEWLINE_def)
  have percent: "wp peek (\<lambda>d. wp (if d = CHR ''}'' then andThen advance (return x) else return y) Q) t"
    if "c \<noteq> NEWLINE" for x y
    by (rule peek_wp [OF t(2) [OF that]]) (use stop that t Q in \<open>auto simp: wp_simps\<close>)
  show "wp (if c = NEWLINE then
         andThen (next_line (Unterminated_text tp)) (return (False, False, out @ [c]))
       else if c = QUOTE \<or> c = DOUBLE_QUOTE then
         bind (with_fuel (\<lambda>n. copy_string n (pos_at (sc_cptr s) s) c (out @ [c]))) (\<lambda>out. return (False, True, out))
       else if c = CHR ''/'' then copy_slash tp (pos_at (sc_cptr s) s) (out @ [c])
       else if c = CHR ''%'' \<or> c = BACKSLASH then
         bind peek (\<lambda>d.
           if d = CHR ''}'' then andThen advance (return (True, nl, out @ (if nl then [NEWLINE] else [])))
           else return (False, True, out @ [c]))
       else return (False, True, out @ [c])) Q t"
    using line str slash percent Q t by (simp add: wp_bind wp_andThen wp_basic with_fuel_wp)
qed

lemma copy_text_loop_wp:
  assumes "ready s" "todo s < k" "\<And>out t. ready t \<Longrightarrow> todo t \<le> todo s \<Longrightarrow> Q out t"
  shows "wp (copy_text_loop k tp nl out) Q s"
  using assms
proof (induction k arbitrary: s nl out)
  case (Suc k)
  show ?case
    unfolding copy_text_loop.simps wp_bind
    by (rule copy_text_step_wp) (use Suc in \<open>auto simp: wp_simps split: prod.split\<close>)
qed simp

lemma copy_text_wp:
  assumes "ready s" "\<And>out t. ready t \<Longrightarrow> todo t \<le> todo s \<Longrightarrow> Q out t"
  shows "wp (copy_text file) Q s"
proof -
  have loop: "wp (copy_text_loop (Suc (todo t)) p False out) Q t" if "ready t" "todo t \<le> todo s" for t p out
    by (rule copy_text_loop_wp) (use that assms(2) in auto)
  have "wp (next_line (Unterminated_text p)) (\<lambda>_ t. wp (copy_text_loop (Suc (todo t)) p False (line_comment (sc_lineno t) file)) Q t) s" for p
    by (rule next_line_wp, simp, rule loop) (auto simp: todo_def)
  then show ?thesis
    using loop [OF assms(1)] unfolding copy_text_def wp_bind here_wp Let_def
    by (intro peek_wp assms(1)) (simp add: wp_bind wp_andThen wp_basic with_fuel_wp)
qed

section \<open>The symbol table stays in order\<close>

text \<open>
  The first bucket is the token \<^verbatim>\<open>error\<close>, the names of literals do not belong to nonterminals and the
  start symbol is no token.
\<close>

definition quoted :: "string \<Rightarrow> bool" where
  "quoted n \<longleftrightarrow> n \<noteq> [] \<and> (hd n = QUOTE \<or> hd n = DOUBLE_QUOTE)"

definition bucket_ok :: "nat option \<Rightarrow> nat \<Rightarrow> bucket \<Rightarrow> bool" where
  "bucket_ok goal b x \<longleftrightarrow> (b = 0 \<longrightarrow> b_class x = Term) \<and>
     (quoted (b_name x) \<longrightarrow> b_class x \<noteq> Nonterm \<and> goal \<noteq> Some b) \<and> (goal = Some b \<longrightarrow> b_class x \<noteq> Term)"

definition sym_inv :: "symtab \<Rightarrow> nat option \<Rightarrow> bool" where
  "sym_inv st goal \<longleftrightarrow> symtab_ok st \<and> st_buckets st \<noteq> [] \<and>
     (\<forall>b < length (st_buckets st). bucket_ok goal b (st_buckets st ! b)) \<and>
     (\<forall>g. goal = Some g \<longrightarrow> g < length (st_buckets st))"

text \<open>Later tables keep the buckets, their names and which of them are nonterminals.\<close>

definition syms_le :: "symtab \<Rightarrow> symtab \<Rightarrow> bool" where
  "syms_le st st' \<longleftrightarrow> length (st_buckets st) \<le> length (st_buckets st') \<and>
     (\<forall>b < length (st_buckets st). b_name (st_buckets st' ! b) = b_name (st_buckets st ! b) \<and>
        (b_class (st_buckets st ! b) = Nonterm \<longrightarrow> b_class (st_buckets st' ! b) = Nonterm))"

lemma syms_le_refl [simp]: "syms_le st st"
  by (simp add: syms_le_def)

lemma syms_le_trans: "syms_le a b \<Longrightarrow> syms_le b c \<Longrightarrow> syms_le a c"
  unfolding syms_le_def by (metis order_less_le_trans order_trans)

lemma upd_bucket_buckets [simp]:
  "st_buckets (upd_bucket b f st) = (st_buckets st)[b := f (st_buckets st ! b)]"
  by (simp add: upd_bucket_def)

lemma sym_inv_upd:
  assumes "sym_inv st goal" "b < length (st_buckets st)"
    and "b_name (f (st_buckets st ! b)) = b_name (st_buckets st ! b)"
    and "bucket_ok goal b (st_buckets st ! b) \<Longrightarrow> bucket_ok goal b (f (st_buckets st ! b))"
  shows "sym_inv (upd_bucket b f st) goal"
  using assms symtab_ok_upd(1) [of st f b] by (auto simp: sym_inv_def nth_upd)

lemma syms_le_upd:
  assumes "b_name (f (st_buckets st ! b)) = b_name (st_buckets st ! b)"
    and "b_class (st_buckets st ! b) = Nonterm \<Longrightarrow> b_class (f (st_buckets st ! b)) = Nonterm"
  shows "syms_le st (upd_bucket b f st)"
  using assms by (auto simp: syms_le_def nth_upd)

lemma bucket_ok_goal: "sym_inv st (Some g) \<Longrightarrow> b_class (st_buckets st ! g) \<noteq> Term"
  by (simp add: sym_inv_def bucket_ok_def)

lemma bucket_okD: "sym_inv st goal \<Longrightarrow> b < length (st_buckets st) \<Longrightarrow> bucket_ok goal b (st_buckets st ! b)"
  by (simp add: sym_inv_def)

section \<open>Rules for the operations of the reader\<close>

definition reader_inv :: "reader_state \<Rightarrow> bool" where
  "reader_inv s \<longleftrightarrow> scan_ok (rd_scan s) \<and> sym_inv (rd_syms s) (rd_goal s)"

lemma reader_wp [wp_simps]:
  "wp (scan m) Q = (\<lambda>s. wp m (\<lambda>a sc. Q a (s\<lparr>rd_scan := sc\<rparr>)) (rd_scan s))"
  "wp (scan here) P = (\<lambda>s. P (pos_at (sc_cptr (rd_scan s)) (rd_scan s)) s)"
  "wp lineno R = (\<lambda>s. R (sc_lineno (rd_scan s)) s)"
  "wp (warn w) U = (\<lambda>s. U () (s\<lparr>rd_warnings := rd_warnings s @ [w (sc_lineno (rd_scan s))]\<rparr>))"
  "wp (bucket_at b) B = (\<lambda>s. B (st_buckets (rd_syms s) ! b) s)"
  "wp (set_bucket b f) U = (\<lambda>s. U () (s\<lparr>rd_syms := upd_bucket b f (rd_syms s)\<rparr>))"
  "wp (unless c n) U = (\<lambda>s. if c then U () s else wp n U s)"
  "wp (reader_fuel h) V = (\<lambda>s. wp (h (Suc (todo (rd_scan s)))) V s)"
  "wp syntax_error V = (\<lambda>s. True)"
  by (simp_all add: fun_eq_iff scan_def lineno_def warn_def bucket_at_def set_bucket_def unless_def
      reader_fuel_def syntax_error_def wp_simps)

lemma nextc_postD:
  assumes "nextc_post (Some c) sc"
  shows "ready sc" "c = CHR ''%'' \<or> hd (sc_cptr sc) = c" "hd (sc_cptr sc) \<noteq> NEWLINE"
    "c = CHR ''%'' \<longleftrightarrow> hd (sc_cptr sc) = BACKSLASH \<or> hd (sc_cptr sc) = CHR ''%''"
  using assms by (auto simp: nextc_post_def char_int_def BACKSLASH_def split: option.splits if_splits)

lemma nextc_post_scan_ok: "nextc_post c sc \<Longrightarrow> scan_ok sc"
  by (auto simp: nextc_post_def split: option.splits)

lemma nextc_EOF_wp:
  assumes "scan_ok (rd_scan s)"
    and "\<And>c sc. nextc_post (Some c) sc \<Longrightarrow> todo sc \<le> todo (rd_scan s) \<Longrightarrow> Q c (s\<lparr>rd_scan := sc\<rparr>)"
  shows "wp nextc_EOF Q s"
  unfolding nextc_EOF_def wp_bind reader_wp(1)
  by (rule nextc_wp [OF assms(1)]) (use assms(2) in \<open>auto simp: wp_simps split: option.split\<close>)

lemma find_symbol_wp:
  assumes "sym_inv (rd_syms s) goal" "name_ok name"
    and "\<And>b st. sym_inv st goal \<Longrightarrow> syms_le (rd_syms s) st \<Longrightarrow> b < length (st_buckets st) \<Longrightarrow>
      b_name (st_buckets st ! b) = name \<Longrightarrow> Q b (s\<lparr>rd_syms := st\<rparr>)"
  shows "wp (find_symbol name) Q s"
proof -
  have ok: "symtab_ok (rd_syms s)" using assms(1) by (simp add: sym_inv_def)
  let ?bs = "st_buckets (rd_syms s)"
  obtain b st where l: "lookup name (rd_syms s) = Inr (b, st)" "symtab_ok st" "b < length (st_buckets st)"
    "b_name (st_buckets st ! b) = name"
    "st = rd_syms s \<or> b = length ?bs \<and> st_buckets st = ?bs @ [make_bucket name]"
    by (rule lookup_law [OF ok assms(2)]) blast
  have "sym_inv st goal \<and> syms_le (rd_syms s) st"
    using l(5)
  proof
    assume st: "b = length ?bs \<and> st_buckets st = ?bs @ [make_bucket name]"
    have "bucket_ok goal c (st_buckets st ! c)" if "c < length (st_buckets st)" for c
      using that st assms(1)
      by (auto simp: sym_inv_def bucket_ok_def make_bucket_def nth_append less_Suc_eq)
    then show ?thesis using st assms(1) l(2) by (auto simp: sym_inv_def syms_le_def nth_append)
  qed (use assms(1) in simp)
  with l assms(3) show ?thesis by (simp add: wp_def find_symbol_def)
qed

lemma ident_ascii: "IS_IDENT c \<Longrightarrow> code c < 128"
  by (auto simp: ctype_defs)

lemma ident_not_quote: "IS_IDENT c \<Longrightarrow> c \<noteq> QUOTE \<and> c \<noteq> DOUBLE_QUOTE"
  by (auto simp: ctype_defs)

lemma get_name_wp:
  assumes r: "ready (rd_scan s)" and i: "IS_IDENT (hd (sc_cptr (rd_scan s)))"
    and g: "sym_inv (rd_syms s) goal"
    and Q: "\<And>b sc st. ready sc \<Longrightarrow> todo sc < todo (rd_scan s) \<Longrightarrow> sym_inv st goal \<Longrightarrow>
      syms_le (rd_syms s) st \<Longrightarrow> b < length (st_buckets st) \<Longrightarrow> \<not> quoted (b_name (st_buckets st ! b)) \<Longrightarrow>
      Q b (s\<lparr>rd_scan := sc, rd_syms := st\<rparr>)"
  shows "wp get_name Q s"
  unfolding get_name_def wp_bind reader_wp(1)
proof (rule name_chars_wp [OF r])
  let ?n = "takeWhile IS_IDENT (sc_cptr (rd_scan s))"
  fix sc assume sc: "ready sc" "IS_IDENT (hd (sc_cptr (rd_scan s))) \<Longrightarrow> todo sc < todo (rd_scan s)"
  have h: "?n \<noteq> []" "hd ?n = hd (sc_cptr (rd_scan s))"
    using i ready_not_Nil [OF r] by (cases "sc_cptr (rd_scan s)"; simp)+
  then have n: "name_ok ?n" "\<not> quoted ?n" using i ident_ascii ident_not_quote by (auto simp: name_ok_def quoted_def)
  have "wp (find_symbol ?n) Q (s\<lparr>rd_scan := sc\<rparr>)"
    by (rule find_symbol_wp [OF _ n(1)]) (use g sc i n(2) in \<open>auto intro!: Q\<close>)
  then show "wp (if is_reserved ?n then bind lineno (\<lambda>m. throw (Used_reserved m ?n)) else find_symbol ?n) Q (s\<lparr>rd_scan := sc\<rparr>)"
    by (simp add: wp_simps)
qed

lemma quoted_literal [simp]: "quoted (quote_literal w)" "name_ok (quote_literal w)"
  by (auto simp: quoted_def name_ok_def quote_literal_def Let_def QUOTE_def DOUBLE_QUOTE_def)

lemma get_literal_wp:
  assumes r: "ready (rd_scan s)" and i: "hd (sc_cptr (rd_scan s)) \<noteq> NEWLINE"
    and g: "sym_inv (rd_syms s) goal"
    and Q: "\<And>b sc st. ready sc \<Longrightarrow> todo sc < todo (rd_scan s) \<Longrightarrow> sym_inv st goal \<Longrightarrow>
      syms_le (rd_syms s) st \<Longrightarrow> b < length (st_buckets st) \<Longrightarrow> b_class (st_buckets st ! b) = Term \<Longrightarrow>
      Q b (s\<lparr>rd_scan := sc, rd_syms := st\<rparr>)"
  shows "wp get_literal Q s"
  unfolding get_literal_def wp_bind reader_wp(1)
proof (rule literal_chars_wp [OF r i], rule find_symbol_wp [where goal = goal])
  fix w sc b st
  assume sc: "ready sc" "todo sc < todo (rd_scan s)"
  assume st: "sym_inv st goal" "syms_le (rd_syms (s\<lparr>rd_scan := sc\<rparr>)) st" "b < length (st_buckets st)"
    "b_name (st_buckets st ! b) = quote_literal w"
  let ?f = "\<lambda>x. x\<lparr>b_class := Term,
      b_value := if length w = 1 \<and> b_value x = UNDEFINED then int (code (hd w)) else b_value x\<rparr>"
  have q: "b_class (st_buckets st ! b) \<noteq> Nonterm" "goal \<noteq> Some b"
    using bucket_okD [OF st(1,3)] st(4) by (auto simp: bucket_ok_def)
  have "sym_inv (upd_bucket b ?f st) goal"
    by (rule sym_inv_upd [OF st(1,3)]) (use q st(4) in \<open>auto simp: bucket_ok_def\<close>)
  moreover have "syms_le st (upd_bucket b ?f st)" by (rule syms_le_upd) (use q in auto)
  ultimately have "Q b (s\<lparr>rd_scan := sc, rd_syms := upd_bucket b ?f st\<rparr>)"
    using st sc syms_le_trans [of "rd_syms s" st] by (intro Q) auto
  then show "wp (andThen (set_bucket b ?f) (return b)) Q (s\<lparr>rd_scan := sc, rd_syms := st\<rparr>)"
    by (simp add: wp_simps)
qed (use g in simp_all)

lemma get_symbol_wp:
  assumes c: "nextc_post c (rd_scan s)" and g: "sym_inv (rd_syms s) goal"
    and none: "\<not> name_start c \<Longrightarrow> \<not> literal_start c \<Longrightarrow> Q None s"
    and some: "\<And>b sc st. ready sc \<Longrightarrow> todo sc < todo (rd_scan s) \<Longrightarrow> sym_inv st goal \<Longrightarrow>
      syms_le (rd_syms s) st \<Longrightarrow> b < length (st_buckets st) \<Longrightarrow>
      b_class (st_buckets st ! b) = Term \<or> \<not> quoted (b_name (st_buckets st ! b)) \<Longrightarrow>
      Q (Some b) (s\<lparr>rd_scan := sc, rd_syms := st\<rparr>)"
  shows "wp (get_symbol c) Q s"
proof -
  consider (name) "name_start c" | (lit) "\<not> name_start c" "literal_start c"
    | (no) "\<not> name_start c" "\<not> literal_start c" by blast
  then show ?thesis
  proof cases
    case name
    then obtain d where d: "c = Some d" "IS_IDENT d"
      by (auto simp: name_start_def ctype_defs split: option.splits)
    then have "d \<noteq> CHR ''%''" by (auto simp: ctype_defs)
    with d nextc_postD(1,2) [of d "rd_scan s"] c have r: "ready (rd_scan s)" "IS_IDENT (hd (sc_cptr (rd_scan s)))"
      by auto
    show ?thesis
      unfolding get_symbol_def using name
      by (simp add: wp_simps) (rule get_name_wp [OF r g], rule some, auto)
  next
    case lit
    then obtain d where d: "c = Some d" by (auto simp: literal_start_def)
    with nextc_postD(1,3) [of d "rd_scan s"] c have r: "ready (rd_scan s)" "hd (sc_cptr (rd_scan s)) \<noteq> NEWLINE"
      by auto
    show ?thesis
      unfolding get_symbol_def using lit
      by (simp add: wp_simps) (rule get_literal_wp [OF r g], rule some, auto)
  next
    case no
    then show ?thesis using none by (simp add: get_symbol_def wp_simps)
  qed
qed

lemma advance_scan_wp:
  assumes "nextc_post (Some c) sc" "\<And>u. ready u \<or> c = CHR ''%'' \<Longrightarrow> todo u < todo sc \<Longrightarrow> Q () u"
  shows "wp advance Q sc"
  using nextc_postD(1,3) [OF assms(1)] ready_tl [of sc] todo_tl [of sc] ready_not_Nil [of sc]
  by (intro advance_wp assms(2)) auto

lemma close_tag_wp:
  assumes "scan_ok (rd_scan s)"
    and "\<And>t sc tags. ready sc \<Longrightarrow> todo sc < todo (rd_scan s) \<Longrightarrow> Q t (s\<lparr>rd_scan := sc, rd_tags := tags\<rparr>)"
  shows "wp (close_tag t n) Q s"
  unfolding close_tag_def wp_bind
proof (rule nextc_EOF_wp [OF assms(1)])
  fix c sc assume c: "nextc_post (Some c) sc" and l: "todo sc \<le> todo (rd_scan s)"
  have q: "Q (Some n) (s\<lparr>rd_scan := u\<rparr>)" "Q (Some n) (s\<lparr>rd_scan := u, rd_tags := tags\<rparr>)"
    if "ready u" "todo u < todo sc" for u tags
    using assms(2) [of u "Some n" "rd_tags s"] assms(2) [of u "Some n" tags] that l by auto
  have "wp advance (\<lambda>_ u. wp (enter_tag n) Q (s\<lparr>rd_scan := u\<rparr>)) sc" if "c = CHR ''>''"
    using that by (intro advance_scan_wp [OF c]) (auto simp: enter_tag_def wp_simps q)
  then show "wp (if c \<noteq> CHR ''>'' then throw (Illegal_tag t) else andThen (scan advance) (enter_tag n)) Q
      (s\<lparr>rd_scan := sc\<rparr>)"
    by (simp add: wp_basic wp_andThen reader_wp(1))
qed

lemma get_tag_wp:
  assumes r: "ready (rd_scan s)" and h: "hd (sc_cptr (rd_scan s)) \<noteq> NEWLINE"
    and Q: "\<And>t sc tags. ready sc \<Longrightarrow> todo sc < todo (rd_scan s) \<Longrightarrow> Q t (s\<lparr>rd_scan := sc, rd_tags := tags\<rparr>)"
  shows "wp (get_tag e) Q s"
proof -
  let ?sc = "(rd_scan s)\<lparr>sc_cptr := tl (sc_cptr (rd_scan s))\<rparr>"
  have r1: "ready ?sc" by (rule ready_tl [OF r h])
  have l1: "todo ?sc < todo (rd_scan s)" by (rule todo_tl [OF ready_not_Nil [OF r]])
  have Q': "Q t (s\<lparr>rd_scan := u\<rparr>)" if "ready u" "todo u < todo (rd_scan s)" for t u
    using Q [OF that, of t "rd_tags s"] by simp
  have "wp nextc_EOF (\<lambda>c. wp (if e \<and> c = CHR ''>'' then andThen (scan advance) (return None)
       else if \<not> isalpha c \<and> c \<noteq> CHR ''_'' \<and> c \<noteq> CHR ''$'' then throw (Illegal_tag t)
       else bind (scan name_chars) (close_tag t)) Q) (s\<lparr>rd_scan := ?sc\<rparr>)" for t
  proof (rule nextc_EOF_wp)
    fix c sc assume c: "nextc_post (Some c) sc" and l: "todo sc \<le> todo (rd_scan (s\<lparr>rd_scan := ?sc\<rparr>))"
    have empty: "wp advance (\<lambda>_ u. Q None (s\<lparr>rd_scan := u\<rparr>)) sc" if "c = CHR ''>''"
      using that l l1 by (intro advance_scan_wp [OF c]) (auto intro!: Q')
    have "wp name_chars (\<lambda>n u. wp (close_tag t n) Q (s\<lparr>rd_scan := u\<rparr>)) sc"
      by (rule name_chars_wp [OF nextc_postD(1) [OF c]], rule close_tag_wp) (use l l1 in \<open>auto intro!: Q\<close>)
    with empty show "wp (if e \<and> c = CHR ''>'' then andThen (scan advance) (return None)
       else if \<not> isalpha c \<and> c \<noteq> CHR ''_'' \<and> c \<noteq> CHR ''$'' then throw (Illegal_tag t)
       else bind (scan name_chars) (close_tag t)) Q (s\<lparr>rd_scan := ?sc, rd_scan := sc\<rparr>)"
      by (simp add: wp_bind wp_andThen wp_basic reader_wp(1))
  qed (use r1 in simp)
  then show ?thesis
    unfolding get_tag_def wp_bind wp_andThen reader_wp(1) here_wp
    by (intro advance_wp) (use r in simp_all)
qed

section \<open>Rules for the declarations\<close>

text \<open>The part of the state that holds the rules; declarations do not touch it.\<close>

definition rules_part ::
  "reader_state \<Rightarrow> (nat option list \<times> nat \<times> nat option list \<times> nat \<times> nat) \<times> int list \<times> nat list \<times> bool" where
  "rules_part s =
     ((rd_pitem s, rd_maxitems s, rd_plhs s, rd_nrules s, rd_maxrules s), rd_rprec s, rd_rassoc s,
      rd_last_was_action s)"

definition declared :: "reader_state \<Rightarrow> reader_state \<Rightarrow> bool" where
  "declared s t \<longleftrightarrow> reader_inv t \<and> todo (rd_scan t) \<le> todo (rd_scan s) \<and> rules_part t = rules_part s"

lemma declared_trans: "declared s t \<Longrightarrow> declared t u \<Longrightarrow> declared s u"
  by (auto simp: declared_def)

lemma rules_part_frame [simp]:
  "rules_part (s\<lparr>rd_scan := sc\<rparr>) = rules_part s" "rules_part (s\<lparr>rd_syms := st\<rparr>) = rules_part s"
  "rules_part (s\<lparr>rd_tags := tags\<rparr>) = rules_part s" "rules_part (s\<lparr>rd_warnings := ws\<rparr>) = rules_part s"
  "rules_part (s\<lparr>rd_prec := p\<rparr>) = rules_part s" "rules_part (s\<lparr>rd_goal := g\<rparr>) = rules_part s"
  "rules_part (s\<lparr>rd_prolog := o1\<rparr>) = rules_part s" "rules_part (s\<lparr>rd_local := o2\<rparr>) = rules_part s"
  by (simp_all add: rules_part_def)

text \<open>A step that changes no more than the symbols and the warnings.\<close>

definition marked :: "nat \<Rightarrow> reader_state \<Rightarrow> reader_state \<Rightarrow> bool" where
  "marked b s t \<longleftrightarrow> rd_scan t = rd_scan s \<and> rd_goal t = rd_goal s \<and> rules_part t = rules_part s \<and>
     sym_inv (rd_syms t) (rd_goal s) \<and> b < length (st_buckets (rd_syms t))"

lemma marked_refl: "sym_inv (rd_syms s) (rd_goal s) \<Longrightarrow> b < length (st_buckets (rd_syms s)) \<Longrightarrow> marked b s s"
  by (simp add: marked_def)

lemma marked_warn: "marked b s t \<Longrightarrow> marked b s (t\<lparr>rd_warnings := ws\<rparr>)"
  by (simp add: marked_def)

lemma marked_upd:
  assumes "marked b s t" "\<And>x. b_name (f x) = b_name x"
    and "\<And>x. bucket_ok (rd_goal s) b x \<Longrightarrow> bucket_ok (rd_goal s) b (f x)"
  shows "marked b s (t\<lparr>rd_syms := upd_bucket b f (rd_syms t)\<rparr>)"
  using assms sym_inv_upd [of "rd_syms t" "rd_goal s" b f] by (simp add: marked_def)

lemma marked_declared:
  "marked b s t \<Longrightarrow> scan_ok (rd_scan s) \<Longrightarrow> declared s t"
  by (simp add: marked_def declared_def reader_inv_def)

lemma declare_token_wp:
  assumes m: "marked bp s s" and Q: "\<And>t. marked bp s t \<Longrightarrow> Q () t"
  shows "wp (declare_token assoc tag bp) Q s"
proof -
  let ?as_token = "\<lambda>b. b\<lparr>b_class := Term\<rparr>"
  have 1: "marked bp s (s\<lparr>rd_syms := upd_bucket bp ?as_token (rd_syms s)\<rparr>)" if "rd_goal s \<noteq> Some bp"
    by (rule marked_upd [OF m]) (use that in \<open>auto simp: bucket_ok_def\<close>)
  have 2: "wp (unless e (warn w)) R t" if "\<And>u. marked bp s u \<Longrightarrow> R () u" "marked bp s t" for R t w e
    using that marked_warn by (simp add: wp_simps)
  have 3: "wp (set_bucket bp f) R t" if "\<And>u. marked bp s u \<Longrightarrow> R () u" "marked bp s t"
    "\<And>x. b_name (f x) = b_name x" "\<And>x. bucket_ok (rd_goal s) bp x \<Longrightarrow> bucket_ok (rd_goal s) bp (f x)" for R t f
    using that marked_upd [OF that(2)] by (simp add: wp_simps)
  have 4: "wp (unless e (andThen (unless e' (warn w)) (set_bucket bp f))) R t" if
    "\<And>u. marked bp s u \<Longrightarrow> R () u" "marked bp s t" "\<And>x. b_name (f x) = b_name x"
    "\<And>x. bucket_ok (rd_goal s) bp x \<Longrightarrow> bucket_ok (rd_goal s) bp (f x)" for R t f e e' w
  proof (cases e)
    case False
    have "wp (unless e' (warn w)) (\<lambda>_. wp (set_bucket bp f) R) t"
      by (rule 2 [OF _ that(2)], rule 3) (use that in auto)
    with False show ?thesis by (simp add: unless_def wp_andThen)
  qed (use that in \<open>simp add: reader_wp(7)\<close>)
  show ?thesis
    unfolding declare_token_def wp_bind reader_wp(3,5) wp_basic
    using 1 by (auto simp: wp_basic wp_andThen reader_wp(6) bucket_ok_def intro!: 4 Q)
qed

lemma declare_value_wp:
  assumes r: "ready (rd_scan s)" and d: "isdigit (hd (sc_cptr (rd_scan s)))"
    and g: "sym_inv (rd_syms s) (rd_goal s)" and b: "bp < length (st_buckets (rd_syms s))"
    and Q: "\<And>t. declared s t \<Longrightarrow> todo (rd_scan t) < todo (rd_scan s) \<Longrightarrow> Q () t"
  shows "wp (declare_value bp) Q s"
  unfolding declare_value_def wp_bind [of "scan get_number"] reader_wp(1)
proof (rule get_number_wp [OF r])
  fix v sc assume sc: "ready sc" "isdigit (hd (sc_cptr (rd_scan s))) \<Longrightarrow> todo sc < todo (rd_scan s)"
  let ?f = "\<lambda>b. b\<lparr>b_value := short v\<rparr>"
  let ?s = "s\<lparr>rd_scan := sc\<rparr>"
  have m: "marked bp ?s ?s" using g b by (simp add: marked_def)
  have "Q () (t\<lparr>rd_syms := upd_bucket bp ?f (rd_syms t)\<rparr>)" if "marked bp ?s t" for t
  proof -
    have "marked bp ?s (t\<lparr>rd_syms := upd_bucket bp ?f (rd_syms t)\<rparr>)"
      by (rule marked_upd [OF that]) (auto simp: bucket_ok_def)
    then show ?thesis
      using sc d by (intro Q) (auto simp: marked_def declared_def reader_inv_def)
  qed
  from this [OF m] this [OF marked_warn [OF m]]
  show "wp (bind (bucket_at bp) (\<lambda>b. andThen (unless (b_value b = UNDEFINED \<or> v = b_value b) (warn (\<lambda>n. Revalued n (b_name b))))
         (set_bucket bp ?f))) Q ?s"
    by (simp add: wp_simps)
qed

lemma declare_tokens_loop_wp:
  assumes "nextc_post (Some c) (rd_scan s)" "sym_inv (rd_syms s) (rd_goal s)" "todo (rd_scan s) < k"
    and "\<And>t. declared s t \<Longrightarrow> Q () t"
  shows "wp (declare_tokens_loop k assoc tag c) Q s"
  using assms
proof (induction k arbitrary: s c)
  case (Suc k)
  have IH: "wp (declare_tokens_loop k assoc tag c) Q (t\<lparr>rd_scan := sc\<rparr>)"
    if "declared s t" "todo (rd_scan t) < todo (rd_scan s)" "nextc_post (Some c) sc" "todo sc \<le> todo (rd_scan t)" for c t sc
  proof (rule Suc.IH)
    fix u assume "declared (t\<lparr>rd_scan := sc\<rparr>) u"
    then have "declared s u" using that(1,4) by (auto simp: declared_def)
    then show "Q () u" by (rule Suc.prems(4))
  qed (use that Suc.prems(3) in \<open>auto simp: declared_def reader_inv_def\<close>)
  have next_c: "wp nextc_EOF (\<lambda>c. wp (if isdigit c then
        andThen (declare_value bp) (bind nextc_EOF (declare_tokens_loop k assoc tag))
      else declare_tokens_loop k assoc tag c) Q) t"
    if t: "declared s t" "todo (rd_scan t) < todo (rd_scan s)" "bp < length (st_buckets (rd_syms t))" for bp t
  proof (rule nextc_EOF_wp)
    show "scan_ok (rd_scan t)" using t(1) by (simp add: declared_def reader_inv_def)
    fix c sc assume c: "nextc_post (Some c) sc" "todo sc \<le> todo (rd_scan t)"
    let ?t = "t\<lparr>rd_scan := sc\<rparr>"
    have g: "sym_inv (rd_syms ?t) (rd_goal ?t)" using t(1) by (simp add: declared_def reader_inv_def)
    have val: "wp (declare_value bp) (\<lambda>_. wp nextc_EOF (\<lambda>c. wp (declare_tokens_loop k assoc tag c) Q)) ?t" if "isdigit c"
    proof (rule declare_value_wp [OF _ _ g])
      have "c \<noteq> CHR ''%''" using that by (auto simp: isdigit_def)
      with nextc_postD [OF c(1)] that show "ready (rd_scan ?t)" "isdigit (hd (sc_cptr (rd_scan ?t)))" by auto
      show "bp < length (st_buckets (rd_syms ?t))" using t(3) by simp
      fix u assume u: "declared ?t u" "todo (rd_scan u) < todo (rd_scan ?t)"
      have "declared s u" "todo (rd_scan u) < todo (rd_scan s)"
        using u t c(2) by (auto simp: declared_def)
      then show "wp nextc_EOF (\<lambda>c. wp (declare_tokens_loop k assoc tag c) Q) u"
        using u(1) by (intro nextc_EOF_wp IH) (auto simp: declared_def reader_inv_def)
    qed
    show "wp (if isdigit c then
        andThen (declare_value bp) (bind nextc_EOF (declare_tokens_loop k assoc tag))
      else declare_tokens_loop k assoc tag c) Q ?t"
      using val IH [OF t(1,2) c] by (simp add: wp_andThen wp_bind)
  qed
  show ?case
    unfolding declare_tokens_loop.simps wp_bind [of "get_symbol _"]
  proof (rule get_symbol_wp [OF Suc.prems(1,2)])
    have "declared s s"
      using Suc.prems(1,2) by (auto simp: declared_def reader_inv_def dest: nextc_post_scan_ok)
    then show "wp (case None of None \<Rightarrow> return () | Some bp \<Rightarrow> andThen (declare_token assoc tag bp)
        (bind nextc_EOF (\<lambda>c. if isdigit c then
           andThen (declare_value bp) (bind nextc_EOF (declare_tokens_loop k assoc tag))
         else declare_tokens_loop k assoc tag c))) Q s"
      using Suc.prems(4) by (simp add: wp_simps)
  next
    fix b sc st
    assume sc: "ready sc" "todo sc < todo (rd_scan s)" and st: "sym_inv st (rd_goal s)" "b < length (st_buckets st)"
    let ?s = "s\<lparr>rd_scan := sc, rd_syms := st\<rparr>"
    have "wp (declare_token assoc tag b) (\<lambda>_. wp nextc_EOF (\<lambda>c. wp (if isdigit c then
           andThen (declare_value b) (bind nextc_EOF (declare_tokens_loop k assoc tag))
         else declare_tokens_loop k assoc tag c) Q)) ?s"
    proof (rule declare_token_wp)
      show "marked b ?s ?s" using st by (simp add: marked_def)
      fix t assume t: "marked b ?s t"
      show "wp nextc_EOF (\<lambda>c. wp (if isdigit c then
           andThen (declare_value b) (bind nextc_EOF (declare_tokens_loop k assoc tag))
         else declare_tokens_loop k assoc tag c) Q) t"
        by (rule next_c) (use t sc in \<open>auto simp: marked_def declared_def reader_inv_def\<close>)
    qed
    then show "wp (case Some b of None \<Rightarrow> return () | Some bp \<Rightarrow> andThen (declare_token assoc tag bp)
        (bind nextc_EOF (\<lambda>c. if isdigit c then
           andThen (declare_value bp) (bind nextc_EOF (declare_tokens_loop k assoc tag))
         else declare_tokens_loop k assoc tag c))) Q ?s"
      by (simp add: wp_andThen wp_bind)
  qed
qed simp

lemma reader_inv_scan: "reader_inv s \<Longrightarrow> scan_ok sc \<Longrightarrow> reader_inv (s\<lparr>rd_scan := sc\<rparr>)"
  by (simp add: reader_inv_def)

lemma declared_scan:
  "reader_inv s \<Longrightarrow> scan_ok sc \<Longrightarrow> todo sc \<le> todo (rd_scan s) \<Longrightarrow> declared s (s\<lparr>rd_scan := sc\<rparr>)"
  by (simp add: declared_def reader_inv_def)

lemma declare_tokens_wp:
  assumes s: "reader_inv s" and Q: "\<And>t. declared s t \<Longrightarrow> Q () t"
  shows "wp (declare_tokens assoc) Q s"
proof -
  have loop: "wp (declare_tokens_loop (Suc (todo sc)) assoc tag c) Q (t\<lparr>rd_scan := sc\<rparr>)"
    if "declared s t" "nextc_post (Some c) sc" "todo sc \<le> todo (rd_scan t)" for t c sc tag
  proof (rule declare_tokens_loop_wp)
    fix u assume "declared (t\<lparr>rd_scan := sc\<rparr>) u"
    with that have "declared s u" by (auto simp: declared_def)
    then show "Q () u" by (rule Q)
  qed (use that in \<open>auto simp: declared_def reader_inv_def\<close>)
  have "wp nextc_EOF (\<lambda>c. wp (if c = CHR ''<'' then
            bind (get_tag False) (\<lambda>tag. bind nextc_EOF (\<lambda>c.
              reader_fuel (\<lambda>k. declare_tokens_loop k assoc tag c)))
          else reader_fuel (\<lambda>k. declare_tokens_loop k assoc None c)) Q) t"
    if t: "declared s t" for t
  proof (rule nextc_EOF_wp)
    show "scan_ok (rd_scan t)" using t by (simp add: declared_def reader_inv_def)
    fix c sc assume c: "nextc_post (Some c) sc" "todo sc \<le> todo (rd_scan t)"
    have "wp (get_tag False) (\<lambda>tag. wp nextc_EOF (\<lambda>c u. wp (declare_tokens_loop (Suc (todo (rd_scan u))) assoc tag c) Q u)) (t\<lparr>rd_scan := sc\<rparr>)"
    proof (rule get_tag_wp)
      fix tag sc' tags assume u: "ready sc'" "todo sc' < todo (rd_scan (t\<lparr>rd_scan := sc\<rparr>))"
      have d: "declared s (t\<lparr>rd_scan := sc', rd_tags := tags\<rparr>)"
        using t c(2) u by (auto simp: declared_def reader_inv_def)
      show "wp nextc_EOF (\<lambda>c u. wp (declare_tokens_loop (Suc (todo (rd_scan u))) assoc tag c) Q u)
          (t\<lparr>rd_scan := sc, rd_scan := sc', rd_tags := tags\<rparr>)"
        using u(1) loop [OF d] by (intro nextc_EOF_wp) auto
    qed (use nextc_postD(1,3) [OF c(1)] in auto)
    with loop [OF t c] show "wp (if c = CHR ''<'' then
            bind (get_tag False) (\<lambda>tag. bind nextc_EOF (\<lambda>c.
              reader_fuel (\<lambda>k. declare_tokens_loop k assoc tag c)))
          else reader_fuel (\<lambda>k. declare_tokens_loop k assoc None c)) Q (t\<lparr>rd_scan := sc\<rparr>)"
      by (simp add: wp_bind reader_wp(8))
  qed
  moreover have "declared s s" "declared s (s\<lparr>rd_prec := p\<rparr>)" for p
    using s by (auto simp: declared_def reader_inv_def)
  ultimately show ?thesis
    unfolding declare_tokens_def by (simp add: wp_andThen wp_bind [of nextc_EOF] reader_wp(7) wp_basic)
qed

lemma declare_types_loop_wp:
  assumes "reader_inv s" "todo (rd_scan s) < k" "\<And>t. declared s t \<Longrightarrow> Q () t"
  shows "wp (declare_types_loop k tag) Q s"
  using assms
proof (induction k arbitrary: s)
  case (Suc k)
  show ?case
    unfolding declare_types_loop.simps wp_bind [of "scan nextc"] wp_bind [of "get_symbol _"] reader_wp(1)
  proof (rule nextc_wp)
    show "scan_ok (rd_scan s)" using Suc.prems(1) by (simp add: reader_inv_def)
    fix c sc assume c: "nextc_post c sc" and l: "todo sc \<le> todo (rd_scan s)"
    let ?s = "s\<lparr>rd_scan := sc\<rparr>"
    show "wp (get_symbol c) (\<lambda>b. wp (case b of None \<Rightarrow> return ()
       | Some bp \<Rightarrow> bind (bucket_at bp) (\<lambda>b.
           andThen (unless (b_tag b = None \<or> tag = b_tag b) (warn (\<lambda>n. Retyped n (b_name b))))
          (andThen (set_bucket bp (\<lambda>b. b\<lparr>b_tag := tag\<rparr>)) (declare_types_loop k tag)))) Q) ?s"
    proof (rule get_symbol_wp)
      have "declared s ?s" using Suc.prems(1) nextc_post_scan_ok [OF c] l by (rule declared_scan)
      then show "wp (case None of None \<Rightarrow> return ()
       | Some bp \<Rightarrow> bind (bucket_at bp) (\<lambda>b.
           andThen (unless (b_tag b = None \<or> tag = b_tag b) (warn (\<lambda>n. Retyped n (b_name b))))
          (andThen (set_bucket bp (\<lambda>b. b\<lparr>b_tag := tag\<rparr>)) (declare_types_loop k tag)))) Q ?s"
        using Suc.prems(3) by (simp add: wp_basic)
    next
      fix b sc' st assume sc': "ready sc'" "todo sc' < todo (rd_scan ?s)"
        and st: "sym_inv st (rd_goal s)" "b < length (st_buckets st)"
      let ?u = "s\<lparr>rd_scan := sc', rd_syms := st\<rparr>"
      have m: "marked b ?u ?u" using st by (simp add: marked_def)
      have "wp (declare_types_loop k tag) Q (t\<lparr>rd_syms := upd_bucket b (\<lambda>b. b\<lparr>b_tag := tag\<rparr>) (rd_syms t)\<rparr>)"
        if "marked b ?u t" for t
      proof -
        have "marked b ?u (t\<lparr>rd_syms := upd_bucket b (\<lambda>b. b\<lparr>b_tag := tag\<rparr>) (rd_syms t)\<rparr>)"
          by (rule marked_upd [OF that]) (auto simp: bucket_ok_def)
        then show ?thesis
          using sc' l Suc.prems(2,3) by (intro Suc.IH) (auto simp: marked_def declared_def reader_inv_def)
      qed
      from this [OF m] this [OF marked_warn [OF m]]
      show "wp (case Some b of None \<Rightarrow> return ()
       | Some bp \<Rightarrow> bind (bucket_at bp) (\<lambda>b.
           andThen (unless (b_tag b = None \<or> tag = b_tag b) (warn (\<lambda>n. Retyped n (b_name b))))
          (andThen (set_bucket bp (\<lambda>b. b\<lparr>b_tag := tag\<rparr>)) (declare_types_loop k tag)))) Q (s\<lparr>rd_scan := sc, rd_scan := sc', rd_syms := st\<rparr>)"
        by (simp add: wp_simps)
    qed (use c Suc.prems(1) in \<open>auto simp: reader_inv_def\<close>)
  qed
qed simp

lemma declare_types_wp:
  assumes s: "reader_inv s" and Q: "\<And>t. declared s t \<Longrightarrow> Q () t"
  shows "wp declare_types Q s"
  unfolding declare_types_def wp_bind [of nextc_EOF]
proof (rule nextc_EOF_wp)
  show "scan_ok (rd_scan s)" using s by (simp add: reader_inv_def)
  fix c sc assume c: "nextc_post (Some c) sc" "todo sc \<le> todo (rd_scan s)"
  have "wp (get_tag False) (\<lambda>tag u. wp (declare_types_loop (Suc (todo (rd_scan u))) tag) Q u) (s\<lparr>rd_scan := sc\<rparr>)"
  proof (rule get_tag_wp)
    fix tag sc' tags assume "ready sc'" "todo sc' < todo (rd_scan (s\<lparr>rd_scan := sc\<rparr>))"
    then show "wp (declare_types_loop (Suc (todo (rd_scan (s\<lparr>rd_scan := sc, rd_scan := sc', rd_tags := tags\<rparr>)))) tag) Q
        (s\<lparr>rd_scan := sc, rd_scan := sc', rd_tags := tags\<rparr>)"
      using s c(2) Q by (intro declare_types_loop_wp) (auto simp: reader_inv_def declared_def)
  qed (use nextc_postD(1,3) [OF c(1)] in auto)
  then show "wp (if c \<noteq> CHR ''<'' then syntax_error
       else bind (get_tag False) (\<lambda>tag. reader_fuel (\<lambda>k. declare_types_loop k tag))) Q (s\<lparr>rd_scan := sc\<rparr>)"
    by (simp add: wp_bind reader_wp)
qed

lemma set_goal_inv:
  assumes "sym_inv st goal" "b < length (st_buckets st)" "b_class (st_buckets st ! b) \<noteq> Term"
    "\<not> quoted (b_name (st_buckets st ! b))"
  shows "sym_inv st (Some b)"
  using assms by (auto simp: sym_inv_def bucket_ok_def)

lemma name_startD:
  assumes "nextc_post (Some c) sc" "name_start (Some c)"
  shows "ready sc" "IS_IDENT (hd (sc_cptr sc))"
proof -
  have "c \<noteq> CHR ''%''" "IS_IDENT c" using assms(2) by (auto simp: name_start_def ctype_defs)
  with nextc_postD(1,2) [OF assms(1)] show "ready sc" "IS_IDENT (hd (sc_cptr sc))" by auto
qed

lemma declare_start_wp:
  assumes s: "reader_inv s"
    and Q: "\<And>t. declared s t \<Longrightarrow> syms_le (rd_syms s) (rd_syms t) \<Longrightarrow> Q () t"
  shows "wp declare_start Q s"
  unfolding declare_start_def wp_bind [of nextc_EOF]
proof (rule nextc_EOF_wp)
  show "scan_ok (rd_scan s)" using s by (simp add: reader_inv_def)
  fix c sc assume c: "nextc_post (Some c) sc" "todo sc \<le> todo (rd_scan s)"
  have "wp get_name (\<lambda>bp. wp (bind (bucket_at bp) (\<lambda>b. bind (gets rd_goal) (\<lambda>goal. bind lineno (\<lambda>n.
         if b_class b = Term then throw (Terminal_start n (b_name b))
         else
           andThen (unless (goal = None \<or> goal = Some bp) (warn Restarted))
             (modify (\<lambda>s. s\<lparr>rd_goal := Some bp\<rparr>)))))) Q) (s\<lparr>rd_scan := sc\<rparr>)" if "name_start (Some c)"
  proof (rule get_name_wp [where goal = "rd_goal s"])
    fix b sc' st
    assume sc': "ready sc'" "todo sc' < todo (rd_scan (s\<lparr>rd_scan := sc\<rparr>))" and le: "syms_le (rd_syms (s\<lparr>rd_scan := sc\<rparr>)) st"
      and st: "sym_inv st (rd_goal s)" "b < length (st_buckets st)" "\<not> quoted (b_name (st_buckets st ! b))"
    have "Q () (s\<lparr>rd_scan := sc', rd_syms := st, rd_warnings := ws, rd_goal := Some b\<rparr>)"
      if "b_class (st_buckets st ! b) \<noteq> Term" for ws
      using set_goal_inv [OF st(1,2) that st(3)] sc' c(2) le
      by (intro Q) (auto simp: declared_def reader_inv_def)
    from this this [of "rd_warnings s"]
    show "wp (bind (bucket_at b) (\<lambda>x. bind (gets rd_goal) (\<lambda>goal. bind lineno (\<lambda>n.
         if b_class x = Term then throw (Terminal_start n (b_name x))
         else
           andThen (unless (goal = None \<or> goal = Some b) (warn Restarted))
             (modify (\<lambda>s. s\<lparr>rd_goal := Some b\<rparr>)))))) Q (s\<lparr>rd_scan := sc, rd_scan := sc', rd_syms := st\<rparr>)"
      by (simp add: wp_simps)
  qed (use s name_startD [OF c(1) that] in \<open>auto simp: reader_inv_def\<close>)
  then show "wp (if \<not> name_start (Some c) then syntax_error
       else bind get_name (\<lambda>bp. bind (bucket_at bp) (\<lambda>b. bind (gets rd_goal) (\<lambda>goal. bind lineno (\<lambda>n.
         if b_class b = Term then throw (Terminal_start n (b_name b))
         else
           andThen (unless (goal = None \<or> goal = Some bp) (warn Restarted))
             (modify (\<lambda>s. s\<lparr>rd_goal := Some bp\<rparr>))))))) Q (s\<lparr>rd_scan := sc\<rparr>)"
    by (simp add: wp_bind [of get_name] reader_wp)
qed

lemma copy_to_wp:
  assumes "ready (rd_scan s)"
    and "\<And>out sc. ready sc \<Longrightarrow> todo sc \<le> todo (rd_scan s) \<Longrightarrow> Q () (put out (s\<lparr>rd_scan := sc\<rparr>))"
  shows "wp (copy_to put) Q s"
  unfolding copy_to_def wp_bind reader_wp(1) wp_basic
  by (rule copy_text_wp [OF assms(1)]) (auto intro: assms(2))

lemma keyword_scan_wp:
  assumes "nextc_post (Some (CHR ''%'')) sc" "\<And>k t. ready t \<Longrightarrow> todo t < todo sc \<Longrightarrow> Q k t"
  shows "wp keyword Q sc"
  by (rule keyword_wp) (use nextc_postD(1,3) [OF assms(1)] assms(2) in auto)

lemma read_declarations_loop_wp:
  assumes "reader_inv s" "todo (rd_scan s) < k" "\<And>t. declared s t \<Longrightarrow> ready (rd_scan t) \<Longrightarrow> Q () t"
  shows "wp (read_declarations_loop k) Q s"
  using assms
proof (induction k arbitrary: s)
  case (Suc k)
  have next_decl: "wp (read_declarations_loop k) Q t" if "declared s t" "todo (rd_scan t) < todo (rd_scan s)" for t
    by (rule Suc.IH) (use that Suc.prems declared_trans [OF that(1)] in \<open>auto simp: declared_def\<close>)
  show ?case
    unfolding read_declarations_loop.simps wp_bind [of nextc_EOF]
  proof (rule nextc_EOF_wp)
    show "scan_ok (rd_scan s)" using Suc.prems(1) by (simp add: reader_inv_def)
    fix c sc assume c: "nextc_post (Some c) sc" "todo sc \<le> todo (rd_scan s)"
    have "wp keyword (\<lambda>kw sc'. wp (if kw = MARK then return ()
         else andThen
           (if kw = TEXT then copy_to (\<lambda>out s. s\<lparr>rd_prolog := rd_prolog s @ out\<rparr>)
            else if kw = TYPE_KW then declare_types
            else if kw = START then declare_start
            else declare_tokens kw)
           (read_declarations_loop k)) Q (s\<lparr>rd_scan := sc'\<rparr>)) sc" if "c = CHR ''%''"
    proof (rule keyword_scan_wp)
      show "nextc_post (Some (CHR ''%'')) sc" using c(1) that by simp
      fix kw sc' assume sc': "ready sc'" "todo sc' < todo sc"
      let ?t = "s\<lparr>rd_scan := sc'\<rparr>"
      have t: "declared s ?t" "reader_inv ?t" "todo (rd_scan ?t) < todo (rd_scan s)"
        using Suc.prems(1) sc' c(2) by (auto simp: declared_def reader_inv_def)
      have on: "wp (read_declarations_loop k) Q u" if "declared ?t u" for u
        using declared_trans [OF t(1) that] that t(3) by (intro next_decl) (auto simp: declared_def)
      have "wp (copy_to (\<lambda>out s. s\<lparr>rd_prolog := rd_prolog s @ out\<rparr>)) (\<lambda>_. wp (read_declarations_loop k) Q) ?t"
        by (rule copy_to_wp) (use sc' t(2) in \<open>auto simp: declared_def reader_inv_def intro!: on\<close>)
      moreover have "wp declare_types (\<lambda>_. wp (read_declarations_loop k) Q) ?t"
        by (rule declare_types_wp [OF t(2)]) (rule on)
      moreover have "wp declare_start (\<lambda>_. wp (read_declarations_loop k) Q) ?t"
        by (rule declare_start_wp [OF t(2)]) (rule on)
      moreover have "wp (declare_tokens kw) (\<lambda>_. wp (read_declarations_loop k) Q) ?t"
        by (rule declare_tokens_wp [OF t(2)]) (rule on)
      ultimately show "wp (if kw = MARK then return ()
         else andThen
           (if kw = TEXT then copy_to (\<lambda>out s. s\<lparr>rd_prolog := rd_prolog s @ out\<rparr>)
            else if kw = TYPE_KW then declare_types
            else if kw = START then declare_start
            else declare_tokens kw)
           (read_declarations_loop k)) Q ?t"
        using Suc.prems(3) [OF t(1)] sc'(1) by (simp add: wp_basic wp_andThen)
    qed
    then show "wp (if c \<noteq> CHR ''%'' then syntax_error
       else bind (scan keyword) (\<lambda>kw.
         if kw = MARK then return ()
         else andThen
           (if kw = TEXT then copy_to (\<lambda>out s. s\<lparr>rd_prolog := rd_prolog s @ out\<rparr>)
            else if kw = TYPE_KW then declare_types
            else if kw = START then declare_start
            else declare_tokens kw)
           (read_declarations_loop k))) Q (s\<lparr>rd_scan := sc\<rparr>)"
      by (simp add: wp_bind reader_wp)
  qed
qed simp

lemma read_declarations_wp:
  "reader_inv s \<Longrightarrow> (\<And>t. declared s t \<Longrightarrow> ready (rd_scan t) \<Longrightarrow> Q () t) \<Longrightarrow> wp read_declarations Q s"
  unfolding read_declarations_def by (simp add: reader_wp read_declarations_loop_wp)

end
