(* ===== verification/Rules.thy ===== *)
theory Rules
  imports Declarations
begin

text \<open>
  The second section of a grammar file, \<^verbatim>\<open>read_grammar\<close> of \<^verbatim>\<open>jay/reader.c\<close>: the growing arrays
  \<^verbatim>\<open>pitem\<close>, \<^verbatim>\<open>plhs\<close>, \<^verbatim>\<open>rprec\<close>, \<^verbatim>\<open>rassoc\<close>, the empty rules that stand for actions inside a rule, and the
  copying of actions.  A null pointer in an array is \<open>None\<close>; a list holds what has been written, and
  \<open>rd_maxitems\<close>, \<open>rd_maxrules\<close> are the room the code has allocated.  \<open>end_rule\<close> may look at the slot
  behind the last item, which nothing has written: it reads as null here.  The lemmas relate the
  arrays to a list of productions (\<open>open_rule\<close>, \<open>closed_rules\<close>).
\<close>

section \<open>The rules\<close>

definition store :: "'a list \<Rightarrow> nat \<Rightarrow> 'a \<Rightarrow> 'a list" where
  "store xs i v = take i xs @ [v] @ drop (Suc i) xs"

definition initialize_grammar :: "(reader_state, unit) reads" where
  "initialize_grammar = modify (\<lambda>s. s\<lparr>
     rd_pitem := [None, None, None, None], rd_maxitems := 300,
     rd_nrules := 3, rd_maxrules := 100, rd_plhs := [None, None, None],
     rd_rprec := [0, 0, 0], rd_rassoc := [TOKEN, TOKEN, TOKEN]\<rparr>)"

definition expand_items :: "reader_state \<Rightarrow> reader_state" where
  "expand_items s = s\<lparr>rd_maxitems := rd_maxitems s + 300\<rparr>"

definition expand_rules :: "reader_state \<Rightarrow> reader_state" where
  "expand_rules s = s\<lparr>rd_maxrules := rd_maxrules s + 100\<rparr>"

definition current_lhs :: "(reader_state, nat) reads" where
  "current_lhs = (\<lambda>s. if rd_nrules s < length (rd_plhs s) then
       (case rd_plhs s ! rd_nrules s of None \<Rightarrow> Inl (Internal BadAccess) | Some b \<Rightarrow> Inr (b, s))
     else Inl (Internal BadAccess))"

definition start_rule :: "nat \<Rightarrow> nat \<Rightarrow> (reader_state, unit) reads" where
  "start_rule bp s_lineno =
     bind (bucket_at bp) (\<lambda>b.
       if b_class b = Term then throw (Terminal_lhs s_lineno)
       else andThen (set_bucket bp (\<lambda>b. b\<lparr>b_class := Nonterm\<rparr>))
         (andThen (modify (\<lambda>s. if rd_nrules s \<ge> rd_maxrules s then expand_rules s else s))
           (modify (\<lambda>s. s\<lparr>rd_plhs := store (rd_plhs s) (rd_nrules s) (Some bp),
              rd_rprec := store (rd_rprec s) (rd_nrules s) UNDEFINED,
              rd_rassoc := store (rd_rassoc s) (rd_nrules s) TOKEN\<rparr>))))"

text \<open>The items of the current rule: those after the last null pointer.\<close>

definition current_rhs :: "nat option list \<Rightarrow> nat option list" where
  "current_rhs p = rev (takeWhile (\<lambda>x. x \<noteq> None) (rev p))"

definition default_tag :: "reader_state \<Rightarrow> string option" where
  "default_tag s = (case current_rhs (rd_pitem s) of
     Some b # _ \<Rightarrow> b_tag (st_buckets (rd_syms s) ! b) | _ \<Rightarrow> None)"

definition end_rule :: "(reader_state, unit) reads" where
  "end_rule =
     bind current_lhs (\<lambda>lhs. bind (bucket_at lhs) (\<lambda>b. bind (gets rd_last_was_action) (\<lambda>lwa.
     bind (gets default_tag) (\<lambda>tag. bind (gets (current_rhs \<circ> rd_pitem)) (\<lambda>rhs.
       andThen (unless (lwa \<or> b_tag b = None \<or> (rhs \<noteq> [] \<and> tag = b_tag b)) (warn Default_action))
      (andThen (modify (\<lambda>s. s\<lparr>rd_last_was_action := False\<rparr>))
      (andThen (modify (\<lambda>s. if length (rd_pitem s) \<ge> rd_maxitems s then expand_items s else s))
        (modify (\<lambda>s. s\<lparr>rd_pitem := rd_pitem s @ [None], rd_nrules := Suc (rd_nrules s)\<rparr>)))))))))"

text \<open>\<^verbatim>\<open>while (bpp[0] = bpp[-1]) --bpp\<close>, from index \<open>i\<close> on.\<close>

fun shift_items :: "nat \<Rightarrow> 'a option list \<Rightarrow> 'a option list" where
  "shift_items 0 p = p"
| "shift_items (Suc i) p = (let p' = p[Suc i := p ! i] in if p ! i = None then p' else shift_items i p')"

text \<open>The new bucket, the new item and the new rule before the current one; \<open>tag\<close> is that of its left-hand side.\<close>

definition push_empty_rule :: "string option \<Rightarrow> reader_state \<Rightarrow> reader_state" where
  "push_empty_rule tag s =
     (let gensym = Suc (rd_gensym s);
          bp = length (st_buckets (rd_syms s));
          b = (make_bucket (''$$'' @ show_nat gensym))\<lparr>b_tag := tag, b_class := Nonterm\<rparr>;
          s = s\<lparr>rd_gensym := gensym, rd_syms := append_bucket b (rd_syms s)\<rparr>;
          m = length (rd_pitem s);
          s = (if m + 2 > rd_maxitems s then expand_items s else s);
          s = s\<lparr>rd_pitem := shift_items m (rd_pitem s @ [None, Some bp])\<rparr>;
          n = Suc (rd_nrules s);
          s = s\<lparr>rd_nrules := n\<rparr>;
          s = (if n \<ge> rd_maxrules s then expand_rules s else s)
      in s\<lparr>rd_plhs := store (store (rd_plhs s) n (rd_plhs s ! (n - 1))) (n - 1) (Some bp),
           rd_rprec := store (store (rd_rprec s) n (rd_rprec s ! (n - 1))) (n - 1) 0,
           rd_rassoc := store (store (rd_rassoc s) n (rd_rassoc s ! (n - 1))) (n - 1) TOKEN\<rparr>)"

definition insert_empty_rule :: "(reader_state, unit) reads" where
  "insert_empty_rule =
     bind current_lhs (\<lambda>lhs. bind (bucket_at lhs) (\<lambda>l. modify (push_empty_rule (b_tag l))))"

definition add_item :: "nat \<Rightarrow> reader_state \<Rightarrow> reader_state" where
  "add_item bp s =
     (let s = (if Suc (length (rd_pitem s)) > rd_maxitems s then expand_items s else s)
      in s\<lparr>rd_last_was_action := False, rd_pitem := rd_pitem s @ [Some bp]\<rparr>)"

definition flush_action :: "(reader_state, unit) reads" where
  "flush_action = bind (gets rd_last_was_action) (\<lambda>b. if b then insert_empty_rule else return ())"

definition add_symbol :: "(reader_state, unit) reads" where
  "add_symbol =
     bind lineno (\<lambda>s_lineno. bind (scan peek) (\<lambda>c.
     bind (if c = QUOTE \<or> c = DOUBLE_QUOTE then get_literal else get_name) (\<lambda>bp.
     bind (scan nextc) (\<lambda>c.
       if c = Some (CHR '':'') then
         andThen end_rule (andThen (start_rule bp s_lineno) (scan advance))
       else andThen flush_action (modify (add_item bp))))))"

section \<open>Actions\<close>

definition emit :: "string \<Rightarrow> (reader_state, unit) reads" where
  "emit out = modify (\<lambda>s. s\<lparr>rd_action := rd_action s @ out\<rparr>)"

definition peek_at :: "nat \<Rightarrow> (scanner, char) reads" where
  "peek_at k = (\<lambda>s. if k < length (sc_cptr s) then Inr (sc_cptr s ! k, s) else Inl (Internal BadAccess))"

text \<open>\<^verbatim>\<open>yyVals[%d+yyTop]\<close>, with a cast for a tag other than \<^verbatim>\<open>Object\<close>.\<close>

definition value_text :: "int \<Rightarrow> string" where
  "value_text i = ''yyVals['' @ show_int i @ ''+yyTop]''"

definition cast_text :: "string option \<Rightarrow> string \<Rightarrow> string" where
  "cast_text tag v =
     (case tag of None \<Rightarrow> v | Some t \<Rightarrow> if t = ''Object'' then v else ''(('' @ t @ '')'' @ v @ '')'')"

text \<open>
  \<^verbatim>\<open>$<tag>$\<close>, \<^verbatim>\<open>$<tag>5\<close> and \<^verbatim>\<open>$<tag>-5\<close>.  Without a cast the last prints the tag pointer where the index
  should be: \<open>address\<close> is what \<^verbatim>\<open>%d\<close> makes of a pointer to a tag; a null pointer prints 0.
\<close>

definition dollar_cast :: "(string \<Rightarrow> int) \<Rightarrow> nat \<Rightarrow> srcpos \<Rightarrow> string option \<Rightarrow> (reader_state, unit) reads" where
  "dollar_cast address n d tag =
     bind (scan peek) (\<lambda>c.
       if c = CHR ''$'' then andThen (emit (cast_text tag ''yyVal'')) (scan advance)
       else if isdigit c then
         bind (scan get_number) (\<lambda>i.
           andThen (unless (i \<le> int n) (warn (\<lambda>_. Dollar_warning (pos_lineno d) i)))
             (emit (cast_text tag (value_text (i - int n)))))
       else if c = CHR ''-'' then
         bind (scan (peek_at 1)) (\<lambda>e.
           if isdigit e then
             andThen (scan advance) (bind (scan get_number) (\<lambda>i.
               emit (case tag of None \<Rightarrow> value_text 0
                 | Some t \<Rightarrow> if t = ''Object'' then value_text (address t)
                            else cast_text tag (value_text (- i - int n)))))
           else throw (Dollar_error d))
       else throw (Dollar_error d))"

definition dollar_tag :: "(string \<Rightarrow> int) \<Rightarrow> nat \<Rightarrow> (reader_state, unit) reads" where
  "dollar_tag address n =
     bind (scan here) (\<lambda>d. andThen (scan advance) (bind (get_tag True) (dollar_cast address n d)))"

definition dollar_dollar :: "(reader_state, unit) reads" where
  "dollar_dollar =
     bind (gets rd_tags) (\<lambda>tags. bind current_lhs (\<lambda>lhs. bind (bucket_at lhs) (\<lambda>b.
       andThen (unless (tags = [] \<or> b_tag b \<noteq> None) (warn Untyped_lhs))
      (andThen (emit ''yyVal'') (andThen (scan advance) (scan advance))))))"

definition item_at :: "int \<Rightarrow> (reader_state, nat) reads" where
  "item_at i = (\<lambda>s. if 0 \<le> i \<and> nat i < length (rd_pitem s) then
       (case rd_pitem s ! nat i of None \<Rightarrow> Inl (Internal BadAccess) | Some b \<Rightarrow> Inr (b, s))
     else Inl (Internal BadAccess))"

definition dollar_number :: "nat \<Rightarrow> (reader_state, unit) reads" where
  "dollar_number n =
     andThen (scan advance) (bind (scan get_number) (\<lambda>i. bind lineno (\<lambda>ln. bind (gets rd_tags) (\<lambda>tags.
       if tags \<noteq> [] then
         if i \<le> 0 \<or> i > int n then throw (Unknown_rhs ln i)
         else bind (gets (length \<circ> rd_pitem)) (\<lambda>m. bind (item_at (int m + i - int n - 1)) (\<lambda>bp. bind (bucket_at bp) (\<lambda>b.
           andThen (unless (b_tag b \<noteq> None) (warn (\<lambda>l. Untyped_rhs l i (b_name b))))
             (emit (cast_text (b_tag b) (value_text (i - int n)))))))
       else
         andThen (unless (i \<le> int n) (warn (\<lambda>l. Dollar_warning l i))) (emit (value_text (i - int n)))))))"

definition dollar_minus :: "nat \<Rightarrow> (reader_state, unit) reads" where
  "dollar_minus n =
     andThen (scan advance) (andThen (scan advance) (bind (scan get_number) (\<lambda>i. bind lineno (\<lambda>ln. bind (gets rd_tags) (\<lambda>tags.
       if tags \<noteq> [] then throw (Unknown_rhs ln (- i)) else emit (value_text (- i - int n)))))))"

text \<open>The body of a \<^verbatim>\<open>//\<close> comment, made safe inside the \<^verbatim>\<open>/* */\<close> it becomes.\<close>

fun line_body :: "string \<Rightarrow> string" where
  "line_body [] = []"
| "line_body (c # r) =
     (if c = NEWLINE then []
      else if c = CHR ''*'' \<and> r \<noteq> [] \<and> hd r = CHR ''/'' then ''* '' @ line_body r
      else c # line_body r)"

definition action_slash :: "srcpos \<Rightarrow> srcpos \<Rightarrow> (reader_state, unit) reads" where
  "action_slash a p =
     bind (scan peek) (\<lambda>c.
       if c = CHR ''/'' then
         bind (scan (gets sc_cptr)) (\<lambda>q. andThen (emit (''*'' @ line_body (tl q) @ ''*/'' @ [NEWLINE]))
           (scan (next_line (Unterminated_action a))))
       else if c = CHR ''*'' then
         andThen (scan advance) (bind (scan (with_fuel (\<lambda>k. copy_comment k p ''*''))) emit)
       else return ())"

text \<open>
  One round of the loop: whether the action ends here, and how many braces are open.  The
  first part deals with \<^verbatim>\<open>$\<close> and identifiers, the second is the \<^verbatim>\<open>switch\<close>.
\<close>

definition action_char :: "srcpos \<Rightarrow> int \<Rightarrow> char \<Rightarrow> (reader_state, bool \<times> int) reads" where
  "action_char a depth c =
     bind (scan here) (\<lambda>p. andThen (emit [c]) (andThen (scan advance) (
       if c = NEWLINE then andThen (scan (next_line (Unterminated_action a))) (return (False, depth))
       else if c = CHR '';'' then
         if depth > 0 then return (False, depth)
         else andThen (emit ([NEWLINE] @ ''break;'' @ [NEWLINE])) (return (True, depth))
       else if c = CHR ''{'' then return (False, depth + 1)
       else if c = CHR ''}'' then
         if depth - 1 > 0 then return (False, depth - 1)
         else andThen (emit ([NEWLINE] @ ''break;'' @ [NEWLINE, SP])) (return (True, depth - 1))
       else if c = QUOTE \<or> c = DOUBLE_QUOTE then
         andThen (bind (scan (with_fuel (\<lambda>k. copy_string k p c []))) emit) (return (False, depth))
       else if c = CHR ''/'' then andThen (action_slash a p) (return (False, depth))
       else return (False, depth))))"

definition action_ident :: "char \<Rightarrow> bool" where
  "action_ident c \<longleftrightarrow> isalnum c \<or> c = CHR ''_'' \<or> c = CHR ''$''"

definition action_word :: "(reader_state, unit) reads" where
  "action_word =
     bind (scan (gets sc_cptr)) (\<lambda>p.
       andThen (emit (takeWhile action_ident p)) (scan (set_cptr (dropWhile action_ident p))))"

definition copy_action_step :: "(string \<Rightarrow> int) \<Rightarrow> nat \<Rightarrow> srcpos \<Rightarrow> int \<Rightarrow> (reader_state, bool \<times> int) reads" where
  "copy_action_step address n a depth =
     bind (scan peek) (\<lambda>c.
       if c = CHR ''$'' then
         bind (scan (peek_at 1)) (\<lambda>d. andThen
           (if d = CHR ''<'' then dollar_tag address n
            else if d = CHR ''$'' then dollar_dollar
            else if isdigit d then dollar_number n
            else if d = CHR ''-'' then dollar_minus n
            else action_word) (return (False, depth)))
       else if isalpha c \<or> c = CHR ''_'' then andThen action_word (return (False, depth))
       else action_char a depth c)"

fun copy_action_loop :: "nat \<Rightarrow> (string \<Rightarrow> int) \<Rightarrow> nat \<Rightarrow> srcpos \<Rightarrow> int \<Rightarrow> (reader_state, unit) reads" where
  "copy_action_loop 0 address n a depth = throw Out_of_fuel"
| "copy_action_loop (Suc k) address n a depth =
     bind (copy_action_step address n a depth) (\<lambda>(stop, depth).
       if stop then return () else copy_action_loop k address n a depth)"

definition copy_action :: "(string \<Rightarrow> int) \<Rightarrow> (reader_state, unit) reads" where
  "copy_action address =
     bind (scan here) (\<lambda>a.
     andThen flush_action (andThen (modify (\<lambda>s. s\<lparr>rd_last_was_action := True\<rparr>))
     (bind (gets rd_nrules) (\<lambda>nr. bind lineno (\<lambda>ln. bind (gets rd_file) (\<lambda>file.
     andThen (emit (''case '' @ show_int (int nr - 2) @ '':'' @ [NEWLINE] @ line_comment ln file @ ''  ''))
     (bind (scan peek) (\<lambda>c. andThen (if c = CHR ''='' then scan advance else return ())
     (bind (gets (length \<circ> current_rhs \<circ> rd_pitem)) (\<lambda>n.
       reader_fuel (\<lambda>k. copy_action_loop k address n a 0)))))))))))"

section \<open>The loop over the second section\<close>

text \<open>\<^verbatim>\<open>%prec\<close> and its short form, or \<^verbatim>\<open>%%\<close>, for which the result is true.\<close>

definition set_prec :: "nat \<Rightarrow> (reader_state, unit) reads" where
  "set_prec bp =
     bind (bucket_at bp) (\<lambda>b. bind (gets (\<lambda>s. rd_rprec s ! rd_nrules s)) (\<lambda>p.
       andThen (unless (p = UNDEFINED \<or> b_prec b = p) (warn Prec_redeclared))
         (modify (\<lambda>s. s\<lparr>rd_rprec := store (rd_rprec s) (rd_nrules s) (b_prec b),
            rd_rassoc := store (rd_rassoc s) (rd_nrules s) (b_assoc b)\<rparr>))))"

definition mark_symbol :: "(reader_state, bool) reads" where
  "mark_symbol =
     bind (scan (peek_at 1)) (\<lambda>c. bind (scan (gets sc_cptr)) (\<lambda>p.
       if c = CHR ''%'' \<or> c = BACKSLASH then andThen (scan (set_cptr (drop 2 p))) (return True)
       else if c = CHR ''='' \<or> (map tolower (take 4 (tl p)) = ''prec'' \<and> \<not> IS_IDENT (p ! 5)) then
         andThen (scan (set_cptr (drop (if c = CHR ''='' then 2 else 5) p)))
           (bind (scan nextc) (\<lambda>c. bind (get_symbol c) (\<lambda>b. case b of
               None \<Rightarrow> syntax_error
             | Some bp \<Rightarrow> andThen (set_prec bp) (return False))))
       else syntax_error))"

fun skip_declarations :: "nat \<Rightarrow> (reader_state, unit) reads" where
  "skip_declarations 0 = throw Out_of_fuel"
| "skip_declarations (Suc k) =
     bind (scan nextc) (\<lambda>c.
       if c \<noteq> Some (CHR ''%'') then return ()
       else bind (scan here) (\<lambda>s_cptr. bind (scan keyword) (\<lambda>kw.
         if kw = MARK then bind lineno (\<lambda>n. throw (No_grammar n))
         else if kw = TEXT then andThen (copy_to (\<lambda>out s. s\<lparr>rd_local := rd_local s @ out\<rparr>)) (skip_declarations k)
         else if kw = START then andThen declare_start (skip_declarations k)
         else throw (Syntax_error s_cptr))))"

definition advance_to_start :: "(reader_state, unit) reads" where
  "advance_to_start =
     andThen (reader_fuel skip_declarations)
       (bind (scan nextc) (\<lambda>c.
          if \<not> (name_start c \<and> c \<noteq> Some (CHR ''$'')) then syntax_error
          else bind get_name (\<lambda>bp. bind (bucket_at bp) (\<lambda>b. bind (gets rd_goal) (\<lambda>goal. bind lineno (\<lambda>n.
            andThen (if goal = None then
                if b_class b = Term then throw (Terminal_start n (b_name b))
                else modify (\<lambda>s. s\<lparr>rd_goal := Some bp\<rparr>)
              else return ())
            (bind nextc_EOF (\<lambda>c.
               if c \<noteq> CHR '':'' then syntax_error
               else andThen (start_rule bp n) (scan advance)))))))))"

definition alternative :: "(reader_state, unit) reads" where
  "alternative =
     andThen end_rule (bind (gets (\<lambda>s. rd_plhs s ! (rd_nrules s - 1))) (\<lambda>lhs. case lhs of
         None \<Rightarrow> throw (Internal BadAccess)
       | Some bp \<Rightarrow> andThen (start_rule bp 0) (scan advance)))"

fun read_rules :: "nat \<Rightarrow> (string \<Rightarrow> int) \<Rightarrow> (reader_state, unit) reads" where
  "read_rules 0 address = throw Out_of_fuel"
| "read_rules (Suc k) address =
     bind (scan nextc) (\<lambda>c.
       if c = None then return ()
       else if name_start c \<or> literal_start c then andThen add_symbol (read_rules k address)
       else if c = Some (CHR ''{'') \<or> c = Some (CHR ''='') then andThen (copy_action address) (read_rules k address)
       else if c = Some (CHR ''|'') then andThen alternative (read_rules k address)
       else if c = Some (CHR ''%'') then
         bind mark_symbol (\<lambda>stop. if stop then return () else read_rules k address)
       else syntax_error)"

definition read_grammar :: "(string \<Rightarrow> int) \<Rightarrow> (reader_state, unit) reads" where
  "read_grammar address =
     andThen initialize_grammar (andThen advance_to_start
       (andThen (reader_fuel (\<lambda>k. read_rules k address)) end_rule))"

declare copy_action_loop.simps(2) [simp del] skip_declarations.simps(2) [simp del] read_rules.simps(2) [simp del]

section \<open>The arrays as productions\<close>

text \<open>A production is a left-hand side with the items of its right-hand side, all of them buckets.\<close>

type_synonym production = "nat \<times> nat list"

definition is_var :: "symtab \<Rightarrow> nat \<Rightarrow> bool" where
  "is_var st b \<longleftrightarrow> b < length (st_buckets st) \<and> b_class (st_buckets st ! b) = Nonterm"

definition prods_ok :: "symtab \<Rightarrow> production list \<Rightarrow> bool" where
  "prods_ok st rs \<longleftrightarrow> (\<forall>(l, r) \<in> set rs. is_var st l \<and> (\<forall>b \<in> set r. b < length (st_buckets st)))"

definition prods_items :: "production list \<Rightarrow> nat option list" where
  "prods_items rs = concat (map (\<lambda>(l, r). map Some r @ [None]) rs)"

text \<open>After \<open>start_rule\<close>: the finished productions, and the left-hand side and items of the current one.\<close>

definition open_rule :: "reader_state \<Rightarrow> production list \<Rightarrow> nat \<Rightarrow> nat list \<Rightarrow> bool" where
  "open_rule s rs l cur \<longleftrightarrow>
     rd_pitem s = replicate 4 None @ prods_items rs @ map Some cur \<and>
     rd_plhs s = replicate 3 None @ map (Some \<circ> fst) rs @ [Some l] \<and>
     rd_nrules s = length rs + 3 \<and> length (rd_rprec s) = length rs + 4 \<and> length (rd_rassoc s) = length rs + 4 \<and>
     length (rd_pitem s) \<le> rd_maxitems s \<and> rd_nrules s < rd_maxrules s \<and>
     prods_ok (rd_syms s) rs \<and> is_var (rd_syms s) l \<and> (\<forall>b \<in> set cur. b < length (st_buckets (rd_syms s)))"

text \<open>After \<open>end_rule\<close>.\<close>

definition closed_rules :: "reader_state \<Rightarrow> production list \<Rightarrow> bool" where
  "closed_rules s rs \<longleftrightarrow>
     rd_pitem s = replicate 4 None @ prods_items rs \<and> rd_plhs s = replicate 3 None @ map (Some \<circ> fst) rs \<and>
     rd_nrules s = length rs + 3 \<and> length (rd_rprec s) = length rs + 3 \<and> length (rd_rassoc s) = length rs + 3 \<and>
     length (rd_pitem s) \<le> rd_maxitems s \<and> rd_nrules s \<le> rd_maxrules s \<and> prods_ok (rd_syms s) rs"

lemma is_var_le: "is_var st b \<Longrightarrow> syms_le st st' \<Longrightarrow> is_var st' b"
  by (auto simp: is_var_def syms_le_def)

lemma prods_ok_le: "prods_ok st rs \<Longrightarrow> syms_le st st' \<Longrightarrow> prods_ok st' rs"
  unfolding prods_ok_def by (fastforce simp: syms_le_def intro: is_var_le)

lemma open_rule_cong:
  assumes "open_rule s rs l cur" "rules_part t = rules_part s" "syms_le (rd_syms s) (rd_syms t)"
  shows "open_rule t rs l cur"
  using assms prods_ok_le [of "rd_syms s" rs "rd_syms t"] is_var_le [of "rd_syms s" l "rd_syms t"]
  by (auto simp: open_rule_def rules_part_def syms_le_def)

lemma closed_rules_cong:
  assumes "closed_rules s rs" "rules_part t = rules_part s" "syms_le (rd_syms s) (rd_syms t)"
  shows "closed_rules t rs"
  using assms prods_ok_le [of "rd_syms s" rs "rd_syms t"] by (auto simp: closed_rules_def rules_part_def)

lemma rules_part_frame' [simp]:
  "rules_part (s\<lparr>rd_action := out\<rparr>) = rules_part s" "rules_part (s\<lparr>rd_gensym := n\<rparr>) = rules_part s"
  by (simp_all add: rules_part_def)

lemma open_rule_lwa [simp]: "open_rule (s\<lparr>rd_last_was_action := x\<rparr>) rs l cur = open_rule s rs l cur"
  by (simp add: open_rule_def)

lemma reader_inv_frame [simp]:
  "reader_inv (s\<lparr>rd_last_was_action := x\<rparr>) = reader_inv s" "reader_inv (s\<lparr>rd_action := out\<rparr>) = reader_inv s"
  "reader_inv (s\<lparr>rd_warnings := ws\<rparr>) = reader_inv s" "reader_inv (s\<lparr>rd_tags := tags\<rparr>) = reader_inv s"
  "reader_inv (s\<lparr>rd_prolog := out\<rparr>) = reader_inv s" "reader_inv (s\<lparr>rd_local := out\<rparr>) = reader_inv s"
  by (simp_all add: reader_inv_def)

lemma store_append: "store xs (length xs) v = xs @ [v]"
  by (simp add: store_def)

lemma store_append': "length xs = n \<Longrightarrow> store xs n v = xs @ [v]"
  by (auto simp: store_def)

lemma store_length: "i < length xs \<Longrightarrow> length (store xs i v) = length xs"
  by (simp add: store_def)

lemma store_snoc2: "store (store (xs @ [a]) (Suc (length xs)) a) (length xs) v = xs @ [v, a]"
  by (simp add: store_def)

lemma current_rhs_items:
  "current_rhs (replicate 4 None @ prods_items rs @ map Some cur) = map Some cur"
proof -
  have "\<exists>q. replicate 4 None @ prods_items rs = q @ [None :: nat option]"
  proof (cases rs rule: rev_cases)
    case Nil
    then show ?thesis by (intro exI [of _ "replicate 3 None"]) (simp add: prods_items_def numeral_nat)
  next
    case (snoc qs p)
    then show ?thesis by (auto simp: prods_items_def split: prod.splits)
  qed
  then obtain q where "replicate 4 None @ prods_items rs = q @ [None :: nat option]" by blast
  then have e: "replicate 4 None @ prods_items rs @ map Some cur = q @ [None] @ map Some cur" by (metis append_assoc)
  have r: "rev (q @ [None] @ map Some cur) = rev (map Some cur) @ None # rev q" by simp
  have t: "takeWhile (\<lambda>x. x \<noteq> None) (rev (map Some cur) @ None # rev q) = rev (map Some cur)"
    by (subst takeWhile_append2) (auto simp: rev_map [symmetric])
  show ?thesis by (simp only: current_rhs_def e r t rev_rev_ident)
qed

lemma shift_items_append:
  "shift_items i (p @ q) = shift_items i p @ q" if "i < length p" for p q :: "'a option list"
  using that
proof (induction i arbitrary: p)
  case (Suc i)
  then show ?case by (simp add: Let_def list_update_append nth_append)
qed simp

lemma shift_items_block:
  "shift_items (length p + length cur + 1) (p @ [None] @ map Some cur @ [x]) = p @ [None, None] @ map Some cur"
proof (induction cur arbitrary: x rule: rev_induct)
  case Nil
  then show ?case by (simp add: Let_def nth_append list_update_append)
next
  case (snoc c cur)
  let ?p = "p @ [None] @ map Some cur @ [Some c, x]"
  have n: "?p ! (length p + length cur + 1) = Some c" by (simp add: nth_append)
  have u: "?p[Suc (length p + length cur + 1) := Some c] = (p @ [None] @ map Some cur @ [Some c]) @ [Some c]"
    by (simp add: list_update_append)
  have "shift_items (length p + length (cur @ [c]) + 1) (p @ [None] @ map Some (cur @ [c]) @ [x]) =
      shift_items (length p + length cur + 1) ((p @ [None] @ map Some cur @ [Some c]) @ [Some c])"
    using n u by (simp add: Let_def)
  also have "\<dots> = shift_items (length p + length cur + 1) (p @ [None] @ map Some cur @ [Some c]) @ [Some c]"
    by (rule shift_items_append) simp
  also have "\<dots> = p @ [None, None] @ map Some (cur @ [c])" using snoc [of "Some c"] by simp
  finally show ?case .
qed

text \<open>
  The shifting loop of \<^verbatim>\<open>insert_empty_rule\<close> moves the items of the current rule up by one, so that an
  empty rule stands before it, and leaves room for one more item.
\<close>

theorem shift_items_correct:
  "shift_items (length p + length cur + 1) (p @ [None] @ map Some cur @ [x, y]) = p @ [None, None] @ map Some cur @ [y]"
  using shift_items_append [of "length p + length cur + 1" "p @ [None] @ map Some cur @ [x]" "[y]"]
    shift_items_block [of p cur x] by simp

lemma prods_items_snoc: "prods_items (rs @ [(l, r)]) = prods_items rs @ map Some r @ [None]"
  by (simp add: prods_items_def)

lemma prods_ok_snoc: "prods_ok st (rs @ [(l, r)]) \<longleftrightarrow> prods_ok st rs \<and> is_var st l \<and> (\<forall>b \<in> set r. b < length (st_buckets st))"
  by (auto simp: prods_ok_def)

section \<open>Rules for the rules\<close>

lemma current_lhs_wp:
  "open_rule s rs l cur \<Longrightarrow> Q l s \<Longrightarrow> wp current_lhs Q s"
  by (simp add: wp_def current_lhs_def open_rule_def nth_append)

lemma open_rule_lhs: "open_rule s rs l cur \<Longrightarrow> is_var (rd_syms s) l"
  by (simp add: open_rule_def)

lemma start_rule_wp:
  assumes s: "reader_inv s" and c: "closed_rules s rs" and b: "b < length (st_buckets (rd_syms s))"
    and q: "b_class (st_buckets (rd_syms s) ! b) = Term \<or> \<not> quoted (b_name (st_buckets (rd_syms s) ! b))"
    and Q: "\<And>t. rd_scan t = rd_scan s \<Longrightarrow> reader_inv t \<Longrightarrow> open_rule t rs b [] \<Longrightarrow> rd_goal t = rd_goal s \<Longrightarrow> Q () t"
  shows "wp (start_rule b n) Q s"
proof -
  let ?f = "\<lambda>x. x\<lparr>b_class := Nonterm\<rparr>"
  let ?st = "upd_bucket b ?f (rd_syms s)"
  {
    assume nt: "b_class (st_buckets (rd_syms s) ! b) \<noteq> Term"
    have g: "sym_inv (rd_syms s) (rd_goal s)" using s by (simp add: reader_inv_def)
    have b0: "b \<noteq> 0" using bucket_okD [OF g b] nt unfolding bucket_ok_def by blast
    have "sym_inv ?st (rd_goal s)"
      by (rule sym_inv_upd [OF g b]) (use b0 nt q bucket_okD [OF g b] in \<open>auto simp: bucket_ok_def\<close>)
    moreover have "prods_ok ?st rs"
      using c by (intro prods_ok_le [OF _ syms_le_upd]) (auto simp: closed_rules_def)
    moreover have "is_var ?st b" using b by (simp add: is_var_def)
    ultimately have "Q () (u\<lparr>rd_plhs := store (rd_plhs s) (rd_nrules s) (Some b),
        rd_rprec := store (rd_rprec s) (rd_nrules s) UNDEFINED, rd_rassoc := store (rd_rassoc s) (rd_nrules s) TOKEN\<rparr>)"
      if "u = (if rd_nrules s \<ge> rd_maxrules s then expand_rules (s\<lparr>rd_syms := ?st\<rparr>) else s\<lparr>rd_syms := ?st\<rparr>)" for u
      using s c that by (intro Q) (auto simp: reader_inv_def open_rule_def closed_rules_def expand_rules_def store_append')
  }
  then show ?thesis
    by (auto simp: start_rule_def wp_simps expand_rules_def split: if_splits)
qed

lemma end_rule_wp:
  assumes s: "reader_inv s" and o: "open_rule s rs l cur"
    and Q: "\<And>t. rd_scan t = rd_scan s \<Longrightarrow> reader_inv t \<Longrightarrow> closed_rules t (rs @ [(l, cur)]) \<Longrightarrow>
      rd_syms t = rd_syms s \<Longrightarrow> rd_goal t = rd_goal s \<Longrightarrow> Q () t"
  shows "wp end_rule Q s"
  unfolding end_rule_def wp_bind
  by (rule current_lhs_wp [OF o])
    (use s o in \<open>auto simp: wp_simps expand_items_def reader_inv_def open_rule_def closed_rules_def
      prods_items_snoc prods_ok_snoc intro!: Q\<close>)

lemma insert_empty_rule_wp:
  assumes s: "reader_inv s" and o: "open_rule s rs l cur"
    and Q: "\<And>t b. rd_scan t = rd_scan s \<Longrightarrow> reader_inv t \<Longrightarrow> open_rule t (rs @ [(b, [])]) l (cur @ [b]) \<Longrightarrow>
      b = length (st_buckets (rd_syms s)) \<Longrightarrow> syms_le (rd_syms s) (rd_syms t) \<Longrightarrow> rd_goal t = rd_goal s \<Longrightarrow> Q () t"
  shows "wp insert_empty_rule Q s"
proof -
  let ?b = "length (st_buckets (rd_syms s))"
  define x where x_def: "x = (make_bucket (''$$'' @ show_nat (Suc (rd_gensym s))))\<lparr>
    b_tag := b_tag (st_buckets (rd_syms s) ! l), b_class := Nonterm\<rparr>"
  let ?st = "append_bucket x (rd_syms s)"
  have g: "sym_inv (rd_syms s) (rd_goal s)" using s by (simp add: reader_inv_def)
  have st: "st_buckets ?st = st_buckets (rd_syms s) @ [x]" by (simp add: append_bucket_def)
  have nq: "\<not> quoted (b_name x)" and nt: "b_class x = Nonterm"
    by (simp_all add: x_def quoted_def QUOTE_def DOUBLE_QUOTE_def make_bucket_def)
  have "bucket_ok (rd_goal s) ?b x" using g nq nt by (auto simp: sym_inv_def bucket_ok_def)
  then have "bucket_ok (rd_goal s) c (st_buckets ?st ! c)" if "c < length (st_buckets ?st)" for c
    using that bucket_okD [OF g, of c] by (auto simp: st nth_append less_Suc_eq)
  then have inv: "sym_inv ?st (rd_goal s)"
    using g symtab_ok_append(1) [of "rd_syms s" x] by (auto simp: sym_inv_def st)
  have le: "syms_le (rd_syms s) ?st" by (auto simp: syms_le_def st nth_append)
  have v: "is_var ?st ?b" using nt by (simp add: is_var_def st)
  have p: "prods_ok ?st rs" "is_var ?st l" "\<forall>c \<in> set cur. c < length (st_buckets ?st)"
    using o prods_ok_le [OF _ le] is_var_le [OF _ le] by (auto simp: open_rule_def st less_Suc_eq)
  obtain q where q: "replicate 4 None @ prods_items rs = q @ [None]"
  proof (cases rs rule: rev_cases)
    case Nil
    then show thesis using that [of "replicate 3 None"] by (simp add: prods_items_def numeral_nat)
  next
    case (snoc qs pr)
    then show thesis using that by (cases pr) (auto simp: prods_items_snoc)
  qed
  have items: "shift_items (length (rd_pitem s)) (rd_pitem s @ [None, Some ?b]) =
      replicate 4 None @ prods_items (rs @ [(?b, [])]) @ map Some (cur @ [?b])"
  proof -
    have "rd_pitem s = q @ [None] @ map Some cur" using o q by (simp add: open_rule_def)
    moreover have "replicate 4 None @ prods_items rs @ None # map Some cur @ [Some ?b] = q @ None # None # map Some cur @ [Some ?b]"
      using q by (metis append_assoc append_Cons append_Nil)
    ultimately show ?thesis
      using shift_items_correct [of q cur None "Some ?b"] by (simp add: prods_items_snoc)
  qed
  have before: "store (store xs (Suc (length rs + 3)) (xs ! (length rs + 3))) (length rs + 3) v = take (length rs + 3) xs @ [v, last xs]"
    if len: "length xs = length rs + 4" for xs :: "'b list" and v
  proof -
    obtain ys y where "xs = ys @ [y]" "length ys = length rs + 3" using len by (cases xs rule: rev_cases) auto
    with store_snoc2 [of ys y v] show ?thesis by (simp add: nth_append)
  qed
  have plhs: "store (store (rd_plhs s) (Suc (length rs + 3)) (rd_plhs s ! (length rs + 3))) (length rs + 3) (Some ?b) =
      replicate 3 None @ map (Some \<circ> fst) (rs @ [(?b, [])]) @ [Some l]"
    using before [of "rd_plhs s" "Some ?b"] o by (simp add: open_rule_def)
  have arrs: "length (store (store (rd_rprec s) (Suc (length rs + 3)) (rd_rprec s ! (length rs + 3))) (length rs + 3) v) = length rs + 5"
    "length (store (store (rd_rassoc s) (Suc (length rs + 3)) (rd_rassoc s ! (length rs + 3))) (length rs + 3) w) = length rs + 5" for v w
    using before [of "rd_rprec s" v] before [of "rd_rassoc s" w] o by (simp_all add: open_rule_def)
  have n: "rd_nrules s = length rs + 3" using o by (simp add: open_rule_def)
  let ?t = "push_empty_rule (b_tag (st_buckets (rd_syms s) ! l)) s"
  have t: "rd_scan ?t = rd_scan s" "rd_goal ?t = rd_goal s" "rd_syms ?t = ?st" "rd_nrules ?t = length rs + 4"
    "rd_pitem ?t = shift_items (length (rd_pitem s)) (rd_pitem s @ [None, Some ?b])"
    "rd_plhs ?t = store (store (rd_plhs s) (Suc (length rs + 3)) (rd_plhs s ! (length rs + 3))) (length rs + 3) (Some ?b)"
    "length (rd_rprec ?t) = length rs + 5" "length (rd_rassoc ?t) = length rs + 5"
    "length (rd_pitem s) + 2 \<le> rd_maxitems s + 300 \<Longrightarrow> length (rd_pitem s) + 2 \<le> rd_maxitems ?t"
    "rd_nrules s < rd_maxrules s \<Longrightarrow> rd_nrules ?t < rd_maxrules ?t"
    using n arrs by (simp_all add: push_empty_rule_def Let_def expand_items_def expand_rules_def x_def)
  have len: "length (rd_pitem ?t) = length (rd_pitem s) + 2"
    using o unfolding t(5) items by (simp add: open_rule_def prods_items_snoc)
  have tp: "rd_pitem ?t = replicate 4 None @ prods_items (rs @ [(?b, [])]) @ map Some (cur @ [?b])"
    using t(5) items by (rule trans)
  have tl: "rd_plhs ?t = replicate 3 None @ map (Some \<circ> fst) (rs @ [(?b, [])]) @ [Some l]"
    using t(6) plhs by (rule trans)
  have room: "length (rd_pitem ?t) \<le> rd_maxitems ?t" "rd_nrules ?t < rd_maxrules ?t"
    using o t(9,10) len unfolding open_rule_def by linarith+
  have pr: "prods_ok (rd_syms ?t) (rs @ [(?b, [])])" "is_var (rd_syms ?t) l"
    "\<forall>c \<in> set (cur @ [?b]). c < length (st_buckets (rd_syms ?t))"
    using p v st unfolding t(3) by (simp_all add: prods_ok_snoc)
  have "Q () ?t"
  proof (rule Q [OF t(1) _ _ refl])
    show "reader_inv ?t" using s inv by (simp add: reader_inv_def t)
    show "open_rule ?t (rs @ [(?b, [])]) l (cur @ [?b])"
      unfolding open_rule_def by (intro conjI tp tl room pr) (simp_all add: t(4,7,8))
  qed (use le t in simp_all)
  then show ?thesis
    unfolding insert_empty_rule_def wp_bind wp_basic reader_wp by (rule current_lhs_wp [OF o])
qed

text \<open>A rule is under construction, and the start symbol is known.\<close>

definition in_rule :: "reader_state \<Rightarrow> bool" where
  "in_rule s \<longleftrightarrow> reader_inv s \<and> rd_goal s \<noteq> None \<and> (\<exists>rs l cur. open_rule s rs l cur)"

lemma in_ruleI: "reader_inv s \<Longrightarrow> open_rule s rs l cur \<Longrightarrow> rd_goal s \<noteq> None \<Longrightarrow> in_rule s"
  by (auto simp: in_rule_def)

lemma in_rule_cong:
  assumes "in_rule s" "reader_inv t" "rules_part t = rules_part s" "syms_le (rd_syms s) (rd_syms t)" "rd_goal t = rd_goal s"
  shows "in_rule t"
proof -
  obtain rs l cur where "open_rule s rs l cur" "rd_goal s \<noteq> None" using assms(1) by (auto simp: in_rule_def)
  with open_rule_cong [OF _ assms(3,4)] assms(2,5) show ?thesis by (intro in_ruleI) auto
qed

lemma in_rule_lwa: "in_rule (s\<lparr>rd_last_was_action := x\<rparr>) = in_rule s"
  by (simp add: in_rule_def)

lemma flush_action_wp:
  assumes "in_rule s"
    and "\<And>t. in_rule t \<Longrightarrow> rd_scan t = rd_scan s \<Longrightarrow> syms_le (rd_syms s) (rd_syms t) \<Longrightarrow> rd_goal t = rd_goal s \<Longrightarrow> Q () t"
  shows "wp flush_action Q s"
proof -
  obtain rs l cur where s: "reader_inv s" "open_rule s rs l cur" "rd_goal s \<noteq> None" using assms(1) by (auto simp: in_rule_def)
  have "wp insert_empty_rule Q s"
    by (rule insert_empty_rule_wp [OF s(1,2)]) (use s(3) in \<open>auto intro!: assms(2) in_ruleI\<close>)
  then show ?thesis using assms by (simp add: flush_action_def wp_simps)
qed

lemma add_item_in_rule:
  assumes "in_rule s" "b < length (st_buckets (rd_syms s))"
  shows "in_rule (add_item b s)" "rd_scan (add_item b s) = rd_scan s"
proof -
  obtain rs l cur where s: "reader_inv s" "open_rule s rs l cur" using assms(1) by (auto simp: in_rule_def)
  have "open_rule (add_item b s) rs l (cur @ [b])"
    using s(2) assms(2) by (auto simp: open_rule_def add_item_def expand_items_def Let_def)
  moreover have "reader_inv (add_item b s)"
    using s(1) by (simp add: reader_inv_def add_item_def expand_items_def Let_def)
  moreover have "rd_goal (add_item b s) \<noteq> None"
    using assms(1) by (simp add: in_rule_def add_item_def expand_items_def Let_def)
  ultimately show "in_rule (add_item b s)" by (intro in_ruleI)
  show "rd_scan (add_item b s) = rd_scan s" by (simp add: add_item_def expand_items_def Let_def)
qed

text \<open>The step from one rule to the next.\<close>

lemma next_rule_wp:
  assumes s: "in_rule s" and b: "b < length (st_buckets (rd_syms s))"
    and q: "b_class (st_buckets (rd_syms s) ! b) = Term \<or> \<not> quoted (b_name (st_buckets (rd_syms s) ! b))"
    and sc: "ready (rd_scan s)" "hd (sc_cptr (rd_scan s)) \<noteq> NEWLINE"
    and Q: "\<And>t. in_rule t \<Longrightarrow> todo (rd_scan t) < todo (rd_scan s) \<Longrightarrow> Q () t"
  shows "wp (andThen end_rule (andThen (start_rule b n) (scan advance))) Q s"
proof -
  obtain rs l cur where o: "reader_inv s" "open_rule s rs l cur" and gl: "rd_goal s \<noteq> None" using s by (auto simp: in_rule_def)
  have "wp (start_rule b n) (\<lambda>_. wp (scan advance) Q) t"
    if t: "rd_scan t = rd_scan s" "reader_inv t" "closed_rules t (rs @ [(l, cur)])" "rd_syms t = rd_syms s" "rd_goal t = rd_goal s" for t
  proof (rule start_rule_wp [OF t(2,3)])
    fix u assume u: "rd_scan u = rd_scan t" "reader_inv u" "open_rule u (rs @ [(l, cur)]) b []" "rd_goal u = rd_goal t"
    show "wp (scan advance) Q u"
      unfolding reader_wp
    proof (rule advance_wp)
      have r: "ready ((rd_scan s)\<lparr>sc_cptr := tl (sc_cptr (rd_scan s))\<rparr>)" by (rule ready_tl [OF sc])
      have "in_rule (u\<lparr>rd_scan := (rd_scan s)\<lparr>sc_cptr := tl (sc_cptr (rd_scan s))\<rparr>\<rparr>)"
        by (rule in_rule_cong [OF in_ruleI [OF u(2,3)]]) (use u(2,4) t(5) gl r in \<open>auto simp: reader_inv_def\<close>)
      then show "Q () (u\<lparr>rd_scan := (rd_scan u)\<lparr>sc_cptr := tl (sc_cptr (rd_scan u))\<rparr>\<rparr>)"
        using u(1) t(1) todo_tl [OF ready_not_Nil [OF sc(1)]] by (intro Q) auto
    qed (use u(1) t(1) sc(1) in simp)
  qed (use b q t(4) in simp_all)
  then show ?thesis
    unfolding wp_andThen by (intro end_rule_wp [OF o])
qed

lemma add_symbol_wp:
  assumes s: "in_rule s" and c: "nextc_post c (rd_scan s)" "name_start c \<or> literal_start c"
    and Q: "\<And>t. in_rule t \<Longrightarrow> todo (rd_scan t) < todo (rd_scan s) \<Longrightarrow> Q () t"
  shows "wp add_symbol Q s"
proof -
  have g: "sym_inv (rd_syms s) (rd_goal s)" using s by (auto simp: in_rule_def reader_inv_def)
  obtain d where d: "c = Some d" using c(2) by (cases c) (auto simp: name_start_def literal_start_def)
  have d': "d \<noteq> CHR ''%''" using c(2) unfolding d by (auto simp: name_start_def literal_start_def ctype_defs)
  note post = nextc_postD [OF c(1) [unfolded d]]
  have h: "hd (sc_cptr (rd_scan s)) = d" using post(2) d' by simp
  have rest: "wp (scan nextc) (\<lambda>e. wp (if e = Some (CHR '':'') then
         andThen end_rule (andThen (start_rule b n) (scan advance))
       else andThen flush_action (modify (add_item b))) Q) (s\<lparr>rd_scan := sc, rd_syms := st\<rparr>)"
    if st: "ready sc" "todo sc < todo (rd_scan s)" "sym_inv st (rd_goal s)" "syms_le (rd_syms s) st"
      "b < length (st_buckets st)" "b_class (st_buckets st ! b) = Term \<or> \<not> quoted (b_name (st_buckets st ! b))" for b n sc st
    unfolding reader_wp
  proof (rule nextc_wp)
    fix e sc' assume e: "nextc_post e sc'" "todo sc' \<le> todo (rd_scan (s\<lparr>rd_scan := sc, rd_syms := st\<rparr>))"
    let ?t = "s\<lparr>rd_syms := st, rd_scan := sc'\<rparr>"
    have i: "in_rule ?t"
      by (rule in_rule_cong [OF s]) (use st e nextc_post_scan_ok [OF e(1)] in \<open>auto simp: reader_inv_def\<close>)
    have "wp (andThen end_rule (andThen (start_rule b n) (scan advance))) Q ?t" if "e = Some (CHR '':'')"
      by (rule next_rule_wp [OF i]) (use st e(2) nextc_postD(1,3) [OF e(1) [unfolded that]] Q in auto)
    moreover have "wp flush_action (\<lambda>_ t. Q () (add_item b t)) ?t"
    proof (rule flush_action_wp [OF i])
      fix t assume t: "in_rule t" "rd_scan t = rd_scan ?t" "syms_le (rd_syms ?t) (rd_syms t)"
      have "b < length (st_buckets (rd_syms t))" using t(3) st(5) by (simp add: syms_le_def)
      from add_item_in_rule [OF t(1) this] show "Q () (add_item b t)" using t(2) st(2) e(2) by (intro Q) auto
    qed
    ultimately show "wp (if e = Some (CHR '':'') then
         andThen end_rule (andThen (start_rule b n) (scan advance))
       else andThen flush_action (modify (add_item b))) Q (s\<lparr>rd_scan := sc, rd_syms := st, rd_scan := sc'\<rparr>)"
      by (simp add: wp_andThen wp_basic)
  qed (use st in simp)
  have "wp (if d = QUOTE \<or> d = DOUBLE_QUOTE then get_literal else get_name) (\<lambda>b. wp (scan nextc) (\<lambda>e. wp (if e = Some (CHR '':'') then
         andThen end_rule (andThen (start_rule b n) (scan advance))
       else andThen flush_action (modify (add_item b))) Q)) s" for n
  proof (cases "d = QUOTE \<or> d = DOUBLE_QUOTE")
    case True
    show ?thesis
      unfolding if_P [OF True] by (rule get_literal_wp [OF post(1,3) g]) (rule rest, auto)
  next
    case False
    then have "IS_IDENT (hd (sc_cptr (rd_scan s)))"
      using c(2) unfolding h by (auto simp: d name_start_def literal_start_def ctype_defs)
    then show ?thesis
      unfolding if_not_P [OF False] by (rule get_name_wp [OF post(1) _ g]) (rule rest, auto)
  qed
  then show ?thesis
    unfolding add_symbol_def wp_bind reader_wp by (intro peek_wp post(1)) (simp add: h wp_bind reader_wp)
qed

section \<open>Rules for actions\<close>

text \<open>Copying an action reads on, writes to the action file and may warn; nothing else changes.\<close>

definition acted :: "reader_state \<Rightarrow> reader_state \<Rightarrow> bool" where
  "acted s t \<longleftrightarrow> ready (rd_scan t) \<and> todo (rd_scan t) < todo (rd_scan s) \<and> rd_syms t = rd_syms s \<and>
     rd_goal t = rd_goal s \<and> rules_part t = rules_part s"

lemma emit_wp [wp_simps]: "wp (emit out) Q = (\<lambda>s. Q () (s\<lparr>rd_action := rd_action s @ out\<rparr>))"
  by (simp add: emit_def wp_simps)

lemma peek_at_wp: "k < length (sc_cptr s) \<Longrightarrow> Q (sc_cptr s ! k) s \<Longrightarrow> wp (peek_at k) Q s"
  by (simp add: wp_def peek_at_def)

lemma two_chars: "ready s \<Longrightarrow> hd (sc_cptr s) \<noteq> NEWLINE \<Longrightarrow> 1 < length (sc_cptr s) \<and> sc_cptr s ! 1 = hd (tl (sc_cptr s))"
  using readyD [OF ready_tl [of s]] by (cases "sc_cptr s"; cases "tl (sc_cptr s)") auto

lemma acted_frame [simp]:
  "acted s (t\<lparr>rd_action := out\<rparr>) = acted s t" "acted s (t\<lparr>rd_warnings := ws\<rparr>) = acted s t"
  "acted s (t\<lparr>rd_tags := tags\<rparr>) = acted s t"
  by (simp_all add: acted_def)

lemma acted_scan: "ready sc \<Longrightarrow> todo sc < todo (rd_scan s) \<Longrightarrow> acted s (s\<lparr>rd_scan := sc\<rparr>)"
  by (simp add: acted_def)

lemma acted_on: "acted s t \<Longrightarrow> ready sc \<Longrightarrow> todo sc \<le> todo (rd_scan t) \<Longrightarrow> acted s (t\<lparr>rd_scan := sc\<rparr>)"
  by (simp add: acted_def)

lemma acted_ready: "acted s t \<Longrightarrow> ready (rd_scan t)"
  by (simp add: acted_def)

lemma advance_step:
  assumes "ready sc" "hd (sc_cptr sc) \<noteq> NEWLINE"
    and "\<And>sc'. ready sc' \<Longrightarrow> todo sc' < todo sc \<Longrightarrow> sc_cptr sc' = tl (sc_cptr sc) \<Longrightarrow> Q () sc'"
  shows "wp advance Q sc"
  using assms(1,2) ready_tl [OF assms(1,2)] todo_tl [OF ready_not_Nil [OF assms(1)]]
  by (intro advance_wp assms(3)) auto

lemma acted_advance: "acted s t \<Longrightarrow> hd (sc_cptr (rd_scan t)) \<noteq> NEWLINE \<Longrightarrow> wp (scan advance) (\<lambda>_. acted s) t"
  unfolding reader_wp by (rule advance_step [OF acted_ready]) (auto intro: acted_on)

lemma acted_number: "acted s t \<Longrightarrow> wp (scan get_number) (\<lambda>_. acted s) t"
  unfolding reader_wp by (rule get_number_wp [OF acted_ready]) (auto intro: acted_on)

lemma acted_number_then:
  "acted s t \<Longrightarrow> (\<And>i u. acted s u \<Longrightarrow> Q i u) \<Longrightarrow> wp (scan get_number) Q t"
  using wp_mono [OF acted_number] by blast

lemma acted_advance_then:
  "acted s t \<Longrightarrow> hd (sc_cptr (rd_scan t)) \<noteq> NEWLINE \<Longrightarrow> (\<And>u. acted s u \<Longrightarrow> Q () u) \<Longrightarrow> wp (scan advance) Q t"
  using wp_mono [OF acted_advance] by (metis (full_types) old.unit.exhaust)

lemma acted_peek_then:
  "acted s t \<Longrightarrow> Q (hd (sc_cptr (rd_scan t))) t \<Longrightarrow> wp (scan peek) Q t"
  unfolding reader_wp by (rule peek_wp [OF acted_ready]) auto

lemma acted_peek_at_then:
  "acted s t \<Longrightarrow> hd (sc_cptr (rd_scan t)) \<noteq> NEWLINE \<Longrightarrow> Q (sc_cptr (rd_scan t) ! 1) t \<Longrightarrow> wp (scan (peek_at 1)) Q t"
  unfolding reader_wp using two_chars [OF acted_ready] by (intro peek_at_wp) auto

lemma dollar_cast_wp:
  assumes t: "acted s t"
  shows "wp (dollar_cast address n d tag) (\<lambda>_. acted s) t"
  unfolding dollar_cast_def wp_bind [of "scan peek"]
proof (rule acted_peek_then [OF t])
  let ?c = "hd (sc_cptr (rd_scan t))"
  have "wp (scan advance) (\<lambda>_. acted s) (t\<lparr>rd_action := out\<rparr>)" if "?c = CHR ''$''" for out
    by (rule acted_advance) (use t that in \<open>auto simp: NEWLINE_def\<close>)
  moreover have "wp (scan get_number) (\<lambda>i u. acted s u) t" by (rule acted_number [OF t])
  moreover have "wp (scan advance) (\<lambda>_. wp (scan get_number) (\<lambda>i u. acted s u)) t" if "?c = CHR ''-''"
    by (rule acted_advance_then [OF t]) (use that in \<open>auto simp: NEWLINE_def intro: acted_number\<close>)
  then have "wp (scan (peek_at 1)) (\<lambda>e. wp (if isdigit e then
             andThen (scan advance) (bind (scan get_number) (\<lambda>i.
               emit (case tag of None \<Rightarrow> value_text 0
                 | Some t \<Rightarrow> if t = ''Object'' then value_text (address t)
                            else cast_text tag (value_text (- i - int n)))))
           else throw (Dollar_error d)) (\<lambda>_. acted s)) t" if "?c = CHR ''-''"
    by (intro acted_peek_at_then [OF t]) (use that in \<open>auto simp: NEWLINE_def wp_bind wp_andThen wp_basic emit_wp\<close>)
  ultimately show "wp (if ?c = CHR ''$'' then andThen (emit (cast_text tag ''yyVal'')) (scan advance)
       else if isdigit ?c then
         bind (scan get_number) (\<lambda>i.
           andThen (unless (i \<le> int n) (warn (\<lambda>_. Dollar_warning (pos_lineno d) i)))
             (emit (cast_text tag (value_text (i - int n)))))
       else if ?c = CHR ''-'' then
         bind (scan (peek_at 1)) (\<lambda>e.
           if isdigit e then
             andThen (scan advance) (bind (scan get_number) (\<lambda>i.
               emit (case tag of None \<Rightarrow> value_text 0
                 | Some t \<Rightarrow> if t = ''Object'' then value_text (address t)
                            else cast_text tag (value_text (- i - int n)))))
           else throw (Dollar_error d))
       else throw (Dollar_error d)) (\<lambda>_. acted s) t"
    by (simp add: wp_bind wp_andThen wp_basic emit_wp reader_wp(4,7))
qed

lemma dollar_tag_wp:
  assumes r: "ready (rd_scan s)" "hd (sc_cptr (rd_scan s)) = CHR ''$''" "hd (tl (sc_cptr (rd_scan s))) \<noteq> NEWLINE"
  shows "wp (dollar_tag address n) (\<lambda>_. acted s) s"
  unfolding dollar_tag_def wp_bind wp_andThen reader_wp(2) unfolding reader_wp(1)
proof (rule advance_step [OF r(1)])
  fix sc assume sc: "ready sc" "todo sc < todo (rd_scan s)" "sc_cptr sc = tl (sc_cptr (rd_scan s))"
  show "wp (get_tag True) (\<lambda>tag. wp (dollar_cast address n (pos_at (sc_cptr (rd_scan s)) (rd_scan s)) tag) (\<lambda>_. acted s)) (s\<lparr>rd_scan := sc\<rparr>)"
    by (rule get_tag_wp, use sc r(3) in simp, use sc r(3) in simp, rule dollar_cast_wp)
      (use sc in \<open>auto simp: acted_def\<close>)
qed (use r(2) in \<open>simp add: NEWLINE_def\<close>)

lemma dollar_dollar_wp:
  assumes r: "ready (rd_scan s)" "hd (sc_cptr (rd_scan s)) = CHR ''$''" "hd (tl (sc_cptr (rd_scan s))) = CHR ''$''"
    and o: "open_rule s rs l cur"
  shows "wp dollar_dollar (\<lambda>_. acted s) s"
proof -
  have "wp advance (\<lambda>_. wp advance (\<lambda>_ sc. acted s (s\<lparr>rd_scan := sc\<rparr>))) (rd_scan s)"
    by (rule advance_step [OF r(1)], use r(2) in \<open>simp add: NEWLINE_def\<close>, rule advance_step)
      (use r(3) in \<open>auto simp: NEWLINE_def intro: acted_scan\<close>)
  then have "wp (scan advance) (\<lambda>_. wp (scan advance) (\<lambda>_. acted s)) u"
    if "u = s\<lparr>rd_action := out\<rparr> \<or> u = s\<lparr>rd_warnings := ws, rd_action := out\<rparr>" for u out ws
    using that by (auto simp: reader_wp acted_def)
  then show ?thesis
    unfolding dollar_dollar_def wp_bind
    by (auto simp: wp_bind wp_andThen wp_basic emit_wp reader_wp(4,5,7) intro!: current_lhs_wp [OF o])
qed

lemma item_at_wp:
  assumes o: "open_rule s rs l cur" and i: "0 < i" "i \<le> int (length cur)" and Q: "\<And>b. Q b s"
  shows "wp (item_at (int (length (rd_pitem s)) + i - int (length cur) - 1)) Q s"
proof -
  obtain pre where p: "rd_pitem s = pre @ map Some cur" using o by (auto simp: open_rule_def)
  let ?k = "nat (int (length (rd_pitem s)) + i - int (length cur) - 1)"
  have k: "?k = length pre + nat (i - 1)" "nat (i - 1) < length cur" using i by (simp_all add: p)
  then have "rd_pitem s ! ?k = Some (cur ! nat (i - 1))" "?k < length (rd_pitem s)" by (simp_all add: p nth_append)
  then show ?thesis using Q i by (simp add: wp_def item_at_def p)
qed

lemma dollar_number_wp:
  assumes r: "ready (rd_scan s)" "hd (sc_cptr (rd_scan s)) = CHR ''$''"
    and o: "open_rule s rs l cur"
  shows "wp (dollar_number (length cur)) (\<lambda>_. acted s) s"
  unfolding dollar_number_def wp_bind [of "scan get_number"] wp_andThen reader_wp(1)
proof (rule advance_step [OF r(1)], use r(2) in \<open>simp add: NEWLINE_def\<close>, rule get_number_wp)
  fix sc i sc' assume sc: "ready sc" "todo sc < todo (rd_scan s)" "ready sc'"
    "todo sc' \<le> todo (rd_scan (s\<lparr>rd_scan := sc\<rparr>))"
  let ?t = "s\<lparr>rd_scan := sc, rd_scan := sc'\<rparr>"
  have a: "acted s ?t" using sc by (simp add: acted_def)
  have "open_rule (s\<lparr>rd_scan := sc'\<rparr>) rs l cur" by (rule open_rule_cong [OF o]) simp_all
  from item_at_wp [OF this]
  have item: "wp (item_at (int (length (rd_pitem s)) + i - int (length cur) - 1)) Q (s\<lparr>rd_scan := sc'\<rparr>)"
    if "0 < i" "i \<le> int (length cur)" "\<And>b. Q b (s\<lparr>rd_scan := sc'\<rparr>)" for Q
    using that by simp
  show "wp (bind lineno (\<lambda>ln. bind (gets rd_tags) (\<lambda>tags.
       if tags \<noteq> [] then
         if i \<le> 0 \<or> i > int (length cur) then throw (Unknown_rhs ln i)
         else bind (gets (length \<circ> rd_pitem)) (\<lambda>m. bind (item_at (int m + i - int (length cur) - 1)) (\<lambda>bp. bind (bucket_at bp) (\<lambda>b.
           andThen (unless (b_tag b \<noteq> None) (warn (\<lambda>l. Untyped_rhs l i (b_name b))))
             (emit (cast_text (b_tag b) (value_text (i - int (length cur))))))))
       else
         andThen (unless (i \<le> int (length cur)) (warn (\<lambda>l. Dollar_warning l i))) (emit (value_text (i - int (length cur))))))) (\<lambda>_. acted s) ?t"
    using a by (auto simp: wp_bind wp_andThen wp_basic emit_wp reader_wp(3,4,5,7) intro!: item)
qed simp

lemma dollar_minus_wp:
  assumes r: "ready (rd_scan s)" "hd (sc_cptr (rd_scan s)) = CHR ''$''" "hd (tl (sc_cptr (rd_scan s))) = CHR ''-''"
  shows "wp (dollar_minus n) (\<lambda>_. acted s) s"
  unfolding dollar_minus_def wp_bind wp_andThen reader_wp
  by (rule advance_step [OF r(1)], use r(2) in \<open>simp add: NEWLINE_def\<close>, rule advance_step, simp,
      use r(3) in \<open>simp add: NEWLINE_def\<close>, rule get_number_wp)
    (auto simp: wp_basic emit_wp acted_def)

lemma action_word_wp:
  assumes r: "ready (rd_scan s)" "action_ident (hd (sc_cptr (rd_scan s)))"
  shows "wp action_word (\<lambda>_. acted s) s"
proof -
  have "\<not> action_ident NEWLINE" by (simp add: action_ident_def ctype_defs)
  then show ?thesis
    using ready_dropWhile [of action_ident, OF _ r(1)] todo_dropWhile_less [of action_ident, OF r(2) ready_not_Nil [OF r(1)]]
    by (simp add: action_word_def wp_simps acted_def)
qed

lemma acted_next_line:
  assumes "todo (rd_scan t) < todo (rd_scan s)" "rd_syms t = rd_syms s" "rd_goal t = rd_goal s"
    "rules_part t = rules_part s" "user_error e"
  shows "wp (scan (next_line e)) (\<lambda>_. acted s) t"
  unfolding reader_wp(1) by (rule next_line_wp [OF assms(5)]) (use assms in \<open>auto simp: acted_def todo_def\<close>)

lemma acted_copy_comment:
  assumes "acted s t"
  shows "wp (scan (with_fuel (\<lambda>k. copy_comment k p out))) (\<lambda>_. acted s) t"
  unfolding reader_wp(1) with_fuel_wp
  by (rule copy_comment_wp [OF acted_ready [OF assms]]) (use assms in \<open>auto intro: acted_on\<close>)

lemma action_slash_wp:
  assumes t: "acted s t"
  shows "wp (action_slash a p) (\<lambda>_. acted s) t"
  unfolding action_slash_def wp_bind [of "scan peek"]
proof (rule acted_peek_then [OF t])
  let ?c = "hd (sc_cptr (rd_scan t))"
  have line: "wp (scan (next_line (Unterminated_action a))) (\<lambda>_. acted s) (t\<lparr>rd_action := out\<rparr>)" for out
    by (rule acted_next_line) (use t in \<open>auto simp: acted_def\<close>)
  have comment: "wp (scan advance) (\<lambda>_. wp (scan (with_fuel (\<lambda>k. copy_comment k p ''*''))) (\<lambda>out s'. acted s (s'\<lparr>rd_action := rd_action s' @ out\<rparr>))) t"
    if "?c = CHR ''*''"
    by (rule acted_advance_then [OF t]) (use that acted_copy_comment in \<open>auto simp: NEWLINE_def\<close>)
  show "wp (if ?c = CHR ''/'' then
         bind (scan (gets sc_cptr)) (\<lambda>q. andThen (emit (''*'' @ line_body (tl q) @ ''*/'' @ [NEWLINE]))
           (scan (next_line (Unterminated_action a))))
       else if ?c = CHR ''*'' then
         andThen (scan advance) (bind (scan (with_fuel (\<lambda>k. copy_comment k p ''*''))) emit)
       else return ()) (\<lambda>_. acted s) t"
    using line comment t
    by (simp add: wp_bind wp_andThen wp_basic emit_wp reader_wp(1) [of "gets _"])
qed

lemma action_char_wp:
  assumes r: "ready (rd_scan s)" "hd (sc_cptr (rd_scan s)) = c"
  shows "wp (action_char a depth c) (\<lambda>_. acted s) s"
proof -
  let ?sc = "(rd_scan s)\<lparr>sc_cptr := tl (sc_cptr (rd_scan s))\<rparr>"
  have less: "todo ?sc < todo (rd_scan s)" by (rule todo_tl [OF ready_not_Nil [OF r(1)]])
  have a: "acted s (u\<lparr>rd_scan := ?sc\<rparr>)" if "c \<noteq> NEWLINE" "u = s\<lparr>rd_action := out\<rparr>" for u out
    using ready_tl [OF r(1)] r(2) that less by (simp add: acted_def)
  have line: "wp (scan (next_line (Unterminated_action a))) (\<lambda>_. acted s) (s\<lparr>rd_action := out, rd_scan := ?sc\<rparr>)" for out
    by (rule acted_next_line) (use less in auto)
  have str: "wp (scan (with_fuel (\<lambda>k. copy_string k p c []))) (\<lambda>out s'. acted s (s'\<lparr>rd_action := rd_action s' @ out\<rparr>)) (s\<lparr>rd_action := o', rd_scan := ?sc\<rparr>)"
    if "c \<noteq> NEWLINE" for p o'
    unfolding reader_wp(1) with_fuel_wp
    by (rule copy_string_wp) (use a [OF that refl, of o'] that in \<open>auto simp: acted_def\<close>)
  have slash: "wp (action_slash a p) (\<lambda>_. acted s) (s\<lparr>rd_action := o', rd_scan := ?sc\<rparr>)" if "c \<noteq> NEWLINE" for p o'
    by (rule action_slash_wp [OF a [OF that refl]])
  have "wp (if c = NEWLINE then andThen (scan (next_line (Unterminated_action a))) (return (False, depth))
       else if c = CHR '';'' then
         if depth > 0 then return (False, depth)
         else andThen (emit ([NEWLINE] @ ''break;'' @ [NEWLINE])) (return (True, depth))
       else if c = CHR ''{'' then return (False, depth + 1)
       else if c = CHR ''}'' then
         if depth - 1 > 0 then return (False, depth - 1)
         else andThen (emit ([NEWLINE] @ ''break;'' @ [NEWLINE, SP])) (return (True, depth - 1))
       else if c = QUOTE \<or> c = DOUBLE_QUOTE then
         andThen (bind (scan (with_fuel (\<lambda>k. copy_string k p c []))) emit) (return (False, depth))
       else if c = CHR ''/'' then andThen (action_slash a p) (return (False, depth))
       else return (False, depth)) (\<lambda>_. acted s) (s\<lparr>rd_action := rd_action s @ [c], rd_scan := ?sc\<rparr>)" for p
    using line str slash a [OF _ refl] by (simp add: wp_bind wp_andThen wp_basic emit_wp)
  then show ?thesis
    unfolding action_char_def wp_bind [of "scan here"] wp_andThen [of "emit [c]"] wp_andThen [of "scan advance"]
      emit_wp reader_wp(2) unfolding reader_wp(1)
    by (intro advance_wp) (use r in simp_all)
qed

lemma copy_action_step_wp:
  assumes r: "ready (rd_scan s)" and o: "open_rule s rs l cur"
  shows "wp (copy_action_step address (length cur) a depth) (\<lambda>_. acted s) s"
  unfolding copy_action_step_def wp_bind [of "scan peek"] reader_wp(1)
proof (rule peek_wp [OF r])
  let ?c = "hd (sc_cptr (rd_scan s))" and ?d = "sc_cptr (rd_scan s) ! 1"
  have word: "wp action_word (\<lambda>_. acted s) s" if "isalpha ?c \<or> ?c = CHR ''_'' \<or> ?c = CHR ''$''"
    by (rule action_word_wp [OF r]) (use that in \<open>auto simp: action_ident_def isalnum_def\<close>)
  have dollar: "wp (if ?d = CHR ''<'' then dollar_tag address (length cur)
            else if ?d = CHR ''$'' then dollar_dollar
            else if isdigit ?d then dollar_number (length cur)
            else if ?d = CHR ''-'' then dollar_minus (length cur)
            else action_word) (\<lambda>_. acted s) s" "1 < length (sc_cptr (rd_scan s))" if "?c = CHR ''$''"
    using two_chars [OF r] dollar_tag_wp [OF r that] dollar_dollar_wp [OF r that _ o] dollar_number_wp [OF r that o]
      dollar_minus_wp [OF r that] word that by (auto simp: NEWLINE_def)
  have "wp (peek_at 1) (\<lambda>d sc. wp (if d = CHR ''<'' then dollar_tag address (length cur)
            else if d = CHR ''$'' then dollar_dollar
            else if isdigit d then dollar_number (length cur)
            else if d = CHR ''-'' then dollar_minus (length cur)
            else action_word) (\<lambda>_. acted s) (s\<lparr>rd_scan := sc\<rparr>)) (rd_scan s)" if "?c = CHR ''$''"
    using dollar [OF that] by (intro peek_at_wp) simp_all
  then show "wp (if ?c = CHR ''$'' then
         bind (scan (peek_at 1)) (\<lambda>d. andThen
           (if d = CHR ''<'' then dollar_tag address (length cur)
            else if d = CHR ''$'' then dollar_dollar
            else if isdigit d then dollar_number (length cur)
            else if d = CHR ''-'' then dollar_minus (length cur)
            else action_word) (return (False, depth)))
       else if isalpha ?c \<or> ?c = CHR ''_'' then andThen action_word (return (False, depth))
       else action_char a depth ?c) (\<lambda>_. acted s) (s\<lparr>rd_scan := rd_scan s\<rparr>)"
    using word action_char_wp [OF r refl] by (simp add: wp_bind wp_andThen wp_basic reader_wp(1))
qed

lemma acted_trans: "acted s t \<Longrightarrow> acted t u \<Longrightarrow> acted s u"
  by (auto simp: acted_def)

lemma acted_open: "acted s t \<Longrightarrow> open_rule s rs l cur \<Longrightarrow> open_rule t rs l cur"
  by (rule open_rule_cong) (auto simp: acted_def)

lemma copy_action_loop_wp:
  assumes "ready (rd_scan s)" "open_rule s rs l cur" "todo (rd_scan s) < k"
  shows "wp (copy_action_loop k address (length cur) a depth) (\<lambda>_. acted s) s"
  using assms
proof (induction k arbitrary: s depth)
  case (Suc k)
  have on: "wp (case x of (stop, depth) \<Rightarrow> if stop then return () else copy_action_loop k address (length cur) a depth) (\<lambda>_. acted s) t"
    if t: "acted s t" for x t
  proof -
    have "wp (copy_action_loop k address (length cur) a d) (\<lambda>_. acted t) t" for d
      by (rule Suc.IH) (use t Suc.prems acted_open [OF t] in \<open>auto simp: acted_def\<close>)
    then have "wp (copy_action_loop k address (length cur) a d) (\<lambda>_. acted s) t" for d
      by (rule wp_mono) (rule acted_trans [OF t])
    with t show ?thesis by (simp add: wp_basic split: prod.split)
  qed
  show ?case
    unfolding copy_action_loop.simps(2) wp_bind
    by (rule wp_mono [OF copy_action_step_wp [OF Suc.prems(1,2)]]) (rule on)
qed simp

lemma acted_in_rule: "acted s t \<Longrightarrow> in_rule s \<Longrightarrow> in_rule t"
  by (rule in_rule_cong) (auto simp: acted_def reader_inv_def in_rule_def)

lemma copy_action_wp:
  assumes s: "in_rule s" and r: "ready (rd_scan s)"
    and Q: "\<And>t. in_rule t \<Longrightarrow> todo (rd_scan t) < todo (rd_scan s) \<Longrightarrow> Q () t"
  shows "wp (copy_action address) Q s"
proof -
  have loop: "wp (copy_action_loop (Suc (todo (rd_scan u))) address (length (current_rhs (rd_pitem u))) a 0) Q u"
    if u: "in_rule u" "ready (rd_scan u)" "todo (rd_scan u) \<le> todo (rd_scan s)" for u a
  proof -
    obtain rs l cur where o: "open_rule u rs l cur" using u(1) by (auto simp: in_rule_def)
    then have n: "length (current_rhs (rd_pitem u)) = length cur"
      using current_rhs_items [of rs cur] by (simp add: open_rule_def)
    have "wp (copy_action_loop (Suc (todo (rd_scan u))) address (length cur) a 0) (\<lambda>_. acted u) u"
      by (rule copy_action_loop_wp [OF u(2) o]) simp
    then show ?thesis
      unfolding n by (rule wp_mono) (use acted_in_rule [OF _ u(1)] u(3) in \<open>auto simp: acted_def intro!: Q\<close>)
  qed
  have pk: "wp (scan peek) (\<lambda>c. wp (if c = CHR ''='' then scan advance else return ())
      (\<lambda>_ u. wp (copy_action_loop (Suc (todo (rd_scan u))) address (length (current_rhs (rd_pitem u))) a 0) Q u)) t"
    if t: "in_rule t" "rd_scan t = rd_scan s" for t a
    unfolding reader_wp(1)
  proof (rule peek_wp, use t(2) r in simp)
    have "wp (scan advance) (\<lambda>_ u. wp (copy_action_loop (Suc (todo (rd_scan u))) address (length (current_rhs (rd_pitem u))) a 0) Q u) t"
      if "hd (sc_cptr (rd_scan t)) = CHR ''=''"
      unfolding reader_wp(1)
    proof (rule advance_step)
      fix sc assume "ready sc" "todo sc < todo (rd_scan t)"
      moreover from this have "in_rule (t\<lparr>rd_scan := sc\<rparr>)"
        using t(1) by (intro in_rule_cong [OF t(1)]) (auto simp: reader_inv_def in_rule_def)
      ultimately show "wp (copy_action_loop (Suc (todo (rd_scan (t\<lparr>rd_scan := sc\<rparr>)))) address (length (current_rhs (rd_pitem (t\<lparr>rd_scan := sc\<rparr>)))) a 0) Q (t\<lparr>rd_scan := sc\<rparr>)"
        using t(2) by (intro loop) auto
    qed (use t(2) r that in \<open>auto simp: NEWLINE_def\<close>)
    moreover have "wp (copy_action_loop (Suc (todo (rd_scan t))) address (length (current_rhs (rd_pitem t))) a 0) Q t"
      using loop [OF t(1)] t(2) r by simp
    ultimately show "wp (if hd (sc_cptr (rd_scan t)) = CHR ''='' then scan advance else return ())
      (\<lambda>_ u. wp (copy_action_loop (Suc (todo (rd_scan u))) address (length (current_rhs (rd_pitem u))) a 0) Q u) (t\<lparr>rd_scan := rd_scan t\<rparr>)"
      by (simp add: wp_basic)
  qed
  have lw: "in_rule (t\<lparr>rd_last_was_action := x, rd_action := out\<rparr>)" if "in_rule t" for t x out
    by (rule in_rule_cong [of "t\<lparr>rd_last_was_action := x\<rparr>"]) (use that in \<open>auto simp: in_rule_lwa in_rule_def\<close>)
  show ?thesis
    unfolding copy_action_def wp_bind wp_andThen emit_wp wp_basic reader_wp(2,3,8) o_apply
    by (rule flush_action_wp [OF s], rule pk) (simp_all add: lw)
qed

section \<open>Rules for the loop\<close>

lemma set_prec_wp:
  assumes s: "in_rule s" and Q: "\<And>t. in_rule t \<Longrightarrow> rd_scan t = rd_scan s \<Longrightarrow> Q () t"
  shows "wp (set_prec b) Q s"
proof -
  obtain rs l cur where o: "reader_inv s" "open_rule s rs l cur" "rd_goal s \<noteq> None" using s by (auto simp: in_rule_def)
  have "in_rule (u\<lparr>rd_rprec := store (rd_rprec u) (rd_nrules u) p, rd_rassoc := store (rd_rassoc u) (rd_nrules u) x\<rparr>)"
    if "u = s \<or> u = s\<lparr>rd_warnings := ws\<rparr>" for u ws p x
    by (rule in_ruleI [of _ rs l cur]) (use o that in \<open>auto simp: open_rule_def reader_inv_def store_length\<close>)
  note this [of s] this [of "s\<lparr>rd_warnings := ws\<rparr>" ws for ws]
  then show ?thesis unfolding set_prec_def by (auto simp: wp_simps intro!: Q)
qed

lemma prec_chars:
  assumes r: "ready s" and p: "map tolower (take 4 (tl (sc_cptr s))) = ''prec''"
  shows "ready (s\<lparr>sc_cptr := drop 5 (sc_cptr s)\<rparr>)" "5 < length (sc_cptr s)"
proof -
  obtain c r' where c: "sc_cptr s = c # r'" using ready_not_Nil [OF r] by (cases "sc_cptr s") auto
  have l: "length (take 4 r') = 4" using arg_cong [OF p, of length] c by simp
  then obtain a1 a2 a3 a4 q where q: "r' = a1 # a2 # a3 # a4 # q"
    by (cases r'; cases "tl r'"; cases "tl (tl r')"; cases "tl (tl (tl r'))") auto
  have low: "tolower NEWLINE = NEWLINE" by (simp add: tolower_def ctype_defs)
  have nn: "a1 \<noteq> NEWLINE" "a2 \<noteq> NEWLINE" "a3 \<noteq> NEWLINE" "a4 \<noteq> NEWLINE" using p low unfolding c q by (auto simp: NEWLINE_def)
  have "line_ok (c # a1 # a2 # a3 # a4 # q)" using readyD [OF r] c q by simp
  then have q': "line_ok q" using nn by (auto simp: line_ok_Cons split: if_splits)
  then show "5 < length (sc_cptr s)" using c q by (cases q) auto
  have "suffix q (sc_cptr s)" unfolding c q by (intro suffix_ConsI) simp
  from ready_line_ok [OF r this q'] show "ready (s\<lparr>sc_cptr := drop 5 (sc_cptr s)\<rparr>)" using c q by simp
qed

lemma two_drop:
  assumes r: "ready s" "hd (sc_cptr s) \<noteq> NEWLINE" "sc_cptr s ! 1 \<noteq> NEWLINE"
  shows "ready (s\<lparr>sc_cptr := drop 2 (sc_cptr s)\<rparr>)"
  using ready_tl [OF ready_tl [OF r(1,2)]] r(3) two_chars [OF r(1,2)] by (simp add: drop_Suc numeral_2_eq_2)

lemma todo_drop: "sc_cptr s \<noteq> [] \<Longrightarrow> 0 < k \<Longrightarrow> todo (s\<lparr>sc_cptr := drop k (sc_cptr s)\<rparr>) < todo s"
  by (cases "sc_cptr s") (auto simp: todo_def)

lemma mark_symbol_wp:
  assumes s: "in_rule s" and r: "ready (rd_scan s)" "hd (sc_cptr (rd_scan s)) \<noteq> NEWLINE"
    and Q: "\<And>b t. in_rule t \<Longrightarrow> todo (rd_scan t) < todo (rd_scan s) \<Longrightarrow> Q b t"
  shows "wp mark_symbol Q s"
proof -
  have g: "sym_inv (rd_syms s) (rd_goal s)" using s by (auto simp: in_rule_def reader_inv_def)
  have upd: "in_rule (s\<lparr>rd_scan := sc\<rparr>)" if "scan_ok sc" for sc
    by (rule in_rule_cong [OF s]) (use that g in \<open>auto simp: reader_inv_def\<close>)
  have prec: "wp nextc (\<lambda>c sc'. wp (get_symbol c) (\<lambda>b. wp (case b of None \<Rightarrow> syntax_error
      | Some bp \<Rightarrow> andThen (set_prec bp) (return False)) Q) (s\<lparr>rd_scan := sc'\<rparr>)) sc"
    if sc: "ready sc" "todo sc < todo (rd_scan s)" for sc
  proof (rule nextc_wp)
    fix c sc' assume c: "nextc_post c sc'" "todo sc' \<le> todo sc"
    show "wp (get_symbol c) (\<lambda>b. wp (case b of None \<Rightarrow> syntax_error
      | Some bp \<Rightarrow> andThen (set_prec bp) (return False)) Q) (s\<lparr>rd_scan := sc'\<rparr>)"
    proof (rule get_symbol_wp [where goal = "rd_goal s"])
      fix b u st assume u: "ready u" "todo u < todo (rd_scan (s\<lparr>rd_scan := sc'\<rparr>))"
        "sym_inv st (rd_goal s)" "syms_le (rd_syms (s\<lparr>rd_scan := sc'\<rparr>)) st"
      have i: "in_rule (s\<lparr>rd_scan := sc', rd_scan := u, rd_syms := st\<rparr>)"
        by (rule in_rule_cong [OF s]) (use u in \<open>auto simp: reader_inv_def\<close>)
      have "wp (set_prec b) (\<lambda>_. Q False) (s\<lparr>rd_scan := sc', rd_scan := u, rd_syms := st\<rparr>)"
        by (rule set_prec_wp [OF i]) (use u(2) sc(2) c(2) in \<open>auto intro!: Q\<close>)
      then show "wp (case Some b of None \<Rightarrow> syntax_error
      | Some bp \<Rightarrow> andThen (set_prec bp) (return False)) Q (s\<lparr>rd_scan := sc', rd_scan := u, rd_syms := st\<rparr>)"
        by (simp add: wp_andThen wp_basic)
    qed (use c g in \<open>auto simp: reader_wp\<close>)
  qed (use sc in simp)
  have stop: "Q True (s\<lparr>rd_scan := (rd_scan s)\<lparr>sc_cptr := drop 2 (sc_cptr (rd_scan s))\<rparr>\<rparr>)"
    if "sc_cptr (rd_scan s) ! 1 \<noteq> NEWLINE"
    using two_drop [OF r that] todo_drop [OF ready_not_Nil [OF r(1)], of 2] by (intro Q upd) auto
  show ?thesis
    unfolding mark_symbol_def wp_bind [of "scan (peek_at 1)"] reader_wp(1)
    using stop two_chars [OF r] prec [OF two_drop [OF r] todo_drop [OF ready_not_Nil [OF r(1)]]]
      prec [OF prec_chars(1) [OF r(1)] todo_drop [OF ready_not_Nil [OF r(1)]]]
    by (intro peek_at_wp) (auto simp: wp_bind wp_andThen wp_basic reader_wp(1,9) set_cptr_wp NEWLINE_def BACKSLASH_def)
qed

lemma skip_declarations_wp:
  assumes "reader_inv s" "todo (rd_scan s) < k"
    and "\<And>t. declared s t \<Longrightarrow> syms_le (rd_syms s) (rd_syms t) \<Longrightarrow> Q () t"
  shows "wp (skip_declarations k) Q s"
  using assms
proof (induction k arbitrary: s)
  case (Suc k)
  have on: "wp (skip_declarations k) Q t"
    if "declared s t" "todo (rd_scan t) < todo (rd_scan s)" "syms_le (rd_syms s) (rd_syms t)" for t
    by (rule Suc.IH)
      (use that Suc.prems declared_trans [OF that(1)] syms_le_trans [OF that(3)] in \<open>auto simp: declared_def\<close>)
  show ?case
    unfolding skip_declarations.simps wp_bind [of "scan nextc"] reader_wp(1)
  proof (rule nextc_wp)
    show "scan_ok (rd_scan s)" using Suc.prems(1) by (simp add: reader_inv_def)
    fix c sc assume c: "nextc_post c sc" "todo sc \<le> todo (rd_scan s)"
    have "wp keyword (\<lambda>kw sc'. wp (if kw = MARK then bind lineno (\<lambda>n. throw (No_grammar n))
         else if kw = TEXT then andThen (copy_to (\<lambda>out s. s\<lparr>rd_local := rd_local s @ out\<rparr>)) (skip_declarations k)
         else if kw = START then andThen declare_start (skip_declarations k)
         else throw (Syntax_error p)) Q (s\<lparr>rd_scan := sc'\<rparr>)) sc" if "c = Some (CHR ''%'')" for p
    proof (rule keyword_scan_wp)
      show "nextc_post (Some (CHR ''%'')) sc" using c(1) that by simp
      fix kw sc' assume sc': "ready sc'" "todo sc' < todo sc"
      let ?t = "s\<lparr>rd_scan := sc'\<rparr>"
      have t: "declared s ?t" "reader_inv ?t" "todo (rd_scan ?t) < todo (rd_scan s)"
        using Suc.prems(1) sc' c(2) by (auto simp: declared_def reader_inv_def)
      have on': "wp (skip_declarations k) Q u" if "declared ?t u" "syms_le (rd_syms s) (rd_syms u)" for u
        using declared_trans [OF t(1) that(1)] that t(3) by (intro on) (auto simp: declared_def)
      have "wp (copy_to (\<lambda>out s. s\<lparr>rd_local := rd_local s @ out\<rparr>)) (\<lambda>_. wp (skip_declarations k) Q) ?t"
        by (rule copy_to_wp) (use sc' t(2) in \<open>auto simp: declared_def reader_inv_def intro!: on'\<close>)
      moreover have "wp declare_start (\<lambda>_. wp (skip_declarations k) Q) ?t"
        by (rule declare_start_wp [OF t(2)]) (auto intro!: on')
      ultimately show "wp (if kw = MARK then bind lineno (\<lambda>n. throw (No_grammar n))
         else if kw = TEXT then andThen (copy_to (\<lambda>out s. s\<lparr>rd_local := rd_local s @ out\<rparr>)) (skip_declarations k)
         else if kw = START then andThen declare_start (skip_declarations k)
         else throw (Syntax_error p)) Q ?t"
        by (simp add: wp_bind wp_basic wp_andThen reader_wp(3))
    qed
    moreover have "Q () (s\<lparr>rd_scan := sc\<rparr>)"
      using declared_scan [OF Suc.prems(1) nextc_post_scan_ok [OF c(1)] c(2)] by (intro Suc.prems(3)) auto
    ultimately show "wp (if c \<noteq> Some (CHR ''%'') then return ()
       else bind (scan here) (\<lambda>s_cptr. bind (scan keyword) (\<lambda>kw.
         if kw = MARK then bind lineno (\<lambda>n. throw (No_grammar n))
         else if kw = TEXT then andThen (copy_to (\<lambda>out s. s\<lparr>rd_local := rd_local s @ out\<rparr>)) (skip_declarations k)
         else if kw = START then andThen declare_start (skip_declarations k)
         else throw (Syntax_error s_cptr)))) Q (s\<lparr>rd_scan := sc\<rparr>)"
      by (simp add: wp_bind [of "scan here"] wp_bind [of "scan keyword"] wp_basic reader_wp(2)) (simp add: reader_wp(1))
  qed
qed simp

text \<open>The first left-hand side, once its name has been read.\<close>

lemma first_rule_wp:
  assumes t: "reader_inv t" "closed_rules t []" "rd_goal t \<noteq> None" and b: "b < length (st_buckets (rd_syms t))"
    "\<not> quoted (b_name (st_buckets (rd_syms t) ! b))"
    and Q: "\<And>u. in_rule u \<Longrightarrow> Q () u"
  shows "wp (bind nextc_EOF (\<lambda>c. if c \<noteq> CHR '':'' then syntax_error
      else andThen (start_rule b n) (scan advance))) Q t"
  unfolding wp_bind [of nextc_EOF]
proof (rule nextc_EOF_wp)
  show "scan_ok (rd_scan t)" using t(1) by (simp add: reader_inv_def)
  fix c sc assume c: "nextc_post (Some c) sc"
  let ?t = "t\<lparr>rd_scan := sc\<rparr>"
  have "wp (start_rule b n) (\<lambda>_. wp (scan advance) Q) ?t"
  proof (rule start_rule_wp)
    show "reader_inv ?t" using t(1) nextc_post_scan_ok [OF c] by (rule reader_inv_scan)
    show "closed_rules ?t []" by (rule closed_rules_cong [OF t(2)]) simp_all
    fix u assume u: "rd_scan u = rd_scan ?t" "reader_inv u" "open_rule u [] b []" "rd_goal u = rd_goal ?t"
    show "wp (scan advance) Q u"
      unfolding reader_wp(1)
    proof (rule advance_step)
      fix sc' assume "ready sc'"
      then have "in_rule (u\<lparr>rd_scan := sc'\<rparr>)"
        using u t(3) by (intro in_rule_cong [OF in_ruleI [OF u(2,3)]]) (auto simp: reader_inv_def)
      then show "Q () (u\<lparr>rd_scan := sc'\<rparr>)" by (rule Q)
    qed (use u nextc_postD(1,3) [OF c] in auto)
  qed (use b in auto)
  then show "wp (if c \<noteq> CHR '':'' then syntax_error else andThen (start_rule b n) (scan advance)) Q ?t"
    by (simp add: reader_wp(9) wp_andThen)
qed

lemma advance_to_start_wp:
  assumes s: "reader_inv s" "closed_rules s []" and Q: "\<And>t. in_rule t \<Longrightarrow> Q () t"
  shows "wp advance_to_start Q s"
  unfolding advance_to_start_def wp_andThen [of "reader_fuel _"] reader_wp(8)
proof (rule skip_declarations_wp [OF s(1) lessI])
  fix t assume t: "declared s t" "syms_le (rd_syms s) (rd_syms t)"
  have tr: "reader_inv t" "closed_rules t []"
    using t closed_rules_cong [OF s(2) _ t(2)] by (auto simp: declared_def)
  show "wp (bind (scan nextc) (\<lambda>c.
          if \<not> (name_start c \<and> c \<noteq> Some (CHR ''$'')) then syntax_error
          else bind get_name (\<lambda>bp. bind (bucket_at bp) (\<lambda>b. bind (gets rd_goal) (\<lambda>goal. bind lineno (\<lambda>n.
            andThen (if goal = None then
                if b_class b = Term then throw (Terminal_start n (b_name b))
                else modify (\<lambda>s. s\<lparr>rd_goal := Some bp\<rparr>)
              else return ())
            (bind nextc_EOF (\<lambda>c.
               if c \<noteq> CHR '':'' then syntax_error
               else andThen (start_rule bp n) (scan advance))))))))) Q t"
    unfolding wp_bind [of "scan nextc"] reader_wp(1)
  proof (rule nextc_wp)
    show "scan_ok (rd_scan t)" using tr(1) by (simp add: reader_inv_def)
    fix c sc assume c: "nextc_post c sc"
    have "wp get_name (\<lambda>bp. wp (bind (bucket_at bp) (\<lambda>b. bind (gets rd_goal) (\<lambda>goal. bind lineno (\<lambda>n.
            andThen (if goal = None then
                if b_class b = Term then throw (Terminal_start n (b_name b))
                else modify (\<lambda>s. s\<lparr>rd_goal := Some bp\<rparr>)
              else return ())
            (bind nextc_EOF (\<lambda>c.
               if c \<noteq> CHR '':'' then syntax_error
               else andThen (start_rule bp n) (scan advance))))))) Q) (t\<lparr>rd_scan := sc\<rparr>)" if n: "name_start c"
    proof -
      obtain d where d: "c = Some d" using n by (cases c) (auto simp: name_start_def)
      show ?thesis
      proof (rule get_name_wp [where goal = "rd_goal t"])
        fix b u st assume u: "ready u" "sym_inv st (rd_goal t)" "syms_le (rd_syms (t\<lparr>rd_scan := sc\<rparr>)) st"
          "b < length (st_buckets st)" "\<not> quoted (b_name (st_buckets st ! b))"
        let ?u = "t\<lparr>rd_scan := u, rd_syms := st\<rparr>"
        have cl: "closed_rules (?u\<lparr>rd_goal := g\<rparr>) []" "closed_rules ?u []" for g
          using u(3) by (auto intro!: closed_rules_cong [OF tr(2)])
        have "reader_inv ?u" using u by (simp add: reader_inv_def)
        then have 1: "wp (bind nextc_EOF (\<lambda>c. if c \<noteq> CHR '':'' then syntax_error
            else andThen (start_rule b n) (scan advance))) Q ?u" if "rd_goal t \<noteq> None" for n
          by (rule first_rule_wp) (use u cl that Q in auto)
        have 2: "wp (bind nextc_EOF (\<lambda>c. if c \<noteq> CHR '':'' then syntax_error
            else andThen (start_rule b n) (scan advance))) Q (?u\<lparr>rd_goal := Some b\<rparr>)"
          if "b_class (st_buckets st ! b) \<noteq> Term" for n
          by (rule first_rule_wp)
            (use u cl that Q set_goal_inv [OF u(2,4) that u(5)] in \<open>auto simp: reader_inv_def\<close>)
        show "wp (bind (bucket_at b) (\<lambda>x. bind (gets rd_goal) (\<lambda>goal. bind lineno (\<lambda>n.
            andThen (if goal = None then
                if b_class x = Term then throw (Terminal_start n (b_name x))
                else modify (\<lambda>s. s\<lparr>rd_goal := Some b\<rparr>)
              else return ())
            (bind nextc_EOF (\<lambda>c.
               if c \<noteq> CHR '':'' then syntax_error
               else andThen (start_rule b n) (scan advance))))))) Q (t\<lparr>rd_scan := sc, rd_scan := u, rd_syms := st\<rparr>)"
          using 1 2 by (simp add: wp_bind [of "bucket_at _"] wp_bind [of "gets _"] wp_bind [of lineno] wp_andThen [of "if _ then _ else _"]
              wp_andThen [of "throw _"] wp_andThen [of "modify _"] wp_andThen [of "return _"] reader_wp(3,5) wp_basic)
      qed (use tr(1) name_startD [OF c [unfolded d] n [unfolded d]] in \<open>auto simp: reader_inv_def\<close>)
    qed
    then show "wp (if \<not> (name_start c \<and> c \<noteq> Some (CHR ''$'')) then syntax_error
          else bind get_name (\<lambda>bp. bind (bucket_at bp) (\<lambda>b. bind (gets rd_goal) (\<lambda>goal. bind lineno (\<lambda>n.
            andThen (if goal = None then
                if b_class b = Term then throw (Terminal_start n (b_name b))
                else modify (\<lambda>s. s\<lparr>rd_goal := Some bp\<rparr>)
              else return ())
            (bind nextc_EOF (\<lambda>c.
               if c \<noteq> CHR '':'' then syntax_error
               else andThen (start_rule bp n) (scan advance)))))))) Q (t\<lparr>rd_scan := sc\<rparr>)"
      by (simp add: wp_bind [of get_name] reader_wp(9))
  qed
qed

lemma alternative_wp:
  assumes s: "in_rule s" and r: "ready (rd_scan s)" "hd (sc_cptr (rd_scan s)) \<noteq> NEWLINE"
    and Q: "\<And>t. in_rule t \<Longrightarrow> todo (rd_scan t) < todo (rd_scan s) \<Longrightarrow> Q () t"
  shows "wp alternative Q s"
proof -
  obtain rs l cur where o: "reader_inv s" "open_rule s rs l cur" "rd_goal s \<noteq> None" using s by (auto simp: in_rule_def)
  show ?thesis
    unfolding alternative_def wp_andThen [of end_rule]
  proof (rule end_rule_wp [OF o(1,2)])
    fix t assume t: "rd_scan t = rd_scan s" "reader_inv t" "closed_rules t (rs @ [(l, cur)])" "rd_syms t = rd_syms s"
      "rd_goal t = rd_goal s"
    have lhs: "rd_plhs t ! (rd_nrules t - 1) = Some l" using t(3) by (simp add: closed_rules_def nth_append)
    have l: "is_var (rd_syms t) l" using open_rule_lhs [OF o(2)] t(4) by simp
    have "b_class (st_buckets (rd_syms t) ! l) = Nonterm" "l < length (st_buckets (rd_syms t))" using l by (auto simp: is_var_def)
    moreover from this have "\<not> quoted (b_name (st_buckets (rd_syms t) ! l))"
      using bucket_okD [of "rd_syms t" "rd_goal t" l] t(2) by (auto simp: reader_inv_def bucket_ok_def)
    ultimately have "wp (start_rule l 0) (\<lambda>_. wp (scan advance) Q) t"
    proof (intro start_rule_wp [OF t(2,3)])
      fix u assume u: "rd_scan u = rd_scan t" "reader_inv u" "open_rule u (rs @ [(l, cur)]) l []" "rd_goal u = rd_goal t"
      show "wp (scan advance) Q u"
        unfolding reader_wp(1)
      proof (rule advance_step)
        fix sc assume sc: "ready sc" "todo sc < todo (rd_scan u)"
        have "in_rule (u\<lparr>rd_scan := sc\<rparr>)"
          by (rule in_rule_cong [OF in_ruleI [OF u(2,3)]]) (use u(2,4) t(5) o(3) sc in \<open>auto simp: reader_inv_def\<close>)
        then show "Q () (u\<lparr>rd_scan := sc\<rparr>)" using sc u(1) t(1) by (intro Q) auto
      qed (use u(1) t(1) r in auto)
    qed auto
    then show "wp (bind (gets (\<lambda>s. rd_plhs s ! (rd_nrules s - 1))) (\<lambda>lhs. case lhs of
         None \<Rightarrow> throw (Internal BadAccess) | Some bp \<Rightarrow> andThen (start_rule bp 0) (scan advance))) Q t"
      using lhs by (simp add: wp_bind wp_basic wp_andThen)
  qed
qed

lemma read_rules_wp:
  assumes "in_rule s" "todo (rd_scan s) < k" "\<And>t. in_rule t \<Longrightarrow> Q () t"
  shows "wp (read_rules k address) Q s"
  using assms(1,2)
proof (induction k arbitrary: s)
  case (Suc k)
  show ?case
    unfolding read_rules.simps wp_bind [of "scan nextc"] reader_wp(1)
  proof (rule nextc_wp)
    show "scan_ok (rd_scan s)" using Suc.prems(1) by (simp add: in_rule_def reader_inv_def)
    fix c sc assume c: "nextc_post c sc" "todo sc \<le> todo (rd_scan s)"
    let ?s = "s\<lparr>rd_scan := sc\<rparr>"
    have i: "in_rule ?s"
      by (rule in_rule_cong [OF Suc.prems(1)])
        (use Suc.prems(1) nextc_post_scan_ok [OF c(1)] in \<open>auto simp: in_rule_def reader_inv_def\<close>)
    have on: "wp (read_rules k address) Q t" if "in_rule t" "todo (rd_scan t) < todo (rd_scan ?s)" for t
      by (rule Suc.IH [OF that(1)]) (use that(2) c(2) Suc.prems(2) in simp)
    have at: "ready (rd_scan ?s)" "hd (sc_cptr (rd_scan ?s)) \<noteq> NEWLINE" if "c = Some d" for d
      using nextc_postD(1,3) [OF c(1) [unfolded that]] by auto
    have "wp add_symbol (\<lambda>_. wp (read_rules k address) Q) ?s" if "name_start c \<or> literal_start c"
      by (rule add_symbol_wp [OF i _ that]) (use c(1) in \<open>auto intro!: on\<close>)
    moreover have "wp (copy_action address) (\<lambda>_. wp (read_rules k address) Q) ?s" if "c = Some d" for d
      by (rule copy_action_wp [OF i at(1) [OF that]]) (rule on)
    moreover have "wp alternative (\<lambda>_. wp (read_rules k address) Q) ?s" if "c = Some d" for d
      by (rule alternative_wp [OF i at [OF that]]) (rule on)
    moreover have "wp mark_symbol (\<lambda>stop. wp (if stop then return () else read_rules k address) Q) ?s" if "c = Some d" for d
      by (rule mark_symbol_wp [OF i at [OF that]]) (use on assms(3) in \<open>auto simp: wp_basic\<close>)
    ultimately show "wp (if c = None then return ()
       else if name_start c \<or> literal_start c then andThen add_symbol (read_rules k address)
       else if c = Some (CHR ''{'') \<or> c = Some (CHR ''='') then andThen (copy_action address) (read_rules k address)
       else if c = Some (CHR ''|'') then andThen alternative (read_rules k address)
       else if c = Some (CHR ''%'') then
         bind mark_symbol (\<lambda>stop. if stop then return () else read_rules k address)
       else syntax_error) Q ?s"
      using assms(3) [OF i] by (auto simp: wp_basic wp_andThen wp_bind reader_wp(9))
  qed
qed simp

text \<open>The second section leaves productions in the arrays, and the start symbol is known.\<close>

lemma read_grammar_wp:
  assumes s: "reader_inv s"
    and Q: "\<And>t rs. reader_inv t \<Longrightarrow> closed_rules t rs \<Longrightarrow> rs \<noteq> [] \<Longrightarrow> rd_goal t \<noteq> None \<Longrightarrow> Q () t"
  shows "wp (read_grammar address) Q s"
proof -
  let ?s = "s\<lparr>rd_pitem := [None, None, None, None], rd_maxitems := 300,
     rd_nrules := 3, rd_maxrules := 100, rd_plhs := [None, None, None],
     rd_rprec := [0, 0, 0], rd_rassoc := [TOKEN, TOKEN, TOKEN]\<rparr>"
  have s': "reader_inv ?s" using s by (simp add: reader_inv_def)
  have c': "closed_rules ?s []" by (simp add: closed_rules_def prods_items_def prods_ok_def numeral_nat)
  have "wp end_rule Q t" if t: "in_rule t" for t
  proof -
    obtain rs l cur where o: "reader_inv t" "open_rule t rs l cur" "rd_goal t \<noteq> None" using t by (auto simp: in_rule_def)
    show ?thesis
      by (rule end_rule_wp [OF o(1,2)], rule Q, assumption, assumption) (use o(3) in auto)
  qed
  then have "wp (read_rules (Suc (todo (rd_scan t))) address) (\<lambda>_. wp end_rule Q) t" if "in_rule t" for t
    by (intro read_rules_wp [OF that]) auto
  then have "wp advance_to_start (\<lambda>_ t. wp (read_rules (Suc (todo (rd_scan t))) address) (\<lambda>_. wp end_rule Q) t) ?s"
    by (rule advance_to_start_wp [OF s' c'])
  then show ?thesis
    unfolding read_grammar_def initialize_grammar_def wp_andThen wp_basic reader_wp(8) by simp
qed

end
