(* ===== verification/Packing.thy ===== *)
theory Packing
  imports Rules Grammar "HOL-Library.Multiset"
begin

text \<open>
  The end of \<^verbatim>\<open>jay/reader.c\<close>: \<^verbatim>\<open>check_symbols\<close> makes every unknown symbol a token, \<^verbatim>\<open>pack_symbols\<close> numbers
  the symbols and gives the tokens their values, \<^verbatim>\<open>pack_grammar\<close> writes the productions into \<^verbatim>\<open>ritem\<close>,
  \<^verbatim>\<open>rlhs\<close> and \<^verbatim>\<open>rrhs\<close>.  The result is the \<open>grammar\<close> that the later passes read.  The code stores it in
  \<^verbatim>\<open>short\<close>s without a check; where a number does not fit, the model stops with \<open>OutOfShort\<close>.  The main theorem
  says that \<open>reader\<close>, on any text, ends with one of its messages, with that stop, or with a grammar laid out as
  \<open>wf_grammar\<close> asks.
\<close>

section \<open>Checking and numbering the symbols\<close>

definition check_symbol :: "bucket \<Rightarrow> bucket" where
  "check_symbol b = (if b_class b = Unknown then b\<lparr>b_class := Term\<rparr> else b)"

definition check_symbols :: "(reader_state, unit) reads" where
  "check_symbols = (\<lambda>s. case rd_goal s of
       None \<Rightarrow> Inl (Internal BadAccess)
     | Some g \<Rightarrow>
         (let bs = st_buckets (rd_syms s) in
          if b_class (bs ! g) = Unknown then Inl (Undefined_goal (b_name (bs ! g)))
          else Inr ((), s\<lparr>rd_syms := (rd_syms s)\<lparr>st_buckets := map check_symbol bs\<rparr>,
            rd_warnings := rd_warnings s @
              map (Undefined_symbol \<circ> b_name) (filter (\<lambda>b. b_class b = Unknown) bs)\<rparr>)))"

text \<open>The array \<^verbatim>\<open>v\<close>: \<open>i\<close> and \<open>j\<close> are the next places for a token and a nonterminal.\<close>

definition place_symbol :: "bucket list \<Rightarrow> nat \<Rightarrow> nat \<times> nat \<times> nat option list \<Rightarrow> nat \<times> nat \<times> nat option list" where
  "place_symbol bs b = (\<lambda>(i, j, v).
     if b_class (bs ! b) = Term then (Suc i, j, v[i := Some b]) else (i, Suc j, v[j := Some b]))"

definition place_symbols :: "bucket list \<Rightarrow> nat \<Rightarrow> nat \<times> nat \<times> nat option list" where
  "place_symbols bs start =
     fold (place_symbol bs) [0..<length bs] (1, start + 1, replicate (length bs + 2) None)"

text \<open>An assignment of consecutive numbers to the symbols at consecutive places, but the goal.\<close>

fun number_symbols :: "(nat \<Rightarrow> bucket \<Rightarrow> bucket) \<Rightarrow> nat option \<Rightarrow> nat option list \<Rightarrow> nat \<Rightarrow> bucket list \<Rightarrow> bucket list" where
  "number_symbols f goal [] k bs = bs"
| "number_symbols f goal (None # ws) k bs = number_symbols f goal ws k bs"
| "number_symbols f goal (Some b # ws) k bs =
     (if goal = Some b then number_symbols f goal ws k bs
      else number_symbols f goal ws (Suc k) (bs[b := f k (bs ! b)]))"

definition set_index :: "nat \<Rightarrow> bucket \<Rightarrow> bucket" where
  "set_index k b = b\<lparr>b_index := k\<rparr>"

definition set_value :: "nat \<Rightarrow> bucket \<Rightarrow> bucket" where
  "set_value k b = b\<lparr>b_value := int k\<rparr>"

section \<open>Token values\<close>

text \<open>The declared values above 256, sorted, and the next free value from \<open>n\<close> on.\<close>

definition collect_value :: "bucket list \<Rightarrow> nat option \<Rightarrow> int list \<Rightarrow> int list" where
  "collect_value bs b vs =
     (case b of None \<Rightarrow> vs
      | Some b \<Rightarrow> let n = b_value (bs ! b) in if n > 256 then shift_down (vs @ [n]) (length vs) n else vs)"

function skip_used :: "int \<Rightarrow> int list \<Rightarrow> int \<times> int list" where
  "skip_used n [] = (n, [])"
| "skip_used n (x # xs) = (if n = x then skip_used (n + 1) (dropWhile (\<lambda>y. y = n) xs) else (n, x # xs))"
  by pat_completeness auto

termination
  by (relation "measure (length \<circ> snd)") (auto simp: length_dropWhile_le less_Suc_eq_le)

definition give_value :: "nat option \<Rightarrow> int \<times> int list \<times> bucket list \<Rightarrow> int \<times> int list \<times> bucket list" where
  "give_value b = (\<lambda>(n, vs, bs). case b of None \<Rightarrow> (n, vs, bs)
     | Some b \<Rightarrow>
         if b_value (bs ! b) = UNDEFINED then
           (case skip_used n vs of (m, vs') \<Rightarrow> (m + 1, vs', bs[b := (bs ! b)\<lparr>b_value := short m\<rparr>]))
         else (n, vs, bs))"

definition give_values :: "nat option list \<Rightarrow> bucket list \<Rightarrow> bucket list" where
  "give_values toks bs =
     (let vs = fold (collect_value bs) toks [];
          bs = (case toks of Some e # _ \<Rightarrow>
                  if b_value (bs ! e) = UNDEFINED then bs[e := (bs ! e)\<lparr>b_value := 256\<rparr>] else bs
                | _ \<Rightarrow> bs)
      in snd (snd (fold give_value (tl toks) (257, vs, bs))))"

text \<open>One of the arrays \<^verbatim>\<open>symbol_name\<close>, \<^verbatim>\<open>symbol_value\<close>, \<^verbatim>\<open>symbol_prec\<close> and \<^verbatim>\<open>symbol_assoc\<close>.\<close>

definition fill_symbols :: "(bucket \<Rightarrow> 'a) \<Rightarrow> 'a \<Rightarrow> 'a \<Rightarrow> bucket list \<Rightarrow> nat option list \<Rightarrow> nat \<Rightarrow> 'a list" where
  "fill_symbols f last_one goal_one bs v start =
     (let b = (\<lambda>i. bs ! the (v ! i));
          A = replicate (length v) last_one;
          A = fold (\<lambda>i A. A[i := f (b i)]) [1..<start] A;
          A = A[start := goal_one]
      in fold (\<lambda>i A. A[b_index (b i) := f (b i)]) [Suc start..<length v] A)"

record packed_symbols =
  ps_buckets :: "bucket list"
  ps_nsyms :: nat
  ps_ntokens :: nat
  ps_name :: "string list"
  ps_value :: "int list"
  ps_prec :: "int list"
  ps_assoc :: "nat list"

text \<open>
  The largest number given out is the index of the last symbol, \<^verbatim>\<open>nsyms - 1\<close>; the index of a bucket is a
  \<^verbatim>\<open>short\<close>, and so are the values, those given to tokens by a conversion (\<open>give_value\<close>).
\<close>

definition pack_symbols :: "bucket list \<Rightarrow> nat \<Rightarrow> jay_error + packed_symbols" where
  "pack_symbols bs goal =
     (let nsyms = 2 + length bs;
          ntokens = 1 + length (filter (\<lambda>b. b_class b = Term) bs);
          start = ntokens
      in case place_symbols bs start of (i, j, v) \<Rightarrow>
        if i \<noteq> ntokens \<or> j \<noteq> nsyms then Inl AssertFailed
        else if MAXSHORT < nsyms - 1 then Inl OutOfShort
        else
          let toks = take (ntokens - 1) (drop 1 v); vars = drop (Suc start) v;
              bs = number_symbols set_index None toks 1 bs;
              bs = bs[goal := set_index (start + 1) (bs ! goal)];
              bs = number_symbols set_index (Some goal) vars (start + 2) bs;
              bs = bs[goal := set_value 0 (bs ! goal)];
              bs = number_symbols set_value (Some goal) vars 1 bs;
              bs = give_values toks bs
          in Inr \<lparr>ps_buckets = bs, ps_nsyms = nsyms, ps_ntokens = ntokens,
              ps_name = fill_symbols b_name ''$end'' ''$accept'' bs v start,
              ps_value = fill_symbols b_value 0 (- 1) bs v start,
              ps_prec = fill_symbols b_prec 0 0 bs v start,
              ps_assoc = fill_symbols b_assoc TOKEN TOKEN bs v start\<rparr>)"

section \<open>The productions\<close>

text \<open>The items of one rule up to the null pointer, the precedence of its last token and the items left.\<close>

fun pack_items :: "bucket list \<Rightarrow> int \<times> nat \<Rightarrow> nat option list \<Rightarrow> int list \<times> (int \<times> nat) \<times> nat option list" where
  "pack_items bs pa [] = ([], pa, [])"
| "pack_items bs pa (None # p) = ([], pa, p)"
| "pack_items bs pa (Some b # p) =
     (case pack_items bs (if b_class (bs ! b) = Term then (b_prec (bs ! b), b_assoc (bs ! b)) else pa) p of
        (is, pa', p') \<Rightarrow> (int (b_index (bs ! b)) # is, pa', p'))"

record packing =
  pk_items :: "nat option list"
  pk_ritem :: "int list"
  pk_rlhs :: "nat list"
  pk_rrhs :: "nat list"
  pk_rprec :: "int list"
  pk_rassoc :: "nat list"

definition pack_rule :: "bucket list \<Rightarrow> nat option list \<Rightarrow> nat \<Rightarrow> packing \<Rightarrow> packing" where
  "pack_rule bs plhs i p =
     (case pack_items bs (0, TOKEN) (pk_items p) of (is, (pr, as), rest) \<Rightarrow>
        p\<lparr>pk_items := rest,
          pk_rlhs := pk_rlhs p @ [b_index (bs ! the (plhs ! i))],
          pk_rrhs := pk_rrhs p @ [length (pk_ritem p)],
          pk_ritem := pk_ritem p @ is @ [- int i],
          pk_rprec := (if pk_rprec p ! i = UNDEFINED then (pk_rprec p)[i := pr] else pk_rprec p),
          pk_rassoc := (if pk_rprec p ! i = UNDEFINED then (pk_rassoc p)[i := as] else pk_rassoc p)\<rparr>)"

text \<open>The arrays, and the check whether they fit: the last and largest number stored is \<^verbatim>\<open>rrhs[nrules] = nitems\<close>.\<close>

definition fill_grammar :: "reader_state \<Rightarrow> packed_symbols \<Rightarrow> nat \<Rightarrow> grammar" where
  "fill_grammar s ps goal =
     (let bs = ps_buckets ps; start = ps_ntokens ps;
          p0 = \<lparr>pk_items = drop 4 (rd_pitem s), pk_ritem = [- 1, int (b_index (bs ! goal)), 0, - 2],
                pk_rlhs = [0, 0, start], pk_rrhs = [0, 0, 1], pk_rprec = rd_rprec s, pk_rassoc = rd_rassoc s\<rparr>;
          p = fold (pack_rule bs (rd_plhs s)) [3..<rd_nrules s] p0
      in \<lparr>nitems = length (rd_pitem s), nrules = rd_nrules s, nsyms = ps_nsyms ps, ntokens = ps_ntokens ps,
          nvars = ps_nsyms ps - ps_ntokens ps, start_symbol = start, ritem = pk_ritem p, rlhs = pk_rlhs p,
          rrhs = pk_rrhs p @ [length (pk_ritem p)], rprec = pk_rprec p, rassoc = pk_rassoc p,
          symbol_value = ps_value ps, symbol_prec = ps_prec ps, symbol_assoc = ps_assoc ps\<rparr>)"

definition pack_grammar :: "reader_state \<Rightarrow> packed_symbols \<Rightarrow> nat \<Rightarrow> jay_error + grammar" where
  "pack_grammar s ps goal =
     (let g = fill_grammar s ps goal in if MAXSHORT < rrhs g ! nrules g then Inl OutOfShort else Inr g)"

section \<open>The reader\<close>

definition reader_start :: "string \<Rightarrow> string \<Rightarrow> symtab \<Rightarrow> reader_state" where
  "reader_start file inp st =
     \<lparr>rd_scan = open_input inp, rd_file = file, rd_syms = st, rd_tags = [], rd_goal = None, rd_prec = 0,
      rd_gensym = 0, rd_last_was_action = False, rd_pitem = [], rd_maxitems = 0, rd_plhs = [],
      rd_nrules = 0, rd_maxrules = 0, rd_rprec = [], rd_rassoc = [], rd_action = [], rd_prolog = [],
      rd_local = [], rd_warnings = []\<rparr>"

record reading =
  rg_grammar :: grammar
  rg_names :: "string list"
  rg_state :: reader_state

text \<open>\<^verbatim>\<open>read_text\<close> is the first half of \<^verbatim>\<open>reader\<close>: the text is read and its symbols are checked.\<close>

definition read_text :: "(string \<Rightarrow> int) \<Rightarrow> string \<Rightarrow> string \<Rightarrow> reader_error + unit \<times> reader_state" where
  "read_text address file inp =
     (case create_symbol_table of
        Inl e \<Rightarrow> Inl (Internal e)
      | Inr st \<Rightarrow> andThen read_declarations (andThen (read_grammar address) check_symbols) (reader_start file inp st))"

definition reader :: "(string \<Rightarrow> int) \<Rightarrow> string \<Rightarrow> string \<Rightarrow> reader_error + reading" where
  "reader address file inp =
     (case read_text address file inp of
        Inl e \<Rightarrow> Inl e
      | Inr (_, s) \<Rightarrow>
          (case rd_goal s of
             None \<Rightarrow> Inl (Internal BadAccess)
           | Some g \<Rightarrow>
               (case pack_symbols (st_buckets (rd_syms s)) g of
                  Inl e \<Rightarrow> Inl (Internal e)
                | Inr ps \<Rightarrow>
                    (case pack_grammar s ps g of
                       Inl e \<Rightarrow> Inl (Internal e)
                     | Inr gram \<Rightarrow> Inr \<lparr>rg_grammar = gram, rg_names = ps_name ps, rg_state = s\<rparr>))))"

section \<open>Where the symbols are placed\<close>

definition token_buckets :: "bucket list \<Rightarrow> nat list" where
  "token_buckets bs = filter (\<lambda>b. b_class (bs ! b) = Term) [0..<length bs]"

definition var_buckets :: "bucket list \<Rightarrow> nat list" where
  "var_buckets bs = filter (\<lambda>b. b_class (bs ! b) \<noteq> Term) [0..<length bs]"

lemma token_var_buckets:
  "set (token_buckets bs) = {b. b < length bs \<and> b_class (bs ! b) = Term}" "distinct (token_buckets bs)"
  "set (var_buckets bs) = {b. b < length bs \<and> b_class (bs ! b) \<noteq> Term}" "distinct (var_buckets bs)"
  "length (token_buckets bs) + length (var_buckets bs) = length bs"
  using sum_length_filter_compl [of "\<lambda>b. b_class (bs ! b) = Term" "[0..<length bs]"]
  by (auto simp: token_buckets_def var_buckets_def)

lemma length_token_buckets: "length (token_buckets bs) = length (filter (\<lambda>b. b_class b = Term) bs)"
proof -
  have "map ((!) bs) (token_buckets bs) = filter (\<lambda>b. b_class b = Term) (map ((!) bs) [0..<length bs])"
    by (simp add: token_buckets_def filter_map comp_def)
  then show ?thesis by (metis length_map map_nth)
qed

lemma place_fold:
  assumes "a = length (filter (\<lambda>b. b_class (bs ! b) = Term) xs)" "c = length (filter (\<lambda>b. b_class (bs ! b) \<noteq> Term) xs)"
  shows "fold (place_symbol bs) xs (Suc (length ts), Suc (Suc (length ts) + a + length ns),
      None # map Some ts @ replicate a None @ None # map Some ns @ replicate c None) =
    (Suc (length ts) + a, Suc (Suc (length ts) + a + length ns) + c,
      None # map Some (ts @ filter (\<lambda>b. b_class (bs ! b) = Term) xs) @
      None # map Some (ns @ filter (\<lambda>b. b_class (bs ! b) \<noteq> Term) xs))"
  using assms
proof (induction xs arbitrary: a c ts ns)
  case (Cons b xs)
  show ?case
  proof (cases "b_class (bs ! b) = Term")
    case True
    then obtain a' where a': "a = Suc a'" "a' = length (filter (\<lambda>b. b_class (bs ! b) = Term) xs)" using Cons.prems by simp
    have "c = length (filter (\<lambda>b. b_class (bs ! b) \<noteq> Term) xs)" using True Cons.prems by simp
    from Cons.IH [OF a'(2) this, of "ts @ [b]" ns] True a'(1) show ?thesis
      by (simp add: place_symbol_def list_update_append)
  next
    case False
    then obtain c' where c': "c = Suc c'" "c' = length (filter (\<lambda>b. b_class (bs ! b) \<noteq> Term) xs)" using Cons.prems by simp
    have "a = length (filter (\<lambda>b. b_class (bs ! b) = Term) xs)" using False Cons.prems by simp
    from Cons.IH [OF this c'(2), of ts "ns @ [b]"] False c'(1) show ?thesis
      by (simp add: place_symbol_def list_update_append)
  qed
qed simp

lemma place_symbols_eq:
  "place_symbols bs (Suc (length (token_buckets bs))) =
    (Suc (length (token_buckets bs)), length bs + 2, None # map Some (token_buckets bs) @ None # map Some (var_buckets bs))"
proof -
  let ?a = "length (token_buckets bs)" and ?c = "length (var_buckets bs)"
  have "replicate (length bs + 2) (None :: nat option) = None # replicate ?a None @ None # replicate ?c None"
    using token_var_buckets(5) [of bs] by (metis add_2_eq_Suc' replicate_Suc replicate_add replicate_app_Cons_same)
  then show ?thesis
    using place_fold [of ?a bs "[0..<length bs]" ?c "[]" "[]"] token_var_buckets(5) [of bs]
    by (simp add: place_symbols_def token_buckets_def var_buckets_def)
qed

section \<open>The numbers of the symbols\<close>

text \<open>The place of a bucket among those that are numbered.\<close>

definition place_of :: "nat option \<Rightarrow> nat list \<Rightarrow> nat \<Rightarrow> nat" where
  "place_of goal ws b = length (takeWhile (\<lambda>x. x \<noteq> b) (filter (\<lambda>x. goal \<noteq> Some x) ws))"

lemma place_of_nth:
  assumes "b \<in> set ws" "goal \<noteq> Some b"
  shows "filter (\<lambda>x. goal \<noteq> Some x) ws ! place_of goal ws b = b"
    "place_of goal ws b < length (filter (\<lambda>x. goal \<noteq> Some x) ws)"
proof -
  let ?w = "filter (\<lambda>x. goal \<noteq> Some x) ws"
  have b: "b \<in> set ?w" using assms by simp
  show l: "place_of goal ws b < length ?w"
    unfolding place_of_def using b by (metis (mono_tags, lifting) length_takeWhile_le nat_less_le takeWhile_eq_all_conv takeWhile_eq_take take_all_iff order_refl)
  then show "?w ! place_of goal ws b = b"
    unfolding place_of_def using nth_length_takeWhile [of "\<lambda>x. x \<noteq> b" ?w] by simp
qed

lemma length_number_symbols [simp]: "length (number_symbols f goal ws k bs) = length bs"
  by (induction f goal ws k bs rule: number_symbols.induct) simp_all

lemma nth_number_symbols:
  assumes "distinct ws" "set ws \<subseteq> {..<length bs}"
  shows "number_symbols f goal (map Some ws) k bs ! b =
    (if b \<in> set ws \<and> goal \<noteq> Some b then f (k + place_of goal ws b) (bs ! b) else bs ! b)"
  using assms
proof (induction ws arbitrary: k bs)
  case (Cons a ws)
  show ?case
  proof (cases "goal = Some a")
    case True
    with Cons show ?thesis by (auto simp: place_of_def)
  next
    case False
    with Cons.IH [of "bs[a := f k (bs ! a)]" "Suc k"] Cons.prems show ?thesis
      by (auto simp: place_of_def nth_list_update)
  qed
qed simp

text \<open>The number a symbol gets: the tokens first, then the start symbol, then the other nonterminals.\<close>

definition symbol_index :: "bucket list \<Rightarrow> nat \<Rightarrow> nat \<Rightarrow> nat" where
  "symbol_index bs goal b =
     (let start = Suc (length (token_buckets bs))
      in if b_class (bs ! b) = Term then 1 + place_of None (token_buckets bs) b
         else if b = goal then start + 1 else start + 2 + place_of (Some goal) (var_buckets bs) b)"

lemma place_of_inj:
  assumes "place_of goal ws b = place_of goal ws c" "b \<in> set ws" "c \<in> set ws" "goal \<noteq> Some b" "goal \<noteq> Some c"
  shows "b = c"
  using place_of_nth(1) [OF assms(2,4)] place_of_nth(1) [OF assms(3,5)] assms(1) by metis

lemma length_other_vars:
  assumes "goal < length bs" "b_class (bs ! goal) \<noteq> Term"
  shows "length (filter (\<lambda>x. goal \<noteq> x) (var_buckets bs)) + 1 = length (var_buckets bs)"
proof -
  have g: "goal \<in> set (var_buckets bs)" using assms by (simp add: token_var_buckets(3))
  have "length (filter (\<lambda>x. goal \<noteq> x) (var_buckets bs)) = card ({x. goal \<noteq> x} \<inter> set (var_buckets bs))"
    by (rule distinct_length_filter) (rule token_var_buckets(4))
  also have "{x. goal \<noteq> x} \<inter> set (var_buckets bs) = set (var_buckets bs) - {goal}" by blast
  also have "card \<dots> + 1 = card (set (var_buckets bs))" using card_Suc_Diff1 [OF finite_set g] by simp
  finally show ?thesis using distinct_card [OF token_var_buckets(4) [of bs]] by simp
qed

lemma symbol_index_token:
  "b < length bs \<Longrightarrow> b_class (bs ! b) = Term \<Longrightarrow>
    1 \<le> symbol_index bs goal b \<and> symbol_index bs goal b < Suc (length (token_buckets bs))"
  using place_of_nth(2) [of b "token_buckets bs" None] token_var_buckets(1) [of bs]
  by (simp add: symbol_index_def)

lemma symbol_index_goal:
  "b_class (bs ! goal) \<noteq> Term \<Longrightarrow> symbol_index bs goal goal = Suc (length (token_buckets bs)) + 1"
  by (simp add: symbol_index_def)

lemma symbol_index_var:
  assumes "goal < length bs" "b_class (bs ! goal) \<noteq> Term" "b < length bs" "b_class (bs ! b) \<noteq> Term"
  shows "Suc (length (token_buckets bs)) < symbol_index bs goal b \<and> symbol_index bs goal b < length bs + 2"
proof (cases "b = goal")
  case True
  have "1 \<le> length (var_buckets bs)" using length_other_vars [OF assms(1,2)] by linarith
  with True symbol_index_goal [OF assms(2)] token_var_buckets(5) [of bs] show ?thesis by simp
next
  case False
  have "place_of (Some goal) (var_buckets bs) b < length (filter (\<lambda>x. goal \<noteq> x) (var_buckets bs))"
    using place_of_nth(2) [of b "var_buckets bs" "Some goal"] False assms(3,4) token_var_buckets(3) [of bs] by simp
  with False assms(4) length_other_vars [OF assms(1,2)] token_var_buckets(5) [of bs] show ?thesis
    by (simp add: symbol_index_def)
qed

lemma symbol_index_inj:
  assumes "goal < length bs" "b_class (bs ! goal) \<noteq> Term"
  shows "inj_on (symbol_index bs goal) {..<length bs}"
proof (rule inj_onI, unfold lessThan_iff)
  fix b c assume bc: "b < length bs" "c < length bs" and eq: "symbol_index bs goal b = symbol_index bs goal c"
  have same: "(b_class (bs ! b) = Term) = (b_class (bs ! c) = Term)"
    using symbol_index_token [OF bc(1), of goal] symbol_index_token [OF bc(2), of goal]
      symbol_index_var [OF assms bc(1)] symbol_index_var [OF assms bc(2)] eq by linarith
  show "b = c"
  proof (cases "b_class (bs ! b) = Term")
    case True
    then have "place_of None (token_buckets bs) b = place_of None (token_buckets bs) c"
      using eq same by (simp add: symbol_index_def)
    from place_of_inj [OF this] True same bc token_var_buckets(1) [of bs] show ?thesis by simp
  next
    case False
    then have *: "(b = goal) = (c = goal)" "b \<noteq> goal \<Longrightarrow> place_of (Some goal) (var_buckets bs) b = place_of (Some goal) (var_buckets bs) c"
      using eq same by (auto simp: symbol_index_def split: if_splits)
    with place_of_inj [OF *(2)] False same bc token_var_buckets(3) [of bs] show ?thesis by (cases "b = goal") simp_all
  qed
qed

definition numbered :: "bucket list \<Rightarrow> nat \<Rightarrow> bucket list" where
  "numbered bs goal =
     (let start = Suc (length (token_buckets bs));
          bs1 = number_symbols set_index None (map Some (token_buckets bs)) 1 bs;
          bs2 = bs1[goal := set_index (start + 1) (bs1 ! goal)]
      in number_symbols set_index (Some goal) (map Some (var_buckets bs)) (start + 2) bs2)"

lemma length_numbered [simp]: "length (numbered bs goal) = length bs"
  by (simp add: numbered_def Let_def)

lemma numbered_nth:
  assumes "goal < length bs" "b_class (bs ! goal) \<noteq> Term" "b < length bs"
  shows "numbered bs goal ! b = (bs ! b)\<lparr>b_index := symbol_index bs goal b\<rparr>"
proof -
  let ?T = "token_buckets bs" and ?V = "var_buckets bs" and ?start = "Suc (length (token_buckets bs))"
  define bs1 where "bs1 = number_symbols set_index None (map Some ?T) 1 bs"
  define bs2 where "bs2 = bs1[goal := set_index (?start + 1) (bs1 ! goal)]"
  have T: "set ?T \<subseteq> {..<length bs}" and V: "set ?V \<subseteq> {..<length bs2}"
    using token_var_buckets(1,3) [of bs] by (auto simp: bs2_def bs1_def)
  have 1: "bs1 ! b = (if b \<in> set ?T then set_index (1 + place_of None ?T b) (bs ! b) else bs ! b)"
    unfolding bs1_def nth_number_symbols [OF token_var_buckets(2) T] by simp
  have 2: "bs2 ! b = (if b = goal then set_index (?start + 1) (bs1 ! b) else bs1 ! b)"
    using assms(1) by (simp add: bs2_def bs1_def nth_list_update)
  have "numbered bs goal = number_symbols set_index (Some goal) (map Some ?V) (?start + 2) bs2"
    by (simp add: numbered_def Let_def bs1_def bs2_def)
  then have 3: "numbered bs goal ! b =
    (if b \<in> set ?V \<and> Some goal \<noteq> Some b then set_index (?start + 2 + place_of (Some goal) ?V b) (bs2 ! b) else bs2 ! b)"
    by (simp only: nth_number_symbols [OF token_var_buckets(4) V])
  consider "b_class (bs ! b) = Term" | "b = goal" | "b_class (bs ! b) \<noteq> Term" "b \<noteq> goal" by blast
  then show ?thesis
  proof cases
    case 1
    then have "b \<in> set ?T" "b \<notin> set ?V" "b \<noteq> goal" using assms token_var_buckets(1,3) [of bs] by auto
    with 3 2 \<open>bs1 ! b = _\<close> 1 show ?thesis by (simp add: symbol_index_def set_index_def)
  next
    case 2
    then have "b \<notin> set ?T" using assms token_var_buckets(1) [of bs] by auto
    with 3 \<open>bs2 ! b = _\<close> \<open>bs1 ! b = _\<close> 2 assms show ?thesis by (simp add: symbol_index_def set_index_def)
  next
    case 3
    then have "b \<notin> set ?T" "b \<in> set ?V" using assms token_var_buckets(1,3) [of bs] by auto
    with \<open>numbered bs goal ! b = _\<close> 2 1 3 show ?thesis by (simp add: symbol_index_def set_index_def)
  qed
qed

section \<open>What the values leave alone\<close>

definition unvalued :: "bucket \<Rightarrow> bucket" where
  "unvalued b = b\<lparr>b_value := 0\<rparr>"

lemma unvalued_upd [simp]: "map unvalued (bs[b := (bs ! b)\<lparr>b_value := v\<rparr>]) = map unvalued bs"
proof (cases "b < length bs")
  case True
  then show ?thesis by (simp add: map_update unvalued_def list_update_same_conv)
qed (simp add: list_update_beyond)

lemma unvalued_set_value: "map unvalued (number_symbols set_value goal ws k bs) = map unvalued bs"
  by (induction set_value goal ws k bs rule: number_symbols.induct) (simp_all add: set_value_def)

lemma unvalued_give_value: "map unvalued (snd (snd (give_value b q))) = map unvalued (snd (snd q))"
  by (cases q) (auto simp: give_value_def split: option.splits prod.splits)

lemma unvalued_give_fold: "map unvalued (snd (snd (fold give_value toks q))) = map unvalued (snd (snd q))"
  by (induction toks arbitrary: q) (simp_all add: unvalued_give_value)

lemma unvalued_give_values: "map unvalued (give_values toks bs) = map unvalued bs"
  unfolding give_values_def Let_def unvalued_give_fold by (auto split: list.splits option.splits)

definition symbol_places :: "bucket list \<Rightarrow> nat option list" where
  "symbol_places bs = None # map Some (token_buckets bs) @ None # map Some (var_buckets bs)"

definition final_buckets :: "bucket list \<Rightarrow> nat \<Rightarrow> bucket list" where
  "final_buckets bs goal =
     (let bs' = numbered bs goal
      in give_values (map Some (token_buckets bs))
           (number_symbols set_value (Some goal) (map Some (var_buckets bs)) 1 (bs'[goal := set_value 0 (bs' ! goal)])))"

definition symbol_arrays :: "bucket list \<Rightarrow> nat \<Rightarrow> packed_symbols" where
  "symbol_arrays bs goal =
    (let bs' = final_buckets bs goal; v = symbol_places bs; start = Suc (length (token_buckets bs))
     in \<lparr>ps_buckets = bs', ps_nsyms = length bs + 2, ps_ntokens = start,
          ps_name = fill_symbols b_name ''$end'' ''$accept'' bs' v start, ps_value = fill_symbols b_value 0 (- 1) bs' v start,
          ps_prec = fill_symbols b_prec 0 0 bs' v start, ps_assoc = fill_symbols b_assoc TOKEN TOKEN bs' v start\<rparr>)"

lemma pack_symbols_eq:
  "pack_symbols bs goal = (if MAXSHORT \<le> length bs then Inl OutOfShort else Inr (symbol_arrays bs goal))"
  unfolding pack_symbols_def Let_def
  by (simp add: place_symbols_eq length_token_buckets [symmetric] final_buckets_def numbered_def symbol_places_def
      symbol_arrays_def Let_def less_Suc_eq_le)

lemma pack_symbols_Inr:
  assumes "pack_symbols bs goal = Inr ps"
  shows "length bs < MAXSHORT" "ps = symbol_arrays bs goal"
  using assms by (simp_all add: pack_symbols_eq split: if_splits)

lemma unvalued_final: "map unvalued (final_buckets bs goal) = map unvalued (numbered bs goal)"
  by (simp add: final_buckets_def Let_def unvalued_give_values unvalued_set_value set_value_def)

lemma length_final_buckets [simp]: "length (final_buckets bs goal) = length bs"
  using arg_cong [OF unvalued_final [of bs goal], of length] by simp

text \<open>The buckets after packing: numbered, with their values, and otherwise as they were.\<close>

lemma final_bucket:
  assumes "goal < length bs" "b_class (bs ! goal) \<noteq> Term" "b < length bs"
  shows "final_buckets bs goal ! b =
    (bs ! b)\<lparr>b_index := symbol_index bs goal b, b_value := b_value (final_buckets bs goal ! b)\<rparr>"
proof -
  have "unvalued (final_buckets bs goal ! b) = unvalued (numbered bs goal ! b)"
    using arg_cong [OF unvalued_final [of bs goal], of "\<lambda>xs. xs ! b"] assms(3) by simp
  then show ?thesis unfolding numbered_nth [OF assms] unvalued_def
    by (cases "final_buckets bs goal ! b", cases "bs ! b") simp
qed

section \<open>The arrays of symbols\<close>

lemma fold_put_other: "j \<notin> g ` set xs \<Longrightarrow> fold (\<lambda>i A. A[g i := h i]) xs A ! j = A ! j"
  by (induction xs arbitrary: A) auto

lemma length_fold_put [simp]: "length (fold (\<lambda>i A. A[g i := h i]) xs A) = length A"
  by (induction xs arbitrary: A) simp_all

lemma fold_put_nth:
  assumes "inj_on g (set xs)" "i \<in> set xs" "g i < length A"
  shows "fold (\<lambda>i A. A[g i := h i]) xs A ! g i = h i"
  using assms
proof (induction xs arbitrary: A)
  case (Cons a xs)
  show ?case
  proof (cases "i \<in> set xs")
    case True
    then show ?thesis using Cons.IH [of "A[g a := h a]"] Cons.prems by (simp add: inj_on_insert)
  next
    case False
    with Cons.prems(1,2) have "i = a" "g a \<notin> g ` set xs" by (auto simp: inj_on_def)
    then show ?thesis using fold_put_other [of "g a" g xs h] Cons.prems(3) by simp
  qed
qed simp

lemma place_of_index_goal:
  assumes "distinct ws" "i < length (filter (\<lambda>x. goal \<noteq> Some x) ws)"
  shows "place_of goal ws (filter (\<lambda>x. goal \<noteq> Some x) ws ! i) = i"
proof -
  have "filter (\<lambda>x. goal \<noteq> Some x) ws ! i \<in> set (filter (\<lambda>x. goal \<noteq> Some x) ws)" using nth_mem [OF assms(2)] .
  then show ?thesis
    using place_of_nth [of "filter (\<lambda>x. goal \<noteq> Some x) ws ! i" ws goal] assms by (simp add: nth_eq_iff_index_eq)
qed

lemma place_of_index: "distinct ws \<Longrightarrow> i < length ws \<Longrightarrow> place_of None ws (ws ! i) = i"
  using place_of_index_goal [of ws i None] by simp

lemma final_index:
  "goal < length bs \<Longrightarrow> b_class (bs ! goal) \<noteq> Term \<Longrightarrow> b < length bs \<Longrightarrow>
    b_index (final_buckets bs goal ! b) = symbol_index bs goal b"
  using arg_cong [OF final_bucket, of goal bs b b_index] by simp

lemma length_symbol_places [simp]: "length (symbol_places bs) = length bs + 2"
  using token_var_buckets(5) [of bs] by (simp add: symbol_places_def)

lemma symbol_places_token: "i < length (token_buckets bs) \<Longrightarrow> the (symbol_places bs ! Suc i) = token_buckets bs ! i"
  by (simp add: symbol_places_def nth_append)

lemma symbol_places_var:
  "i < length (var_buckets bs) \<Longrightarrow> the (symbol_places bs ! (Suc (Suc (length (token_buckets bs))) + i)) = var_buckets bs ! i"
  by (simp add: symbol_places_def nth_append)

text \<open>The places after the start symbol hold the nonterminals, each once.\<close>

lemma var_places:
  assumes "i \<in> {Suc (Suc (length (token_buckets bs)))..<length bs + 2}"
  obtains j where "i = Suc (Suc (length (token_buckets bs))) + j" "j < length (var_buckets bs)"
    "the (symbol_places bs ! i) = var_buckets bs ! j"
    "the (symbol_places bs ! i) < length bs" "b_class (bs ! the (symbol_places bs ! i)) \<noteq> Term"
proof -
  define j where "j = i - Suc (Suc (length (token_buckets bs)))"
  have i: "i = Suc (Suc (length (token_buckets bs))) + j"
    unfolding j_def by (rule le_add_diff_inverse [symmetric]) (use assms in simp)
  have j: "j < length (var_buckets bs)" using assms i token_var_buckets(5) [of bs] by simp
  then have "var_buckets bs ! j \<in> {b. b < length bs \<and> b_class (bs ! b) \<noteq> Term}"
    using nth_mem [OF j] token_var_buckets(3) [of bs] by simp
  then have "the (symbol_places bs ! i) < length bs \<and> b_class (bs ! the (symbol_places bs ! i)) \<noteq> Term"
    unfolding i symbol_places_var [OF j] by simp
  moreover have "the (symbol_places bs ! i) = var_buckets bs ! j" unfolding i by (rule symbol_places_var [OF j])
  ultimately show thesis using that [OF i j] by simp
qed

lemma var_places_inj:
  assumes "goal < length bs" "b_class (bs ! goal) \<noteq> Term"
  shows "inj_on (\<lambda>i. b_index (final_buckets bs goal ! the (symbol_places bs ! i)))
    {Suc (Suc (length (token_buckets bs)))..<length bs + 2}"
proof (rule inj_onI)
  fix i k assume ik: "i \<in> {Suc (Suc (length (token_buckets bs)))..<length bs + 2}" "k \<in> {Suc (Suc (length (token_buckets bs)))..<length bs + 2}"
    and eq: "b_index (final_buckets bs goal ! the (symbol_places bs ! i)) = b_index (final_buckets bs goal ! the (symbol_places bs ! k))"
  obtain j where j: "i = Suc (Suc (length (token_buckets bs))) + j" "j < length (var_buckets bs)"
    "the (symbol_places bs ! i) = var_buckets bs ! j" "the (symbol_places bs ! i) < length bs" using var_places [OF ik(1)] .
  obtain l where l: "k = Suc (Suc (length (token_buckets bs))) + l" "l < length (var_buckets bs)"
    "the (symbol_places bs ! k) = var_buckets bs ! l" "the (symbol_places bs ! k) < length bs" using var_places [OF ik(2)] .
  have "var_buckets bs ! j = var_buckets bs ! l"
    using eq j(3,4) l(3,4) final_index [OF assms] symbol_index_inj [OF assms] by (simp add: inj_on_def)
  with j(1,2) l(1,2) token_var_buckets(4) [of bs] show "i = k" by (simp add: nth_eq_iff_index_eq)
qed

text \<open>The entry of each of the arrays for each symbol.\<close>

lemma fill_symbols_low:
  fixes f :: "bucket \<Rightarrow> 'a"
  assumes g: "goal < length bs" "b_class (bs ! goal) \<noteq> Term" and j: "j \<le> Suc (length (token_buckets bs))"
  shows "fill_symbols f l e (final_buckets bs goal) (symbol_places bs) (Suc (length (token_buckets bs))) ! j =
    (fold (\<lambda>i A. A[i := f (final_buckets bs goal ! the (symbol_places bs ! i))]) [1..<Suc (length (token_buckets bs))]
      (replicate (length bs + 2) l))[Suc (length (token_buckets bs)) := e] ! j"
proof -
  have "j \<notin> (\<lambda>i. b_index (final_buckets bs goal ! the (symbol_places bs ! i))) ` {Suc (Suc (length (token_buckets bs)))..<length bs + 2}"
  proof
    assume "j \<in> (\<lambda>i. b_index (final_buckets bs goal ! the (symbol_places bs ! i))) ` {Suc (Suc (length (token_buckets bs)))..<length bs + 2}"
    then obtain i where i: "i \<in> {Suc (Suc (length (token_buckets bs)))..<length bs + 2}"
      and ji: "j = b_index (final_buckets bs goal ! the (symbol_places bs ! i))" by blast
    from var_places [OF i] obtain "the (symbol_places bs ! i) < length bs" "b_class (bs ! the (symbol_places bs ! i)) \<noteq> Term" .
    with symbol_index_var [OF g this] final_index [OF g this(1)] ji j show False by simp
  qed
  then show ?thesis
    unfolding fill_symbols_def Let_def length_symbol_places
    by (intro fold_put_other [of j "\<lambda>i. b_index (final_buckets bs goal ! the (symbol_places bs ! i))"]) (simp del: upt_Suc)
qed

lemma fill_symbols_ends:
  fixes l :: 'a
  assumes g: "goal < length bs" "b_class (bs ! goal) \<noteq> Term"
  shows "length (fill_symbols f l e (final_buckets bs goal) (symbol_places bs) (Suc (length (token_buckets bs)))) = length bs + 2"
    "fill_symbols f l e (final_buckets bs goal) (symbol_places bs) (Suc (length (token_buckets bs))) ! 0 = l"
    "fill_symbols f l e (final_buckets bs goal) (symbol_places bs) (Suc (length (token_buckets bs))) ! Suc (length (token_buckets bs)) = e"
proof -
  show "length (fill_symbols f l e (final_buckets bs goal) (symbol_places bs) (Suc (length (token_buckets bs)))) = length bs + 2"
    by (simp add: fill_symbols_def Let_def del: upt_Suc)
  show "fill_symbols f l e (final_buckets bs goal) (symbol_places bs) (Suc (length (token_buckets bs))) ! Suc (length (token_buckets bs)) = e"
    using token_var_buckets(5) [of bs] fill_symbols_low [OF g, of "Suc (length (token_buckets bs))" f l e]
    by (simp del: upt_Suc)
  have "fold (\<lambda>i A. A[i := h i]) [1..<Suc (length (token_buckets bs))] A ! 0 = A ! 0" for h and A :: "'a list"
    by (rule fold_put_other) (simp del: upt_Suc)
  then show "fill_symbols f l e (final_buckets bs goal) (symbol_places bs) (Suc (length (token_buckets bs))) ! 0 = l"
    using fill_symbols_low [OF g, of 0 f l e] by (simp del: upt_Suc)
qed

lemma fill_symbols_nth:
  assumes g: "goal < length bs" "b_class (bs ! goal) \<noteq> Term" and b: "b < length bs"
  shows "fill_symbols f l e (final_buckets bs goal) (symbol_places bs) (Suc (length (token_buckets bs))) ! symbol_index bs goal b =
    f (final_buckets bs goal ! b)"
proof (cases "b_class (bs ! b) = Term")
  case True
  obtain i where i: "i < length (token_buckets bs)" "token_buckets bs ! i = b"
    using True b token_var_buckets(1) [of bs] by (metis (mono_tags, lifting) in_set_conv_nth mem_Collect_eq)
  then have s: "symbol_index bs goal b = Suc i"
    using True place_of_index [OF token_var_buckets(2) i(1)] by (simp add: symbol_index_def)
  have "fold (\<lambda>i A. A[i := f (final_buckets bs goal ! the (symbol_places bs ! i))]) [1..<Suc (length (token_buckets bs))]
      (replicate (length bs + 2) l) ! Suc i = f (final_buckets bs goal ! the (symbol_places bs ! Suc i))"
    using i(1) token_var_buckets(5) [of bs] by (intro fold_put_nth [of "\<lambda>i. i"]) auto
  then show ?thesis using fill_symbols_low [OF g, of "Suc i" f l e] i s symbol_places_token [OF i(1)] by (simp del: upt_Suc)
next
  case False
  let ?g = "\<lambda>i. b_index (final_buckets bs goal ! the (symbol_places bs ! i))"
  obtain j where j: "j < length (var_buckets bs)" "var_buckets bs ! j = b"
    using False b token_var_buckets(3) [of bs] by (metis (mono_tags, lifting) in_set_conv_nth mem_Collect_eq)
  define i where "i = Suc (Suc (length (token_buckets bs))) + j"
  have i: "the (symbol_places bs ! i) = b" "i \<in> {Suc (Suc (length (token_buckets bs)))..<length bs + 2}"
    using symbol_places_var [OF j(1)] j token_var_buckets(5) [of bs] by (simp_all add: i_def)
  have "?g i < length bs + 2" using symbol_index_var [OF g b False] final_index [OF g b] i(1) by simp
  then have "fill_symbols f l e (final_buckets bs goal) (symbol_places bs) (Suc (length (token_buckets bs))) ! ?g i =
      f (final_buckets bs goal ! the (symbol_places bs ! i))"
    using fold_put_nth [of ?g "[Suc (Suc (length (token_buckets bs)))..<length bs + 2]" i _ "\<lambda>i. f (final_buckets bs goal ! the (symbol_places bs ! i))"]
      var_places_inj [OF g] i(2) by (simp add: fill_symbols_def Let_def del: upt_Suc)
  then show ?thesis using i(1) final_index [OF g b] by simp
qed

section \<open>The packed productions\<close>

text \<open>The precedence of the last token of a right-hand side.\<close>

definition last_prec :: "bucket list \<Rightarrow> int \<times> nat \<Rightarrow> nat list \<Rightarrow> int \<times> nat" where
  "last_prec bs pa r = fold (\<lambda>b pa. if b_class (bs ! b) = Term then (b_prec (bs ! b), b_assoc (bs ! b)) else pa) r pa"

fun packed_items :: "(nat \<Rightarrow> nat) \<Rightarrow> nat \<Rightarrow> production list \<Rightarrow> int list" where
  "packed_items idx k [] = []"
| "packed_items idx k ((l, r) # rs) = map (int \<circ> idx) r @ [- int k] @ packed_items idx (Suc k) rs"

fun rule_starts :: "nat \<Rightarrow> production list \<Rightarrow> nat list" where
  "rule_starts j [] = []"
| "rule_starts j ((l, r) # rs) = j # rule_starts (j + Suc (length r)) rs"

text \<open>The precedence of a rule: its own, if \<^verbatim>\<open>%prec\<close> gave it one.\<close>

definition rule_prec :: "bucket list \<Rightarrow> int \<Rightarrow> nat \<Rightarrow> nat list \<Rightarrow> int \<times> nat" where
  "rule_prec bs p a r = (if p = UNDEFINED then last_prec bs (0, TOKEN) r else (p, a))"

lemma pack_items_map:
  "pack_items bs pa (map Some r @ None # p) = (map (int \<circ> (\<lambda>b. b_index (bs ! b))) r, last_prec bs pa r, p)"
  by (induction r arbitrary: pa) (simp_all add: last_prec_def)

lemma prods_items_Cons: "prods_items ((l, r) # rs) = map Some r @ None # prods_items rs"
  by (simp add: prods_items_def)

lemma pack_fold:
  fixes bs :: "bucket list"
  defines "idx \<equiv> \<lambda>b. b_index (bs ! b)"
  assumes "pk_items p = prods_items rs" "\<And>k. k < length rs \<Longrightarrow> plhs ! (i + k) = Some (fst (rs ! k))"
  shows "fold (pack_rule bs plhs) [i..<i + length rs] p =
    \<lparr>pk_items = [], pk_ritem = pk_ritem p @ packed_items idx i rs, pk_rlhs = pk_rlhs p @ map (idx \<circ> fst) rs,
     pk_rrhs = pk_rrhs p @ rule_starts (length (pk_ritem p)) rs,
     pk_rprec = pk_rprec (fold (pack_rule bs plhs) [i..<i + length rs] p),
     pk_rassoc = pk_rassoc (fold (pack_rule bs plhs) [i..<i + length rs] p)\<rparr>"
  using assms(2,3)
proof (induction rs arbitrary: i p)
  case Nil
  then show ?case by (cases p) (simp add: prods_items_def)
next
  case (Cons lr rs)
  obtain l r where lr: "lr = (l, r)" by (cases lr)
  let ?p = "pack_rule bs plhs i p"
  have up: "[i..<i + length (lr # rs)] = i # [Suc i..<Suc i + length rs]" by (simp add: upt_rec del: upt_Suc)
  have "plhs ! i = Some l" using Cons.prems(2) [of 0] lr by simp
  with Cons.prems(1) lr have p: "pk_items ?p = prods_items rs" "pk_ritem ?p = pk_ritem p @ map (int \<circ> idx) r @ [- int i]"
    "pk_rlhs ?p = pk_rlhs p @ [idx l]" "pk_rrhs ?p = pk_rrhs p @ [length (pk_ritem p)]"
    by (simp_all add: pack_rule_def prods_items_Cons pack_items_map idx_def Let_def split: prod.splits)
  have lhs: "plhs ! (Suc i + k) = Some (fst (rs ! k))" if "k < length rs" for k
    using Cons.prems(2) [of "Suc k"] that by simp
  show ?case
    unfolding up fold.simps comp_def
    by (subst Cons.IH [OF p(1) lhs]) (simp_all add: p(2,3,4) lr)
qed

lemma pack_fold_prec:
  fixes p :: packing and bs :: "bucket list"
  assumes "pk_items p = prods_items rs" "\<And>k. k < length rs \<Longrightarrow> plhs ! (i + k) = Some (fst (rs ! k))"
    and "i + length rs \<le> length (pk_rprec p)" "length (pk_rassoc p) = length (pk_rprec p)"
  defines "q \<equiv> fold (pack_rule bs plhs) [i..<i + length rs] p"
  shows "length (pk_rprec q) = length (pk_rprec p) \<and> length (pk_rassoc q) = length (pk_rprec p) \<and>
    (\<forall>j < i. pk_rprec q ! j = pk_rprec p ! j \<and> pk_rassoc q ! j = pk_rassoc p ! j) \<and>
    (\<forall>k < length rs. (pk_rprec q ! (i + k), pk_rassoc q ! (i + k)) =
      rule_prec bs (pk_rprec p ! (i + k)) (pk_rassoc p ! (i + k)) (snd (rs ! k)))"
  using assms(1-4) unfolding q_def
proof (induction rs arbitrary: i p)
  case (Cons lr rs)
  obtain l r where lr: "lr = (l, r)" by (cases lr)
  let ?p = "pack_rule bs plhs i p"
  have up: "[i..<i + length (lr # rs)] = i # [Suc i..<Suc i + length rs]" by (simp add: upt_rec del: upt_Suc)
  have p: "pk_items ?p = prods_items rs" "length (pk_rprec ?p) = length (pk_rprec p)"
    "length (pk_rassoc ?p) = length (pk_rassoc p)"
    "pk_rprec ?p = (if pk_rprec p ! i = UNDEFINED then (pk_rprec p)[i := fst (last_prec bs (0, TOKEN) r)] else pk_rprec p)"
    "pk_rassoc ?p = (if pk_rprec p ! i = UNDEFINED then (pk_rassoc p)[i := snd (last_prec bs (0, TOKEN) r)] else pk_rassoc p)"
    using Cons.prems(1) lr by (simp_all add: pack_rule_def prods_items_Cons pack_items_map Let_def split: prod.splits)
  let ?q = "fold (pack_rule bs plhs) [Suc i..<Suc i + length rs] ?p"
  have lhs: "plhs ! (Suc i + k) = Some (fst (rs ! k))" if "k < length rs" for k
    using Cons.prems(2) [of "Suc k"] that by simp
  have IH: "length (pk_rprec ?q) = length (pk_rprec ?p) \<and> length (pk_rassoc ?q) = length (pk_rprec ?p) \<and>
    (\<forall>j < Suc i. pk_rprec ?q ! j = pk_rprec ?p ! j \<and> pk_rassoc ?q ! j = pk_rassoc ?p ! j) \<and>
    (\<forall>k < length rs. (pk_rprec ?q ! (Suc i + k), pk_rassoc ?q ! (Suc i + k)) =
      rule_prec bs (pk_rprec ?p ! (Suc i + k)) (pk_rassoc ?p ! (Suc i + k)) (snd (rs ! k)))"
    by (rule Cons.IH [OF p(1) lhs]) (use Cons.prems(3,4) p(2,3) in auto)
  have "(pk_rprec ?q ! (i + k), pk_rassoc ?q ! (i + k)) =
      rule_prec bs (pk_rprec p ! (i + k)) (pk_rassoc p ! (i + k)) (snd ((lr # rs) ! k))" if "k < length (lr # rs)" for k
  proof (cases k)
    case 0
    with IH p(4,5) Cons.prems(3,4) lr show ?thesis by (simp add: rule_prec_def)
  next
    case (Suc m)
    with IH p(4,5) Cons.prems(3,4) lr that show ?thesis by (simp add: rule_prec_def)
  qed
  with IH p(2-5) Cons.prems(4) show ?case unfolding up fold.simps comp_def by (auto simp del: upt_Suc)
qed simp

lemma prods_items_simps [simp]: "prods_items [] = []" "prods_items (lr # rs) = map Some (snd lr) @ None # prods_items rs"
  by (cases lr; simp add: prods_items_def)+

lemma length_packed_items [simp]: "length (packed_items idx k rs) = length (prods_items rs)"
  by (induction idx k rs rule: packed_items.induct) simp_all

lemma packed_items_split:
  "k < length rs \<Longrightarrow> packed_items idx i rs =
    packed_items idx i (take k rs) @ map (int \<circ> idx) (snd (rs ! k)) @ [- int (i + k)] @ packed_items idx (Suc (i + k)) (drop (Suc k) rs)"
proof (induction rs arbitrary: k i)
  case (Cons lr rs)
  then show ?case by (cases lr; cases k) simp_all
qed simp

lemma rule_starts_nth:
  "k \<le> length rs \<Longrightarrow> (rule_starts j rs @ [j + length (prods_items rs)]) ! k = j + length (prods_items (take k rs))"
proof (induction rs arbitrary: k j)
  case (Cons lr rs)
  show ?case
  proof (cases k)
    case 0
    then show ?thesis by (cases lr) simp
  next
    case (Suc m)
    with Cons.IH [of m "j + Suc (length (snd lr))"] Cons.prems show ?thesis by (cases lr) (simp add: ac_simps)
  qed
qed simp

lemma length_rule_starts [simp]: "length (rule_starts j rs) = length rs"
  by (induction j rs rule: rule_starts.induct) simp_all

text \<open>The fields of the packed grammar.\<close>

lemma fill_grammar_fields:
  fixes ps :: packed_symbols and goal :: nat
  assumes c: "closed_rules s rs"
  defines "g \<equiv> fill_grammar s ps goal" and "idx \<equiv> \<lambda>b. b_index (ps_buckets ps ! b)"
  shows "nitems g = 4 + length (prods_items rs)" "nrules g = length rs + 3" "nsyms g = ps_nsyms ps"
    "ntokens g = ps_ntokens ps" "nvars g = ps_nsyms ps - ps_ntokens ps" "start_symbol g = ps_ntokens ps"
    "ritem g = [- 1, int (idx goal), 0, - 2] @ packed_items idx 3 rs"
    "rlhs g = [0, 0, ps_ntokens ps] @ map (idx \<circ> fst) rs"
    "rrhs g = [0, 0, 1] @ rule_starts 4 rs @ [4 + length (prods_items rs)]"
    "symbol_value g = ps_value ps" "symbol_prec g = ps_prec ps" "symbol_assoc g = ps_assoc ps"
    "k < length rs \<Longrightarrow> (rprec g ! (k + 3), rassoc g ! (k + 3)) =
       rule_prec (ps_buckets ps) (rd_rprec s ! (k + 3)) (rd_rassoc s ! (k + 3)) (snd (rs ! k))"
proof -
  define p0 where "p0 = \<lparr>pk_items = drop 4 (rd_pitem s), pk_ritem = [- 1, int (b_index (ps_buckets ps ! goal)), 0, - 2],
    pk_rlhs = [0, 0, ps_ntokens ps], pk_rrhs = [0, 0, 1], pk_rprec = rd_rprec s, pk_rassoc = rd_rassoc s\<rparr>"
  have p0: "pk_items p0 = prods_items rs" using c by (simp add: p0_def closed_rules_def)
  have lhs: "rd_plhs s ! (3 + k) = Some (fst (rs ! k))" if "k < length rs" for k
    using c that by (simp add: closed_rules_def nth_append)
  have n: "[3..<rd_nrules s] = [3..<3 + length rs]" using c by (simp add: closed_rules_def add.commute)
  note q = pack_fold [OF p0 lhs, where bs = "ps_buckets ps"]
  have sz: "3 + length rs \<le> length (pk_rprec p0)" "length (pk_rassoc p0) = length (pk_rprec p0)"
    using c by (simp_all add: p0_def closed_rules_def)
  note pr = pack_fold_prec [OF p0 lhs sz, where bs = "ps_buckets ps"]
  have g: "g = (let p = fold (pack_rule (ps_buckets ps) (rd_plhs s)) [3..<3 + length rs] p0
      in \<lparr>nitems = length (rd_pitem s), nrules = rd_nrules s, nsyms = ps_nsyms ps, ntokens = ps_ntokens ps,
          nvars = ps_nsyms ps - ps_ntokens ps, start_symbol = ps_ntokens ps, ritem = pk_ritem p, rlhs = pk_rlhs p,
          rrhs = pk_rrhs p @ [length (pk_ritem p)], rprec = pk_rprec p, rassoc = pk_rassoc p,
          symbol_value = ps_value ps, symbol_prec = ps_prec ps, symbol_assoc = ps_assoc ps\<rparr>)"
    unfolding g_def fill_grammar_def Let_def n p0_def by simp
  show "nitems g = 4 + length (prods_items rs)" "nrules g = length rs + 3" "nsyms g = ps_nsyms ps"
    "ntokens g = ps_ntokens ps" "nvars g = ps_nsyms ps - ps_ntokens ps" "start_symbol g = ps_ntokens ps"
    "symbol_value g = ps_value ps" "symbol_prec g = ps_prec ps" "symbol_assoc g = ps_assoc ps"
    using c by (simp_all add: g Let_def closed_rules_def)
  show "ritem g = [- 1, int (idx goal), 0, - 2] @ packed_items idx 3 rs"
    "rlhs g = [0, 0, ps_ntokens ps] @ map (idx \<circ> fst) rs"
    "rrhs g = [0, 0, 1] @ rule_starts 4 rs @ [4 + length (prods_items rs)]"
    using arg_cong [OF q, of pk_ritem] arg_cong [OF q, of pk_rlhs] arg_cong [OF q, of pk_rrhs]
    by (simp_all add: g Let_def idx_def p0_def eval_nat_numeral del: upt_Suc)
  show "(rprec g ! (k + 3), rassoc g ! (k + 3)) =
      rule_prec (ps_buckets ps) (rd_rprec s ! (k + 3)) (rd_rassoc s ! (k + 3)) (snd (rs ! k))" if "k < length rs"
    using pr that by (simp add: g Let_def p0_def add.commute del: upt_Suc)
qed

text \<open>Rule \<open>k + 3\<close> is production \<open>k\<close>.\<close>

lemma fill_grammar_rule:
  fixes ps :: packed_symbols and goal :: nat
  assumes c: "closed_rules s rs" and k: "k < length rs"
  defines "g \<equiv> fill_grammar s ps goal" and "idx \<equiv> \<lambda>b. b_index (ps_buckets ps ! b)" and "r \<equiv> snd (rs ! k)"
  shows "rlhs g ! (k + 3) = idx (fst (rs ! k))" "rrhs g ! Suc (k + 3) = rrhs g ! (k + 3) + Suc (length r)"
    "rrhs g ! Suc (k + 3) \<le> nitems g" "ritem g ! (rrhs g ! (k + 3) + length r) = - int (k + 3)"
    "i < length r \<Longrightarrow> ritem g ! (rrhs g ! (k + 3) + i) = int (idx (r ! i))"
    "rhs_syms g (k + 3) = map idx r"
proof -
  note f = fill_grammar_fields [OF c, where ps = ps and goal = goal, folded g_def, folded idx_def]
  show "rlhs g ! (k + 3) = idx (fst (rs ! k))" using k by (simp add: f nth_append)
  have st: "rrhs g ! (j + 3) = 4 + length (prods_items (take j rs))" if "j \<le> length rs" for j
    using rule_starts_nth [OF that, of 4] by (simp add: f nth_append)
  have items: "prods_items (take (Suc k) rs) = prods_items (take k rs) @ map Some r @ [None]"
    using k by (simp add: take_Suc_conv_app_nth prods_items_def r_def split: prod.split)
  show after: "rrhs g ! Suc (k + 3) = rrhs g ! (k + 3) + Suc (length r)"
    using st [of k] st [of "Suc k"] k items by simp
  have "prods_items rs = prods_items (take (Suc k) rs) @ prods_items (drop (Suc k) rs)"
    unfolding prods_items_def by (metis append_take_drop_id concat_append map_append)
  then show "rrhs g ! Suc (k + 3) \<le> nitems g" using st [of "Suc k"] k by (simp add: f)
  note it = packed_items_split [OF k, of idx 3, folded r_def]
  have at: "ritem g ! (rrhs g ! (k + 3) + i) = (map (int \<circ> idx) r @ [- int (3 + k)]) ! i" if "i \<le> length r" for i
    using st [of k] k that by (simp add: f it nth_append)
  show "ritem g ! (rrhs g ! (k + 3) + length r) = - int (k + 3)" using at [of "length r"] by (simp add: nth_append)
  show el: "ritem g ! (rrhs g ! (k + 3) + i) = int (idx (r ! i))" if "i < length r" for i
    using at [of i] that by (simp add: nth_append)
  show "rhs_syms g (k + 3) = map idx r"
    unfolding rhs_syms_def after by (rule nth_equalityI) (simp_all add: el)
qed

section \<open>What the packed grammar says\<close>

text \<open>Numbers for the symbols: the tokens below \<open>start\<close>, the nonterminals above, the start symbol first.\<close>

definition numbering :: "bucket list \<Rightarrow> nat \<Rightarrow> nat \<Rightarrow> (nat \<Rightarrow> nat) \<Rightarrow> bool" where
  "numbering bs goal start idx \<longleftrightarrow> inj_on idx {..<length bs} \<and> idx goal = start + 1 \<and>
     (\<forall>b < length bs. if b_class (bs ! b) = Term then 1 \<le> idx b \<and> idx b < start
        else start < idx b \<and> idx b < length bs + 2)"

text \<open>The grammar holds the symbols \<open>bs\<close> and the productions \<open>rs\<close>, in their order, under the numbers \<open>idx\<close>.\<close>

definition packed_as :: "reader_state \<Rightarrow> nat \<Rightarrow> production list \<Rightarrow> (nat \<Rightarrow> nat) \<Rightarrow> grammar \<Rightarrow> string list \<Rightarrow> bool" where
  "packed_as s goal rs idx g names \<longleftrightarrow>
     (let bs = st_buckets (rd_syms s)
      in nsyms g = length bs + 2 \<and> numbering bs goal (ntokens g) idx \<and>
        (\<forall>b < length bs. names ! idx b = b_name (bs ! b) \<and> symbol_prec g ! idx b = b_prec (bs ! b) \<and>
           symbol_assoc g ! idx b = b_assoc (bs ! b)) \<and>
        nrules g = length rs + 3 \<and>
        (\<forall>k < length rs. rlhs g ! (k + 3) = idx (fst (rs ! k)) \<and> rhs_syms g (k + 3) = map idx (snd (rs ! k)) \<and>
           (rprec g ! (k + 3), rassoc g ! (k + 3)) =
             rule_prec bs (rd_rprec s ! (k + 3)) (rd_rassoc s ! (k + 3)) (snd (rs ! k))))"

text \<open>What \<open>check_symbols\<close> leaves: every symbol has a class, the start symbol is a nonterminal.\<close>

definition checked :: "reader_state \<Rightarrow> nat \<Rightarrow> production list \<Rightarrow> bool" where
  "checked s goal rs \<longleftrightarrow> rd_goal s = Some goal \<and> closed_rules s rs \<and> rs \<noteq> [] \<and>
     (let bs = st_buckets (rd_syms s)
      in goal < length bs \<and> b_class (bs ! goal) = Nonterm \<and> b_class (bs ! 0) = Term)"

lemma check_symbols_wp:
  assumes i: "reader_inv s" "rd_goal s = Some goal" "closed_rules s rs" "rs \<noteq> []"
    and Q: "\<And>t. checked t goal rs \<Longrightarrow> Q () t"
  shows "wp check_symbols Q s"
proof -
  let ?bs = "st_buckets (rd_syms s)"
  have si: "sym_inv (rd_syms s) (Some goal)" using i(1,2) by (simp add: reader_inv_def)
  have g: "goal < length ?bs" "b_class (?bs ! goal) \<noteq> Term" "?bs \<noteq> []"
    using si bucket_ok_goal [OF si] by (simp_all add: sym_inv_def)
  have z: "b_class (?bs ! 0) = Term" using bucket_okD [OF si, of 0] g(3) by (simp add: bucket_ok_def)
  show ?thesis
  proof (cases "b_class (?bs ! goal) = Unknown")
    case True
    then show ?thesis by (simp add: wp_def check_symbols_def i(2) Let_def)
  next
    case False
    let ?t = "s\<lparr>rd_syms := (rd_syms s)\<lparr>st_buckets := map check_symbol ?bs\<rparr>,
      rd_warnings := rd_warnings s @ map (Undefined_symbol \<circ> b_name) (filter (\<lambda>b. b_class b = Unknown) ?bs)\<rparr>"
    have non: "b_class (?bs ! goal) = Nonterm" using False g(2) by (cases "b_class (?bs ! goal)") simp_all
    have "closed_rules ?t rs"
      using i(3) by (rule closed_rules_cong) (auto simp: rules_part_def syms_le_def check_symbol_def)
    then have "checked ?t goal rs"
      using g non z i(2,4) by (simp add: checked_def check_symbol_def)
    then show ?thesis using False Q by (simp add: wp_def check_symbols_def i(2) Let_def)
  qed
qed

lemma final_fields:
  assumes "goal < length bs" "b_class (bs ! goal) \<noteq> Term" "b < length bs"
  shows "b_name (final_buckets bs goal ! b) = b_name (bs ! b)" "b_class (final_buckets bs goal ! b) = b_class (bs ! b)"
    "b_prec (final_buckets bs goal ! b) = b_prec (bs ! b)" "b_assoc (final_buckets bs goal ! b) = b_assoc (bs ! b)"
  by (subst final_bucket [OF assms], simp)+

lemma packed_grammar_as:
  assumes c: "checked s goal rs" and ps: "pack_symbols (st_buckets (rd_syms s)) goal = Inr ps"
  shows "packed_as s goal rs (symbol_index (st_buckets (rd_syms s)) goal) (fill_grammar s ps goal) (ps_name ps)"
proof -
  let ?bs = "st_buckets (rd_syms s)" and ?g = "fill_grammar s ps goal"
  have cl: "closed_rules s rs" and g: "goal < length ?bs" "b_class (?bs ! goal) \<noteq> Term"
    using c by (simp_all add: checked_def Let_def)
  note p = pack_symbols_Inr(2) [OF ps, unfolded symbol_arrays_def Let_def]
  have ix: "b_index (ps_buckets ps ! b) = symbol_index ?bs goal b" if "b < length ?bs" for b
    using final_index [OF g that] p by simp
  have nt: "ntokens ?g = Suc (length (token_buckets ?bs))" "nsyms ?g = length ?bs + 2"
    using p by (simp_all add: fill_grammar_fields [OF cl])
  have num: "numbering ?bs goal (ntokens ?g) (symbol_index ?bs goal)"
    unfolding numbering_def nt
    using symbol_index_inj [OF g] symbol_index_goal [of ?bs goal] symbol_index_token [of _ ?bs goal] symbol_index_var [OF g] g(2)
    by auto
  have fill: "ps_name ps ! symbol_index ?bs goal b = b_name (?bs ! b) \<and> symbol_prec ?g ! symbol_index ?bs goal b = b_prec (?bs ! b) \<and>
      symbol_assoc ?g ! symbol_index ?bs goal b = b_assoc (?bs ! b)" if b: "b < length ?bs" for b
    using p by (simp add: fill_grammar_fields [OF cl] fill_symbols_nth [OF g b] final_fields [OF g b])
  have rule: "rlhs ?g ! (k + 3) = symbol_index ?bs goal (fst (rs ! k)) \<and> rhs_syms ?g (k + 3) = map (symbol_index ?bs goal) (snd (rs ! k)) \<and>
      (rprec ?g ! (k + 3), rassoc ?g ! (k + 3)) = rule_prec ?bs (rd_rprec s ! (k + 3)) (rd_rassoc s ! (k + 3)) (snd (rs ! k))"
    if k: "k < length rs" for k
  proof -
    have "rs ! k \<in> set rs" using k by simp
    then have "fst (rs ! k) < length ?bs" "\<forall>b \<in> set (snd (rs ! k)). b < length ?bs"
      using cl by (auto simp: closed_rules_def prods_ok_def is_var_def case_prod_beta)
    moreover have "last_prec (ps_buckets ps) pa r = last_prec ?bs pa r" if "\<forall>b \<in> set r. b < length ?bs" for r pa
      using that p by (induction r arbitrary: pa) (simp_all add: last_prec_def final_fields [OF g])
    ultimately show ?thesis
      using fill_grammar_rule(1,6) [OF cl k, where ps = ps and goal = goal] ix
        fill_grammar_fields(13) [OF cl, where ps = ps and goal = goal, OF k] by (simp add: rule_prec_def)
  qed
  show ?thesis unfolding packed_as_def Let_def using num fill rule nt(2) by (simp add: fill_grammar_fields [OF cl])
qed

lemma packed_grammar_wf:
  assumes c: "checked s goal rs" and ps: "pack_symbols (st_buckets (rd_syms s)) goal = Inr ps"
    and fit: "nitems (fill_grammar s ps goal) \<le> MAXSHORT"
  shows "wf_grammar (fill_grammar s ps goal)"
proof -
  let ?bs = "st_buckets (rd_syms s)" and ?g = "fill_grammar s ps goal"
  have cl: "closed_rules s rs" and g: "goal < length ?bs" "b_class (?bs ! goal) \<noteq> Term" and z: "b_class (?bs ! 0) = Term"
    and ne: "rs \<noteq> []"
    using c by (simp_all add: checked_def Let_def)
  note p = pack_symbols_Inr(2) [OF ps, unfolded symbol_arrays_def Let_def]
  note f = fill_grammar_fields [OF cl, where ps = ps and goal = goal]
  have ix: "b_index (ps_buckets ps ! b) = symbol_index ?bs goal b" if "b < length ?bs" for b
    using final_index [OF g that] p by simp
  have nt: "ps_ntokens ps = Suc (length (token_buckets ?bs))" "ps_nsyms ps = length ?bs + 2" using p by simp_all
  have "0 \<in> set (token_buckets ?bs)" "goal \<in> set (var_buckets ?bs)"
    using g z by (auto simp: token_var_buckets(1,3))
  then have cnt: "1 \<le> length (token_buckets ?bs)" "1 \<le> length (var_buckets ?bs)"
    using length_pos_if_in_set by (fastforce simp: Suc_le_eq)+
  have items: "length rs \<le> length (prods_items rs)" for rs
    by (induction rs) (auto simp: prods_items_def split: prod.splits)
  have small: "nrules ?g \<le> MAXSHORT" "nsyms ?g \<le> MAXSHORT + 1"
    using fit items [of rs] pack_symbols_Inr(1) [OF ps] by (simp_all add: f nt)
  have "wf_sizes ?g"
    using fit small cnt token_var_buckets(5) [of ?bs] by (simp add: wf_sizes_def f nt)
  moreover have "wf_header ?g"
  proof -
    have "rrhs ?g ! (length rs + 3) = nitems ?g" by (simp add: f nth_append)
    moreover have "rrhs ?g ! 3 = 4" using ne by (cases rs) (auto simp: f)
    moreover have "ritem ?g ! 1 = int (ps_ntokens ps) + 1" using ix [OF g(1)] symbol_index_goal [OF g(2)] nt by (simp add: f)
    ultimately show ?thesis by (simp add: wf_header_def f(2,6)) (simp add: f)
  qed
  moreover have "wf_rule ?g r" if r: "r \<in> {3..<nrules ?g}" for r
  proof -
    define k where "k = r - 3"
    have k: "r = k + 3" "k < length rs" using r by (auto simp: k_def f)
    have "rs ! k \<in> set rs" using k by simp
    then have b: "is_var (rd_syms s) (fst (rs ! k))" "\<forall>b \<in> set (snd (rs ! k)). b < length ?bs"
      using cl by (auto simp: closed_rules_def prods_ok_def case_prod_beta)
    note pr = fill_grammar_rule [OF cl k(2), where ps = ps and goal = goal]
    have lhs: "start_symbol ?g < rlhs ?g ! r \<and> rlhs ?g ! r < nsyms ?g"
      using pr(1) ix symbol_index_var [OF g, of "fst (rs ! k)"] b(1) k(1) by (simp add: is_var_def f nt)
    have "0 < ritem ?g ! j \<and> ritem ?g ! j < int (nsyms ?g) \<and> ritem ?g ! j \<noteq> int (start_symbol ?g)"
      if j: "j \<in> {rrhs ?g ! r..<rrhs ?g ! Suc r - 1}" for j
    proof -
      define i where "i = j - rrhs ?g ! r"
      have "rrhs ?g ! r \<le> j" "j < rrhs ?g ! r + length (snd (rs ! k))" using j pr(2) k(1) by simp_all
      then have i: "j = rrhs ?g ! r + i" "i < length (snd (rs ! k))" by (simp_all add: i_def)
      then have m: "snd (rs ! k) ! i < length ?bs" using b(2) nth_mem by blast
      have "ritem ?g ! j = int (symbol_index ?bs goal (snd (rs ! k) ! i))" using pr(5) [OF i(2)] i k(1) ix [OF m] by simp
      then show ?thesis
        using symbol_index_token [OF m, of goal] symbol_index_var [OF g m] token_var_buckets(5) [of ?bs] by (cases "b_class (?bs ! (snd (rs ! k) ! i)) = Term") (auto simp: f nt)
    qed
    with lhs pr(2,3,4) k(1) show ?thesis by (simp add: wf_rule_def)
  qed
  ultimately show ?thesis by (simp add: wf_grammar_def)
qed

section \<open>A run of the reader\<close>

lemma reader_start_inv:
  assumes "create_symbol_table = Inr st"
  shows "reader_inv (reader_start file inp st)"
proof -
  have "symtab_ok st" "st_buckets st = [(make_bucket ''error'')\<lparr>b_index := 1, b_class := Term\<rparr>]"
    using symtab_ok_create unfolding assms by auto
  then show ?thesis
    by (simp add: reader_inv_def reader_start_def open_input_def scan_ok_def sym_inv_def bucket_ok_def quoted_def make_bucket_def
        QUOTE_def DOUBLE_QUOTE_def)
qed

lemma reader_result:
  "(\<exists>e. reader address file inp = Inl e \<and> user_error e) \<or>
   (\<exists>s goal rs ps. checked s goal rs \<and> pack_symbols (st_buckets (rd_syms s)) goal = Inr ps \<and>
      nitems (fill_grammar s ps goal) \<le> MAXSHORT \<and>
      reader address file inp = Inr \<lparr>rg_grammar = fill_grammar s ps goal, rg_names = ps_name ps, rg_state = s\<rparr>) \<or>
   (\<exists>s. read_text address file inp = Inr ((), s) \<and>
      (MAXSHORT \<le> length (st_buckets (rd_syms s)) \<or> MAXSHORT < length (rd_pitem s)) \<and>
      reader address file inp = Inl (Internal OutOfShort))"
proof -
  obtain st where st: "create_symbol_table = Inr st" using symtab_ok_create by blast
  let ?run = "andThen read_declarations (andThen (read_grammar address) check_symbols)"
  have ch: "wp check_symbols (\<lambda>_ s. \<exists>goal rs. checked s goal rs) s"
    if s: "reader_inv s" "closed_rules s rs" "rs \<noteq> []" "rd_goal s \<noteq> None" for s rs
  proof -
    obtain goal where "rd_goal s = Some goal" using s(4) by blast
    then show ?thesis by (rule check_symbols_wp [OF s(1) _ s(2,3)]) blast
  qed
  have "wp (read_grammar address) (\<lambda>_. wp check_symbols (\<lambda>_ s. \<exists>goal rs. checked s goal rs)) s" if "reader_inv s" for s
    by (rule read_grammar_wp [OF that]) (rule ch)
  then have w: "wp ?run (\<lambda>_ s. \<exists>goal rs. checked s goal rs) (reader_start file inp st)"
    unfolding wp_andThen by (intro read_declarations_wp [OF reader_start_inv [OF st]]) (simp add: declared_def)
  from w show ?thesis
  proof (cases rule: wpE)
    case (1 e)
    then show ?thesis unfolding reader_def read_text_def st by simp
  next
    case (2 a s)
    then obtain goal rs where c: "checked s goal rs" by blast
    from c have g: "rd_goal s = Some goal" and cl: "closed_rules s rs" by (simp_all add: checked_def)
    have rt: "read_text address file inp = Inr ((), s)" using 2(1) unfolding read_text_def st by simp
    show ?thesis
    proof (cases "MAXSHORT \<le> length (st_buckets (rd_syms s))")
      case True
      then have "pack_symbols (st_buckets (rd_syms s)) goal = Inl OutOfShort" by (simp add: pack_symbols_eq Let_def)
      with 2(1) g have "reader address file inp = Inl (Internal OutOfShort)" unfolding reader_def read_text_def st by simp
      with rt True show ?thesis by blast
    next
      case False
      then obtain ps where ps: "pack_symbols (st_buckets (rd_syms s)) goal = Inr ps"
        by (simp add: pack_symbols_eq Let_def)
      note f = fill_grammar_fields [OF cl, where ps = ps and goal = goal]
      have last: "rrhs (fill_grammar s ps goal) ! nrules (fill_grammar s ps goal) = nitems (fill_grammar s ps goal)"
        unfolding f(2) by (simp add: f nth_append)
      have len: "nitems (fill_grammar s ps goal) = length (rd_pitem s)" by (simp add: fill_grammar_def Let_def)
      show ?thesis
      proof (cases "MAXSHORT < length (rd_pitem s)")
        case True
        then have "reader address file inp = Inl (Internal OutOfShort)"
          using 2(1) g ps last len unfolding reader_def read_text_def st pack_grammar_def by simp
        with rt True show ?thesis by blast
      next
        case False
        then have "reader address file inp = Inr \<lparr>rg_grammar = fill_grammar s ps goal, rg_names = ps_name ps, rg_state = s\<rparr>"
          using 2(1) g ps last len unfolding reader_def read_text_def st pack_grammar_def by simp
        moreover have "nitems (fill_grammar s ps goal) \<le> MAXSHORT" using len False by simp
        ultimately show ?thesis using c ps by blast
      qed
    qed
  qed
qed


text \<open>
  C9: The grammar \<^verbatim>\<open>reader\<close> returns is the one that was read: there are distinct numbers for the
  symbols, tokens first and the start symbol right behind \<^verbatim>\<open>$accept\<close>, under which the arrays hold the
  name, precedence and associativity of every symbol, and rule \<open>k + 3\<close> is production \<open>k\<close>, with the
  precedence its \<^verbatim>\<open>%prec\<close> gave it, or else that of its last token.  All these numbers are \<^verbatim>\<open>short\<close>s; a text
  for which they are not ends without a grammar.
\<close>

theorem reader_packs:
  "case reader address file inp of
     Inl e \<Rightarrow> user_error e \<or> e = Internal OutOfShort
   | Inr r \<Rightarrow> nitems (rg_grammar r) \<le> MAXSHORT \<and> nsyms (rg_grammar r) \<le> MAXSHORT + 1 \<and> (\<exists>goal rs idx. checked (rg_state r) goal rs \<and>
       packed_as (rg_state r) goal rs idx (rg_grammar r) (rg_names r))"
  using reader_result [of address "file" inp]
proof (elim disjE exE conjE)
  fix s goal rs ps
  assume c: "checked s goal rs" "pack_symbols (st_buckets (rd_syms s)) goal = Inr ps"
    and fit: "nitems (fill_grammar s ps goal) \<le> MAXSHORT"
    and r: "reader address file inp = Inr \<lparr>rg_grammar = fill_grammar s ps goal, rg_names = ps_name ps, rg_state = s\<rparr>"
  have "nsyms (fill_grammar s ps goal) \<le> MAXSHORT + 1" using wf_sizesD(11) [OF packed_grammar_wf [OF c fit]] .
  with packed_grammar_as [OF c] fit r c(1) show ?thesis by auto
qed simp_all

section \<open>The values of the tokens\<close>

lemma collect_sort:
  "sorted vs \<Longrightarrow> fold (collect_value bs) (map Some ts) vs = sort (vs @ filter (\<lambda>n. 256 < n) (map (\<lambda>b. b_value (bs ! b)) ts))"
proof (induction ts arbitrary: vs)
  case (Cons b ts)
  let ?n = "b_value (bs ! b)"
  have "shift_down (vs @ [?n]) (length vs) ?n = insort ?n vs" using shift_down_split [OF Cons.prems, of ?n "[]"] by simp
  moreover have "sorted (insort ?n vs)" using Cons.prems by (simp add: sorted_insort)
  moreover have "sort (insort ?n vs @ xs) = sort (vs @ ?n # xs)" for xs :: "int list"
    by (rule properties_for_sort) (simp_all add: ac_simps)
  ultimately show ?case using Cons.IH Cons.prems by (simp add: collect_value_def Let_def)
qed (simp add: sorted_sort_id)

lemma skip_used_fresh:
  assumes "sorted_wrt (<) vs" "\<forall>v \<in> set vs. n \<le> v" "skip_used n vs = (m, vs')"
  shows "n \<le> m \<and> m + int (length vs') = n + int (length vs) \<and> sorted_wrt (<) vs' \<and> (\<forall>v \<in> set vs'. m < v) \<and>
    (\<forall>v \<in> set vs. v < m \<or> v \<in> set vs')"
  using assms
proof (induction n vs rule: skip_used.induct)
  case (2 n x xs)
  show ?case
  proof (cases "n = x")
    case True
    with "2.prems"(1) have d: "dropWhile (\<lambda>y. y = n) xs = xs" by (cases xs) auto
    have "\<forall>v \<in> set xs. n + 1 \<le> v" using "2.prems"(1) True by auto
    moreover have "sorted_wrt (<) xs" "skip_used (n + 1) xs = (m, vs')" using "2.prems"(1,3) True d by simp_all
    ultimately have "n + 1 \<le> m \<and> m + int (length vs') = n + 1 + int (length xs) \<and> sorted_wrt (<) vs' \<and> (\<forall>v \<in> set vs'. m < v) \<and>
        (\<forall>v \<in> set xs. v < m \<or> v \<in> set vs')"
      using "2.IH" [OF True] unfolding d by simp
    with True show ?thesis by auto
  next
    case False
    then have "m = n" "vs' = x # xs" using "2.prems"(3) by simp_all
    moreover have "n < x" using "2.prems"(2) False by simp
    ultimately show ?thesis using "2.prems"(1) by fastforce
  qed
qed simp

text \<open>
  The values given out are new: \<open>w b\<close> is the value \<open>b\<close> had before, \<open>vs\<close> the declared values that are left.
\<close>

definition undefined_tokens :: "bucket list \<Rightarrow> nat list \<Rightarrow> nat list" where
  "undefined_tokens bs ts = filter (\<lambda>b. b_value (bs ! b) = UNDEFINED) ts"

lemma give_fold:
  assumes "distinct ts" "set ts \<subseteq> {..<length bs}" "sorted_wrt (<) vs" "\<forall>v \<in> set vs. n \<le> v" "257 \<le> n"
    and "n + int (length vs) + int (length (undefined_tokens bs ts)) \<le> 32768"
    and "fold give_value (map Some ts) (n, vs, bs) = (n', vs', bs')"
  shows "(\<forall>b. b \<notin> set (undefined_tokens bs ts) \<longrightarrow> bs' ! b = bs ! b) \<and>
    (\<forall>b \<in> set (undefined_tokens bs ts). n \<le> b_value (bs' ! b) \<and> b_value (bs' ! b) \<notin> set vs) \<and>
    inj_on (\<lambda>b. b_value (bs' ! b)) (set (undefined_tokens bs ts))"
  using assms
proof (induction ts arbitrary: n vs bs)
  case (Cons a ts)
  show ?case
  proof (cases "b_value (bs ! a) = UNDEFINED")
    case False
    then have "give_value (Some a) (n, vs, bs) = (n, vs, bs)" "undefined_tokens bs (a # ts) = undefined_tokens bs ts"
      by (simp_all add: give_value_def undefined_tokens_def)
    with Cons.IH [of bs vs n] Cons.prems show ?thesis by simp
  next
    case True
    obtain m ws where m: "skip_used n vs = (m, ws)" by (cases "skip_used n vs")
    note sk = skip_used_fresh [OF Cons.prems(3,4) m]
    have un: "undefined_tokens bs (a # ts) = a # undefined_tokens bs ts" using True by (simp add: undefined_tokens_def)
    have "m \<le> 32767" "257 \<le> m" using sk Cons.prems(5,6) un by simp_all
    then have "short m = m" by (intro short_id) simp_all
    let ?bs = "bs[a := (bs ! a)\<lparr>b_value := m\<rparr>]"
    have step: "give_value (Some a) (n, vs, bs) = (m + 1, ws, ?bs)"
      using True m \<open>short m = m\<close> by (simp add: give_value_def)
    have a: "a \<notin> set ts" "a < length bs" using Cons.prems(1,2) by simp_all
    then have same: "undefined_tokens ?bs ts = undefined_tokens bs ts"
      unfolding undefined_tokens_def by (intro filter_cong) (auto simp: nth_list_update split: if_splits)
    have r: "fold give_value (map Some ts) (m + 1, ws, ?bs) = (n', vs', bs')" using Cons.prems(7) step by simp
    have IH: "(\<forall>b. b \<notin> set (undefined_tokens bs ts) \<longrightarrow> bs' ! b = ?bs ! b) \<and>
      (\<forall>b \<in> set (undefined_tokens bs ts). m + 1 \<le> b_value (bs' ! b) \<and> b_value (bs' ! b) \<notin> set ws) \<and>
      inj_on (\<lambda>b. b_value (bs' ! b)) (set (undefined_tokens bs ts))"
      by (rule Cons.IH [of ?bs ws "m + 1", unfolded same, OF _ _ _ _ _ _ r])
        (use Cons.prems sk un \<open>257 \<le> m\<close> in auto)
    have na: "a \<notin> set (undefined_tokens bs ts)" using a(1) by (auto simp: undefined_tokens_def)
    with IH a(2) have va: "b_value (bs' ! a) = m" by simp
    have old: "m \<notin> set vs" using sk by (metis order_less_irrefl)
    have new: "n \<le> b_value (bs' ! b) \<and> b_value (bs' ! b) \<notin> set vs" if "b \<in> set (undefined_tokens bs ts)" for b
    proof -
      have v: "m + 1 \<le> b_value (bs' ! b)" "b_value (bs' ! b) \<notin> set ws" using IH that by blast+
      then have "\<not> b_value (bs' ! b) < m" by linarith
      with v sk show ?thesis by force
    qed
    show ?thesis
      unfolding un list.set(2)
    proof (intro conjI allI ballI impI)
      show "inj_on (\<lambda>b. b_value (bs' ! b)) (insert a (set (undefined_tokens bs ts)))"
      proof -
        have "m \<notin> (\<lambda>b. b_value (bs' ! b)) ` set (undefined_tokens bs ts)"
        proof
          assume "m \<in> (\<lambda>b. b_value (bs' ! b)) ` set (undefined_tokens bs ts)"
          then obtain b where "b \<in> set (undefined_tokens bs ts)" "b_value (bs' ! b) = m" by blast
          with IH have "m + 1 \<le> m" by blast
          then show False by simp
        qed
        with IH va na show ?thesis unfolding inj_on_insert by (simp add: insert_absorb)
      qed
      show "bs' ! b = bs ! b" if "b \<notin> insert a (set (undefined_tokens bs ts))" for b using IH that by simp
      show "n \<le> b_value (bs' ! b)" if "b \<in> insert a (set (undefined_tokens bs ts))" for b
      proof (cases "b = a")
        case True
        with va sk show ?thesis by simp
      qed (use that new in blast)
      show "b_value (bs' ! b) \<notin> set vs" if "b \<in> insert a (set (undefined_tokens bs ts))" for b
      proof (cases "b = a")
        case True
        with va old show ?thesis by simp
      qed (use that new in blast)
    qed
  qed
qed (simp add: undefined_tokens_def)

text \<open>What is asked of the declared values: distinct and positive, and 256 left to \<^verbatim>\<open>error\<close>.\<close>

definition declared_tokens :: "bucket list \<Rightarrow> nat set" where
  "declared_tokens bs = {b. b < length bs \<and> b_class (bs ! b) = Term \<and> b_value (bs ! b) \<noteq> UNDEFINED}"

definition declared_values_ok :: "bucket list \<Rightarrow> bool" where
  "declared_values_ok bs \<longleftrightarrow> inj_on (\<lambda>b. b_value (bs ! b)) (declared_tokens bs) \<and>
     (\<forall>b \<in> declared_tokens bs. 0 < b_value (bs ! b) \<and> (b_value (bs ! 0) = UNDEFINED \<longrightarrow> b_value (bs ! b) \<noteq> 256))"

lemma declared_count:
  "length (filter (\<lambda>n. 256 < n) (map (\<lambda>b. b_value (bs ! b)) ts)) + length (undefined_tokens bs ts) \<le> length ts"
  by (induction ts) (auto simp: undefined_tokens_def UNDEFINED_def)

text \<open>\<open>w\<close> are the values at first; \<open>e\<close> is \<^verbatim>\<open>error\<close>.\<close>

lemma give_values_distinct:
  assumes d: "distinct (e # ts)" "set (e # ts) \<subseteq> {..<length bs}" and small: "length ts \<le> 32510"
    and w: "\<And>b. w b = b_value (bs ! b)"
    and inj: "inj_on w {b \<in> set (e # ts). w b \<noteq> UNDEFINED}"
    and pos: "\<forall>b \<in> set (e # ts). w b \<noteq> UNDEFINED \<longrightarrow> 0 < w b \<and> (w e = UNDEFINED \<longrightarrow> w b \<noteq> 256)"
  defines "bs' \<equiv> give_values (map Some (e # ts)) bs"
  shows "inj_on (\<lambda>b. b_value (bs' ! b)) (set (e # ts))" "\<forall>b \<in> set (e # ts). 0 < b_value (bs' ! b)"
    "\<And>b. b \<notin> set (e # ts) \<Longrightarrow> bs' ! b = bs ! b"
proof -
  have ok: "0 < w b \<and> (w e = UNDEFINED \<longrightarrow> w b \<noteq> 256)" if "b \<in> set (e # ts)" "w b \<noteq> UNDEFINED" for b
    using pos that by blast
  have ww: "w = (\<lambda>b. b_value (bs ! b))" by (rule ext) (rule w)
  define vs where "vs = fold (collect_value bs) (map Some (e # ts)) []"
  define be where "be = (if w e = UNDEFINED then bs[e := (bs ! e)\<lparr>b_value := 256\<rparr>] else bs)"
  have "bs' = snd (snd (fold give_value (map Some ts) (257, vs, be)))"
    by (simp add: bs'_def vs_def be_def give_values_def w)
  then obtain n' vs' where r: "fold give_value (map Some ts) (257, vs, be) = (n', vs', bs')" by (metis prod.collapse)
  have vs: "vs = sort (filter (\<lambda>n. 256 < n) (map w (e # ts)))"
    unfolding vs_def ww using collect_sort [of "[]" bs "e # ts"] by simp
  have "inj_on w (set (filter (\<lambda>b. 256 < w b) (e # ts)))"
    by (rule inj_on_subset [OF inj]) (auto simp: UNDEFINED_def)
  then have "distinct (map w (filter (\<lambda>b. 256 < w b) (e # ts)))" by (intro distinct_map [THEN iffD2] conjI distinct_filter d)
  then have "distinct (filter (\<lambda>n. 256 < n) (map w (e # ts)))" by (simp only: filter_map comp_def)
  then have srt: "sorted_wrt (<) vs" unfolding vs strict_sorted_iff by (simp del: filter.simps list.map)
  have un: "undefined_tokens be ts = undefined_tokens bs ts"
    using d(1) by (auto simp: undefined_tokens_def be_def nth_upd split: if_splits intro!: filter_cong)
  have U: "set (undefined_tokens bs ts) = {b \<in> set ts. w b = UNDEFINED}" by (simp add: undefined_tokens_def w)
  have len: "length vs + length (undefined_tokens bs ts) \<le> Suc (length ts)"
    unfolding vs ww using declared_count [of bs ts] by simp
  have G: "(\<forall>b. b \<notin> set (undefined_tokens bs ts) \<longrightarrow> bs' ! b = be ! b) \<and>
    (\<forall>b \<in> set (undefined_tokens bs ts). 257 \<le> b_value (bs' ! b) \<and> b_value (bs' ! b) \<notin> set vs) \<and>
    inj_on (\<lambda>b. b_value (bs' ! b)) (set (undefined_tokens bs ts))"
    by (rule give_fold [of ts be vs 257, unfolded un, OF _ _ srt _ _ _ r]) (use d len small in \<open>auto simp: be_def vs\<close>)
  show other: "bs' ! b = bs ! b" if "b \<notin> set (e # ts)" for b
    using that G U by (auto simp: be_def)
  have old: "b_value (bs' ! b) = w b" if "w b \<noteq> UNDEFINED" for b
    using that G U by (auto simp: be_def w nth_upd)
  have err: "b_value (bs' ! e) = 256" if "w e = UNDEFINED"
    using that G U d by (auto simp: be_def)
  show "\<forall>b \<in> set (e # ts). 0 < b_value (bs' ! b)"
  proof
    fix b assume b: "b \<in> set (e # ts)"
    consider "w b \<noteq> UNDEFINED" | "w b = UNDEFINED" "b = e" | "b \<in> set (undefined_tokens bs ts)" using b U by auto
    then show "0 < b_value (bs' ! b)"
    proof cases
      case 1
      then show ?thesis using old ok b by simp
    next
      case 2
      then show ?thesis using err by simp
    next
      case 3
      with G have "257 \<le> b_value (bs' ! b)" by blast
      then show ?thesis by simp
    qed
  qed
  have new: "b_value (bs' ! b) \<noteq> b_value (bs' ! c)" if "b \<in> set (undefined_tokens bs ts)" "c \<in> set (e # ts)" "w c \<noteq> UNDEFINED" for b c
  proof -
    have "w c \<le> 256 \<or> w c \<in> set vs" using that(2) by (auto simp: vs)
    with G that(1) old [OF that(3)] show ?thesis by force
  qed
  have new_err: "b_value (bs' ! b) \<noteq> b_value (bs' ! e)" if "b \<in> set (undefined_tokens bs ts)" "w e = UNDEFINED" for b
  proof -
    have "257 \<le> b_value (bs' ! b)" using G that(1) by blast
    with err [OF that(2)] show ?thesis by simp
  qed
  have old_err: "b_value (bs' ! b) \<noteq> b_value (bs' ! e)" if "b \<in> set (e # ts)" "w b \<noteq> UNDEFINED" "w e = UNDEFINED" for b
    using ok [OF that(1,2)] that(3) old [OF that(2)] err by simp
  have old_inj: "b = c" if "b \<in> set (e # ts)" "c \<in> set (e # ts)" "w b \<noteq> UNDEFINED" "w c \<noteq> UNDEFINED" "b_value (bs' ! b) = b_value (bs' ! c)" for b c
    using inj_onD [OF inj, of b c] that old by simp
  show "inj_on (\<lambda>b. b_value (bs' ! b)) (set (e # ts))"
  proof (rule inj_onI)
    fix b c assume bc: "b \<in> set (e # ts)" "c \<in> set (e # ts)" and eq: "b_value (bs' ! b) = b_value (bs' ! c)"
    have kind: "x \<in> set (undefined_tokens bs ts) \<or> w x \<noteq> UNDEFINED \<or> x = e \<and> w e = UNDEFINED" if "x \<in> set (e # ts)" for x
      using that U by auto
    from kind [OF bc(1)] show "b = c"
    proof (elim disjE)
      assume b: "b \<in> set (undefined_tokens bs ts)"
      from kind [OF bc(2)] show ?thesis
        using new [OF b bc(2)] new_err [OF b] eq G b by (elim disjE) (simp_all add: inj_on_def)
    next
      assume b: "w b \<noteq> UNDEFINED"
      from kind [OF bc(2)] show ?thesis
        using new [OF _ bc(1) b] old_inj [OF bc b _ eq] old_err [OF bc(1) b] eq by (elim disjE) (metis, metis, metis)
    next
      assume b: "b = e \<and> w e = UNDEFINED"
      from kind [OF bc(2)] show ?thesis
        using new_err [of c] old_err [OF bc(2)] b eq by (elim disjE) (metis, metis, metis)
    qed
  qed
qed

lemma token_buckets_hd:
  assumes "bs \<noteq> []" "b_class (bs ! 0) = Term"
  obtains ts where "token_buckets bs = 0 # ts"
proof -
  have "[0..<length bs] = 0 # [1..<length bs]" using assms(1) by (simp add: upt_conv_Cons)
  with assms(2) that show thesis by (simp add: token_buckets_def)
qed

text \<open>The buckets before the tokens get their values.\<close>

lemma var_value:
  assumes g: "goal < length bs" "b_class (bs ! goal) \<noteq> Term" and b: "b < length bs"
  defines "ws \<equiv> number_symbols set_value (Some goal) (map Some (var_buckets bs)) 1 ((numbered bs goal)[goal := set_value 0 (numbered bs goal ! goal)])"
  shows "b_value (ws ! b) = (if b_class (bs ! b) = Term then b_value (bs ! b) else int (symbol_index bs goal b) - int (length (token_buckets bs)) - 2)"
    "length ws = length bs"
proof -
  show "length ws = length bs" by (simp add: ws_def)
  have V: "set (var_buckets bs) \<subseteq> {..<length ((numbered bs goal)[goal := set_value 0 (numbered bs goal ! goal)])}"
    using token_var_buckets(3) [of bs] by auto
  show "b_value (ws ! b) = (if b_class (bs ! b) = Term then b_value (bs ! b) else int (symbol_index bs goal b) - int (length (token_buckets bs)) - 2)"
    unfolding ws_def nth_number_symbols [OF token_var_buckets(4) V]
    using g b numbered_nth [OF g b] token_var_buckets(3) [of bs]
    by (auto simp: nth_list_update set_value_def symbol_index_def)
qed

lemma final_values:
  assumes g: "goal < length bs" "b_class (bs ! goal) \<noteq> Term" and z: "b_class (bs ! 0) = Term"
    and v: "declared_values_ok bs" and small: "length (token_buckets bs) \<le> 32511"
  shows "inj_on (\<lambda>b. b_value (final_buckets bs goal ! b)) (set (token_buckets bs))"
    "\<forall>b \<in> set (token_buckets bs). 0 < b_value (final_buckets bs goal ! b)"
    "\<forall>b \<in> set (var_buckets bs). b_value (final_buckets bs goal ! b) = int (symbol_index bs goal b) - int (length (token_buckets bs)) - 2"
proof -
  obtain ts where T: "token_buckets bs = 0 # ts" using token_buckets_hd [of bs] g z by (metis length_0_conv less_nat_zero_code)
  define ws where "ws = number_symbols set_value (Some goal) (map Some (var_buckets bs)) 1 ((numbered bs goal)[goal := set_value 0 (numbered bs goal ! goal)])"
  note vv = var_value [OF g, folded ws_def]
  have fin: "final_buckets bs goal = give_values (map Some (0 # ts)) ws" by (simp add: final_buckets_def ws_def T Let_def)
  have mem: "b < length bs \<and> b_value (ws ! b) = b_value (bs ! b) \<and> (b_value (ws ! b) \<noteq> UNDEFINED \<longrightarrow> b \<in> declared_tokens bs)"
    if "b \<in> set (0 # ts)" for b
  proof -
    have b: "b < length bs" "b_class (bs ! b) = Term" using that unfolding T [symmetric] by (simp_all add: token_var_buckets(1))
    with vv(1) [OF b(1)] show ?thesis by (simp add: declared_tokens_def)
  qed
  have d: "distinct (0 # ts)" "set (0 # ts) \<subseteq> {..<length ws}" "length ts \<le> 32510"
    using token_var_buckets(1,2) [of bs] T vv(2) [OF g(1)] small by auto
  have inj: "inj_on (\<lambda>b. b_value (ws ! b)) {b \<in> set (0 # ts). b_value (ws ! b) \<noteq> UNDEFINED}"
  proof (rule inj_onI)
    fix b c assume "b \<in> {b \<in> set (0 # ts). b_value (ws ! b) \<noteq> UNDEFINED}" "c \<in> {b \<in> set (0 # ts). b_value (ws ! b) \<noteq> UNDEFINED}"
      "b_value (ws ! b) = b_value (ws ! c)"
    with mem [of b] mem [of c] have "b \<in> declared_tokens bs" "c \<in> declared_tokens bs" "b_value (bs ! b) = b_value (bs ! c)" by auto
    with v show "b = c" unfolding declared_values_ok_def by (blast dest: inj_onD)
  qed
  have ok: "\<forall>b \<in> set (0 # ts). b_value (ws ! b) \<noteq> UNDEFINED \<longrightarrow>
      0 < b_value (ws ! b) \<and> (b_value (ws ! 0) = UNDEFINED \<longrightarrow> b_value (ws ! b) \<noteq> 256)"
    using mem v mem [of 0] unfolding declared_values_ok_def by (metis list.set_intros(1))
  note r = give_values_distinct [OF d refl inj ok, folded fin]
  show "inj_on (\<lambda>b. b_value (final_buckets bs goal ! b)) (set (token_buckets bs))"
    "\<forall>b \<in> set (token_buckets bs). 0 < b_value (final_buckets bs goal ! b)"
    using r(1,2) by (simp_all add: T)
  show "\<forall>b \<in> set (var_buckets bs). b_value (final_buckets bs goal ! b) = int (symbol_index bs goal b) - int (length (token_buckets bs)) - 2"
  proof
    fix b assume "b \<in> set (var_buckets bs)"
    then have b: "b < length bs" "b_class (bs ! b) \<noteq> Term" by (simp_all add: token_var_buckets(3))
    then have "b \<notin> set (0 # ts)" unfolding T [symmetric] by (simp add: token_var_buckets(1))
    from r(3) [OF this] vv(1) [OF b(1)] b(2)
    show "b_value (final_buckets bs goal ! b) = int (symbol_index bs goal b) - int (length (token_buckets bs)) - 2" by simp
  qed
qed

text \<open>Every number behind the start symbol belongs to a nonterminal.\<close>

lemma var_numbered:
  assumes g: "goal < length bs" "b_class (bs ! goal) \<noteq> Term"
    and X: "Suc (length (token_buckets bs)) < X" "X < length bs + 2"
  shows "\<exists>b \<in> set (var_buckets bs). symbol_index bs goal b = X"
proof (cases "X = Suc (length (token_buckets bs)) + 1")
  case True
  then show ?thesis using symbol_index_goal [OF g(2)] g token_var_buckets(3) [of bs] by auto
next
  case False
  let ?ws = "filter (\<lambda>x. Some goal \<noteq> Some x) (var_buckets bs)"
  define i where "i = X - (Suc (length (token_buckets bs)) + 2)"
  have X': "X = Suc (length (token_buckets bs)) + 2 + i" using X False by (simp add: i_def)
  have i: "i < length ?ws" using X X' length_other_vars [OF g] token_var_buckets(5) [of bs] by simp
  have "?ws ! i \<in> set ?ws" by (rule nth_mem [OF i])
  then have b: "?ws ! i \<in> set (var_buckets bs)" "?ws ! i \<noteq> goal" by auto
  then have "b_class (bs ! (?ws ! i)) \<noteq> Term" using token_var_buckets(3) [of bs] by simp
  with b(2) place_of_index_goal [OF token_var_buckets(4) i] X' have "symbol_index bs goal (?ws ! i) = X"
    by (simp add: symbol_index_def)
  with b(1) show ?thesis by blast
qed

end
