(* ===== verification/Generator.thy ===== *)
theory Generator
  imports Passes Packing
begin

text \<open>
  The generator from the text of a grammar to the packed tables: \<^verbatim>\<open>reader\<close> followed by the passes, as
  \<^verbatim>\<open>main\<close> of \<^verbatim>\<open>jay/main.c\<close> runs them.  The theorems compose what the reader promises (a packed grammar
  that is the one read) with what the passes make of such a grammar.
\<close>

definition generator :: "(string \<Rightarrow> int) \<Rightarrow> string \<Rightarrow> string \<Rightarrow> (reader_error + reading \<times> run) option" where
  "generator address file inp =
     (case reader address file inp of
        Inl e \<Rightarrow> Some (Inl e)
      | Inr r \<Rightarrow>
          (case compile_tables (rg_grammar r) of
             None \<Rightarrow> None
           | Some (Inl e) \<Rightarrow> Some (Inl (Internal e))
           | Some (Inr R) \<Rightarrow> Some (Inr (r, R))))"

section \<open>The values of the symbols\<close>

text \<open>
  What the tables need of the values: the declared ones are distinct, positive and not 256 unless
  \<^verbatim>\<open>error\<close> has it, and there are not so many tokens that the values given out leave a \<^verbatim>\<open>short\<close>.
\<close>

definition distinct_values :: "reading \<Rightarrow> bool" where
  "distinct_values r \<longleftrightarrow> declared_values_ok (st_buckets (rd_syms (rg_state r))) \<and> ntokens (rg_grammar r) \<le> 32512"

lemma packed_values:
  assumes c: "checked s goal rs" and ps: "pack_symbols (st_buckets (rd_syms s)) goal = Inr ps"
    and v: "declared_values_ok (st_buckets (rd_syms s))" and small: "ntokens (fill_grammar s ps goal) \<le> 32512"
  shows "values_ok (fill_grammar s ps goal)"
proof -
  let ?bs = "st_buckets (rd_syms s)" and ?g = "fill_grammar s ps goal"
  have cl: "closed_rules s rs" and g: "goal < length ?bs" "b_class (?bs ! goal) \<noteq> Term" and z: "b_class (?bs ! 0) = Term"
    using c by (simp_all add: checked_def Let_def)
  note p = pack_symbols_Inr(2) [OF ps, unfolded symbol_arrays_def Let_def]
  note f = fill_grammar_fields [OF cl, where ps = ps and goal = goal]
  have pv: "ps_ntokens ps = Suc (length (token_buckets ?bs))" "ps_nsyms ps = length ?bs + 2"
    "ps_value ps = fill_symbols b_value 0 (- 1) (final_buckets ?bs goal) (symbol_places ?bs) (Suc (length (token_buckets ?bs)))"
    using p by simp_all
  have nt: "ntokens ?g = Suc (length (token_buckets ?bs))" "nsyms ?g = length ?bs + 2" "start_symbol ?g = Suc (length (token_buckets ?bs))"
    by (simp_all add: f pv)
  note fv = final_values [OF g z v] note fe = fill_symbols_ends [OF g, of b_value 0 "- 1"]
  have small': "length (token_buckets ?bs) \<le> 32511" using small nt by simp
  have val: "symbol_value ?g ! symbol_index ?bs goal b = b_value (final_buckets ?bs goal ! b)" if "b < length ?bs" for b
    using fill_symbols_nth [OF g that, of b_value 0 "- 1"] by (simp add: f pv)
  have zero: "symbol_value ?g ! 0 = 0" using fe(2) by (simp add: f pv)
  have tok: "\<exists>b \<in> set (token_buckets ?bs). symbol_index ?bs goal b = X" if X: "0 < X" "X < ntokens ?g" for X
  proof
    let ?b = "token_buckets ?bs ! (X - 1)"
    show "?b \<in> set (token_buckets ?bs)" using X nt by simp
    then have "b_class (?bs ! ?b) = Term" using token_var_buckets(1) [of ?bs] by simp
    then show "symbol_index ?bs goal ?b = X"
      using place_of_index [OF token_var_buckets(2), of "X - 1" ?bs] X nt by (simp add: symbol_index_def)
  qed
  have tokb: "b < length ?bs" if "b \<in> set (token_buckets ?bs)" for b using that token_var_buckets(1) [of ?bs] by simp
  have pos: "symbol_value ?g ! X > 0" if X: "0 < X" "X < ntokens ?g" for X
    using tok [OF X] fv(2) [OF small'] val tokb by force
  have dist: "X = Y" if X: "0 < X" "X < ntokens ?g" and Y: "0 < Y" "Y < ntokens ?g"
    and eq: "symbol_value ?g ! X = symbol_value ?g ! Y" for X Y
  proof -
    obtain b c where b: "b \<in> set (token_buckets ?bs)" "symbol_index ?bs goal b = X"
      and c: "c \<in> set (token_buckets ?bs)" "symbol_index ?bs goal c = Y" using tok [OF X] tok [OF Y] by blast
    with eq val tokb have "b_value (final_buckets ?bs goal ! b) = b_value (final_buckets ?bs goal ! c)" by metis
    with fv(1) [OF small'] b c show ?thesis by (auto dest: inj_onD)
  qed
  have "inj_on ((!) (symbol_value ?g)) {0..<ntokens ?g}"
  proof (rule inj_onI)
    fix X Y assume XY: "X \<in> {0..<ntokens ?g}" "Y \<in> {0..<ntokens ?g}" "symbol_value ?g ! X = symbol_value ?g ! Y"
    show "X = Y"
      by (cases "X = 0"; cases "Y = 0") (use XY zero pos [of X] pos [of Y] dist [of X Y] in simp_all)
  qed
  moreover have nonneg: "0 \<le> symbol_value ?g ! X" if "X < ntokens ?g" for X
    by (cases "X = 0") (use that zero pos [of X] in simp_all)
  moreover have "symbol_value ?g ! X = int (X - start_symbol ?g - 1)" if X: "start_symbol ?g < X" "X < nsyms ?g" for X
  proof -
    have "\<exists>b \<in> set (var_buckets ?bs). symbol_index ?bs goal b = X"
      by (rule var_numbered [OF g]) (use X nt in simp_all)
    then obtain b where b: "b \<in> set (var_buckets ?bs)" "symbol_index ?bs goal b = X" ..
    then have "b < length ?bs" using token_var_buckets(3) [of ?bs] by simp
    from val [OF this] fv(3) [OF small'] b X nt show ?thesis by simp
  qed
  ultimately show ?thesis by (simp add: values_ok_def)
qed

lemma packed_end_values:
  assumes c: "checked s goal rs" and ps: "pack_symbols (st_buckets (rd_syms s)) goal = Inr ps"
  shows "symbol_value (fill_grammar s ps goal) ! 0 = 0"
    "symbol_value (fill_grammar s ps goal) ! start_symbol (fill_grammar s ps goal) = - 1"
proof -
  let ?bs = "st_buckets (rd_syms s)"
  have cl: "closed_rules s rs" and g: "goal < length ?bs" "b_class (?bs ! goal) \<noteq> Term"
    using c by (simp_all add: checked_def Let_def)
  note p = pack_symbols_Inr(2) [OF ps, unfolded symbol_arrays_def Let_def]
  note f = fill_grammar_fields [OF cl, where ps = ps and goal = goal]
  have pv: "ps_ntokens ps = Suc (length (token_buckets ?bs))"
    "ps_value ps = fill_symbols b_value 0 (- 1) (final_buckets ?bs goal) (symbol_places ?bs) (Suc (length (token_buckets ?bs)))"
    using p by simp_all
  note fe = fill_symbols_ends [OF g, of b_value 0 "- 1"]
  show "symbol_value (fill_grammar s ps goal) ! 0 = 0"
    "symbol_value (fill_grammar s ps goal) ! start_symbol (fill_grammar s ps goal) = - 1"
    using fe(2,3) by (simp_all add: f pv)
qed

text \<open>What the reader hands to the passes.\<close>

lemma reading_grammar:
  assumes r: "reader address file inp = Inr r" and v: "distinct_values r"
  obtains goal rs where "checked (rg_state r) goal rs"
    "packed_as (rg_state r) goal rs (symbol_index (st_buckets (rd_syms (rg_state r))) goal) (rg_grammar r) (rg_names r)"
    "wf_grammar (rg_grammar r)" "values_ok (rg_grammar r)"
    "symbol_value (rg_grammar r) ! 0 = 0" "symbol_value (rg_grammar r) ! start_symbol (rg_grammar r) = - 1"
  using reader_result [of address "file" inp]
proof (elim disjE exE conjE)
  fix s goal rs ps
  assume c: "checked s goal rs" "pack_symbols (st_buckets (rd_syms s)) goal = Inr ps"
    and f: "nitems (fill_grammar s ps goal) \<le> MAXSHORT"
    and "reader address file inp = Inr \<lparr>rg_grammar = fill_grammar s ps goal, rg_names = ps_name ps, rg_state = s\<rparr>"
  then have r': "r = \<lparr>rg_grammar = fill_grammar s ps goal, rg_names = ps_name ps, rg_state = s\<rparr>" using r by simp
  show thesis
  proof (rule that [of goal rs])
    show "wf_grammar (rg_grammar r)" using packed_grammar_wf [OF c f] by (simp add: r')
    show "values_ok (rg_grammar r)" using packed_values [OF c] v by (simp add: distinct_values_def r')
    show "packed_as (rg_state r) goal rs (symbol_index (st_buckets (rd_syms (rg_state r))) goal) (rg_grammar r) (rg_names r)"
      using packed_grammar_as [OF c] by (simp add: r')
  qed (use c packed_end_values [OF c] in \<open>simp_all add: r'\<close>)
qed (use r in simp_all)

section \<open>The whole generator\<close>

lemma compile_tables_returns:
  assumes "wf_grammar g"
  shows "\<exists>x. compile_tables g = Some x"
proof -
  have "compile_tables g \<noteq> None"
    using jay.front_cases [OF assms]
    by (auto simp: jay.front_def compile_tables_def split: option.splits sum.splits prod.splits)
  then show ?thesis by blast
qed

text \<open>
  C24: On every input, of whatever size, the run of the generator ends: with a message of the reader, with tables,
  which come from a well-formed grammar that was read, or with a value of \<open>jay_error\<close>.  The last may be a message of
  the passes or the point where the code leaves an array or a number its \<^verbatim>\<open>short\<close>, and beyond which the model does not
  follow it; no loop before this point runs forever.
\<close>

theorem generator_ends:
  "\<exists>x. generator address file inp = Some x \<and>
     (case x of
        Inl e \<Rightarrow> user_error e \<or> (\<exists>limit. e = Internal limit)
      | Inr (r, R) \<Rightarrow> reader address file inp = Inr r \<and> wf_grammar (rg_grammar r) \<and>
          compile_tables (rg_grammar r) = Some (Inr R))"
  using reader_result [of address "file" inp]
proof (elim disjE exE conjE)
  fix s goal rs ps
  assume c: "checked s goal rs" "pack_symbols (st_buckets (rd_syms s)) goal = Inr ps"
    "nitems (fill_grammar s ps goal) \<le> MAXSHORT"
    and r: "reader address file inp = Inr \<lparr>rg_grammar = fill_grammar s ps goal, rg_names = ps_name ps, rg_state = s\<rparr>"
  have wf: "wf_grammar (fill_grammar s ps goal)" by (rule packed_grammar_wf [OF c])
  from compile_tables_returns [OF wf] obtain x where x: "compile_tables (fill_grammar s ps goal) = Some x" by blast
  with r wf show ?thesis by (cases x) (simp_all add: generator_def)
qed (simp_all add: generator_def)

text \<open>
  C6: From the text of a grammar to the tables: if the reader accepts it, the generator ends with one of
  the errors of the capacity of the tables, or with tables that are sound for a grammar that has exactly the
  symbols and productions that were read.
\<close>

theorem generator_sound:
  assumes r: "reader address file inp = Inr r" and v: "distinct_values r"
  shows "(\<exists>e \<in> jay_limits. generator address file inp = Some (Inl (Internal e))) \<or>
    (\<exists>R goal rs idx. generator address file inp = Some (Inr (r, R)) \<and> tables_sound (rg_grammar r) R \<and>
       checked (rg_state r) goal rs \<and> packed_as (rg_state r) goal rs idx (rg_grammar r) (rg_names r))"
proof (rule reading_grammar [OF assms])
  fix goal rs
  assume c: "checked (rg_state r) goal rs"
    "packed_as (rg_state r) goal rs (symbol_index (st_buckets (rd_syms (rg_state r))) goal) (rg_grammar r) (rg_names r)"
    and wf: "wf_grammar (rg_grammar r)" and V: "values_ok (rg_grammar r)"
  from compile_tables_correct [OF wf V] show ?thesis
  proof
    assume "\<exists>e \<in> jay_limits. compile_tables (rg_grammar r) = Some (Inl e)"
    then show ?thesis by (auto simp: generator_def r)
  next
    assume "\<exists>R. compile_tables (rg_grammar r) = Some (Inr R) \<and> run_ok (rg_grammar r) R"
    then obtain R where R: "compile_tables (rg_grammar r) = Some (Inr R)" "run_ok (rg_grammar r) R" by blast
    with c run_tables_sound [OF wf V R(2)] show ?thesis by (auto simp: generator_def r)
  qed
qed

text \<open>A run of the reader on a text, by evaluation: the grammar \<^verbatim>\<open>%% s : 'a' s |\<close>.\<close>

definition sample_text :: string where
  "sample_text = ''%%s:'' @ [QUOTE, CHR ''a'', QUOTE] @ '' s|''"

lemma sample_text_read:
  "case read_text (\<lambda>_. 0) ''g'' sample_text of Inl e \<Rightarrow> False
   | Inr (_, s) \<Rightarrow> rd_goal s = Some 1 \<and> length (st_buckets (rd_syms s)) = 3 \<and>
       fill_grammar s (symbol_arrays (st_buckets (rd_syms s)) 1) 1 = sample_grammar \<and>
       map (\<lambda>b. (b_class b, b_value b)) (st_buckets (rd_syms s)) = [(Term, - 1), (Nonterm, - 1), (Term, 97)]"
  by code_simp

lemma sample_reading:
  "case reader (\<lambda>_. 0) ''g'' sample_text of Inl e \<Rightarrow> False
   | Inr r \<Rightarrow> rg_grammar r = sample_grammar \<and>
       map (\<lambda>b. (b_class b, b_value b)) (st_buckets (rd_syms (rg_state r))) = [(Term, - 1), (Nonterm, - 1), (Term, 97)]"
proof -
  obtain s where s: "read_text (\<lambda>_. 0) ''g'' sample_text = Inr ((), s)" "rd_goal s = Some 1"
    "length (st_buckets (rd_syms s)) = 3" "fill_grammar s (symbol_arrays (st_buckets (rd_syms s)) 1) 1 = sample_grammar"
    and b: "map (\<lambda>b. (b_class b, b_value b)) (st_buckets (rd_syms s)) = [(Term, - 1), (Nonterm, - 1), (Term, 97)]"
    using sample_text_read by (auto split: sum.splits)
  have "\<not> MAXSHORT < rrhs sample_grammar ! nrules sample_grammar" by (simp add: sample_grammar_def MAXSHORT_def)
  then have "reader (\<lambda>_. 0) ''g'' sample_text = Inr \<lparr>rg_grammar = sample_grammar,
      rg_names = ps_name (symbol_arrays (st_buckets (rd_syms s)) 1), rg_state = s\<rparr>"
    using s by (simp add: reader_def pack_symbols_eq pack_grammar_def MAXSHORT_def)
  with b show ?thesis by simp
qed

lemma sample_reading_ok:
  obtains r where "reader (\<lambda>_. 0) ''g'' sample_text = Inr r" "rg_grammar r = sample_grammar" "distinct_values r"
proof -
  obtain r where r: "reader (\<lambda>_. 0) ''g'' sample_text = Inr r" "rg_grammar r = sample_grammar"
    and b: "map (\<lambda>b. (b_class b, b_value b)) (st_buckets (rd_syms (rg_state r))) = [(Term, - 1), (Nonterm, - 1), (Term, 97)]"
    using sample_reading by (auto split: sum.splits)
  obtain b0 b1 b2 where bs: "st_buckets (rd_syms (rg_state r)) = [b0, b1, b2]"
    and f: "b_value b0 = - 1" "b_class b1 = Nonterm" "b_class b2 = Term" "b_value b2 = 97"
    using b by (auto simp: map_eq_Cons_conv)
  have "declared_tokens [b0, b1, b2] \<subseteq> {2}"
  proof
    fix x assume "x \<in> declared_tokens [b0, b1, b2]"
    then have "x < 3" "b_class ([b0, b1, b2] ! x) = Term" "b_value ([b0, b1, b2] ! x) \<noteq> - 1"
      by (simp_all add: declared_tokens_def UNDEFINED_def)
    moreover from this(1) have "x = 0 \<or> x = 1 \<or> x = 2" by linarith
    ultimately show "x \<in> {2}" using f by auto
  qed
  then have "declared_values_ok [b0, b1, b2]"
    using f unfolding declared_values_ok_def by (auto intro: inj_on_subset)
  with r bs that show thesis by (simp add: distinct_values_def sample_grammar_def)
qed

theorem generator_sound_witness:
  "\<exists>r. reader (\<lambda>_. 0) ''g'' sample_text = Inr r \<and>
    ((\<exists>e \<in> jay_limits. generator (\<lambda>_. 0) ''g'' sample_text = Some (Inl (Internal e))) \<or>
     (\<exists>R goal rs idx. generator (\<lambda>_. 0) ''g'' sample_text = Some (Inr (r, R)) \<and> tables_sound (rg_grammar r) R \<and>
       checked (rg_state r) goal rs \<and> packed_as (rg_state r) goal rs idx (rg_grammar r) (rg_names r)))"
proof -
  obtain r where r: "reader (\<lambda>_. 0) ''g'' sample_text = Inr r" "rg_grammar r = sample_grammar" "distinct_values r"
    by (rule sample_reading_ok)
  from generator_sound [OF r(1,3)] r(1) show ?thesis by blast
qed

end
