(* ===== verification/Output_Text.thy ===== *)
theory Output_Text
  imports Generator
begin

text \<open>
  The text \<^verbatim>\<open>jay/output.c\<close> writes: the packed tables as initialisers, the token constants, the rules and the
  names for debugging, the texts the reader has put aside, and the skeleton around them.  The state is
  what has been written to \<^verbatim>\<open>stdout\<close> so far and the global \<^verbatim>\<open>outline\<close>, by which the comments with line
  numbers are to agree with the lines of the output.  A file is the text in it.  A C string is a list without its
  final NUL; a name that begins with a quote ends with one, as the reader builds it, so the loops that look for
  the second quote may end with the list.
\<close>

section \<open>The state\<close>

record out_state =
  o_text :: string
  o_line :: nat

definition put :: "string \<Rightarrow> out_state \<Rightarrow> out_state" where
  "put s st = st\<lparr>o_text := o_text st @ s\<rparr>"

definition bump :: "nat \<Rightarrow> out_state \<Rightarrow> out_state" where
  "bump n st = st\<lparr>o_line := o_line st + n\<rparr>"

abbreviation nl :: string where "nl \<equiv> [NEWLINE]"

section \<open>Tables\<close>

text \<open>\<^verbatim>\<open>%5d,\<close> and the like; ten numbers stand on a line, and \<open>j\<close> counts them.\<close>

definition number :: "nat \<Rightarrow> int \<Rightarrow> string" where
  "number w i = pad_left w (show_int i) @ '',''"

fun number_rows :: "nat \<Rightarrow> int list \<Rightarrow> out_state \<Rightarrow> out_state" where
  "number_rows j [] st = st"
| "number_rows j (i # is) st =
     (if j \<ge> 10 then number_rows 1 is (put (number 5 i) (put (nl @ ''      '') (bump 1 st)))
      else number_rows (j + 1) is (put (number 5 i) st))"

text \<open>
  All tables are printed in the same way: the head of a class and of an array with the first number, the
  rows, and the ends of both.  \<open>outline\<close> grows by \<open>n\<close> behind the rows.
\<close>

definition print_table :: "string \<Rightarrow> string \<Rightarrow> nat \<Rightarrow> int \<Rightarrow> int list \<Rightarrow> nat \<Rightarrow> string \<Rightarrow> out_state \<Rightarrow> out_state" where
  "print_table head array w i rows n tail st =
     (let st = put head st;
          st = put (array @ number w i) st;
          st = number_rows 10 rows st;
          st = bump n st;
          st = put (nl @ ''    };'' @ nl) st
      in put tail st)"

definition output_rule_data :: "grammar \<Rightarrow> out_state \<Rightarrow> out_state" where
  "output_rule_data g st =
     (let st = print_table (''   class YyLhsClass {'' @ nl @ nl) ''    public static int[] yyLhs = {''
            16 (symbol_value g ! start_symbol g) (map (\<lambda>i. symbol_value g ! (rlhs g ! i)) [3..<nrules g])
            6 (''  } // End of class YyLhsClass'' @ nl @ nl) st
      in print_table (''  class YyLenClass {'' @ nl @ nl) ''    public static int[] yyLen = {''
            12 2 (map (\<lambda>i. int (rrhs g ! (i + 1)) - int (rrhs g ! i) - 1) [3..<nrules g])
            4 (''  } // End class YyLenClass */'' @ nl @ nl) st)"

definition defred_number :: "nat \<Rightarrow> int" where
  "defred_number d = (if d \<noteq> 0 then int d - 2 else 0)"

definition output_yydefred :: "nat list \<Rightarrow> nat \<Rightarrow> out_state \<Rightarrow> out_state" where
  "output_yydefred dr nstates st =
     print_table (''   class YyDefRedClass {'' @ nl @ nl) ''    public static int[] yyDefRed = {''
       13 (defred_number (dr ! 0)) (map (\<lambda>i. defred_number (dr ! i)) [1..<nstates])
       4 (''  } // End of class YyDefRedClass */'' @ nl @ nl) (bump 2 st)"

text \<open>What \<^verbatim>\<open>goto_actions\<close> prints: the default goto of each nonterminal but the first.\<close>

definition output_dgoto :: "nat list \<Rightarrow> out_state \<Rightarrow> out_state" where
  "output_dgoto dgoto st =
     print_table (''   class YyDgotoClass {'' @ nl @ nl) ''    public static int[] yyDgoto = {''
       14 (int (dgoto ! 0)) (map int (tl dgoto))
       4 (''  } // End of class YyDgotoClass'' @ nl @ nl) (bump 2 st)"

definition output_base :: "int list \<Rightarrow> nat \<Rightarrow> nat \<Rightarrow> out_state \<Rightarrow> out_state" where
  "output_base b nstates nvectors st =
     (let st = print_table (''  class YySindexClass {'' @ nl @ nl) ''    public static int[] yySindex = {''
            13 (b ! 0) (map (\<lambda>i. b ! i) [1..<nstates])
            6 (''  } // End of class YySindexClass'' @ nl @ nl) (bump 2 st);
          st = print_table (''  class YyRindexClass {'' @ nl @ nl) ''    public static int[] yyRindex = {''
            13 (b ! nstates) (map (\<lambda>i. b ! i) [nstates + 1..<2 * nstates])
            6 (''  } // End of class YyRindexClass'' @ nl @ nl) st
      in print_table (''  class YyGindexClass {'' @ nl @ nl) ''    public static int[] yyGindex = {''
            13 (b ! (2 * nstates)) (map (\<lambda>i. b ! i) [2 * nstates + 1..<nvectors - 1])
            4 (''  } // End of class YyGindexClass'' @ nl @ nl) st)"

definition output_table :: "int list \<Rightarrow> nat \<Rightarrow> out_state \<Rightarrow> out_state" where
  "output_table t hi st =
     print_table (''  class YyTableClass {'' @ nl @ nl) ''    public static int[] yyTable = {''
       14 (t ! 0) (map (\<lambda>i. t ! i) [1..<Suc hi])
       4 (''  } // End of class YyTableClass'' @ nl @ nl) (bump 2 st)"

definition output_check :: "int list \<Rightarrow> nat \<Rightarrow> out_state \<Rightarrow> out_state" where
  "output_check c hi st =
     print_table (''  class YyCheckClass {'' @ nl @ nl) ''    public static int[] yyCheck = {''
       14 (c ! 0) (map (\<lambda>i. c ! i) [1..<Suc hi])
       4 (''  } // End of class YyCheckClass'' @ nl @ nl) (bump 2 st)"

text \<open>The command \<^verbatim>\<open>tables\<close> of the skeleton.\<close>

definition output_tables :: "grammar \<Rightarrow> run \<Rightarrow> out_state \<Rightarrow> out_state" where
  "output_tables g R st =
     (let n = length (cores (run_automaton R)); ps = run_packed R;
          st = output_rule_data g st;
          st = output_yydefred (defred (run_parser R)) n st;
          st = output_dgoto (run_dgoto R) st;
          st = output_base (base ps) n (length (base ps)) st;
          st = output_table (tbl ps) (high ps) st
      in output_check (chk ps) (high ps) st)"

section \<open>Tokens\<close>

definition name_start :: "char \<Rightarrow> bool" where
  "name_start c \<longleftrightarrow> isalpha c \<or> c = CHR ''_'' \<or> c = CHR ''$''"

definition name_part :: "char \<Rightarrow> bool" where
  "name_part c \<longleftrightarrow> isalnum c \<or> c = CHR ''_'' \<or> c = CHR ''$''"

fun quoted_part :: "string \<Rightarrow> bool" where
  "quoted_part [] \<longleftrightarrow> False"
| "quoted_part (c # s) \<longleftrightarrow> c = DOUBLE_QUOTE \<or> name_part c \<and> quoted_part s"

definition is_C_identifier :: "string \<Rightarrow> bool" where
  "is_C_identifier name = (case name of
     [] \<Rightarrow> False
   | c # s \<Rightarrow>
       if c = DOUBLE_QUOTE then (case s of [] \<Rightarrow> False | c # s \<Rightarrow> name_start c \<and> quoted_part s)
       else name_start c \<and> list_all name_part s)"

text \<open>\<^verbatim>\<open>%u\<close> of an \<^verbatim>\<open>int\<close>.\<close>

definition show_unsigned :: "int \<Rightarrow> string" where
  "show_unsigned i = show_nat (nat (i mod 2 ^ 32))"

definition output_define :: "string option \<Rightarrow> grammar \<Rightarrow> string list \<Rightarrow> nat \<Rightarrow> out_state \<Rightarrow> out_state" where
  "output_define lead g names i st =
     (let s = names ! i
      in if is_C_identifier s then
           (let st = (case lead of None \<Rightarrow> st | Some p \<Rightarrow> put (''  '' @ p @ '' '') st);
                st = put (if hd s = DOUBLE_QUOTE then takeWhile (\<lambda>c. c \<noteq> DOUBLE_QUOTE) (tl s) else s) st;
                st = bump 1 st;
                st = put ('' = '' @ show_int (symbol_value g ! i)) st
            in put (if lead \<noteq> None then '';'' @ nl else '','' @ nl) st)
         else st)"

text \<open>After the loop the index is \<^verbatim>\<open>ntokens\<close>, but at least 2.\<close>

definition output_defines :: "string option \<Rightarrow> grammar \<Rightarrow> string list \<Rightarrow> out_state \<Rightarrow> out_state" where
  "output_defines lead g names st =
     (let st = fold (output_define lead g names) [2..<ntokens g] st;
          st = bump 1 st
      in case lead of
           Some p \<Rightarrow> put (''  '' @ p @ '' yyErrorCode = '' @ show_unsigned (symbol_value g ! 1) @ '';'' @ nl) st
         | None \<Rightarrow> put (''  yyErrorCode = '' @ show_unsigned (symbol_value g ! max 2 (ntokens g)) @ nl) st)"

definition output_final_rule :: "nat \<Rightarrow> out_state \<Rightarrow> out_state" where
  "output_final_rule final st =
     put (''  protected static int yyFinal = '' @ show_nat final @ '';'' @ nl) (bump 1 st)"

section \<open>Rules and names for debugging\<close>

text \<open>The items of a rule, inside a string literal of the output: quotes and backslashes are escaped.\<close>

fun quoted_item :: "string \<Rightarrow> string" where
  "quoted_item [] = []"
| "quoted_item (c # s) =
     (if c = DOUBLE_QUOTE then []
      else if c = BACKSLASH then
        (case s of [] \<Rightarrow> []
         | d # s \<Rightarrow> (if d = BACKSLASH then replicate 4 BACKSLASH else [BACKSLASH, BACKSLASH, d]) @ quoted_item s)
      else c # quoted_item s)"

definition char_item :: "string \<Rightarrow> string" where
  "char_item s = (case s of
     [] \<Rightarrow> []
   | d # s \<Rightarrow>
       if d = DOUBLE_QUOTE then [SP, QUOTE, BACKSLASH, DOUBLE_QUOTE, QUOTE]
       else if d = BACKSLASH then
         (case s of [] \<Rightarrow> []
          | e # s \<Rightarrow> SP # QUOTE # (if e = BACKSLASH then replicate 4 BACKSLASH else [BACKSLASH, BACKSLASH, e]) @
              takeWhile (\<lambda>c. c \<noteq> QUOTE) s @ [QUOTE])
       else [SP, QUOTE, d, QUOTE])"

definition debug_item :: "string \<Rightarrow> string" where
  "debug_item s = (case s of
     [] \<Rightarrow> [SP]
   | c # s' \<Rightarrow>
       if c = DOUBLE_QUOTE then [SP, BACKSLASH, DOUBLE_QUOTE] @ quoted_item s' @ [BACKSLASH, DOUBLE_QUOTE]
       else if c = QUOTE then char_item s'
       else SP # s)"

definition debug_rule :: "grammar \<Rightarrow> string list \<Rightarrow> nat \<Rightarrow> out_state \<Rightarrow> out_state" where
  "debug_rule g names i st =
     (let st = put (''    '' @ [DOUBLE_QUOTE] @ names ! (rlhs g ! i) @ '' :'') st;
          st = put (concat (map (\<lambda>x. debug_item (names ! nat x)) (takeWhile (\<lambda>x. x > 0) (drop (rrhs g ! i) (ritem g))))) st;
          st = bump 1 st
      in put ([DOUBLE_QUOTE, CHR '','', NEWLINE]) st)"

text \<open>
  The array \<^verbatim>\<open>symnam\<close>: the names by token value, the first token of a value last and so the one that stays.
  A negative value is an access outside.
\<close>

definition max_value :: "grammar \<Rightarrow> int" where
  "max_value g = fold (\<lambda>i m. if symbol_value g ! i > m then symbol_value g ! i else m) [2..<ntokens g] 0"

definition name_table :: "grammar \<Rightarrow> string list \<Rightarrow> jay_error + string option list" where
  "name_table g names =
     (case fold_sum (\<lambda>i t. if symbol_value g ! i < 0 then Inl BadAccess else Inr (t[nat (symbol_value g ! i) := Some (names ! i)]))
             (rev [2..<ntokens g]) (replicate (nat (max_value g) + 1) None) of
        Inl e \<Rightarrow> Inl e
      | Inr t \<Rightarrow> Inr (t[0 := Some ''end-of-file'']))"

text \<open>The width a quoted name takes, and its text; the quote that ends it is \<open>q\<close>.\<close>

fun name_width :: "char \<Rightarrow> string \<Rightarrow> nat" where
  "name_width q [] = 0"
| "name_width q (c # s) =
     (if c = q then 0
      else if c = BACKSLASH then (case s of [] \<Rightarrow> 3 | d # s \<Rightarrow> (if d = BACKSLASH then 4 else 3) + name_width q s)
      else 1 + name_width q s)"

fun name_chars :: "char \<Rightarrow> string \<Rightarrow> string" where
  "name_chars q [] = []"
| "name_chars q (c # s) =
     (if c = q then []
      else if c = BACKSLASH then
        (case s of [] \<Rightarrow> [BACKSLASH, BACKSLASH]
         | d # s \<Rightarrow> BACKSLASH # BACKSLASH # (if d = BACKSLASH then [BACKSLASH, BACKSLASH] else [d]) @ name_chars q s)
      else c # name_chars q s)"

definition name_entry :: "string option \<Rightarrow> nat \<times> string" where
  "name_entry e = (case e of
     None \<Rightarrow> (5, ''null,'')
   | Some s \<Rightarrow>
       if s \<noteq> [] \<and> hd s = DOUBLE_QUOTE then
         (7 + name_width DOUBLE_QUOTE (tl s),
          [DOUBLE_QUOTE, BACKSLASH, DOUBLE_QUOTE] @ name_chars DOUBLE_QUOTE (tl s) @ [BACKSLASH, DOUBLE_QUOTE, DOUBLE_QUOTE, CHR '',''])
       else if s \<noteq> [] \<and> hd s = QUOTE then
         if tl s \<noteq> [] \<and> hd (tl s) = DOUBLE_QUOTE
         then (7, [DOUBLE_QUOTE, QUOTE, BACKSLASH, DOUBLE_QUOTE, QUOTE, DOUBLE_QUOTE, CHR '',''])
         else (5 + name_width QUOTE (tl s), [DOUBLE_QUOTE, QUOTE] @ name_chars QUOTE (tl s) @ [QUOTE, DOUBLE_QUOTE, CHR '',''])
       else (length s + 3, [DOUBLE_QUOTE] @ s @ [DOUBLE_QUOTE, CHR '','']))"

fun name_rows :: "nat \<Rightarrow> string option list \<Rightarrow> out_state \<Rightarrow> out_state" where
  "name_rows j [] st = st"
| "name_rows j (e # es) st =
     (case name_entry e of (k, text) \<Rightarrow>
        if j + k > 70 then name_rows k es (put text (put (nl @ ''    '') (bump 1 st)))
        else name_rows (j + k) es (put text st))"

definition output_debug :: "grammar \<Rightarrow> string list \<Rightarrow> out_state \<Rightarrow> jay_error + out_state" where
  "output_debug g names st =
     (let st = bump 3 st;
          st = put (''  class YyRuleClass {'' @ nl @ nl) st;
          st = put (''    public static System.String[] yyRule = {'' @ nl) st;
          st = fold (debug_rule g names) [2..<nrules g] st;
          st = bump 3 st;
          st = put (''    };'' @ nl) st;
          st = put (''  } // End of class YyRuleClass'' @ nl @ nl) st;
          st = bump 2 st;
          st = put (''  class YyNameClass {'' @ nl @ nl) st;
          st = put (''    public static System.String[] yyName = {'') st
      in case name_table g names of
           Inl e \<Rightarrow> Inl e
         | Inr t \<Rightarrow>
             (let st = name_rows 70 t (put ''    '' st);
                  st = bump 4 st;
                  st = put (nl @ ''    };'' @ nl) st
              in Inr (put (''  } // End of class YyNameClass'' @ nl @ nl) st)))"

section \<open>Texts that are copied\<close>

text \<open>The loop over a file: a newline counts as a line.\<close>

fun copy_chars :: "string \<Rightarrow> out_state \<Rightarrow> out_state" where
  "copy_chars [] st = st"
| "copy_chars (c # s) st = copy_chars s (put [c] (if c = NEWLINE then bump 1 st else st))"

text \<open>\<^verbatim>\<open>printf(line_format, ++outline + 1, "-")\<close>.\<close>

definition line_back :: "out_state \<Rightarrow> out_state" where
  "line_back st = (let st = bump 1 st in put (line_comment (o_line st + 1) ''-'') st)"

definition end_line :: "char \<Rightarrow> out_state \<Rightarrow> out_state" where
  "end_line c st = (if c \<noteq> NEWLINE then put (nl @ ''      '') (bump 1 st) else st)"

definition output_stored_text :: "string \<Rightarrow> out_state \<Rightarrow> out_state" where
  "output_stored_text text st = (case text of [] \<Rightarrow> st | c # s \<Rightarrow> line_back (copy_chars (c # s) st))"

definition output_semantic_actions :: "string \<Rightarrow> out_state \<Rightarrow> out_state" where
  "output_semantic_actions text st =
     (case text of [] \<Rightarrow> st | c # s \<Rightarrow> line_back (end_line (last (c # s)) (copy_chars (c # s) st)))"

text \<open>The rest of the grammar file: what is left of the current line and the input behind it.\<close>

definition output_trailing_text :: "string \<Rightarrow> scanner \<Rightarrow> out_state \<Rightarrow> out_state" where
  "output_trailing_text fname sc st =
     (if sc_line sc = None then st
      else if hd (sc_cptr sc) = NEWLINE then
        (case sc_input sc of
           [] \<Rightarrow> st
         | c # s \<Rightarrow>
             (let st = put (line_comment (sc_lineno sc + 1) fname) (bump 1 st);
                  st = copy_chars (c # s) st
              in line_back (end_line (last (c # s)) st)))
      else
        (let st = put (line_comment (sc_lineno sc) fname) (bump 1 st);
             st = put (takeWhile (\<lambda>c. c \<noteq> NEWLINE) (sc_cptr sc)) st;
             st = put (nl @ ''      '') (bump 1 st);
             st = copy_chars (sc_input sc) st
         in line_back (end_line (if sc_input sc = [] then NEWLINE else last (sc_input sc)) st)))"

section \<open>The skeleton\<close>

datatype output_error = Line_too_long nat | Output_failed jay_error

text \<open>\<^verbatim>\<open>fgets\<close> into a buffer of 128 characters: a line, or the part of it that fits.\<close>

fun take_line :: "nat \<Rightarrow> string \<Rightarrow> string \<times> string" where
  "take_line n [] = ([], [])"
| "take_line 0 s = ([], s)"
| "take_line (Suc n) (c # s) = (if c = NEWLINE then ([c], s) else (case take_line n s of (l, r) \<Rightarrow> (c # l, r)))"

text \<open>\<^verbatim>\<open>strtok\<close>: a word, and what comes behind the character that ended it.\<close>

definition token :: "char list \<Rightarrow> string \<Rightarrow> string option \<times> string" where
  "token stops s =
     (let s = dropWhile (\<lambda>c. c \<in> set stops) s
      in if s = [] then (None, [])
         else (Some (takeWhile (\<lambda>c. c \<notin> set stops) s), tl (dropWhile (\<lambda>c. c \<notin> set stops) s)))"

definition skeleton_call ::
  "string \<Rightarrow> reading \<Rightarrow> run \<Rightarrow> string \<Rightarrow> out_state \<Rightarrow> jay_error + out_state" where
  "skeleton_call fname r R buf st =
     (let g = rg_grammar r; s = rg_state r
      in case token [SP, HT, CR, NEWLINE] buf of
           (None, _) \<Rightarrow> Inr st
         | (Some cp, rest) \<Rightarrow>
             if cp = ''actions'' then Inr (output_semantic_actions (rd_action s) st)
             else if cp = ''final_rule'' then Inr (output_final_rule (final_state (run_parser R)) st)
             else if cp = ''debug'' then output_debug g (rg_names r) st
             else if cp = ''epilog'' then Inr (output_trailing_text fname (rd_scan s) st)
             else if cp = ''prolog'' then Inr (output_stored_text (rd_prolog s) st)
             else if cp = ''local'' then Inr (output_stored_text (rd_local s) st)
             else if cp = ''tables'' then Inr (output_tables g R st)
             else if cp = ''tokens'' then Inr (output_defines (fst (token [CR, NEWLINE] rest)) g (rg_names r) st)
             else Inr st)"

text \<open>One line: a comment, a copied line, one that is copied behind \<^verbatim>\<open>//t\<close> unless the flag is set, or a call.\<close>

definition skeleton_line ::
  "bool \<Rightarrow> string \<Rightarrow> reading \<Rightarrow> run \<Rightarrow> string \<Rightarrow> out_state \<Rightarrow> jay_error + out_state" where
  "skeleton_line tflag fname r R buf st =
     (if hd buf = CHR ''#'' then Inr st
      else if hd buf = CHR ''t'' then Inr (bump 1 (put (tl buf) (if \<not> tflag then put ''//t'' st else st)))
      else if hd buf = CHR ''.'' then Inr (bump 1 (put (tl buf) st))
      else skeleton_call fname r R buf st)"

lemma take_line_split: "take_line n s = (l, r) \<Longrightarrow> s = l @ r"
  by (induction n s arbitrary: l r rule: take_line.induct) (auto split: if_splits prod.splits)

lemma take_line_shorter: "take_line n s = (l, r) \<Longrightarrow> l \<noteq> [] \<Longrightarrow> length r < length s"
  using take_line_split [of n s l r] by (cases l) auto

function skeleton_lines ::
  "bool \<Rightarrow> string \<Rightarrow> reading \<Rightarrow> run \<Rightarrow> nat \<Rightarrow> string \<Rightarrow> out_state \<Rightarrow> output_error + out_state" where
  "skeleton_lines tflag fname r R lno inp st =
     (case take_line 127 inp of (buf, rest) \<Rightarrow>
        if buf = [] then Inr st
        else if last buf \<noteq> NEWLINE then Inl (Line_too_long (lno + 1))
        else (case skeleton_line tflag fname r R buf st of
                Inl e \<Rightarrow> Inl (Output_failed e)
              | Inr st \<Rightarrow> skeleton_lines tflag fname r R (lno + 1) rest st))"
  by pat_completeness auto

termination
  by (relation "measure (\<lambda>(tflag, fname, r, R, lno, inp, st). length inp)") (auto dest: take_line_shorter [OF sym])

declare skeleton_lines.simps [simp del]

text \<open>The whole program without the listing: the text it writes, or why it stops.\<close>

definition empty_output :: out_state where
  "empty_output = \<lparr>o_text = [], o_line = 0\<rparr>"

datatype jay_result = Reader_stops reader_error | Output_stops output_error | Written string

definition jay :: "(string \<Rightarrow> int) \<Rightarrow> bool \<Rightarrow> string \<Rightarrow> string \<Rightarrow> string \<Rightarrow> jay_result option" where
  "jay address tflag fname inp skeleton =
     (case generator address fname inp of
        None \<Rightarrow> None
      | Some (Inl e) \<Rightarrow> Some (Reader_stops e)
      | Some (Inr (r, R)) \<Rightarrow>
          (case skeleton_lines tflag fname r R 0 skeleton empty_output of
             Inl e \<Rightarrow> Some (Output_stops e)
           | Inr st \<Rightarrow> Some (Written (o_text st))))"

end
