(* ===== verification/Output_Lines.thy ===== *)
theory Output_Lines
  imports Output_Text
begin

text \<open>
  The line numbers of the output.  The comments that \<^verbatim>\<open>jay/output.c\<close> writes after copied text give the number of
  the line they stand on, from the global \<^verbatim>\<open>outline\<close>.  Here every printer is shown to keep the balance between
  \<^verbatim>\<open>outline\<close> and the newlines written, with one exception.
\<close>

section \<open>The count of lines\<close>

definition newlines :: "string \<Rightarrow> nat" where
  "newlines s = length (filter (\<lambda>c. c = NEWLINE) s)"

definition balance :: "out_state \<Rightarrow> int" where
  "balance st = int (o_line st) - int (newlines (o_text st))"

lemma newlines_simps [simp]:
  "newlines [] = 0" "newlines (c # s) = (if c = NEWLINE then 1 else 0) + newlines s" "newlines (s @ t) = newlines s + newlines t"
  by (simp_all add: newlines_def)

lemma newlines_zero: "NEWLINE \<notin> set s \<Longrightarrow> newlines s = 0"
  by (simp add: newlines_def filter_empty_conv) blast

lemma balance_put [simp]: "balance (put s st) = balance st - int (newlines s)"
  and balance_bump [simp]: "balance (bump n st) = balance st + int n"
  by (simp_all add: balance_def put_def bump_def)

lemma newlines_show_nat [simp]: "newlines (show_nat n) = 0"
  by (rule newlines_zero) (auto dest: show_nat_digits simp: isdigit_def NEWLINE_def)

lemma newlines_show_int [simp]: "newlines (show_int i) = 0"
  by (simp add: show_int_def NEWLINE_def)

lemma newlines_replicate [simp]: "newlines (replicate n c) = (if c = NEWLINE then n else 0)"
  by (induction n) auto

lemma newlines_number [simp]: "newlines (number w i) = 0"
  by (simp add: number_def pad_left_def SP_def NEWLINE_def)

lemma newlines_concat: "(\<And>s. s \<in> set ss \<Longrightarrow> newlines s = 0) \<Longrightarrow> newlines (concat ss) = 0"
  by (induction ss) auto

lemma newlines_takeWhile: "newlines (takeWhile P s) \<le> newlines s"
  by (induction s) auto

lemma balance_number_rows [simp]: "balance (number_rows j is st) = balance st"
  by (induction j "is" st rule: number_rows.induct) (simp_all add: NEWLINE_def)

lemma balance_tables:
  "balance (output_rule_data g st) = balance st - 2" "balance (output_yydefred dr n st) = balance st"
  "balance (output_dgoto dg st) = balance st" "balance (output_base b n m st) = balance st"
  "balance (output_table t h st) = balance st" "balance (output_check c h st) = balance st"
  by (simp_all add: output_rule_data_def output_yydefred_def output_dgoto_def output_base_def output_table_def
      output_check_def print_table_def Let_def NEWLINE_def)

lemma balance_output_tables: "balance (output_tables g R st) = balance st - 2"
  by (simp add: output_tables_def balance_tables Let_def)

lemma balance_fold: "(\<And>x s. x \<in> set xs \<Longrightarrow> balance (f x s) = balance s) \<Longrightarrow> balance (fold f xs st) = balance st"
  by (induction xs arbitrary: st) simp_all

lemma newline_chars: "NEWLINE \<noteq> DOUBLE_QUOTE" "NEWLINE \<noteq> QUOTE" "NEWLINE \<noteq> BACKSLASH" "NEWLINE \<noteq> SP" "NEWLINE \<noteq> HT"
  "DOUBLE_QUOTE \<noteq> NEWLINE" "QUOTE \<noteq> NEWLINE" "BACKSLASH \<noteq> NEWLINE" "SP \<noteq> NEWLINE" "HT \<noteq> NEWLINE"
  by (simp_all add: char_defs)

lemma newlines_tl: "newlines (tl s) \<le> newlines s"
  by (cases s) simp_all

lemma balance_define: "newlines (names ! i) = 0 \<Longrightarrow> newlines (case lead of None \<Rightarrow> [] | Some p \<Rightarrow> p) = 0 \<Longrightarrow>
    balance (output_define lead g names i st) = balance st"
proof -
  assume n: "newlines (names ! i) = 0" and p: "newlines (case lead of None \<Rightarrow> [] | Some p \<Rightarrow> p) = 0"
  have "newlines (takeWhile (\<lambda>c. c \<noteq> DOUBLE_QUOTE) (tl (names ! i))) = 0"
    using newlines_takeWhile [of "\<lambda>c. c \<noteq> DOUBLE_QUOTE" "tl (names ! i)"] newlines_tl [of "names ! i"] n by linarith
  with n p show ?thesis
    by (auto simp: output_define_def Let_def char_defs split: option.splits)
qed

lemma balance_defines:
  assumes "\<forall>i < ntokens g. newlines (names ! i) = 0" and "newlines (case lead of None \<Rightarrow> [] | Some p \<Rightarrow> p) = 0"
  shows "balance (output_defines lead g names st) = balance st"
proof -
  have "balance (fold (output_define lead g names) [2..<ntokens g] st) = balance st"
    using assms by (intro balance_fold balance_define) auto
  with assms(2) show ?thesis
    by (auto simp: output_defines_def Let_def char_defs show_unsigned_def split: option.splits)
qed

lemma balance_final_rule [simp]: "balance (output_final_rule n st) = balance st"
  by (simp add: output_final_rule_def char_defs)

lemma newlines_quoted_item: "newlines s = 0 \<Longrightarrow> newlines (quoted_item s) = 0"
  by (induction s rule: quoted_item.induct) (auto simp: newline_chars split: list.splits if_splits)

lemma newlines_char_item: "newlines s = 0 \<Longrightarrow> newlines (char_item s) = 0"
  using newlines_takeWhile [of "\<lambda>c. c \<noteq> QUOTE" "tl (tl s)"]
  by (auto simp: char_item_def newline_chars split: list.splits if_splits)

lemma newlines_debug_item: "newlines s = 0 \<Longrightarrow> newlines (debug_item s) = 0"
  by (auto simp: debug_item_def newline_chars newlines_quoted_item newlines_char_item split: list.splits if_splits)

lemma newlines_name_chars: "newlines s = 0 \<Longrightarrow> newlines (name_chars q s) = 0"
  by (induction q s rule: name_chars.induct) (auto simp: newline_chars split: list.splits if_splits)

lemma newlines_name_entry:
  assumes "\<And>s. e = Some s \<Longrightarrow> newlines s = 0"
  shows "newlines (snd (name_entry e)) = 0"
proof (cases e)
  case (Some s)
  then have s: "newlines s = 0" using assms by simp
  then have "newlines (tl s) = 0" using newlines_tl [of s] by simp
  from newlines_name_chars [OF this] have "newlines (name_chars q (tl s)) = 0" for q .
  with s show ?thesis unfolding Some name_entry_def option.case
    by (cases "s \<noteq> [] \<and> hd s = DOUBLE_QUOTE"; cases "s \<noteq> [] \<and> hd s = QUOTE"; cases "tl s \<noteq> [] \<and> hd (tl s) = DOUBLE_QUOTE")
      (simp_all add: newline_chars NEWLINE_def [symmetric], simp_all add: NEWLINE_def)
qed (simp add: name_entry_def NEWLINE_def)

lemma balance_name_rows: "(\<And>s. Some s \<in> set es \<Longrightarrow> newlines s = 0) \<Longrightarrow> balance (name_rows j es st) = balance st"
proof (induction j es st rule: name_rows.induct)
  case (2 j e es st)
  have "newlines (snd (name_entry e)) = 0" using 2(3) by (intro newlines_name_entry) auto
  with 2 show ?case by (auto simp: NEWLINE_def split: prod.split)
qed simp

lemma balance_debug_rule:
  assumes names: "\<And>s. s \<in> set names \<Longrightarrow> newlines s = 0" and "rlhs g ! i < length names"
    and "\<And>x. x \<in> set (takeWhile (\<lambda>x. x > 0) (drop (rrhs g ! i) (ritem g))) \<Longrightarrow> nat x < length names"
  shows "balance (debug_rule g names i st) = balance st"
proof -
  have "newlines (concat (map (\<lambda>x. debug_item (names ! nat x)) (takeWhile (\<lambda>x. x > 0) (drop (rrhs g ! i) (ritem g))))) = 0"
    using assms by (intro newlines_concat) (auto intro!: newlines_debug_item)
  moreover have "newlines (names ! (rlhs g ! i)) = 0" using assms by simp
  ultimately show ?thesis by (simp add: debug_rule_def Let_def char_defs)
qed

lemma name_table_names:
  assumes "name_table g names = Inr t" and "Some s \<in> set t" and "ntokens g \<le> length names"
  shows "s = ''end-of-file'' \<or> s \<in> set names"
proof -
  have keep: "fold_sum (\<lambda>i t. if symbol_value g ! i < 0 then Inl BadAccess else Inr (t[nat (symbol_value g ! i) := Some (names ! i)])) is t1 =
      Inr t2 \<Longrightarrow> set is \<subseteq> {..<length names} \<Longrightarrow> Some s \<in> set t2 \<Longrightarrow> Some s \<in> set t1 \<or> s \<in> set names" for "is" t1 t2
  proof (induction "is" arbitrary: t1)
    case (Cons i "is")
    from Cons.prems(1) have ok: "\<not> symbol_value g ! i < 0" by (auto split: if_splits)
    let ?t = "t1[nat (symbol_value g ! i) := Some (names ! i)]"
    have "Some s \<in> set ?t \<or> s \<in> set names" using Cons.prems ok by (intro Cons.IH) auto
    moreover have "Some s \<in> set t1 \<or> s \<in> set names" if "Some s \<in> set ?t"
      using that set_update_subset_insert [of t1 "nat (symbol_value g ! i)" "Some (names ! i)"] Cons.prems(2) by auto
    ultimately show ?case by blast
  qed simp
  from assms(1) obtain t2 where t2: "fold_sum (\<lambda>i t. if symbol_value g ! i < 0 then Inl BadAccess
      else Inr (t[nat (symbol_value g ! i) := Some (names ! i)])) (rev [2..<ntokens g]) (replicate (nat (max_value g) + 1) None) = Inr t2"
    "t = t2[0 := Some ''end-of-file'']" by (auto simp: name_table_def split: sum.splits)
  have "Some s = Some ''end-of-file'' \<or> Some s \<in> set t2"
    using assms(2) set_update_subset_insert [of t2 0 "Some ''end-of-file''"] unfolding t2(2) by auto
  moreover have "set (rev [2..<ntokens g]) \<subseteq> {..<length names}" using assms(3) by auto
  ultimately show ?thesis using keep [OF t2(1)] by auto
qed

text \<open>The names of a reading: one for each symbol, each on one line.\<close>

definition names_ok :: "grammar \<Rightarrow> string list \<Rightarrow> bool" where
  "names_ok g names \<longleftrightarrow> length names = nsyms g \<and> (\<forall>s \<in> set names. NEWLINE \<notin> set s)"

lemma balance_debug:
  assumes wf: "wf_grammar g" and n: "names_ok g names" and out: "output_debug g names st = Inr st'"
  shows "balance st' = balance st"
proof -
  have names: "newlines s = 0" if "s \<in> set names" for s using n that by (simp add: names_ok_def newlines_zero)
  have len: "length names = nsyms g" using n by (simp add: names_ok_def)
  have rule: "balance (debug_rule g names i s) = balance s" if "i \<in> set [2..<nrules g]" for i s
  proof (rule balance_debug_rule)
    show "rlhs g ! i < length names" using rlhs_bound [OF wf, of i] that len by simp
    fix x assume x: "x \<in> set (takeWhile (\<lambda>x. x > 0) (drop (rrhs g ! i) (ritem g)))"
    then have "0 < x" "x \<in> set (ritem g)" by (auto dest: set_takeWhileD in_set_dropD)
    then show "nat x < length names" using ritem_less_nsyms [OF wf] wf_sizesD(1) [OF wf] len by (auto simp: in_set_conv_nth nat_less_iff)
  qed (rule names)
  have rules: "balance (fold (debug_rule g names) [2..<nrules g] s) = balance s" for s by (rule balance_fold) (rule rule)
  obtain t where t: "name_table g names = Inr t" using out by (auto simp: output_debug_def Let_def split: sum.splits)
  have "newlines s = 0" if "Some s \<in> set t" for s
    using name_table_names [OF t that] names len wf_sizesD(4) [OF wf] by (auto simp: NEWLINE_def)
  then have "balance (name_rows 70 t st0) = balance st0" for st0 by (rule balance_name_rows)
  with out t show ?thesis
    by (auto simp: output_debug_def Let_def rules NEWLINE_def)
qed

lemma balance_copy_chars [simp]: "balance (copy_chars s st) = balance st"
  by (induction s st rule: copy_chars.induct) simp_all

lemma newlines_line_comment: "NEWLINE \<notin> set fname \<Longrightarrow> newlines (line_comment n fname) = 1"
  using newlines_zero [of fname] by (simp add: line_comment_def char_defs)

lemma balance_line_back [simp]: "balance (line_back st) = balance st"
  using newlines_line_comment [of "''-''"] by (simp add: line_back_def Let_def NEWLINE_def)

lemma balance_end_line [simp]: "balance (end_line c st) = balance st"
  by (simp add: end_line_def NEWLINE_def)

lemma balance_stored [simp]: "balance (output_stored_text s st) = balance st"
  and balance_actions [simp]: "balance (output_semantic_actions s st) = balance st"
  by (simp_all add: output_stored_text_def output_semantic_actions_def del: copy_chars.simps split: list.split)

lemma balance_trailing: "NEWLINE \<notin> set fname \<Longrightarrow> balance (output_trailing_text fname sc st) = balance st"
proof -
  assume f: "NEWLINE \<notin> set fname"
  have "newlines (takeWhile (\<lambda>c. c \<noteq> NEWLINE) (sc_cptr sc)) = 0" by (rule newlines_zero) (auto dest: set_takeWhileD)
  moreover have "newlines ''      '' = 0" by (simp add: NEWLINE_def)
  ultimately show ?thesis using newlines_line_comment [OF f]
    by (simp add: output_trailing_text_def Let_def del: copy_chars.simps split: list.split)
qed

text \<open>Lines of the skeleton that call for the tables.\<close>

definition calls_tables :: "string \<Rightarrow> bool" where
  "calls_tables buf \<longleftrightarrow> hd buf \<noteq> CHR ''#'' \<and> hd buf \<noteq> CHR ''t'' \<and> hd buf \<noteq> CHR ''.'' \<and>
     fst (token [SP, HT, CR, NEWLINE] buf) = Some ''tables''"

function table_calls :: "string \<Rightarrow> nat" where
  "table_calls inp =
     (case take_line 127 inp of (buf, rest) \<Rightarrow>
        if buf = [] then 0 else (if calls_tables buf then 1 else 0) + table_calls rest)"
  by pat_completeness auto

termination
  by (relation "measure length") (auto dest: take_line_shorter [OF sym])

declare table_calls.simps [simp del]

lemma take_line_newlines: "take_line n s = (l, r) \<Longrightarrow> l \<noteq> [] \<Longrightarrow> last l = NEWLINE \<Longrightarrow> newlines l = 1"
proof (induction n s arbitrary: l r rule: take_line.induct)
  case (3 n c s)
  show ?case
  proof (cases "c = NEWLINE")
    case False
    obtain l' r' where l': "take_line n s = (l', r')" by fastforce
    with False 3(2) have l: "l = c # l'" by simp
    with False 3(4) have "l' \<noteq> []" "last l' = NEWLINE" by (auto split: if_splits)
    from 3(1) [OF False l' this] l False show ?thesis by simp
  qed (use 3(2) in auto)
qed simp_all

lemma balance_skeleton_line:
  assumes wf: "wf_grammar (rg_grammar r)" and n: "names_ok (rg_grammar r) (rg_names r)" and f: "NEWLINE \<notin> set fname"
    and buf: "newlines buf = 1" and out: "skeleton_line tflag fname r R buf st = Inr st'"
  shows "balance st' = balance st - (if calls_tables buf then 2 else 0)"
proof (cases "hd buf = CHR ''#'' \<or> hd buf = CHR ''t'' \<or> hd buf = CHR ''.''")
  case True
  then have "newlines (tl buf) = 1" using buf by (cases buf) (auto simp: NEWLINE_def split: if_splits)
  with True out show ?thesis by (auto simp: skeleton_line_def calls_tables_def NEWLINE_def split: if_splits)
next
  case False
  then have call: "skeleton_call fname r R buf st = Inr st'" using out by (simp add: skeleton_line_def)
  obtain cp rest where tok: "token [SP, HT, CR, NEWLINE] buf = (cp, rest)" by fastforce
  have "newlines (case fst (token [CR, NEWLINE] rest) of None \<Rightarrow> [] | Some p \<Rightarrow> p) = 0"
    by (rule newlines_zero) (auto simp: token_def Let_def dest: set_takeWhileD)
  moreover have "\<forall>i < ntokens (rg_grammar r). newlines (rg_names r ! i) = 0"
    using n wf_sizesD(4) [OF wf] by (auto simp: names_ok_def intro: newlines_zero)
  ultimately have "balance (output_defines (fst (token [CR, NEWLINE] rest)) (rg_grammar r) (rg_names r) st) = balance st"
    by (rule balance_defines [rotated])
  with call tok False balance_debug [OF wf n] balance_trailing [OF f] show ?thesis
    by (auto simp: skeleton_call_def calls_tables_def Let_def balance_output_tables split: option.splits if_splits)
qed

text \<open>
  C40: While the skeleton is filled in, \<^verbatim>\<open>outline\<close> counts the lines written, so that the comments with line numbers
  agree with the output: every printer adds what it writes, except \<^verbatim>\<open>output_rule_data\<close>.  Each call of \<open>tables\<close>
  writes two lines that are not counted.
\<close>

theorem outline_counts_lines:
  "skeleton_lines tflag fname r R lno skeleton st = Inr st' \<Longrightarrow> wf_grammar (rg_grammar r) \<Longrightarrow>
   names_ok (rg_grammar r) (rg_names r) \<Longrightarrow> NEWLINE \<notin> set fname \<Longrightarrow>
   int (newlines (o_text st')) - int (newlines (o_text st)) = int (o_line st') - int (o_line st) + 2 * int (table_calls skeleton)"
proof -
  have "skeleton_lines tflag fname r R lno skeleton st = Inr st' \<Longrightarrow> wf_grammar (rg_grammar r) \<Longrightarrow>
      names_ok (rg_grammar r) (rg_names r) \<Longrightarrow> NEWLINE \<notin> set fname \<Longrightarrow>
      balance st' = balance st - 2 * int (table_calls skeleton)"
  proof (induction tflag fname r R lno skeleton st rule: skeleton_lines.induct)
    case (1 tflag fname r R lno inp st)
    obtain buf rest where tl: "take_line 127 inp = (buf, rest)" by fastforce
    note step = "1.prems"(1) [unfolded skeleton_lines.simps [of tflag fname r R lno inp st] tl prod.case]
    show ?case
    proof (cases "buf = []")
      case True
      with step tl show ?thesis by (simp add: table_calls.simps [of inp])
    next
      case False
      with step have nl: "last buf = NEWLINE" by (auto split: if_splits)
      then obtain st1 where s: "skeleton_line tflag fname r R buf st = Inr st1" "skeleton_lines tflag fname r R (lno + 1) rest st1 = Inr st'"
        using False step by (auto split: sum.splits)
      have "newlines buf = 1" by (rule take_line_newlines [OF tl False nl])
      from balance_skeleton_line [OF "1.prems"(2-4) this s(1)]
      have "balance st1 = balance st - (if calls_tables buf then 2 else 0)" .
      moreover have "balance st' = balance st1 - 2 * int (table_calls rest)"
        using "1.IH" [OF tl [symmetric] False _ s(1) s(2) "1.prems"(2-4)] nl by simp
      ultimately show ?thesis using tl False by (simp add: table_calls.simps [of inp])
    qed
  qed
  then show "skeleton_lines tflag fname r R lno skeleton st = Inr st' \<Longrightarrow> wf_grammar (rg_grammar r) \<Longrightarrow>
   names_ok (rg_grammar r) (rg_names r) \<Longrightarrow> NEWLINE \<notin> set fname \<Longrightarrow>
   int (newlines (o_text st')) - int (newlines (o_text st)) = int (o_line st') - int (o_line st) + 2 * int (table_calls skeleton)"
    by (simp add: balance_def)
qed

text \<open>A reading of the sample grammar, and a skeleton that calls for the final rule and the tables.\<close>

definition sample_named :: reading where
  "sample_named = \<lparr>rg_grammar = sample_grammar, rg_names = map (\<lambda>i. [char_of (97 + i)]) [0..<nsyms sample_grammar],
     rg_state = reader_start ''g'' [] (projr create_symbol_table)\<rparr>"

definition sample_result :: run where
  "sample_result = projr (the (compile_tables sample_grammar))"

definition sample_output :: out_state where
  "sample_output = output_tables sample_grammar sample_result
     (output_final_rule (final_state (run_parser sample_result)) empty_output)"

lemma outline_counts_lines_witness:
  "newlines (o_text sample_output) = o_line sample_output + 2"
proof -
  let ?sk = "'' final_rule'' @ nl @ '' tables'' @ nl"
  have t1: "take_line 127 ?sk = ('' final_rule'' @ nl, '' tables'' @ nl)"
    and t2: "take_line 127 ('' tables'' @ nl) = ('' tables'' @ nl, [])" and t3: "take_line 127 [] = ([], [])"
    by (simp_all add: NEWLINE_def numeral_eq_Suc)
  have k1: "token [SP, HT, CR, NEWLINE] ('' final_rule'' @ nl) = (Some ''final_rule'', [])"
    and k2: "token [SP, HT, CR, NEWLINE] ('' tables'' @ nl) = (Some ''tables'', [])"
    by (simp_all add: token_def Let_def char_defs CR_def)
  have g: "rg_grammar sample_named = sample_grammar" by (simp add: sample_named_def)
  have r3: "skeleton_lines False ''g'' sample_named sample_result k [] st = Inr st" for k st
    by (subst skeleton_lines.simps) (simp add: t3)
  have r2: "skeleton_lines False ''g'' sample_named sample_result k ('' tables'' @ nl) st = Inr (output_tables sample_grammar sample_result st)" for k st
    by (subst skeleton_lines.simps) (simp add: t2 [simplified] r3 skeleton_line_def skeleton_call_def k2 [simplified] g)
  have run: "skeleton_lines False ''g'' sample_named sample_result 0 ?sk empty_output = Inr sample_output"
    by (subst skeleton_lines.simps)
      (simp add: t1 [simplified] r2 [simplified] skeleton_line_def skeleton_call_def k1 [simplified] sample_output_def g)
  have c3: "table_calls [] = 0" by (subst table_calls.simps) (simp add: t3)
  have c2: "table_calls ('' tables'' @ nl) = 1"
    by (subst table_calls.simps) (simp add: t2 [simplified] c3 calls_tables_def k2 [simplified])
  have calls: "table_calls ?sk = 1"
    by (subst table_calls.simps) (simp add: t1 [simplified] c2 [simplified] calls_tables_def k1 [simplified])
  have "names_ok sample_grammar (rg_names sample_named)"
    by (simp add: names_ok_def sample_named_def sample_grammar_def NEWLINE_def char_of_def upt_conv_Cons)
  then show ?thesis
    using outline_counts_lines [OF run] sample_wf calls by (simp add: sample_named_def empty_output_def NEWLINE_def)
qed

end
