(* ===== verification/Output_Read.thy ===== *)
theory Output_Read
  imports Output_Text
begin

text \<open>
  The tables in the output.  A compiler that reads the initialisers which \<^verbatim>\<open>jay/output.c\<close> prints gets the arrays
  the passes have computed, and these are sound for the grammar.
\<close>

section \<open>Reading the tables back\<close>

text \<open>
  How a compiler reads the initialiser of an array of numbers: what is before each comma is blanks and a decimal
  number.
\<close>

definition blank :: "char \<Rightarrow> bool" where
  "blank c \<longleftrightarrow> c = SP \<or> c = NEWLINE"

definition decimal :: "string \<Rightarrow> nat" where
  "decimal s = foldl (\<lambda>n c. 10 * n + (code c - 48)) 0 s"

definition read_int :: "string \<Rightarrow> int" where
  "read_int s = (let s = dropWhile blank s in if s \<noteq> [] \<and> hd s = CHR ''-'' then - int (decimal (tl s)) else int (decimal s))"

lemma behind_comma: "CHR '','' \<in> set s \<Longrightarrow> length (tl (dropWhile (\<lambda>c. c \<noteq> CHR '','') s)) < length s"
  by (induction s) auto

function read_ints :: "string \<Rightarrow> int list" where
  "read_ints s =
     (if CHR '','' \<in> set s then read_int (takeWhile (\<lambda>c. c \<noteq> CHR '','') s) # read_ints (tl (dropWhile (\<lambda>c. c \<noteq> CHR '','') s))
      else [])"
  by pat_completeness auto

termination
  by (relation "measure length") (auto dest: behind_comma)

declare read_ints.simps [simp del]

lemma decimal_show_nat [simp]: "decimal (show_nat n) = n"
proof (induction n rule: less_induct)
  case (less n)
  show ?case
  proof (cases "n < 10")
    case False
    have "show_nat n = show_nat (n div 10) @ [digit_char (n mod 10)]" using False by (subst show_nat.simps) simp
    then have "decimal (show_nat n) = 10 * decimal (show_nat (n div 10)) + n mod 10"
      by (simp add: decimal_def code_digit_char)
    also have "decimal (show_nat (n div 10)) = n div 10" using False less by simp
    finally show ?thesis by (simp only: mult_div_mod_eq)
  qed (subst show_nat.simps, simp add: decimal_def code_digit_char)
qed

lemma blank_digit: "isdigit c \<Longrightarrow> \<not> blank c \<and> c \<noteq> CHR ''-'' \<and> c \<noteq> CHR '','' \<and> c \<noteq> CHR ''}''"
  by (auto simp: isdigit_def blank_def SP_def NEWLINE_def)

lemma blank_chars: "blank c \<Longrightarrow> c \<noteq> CHR '','' \<and> c \<noteq> CHR ''}''"
  by (auto simp: blank_def SP_def NEWLINE_def)

lemma show_int_chars: "c \<in> set (show_int i) \<Longrightarrow> \<not> blank c \<and> c \<noteq> CHR '','' \<and> c \<noteq> CHR ''}''"
  using blank_digit by (auto simp: show_int_def blank_def SP_def NEWLINE_def dest!: show_nat_digits split: if_splits)

lemma read_int_show: "\<forall>c \<in> set w. blank c \<Longrightarrow> read_int (w @ show_int i) = i"
proof -
  assume w: "\<forall>c \<in> set w. blank c"
  have ne: "show_int i \<noteq> []" by (simp add: show_int_def)
  then have "\<not> blank (hd (show_int i))" using show_int_chars [of "hd (show_int i)" i] by simp
  with w ne have "dropWhile blank (w @ show_int i) = show_int i" by (cases "show_int i") (simp_all add: dropWhile_append)
  moreover have "hd (show_nat n) \<noteq> CHR ''-''" for n using blank_digit [OF hd_show_nat_digit] by blast
  ultimately show ?thesis by (simp add: read_int_def Let_def show_int_def)
qed

text \<open>The text of a list of numbers.\<close>

inductive prints :: "int list \<Rightarrow> string \<Rightarrow> bool" where
  none: "prints [] []"
| more: "prints (i # is) (w @ show_int i @ CHR '','' # b)" if "\<forall>c \<in> set w. blank c" "prints is b"

lemma prints_read: "prints is b \<Longrightarrow> read_ints b = is \<and> CHR ''}'' \<notin> set b"
proof (induction rule: prints.induct)
  case none
  then show ?case by (simp add: read_ints.simps)
next
  case (more w "is" b i)
  have comma: "c \<noteq> CHR '','' \<and> c \<noteq> CHR ''}''" if "c \<in> set (w @ show_int i)" for c
  proof -
    from that consider "c \<in> set w" | "c \<in> set (show_int i)" by auto
    then show ?thesis using more(1) blank_chars show_int_chars by cases blast+
  qed
  have "takeWhile (\<lambda>c. c \<noteq> CHR '','') ((w @ show_int i) @ CHR '','' # b) = w @ show_int i"
    "dropWhile (\<lambda>c. c \<noteq> CHR '','') ((w @ show_int i) @ CHR '','' # b) = CHR '','' # b"
    using comma by (subst takeWhile_append2 dropWhile_append2; simp)+
  then have "read_ints (w @ show_int i @ CHR '','' # b) = i # is"
    using more by (subst read_ints.simps) (simp add: read_int_show)
  moreover have "CHR ''}'' \<notin> set (w @ show_int i @ CHR '','' # b)"
    using more comma [of "CHR ''}''"] by auto
  ultimately show ?case by blast
qed

lemma prints_number: "prints is b \<Longrightarrow> prints (i # is) (number w i @ b)"
  using prints.more [of "replicate (w - length (show_int i)) SP" "is" b i] by (simp add: number_def pad_left_def blank_def)

lemma prints_row: "prints is b \<Longrightarrow> prints (i # is) (nl @ ''      '' @ number w i @ b)"
  using prints.more [of "nl @ ''      '' @ replicate (w - length (show_int i)) SP" "is" b i]
  by (simp add: number_def pad_left_def blank_def SP_def)

lemma number_rows_text: "\<exists>b. o_text (number_rows j is st) = o_text st @ b \<and> prints is b"
proof (induction j "is" st rule: number_rows.induct)
  case (1 j st)
  then show ?case by (intro exI [of _ "[]"]) (simp add: prints.none)
next
  case (2 j i "is" st)
  show ?case
  proof (cases "j \<ge> 10")
    case True
    with 2(1) obtain b where "o_text (number_rows j (i # is) st) = o_text st @ nl @ ''      '' @ number 5 i @ b" "prints is b"
      by (auto simp: put_def bump_def)
    with prints_row [of "is" b i 5] show ?thesis by blast
  next
    case False
    with 2(2) obtain b where "o_text (number_rows j (i # is) st) = o_text st @ number 5 i @ b" "prints is b"
      by (auto simp: put_def)
    with prints_number [of "is" b i 5] show ?thesis by blast
  qed
qed

text \<open>The tables of a run, each with the text before and behind its numbers.\<close>

definition entry :: "string \<Rightarrow> string \<Rightarrow> int list \<Rightarrow> string \<Rightarrow> string \<times> int list \<times> string" where
  "entry head array is tail = (head @ array, is, nl @ ''    };'' @ nl @ tail)"

definition emitted :: "grammar \<Rightarrow> run \<Rightarrow> (string \<times> int list \<times> string) list" where
  "emitted g R =
     (let n = length (cores (run_automaton R)); ps = run_packed R
      in [entry (''   class YyLhsClass {'' @ nl @ nl) ''    public static int[] yyLhs = {''
           (map (\<lambda>r. symbol_value g ! (rlhs g ! r)) [2..<nrules g]) (''  } // End of class YyLhsClass'' @ nl @ nl),
          entry (''  class YyLenClass {'' @ nl @ nl) ''    public static int[] yyLen = {''
           (map (\<lambda>r. int (length (rhs_syms g r))) [2..<nrules g]) (''  } // End class YyLenClass */'' @ nl @ nl),
          entry (''   class YyDefRedClass {'' @ nl @ nl) ''    public static int[] yyDefRed = {''
           (map (\<lambda>q. defred_number (defred (run_parser R) ! q)) [0..<n]) (''  } // End of class YyDefRedClass */'' @ nl @ nl),
          entry (''   class YyDgotoClass {'' @ nl @ nl) ''    public static int[] yyDgoto = {''
           (map int (run_dgoto R)) (''  } // End of class YyDgotoClass'' @ nl @ nl),
          entry (''  class YySindexClass {'' @ nl @ nl) ''    public static int[] yySindex = {''
           (take n (base ps)) (''  } // End of class YySindexClass'' @ nl @ nl),
          entry (''  class YyRindexClass {'' @ nl @ nl) ''    public static int[] yyRindex = {''
           (take n (drop n (base ps))) (''  } // End of class YyRindexClass'' @ nl @ nl),
          entry (''  class YyGindexClass {'' @ nl @ nl) ''    public static int[] yyGindex = {''
           (take (nvars g - 1) (drop (2 * n) (base ps))) (''  } // End of class YyGindexClass'' @ nl @ nl),
          entry (''  class YyTableClass {'' @ nl @ nl) ''    public static int[] yyTable = {''
           (take (Suc (high ps)) (tbl ps)) (''  } // End of class YyTableClass'' @ nl @ nl),
          entry (''  class YyCheckClass {'' @ nl @ nl) ''    public static int[] yyCheck = {''
           (take (Suc (high ps)) (chk ps)) (''  } // End of class YyCheckClass'' @ nl @ nl)])"

definition table_text :: "string \<times> int list \<times> string \<Rightarrow> string \<Rightarrow> bool" where
  "table_text e t \<longleftrightarrow> (case e of (before, is, behind) \<Rightarrow> \<exists>b. t = before @ b @ behind \<and> CHR ''}'' \<notin> set b \<and> read_ints b = is)"

lemma o_text_simps [simp]: "o_text (put s st) = o_text st @ s" "o_text (bump n st) = o_text st"
  by (simp_all add: put_def bump_def)

text \<open>One table: the first number, the rows, the rest.\<close>

lemma one_table:
  "\<exists>t. o_text (number_rows 10 ks (put (h @ number w i) st)) @ f = o_text st @ t \<and> table_text (h, i # ks, f) t"
proof -
  obtain b where b: "o_text (number_rows 10 ks (put (h @ number w i) st)) = o_text st @ h @ number w i @ b" "prints ks b"
    using number_rows_text [of 10 ks "put (h @ number w i) st"] by auto
  with prints_read [OF prints_number [OF b(2), of i w]] show ?thesis
    by (intro exI [of _ "h @ (number w i @ b) @ f"]) (auto simp: table_text_def)
qed

text \<open>A text that appends tables.\<close>

definition appends :: "(string \<times> int list \<times> string) list \<Rightarrow> string \<Rightarrow> string \<Rightarrow> bool" where
  "appends es s s' \<longleftrightarrow> (\<exists>ts. s' = s @ concat ts \<and> list_all2 table_text es ts)"

lemma appends_trans: "appends es s s' \<Longrightarrow> appends fs s' s'' \<Longrightarrow> appends (es @ fs) s s''"
proof -
  assume "appends es s s'" "appends fs s' s''"
  then obtain ts us where "s' = s @ concat ts" "list_all2 table_text es ts" "s'' = s' @ concat us" "list_all2 table_text fs us"
    by (auto simp: appends_def)
  then show ?thesis unfolding appends_def by (intro exI [of _ "ts @ us"]) (simp add: list_all2_appendI)
qed

lemma print_table_appends:
  "i # rows = ks \<Longrightarrow> o_text st = s \<Longrightarrow> appends [entry head array ks tail] s (o_text (print_table head array w i rows n tail st))"
proof -
  assume k: "i # rows = ks" and s: "o_text st = s"
  have "number_rows 10 rows (put ((head @ array) @ number w i) st) = number_rows 10 rows (put (array @ number w i) (put head st))"
    by (simp add: put_def)
  with one_table [of rows "head @ array" w i st "nl @ ''    };'' @ nl @ tail"] k s show ?thesis
    by (auto simp: appends_def entry_def print_table_def Let_def intro: exI [of _ "[t]" for t])
qed

text \<open>The sizes of the arrays of a run.\<close>

lemma run_sizes:
  assumes wf: "wf_grammar g" and V: "values_ok g" and out: "compile_tables g = Some (Inr R)"
  defines "n \<equiv> length (cores (run_automaton R))" and "ps \<equiv> run_packed R"
  shows "0 < n" "length (base ps) = 2 * n + nvars g" "high ps < length (chk ps)" "length (tbl ps) = length (chk ps)"
    "length (run_dgoto R) = nvars g - 1"
proof -
  have ok: "run_ok g R" using compile_tables_correct [OF wf V] out by auto
  let ?st = "run_automaton R" let ?m = "2 * n + nvars g"
  have E: "automaton g ?st" and T: "tables_ok g ?st (run_tables R)" and P: "parser_ok g ?st (run_parser R)"
    and C: "core_items ` set (cores ?st) = canonical g"
    and o: "output_actions g (run_tables R) n (run_parser R) = Inr (run_dgoto R, ps)"
    using ok unfolding run_ok_def automaton_ok_def lookaheads_ok_def n_def ps_def by blast+
  have "[1] \<in> core_items ` set (cores ?st)" unfolding C by (rule canonical.start)
  then show "0 < n" by (auto simp: n_def)
  from vectors_built [OF wf V E T P] obtain av where av:
    "goto_actions g (run_tables R) n (token_actions g n (run_parser R) (no_vectors ?m)) =
       (map (default_goto g (run_tables R) n) [start_symbol g + 1..<nsyms g], av)"
    "sized ?m av" "all_vectors g ?st (run_tables R) (run_parser R) av" unfolding n_def by blast
  have pt: "pack_table av n ?m = Inr ps" and dg: "run_dgoto R = map (default_goto g (run_tables R) n) [start_symbol g + 1..<nsyms g]"
    using o by (auto simp: output_actions_def av(1) Let_def split: sum.splits)
  note p = packedD [OF pack_table_packed [OF all_vectors_ok [OF wf E T av(2,3)[unfolded n_def]] pt [unfolded n_def]]]
  show "length (base ps) = ?m" "high ps < length (chk ps)" "length (tbl ps) = length (chk ps)" using p(1,3,4) by (simp_all add: n_def)
  show "length (run_dgoto R) = nvars g - 1" using wf_sizesD(4,5) [OF wf] by (simp add: dg)
qed

lemma slice: "a < b \<Longrightarrow> b \<le> length xs \<Longrightarrow> xs ! a # map (\<lambda>i. xs ! i) [a + 1..<b] = take (b - a) (drop a xs)"
proof -
  assume ab: "a < b" "b \<le> length xs"
  then have "xs ! a # map (\<lambda>i. xs ! i) [a + 1..<b] = map (\<lambda>i. xs ! i) [a..<b]" by (simp add: upt_conv_Cons)
  also have "\<dots> = take (b - a) (drop a xs)" using ab by (intro nth_equalityI) simp_all
  finally show ?thesis .
qed

text \<open>The tables in the order they are printed, from the last one back.\<close>

definition printed :: "(string \<times> int list \<times> string) list \<Rightarrow> string \<Rightarrow> out_state \<Rightarrow> bool" where
  "printed es s st \<longleftrightarrow> appends (rev es) s (o_text st)"

lemma printed_nil: "printed [] (o_text st) st"
  by (simp add: printed_def appends_def)

lemma printed_bump: "printed es s st \<Longrightarrow> printed es s (bump n st)"
  by (simp add: printed_def)

lemma printed_table:
  "i # rows = ks \<Longrightarrow> printed es s st \<Longrightarrow> printed (entry head array ks tail # es) s (print_table head array w i rows n tail st)"
  using appends_trans [OF _ print_table_appends] by (simp add: printed_def)

lemma printed_appends: "printed (rev es) s st \<Longrightarrow> appends es s (o_text st)"
  by (simp add: printed_def)

lemma tables_printed:
  assumes wf: "wf_grammar g" and V: "values_ok g" and out: "compile_tables g = Some (Inr R)"
  shows "\<exists>ts. o_text (output_tables g R st) = o_text st @ concat ts \<and> list_all2 table_text (emitted g R) ts"
proof -
  define n where "n = length (cores (run_automaton R))"
  define ps where "ps = run_packed R"
  note sz = run_sizes [OF wf V out, folded n_def ps_def]
  have nr: "3 \<le> nrules g" and nv: "2 \<le> nvars g" using wf_sizesD(7,8) [OF wf] by simp_all
  have r: "[2..<nrules g] = 2 # [3..<nrules g]" using nr by (simp add: upt_conv_Cons)
  have len: "int (rrhs g ! (i + 1)) - int (rrhs g ! i) - 1 = int (length (rhs_syms g i))" if "i \<in> set [3..<nrules g]" for i
    using rrhs_less [OF wf, of i "Suc i"] that by (simp add: rhs_syms_def of_nat_diff)
  have lhs: "symbol_value g ! start_symbol g # map (\<lambda>i. symbol_value g ! (rlhs g ! i)) [3..<nrules g] =
      map (\<lambda>r. symbol_value g ! (rlhs g ! r)) [2..<nrules g]"
    using wf_headerD(10) [OF wf] by (simp add: r)
  have lens: "2 # map (\<lambda>i. int (rrhs g ! (i + 1)) - int (rrhs g ! i) - 1) [3..<nrules g] = map (\<lambda>r. int (length (rhs_syms g r))) [2..<nrules g]"
    using wf_headerD [OF wf] len unfolding r by (simp add: rhs_syms_def numeral_3_eq_3 [symmetric])
  have dr: "defred_number (d ! 0) # map (\<lambda>i. defred_number (d ! i)) [1..<n] = map (\<lambda>q. defred_number (d ! q)) [0..<n]" for d
    using sz(1) by (simp add: upt_conv_Cons [of 0])
  have dg: "int (run_dgoto R ! 0) # map int (tl (run_dgoto R)) = map int (run_dgoto R)"
    using sz(5) nv by (cases "run_dgoto R") simp_all
  have s: "base ps ! 0 # map (\<lambda>i. base ps ! i) [1..<n] = take n (base ps)"
    "base ps ! n # map (\<lambda>i. base ps ! i) [n + 1..<2 * n] = take n (drop n (base ps))"
    "base ps ! (2 * n) # map (\<lambda>i. base ps ! i) [2 * n + 1..<length (base ps) - 1] = take (nvars g - 1) (drop (2 * n) (base ps))"
    "tbl ps ! 0 # map (\<lambda>i. tbl ps ! i) [1..<Suc (high ps)] = take (Suc (high ps)) (tbl ps)"
    "chk ps ! 0 # map (\<lambda>i. chk ps ! i) [1..<Suc (high ps)] = take (Suc (high ps)) (chk ps)"
    using slice [of 0 n "base ps"] slice [of n "2 * n" "base ps"] slice [of "2 * n" "length (base ps) - 1" "base ps"]
      slice [of 0 "Suc (high ps)" "tbl ps"] slice [of 0 "Suc (high ps)" "chk ps"] sz nv by simp_all
  have "printed (rev (emitted g R)) (o_text st) (output_tables g R st)"
    unfolding emitted_def output_tables_def output_rule_data_def output_yydefred_def output_dgoto_def output_base_def
      output_table_def output_check_def Let_def n_def [symmetric] ps_def [symmetric]
    unfolding rev.simps append_Nil append_Cons
    by (intro printed_table printed_bump printed_nil lhs lens dr dg s)
  from printed_appends [OF this] show ?thesis by (simp add: appends_def)
qed

text \<open>
  C7: From a well-formed grammar with distinct token values, the passes end with an error of the capacity of the
  tables or with tables that are right; then the command \<open>tables\<close> of the skeleton writes nine arrays, one
  after the other, and what a compiler reads between the braces of each are the numbers that the passes have
  computed: for every rule from 2 on the symbol and the length, for every state the default reduction, for
  every nonterminal the default goto, the bases of the states and of the nonterminals, the table and the check.
\<close>

theorem tables_read_back:
  assumes wf: "wf_grammar g" and V: "values_ok g"
  shows "(\<exists>e \<in> jay_limits. compile_tables g = Some (Inl e)) \<or>
    (\<exists>R. compile_tables g = Some (Inr R) \<and> tables_sound g R \<and>
      (\<forall>st. \<exists>ts. o_text (output_tables g R st) = o_text st @ concat ts \<and> list_all2 table_text (emitted g R) ts))"
  using compile_tables_correct [OF wf V] run_tables_sound [OF wf V] tables_printed [OF wf V] by blast

lemma tables_read_back_witness:
  "(\<exists>e \<in> jay_limits. compile_tables sample_grammar = Some (Inl e)) \<or>
    (\<exists>R. compile_tables sample_grammar = Some (Inr R) \<and> tables_sound sample_grammar R \<and>
      (\<forall>st. \<exists>ts. o_text (output_tables sample_grammar R st) = o_text st @ concat ts \<and> list_all2 table_text (emitted sample_grammar R) ts))"
  by (rule tables_read_back [OF sample_wf sample_values])

end
