(* ===== verification/Listing.thy ===== *)
theory Listing
  imports Output_Text
begin

text \<open>
  The listing that \<^verbatim>\<open>jay -v\<close> writes into the file \<^verbatim>\<open>y.output\<close>: the rules (\<^verbatim>\<open>print_grammar\<close> of
  \<^verbatim>\<open>jay/reader.c\<close>), then every state with its conflicts, its kernel, its empty rules and its actions, the
  rules that are never reduced and the conflicts of each state (\<^verbatim>\<open>jay/verbose.c\<close>).  The conflict counts
  are worded as in \<^verbatim>\<open>total_conflicts\<close> of \<^verbatim>\<open>jay/mkpar.c\<close>.  Each procedure is the text it prints.  The theorems say
  that a state is described as the packed tables have it, and which conflicts are listed.
\<close>

section \<open>Rules and items\<close>

abbreviation tab :: string where "tab \<equiv> [HT]"

text \<open>The symbols up to the next end of a rule, each behind a space.\<close>

definition spaced_names :: "string list \<Rightarrow> int list \<Rightarrow> string" where
  "spaced_names names its = concat (map (\<lambda>x. SP # names ! nat x) (takeWhile (\<lambda>x. x \<ge> 0) its))"

text \<open>
  \<^verbatim>\<open>print_grammar\<close>: \<open>spacing\<close> is the width of the left side last printed, \<open>k\<close> the place in \<^verbatim>\<open>ritem\<close>.
\<close>

fun print_rule_lines :: "grammar \<Rightarrow> string list \<Rightarrow> nat list \<Rightarrow> nat \<Rightarrow> nat \<Rightarrow> string" where
  "print_rule_lines g names [] spacing k = []"
| "print_rule_lines g names (i # is) spacing k =
     (let lhs = rlhs g ! i; rest = drop k (ritem g);
          spacing' = (if lhs \<noteq> rlhs g ! (i - 1) then length (names ! lhs) + 1 else spacing);
          margin = pad_left 4 (show_int (int i - 2)) @ [SP, SP];
          head = (if lhs \<noteq> rlhs g ! (i - 1) then (if i \<noteq> 2 then nl else []) @ margin @ names ! lhs @ '' :''
                  else margin @ replicate spacing' SP @ ''|'')
      in head @ spaced_names names rest @ nl @
         print_rule_lines g names is spacing' (k + length (takeWhile (\<lambda>x. x \<ge> 0) rest) + 1))"

definition print_grammar :: "grammar \<Rightarrow> string list \<Rightarrow> string" where
  "print_grammar g names = print_rule_lines g names [2..<nrules g] 0 1"

text \<open>
  \<^verbatim>\<open>print_core\<close>: from the item forward to the end of its rule, back to the start of the rule, and over it
  with a dot before the item.
\<close>

definition print_item :: "grammar \<Rightarrow> string list \<Rightarrow> nat \<Rightarrow> string" where
  "print_item g names item =
     (let rule = nat (- hd (dropWhile (\<lambda>x. x \<ge> 0) (drop item (ritem g))));
          before = map (\<lambda>k. ritem g ! k) [rrhs g ! rule..<item];
          after = drop (max item (rrhs g ! rule)) (ritem g)
      in tab @ names ! (rlhs g ! rule) @ '' : '' @ concat (map (\<lambda>x. names ! nat x @ [SP]) before) @ ''.'' @
         spaced_names names after @ ''  ('' @ show_int (- 2 - hd (dropWhile (\<lambda>x. x \<ge> 0) after)) @ '')'' @ nl)"

definition print_core :: "grammar \<Rightarrow> string list \<Rightarrow> core \<Rightarrow> string" where
  "print_core g names c = concat (map (print_item g names) (core_items c))"

text \<open>\<^verbatim>\<open>print_nulls\<close>: the empty rules of a state, kept sorted in the array \<^verbatim>\<open>null_rules\<close>.\<close>

definition insert_null :: "nat \<Rightarrow> nat list \<Rightarrow> nat list" where
  "insert_null i nulls =
     (let low = takeWhile (\<lambda>r. i > r) nulls; rest = dropWhile (\<lambda>r. i > r) nulls
      in if rest = [] then nulls @ [i] else if i \<noteq> hd rest then low @ i # rest else nulls)"

definition collect_null :: "grammar \<Rightarrow> action \<Rightarrow> nat list \<Rightarrow> nat list" where
  "collect_null g p nulls =
     (if act_code p = REDUCE \<and> (suppressed p = 0 \<or> suppressed p = 1) \<and>
         rrhs g ! act_number p + 1 = rrhs g ! (act_number p + 1)
      then insert_null (act_number p) nulls else nulls)"

definition null_rules :: "grammar \<Rightarrow> action list \<Rightarrow> nat list" where
  "null_rules g acts = fold (collect_null g) acts []"

definition print_nulls :: "grammar \<Rightarrow> string list \<Rightarrow> action list \<Rightarrow> string" where
  "print_nulls g names acts =
     concat (map (\<lambda>j. tab @ names ! (rlhs g ! j) @ '' : .  ('' @ show_int (int j - 2) @ '')'' @ nl) (null_rules g acts)) @ nl"

section \<open>Actions\<close>

text \<open>\<^verbatim>\<open>print_shifts\<close>: first a count, then the live shifts if there is one at all.\<close>

definition shift_line :: "string list \<Rightarrow> nat \<Rightarrow> int \<Rightarrow> string" where
  "shift_line names X s = tab @ names ! X @ ''  shift '' @ show_int s @ nl"

definition print_shifts :: "string list \<Rightarrow> action list \<Rightarrow> string" where
  "print_shifts names acts =
     (if length (filter (\<lambda>q. suppressed q < 2 \<and> act_code q = SHIFT) acts) > 0
      then concat (map (\<lambda>p. if act_code p = SHIFT \<and> suppressed p = 0
             then shift_line names (act_symbol p) (int (act_number p)) else []) acts)
      else [])"

definition reduce_line :: "string list \<Rightarrow> nat \<Rightarrow> int \<Rightarrow> string" where
  "reduce_line names X k = tab @ names ! X @ ''  reduce '' @ show_int k @ nl"

definition no_reductions :: "action list \<Rightarrow> bool" where
  "no_reductions acts \<longleftrightarrow> \<not> list_ex (\<lambda>q. act_code q = REDUCE \<and> suppressed q < 2) acts"

definition print_reductions :: "string list \<Rightarrow> action list \<Rightarrow> nat \<Rightarrow> string" where
  "print_reductions names acts dr =
     (if no_reductions acts then tab @ ''.  error'' @ nl
      else
        concat (map (\<lambda>p. if act_code p = REDUCE \<and> act_number p \<noteq> dr \<and> suppressed p = 0
             then reduce_line names (act_symbol p) (int (act_number p) - 2) else []) acts) @
        (if dr > 0 then tab @ ''.  reduce '' @ show_int (int dr - 2) @ nl else []))"

definition goto_line :: "string list \<Rightarrow> nat \<Rightarrow> int \<Rightarrow> string" where
  "goto_line names X k = tab @ names ! X @ ''  goto '' @ show_int k @ nl"

definition print_gotos :: "grammar \<Rightarrow> string list \<Rightarrow> lalr_tables \<Rightarrow> shifts \<Rightarrow> string" where
  "print_gotos g names t sp =
     nl @ concat (map (\<lambda>k. let as = accessing t ! k in
       if ISVAR g (int as) then goto_line names as (int k) else []) (shift_row sp))"

definition print_actions :: "grammar \<Rightarrow> string list \<Rightarrow> lalr_tables \<Rightarrow> parser_tables \<Rightarrow> nat \<Rightarrow> string" where
  "print_actions g names t p stateno =
     (if stateno = final_state p then tab @ ''$end  accept'' @ nl else []) @
     (let acts = parser p ! stateno in
      if acts \<noteq> [] then print_shifts names acts @ print_reductions names acts (defred p ! stateno) else []) @
     (case shift_table t ! stateno of
        None \<Rightarrow> []
      | Some sp \<Rightarrow>
          if shift_row sp \<noteq> [] \<and> ISVAR g (int (accessing t ! last (shift_row sp))) then print_gotos g names t sp else [])"

section \<open>Conflicts\<close>

text \<open>
  One line of \<^verbatim>\<open>print_conflicts\<close>: the dropped action \<open>p\<close> against the action \<open>q\<close> whose symbol, number and code
  the loop has kept.
\<close>

definition conflict_line :: "string list \<Rightarrow> nat \<Rightarrow> nat \<Rightarrow> int \<Rightarrow> nat \<Rightarrow> action_code \<Rightarrow> action \<Rightarrow> string" where
  "conflict_line names fin state symbol nr act p =
     show_int (int state) @
     (if state = fin \<and> symbol = 0 then
        '': shift/reduce conflict (accept, reduce '' @ show_int (int (act_number p) - 2) @ '') on $end''
      else if act = SHIFT then
        '': shift/reduce conflict (shift '' @ show_int (int nr) @ '', reduce '' @ show_int (int (act_number p) - 2) @
        '') on '' @ names ! nat symbol
      else
        '': reduce/reduce conflict (reduce '' @ show_int (int nr - 2) @ '', reduce '' @ show_int (int (act_number p) - 2) @
        '') on '' @ names ! nat symbol) @ nl"

fun conflict_lines :: "string list \<Rightarrow> nat \<Rightarrow> nat \<Rightarrow> int \<Rightarrow> nat \<Rightarrow> action_code \<Rightarrow> action list \<Rightarrow> string list" where
  "conflict_lines names fin state symbol nr act [] = []"
| "conflict_lines names fin state symbol nr act (p # ps) =
     (if suppressed p = 2 then conflict_lines names fin state symbol nr act ps
      else if int (act_symbol p) \<noteq> symbol
      then conflict_lines names fin state (int (act_symbol p)) (act_number p)
             (if act_code p = SHIFT then SHIFT else REDUCE) ps
      else if suppressed p = 1
      then conflict_line names fin state symbol nr act p # conflict_lines names fin state symbol nr act ps
      else conflict_lines names fin state symbol nr act ps)"

text \<open>The number and the code that are not set before the first group are never read.\<close>

definition print_conflicts :: "string list \<Rightarrow> parser_tables \<Rightarrow> nat \<Rightarrow> string list" where
  "print_conflicts names p state =
     conflict_lines names (final_state p) state (- 1) 0 REDUCE (parser p ! state)"

definition conflict_count :: "nat \<Rightarrow> string \<Rightarrow> string" where
  "conflict_count n what =
     (if n = 1 then ''1 '' @ what @ '' conflict'' else if n > 1 then show_int (int n) @ '' '' @ what @ '' conflicts'' else [])"

definition conflict_counts :: "nat \<Rightarrow> nat \<Rightarrow> string" where
  "conflict_counts sr rr =
     conflict_count sr ''shift/reduce'' @ (if sr \<noteq> 0 \<and> rr \<noteq> 0 then '', '' else []) @
     conflict_count rr ''reduce/reduce'' @ ''.'' @ nl"

definition log_conflicts :: "parser_tables \<Rightarrow> nat \<Rightarrow> string" where
  "log_conflicts p nstates =
     nl @ nl @ concat (map (\<lambda>i. if SRconflicts p ! i \<noteq> 0 \<or> RRconflicts p ! i \<noteq> 0
       then ''State '' @ show_int (int i) @ '' contains '' @ conflict_counts (SRconflicts p ! i) (RRconflicts p ! i)
       else []) [0..<nstates])"

section \<open>The listing\<close>

definition log_unused :: "grammar \<Rightarrow> string list \<Rightarrow> parser_tables \<Rightarrow> string" where
  "log_unused g names p =
     nl @ nl @ ''Rules never reduced:'' @ nl @
     concat (map (\<lambda>i. if \<not> rules_used p ! i
       then tab @ names ! (rlhs g ! i) @ '' :'' @ spaced_names names (drop (rrhs g ! i) (ritem g)) @
            ''  ('' @ show_int (int i - 2) @ '')'' @ nl
       else []) [3..<nrules g])"

definition print_one_state :: "grammar \<Rightarrow> string list \<Rightarrow> run \<Rightarrow> nat \<Rightarrow> jay_error + string" where
  "print_one_state g names R state =
     (let t = run_tables R; p = run_parser R in
      case state_table t ! state of
        None \<Rightarrow> Inl BadAccess
      | Some c \<Rightarrow> Inr
          ((if state \<noteq> 0 then nl @ nl else []) @
           (if SRconflicts p ! state \<noteq> 0 \<or> RRconflicts p ! state \<noteq> 0 then concat (print_conflicts names p state) else []) @
           ''state '' @ show_int (int state) @ nl @
           print_core g names c @ print_nulls g names (parser p ! state) @ print_actions g names t p state))"

definition verbose :: "grammar \<Rightarrow> string list \<Rightarrow> run \<Rightarrow> jay_error + string" where
  "verbose g names R =
     (let p = run_parser R; nstates = length (cores (run_automaton R)) in
      case fold_sum (\<lambda>i text. case print_one_state g names R i of Inl e \<Rightarrow> Inl e | Inr s \<Rightarrow> Inr (text @ s))
             [0..<nstates] (FF # nl) of
        Inl e \<Rightarrow> Inl e
      | Inr text \<Rightarrow> Inr
          (text @
           (if nunused p \<noteq> 0 then log_unused g names p else []) @
           (if SRtotal p \<noteq> 0 \<or> RRtotal p \<noteq> 0 then log_conflicts p nstates else []) @
           nl @ nl @ show_int (int (ntokens g)) @ '' terminals, '' @ show_int (int (nvars g)) @ '' nonterminals'' @ nl @
           show_int (int (nrules g) - 2) @ '' grammar rules, '' @ show_int (int nstates) @ '' states'' @ nl))"

section \<open>Rules and items are shown as they are\<close>

lemma drop_block:
  assumes "i \<le> e" "e < length xs" "\<forall>k \<in> {i..<e}. P (xs ! k)" "\<not> P (xs ! e)"
  shows "takeWhile P (drop i xs) = map (\<lambda>k. xs ! k) [i..<e]" "dropWhile P (drop i xs) = drop e xs"
proof -
  have split: "drop i xs = map (\<lambda>k. xs ! k) [i..<e] @ drop e xs"
  proof (rule nth_equalityI)
    fix k assume "k < length (drop i xs)"
    then show "drop i xs ! k = (map (\<lambda>k. xs ! k) [i..<e] @ drop e xs) ! k"
      using assms(1,2) by (cases "k < e - i") (simp_all add: nth_append add.commute)
  qed (use assms(1,2) in simp)
  have e: "drop e xs = xs ! e # drop (Suc e) xs" using assms(2) by (simp add: Cons_nth_drop_Suc)
  show "takeWhile P (drop i xs) = map (\<lambda>k. xs ! k) [i..<e]"
    unfolding split using assms(3,4) e by (simp add: takeWhile_append)
  show "dropWhile P (drop i xs) = drop e xs"
    unfolding split using assms(3,4) e by (simp add: dropWhile_append)
qed

text \<open>From an item in rule \<open>r\<close> on, \<^verbatim>\<open>ritem\<close> holds the symbols behind the dot and the end of the rule.\<close>

lemma item_block:
  assumes wf: "wf_grammar g" and r: "1 \<le> r" "r < nrules g" and i: "rrhs g ! r \<le> i" "i < rrhs g ! Suc r"
  shows "takeWhile (\<lambda>x. x \<ge> 0) (drop i (ritem g)) = map (\<lambda>k. ritem g ! k) [i..<rrhs g ! Suc r - 1]"
    "hd (dropWhile (\<lambda>x. x \<ge> 0) (drop i (ritem g))) = - int r"
proof -
  note B = rule_block [OF wf r]
  have e: "rrhs g ! Suc r - 1 < length (ritem g)" using B(1,2) wf_sizesD(1) [OF wf] by simp
  have "\<not> 0 \<le> ritem g ! (rrhs g ! Suc r - 1)" using B(3) r(1) by simp
  moreover have "\<forall>k \<in> {i..<rrhs g ! Suc r - 1}. 0 \<le> ritem g ! k" using B(4) i(1) by simp
  ultimately have D: "takeWhile (\<lambda>x. x \<ge> 0) (drop i (ritem g)) = map (\<lambda>k. ritem g ! k) [i..<rrhs g ! Suc r - 1]"
    "dropWhile (\<lambda>x. x \<ge> 0) (drop i (ritem g)) = drop (rrhs g ! Suc r - 1) (ritem g)"
    using drop_block [of i "rrhs g ! Suc r - 1" "ritem g" "\<lambda>x. x \<ge> 0"] e i(2) by simp_all
  then show "takeWhile (\<lambda>x. x \<ge> 0) (drop i (ritem g)) = map (\<lambda>k. ritem g ! k) [i..<rrhs g ! Suc r - 1]" by simp
  show "hd (dropWhile (\<lambda>x. x \<ge> 0) (drop i (ritem g))) = - int r"
    using D(2) B(3) e by (simp add: hd_drop_conv_nth)
qed

lemma rhs_syms_split:
  assumes "rrhs g ! r \<le> i" "i < rrhs g ! Suc r"
  shows "map (\<lambda>k. nat (ritem g ! k)) [rrhs g ! r..<i] = take (i - rrhs g ! r) (rhs_syms g r)"
    "map (\<lambda>k. nat (ritem g ! k)) [i..<rrhs g ! Suc r - 1] = drop (i - rrhs g ! r) (rhs_syms g r)"
  using assms by (simp_all add: rhs_syms_def take_map drop_map take_upt)

definition shown :: "string list \<Rightarrow> nat list \<Rightarrow> string" where
  "shown names Xs = concat (map (\<lambda>X. SP # names ! X) Xs)"

lemma spaced_names_item:
  assumes "wf_grammar g" "1 \<le> r" "r < nrules g" "rrhs g ! r \<le> i" "i < rrhs g ! Suc r"
  shows "spaced_names names (drop i (ritem g)) = shown names (drop (i - rrhs g ! r) (rhs_syms g r))"
  unfolding spaced_names_def item_block(1) [OF assms] shown_def rhs_syms_split(2) [OF assms(4,5), symmetric]
  by (simp add: comp_def)

lemma spaced_names_rule:
  assumes "wf_grammar g" "1 \<le> r" "r < nrules g"
  shows "spaced_names names (drop (rrhs g ! r) (ritem g)) = shown names (rhs_syms g r)"
  using spaced_names_item [OF assms order.refl] rule_block(1) [OF assms] by simp

lemma print_item_shows:
  assumes wf: "wf_grammar g" and r: "1 \<le> r" "r < nrules g" and i: "rrhs g ! r \<le> i" "i < rrhs g ! Suc r"
  shows "print_item g names i =
    tab @ names ! (rlhs g ! r) @ '' : '' @ concat (map (\<lambda>X. names ! X @ [SP]) (take (i - rrhs g ! r) (rhs_syms g r))) @
    ''.'' @ shown names (drop (i - rrhs g ! r) (rhs_syms g r)) @ ''  ('' @ show_int (int r - 2) @ '')'' @ nl"
proof -
  have m: "max i (rrhs g ! r) = i" using i(1) by simp
  have "nat (- hd (dropWhile (\<lambda>x. x \<ge> 0) (drop i (ritem g)))) = r" using item_block(2) [OF assms] by simp
  moreover have "- 2 - hd (dropWhile (\<lambda>x. x \<ge> 0) (drop i (ritem g))) = int r - 2" using item_block(2) [OF assms] by simp
  ultimately show ?thesis
    unfolding print_item_def Let_def rhs_syms_split(1) [OF i, symmetric] spaced_names_item [OF assms, symmetric]
    by (simp only: m map_map comp_def)
qed

text \<open>The left margin of a rule: its left side, or a bar below the last one.\<close>

definition rule_head :: "grammar \<Rightarrow> string list \<Rightarrow> nat \<Rightarrow> string" where
  "rule_head g names i =
     (let margin = pad_left 4 (show_int (int i - 2)) @ [SP, SP] in
      if rlhs g ! i = rlhs g ! (i - 1) then margin @ replicate (length (names ! (rlhs g ! i)) + 1) SP @ ''|''
      else (if i = 2 then [] else nl) @ margin @ names ! (rlhs g ! i) @ '' :'')"

lemma print_rule_lines_shows:
  assumes wf: "wf_grammar g" and i: "2 \<le> i" "i \<le> nrules g"
    and sp: "i = 2 \<or> spacing = length (names ! (rlhs g ! (i - 1))) + 1"
  shows "print_rule_lines g names [i..<nrules g] spacing (rrhs g ! i) =
    concat (map (\<lambda>i. rule_head g names i @ shown names (rhs_syms g i) @ nl) [i..<nrules g])"
  using i sp
proof (induction "nrules g - i" arbitrary: i spacing)
  case 0
  then show ?case by simp
next
  case (Suc n)
  then have lt: "i < nrules g" by simp
  note B = rule_block [OF wf _ lt] and I = item_block(1) [OF wf _ lt order.refl]
  have one: "1 \<le> i" using Suc.prems by simp
  have len: "rrhs g ! i + length (takeWhile (\<lambda>x. x \<ge> 0) (drop (rrhs g ! i) (ritem g))) + 1 = rrhs g ! Suc i"
    using I [OF one] B(1) [OF one] by simp
  have new: "rlhs g ! 2 \<noteq> rlhs g ! (2 - 1)"
    using wf_headerD [OF wf] wf_sizesD [OF wf] by simp
  let ?s = "if rlhs g ! i \<noteq> rlhs g ! (i - 1) then length (names ! (rlhs g ! i)) + 1 else spacing"
  have s: "?s = length (names ! (rlhs g ! i)) + 1" using Suc.prems(3) new by auto
  have IH: "print_rule_lines g names [Suc i..<nrules g] ?s (rrhs g ! Suc i) =
      concat (map (\<lambda>i. rule_head g names i @ shown names (rhs_syms g i) @ nl) [Suc i..<nrules g])"
    using Suc.hyps(1) [of "Suc i" ?s] Suc.hyps(2) Suc.prems(1) lt s by simp
  show ?case
    unfolding upt_conv_Cons [OF lt] print_rule_lines.simps Let_def len IH spaced_names_rule [OF wf one lt]
    using s by (cases "rlhs g ! i = rlhs g ! (i - 1)") (simp_all add: rule_head_def Let_def)
qed

section \<open>The empty rules of a state\<close>

lemma insert_null_sorted:
  assumes "sorted_wrt (<) ns"
  shows "sorted_wrt (<) (insert_null i ns)" "set (insert_null i ns) = insert i (set ns)"
proof -
  have "sorted_wrt (<) (insert_null i ns) \<and> set (insert_null i ns) = insert i (set ns)"
    using assms
  proof (induction ns)
    case (Cons n ns)
    show ?case
    proof (cases "n < i")
      case True
      then have step: "insert_null i (n # ns) = n # insert_null i ns" by (simp add: insert_null_def Let_def)
      with Cons True show ?thesis by auto
    qed (use Cons.prems in \<open>auto simp: insert_null_def Let_def\<close>)
  qed (simp add: insert_null_def)
  then show "sorted_wrt (<) (insert_null i ns)" "set (insert_null i ns) = insert i (set ns)" by blast+
qed

definition null_reduction :: "grammar \<Rightarrow> action \<Rightarrow> bool" where
  "null_reduction g p \<longleftrightarrow> act_code p = REDUCE \<and> suppressed p < 2 \<and> rrhs g ! act_number p + 1 = rrhs g ! (act_number p + 1)"

lemma null_rules_exact:
  "sorted_wrt (<) (null_rules g acts)" "set (null_rules g acts) = act_number ` {p \<in> set acts. null_reduction g p}"
proof -
  have c: "collect_null g p ns = (if null_reduction g p then insert_null (act_number p) ns else ns)" for p ns
    by (auto simp: collect_null_def null_reduction_def)
  have "sorted_wrt (<) (fold (collect_null g) acts ns) \<and>
      set (fold (collect_null g) acts ns) = set ns \<union> act_number ` {p \<in> set acts. null_reduction g p}"
    if "sorted_wrt (<) ns" for ns
    using that
  proof (induction acts arbitrary: ns)
    case (Cons p ps)
    have "sorted_wrt (<) (collect_null g p ns)" using insert_null_sorted(1) [OF Cons.prems] Cons.prems by (simp add: c)
    from Cons.IH [OF this] show ?case using insert_null_sorted(2) [OF Cons.prems] by (auto simp: c)
  qed simp
  from this [of "[]"] show "sorted_wrt (<) (null_rules g acts)"
    "set (null_rules g acts) = act_number ` {p \<in> set acts. null_reduction g p}"
    by (simp_all add: null_rules_def)
qed

section \<open>A state is shown as the packed tables have it\<close>

text \<open>Lines for the entries of a list ordered by a key are the lines for a table of the keys.\<close>

lemma lines_by_key:
  fixes key :: "'a \<Rightarrow> nat" and val :: "'a \<Rightarrow> 'b"
  assumes srt: "sorted_wrt (<) (map key xs)" and lt: "\<forall>x \<in> set xs. key x < n"
    and L: "\<And>X v. X < n \<Longrightarrow> L X = Some v \<longleftrightarrow> (\<exists>x \<in> set xs. key x = X \<and> val x = v)"
  shows "concat (map (\<lambda>X. case L X of None \<Rightarrow> [] | Some v \<Rightarrow> line X v) [0..<n]) =
    concat (map (\<lambda>x. line (key x) (val x)) xs)"
proof -
  have "set (filter (\<lambda>X. L X \<noteq> None) [0..<n]) = set (map key xs)"
    using lt L by (fastforce simp: image_iff)
  moreover have "sorted_wrt (<) (filter (\<lambda>X. L X \<noteq> None) [0..<n])" by (simp add: sorted_wrt_filter)
  ultimately have keys: "filter (\<lambda>X. L X \<noteq> None) [0..<n] = map key xs"
    using srt by (intro sorted_distinct_set_unique) (simp_all add: strict_sorted_iff)
  have at: "(case L (key x) of None \<Rightarrow> [] | Some v \<Rightarrow> line (key x) v) = line (key x) (val x)" if "x \<in> set xs" for x
    using L [of "key x" "val x"] lt that by fastforce
  have "concat (map (\<lambda>X. case L X of None \<Rightarrow> [] | Some v \<Rightarrow> line X v) [0..<n]) =
      concat (map (\<lambda>X. case L X of None \<Rightarrow> [] | Some v \<Rightarrow> line X v) (filter (\<lambda>X. L X \<noteq> None) [0..<n]))"
    for n by (induction n) auto
  also have "map (\<lambda>X. case L X of None \<Rightarrow> [] | Some v \<Rightarrow> line X v) (filter (\<lambda>X. L X \<noteq> None) [0..<n]) =
      map (\<lambda>x. line (key x) (val x)) xs"
    unfolding keys using at by (simp add: comp_def cong: map_cong)
  finally show ?thesis .
qed

lemma concat_if_filter: "concat (map (\<lambda>x. if P x then f x else []) xs) = concat (map f (filter P xs))"
  by (induction xs) simp_all

lemma print_shifts_live: "print_shifts names acts = concat (map (\<lambda>p. shift_line names (act_symbol p) (int (act_number p))) (live_shifts acts))"
proof (cases "length (filter (\<lambda>q. suppressed q < 2 \<and> act_code q = SHIFT) acts) > 0")
  case True
  then show ?thesis
    unfolding print_shifts_def concat_if_filter live_shifts_def by (simp add: conj_commute)
next
  case False
  then have "live_shifts acts = []" by (auto simp: live_shifts_def filter_empty_conv)
  with False show ?thesis by (simp add: print_shifts_def)
qed

lemma print_reductions_live:
  assumes "no_reductions acts \<Longrightarrow> d = 0"
  shows "print_reductions names acts d =
    (if no_reductions acts then tab @ ''.  error'' @ nl else []) @
    concat (map (\<lambda>p. reduce_line names (act_symbol p) (int (act_number p) - 2)) (live_reductions d acts)) @
    (if d > 0 then tab @ ''.  reduce '' @ show_int (int d - 2) @ nl else [])"
proof (cases "no_reductions acts")
  case True
  then have "live_reductions d acts = []"
    by (auto simp: no_reductions_def live_reductions_def filter_empty_conv list_ex_iff)
  with True assms show ?thesis by (simp add: print_reductions_def)
next
  case False
  then show ?thesis
    unfolding print_reductions_def concat_if_filter live_reductions_def by (simp add: conj_commute conj_left_commute)
qed

text \<open>The rows are ordered by symbol, so the live shifts and the live reductions are.\<close>

lemma parser_sorted:
  assumes P: "parser_ok g st p" and q: "q < length (cores st)"
  shows "sorted (map act_symbol (parser p ! q))"
proof -
  from P q obtain as where A: "sorted_wrt act_less as" "resolved as (parser p ! q) (SRconflicts p ! q + RRconflicts p ! q)"
    by (auto simp: parser_ok_def row_ok_def)
  note D = resolvedD(1,2) [OF A(2)]
  have "act_symbol (parser p ! q ! i) = act_symbol (as ! i)" if "i < length as" for i
    using D(2) [rule_format, OF that] by auto
  then have "map act_symbol (parser p ! q) = map act_symbol as" using D(1) by (intro nth_equalityI) simp_all
  moreover have "sorted (map act_symbol as)"
    unfolding sorted_map by (rule sorted_wrt_mono_rel [OF _ A(1)]) (auto simp: act_less_def)
  ultimately show ?thesis by simp
qed

lemma live_sorted:
  assumes "wf_grammar g" "automaton g st" "parser_ok g st p" "q < length (cores st)"
  shows "sorted_wrt (<) (map act_symbol (live_shifts (parser p ! q)))"
    "sorted_wrt (<) (map act_symbol (live_reductions (defred p ! q) (parser p ! q)))"
  using parser_sorted [OF assms(3,4)] parser_ok_row_fit [OF assms]
  by (simp_all add: row_fit_def live_shifts_def live_reductions_def strict_sorted_iff sorted_filter)

text \<open>No transition is on \<^verbatim>\<open>$accept\<close>.\<close>

lemma trans_not_start:
  assumes wf: "wf_grammar g" and E: "automaton g st" and T: "lr_trans g st q X s"
  shows "X \<noteq> start_symbol g"
proof
  assume X: "X = start_symbol g"
  let ?I = "core_items (cores st ! q)"
  have I: "kernel_list g ?I" using E transD(1) [OF T] by (simp add: expanded_def pool_def)
  from transD(8) [OF T] obtain i where i: "i \<in> set (closed_items g ?I)" "ritem g ! i = int X"
    by (auto simp: set_goto_symbols goto_kernel_def items_on_def filter_empty_conv)
  then have lt: "i < nitems g" using closed_items_kernel(2) [OF wf I] by (simp add: kernel_list_def)
  obtain r where r: "1 \<le> r" "r < nrules g" "rrhs g ! r \<le> i" "i < rrhs g ! Suc r"
    using item_rule [OF wf lt] by blast
  have ne: "i \<noteq> rrhs g ! Suc r - 1" using i(2) rule_block(3) [OF wf r(1,2)] r(1) by auto
  consider "r = 1" | "r = 2" | "3 \<le> r" using r(1) by linarith
  then show False
  proof cases
    case 1
    then have "i = 0" using r(4) wf_headerD(4) [OF wf] by (simp add: numeral_2_eq_2)
    then show False using wf_headerD(11) [OF wf] i(2) by simp
  next
    case 2
    then have "i = 1 \<or> i = 2 \<or> i = 3" using r(3,4) wf_headerD [OF wf] by (simp add: numeral_3_eq_3 numeral_2_eq_2) linarith
    then show False using wf_headerD [OF wf] wf_sizesD [OF wf] i(2) X by auto
  next
    case 3
    have "i < rrhs g ! Suc r - 1" using r(4) ne by linarith
    then show False using wf_ruleD(6) [OF wf 3 r(2,3)] i(2) X by simp
  qed
qed

text \<open>The lines behind the actions: the nonterminals the state has a transition on.\<close>

definition goto_vars :: "grammar \<Rightarrow> lr0_state \<Rightarrow> nat \<Rightarrow> nat list" where
  "goto_vars g st q =
     filter (\<lambda>a. start_symbol g + 1 + a \<in> set (goto_symbols g (core_items (cores st ! q)))) [0..<nvars g - 1]"

lemma goto_vars_trans:
  assumes "automaton g st" "q < length (cores st)"
  shows "a \<in> set (goto_vars g st q) \<longleftrightarrow> a < nvars g - 1 \<and> (\<exists>s. lr_trans g st q (start_symbol g + 1 + a) s)"
  using trans_exists [OF assms] transD(8) by (fastforce simp: goto_vars_def)

lemma print_gotos_all:
  assumes wf: "wf_grammar g" and E: "automaton g st" and T: "tables_ok g st t" and q: "q < length (cores st)"
    and G: "\<And>a s. a < nvars g - 1 \<Longrightarrow> lr_trans g st q (start_symbol g + 1 + a) s \<Longrightarrow> G a = int s"
  shows "(case shift_table t ! q of None \<Rightarrow> [] | Some sp \<Rightarrow>
      if shift_row sp \<noteq> [] \<and> ISVAR g (int (accessing t ! last (shift_row sp))) then print_gotos g names t sp else []) =
    (if goto_vars g st q = [] then []
     else nl @ concat (map (\<lambda>a. goto_line names (start_symbol g + 1 + a) (G a)) (goto_vars g st q)))"
proof (cases "shift_table t ! q")
  case None
  with shift_table_entry [OF E T q] have "\<forall>X s. \<not> lr_trans g st q X s" by simp
  then have "a \<notin> set (goto_vars g st q)" for a using goto_vars_trans [OF E q, of a] by simp
  then have "goto_vars g st q = []" using list.set_intros(1) by (cases "goto_vars g st q") auto
  with None show ?thesis by simp
next
  case (Some sp)
  let ?acc = "\<lambda>k. accessing t ! k" let ?b = "start_symbol g + 1"
  let ?ks = "filter (\<lambda>k. ISVAR g (int (?acc k))) (shift_row sp)"
  from shift_table_entry [OF E T q] Some
  have S: "sorted_wrt (<) (map ?acc (shift_row sp))"
    "\<And>X. X \<in> set (map ?acc (shift_row sp)) \<longleftrightarrow> (\<exists>s. lr_trans g st q X s)"
    "\<forall>s \<in> set (shift_row sp). lr_trans g st q (?acc s) s" by simp_all
  have var: "?b \<le> ?acc k \<and> ?acc k < nsyms g" if "k \<in> set ?ks" for k
  proof -
    have T: "lr_trans g st q (?acc k) k" using S(3) that by simp
    from trans_not_start [OF wf E T] transD(5) [OF T] that show ?thesis by (auto simp: ISVAR_def)
  qed
  have nv: "nsyms g = start_symbol g + nvars g" using wf_sizesD(4,5) [OF wf] by simp
  have ks: "map (\<lambda>k. ?acc k - ?b) ?ks = goto_vars g st q"
  proof (rule sorted_distinct_set_unique)
    have "sorted_wrt (\<lambda>k l. ?acc k < ?acc l) ?ks" using S(1) by (simp add: sorted_wrt_map sorted_wrt_filter)
    then have "sorted_wrt (\<lambda>k l. ?acc k - ?b < ?acc l - ?b) ?ks"
      by (rule sorted_wrt_mono_rel [rotated]) (use var in \<open>fastforce\<close>)
    then have "sorted_wrt (<) (map (\<lambda>k. ?acc k - ?b) ?ks)" by (simp add: sorted_wrt_map)
    then show "sorted (map (\<lambda>k. ?acc k - ?b) ?ks)" "distinct (map (\<lambda>k. ?acc k - ?b) ?ks)"
      by (simp_all add: strict_sorted_iff)
    show "sorted (goto_vars g st q)" "distinct (goto_vars g st q)" by (simp_all add: goto_vars_def sorted_wrt_filter)
    show "set (map (\<lambda>k. ?acc k - ?b) ?ks) = set (goto_vars g st q)"
    proof (intro set_eqI iffI)
      fix a assume "a \<in> set (map (\<lambda>k. ?acc k - ?b) ?ks)"
      then obtain k where k: "k \<in> set ?ks" "a = ?acc k - ?b" by auto
      with var [OF k(1)] S(3) show "a \<in> set (goto_vars g st q)"
        unfolding goto_vars_trans [OF E q] by (auto simp: nv)
    next
      fix a assume "a \<in> set (goto_vars g st q)"
      then obtain s where s: "lr_trans g st q (?b + a) s" using goto_vars_trans [OF E q] by blast
      with S(2) [of "?b + a"] obtain k where "k \<in> set (shift_row sp)" "?acc k = ?b + a" by auto
      then show "a \<in> set (map (\<lambda>k. ?acc k - ?b) ?ks)" by (force simp: ISVAR_def)
    qed
  qed
  have last: "shift_row sp \<noteq> [] \<and> ISVAR g (int (?acc (last (shift_row sp)))) \<longleftrightarrow> goto_vars g st q \<noteq> []"
  proof
    assume "shift_row sp \<noteq> [] \<and> ISVAR g (int (?acc (last (shift_row sp))))"
    then have "last (shift_row sp) \<in> set ?ks" by simp
    then show "goto_vars g st q \<noteq> []" unfolding ks [symmetric] by force
  next
    assume "goto_vars g st q \<noteq> []"
    then have "?ks \<noteq> []" unfolding ks [symmetric] by simp
    then obtain k where k: "k \<in> set (shift_row sp)" "ISVAR g (int (?acc k))" by (auto simp: filter_empty_conv)
    then obtain l where l: "shift_row sp = l @ [last (shift_row sp)]" by (metis append_butlast_last_id in_set_conv_decomp list.discI append_is_Nil_conv)
    have "?acc k \<le> ?acc (last (shift_row sp))"
      using S(1) k(1) by (subst (asm) (1 2) l) (auto simp: sorted_wrt_append)
    with k show "shift_row sp \<noteq> [] \<and> ISVAR g (int (?acc (last (shift_row sp))))" by (auto simp: ISVAR_def)
  qed
  have line: "goto_line names (?acc k) (int k) = goto_line names (?b + (?acc k - ?b)) (G (?acc k - ?b))" if "k \<in> set ?ks" for k
  proof -
    have "lr_trans g st q (?b + (?acc k - ?b)) k" using S(3) var [OF that] that by simp
    moreover have "?acc k - ?b < nvars g - 1" using var [OF that] unfolding nv by arith
    ultimately have "G (?acc k - ?b) = int k" by (rule G [rotated])
    then show ?thesis using var [OF that] by simp
  qed
  have "print_gotos g names t sp = nl @ concat (map (\<lambda>k. goto_line names (?acc k) (int k)) ?ks)"
    by (simp only: print_gotos_def Let_def concat_if_filter)
  also have "map (\<lambda>k. goto_line names (?acc k) (int k)) ?ks =
      map (\<lambda>a. goto_line names (?b + a) (G a)) (goto_vars g st q)"
    unfolding ks [symmetric] map_map comp_def by (rule map_cong [OF refl]) (rule line)
  finally have pg: "print_gotos g names t sp = nl @ concat (map (\<lambda>a. goto_line names (?b + a) (G a)) (goto_vars g st q))" .
  show ?thesis unfolding Some option.case last pg by simp
qed
text \<open>The kernels are those of the automaton, so the listing is never stopped.\<close>

lemma set_state_table_nth:
  assumes E: "automaton g st" and p: "p < length (cores st)"
  shows "set_state_table (length (cores st)) (cores st) ! p = Some (cores st ! p)"
proof -
  have num: "core_number (cores st ! n) = n" if "n < length (cores st)" for n
    using E that by (simp add: expanded_def pool_def)
  then have m: "map core_number (cores st) = [0..<length (cores st)]"
    by (intro nth_equalityI) simp_all
  have "\<forall>x \<in> set (cores st). core_number x < length (replicate (length (cores st)) (None :: core option))"
    using num by (auto simp: in_set_conv_nth)
  from table_fold [OF this, of Some] m
  have "\<forall>x \<in> set (cores st). set_state_table (length (cores st)) (cores st) ! core_number x = Some x"
    by (simp add: set_state_table_def)
  from bspec [OF this nth_mem [OF p]] num [OF p] show ?thesis by simp
qed

lemma state_table_run:
  assumes "run_ok g R" "q < length (cores (run_automaton R))"
  shows "state_table (run_tables R) ! q = Some (cores (run_automaton R) ! q)"
proof -
  have "automaton g (run_automaton R)" "tables_ok g (run_automaton R) (run_tables R)"
    using assms(1) by (simp_all add: run_ok_def automaton_ok_def lookaheads_ok_def)
  with set_state_table_nth [OF _ assms(2)] show ?thesis by (simp add: tables_ok_def)
qed

lemma verbose_ok:
  assumes R: "run_ok g R"
  shows "\<exists>text. verbose g names R = Inr text"
proof -
  have "\<exists>s. print_one_state g names R q = Inr s" if "q < length (cores (run_automaton R))" for q
    by (simp add: print_one_state_def Let_def state_table_run [OF R that])
  then obtain state_of where one: "\<forall>q < length (cores (run_automaton R)). print_one_state g names R q = Inr (state_of q)"
    by metis
  have "fold_sum (\<lambda>i s. case print_one_state g names R i of Inl e \<Rightarrow> Inl e | Inr s' \<Rightarrow> Inr (s @ s'))
      [0..<length (cores (run_automaton R))] s = Inr (fold (\<lambda>i s. s @ state_of i) [0..<length (cores (run_automaton R))] s)" for s
    by (rule fold_sum_Inr) (simp add: one)
  then show ?thesis by (simp add: verbose_def Let_def)
qed

lemma defred_without_reductions:
  assumes P: "parser_ok g st p" and q: "q < length (cores st)" and no: "no_reductions (parser p ! q)"
  shows "defred p ! q = 0"
proof (rule ccontr)
  assume d: "defred p ! q \<noteq> 0"
  have pos: "\<forall>a \<in> live (parser p ! q). act_code a = REDUCE \<longrightarrow> 0 < act_number a"
    using no by (auto simp: live_def no_reductions_def list_ex_iff)
  have "length (parser p) = length (cores st)" "defred p = map sole_reduction (parser p)"
    using P unfolding parser_ok_def by blast+
  then have "sole_reduction (parser p ! q) = defred p ! q" using q by simp
  from sole_reduction_iff [OF pos _ ] this d obtain a where
    "a \<in> live (parser p ! q)" "act_code a = REDUCE" by blast
  then show False using no by (auto simp: live_def no_reductions_def list_ex_iff)
qed

text \<open>
  The actions of a state as a program would print them that sees nothing but the packed tables, the kernels and whether
  there is a reduction at all.
\<close>

definition actions_from_tables :: "grammar \<Rightarrow> string list \<Rightarrow> run \<Rightarrow> nat \<Rightarrow> string" where
  "actions_from_tables g names R q =
     (let st = run_automaton R; n = length (cores st); p = run_parser R; ps = run_packed R in
      (if q = final_state p then tab @ ''$end  accept'' @ nl else []) @
      concat (map (\<lambda>X. case shift_lookup g ps q X of None \<Rightarrow> [] | Some s \<Rightarrow> shift_line names X s) [0..<ntokens g]) @
      (if parser p ! q \<noteq> [] \<and> no_reductions (parser p ! q) then tab @ ''.  error'' @ nl else []) @
      concat (map (\<lambda>X. case reduce_lookup g ps n q X of None \<Rightarrow> [] | Some k \<Rightarrow> reduce_line names X k) [0..<ntokens g]) @
      (if defred p ! q > 0 then tab @ ''.  reduce '' @ show_int (int (defred p ! q) - 2) @ nl else []) @
      (if goto_vars g st q = [] then []
       else nl @ concat (map (\<lambda>a. goto_line names (start_symbol g + 1 + a) (goto_lookup ps (run_dgoto R) n a q)) (goto_vars g st q))))"

lemma print_actions_tables:
  assumes wf: "wf_grammar g" and V: "values_ok g" and R: "run_ok g R" and q: "q < length (cores (run_automaton R))"
  shows "print_actions g names (run_tables R) (run_parser R) q = actions_from_tables g names R q"
proof -
  let ?st = "run_automaton R" and ?t = "run_tables R" and ?p = "run_parser R" and ?ps = "run_packed R"
  let ?row = "parser ?p ! q" and ?n = "length (cores (run_automaton R))"
  have E: "automaton g ?st" and T: "tables_ok g ?st ?t" and P: "parser_ok g ?st ?p"
    and out: "output_actions g ?t ?n ?p = Inr (run_dgoto R, ?ps)"
    using R by (simp_all add: run_ok_def automaton_ok_def lookaheads_ok_def)
  note L = output_actions_lookup [OF wf V E T P out]
  have fit: "\<forall>a \<in> set ?row. act_symbol a < ntokens g" using parser_ok_row_fit [OF wf E P q] by (simp add: row_fit_def)
  have shifts: "print_shifts names ?row =
      concat (map (\<lambda>X. case shift_lookup g ?ps q X of None \<Rightarrow> [] | Some s \<Rightarrow> shift_line names X s) [0..<ntokens g])"
    unfolding print_shifts_live
  proof (rule lines_by_key [symmetric])
    show "sorted_wrt (<) (map act_symbol (live_shifts ?row))" by (rule live_sorted(1) [OF wf E P q])
    show "\<forall>x \<in> set (live_shifts ?row). act_symbol x < ntokens g" using fit by (simp add: live_shifts_def)
    show "shift_lookup g ?ps q X = Some v \<longleftrightarrow> (\<exists>x \<in> set (live_shifts ?row). act_symbol x = X \<and> int (act_number x) = v)"
      if "X < ntokens g" for X v
      using L(1) [OF q that] by (auto simp: live_def live_shifts_def)
  qed
  have reds: "concat (map (\<lambda>a. reduce_line names (act_symbol a) (int (act_number a) - 2)) (live_reductions (defred ?p ! q) ?row)) =
      concat (map (\<lambda>X. case reduce_lookup g ?ps ?n q X of None \<Rightarrow> [] | Some k \<Rightarrow> reduce_line names X k) [0..<ntokens g])"
  proof (rule lines_by_key [symmetric])
    show "sorted_wrt (<) (map act_symbol (live_reductions (defred ?p ! q) ?row))" by (rule live_sorted(2) [OF wf E P q])
    show "\<forall>x \<in> set (live_reductions (defred ?p ! q) ?row). act_symbol x < ntokens g"
      using fit by (simp add: live_reductions_def)
    show "reduce_lookup g ?ps ?n q X = Some v \<longleftrightarrow>
        (\<exists>x \<in> set (live_reductions (defred ?p ! q) ?row). act_symbol x = X \<and> int (act_number x) - 2 = v)"
      if "X < ntokens g" for X v
      using L(2) [OF q that] by (auto simp: live_def live_reductions_def)
  qed
  have gotos: "(case shift_table ?t ! q of None \<Rightarrow> [] | Some sp \<Rightarrow>
      if shift_row sp \<noteq> [] \<and> ISVAR g (int (accessing ?t ! last (shift_row sp))) then print_gotos g names ?t sp else []) =
    (if goto_vars g ?st q = [] then []
     else nl @ concat (map (\<lambda>a. goto_line names (start_symbol g + 1 + a) (goto_lookup ?ps (run_dgoto R) ?n a q)) (goto_vars g ?st q)))"
    by (rule print_gotos_all [OF wf E T q]) (rule L(3))
  note no = defred_without_reductions [OF P q]
  show ?thesis
  proof (cases "?row = []")
    case True
    then have "no_reductions ?row" by (simp add: no_reductions_def)
    with no have d: "defred ?p ! q = 0" by simp
    have "live_shifts ?row = []" "live_reductions 0 ?row = []" using True by (simp_all add: live_shifts_def live_reductions_def)
    then show ?thesis
      unfolding print_actions_def actions_from_tables_def Let_def gotos shifts [symmetric] reds [symmetric] print_shifts_live
      by (simp add: True d)
  next
    case False
    have "print_reductions names ?row (defred ?p ! q) =
      (if no_reductions ?row then tab @ ''.  error'' @ nl else []) @
      concat (map (\<lambda>a. reduce_line names (act_symbol a) (int (act_number a) - 2)) (live_reductions (defred ?p ! q) ?row)) @
      (if defred ?p ! q > 0 then tab @ ''.  reduce '' @ show_int (int (defred ?p ! q) - 2) @ nl else [])"
      by (rule print_reductions_live) (rule no)
    with False show ?thesis
      unfolding print_actions_def actions_from_tables_def Let_def gotos shifts [symmetric] reds [symmetric] by simp
  qed
qed

text \<open>The array \<^verbatim>\<open>null_rules\<close> has room: its entries are distinct empty rules that are complete in the state.\<close>

lemma null_rules_bound:
  assumes wf: "wf_grammar g" and E: "automaton g st" and P: "parser_ok g st p" and q: "q < length (cores st)"
  shows "set (null_rules g (parser p ! q)) \<subseteq> {r \<in> set (rules_at g st q). rhs_syms g r = []}"
    "length (null_rules g (parser p ! q)) \<le> nrules g"
proof -
  obtain as where as: "set as = row_of g st q"
    "resolved as (parser p ! q) (SRconflicts p ! q + RRconflicts p ! q)" by (rule parser_row [OF P q])
  show sub: "set (null_rules g (parser p ! q)) \<subseteq> {r \<in> set (rules_at g st q). rhs_syms g r = []}"
  proof
    fix r assume "r \<in> set (null_rules g (parser p ! q))"
    then obtain a where a: "a \<in> set (parser p ! q)" "null_reduction g a" "act_number a = r"
      unfolding null_rules_exact(2) by blast
    from resolved_members [OF as(2) a(1)] as(1) obtain b v where b: "b \<in> row_of g st q" "a = b\<lparr>suppressed := v\<rparr>" by blast
    with a(2,3) obtain X where "b = reduce_action g X r" "r \<in> set (rules_at g st q)"
      by (auto simp: row_of_def null_reduction_def shift_action_def reduce_action_def)
    moreover have "rrhs g ! Suc r = Suc (rrhs g ! r)" using a(2,3) by (auto simp: null_reduction_def)
    then have "rhs_syms g r = []" by (simp add: rhs_syms_def)
    ultimately show "r \<in> {r \<in> set (rules_at g st q). rhs_syms g r = []}" by simp
  qed
  have "r < nrules g" if "r \<in> set (rules_at g st q)" for r
    using that rules_at_distinct(2) [OF wf E q] by blast
  then have "set (null_rules g (parser p ! q)) \<subseteq> {..<nrules g}" using sub by blast
  then have "card (set (null_rules g (parser p ! q))) \<le> nrules g"
    by (metis card_lessThan card_mono finite_lessThan)
  moreover have "distinct (null_rules g (parser p ! q))" using null_rules_exact(1) strict_sorted_iff by blast
  ultimately show "length (null_rules g (parser p ! q)) \<le> nrules g" by (simp add: distinct_card)
qed

section \<open>Which conflicts are listed\<close>

text \<open>The first action on a symbol that was not dropped by precedence; it is the one the lines compare with.\<close>

definition kept :: "action \<Rightarrow> bool" where
  "kept a \<longleftrightarrow> suppressed a \<noteq> 2"

definition leader :: "action list \<Rightarrow> nat \<Rightarrow> action" where
  "leader acts X = hd (filter (\<lambda>a. act_symbol a = X \<and> kept a) acts)"

lemma leader_in:
  assumes "a \<in> set pre" "act_symbol a = X" "kept a"
  shows "leader (pre @ post) X = leader pre X" "leader pre X \<in> set pre" "act_symbol (leader pre X) = X" "kept (leader pre X)"
proof -
  have ne: "filter (\<lambda>a. act_symbol a = X \<and> kept a) pre \<noteq> []" using assms by (auto simp: filter_empty_conv)
  then show "leader (pre @ post) X = leader pre X" by (simp add: leader_def)
  from hd_in_set [OF ne] show "leader pre X \<in> set pre" "act_symbol (leader pre X) = X" "kept (leader pre X)"
    by (auto simp: leader_def)
qed

lemma leader_first:
  assumes "\<forall>a \<in> set pre. kept a \<longrightarrow> act_symbol a \<noteq> act_symbol p" "kept p"
  shows "leader (pre @ p # post) (act_symbol p) = p"
proof -
  have "filter (\<lambda>a. act_symbol a = act_symbol p \<and> kept a) pre = []" using assms(1) by (auto simp: filter_empty_conv)
  then show ?thesis using assms(2) by (simp add: leader_def)
qed

text \<open>What the loop knows behind a part of the row.\<close>

definition group_known :: "action list \<Rightarrow> action list \<Rightarrow> int \<Rightarrow> nat \<Rightarrow> action_code \<Rightarrow> bool" where
  "group_known acts pre symbol nr act \<longleftrightarrow>
     (case filter kept pre of
        [] \<Rightarrow> symbol = - 1
      | as \<Rightarrow> let X = act_symbol (last as); l = leader acts X in symbol = int X \<and> nr = act_number l \<and> act = act_code l)"

lemma group_known_snoc:
  "group_known acts (pre @ [p]) symbol nr act \<longleftrightarrow>
    (if kept p then symbol = int (act_symbol p) \<and> nr = act_number (leader acts (act_symbol p)) \<and>
       act = act_code (leader acts (act_symbol p))
     else group_known acts pre symbol nr act)"
  by (cases "filter kept pre") (simp_all add: group_known_def Let_def)

lemma group_known_members:
  assumes K: "group_known acts pre symbol nr act" and srt: "sorted (map act_symbol (pre @ [p]))" and a: "a \<in> set pre" "kept a"
  shows "symbol = int (act_symbol p) \<longleftrightarrow> (\<exists>a \<in> set pre. kept a \<and> act_symbol a = act_symbol p)"
    "symbol = int (act_symbol p) \<Longrightarrow> nr = act_number (leader acts (act_symbol p)) \<and> act = act_code (leader acts (act_symbol p))"
proof -
  have ne: "filter kept pre \<noteq> []" using a by (auto simp: filter_empty_conv)
  let ?l = "last (filter kept pre)"
  have s: "symbol = int (act_symbol ?l)" "nr = act_number (leader acts (act_symbol ?l))"
    "act = act_code (leader acts (act_symbol ?l))"
    using K ne by (auto simp: group_known_def Let_def split: list.splits)
  have l: "?l \<in> set pre" "kept ?l" using last_in_set [OF ne] by auto
  have top: "act_symbol b \<le> act_symbol ?l" if "b \<in> set pre" "kept b" for b
  proof -
    obtain bs where bs: "filter kept pre = bs @ [?l]" using ne by (metis append_butlast_last_id)
    have "sorted (map act_symbol (filter kept pre))" using srt by (simp add: sorted_append sorted_filter)
    then have "sorted (map act_symbol (bs @ [?l]))" by (simp only: bs [symmetric])
    moreover have "b \<in> set (bs @ [?l])" unfolding bs [symmetric] using that by simp
    ultimately show ?thesis unfolding map_append sorted_append by auto
  qed
  have le: "act_symbol b \<le> act_symbol p" if "b \<in> set pre" for b using srt that by (simp add: sorted_append)
  show "symbol = int (act_symbol p) \<longleftrightarrow> (\<exists>a \<in> set pre. kept a \<and> act_symbol a = act_symbol p)"
    using s(1) l top le [OF l(1)] by (metis le_antisym of_nat_eq_iff)
  show "symbol = int (act_symbol p) \<Longrightarrow> nr = act_number (leader acts (act_symbol p)) \<and> act = act_code (leader acts (act_symbol p))"
    using s by simp
qed

definition leader_line :: "string list \<Rightarrow> nat \<Rightarrow> nat \<Rightarrow> action list \<Rightarrow> action \<Rightarrow> string" where
  "leader_line names fin state acts p =
     (let l = leader acts (act_symbol p) in conflict_line names fin state (int (act_symbol p)) (act_number l) (act_code l) p)"

definition listed :: "action list \<Rightarrow> action \<Rightarrow> bool" where
  "listed acts p \<longleftrightarrow> suppressed p = 1 \<and> p \<noteq> leader acts (act_symbol p)"

lemma conflict_lines_listed:
  assumes "sorted (map act_symbol (pre @ post))" "distinct (pre @ post)" "group_known (pre @ post) pre symbol nr act"
  shows "conflict_lines names fin state symbol nr act post =
    map (leader_line names fin state (pre @ post)) (filter (listed (pre @ post)) post)"
  using assms
proof (induction post arbitrary: pre symbol nr act)
  case (Cons p post)
  let ?acts = "pre @ p # post"
  have srt: "sorted (map act_symbol (pre @ [p]))" using Cons.prems(1) by (auto simp: sorted_append)
  have IH: "group_known ?acts (pre @ [p]) symbol' nr' act' \<Longrightarrow>
      conflict_lines names fin state symbol' nr' act' post =
      map (leader_line names fin state ?acts) (filter (listed ?acts) post)" for symbol' nr' act'
    using Cons.IH [of "pre @ [p]" symbol' nr' act'] Cons.prems(1,2) by simp
  have code: "(if act_code p = SHIFT then SHIFT else REDUCE) = act_code p" by (cases "act_code p") simp_all
  note known = group_known_members [OF Cons.prems(3) srt]
  have new: "(\<forall>a \<in> set pre. kept a \<longrightarrow> act_symbol a \<noteq> act_symbol p) \<longleftrightarrow> int (act_symbol p) \<noteq> symbol"
  proof (cases "\<exists>a \<in> set pre. kept a")
    case True
    then show ?thesis using known(1) by (metis)
  next
    case False
    then have "filter kept pre = []" by (auto simp: filter_empty_conv)
    then have "symbol = - 1" using Cons.prems(3) by (simp add: group_known_def)
    with False show ?thesis by simp
  qed
  show ?case
  proof (cases "suppressed p = 2")
    case True
    then have "\<not> kept p" "\<not> listed ?acts p" by (simp_all add: kept_def listed_def)
    with True IH [of symbol nr act] Cons.prems(3) show ?thesis by (simp add: group_known_snoc)
  next
    case k: False
    then have kp: "kept p" by (simp add: kept_def)
    show ?thesis
    proof (cases "int (act_symbol p) = symbol")
      case False
      then have l: "leader ?acts (act_symbol p) = p" using leader_first [OF _ kp] new by blast
      then have "\<not> listed ?acts p" by (simp add: listed_def)
      moreover have "group_known ?acts (pre @ [p]) (int (act_symbol p)) (act_number p) (act_code p)"
        using kp l by (simp add: group_known_snoc)
      ultimately show ?thesis using False k IH by (simp add: code)
    next
      case True
      then obtain a where a: "a \<in> set pre" "kept a" "act_symbol a = act_symbol p" using new by blast
      note info = known(2) [OF a(1,2) True [symmetric]]
      have "leader ?acts (act_symbol p) \<in> set pre" using leader_in [OF a(1,3,2)] by simp
      then have "leader ?acts (act_symbol p) \<noteq> p" using Cons.prems(2) by auto
      then have li: "listed ?acts p \<longleftrightarrow> suppressed p = 1" by (auto simp: listed_def)
      have "group_known ?acts (pre @ [p]) symbol nr act" using kp info True by (simp add: group_known_snoc)
      from IH [OF this] True k li info show ?thesis by (simp add: leader_line_def Let_def)
    qed
  qed
qed simp

text \<open>Every counted conflict is listed, or its action leads the actions on its symbol.\<close>

lemma conflict_lines_of_row:
  assumes srt: "sorted_wrt act_less as" and R: "resolved as acts c"
  shows "conflict_lines names fin state (- 1) 0 REDUCE acts = map (leader_line names fin state acts) (filter (listed acts) acts)"
    "length (filter (listed acts) acts) +
       length (filter (\<lambda>a. suppressed a = 1 \<and> a = leader acts (act_symbol a)) acts) = c"
    "a \<in> set acts \<Longrightarrow> suppressed a = 0 \<Longrightarrow> suppressed (leader acts (act_symbol a)) = 0 \<Longrightarrow> leader acts (act_symbol a) = a"
proof -
  note D = resolvedD [OF R]
  have same: "act_symbol (acts ! i) = act_symbol (as ! i)" "act_number (acts ! i) = act_number (as ! i)"
    "act_code (acts ! i) = act_code (as ! i)" if "i < length as" for i
    using D(2) [rule_format, OF that] by auto
  have less: "act_less (acts ! i) (acts ! j)" if "i < j" "j < length acts" for i j
    using sorted_wrt_nth_less [OF srt, of i j] that D(1) same [of i] same [of j] by (simp add: act_less_def)
  have "sorted (map act_symbol acts)"
  proof (subst sorted_iff_nth_mono_less, intro allI impI)
    fix i j assume "i < j" "j < length (map act_symbol acts)"
    with less [of i j] show "map act_symbol acts ! i \<le> map act_symbol acts ! j" by (auto simp: act_less_def)
  qed
  moreover have dist: "distinct acts"
  proof (unfold distinct_conv_nth, intro allI impI)
    fix i j assume "i < length acts" "j < length acts" "i \<noteq> j"
    then show "acts ! i \<noteq> acts ! j" using less [of i j] less [of j i] by (cases "i < j") (auto simp: act_less_def)
  qed
  ultimately show "conflict_lines names fin state (- 1) 0 REDUCE acts = map (leader_line names fin state acts) (filter (listed acts) acts)"
    using conflict_lines_listed [of "[]" acts "- 1" 0 REDUCE names fin state] by (simp add: group_known_def)
  have "c = length (filter (\<lambda>a. suppressed a = 1) acts)"
    using R unfolding resolved_def length_filter_conv_card by simp
  also have "\<dots> = length (filter (listed acts) acts) +
      length (filter (\<lambda>a. suppressed a = 1 \<and> a = leader acts (act_symbol a)) acts)"
  proof -
    have "length (filter (\<lambda>a. suppressed a = 1) xs) = length (filter (listed acts) xs) +
        length (filter (\<lambda>a. suppressed a = 1 \<and> a = leader acts (act_symbol a)) xs)" for xs
      by (induction xs) (auto simp: listed_def)
    then show ?thesis .
  qed
  finally show "length (filter (listed acts) acts) +
      length (filter (\<lambda>a. suppressed a = 1 \<and> a = leader acts (act_symbol a)) acts) = c" by simp
  assume a: "a \<in> set acts" "suppressed a = 0" and l: "suppressed (leader acts (act_symbol a)) = 0"
  have k: "kept a" using a(2) by (simp add: kept_def)
  note L = leader_in [OF a(1) refl k]
  obtain i where i: "i < length acts" "acts ! i = a" using a(1) by (auto simp: in_set_conv_nth)
  obtain j where j: "j < length acts" "acts ! j = leader acts (act_symbol a)" using L(2) by (auto simp: in_set_conv_nth)
  have lt: "i < length as" "j < length as" using i(1) j(1) D(1) by simp_all
  have "act_symbol (as ! i) = act_symbol (as ! j)"
    using same(1) [OF lt(1)] same(1) [OF lt(2)] L(3) unfolding i(2) j(2) by simp
  with D(3) [rule_format, OF lt] a(2) l have "i = j" unfolding i(2) j(2) by blast
  with i j show "leader acts (act_symbol a) = a" by simp
qed

section \<open>Properties\<close>

text \<open>
  The rules and the items in the listing are those of the grammar: \<^verbatim>\<open>print_grammar\<close> shows every rule
  with its whole right side and its number, and an item stands in exactly one rule, whose symbols \<^verbatim>\<open>print_core\<close> shows
  before and behind the dot.
\<close>

theorem rules_and_items_shown:
  assumes wf: "wf_grammar g"
  shows "print_grammar g names = concat (map (\<lambda>r. rule_head g names r @ shown names (rhs_syms g r) @ nl) [2..<nrules g]) \<and>
    (\<forall>i < nitems g. \<exists>!r. 1 \<le> r \<and> r < nrules g \<and> rrhs g ! r \<le> i \<and> i < rrhs g ! Suc r \<and>
       print_item g names i =
         tab @ names ! (rlhs g ! r) @ '' : '' @ concat (map (\<lambda>X. names ! X @ [SP]) (take (i - rrhs g ! r) (rhs_syms g r))) @
         ''.'' @ shown names (drop (i - rrhs g ! r) (rhs_syms g r)) @ ''  ('' @ show_int (int r - 2) @ '')'' @ nl)"
proof (intro conjI allI impI)
  have "2 \<le> nrules g" using wf_sizesD [OF wf] by simp
  from print_rule_lines_shows [OF wf order.refl this, of 0 names] wf_headerD(4) [OF wf]
  show "print_grammar g names = concat (map (\<lambda>r. rule_head g names r @ shown names (rhs_syms g r) @ nl) [2..<nrules g])"
    by (simp add: print_grammar_def)
next
  fix i assume "i < nitems g"
  from item_rule [OF wf this] obtain r where r: "1 \<le> r" "r < nrules g" "rrhs g ! r \<le> i" "i < rrhs g ! Suc r" by blast
  show "\<exists>!r. 1 \<le> r \<and> r < nrules g \<and> rrhs g ! r \<le> i \<and> i < rrhs g ! Suc r \<and>
       print_item g names i =
         tab @ names ! (rlhs g ! r) @ '' : '' @ concat (map (\<lambda>X. names ! X @ [SP]) (take (i - rrhs g ! r) (rhs_syms g r))) @
         ''.'' @ shown names (drop (i - rrhs g ! r) (rhs_syms g r)) @ ''  ('' @ show_int (int r - 2) @ '')'' @ nl"
  proof (rule ex1I [of _ r], intro conjI)
    fix r' assume r': "1 \<le> r' \<and> r' < nrules g \<and> rrhs g ! r' \<le> i \<and> i < rrhs g ! Suc r' \<and>
       print_item g names i =
         tab @ names ! (rlhs g ! r') @ '' : '' @ concat (map (\<lambda>X. names ! X @ [SP]) (take (i - rrhs g ! r') (rhs_syms g r'))) @
         ''.'' @ shown names (drop (i - rrhs g ! r') (rhs_syms g r')) @ ''  ('' @ show_int (int r' - 2) @ '')'' @ nl"
    then have "1 \<le> r'" "r' < nrules g" "rrhs g ! r' \<le> i" "i < rrhs g ! Suc r'" by blast+
    then show "r' = r" using item_block(2) [OF wf _ _ _, of r' i] item_block(2) [OF wf r] by simp
  qed (fact r print_item_shows [OF wf r])+
qed

definition sample_names :: "string list" where
  "sample_names = [''$end'', ''error'', ''a'', ''$accept'', ''s'']"

theorem rules_and_items_shown_witness:
  "print_grammar sample_grammar sample_names =
    concat (map (\<lambda>r. rule_head sample_grammar sample_names r @ shown sample_names (rhs_syms sample_grammar r) @ nl) [2..<5])"
  using conjunct1 [OF rules_and_items_shown [OF sample_wf, of sample_names]] by (simp add: sample_grammar_def)

text \<open>
  C31: A counted conflict gets one line of \<^verbatim>\<open>print_conflicts\<close>, which sets the dropped action against the first
  action on the symbol that precedence has not removed; if that one is live, it is the action the parser takes.
  What is left out are the conflicts whose dropped action is itself the first one, so lines and omissions add up to the
  two counters.
\<close>

theorem conflicts_listed:
  assumes srt: "sorted_wrt act_less as" and zero: "\<forall>a \<in> set as. suppressed a = 0"
    and p: "parser p ! q = row_actions (remove_row (q = final_state p) as)"
  shows "print_conflicts names p q = map (leader_line names (final_state p) q (parser p ! q)) (filter (listed (parser p ! q)) (parser p ! q)) \<and>
    length (print_conflicts names p q) +
      length (filter (\<lambda>a. suppressed a = 1 \<and> a = leader (parser p ! q) (act_symbol a)) (parser p ! q)) =
      SRcount (remove_row (q = final_state p) as) + RRcount (remove_row (q = final_state p) as) \<and>
    (\<forall>a \<in> set (parser p ! q). suppressed a = 0 \<longrightarrow> suppressed (leader (parser p ! q) (act_symbol a)) = 0 \<longrightarrow>
       leader (parser p ! q) (act_symbol a) = a)"
proof -
  have R: "resolved as (parser p ! q)
      (SRcount (remove_row (q = final_state p) as) + RRcount (remove_row (q = final_state p) as))"
    unfolding p by (rule remove_row_resolved [OF srt zero])
  note C = conflict_lines_of_row [OF srt R]
  have lines: "print_conflicts names p q =
      map (leader_line names (final_state p) q (parser p ! q)) (filter (listed (parser p ! q)) (parser p ! q))"
    unfolding print_conflicts_def by (rule C(1))
  show ?thesis
    by (intro conjI ballI impI) (simp only: lines, simp only: lines length_map C(2), erule (2) C(3))
qed

definition clash_parser :: "action list \<Rightarrow> parser_tables" where
  "clash_parser acts =
     \<lparr>parser = [row_actions (remove_row False acts)], final_state = 1, SRconflicts = [], RRconflicts = [], SRtotal = 0,
      RRtotal = 0, rules_used = [], nunused = 0, defred = []\<rparr>"

theorem conflicts_listed_witness:
  "length (print_conflicts sample_names (clash_parser clash_row) 0) +
     length (filter (\<lambda>a. suppressed a = 1 \<and> a = leader (parser (clash_parser clash_row) ! 0) (act_symbol a))
       (parser (clash_parser clash_row) ! 0)) =
     SRcount (remove_row False clash_row) + RRcount (remove_row False clash_row) \<and>
   print_conflicts sample_names (clash_parser clash_row) 0 =
     [''0: shift/reduce conflict (shift 5, reduce 1) on a'' @ nl]"
proof -
  have h: "sorted_wrt act_less clash_row" "\<forall>a \<in> set clash_row. suppressed a = 0"
    by (simp_all add: clash_row_def act_less_def)
  have p: "parser (clash_parser clash_row) ! 0 =
      row_actions (remove_row (0 = final_state (clash_parser clash_row)) clash_row)"
    by (simp add: clash_parser_def)
  have "print_conflicts sample_names (clash_parser clash_row) 0 = [''0: shift/reduce conflict (shift 5, reduce 1) on a'' @ nl]"
    by code_simp
  with conjunct1 [OF conjunct2 [OF conflicts_listed [OF h p, of sample_names]]] show ?thesis
    by (simp add: clash_parser_def)
qed

text \<open>
  Conflicts are lost: a shift of precedence 1, a reduction without precedence and a reduction of precedence 2 on one symbol.
  The first two are counted as a conflict; then the shift is removed, and nothing is listed.
\<close>

definition lost_row :: "action list" where
  "lost_row =
     [\<lparr>act_symbol = 2, act_number = 5, act_prec = 1, act_code = SHIFT, act_assoc = LEFT, suppressed = 0\<rparr>,
      \<lparr>act_symbol = 2, act_number = 3, act_prec = 0, act_code = REDUCE, act_assoc = 0, suppressed = 0\<rparr>,
      \<lparr>act_symbol = 2, act_number = 4, act_prec = 2, act_code = REDUCE, act_assoc = LEFT, suppressed = 0\<rparr>]"

theorem conflict_not_listed:
  "sorted_wrt act_less lost_row \<and> SRcount (remove_row False lost_row) = 1 \<and>
   print_conflicts sample_names (clash_parser lost_row) 0 = []"
  by code_simp

text \<open>
  C8: The listing is written without an access outside the tables, and for every state it gives the actions
  that the packed tables hold, no more and no fewer, in the order of the symbols, with the default reduction and
  the gotos; the empty rules it shows are complete rules of the state and fit into their array.
\<close>

theorem listing_matches_tables:
  assumes wf: "wf_grammar g" and V: "values_ok g"
  shows "(\<exists>e \<in> jay_limits. compile_tables g = Some (Inl e)) \<or>
    (\<exists>R. compile_tables g = Some (Inr R) \<and> (\<exists>text. verbose g names R = Inr text) \<and>
      (\<forall>q < length (cores (run_automaton R)).
         print_one_state g names R q = Inr
           ((if q \<noteq> 0 then nl @ nl else []) @
            (if SRconflicts (run_parser R) ! q \<noteq> 0 \<or> RRconflicts (run_parser R) ! q \<noteq> 0
             then concat (print_conflicts names (run_parser R) q) else []) @
            ''state '' @ show_int (int q) @ nl @ print_core g names (cores (run_automaton R) ! q) @
            print_nulls g names (parser (run_parser R) ! q) @ actions_from_tables g names R q) \<and>
         set (null_rules g (parser (run_parser R) ! q)) \<subseteq> {r \<in> set (rules_at g (run_automaton R) q). rhs_syms g r = []} \<and>
         length (null_rules g (parser (run_parser R) ! q)) \<le> nrules g))"
proof -
  from compile_tables_correct [OF assms] consider "\<exists>e \<in> jay_limits. compile_tables g = Some (Inl e)"
    | R where "compile_tables g = Some (Inr R)" "run_ok g R" by blast
  then show ?thesis
  proof cases
    case (2 R)
    let ?st = "run_automaton R" and ?p = "run_parser R"
    have E: "automaton g ?st" and P: "parser_ok g ?st ?p"
      using 2(2) unfolding run_ok_def automaton_ok_def by blast+
    have one: "print_one_state g names R q = Inr
           ((if q \<noteq> 0 then nl @ nl else []) @
            (if SRconflicts ?p ! q \<noteq> 0 \<or> RRconflicts ?p ! q \<noteq> 0 then concat (print_conflicts names ?p q) else []) @
            ''state '' @ show_int (int q) @ nl @ print_core g names (cores ?st ! q) @
            print_nulls g names (parser ?p ! q) @ actions_from_tables g names R q)" if q: "q < length (cores ?st)" for q
      unfolding print_one_state_def Let_def state_table_run [OF 2(2) q] option.case
        print_actions_tables [OF wf V 2(2) q] by (rule refl)
    with 2(1) verbose_ok [OF 2(2)] null_rules_bound [OF wf E P] show ?thesis by blast
  qed blast
qed

theorem listing_matches_tables_witness:
  "(\<exists>e \<in> jay_limits. compile_tables sample_grammar = Some (Inl e)) \<or>
    (\<exists>R. compile_tables sample_grammar = Some (Inr R) \<and> (\<exists>text. verbose sample_grammar sample_names R = Inr text))"
  using listing_matches_tables [OF sample_wf sample_values, of sample_names] by blast
end
