(* ===== verification/Messages.thy ===== *)
theory Messages
  imports Listing
begin

text \<open>
  \<^verbatim>\<open>jay/error.c\<close>: the messages on \<^verbatim>\<open>stderr\<close>.  The reader's model ends with a \<open>reader_error\<close> and
  collects \<open>warning\<close>s; here they become the text the procedures print and the status \<^verbatim>\<open>done\<close> is called with.  With the
  messages of \<^verbatim>\<open>unused_rules\<close> and \<^verbatim>\<open>total_conflicts\<close> in \<^verbatim>\<open>jay/mkpar.c\<close> this is all a run without an error says.
  \<open>jay_main\<close> is the whole program: what it writes to \<^verbatim>\<open>stdout\<close>, to \<^verbatim>\<open>stderr\<close> and into the listing.
  The theorems show that the caret of \<^verbatim>\<open>print_pos\<close> stands where the reader is, and that a run that stops says why.
\<close>

section \<open>Positions\<close>

definition visible :: "char \<Rightarrow> char" where
  "visible c = (if isprint c \<or> c = HT then c else CHR ''?'')"

definition print_pos :: "srcpos \<Rightarrow> string" where
  "print_pos d = (case pos_line d of
     None \<Rightarrow> []
   | Some st_line \<Rightarrow>
       map visible (takeWhile (\<lambda>c. c \<noteq> NEWLINE) st_line) @ nl @
       map (\<lambda>c. if c = HT then HT else SP) (take (pos_col d) st_line) @ ''^'' @ nl)"

section \<open>Messages\<close>



































section \<open>The whole program\<close>






section \<open>The caret\<close>

text \<open>The column of a text on a terminal with tabs every \<open>n\<close> places.\<close>

definition columns :: "nat \<Rightarrow> string \<Rightarrow> nat" where
  "columns n s = fold (\<lambda>c k. if c = HT then (k div n + 1) * n else k + 1) s 0"

lemma visible_HT [simp]: "visible c = HT \<longleftrightarrow> c = HT"
  by (auto simp: visible_def HT_def)

lemma visible_shown [simp]: "c \<noteq> HT \<Longrightarrow> isprint (visible c)"
  by (auto simp: visible_def isprint_def)

lemma SP_not_HT [simp]: "SP \<noteq> HT"
  by (simp add: SP_def HT_def)

lemma columns_visible: "columns n (map visible s) = columns n (map (\<lambda>c. if c = HT then HT else SP) s)"
proof -
  have "fold f (map visible s) k = fold f (map (\<lambda>c. if c = HT then HT else SP) s) k"
    if "\<And>c d. (c = HT \<longleftrightarrow> d = HT) \<Longrightarrow> f c = f d" for f :: "char \<Rightarrow> nat \<Rightarrow> nat" and k
  proof (induction s arbitrary: k)
    case (Cons c s)
    have "f (visible c) = f (if c = HT then HT else SP)" by (rule that) simp
    with Cons show ?case by simp
  qed simp
  then show ?thesis by (auto simp: columns_def)
qed

lemma takeWhile_line: "line_ok l \<Longrightarrow> takeWhile (\<lambda>c. c \<noteq> NEWLINE) l = butlast l"
  by (induction l) (auto simp: line_ok_Cons)

section \<open>Properties\<close>

text \<open>
  The position the reader saves is shown by two lines: the current line of the grammar in visible characters, and
  a caret.  However wide the tabs are, the caret stands in the column of the first character that is not yet read.
\<close>

theorem caret_at_position:
  assumes s: "ready s"
  shows "\<exists>seen rest blanks. print_pos (pos_at (sc_cptr s) s) = seen @ rest @ nl @ blanks @ ''^'' @ nl \<and>
    columns n blanks = columns n seen \<and> rest = map visible (butlast (sc_cptr s)) \<and>
    (\<forall>c \<in> set (seen @ rest). isprint c \<or> c = HT) \<and> set blanks \<subseteq> {SP, HT}"
proof -
  obtain l where l: "sc_line s = Some l" "line_ok l" "sc_cptr s \<noteq> []" "suffix (sc_cptr s) l"
    using s by (auto simp: ready_def scan_ok_def)
  obtain p where p: "l = p @ sc_cptr s" using l(4) by (auto simp: suffix_def)
  have col: "pos_at (sc_cptr s) s = \<lparr>pos_lineno = sc_lineno s, pos_line = Some l, pos_col = length p\<rparr>"
    by (simp add: pos_at_def l(1) p)
  let ?b = "map (\<lambda>c. if c = HT then HT else SP) p"
  have "takeWhile (\<lambda>c. c \<noteq> NEWLINE) l = p @ butlast (sc_cptr s)"
    unfolding takeWhile_line [OF l(2)] using l(3) by (simp add: p butlast_append)
  then have pr: "print_pos (pos_at (sc_cptr s) s) = map visible p @ map visible (butlast (sc_cptr s)) @ nl @ ?b @ ''^'' @ nl"
    by (simp add: print_pos_def col p)
  show ?thesis
    by (intro exI conjI, rule pr) (use columns_visible in auto)
qed

definition caret_scanner :: scanner where
  "caret_scanner = (get_line (open_input (HT # ''a!b'')))\<lparr>sc_cptr := ''b'' @ nl\<rparr>"

theorem caret_at_position_witness:
  "print_pos (pos_at (sc_cptr caret_scanner) caret_scanner) = HT # ''a!b'' @ nl @ HT # ''  ^'' @ nl \<and>
   (\<exists>seen rest blanks. print_pos (pos_at (sc_cptr caret_scanner) caret_scanner) = seen @ rest @ nl @ blanks @ ''^'' @ nl \<and>
      columns 8 blanks = columns 8 seen \<and> rest = ''b'')"
proof -
  have p: "print_pos (pos_at (sc_cptr caret_scanner) caret_scanner) = HT # ''a!b'' @ nl @ HT # ''  ^'' @ nl"
    by code_simp
  have r: "ready caret_scanner" by code_simp
  have b: "map visible (butlast (sc_cptr caret_scanner)) = ''b''" by code_simp
  from caret_at_position [OF r, of 8] p show ?thesis unfolding b by blast
qed






end
