(* ===== verification/Parser.thy ===== *)
theory Parser
  imports Output_Read "HOL-Library.Monad_Syntax"
begin

text \<open>
  The parser that jay writes: \<^verbatim>\<open>yyparse2\<close> of \<^verbatim>\<open>skeleton-l\<close>, which is copied into the output, run on the
  arrays that \<^verbatim>\<open>jay/output.c\<close> prints beside it.  The stacks \<^verbatim>\<open>yyStates\<close> and \<^verbatim>\<open>yyVals\<close> up to \<^verbatim>\<open>yyTop\<close> are
  one list of pairs, the top first.  The actions of the grammar and the value null are parameters; so is
  the input, the list of what \<^verbatim>\<open>nextToken\<close>, \<^verbatim>\<open>getCurrentToken\<close> and \<^verbatim>\<open>getValue\<close> of the lexer return one after
  the other.  An array access out of range is an exception of L, here \<open>None\<close>.  The line numbers
  (\<^verbatim>\<open>first_line\<close>) and the texts of the messages are left out; \<open>reports\<close> counts the calls of \<^verbatim>\<open>yyerror\<close>,
  and a return or an exception of this kind carries the count.
\<close>

section \<open>The arrays and the state of the parser\<close>

record arrays =
  yyLhs :: "int list"
  yyLen :: "int list"
  yyDefRed :: "int list"
  yyDgoto :: "int list"
  yySindex :: "int list"
  yyRindex :: "int list"
  yyGindex :: "int list"
  yyTable :: "int list"
  yyCheck :: "int list"
  yyFinal :: int
  yyErrorCode :: int

record 'v config =
  stack :: "(int \<times> 'v) list"
  yyState :: int
  yyVal :: 'v
  yyToken :: int
  yyErrorFlag :: int
  lexval :: 'v
  input :: "(int \<times> 'v) list"
  reports :: nat

datatype 'v outcome =
    Return 'v nat
  | Stack_full
  | Irrecoverable
  | Irrecoverable_at_end
  | Bad_index nat

text \<open>Where an iteration goes on: \<^verbatim>\<open>continue yyLoop\<close>, \<^verbatim>\<open>continue yyDiscarded\<close>, or it leaves the method.\<close>

datatype 'v flow = Loop "'v config" | Discarded "'v config" | Stop "'v outcome"

definition cell :: "'a list \<Rightarrow> int \<Rightarrow> 'a option" where
  "cell xs i = (if 0 \<le> i \<and> i < int (length xs) then Some (xs ! nat i) else None)"

section \<open>The parser\<close>

text \<open>
  The look-up that the method makes in four places with an element \<open>b\<close> of \<^verbatim>\<open>yySindex\<close>, \<^verbatim>\<open>yyRindex\<close> or \<^verbatim>\<open>yyGindex\<close>
  and a token or a state \<open>key\<close>: \<^verbatim>\<open>yyN != 0\<close>, then \<^verbatim>\<open>yyN = yyN + key\<close>, then
  \<^verbatim>\<open>yyN >= 0 && yyN < yyTable.length && yyCheck[yyN] == key\<close>, then \<^verbatim>\<open>yyTable[yyN]\<close>.
\<close>

definition look :: "arrays \<Rightarrow> int \<Rightarrow> int \<Rightarrow> int option option" where
  "look tb b key =
     (if b \<noteq> 0 \<and> 0 \<le> b + key \<and> b + key < int (length (yyTable tb)) then do {
        c \<leftarrow> cell (yyCheck tb) (b + key);
        if c = key then do { w \<leftarrow> cell (yyTable tb) (b + key); Some (Some w) } else Some None
      }
      else Some None)"

text \<open>Reading a token where \<^verbatim>\<open>yyToken < 0\<close>.\<close>

definition read_token :: "'v config \<Rightarrow> 'v config" where
  "read_token c =
     (if yyToken c < 0 then
        (case input c of
           [] \<Rightarrow> c\<lparr>yyToken := 0\<rparr>
         | (t, v) # ts \<Rightarrow> c\<lparr>yyToken := t, lexval := v, input := ts\<rparr>)
      else c)"

text \<open>
  The code behind the decision to reduce by rule \<^verbatim>\<open>yyN\<close>: \<^verbatim>\<open>yyVal = yyDefault(yyVals[yyV])\<close>, the action, and the
  goto.  \<^verbatim>\<open>act n vs v\<close> is the value that the action of rule \<open>n\<close> leaves in \<^verbatim>\<open>yyVal\<close> when the values of the right-hand
  side are \<open>vs\<close> and \<^verbatim>\<open>yyVal\<close> holds \<open>v\<close>.
\<close>

definition reduce_by :: "arrays \<Rightarrow> (int \<Rightarrow> 'v list \<Rightarrow> 'v \<Rightarrow> 'v) \<Rightarrow> 'v \<Rightarrow> 'v config \<Rightarrow> int \<Rightarrow> 'v flow option" where
  "reduce_by tb act null c n = do {
     len \<leftarrow> cell (yyLen tb) n;
     let top = int (length (stack c)) - 1;
     let v = top + 1 - len;
     first \<leftarrow> (if v > top then Some null else cell (map snd (rev (stack c))) v);
     let val = act n (map snd (rev (take (nat len) (stack c)))) first;
     state \<leftarrow> cell (map fst (rev (stack c))) (top - len);
     m \<leftarrow> cell (yyLhs tb) n;
     let c = c\<lparr>stack := drop (nat len) (stack c), yyVal := val\<rparr>;
     if state = 0 \<and> m = 0 then
       (let c = read_token (c\<lparr>yyState := yyFinal tb\<rparr>)
        in Some (if yyToken c = 0 then Stop (Return (yyVal c) (reports c)) else Loop c))
     else do {
       n \<leftarrow> cell (yyGindex tb) m;
       found \<leftarrow> look tb n state;
       s \<leftarrow> (case found of Some s \<Rightarrow> Some s | None \<Rightarrow> cell (yyDgoto tb) m);
       Some (Loop (c\<lparr>yyState := s\<rparr>))
     }
   }"

text \<open>The search down the stack for a state that shifts the token \<^verbatim>\<open>error\<close>.\<close>

fun recover :: "arrays \<Rightarrow> (int \<times> 'v) list \<Rightarrow> (int \<times> (int \<times> 'v) list) option option" where
  "recover tb [] = Some None"
| "recover tb ((s, v) # st) = do {
     n \<leftarrow> cell (yySindex tb) s;
     found \<leftarrow> look tb n (yyErrorCode tb);
     (case found of Some s' \<Rightarrow> Some (Some (s', (s, v) # st)) | None \<Rightarrow> recover tb st)
   }"

text \<open>
  What an iteration of \<^verbatim>\<open>yyDiscarded\<close> decides on: a shift to a state, a reduction by a rule, or what the code does
  for a \<^verbatim>\<open>yyErrorFlag\<close> other than 0; the number is the last one that \<^verbatim>\<open>yyN\<close> holds.
\<close>

datatype move = To_shift int | To_reduce int | To_recover int

text \<open>
  The decision, up to the call of \<^verbatim>\<open>yyerror\<close> on a token that can neither be shifted nor reduced on; the code
  falls through from that call to the reduction, with whatever \<^verbatim>\<open>yyN\<close> holds.
\<close>

definition decide :: "arrays \<Rightarrow> 'v config \<Rightarrow> ('v config \<times> move) option" where
  "decide tb c = do {
     n \<leftarrow> cell (yyDefRed tb) (yyState c);
     if n \<noteq> 0 then Some (c, To_reduce n)
     else do {
       let c = read_token c;
       n \<leftarrow> cell (yySindex tb) (yyState c);
       shift \<leftarrow> look tb n (yyToken c);
       (case shift of
          Some s \<Rightarrow> Some (c, To_shift s)
        | None \<Rightarrow> do {
            n \<leftarrow> cell (yyRindex tb) (yyState c);
            if n = 0 then Some (c, To_reduce n)
            else do {
              rule \<leftarrow> look tb n (yyToken c);
              (case rule of
                 Some r \<Rightarrow> Some (c, To_reduce r)
               | None \<Rightarrow>
                   Some (if yyErrorFlag c = 0 then (c\<lparr>reports := Suc (reports c)\<rparr>, To_reduce (n + yyToken c))
                     else (c, To_recover (n + yyToken c))))
            }
          })
     }
   }"

definition recover_error :: "arrays \<Rightarrow> (int \<Rightarrow> 'v list \<Rightarrow> 'v \<Rightarrow> 'v) \<Rightarrow> 'v \<Rightarrow> 'v config \<Rightarrow> int \<Rightarrow> 'v flow option" where
  "recover_error tb act null c n =
     (if yyErrorFlag c = 1 \<or> yyErrorFlag c = 2 then do {
        r \<leftarrow> recover tb (stack c);
        Some (case r of
            None \<Rightarrow> Stop Irrecoverable
          | Some (s, st) \<Rightarrow> Loop (c\<lparr>stack := st, yyState := s, yyVal := lexval c, yyErrorFlag := 3\<rparr>))
      }
      else if yyErrorFlag c = 3 then
        Some (if yyToken c = 0 then Stop Irrecoverable_at_end else Discarded (c\<lparr>yyToken := - 1\<rparr>))
      else reduce_by tb act null c n)"

fun perform :: "arrays \<Rightarrow> (int \<Rightarrow> 'v list \<Rightarrow> 'v \<Rightarrow> 'v) \<Rightarrow> 'v \<Rightarrow> 'v config \<Rightarrow> move \<Rightarrow> 'v flow option" where
  "perform tb act null c (To_shift s) = Some (Loop (c\<lparr>yyState := s, yyVal := lexval c, yyToken := - 1,
     yyErrorFlag := (if yyErrorFlag c > 0 then yyErrorFlag c - 1 else yyErrorFlag c)\<rparr>))"
| "perform tb act null c (To_reduce n) = reduce_by tb act null c n"
| "perform tb act null c (To_recover n) = recover_error tb act null c n"

text \<open>
  One turn of the loop \<^verbatim>\<open>yyDiscarded\<close>.  An access out of range leaves the method; the outcome still says how
  often \<^verbatim>\<open>yyerror\<close> was called before.
\<close>

definition turn :: "arrays \<Rightarrow> (int \<Rightarrow> 'v list \<Rightarrow> 'v \<Rightarrow> 'v) \<Rightarrow> 'v \<Rightarrow> 'v config \<Rightarrow> 'v flow" where
  "turn tb act null c =
     (case decide tb c of
        None \<Rightarrow> Stop (Bad_index (reports c))
      | Some (c', move) \<Rightarrow>
          (case perform tb act null c' move of
             None \<Rightarrow> Stop (Bad_index (reports c'))
           | Some f \<Rightarrow> f))"

text \<open>The head of \<^verbatim>\<open>yyLoop\<close>: the stack is not extended beyond \<open>yyMax\<close> elements.\<close>

definition enter :: "nat \<Rightarrow> 'v config \<Rightarrow> 'v flow" where
  "enter limit c =
     (if limit \<le> length (stack c) then Stop Stack_full else Discarded (c\<lparr>stack := (yyState c, yyVal c) # stack c\<rparr>))"

definition proceed :: "arrays \<Rightarrow> (int \<Rightarrow> 'v list \<Rightarrow> 'v \<Rightarrow> 'v) \<Rightarrow> 'v \<Rightarrow> nat \<Rightarrow> 'v flow \<Rightarrow> 'v flow" where
  "proceed tb act null limit f =
     (case f of
        Loop c \<Rightarrow> enter limit c
      | Discarded c \<Rightarrow> turn tb act null c
      | Stop out \<Rightarrow> Stop out)"

definition stack_size :: "int \<Rightarrow> nat" where
  "stack_size yyMax = nat (if yyMax \<le> 0 then 256 else yyMax)"

definition start_config :: "'v \<Rightarrow> (int \<times> 'v) list \<Rightarrow> 'v config" where
  "start_config null ts =
     \<lparr>stack = [], yyState = 0, yyVal = null, yyToken = - 1, yyErrorFlag = 0, lexval = null, input = ts, reports = 0\<rparr>"

definition yyparse2 :: "arrays \<Rightarrow> (int \<Rightarrow> 'v list \<Rightarrow> 'v \<Rightarrow> 'v) \<Rightarrow> 'v \<Rightarrow> int \<Rightarrow> (int \<times> 'v) list \<Rightarrow> nat \<Rightarrow> 'v outcome option" where
  "yyparse2 tb act null yyMax ts fuel =
     (case (proceed tb act null (stack_size yyMax) ^^ fuel) (Loop (start_config null ts)) of
        Stop out \<Rightarrow> Some out
      | _ \<Rightarrow> None)"

text \<open>The arrays of a run, as they are read back from the output.\<close>

definition arrays_of :: "grammar \<Rightarrow> run \<Rightarrow> arrays" where
  "arrays_of g R =
     (let table = (\<lambda>i. fst (snd (emitted g R ! i)))
      in \<lparr>yyLhs = table 0, yyLen = table 1, yyDefRed = table 2, yyDgoto = table 3, yySindex = table 4, yyRindex = table 5,
          yyGindex = table 6, yyTable = table 7, yyCheck = table 8, yyFinal = int (final_state (run_parser R)),
          yyErrorCode = symbol_value g ! max 2 (ntokens g)\<rparr>)"

section \<open>A turn without its exceptions\<close>

definition no_action :: "arrays \<Rightarrow> (int \<Rightarrow> 'v list \<Rightarrow> 'v \<Rightarrow> 'v) \<Rightarrow> 'v \<Rightarrow> 'v config \<Rightarrow> int \<Rightarrow> 'v flow option" where
  "no_action tb act null c n =
     (if yyErrorFlag c = 0 then reduce_by tb act null (c\<lparr>reports := Suc (reports c)\<rparr>) n
      else recover_error tb act null c n)"

definition try_turn :: "arrays \<Rightarrow> (int \<Rightarrow> 'v list \<Rightarrow> 'v \<Rightarrow> 'v) \<Rightarrow> 'v \<Rightarrow> 'v config \<Rightarrow> 'v flow option" where
  "try_turn tb act null c = do { (c', move) \<leftarrow> decide tb c; perform tb act null c' move }"

lemma turn_try:
  "turn tb act null c = (case try_turn tb act null c of
     None \<Rightarrow> Stop (Bad_index (case decide tb c of None \<Rightarrow> reports c | Some (c', move) \<Rightarrow> reports c'))
   | Some f \<Rightarrow> f)"
  by (auto simp: turn_def try_turn_def split: option.splits prod.splits)

lemma try_turn_eq:
  "try_turn tb act null c = do {
     n \<leftarrow> cell (yyDefRed tb) (yyState c);
     if n \<noteq> 0 then reduce_by tb act null c n
     else do {
       let c = read_token c;
       n \<leftarrow> cell (yySindex tb) (yyState c);
       shift \<leftarrow> look tb n (yyToken c);
       (case shift of
          Some s \<Rightarrow> Some (Loop (c\<lparr>yyState := s, yyVal := lexval c, yyToken := - 1,
            yyErrorFlag := (if yyErrorFlag c > 0 then yyErrorFlag c - 1 else yyErrorFlag c)\<rparr>))
        | None \<Rightarrow> do {
            n \<leftarrow> cell (yyRindex tb) (yyState c);
            if n = 0 then reduce_by tb act null c n
            else do {
              rule \<leftarrow> look tb n (yyToken c);
              (case rule of
                 Some r \<Rightarrow> reduce_by tb act null c r
               | None \<Rightarrow> no_action tb act null c (n + yyToken c))
            }
          })
     }
   }"
  by (auto simp: try_turn_def decide_def no_action_def Let_def split: Option.bind_splits option.splits)

section \<open>Parse trees\<close>

datatype 'v ptree = Leaf nat 'v | Node nat "'v ptree list"

fun root :: "grammar \<Rightarrow> 'v ptree \<Rightarrow> nat" where
  "root g (Leaf X v) = X"
| "root g (Node r ts) = rlhs g ! r"

text \<open>A leaf is a token other than \<^verbatim>\<open>$end\<close>, a node one of the rules of the input with trees for its right-hand side.\<close>

fun derivation :: "grammar \<Rightarrow> 'v ptree \<Rightarrow> bool" where
  "derivation g (Leaf X v) \<longleftrightarrow> 0 < X \<and> X < ntokens g"
| "derivation g (Node r ts) \<longleftrightarrow> 3 \<le> r \<and> r < nrules g \<and> map (root g) ts = rhs_syms g r \<and> list_all (derivation g) ts"

fun sentence :: "grammar \<Rightarrow> 'v ptree \<Rightarrow> (int \<times> 'v) list" where
  "sentence g (Leaf X v) = [(symbol_value g ! X, v)]"
| "sentence g (Node r ts) = concat (map (sentence g) ts)"

text \<open>The value of a tree: the actions, from the leaves up, each on the values of the right-hand side.\<close>

fun meaning :: "(int \<Rightarrow> 'v list \<Rightarrow> 'v \<Rightarrow> 'v) \<Rightarrow> 'v \<Rightarrow> 'v ptree \<Rightarrow> 'v" where
  "meaning act null (Leaf X v) = v"
| "meaning act null (Node r ts) =
     act (int r - 2) (map (meaning act null) ts) (if ts = [] then null else hd (map (meaning act null) ts))"

section \<open>What the arrays say of the automaton\<close>

text \<open>
  Every look-up of the parser is in range, and what is found is allowed by the automaton; rule 0 of the
  arrays is \<^verbatim>\<open>$accept\<close>, whose left-hand side has the number -1.
\<close>

definition arrays_sound :: "grammar \<Rightarrow> lr0_state \<Rightarrow> arrays \<Rightarrow> bool" where
  "arrays_sound g st tb \<longleftrightarrow>
     (\<forall>q < length (cores st).
        (\<exists>d. cell (yyDefRed tb) (int q) = Some d \<and> (d \<noteq> 0 \<longrightarrow> (\<exists>r \<in> set (rules_at g st q). d = int r - 2))) \<and>
        (\<forall>k \<ge> 0. \<exists>b s. cell (yySindex tb) (int q) = Some b \<and> look tb b k = Some s \<and>
           (\<forall>w. s = Some w \<longrightarrow> (\<exists>X q'. X < ntokens g \<and> k = symbol_value g ! X \<and> w = int q' \<and> lr_trans g st q X q'))) \<and>
        (\<forall>k \<ge> 0. \<exists>b s. cell (yyRindex tb) (int q) = Some b \<and> look tb b k = Some s \<and>
           (\<forall>w. s = Some w \<longrightarrow> (\<exists>r \<in> set (rules_at g st q). w = int r - 2)))) \<and>
     (\<forall>r. 3 \<le> r \<longrightarrow> r < nrules g \<longrightarrow> cell (yyLhs tb) (int r - 2) = Some (int (rlhs g ! r) - int (start_symbol g) - 1) \<and>
        cell (yyLen tb) (int r - 2) = Some (int (length (rhs_syms g r)))) \<and>
     cell (yyLhs tb) 0 = Some (- 1) \<and>
     (\<forall>q a s. a < nvars g - 1 \<longrightarrow> lr_trans g st q (start_symbol g + 1 + a) s \<longrightarrow>
        (\<exists>b w. cell (yyGindex tb) (int a) = Some b \<and> look tb b (int q) = Some w \<and>
           (case w of Some x \<Rightarrow> Some x | None \<Rightarrow> cell (yyDgoto tb) (int a)) = Some (int s))) \<and>
     (\<exists>f. yyFinal tb = int f \<and> lr_trans g st 0 (start_symbol g + 1) f)"

section \<open>Soundness\<close>

text \<open>A stack of the parser is a path of the automaton with a tree for every transition.\<close>

inductive parsed :: "grammar \<Rightarrow> lr0_state \<Rightarrow> (int \<Rightarrow> 'v list \<Rightarrow> 'v \<Rightarrow> 'v) \<Rightarrow> 'v \<Rightarrow> nat \<Rightarrow> (int \<times> 'v) list \<Rightarrow> 'v ptree list \<Rightarrow> bool"
  for g st act null where
  bottom: "0 < length (cores st) \<Longrightarrow> parsed g st act null 0 [(0, v)] []"
| shift: "parsed g st act null p k ts \<Longrightarrow> lr_trans g st p (root g t) q \<Longrightarrow> derivation g t \<Longrightarrow>
    parsed g st act null q ((int q, meaning act null t) # k) (t # ts)"

inductive_cases parsed_shiftE: "parsed g st act null q k (t # ts)"
inductive_cases parsed_bottomE: "parsed g st act null q k []"

lemma parsed_facts:
  assumes "parsed g st act null q k ts"
  shows "q < length (cores st)" "length k = Suc (length ts)" "k \<noteq> []" "fst (hd k) = int q"
    "list_all (derivation g) ts" "map snd (take (length ts) k) = map (meaning act null) ts" "q = 0 \<longleftrightarrow> ts = []"
proof -
  have "q < length (cores st) \<and> length k = Suc (length ts) \<and> fst (hd k) = int q \<and> list_all (derivation g) ts \<and>
    map snd (take (length ts) k) = map (meaning act null) ts \<and> (q = 0 \<longleftrightarrow> ts = [])"
    using assms by induction (auto dest: transD(2,3))
  then show "q < length (cores st)" "length k = Suc (length ts)" "k \<noteq> []" "fst (hd k) = int q"
    "list_all (derivation g) ts" "map snd (take (length ts) k) = map (meaning act null) ts" "q = 0 \<longleftrightarrow> ts = []" by auto
qed

lemma parsed_drop:
  "parsed g st act null q k ts \<Longrightarrow> d \<le> length ts \<Longrightarrow> \<exists>p. parsed g st act null p (drop d k) (drop d ts)"
proof (induction arbitrary: d rule: parsed.induct)
  case (bottom v)
  then show ?case using parsed.bottom by (intro exI [of _ 0]) simp
next
  case (shift p k ts t q)
  then show ?case using parsed.shift [OF shift.hyps] by (cases d) auto
qed

text \<open>The items of a kernel and of its closure.\<close>

lemma state_item_cases:
  assumes wf: "wf_grammar g" and E: "automaton g st" and q: "q < length (cores st)" and i: "i \<in> set (state_items g st q)"
  obtains (kernel) "i \<in> set (core_items (cores st ! q))"
    | (predicted) j A r where "j \<in> set (state_items g st q)" "ritem g ! j = int A" "start_symbol g \<le> A"
        "r < nrules g" "rlhs g ! r = A" "i = rrhs g ! r"
proof -
  note C = closed_items_kernel(1) [OF wf automaton_kernel [OF E q]]
  from i have "i \<in> lr0_closure g (set (core_items (cores st ! q)))" using C by simp
  then show thesis
    by cases (use that C in auto)
qed

lemma core_of_0:
  assumes "automaton g st"
  shows "core_items (cores st ! 0) = [1]" "0 < length (cores st)"
  using assms by (simp_all add: expanded_def pool_def)

lemma trans_kernel:
  assumes "lr_trans g st p X q" "i \<in> set (core_items (cores st ! q))"
  obtains j where "i = Suc j" "j \<in> set (state_items g st p)" "ritem g ! j = int X"
  using transD(7) [OF assms(1)] assms(2) by (auto simp: goto_kernel_def items_on_def)

lemma rule_start_unique:
  assumes wf: "wf_grammar g" and "1 \<le> r" "r < nrules g" "1 \<le> s" "s < nrules g" "rrhs g ! r \<le> rrhs g ! s" "rrhs g ! s < rrhs g ! Suc r"
  shows "r = s"
proof (rule ccontr)
  assume "r \<noteq> s"
  then consider "r < s" | "s < r" by linarith
  then show False
  proof cases
    case 1
    then have "rrhs g ! Suc r \<le> rrhs g ! s" using rrhs_mono [OF wf, of "Suc r" s] assms by simp
    with assms(7) show False by simp
  next
    case 2
    then have "rrhs g ! s < rrhs g ! r" using rrhs_less [OF wf assms(4)] assms(3) by simp
    with assms(6) show False by simp
  qed
qed

text \<open>Below an item with \<open>d\<close> symbols before its dot are the trees of these symbols, and the state where the rule began.\<close>

lemma item_on_stack:
  assumes wf: "wf_grammar g" and E: "automaton g st" and P: "parsed g st act null q k ts"
    and r: "1 \<le> r" "r < nrules g" and i: "rrhs g ! r + d \<in> set (state_items g st q)" "rrhs g ! r + d < rrhs g ! Suc r"
  shows "d \<le> length ts \<and> map (root g) (rev (take d ts)) = map (\<lambda>i. nat (ritem g ! i)) [rrhs g ! r..<rrhs g ! r + d] \<and>
    (\<exists>p. parsed g st act null p (drop d k) (drop d ts) \<and> rrhs g ! r \<in> set (state_items g st p))"
  using P i
proof (induction d arbitrary: q k ts)
  case 0
  then show ?case by auto
next
  case (Suc d)
  note q = parsed_facts(1) [OF Suc.prems(1)]
  show ?case
  proof (cases rule: state_item_cases [OF wf E q Suc.prems(2)])
    case pred: (2 j A s)
    from pred(3-5) have "2 \<le> s" using rlhs_var_ge_2 [OF wf] by auto
    then have "r = s" using rule_start_unique [OF wf r, of s] pred Suc.prems(3) by simp
    with pred(6) show ?thesis by simp
  next
    case kernel: 1
    from Suc.prems(1) show ?thesis
    proof cases
      case bottom
      then have "rrhs g ! r + Suc d = 1" using kernel core_of_0(1) [OF E] by simp
      moreover have "rrhs g ! 2 = 1" using wf_headerD [OF wf] by simp
      ultimately have "r = 2" using rule_start_unique [OF wf r, of 2] Suc.prems(3) wf_sizesD(8) [OF wf] by simp
      with \<open>rrhs g ! 2 = 1\<close> \<open>rrhs g ! r + Suc d = 1\<close> show ?thesis by simp
    next
      case (shift p k' ts' t)
      from trans_kernel [OF shift(4) kernel] obtain j where
        j: "rrhs g ! r + Suc d = Suc j" "j \<in> set (state_items g st p)" "ritem g ! j = int (root g t)" .
      then have "j = rrhs g ! r + d" by simp
      with Suc.IH [OF shift(3)] j Suc.prems(3) have IH: "d \<le> length ts' \<and>
          map (root g) (rev (take d ts')) = map (\<lambda>i. nat (ritem g ! i)) [rrhs g ! r..<rrhs g ! r + d] \<and>
          (\<exists>p. parsed g st act null p (drop d k') (drop d ts') \<and> rrhs g ! r \<in> set (state_items g st p))" by simp
      with shift \<open>j = rrhs g ! r + d\<close> j(3) show ?thesis by simp
    qed
  qed
qed

text \<open>A complete rule is never \<^verbatim>\<open>$accept\<close>, because \<^verbatim>\<open>$end\<close> is never shifted.\<close>

lemma complete_rule_ge_3:
  assumes wf: "wf_grammar g" and E: "automaton g st" and P: "parsed g st act null q k ts" and r: "r \<in> set (rules_at g st q)"
  shows "3 \<le> r" "r < nrules g"
proof -
  note q = parsed_facts(1) [OF P]
  note R = r [unfolded rules_at_distinct(2) [OF wf E q]]
  then show "r < nrules g" by simp
  note H = wf_headerD [OF wf]
  show "3 \<le> r"
  proof (rule ccontr)
    assume "\<not> 3 \<le> r"
    then consider "r = 1" | "r = 2" using R by linarith
    then show False
    proof cases
      case 1
      then have zero: "0 \<in> set (state_items g st q)" using R H(4) by (simp add: numeral_2_eq_2)
      show False
      proof (cases rule: state_item_cases [OF wf E q zero])
        case kernel: 1
        from P show False
        proof cases
          case bottom
          with kernel show False using core_of_0(1) [OF E] by simp
        next
          case (shift p k' ts' t)
          from trans_kernel [OF shift(4) kernel] show False by auto
        qed
      next
        case pred: (2 j A s)
        then have "2 \<le> s" using rlhs_var_ge_2 [OF wf] by auto
        then have "rrhs g ! 2 \<le> rrhs g ! s" using rrhs_mono [OF wf, of 2 s] pred(4) by simp
        with H(4) pred(6) show False by simp
      qed
    next
      case 2
      then have i: "rrhs g ! 2 + 2 \<in> set (state_items g st q)" "rrhs g ! 2 + 2 < rrhs g ! Suc 2"
        using R H(4,5) by (simp_all add: numeral_3_eq_3)
      from item_on_stack [OF wf E P _ _ i] wf_sizesD(8) [OF wf] have
        l: "2 \<le> length ts" and m: "map (root g) (rev (take 2 ts)) = map (\<lambda>i. nat (ritem g ! i)) [rrhs g ! 2..<rrhs g ! 2 + 2]" by auto
      obtain t ts' where t: "ts = t # ts'" using l by (cases ts) auto
      with P obtain p where "lr_trans g st p (root g t) q" by (auto elim: parsed_shiftE)
      then have "0 < root g t" by (rule transD(4))
      have "[rrhs g ! 2..<rrhs g ! 2 + 2] = [1, 2]" using H(4) by (simp add: upt_rec)
      with m have "map (root g) (rev (take 2 ts)) = [nat (ritem g ! 1), nat (ritem g ! 2)]" by (simp add: numeral_2_eq_2)
      then have "last (map (root g) (rev (take 2 ts))) = 0" using H(14) by simp
      moreover have "last (map (root g) (rev (take 2 ts))) = root g t" using t by (simp add: numeral_2_eq_2)
      ultimately show False using \<open>0 < root g t\<close> by simp
    qed
  qed
qed

lemma rule_start_goto:
  assumes wf: "wf_grammar g" and E: "automaton g st" and P: "parsed g st act null p k ts"
    and r: "3 \<le> r" "r < nrules g" and i: "rrhs g ! r \<in> set (state_items g st p)"
  shows "\<exists>s. lr_trans g st p (rlhs g ! r) s"
proof -
  note p = parsed_facts(1) [OF P]
  show ?thesis
  proof (cases rule: state_item_cases [OF wf E p i])
    case kernel: 1
    from P show ?thesis
    proof cases
      case bottom
      then have "rrhs g ! r = rrhs g ! 2" using kernel core_of_0(1) [OF E] wf_headerD(4) [OF wf] by simp
      then show ?thesis using rrhs_inj [OF wf, of r 2] r by simp
    next
      case (shift p' k' ts' t)
      from trans_kernel [OF shift(4) kernel] obtain j where j: "rrhs g ! r = Suc j" "ritem g ! j = int (root g t)" .
      have "ritem g ! (rrhs g ! r - 1) = - int (r - 1)" using rule_block(3) [OF wf, of "r - 1"] r by simp
      with j r(1) show ?thesis by simp
    qed
  next
    case pred: (2 j A s)
    then have "2 \<le> s" using rlhs_var_ge_2 [OF wf] by auto
    then have "s = r" using rrhs_inj [OF wf, of r s] r pred by simp
    have "0 < A" using pred(3) wf_sizesD(5,6) [OF wf] by simp
    from item_trans [OF wf E p pred(1,2) this] pred(5) \<open>s = r\<close> show ?thesis by auto
  qed
qed

text \<open>A reduction by a complete rule of the top state replaces the trees of the right-hand side by one tree.\<close>

definition goes_on :: "grammar \<Rightarrow> nat \<Rightarrow> nat \<Rightarrow> 'v config \<Rightarrow> 'v flow" where
  "goes_on g p A c =
     (if p = 0 \<and> A = start_symbol g + 1 then
        (let c = read_token c in if yyToken c = 0 then Stop (Return (yyVal c) (reports c)) else Loop c)
      else Loop c)"

lemma reduce_by_rule:
  assumes wf: "wf_grammar g" and E: "automaton g st" and S: "arrays_sound g st tb"
    and P: "parsed g st act null q (stack c) ts" and r: "r \<in> set (rules_at g st q)"
  defines "d \<equiv> length (rhs_syms g r)"
  shows "\<exists>p s. d \<le> length ts \<and> derivation g (Node r (rev (take d ts))) \<and> parsed g st act null p (drop d (stack c)) (drop d ts) \<and>
    lr_trans g st p (rlhs g ! r) s \<and>
    reduce_by tb act null c (int r - 2) =
      Some (goes_on g p (rlhs g ! r) (c\<lparr>stack := drop d (stack c), yyVal := meaning act null (Node r (rev (take d ts))), yyState := int s\<rparr>))"
proof -
  note R = complete_rule_ge_3 [OF wf E P r]
  have r1: "1 \<le> r" using R(1) by simp
  have lt: "rrhs g ! r < rrhs g ! Suc r" by (rule rule_block(1) [OF wf r1 R(2)])
  then have end_: "rrhs g ! Suc r - 1 = rrhs g ! r + d" by (simp add: d_def rhs_syms_def)
  have i: "rrhs g ! r + d \<in> set (state_items g st q)" "rrhs g ! r + d < rrhs g ! Suc r"
    using r [unfolded rules_at_distinct(2) [OF wf E parsed_facts(1) [OF P]]] end_ lt by simp_all
  from item_on_stack [OF wf E P r1 R(2) i] obtain p where
    d: "d \<le> length ts" and m: "map (root g) (rev (take d ts)) = rhs_syms g r" and
    p: "parsed g st act null p (drop d (stack c)) (drop d ts)" "rrhs g ! r \<in> set (state_items g st p)"
    unfolding rhs_syms_def end_ by blast
  from rule_start_goto [OF wf E p(1) R p(2)] obtain s where s: "lr_trans g st p (rlhs g ! r) s" by blast
  note F = parsed_facts [OF P] and Fp = parsed_facts [OF p(1)]
  have "list_all (derivation g) (take d ts)" using F(5) by (meson list_all_iff in_set_takeD)
  then have D: "derivation g (Node r (rev (take d ts)))" using R m by (simp add: list_all_rev)
  define a where "a = rlhs g ! r - start_symbol g - 1"
  have A: "rlhs g ! r = start_symbol g + 1 + a" "a < nvars g - 1"
    using wf_ruleD(1,2) [OF wf R] wf_sizesD(4,5) [OF wf] by (simp_all add: a_def)
  have T: "cell (yyLhs tb) (int r - 2) = Some (int a)" "cell (yyLen tb) (int r - 2) = Some (int d)"
    using S R A(1) unfolding arrays_sound_def by (simp_all add: d_def)
  from S A s obtain b w where G: "cell (yyGindex tb) (int a) = Some b" "look tb b (int p) = Some w"
    "(case w of Some x \<Rightarrow> Some x | None \<Rightarrow> cell (yyDgoto tb) (int a)) = Some (int s)"
    unfolding arrays_sound_def by metis
  have vals: "map snd (rev (take d (stack c))) = map (meaning act null) (rev (take d ts))"
  proof -
    have "map snd (take d (stack c)) = take d (map snd (take (length ts) (stack c)))" using d by (simp add: take_map min_absorb1)
    also have "\<dots> = map (meaning act null) (take d ts)" unfolding F(6) by (simp add: take_map)
    finally show ?thesis by (simp add: rev_map [symmetric])
  qed
  have first: "(if int (length (stack c)) - 1 + 1 - int d > int (length (stack c)) - 1 then Some null
      else cell (map snd (rev (stack c))) (int (length (stack c)) - 1 + 1 - int d)) =
    Some (if rev (take d ts) = [] then null else hd (map (meaning act null) (rev (take d ts))))"
  proof (cases "d = 0")
    case False
    then have l: "length (stack c) - d < length (stack c)" "d \<le> length (stack c)" using F(2) d by simp_all
    have "map snd (rev (stack c)) = map snd (rev (drop d (stack c))) @ map snd (rev (take d (stack c)))"
      by (metis append_take_drop_id map_append rev_append)
    then have "map snd (rev (stack c)) ! (length (stack c) - d) = hd (map snd (rev (take d (stack c))))"
      using False l by (subst hd_conv_nth) (auto simp: nth_append)
    moreover have "ts \<noteq> []" using False d by auto
    ultimately show ?thesis using False l unfolding vals by (simp add: cell_def of_nat_diff nat_diff_distrib)
  qed simp
  have state: "cell (map fst (rev (stack c))) (int (length (stack c)) - 1 - int d) = Some (int p)"
  proof -
    have "rev (stack c) ! (length (stack c) - 1 - d) = stack c ! d" using F(2) d by (simp add: rev_nth)
    moreover have "fst (stack c ! d) = int p" using Fp(3,4) by (simp add: hd_drop_conv_nth)
    ultimately show ?thesis using F(2) d by (simp add: cell_def nat_diff_distrib)
  qed
  have final: "s = f" if "p = 0" "a = 0" "lr_trans g st 0 (start_symbol g + 1) f" for f
    using trans_unique [OF E, of 0 "start_symbol g + 1" s f] that s A(1) by simp
  have "reduce_by tb act null c (int r - 2) =
      Some (goes_on g p (rlhs g ! r) (c\<lparr>stack := drop d (stack c), yyVal := meaning act null (Node r (rev (take d ts))), yyState := int s\<rparr>))"
  proof (cases "p = 0 \<and> a = 0")
    case True
    from S obtain f where "yyFinal tb = int f" "lr_trans g st 0 (start_symbol g + 1) f" unfolding arrays_sound_def by blast
    with final True T first state vals A(1) show ?thesis
      by (simp add: reduce_by_def goes_on_def Let_def)
  next
    case False
    with T first state vals A(1) G show ?thesis
      by (auto simp: reduce_by_def goes_on_def Let_def)
  qed
  with d D p(1) s show ?thesis by blast
qed

text \<open>The input that is not yet shifted: what was read but not shifted, then what was not read.\<close>

definition remaining :: "'v config \<Rightarrow> (int \<times> 'v) list \<Rightarrow> bool" where
  "remaining c z \<longleftrightarrow>
     (if yyToken c < 0 then z = input c
      else z = (yyToken c, lexval c) # input c \<or> yyToken c = 0 \<and> z = [] \<and> input c = [])"

definition tokens_ok :: "(int \<times> 'v) list \<Rightarrow> bool" where
  "tokens_ok w \<longleftrightarrow> (\<forall>x \<in> set w. 0 \<le> fst x)"

lemma read_token_simps [simp]:
  "stack (read_token c) = stack c" "yyState (read_token c) = yyState c" "yyVal (read_token c) = yyVal c"
  "yyErrorFlag (read_token c) = yyErrorFlag c" "reports (read_token c) = reports c"
  by (auto simp: read_token_def split: list.splits)

lemma read_token_remaining:
  assumes "tokens_ok (input c)" "remaining c z"
  shows "0 \<le> yyToken (read_token c)" "remaining (read_token c) z" "tokens_ok (input (read_token c))"
    "z = (yyToken (read_token c), lexval (read_token c)) # input (read_token c) \<or>
     yyToken (read_token c) = 0 \<and> z = [] \<and> input (read_token c) = []"
  using assms by (auto simp: read_token_def remaining_def tokens_ok_def split: list.splits if_splits)

lemma remaining_upd [simp]:
  "remaining (c\<lparr>stack := k\<rparr>) z = remaining c z" "remaining (c\<lparr>yyState := s\<rparr>) z = remaining c z"
  "remaining (c\<lparr>yyVal := v\<rparr>) z = remaining c z"
  by (simp_all add: remaining_def)

definition recognises :: "grammar \<Rightarrow> (int \<Rightarrow> 'v list \<Rightarrow> 'v \<Rightarrow> 'v) \<Rightarrow> 'v \<Rightarrow> (int \<times> 'v) list \<Rightarrow> 'v \<Rightarrow> bool" where
  "recognises g act null w v \<longleftrightarrow>
     (\<exists>t z. derivation g t \<and> root g t = start_symbol g + 1 \<and> w = sentence g t @ z \<and> (z = [] \<or> fst (hd z) = 0) \<and>
        v = meaning act null t)"

text \<open>The invariant of the parser while nothing was reported.\<close>

definition coherent :: "grammar \<Rightarrow> lr0_state \<Rightarrow> (int \<Rightarrow> 'v list \<Rightarrow> 'v \<Rightarrow> 'v) \<Rightarrow> 'v \<Rightarrow> (int \<times> 'v) list \<Rightarrow> 'v config \<Rightarrow> bool" where
  "coherent g st act null w c \<longleftrightarrow> yyErrorFlag c = 0 \<and> tokens_ok (input c) \<and>
     (\<exists>q ts z. parsed g st act null q (stack c) ts \<and> yyState c = int q \<and> remaining c z \<and>
        concat (map (sentence g) (rev ts)) @ z = w)"

fun clean :: "'v flow \<Rightarrow> bool" where
  "clean (Loop c) \<longleftrightarrow> reports c = 0"
| "clean (Discarded c) \<longleftrightarrow> reports c = 0"
| "clean (Stop (Return v n)) \<longleftrightarrow> n = 0"
| "clean (Stop out) \<longleftrightarrow> False"

fun on_course :: "grammar \<Rightarrow> lr0_state \<Rightarrow> (int \<Rightarrow> 'v list \<Rightarrow> 'v \<Rightarrow> 'v) \<Rightarrow> 'v \<Rightarrow> (int \<times> 'v) list \<Rightarrow> 'v flow \<Rightarrow> bool" where
  "on_course g st act null w (Loop c) \<longleftrightarrow> coherent g st act null w (c\<lparr>stack := (yyState c, yyVal c) # stack c\<rparr>)"
| "on_course g st act null w (Discarded c) \<longleftrightarrow> coherent g st act null w c"
| "on_course g st act null w (Stop (Return v n)) \<longleftrightarrow> recognises g act null w v"
| "on_course g st act null w (Stop out) \<longleftrightarrow> True"

lemma reduce_by_clean: "reduce_by tb act null c n = Some f \<Longrightarrow> clean f \<Longrightarrow> reports c = 0"
  by (auto simp: reduce_by_def Let_def split: Option.bind_splits if_splits option.splits)

text \<open>Rule 0 is no rule to reduce by: the goto of \<^verbatim>\<open>$accept\<close> would be at -1.\<close>

lemma reduce_by_0: "arrays_sound g st tb \<Longrightarrow> reduce_by tb act null c 0 = None"
  unfolding arrays_sound_def by (auto simp: reduce_by_def Let_def cell_def [of "yyGindex tb" "- 1"] split: Option.bind_split)

lemma goes_on_course:
  assumes P: "parsed g st act null p (stack c) ts" and s: "lr_trans g st p (root g t) s" "derivation g t"
    and c: "yyState c = int s" "yyVal c = meaning act null t" "yyErrorFlag c = 0" "tokens_ok (input c)" "remaining c z"
    and w: "concat (map (sentence g) (rev (t # ts))) @ z = w"
  shows "on_course g st act null w (goes_on g p (root g t) c)"
proof -
  note Q = parsed.shift [OF P s]
  have L: "on_course g st act null w (Loop c')"
    if "stack c' = stack c" "yyState c' = int s" "yyVal c' = yyVal c" "yyErrorFlag c' = 0" "tokens_ok (input c')" "remaining c' z" for c'
    unfolding on_course.simps coherent_def using that Q w c(2) by (intro conjI exI [of _ s] exI [of _ "t # ts"] exI [of _ z]) simp_all
  note T = read_token_remaining [OF c(4,5)]
  show ?thesis
  proof (cases "p = 0 \<and> root g t = start_symbol g + 1")
    case True
    show ?thesis
    proof (cases "yyToken (read_token c) = 0")
      case zero: True
      have "ts = []" using parsed_facts(7) [OF P] True by simp
      with T(4) zero w have "w = sentence g t @ z" "z = [] \<or> fst (hd z) = 0" by auto
      with s(2) True have "recognises g act null w (yyVal c)" unfolding recognises_def c(2) by blast
      with True zero show ?thesis by (simp add: goes_on_def)
    next
      case False
      from L [of "read_token c"] T(2,3) c have "on_course g st act null w (Loop (read_token c))" by simp
      with True False show ?thesis by (simp add: goes_on_def del: on_course.simps)
    qed
  next
    case False
    then have "goes_on g p (root g t) c = Loop c" by (simp only: goes_on_def if_False)
    with L [of c] c show ?thesis by simp
  qed
qed

lemma reduction_course:
  assumes wf: "wf_grammar g" and E: "automaton g st" and S: "arrays_sound g st tb"
    and C: "yyErrorFlag c = 0" "tokens_ok (input c)" "parsed g st act null q (stack c) ts" "remaining c z"
      "concat (map (sentence g) (rev ts)) @ z = w"
    and r: "r \<in> set (rules_at g st q)" and f: "reduce_by tb act null c (int r - 2) = Some f"
  shows "on_course g st act null w f"
proof -
  define d where "d = length (rhs_syms g r)"
  let ?t = "Node r (rev (take d ts))"
  let ?c = "\<lambda>s. c\<lparr>stack := drop d (stack c), yyVal := meaning act null ?t, yyState := int s\<rparr>"
  from reduce_by_rule [OF wf E S C(3) r] obtain p s where R: "derivation g ?t"
    "parsed g st act null p (drop d (stack c)) (drop d ts)" "lr_trans g st p (rlhs g ! r) s"
    "reduce_by tb act null c (int r - 2) = Some (goes_on g p (rlhs g ! r) (?c s))"
    unfolding d_def by blast
  have p: "parsed g st act null p (stack (?c s)) (drop d ts)" and s: "lr_trans g st p (root g ?t) s" using R(2,3) by simp_all
  have "rev ts = rev (drop d ts) @ rev (take d ts)" by (metis append_take_drop_id rev_append)
  then have "concat (map (sentence g) (rev (?t # drop d ts))) @ z = w" using C(5) by simp
  from goes_on_course [OF p s R(1) _ _ _ _ _ this] C(1,2,4) R(4) f show ?thesis by (simp add: remaining_def)
qed

lemma shift_course:
  assumes V: "values_ok g" "symbol_value g ! 0 = 0"
    and C: "yyErrorFlag c = 0" "tokens_ok (input c)" "parsed g st act null q (stack c) ts"
      "concat (map (sentence g) (rev ts)) @ z = w"
    and z: "z = (yyToken c, lexval c) # input c \<or> yyToken c = 0 \<and> z = [] \<and> input c = []"
    and X: "X < ntokens g" "yyToken c = symbol_value g ! X" "lr_trans g st q X s"
  shows "on_course g st act null w (Loop (c\<lparr>yyState := int s, yyVal := lexval c, yyToken := - 1, yyErrorFlag := 0\<rparr>))"
proof -
  have pos: "0 < X" by (rule transD(4) [OF X(3)])
  have "symbol_value g ! X \<noteq> symbol_value g ! 0"
  proof
    assume "symbol_value g ! X = symbol_value g ! 0"
    then have "X = 0" using V(1) X(1) pos unfolding values_ok_def by (auto dest!: inj_onD [of _ _ X 0])
    with pos show False by simp
  qed
  then have "yyToken c \<noteq> 0" using V(2) X(2) by simp
  with z have z': "z = (symbol_value g ! X, lexval c) # input c" using X(2) by simp
  let ?t = "Leaf X (lexval c)"
  have "lr_trans g st q (root g ?t) s" "derivation g ?t" using X(1,3) pos by simp_all
  from parsed.shift [OF C(3) this] have "parsed g st act null s ((int s, lexval c) # stack c) (?t # ts)" by simp
  then show ?thesis
    using C(1,2,4) z' by (auto simp: coherent_def remaining_def intro!: exI [of _ s] exI [of _ "?t # ts"])
qed

lemma turn_course:
  assumes wf: "wf_grammar g" and V: "values_ok g" "symbol_value g ! 0 = 0" and E: "automaton g st" and S: "arrays_sound g st tb"
    and C: "coherent g st act null w c" and f: "try_turn tb act null c = Some f" "clean f"
  shows "on_course g st act null w f"
proof -
  from C obtain q ts z where c: "yyErrorFlag c = 0" "tokens_ok (input c)" "parsed g st act null q (stack c) ts"
    "yyState c = int q" "remaining c z" "concat (map (sentence g) (rev ts)) @ z = w" unfolding coherent_def by blast
  note q = parsed_facts(1) [OF c(3)]
  let ?c = "read_token c"
  note T = read_token_remaining [OF c(2,5)]
  have P: "parsed g st act null q (stack ?c) ts" using c(3) by simp
  have flag: "yyErrorFlag ?c = 0" using c(1) by simp
  from S q obtain d where d: "cell (yyDefRed tb) (int q) = Some d" "d \<noteq> 0 \<Longrightarrow> \<exists>r \<in> set (rules_at g st q). d = int r - 2"
    unfolding arrays_sound_def by blast
  show ?thesis
  proof (cases "d = 0")
    case False
    with d obtain r where r: "r \<in> set (rules_at g st q)" "d = int r - 2" by blast
    have "reduce_by tb act null c (int r - 2) = Some f" using f(1) d(1) False c(4) r(2) by (simp add: try_turn_eq)
    from reduction_course [OF wf E S c(1,2,3,5,6) r(1) this] show ?thesis .
  next
    case zero: True
    from S q T(1) obtain b s where b: "cell (yySindex tb) (int q) = Some b" "look tb b (yyToken ?c) = Some s"
      "\<And>w. s = Some w \<Longrightarrow> \<exists>X q'. X < ntokens g \<and> yyToken ?c = symbol_value g ! X \<and> w = int q' \<and> lr_trans g st q X q'"
      unfolding arrays_sound_def by blast
    show ?thesis
    proof (cases s)
      case (Some s')
      with b(3) obtain X q' where X: "X < ntokens g" "yyToken ?c = symbol_value g ! X" "s' = int q'" "lr_trans g st q X q'" by blast
      have "f = Loop (?c\<lparr>yyState := int q', yyVal := lexval ?c, yyToken := - 1, yyErrorFlag := 0\<rparr>)"
        using f(1) d(1) zero b(1,2) Some X(3) c(1,4) by (simp add: try_turn_eq Let_def)
      with shift_course [OF V flag T(3) P c(6) T(4) X(1,2,4)] show ?thesis by simp
    next
      case None
      from S q T(1) obtain b' s' where b': "cell (yyRindex tb) (int q) = Some b'" "look tb b' (yyToken ?c) = Some s'"
        "\<And>w. s' = Some w \<Longrightarrow> \<exists>r \<in> set (rules_at g st q). w = int r - 2"
        unfolding arrays_sound_def by blast
      have eq: "try_turn tb act null c = (if b' = 0 then reduce_by tb act null ?c b'
          else case s' of Some r \<Rightarrow> reduce_by tb act null ?c r | None \<Rightarrow> no_action tb act null ?c (b' + yyToken ?c))"
        using d(1) zero b(1,2) None b'(1,2) c(4) by (simp add: try_turn_eq Let_def)
      have "b' \<noteq> 0" using f(1) reduce_by_0 [OF S, of act null ?c] unfolding eq by auto
      show ?thesis
      proof (cases s')
        case (Some r')
        with b'(3) obtain r where r: "r \<in> set (rules_at g st q)" "r' = int r - 2" by blast
        have "reduce_by tb act null ?c (int r - 2) = Some f" using f(1) \<open>b' \<noteq> 0\<close> Some r(2) unfolding eq by simp
        from reduction_course [OF wf E S flag T(3) P T(2) c(6) r(1) this] show ?thesis .
      next
        case None
        then have "reduce_by tb act null (?c\<lparr>reports := Suc (reports ?c)\<rparr>) (b' + yyToken ?c) = Some f"
          using f(1) \<open>b' \<noteq> 0\<close> c(1) unfolding eq by (simp add: no_action_def)
        from reduce_by_clean [OF this f(2)] show ?thesis by simp
      qed
    qed
  qed
qed

text \<open>What was reported stays reported.\<close>

lemma no_action_clean: "no_action tb act null c n = Some f \<Longrightarrow> clean f \<Longrightarrow> reports c = 0"
  by (auto simp: no_action_def recover_error_def Option.bind_eq_Some_conv split: if_splits option.splits dest: reduce_by_clean)

lemma turn_clean:
  assumes "try_turn tb act null c = Some f" "clean f"
  shows "reports c = 0"
proof -
  note D = reduce_by_clean [OF _ assms(2)] no_action_clean [OF _ assms(2)]
  from assms show ?thesis
    by (auto simp: try_turn_eq Let_def Option.bind_eq_Some_conv split: if_splits option.splits dest!: D)
qed

lemma proceed_course:
  assumes wf: "wf_grammar g" and V: "values_ok g" "symbol_value g ! 0 = 0" and E: "automaton g st" and S: "arrays_sound g st tb"
    and f: "clean f \<Longrightarrow> on_course g st act null w f" "clean (proceed tb act null n f)"
  shows "on_course g st act null w (proceed tb act null n f)"
proof (cases f)
  case (Loop c)
  with f show ?thesis by (auto simp: proceed_def turn_try enter_def coherent_def)
next
  case (Discarded c)
  show ?thesis
  proof (cases "try_turn tb act null c")
    case None
    with Discarded show ?thesis by (simp add: proceed_def turn_try)
  next
    case (Some f')
    with f(2) Discarded have "clean f'" by (simp add: proceed_def turn_try)
    with turn_clean [OF Some] f(1) Discarded have "coherent g st act null w c" by simp
    from turn_course [OF wf V E S this Some \<open>clean f'\<close>] Some Discarded show ?thesis by (simp add: proceed_def turn_try)
  qed
next
  case (Stop out)
  with f show ?thesis by (simp add: proceed_def turn_try)
qed

lemma run_course:
  assumes wf: "wf_grammar g" and V: "values_ok g" "symbol_value g ! 0 = 0" and E: "automaton g st" and S: "arrays_sound g st tb"
    and w: "tokens_ok w"
  shows "clean ((proceed tb act null n ^^ k) (Loop (start_config null w))) \<Longrightarrow>
    on_course g st act null w ((proceed tb act null n ^^ k) (Loop (start_config null w)))"
proof (induction k)
  case 0
  have "parsed g st act null 0 [(0, null)] []" by (rule parsed.bottom) (rule core_of_0(2) [OF E])
  with w show ?case
    by (auto simp: start_config_def coherent_def remaining_def intro!: exI [of _ 0] exI [of _ "[]"])
next
  case (Suc k)
  then show ?case using proceed_course [OF wf V E S Suc.IH] by simp
qed

lemma parser_sound:
  assumes wf: "wf_grammar g" and V: "values_ok g" "symbol_value g ! 0 = 0" and E: "automaton g st" and S: "arrays_sound g st tb"
    and w: "tokens_ok w" and R: "yyparse2 tb act null yyMax w k = Some (Return v 0)"
  shows "recognises g act null w v"
proof -
  have "(proceed tb act null (stack_size yyMax) ^^ k) (Loop (start_config null w)) = Stop (Return v 0)"
    using R by (auto simp: yyparse2_def split: flow.splits)
  with run_course [OF wf V E S w, where act = act and null = null and n = "stack_size yyMax" and k = k] show ?thesis by simp
qed

section \<open>The arrays that jay writes\<close>

text \<open>What the reader gives \<^verbatim>\<open>$end\<close> and \<^verbatim>\<open>$accept\<close> for a value.\<close>

definition end_values :: "grammar \<Rightarrow> bool" where
  "end_values g \<longleftrightarrow> symbol_value g ! 0 = 0 \<and> symbol_value g ! start_symbol g = - 1"

lemma arrays_of_simps:
  "yyLhs (arrays_of g R) = map (\<lambda>r. symbol_value g ! (rlhs g ! r)) [2..<nrules g]"
  "yyLen (arrays_of g R) = map (\<lambda>r. int (length (rhs_syms g r))) [2..<nrules g]"
  "yyDefRed (arrays_of g R) = map (\<lambda>q. defred_number (defred (run_parser R) ! q)) [0..<length (cores (run_automaton R))]"
  "yyDgoto (arrays_of g R) = map int (run_dgoto R)"
  "yySindex (arrays_of g R) = take (length (cores (run_automaton R))) (base (run_packed R))"
  "yyRindex (arrays_of g R) = take (length (cores (run_automaton R))) (drop (length (cores (run_automaton R))) (base (run_packed R)))"
  "yyGindex (arrays_of g R) = take (nvars g - 1) (drop (2 * length (cores (run_automaton R))) (base (run_packed R)))"
  "yyTable (arrays_of g R) = take (Suc (high (run_packed R))) (tbl (run_packed R))"
  "yyCheck (arrays_of g R) = take (Suc (high (run_packed R))) (chk (run_packed R))"
  "yyFinal (arrays_of g R) = int (final_state (run_parser R))"
  by (simp_all add: arrays_of_def emitted_def entry_def Let_def)

lemma cell_nth: "cell xs (int i) = (if i < length xs then Some (xs ! i) else None)"
  by (simp add: cell_def)

lemma cell_map: "cell (map f xs) i = map_option f (cell xs i)"
  by (auto simp: cell_def nat_less_iff)

lemma cell_rules: "2 \<le> r \<Longrightarrow> r < n \<Longrightarrow> cell [2..<n] (int r - 2) = Some r"
  by (simp add: cell_def nat_diff_distrib)

lemma look_table:
  assumes "high ps < length (chk ps)" "length (tbl ps) = length (chk ps)"
    and "yyTable tb = take (Suc (high ps)) (tbl ps)" "yyCheck tb = take (Suc (high ps)) (chk ps)"
  shows "look tb b k = Some (table_lookup ps b k)"
  using assms by (auto simp: look_def table_lookup_def cell_def nat_less_iff)

text \<open>The look-ups of the parser in the arrays of a run are the look-ups in its packed table.\<close>

lemma array_cells:
  assumes wf: "wf_grammar g" and V: "values_ok g" and out: "compile_tables g = Some (Inr R)"
  defines "n \<equiv> length (cores (run_automaton R))" and "ps \<equiv> run_packed R"
  shows "look (arrays_of g R) b k = Some (table_lookup ps b k)"
    "q < n \<Longrightarrow> cell (yyDefRed (arrays_of g R)) (int q) = Some (defred_number (defred (run_parser R) ! q))"
    "q < n \<Longrightarrow> cell (yySindex (arrays_of g R)) (int q) = Some (base ps ! q)"
    "q < n \<Longrightarrow> cell (yyRindex (arrays_of g R)) (int q) = Some (base ps ! (n + q))"
    "a < nvars g - 1 \<Longrightarrow> cell (yyGindex (arrays_of g R)) (int a) = Some (base ps ! (2 * n + a))"
    "a < nvars g - 1 \<Longrightarrow> cell (yyDgoto (arrays_of g R)) (int a) = Some (int (run_dgoto R ! a))"
proof -
  note sz = run_sizes [OF wf V out, folded n_def ps_def]
  show "look (arrays_of g R) b k = Some (table_lookup ps b k)"
    by (rule look_table [OF sz(3,4)]) (simp_all add: arrays_of_simps ps_def)
  show "q < n \<Longrightarrow> cell (yyDefRed (arrays_of g R)) (int q) = Some (defred_number (defred (run_parser R) ! q))"
    "q < n \<Longrightarrow> cell (yySindex (arrays_of g R)) (int q) = Some (base ps ! q)"
    "q < n \<Longrightarrow> cell (yyRindex (arrays_of g R)) (int q) = Some (base ps ! (n + q))"
    "a < nvars g - 1 \<Longrightarrow> cell (yyGindex (arrays_of g R)) (int a) = Some (base ps ! (2 * n + a))"
    "a < nvars g - 1 \<Longrightarrow> cell (yyDgoto (arrays_of g R)) (int a) = Some (int (run_dgoto R ! a))"
    using sz by (simp_all add: arrays_of_simps cell_nth n_def [symmetric] ps_def [symmetric])
qed

lemma arrays_of_sound:
  assumes wf: "wf_grammar g" and V: "values_ok g" "end_values g" and out: "compile_tables g = Some (Inr R)"
  shows "arrays_sound g (run_automaton R) (arrays_of g R)"
proof -
  have R: "run_ok g R" using compile_tables_correct [OF wf V(1)] out by auto
  let ?st = "run_automaton R" and ?ps = "run_packed R" and ?p = "run_parser R" and ?tb = "arrays_of g R"
  let ?n = "length (cores ?st)"
  have E: "automaton g ?st" and T: "tables_ok g ?st (run_tables R)" and P: "parser_ok g ?st ?p"
    and o: "output_actions g (run_tables R) ?n ?p = Inr (run_dgoto R, ?ps)"
    using R unfolding run_ok_def automaton_ok_def lookaheads_ok_def by blast+
  note C = array_cells [OF wf V(1) out]
  note U = output_actions_unknown [OF wf V(1) E T P o]
  from run_tables_sound [OF wf V(1) R] have S:
    "\<And>q X w. q < ?n \<Longrightarrow> X < ntokens g \<Longrightarrow> shift_lookup g ?ps q X = Some w \<Longrightarrow> \<exists>s. w = int s \<and> lr_trans g ?st q X s"
    "\<And>q X w. q < ?n \<Longrightarrow> X < ntokens g \<Longrightarrow> reduce_lookup g ?ps ?n q X = Some w \<Longrightarrow> \<exists>r \<in> set (rules_at g ?st q). w = int r - 2"
    "\<And>q a s. a < nvars g - 1 \<Longrightarrow> lr_trans g ?st q (start_symbol g + 1 + a) s \<Longrightarrow> goto_lookup ?ps (run_dgoto R) ?n a q = int s"
    unfolding tables_sound_def Let_def by blast+
  have known: "\<exists>X < ntokens g. k = symbol_value g ! X"
    if "q < ?n" "0 \<le> k" "table_lookup ?ps (base ?ps ! q) k \<noteq> None \<or> table_lookup ?ps (base ?ps ! (?n + q)) k \<noteq> None" for q k
  proof -
    have "k \<in> (!) (symbol_value g) ` {0..<ntokens g}" using U [OF that(1,2)] that(3) by blast
    then show ?thesis by auto
  qed
  have defred: "\<exists>d. cell (yyDefRed ?tb) (int q) = Some d \<and> (d \<noteq> 0 \<longrightarrow> (\<exists>r \<in> set (rules_at g ?st q). d = int r - 2))"
    if q: "q < ?n" for q
    using C(2) [OF q] default_reduction_rule [OF P q] by (auto simp: defred_number_def)
  have sindex: "\<exists>b s. cell (yySindex ?tb) (int q) = Some b \<and> look ?tb b k = Some s \<and>
      (\<forall>w. s = Some w \<longrightarrow> (\<exists>X q'. X < ntokens g \<and> k = symbol_value g ! X \<and> w = int q' \<and> lr_trans g ?st q X q'))"
    if q: "q < ?n" and k: "0 \<le> k" for q k
  proof -
    have "\<exists>X q'. X < ntokens g \<and> k = symbol_value g ! X \<and> w = int q' \<and> lr_trans g ?st q X q'"
      if w: "table_lookup ?ps (base ?ps ! q) k = Some w" for w
    proof -
      from known [OF q k] w obtain X where X: "X < ntokens g" "k = symbol_value g ! X" by auto
      from S(1) [OF q X(1)] w X show ?thesis by (auto simp: shift_lookup_def)
    qed
    with C(1) C(3) [OF q] show ?thesis by simp
  qed
  have rindex: "\<exists>b s. cell (yyRindex ?tb) (int q) = Some b \<and> look ?tb b k = Some s \<and>
      (\<forall>w. s = Some w \<longrightarrow> (\<exists>r \<in> set (rules_at g ?st q). w = int r - 2))"
    if q: "q < ?n" and k: "0 \<le> k" for q k
  proof -
    have "\<exists>r \<in> set (rules_at g ?st q). w = int r - 2" if w: "table_lookup ?ps (base ?ps ! (?n + q)) k = Some w" for w
    proof -
      from known [OF q k] w obtain X where X: "X < ntokens g" "k = symbol_value g ! X" by auto
      from S(2) [OF q X(1)] w X show ?thesis by (auto simp: reduce_lookup_def)
    qed
    with C(1) C(4) [OF q] show ?thesis by simp
  qed
  have rules: "cell (yyLhs ?tb) (int r - 2) = Some (int (rlhs g ! r) - int (start_symbol g) - 1) \<and>
      cell (yyLen ?tb) (int r - 2) = Some (int (length (rhs_syms g r)))" if r: "3 \<le> r" "r < nrules g" for r
  proof -
    note W = wf_ruleD(1,2) [OF wf r]
    then have "symbol_value g ! (rlhs g ! r) = int (rlhs g ! r - start_symbol g - 1)" using V(1) unfolding values_ok_def by blast
    then show ?thesis using r W(1) by (simp add: arrays_of_simps cell_map cell_rules of_nat_diff)
  qed
  have accept: "cell (yyLhs ?tb) 0 = Some (- 1)"
    using V(2) wf_headerD(10) [OF wf] wf_sizesD(8) [OF wf] cell_rules [of 2 "nrules g"]
    by (simp add: arrays_of_simps cell_map end_values_def)
  have gindex: "\<exists>b w. cell (yyGindex ?tb) (int a) = Some b \<and> look ?tb b (int q) = Some w \<and>
      (case w of Some x \<Rightarrow> Some x | None \<Rightarrow> cell (yyDgoto ?tb) (int a)) = Some (int s)"
    if a: "a < nvars g - 1" and tr: "lr_trans g ?st q (start_symbol g + 1 + a) s" for q a s
    using C(1) C(5,6) [OF a] S(3) [OF a tr] by (auto simp: goto_lookup_def split: option.splits)
  have final: "\<exists>f. yyFinal ?tb = int f \<and> lr_trans g ?st 0 (start_symbol g + 1) f"
    using P unfolding parser_ok_def by (intro exI [of _ "final_state ?p"]) (simp add: arrays_of_simps)
  show ?thesis
    unfolding arrays_sound_def using defred sindex rindex rules accept gindex final by blast
qed

text \<open>From a state with a goto, every rule of the nonterminal is a path to a state where it is complete.\<close>

lemma items_path:
  assumes wf: "wf_grammar g" and E: "automaton g st"
  shows "i \<le> e \<Longrightarrow> \<forall>j. i \<le> j \<and> j < e \<longrightarrow> 0 < ritem g ! j \<Longrightarrow> s < length (cores st) \<Longrightarrow> i \<in> set (state_items g st s) \<Longrightarrow>
    \<exists>q. lr_path g st s (map (\<lambda>j. nat (ritem g ! j)) [i..<e]) q \<and> q < length (cores st) \<and> e \<in> set (state_items g st q)"
proof (induction "e - i" arbitrary: i s)
  case 0
  then show ?case by auto
next
  case (Suc d)
  then have lt: "i < e" by simp
  with Suc.prems have X: "ritem g ! i = int (nat (ritem g ! i))" "0 < nat (ritem g ! i)" by auto
  from item_trans [OF wf E Suc.prems(3,4) X] obtain q0 where
    q0: "lr_trans g st s (nat (ritem g ! i)) q0" "Suc i \<in> set (state_items g st q0)" by blast
  have "d = e - Suc i" "Suc i \<le> e" "\<forall>j. Suc i \<le> j \<and> j < e \<longrightarrow> 0 < ritem g ! j" using Suc.hyps(2) Suc.prems(2) lt by auto
  from Suc.hyps(1) [OF this transD(3) [OF q0(1)] q0(2)] show ?case
    using q0(1) lt by (auto simp: upt_conv_Cons)
qed

lemma goto_rule_path:
  assumes wf: "wf_grammar g" and E: "automaton g st" and tr: "lr_trans g st p B q"
    and r: "3 \<le> r" "r < nrules g" "rlhs g ! r = B" "start_symbol g \<le> B"
  shows "\<exists>q'. lr_path g st p (rhs_syms g r) q' \<and> r \<in> set (rules_at g st q')"
proof -
  have r1: "1 \<le> r" using r by simp
  have "\<forall>j. rrhs g ! r \<le> j \<and> j < rrhs g ! Suc r - 1 \<longrightarrow> 0 < ritem g ! j" using wf_ruleD(6) [OF wf r(1,2)] by blast
  moreover have "rrhs g ! r \<le> rrhs g ! Suc r - 1" using rule_block(1) [OF wf r1 r(2)] by simp
  ultimately obtain q' where q': "lr_path g st p (map (\<lambda>j. nat (ritem g ! j)) [rrhs g ! r..<rrhs g ! Suc r - 1]) q'"
      "q' < length (cores st)" "rrhs g ! Suc r - 1 \<in> set (state_items g st q')"
    using items_path [OF wf E _ _ transD(1) [OF tr]] goto_rule_item(1) [OF wf E tr r(2,3,4)] by blast
  then show ?thesis using rules_at_distinct(2) [OF wf E q'(2)] r1 r(2) unfolding rhs_syms_def by blast
qed

section \<open>Completeness\<close>

text \<open>What the arrays hold of a state without conflicts.\<close>

definition arrays_complete :: "grammar \<Rightarrow> lr0_state \<Rightarrow> arrays \<Rightarrow> bool" where
  "arrays_complete g st tb \<longleftrightarrow> (\<forall>q < length (cores st). inj_on act_symbol (row_of g st q) \<longrightarrow>
     (\<forall>X s. X < ntokens g \<longrightarrow> lr_trans g st q X s \<longrightarrow> cell (yyDefRed tb) (int q) = Some 0 \<and>
        (\<exists>b. cell (yySindex tb) (int q) = Some b \<and> look tb b (symbol_value g ! X) = Some (Some (int s)))) \<and>
     (\<forall>r X. r \<in> set (rules_at g st q) \<longrightarrow> X < ntokens g \<longrightarrow> X \<in> LALR_set g st q r \<longrightarrow>
        cell (yyDefRed tb) (int q) = Some (int r - 2) \<or> cell (yyDefRed tb) (int q) = Some 0 \<and>
        (\<exists>b. cell (yySindex tb) (int q) = Some b \<and> look tb b (symbol_value g ! X) = Some None) \<and>
        (\<exists>b. b \<noteq> 0 \<and> cell (yyRindex tb) (int q) = Some b \<and> look tb b (symbol_value g ! X) = Some (Some (int r - 2)))))"

lemma conflict_free_defred:
  assumes wf: "wf_grammar g" and V: "values_ok g" and R: "run_ok g R"
  defines "st \<equiv> run_automaton R" and "p \<equiv> run_parser R"
  assumes q: "q < length (cores st)" and inj: "inj_on act_symbol (row_of g st q)" and d: "0 < defred p ! q"
    and b: "b \<in> row_of g st q"
  shows "act_code b = REDUCE \<and> act_number b = defred p ! q"
proof -
  have P: "parser_ok g st p" using R unfolding run_ok_def st_def p_def by blast
  have pos: "\<forall>a \<in> live (parser p ! q). act_code a = REDUCE \<longrightarrow> 0 < act_number a"
    using live_row [OF P q] rules_at_positive by (fastforce simp: row_of_def shift_action_def reduce_action_def)
  have "length (parser p) = length (cores st)" "defred p = map sole_reduction (parser p)"
    using P unfolding parser_ok_def by blast+
  then have "sole_reduction (parser p ! q) = defred p ! q" using q by simp
  with sole_reduction_iff [OF pos d] have all: "\<forall>a \<in> live (parser p ! q). act_code a = REDUCE \<and> act_number a = defred p ! q" by blast
  have "b\<lparr>suppressed := 0\<rparr> \<in> live (parser p ! q)"
    using conflict_free_row(3) [OF wf V R] q inj b unfolding st_def p_def by blast
  from bspec [OF all this] show ?thesis by simp
qed

lemma arrays_of_complete:
  assumes wf: "wf_grammar g" and V: "values_ok g" and out: "compile_tables g = Some (Inr R)"
  shows "arrays_complete g (run_automaton R) (arrays_of g R)"
proof -
  have R: "run_ok g R" using compile_tables_correct [OF wf V] out by auto
  let ?st = "run_automaton R" and ?ps = "run_packed R" and ?p = "run_parser R" and ?tb = "arrays_of g R"
  let ?n = "length (cores ?st)"
  note C = array_cells [OF wf V out] and D = conflict_free_defred [OF wf V R] and F = conflict_free_row [OF wf V R]
  from run_tables_sound [OF wf V R] have S:
    "\<And>q X w. q < ?n \<Longrightarrow> X < ntokens g \<Longrightarrow> shift_lookup g ?ps q X = Some w \<Longrightarrow> \<exists>s. w = int s \<and> lr_trans g ?st q X s"
    unfolding tables_sound_def Let_def by blast
  have tok: "X < start_symbol g" if "X < ntokens g" for X using that wf_sizesD(5) [OF wf] by simp
  have shift: "cell (yyDefRed ?tb) (int q) = Some 0 \<and>
      (\<exists>b. cell (yySindex ?tb) (int q) = Some b \<and> look ?tb b (symbol_value g ! X) = Some (Some (int s)))"
    if q: "q < ?n" "inj_on act_symbol (row_of g ?st q)" and X: "X < ntokens g" "lr_trans g ?st q X s" for q X s
  proof -
    have "shift_action g X s \<in> row_of g ?st q" using tok X unfolding row_of_def by blast
    from D [OF q _ this] have "defred ?p ! q = 0" by (auto simp: shift_action_def)
    with C(1) C(2,3) [OF q(1)] F(4) [OF q X] show ?thesis by (simp add: defred_number_def shift_lookup_def)
  qed
  have reduce: "cell (yyDefRed ?tb) (int q) = Some (int r - 2) \<or> cell (yyDefRed ?tb) (int q) = Some 0 \<and>
      (\<exists>b. cell (yySindex ?tb) (int q) = Some b \<and> look ?tb b (symbol_value g ! X) = Some None) \<and>
      (\<exists>b. b \<noteq> 0 \<and> cell (yyRindex ?tb) (int q) = Some b \<and> look ?tb b (symbol_value g ! X) = Some (Some (int r - 2)))"
    if q: "q < ?n" "inj_on act_symbol (row_of g ?st q)" and r: "r \<in> set (rules_at g ?st q)"
      and X: "X < ntokens g" "X \<in> LALR_set g ?st q r" for q r X
  proof -
    have row: "reduce_action g X r \<in> row_of g ?st q" using r X unfolding row_of_def by blast
    show ?thesis
    proof (cases "defred ?p ! q = 0")
      case False
      with D [OF q _ row] have "defred ?p ! q = r" by (simp add: reduce_action_def)
      with False C(2) [OF q(1)] show ?thesis by (simp add: defred_number_def)
    next
      case True
      then have "r \<noteq> defred ?p ! q" using rules_at_positive [OF r] by simp
      with F(5) [OF q r X] have red: "reduce_lookup g ?ps ?n q X = Some (int r - 2)" by simp
      have "shift_lookup g ?ps q X = None"
      proof (cases "shift_lookup g ?ps q X")
        case (Some w)
        with S [OF q(1) X(1)] obtain s where "lr_trans g ?st q X s" by blast
        then have "shift_action g X s \<in> row_of g ?st q" using tok [OF X(1)] unfolding row_of_def by blast
        from inj_onD [OF q(2) _ this row] show ?thesis by (simp add: shift_action_def reduce_action_def)
      qed simp
      moreover have "base ?ps ! (?n + q) \<noteq> 0" using red by (auto simp: reduce_lookup_def table_lookup_def split: if_splits)
      ultimately show ?thesis using True red C(1) C(2,3,4) [OF q(1)]
        by (simp add: defred_number_def shift_lookup_def reduce_lookup_def)
    qed
  qed
  show ?thesis unfolding arrays_complete_def using shift reduce by blast
qed

text \<open>The room on the stack that a tree needs.\<close>

fun need :: "'v ptree \<Rightarrow> nat" where
  "need (Leaf X v) = 1"
| "need (Node r ts) = max 1 (foldr (\<lambda>t n. max (need t) (Suc n)) ts 0)"

text \<open>The symbol of the next token, \<^verbatim>\<open>$end\<close> at the end.\<close>

definition ahead :: "grammar \<Rightarrow> (int \<times> 'v) list \<Rightarrow> nat \<Rightarrow> bool" where
  "ahead g z a \<longleftrightarrow> z = [] \<and> a = 0 \<or> (\<exists>v z'. z = (symbol_value g ! a, v) # z' \<and> 0 < a \<and> a < ntokens g)"

lemma ahead_unique: "values_ok g \<Longrightarrow> ahead g z a \<Longrightarrow> ahead g z b \<Longrightarrow> a = b"
  by (auto simp: ahead_def values_ok_def dest: inj_onD)

text \<open>The tokens that can be shifted in a state, at once or behind symbols that derive nothing.\<close>

inductive readable :: "grammar \<Rightarrow> lr0_state \<Rightarrow> nat \<Rightarrow> nat \<Rightarrow> bool" for g st where
  direct: "a < start_symbol g \<Longrightarrow> lr_trans g st s a q \<Longrightarrow> readable g st s a"
| skip: "lr_trans g st s N q \<Longrightarrow> derives_empty g N \<Longrightarrow> readable g st q a \<Longrightarrow> readable g st s a"

lemma readable_read_set:
  assumes wf: "wf_grammar g"
  shows "readable g st q a \<Longrightarrow> lr_trans g st p X q \<Longrightarrow> start_symbol g \<le> X \<Longrightarrow> a \<in> read_set g st (p, X)"
proof (induction arbitrary: p X rule: readable.induct)
  case (direct a s q)
  then have "a \<in> direct_reads g st (p, X)" by (auto simp: direct_reads_def)
  then show ?case unfolding read_set_def reach_union_def by blast
next
  case (skip s N q a)
  have "((p, X), (s, N)) \<in> reads_rel g st"
    using skip derives_empty_var [OF wf skip.hyps(2)] by (auto simp: reads_rel_def is_goto_def)
  moreover have "a \<in> read_set g st (s, N)" using skip derives_empty_var [OF wf skip.hyps(2)] by blast
  ultimately show ?case unfolding read_set_def reach_union_def by (auto intro: converse_rtrancl_into_rtrancl)
qed

lemma empty_sentence: "derivation g t \<Longrightarrow> sentence g t = [] \<Longrightarrow> derives_empty g (root g t)"
proof (induction t)
  case (Node r ts)
  have "derives_empty g s" if "s \<in> set (rhs_syms g r)" for s
  proof -
    have "rhs_syms g r = map (root g) ts" using Node.prems(1) by simp
    with that obtain u where u: "u \<in> set ts" "s = root g u" by auto
    with Node show ?thesis by (auto simp: list_all_iff)
  qed
  then show ?case using Node.prems(1) by (auto intro!: derives_empty.rule)
qed simp

lemma first_readable:
  assumes wf: "wf_grammar g" and V: "values_ok g" and E: "automaton g st"
  shows "derivation g t \<Longrightarrow> sentence g t \<noteq> [] \<Longrightarrow> ahead g (sentence g t @ z) a \<Longrightarrow> lr_trans g st s (root g t) q \<Longrightarrow>
    readable g st s a"
proof (induction t arbitrary: s q z)
  case (Leaf X v)
  then have "ahead g ((symbol_value g ! X, v) # z) X" by (auto simp: ahead_def)
  with ahead_unique [OF V] Leaf.prems have "a = X" by fastforce
  with Leaf.prems wf_sizesD(5) [OF wf] show ?case by (auto intro: readable.direct)
next
  case (Node r ts)
  have D: "3 \<le> r" "r < nrules g" "map (root g) ts = rhs_syms g r" "list_all (derivation g) ts" using Node.prems(1) by simp_all
  have tr: "lr_trans g st s (rlhs g ! r) q" using Node.prems(4) by simp
  have B: "start_symbol g \<le> rlhs g ! r" using wf_ruleD(1) [OF wf D(1,2)] by simp
  from goto_rule_path [OF wf E tr D(1,2) refl B] obtain q' where path: "lr_path g st s (map (root g) ts) q'"
    unfolding D(3) by blast
  have "readable g st s' a"
    if "set us \<subseteq> set ts" "lr_path g st s' (map (root g) us) q'" "concat (map (sentence g) us) \<noteq> []"
      "ahead g (concat (map (sentence g) us) @ z) a" for us s'
    using that
  proof (induction us arbitrary: s')
    case (Cons u us)
    then obtain s2 where s2: "lr_trans g st s' (root g u) s2" "lr_path g st s2 (map (root g) us) q'" by auto
    have u: "u \<in> set ts" "derivation g u" using Cons.prems(1) D(4) by (auto simp: list_all_iff)
    show ?case
    proof (cases "sentence g u = []")
      case True
      with Cons s2 have "readable g st s2 a" by simp
      with s2(1) empty_sentence [OF u(2) True] show ?thesis by (rule readable.skip)
    next
      case False
      with Node.IH [OF u(1,2) False _ s2(1), of "concat (map (sentence g) us) @ z"] Cons.prems(4) show ?thesis by simp
    qed
  qed simp
  from this [OF subset_refl path] Node.prems(2,3) show ?case by simp
qed

lemma child_follow:
  assumes wf: "wf_grammar g" and V: "values_ok g" and E: "automaton g st"
    and r: "r < nrules g" and rhs: "rhs_syms g r = \<beta> @ root g u # map (root g) us"
    and us: "list_all (derivation g) us"
    and p: "lr_path g st p \<beta> s" "lr_trans g st s (root g u) s'" "lr_path g st s' (map (root g) us) q'"
    and A: "is_goto g st (p, rlhs g ! r)" "b \<in> follow_set g st (p, rlhs g ! r)"
    and z: "ahead g z b" "ahead g (concat (map (sentence g) us) @ z) a" and u: "start_symbol g \<le> root g u"
  shows "a \<in> follow_set g st (s, root g u)"
proof (cases "concat (map (sentence g) us) = []")
  case True
  have "ahead g z a" using z(2) unfolding True by simp
  from ahead_unique [OF V this z(1)] have "a = b" .
  have "derives_empty g X" if "X \<in> set (map (root g) us)" for X
  proof -
    from that obtain t where t: "t \<in> set us" "X = root g t" by auto
    with us True empty_sentence [of g t] show ?thesis by (auto simp: list_all_iff)
  qed
  then have "\<exists>\<beta> \<gamma>. rhs_syms g r = \<beta> @ root g u # \<gamma> \<and> (\<forall>X \<in> set \<gamma>. derives_empty g X) \<and> lr_path g st p \<beta> s"
    using rhs p(1) by (intro exI [of _ \<beta>] exI [of _ "map (root g) us"]) simp
  moreover have "is_goto g st (s, root g u)" using u p(2) by (auto simp: is_goto_def)
  ultimately have "((s, root g u), (p, rlhs g ! r)) \<in> includes_rel g st"
    unfolding includes_rel_def using r A(1) by auto
  with A(2) \<open>a = b\<close> show ?thesis
    unfolding follow_set_def reach_union_def by (auto intro: converse_rtrancl_into_rtrancl)
next
  case False
  have "readable g st s' a" using us p(3) False z(2)
  proof (induction us arbitrary: s')
    case (Cons t us)
    then obtain s2 where s2: "lr_trans g st s' (root g t) s2" "lr_path g st s2 (map (root g) us) q'" by auto
    show ?case
    proof (cases "sentence g t = []")
      case True
      with Cons s2 have "readable g st s2 a" by simp
      with s2(1) empty_sentence [of g t] True Cons.prems(1) show ?thesis by (auto intro: readable.skip)
    next
      case False
      with first_readable [OF wf V E _ False _ s2(1), of "concat (map (sentence g) us) @ z"] Cons.prems show ?thesis by simp
    qed
  qed simp
  from readable_read_set [OF wf this p(2) u] show ?thesis
    unfolding follow_set_def reach_union_def by blast
qed

text \<open>Runs of the parser.\<close>

definition runs_to :: "arrays \<Rightarrow> (int \<Rightarrow> 'v list \<Rightarrow> 'v \<Rightarrow> 'v) \<Rightarrow> 'v \<Rightarrow> nat \<Rightarrow> 'v flow \<Rightarrow> 'v flow \<Rightarrow> bool" where
  "runs_to tb act null m f f' \<longleftrightarrow> (\<exists>n. (proceed tb act null m ^^ n) f = f')"

lemma runs_to_refl: "runs_to tb act null m f f"
  unfolding runs_to_def by (rule exI [of _ 0]) simp

lemma runs_to_step: "runs_to tb act null m (proceed tb act null m f) f' \<Longrightarrow> runs_to tb act null m f f'"
proof -
  assume "runs_to tb act null m (proceed tb act null m f) f'"
  then obtain n where "(proceed tb act null m ^^ n) (proceed tb act null m f) = f'" by (auto simp: runs_to_def)
  then have "(proceed tb act null m ^^ Suc n) f = f'" by (simp add: funpow_swap1)
  then show ?thesis unfolding runs_to_def by blast
qed

lemma runs_to_trans: "runs_to tb act null m f f' \<Longrightarrow> runs_to tb act null m f' f'' \<Longrightarrow> runs_to tb act null m f f''"
proof -
  assume "runs_to tb act null m f f'" "runs_to tb act null m f' f''"
  then obtain i j where "(proceed tb act null m ^^ i) f = f'" "(proceed tb act null m ^^ j) f' = f''" by (auto simp: runs_to_def)
  then have "(proceed tb act null m ^^ (j + i)) f = f''" by (simp add: funpow_add)
  then show ?thesis unfolding runs_to_def by blast
qed

definition unread :: "'v config \<Rightarrow> (int \<times> 'v) list \<Rightarrow> bool" where
  "unread c z \<longleftrightarrow> yyErrorFlag c = 0 \<and> tokens_ok (input c) \<and> remaining c z"

lemma unread_upd [simp]:
  "unread (c\<lparr>stack := k\<rparr>) z = unread c z" "unread (c\<lparr>yyState := s\<rparr>) z = unread c z" "unread (c\<lparr>yyVal := v\<rparr>) z = unread c z"
  by (simp_all add: unread_def)

lemma unread_read: "unread c z \<Longrightarrow> unread (read_token c) z"
  using read_token_remaining [of c z] by (simp add: unread_def)

text \<open>The parser has returned, without a report, or has the trees \<open>us\<close> on top of the stack it began with.\<close>

definition reached :: "grammar \<Rightarrow> lr0_state \<Rightarrow> arrays \<Rightarrow> (int \<Rightarrow> 'v list \<Rightarrow> 'v \<Rightarrow> 'v) \<Rightarrow> 'v \<Rightarrow> nat \<Rightarrow> 'v config \<Rightarrow>
    'v ptree list \<Rightarrow> 'v ptree list \<Rightarrow> nat \<Rightarrow> (int \<times> 'v) list \<Rightarrow> bool" where
  "reached g st tb act null m c us ts q z \<longleftrightarrow>
     (\<exists>v. runs_to tb act null m (Discarded c) (Stop (Return v (reports c)))) \<or>
     (\<exists>c'. runs_to tb act null m (Discarded c) (Discarded c') \<and> parsed g st act null q (stack c') (rev us @ ts) \<and>
        drop (length us) (stack c') = stack c \<and> yyState c' = int q \<and> unread c' z \<and> reports c' = reports c)"

lemma enter_reached:
  assumes P: "parsed g st act null p k ts" and t: "lr_trans g st p (root g t) q" "derivation g t"
    and f: "runs_to tb act null m (Discarded c0) (Loop c)" "stack c = k" "yyState c = int q" "yyVal c = meaning act null t"
      "unread c z" "reports c = reports c0" "k = stack c0" and m: "length k < m"
  shows "reached g st tb act null m c0 [t] ts q z"
proof -
  have "proceed tb act null m (Loop c) = Discarded (c\<lparr>stack := (int q, meaning act null t) # k\<rparr>)"
    using f m by (simp add: proceed_def turn_try enter_def)
  then have "runs_to tb act null m (Discarded c0) (Discarded (c\<lparr>stack := (int q, meaning act null t) # k\<rparr>))"
    using runs_to_trans [OF f(1) runs_to_step] runs_to_refl by metis
  with parsed.shift [OF P t] f show ?thesis unfolding reached_def
    by (intro disjI2 exI [of _ "c\<lparr>stack := (int q, meaning act null t) # k\<rparr>"] conjI) simp_all
qed

lemma reached_Cons:
  assumes "reached g st tb act null m c [t] ts s y"
    and "\<And>c'. parsed g st act null s (stack c') (t # ts) \<Longrightarrow> tl (stack c') = stack c \<Longrightarrow> yyState c' = int s \<Longrightarrow> unread c' y \<Longrightarrow>
      reached g st tb act null m c' us (t # ts) q z"
  shows "reached g st tb act null m c (t # us) ts q z"
  using assms(1) unfolding reached_def [of g st tb act null m c "[t]"]
proof (elim disjE exE conjE)
  fix v assume "runs_to tb act null m (Discarded c) (Stop (Return v (reports c)))"
  then show ?thesis unfolding reached_def by blast
next
  fix c' assume c': "runs_to tb act null m (Discarded c) (Discarded c')" "parsed g st act null s (stack c') (rev [t] @ ts)"
    "drop (length [t]) (stack c') = stack c" "yyState c' = int s" "unread c' y" "reports c' = reports c"
  then have tl: "tl (stack c') = stack c" by (simp add: drop_Suc)
  from assms(2) [OF _ tl c'(4,5)] c'(2) have "reached g st tb act null m c' us (t # ts) q z" by simp
  then show ?thesis unfolding reached_def
  proof (elim disjE exE conjE)
    fix v assume "runs_to tb act null m (Discarded c') (Stop (Return v (reports c')))"
    with runs_to_trans [OF c'(1)] c'(6) show "(\<exists>v. runs_to tb act null m (Discarded c) (Stop (Return v (reports c)))) \<or> (\<exists>c'.
        runs_to tb act null m (Discarded c) (Discarded c') \<and> parsed g st act null q (stack c') (rev (t # us) @ ts) \<and>
        drop (length (t # us)) (stack c') = stack c \<and> yyState c' = int q \<and> unread c' z \<and> reports c' = reports c)" by auto
  next
    fix c2 assume c2: "runs_to tb act null m (Discarded c') (Discarded c2)" "parsed g st act null q (stack c2) (rev us @ t # ts)"
      "drop (length us) (stack c2) = stack c'" "yyState c2 = int q" "unread c2 z" "reports c2 = reports c'"
    have "drop (length (t # us)) (stack c2) = stack c" using c2(3) tl by (metis drop_Suc drop_drop drop_tl length_Cons plus_1_eq_Suc)
    with c2 c' runs_to_trans [OF c'(1) c2(1)] show "(\<exists>v. runs_to tb act null m (Discarded c) (Stop (Return v (reports c)))) \<or> (\<exists>c'.
        runs_to tb act null m (Discarded c) (Discarded c') \<and> parsed g st act null q (stack c') (rev (t # us) @ ts) \<and>
        drop (length (t # us)) (stack c') = stack c \<and> yyState c' = int q \<and> unread c' z \<and> reports c' = reports c)" by auto
  qed
qed

lemma unread_token:
  assumes "unread c z" "ahead g z a" "symbol_value g ! 0 = 0"
  shows "yyToken (read_token c) = symbol_value g ! a"
    "a \<noteq> 0 \<Longrightarrow> z = (symbol_value g ! a, lexval (read_token c)) # input (read_token c)"
  using assms read_token_remaining(4) [of c z] by (auto simp: unread_def ahead_def)

text \<open>A token is shifted where the automaton has a transition.\<close>

lemma shift_reached:
  assumes wf: "wf_grammar g" and V: "values_ok g" "symbol_value g ! 0 = 0" and Cp: "arrays_complete g st tb"
    and q: "inj_on act_symbol (row_of g st p)"
    and P: "parsed g st act null p (stack c) ts" and c: "yyState c = int p" "unread c ((symbol_value g ! X, v) # z)"
    and X: "0 < X" "X < ntokens g" "lr_trans g st p X s" and m: "length (stack c) < m"
  shows "reached g st tb act null m c [Leaf X v] ts s z"
proof -
  let ?c = "read_token c"
  have ah: "ahead g ((symbol_value g ! X, v) # z) X" using X by (auto simp: ahead_def)
  note T = unread_token [OF c(2) ah V(2)]
  have l: "lexval ?c = v" "input ?c = z" using T(2) X(1) by auto
  from Cp transD(1) [OF X(3)] q X(2,3) obtain b where d: "cell (yyDefRed tb) (int p) = Some 0"
    "cell (yySindex tb) (int p) = Some b" "look tb b (symbol_value g ! X) = Some (Some (int s))"
    unfolding arrays_complete_def by blast
  let ?d = "?c\<lparr>yyState := int s, yyVal := v, yyToken := - 1, yyErrorFlag := 0\<rparr>"
  have "try_turn tb act null c = Some (Loop ?d)"
    using d T(1) l c by (simp add: try_turn_eq Let_def unread_def)
  then have "proceed tb act null m (Discarded c) = Loop ?d" by (simp add: proceed_def turn_try)
  then have r: "runs_to tb act null m (Discarded c) (Loop ?d)" using runs_to_step runs_to_refl by metis
  have "unread ?d z" using l(2) unread_read [OF c(2)] by (simp add: unread_def remaining_def)
  from enter_reached [OF P _ _ r _ _ _ this _ _ m, of "Leaf X v" s] X show ?thesis by simp
qed

text \<open>A complete rule is reduced by on a token of its look-ahead set.\<close>

lemma reduce_reached:
  assumes wf: "wf_grammar g" and V: "values_ok g" "symbol_value g ! 0 = 0" and E: "automaton g st"
    and S: "arrays_sound g st tb" and Cp: "arrays_complete g st tb" and inj: "inj_on act_symbol (row_of g st q)"
    and P: "parsed g st act null q (stack c) (rev us @ ts)" and c: "yyState c = int q" "unread c z"
    and r: "r \<in> set (rules_at g st q)" "length us = length (rhs_syms g r)"
    and a: "ahead g z a" "a \<in> LALR_set g st q r" "a < ntokens g"
  shows "\<exists>p s d. parsed g st act null p (drop (length us) (stack c)) ts \<and> lr_trans g st p (rlhs g ! r) s \<and>
    derivation g (Node r us) \<and> yyState d = int s \<and> yyVal d = meaning act null (Node r us) \<and>
    stack d = drop (length us) (stack c) \<and> unread d z \<and> reports d = reports c \<and>
    proceed tb act null m (Discarded c) = goes_on g p (rlhs g ! r) d"
proof -
  note q = parsed_facts(1) [OF P]
  have "\<exists>c'. try_turn tb act null c = reduce_by tb act null c' (int r - 2) \<and> stack c' = stack c \<and> unread c' z \<and> reports c' = reports c"
  proof -
    note T = unread_token(1) [OF c(2) a(1) V(2)]
    have r3: "int r - 2 \<noteq> 0" using complete_rule_ge_3(1) [OF wf E P r(1)] by simp
    from Cp q inj r(1) a(2,3) consider "cell (yyDefRed tb) (int q) = Some (int r - 2)"
      | b b' where "cell (yyDefRed tb) (int q) = Some 0" "cell (yySindex tb) (int q) = Some b"
          "look tb b (symbol_value g ! a) = Some None" "b' \<noteq> 0" "cell (yyRindex tb) (int q) = Some b'"
          "look tb b' (symbol_value g ! a) = Some (Some (int r - 2))"
      unfolding arrays_complete_def by blast
    then show ?thesis
    proof cases
      case 1
      with c r3 show ?thesis by (intro exI [of _ c]) (simp add: try_turn_eq)
    next
      case 2
      with c(1) T unread_read [OF c(2)] show ?thesis by (intro exI [of _ "read_token c"]) (simp add: try_turn_eq Let_def)
    qed
  qed
  then obtain c' where c': "try_turn tb act null c = reduce_by tb act null c' (int r - 2)" "stack c' = stack c" "unread c' z"
    "reports c' = reports c" by blast
  let ?d = "\<lambda>s. c'\<lparr>stack := drop (length us) (stack c'), yyVal := meaning act null (Node r us), yyState := int s\<rparr>"
  have P': "parsed g st act null q (stack c') (rev us @ ts)" using P c'(2) by simp
  have top: "rev (take (length us) (rev us @ ts)) = us" "drop (length us) (rev us @ ts) = ts" by simp_all
  from reduce_by_rule [OF wf E S P' r(1), folded r(2), unfolded top] obtain p s where
    R: "derivation g (Node r us)" "parsed g st act null p (drop (length us) (stack c')) ts" "lr_trans g st p (rlhs g ! r) s"
    "reduce_by tb act null c' (int r - 2) = Some (goes_on g p (rlhs g ! r) (?d s))" by blast
  have "proceed tb act null m (Discarded c) = goes_on g p (rlhs g ! r) (?d s)" using c'(1) R(4) by (simp add: proceed_def turn_try)
  with R(1-3) c'(2-4) show ?thesis by (intro exI [of _ p] exI [of _ s] exI [of _ "?d s"]) simp
qed

lemma goes_on_reached:
  assumes P: "parsed g st act null p (stack c) ts" and t: "lr_trans g st p (root g t) s" "derivation g t"
    and d: "yyState d = int s" "yyVal d = meaning act null t" "stack d = stack c" "unread d z" "reports d = reports c"
    and c: "runs_to tb act null m (Discarded c) (goes_on g p (root g t) d)" and m: "length (stack c) < m"
  shows "reached g st tb act null m c [t] ts s z"
proof -
  consider v where "goes_on g p (root g t) d = Stop (Return v (reports c))"
    | d' where "goes_on g p (root g t) d = Loop d'" "stack d' = stack d" "yyState d' = yyState d" "yyVal d' = yyVal d" "unread d' z"
        "reports d' = reports d"
  proof (cases "p = 0 \<and> root g t = start_symbol g + 1")
    case True
    then have g: "goes_on g p (root g t) d =
        (if yyToken (read_token d) = 0 then Stop (Return (yyVal d) (reports d)) else Loop (read_token d))"
      by (simp add: goes_on_def Let_def)
    show thesis
    proof (cases "yyToken (read_token d) = 0")
      case True
      with g d(5) show thesis by (intro that(1)) simp
    next
      case False
      with g unread_read [OF d(4)] show thesis by (intro that(2) [of "read_token d"]) simp_all
    qed
  next
    case False
    then have "goes_on g p (root g t) d = Loop d" by (simp only: goes_on_def if_False)
    with d(4) show thesis by (intro that(2) [of d]) simp_all
  qed
  then show ?thesis
  proof cases
    case 1
    with c show ?thesis by (auto simp: reached_def)
  next
    case 2
    from c [unfolded 2(1)] have r: "runs_to tb act null m (Discarded c) (Loop d')" .
    from enter_reached [OF P t r _ _ _ 2(5) _ refl m] 2 d show ?thesis by simp
  qed
qed

text \<open>From a state with a transition on its root, the parser reads the sentence of a tree.\<close>

lemma sentence_tokens: "derivation g t \<Longrightarrow> x \<in> set (sentence g t) \<Longrightarrow> \<exists>X. fst x = symbol_value g ! X \<and> 0 < X \<and> X < ntokens g"
  by (induction t) (auto simp: list_all_iff)

lemma ahead_append:
  assumes a: "ahead g z a" and ts: "list_all (derivation g) ts"
  shows "\<exists>b. ahead g (concat (map (sentence g) ts) @ z) b"
proof (cases "concat (map (sentence g) ts)")
  case Nil
  then show ?thesis using a by (intro exI [of _ a]) (simp only: append_Nil)
next
  case (Cons x xs)
  then have "x \<in> set (concat (map (sentence g) ts))" by (simp only: list.set_intros)
  then obtain t where "t \<in> set ts" "x \<in> set (sentence g t)" by auto
  with ts sentence_tokens [of g t x] obtain X where X: "fst x = symbol_value g ! X" "0 < X" "X < ntokens g"
    by (auto simp: list_all_iff)
  then have "ahead g (x # xs @ z) X" unfolding ahead_def
    by (intro disjI2 exI [of _ "snd x"] exI [of _ "xs @ z"]) (simp add: prod_eq_iff)
  then show ?thesis unfolding Cons by auto
qed

lemma lr_path_snoc: "lr_path g st p Xs s \<Longrightarrow> lr_trans g st s X q \<Longrightarrow> lr_path g st p (Xs @ [X]) q"
  by (induction Xs arbitrary: p) (auto dest: transD(3))

lemma tree_reached:
  assumes wf: "wf_grammar g" and V: "values_ok g" "symbol_value g ! 0 = 0" and E: "automaton g st"
    and S: "arrays_sound g st tb" and Cp: "arrays_complete g st tb"
    and inj: "\<forall>q < length (cores st). inj_on act_symbol (row_of g st q)"
  shows "derivation g t \<Longrightarrow> parsed g st act null p (stack c) ts \<Longrightarrow> yyState c = int p \<Longrightarrow> unread c (sentence g t @ z) \<Longrightarrow>
    lr_trans g st p (root g t) q \<Longrightarrow> ahead g z a \<Longrightarrow> (start_symbol g \<le> root g t \<Longrightarrow> a \<in> follow_set g st (p, root g t)) \<Longrightarrow>
    length (stack c) + need t \<le> m \<Longrightarrow> reached g st tb act null m c [t] ts q z \<and>
      (p = 0 \<longrightarrow> root g t = start_symbol g + 1 \<longrightarrow> z = [] \<longrightarrow> (\<exists>v. runs_to tb act null m (Discarded c) (Stop (Return v (reports c)))))"
proof (induction t arbitrary: p c ts z q a)
  case (Leaf X v)
  then have c: "unread c ((symbol_value g ! X, v) # z)" "0 < X" "X < ntokens g" "lr_trans g st p X q" "length (stack c) < m" by simp_all
  have "inj_on act_symbol (row_of g st p)" using inj transD(1) [OF c(4)] by blast
  from shift_reached [OF wf V Cp this Leaf.prems(2,3) c] show ?case using c(3) wf_sizesD(5) [OF wf] by simp
next
  case (Node r us)
  have D: "3 \<le> r" "r < nrules g" "map (root g) us = rhs_syms g r" "list_all (derivation g) us" using Node.prems(1) by simp_all
  let ?A = "rlhs g ! r"
  have tr: "lr_trans g st p ?A q" using Node.prems(5) by simp
  have B: "start_symbol g \<le> ?A" using wf_ruleD(1) [OF wf D(1,2)] by simp
  have G: "is_goto g st (p, ?A)" using tr B by (auto simp: is_goto_def)
  have A: "a \<in> follow_set g st (p, ?A)" using Node.prems(7) B by simp
  from goto_rule_path [OF wf E tr D(1,2) refl B] obtain q' where
    path: "lr_path g st p (map (root g) us) q'" "r \<in> set (rules_at g st q')" unfolding D(3) by blast
  have a: "a < ntokens g" using Node.prems(6) wf_sizesD(6) [OF wf] by (auto simp: ahead_def)
  have children: "reached g st tb act null m c' vs ts' q' z"
    if "us = ws @ vs" "lr_path g st p (map (root g) ws) s" "lr_path g st s (map (root g) vs) q'"
      "parsed g st act null s (stack c') ts'" "yyState c' = int s" "unread c' (concat (map (sentence g) vs) @ z)"
      "length (stack c') + foldr (\<lambda>t n. max (need t) (Suc n)) vs 0 \<le> m" for ws vs s c' ts'
    using that
  proof (induction vs arbitrary: ws s c' ts')
    case Nil
    then have "s = q'" by simp
    with Nil runs_to_refl show ?case unfolding reached_def by (intro disjI2 exI [of _ c']) simp
  next
    case (Cons u vs)
    from Cons.prems(3) obtain s2 where s2: "lr_trans g st s (root g u) s2" "lr_path g st s2 (map (root g) vs) q'" by auto
    have u: "u \<in> set us" "derivation g u" "list_all (derivation g) vs" using Cons.prems(1) D(4) by (auto simp: list_all_iff)
    from ahead_append [OF Node.prems(6) u(3)] obtain b where b: "ahead g (concat (map (sentence g) vs) @ z) b" by blast
    have rhs: "rhs_syms g r = map (root g) ws @ root g u # map (root g) vs" using D(3) Cons.prems(1) by simp
    have fol: "b \<in> follow_set g st (s, root g u)" if "start_symbol g \<le> root g u"
      by (rule child_follow [OF wf V(1) E D(2) rhs u(3) Cons.prems(2) s2 G A Node.prems(6) b that])
    have un: "unread c' (sentence g u @ concat (map (sentence g) vs) @ z)" using Cons.prems(6) by simp
    have room: "length (stack c') + need u \<le> m" "Suc (length (stack c')) + foldr (\<lambda>t n. max (need t) (Suc n)) vs 0 \<le> m"
      using Cons.prems(7) by simp_all
    from Node.IH [OF u(1,2) Cons.prems(4,5) un s2(1) b fol room(1)]
    have "reached g st tb act null m c' [u] ts' s2 (concat (map (sentence g) vs) @ z)" by (rule conjunct1)
    then show ?case
    proof (rule reached_Cons)
      fix c2 assume c2: "parsed g st act null s2 (stack c2) (u # ts')" "tl (stack c2) = stack c'" "yyState c2 = int s2"
        "unread c2 (concat (map (sentence g) vs) @ z)"
      have p2: "lr_path g st p (map (root g) (ws @ [u])) s2"
        using Cons.prems(2) s2(1) lr_path_snoc by auto
      have len: "length (stack c2) = Suc (length (stack c'))" using c2(2) parsed_facts(3) [OF c2(1)] by (cases "stack c2") auto
      show "reached g st tb act null m c2 vs (u # ts') q' z"
        by (rule Cons.IH [OF _ p2 s2(2) c2(1,3,4)]) (use Cons.prems(1) room(2) len in simp_all)
    qed
  qed
  have "lr_path g st p [] p" using transD(1) [OF tr] by simp
  with children [of "[]" us p c ts] path(1) Node.prems(2,3,4,8)
  have "reached g st tb act null m c us ts q' z" by simp
  then show ?case unfolding reached_def [of g st tb act null m c us]
  proof (elim disjE exE conjE)
    fix v assume "runs_to tb act null m (Discarded c) (Stop (Return v (reports c)))"
    then show ?thesis unfolding reached_def by blast
  next
    fix c' assume c': "runs_to tb act null m (Discarded c) (Discarded c')" "parsed g st act null q' (stack c') (rev us @ ts)"
      "drop (length us) (stack c') = stack c" "yyState c' = int q'" "unread c' z" "reports c' = reports c"
    have len: "length us = length (rhs_syms g r)" using D(3) by (metis length_map)
    have la: "a \<in> LALR_set g st q' r"
      using A G path(1) D(3) by (auto simp: LALR_set_def lookback_rel_def)
    have inj': "inj_on act_symbol (row_of g st q')" using inj parsed_facts(1) [OF c'(2)] by blast
    from reduce_reached [OF wf V E S Cp inj' c'(2,4,5) path(2) len Node.prems(6) la a, of m] obtain p' s d where
      R: "parsed g st act null p' (drop (length us) (stack c')) ts" "lr_trans g st p' ?A s" "derivation g (Node r us)"
      "yyState d = int s" "yyVal d = meaning act null (Node r us)" "stack d = drop (length us) (stack c')" "unread d z"
      "reports d = reports c'" "proceed tb act null m (Discarded c') = goes_on g p' ?A d" by blast
    have "p' = p" using parsed_facts(4) [OF R(1)] parsed_facts(4) [OF Node.prems(2)] c'(3) by simp
    then have "s = q" using trans_unique [OF E R(2)] tr by simp
    have r: "runs_to tb act null m (Discarded c) (goes_on g p (root g (Node r us)) d)"
      using runs_to_trans [OF c'(1) runs_to_step] R(9) runs_to_refl \<open>p' = p\<close> by (metis root.simps(2))
    have m: "length (stack c) < m" using Node.prems(8) by simp
    have "\<exists>v. runs_to tb act null m (Discarded c) (Stop (Return v (reports c)))"
      if "p = 0" "root g (Node r us) = start_symbol g + 1" "z = []"
    proof -
      have "a = 0" using Node.prems(6) that(3) by (simp add: ahead_def)
      with unread_token(1) [OF R(7) Node.prems(6) V(2)] V(2) have "yyToken (read_token d) = 0" by simp
      then have "goes_on g p (root g (Node r us)) d = Stop (Return (yyVal d) (reports c))"
        using that R(8) c'(6) by (simp add: goes_on_def)
      with r show ?thesis by auto
    qed
    moreover have "reached g st tb act null m c [Node r us] ts q z"
      by (rule goes_on_reached [OF Node.prems(2) Node.prems(5) R(3) _ R(5) _ R(7) _ r m]) (use R c' \<open>s = q\<close> in simp_all)
    ultimately show ?thesis by blast
  qed
qed

lemma parser_complete:
  assumes wf: "wf_grammar g" and V: "values_ok g" "symbol_value g ! 0 = 0" and E: "automaton g st"
    and S: "arrays_sound g st tb" and Cp: "arrays_complete g st tb"
    and inj: "\<forall>q < length (cores st). inj_on act_symbol (row_of g st q)"
    and t: "derivation g t" "root g t = start_symbol g + 1" and m: "need t < stack_size yyMax"
  shows "\<exists>k v. yyparse2 tb act null yyMax (sentence g t) k = Some (Return v 0)"
proof -
  let ?m = "stack_size yyMax" and ?w = "sentence g t"
  let ?c = "(start_config null ?w)\<lparr>stack := [(0, null)]\<rparr>"
  obtain q where q: "lr_trans g st 0 (root g t) q" using goal_trans [OF wf E] t(2) by auto
  have P: "parsed g st act null 0 (stack ?c) []" using core_of_0(2) [OF E] by (simp add: parsed.bottom)
  have "0 \<le> fst x" if x: "x \<in> set ?w" for x
    using sentence_tokens [OF t(1) x] V(1) by (auto simp: values_ok_def)
  then have un: "unread ?c (?w @ [])" by (simp add: unread_def tokens_ok_def remaining_def start_config_def)
  have "0 \<in> direct_reads g st (0, root g t)" using t(2) by (simp add: direct_reads_def)
  then have fol: "0 \<in> follow_set g st (0, root g t)"
    unfolding follow_set_def read_set_def reach_union_def by blast
  have ah: "ahead g ([] :: (int \<times> 'a) list) 0" by (simp add: ahead_def)
  have room: "length (stack ?c) + need t \<le> ?m" using m by simp
  have st: "yyState ?c = int 0" by (simp add: start_config_def)
  from tree_reached [OF wf V E S Cp inj t(1) P st un q ah fol room] t(2)
  obtain v where "runs_to tb act null ?m (Discarded ?c) (Stop (Return v (reports ?c)))" by auto
  moreover have "proceed tb act null ?m (Loop (start_config null ?w)) = Discarded ?c"
    using m by (simp add: proceed_def turn_try enter_def start_config_def)
  ultimately have "runs_to tb act null ?m (Loop (start_config null ?w)) (Stop (Return v 0))"
    using runs_to_step [of tb act null ?m "Loop (start_config null ?w)"] by (simp add: start_config_def)
  then obtain k where "(proceed tb act null ?m ^^ k) (Loop (start_config null ?w)) = Stop (Return v 0)" by (auto simp: runs_to_def)
  then have "yyparse2 tb act null yyMax ?w k = Some (Return v 0)" by (simp add: yyparse2_def)
  then show ?thesis by blast
qed

lemma reached_by_trans:
  assumes E: "automaton g st" and q: "q < length (cores st)" "q \<noteq> 0"
  shows "\<exists>p X. lr_trans g st p X q"
proof -
  have P: "pool g (length (cores st)) st" using E by (simp add: expanded_def)
  from pool_pred [OF P _ q(1)] q(2) obtain p where p: "p < q" "core_from g (cores st) p (cores st ! q)" by auto
  have "core_number (cores st ! q) = q" using P q by (simp add: pool_def)
  with p q show ?thesis by (auto simp: lr_trans_def target_for_def core_from_def intro!: exI [of _ p])
qed

section \<open>The sample grammar has no conflicts\<close>

lemma closure_within:
  assumes "i \<in> lr0_closure g I" "I \<subseteq> J"
    and "\<And>i r. i \<in> J \<Longrightarrow> r < nrules g \<Longrightarrow> ritem g ! i = int (rlhs g ! r) \<Longrightarrow> start_symbol g \<le> rlhs g ! r \<Longrightarrow> rrhs g ! r \<in> J"
  shows "i \<in> J"
  using assms(1) by induction (use assms(2,3) in auto)

lemma sample_rules:
  "r < nrules sample_grammar \<Longrightarrow> start_symbol sample_grammar \<le> rlhs sample_grammar ! r \<Longrightarrow>
   r = 2 \<and> rlhs sample_grammar ! r = 3 \<and> rrhs sample_grammar ! r = 1 \<or>
   r = 3 \<and> rlhs sample_grammar ! r = 4 \<and> rrhs sample_grammar ! r = 4 \<or>
   r = 4 \<and> rlhs sample_grammar ! r = 4 \<and> rrhs sample_grammar ! r = 7"
proof -
  assume r: "r < nrules sample_grammar" "start_symbol sample_grammar \<le> rlhs sample_grammar ! r"
  then have "r = 0 \<or> r = 1 \<or> r = 2 \<or> r = 3 \<or> r = 4" by (simp add: sample_grammar_def) linarith
  with r(2) show ?thesis by (auto simp: sample_grammar_def)
qed

lemma sample_items:
  "ritem sample_grammar ! 1 = 4" "ritem sample_grammar ! 2 = 0" "ritem sample_grammar ! 4 = 2" "ritem sample_grammar ! 5 = 4"
  "ritem sample_grammar ! 6 = - 3" "ritem sample_grammar ! 7 = - 4"
  by (simp_all add: sample_grammar_def)

lemma sample_trans_items:
  assumes "j < nitems sample_grammar" "ritem sample_grammar ! j = int X" "0 < X"
  shows "X = 2 \<and> j = 4 \<or> X = 4 \<and> (j = 1 \<or> j = 5)"
proof -
  have "j < 8" using assms(1) by (simp add: sample_grammar_def)
  then have "j = 0 \<or> j = 1 \<or> j = 2 \<or> j = 3 \<or> j = 4 \<or> j = 5 \<or> j = 6 \<or> j = 7" by linarith
  with assms(2,3) show ?thesis by (auto simp: sample_grammar_def)
qed

lemma sample_state:
  assumes E: "automaton sample_grammar st" and q: "q < length (cores st)"
  shows "set (state_items sample_grammar st q) \<subseteq> {1, 4, 7} \<or> set (state_items sample_grammar st q) \<subseteq> {5, 4, 7} \<or>
    set (state_items sample_grammar st q) \<subseteq> {2, 6}"
    "lr_trans sample_grammar st p 4 q \<Longrightarrow> set (state_items sample_grammar st q) \<subseteq> {2, 6}"
proof -
  let ?g = sample_grammar
  note C = closed_items_kernel(1) [OF sample_wf automaton_kernel [OF E q]]
  have into: "set (state_items ?g st q) \<subseteq> J" if "set (core_items (cores st ! q)) \<subseteq> J"
    "\<And>i r. i \<in> J \<Longrightarrow> r < nrules ?g \<Longrightarrow> ritem ?g ! i = int (rlhs ?g ! r) \<Longrightarrow> start_symbol ?g \<le> rlhs ?g ! r \<Longrightarrow> rrhs ?g ! r \<in> J" for J
    unfolding C by (intro subsetI) (erule closure_within [OF _ that(1)], rule that(2))
  have closed: "rrhs ?g ! r \<in> {1, 4, 7}" if "i \<in> {1, 4, 7}" "r < nrules ?g" "ritem ?g ! i = int (rlhs ?g ! r)" "start_symbol ?g \<le> rlhs ?g ! r" for i r
    using sample_rules [OF that(2,4)] by auto
  have closed': "rrhs ?g ! r \<in> {5, 4, 7}" if "i \<in> {5, 4, 7}" "r < nrules ?g" "ritem ?g ! i = int (rlhs ?g ! r)" "start_symbol ?g \<le> rlhs ?g ! r" for i r
    using sample_rules [OF that(2,4)] that(1,3) sample_items by auto
  have closed'': "rrhs ?g ! r \<in> {2, 6}" if "i \<in> {2, 6}" "r < nrules ?g" "ritem ?g ! i = int (rlhs ?g ! r)" "start_symbol ?g \<le> rlhs ?g ! r" for i r
    using sample_rules [OF that(2,4)] that(1,3) sample_items by auto
  have kernel: "set (core_items (cores st ! q)) \<subseteq> (if X = 2 then {5} else if X = 4 then {2, 6} else {})"
    if "lr_trans ?g st p X q" for p X
  proof
    fix i assume "i \<in> set (core_items (cores st ! q))"
    from trans_kernel [OF that this] obtain j where j: "i = Suc j" "j \<in> set (state_items ?g st p)" "ritem ?g ! j = int X" .
    have "j < nitems ?g" using closed_items_kernel(4) [OF sample_wf automaton_kernel [OF E transD(1) [OF that]]] j(2) by blast
    from sample_trans_items [OF this j(3) transD(4) [OF that]] j(1) show "i \<in> (if X = 2 then {5} else if X = 4 then {2, 6} else {})"
      by auto
  qed
  show four: "set (state_items ?g st q) \<subseteq> {2, 6}" if "lr_trans ?g st p 4 q" for p
    by (rule into [OF _ closed'']) (use kernel [OF that] in auto)
  show "set (state_items ?g st q) \<subseteq> {1, 4, 7} \<or> set (state_items ?g st q) \<subseteq> {5, 4, 7} \<or> set (state_items ?g st q) \<subseteq> {2, 6}"
  proof (cases "q = 0")
    case True
    have "set (state_items ?g st q) \<subseteq> {1, 4, 7}"
      by (rule into [OF _ closed]) (use True core_of_0(1) [OF E] in auto)
    then show ?thesis by blast
  next
    case False
    obtain p X where tr: "lr_trans ?g st p X q" using reached_by_trans [OF E q False] by blast
    show ?thesis
    proof (cases "X = 4")
      case True
      with four tr show ?thesis by blast
    next
      case False
      have "set (state_items ?g st q) \<subseteq> {5, 4, 7}"
        by (rule into [OF _ closed']) (use kernel [OF tr] False in \<open>auto split: if_splits\<close>)
      then show ?thesis by blast
    qed
  qed
qed

lemma sample_stuck:
  assumes E: "automaton sample_grammar st" and p: "lr_trans sample_grammar st p 4 q"
  shows "\<not> lr_trans sample_grammar st q X s"
proof
  assume tr: "lr_trans sample_grammar st q X s"
  from trans_item [OF sample_wf E tr] sample_state(2) [OF E transD(3) [OF p] p] transD(4) [OF tr] sample_items
  show False by force
qed

lemma sample_follow:
  assumes E: "automaton sample_grammar st"
  shows "LALR_set sample_grammar st q r \<subseteq> {0}"
proof -
  let ?g = sample_grammar
  have goto4: "snd x = 4" if "is_goto ?g st x" for x
  proof -
    from that obtain s where s: "lr_trans ?g st (fst x) (snd x) s" "3 \<le> snd x" by (auto simp: is_goto_def sample_grammar_def)
    have "snd x < 5" using transD(5) [OF s(1)] by (simp add: sample_grammar_def)
    moreover have "snd x \<noteq> 3" using no_goto_start [OF sample_wf E, of "fst x" s] s(1) by (auto simp: sample_grammar_def)
    ultimately show ?thesis using s(2) by simp
  qed
  have dr: "direct_reads ?g st x \<subseteq> {0}" if "is_goto ?g st x" for x
    using sample_stuck [OF E] goto4 [OF that] by (auto simp: direct_reads_def)
  have none: "(x, y) \<notin> reads_rel ?g st" for x y
  proof
    assume "(x, y) \<in> reads_rel ?g st"
    then have x: "is_goto ?g st x" "lr_trans ?g st (fst x) (snd x) (fst y)" and "is_goto ?g st y" by (simp_all add: reads_rel_def)
    then obtain s where "lr_trans ?g st (fst y) (snd y) s" by (auto simp: is_goto_def)
    moreover have "lr_trans ?g st (fst x) 4 (fst y)" using x(2) goto4 [OF x(1)] by simp
    ultimately show False using sample_stuck [OF E] by blast
  qed
  have "reads_rel ?g st = {}" by (rule equals0I) (metis none surj_pair)
  with dr have rs: "read_set ?g st x \<subseteq> {0}" if "is_goto ?g st x" for x
    using that unfolding read_set_def reach_union_def by simp
  have inc: "(x, y) \<in> (includes_rel ?g st)\<^sup>* \<Longrightarrow> is_goto ?g st x \<Longrightarrow> is_goto ?g st y" for x y
    by (induction rule: rtrancl_induct) (auto simp: includes_rel_def)
  then have "follow_set ?g st x \<subseteq> {0}" if "is_goto ?g st x" for x
    using rs that unfolding follow_set_def reach_union_def by blast
  then show ?thesis unfolding LALR_set_def lookback_rel_def by blast
qed

lemma sample_conflict_free:
  assumes E: "automaton sample_grammar st" and q: "q < length (cores st)"
  shows "inj_on act_symbol (row_of sample_grammar st q)"
proof (rule inj_onI)
  let ?g = sample_grammar
  fix a b assume a: "a \<in> row_of ?g st q" and b: "b \<in> row_of ?g st q" and eq: "act_symbol a = act_symbol b"
  have rule: "r = 3 \<and> 6 \<in> set (state_items ?g st q) \<or> r = 4 \<and> 7 \<in> set (state_items ?g st q)" if "r \<in> set (rules_at ?g st q)" for r
  proof -
    have n: "nrules ?g = 5" "rrhs ?g ! Suc 1 - 1 = 0" "rrhs ?g ! Suc 2 - 1 = 3" "rrhs ?g ! Suc 3 - 1 = 6" "rrhs ?g ! Suc 4 - 1 = 7"
      by (simp_all add: sample_grammar_def)
    have r: "1 \<le> r" "r < 5" "rrhs ?g ! Suc r - 1 \<in> set (state_items ?g st q)"
      using that [unfolded rules_at_distinct(2) [OF sample_wf E q] n(1)] by simp_all
    then consider "r = 1" | "r = 2" | "r = 3" | "r = 4" by linarith
    then show ?thesis
      by cases (use r(3) n sample_state(1) [OF E q] in auto)
  qed
  have one: "r = r'" if "r \<in> set (rules_at ?g st q)" "r' \<in> set (rules_at ?g st q)" for r r'
    using rule [OF that(1)] rule [OF that(2)] sample_state(1) [OF E q] by auto
  from a consider X s where "a = shift_action ?g X s" "lr_trans ?g st q X s"
    | X r where "a = reduce_action ?g X r" "r \<in> set (rules_at ?g st q)" "X \<in> LALR_set ?g st q r" unfolding row_of_def by blast
  then show "a = b"
  proof cases
    case (1 X s)
    have "0 < X" by (rule transD(4) [OF 1(2)])
    from b consider Y s' where "b = shift_action ?g Y s'" "lr_trans ?g st q Y s'"
      | Y r where "b = reduce_action ?g Y r" "Y \<in> LALR_set ?g st q r" unfolding row_of_def by blast
    then show ?thesis
    proof cases
      case (1 Y s')
      with \<open>a = shift_action ?g X s\<close> eq trans_unique [OF E \<open>lr_trans ?g st q X s\<close>] show ?thesis by (simp add: shift_action_def)
    next
      case (2 Y r)
      with \<open>a = shift_action ?g X s\<close> eq sample_follow [OF E] \<open>0 < X\<close> show ?thesis
        by (auto simp: shift_action_def reduce_action_def)
    qed
  next
    case (2 X r)
    then have "X = 0" using sample_follow [OF E] by blast
    from b consider Y s' where "b = shift_action ?g Y s'" "lr_trans ?g st q Y s'"
      | Y r' where "b = reduce_action ?g Y r'" "r' \<in> set (rules_at ?g st q)" unfolding row_of_def by blast
    then show ?thesis
    proof cases
      case (1 Y s')
      with 2 eq \<open>X = 0\<close> transD(4) [OF 1(2)] show ?thesis by (simp add: shift_action_def reduce_action_def)
    next
      case (2 Y r')
      with \<open>a = reduce_action ?g X r\<close> eq one [OF \<open>r \<in> set (rules_at ?g st q)\<close>] show ?thesis by (simp add: reduce_action_def)
    qed
  qed
qed

section \<open>Properties\<close>

lemma run_arrays:
  assumes wf: "wf_grammar g" and V: "values_ok g" "end_values g" and out: "compile_tables g = Some (Inr R)"
  shows "automaton g (run_automaton R)" "arrays_sound g (run_automaton R) (arrays_of g R)"
    "arrays_complete g (run_automaton R) (arrays_of g R)" "parser_ok g (run_automaton R) (run_parser R)"
proof -
  have "run_ok g R" using compile_tables_correct [OF wf V(1)] out by auto
  then show "automaton g (run_automaton R)" "parser_ok g (run_automaton R) (run_parser R)"
    by (simp_all add: run_ok_def automaton_ok_def)
qed (rule arrays_of_sound [OF wf V out] arrays_of_complete [OF wf V(1) out])+

lemma parser_accepts:
  assumes wf: "wf_grammar g" and V: "values_ok g" "end_values g" and out: "compile_tables g = Some (Inr R)"
    and N: "nothing_suppressed (run_parser R)"
    and t: "derivation g t" "root g t = start_symbol g + 1" and m: "need t < stack_size yyMax"
  shows "\<exists>k u. yyparse2 (arrays_of g R) act null yyMax (sentence g t) k = Some (Return (meaning act null u) 0) \<and>
    derivation g u \<and> root g u = start_symbol g + 1 \<and> sentence g u = sentence g t"
proof -
  note A = run_arrays [OF wf V out] and inj = N [unfolded nothing_suppressed_iff [OF run_arrays(4) [OF wf V out]]]
  have z: "symbol_value g ! 0 = 0" using V(2) by (simp add: end_values_def)
  from parser_complete [OF wf V(1) z A(1-3) inj t m] obtain k v where
    k: "yyparse2 (arrays_of g R) act null yyMax (sentence g t) k = Some (Return v 0)" by blast
  have pos: "\<exists>X. fst x = symbol_value g ! X \<and> 0 < X \<and> X < ntokens g" if "x \<in> set (sentence g t)" for x
    using sentence_tokens [OF t(1) that] .
  then have "tokens_ok (sentence g t)" using V(1) by (fastforce simp: tokens_ok_def values_ok_def)
  from parser_sound [OF wf V(1) z A(1,2) this k] obtain u w where
    u: "derivation g u" "root g u = start_symbol g + 1" "sentence g t = sentence g u @ w" "w = [] \<or> fst (hd w) = 0" "v = meaning act null u"
    unfolding recognises_def by blast
  have "w = []"
  proof (rule ccontr)
    assume "w \<noteq> []"
    then have "hd w \<in> set (sentence g t)" using u(3) by simp
    from pos [OF this] obtain X where X: "fst (hd w) = symbol_value g ! X" "0 < X" "X < ntokens g" by blast
    then have "symbol_value g ! X = symbol_value g ! 0" using u(4) \<open>w \<noteq> []\<close> z by simp
    with V(1) X(2,3) show False unfolding values_ok_def by (auto dest!: inj_onD [of _ _ X 0])
  qed
  with k u show ?thesis by auto
qed

text \<open>
  C2: What the generated parser accepts is a sentence.  Whatever the actions are and however large the stack is: if
  \<^verbatim>\<open>yyparse2\<close>, on the arrays that jay has written for a well-formed grammar with distinct token values, returns
  without a call of \<^verbatim>\<open>yyerror\<close>, then what it has read, up to the end of the input or a token 0, is derived from
  the goal of the grammar, and the result is the value of the derivation tree under the actions.
\<close>

theorem generated_parser_sound:
  assumes wf: "wf_grammar g" and V: "values_ok g" "end_values g" and out: "compile_tables g = Some (Inr R)"
    and w: "tokens_ok w" and run: "yyparse2 (arrays_of g R) act null yyMax w k = Some (Return v 0)"
  shows "\<exists>t z. derivation g t \<and> root g t = start_symbol g + 1 \<and> w = sentence g t @ z \<and> (z = [] \<or> fst (hd z) = 0) \<and>
    v = meaning act null t"
proof -
  have "symbol_value g ! 0 = 0" using V(2) by (simp add: end_values_def)
  from parser_sound [OF wf V(1) this run_arrays(1,2) [OF wf V out] w run] show ?thesis by (simp add: recognises_def)
qed

text \<open>
  C3: A sentence is accepted.  When \<^verbatim>\<open>remove_conflicts\<close> had no action to suppress, the parser returns on
  the sentence of every derivation tree of the goal for which the stack is large enough, without a call of
  \<^verbatim>\<open>yyerror\<close>, and with the value of a derivation of that sentence.
\<close>

theorem generated_parser_complete:
  assumes wf: "wf_grammar g" and V: "values_ok g" "end_values g" and out: "compile_tables g = Some (Inr R)"
    and N: "nothing_suppressed (run_parser R)"
    and t: "derivation g t" "root g t = start_symbol g + 1" and m: "need t < stack_size yyMax"
  shows "\<exists>k u. yyparse2 (arrays_of g R) act null yyMax (sentence g t) k = Some (Return (meaning act null u) 0) \<and>
    derivation g u \<and> root g u = start_symbol g + 1 \<and> sentence g u = sentence g t"
  by (rule parser_accepts [OF assms])

lemma sample_end_values: "end_values sample_grammar"
  by (simp add: end_values_def sample_grammar_def)

definition sample_tree :: "int ptree" where
  "sample_tree = Node 3 [Leaf 2 7, Node 4 []]"

lemma sample_tree_facts:
  "derivation sample_grammar sample_tree" "root sample_grammar sample_tree = start_symbol sample_grammar + 1"
  "need sample_tree < stack_size 0" "sentence sample_grammar sample_tree = [(97, 7)]"
  by (simp_all add: sample_tree_def sample_grammar_def rhs_syms_def stack_size_def upt_rec)

lemma sample_nothing_suppressed:
  assumes out: "compile_tables sample_grammar = Some (Inr R)"
  shows "nothing_suppressed (run_parser R)"
proof -
  note A = run_arrays [OF sample_wf sample_values sample_end_values out]
  then show ?thesis unfolding nothing_suppressed_iff [OF A(4)] using sample_conflict_free by blast
qed

lemma sample_accepted:
  assumes out: "compile_tables sample_grammar = Some (Inr R)"
  shows "\<exists>k v. yyparse2 (arrays_of sample_grammar R) (\<lambda>n vs v. n + sum_list vs) 0 0 [(97, 7)] k = Some (Return v 0)"
  using parser_accepts [OF sample_wf sample_values sample_end_values out sample_nothing_suppressed [OF out] sample_tree_facts(1-3),
    unfolded sample_tree_facts(4)] by blast

theorem generated_parser_sound_witness:
  "(\<exists>e \<in> jay_limits. compile_tables sample_grammar = Some (Inl e)) \<or>
   (\<exists>R k v t z. compile_tables sample_grammar = Some (Inr R) \<and>
      yyparse2 (arrays_of sample_grammar R) (\<lambda>n vs v. n + sum_list vs) 0 0 [(97, 7)] k = Some (Return v 0) \<and>
      derivation sample_grammar t \<and> root sample_grammar t = 4 \<and> [(97, 7)] = sentence sample_grammar t @ z \<and>
      (z = [] \<or> fst (hd z) = 0) \<and> v = meaning (\<lambda>n vs v. n + sum_list vs) 0 t)"
proof (rule disjCI)
  assume "\<not> (\<exists>R k v t z. compile_tables sample_grammar = Some (Inr R) \<and>
      yyparse2 (arrays_of sample_grammar R) (\<lambda>n vs v. n + sum_list vs) 0 0 [(97, 7)] k = Some (Return v 0) \<and>
      derivation sample_grammar t \<and> root sample_grammar t = 4 \<and> [(97, 7)] = sentence sample_grammar t @ z \<and>
      (z = [] \<or> fst (hd z) = 0) \<and> v = meaning (\<lambda>n vs v. n + sum_list vs) 0 t)"
  moreover have "False" if out: "compile_tables sample_grammar = Some (Inr R)" and no: "\<not> (\<exists>k v t z.
      yyparse2 (arrays_of sample_grammar R) (\<lambda>n vs v. n + sum_list vs) 0 0 [(97, 7)] k = Some (Return v 0) \<and>
      derivation sample_grammar t \<and> root sample_grammar t = 4 \<and> [(97, 7)] = sentence sample_grammar t @ z \<and>
      (z = [] \<or> fst (hd z) = 0) \<and> v = meaning (\<lambda>n vs v. n + sum_list vs) 0 t)" for R
  proof -
    have s: "start_symbol sample_grammar + 1 = 4" by (simp add: sample_grammar_def)
    obtain k v where k: "yyparse2 (arrays_of sample_grammar R) (\<lambda>n vs v. n + sum_list vs) 0 0 [(97, 7)] k = Some (Return v 0)"
      using sample_accepted [OF out] by blast
    have "tokens_ok [(97, 7 :: int)]" by (simp add: tokens_ok_def)
    from generated_parser_sound [OF sample_wf sample_values sample_end_values out this k, unfolded s] k no show False by blast
  qed
  ultimately show "\<exists>e \<in> jay_limits. compile_tables sample_grammar = Some (Inl e)"
    using compile_tables_correct [OF sample_wf sample_values] by blast
qed

theorem generated_parser_complete_witness:
  "(\<exists>e \<in> jay_limits. compile_tables sample_grammar = Some (Inl e)) \<or>
   (\<exists>R k u. compile_tables sample_grammar = Some (Inr R) \<and>
      yyparse2 (arrays_of sample_grammar R) (\<lambda>n vs v. n + sum_list vs) 0 0 [(97, 7)] k =
        Some (Return (meaning (\<lambda>n vs v. n + sum_list vs) 0 u) 0) \<and>
      derivation sample_grammar u \<and> root sample_grammar u = 4 \<and> sentence sample_grammar u = [(97, 7)])"
  using compile_tables_correct [OF sample_wf sample_values]
proof
  assume "\<exists>R. compile_tables sample_grammar = Some (Inr R) \<and> run_ok sample_grammar R"
  then obtain R where out: "compile_tables sample_grammar = Some (Inr R)" by blast
  have s: "start_symbol sample_grammar + 1 = 4" by (simp add: sample_grammar_def)
  from generated_parser_complete [OF sample_wf sample_values sample_end_values out
      sample_nothing_suppressed [OF out] sample_tree_facts(1-3), unfolded sample_tree_facts(4) s] out show ?thesis by blast
qed blast

text \<open>The flag that \<^verbatim>\<open>yyerror\<close> should set stays as it was at the start.\<close>

fun unflagged :: "'v flow \<Rightarrow> bool" where
  "unflagged (Loop c) \<longleftrightarrow> yyErrorFlag c = 0"
| "unflagged (Discarded c) \<longleftrightarrow> yyErrorFlag c = 0"
| "unflagged (Stop out) \<longleftrightarrow> out \<noteq> Irrecoverable \<and> out \<noteq> Irrecoverable_at_end"

lemma reduce_by_unflagged: "yyErrorFlag c = 0 \<Longrightarrow> reduce_by tb act null c n = Some f \<Longrightarrow> unflagged f"
  by (auto simp: reduce_by_def Let_def split: Option.bind_splits if_splits option.splits)

lemma turn_unflagged:
  assumes c: "yyErrorFlag c = 0" and f: "try_turn tb act null c = Some f"
  shows "unflagged f"
proof -
  have R: "reduce_by tb act null (read_token c) n = Some f \<Longrightarrow> unflagged f"
    "reduce_by tb act null c n = Some f \<Longrightarrow> unflagged f"
    "reduce_by tb act null ((read_token c)\<lparr>reports := k\<rparr>) n = Some f \<Longrightarrow> unflagged f" for n k
    using c reduce_by_unflagged [of "read_token c"] reduce_by_unflagged [of c] reduce_by_unflagged [of "(read_token c)\<lparr>reports := k\<rparr>"]
    by simp_all
  from f c show ?thesis
    by (auto simp: try_turn_eq no_action_def recover_error_def Let_def Option.bind_eq_Some_conv split: if_splits option.splits dest!: R)
qed

lemma run_unflagged: "unflagged ((proceed tb act null n ^^ k) (Loop (start_config null w)))"
proof (induction k)
  case 0
  then show ?case by (simp add: start_config_def)
next
  case (Suc k)
  have "unflagged (proceed tb act null n f)" if "unflagged f" for f
  proof (cases f)
    case (Discarded c)
    with that turn_unflagged [of c tb act null] show ?thesis by (cases "try_turn tb act null c") (simp_all add: proceed_def turn_try)
  qed (use that in \<open>auto simp: proceed_def turn_try enter_def\<close>)
  with Suc show ?case by simp
qed

text \<open>
  C26: There is no error recovery.  The code that discards tokens and looks for a state that shifts the token
  \<^verbatim>\<open>error\<close> is never reached, on any arrays and any input, because nothing sets \<^verbatim>\<open>yyErrorFlag\<close>: neither
  of its two exceptions is ever thrown.
\<close>

theorem errors_not_recovered:
  "yyparse2 tb act null yyMax w k \<noteq> Some Irrecoverable \<and> yyparse2 tb act null yyMax w k \<noteq> Some Irrecoverable_at_end"
proof -
  have "unflagged ((proceed tb act null (stack_size yyMax) ^^ k) (Loop (start_config null w)))" by (rule run_unflagged)
  then show ?thesis by (auto simp: yyparse2_def split: flow.splits)
qed

text \<open>
  C25: An error that nobody is told of.  On arrays whose rule 0 has the left-hand side -1, as all that jay writes: in a
  state without default reduction and without a row of reductions, on a token that cannot be shifted, the parser
  calls no \<^verbatim>\<open>yyerror\<close> (the count of calls the exception carries is the one before) but goes on to reduce by rule 0 and
  stops at an array access out of range.
\<close>

theorem unreported_error:
  assumes "cell (yyLhs tb) 0 = Some (- 1)" "cell (yyDefRed tb) (yyState c) = Some 0" "cell (yySindex tb) (yyState c) = Some b"
    and "look tb b (yyToken (read_token c)) = Some None" "cell (yyRindex tb) (yyState c) = Some 0"
  shows "proceed tb act null m (Discarded c) = Stop (Bad_index (reports c))"
proof -
  have "reduce_by tb act null (read_token c) 0 = None"
    using assms(1) by (auto simp: reduce_by_def Let_def cell_def [of "yyGindex tb" "- 1"] split: Option.bind_split)
  moreover have "decide tb c = Some (read_token c, To_reduce 0)" using assms(2-5) by (simp add: decide_def Let_def)
  ultimately show ?thesis by (simp add: proceed_def turn_def)
qed

text \<open>Arrays for the grammar \<^verbatim>\<open>s : 'a'\<close>.\<close>

definition small_arrays :: arrays where
  "small_arrays = \<lparr>yyLhs = [- 1, 0], yyLen = [2, 1], yyDefRed = [0, 1, 0], yyDgoto = [2], yySindex = [- 96, 0, 0],
     yyRindex = [0, 0, 0], yyGindex = [0], yyTable = [0, 1], yyCheck = [- 1, 97], yyFinal = 2, yyErrorCode = - 1\<rparr>"

lemma unreported_error_witness:
  "yyparse2 small_arrays (\<lambda>n vs v. v) (0 :: int) 0 [(97, 7)] 5 = Some (Return 7 0) \<and>
   proceed small_arrays (\<lambda>n vs v. v) 0 256 (Discarded ((start_config (0 :: int) [(98, 7)])\<lparr>stack := [(0, 0)]\<rparr>)) =
     Stop (Bad_index 0) \<and>
   yyparse2 small_arrays (\<lambda>n vs v. v) (0 :: int) 0 [(98, 7)] 5 = Some (Bad_index 0)"
proof -
  let ?c = "(start_config (0 :: int) [(98, 7)])\<lparr>stack := [(0, 0)]\<rparr>"
  have "yyparse2 small_arrays (\<lambda>n vs v. v) (0 :: int) 0 [(97, 7)] 5 = Some (Return 7 0)"
    "yyparse2 small_arrays (\<lambda>n vs v. v) (0 :: int) 0 [(98, 7)] 5 = Some (Bad_index 0)"
    by code_simp+
  moreover have "proceed small_arrays (\<lambda>n vs v. v) 0 256 (Discarded ?c) = Stop (Bad_index (reports ?c))"
    by (rule unreported_error [where b = "- 96"]) code_simp+
  ultimately show ?thesis by (simp add: start_config_def)
qed

end
