(* ===== verification/Language.thy ===== *)
theory Language
  imports Parser
begin

text \<open>
  From the text of a grammar to the language of the parser: the reader, the passes, the arrays that are written and
  \<^verbatim>\<open>yyparse2\<close> run on them, against the productions that stand in the text.
\<close>

section \<open>The language of productions\<close>

text \<open>
  \<open>generates tok rs bs w\<close>: the productions \<open>rs\<close> rewrite the symbols \<open>bs\<close> to the word \<open>w\<close> of symbols that are
  tokens.  The symbols are the buckets of the reader's table.
\<close>

inductive generates :: "(nat \<Rightarrow> bool) \<Rightarrow> production list \<Rightarrow> nat list \<Rightarrow> nat list \<Rightarrow> bool" for tok rs where
  empty: "generates tok rs [] []"
| token: "tok b \<Longrightarrow> generates tok rs bs w \<Longrightarrow> generates tok rs (b # bs) (b # w)"
| production: "(A, us) \<in> set rs \<Longrightarrow> generates tok rs us u \<Longrightarrow> generates tok rs bs w \<Longrightarrow> generates tok rs (A # bs) (u @ w)"

definition is_token :: "reader_state \<Rightarrow> nat \<Rightarrow> bool" where
  "is_token s b \<longleftrightarrow> b < length (st_buckets (rd_syms s)) \<and> b_class (st_buckets (rd_syms s) ! b) = Term"

text \<open>A word with values, as the lexer gives it: each token is its \<^verbatim>\<open>symbol_value\<close>.\<close>

definition tokens_of :: "grammar \<Rightarrow> (nat \<Rightarrow> nat) \<Rightarrow> (nat \<times> 'v) list \<Rightarrow> (int \<times> 'v) list" where
  "tokens_of g idx u = map (\<lambda>(b, v). (symbol_value g ! idx b, v)) u"

lemma tokens_of_append [simp]: "tokens_of g idx (u @ w) = tokens_of g idx u @ tokens_of g idx w"
  by (simp add: tokens_of_def)

lemma generates_append: "generates tok rs as u \<Longrightarrow> generates tok rs bs w \<Longrightarrow> generates tok rs (as @ bs) (u @ w)"
proof (induction rule: generates.induct)
  case (production A us u bs w')
  then show ?case using generates.production [OF production.hyps(1,2)] by simp
qed (auto intro: generates.token)

section \<open>Derivation trees of the packed grammar\<close>

lemma packed_asD:
  assumes "packed_as s goal rs idx g names" "checked s goal rs"
  shows "inj_on idx {..<length (st_buckets (rd_syms s))}" "idx goal = ntokens g + 1" "goal < length (st_buckets (rd_syms s))"
    "\<And>b. is_token s b \<Longrightarrow> 1 \<le> idx b \<and> idx b < ntokens g"
    "\<And>b. b < length (st_buckets (rd_syms s)) \<Longrightarrow> \<not> is_token s b \<Longrightarrow> ntokens g < idx b"
    "nrules g = length rs + 3"
    "\<And>k. k < length rs \<Longrightarrow> rlhs g ! (k + 3) = idx (fst (rs ! k)) \<and> rhs_syms g (k + 3) = map idx (snd (rs ! k))"
    "\<And>A us. (A, us) \<in> set rs \<Longrightarrow> A < length (st_buckets (rd_syms s)) \<and> (\<forall>b \<in> set us. b < length (st_buckets (rd_syms s)))"
  using assms unfolding packed_as_def numbering_def checked_def closed_rules_def prods_ok_def is_var_def is_token_def Let_def
  by (auto split: if_splits)

lemma tree_generates:
  assumes P: "packed_as s goal rs idx g names" and C: "checked s goal rs"
  shows "derivation g t \<Longrightarrow> b < length (st_buckets (rd_syms s)) \<Longrightarrow> root g t = idx b \<Longrightarrow>
    \<exists>u. sentence g t = tokens_of g idx u \<and> generates (is_token s) rs [b] (map fst u) \<and> (\<forall>x \<in> set u. is_token s (fst x))"
proof (induction t arbitrary: b)
  case (Leaf X v)
  note D = packed_asD [OF P C]
  have "is_token s b" using D(5) [OF Leaf.prems(2)] Leaf.prems(1,3) by (cases "is_token s b") auto
  then have "generates (is_token s) rs [b] [b]" by (intro generates.token generates.empty)
  with \<open>is_token s b\<close> Leaf.prems(3) show ?case by (intro exI [of _ "[(b, v)]"]) (simp add: tokens_of_def)
next
  case (Node r ts)
  note D = packed_asD [OF P C]
  have r: "3 \<le> r" "r < nrules g" "map (root g) ts = rhs_syms g r" "list_all (derivation g) ts" using Node.prems(1) by simp_all
  define k where "k = r - 3"
  have k: "r = k + 3" "k < length rs" using r(1,2) D(6) by (simp_all add: k_def)
  obtain A us where rule: "rs ! k = (A, us)" by (cases "rs ! k")
  with nth_mem [OF k(2)] have mem: "(A, us) \<in> set rs" by simp
  note B = D(8) [OF mem]
  have "idx A = idx b" using D(7) [OF k(2)] Node.prems(3) k(1) rule by simp
  then have "A = b" using inj_onD [OF D(1)] B Node.prems(2) by simp
  have roots: "map (root g) ts = map idx us" using r(3) D(7) [OF k(2)] k(1) rule by simp
  have "\<exists>u. concat (map (sentence g) ts') = tokens_of g idx u \<and> generates (is_token s) rs us' (map fst u) \<and> (\<forall>x \<in> set u. is_token s (fst x))"
    if "set ts' \<subseteq> set ts" "map (root g) ts' = map idx us'" "\<forall>b \<in> set us'. b < length (st_buckets (rd_syms s))" for ts' us'
    using that
  proof (induction ts' arbitrary: us')
    case Nil
    then show ?case using generates.empty by (intro exI [of _ "[]"]) (simp add: tokens_of_def)
  next
    case (Cons t ts')
    then obtain c us'' where us': "us' = c # us''" "root g t = idx c" "map (root g) ts' = map idx us''" by auto
    have t: "t \<in> set ts" "derivation g t" using Cons.prems(1) r(4) by (auto simp: list_all_iff)
    from Cons.IH [OF _ us'(3)] Cons.prems us'(1) obtain w where w: "concat (map (sentence g) ts') = tokens_of g idx w"
      "generates (is_token s) rs us'' (map fst w)" "\<forall>x \<in> set w. is_token s (fst x)" by auto
    have "c < length (st_buckets (rd_syms s))" using Cons.prems(3) us'(1) by simp
    from Node.IH [OF t this us'(2)] obtain u where u: "sentence g t = tokens_of g idx u"
      "generates (is_token s) rs [c] (map fst u)" "\<forall>x \<in> set u. is_token s (fst x)" by blast
    from generates_append [OF u(2) w(2)] u w us'(1) show ?case by (intro exI [of _ "u @ w"]) auto
  qed
  from this [OF subset_refl roots] B obtain u where u: "concat (map (sentence g) ts) = tokens_of g idx u"
    "generates (is_token s) rs us (map fst u)" "\<forall>x \<in> set u. is_token s (fst x)" by blast
  have "generates (is_token s) rs [A] (map fst u)" using generates.production [OF mem u(2) generates.empty] by simp
  with u \<open>A = b\<close> show ?case by auto
qed

lemma generates_tree:
  assumes P: "packed_as s goal rs idx g names" and C: "checked s goal rs"
  shows "generates (is_token s) rs bs w \<Longrightarrow> map fst u = w \<Longrightarrow>
    \<exists>ts. map (root g) ts = map idx bs \<and> list_all (derivation g) ts \<and> concat (map (sentence g) ts) = tokens_of g idx u"
proof (induction arbitrary: u rule: generates.induct)
  case empty
  then show ?case by (intro exI [of _ "[]"]) (simp add: tokens_of_def)
next
  case (token b bs w)
  then obtain v u' where u: "u = (b, v) # u'" "map fst u' = w" by (cases u) auto
  from token.IH [OF u(2)] obtain ts where ts: "map (root g) ts = map idx bs" "list_all (derivation g) ts"
    "concat (map (sentence g) ts) = tokens_of g idx u'" by blast
  have "derivation g (Leaf (idx b) v)" using packed_asD(4) [OF P C token.hyps(1)] by simp
  with ts u(1) show ?case by (intro exI [of _ "Leaf (idx b) v # ts"]) (simp add: tokens_of_def)
next
  case (production A us u1 bs w)
  note D = packed_asD [OF P C]
  define n where "n = length u1"
  have u: "map fst (take n u) = u1" "map fst (drop n u) = w" "u = take n u @ drop n u"
    using production.prems by (simp_all add: n_def take_map [symmetric] drop_map [symmetric])
  from production.IH(1) [OF u(1)] obtain ts where ts: "map (root g) ts = map idx us" "list_all (derivation g) ts"
    "concat (map (sentence g) ts) = tokens_of g idx (take n u)" by blast
  from production.IH(2) [OF u(2)] obtain ts' where ts': "map (root g) ts' = map idx bs" "list_all (derivation g) ts'"
    "concat (map (sentence g) ts') = tokens_of g idx (drop n u)" by blast
  obtain k where k: "k < length rs" "rs ! k = (A, us)" using production.hyps(1) by (auto simp: in_set_conv_nth)
  have "derivation g (Node (k + 3) ts)" "root g (Node (k + 3) ts) = idx A"
    using D(6) D(7) [OF k(1)] k ts(1,2) by simp_all
  moreover have "concat (map (sentence g) (Node (k + 3) ts # ts')) = tokens_of g idx u"
    using ts(3) ts'(3) tokens_of_append [of g idx "take n u" "drop n u"] by simp
  ultimately show ?case using ts'(1,2) by (intro exI [of _ "Node (k + 3) ts # ts'"]) simp
qed

lemma sample_reading_token:
  obtains r where "reader (\<lambda>_. 0) ''g'' sample_text = Inr r" "rg_grammar r = sample_grammar" "distinct_values r"
    "is_token (rg_state r) 2"
proof -
  obtain r where r: "reader (\<lambda>_. 0) ''g'' sample_text = Inr r" "rg_grammar r = sample_grammar" "distinct_values r"
    by (rule sample_reading_ok)
  have "map (\<lambda>b. (b_class b, b_value b)) (st_buckets (rd_syms (rg_state r))) = [(Term, - 1), (Nonterm, - 1), (Term, 97)]"
    using sample_reading r(1) by simp
  then have "is_token (rg_state r) 2" by (auto simp: is_token_def map_eq_Cons_conv)
  with r that show thesis by blast
qed

section \<open>The property\<close>

lemma stack_size_Suc: "stack_size (int (Suc n)) = Suc n"
  by (simp add: stack_size_def)

lemma parser_language:
  assumes P: "packed_as s goal rs idx g names" "checked s goal rs"
    and wf: "wf_grammar g" and V: "values_ok g" "end_values g" and out: "compile_tables g = Some (Inr R)"
    and N: "nothing_suppressed (run_parser R)"
    and u: "\<forall>x \<in> set u. is_token s (fst x)"
  shows "generates (is_token s) rs [goal] (map fst u) \<longleftrightarrow>
    (\<exists>n. \<forall>yyMax. n < stack_size yyMax \<longrightarrow> (\<exists>k v. yyparse2 (arrays_of g R) act null yyMax (tokens_of g idx u) k = Some (Return v 0)))"
proof
  note D = packed_asD [OF P]
  have goal: "idx goal = start_symbol g + 1" using D(2) wf_sizesD(5) [OF wf] by simp
  {
    assume "generates (is_token s) rs [goal] (map fst u)"
    from generates_tree [OF P this refl] obtain ts where ts: "map (root g) ts = map idx [goal]" "list_all (derivation g) ts"
      "concat (map (sentence g) ts) = tokens_of g idx u" by blast
    then obtain t where t: "derivation g t" "root g t = start_symbol g + 1" "sentence g t = tokens_of g idx u"
      using goal by (cases ts) auto
    have "\<exists>k v. yyparse2 (arrays_of g R) act null yyMax (tokens_of g idx u) k = Some (Return v 0)"
      if "need t < stack_size yyMax" for yyMax
      using parser_accepts [OF wf V out N t(1,2) that, of act null] t(3) by auto
    then show "\<exists>n. \<forall>yyMax. n < stack_size yyMax \<longrightarrow>
        (\<exists>k v. yyparse2 (arrays_of g R) act null yyMax (tokens_of g idx u) k = Some (Return v 0))" by blast
  next
    assume "\<exists>n. \<forall>yyMax. n < stack_size yyMax \<longrightarrow>
        (\<exists>k v. yyparse2 (arrays_of g R) act null yyMax (tokens_of g idx u) k = Some (Return v 0))"
    then obtain n where "\<forall>yyMax. n < stack_size yyMax \<longrightarrow>
        (\<exists>k v. yyparse2 (arrays_of g R) act null yyMax (tokens_of g idx u) k = Some (Return v 0))" ..
    then obtain k v where k: "yyparse2 (arrays_of g R) act null (int (Suc n)) (tokens_of g idx u) k = Some (Return v 0)"
      by (metis lessI stack_size_Suc)
    have z: "symbol_value g ! 0 = 0" using V(2) by (simp add: end_values_def)
    have val: "X = Y" if "symbol_value g ! X = symbol_value g ! Y" "X < ntokens g" "Y < ntokens g" for X Y
      using V(1) that unfolding values_ok_def by (auto dest: inj_onD)
    have tok: "0 < idx (fst x)" "idx (fst x) < ntokens g" if "x \<in> set u" for x
      using D(4) [of "fst x"] u that by auto
    have w: "tokens_ok (tokens_of g idx u)"
      using tok(2) V(1) by (auto simp: tokens_ok_def tokens_of_def values_ok_def)
    note A = run_arrays [OF wf V out]
    from parser_sound [OF wf V(1) z A(1,2) w k] obtain t w where
      t: "derivation g t" "root g t = idx goal" "tokens_of g idx u = sentence g t @ w" "w = [] \<or> fst (hd w) = 0"
      unfolding recognises_def goal by blast
    have "w = []"
    proof (rule ccontr)
      assume "w \<noteq> []"
      then have "hd w \<in> set (tokens_of g idx u)" using t(3) by simp
      then obtain x where x: "x \<in> set u" "fst (hd w) = symbol_value g ! idx (fst x)" by (auto simp: tokens_of_def)
      with t(4) \<open>w \<noteq> []\<close> z val [of "idx (fst x)" 0] tok [OF x(1)] show False by simp
    qed
    from tree_generates [OF P t(1) D(3) t(2)] obtain u' where
      u': "sentence g t = tokens_of g idx u'" "generates (is_token s) rs [goal] (map fst u')" "\<forall>x \<in> set u'. is_token s (fst x)" by blast
    have "map fst u = map fst u'"
    proof (rule nth_equalityI)
      have eq: "tokens_of g idx u = tokens_of g idx u'" using t(3) \<open>w = []\<close> u'(1) by simp
      then have len: "length u = length u'" by (metis tokens_of_def length_map)
      then show "length (map fst u) = length (map fst u')" by simp
      fix i assume "i < length (map fst u)"
      then have i: "i < length u" "i < length u'" using len by simp_all
      have "symbol_value g ! idx (fst (u ! i)) = symbol_value g ! idx (fst (u' ! i))"
        using arg_cong [OF eq, of "\<lambda>xs. fst (xs ! i)"] i by (simp add: tokens_of_def split_beta)
      moreover have b: "is_token s (fst (u ! i))" "is_token s (fst (u' ! i))" using u u'(3) i by simp_all
      ultimately have "idx (fst (u ! i)) = idx (fst (u' ! i))" using val D(4) by blast
      with inj_onD [OF D(1) this] b i show "map fst u ! i = map fst u' ! i" by (simp add: is_token_def)
    qed
    with u'(2) show "generates (is_token s) rs [goal] (map fst u)" by simp
  }
qed

text \<open>
  C1: From the text of a grammar to its language.  If the reader accepts a text whose token values are distinct, and
  the generator writes tables for it, and no action was suppressed, then there are the productions that were read and their goal, and the parser that is written recognises exactly their
  language: a word of tokens is generated from the goal if and only if \<^verbatim>\<open>yyparse2\<close>, on the values of these
  tokens and with every stack that is large enough, returns without a call of \<^verbatim>\<open>yyerror\<close>.
\<close>

theorem text_to_language:
  assumes r: "reader address file inp = Inr r" and v: "distinct_values r"
    and R: "generator address file inp = Some (Inr (r, R))"
    and N: "nothing_suppressed (run_parser R)"
    and u: "\<forall>x \<in> set u. is_token (rg_state r) (fst x)"
  shows "\<exists>goal rs idx. checked (rg_state r) goal rs \<and> packed_as (rg_state r) goal rs idx (rg_grammar r) (rg_names r) \<and>
    (generates (is_token (rg_state r)) rs [goal] (map fst u) \<longleftrightarrow>
      (\<exists>n. \<forall>yyMax. n < stack_size yyMax \<longrightarrow>
         (\<exists>k v. yyparse2 (arrays_of (rg_grammar r) R) act null yyMax (tokens_of (rg_grammar r) idx u) k = Some (Return v 0))))"
proof (rule reading_grammar [OF r v])
  fix goal rs
  let ?g = "rg_grammar r" and ?idx = "symbol_index (st_buckets (rd_syms (rg_state r))) goal"
  assume c: "checked (rg_state r) goal rs" and P: "packed_as (rg_state r) goal rs ?idx ?g (rg_names r)"
    and wf: "wf_grammar ?g" and V: "values_ok ?g" "symbol_value ?g ! 0 = 0" "symbol_value ?g ! start_symbol ?g = - 1"
  have out: "compile_tables ?g = Some (Inr R)" using R r by (auto simp: generator_def split: option.splits sum.splits)
  have ev: "end_values ?g" using V(2,3) by (simp add: end_values_def)
  from parser_language [OF P c wf V(1) ev out N u] c P show ?thesis by blast
qed

theorem text_to_language_witness:
  "\<exists>r. reader (\<lambda>_. 0) ''g'' sample_text = Inr r \<and>
    ((\<exists>e \<in> jay_limits. generator (\<lambda>_. 0) ''g'' sample_text = Some (Inl (Internal e))) \<or>
     (\<exists>R goal rs idx. generator (\<lambda>_. 0) ''g'' sample_text = Some (Inr (r, R)) \<and> checked (rg_state r) goal rs \<and>
       packed_as (rg_state r) goal rs idx (rg_grammar r) (rg_names r) \<and>
       (generates (is_token (rg_state r)) rs [goal] [2, 2] \<longleftrightarrow>
         (\<exists>n. \<forall>yyMax. n < stack_size yyMax \<longrightarrow> (\<exists>k v. yyparse2 (arrays_of (rg_grammar r) R) (\<lambda>n vs v. n + sum_list vs) 0 yyMax
            (tokens_of (rg_grammar r) idx [(2, 7), (2, 8)]) k = Some (Return v 0))))))"
proof -
  obtain r where r: "reader (\<lambda>_. 0) ''g'' sample_text = Inr r" "rg_grammar r = sample_grammar" "distinct_values r"
    "is_token (rg_state r) 2" by (rule sample_reading_token)
  from compile_tables_correct [OF sample_wf sample_values] show ?thesis
  proof
    assume "\<exists>e \<in> jay_limits. compile_tables sample_grammar = Some (Inl e)"
    with r(1,2) show ?thesis by (auto simp: generator_def)
  next
    assume "\<exists>R. compile_tables sample_grammar = Some (Inr R) \<and> run_ok sample_grammar R"
    then obtain R where R: "compile_tables sample_grammar = Some (Inr R)" "run_ok sample_grammar R" by blast
    have gen: "generator (\<lambda>_. 0) ''g'' sample_text = Some (Inr (r, R))" using R(1) r(1,2) by (simp add: generator_def)
    have u: "\<forall>x \<in> set [(2, 7), (2, 8)]. is_token (rg_state r) (fst x)" using r(4) by simp
    have N: "nothing_suppressed (run_parser R)" by (rule sample_nothing_suppressed [OF R(1)])
    from text_to_language [OF r(1,3) gen N u, of "\<lambda>n vs v. n + sum_list vs" 0] r(1) gen show ?thesis
      by (intro exI [of _ r] conjI disjI2) simp_all
  qed
qed

end
