(* ===== verification/Machine.thy ===== *)
theory Machine
  imports Main "HOL-Library.Word"
begin

text \<open>
  What the runtime (\<^verbatim>\<open>lrt-unwind.c\<close>, \<^verbatim>\<open>lrt-exception.c\<close>) sees of the machine: pointers of 64 bits, a
  memory of bytes in little-endian order, and the arithmetic of \<^verbatim>\<open>int\<close> inside 64-bit values.
\<close>

unbundle bit_operations_syntax

type_synonym ptr = "64 word"

type_synonym memory = "ptr \<Rightarrow> 8 word"

text \<open>A load of \<open>k\<close> bytes.\<close>

primrec load :: "nat \<Rightarrow> memory \<Rightarrow> ptr \<Rightarrow> 64 word" where
  "load 0 m p = 0"
| "load (Suc k) m p = ucast (m p) + 256 * load k m (p + 1)"

text \<open>A list of bytes as it lies in memory.\<close>

primrec bytes_at :: "memory \<Rightarrow> ptr \<Rightarrow> 8 word list \<Rightarrow> bool" where
  "bytes_at m p [] \<longleftrightarrow> True"
| "bytes_at m p (b # bs) \<longleftrightarrow> m p = b \<and> bytes_at m (p + 1) bs"

lemma bytes_at_append [simp]: "bytes_at m p (bs @ cs) \<longleftrightarrow> bytes_at m p bs \<and> bytes_at m (p + of_nat (length bs)) cs"
  by (induction bs arbitrary: p) (simp_all add: algebra_simps)

text \<open>The bytes of a number, the low one first.\<close>

primrec le_bytes :: "nat \<Rightarrow> nat \<Rightarrow> 8 word list" where
  "le_bytes 0 n = []"
| "le_bytes (Suc k) n = of_nat n # le_bytes k (n div 256)"

lemma length_le_bytes [simp]: "length (le_bytes k n) = k"
  by (induction k arbitrary: n) simp_all

lemma load_le_bytes: "bytes_at m p (le_bytes k n) \<Longrightarrow> n < 256 ^ k \<Longrightarrow> load k m p = of_nat n"
proof (induction k arbitrary: n p)
  case (Suc k)
  have "n div 256 < 256 ^ k" using Suc.prems(2) by (simp add: less_mult_imp_div_less mult.commute)
  with Suc.IH [of "p + 1" "n div 256"] Suc.prems(1) have l: "load k m (p + 1) = of_nat (n div 256)" by simp
  have "(ucast (of_nat n :: 8 word) :: 64 word) = of_nat (n mod 256)"
    by (simp add: unsigned_of_nat take_bit_eq_mod)
  then have "load (Suc k) m p = of_nat (n mod 256) + 256 * of_nat (n div 256)" using Suc.prems(1) l by simp
  also have "\<dots> = of_nat (n mod 256 + 256 * (n div 256))" by (simp only: of_nat_add of_nat_mult of_nat_numeral)
  also have "n mod 256 + 256 * (n div 256) = n" by (rule mod_mult_div_eq)
  finally show ?case .
qed simp

text \<open>An \<^verbatim>\<open>int\<close> converted to a 64-bit value.\<close>

definition of_int32 :: "64 word \<Rightarrow> 64 word" where
  "of_int32 v = signed_take_bit 31 v"

lemma of_int32_small: "n < 2 ^ 31 \<Longrightarrow> of_int32 (of_nat n) = of_nat n"
proof (rule bit_word_eqI)
  fix i assume n: "n < 2 ^ 31" and i: "i < LENGTH(64)"
  have "\<not> bit n j" if "31 \<le> j" for j using n that by (metis bit_take_bit_iff not_le take_bit_nat_eq_self)
  then show "bit (of_int32 (of_nat n) :: 64 word) i = bit (of_nat n :: 64 word) i"
    using i by (auto simp: of_int32_def bit_signed_take_bit_iff bit_of_nat_iff min_def)
qed

text \<open>Bits that are added above the ones there are.\<close>

lemma or_disjoint: "r < 2 ^ s \<Longrightarrow> (of_nat r :: 64 word) OR of_nat (v * 2 ^ s) = of_nat (r + v * 2 ^ s)"
proof -
  assume r: "r < 2 ^ s"
  have "\<not> bit r j \<or> \<not> bit (v * 2 ^ s) j" for j
  proof (cases "j < s")
    case True
    then have "\<not> bit (v * 2 ^ s) j" by (simp add: push_bit_eq_mult [symmetric] bit_push_bit_iff)
    then show ?thesis by blast
  next
    case False
    with r have "\<not> bit r j" by (metis bit_take_bit_iff take_bit_nat_eq_self)
    then show ?thesis by blast
  qed
  then have "r + v * 2 ^ s = r OR (v * 2 ^ s)" by (intro disjunctive_add) simp
  then show ?thesis by (simp add: of_nat_or_eq)
qed

end
