(* ===== verification/Roots.thy ===== *)
theory Roots
  imports Machine
begin

text \<open>
  The roots of the garbage collector, \<^verbatim>\<open>lrt-unwind.c\<close>: the runtime keeps a table of eight address ranges
  and widens one of them for every global pointer it is told of (\<^verbatim>\<open>__add_root\<close>).  A \<^verbatim>\<open>char *\<close> is a 64-bit
  word.  The collector is not part of this code: \<open>gc_add\<close> and \<open>gc_remove\<close> stand for \<^verbatim>\<open>GC_add_roots\<close> and
  \<^verbatim>\<open>GC_remove_roots\<close> on a state of the collector, and \<open>covers\<close> says which addresses it scans.  The main
  theorem is that every pointer the program has registered stays scanned.
\<close>

section \<open>The table\<close>

record root =
  r_low :: ptr
  r_high :: ptr

definition NUM_ROOT :: nat where "NUM_ROOT = 8"

definition MAX_DISTANCE :: ptr where "MAX_DISTANCE = 256 * 1024"

text \<open>The table at first, with its sentinel.\<close>

definition no_roots :: "root list" where
  "no_roots = replicate (NUM_ROOT + 1) \<lparr>r_low = 0, r_high = 0\<rparr>"

text \<open>The three loops of \<^verbatim>\<open>__find_closest_root\<close>; each goes over the indices that are left.\<close>

fun close_root :: "root list \<Rightarrow> ptr \<Rightarrow> nat list \<Rightarrow> nat option" where
  "close_root rs p [] = None"
| "close_root rs p (i # is) =
     (let r = rs ! i
      in if i = 0 \<and> r_low r = 0 then Some i
         else if r_low r - MAX_DISTANCE \<le> p \<and> p \<le> r_high r + MAX_DISTANCE then Some i
         else close_root rs p is)"

fun unused_root :: "root list \<Rightarrow> nat list \<Rightarrow> nat option" where
  "unused_root rs [] = None"
| "unused_root rs (i # is) = (if r_low (rs ! i) = 0 then Some i else unused_root rs is)"

text \<open>\<^verbatim>\<open>int d = closest->low - p\<close>: the difference of the pointers in 32 bits.\<close>

definition int_diff :: "ptr \<Rightarrow> ptr \<Rightarrow> int" where
  "int_diff a b = signed_take_bit 31 (uint (a - b))"

fun least_bad_root :: "root list \<Rightarrow> ptr \<Rightarrow> nat list \<Rightarrow> nat option \<Rightarrow> int \<Rightarrow> nat option" where
  "least_bad_root rs p [] closest dist = closest"
| "least_bad_root rs p (i # is) None dist = least_bad_root rs p is (Some i) dist"
| "least_bad_root rs p (i # is) (Some c) dist =
     (let below = p < r_low (rs ! c); above = r_high (rs ! c) < p;
          d = (if below then int_diff (r_low (rs ! c)) p else int_diff p (r_high (rs ! c)))
      in if \<not> below \<and> \<not> above then Some i
         else if dist = 0 \<or> d < dist then least_bad_root rs p is (Some i) d
         else least_bad_root rs p is (Some c) dist)"

definition find_closest_root :: "root list \<Rightarrow> ptr \<Rightarrow> nat option" where
  "find_closest_root rs p =
     (case close_root rs p [0..<NUM_ROOT] of Some i \<Rightarrow> Some i
      | None \<Rightarrow> (case unused_root rs [0..<NUM_ROOT] of Some i \<Rightarrow> Some i
         | None \<Rightarrow> least_bad_root rs p [0..<NUM_ROOT] None 0))"

section \<open>Adding a pointer\<close>

text \<open>\<open>None\<close> is the call of \<^verbatim>\<open>abort\<close>.\<close>

definition widen :: "ptr \<Rightarrow> root \<Rightarrow> root" where
  "widen g c =
     (let c' = (if r_low c = 0 \<or> g < r_low c then c\<lparr>r_low := g\<rparr> else c)
      in if r_high c' = 0 \<or> r_high c' < g then c'\<lparr>r_high := g\<rparr> else c')"

definition update_root ::
  "(ptr \<Rightarrow> ptr \<Rightarrow> 'gc \<Rightarrow> 'gc) \<Rightarrow> (ptr \<Rightarrow> ptr \<Rightarrow> 'gc \<Rightarrow> 'gc) \<Rightarrow> root \<Rightarrow> root \<Rightarrow> 'gc \<Rightarrow> 'gc" where
  "update_root gc_add gc_remove c c' s =
     (if r_low c' \<noteq> r_low c \<or> r_high c' \<noteq> r_high c then
        gc_add (r_low c') (r_high c' + 8) (if r_low c \<noteq> 0 then gc_remove (r_low c) (r_high c + 8) s else s)
      else s)"

definition add_root ::
  "(ptr \<Rightarrow> ptr \<Rightarrow> 'gc \<Rightarrow> 'gc) \<Rightarrow> (ptr \<Rightarrow> ptr \<Rightarrow> 'gc \<Rightarrow> 'gc) \<Rightarrow> ptr \<Rightarrow> root list \<times> 'gc \<Rightarrow> (root list \<times> 'gc) option" where
  "add_root gc_add gc_remove g = (\<lambda>(rs, s).
     case find_closest_root rs g of
       None \<Rightarrow> None
     | Some i \<Rightarrow> Some (rs[i := widen g (rs ! i)], update_root gc_add gc_remove (rs ! i) (widen g (rs ! i)) s))"

text \<open>\<^verbatim>\<open>__add_root_old\<close> has one range; it widens it in the same way.\<close>

definition add_root_old ::
  "(ptr \<Rightarrow> ptr \<Rightarrow> 'gc \<Rightarrow> 'gc) \<Rightarrow> (ptr \<Rightarrow> ptr \<Rightarrow> 'gc \<Rightarrow> 'gc) \<Rightarrow> ptr \<Rightarrow> root \<times> 'gc \<Rightarrow> root \<times> 'gc" where
  "add_root_old gc_add gc_remove g = (\<lambda>(c, s).
     let changed_low = (r_low c = 0 \<or> g < r_low c);
         c' = (if changed_low then c\<lparr>r_low := g\<rparr> else c);
         changed_high = (r_high c' = 0 \<or> r_high c' < g);
         c' = (if changed_high then c'\<lparr>r_high := g\<rparr> else c')
     in (c', if changed_low \<or> changed_high then
               gc_add (r_low c') (r_high c' + 8) (if r_low c \<noteq> 0 then gc_remove (r_low c) (r_high c + 8) s else s)
             else s))"

text \<open>\<^verbatim>\<open>__add_roots\<close>, and \<^verbatim>\<open>__GC_add_roots\<close> of \<^verbatim>\<open>lrt-exception.c\<close>, whose end is one \<^verbatim>\<open>long\<close> further.\<close>

definition add_roots :: "(ptr \<Rightarrow> ptr \<Rightarrow> 'gc \<Rightarrow> 'gc) \<Rightarrow> ptr \<Rightarrow> ptr \<Rightarrow> 'gc \<Rightarrow> 'gc" where
  "add_roots gc_add b e = gc_add b e"

definition GC_add_roots_to :: "(ptr \<Rightarrow> ptr \<Rightarrow> 'gc \<Rightarrow> 'gc) \<Rightarrow> ptr \<Rightarrow> ptr \<Rightarrow> 'gc \<Rightarrow> 'gc" where
  "GC_add_roots_to gc_add b e = gc_add b (e + 8)"

fun register_all ::
  "(ptr \<Rightarrow> ptr \<Rightarrow> 'gc \<Rightarrow> 'gc) \<Rightarrow> (ptr \<Rightarrow> ptr \<Rightarrow> 'gc \<Rightarrow> 'gc) \<Rightarrow> ptr list \<Rightarrow> root list \<times> 'gc \<Rightarrow> (root list \<times> 'gc) option" where
  "register_all gc_add gc_remove [] t = Some t"
| "register_all gc_add gc_remove (g # gs) t =
     (case add_root gc_add gc_remove g t of None \<Rightarrow> None | Some t \<Rightarrow> register_all gc_add gc_remove gs t)"

section \<open>A root is always found\<close>

lemma close_root_in: "close_root rs p is = Some i \<Longrightarrow> i \<in> set is"
  by (induction "is") (auto simp: Let_def split: if_splits)

lemma unused_root_in: "unused_root rs is = Some i \<Longrightarrow> i \<in> set is"
  by (induction "is") (auto split: if_splits)

lemma least_bad_root_in:
  "\<exists>i. least_bad_root rs p is (Some c) d = Some i \<and> i \<in> insert c (set is)"
  by (induction "is" arbitrary: c d) (auto simp: Let_def)

lemma find_closest_root_in: "\<exists>i < NUM_ROOT. find_closest_root rs p = Some i"
proof (cases "close_root rs p [0..<NUM_ROOT]")
  case None
  show ?thesis
  proof (cases "unused_root rs [0..<NUM_ROOT]")
    case None
    have "[0..<NUM_ROOT] = 0 # [1..<NUM_ROOT]" by (simp add: NUM_ROOT_def upt_conv_Cons)
    then have "least_bad_root rs p [0..<NUM_ROOT] None 0 = least_bad_root rs p [1..<NUM_ROOT] (Some 0) 0" by simp
    with least_bad_root_in [of rs p "[1..<NUM_ROOT]" 0 0] None \<open>close_root _ _ _ = None\<close> show ?thesis
      by (auto simp: find_closest_root_def NUM_ROOT_def)
  next
    case (Some i)
    with unused_root_in [OF Some] \<open>close_root _ _ _ = None\<close> show ?thesis by (auto simp: find_closest_root_def)
  qed
next
  case (Some i)
  with close_root_in [OF Some] show ?thesis by (auto simp: find_closest_root_def)
qed

section \<open>Registered pointers stay scanned\<close>

text \<open>What the collector promises: added ranges are scanned, and removing a range leaves the rest alone.\<close>

definition gc_laws ::
  "(ptr \<Rightarrow> ptr \<Rightarrow> 'gc \<Rightarrow> 'gc) \<Rightarrow> (ptr \<Rightarrow> ptr \<Rightarrow> 'gc \<Rightarrow> 'gc) \<Rightarrow> ('gc \<Rightarrow> ptr \<Rightarrow> bool) \<Rightarrow> bool" where
  "gc_laws gc_add gc_remove covers \<longleftrightarrow>
     (\<forall>b e s x. covers s x \<or> (b \<le> x \<and> x < e) \<longrightarrow> covers (gc_add b e s) x) \<and>
     (\<forall>b e s x. covers s x \<and> \<not> (b \<le> x \<and> x < e) \<longrightarrow> covers (gc_remove b e s) x)"

text \<open>A pointer with room for the eight bytes it points to.\<close>

definition valid_ptr :: "ptr \<Rightarrow> bool" where
  "valid_ptr g \<longleftrightarrow> g \<noteq> 0 \<and> unat g + 8 < 2 ^ 64"

text \<open>A used root is a range the collector scans; an unused one is null.\<close>

definition root_ok :: "(ptr \<Rightarrow> bool) \<Rightarrow> root \<Rightarrow> bool" where
  "root_ok scanned r \<longleftrightarrow> r_low r = 0 \<and> r_high r = 0 \<or>
     valid_ptr (r_low r) \<and> valid_ptr (r_high r) \<and> r_low r \<le> r_high r \<and>
     (\<forall>x. r_low r \<le> x \<and> x < r_high r + 8 \<longrightarrow> scanned x)"

definition holds_ptr :: "root \<Rightarrow> ptr \<Rightarrow> bool" where
  "holds_ptr r g \<longleftrightarrow> r_low r \<noteq> 0 \<and> r_low r \<le> g \<and> g \<le> r_high r"

definition roots_inv :: "('gc \<Rightarrow> ptr \<Rightarrow> bool) \<Rightarrow> ptr set \<Rightarrow> root list \<times> 'gc \<Rightarrow> bool" where
  "roots_inv covers G = (\<lambda>(rs, s). length rs = NUM_ROOT + 1 \<and>
     (\<forall>i < NUM_ROOT. root_ok (covers s) (rs ! i)) \<and> (\<forall>g \<in> G. \<exists>i < NUM_ROOT. holds_ptr (rs ! i) g))"

lemma plus_8_less:
  "valid_ptr b \<Longrightarrow> a \<le> b \<Longrightarrow> x < a + 8 \<Longrightarrow> x < b + 8"
  unfolding valid_ptr_def word_less_nat_alt word_le_nat_alt by (simp add: unat_word_ariths)

lemma widen_ok:
  assumes "root_ok scanned c" "valid_ptr g"
  shows "valid_ptr (r_low (widen g c))" "valid_ptr (r_high (widen g c))" "r_low (widen g c) \<le> r_high (widen g c)"
    "holds_ptr (widen g c) g" "holds_ptr c h \<Longrightarrow> holds_ptr (widen g c) h"
    "r_low c \<noteq> 0 \<Longrightarrow> r_low (widen g c) \<le> r_low c \<and> r_high c \<le> r_high (widen g c)"
  using assms by (auto simp: root_ok_def valid_ptr_def widen_def holds_ptr_def Let_def)

lemma update_root_covers:
  assumes gc: "gc_laws gc_add gc_remove covers" and c: "root_ok (covers s) c" and g: "valid_ptr g"
  shows "covers s x \<Longrightarrow> covers (update_root gc_add gc_remove c (widen g c) s) x"
    "root_ok (covers (update_root gc_add gc_remove c (widen g c) s)) (widen g c)"
proof -
  let ?c = "widen g c" and ?s = "update_root gc_add gc_remove c (widen g c) s"
  note w = widen_ok [OF c g]
  have add: "covers s x \<or> (b \<le> x \<and> x < e) \<Longrightarrow> covers (gc_add b e s) x"
    and rm: "covers s x \<Longrightarrow> \<not> (b \<le> x \<and> x < e) \<Longrightarrow> covers (gc_remove b e s) x" for b e s x
    using gc unfolding gc_laws_def by blast+
  have inner: "r_low ?c \<le> x \<and> x < r_high ?c + 8" if "r_low c \<noteq> 0" "r_low c \<le> x" "x < r_high c + 8" for x
    using w(6) [OF that(1)] plus_8_less [OF w(2), of "r_high c"] that by auto
  have keep: "covers ?s x" if x: "covers s x" for x
  proof (cases "r_low c \<noteq> 0 \<and> r_low c \<le> x \<and> x < r_high c + 8")
    case True
    then have "covers (gc_add (r_low ?c) (r_high ?c + 8) s') x" for s' using add inner by blast
    with x show ?thesis by (simp add: update_root_def)
  next
    case False
    then have "covers (if r_low c \<noteq> 0 then gc_remove (r_low c) (r_high c + 8) s else s) x"
      using rm [of s x "r_low c" "r_high c + 8"] x by auto
    then have "covers (gc_add (r_low ?c) (r_high ?c + 8) (if r_low c \<noteq> 0 then gc_remove (r_low c) (r_high c + 8) s else s)) x"
      using add by blast
    with x show ?thesis by (simp add: update_root_def)
  qed
  then show "covers s x \<Longrightarrow> covers ?s x" .
  have same: "?c = c" if "r_low ?c = r_low c" "r_high ?c = r_high c" using that by (cases c) (auto simp: widen_def Let_def)
  have "covers ?s x" if x: "r_low ?c \<le> x" "x < r_high ?c + 8" for x
  proof (cases "r_low ?c = r_low c \<and> r_high ?c = r_high c")
    case True
    then have "?c = c" using same by simp
    moreover have "valid_ptr (r_low c)" using w(1) True by simp
    ultimately have "covers s x" using c x by (auto simp: root_ok_def valid_ptr_def)
    then show ?thesis by (rule keep)
  next
    case False
    then show ?thesis using add x by (auto simp: update_root_def)
  qed
  then show "root_ok (covers ?s) ?c" using w(1-3) by (simp add: root_ok_def)
qed

lemma add_root_inv:
  assumes gc: "gc_laws gc_add gc_remove covers" and i: "roots_inv covers G t" and g: "valid_ptr g"
  shows "\<exists>t'. add_root gc_add gc_remove g t = Some t' \<and> roots_inv covers (insert g G) t'"
proof -
  obtain rs s where t: "t = (rs, s)" by (cases t)
  obtain j where j: "j < NUM_ROOT" "find_closest_root rs g = Some j" using find_closest_root_in by blast
  have c: "root_ok (covers s) (rs ! j)" and n: "length rs = NUM_ROOT + 1" using i j(1) by (simp_all add: roots_inv_def t)
  let ?s = "update_root gc_add gc_remove (rs ! j) (widen g (rs ! j)) s" and ?rs = "rs[j := widen g (rs ! j)]"
  note u = update_root_covers [OF gc c g] and w = widen_ok [OF c g]
  have "root_ok (covers ?s) (?rs ! k)" if "k < NUM_ROOT" for k
  proof (cases "k = j")
    case True
    with u(2) n j(1) show ?thesis by simp
  next
    case False
    have "root_ok (covers s) (rs ! k)" using i that by (simp add: roots_inv_def t)
    with False u(1) show ?thesis by (auto simp: root_ok_def)
  qed
  moreover have "\<exists>k < NUM_ROOT. holds_ptr (?rs ! k) h" if h: "h \<in> insert g G" for h
  proof (cases "h = g")
    case True
    with w(4) n j(1) show ?thesis by auto
  next
    case False
    then obtain k where "k < NUM_ROOT" "holds_ptr (rs ! k) h" using i h by (auto simp: roots_inv_def t)
    with w(5) [of h] n j(1) show ?thesis by (cases "k = j") auto
  qed
  ultimately have "roots_inv covers (insert g G) (?rs, ?s)" using n by (simp add: roots_inv_def)
  then show ?thesis using j(2) by (simp add: add_root_def t)
qed

lemma register_all_inv:
  assumes gc: "gc_laws gc_add gc_remove covers"
  shows "roots_inv covers G t \<Longrightarrow> \<forall>g \<in> set gs. valid_ptr g \<Longrightarrow>
    \<exists>t'. register_all gc_add gc_remove gs t = Some t' \<and> roots_inv covers (G \<union> set gs) t'"
proof (induction gs arbitrary: G t)
  case (Cons g gs)
  obtain t' where t': "add_root gc_add gc_remove g t = Some t'" "roots_inv covers (insert g G) t'"
    using add_root_inv [OF gc Cons.prems(1), of g] Cons.prems(2) by auto
  from Cons.IH [OF t'(2)] Cons.prems(2) t'(1) show ?case by (auto simp: insert_commute)
qed simp

lemma roots_inv_covers:
  assumes "roots_inv covers G (rs, s)" "g \<in> G" "valid_ptr g" "g \<le> x" "x < g + 8"
  shows "covers s x"
proof -
  obtain i where i: "i < NUM_ROOT" "holds_ptr (rs ! i) g" using assms(1,2) by (auto simp: roots_inv_def)
  then have "root_ok (covers s) (rs ! i)" using assms(1) by (simp add: roots_inv_def)
  with i(2) have r: "valid_ptr (r_high (rs ! i))" "\<forall>x. r_low (rs ! i) \<le> x \<and> x < r_high (rs ! i) + 8 \<longrightarrow> covers s x"
    by (auto simp: root_ok_def holds_ptr_def)
  have "r_low (rs ! i) \<le> x" using i(2) assms(4) by (auto simp: holds_ptr_def)
  moreover have "x < r_high (rs ! i) + 8" using plus_8_less [OF r(1) _ assms(5)] i(2) by (simp add: holds_ptr_def)
  ultimately show ?thesis using r(2) by blast
qed

text \<open>
  C22: Whatever pointers the program registers, in whatever order, \<^verbatim>\<open>__add_root\<close> never aborts, and at the end
  the collector scans the eight bytes at every one of them, however often the ranges were removed and
  added again, and although they may have come to overlap.
\<close>

theorem registered_scanned:
  assumes gc: "gc_laws gc_add gc_remove covers" and gs: "\<forall>g \<in> set gs. valid_ptr g"
  shows "\<exists>rs s'. register_all gc_add gc_remove gs (no_roots, s) = Some (rs, s') \<and>
    (\<forall>g \<in> set gs. \<forall>x. g \<le> x \<and> x < g + 8 \<longrightarrow> covers s' x)"
proof -
  have "roots_inv covers {} (no_roots, s)" by (simp add: roots_inv_def no_roots_def root_ok_def NUM_ROOT_def)
  from register_all_inv [OF gc this gs] obtain t' where
    t: "register_all gc_add gc_remove gs (no_roots, s) = Some t'" "roots_inv covers (set gs) t'" by force
  obtain rs s' where rs: "t' = (rs, s')" by (cases t')
  have "covers s' x" if "g \<in> set gs" "g \<le> x" "x < g + 8" for g x
    using roots_inv_covers [OF t(2) [unfolded rs] that(1) _ that(2,3)] gs that(1) by blast
  with t(1) rs show ?thesis by blast
qed

text \<open>A collector that keeps the set of the addresses it scans; three pointers, two of them far apart.\<close>

theorem registered_scanned_witness:
  "\<exists>rs s'. register_all (\<lambda>b e s. s \<union> {b..<e}) (\<lambda>b e s. s - {b..<e}) [0x10000, 0x90000, 0x10100] (no_roots, {}) = Some (rs, s') \<and>
    {0x10000..<0x10008} \<subseteq> s' \<and> {0x90000..<0x90008} \<subseteq> s' \<and> {0x10100..<0x10108} \<subseteq> s'"
proof -
  have "gc_laws (\<lambda>b e s. s \<union> {b..<e}) (\<lambda>b e s. s - {b..<e}) (\<lambda>s x. x \<in> s)" unfolding gc_laws_def by auto
  moreover have "\<forall>g \<in> set [0x10000, 0x90000, 0x10100]. valid_ptr g" by (simp add: valid_ptr_def)
  ultimately have "\<exists>rs s'. register_all (\<lambda>b e s. s \<union> {b..<e}) (\<lambda>b e s. s - {b..<e}) [0x10000, 0x90000, 0x10100] (no_roots, {}) = Some (rs, s') \<and>
    (\<forall>g \<in> set [0x10000, 0x90000, 0x10100]. \<forall>x. g \<le> x \<and> x < g + 8 \<longrightarrow> x \<in> s')"
    by (rule registered_scanned)
  then obtain rs s' where "register_all (\<lambda>b e s. s \<union> {b..<e}) (\<lambda>b e s. s - {b..<e}) [0x10000, 0x90000, 0x10100] (no_roots, {}) = Some (rs, s')"
    and "\<forall>g \<in> set [0x10000, 0x90000, 0x10100]. \<forall>x. g \<le> x \<and> x < g + 8 \<longrightarrow> x \<in> s'"
    by blast
  then show ?thesis by (intro exI conjI) (assumption, auto simp: subset_iff)
qed

end
