(* ===== verification/Lsda.thy ===== *)
theory Lsda
  imports Machine
begin

text \<open>
  The personality routine of the runtime, \<^verbatim>\<open>lrt-unwind.c\<close>: numbers in LEB128, pointers in the encodings of
  DWARF, and the walk over the call-site table of a function (its LSDA) for the landing pad of a program
  counter.  Memory can be read everywhere; a shift of an \<^verbatim>\<open>int\<close> by 32 or more is undefined and an error here,
  and so is an encoding for which the code calls \<^verbatim>\<open>abort\<close>.  The library of the unwinder is seen through the
  \<open>context\<close> it hands over.  The theorems say that the decoders undo the encodings, and that \<open>handleLsda\<close>
  finds the first call site with a landing pad that contains the program counter.
\<close>

section \<open>Constants and data\<close>

definition DW_EH_PE_absptr :: "8 word" where "DW_EH_PE_absptr = 0x00"
definition DW_EH_PE_uleb128 :: "8 word" where "DW_EH_PE_uleb128 = 0x01"
definition DW_EH_PE_udata2 :: "8 word" where "DW_EH_PE_udata2 = 0x02"
definition DW_EH_PE_udata4 :: "8 word" where "DW_EH_PE_udata4 = 0x03"
definition DW_EH_PE_udata8 :: "8 word" where "DW_EH_PE_udata8 = 0x04"
definition DW_EH_PE_sleb128 :: "8 word" where "DW_EH_PE_sleb128 = 0x09"
definition DW_EH_PE_sdata2 :: "8 word" where "DW_EH_PE_sdata2 = 0x0A"
definition DW_EH_PE_sdata4 :: "8 word" where "DW_EH_PE_sdata4 = 0x0B"
definition DW_EH_PE_sdata8 :: "8 word" where "DW_EH_PE_sdata8 = 0x0C"
definition DW_EH_PE_pcrel :: "8 word" where "DW_EH_PE_pcrel = 0x10"
definition DW_EH_PE_indirect :: "8 word" where "DW_EH_PE_indirect = 0x80"
definition DW_EH_PE_omit :: "8 word" where "DW_EH_PE_omit = 0xFF"

definition UA_SEARCH_PHASE :: "32 word" where "UA_SEARCH_PHASE = 1"
definition L_EXCEPTION_CLASS :: "64 word" where "L_EXCEPTION_CLASS = 0x1EE71EE7DE95DE95"

datatype lsda_error = Aborted | Undefined_shift | Endless_walk

text \<open>\<^verbatim>\<open>_Unwind_Reason_Code\<close>, as far as it is used.\<close>

datatype reason = CONTINUE_UNWIND | HANDLER_FOUND | INSTALL_CONTEXT

text \<open>What \<^verbatim>\<open>_Unwind_GetIP\<close>, \<^verbatim>\<open>_Unwind_GetRegionStart\<close> and \<^verbatim>\<open>_Unwind_GetLanguageSpecificData\<close> return, and the two
  registers \<^verbatim>\<open>_Unwind_SetGR\<close> sets.\<close>

record unwind_context =
  uc_ip :: ptr
  uc_region :: ptr
  uc_lsda :: ptr
  uc_gr0 :: "64 word"
  uc_gr1 :: "64 word"

text \<open>An operation that may fail, followed by another.\<close>

definition next_op :: "'e + 'a \<Rightarrow> ('a \<Rightarrow> 'e + 'b) \<Rightarrow> 'e + 'b" where
  "next_op x f = (case x of Inl e \<Rightarrow> Inl e | Inr a \<Rightarrow> f a)"

lemma next_op_simps [simp]: "next_op (Inl e) f = Inl e" "next_op (Inr a) f = f a"
  by (simp_all add: next_op_def)

section \<open>LEB128\<close>

text \<open>The loop both readers have.  It returns the result, the shift, the last byte and the new position.\<close>

function leb_loop :: "memory \<Rightarrow> nat \<Rightarrow> 64 word \<Rightarrow> ptr \<Rightarrow> lsda_error + 64 word \<times> nat \<times> 8 word \<times> ptr" where
  "leb_loop m shift result p =
     (if shift \<ge> 32 then Inl Undefined_shift
      else let byte = m p;
               result = result OR of_int32 (push_bit shift (ucast (byte AND 0x7F)))
           in if byte AND 0x80 \<noteq> 0 then leb_loop m (shift + 7) result (p + 1)
              else Inr (result, shift + 7, byte, p + 1))"
  by pat_completeness auto

termination
  by (relation "measure (\<lambda>(m, shift, result, p). 32 - shift)") auto

declare leb_loop.simps [simp del]

definition readULEB128 :: "memory \<Rightarrow> ptr \<Rightarrow> lsda_error + 64 word \<times> ptr" where
  "readULEB128 m p = next_op (leb_loop m 0 0 p) (\<lambda>(result, shift, byte, p). Inr (result, p))"

definition readSLEB128 :: "memory \<Rightarrow> ptr \<Rightarrow> lsda_error + 64 word \<times> ptr" where
  "readSLEB128 m p = next_op (leb_loop m 0 0 p) (\<lambda>(result, shift, byte, p).
     if byte AND 0x40 \<noteq> 0 \<and> shift < 64 then
       if shift \<ge> 32 then Inl Undefined_shift else Inr (result OR of_int32 (push_bit shift (- 1)), p)
     else Inr (result, p))"

section \<open>Encoded pointers\<close>

definition encoded_value :: "memory \<Rightarrow> ptr \<Rightarrow> 8 word \<Rightarrow> lsda_error + 64 word \<times> ptr" where
  "encoded_value m p encoding =
     (let form = encoding AND 0x0F
      in if form = DW_EH_PE_absptr then Inr (load 8 m p, p + 8)
         else if form = DW_EH_PE_uleb128 then readULEB128 m p
         else if form = DW_EH_PE_sleb128 then readSLEB128 m p
         else if form = DW_EH_PE_udata2 then Inr (load 2 m p, p + 2)
         else if form = DW_EH_PE_udata4 then Inr (load 4 m p, p + 4)
         else if form = DW_EH_PE_udata8 then Inr (load 8 m p, p + 8)
         else if form = DW_EH_PE_sdata2 then Inr (signed_take_bit 15 (load 2 m p), p + 2)
         else if form = DW_EH_PE_sdata4 then Inr (signed_take_bit 31 (load 4 m p), p + 4)
         else if form = DW_EH_PE_sdata8 then Inr (load 8 m p, p + 8)
         else Inl Aborted)"

definition readEncodedPointer :: "memory \<Rightarrow> ptr \<Rightarrow> 8 word \<Rightarrow> lsda_error + 64 word \<times> ptr" where
  "readEncodedPointer m data encoding =
     (if encoding = DW_EH_PE_omit then Inr (0, data)
      else next_op (encoded_value m data encoding) (\<lambda>(result, p).
        let rel = encoding AND 0x70
        in next_op (if rel = DW_EH_PE_absptr then Inr result
                    else if rel = DW_EH_PE_pcrel then Inr (result + data) else Inl Aborted) (\<lambda>result.
          Inr (if encoding AND DW_EH_PE_indirect \<noteq> 0 then load 8 m result else result, p))))"

section \<open>The walk over the call sites\<close>

record call_site =
  cs_start :: "64 word"
  cs_length :: "64 word"
  cs_pad :: "64 word"
  cs_action :: "64 word"

definition read_call_site :: "memory \<Rightarrow> 8 word \<Rightarrow> ptr \<Rightarrow> lsda_error + call_site \<times> ptr" where
  "read_call_site m encoding p =
     next_op (readEncodedPointer m p encoding) (\<lambda>(start, p).
     next_op (readEncodedPointer m p encoding) (\<lambda>(len, p).
     next_op (readEncodedPointer m p encoding) (\<lambda>(pad, p).
     next_op (readULEB128 m p) (\<lambda>(action, p).
       Inr (\<lparr>cs_start = start, cs_length = len, cs_pad = pad, cs_action = action\<rparr>, p)))))"

definition site_matches :: "64 word \<Rightarrow> call_site \<Rightarrow> bool" where
  "site_matches off c \<longleftrightarrow> cs_pad c \<noteq> 0 \<and> cs_start c \<le> off \<and> off < cs_start c + cs_length c"

text \<open>The loop; each round reads at least one byte.  The result is the site it stops at.\<close>

fun walk_sites :: "nat \<Rightarrow> memory \<Rightarrow> 8 word \<Rightarrow> ptr \<Rightarrow> ptr \<Rightarrow> 64 word \<Rightarrow> lsda_error + call_site option" where
  "walk_sites 0 m encoding p stop off = Inl Endless_walk"
| "walk_sites (Suc k) m encoding p stop off =
     (if p < stop then
        next_op (read_call_site m encoding p) (\<lambda>(c, p).
          if site_matches off c then Inr (Some c) else walk_sites k m encoding p stop off)
      else Inr None)"

text \<open>The header of the LSDA: the call-site encoding, the beginning and the length of the call-site table.\<close>

definition read_header :: "memory \<Rightarrow> ptr \<Rightarrow> lsda_error + 8 word \<times> ptr \<times> 32 word" where
  "read_header m lsda =
     next_op (if m lsda \<noteq> DW_EH_PE_omit then next_op (readEncodedPointer m (lsda + 1) (m lsda)) (\<lambda>(v, p). Inr p)
              else Inr (lsda + 1)) (\<lambda>p.
     next_op (if m p \<noteq> DW_EH_PE_omit then next_op (readULEB128 m (p + 1)) (\<lambda>(v, p). Inr p) else Inr (p + 1)) (\<lambda>p.
     next_op (readULEB128 m (p + 1)) (\<lambda>(len, q). Inr (m p, q, ucast len))))"

definition handleLsda ::
  "memory \<Rightarrow> int \<Rightarrow> ptr \<Rightarrow> 32 word \<Rightarrow> 64 word \<Rightarrow> ptr \<Rightarrow> unwind_context \<Rightarrow> lsda_error + reason \<times> unwind_context" where
  "handleLsda m version lsda actions exceptionClass exceptionObject ctx =
     (let pc = uc_ip ctx - 1; off = pc - uc_region ctx
      in if version < 0 \<or> lsda = 0 then Inr (CONTINUE_UNWIND, ctx)
         else next_op (read_header m lsda) (\<lambda>(encoding, p, len).
           next_op (walk_sites (Suc (unat len)) m encoding p (p + ucast len) off) (\<lambda>found. case found of
               None \<Rightarrow> Inr (CONTINUE_UNWIND, ctx)
             | Some c \<Rightarrow>
                 if actions AND UA_SEARCH_PHASE \<noteq> 0 then Inr (HANDLER_FOUND, ctx)
                 else Inr (INSTALL_CONTEXT, ctx\<lparr>uc_gr0 := exceptionObject,
                   uc_gr1 := (if exceptionClass = L_EXCEPTION_CLASS then 2 else 4),
                   uc_ip := uc_region ctx + cs_pad c\<rparr>))))"

definition l_personality ::
  "memory \<Rightarrow> int \<Rightarrow> 32 word \<Rightarrow> 64 word \<Rightarrow> ptr \<Rightarrow> unwind_context \<Rightarrow> lsda_error + reason \<times> unwind_context" where
  "l_personality m version actions exceptionClass exceptionObject ctx =
     (if version < 0 then Inr (CONTINUE_UNWIND, ctx)
      else handleLsda m version (uc_lsda ctx) actions exceptionClass exceptionObject ctx)"

section \<open>Action chains and exceptions\<close>

text \<open>
  The walk over a chain of actions for a type; \<^verbatim>\<open>handleLsda\<close> does not call it.  A chain can be a cycle, then
  the function does not return (\<open>None\<close>).
\<close>

partial_function (option) action_loop :: "memory \<Rightarrow> ptr \<Rightarrow> nat \<Rightarrow> (lsda_error + nat option) option" where
  "action_loop m p i =
     (case readSLEB128 m p of
        Inl e \<Rightarrow> Some (Inl e)
      | Inr (typeOffset, q) \<Rightarrow>
          (case readSLEB128 m q of
             Inl e \<Rightarrow> Some (Inl e)
           | Inr (actionOffset, q') \<Rightarrow>
               if 0 < sint typeOffset then Some (Inr (Some (i + 1)))
               else if actionOffset \<noteq> 0 then action_loop m (q + actionOffset) (i + 1)
               else Some (Inr None)))"

definition handleActionValue :: "memory \<Rightarrow> ptr \<Rightarrow> 64 word \<Rightarrow> ptr \<Rightarrow> (lsda_error + nat option) option" where
  "handleActionValue m actionEntry exceptionClass exceptionObject =
     (if exceptionObject \<noteq> 0 \<and> exceptionClass = L_EXCEPTION_CLASS then action_loop m actionEntry 0 else Some (Inr None))"

record unwind_exception =
  ue_class :: "64 word"
  ue_exception :: ptr

definition makeException :: "ptr \<Rightarrow> unwind_exception" where
  "makeException l_exception = \<lparr>ue_class = L_EXCEPTION_CLASS, ue_exception = l_exception\<rparr>"

definition get_l_exception :: "unwind_exception \<Rightarrow> ptr" where
  "get_l_exception e = ue_exception e"

section \<open>LEB128: encoders and round trips\<close>

function uleb :: "nat \<Rightarrow> 8 word list" where
  "uleb n = (if n < 128 then [of_nat n] else of_nat (128 + n mod 128) # uleb (n div 128))"
  by pat_completeness auto

termination
  by (relation "measure id") auto

lemma div_128_shrinks: "k < - 64 \<or> 64 \<le> k \<Longrightarrow> nat \<bar>k div 128\<bar> < nat \<bar>k\<bar>" for k :: int
  by linarith

function sleb :: "int \<Rightarrow> 8 word list" where
  "sleb k =
     (if - 64 \<le> k \<and> k < 64 then [of_nat (nat (k mod 128))]
      else of_nat (128 + nat (k mod 128)) # sleb (k div 128))"
  by pat_completeness auto

termination
  by (relation "measure (\<lambda>k. nat \<bar>k\<bar>)") (auto intro: div_128_shrinks)

declare uleb.simps [simp del] sleb.simps [simp del]

lemma low_bits: "(a :: 8 word) AND 0x7F = of_nat (unat a mod 128)"
proof -
  have "(0x7F :: 8 word) = mask 7" by (simp add: mask_eq_exp_minus_1)
  then have "a AND 0x7F = take_bit 7 a" by (simp add: take_bit_eq_mask)
  also have "\<dots> = of_nat (unat a mod 128)"
  proof -
    have "unat a mod 128 = take_bit 7 (unat a)" by (simp add: take_bit_eq_mod)
    then show ?thesis by (simp add: take_bit_of_nat [symmetric])
  qed
  finally show ?thesis .
qed

lemma stop_bit: "(a :: 8 word) AND 0x80 \<noteq> 0 \<longleftrightarrow> bit (unat a) 7" "(a :: 8 word) AND 0x40 \<noteq> 0 \<longleftrightarrow> bit (unat a) 6"
  using and_exp_eq_0_iff_not_bit [of a 7] and_exp_eq_0_iff_not_bit [of a 6] by (auto simp: bit_unsigned_iff)

text \<open>One round of the loop, at the last byte and before it.\<close>

lemma of_nat_byte: "n < 256 \<Longrightarrow> unat (of_nat n :: 8 word) = n"
  by (simp add: unat_of_nat)

lemma top_bit: "n < 2 * 2 ^ k \<Longrightarrow> bit n k \<longleftrightarrow> 2 ^ k \<le> n" for n :: nat
proof (cases "n < 2 ^ k")
  case False
  assume "n < 2 * 2 ^ k"
  with False have "n div 2 ^ k = 1" by (intro div_nat_eqI) simp_all
  with False show ?thesis by (simp add: bit_iff_odd)
qed (simp add: bit_iff_odd)

lemma unat_bits: "n < 256 \<Longrightarrow> bit n 7 \<longleftrightarrow> 128 \<le> n" "bit n 6 \<longleftrightarrow> 64 \<le> n mod 128" for n :: nat
proof -
  show "n < 256 \<Longrightarrow> bit n 7 \<longleftrightarrow> 128 \<le> n" using top_bit [of n 7] by simp
  have "bit n 6 \<longleftrightarrow> bit (take_bit 7 n) 6" by (simp add: bit_take_bit_iff)
  then show "bit n 6 \<longleftrightarrow> 64 \<le> n mod 128" using top_bit [of "n mod 128" 6] by (simp add: take_bit_eq_mod)
qed

lemma piece:
  assumes "v < 128" "r < 2 ^ shift" "v * 2 ^ shift < 2 ^ 31"
  shows "of_nat r OR of_int32 (push_bit shift (of_nat v)) = of_nat (r + v * 2 ^ shift)"
proof -
  have "push_bit shift (of_nat v :: 64 word) = of_nat (v * 2 ^ shift)" by (simp add: push_bit_eq_mult)
  with of_int32_small [OF assms(3)] or_disjoint [OF assms(2)] show ?thesis by simp
qed

lemma byte_value: "n < 256 \<Longrightarrow> (ucast (of_nat n :: 8 word) :: 64 word) = of_nat n"
  by (simp add: unsigned_of_nat take_bit_nat_eq_self)

lemma leb_last:
  assumes "m p = of_nat v" "v < 128" "shift < 32" "r < 2 ^ shift" "v * 2 ^ shift < 2 ^ 31"
  shows "leb_loop m shift (of_nat r) p = Inr (of_nat (r + v * 2 ^ shift), shift + 7, of_nat v, p + 1)"
  using assms piece [of v r shift]
  by (subst leb_loop.simps) (simp add: low_bits stop_bit of_nat_byte unat_bits byte_value Let_def)

lemma leb_more:
  assumes "m p = of_nat (128 + v)" "v < 128" "shift < 32" "r < 2 ^ shift" "v * 2 ^ shift < 2 ^ 31"
  shows "leb_loop m shift (of_nat r) p = leb_loop m (shift + 7) (of_nat (r + v * 2 ^ shift)) (p + 1)"
  using assms piece [of v r shift]
  by (subst leb_loop.simps) (simp add: low_bits stop_bit of_nat_byte [of "128 + v"] unat_bits byte_value Let_def
      del: of_nat_add)

lemma leb_long:
  "(\<And>i. i < k \<Longrightarrow> bit (unat (m (p + of_nat i))) 7) \<Longrightarrow> 32 \<le> shift + 7 * k \<Longrightarrow> leb_loop m shift r p = Inl Undefined_shift"
proof (induction k arbitrary: shift r p)
  case (Suc k)
  have "bit (unat (m (p + 1 + of_nat i))) 7" if "i < k" for i
    using Suc.prems(1) [of "Suc i"] that by (simp add: algebra_simps)
  with Suc.IH [of "p + 1" "shift + 7"] Suc.prems have "leb_loop m (shift + 7) r' (p + 1) = Inl Undefined_shift" for r' by simp
  then show ?case using Suc.prems(1) [of 0]
    by (subst leb_loop.simps) (simp add: stop_bit Let_def)
qed (subst leb_loop.simps, simp)
lemma small_factor: "v \<le> x \<Longrightarrow> x * 2 ^ s < 2 ^ 31 \<Longrightarrow> v * 2 ^ s < (2 :: nat) ^ 31"
  by (meson le_less_trans mult_le_mono1)

lemma group_below:
  assumes "r < 2 ^ s" and "v < (128 :: nat)"
  shows "r + v * 2 ^ s < 2 ^ (s + 7)"
proof -
  have "r + v * 2 ^ s < (v + 1) * 2 ^ s" using assms(1) by simp
  also have "\<dots> \<le> 128 * 2 ^ s" using assms(2) by (intro mult_le_mono1) simp
  finally show ?thesis by (simp add: power_add)
qed

lemma group_sum: "r + v * 2 ^ s + w * 2 ^ (s + 7) = r + (v + 128 * w) * 2 ^ s" for r :: nat
  by (simp add: power_add algebra_simps)

lemma uleb_loop:
  "bytes_at m p (uleb n) \<Longrightarrow> shift < 32 \<Longrightarrow> r < 2 ^ shift \<Longrightarrow> n * 2 ^ shift < 2 ^ 31 \<Longrightarrow>
   \<exists>byte. leb_loop m shift (of_nat r) p =
     Inr (of_nat (r + n * 2 ^ shift), shift + 7 * length (uleb n), byte, p + of_nat (length (uleb n)))"
proof (induction n arbitrary: p shift r rule: uleb.induct)
  case (1 n)
  show ?case
  proof (cases "n < 128")
    case True
    with leb_last [of m p n shift r] 1 show ?thesis by (simp add: uleb.simps [of n])
  next
    case False
    let ?v = "n mod 128" and ?n = "n div 128"
    have n: "n = ?v + 128 * ?n" by simp
    have at: "m p = of_nat (128 + ?v)" "bytes_at m (p + 1) (uleb ?n)" using "1.prems"(1) False by (simp_all add: uleb.simps [of n])
    have up: "128 * 2 ^ shift < (2 :: nat) ^ 31" using small_factor [of 128 n shift] "1.prems"(4) False by simp
    then have "(2 :: nat) ^ shift < 2 ^ 24" by simp
    then have "shift < 24" by (rule power_less_imp_less_exp [rotated]) simp
    then have s: "shift + 7 < 32" by simp
    have v: "?v * 2 ^ shift < 2 ^ 31" using small_factor [of ?v n shift] "1.prems"(4) by simp
    have r: "r + ?v * 2 ^ shift < 2 ^ (shift + 7)" using group_below [OF "1.prems"(3)] by simp
    have "?n * 2 ^ (shift + 7) < 2 ^ 31" using small_factor [of "?n * 128" n shift] "1.prems"(4) by (simp add: power_add mult.assoc mult.commute)
    from "1.IH" [OF False at(2) s r this] obtain byte where
      "leb_loop m (shift + 7) (of_nat (r + ?v * 2 ^ shift)) (p + 1) =
       Inr (of_nat (r + ?v * 2 ^ shift + ?n * 2 ^ (shift + 7)), shift + 7 + 7 * length (uleb ?n), byte, p + 1 + of_nat (length (uleb ?n)))"
      by blast
    moreover have "r + ?v * 2 ^ shift + ?n * 2 ^ (shift + 7) = r + n * 2 ^ shift"
      unfolding group_sum by (simp only: mod_mult_div_eq)
    moreover have "leb_loop m shift (of_nat r) p = leb_loop m (shift + 7) (of_nat (r + ?v * 2 ^ shift)) (p + 1)"
      using at(1) "1.prems"(2,3) v by (intro leb_more) simp_all
    moreover have "length (uleb n) = Suc (length (uleb ?n))" using False by (simp add: uleb.simps [of n])
    ultimately show ?thesis by (simp add: ac_simps del: of_nat_add of_nat_mult)
  qed
qed

lemma uleb_read:
  "bytes_at m p (uleb n) \<Longrightarrow> n < 2 ^ 31 \<Longrightarrow> readULEB128 m p = Inr (of_nat n, p + of_nat (length (uleb n)))"
  using uleb_loop [of m p n 0 0] by (auto simp: readULEB128_def)
text \<open>Signed numbers: \<open>length (sleb k)\<close> groups of 7 bits hold \<open>k\<close> in two's complement.\<close>

lemma sleb_more:
  "\<not> (- 64 \<le> k \<and> k < 64) \<Longrightarrow> sleb k = of_nat (128 + nat (k mod 128)) # sleb (k div 128)"
  by (subst sleb.simps) (simp only: if_False)

lemma sleb_length_pos: "0 < length (sleb k)"
  by (simp add: sleb.simps [of k])

lemma sleb_length_le: "- (2 ^ (6 + 7 * n)) \<le> k \<Longrightarrow> k < 2 ^ (6 + 7 * n) \<Longrightarrow> length (sleb k) \<le> Suc n"
proof (induction n arbitrary: k)
  case 0
  then show ?case by (simp add: sleb.simps [of k])
next
  case (Suc n)
  show ?case
  proof (cases "- 64 \<le> k \<and> k < 64")
    case False
    have e: "(2 :: int) ^ (6 + 7 * Suc n) = 128 * 2 ^ (6 + 7 * n)" by (simp add: power_add)
    have "- (2 ^ (6 + 7 * n)) \<le> k div 128" "k div 128 < 2 ^ (6 + 7 * n)"
      using Suc.prems unfolding e by linarith+
    from Suc.IH [OF this] False show ?thesis by (simp add: sleb.simps [of k])
  qed (simp add: sleb.simps [of k])
qed

lemma sleb_length_ge: "k < - (2 ^ (6 + 7 * n)) \<Longrightarrow> Suc n < length (sleb k)"
proof (induction n arbitrary: k)
  case 0
  then show ?case using sleb_length_pos [of "k div 128"] by (simp add: sleb.simps [of k])
next
  case (Suc n)
  have e: "(2 :: int) ^ (6 + 7 * Suc n) = 128 * 2 ^ (6 + 7 * n)" by (simp add: power_add)
  have "k div 128 < - (2 ^ (6 + 7 * n))" using Suc.prems unfolding e by linarith
  moreover have "k < - 64"
    using Suc.prems one_le_power [of "2 :: int" "6 + 7 * n"] unfolding e by linarith
  ultimately show ?case using Suc.IH by (simp add: sleb.simps [of k])
qed

lemma sleb_bit7: "bytes_at m p (sleb k) \<Longrightarrow> Suc i < length (sleb k) \<Longrightarrow> bit (unat (m (p + of_nat i))) 7"
proof (induction k arbitrary: p i rule: sleb.induct)
  case (1 k)
  then have no: "\<not> (- 64 \<le> k \<and> k < 64)" by (auto simp: sleb.simps [of k])
  have b: "128 + nat (k mod 128) < 256" using pos_mod_bound [of 128 k] by simp
  show ?case
  proof (cases i)
    case 0
    with "1.prems"(1) no unat_bits(1) [OF b] show ?thesis
      by (simp add: sleb.simps [of k] of_nat_byte [OF b] del: of_nat_add)
  next
    case (Suc j)
    with "1.IH" [OF no, of "p + 1" j] "1.prems" no show ?thesis by (simp add: sleb.simps [of k] algebra_simps)
  qed
qed
text \<open>What the loop finds: the last byte tells the sign, and the value is that of the groups if it is small.\<close>

definition groups :: "int \<Rightarrow> nat" where
  "groups k = nat (k mod 2 ^ (7 * length (sleb k)))"

lemma groups_last: "- 64 \<le> k \<Longrightarrow> k < 64 \<Longrightarrow> groups k = nat (k mod 128)"
  by (simp add: groups_def sleb.simps [of k])

lemma groups_more: "\<not> (- 64 \<le> k \<and> k < 64) \<Longrightarrow> groups k = nat (k mod 128) + 128 * groups (k div 128)"
proof -
  assume "\<not> (- 64 \<le> k \<and> k < 64)"
  then have "length (sleb k) = Suc (length (sleb (k div 128)))" using arg_cong [OF sleb_more, of k length] by simp
  then have "groups k = nat (k mod (128 * 2 ^ (7 * length (sleb (k div 128)))))"
    by (simp add: groups_def power_add)
  also have "\<dots> = nat (128 * (k div 128 mod 2 ^ (7 * length (sleb (k div 128)))) + k mod 128)"
    by (subst zmod_zmult2_eq) simp_all
  finally show ?thesis by (simp add: groups_def nat_add_distrib nat_mult_distrib)
qed

lemma sleb_loop:
  "bytes_at m p (sleb k) \<Longrightarrow> shift + 7 * length (sleb k) < 39 \<Longrightarrow>
   \<exists>v result. leb_loop m shift start p =
       Inr (result, shift + 7 * length (sleb k), of_nat v, p + of_nat (length (sleb k))) \<and> v < 128 \<and> (64 \<le> v \<longleftrightarrow> k < 0) \<and>
     (\<forall>r. start = of_nat r \<and> r < 2 ^ shift \<and> groups k * 2 ^ shift < 2 ^ 31 \<longrightarrow> result = of_nat (r + groups k * 2 ^ shift))"
proof (induction k arbitrary: p shift start rule: sleb.induct)
  case (1 k)
  define v where "v = nat (k mod 128)"
  have v: "v < 128" using pos_mod_bound [of 128 k] by (simp add: v_def)
  have s: "shift < 32" using "1.prems"(2) sleb_length_pos [of k] by linarith
  show ?case
  proof (cases "- 64 \<le> k \<and> k < 64")
    case True
    then have at: "m p = of_nat v" and len: "length (sleb k) = 1" using "1.prems"(1) by (simp_all add: sleb.simps [of k] v_def)
    have sign: "64 \<le> v \<longleftrightarrow> k < 0" using True mod_pos_pos_trivial [of "k + 128" 128] by (cases "k < 0") (simp_all add: v_def)
    show ?thesis
    proof (intro exI conjI)
      show "leb_loop m shift start p = Inr (start OR of_int32 (push_bit shift (of_nat v)),
          shift + 7 * length (sleb k), of_nat v, p + of_nat (length (sleb k)))"
        using at s v len
        by (subst leb_loop.simps) (simp add: low_bits stop_bit of_nat_byte unat_bits byte_value Let_def)
      show "\<forall>r. start = of_nat r \<and> r < 2 ^ shift \<and> groups k * 2 ^ shift < 2 ^ 31 \<longrightarrow>
          start OR of_int32 (push_bit shift (of_nat v)) = of_nat (r + groups k * 2 ^ shift)"
        using piece [OF v] True by (auto simp: groups_last v_def [symmetric] simp del: of_nat_add of_nat_mult)
    qed (use v sign in auto)
  next
    case False
    let ?k = "k div 128"
    have at: "m p = of_nat (128 + v)" "bytes_at m (p + 1) (sleb ?k)" and len: "length (sleb k) = Suc (length (sleb ?k))"
      using "1.prems"(1) unfolding sleb_more [OF False] v_def by simp_all
    let ?start = "start OR of_int32 (push_bit shift (of_nat v))"
    have step: "leb_loop m shift start p = leb_loop m (shift + 7) ?start (p + 1)"
      using at(1) s v
      by (subst leb_loop.simps) (simp add: low_bits stop_bit of_nat_byte [of "128 + v"] unat_bits byte_value Let_def del: of_nat_add)
    have fit: "shift + 7 + 7 * length (sleb ?k) < 39" using "1.prems"(2) len by simp
    from "1.IH" [OF False at(2) fit, of ?start] obtain w result where
      w: "leb_loop m (shift + 7) ?start (p + 1) =
        Inr (result, shift + 7 + 7 * length (sleb ?k), of_nat w, p + 1 + of_nat (length (sleb ?k)))" "w < 128" "64 \<le> w \<longleftrightarrow> ?k < 0"
      "\<forall>r. ?start = of_nat r \<and> r < 2 ^ (shift + 7) \<and> groups ?k * 2 ^ (shift + 7) < 2 ^ 31 \<longrightarrow>
        result = of_nat (r + groups ?k * 2 ^ (shift + 7))"
      by blast
    show ?thesis
    proof (intro exI conjI)
      show "leb_loop m shift start p = Inr (result, shift + 7 * length (sleb k), of_nat w, p + of_nat (length (sleb k)))"
        using step w(1) len by (simp add: ac_simps)
      show "64 \<le> w \<longleftrightarrow> k < 0" using w(3) by linarith
      show "\<forall>r. start = of_nat r \<and> r < 2 ^ shift \<and> groups k * 2 ^ shift < 2 ^ 31 \<longrightarrow> result = of_nat (r + groups k * 2 ^ shift)"
      proof (intro allI impI)
        fix r assume r: "start = of_nat r \<and> r < 2 ^ shift \<and> groups k * 2 ^ shift < 2 ^ 31"
        have g: "groups k = v + 128 * groups ?k" unfolding v_def by (rule groups_more [OF False])
        have "v * 2 ^ shift < 2 ^ 31" "groups ?k * 2 ^ (shift + 7) < 2 ^ 31"
          using small_factor [of v "groups k" shift] small_factor [of "groups ?k * 128" "groups k" shift] r g
          by (simp_all add: power_add ac_simps)
        moreover from this(1) piece [OF v] r have "?start = of_nat (r + v * 2 ^ shift)" by blast
        ultimately show "result = of_nat (r + groups k * 2 ^ shift)"
          using w(4) group_below [OF _ v, of r shift] r unfolding g group_sum [symmetric] by blast
      qed
    qed (rule w(2))
  qed
qed
lemma sleb_range: "- (2 ^ (7 * length (sleb k))) \<le> k \<and> k < 2 ^ (7 * length (sleb k))"
proof (induction k rule: sleb.induct)
  case (1 k)
  show ?case
  proof (cases "- 64 \<le> k \<and> k < 64")
    case False
    have "(2 :: int) ^ (7 * length (sleb k)) = 128 * 2 ^ (7 * length (sleb (k div 128)))"
      unfolding sleb_more [OF False] by (simp add: power_add)
    with "1.IH" [OF False] show ?thesis by linarith
  qed (simp add: sleb.simps [of k])
qed

lemma sign_fill:
  assumes "r < 2 ^ s" and "s < 32"
  shows "(of_nat r :: 64 word) OR of_int32 (push_bit s (- 1)) = of_int (int r - 2 ^ s)"
proof -
  have "of_int32 (push_bit s (- 1)) = (push_bit s (- 1) :: 64 word)"
    by (rule bit_word_eqI) (use assms(2) in \<open>auto simp: of_int32_def bit_signed_take_bit_iff bit_push_bit_iff bit_not_iff bit_mask_iff min_def\<close>)
  moreover have "(of_nat r :: 64 word) OR push_bit s (- 1) = of_nat r + push_bit s (- 1)"
  proof (rule disjunctive_add [symmetric])
    fix j
    have "j < s" if "bit r j" using assms(1) that by (metis bit_take_bit_iff take_bit_nat_eq_self)
    then show "\<not> bit (of_nat r :: 64 word) j \<or> \<not> bit (push_bit s (- 1) :: 64 word) j"
      by (auto simp: bit_of_nat_iff bit_push_bit_iff bit_not_iff bit_mask_iff)
  qed
  ultimately show ?thesis by (simp add: push_bit_eq_mult)
qed

lemma sleb_read:
  assumes "bytes_at m p (sleb k)" and "- (2 ^ 27) \<le> k" and "k < 2 ^ 31"
  shows "readSLEB128 m p = Inr (of_int k, p + of_nat (length (sleb k)))"
proof -
  let ?n = "length (sleb k)"
  have five: "?n \<le> 5" using sleb_length_le [of 4 k] assms(2,3) by simp
  have four: "?n \<le> 4" if "k < 0" using sleb_length_le [of 3 k] assms(2) that by simp
  have low: "groups k < 2 ^ (7 * ?n)" unfolding groups_def by (simp add: nat_less_iff)
  have g: "int (groups k) = k mod 2 ^ (7 * ?n)" by (simp add: groups_def)
  have bound: "groups k < 2 ^ 31"
  proof (cases "k < 0")
    case True
    have "(2 :: nat) ^ (7 * ?n) \<le> 2 ^ 28" using four [OF True] by (intro power_increasing) simp_all
    with low show ?thesis by simp
  next
    case False
    then have "int (groups k) \<le> k" unfolding g by (intro zmod_le_nonneg_dividend) simp
    with assms(3) show ?thesis by simp
  qed
  obtain v result where l: "leb_loop m 0 0 p = Inr (result, 7 * ?n, of_nat v, p + of_nat ?n)" "v < 128" "64 \<le> v \<longleftrightarrow> k < 0"
    "result = of_nat (groups k)"
    using sleb_loop [OF assms(1), of 0 0] five bound by (auto dest: spec [where x = 0])
  have sign: "(of_nat v :: 8 word) AND 0x40 \<noteq> 0 \<longleftrightarrow> k < 0" using l(2,3) by (simp add: stop_bit of_nat_byte unat_bits)
  have range: "- (2 ^ (7 * ?n)) \<le> k \<and> k < 2 ^ (7 * ?n)" by (rule sleb_range)
  show ?thesis
  proof (cases "k < 0")
    case True
    have "k mod 2 ^ (7 * ?n) = k + 2 ^ (7 * ?n)"
      using mod_pos_pos_trivial [of "k + 2 ^ (7 * ?n)" "2 ^ (7 * ?n)"] range True by simp
    then have "int (groups k) - 2 ^ (7 * ?n) = k" unfolding g by simp
    with sign_fill [OF low] l(1,4) sign True four [OF True] show ?thesis by (simp add: readSLEB128_def)
  next
    case False
    have "int (groups k) = k" unfolding g using range False by (simp add: mod_pos_pos_trivial)
    then have "(of_nat (groups k) :: 64 word) = of_int k" by (metis of_int_of_nat_eq)
    with l(1,4) sign False show ?thesis by (simp add: readSLEB128_def)
  qed
qed

text \<open>Numbers that need too many groups: a shift of an \<^verbatim>\<open>int\<close> by 32 or more.\<close>

lemma sleb_overflow:
  assumes "bytes_at m p (sleb k)" and "k < - (2 ^ 27)"
  shows "readSLEB128 m p = Inl Undefined_shift"
proof -
  have len: "5 \<le> length (sleb k)" using sleb_length_ge [of k 3] assms(2) by simp
  show ?thesis
  proof (cases "length (sleb k) = 5")
    case True
    obtain v result where l: "leb_loop m 0 0 p = Inr (result, 35, of_nat v, p + 5)" "v < 128" "64 \<le> v \<longleftrightarrow> k < 0"
      using sleb_loop [OF assms(1), of 0 0] True by auto
    then have "(of_nat v :: 8 word) AND 0x40 \<noteq> 0" using assms(2) by (simp add: stop_bit of_nat_byte unat_bits)
    with l(1) show ?thesis by (simp add: readSLEB128_def)
  next
    case False
    with len sleb_bit7 [OF assms(1)] have "leb_loop m 0 0 p = Inl Undefined_shift" by (intro leb_long [of 5]) auto
    then show ?thesis by (simp add: readSLEB128_def)
  qed
qed

lemma uleb_bit7:
  "bytes_at m p (uleb n) \<Longrightarrow> 2 ^ (7 * Suc i) \<le> n \<Longrightarrow> bit (unat (m (p + of_nat i))) 7"
proof (induction i arbitrary: n p)
  case 0
  have "128 + n mod 128 < 256" using mod_less_divisor [of 128 n] by linarith
  from of_nat_byte [OF this] unat_bits(1) [OF this] 0 show ?case by (simp add: uleb.simps [of n] del: of_nat_add)
next
  case (Suc i)
  have n: "128 * 2 ^ (7 * Suc i) \<le> n" using Suc.prems(2) by (simp add: power_add)
  then have "2 ^ (7 * Suc i) \<le> n div 128" by (simp add: less_eq_div_iff_mult_less_eq mult.commute)
  moreover have "\<not> n < 128" using n one_le_power [of "2 :: nat" "7 * Suc i"] by linarith
  then have "bytes_at m (p + 1) (uleb (n div 128))" using Suc.prems(1) by (simp add: uleb.simps [of n])
  ultimately have "bit (unat (m (p + 1 + of_nat i))) 7" by (rule Suc.IH [rotated])
  then show ?case by (simp add: algebra_simps)
qed

lemma uleb_overflow:
  assumes "bytes_at m p (uleb n)" and "2 ^ 35 \<le> n"
  shows "readULEB128 m p = Inl Undefined_shift"
proof -
  have "bit (unat (m (p + of_nat i))) 7" if "i < 5" for i
  proof (rule uleb_bit7 [OF assms(1)])
    have "(2 :: nat) ^ (7 * Suc i) \<le> 2 ^ 35" using that by (intro power_increasing) simp_all
    with assms(2) show "2 ^ (7 * Suc i) \<le> n" by linarith
  qed
  then show ?thesis by (simp add: readULEB128_def leb_long [of 5])
qed
section \<open>An exception table in memory\<close>

text \<open>
  The encoder: call sites with the encoding \<open>e\<close>, for which an assembler uses \<^verbatim>\<open>DW_EH_PE_uleb128\<close> or
  \<^verbatim>\<open>DW_EH_PE_udata4\<close>, after a header with or without a table of types.
\<close>

definition encode_ptr :: "8 word \<Rightarrow> nat \<Rightarrow> 8 word list" where
  "encode_ptr e n = (if e = DW_EH_PE_uleb128 then uleb n else le_bytes 4 n)"

definition site_bytes :: "8 word \<Rightarrow> call_site \<Rightarrow> 8 word list" where
  "site_bytes e c = encode_ptr e (unat (cs_start c)) @ encode_ptr e (unat (cs_length c)) @
     encode_ptr e (unat (cs_pad c)) @ uleb (unat (cs_action c))"

definition lsda_bytes :: "(8 word \<times> nat) option \<Rightarrow> 8 word \<Rightarrow> call_site list \<Rightarrow> 8 word list" where
  "lsda_bytes types e cs = DW_EH_PE_omit #
     (case types of None \<Rightarrow> [DW_EH_PE_omit] | Some (t, offset) \<Rightarrow> t # uleb offset) @
     e # uleb (length (concat (map (site_bytes e) cs))) @ concat (map (site_bytes e) cs)"

definition small_site :: "call_site \<Rightarrow> bool" where
  "small_site c \<longleftrightarrow> unat (cs_start c) < 2 ^ 31 \<and> unat (cs_length c) < 2 ^ 31 \<and>
     unat (cs_pad c) < 2 ^ 31 \<and> unat (cs_action c) < 2 ^ 31"

lemma read_ptr:
  assumes "bytes_at m p (encode_ptr e n)" and "n < 2 ^ 31" and "e = DW_EH_PE_uleb128 \<or> e = DW_EH_PE_udata4"
  shows "readEncodedPointer m p e = Inr (of_nat n, p + of_nat (length (encode_ptr e n)))"
proof (cases "e = DW_EH_PE_uleb128")
  case True
  with assms(1,2) uleb_read [of m p n] show ?thesis
    by (simp add: readEncodedPointer_def encoded_value_def encode_ptr_def DW_EH_PE_omit_def DW_EH_PE_uleb128_def
        DW_EH_PE_absptr_def DW_EH_PE_indirect_def)
next
  case False
  with assms load_le_bytes [of m p 4 n] show ?thesis
    by (simp add: readEncodedPointer_def encoded_value_def encode_ptr_def DW_EH_PE_omit_def DW_EH_PE_uleb128_def
        DW_EH_PE_udata4_def DW_EH_PE_absptr_def DW_EH_PE_indirect_def DW_EH_PE_sleb128_def DW_EH_PE_udata2_def)
qed

lemma uleb_nonempty: "uleb n \<noteq> []"
  by (simp add: uleb.simps [of n])

lemma site_bytes_pos: "0 < length (site_bytes e c)"
  by (simp add: site_bytes_def uleb_nonempty)

lemma read_site:
  assumes "bytes_at m p (site_bytes e c)" and "small_site c" and "e = DW_EH_PE_uleb128 \<or> e = DW_EH_PE_udata4"
  shows "read_call_site m e p = Inr (c, p + of_nat (length (site_bytes e c)))"
proof -
  let ?q = "\<lambda>n. p + of_nat n" and ?enc = "\<lambda>x. encode_ptr e (unat x)"
  let ?a = "length (?enc (cs_start c))"
  let ?b = "?a + length (?enc (cs_length c))"
  let ?d = "?b + length (?enc (cs_pad c))"
  have at: "bytes_at m p (?enc (cs_start c))" "bytes_at m (?q ?a) (?enc (cs_length c))" "bytes_at m (?q ?b) (?enc (cs_pad c))"
    "bytes_at m (?q ?d) (uleb (unat (cs_action c)))"
    using assms(1) by (simp_all add: site_bytes_def add.assoc)
  have small: "unat (cs_start c) < 2 ^ 31" "unat (cs_length c) < 2 ^ 31" "unat (cs_pad c) < 2 ^ 31" "unat (cs_action c) < 2 ^ 31"
    using assms(2) by (simp_all add: small_site_def)
  show ?thesis
    using read_ptr [OF at(1) small(1) assms(3)] read_ptr [OF at(2) small(2) assms(3)] read_ptr [OF at(3) small(3) assms(3)]
      uleb_read [OF at(4) small(4)]
    by (simp add: read_call_site_def site_bytes_def add.assoc)
qed

lemma before_end: "unat p + n < 2 ^ 64 \<Longrightarrow> 0 < n \<Longrightarrow> p < p + of_nat n" for p :: ptr
  by (simp add: word_less_nat_alt unat_word_ariths unat_of_nat)

lemma walk_finds:
  assumes e: "e = DW_EH_PE_uleb128 \<or> e = DW_EH_PE_udata4"
  shows "bytes_at m p (concat (map (site_bytes e) cs)) \<Longrightarrow> list_all small_site cs \<Longrightarrow>
    unat p + length (concat (map (site_bytes e) cs)) < 2 ^ 64 \<Longrightarrow> length cs < k \<Longrightarrow>
    walk_sites k m e p (p + of_nat (length (concat (map (site_bytes e) cs)))) off = Inr (find (site_matches off) cs)"
proof (induction cs arbitrary: p k)
  case Nil
  then obtain k' where "k = Suc k'" by (cases k) simp_all
  then show ?case by simp
next
  case (Cons c cs)
  obtain k' where k: "k = Suc k'" using Cons.prems(4) by (cases k) simp_all
  let ?n = "length (site_bytes e c)" and ?r = "length (concat (map (site_bytes e) cs))"
  have "p < p + of_nat (?n + ?r)" using Cons.prems(3) site_bytes_pos [of e c] by (intro before_end) simp_all
  moreover have "read_call_site m e p = Inr (c, p + of_nat ?n)"
    using Cons.prems(1,2) by (intro read_site [OF _ _ e]) simp_all
  moreover have "unat (p + of_nat ?n) = unat p + ?n" using Cons.prems(3)
    by (simp add: unat_word_ariths unat_of_nat)
  then have "walk_sites k' m e (p + of_nat ?n) (p + of_nat ?n + of_nat ?r) off = Inr (find (site_matches off) cs)"
    using Cons.prems k by (intro Cons.IH) simp_all
  ultimately show ?case by (simp add: k add.assoc)
qed
definition types_ok :: "(8 word \<times> nat) option \<Rightarrow> bool" where
  "types_ok types = (case types of None \<Rightarrow> True | Some (t, offset) \<Rightarrow> t \<noteq> DW_EH_PE_omit \<and> offset < 2 ^ 31)"

lemma casts:
  "n < 2 ^ 31 \<Longrightarrow> ucast (of_nat n :: 64 word) = (of_nat n :: 32 word)"
  "n < 2 ^ 31 \<Longrightarrow> ucast (of_nat n :: 32 word) = (of_nat n :: 64 word)"
  by (simp_all add: unsigned_of_nat take_bit_nat_eq_self)

lemma sites_length: "length cs \<le> length (concat (map (site_bytes e) cs))"
proof (induction cs)
  case (Cons c cs)
  then show ?case using site_bytes_pos [of e c] unfolding list.map concat.simps length_append list.size by linarith
qed simp

lemma header_read:
  assumes "bytes_at m lsda (lsda_bytes types e cs)" and "types_ok types"
    and "length (concat (map (site_bytes e) cs)) < 2 ^ 31" (is "?n < _")
  shows "\<exists>p. read_header m lsda = Inr (e, p, of_nat ?n) \<and> bytes_at m p (concat (map (site_bytes e) cs)) \<and>
    p + of_nat ?n = lsda + of_nat (length (lsda_bytes types e cs))"
proof -
  have rest: "\<exists>q. readULEB128 m (p + 1) = Inr (of_nat ?n, q) \<and> bytes_at m q (concat (map (site_bytes e) cs)) \<and>
      q + of_nat ?n = p + of_nat (length (e # uleb ?n @ concat (map (site_bytes e) cs))) \<and> m p = e"
    if "bytes_at m p (e # uleb ?n @ concat (map (site_bytes e) cs))" for p
    using that uleb_read [of m "p + 1" ?n] assms(3) by (simp add: add.assoc)
  note cast = casts(1) [OF assms(3)]
  show ?thesis
  proof (cases types)
    case None
    with rest [of "lsda + 1 + 1"] assms(1) cast show ?thesis
      by (auto simp: lsda_bytes_def read_header_def add.assoc)
  next
    case (Some a)
    obtain t offset where a: "a = (t, offset)" by fastforce
    have t: "t \<noteq> DW_EH_PE_omit" "offset < 2 ^ 31" using assms(2) Some a by (simp_all add: types_ok_def)
    have at: "bytes_at m (lsda + 1 + 1) (uleb offset)" "m (lsda + 1) = t" "m lsda = DW_EH_PE_omit"
      using assms(1) Some a by (simp_all add: lsda_bytes_def)
    show ?thesis
      using rest [of "lsda + 1 + 1 + of_nat (length (uleb offset))"] assms(1) cast uleb_read [OF at(1) t(2)] at(2,3) t(1)
      by (auto simp: lsda_bytes_def read_header_def Some a add.assoc)
  qed
qed

text \<open>What the personality routine has to do, on the decoded call sites.\<close>

definition dispatch :: "call_site list \<Rightarrow> 32 word \<Rightarrow> 64 word \<Rightarrow> ptr \<Rightarrow> unwind_context \<Rightarrow> reason \<times> unwind_context" where
  "dispatch cs actions exceptionClass exceptionObject ctx =
     (case find (site_matches (uc_ip ctx - 1 - uc_region ctx)) cs of
        None \<Rightarrow> (CONTINUE_UNWIND, ctx)
      | Some c \<Rightarrow>
          if actions AND UA_SEARCH_PHASE \<noteq> 0 then (HANDLER_FOUND, ctx)
          else (INSTALL_CONTEXT, ctx\<lparr>uc_gr0 := exceptionObject,
            uc_gr1 := (if exceptionClass = L_EXCEPTION_CLASS then 2 else 4), uc_ip := uc_region ctx + cs_pad c\<rparr>))"

text \<open>
  C12: Let a function's exception table, of call sites with numbers below \<open>2 ^ 31\<close> in one of the two usual
  encodings, lie in memory at the address the unwinder hands over.  Then the personality routine returns what the
  list of call sites says: without a call site that has a landing pad and contains the address before the program
  counter, it continues; with one, the first one counts, a handler is reported in the search phase, and otherwise
  the context is set to the landing pad with the exception in one register and its kind in the other.  The fuel
  of the walk suffices.
\<close>

theorem personality_dispatches:
  assumes "bytes_at m (uc_lsda ctx) (lsda_bytes types e cs)"
    and "e = DW_EH_PE_uleb128 \<or> e = DW_EH_PE_udata4" and "types_ok types" and "list_all small_site cs"
    and "unat (uc_lsda ctx) + length (lsda_bytes types e cs) < 2 ^ 64" and "length (lsda_bytes types e cs) < 2 ^ 31"
    and "uc_lsda ctx \<noteq> 0" and "0 \<le> version"
  shows "l_personality m version actions exceptionClass exceptionObject ctx =
    Inr (dispatch cs actions exceptionClass exceptionObject ctx)"
proof -
  let ?bs = "concat (map (site_bytes e) cs)" and ?all = "lsda_bytes types e cs"
  let ?n = "length ?bs"
  have n: "?n \<le> length ?all" by (simp add: lsda_bytes_def)
  obtain p where p: "read_header m (uc_lsda ctx) = Inr (e, p, of_nat ?n)" "bytes_at m p ?bs"
    "p + of_nat ?n = uc_lsda ctx + of_nat (length ?all)"
    using header_read [OF assms(1,3)] n assms(6) by fastforce
  have "length cs \<le> ?n" by (rule sites_length)
  moreover have "unat (of_nat ?n :: 32 word) = ?n" using n assms(6) by (simp add: unat_of_nat)
  moreover have "unat p + ?n < 2 ^ 64"
  proof -
    define k where "k = length ?all - ?n"
    have all: "length ?all = k + ?n" using n by (simp add: k_def)
    with p(3) have "p = uc_lsda ctx + of_nat k" by simp
    then have "unat p = unat (uc_lsda ctx) + k" using assms(5) all by (simp add: unat_word_ariths unat_of_nat)
    with assms(5) all show ?thesis by simp
  qed
  ultimately have "walk_sites (Suc (unat (of_nat ?n :: 32 word))) m e p (p + of_nat ?n) off = Inr (find (site_matches off) cs)" for off
    using p(2) assms(4) by (intro walk_finds [OF assms(2)]) simp_all
  moreover have "ucast (of_nat ?n :: 32 word) = (of_nat ?n :: 64 word)"
    using n assms(6) by (intro casts) simp
  ultimately show ?thesis
    using p(1) assms(7,8) by (simp add: l_personality_def handleLsda_def dispatch_def Let_def del: walk_sites.simps split: option.split)
qed

definition laid_out :: "ptr \<Rightarrow> 8 word list \<Rightarrow> memory" where
  "laid_out base bs a = (if unat (a - base) < length bs then bs ! unat (a - base) else 0)"

definition sample_sites :: "call_site list" where
  "sample_sites = [\<lparr>cs_start = 0, cs_length = 16, cs_pad = 0, cs_action = 0\<rparr>,
     \<lparr>cs_start = 16, cs_length = 200, cs_pad = 300, cs_action = 1\<rparr>]"

definition sample_memory :: memory where
  "sample_memory = laid_out 0x2000 (lsda_bytes None DW_EH_PE_uleb128 sample_sites)"

definition sample_context :: unwind_context where
  "sample_context = \<lparr>uc_ip = 0x4064, uc_region = 0x4000, uc_lsda = 0x2000, uc_gr0 = 0, uc_gr1 = 0\<rparr>"

lemma personality_dispatches_witness:
  "l_personality sample_memory 1 2 L_EXCEPTION_CLASS 0x9000 sample_context =
    Inr (INSTALL_CONTEXT, sample_context\<lparr>uc_gr0 := 0x9000, uc_gr1 := 2, uc_ip := 0x412C\<rparr>)"
proof -
  have bs: "lsda_bytes None DW_EH_PE_uleb128 sample_sites =
      [0xFF, 0xFF, 1, 10, 0, 16, 0, 0, 16, 200, 1, 172, 2, 1]"
    by (simp add: lsda_bytes_def sample_sites_def site_bytes_def encode_ptr_def uleb.simps DW_EH_PE_omit_def DW_EH_PE_uleb128_def)
  have "l_personality sample_memory 1 2 L_EXCEPTION_CLASS 0x9000 sample_context = Inr (dispatch sample_sites 2 L_EXCEPTION_CLASS 0x9000 sample_context)"
  proof (rule personality_dispatches [where types = None and e = DW_EH_PE_uleb128])
    show "bytes_at sample_memory (uc_lsda sample_context) (lsda_bytes None DW_EH_PE_uleb128 sample_sites)" unfolding sample_memory_def bs
      by (simp add: sample_context_def laid_out_def)
  qed (simp_all add: bs types_ok_def small_site_def sample_context_def, simp add: sample_sites_def small_site_def)
  also have "dispatch sample_sites 2 L_EXCEPTION_CLASS 0x9000 sample_context =
      (INSTALL_CONTEXT, sample_context\<lparr>uc_gr0 := 0x9000, uc_gr1 := 2, uc_ip := 0x412C\<rparr>)"
    by (simp add: dispatch_def sample_sites_def sample_context_def site_matches_def UA_SEARCH_PHASE_def)
  finally show ?thesis .
qed

text \<open>
  C34: The readers of LEB128 undo the encodings of unsigned numbers below \<open>2 ^ 31\<close> and of signed numbers from
  \<open>- (2 ^ 27)\<close> to \<open>2 ^ 31 - 1\<close>, and stop behind the last byte.
\<close>

theorem leb_round_trip:
  assumes "bytes_at m p (uleb n)" and "n < 2 ^ 31"
    and "bytes_at m q (sleb k)" and "- (2 ^ 27) \<le> k" and "k < 2 ^ 31"
  shows "readULEB128 m p = Inr (of_nat n, p + of_nat (length (uleb n))) \<and>
    readSLEB128 m q = Inr (of_int k, q + of_nat (length (sleb k)))"
  using uleb_read [OF assms(1,2)] sleb_read [OF assms(3-5)] by simp

lemma leb_round_trip_witness:
  "readULEB128 (laid_out 0 [0xE5, 0x8E, 0x26, 0xC0, 0xBB, 0x78]) 0 = Inr (624485, 3) \<and>
   readSLEB128 (laid_out 0 [0xE5, 0x8E, 0x26, 0xC0, 0xBB, 0x78]) 3 = Inr (- 123456, 6)"
  using leb_round_trip [of "laid_out 0 [0xE5, 0x8E, 0x26, 0xC0, 0xBB, 0x78]" 0 624485 3 "- 123456"]
  by (simp add: laid_out_def uleb.simps sleb.simps)

text \<open>
  C35: Beyond these ranges the readers do not work: an unsigned number of \<open>2 ^ 35\<close> or more and a signed number
  below \<open>- (2 ^ 27)\<close> make them shift an \<^verbatim>\<open>int\<close> by at least 32 places, which the language leaves undefined.
\<close>

theorem leb_overflow:
  assumes "bytes_at m p (uleb n)" and "2 ^ 35 \<le> n" and "bytes_at m q (sleb k)" and "k < - (2 ^ 27)"
  shows "readULEB128 m p = Inl Undefined_shift \<and> readSLEB128 m q = Inl Undefined_shift"
  using uleb_overflow [OF assms(1,2)] sleb_overflow [OF assms(3,4)] by simp

lemma leb_overflow_witness:
  "readULEB128 (laid_out 0 [0x80, 0x80, 0x80, 0x80, 0x80, 0x01, 0xFF, 0xFF, 0xFF, 0xBF, 0x7F]) 0 = Inl Undefined_shift \<and>
   readSLEB128 (laid_out 0 [0x80, 0x80, 0x80, 0x80, 0x80, 0x01, 0xFF, 0xFF, 0xFF, 0xBF, 0x7F]) 6 = Inl Undefined_shift"
  using leb_overflow [of "laid_out 0 [0x80, 0x80, 0x80, 0x80, 0x80, 0x01, 0xFF, 0xFF, 0xFF, 0xBF, 0x7F]" 0 "2 ^ 35" 6 "- (2 ^ 27) - 1"]
  by (simp add: laid_out_def uleb.simps sleb.simps)
end
