(* ===== verification/Objects.thy ===== *)
theory Objects
  imports Machine
begin

text \<open>
  The allocation of objects and arrays, \<^verbatim>\<open>lrt-exception.c\<close> as it is compiled for LLVM.  The collector is a parameter, a
  function from a size and the memory to a block and the memory; what the code relies on is \<open>allocates\<close>.  An \<^verbatim>\<open>int\<close> is a
  32-bit word read with its sign; a product that leaves its range is an error, and so is a write through null.
\<close>

section \<open>Writing to memory\<close>

primrec store_bytes :: "nat \<Rightarrow> memory \<Rightarrow> ptr \<Rightarrow> 64 word \<Rightarrow> memory" where
  "store_bytes 0 m p w = m"
| "store_bytes (Suc k) m p w = (store_bytes k m (p + 1) (drop_bit 8 w))(p := ucast w)"

lemma store_outside: "k \<le> unat (a - p) \<Longrightarrow> store_bytes k m p w a = m a"
proof (induction k arbitrary: p w)
  case (Suc k)
  then have "a \<noteq> p" by auto
  then have "unat (a - p - 1) = unat (a - p) - 1" by (intro unat_minus_one) simp
  then have "unat (a - (p + 1)) = unat (a - p) - 1" by (simp add: diff_diff_eq)
  with Suc \<open>a \<noteq> p\<close> show ?case by simp
qed simp

lemma load_cong: "(\<And>i. i < k \<Longrightarrow> m (p + of_nat i) = m' (p + of_nat i)) \<Longrightarrow> load k m p = load k m' p"
proof (induction k arbitrary: p)
  case (Suc k)
  have "m (p + 1 + of_nat i) = m' (p + 1 + of_nat i)" if "i < k" for i
    using Suc.prems [of "Suc i"] that by (simp add: algebra_simps)
  from Suc.IH [OF this] Suc.prems [of 0] show ?case by simp
qed simp

lemma load_store: "k \<le> 8 \<Longrightarrow> load k (store_bytes k m p w) p = take_bit (8 * k) w"
proof (induction k arbitrary: p w)
  case (Suc k)
  have "load k (store_bytes (Suc k) m p w) (p + 1) = load k (store_bytes k m (p + 1) (drop_bit 8 w)) (p + 1)"
  proof (rule load_cong)
    fix i assume "i < k"
    then have "(of_nat (i + 1) :: 64 word) \<noteq> 0" using Suc.prems by (intro of_nat_neq_0) auto
    then show "store_bytes (Suc k) m p w (p + 1 + of_nat i) = store_bytes k m (p + 1) (drop_bit 8 w) (p + 1 + of_nat i)"
      by (auto simp: add.assoc)
  qed
  also have "\<dots> = take_bit (8 * k) (drop_bit 8 w)" using Suc by simp
  finally have "load (Suc k) (store_bytes (Suc k) m p w) p = take_bit 8 w + 256 * take_bit (8 * k) (drop_bit 8 w)"
    by (simp add: unsigned_ucast_eq)
  also have "\<dots> = push_bit 8 (drop_bit 8 (take_bit (8 * Suc k) w)) + take_bit 8 (take_bit (8 * Suc k) w)"
    by (simp add: push_bit_eq_mult drop_bit_take_bit take_bit_take_bit)
  also have "\<dots> = take_bit (8 * Suc k) w" by (rule bits_ident)
  finally show ?case .
qed simp

lemma load_store_8: "load 8 (store_bytes 8 m p w) p = w"
  using load_store [of 8 m p w] take_bit_length_eq [of w] by (simp del: load.simps store_bytes.simps)

section \<open>Allocation\<close>

datatype alloc_error = Int_overflow | Null_write

text \<open>\<^verbatim>\<open>element_count * element_size + sizeof(WORD) * 2\<close>: a product of type \<^verbatim>\<open>int\<close>, a sum of 64 bits, cut to an \<^verbatim>\<open>int\<close>.\<close>

definition array_bytes :: "32 word \<Rightarrow> 32 word \<Rightarrow> alloc_error + 32 word" where
  "array_bytes element_count element_size =
     (let n = sint element_count * sint element_size in
      if n < - (2 ^ 31) \<or> 2 ^ 31 \<le> n then Inl Int_overflow
      else Inr (ucast ((word_of_int n :: 64 word) + 8 * 2)))"

text \<open>The collector gets a \<^verbatim>\<open>size_t\<close>, an \<^verbatim>\<open>int\<close> extended with its sign.\<close>

type_synonym collector = "64 word \<Rightarrow> memory \<Rightarrow> ptr \<times> memory"

definition put_header :: "ptr \<Rightarrow> ptr \<Rightarrow> 32 word \<Rightarrow> memory \<Rightarrow> alloc_error + ptr \<times> memory" where
  "put_header result vt element_count m =
     (if result = 0 then Inl Null_write
      else Inr (result, store_bytes 8 (store_bytes 8 m result vt) (result + 8) (scast element_count)))"

definition memset_zero :: "ptr \<Rightarrow> 64 word \<Rightarrow> memory \<Rightarrow> memory" where
  "memset_zero p n m a = (if unat (a - p) < unat n then 0 else m a)"

definition allocago :: "collector \<Rightarrow> 32 word \<Rightarrow> 32 word \<Rightarrow> ptr \<Rightarrow> memory \<Rightarrow> alloc_error + ptr \<times> memory" where
  "allocago gc element_count element_size vt m =
     (case array_bytes element_count element_size of
        Inl e \<Rightarrow> Inl e
      | Inr total_size \<Rightarrow> (let (result, m) = gc (scast total_size) m in put_header result vt element_count m))"

definition allocagn :: "collector \<Rightarrow> 32 word \<Rightarrow> 32 word \<Rightarrow> ptr \<Rightarrow> memory \<Rightarrow> alloc_error + ptr \<times> memory" where
  "allocagn gc element_count element_size vt m =
     (case array_bytes element_count element_size of
        Inl e \<Rightarrow> Inl e
      | Inr total_size \<Rightarrow>
          (let (result, m) = gc (scast total_size) m in
           if result = 0 then Inl Null_write
           else put_header result vt element_count (memset_zero result (scast total_size) m)))"

definition alloco :: "collector \<Rightarrow> 32 word \<Rightarrow> memory \<Rightarrow> ptr \<times> memory" where
  "alloco gc total_size m = gc (scast total_size) m"

definition alloc_object :: "collector \<Rightarrow> 64 word \<Rightarrow> ptr \<Rightarrow> memory \<Rightarrow> alloc_error + ptr \<times> memory" where
  "alloc_object gc n vtable m =
     (if vtable \<noteq> 0 then
        (let (result, m) = gc n m in if result = 0 then Inl Null_write else Inr (result, store_bytes 8 m result vtable))
      else Inr (gc n m))"

text \<open>The objects registered to be disposed of are a list, and the function the collector calls for one.\<close>

definition alloc_object_finalize ::
  "collector \<Rightarrow> 64 word \<Rightarrow> ptr \<Rightarrow> memory \<times> ptr list \<Rightarrow> alloc_error + ptr \<times> memory \<times> ptr list" where
  "alloc_object_finalize gc n vtable = (\<lambda>(m, registered).
     (case alloc_object gc n vtable m of
        Inl e \<Rightarrow> Inl e
      | Inr (result, m) \<Rightarrow> Inr (result, m, registered @ [result])))"

definition call_dispose :: "memory \<Rightarrow> ptr \<Rightarrow> ptr" where
  "call_dispose m object = load 8 m (load 8 m object + 2 * 8)"

section \<open>When the block is large enough\<close>

text \<open>The collector gives null, or a block of the size asked for, cleared, and changes nothing else.\<close>

definition allocates :: "collector \<Rightarrow> bool" where
  "allocates gc \<longleftrightarrow> (\<forall>n m. fst (gc n m) = 0 \<or>
     (\<forall>a. snd (gc n m) a = (if unat (a - fst (gc n m)) < unat n then 0 else m a)))"

text \<open>An array: the table of its class, the number of its elements, and \<open>n\<close> bytes of zeros.\<close>

definition array_at :: "memory \<Rightarrow> ptr \<Rightarrow> ptr \<Rightarrow> 32 word \<Rightarrow> nat \<Rightarrow> bool" where
  "array_at m p vt count n \<longleftrightarrow> load 8 m p = vt \<and> load 8 m (p + 8) = scast count \<and> (\<forall>i < n. m (p + 16 + of_nat i) = 0)"

lemma array_bytes_small:
  assumes "sint c * sint s = int n" and "n < 2 ^ 31 - 16"
  shows "array_bytes c s = Inr (of_nat (n + 16)) \<and> unat (scast (of_nat (n + 16) :: 32 word) :: 64 word) = n + 16"
proof
  have "(word_of_int (int n) :: 64 word) + 8 * 2 = of_nat (n + 16)" by simp
  then have "ucast ((word_of_int (int n) :: 64 word) + 8 * 2) = (of_nat (n + 16) :: 32 word)"
    using assms(2) by (simp only: unsigned_of_nat) (simp add: take_bit_nat_eq_self del: of_nat_add)
  with assms show "array_bytes c s = Inr (of_nat (n + 16))" by (simp add: array_bytes_def Let_def)
  have "sint (of_nat (n + 16) :: 32 word) = int (n + 16)"
    using assms(2) by (simp add: signed_of_nat signed_take_bit_int_eq_self del: of_nat_add)
  then have "(scast (of_nat (n + 16) :: 32 word) :: 64 word) = of_nat (n + 16)"
    by (metis scast_eq of_int_of_nat_eq)
  then show "unat (scast (of_nat (n + 16) :: 32 word) :: 64 word) = n + 16"
    using assms(2) by (simp add: unsigned_of_nat take_bit_nat_eq_self del: of_nat_add)
qed

lemma header_array:
  assumes "p \<noteq> 0" and "\<And>a. m a = (if unat (a - p) < n + 16 then 0 else m0 a)" and "n + 16 < 2 ^ 31"
  shows "\<exists>m'. put_header p vt c m = Inr (p, m') \<and> array_at m' p vt c n \<and> (\<forall>a. n + 16 \<le> unat (a - p) \<longrightarrow> m' a = m0 a)"
proof -
  let ?m1 = "store_bytes 8 m p vt" and ?m2 = "store_bytes 8 (store_bytes 8 m p vt) (p + 8) (scast c)"
  have far: "8 \<le> unat (a - (p + 8))" if "16 \<le> unat (a - p)" for a
  proof -
    have "unat (a - p - 8) = unat (a - p) - 8" using that by (subst unat_sub) (simp_all add: word_le_nat_alt)
    with that show ?thesis by (simp add: diff_diff_eq)
  qed
  have near: "8 \<le> unat (p + of_nat i - (p + 8))" if "i < 8" for i
  proof -
    have "i \<in> {0, 1, 2, 3, 4, 5, 6, 7}" using that by auto
    then show ?thesis by (elim insertE; simp add: unsigned_minus_1_eq_mask mask_eq_exp_minus_1)
  qed
  have vt: "load 8 ?m2 p = vt"
  proof -
    have "load 8 ?m2 p = load 8 ?m1 p" by (rule load_cong) (rule store_outside, rule near)
    then show ?thesis by (simp add: load_store_8 del: load.simps store_bytes.simps)
  qed
  have count: "load 8 ?m2 (p + 8) = scast c" by (simp add: load_store_8 del: load.simps store_bytes.simps)
  have rest: "?m2 a = m a" if "16 \<le> unat (a - p)" for a
    using that far [OF that] by (simp add: store_outside del: store_bytes.simps)
  have "?m2 (p + 16 + of_nat i) = 0" if "i < n" for i
  proof -
    have "p + 16 + of_nat i - p = (of_nat (16 + i) :: 64 word)" by simp
    then have "unat (p + 16 + of_nat i - p) = 16 + i" using that assms(3) by (simp add: unsigned_of_nat take_bit_nat_eq_self del: of_nat_add)
    with rest [of "p + 16 + of_nat i"] assms(2) [of "p + 16 + of_nat i"] that show ?thesis by simp
  qed
  with vt count have "array_at ?m2 p vt c n" by (simp add: array_at_def del: load.simps store_bytes.simps)
  moreover have "?m2 a = m0 a" if "n + 16 \<le> unat (a - p)" for a using rest [of a] assms(2) [of a] that by simp
  ultimately show ?thesis using assms(1) by (simp add: put_header_def del: store_bytes.simps)
qed

text \<open>
  The size asked for is that of the header and the elements exactly for a product from -16 on that leaves room for
  the header in an \<^verbatim>\<open>int\<close>.  For a product from -16 to -1 the block is smaller than the header written to it.
\<close>

lemma array_bytes_exact:
  assumes "array_bytes c s = Inr t"
  shows "uint (scast t :: 64 word) = sint c * sint s + 16 \<longleftrightarrow> - 16 \<le> sint c * sint s \<and> sint c * sint s < 2 ^ 31 - 16"
proof -
  let ?n = "sint c * sint s"
  have n: "- (2 ^ 31) \<le> ?n" "?n < 2 ^ 31" and t: "t = ucast ((word_of_int ?n :: 64 word) + 8 * 2)"
    using assms by (auto simp: array_bytes_def Let_def split: if_splits)
  have "(word_of_int ?n :: 64 word) + 8 * 2 = word_of_int (?n + 16)" by simp
  then have "t = word_of_int (take_bit 64 (?n + 16))" unfolding t by (simp only: unsigned_of_int) simp
  then have "sint t = signed_take_bit 31 (?n + 16)"
    by (simp add: signed_of_int signed_take_bit_take_bit)
  then have "sint t = (?n + 16 + 2 ^ 31) mod 2 ^ 32 - 2 ^ 31"
    by (simp add: signed_take_bit_eq_take_bit_shift take_bit_eq_mod)
  then have st: "sint t = (if ?n + 16 < 2 ^ 31 then ?n + 16 else ?n + 16 - 2 ^ 32)"
    using n mod_pos_pos_trivial [of "?n + 16 + 2 ^ 31" "2 ^ 32"] mod_pos_pos_trivial [of "?n + 16 + 2 ^ 31 - 2 ^ 32" "2 ^ 32"]
      minus_mod_self2 [of "?n + 16 + 2 ^ 31" "2 ^ 32"] by auto
  have "uint (scast t :: 64 word) = sint t mod 2 ^ 64"
    by (simp only: scast_eq unsigned_of_int) (simp add: take_bit_eq_mod)
  moreover have "sint t mod 2 ^ 64 = sint t + 2 ^ 64" if "sint t < 0"
    using that st n mod_pos_pos_trivial [of "sint t + 2 ^ 64" "2 ^ 64"] by (simp split: if_splits)
  ultimately show ?thesis using st n by (cases "0 \<le> sint t") (auto simp: mod_pos_pos_trivial)
qed

text \<open>
  C37: Let the product of the number and the size of the elements be one that leaves room for the header.  Then
  \<^verbatim>\<open>allocago\<close> and \<^verbatim>\<open>allocagn\<close> write through null, when the collector has no memory left, or return an array with
  its class, its length and all its elements zero, and change nothing outside of it.
\<close>

theorem array_blocks:
  assumes "allocates gc" and "0 \<le> sint c * sint s" and "sint c * sint s < 2 ^ 31 - 16"
    and "r = allocago gc c s vt m \<or> r = allocagn gc c s vt m"
  shows "r = Inl Null_write \<or> (\<exists>p m'. r = Inr (p, m') \<and> array_at m' p vt c (nat (sint c * sint s)) \<and>
    (\<forall>a. nat (sint c * sint s) + 16 \<le> unat (a - p) \<longrightarrow> m' a = m a))"
proof -
  define n where "n = nat (sint c * sint s)"
  obtain t where t: "array_bytes c s = Inr t" "unat (scast t :: 64 word) = n + 16" "n + 16 < 2 ^ 31"
    using array_bytes_small [of c s n] assms(2,3) by (auto simp: n_def)
  obtain p m0 where gc: "gc (scast t) m = (p, m0)" by fastforce
  show ?thesis
  proof (cases "p = 0")
    case True
    with assms(4) t(1) gc show ?thesis by (auto simp: allocago_def allocagn_def put_header_def)
  next
    case False
    have m0: "m0 a = (if unat (a - p) < n + 16 then 0 else m a)" for a
      using assms(1) gc t(2) False unfolding allocates_def by (metis fst_conv snd_conv)
    have "memset_zero p (scast t) m0 = m0" by (rule ext) (simp add: memset_zero_def t(2) m0)
    with assms(4) t(1) gc False have "r = put_header p vt c m0" by (auto simp: allocago_def allocagn_def)
    with header_array [OF False m0 t(3), of vt c] show ?thesis unfolding n_def by blast
  qed
qed

text \<open>A collector with one block.\<close>

definition sample_collector :: collector where
  "sample_collector n m = (0x1000, \<lambda>a. if unat (a - 0x1000) < unat n then 0 else m a)"

lemma array_blocks_witness:
  "\<exists>m'. allocago sample_collector 3 4 0x5000 (\<lambda>_. 7) = Inr (0x1000, m') \<and> load 8 m' 0x1000 = 0x5000 \<and>
     load 8 m' 0x1008 = 3 \<and> m' 0x101B = 0 \<and> m' 0x101C = 7"
proof -
  have gc: "allocates sample_collector" by (simp add: allocates_def sample_collector_def)
  obtain m' where m': "allocago sample_collector 3 4 0x5000 (\<lambda>_. 7) = Inr (0x1000, m')"
    by (simp add: allocago_def array_bytes_def sample_collector_def put_header_def del: store_bytes.simps)
  have "array_at m' 0x1000 0x5000 3 12" "m' 0x101C = 7"
    using array_blocks [OF gc _ _ disjI1 [OF refl], of 3 4 "0x5000" "\<lambda>_. 7"] m' by auto
  moreover from this have "m' (0x1000 + 16 + of_nat 11) = 0" unfolding array_at_def by (elim conjE allE [of _ 11]) simp
  ultimately show ?thesis using m' by (simp add: array_at_def)
qed

end
