(* ===== verification/Unwind_Records.thy ===== *)
theory Unwind_Records
  imports Machine
begin

text \<open>
  The look-up of methods by return address, \<^verbatim>\<open>lrt-exception.c\<close>: the tables of unwind records, one of the
  program and one per loaded module, the two ways of searching one, and the cache of 256 recent results with its
  chain of expected hits.  A table never changes and is the list of its records, the one with method start 0 that
  ends it included; a pointer to a record is the record, \<open>None\<close> is null, and a pointer to a cache entry is its
  index.  Reading behind a table or through a null pointer is an error.
\<close>

section \<open>Data\<close>

record line_record =
  line_address :: "64 word"
  line_number :: "64 word"

record unwind_record =
  method_start :: "64 word"
  method_length :: "64 word"
  method_name :: "string option"
  line_numbers :: "line_record list option"
  unwind_flags :: "64 word"
  ro_size :: "64 word"

record backtrace_record =
  bt_rip :: "64 word"
  bt_method_name :: "string option"
  bt_line_number_info :: "line_record list option"

record recent_unwind =
  ru_rip :: "64 word"
  ru_record :: "unwind_record option"
  ru_next :: "nat option"

text \<open>A node of the list of tables is its head and its length field.\<close>

type_synonym unwind_node = "unwind_record list option \<times> nat"

record unwind_state =
  us_start :: "unwind_record list"
  us_length :: nat
  us_head :: "unwind_node list"
  us_cache :: "recent_unwind list"
  us_next_hit :: "nat option"
  us_last_hit :: "nat option"

datatype unwind_error = Behind_table | Null_pointer

definition UNWIND_HASH_BYTES :: nat where "UNWIND_HASH_BYTES = 4"
definition UNWIND_CACHE_MAX :: nat where "UNWIND_CACHE_MAX = 256"

text \<open>The globals before the first look-up.\<close>

definition initial_unwind :: "unwind_record list \<Rightarrow> unwind_state" where
  "initial_unwind start = \<lparr>us_start = start, us_length = 0, us_head = [],
     us_cache = replicate UNWIND_CACHE_MAX \<lparr>ru_rip = 0, ru_record = None, ru_next = None\<rparr>,
     us_next_hit = Some 0, us_last_hit = Some 0\<rparr>"

definition add_unwind_info :: "unwind_record list option \<Rightarrow> unwind_state \<Rightarrow> unwind_state" where
  "add_unwind_info u st = st\<lparr>us_head := (u, 0) # us_head st\<rparr>"

section \<open>The cache\<close>

definition unwind_hash :: "64 word \<Rightarrow> nat" where
  "unwind_hash rip = unat (fold (\<lambda>i hash. hash XOR ucast (drop_bit (8 * i) rip)) [0..<UNWIND_HASH_BYTES] (0 :: 8 word))"

text \<open>\<open>__last_unwind_hit\<close> gets the entry \<open>p\<close> as its successor, and is \<open>p\<close> from now on.\<close>

definition follow :: "nat \<Rightarrow> unwind_state \<Rightarrow> unwind_state" where
  "follow p st = st\<lparr>
     us_cache := (case us_last_hit st of None \<Rightarrow> us_cache st
                  | Some l \<Rightarrow> (us_cache st)[l := (us_cache st ! l)\<lparr>ru_next := Some p\<rparr>]),
     us_last_hit := Some p\<rparr>"

definition findCachedUnwindInfo :: "64 word \<Rightarrow> unwind_state \<Rightarrow> nat \<times> unwind_state" where
  "findCachedUnwindInfo rip st =
     (case us_next_hit st of
        Some p \<Rightarrow>
          if ru_rip (us_cache st ! p) = rip then (p, follow p (st\<lparr>us_next_hit := ru_next (us_cache st ! p)\<rparr>))
          else (let p = unwind_hash rip in (p, if ru_rip (us_cache st ! p) = rip then follow p st else st))
      | None \<Rightarrow> (let p = unwind_hash rip in (p, if ru_rip (us_cache st ! p) = rip then follow p st else st)))"

section \<open>Searching a table\<close>

text \<open>The first search of a table is linear and counts its records; the last match counts.\<close>

fun linear_search :: "64 word \<Rightarrow> unwind_record list \<Rightarrow> unwind_record option \<Rightarrow> nat \<Rightarrow> unwind_error + unwind_record option \<times> nat" where
  "linear_search rip [] p len = Inl Behind_table"
| "linear_search rip (q # qs) p len =
     (if method_start q \<noteq> 0
      then linear_search rip qs
        (if method_start q \<le> rip \<and> rip < method_start q + method_length q then Some q else p) (len + 1)
      else Inr (p, len))"

text \<open>Later searches chop the interval from \<open>p\<close> to \<open>q\<close>.\<close>

function binary_search :: "64 word \<Rightarrow> unwind_record list \<Rightarrow> nat \<Rightarrow> nat \<Rightarrow> unwind_error + unwind_record option" where
  "binary_search rip t p q =
     (let r = p + (q - p) div 2
      in if length t \<le> r then Inl Behind_table
         else if r = p then
           Inr (if method_start (t ! p) \<le> rip \<and> rip \<le> method_start (t ! p) + method_length (t ! p) then Some (t ! p) else None)
         else if rip < method_start (t ! r) then binary_search rip t p r
         else if rip > method_start (t ! r) + method_length (t ! r) then binary_search rip t r q
         else Inr (Some (t ! r)))"
  by pat_completeness auto

termination
  by (relation "measure (\<lambda>(rip, t, p, q). q - p)") auto

declare binary_search.simps [simp del]

text \<open>One table: the record found, and the new value of its length field.\<close>

definition search_table :: "64 word \<Rightarrow> unwind_record list \<Rightarrow> nat \<Rightarrow> unwind_error + unwind_record option \<times> nat" where
  "search_table rip t len =
     (if len = 0 then linear_search rip t None 0
      else (case binary_search rip t 0 (len - 1) of Inl e \<Rightarrow> Inl e | Inr p \<Rightarrow> Inr (p, len)))"

section \<open>The look-up\<close>

text \<open>
  The loop over the tables: the one of the program, then those of the list.
  \<open>at = None\<close> says that the length
  field in use is \<open>__unwind_length\<close>, \<open>Some i\<close> that it is the one of node \<open>i\<close>; \<open>i\<close> nodes have been
  passed.  After the search of a table that does not have the address, \<^verbatim>\<open>next\<close> is advanced before its length
  field is read.
\<close>

definition store_length :: "nat option \<Rightarrow> nat \<Rightarrow> unwind_state \<Rightarrow> unwind_state" where
  "store_length at len st = (case at of
     None \<Rightarrow> st\<lparr>us_length := len\<rparr>
   | Some i \<Rightarrow> st\<lparr>us_head := (us_head st)[i := (fst (us_head st ! i), len)]\<rparr>)"

lemma length_us_head_store [simp]: "length (us_head (store_length at len st)) = length (us_head st)"
  by (simp add: store_length_def split: option.split)

function search_tables ::
  "64 word \<Rightarrow> unwind_record list \<Rightarrow> nat \<Rightarrow> nat option \<Rightarrow> nat \<Rightarrow> unwind_state \<Rightarrow> unwind_error + unwind_record option \<times> unwind_state" where
  "search_tables rip start len at i st =
     (case search_table rip start len of
        Inl e \<Rightarrow> Inl e
      | Inr (p, len) \<Rightarrow>
          (let st = store_length at len st
           in if p \<noteq> None then Inr (p, st)
              else if length (us_head st) \<le> i then Inr (None, st)
              else if length (us_head st) \<le> i + 1 then Inl Null_pointer
              else (case fst (us_head st ! i) of
                      None \<Rightarrow> Inr (None, st)
                    | Some start \<Rightarrow> search_tables rip start (snd (us_head st ! (i + 1))) (Some (i + 1)) (i + 1) st)))"
  by pat_completeness auto

termination
  by (relation "measure (\<lambda>(rip, start, len, at, i, st). length (us_head st) - i)") auto

declare search_tables.simps [simp del]

definition fill_backtrace :: "64 word \<Rightarrow> unwind_record \<Rightarrow> backtrace_record option \<Rightarrow> backtrace_record option" where
  "fill_backtrace rip p backtrace = map_option (\<lambda>b. b\<lparr>bt_rip := rip, bt_method_name := method_name p,
     bt_line_number_info := line_numbers p\<rparr>) backtrace"

definition findUnwindInfo ::
  "64 word \<Rightarrow> backtrace_record option \<Rightarrow> unwind_state \<Rightarrow> unwind_error + unwind_record option \<times> backtrace_record option \<times> unwind_state" where
  "findUnwindInfo rip backtrace st =
     (case findCachedUnwindInfo rip st of (rp, st) \<Rightarrow>
        if ru_rip (us_cache st ! rp) = rip then
          (case ru_record (us_cache st ! rp) of
             None \<Rightarrow> Inr (None, backtrace, st)
           | Some p \<Rightarrow> Inr (Some p, fill_backtrace rip p backtrace, st))
        else
          (case search_tables rip (us_start st) (us_length st) None 0 st of
             Inl e \<Rightarrow> Inl e
           | Inr (p, st) \<Rightarrow>
               (let st = st\<lparr>us_cache := (us_cache st)[rp := \<lparr>ru_rip = rip, ru_record = p, ru_next = None\<rparr>]\<rparr>
                in case p of
                     None \<Rightarrow> Inr (None, backtrace, st)
                   | Some u \<Rightarrow> Inr (Some u, fill_backtrace rip u backtrace, follow rp st))))"

section \<open>What a search finds\<close>

definition rows :: "unwind_record list \<Rightarrow> unwind_record list" where
  "rows t = takeWhile (\<lambda>q. method_start q \<noteq> 0) t"

text \<open>
  A table as the compiler emits it: it has an end, no method runs over the end of the address space, and every
  method starts where the one before it ends or behind.
\<close>

definition method_end :: "unwind_record \<Rightarrow> nat" where
  "method_end q = unat (method_start q) + unat (method_length q)"

definition table_ok :: "unwind_record list \<Rightarrow> bool" where
  "table_ok t \<longleftrightarrow> rows t \<noteq> t \<and> list_all (\<lambda>q. method_end q < 2 ^ 64) (rows t) \<and>
     sorted_wrt (\<lambda>a b. method_end a \<le> unat (method_start b)) (rows t)"

text \<open>An address in a method, by the test of the linear search, by that of the binary one, and strictly inside.\<close>

definition covers :: "unwind_record \<Rightarrow> 64 word \<Rightarrow> bool" where
  "covers q rip \<longleftrightarrow> method_start q \<le> rip \<and> rip < method_start q + method_length q"

definition touches :: "unwind_record \<Rightarrow> 64 word \<Rightarrow> bool" where
  "touches q rip \<longleftrightarrow> method_start q \<le> rip \<and> rip \<le> method_start q + method_length q"

definition inside :: "unwind_record \<Rightarrow> 64 word \<Rightarrow> bool" where
  "inside q rip \<longleftrightarrow> method_start q < rip \<and> rip < method_start q + method_length q"

lemma inside_covers: "inside q rip \<Longrightarrow> covers q rip" and covers_touches: "covers q rip \<Longrightarrow> touches q rip"
  by (auto simp: inside_def covers_def touches_def)

lemma end_value: "method_end q < 2 ^ 64 \<Longrightarrow> unat (method_start q + method_length q) = method_end q"
  by (simp add: method_end_def unat_word_ariths)

lemma find_snoc: "find P (xs @ [x]) = (case find P xs of None \<Rightarrow> if P x then Some x else None | Some y \<Rightarrow> Some y)"
  by (induction xs) simp_all

lemma linear_finds:
  "rows t \<noteq> t \<Longrightarrow> linear_search rip t p k =
     Inr (case find (\<lambda>q. covers q rip) (rev (rows t)) of None \<Rightarrow> p | Some q \<Rightarrow> Some q, k + length (rows t))"
proof (induction t arbitrary: p k)
  case (Cons q t)
  show ?case
  proof (cases "method_start q = 0")
    case False
    then have "rows t \<noteq> t" using Cons.prems by (simp add: rows_def)
    from Cons.IH [OF this] False show ?thesis
      by (auto simp: rows_def covers_def find_snoc split: option.splits)
  qed (simp add: rows_def)
qed (simp add: rows_def)

lemma rows_nth: "i < length (rows t) \<Longrightarrow> t ! i = rows t ! i \<and> i < length t"
  unfolding rows_def using length_takeWhile_le [of _ t] by (metis le_less_trans not_le takeWhile_nth)

lemma table_order:
  assumes "table_ok t" and "i < length (rows t)"
  shows "method_end (t ! i) < 2 ^ 64" "\<And>j. i < j \<Longrightarrow> j < length (rows t) \<Longrightarrow> method_end (t ! i) \<le> unat (method_start (t ! j))"
proof -
  show "method_end (t ! i) < 2 ^ 64" using assms rows_nth [OF assms(2)] by (auto simp: table_ok_def list_all_length)
  fix j assume "i < j" "j < length (rows t)"
  then show "method_end (t ! i) \<le> unat (method_start (t ! j))"
    using assms(1) rows_nth [OF assms(2)] rows_nth [of j t] by (auto simp: table_ok_def sorted_wrt_iff_nth_less)
qed

lemma touches_nat: "method_end q < 2 ^ 64 \<Longrightarrow> touches q rip \<longleftrightarrow> unat (method_start q) \<le> unat rip \<and> unat rip \<le> method_end q"
  and inside_nat: "method_end q < 2 ^ 64 \<Longrightarrow> inside q rip \<longleftrightarrow> unat (method_start q) < unat rip \<and> unat rip < method_end q"
  by (simp_all add: touches_def inside_def word_le_nat_alt word_less_nat_alt end_value)

lemma inside_only:
  assumes "table_ok t" and "i < length (rows t)" and "inside (t ! i) rip" and "j < length (rows t)" and "touches (t ! j) rip"
  shows "j = i"
proof (rule ccontr)
  assume "j \<noteq> i"
  note ends = table_order(1) [OF assms(1,2)] table_order(1) [OF assms(1,4)]
  have le: "unat (method_start (t ! k)) \<le> method_end (t ! k)" for k by (simp add: method_end_def)
  from \<open>j \<noteq> i\<close> table_order(2) [OF assms(1,2), of j] table_order(2) [OF assms(1,4), of i] assms(2,4)
  have "method_end (t ! i) \<le> unat (method_start (t ! j)) \<or> method_end (t ! j) \<le> unat (method_start (t ! i))" by linarith
  with assms(3,5) ends show False by (auto simp: touches_nat inside_nat)
qed

lemma binary_result:
  "p \<le> q \<Longrightarrow> q < length (rows t) \<Longrightarrow>
    \<exists>u. binary_search rip t p q = Inr u \<and> (\<forall>v. u = Some v \<longrightarrow> (\<exists>j. (j < q \<or> j = p) \<and> v = t ! j \<and> touches v rip))"
proof (induction rip t p q rule: binary_search.induct)
  case (1 rip t p q)
  define r where "r = p + (q - p) div 2"
  have r: "r \<le> q" "r < length t" "p \<le> r" "r = p \<or> r < q" using "1.prems" rows_nth [of r t] by (auto simp: r_def)
  note step = binary_search.simps [of rip t p q, folded r_def, unfolded Let_def]
  show ?case
  proof (cases "r = p")
    case True
    then show ?thesis using r(2) by (subst step) (auto simp: touches_def)
  next
    case False
    consider (low) "rip < method_start (t ! r)" | (high) "\<not> rip < method_start (t ! r)" "rip > method_start (t ! r) + method_length (t ! r)"
      | (hit) "touches (t ! r) rip" unfolding touches_def by fastforce
    then show ?thesis
    proof cases
      case low
      have "\<exists>u. binary_search rip t p r = Inr u \<and> (\<forall>v. u = Some v \<longrightarrow> (\<exists>j. (j < r \<or> j = p) \<and> v = t ! j \<and> touches v rip))"
        using "1.IH"(1) [OF r_def] False r low "1.prems"(2) by simp
      moreover have "binary_search rip t p q = binary_search rip t p r" using False r(2) low by (subst step) simp
      ultimately show ?thesis using r by (metis order.strict_trans2)
    next
      case high
      have "\<exists>u. binary_search rip t r q = Inr u \<and> (\<forall>v. u = Some v \<longrightarrow> (\<exists>j. (j < q \<or> j = r) \<and> v = t ! j \<and> touches v rip))"
        using "1.IH"(2) [OF r_def] False r high "1.prems"(2) by simp
      moreover have "binary_search rip t p q = binary_search rip t r q" using False r(2) high by (subst step) simp
      ultimately show ?thesis using r False by metis
    next
      case hit
      then have "binary_search rip t p q = Inr (Some (t ! r))" using False r(2) by (subst step) (auto simp: touches_def)
      with hit r False show ?thesis by auto
    qed
  qed
qed

lemma binary_finds:
  "table_ok t \<Longrightarrow> i < length (rows t) \<Longrightarrow> inside (t ! i) rip \<Longrightarrow> p \<le> i \<Longrightarrow> i < q \<or> i = p \<Longrightarrow> q < length (rows t) \<Longrightarrow>
   binary_search rip t p q = Inr (Some (t ! i))"
proof (induction rip t p q rule: binary_search.induct)
  case (1 rip t p q)
  note ok = "1.prems"(1) and i = "1.prems"(2) and inside = "1.prems"(3)
  define r where "r = p + (q - p) div 2"
  have r: "r < length (rows t)" "p \<le> r" "r = p \<or> r < q" "r = p \<Longrightarrow> q \<le> Suc p"
    using "1.prems" by (auto simp: r_def)
  have tr: "r < length t" using rows_nth [OF r(1)] by simp
  note step = binary_search.simps [of rip t p q, folded r_def, unfolded Let_def]
  have touch: "touches (t ! i) rip" using inside by (intro covers_touches inside_covers)
  note nat_i = table_order(1) [OF ok i] and nat_r = table_order(1) [OF ok r(1)]
  have ri: "unat (method_start (t ! i)) < unat rip" "unat rip < method_end (t ! i)" using inside nat_i by (auto simp: inside_nat)
  show ?case
  proof (cases "r = p")
    case True
    then have "i = p" using r(4) "1.prems"(4,5) by linarith
    with True touch tr show ?thesis by (subst step) (auto simp: touches_def)
  next
    case False
    consider (low) "rip < method_start (t ! r)" | (high) "\<not> rip < method_start (t ! r)" "rip > method_start (t ! r) + method_length (t ! r)"
      | (hit) "touches (t ! r) rip" unfolding touches_def by fastforce
    then show ?thesis
    proof cases
      case low
      have "i < r"
      proof (rule ccontr)
        assume "\<not> i < r"
        then have "unat (method_start (t ! r)) \<le> unat (method_start (t ! i))"
          using table_order(2) [OF ok r(1), of i] i by (cases "i = r") (auto simp: method_end_def)
        with ri(1) low show False by (simp add: word_less_nat_alt)
      qed
      then have "binary_search rip t p r = Inr (Some (t ! i))"
        using "1.IH"(1) [OF r_def _ _ low] tr False "1.prems" r by simp
      then show ?thesis using False tr low by (subst step) simp
    next
      case high
      have "r < i"
      proof (rule ccontr)
        assume "\<not> r < i"
        then have "method_end (t ! i) \<le> method_end (t ! r)"
          using table_order(2) [OF ok i, of r] r(1) by (cases "i = r") (auto simp: method_end_def)
        with ri(2) high(2) nat_r show False by (simp add: word_less_nat_alt end_value)
      qed
      then have "binary_search rip t r q = Inr (Some (t ! i))"
        using "1.IH"(2) [OF r_def _ _ high] tr False "1.prems" r by simp
      then show ?thesis using False tr high by (subst step) simp
    next
      case hit
      then have "i = r" using inside_only [OF ok i inside r(1)] by simp
      with hit False tr show ?thesis by (subst step) (auto simp: touches_def)
    qed
  qed
qed

lemma binary_misses_last:
  assumes "table_ok t" and "length (rows t) = Suc i" and "inside (t ! i) rip" and "p < q" and "q \<le> i"
  shows "binary_search rip t p q = Inr None"
proof -
  obtain u where u: "binary_search rip t p q = Inr u" "\<And>v. u = Some v \<Longrightarrow> \<exists>j. (j < q \<or> j = p) \<and> v = t ! j \<and> touches v rip"
    using binary_result [of p q t rip] assms(2,4,5) by auto
  have "u = None"
  proof (rule ccontr)
    assume "u \<noteq> None"
    then obtain j where "j < q" "touches (t ! j) rip" using u(2) assms(4) by blast
    with inside_only [OF assms(1) _ assms(3), of j] assms(2,5) show False by simp
  qed
  with u(1) show ?thesis by simp
qed

lemma binary_none:
  assumes "p \<le> q" and "q < length (rows t)" and "\<And>v. v \<in> set (rows t) \<Longrightarrow> \<not> touches v rip"
  shows "binary_search rip t p q = Inr None"
proof -
  obtain u where u: "binary_search rip t p q = Inr u" "\<And>v. u = Some v \<Longrightarrow> \<exists>j. (j < q \<or> j = p) \<and> v = t ! j \<and> touches v rip"
    using binary_result [OF assms(1,2), of rip] by auto
  moreover have "t ! j \<in> set (rows t)" if "j < q \<or> j = p" for j
    using rows_nth [of j t] assms(1,2) that by (metis le_less_trans nth_mem order.strict_trans)
  ultimately show ?thesis using assms(3) by (cases u) auto
qed

lemma linear_one:
  assumes "table_ok t" and "i < length (rows t)" and "inside (t ! i) rip"
  shows "linear_search rip t None 0 = Inr (Some (t ! i), length (rows t))"
proof -
  let ?f = "find (\<lambda>q. covers q rip) (rev (rows t))"
  have "t ! i \<in> set (rows t)" "covers (t ! i) rip"
    using rows_nth [OF assms(2)] assms(2,3) by (simp_all add: inside_covers)
  then have "?f \<noteq> None" by (auto simp: find_None_iff)
  then obtain q where q: "?f = Some q" by blast
  then obtain j where "j < length (rows t)" "q = rows t ! j" "covers q rip"
    by (metis (mono_tags, lifting) find_Some_iff in_set_conv_nth nth_mem set_rev)
  with inside_only [OF assms, of j] rows_nth [of j t] have "q = t ! i" using covers_touches by metis
  with q assms(1) show ?thesis by (simp add: linear_finds table_ok_def)
qed

lemma linear_none:
  "table_ok t \<Longrightarrow> (\<And>v. v \<in> set (rows t) \<Longrightarrow> \<not> touches v rip) \<Longrightarrow> linear_search rip t None 0 = Inr (None, length (rows t))"
  using covers_touches by (auto simp: linear_finds table_ok_def find_None_iff split: option.split dest!: find_Some_iff [THEN iffD1])

lemma searches_agree_parts:
  assumes "table_ok t" and "i < length (rows t)" and "inside (t ! i) rip"
  shows "search_table rip t 0 = Inr (Some (t ! i), length (rows t))"
    "search_table rip t (length (rows t)) =
      Inr (if i + 1 = length (rows t) \<and> i \<noteq> 0 then None else Some (t ! i), length (rows t))"
proof -
  show "search_table rip t 0 = Inr (Some (t ! i), length (rows t))" using linear_one [OF assms] by (simp add: search_table_def)
  have "binary_search rip t 0 (length (rows t) - 1) = Inr (if i + 1 = length (rows t) \<and> i \<noteq> 0 then None else Some (t ! i))"
  proof (cases "i + 1 = length (rows t) \<and> i \<noteq> 0")
    case True
    then have "length (rows t) - 1 = i" by linarith
    with True binary_misses_last [OF assms(1) _ assms(3), of 0 i] show ?thesis by auto
  next
    case False
    have "binary_search rip t 0 (length (rows t) - 1) = Inr (Some (t ! i))"
      using False assms(2) by (intro binary_finds [OF assms]) linarith+
    with False show ?thesis by simp
  qed
  with assms(2) show "search_table rip t (length (rows t)) =
      Inr (if i + 1 = length (rows t) \<and> i \<noteq> 0 then None else Some (t ! i), length (rows t))"
    by (auto simp: search_table_def)
qed

text \<open>
  C32: In a table as the compiler emits it, let an address lie strictly inside method \<open>i\<close>.  The first, linear
  search of the table finds that method and counts the records.  The binary search that replaces it afterwards
  finds the same method, except that it never finds the last one of several.
\<close>

theorem searches_agree:
  assumes "table_ok t" and "i < length (rows t)" and "inside (t ! i) rip"
  shows "search_table rip t 0 = Inr (Some (t ! i), length (rows t)) \<and>
    search_table rip t (length (rows t)) =
      Inr (if i + 1 = length (rows t) \<and> i \<noteq> 0 then None else Some (t ! i), length (rows t))"
  using searches_agree_parts [OF assms] by blast

definition sample_method :: "64 word \<Rightarrow> 64 word \<Rightarrow> string \<Rightarrow> unwind_record" where
  "sample_method start len name = \<lparr>method_start = start, method_length = len, method_name = Some name,
     line_numbers = None, unwind_flags = 0, ro_size = 0\<rparr>"

definition sample_table :: "unwind_record list" where
  "sample_table = [sample_method 0x1000 0x100 ''f'', sample_method 0x1100 0x80 ''g'', sample_method 0x2000 0x40 ''h'',
     sample_method 0 0 '''']"

lemma searches_agree_witness:
  "search_table 0x2020 sample_table 0 = Inr (Some (sample_method 0x2000 0x40 ''h''), 3) \<and>
   search_table 0x2020 sample_table 3 = Inr (None, 3)"
  using searches_agree [of sample_table 2 "0x2020"]
  by (simp add: table_ok_def sample_table_def rows_def sample_method_def method_end_def inside_def numeral_3_eq_3)

section \<open>Sequences of look-ups\<close>

definition all_records :: "unwind_state \<Rightarrow> unwind_record set" where
  "all_records st = set (us_start st) \<union> {u. \<exists>t. Some t \<in> set (map fst (us_head st)) \<and> u \<in> set t}"

lemma linear_sound:
  "linear_search rip t p k = Inr (Some u, n) \<Longrightarrow> p = Some u \<or> u \<in> set t \<and> touches u rip"
proof (induction t arbitrary: p k)
  case (Cons q t)
  show ?case
  proof (cases "method_start q = 0")
    case False
    with Cons.prems Cons.IH [of "if covers q rip then Some q else p" "k + 1"] covers_touches show ?thesis
      by (auto simp: covers_def split: if_splits)
  qed (use Cons.prems in simp)
qed simp

lemma binary_sound: "binary_search rip t p q = Inr (Some u) \<Longrightarrow> u \<in> set t \<and> touches u rip"
proof (induction rip t p q rule: binary_search.induct)
  case (1 rip t p q)
  from "1.prems" [unfolded binary_search.simps [of rip t p q] Let_def] "1.IH" [OF refl] show ?case
    by (auto simp: touches_def split: if_splits)
qed

lemma search_sound: "search_table rip t len = Inr (Some u, n) \<Longrightarrow> u \<in> set t \<and> touches u rip"
  using linear_sound [of rip t None 0 u n] binary_sound [of rip t 0 "len - 1" u]
  by (auto simp: search_table_def split: if_splits sum.splits)

lemma keep_map: "(map f xs)[i := f (xs ! i)] = map f xs"
  by (cases "i < length xs") (simp_all add: list_update_beyond list_update_same_conv)

lemma store_length_fields [simp]:
  "us_start (store_length at len st) = us_start st" "us_cache (store_length at len st) = us_cache st"
  "us_next_hit (store_length at len st) = us_next_hit st" "us_last_hit (store_length at len st) = us_last_hit st"
  "map fst (us_head (store_length at len st)) = map fst (us_head st)"
  "us_length (store_length at len st) = (if at = None then len else us_length st)"
  by (auto simp: store_length_def map_update keep_map split: option.split)

definition same_but_lengths :: "unwind_state \<Rightarrow> unwind_state \<Rightarrow> bool" where
  "same_but_lengths st st' \<longleftrightarrow> us_start st' = us_start st \<and> us_cache st' = us_cache st \<and> us_next_hit st' = us_next_hit st \<and>
     us_last_hit st' = us_last_hit st \<and> map fst (us_head st') = map fst (us_head st)"

lemma search_tables_sound:
  "search_tables rip start len at i st = Inr (p, st') \<Longrightarrow> same_but_lengths st st' \<and>
     (at \<noteq> None \<longrightarrow> us_length st' = us_length st) \<and>
     (\<forall>u. p = Some u \<longrightarrow> touches u rip \<and> (u \<in> set start \<or> u \<in> all_records st))"
proof (induction rip start len at i st rule: search_tables.induct)
  case (1 rip start len at i st)
  note step = search_tables.simps [of rip start len at i st]
  from "1.prems" obtain q n where q: "search_table rip start len = Inr (q, n)"
    unfolding step by (auto split: sum.splits)
  define st1 where "st1 = store_length at n st"
  have same: "same_but_lengths st st1" "at \<noteq> None \<longrightarrow> us_length st1 = us_length st" by (simp_all add: same_but_lengths_def st1_def)
  note run = "1.prems" [unfolded step q sum.case prod.case, folded st1_def, unfolded Let_def]
  show ?case
  proof (cases "q = None \<and> \<not> length (us_head st1) \<le> i \<and> \<not> length (us_head st1) \<le> i + 1 \<and> fst (us_head st1 ! i) \<noteq> None")
    case False
    with run same search_sound [of rip start len] q show ?thesis by (auto split: if_splits option.splits)
  next
    case True
    then obtain t where t: "fst (us_head st1 ! i) = Some t" by blast
    have mem: "Some t \<in> set (map fst (us_head st1))" using True t by (metis in_set_conv_nth length_map not_le nth_map)
    have "search_tables rip t (snd (us_head st1 ! (i + 1))) (Some (i + 1)) (i + 1) st1 = Inr (p, st')" using run True t by simp
    from "1.IH" [OF q refl st1_def _ _ _ t this] True
    have "same_but_lengths st1 st'" "us_length st' = us_length st1"
      "\<And>u. p = Some u \<Longrightarrow> touches u rip \<and> (u \<in> set t \<or> u \<in> all_records st1)" by auto
    moreover have "all_records st1 = all_records st" using same(1) by (simp add: all_records_def same_but_lengths_def)
    moreover have "u \<in> all_records st1" if "u \<in> set t" for u using mem that by (auto simp: all_records_def)
    ultimately show ?thesis using same by (auto simp: same_but_lengths_def)
  qed
qed

text \<open>Methods both searches find.\<close>

definition findable :: "unwind_record list \<Rightarrow> nat \<Rightarrow> 64 word \<Rightarrow> bool" where
  "findable t i rip \<longleftrightarrow> i < length (rows t) \<and> inside (t ! i) rip \<and> (i = 0 \<or> i + 1 < length (rows t))"

definition entry_ok :: "unwind_state \<Rightarrow> recent_unwind \<Rightarrow> bool" where
  "entry_ok st e \<longleftrightarrow>
     (\<forall>u. ru_record e = Some u \<longrightarrow> touches u (ru_rip e) \<and> u \<in> all_records st) \<and>
     (table_ok (us_start st) \<longrightarrow> (\<forall>i. findable (us_start st) i (ru_rip e) \<longrightarrow> ru_record e = Some (us_start st ! i))) \<and>
     (\<forall>j. ru_next e = Some j \<longrightarrow> j < UNWIND_CACHE_MAX)"

definition unwind_ok :: "unwind_state \<Rightarrow> bool" where
  "unwind_ok st \<longleftrightarrow> length (us_cache st) = UNWIND_CACHE_MAX \<and> (\<forall>e \<in> set (us_cache st). entry_ok st e) \<and>
     (\<forall>j. us_next_hit st = Some j \<or> us_last_hit st = Some j \<longrightarrow> j < UNWIND_CACHE_MAX) \<and>
     (table_ok (us_start st) \<longrightarrow> us_length st = 0 \<or> us_length st = length (rows (us_start st)))"

lemma entry_ok_cong:
  "us_start st' = us_start st \<Longrightarrow> all_records st \<subseteq> all_records st' \<Longrightarrow> entry_ok st e \<Longrightarrow> entry_ok st' e"
  by (auto simp: entry_ok_def)

lemma unwind_ok_cong:
  assumes "unwind_ok st" and "same_but_lengths st st'"
    and "table_ok (us_start st) \<Longrightarrow> us_length st' = 0 \<or> us_length st' = length (rows (us_start st))"
  shows "unwind_ok st'"
  using assms by (auto simp: unwind_ok_def same_but_lengths_def all_records_def intro: entry_ok_cong [of st' st])

lemma unwind_ok_set:
  assumes "unwind_ok st" and "entry_ok st e"
  shows "unwind_ok (st\<lparr>us_cache := (us_cache st)[p := e]\<rparr>)"
proof -
  have "entry_ok st f" if "f \<in> set ((us_cache st)[p := e])" for f
    using that assms set_update_subset_insert [of "us_cache st" p e] by (auto simp: unwind_ok_def)
  then have "entry_ok (st\<lparr>us_cache := (us_cache st)[p := e]\<rparr>) f" if "f \<in> set ((us_cache st)[p := e])" for f
    using that by (auto simp: all_records_def intro: entry_ok_cong [of _ st])
  with assms(1) show ?thesis by (simp add: unwind_ok_def)
qed

lemma entry_nth: "unwind_ok st \<Longrightarrow> p < UNWIND_CACHE_MAX \<Longrightarrow> entry_ok st (us_cache st ! p)"
  by (simp add: unwind_ok_def)

lemma follow_fields [simp]:
  "us_start (follow p st) = us_start st" "us_head (follow p st) = us_head st" "us_length (follow p st) = us_length st"
  "us_next_hit (follow p st) = us_next_hit st" "all_records (follow p st) = all_records st"
  by (simp_all add: follow_def all_records_def)

lemma follow_record [simp]:
  "ru_rip (us_cache (follow p st) ! q) = ru_rip (us_cache st ! q)" "ru_record (us_cache (follow p st) ! q) = ru_record (us_cache st ! q)"
proof -
  have "ru_rip (xs[l := (xs ! l)\<lparr>ru_next := n\<rparr>] ! q) = ru_rip (xs ! q) \<and>
      ru_record (xs[l := (xs ! l)\<lparr>ru_next := n\<rparr>] ! q) = ru_record (xs ! q)" for xs l n
    by (cases "l < length xs"; cases "l = q") (simp_all add: list_update_beyond)
  then show "ru_rip (us_cache (follow p st) ! q) = ru_rip (us_cache st ! q)"
    "ru_record (us_cache (follow p st) ! q) = ru_record (us_cache st ! q)"
    by (auto simp: follow_def split: option.split)
qed

lemma follow_ok:
  assumes "unwind_ok st" and "p < UNWIND_CACHE_MAX"
  shows "unwind_ok (follow p st)"
proof -
  have "unwind_ok (follow p st)" if "us_last_hit st = None"
    using assms that by (auto simp: follow_def unwind_ok_def all_records_def intro: entry_ok_cong [of _ st])
  moreover have "unwind_ok (follow p st)" if "us_last_hit st = Some l" for l
  proof -
    have "l < UNWIND_CACHE_MAX" using assms(1) that by (simp add: unwind_ok_def)
    with assms have "entry_ok st ((us_cache st ! l)\<lparr>ru_next := Some p\<rparr>)"
      using entry_nth [of st l] by (simp add: entry_ok_def)
    from unwind_ok_set [OF assms(1) this, of l] assms(2) that show ?thesis
      by (auto simp: follow_def unwind_ok_def all_records_def intro: entry_ok_cong [rotated 2])
  qed
  ultimately show ?thesis by (cases "us_last_hit st") auto
qed

lemma cache_hash_bound: "unwind_hash rip < UNWIND_CACHE_MAX"
  unfolding unwind_hash_def UNWIND_CACHE_MAX_def
  using unsigned_less [where 'b = 8 and 'a = nat] by simp

lemma cached_ok:
  assumes "unwind_ok st" and "findCachedUnwindInfo rip st = (p, st')"
  shows "unwind_ok st' \<and> p < UNWIND_CACHE_MAX \<and> us_start st' = us_start st \<and> us_head st' = us_head st \<and>
    us_length st' = us_length st"
proof -
  have chain: "unwind_ok (st\<lparr>us_next_hit := ru_next (us_cache st ! q)\<rparr>)" if "q < UNWIND_CACHE_MAX" for q
    using entry_nth [OF assms(1) that] assms(1)
    by (auto simp: unwind_ok_def entry_ok_def all_records_def)
  have "q < UNWIND_CACHE_MAX" if "us_next_hit st = Some q" for q using assms(1) that by (simp add: unwind_ok_def)
  with assms chain cache_hash_bound [of rip] show ?thesis
    by (auto simp: findCachedUnwindInfo_def Let_def follow_ok split: option.splits if_splits)
qed

lemma search_base:
  assumes "unwind_ok st" and "table_ok (us_start st)" and "search_table rip (us_start st) (us_length st) = Inr (q, n)"
  shows "n = length (rows (us_start st))"
proof -
  have "us_length st = 0 \<or> us_length st = length (rows (us_start st))" using assms(1,2) by (simp add: unwind_ok_def)
  then show ?thesis
    using assms(2,3) by (cases "us_length st = 0") (auto simp: search_table_def linear_finds table_ok_def split: sum.splits)
qed

lemma search_known:
  assumes "unwind_ok st" and "table_ok (us_start st)" and "findable (us_start st) i rip"
  shows "search_tables rip (us_start st) (us_length st) None 0 st =
    Inr (Some (us_start st ! i), store_length None (length (rows (us_start st))) st)"
proof -
  have "search_table rip (us_start st) (us_length st) = Inr (Some (us_start st ! i), length (rows (us_start st)))"
    using assms searches_agree_parts [OF assms(2), of i rip] by (auto simp: unwind_ok_def findable_def)
  then show ?thesis by (subst search_tables.simps) (simp add: Let_def)
qed

lemma search_tables_ok:
  assumes "unwind_ok st" and "search_tables rip (us_start st) (us_length st) None 0 st = Inr (p, st')"
  shows "unwind_ok st' \<and> same_but_lengths st st' \<and> entry_ok st' \<lparr>ru_rip = rip, ru_record = p, ru_next = None\<rparr>"
proof -
  note sound = search_tables_sound [OF assms(2)]
  have len: "us_length st' = length (rows (us_start st))" if ok: "table_ok (us_start st)"
  proof -
    from assms(2) obtain q n where q: "search_table rip (us_start st) (us_length st) = Inr (q, n)"
      by (subst (asm) search_tables.simps) (auto split: sum.splits)
    have "us_length st' = n"
      using assms(2) q search_tables_sound
      by (subst (asm) search_tables.simps) (fastforce simp: Let_def split: if_splits option.splits)
    with search_base [OF assms(1) ok q] show ?thesis by simp
  qed
  have same: "same_but_lengths st st'" using sound by blast
  then have all: "us_start st' = us_start st" "all_records st' = all_records st" by (simp_all add: same_but_lengths_def all_records_def)
  have "p = Some (us_start st ! i)" if "table_ok (us_start st)" "findable (us_start st) i rip" for i
    using search_known [OF assms(1) that] assms(2) by simp
  moreover have "touches u rip \<and> u \<in> all_records st" if "p = Some u" for u
    using sound that by (auto simp: all_records_def)
  ultimately have "entry_ok st' \<lparr>ru_rip = rip, ru_record = p, ru_next = None\<rparr>" by (simp add: entry_ok_def all)
  with same len show ?thesis using unwind_ok_cong [OF assms(1) same] by auto
qed

lemma find_ok:
  assumes "unwind_ok st" and "findUnwindInfo rip backtrace st = Inr (p, b, st')"
  shows "unwind_ok st' \<and> us_start st' = us_start st \<and> all_records st' = all_records st \<and>
    (\<forall>u. p = Some u \<longrightarrow> touches u rip \<and> u \<in> all_records st)"
proof -
  obtain rp st1 where c: "findCachedUnwindInfo rip st = (rp, st1)" by fastforce
  note ok = cached_ok [OF assms(1) c]
  have all: "all_records st1 = all_records st" using ok by (simp add: all_records_def)
  note run = assms(2) [unfolded findUnwindInfo_def c prod.case]
  show ?thesis
  proof (cases "ru_rip (us_cache st1 ! rp) = rip")
    case True
    with run ok all entry_nth [of st1 rp] show ?thesis by (auto simp: entry_ok_def split: option.splits)
  next
    case False
    with run obtain st2 where s: "search_tables rip (us_start st1) (us_length st1) None 0 st1 = Inr (p, st2)"
      by (auto simp: Let_def split: sum.splits option.splits)
    let ?e = "\<lparr>ru_rip = rip, ru_record = p, ru_next = None\<rparr>"
    have ok2: "unwind_ok st2" "same_but_lengths st1 st2" "entry_ok st2 ?e" using search_tables_ok [OF _ s] ok by auto
    define st3 where "st3 = st2\<lparr>us_cache := (us_cache st2)[rp := ?e]\<rparr>"
    have ok3: "unwind_ok st3" unfolding st3_def by (rule unwind_ok_set [OF ok2(1,3)])
    have same: "us_start st3 = us_start st" "all_records st3 = all_records st"
      using ok2(2) ok all by (simp_all add: same_but_lengths_def all_records_def st3_def)
    have "st' = st3 \<or> st' = follow rp st3" using run False s by (auto simp: Let_def st3_def split: option.splits)
    then have "unwind_ok st'" "us_start st' = us_start st" "all_records st' = all_records st"
      using ok3 same follow_ok [OF ok3, of rp] ok by (elim disjE; simp)+
    moreover have "touches u rip \<and> (u \<in> set (us_start st1) \<or> u \<in> all_records st1)" if "p = Some u" for u
      using search_tables_sound [OF s] that by simp
    moreover have "set (us_start st1) \<subseteq> all_records st1" by (simp add: all_records_def)
    ultimately show ?thesis using all by auto
  qed
qed

lemma find_known:
  assumes "unwind_ok st" and "table_ok (us_start st)" and "findable (us_start st) i rip"
  shows "\<exists>st'. findUnwindInfo rip backtrace st = Inr (Some (us_start st ! i), fill_backtrace rip (us_start st ! i) backtrace, st')"
proof -
  obtain rp st1 where c: "findCachedUnwindInfo rip st = (rp, st1)" by fastforce
  note ok = cached_ok [OF assms(1) c]
  have known: "ru_record (us_cache st1 ! rp) = Some (us_start st ! i)" if "ru_rip (us_cache st1 ! rp) = rip"
    using entry_nth [of st1 rp] ok assms(2,3) that by (auto simp: entry_ok_def)
  moreover have "search_tables rip (us_start st1) (us_length st1) None 0 st1 =
      Inr (Some (us_start st ! i), store_length None (length (rows (us_start st))) st1)"
    using search_known [of st1 i rip] ok assms(2,3) by simp
  ultimately show ?thesis by (auto simp: findUnwindInfo_def c Let_def)
qed

text \<open>A run of the program: look-ups, with what they return, and modules that are loaded.\<close>

datatype unwind_op = Look_up "64 word" | Load_module "unwind_record list option"

fun run_ops :: "unwind_op list \<Rightarrow> unwind_state \<Rightarrow> unwind_error + (64 word \<times> unwind_record option) list \<times> unwind_state" where
  "run_ops [] st = Inr ([], st)"
| "run_ops (Load_module u # ops) st = run_ops ops (add_unwind_info u st)"
| "run_ops (Look_up rip # ops) st =
     (case findUnwindInfo rip None st of
        Inl e \<Rightarrow> Inl e
      | Inr (p, b, st) \<Rightarrow> (case run_ops ops st of Inl e \<Rightarrow> Inl e | Inr (answers, st) \<Rightarrow> Inr ((rip, p) # answers, st)))"

lemma add_ok: "unwind_ok st \<Longrightarrow> unwind_ok (add_unwind_info u st) \<and> all_records st \<subseteq> all_records (add_unwind_info u st)"
proof -
  have "all_records st \<subseteq> all_records (add_unwind_info u st)" by (auto simp: add_unwind_info_def all_records_def)
  moreover assume "unwind_ok st"
  ultimately show ?thesis
    by (auto simp: unwind_ok_def add_unwind_info_def intro: entry_ok_cong [of _ st])
qed

lemma initial_ok: "unwind_ok (initial_unwind t)"
  by (simp add: unwind_ok_def initial_unwind_def UNWIND_CACHE_MAX_def entry_ok_def findable_def inside_def)

lemma run_ok:
  "run_ops ops st = Inr (answers, st') \<Longrightarrow> unwind_ok st \<Longrightarrow>
   unwind_ok st' \<and> us_start st' = us_start st \<and> all_records st \<subseteq> all_records st' \<and>
   (\<forall>rip u. (rip, Some u) \<in> set answers \<longrightarrow> touches u rip \<and> u \<in> all_records st')"
proof (induction ops st arbitrary: answers rule: run_ops.induct)
  case (2 u ops st)
  have "us_start (add_unwind_info u st) = us_start st" by (simp add: add_unwind_info_def)
  with 2 add_ok [OF 2(3), of u] show ?case by auto
next
  case (3 rip ops st)
  from 3(2) obtain p b st1 rest where f: "findUnwindInfo rip None st = Inr (p, b, st1)"
    "run_ops ops st1 = Inr (rest, st')" "answers = (rip, p) # rest"
    by (auto split: sum.splits)
  note ok = find_ok [OF 3(3) f(1)]
  from 3(1) [OF f(1) refl refl f(2)] ok have
    "unwind_ok st'" "us_start st' = us_start st1" "all_records st1 \<subseteq> all_records st'"
    "\<forall>rip u. (rip, Some u) \<in> set rest \<longrightarrow> touches u rip \<and> u \<in> all_records st'" by auto
  with ok f(3) show ?case by auto
qed simp

text \<open>
  C16: In any run of look-ups and loads of modules from the first state on, whatever the cache and its chain have
  come to hold, a method that a look-up returns is one of a table and its range, the end included, contains the
  address looked up.
\<close>

theorem lookups_sound:
  assumes "run_ops ops (initial_unwind t) = Inr (answers, st)" and "(rip, Some u) \<in> set answers"
  shows "method_start u \<le> rip \<and> rip \<le> method_start u + method_length u \<and> u \<in> all_records st"
  using run_ok [OF assms(1) initial_ok] assms(2) unfolding touches_def by blast

lemma lookups_sound_witness:
  "run_ops [Look_up 0x1100, Look_up 0x1100] (initial_unwind sample_table) =
     Inr ([(0x1100, Some (sample_method 0x1100 0x80 ''g'')), (0x1100, Some (sample_method 0x1100 0x80 ''g''))],
       snd (projr (run_ops [Look_up 0x1100, Look_up 0x1100] (initial_unwind sample_table)))) \<and>
   sample_method 0x1100 0x80 ''g'' \<in> all_records (snd (projr (run_ops [Look_up 0x1100, Look_up 0x1100] (initial_unwind sample_table))))"
proof -
  let ?run = "run_ops [Look_up 0x1100, Look_up 0x1100] (initial_unwind sample_table)"
  have run: "?run = Inr ([(0x1100, Some (sample_method 0x1100 0x80 ''g'')), (0x1100, Some (sample_method 0x1100 0x80 ''g''))],
       snd (projr ?run))"
    by code_simp
  have "(0x1100, Some (sample_method 0x1100 0x80 ''g'')) \<in> set
      [(0x1100, Some (sample_method 0x1100 0x80 ''g'')), (0x1100, Some (sample_method 0x1100 0x80 ''g''))]" by simp
  from lookups_sound [OF run this] run show ?thesis by blast
qed

text \<open>
  C15: In any such run that has come to an end, let the table of the program be one the compiler emits and let an
  address lie strictly inside a method of it that is not the last of several.  Then looking the address up
  returns that method and fills in the backtrace, whether the answer comes from the cache, the chain, the first
  linear search or a binary one, and whatever modules were loaded.
\<close>

theorem lookups_complete:
  assumes "run_ops ops (initial_unwind t) = Inr (answers, st)" and "table_ok t" and "findable t i rip"
  shows "\<exists>st'. findUnwindInfo rip backtrace st = Inr (Some (t ! i), fill_backtrace rip (t ! i) backtrace, st')"
proof -
  have "unwind_ok st" "us_start st = t" using run_ok [OF assms(1) initial_ok] by (simp_all add: initial_unwind_def)
  with find_known [of st i rip backtrace] assms(2,3) show ?thesis by simp
qed

lemma lookups_complete_witness:
  "\<exists>st'. findUnwindInfo 0x1140 None (snd (projr (run_ops [Look_up 0x1010, Load_module None] (initial_unwind sample_table)))) =
     Inr (Some (sample_method 0x1100 0x80 ''g''), None, st')"
proof -
  let ?run = "run_ops [Look_up 0x1010, Load_module None] (initial_unwind sample_table)"
  have run: "?run = Inr (fst (projr ?run), snd (projr ?run))" by code_simp
  have "table_ok sample_table"
    by (simp add: table_ok_def sample_table_def rows_def sample_method_def method_end_def)
  moreover have "findable sample_table 1 0x1140"
    by (simp add: findable_def sample_table_def rows_def sample_method_def inside_def)
  ultimately show ?thesis
    using lookups_complete [OF run, of 1 "0x1140" None] by (simp add: sample_table_def fill_backtrace_def)
qed

text \<open>
  C33: As soon as exactly one module has been loaded, the first look-up of an address outside the methods of the
  program reads the length field of the node behind it, through a null pointer.
\<close>

theorem one_module_crashes:
  assumes "table_ok t" and "\<And>v. v \<in> set (rows t) \<Longrightarrow> \<not> touches v rip" and "rip \<noteq> 0"
  shows "findUnwindInfo rip backtrace (add_unwind_info u (initial_unwind t)) = Inl Null_pointer"
proof -
  let ?st = "add_unwind_info u (initial_unwind t)"
  have cache: "us_cache ?st ! j = \<lparr>ru_rip = 0, ru_record = None, ru_next = None\<rparr>" if "j < UNWIND_CACHE_MAX" for j
    using that by (simp add: add_unwind_info_def initial_unwind_def)
  have c: "findCachedUnwindInfo rip ?st = (unwind_hash rip, ?st)"
    using assms(3) cache [OF cache_hash_bound, of rip] cache [of 0]
    by (simp add: findCachedUnwindInfo_def add_unwind_info_def initial_unwind_def UNWIND_CACHE_MAX_def)
  have "search_table rip t 0 = Inr (None, length (rows t))"
    using linear_none [OF assms(1,2)] by (simp add: search_table_def)
  then have "search_tables rip t 0 None 0 ?st = Inl Null_pointer"
    by (subst search_tables.simps) (simp add: add_unwind_info_def store_length_def initial_unwind_def)
  with c cache [OF cache_hash_bound, of rip] assms(3) show ?thesis
    by (simp add: findUnwindInfo_def add_unwind_info_def initial_unwind_def)
qed

lemma one_module_crashes_witness:
  "findUnwindInfo 0x5000 None (add_unwind_info (Some sample_table) (initial_unwind sample_table)) = Inl Null_pointer"
  by (rule one_module_crashes)
    (auto simp: table_ok_def sample_table_def rows_def sample_method_def method_end_def touches_def)

end
