(* ===== verification/Unwind_Stack.thy ===== *)
theory Unwind_Stack
  imports Unwind_Records
begin

text \<open>
  Exceptions on the stack, \<^verbatim>\<open>lrt-exception.c\<close> in its 64-bit form: the walk up the classes of an exception, the
  chain of handlers, the restoring of saved registers frame by frame, and the line numbers of a backtrace.
  Objects and stack frames are read from memory.  The chains in memory may be cyclic: a function that follows one
  is \<open>None\<close> if it does not return.  Messages to \<^verbatim>\<open>stderr\<close> are left out; the appends to the string
  buffer of the L library are the list of what is appended.
\<close>

section \<open>Classes\<close>

definition shiftVTable :: "ptr \<Rightarrow> ptr" where
  "shiftVTable p = (if p = 0 then 0 else p - 24)"

text \<open>The fields of a \<^verbatim>\<open>VTable\<close>: type, name, size and, at 24, the super class.\<close>

definition getSuperVTable :: "memory \<Rightarrow> ptr \<Rightarrow> ptr" where
  "getSuperVTable m v = (if v = 0 then 0 else shiftVTable (load 8 m (v + 24)))"

definition getObjectVTable :: "memory \<Rightarrow> ptr \<Rightarrow> ptr" where
  "getObjectVTable m e = (if e = 0 then 0 else shiftVTable (load 8 m e))"

partial_function (option) catches :: "memory \<Rightarrow> ptr \<Rightarrow> ptr \<Rightarrow> bool option" where
  "catches m catch e =
     (if catch = e then Some True
      else if e = 0 \<or> catch = 0 then Some False
      else catches m catch (getSuperVTable m e))"

section \<open>Handlers\<close>

text \<open>An \<^verbatim>\<open>ExRecord\<close>: type, class, function and, at 24, the next one; 32 bytes in all.\<close>

definition CATCH_RETURN :: "64 word" where "CATCH_RETURN = 0"
definition CATCH_EXCEPTION :: "64 word" where "CATCH_EXCEPTION = 2"

definition getCatchVTable :: "memory \<Rightarrow> ptr \<Rightarrow> ptr" where
  "getCatchVTable m r = (if r = 0 then 0 else shiftVTable (load 8 m (r + 8)))"

text \<open>Without a next record and with another type the function returns no value.\<close>

definition nextExRecord :: "memory \<Rightarrow> ptr \<Rightarrow> ptr option" where
  "nextExRecord m r =
     (if load 8 m (r + 24) \<noteq> 0 then Some (load 8 m (r + 24))
      else if load 8 m r = CATCH_EXCEPTION then Some (r + 32)
      else None)"

partial_function (option) findMethodHandler :: "memory \<Rightarrow> ptr \<Rightarrow> ptr option option" where
  "findMethodHandler m r =
     (if r = 0 then Some (Some 0)
      else if load 8 m r = CATCH_RETURN then Some (Some r)
      else (case nextExRecord m r of None \<Rightarrow> Some None | Some r \<Rightarrow> findMethodHandler m r))"

section \<open>Frames\<close>

record registers =
  reg_r8 :: "64 word"
  reg_r9 :: "64 word"
  reg_r10 :: "64 word"
  reg_r11 :: "64 word"
  reg_r12 :: "64 word"
  reg_r13 :: "64 word"
  reg_r14 :: "64 word"
  reg_r15 :: "64 word"
  reg_rdi :: "64 word"
  reg_rsi :: "64 word"
  reg_rbp :: "64 word"
  reg_rbx :: "64 word"
  reg_rdx :: "64 word"
  reg_rax :: "64 word"
  reg_rcx :: "64 word"
  reg_rsp :: "64 word"
  reg_rip :: "64 word"
  reg_rflags :: "64 word"

definition clearRegisters :: registers where
  "clearRegisters = \<lparr>reg_r8 = 0, reg_r9 = 0, reg_r10 = 0, reg_r11 = 0, reg_r12 = 0, reg_r13 = 0, reg_r14 = 0, reg_r15 = 0,
     reg_rdi = 0, reg_rsi = 0, reg_rbp = 0, reg_rbx = 0, reg_rdx = 0, reg_rax = 0, reg_rcx = 0, reg_rsp = 0, reg_rip = 0,
     reg_rflags = 0\<rparr>"

definition M_RBX :: "32 word" where "M_RBX = 0x00004"
definition M_R12 :: "32 word" where "M_R12 = 0x02000"
definition M_R13 :: "32 word" where "M_R13 = 0x04000"
definition M_R14 :: "32 word" where "M_R14 = 0x08000"
definition M_R15 :: "32 word" where "M_R15 = 0x10000"

text \<open>One saved register: if the flag is set, the stack pointer goes down and the register gets the word there.\<close>

definition restore ::
  "memory \<Rightarrow> 32 word \<Rightarrow> 32 word \<Rightarrow> (64 word \<Rightarrow> registers \<Rightarrow> registers) \<Rightarrow> ptr \<times> registers \<Rightarrow> ptr \<times> registers" where
  "restore m flags bits set_reg = (\<lambda>(stack, r).
     if flags AND bits \<noteq> 0 then (stack - 8, set_reg (load 8 m (stack - 8)) r) else (stack, r))"

definition unwindFrame :: "memory \<Rightarrow> ptr \<Rightarrow> 32 word \<Rightarrow> registers \<Rightarrow> registers" where
  "unwindFrame m rbp flags r =
     (let s = (rbp, r\<lparr>reg_rbp := load 8 m rbp\<rparr>);
          s = restore m flags M_RBX (\<lambda>v. reg_rbx_update (\<lambda>_. v)) s;
          s = restore m flags M_R12 (\<lambda>v. reg_r12_update (\<lambda>_. v)) s;
          s = restore m flags M_R13 (\<lambda>v. reg_r13_update (\<lambda>_. v)) s;
          s = restore m flags M_R14 (\<lambda>v. reg_r14_update (\<lambda>_. v)) s;
          s = restore m flags M_R15 (\<lambda>v. reg_r15_update (\<lambda>_. v)) s
      in snd s)"

text \<open>The record of the backtrace for frame number \<open>frame\<close>, and its new value.\<close>

definition get_record :: "backtrace_record list \<Rightarrow> nat \<Rightarrow> backtrace_record option" where
  "get_record bt frame = (if frame < length bt then Some (bt ! frame) else None)"

definition put_record :: "backtrace_record list \<Rightarrow> nat \<Rightarrow> backtrace_record option \<Rightarrow> backtrace_record list" where
  "put_record bt frame br = (case br of None \<Rightarrow> bt | Some b \<Rightarrow> bt[frame := b])"

definition up_rip :: "memory \<Rightarrow> ptr \<Rightarrow> 64 word \<Rightarrow> 64 word" where
  "up_rip m rbp rip = (if load 8 m rbp \<noteq> 0 then load 8 m (rbp + 8) else rip)"

partial_function (option) unwind_loop ::
  "memory \<Rightarrow> 64 word \<Rightarrow> ptr \<Rightarrow> 64 word \<Rightarrow> nat \<Rightarrow> bool \<Rightarrow> registers \<Rightarrow> backtrace_record list \<Rightarrow> unwind_state \<Rightarrow>
   (unwind_error + bool \<times> registers \<times> backtrace_record list \<times> unwind_state) option" where
  "unwind_loop m stop_at_rip rbp rip frame found regs bt st =
     (if rbp = 0 then Some (Inr (found, regs, bt, st))
      else (case findUnwindInfo rip (get_record bt frame) st of
          Inl e \<Rightarrow> Some (Inl e)
        | Inr (u, br, st) \<Rightarrow>
            (case u of
               None \<Rightarrow>
                 (let bt = put_record bt frame (map_option (\<lambda>b. b\<lparr>bt_method_name := Some ''unknown''\<rparr>) br)
                  in if found then Some (Inr (found, regs, bt, st))
                     else unwind_loop m stop_at_rip (load 8 m rbp) (up_rip m rbp rip) (frame + 1) found regs bt st)
             | Some u \<Rightarrow>
                 (let bt = put_record bt frame br;
                      found = (found \<or> stop_at_rip = method_start u);
                      regs = (if found then regs else unwindFrame m rbp (ucast (unwind_flags u)) regs)
                  in unwind_loop m stop_at_rip (load 8 m rbp) (up_rip m rbp rip) (frame + 1) found regs bt st))))"

text \<open>A null \<^verbatim>\<open>backtrace\<close> is the empty list.\<close>

definition unwindStack ::
  "memory \<Rightarrow> ptr \<Rightarrow> 64 word \<Rightarrow> 64 word \<Rightarrow> backtrace_record list \<Rightarrow> unwind_state \<Rightarrow>
   (unwind_error + bool \<times> registers \<times> backtrace_record list \<times> unwind_state) option" where
  "unwindStack m rbp rip stop_at_rip bt st = unwind_loop m stop_at_rip rbp rip 0 False clearRegisters bt st"

section \<open>Line numbers\<close>

datatype piece = Text string | Number "32 word"

text \<open>The loop over the line records of a method; it returns the previous line.\<close>

fun line_loop :: "64 word \<Rightarrow> line_record list \<Rightarrow> 64 word \<Rightarrow> 64 word \<Rightarrow> unwind_error + 64 word" where
  "line_loop rip [] previous_line previous_rip = Inl Behind_table"
| "line_loop rip (l # ls) previous_line previous_rip =
     (if line_address l \<noteq> 0 then
        if rip > previous_rip \<and> rip \<le> line_address l then Inr previous_line
        else line_loop rip ls (line_number l) (line_address l)
      else Inr previous_line)"

definition findLineNumber :: "backtrace_record \<Rightarrow> unwind_error + piece list" where
  "findLineNumber backtrace =
     (case bt_method_name backtrace of
        None \<Rightarrow> Inr [Text [CHR 0x09], Text (''unknown'' @ [CHR 0x0A])]
      | Some name \<Rightarrow>
          (case bt_line_number_info backtrace of
             None \<Rightarrow> Inr [Text [CHR 0x09], Text name, Text [CHR 0x0A]]
           | Some ls \<Rightarrow>
               (case line_loop (bt_rip backtrace) ls (- 1) (- 1) of
                  Inl e \<Rightarrow> Inl e
                | Inr previous_line \<Rightarrow>
                    Inr ([Text [CHR 0x09], Text name] @
                      (if previous_line \<noteq> - 1 then [Text '': '', Number (ucast previous_line), Text [CHR 0x0A]]
                       else [Text ('': outside method'' @ [CHR 0x0A])])))))"

fun find_line_numbers :: "backtrace_record list \<Rightarrow> unwind_error + piece list" where
  "find_line_numbers [] = Inl Behind_table"
| "find_line_numbers (b # bt) =
     (if bt_rip b \<noteq> 0 then
        (case findLineNumber b of
           Inl e \<Rightarrow> Inl e
         | Inr ps \<Rightarrow> (case find_line_numbers bt of Inl e \<Rightarrow> Inl e | Inr qs \<Rightarrow> Inr (ps @ qs)))
      else Inr [])"

section \<open>Which exceptions a handler catches\<close>

fun class_chain :: "memory \<Rightarrow> ptr \<Rightarrow> ptr list \<Rightarrow> bool" where
  "class_chain m e [] \<longleftrightarrow> e = 0"
| "class_chain m e (v # vs) \<longleftrightarrow> v = e \<and> e \<noteq> 0 \<and> class_chain m (getSuperVTable m e) vs"

text \<open>
  Let the super classes of \<open>e\<close> form a chain that ends.  Then \<^verbatim>\<open>catches\<close> returns, and says that a handler
  for a class catches an exception of class \<open>e\<close> exactly if the class is in the chain.
\<close>

theorem catches_subclasses:
  "class_chain m e vs \<Longrightarrow> c \<noteq> 0 \<Longrightarrow> catches m c e = Some (c \<in> set vs)"
proof (induction vs arbitrary: e)
  case Nil
  then show ?case by (subst catches.simps) simp
next
  case (Cons v vs)
  then show ?case by (subst catches.simps) auto
qed

lemma load_8: "load 8 m p = ucast (m p) + 256 * (ucast (m (p + 1)) + 256 * (ucast (m (p + 2)) + 256 * (ucast (m (p + 3)) +
    256 * (ucast (m (p + 4)) + 256 * (ucast (m (p + 5)) + 256 * (ucast (m (p + 6)) + 256 * ucast (m (p + 7))))))))"
  by (simp add: eval_nat_numeral add.assoc)

lemma catches_subclasses_witness:
  "catches (\<lambda>a. if a = 0x1018 then 0x18 else if a = 0x1019 then 0x20 else 0) 0x2000 0x1000 = Some True"
proof -
  have "class_chain (\<lambda>a. if a = 0x1018 then 0x18 else if a = 0x1019 then 0x20 else 0) 0x1000 [0x1000, 0x2000]"
    by (simp add: getSuperVTable_def shiftVTable_def load_8)
  from catches_subclasses [OF this, of "0x2000"] show ?thesis by simp
qed

section \<open>Unwinding a chain of frames\<close>

text \<open>The frames from \<open>rbp\<close> and \<open>rip\<close> on, as pairs of the two.\<close>

fun frame_chain :: "memory \<Rightarrow> ptr \<Rightarrow> 64 word \<Rightarrow> (ptr \<times> 64 word) list \<Rightarrow> bool" where
  "frame_chain m rbp rip [] \<longleftrightarrow> rbp = 0"
| "frame_chain m rbp rip (f # fs) \<longleftrightarrow> f = (rbp, rip) \<and> rbp \<noteq> 0 \<and> frame_chain m (load 8 m rbp) (up_rip m rbp rip) fs"

text \<open>The method of an address, the frames above the handler, the registers they saved, the backtrace.\<close>

definition method_of :: "unwind_record list \<Rightarrow> 64 word \<Rightarrow> unwind_record" where
  "method_of t rip = hd (filter (\<lambda>q. inside q rip) (rows t))"

definition above :: "unwind_record list \<Rightarrow> 64 word \<Rightarrow> (ptr \<times> 64 word) list \<Rightarrow> (ptr \<times> 64 word) list" where
  "above t stop fs = takeWhile (\<lambda>f. method_start (method_of t (snd f)) \<noteq> stop) fs"

definition restored :: "memory \<Rightarrow> unwind_record list \<Rightarrow> (ptr \<times> 64 word) list \<Rightarrow> registers \<Rightarrow> registers" where
  "restored m t fs r = fold (\<lambda>f. unwindFrame m (fst f) (ucast (unwind_flags (method_of t (snd f))))) fs r"

text \<open>
  What a prologue saves, said without the unwinder: below the saved frame pointer lie, in this order, the registers
  whose bits are set in the flags of the method: \<^verbatim>\<open>rbx\<close> (bit 2) and \<^verbatim>\<open>r12\<close> to \<^verbatim>\<open>r15\<close> (bits 13 to 16).
  \<open>saved_word\<close> is the word that the last of some frames to save a register has saved for it.
\<close>

definition saved_bits :: "nat list" where
  "saved_bits = [2, 13, 14, 15, 16]"

definition slot :: "ptr \<Rightarrow> 32 word \<Rightarrow> nat \<Rightarrow> ptr" where
  "slot rbp flags b = rbp - 8 * word_of_nat (Suc (length (filter (bit flags) (takeWhile (\<lambda>c. c \<noteq> b) saved_bits))))"

definition saved_word :: "memory \<Rightarrow> (ptr \<times> 32 word) list \<Rightarrow> nat \<Rightarrow> 64 word" where
  "saved_word m frames b =
     (case find (\<lambda>(rbp, flags). bit flags b) (rev frames) of
        None \<Rightarrow> 0
      | Some (rbp, flags) \<Rightarrow> load 8 m (slot rbp flags b))"

definition saved_rbp :: "memory \<Rightarrow> (ptr \<times> 32 word) list \<Rightarrow> 64 word" where
  "saved_rbp m frames = (if frames = [] then 0 else load 8 m (fst (last frames)))"

definition flags_of :: "unwind_record list \<Rightarrow> (ptr \<times> 64 word) list \<Rightarrow> (ptr \<times> 32 word) list" where
  "flags_of t fs = map (\<lambda>f. (fst f, ucast (unwind_flags (method_of t (snd f))))) fs"

lemma saved_word_simps [simp]:
  "saved_word m [] b = 0"
  "saved_word m (frames @ [(rbp, flags)]) b = (if bit flags b then load 8 m (slot rbp flags b) else saved_word m frames b)"
  "saved_rbp m [] = 0" "saved_rbp m (frames @ [(rbp, flags)]) = load 8 m rbp"
  by (simp_all add: saved_word_def saved_rbp_def)

lemma flag_bits:
  "flags AND M_RBX = 0 \<longleftrightarrow> \<not> bit flags 2" "flags AND M_R12 = 0 \<longleftrightarrow> \<not> bit flags 13" "flags AND M_R13 = 0 \<longleftrightarrow> \<not> bit flags 14"
  "flags AND M_R14 = 0 \<longleftrightarrow> \<not> bit flags 15" "flags AND M_R15 = 0 \<longleftrightarrow> \<not> bit flags 16"
  using and_exp_eq_0_iff_not_bit [of flags 2] and_exp_eq_0_iff_not_bit [of flags 13] and_exp_eq_0_iff_not_bit [of flags 14]
    and_exp_eq_0_iff_not_bit [of flags 15] and_exp_eq_0_iff_not_bit [of flags 16]
  by (simp_all add: M_RBX_def M_R12_def M_R13_def M_R14_def M_R15_def)

lemma unwindFrame_registers:
  "unwindFrame m rbp flags r = r\<lparr>reg_rbp := load 8 m rbp,
     reg_rbx := (if bit flags 2 then load 8 m (slot rbp flags 2) else reg_rbx r),
     reg_r12 := (if bit flags 13 then load 8 m (slot rbp flags 13) else reg_r12 r),
     reg_r13 := (if bit flags 14 then load 8 m (slot rbp flags 14) else reg_r13 r),
     reg_r14 := (if bit flags 15 then load 8 m (slot rbp flags 15) else reg_r14 r),
     reg_r15 := (if bit flags 16 then load 8 m (slot rbp flags 16) else reg_r15 r)\<rparr>"
  unfolding unwindFrame_def restore_def flag_bits slot_def saved_bits_def Let_def
  by (cases "bit flags 2"; cases "bit flags 13"; cases "bit flags 14"; cases "bit flags 15"; cases "bit flags 16") simp_all

lemma restored_registers:
  "restored m t fs clearRegisters =
     \<lparr>reg_r8 = 0, reg_r9 = 0, reg_r10 = 0, reg_r11 = 0, reg_r12 = saved_word m (flags_of t fs) 13,
      reg_r13 = saved_word m (flags_of t fs) 14, reg_r14 = saved_word m (flags_of t fs) 15,
      reg_r15 = saved_word m (flags_of t fs) 16, reg_rdi = 0, reg_rsi = 0, reg_rbp = saved_rbp m (flags_of t fs),
      reg_rbx = saved_word m (flags_of t fs) 2, reg_rdx = 0, reg_rax = 0, reg_rcx = 0, reg_rsp = 0, reg_rip = 0, reg_rflags = 0\<rparr>"
proof (induction fs rule: rev_induct)
  case Nil
  then show ?case by (simp add: restored_def flags_of_def clearRegisters_def)
next
  case (snoc f fs)
  have "flags_of t (fs @ [f]) = flags_of t fs @ [(fst f, ucast (unwind_flags (method_of t (snd f))))]"
    by (simp add: flags_of_def)
  moreover have "restored m t (fs @ [f]) clearRegisters =
      unwindFrame m (fst f) (ucast (unwind_flags (method_of t (snd f)))) (restored m t fs clearRegisters)"
    by (simp add: restored_def)
  ultimately show ?case by (simp add: unwindFrame_registers snoc.IH)
qed

definition trace_frame :: "unwind_record list \<Rightarrow> ptr \<times> 64 word \<Rightarrow> backtrace_record \<Rightarrow> backtrace_record" where
  "trace_frame t f b = b\<lparr>bt_rip := snd f, bt_method_name := method_name (method_of t (snd f)),
     bt_line_number_info := line_numbers (method_of t (snd f))\<rparr>"

definition traced :: "unwind_record list \<Rightarrow> (ptr \<times> 64 word) list \<Rightarrow> backtrace_record list \<Rightarrow> backtrace_record list" where
  "traced t fs bt = map2 (trace_frame t) fs bt @ drop (length fs) bt"

lemma method_of_findable:
  assumes "table_ok t" and "findable t i rip"
  shows "method_of t rip = t ! i"
proof -
  have i: "i < length (rows t)" "inside (t ! i) rip" using assms(2) by (simp_all add: findable_def)
  then have "t ! i \<in> set (filter (\<lambda>q. inside q rip) (rows t))" using rows_nth [OF i(1)] by simp
  then have "method_of t rip \<in> set (filter (\<lambda>q. inside q rip) (rows t))"
    unfolding method_of_def by (intro hd_in_set) (auto simp: filter_empty_conv)
  then obtain j where "j < length (rows t)" "method_of t rip = rows t ! j" "inside (rows t ! j) rip"
    by (auto simp: in_set_conv_nth)
  with inside_only [OF assms(1) i, of j] rows_nth [of j t] show ?thesis
    using inside_covers covers_touches by metis
qed

lemma traced_step:
  assumes "n = length bs"
  shows "put_record (bs @ bt) n (map_option (trace_frame t f) (get_record (bs @ bt) n)) =
    bs @ (case bt of [] \<Rightarrow> [] | b # bt \<Rightarrow> trace_frame t f b # bt)"
  using assms by (auto simp: put_record_def get_record_def list_update_append split: list.split)

lemma unwind_loop_frames:
  assumes ok: "table_ok t"
  shows "frame_chain m rbp rip fs \<Longrightarrow> \<forall>f \<in> set fs. \<exists>i. findable t i (snd f) \<Longrightarrow> unwind_ok st \<Longrightarrow> us_start st = t \<Longrightarrow>
    n = length bs \<or> length bs < n \<and> bt = [] \<Longrightarrow>
    \<exists>st'. unwind_loop m stop rbp rip n found regs (bs @ bt) st =
      Some (Inr (found \<or> above t stop fs \<noteq> fs, (if found then regs else restored m t (above t stop fs) regs), bs @ traced t fs bt, st'))"
proof (induction fs arbitrary: rbp rip n found regs bs bt st)
  case Nil
  then show ?case by (subst unwind_loop.simps) (simp add: above_def restored_def traced_def)
next
  case (Cons f fs)
  have f: "f = (rbp, rip)" "rbp \<noteq> 0" "frame_chain m (load 8 m rbp) (up_rip m rbp rip) fs" using Cons.prems(1) by auto
  obtain i where i: "findable t i rip" using Cons.prems(2) f(1) by auto
  have meth: "method_of t rip = t ! i" by (rule method_of_findable [OF ok i])
  obtain st1 where st1: "findUnwindInfo rip (get_record (bs @ bt) n) st =
      Inr (Some (t ! i), fill_backtrace rip (t ! i) (get_record (bs @ bt) n), st1)"
    using find_known [of st i rip] Cons.prems(3,4) ok i by blast
  have ok1: "unwind_ok st1" "us_start st1 = t" using find_ok [OF Cons.prems(3) st1] Cons.prems(4) by auto
  have fill: "fill_backtrace rip (t ! i) = map_option (trace_frame t f)"
    by (rule ext) (simp add: fill_backtrace_def trace_frame_def [abs_def] f(1) meth)
  let ?bs = "bs @ (case bt of [] \<Rightarrow> [] | b # bt \<Rightarrow> [trace_frame t f b])" and ?bt = "tl bt"
  have bt: "put_record (bs @ bt) n (fill_backtrace rip (t ! i) (get_record (bs @ bt) n)) = ?bs @ ?bt"
    using Cons.prems(5) traced_step [of n bs bt t f] unfolding fill
    by (auto simp: get_record_def put_record_def split: list.splits)
  have len: "n + 1 = length ?bs \<or> length ?bs < n + 1 \<and> ?bt = []" using Cons.prems(5) by (auto split: list.splits)
  let ?found = "found \<or> stop = method_start (t ! i)"
  let ?regs = "if ?found then regs else unwindFrame m rbp (ucast (unwind_flags (t ! i))) regs"
  have all: "\<forall>f \<in> set fs. \<exists>i. findable t i (snd f)" using Cons.prems(2) by simp
  obtain st' where "unwind_loop m stop (load 8 m rbp) (up_rip m rbp rip) (n + 1) ?found ?regs (?bs @ ?bt) st1 =
      Some (Inr (?found \<or> above t stop fs \<noteq> fs, (if ?found then ?regs else restored m t (above t stop fs) ?regs), ?bs @ traced t fs ?bt, st'))"
    using Cons.IH [OF f(3) all ok1 len, of ?found ?regs] by blast
  moreover have "?bs @ traced t fs ?bt = bs @ traced t (f # fs) bt" by (simp add: traced_def split: list.split)
  moreover have "(?found \<or> above t stop fs \<noteq> fs) = (found \<or> above t stop (f # fs) \<noteq> f # fs)"
    by (auto simp: above_def f(1) meth)
  moreover have "(if ?found then ?regs else restored m t (above t stop fs) ?regs) =
      (if found then regs else restored m t (above t stop (f # fs)) regs)"
    by (auto simp: above_def restored_def f(1) meth)
  moreover have "unwind_loop m stop rbp rip n found regs (bs @ bt) st =
      unwind_loop m stop (load 8 m rbp) (up_rip m rbp rip) (n + 1) ?found ?regs (?bs @ ?bt) st1"
    by (subst unwind_loop.simps) (simp only: f(2) st1 if_False sum.case prod.case option.case Let_def bt)
  ultimately show ?case by (intro exI [of _ st']) (simp only:)
qed

text \<open>
  C13: Let the frame pointers in memory form a chain that ends, and let every return address on it lie in a method
  the look-up can find.  Then after any run of look-ups, \<^verbatim>\<open>unwindStack\<close> returns: it reports whether the method
  of a frame starts where it should stop; of the frames above this one, the last gives the frame pointer, and each of
  \<^verbatim>\<open>rbx\<close> and \<^verbatim>\<open>r12\<close> to \<^verbatim>\<open>r15\<close> has the word that the last frame whose method saves this register holds for it, 0 if
  none does, as all other registers; and the backtrace is filled with the methods of all frames, as far as it has room.
\<close>

theorem unwind_stack_frames:
  assumes "run_ops ops (initial_unwind t) = Inr (answers, st)" and "table_ok t"
    and "frame_chain m rbp rip fs" and "\<forall>f \<in> set fs. \<exists>i. findable t i (snd f)"
  shows "let frames = flags_of t (above t stop fs) in
    \<exists>st'. unwindStack m rbp rip stop bt st =
      Some (Inr (above t stop fs \<noteq> fs,
        \<lparr>reg_r8 = 0, reg_r9 = 0, reg_r10 = 0, reg_r11 = 0, reg_r12 = saved_word m frames 13,
         reg_r13 = saved_word m frames 14, reg_r14 = saved_word m frames 15, reg_r15 = saved_word m frames 16,
         reg_rdi = 0, reg_rsi = 0, reg_rbp = saved_rbp m frames, reg_rbx = saved_word m frames 2,
         reg_rdx = 0, reg_rax = 0, reg_rcx = 0, reg_rsp = 0, reg_rip = 0, reg_rflags = 0\<rparr>,
        traced t fs bt, st'))"
proof -
  have "unwind_ok st" "us_start st = t" using run_ok [OF assms(1) initial_ok] by (simp_all add: initial_unwind_def)
  from unwind_loop_frames [OF assms(2-4) this, of 0 "[]" bt stop False clearRegisters]
  show ?thesis by (simp add: unwindStack_def Let_def restored_registers)
qed

text \<open>Two frames, of \<open>f\<close> with two saved registers and of \<open>g\<close>, where the walk is to stop.\<close>

definition two_methods :: "unwind_record list" where
  "two_methods = [(sample_method 0x1000 0x100 ''f'')\<lparr>unwind_flags := 0x2004\<rparr>, sample_method 0x1100 0x80 ''g'',
     sample_method 0x2000 0x40 ''h'', sample_method 0 0 '''']"

definition two_frames :: memory where
  "two_frames a = (if a = 0x7000 then 0x40 else if a = 0x7001 then 0x70 else if a = 0x7008 then 0x20 else if a = 0x7009 then 0x11
     else if a = 0x6FF8 then 42 else if a = 0x6FF0 then 7 else 0)"

lemma unwind_stack_frames_witness:
  "\<exists>st'. unwindStack two_frames 0x7000 0x1010 0x1100 [\<lparr>bt_rip = 0, bt_method_name = None, bt_line_number_info = None\<rparr>]
      (initial_unwind two_methods) =
    Some (Inr (True, clearRegisters\<lparr>reg_rbp := 0x7040, reg_rbx := 42, reg_r12 := 7\<rparr>,
      [\<lparr>bt_rip = 0x1010, bt_method_name = Some ''f'', bt_line_number_info = None\<rparr>], st'))"
proof -
  let ?fs = "[(0x7000, 0x1010), (0x7040, 0x1120)] :: (ptr \<times> 64 word) list"
  have ok: "table_ok two_methods"
    by (simp add: table_ok_def two_methods_def rows_def sample_method_def method_end_def)
  have chain: "frame_chain two_frames 0x7000 0x1010 ?fs" by (simp add: up_rip_def load_8 two_frames_def)
  have "findable two_methods 0 0x1010" "findable two_methods 1 0x1120"
    by (simp_all add: findable_def two_methods_def rows_def sample_method_def inside_def)
  then have all: "\<forall>f \<in> set ?fs. \<exists>i. findable two_methods i (snd f)" by auto
  have "above two_methods 0x1100 ?fs = [(0x7000, 0x1010)]"
    by (simp add: above_def method_of_def two_methods_def rows_def sample_method_def inside_def)
  moreover have "flags_of two_methods [(0x7000, 0x1010)] = [(0x7000, 0x2004)]"
    by (simp add: flags_of_def method_of_def two_methods_def rows_def sample_method_def inside_def)
  moreover have "saved_rbp two_frames [(0x7000, 0x2004)] = 0x7040" "saved_word two_frames [(0x7000, 0x2004)] 2 = 42"
    "saved_word two_frames [(0x7000, 0x2004)] 13 = 7" "saved_word two_frames [(0x7000, 0x2004)] 14 = 0"
    "saved_word two_frames [(0x7000, 0x2004)] 15 = 0" "saved_word two_frames [(0x7000, 0x2004)] 16 = 0"
    by (simp_all add: saved_rbp_def saved_word_def slot_def saved_bits_def load_8 two_frames_def bit_numeral_rec)
  moreover have "traced two_methods ?fs [\<lparr>bt_rip = 0, bt_method_name = None, bt_line_number_info = None\<rparr>] =
      [\<lparr>bt_rip = 0x1010, bt_method_name = Some ''f'', bt_line_number_info = None\<rparr>]"
    by (simp add: traced_def trace_frame_def method_of_def two_methods_def rows_def sample_method_def inside_def)
  ultimately show ?thesis
    using unwind_stack_frames [where ops = "[]" and answers = "[]" and st = "initial_unwind two_methods" and stop = "0x1100"
        and bt = "[\<lparr>bt_rip = 0, bt_method_name = None, bt_line_number_info = None\<rparr>]", OF _ ok chain all]
    by (simp add: clearRegisters_def Let_def)
qed

section \<open>Line numbers\<close>

text \<open>
  The line of an address: that of the last record below it.  For an address that is not behind the first record,
  the loop does not stop before the end of the table, and takes the last line of the method.
\<close>

definition line_of :: "line_record list \<Rightarrow> 64 word \<Rightarrow> line_record" where
  "line_of ls rip = (let xs = takeWhile (\<lambda>l. line_address l < rip) ls in if xs = [] then last ls else last xs)"

lemma line_loop_from:
  "sorted_wrt (\<lambda>a b. line_address a < line_address b) (l # ls) \<Longrightarrow> \<forall>x \<in> set ls. line_address x \<noteq> 0 \<Longrightarrow> line_address e = 0 \<Longrightarrow>
   line_loop rip (ls @ e # rest) (line_number l) (line_address l) =
     Inr (line_number (if line_address l < rip then last (l # takeWhile (\<lambda>x. line_address x < rip) ls) else last (l # ls)))"
proof (induction ls arbitrary: l)
  case (Cons x ls)
  then have "line_address l < line_address x" by simp
  moreover have "line_loop rip (ls @ e # rest) (line_number x) (line_address x) =
      Inr (line_number (if line_address x < rip then last (x # takeWhile (\<lambda>x. line_address x < rip) ls) else last (x # ls)))"
    using Cons.prems by (intro Cons.IH) auto
  ultimately show ?case using Cons.prems(2) by auto
qed simp

text \<open>
  Let the line records of a method have ascending addresses other than 0 and end with address 0.  Then the
  text of a backtrace record has the line of the last record below its address; but for an address that is not
  behind the first one, it has the last line of the method.
\<close>

theorem line_numbers_found:
  assumes "bt_method_name b = Some name" and "bt_line_number_info b = Some (l # ls @ e # rest)"
    and "sorted_wrt (\<lambda>x y. line_address x < line_address y) (l # ls)" and "\<forall>x \<in> set (l # ls). line_address x \<noteq> 0 \<and> line_number x \<noteq> - 1"
    and "line_address e = 0"
  shows "findLineNumber b = Inr [Text [CHR 0x09], Text name, Text '': '', Number (ucast (line_number (line_of (l # ls) (bt_rip b)))),
    Text [CHR 0x0A]]"
proof -
  let ?l = "line_of (l # ls) (bt_rip b)"
  have "line_loop (bt_rip b) (l # ls @ e # rest) (- 1) (- 1) = line_loop (bt_rip b) (ls @ e # rest) (line_number l) (line_address l)"
    using assms(4) word_order.extremum [of "bt_rip b"] by (auto simp: not_less [symmetric])
  also have "\<dots> = Inr (line_number ?l)"
    using line_loop_from [OF assms(3) _ assms(5), of "bt_rip b" rest] assms(4) by (auto simp: line_of_def Let_def)
  finally have "line_loop (bt_rip b) (l # ls @ e # rest) (- 1) (- 1) = Inr (line_number ?l)" .
  moreover have "?l \<in> set (l # ls)"
    by (auto simp: line_of_def Let_def dest: set_takeWhileD intro!: last_in_set [THEN set_takeWhileD, THEN conjunct1])
  then have "line_number ?l \<noteq> - 1" using assms(4) by blast
  ultimately show ?thesis using assms(1,2) by (simp add: findLineNumber_def)
qed

lemma line_numbers_found_witness:
  "findLineNumber \<lparr>bt_rip = 0x1014, bt_method_name = Some ''f'', bt_line_number_info =
      Some [\<lparr>line_address = 0x1000, line_number = 7\<rparr>, \<lparr>line_address = 0x1010, line_number = 8\<rparr>,
            \<lparr>line_address = 0x1020, line_number = 9\<rparr>, \<lparr>line_address = 0, line_number = 0\<rparr>]\<rparr> =
    Inr [Text [CHR 0x09], Text ''f'', Text '': '', Number 8, Text [CHR 0x0A]]"
  by (subst line_numbers_found [where l = "\<lparr>line_address = 0x1000, line_number = 7\<rparr>" and name = "''f''" and rest = "[]"
        and ls = "[\<lparr>line_address = 0x1010, line_number = 8\<rparr>, \<lparr>line_address = 0x1020, line_number = 9\<rparr>]"
        and e = "\<lparr>line_address = 0, line_number = 0\<rparr>"])
    (simp_all add: line_of_def)
end
