(* ===== verification/Old_Unwind.thy ===== *)
theory Old_Unwind
  imports Unwind_Stack
begin

text \<open>
  The first unwinder, \<^verbatim>\<open>src/x86/lrt/exception-old.c\<close>: a throw goes down the chain of handlers, the first that takes
  it is called with the registers that the frames above its method have saved, the others 0.  The tables of methods and lines, the handlers, the
  objects and the stack lie in memory, which nothing here writes to but the string buffer of the backtrace and the
  exception's pointer to it; a buffer is the list of the appends made to it, \<open>None\<close> the null pointer.  Numbers
  of type \<^verbatim>\<open>long\<close> are compared with their sign.  A function that follows a chain in memory is \<open>None\<close> if it does not
  return.
\<close>

section \<open>Classes and handlers\<close>

definition CATCH_FINALLY :: "64 word" where "CATCH_FINALLY = 1"
definition THROW_RETURN :: "64 word" where "THROW_RETURN = 3"
definition THROW_EXCEPTION :: "64 word" where "THROW_EXCEPTION = 4"
definition THROW_FINALLY :: "64 word" where "THROW_FINALLY = 5"
definition THROW_STOP :: "64 word" where "THROW_STOP = 6"

lemmas record_types = CATCH_RETURN_def CATCH_FINALLY_def CATCH_EXCEPTION_def
lemmas throw_types = THROW_RETURN_def THROW_EXCEPTION_def THROW_FINALLY_def THROW_STOP_def

definition old_shiftVTable :: "ptr \<Rightarrow> ptr" where
  "old_shiftVTable p = (if p = 0 then 0 else p - 3 * 8)"

definition old_getObjectVTable :: "memory \<Rightarrow> ptr \<Rightarrow> ptr" where
  "old_getObjectVTable m e = (if e = 0 then 0 else old_shiftVTable (load 8 m e))"

definition old_getSuperVTable :: "memory \<Rightarrow> ptr \<Rightarrow> ptr" where
  "old_getSuperVTable m v = (if v = 0 then 0 else old_shiftVTable (load 8 m (v + 24)))"

definition old_getCatchVTable :: "memory \<Rightarrow> ptr \<Rightarrow> ptr" where
  "old_getCatchVTable m r = (if r = 0 then 0 else old_shiftVTable (load 8 m (r + 8)))"

partial_function (option) old_catches :: "memory \<Rightarrow> ptr \<Rightarrow> ptr \<Rightarrow> bool option" where
  "old_catches m catch e =
     (if catch = e then Some True
      else if e = 0 \<or> catch = 0 then Some False
      else old_catches m catch (old_getSuperVTable m e))"

text \<open>The fields of a handler.  Without a next one and with another type \<^verbatim>\<open>nextExRecord\<close> returns no value.\<close>

definition ex_type :: "memory \<Rightarrow> ptr \<Rightarrow> 64 word" where "ex_type m r = load 8 m r"
definition ex_catch :: "memory \<Rightarrow> ptr \<Rightarrow> ptr" where "ex_catch m r = load 8 m (r + 8)"
definition ex_func :: "memory \<Rightarrow> ptr \<Rightarrow> ptr" where "ex_func m r = load 8 m (r + 16)"
definition ex_next :: "memory \<Rightarrow> ptr \<Rightarrow> ptr" where "ex_next m r = load 8 m (r + 24)"

definition old_nextExRecord :: "memory \<Rightarrow> ptr \<Rightarrow> ptr option" where
  "old_nextExRecord m r =
     (if ex_next m r \<noteq> 0 then Some (ex_next m r)
      else if ex_type m r = CATCH_EXCEPTION then Some (r + 32)
      else None)"

partial_function (option) old_findMethodHandler :: "memory \<Rightarrow> ptr \<Rightarrow> ptr option option" where
  "old_findMethodHandler m r =
     (if r = 0 then Some (Some 0)
      else if ex_type m r = CATCH_RETURN then Some (Some r)
      else (case old_nextExRecord m r of None \<Rightarrow> Some None | Some r \<Rightarrow> old_findMethodHandler m r))"

section \<open>Methods and lines\<close>

text \<open>What is appended to a buffer: a character, a string, the name of a method, an \<^verbatim>\<open>int\<close>.\<close>

datatype appended = Append_c char | Append_Pc string | Append_name ptr | Append_i "64 word"

type_synonym buffer = "appended list option"

definition append_all :: "appended list \<Rightarrow> buffer \<Rightarrow> buffer" where
  "append_all xs b = map_option (\<lambda>ys. ys @ xs) b"

definition newline :: char where "newline = CHR 0x0A"

text \<open>A line record: address and, at 8, number.  The loop has nothing that moves it to the next record.\<close>

partial_function (option) old_findLineNumber :: "memory \<Rightarrow> ptr \<Rightarrow> 64 word \<Rightarrow> buffer \<Rightarrow> buffer option" where
  "old_findLineNumber m line rip backtrace =
     (if line \<noteq> 0 \<and> load 8 m line \<noteq> 0 then
        if sint (load 8 m line) \<le> sint rip then
          Some (append_all [Append_Pc '': '', Append_i (load 8 m (line + 8)), Append_c newline] backtrace)
        else old_findLineNumber m line rip backtrace
      else Some (append_all [Append_c newline] backtrace))"

text \<open>A record of a method: start, end at 8, name at 16, line records at 24, flags at 32; 40 bytes in all.\<close>

definition in_method :: "memory \<Rightarrow> 64 word \<Rightarrow> ptr \<Rightarrow> bool" where
  "in_method m rip p \<longleftrightarrow> sint (load 8 m p) \<le> sint rip \<and> sint rip < sint (load 8 m (p + 8))"

partial_function (option) old_find_loop :: "memory \<Rightarrow> ptr \<Rightarrow> 64 word \<Rightarrow> buffer \<Rightarrow> (ptr \<times> buffer) option" where
  "old_find_loop m p rip backtrace =
     (if load 8 m p \<noteq> 0 then
        if in_method m rip p then
          map_option (Pair p)
            (old_findLineNumber m (load 8 m (p + 24)) rip
              (append_all [Append_c (CHR 0x09), Append_name (load 8 m (p + 16))] backtrace))
        else old_find_loop m (p + 40) rip backtrace
      else Some (0, backtrace))"

definition old_findUnwindInfo :: "memory \<Rightarrow> ptr \<Rightarrow> 64 word \<Rightarrow> buffer \<Rightarrow> (ptr \<times> buffer) option" where
  "old_findUnwindInfo m unwind_start rip backtrace = old_find_loop m unwind_start rip backtrace"

section \<open>Frames\<close>

record old_registers =
  old_r8 :: "64 word"
  old_r9 :: "64 word"
  old_r10 :: "64 word"
  old_r11 :: "64 word"
  old_r12 :: "64 word"
  old_r13 :: "64 word"
  old_r14 :: "64 word"
  old_r15 :: "64 word"
  old_rdi :: "64 word"
  old_rsi :: "64 word"
  old_rbp :: "64 word"
  old_rbx :: "64 word"
  old_rdx :: "64 word"
  old_rax :: "64 word"
  old_rcx :: "64 word"
  old_rsp :: "64 word"
  old_rflags :: "64 word"

definition old_clearRegisters :: old_registers where
  "old_clearRegisters = \<lparr>old_r8 = 0, old_r9 = 0, old_r10 = 0, old_r11 = 0, old_r12 = 0, old_r13 = 0, old_r14 = 0,
     old_r15 = 0, old_rdi = 0, old_rsi = 0, old_rbp = 0, old_rbx = 0, old_rdx = 0, old_rax = 0, old_rcx = 0, old_rsp = 0,
     old_rflags = 0\<rparr>"

definition old_unwindFrame :: "memory \<Rightarrow> ptr \<Rightarrow> 32 word \<Rightarrow> old_registers \<Rightarrow> old_registers" where
  "old_unwindFrame m rbp flags r =
     (let stack = rbp;
          r = r\<lparr>old_rbp := load 8 m stack\<rparr>;
          (stack, r) = (if flags AND M_RBX \<noteq> 0 then (stack - 8, r\<lparr>old_rbx := load 8 m (stack - 8)\<rparr>) else (stack, r));
          (stack, r) = (if flags AND M_R12 \<noteq> 0 then (stack - 8, r\<lparr>old_r12 := load 8 m (stack - 8)\<rparr>) else (stack, r));
          (stack, r) = (if flags AND M_R13 \<noteq> 0 then (stack - 8, r\<lparr>old_r13 := load 8 m (stack - 8)\<rparr>) else (stack, r));
          (stack, r) = (if flags AND M_R14 \<noteq> 0 then (stack - 8, r\<lparr>old_r14 := load 8 m (stack - 8)\<rparr>) else (stack, r));
          (stack, r) = (if flags AND M_R15 \<noteq> 0 then (stack - 8, r\<lparr>old_r15 := load 8 m (stack - 8)\<rparr>) else (stack, r))
      in r)"

text \<open>One frame, of the method with record \<open>u\<close>.\<close>

definition old_frame ::
  "memory \<Rightarrow> 64 word \<Rightarrow> ptr \<Rightarrow> ptr \<Rightarrow> bool \<times> old_registers \<times> buffer \<Rightarrow> bool \<times> old_registers \<times> buffer" where
  "old_frame m stop_at_rip rbp u = (\<lambda>(found_frame, regs, backtrace).
     if u = 0 then (found_frame, regs, backtrace)
     else
       (let stop = (stop_at_rip = load 8 m u);
            backtrace = (if stop then append_all [Append_Pc (''(handled)'' @ [newline])] backtrace else backtrace);
            found_frame = (found_frame \<or> stop)
        in (found_frame,
            if found_frame then regs else old_unwindFrame m rbp (ucast (load 8 m (u + 32))) regs,
            backtrace)))"

partial_function (option) old_unwind_loop ::
  "memory \<Rightarrow> ptr \<Rightarrow> 64 word \<Rightarrow> ptr \<Rightarrow> 64 word \<Rightarrow> bool \<times> old_registers \<times> buffer \<Rightarrow> (bool \<times> old_registers \<times> buffer) option" where
  "old_unwind_loop m unwind_start stop_at_rip rbp rip s =
     (if rbp \<noteq> 0 then
        (case old_findUnwindInfo m unwind_start rip (snd (snd s)) of
           None \<Rightarrow> None
         | Some (u, backtrace) \<Rightarrow>
             if u = 0 \<and> backtrace \<noteq> None then
               Some (fst s, fst (snd s), append_all [Append_Pc ([CHR 0x09] @ ''unknown'' @ [newline])] backtrace)
             else
               old_unwind_loop m unwind_start stop_at_rip (load 8 m rbp)
                 (if load 8 m rbp \<noteq> 0 then load 8 m (rbp + 8) else rip)
                 (old_frame m stop_at_rip rbp u (fst s, fst (snd s), backtrace)))
      else Some s)"

definition old_unwindStack ::
  "memory \<Rightarrow> ptr \<Rightarrow> ptr \<Rightarrow> 64 word \<Rightarrow> 64 word \<Rightarrow> buffer \<Rightarrow> (bool \<times> old_registers \<times> buffer) option" where
  "old_unwindStack m unwind_start rbp rip stop_at_rip backtrace =
     old_unwind_loop m unwind_start stop_at_rip rbp rip (False, old_clearRegisters, backtrace)"

section \<open>Throwing\<close>

text \<open>
  How a throw ends: in the call of a handler's function, with the text of the backtrace for an exception nothing
  catches (made by calling the string buffer's method on null for other throws), without a handler of the method,
  with a message about a record or a \<^verbatim>\<open>THROW_STOP\<close>, or in a function that returns no value.  After every one the
  program exits with status 1.
\<close>

datatype throw_end =
    Catch "64 word" ptr ptr old_registers buffer
  | Not_caught buffer
  | No_method_handler
  | Unexpected_record "64 word"
  | Stop_thrown ptr
  | No_value

text \<open>\<^verbatim>\<open>catchException\<close>; it never returns.\<close>

definition catchException ::
  "memory \<Rightarrow> ptr \<Rightarrow> 64 word \<Rightarrow> ptr \<Rightarrow> ptr \<Rightarrow> ptr \<Rightarrow> 64 word \<Rightarrow> throw_end option" where
  "catchException m unwind_start type e r rbp rip =
     (let backtrace = (if type = THROW_EXCEPTION then Some [] else None) in
      case (if r \<noteq> 0 then old_findMethodHandler m r else Some (Some 0)) of
        None \<Rightarrow> None
      | Some None \<Rightarrow> Some No_value
      | Some (Some h) \<Rightarrow>
          if r \<noteq> 0 \<and> h = 0 then Some No_method_handler
          else
            (case old_unwindStack m unwind_start rbp rip (if r \<noteq> 0 then ex_catch m h else 0) backtrace of
               None \<Rightarrow> None
             | Some (found, regs, backtrace) \<Rightarrow>
                 Some (if found \<and> r \<noteq> 0 then Catch type e (ex_func m r) regs backtrace else Not_caught backtrace)))"

text \<open>
  \<^verbatim>\<open>tryCatch\<close>, with the types of the throws it prints a message about; it returns if there is no end.
\<close>

definition ends :: "throw_end option \<Rightarrow> (64 word list \<times> throw_end option) option" where
  "ends x = map_option (\<lambda>t. ([], Some t)) x"

definition tryCatch ::
  "memory \<Rightarrow> ptr \<Rightarrow> 64 word \<Rightarrow> ptr \<Rightarrow> ptr \<Rightarrow> ptr \<Rightarrow> 64 word \<Rightarrow> (64 word list \<times> throw_end option) option" where
  "tryCatch m unwind_start type e r rbp rip =
     (let w = old_getCatchVTable m r in
      if type = THROW_RETURN then
        if ex_type m r = CATCH_RETURN then ends (catchException m unwind_start type e r rbp rip)
        else if ex_type m r = CATCH_FINALLY then ends (catchException m unwind_start type e r rbp rip)
        else if ex_type m r = CATCH_EXCEPTION then Some ([], None)
        else Some ([], Some (Unexpected_record (ex_type m r)))
      else if type = THROW_EXCEPTION then
        (let v = (if e \<noteq> 0 then old_getObjectVTable m e else 0) in
         if ex_type m r = CATCH_RETURN then ends (catchException m unwind_start type e r rbp rip)
         else if ex_type m r = CATCH_FINALLY then ends (catchException m unwind_start type e r rbp rip)
         else if ex_type m r = CATCH_EXCEPTION then
           (case old_catches m w v of
              None \<Rightarrow> None
            | Some b \<Rightarrow> if b then ends (catchException m unwind_start type e r rbp rip) else Some ([], None))
         else Some ([], Some (Unexpected_record (ex_type m r))))
      else if type = THROW_FINALLY then
        if ex_type m r = CATCH_RETURN then ends (catchException m unwind_start THROW_STOP 0 r rbp rip)
        else if ex_type m r = CATCH_FINALLY then ends (catchException m unwind_start THROW_STOP 0 r rbp rip)
        else if ex_type m r = CATCH_EXCEPTION then Some ([], None)
        else Some ([], Some (Unexpected_record (ex_type m r)))
      else if type = THROW_STOP then Some ([], Some (Stop_thrown e))
      else Some ([type], None))"

partial_function (option) findCatch ::
  "memory \<Rightarrow> ptr \<Rightarrow> 64 word \<Rightarrow> ptr \<Rightarrow> ptr \<Rightarrow> ptr \<Rightarrow> 64 word \<Rightarrow> 64 word list \<Rightarrow> (64 word list \<times> throw_end option) option" where
  "findCatch m unwind_start type e r rbp rip out =
     (if r \<noteq> 0 then
        (case tryCatch m unwind_start type e r rbp rip of
           None \<Rightarrow> None
         | Some (out', Some t) \<Rightarrow> Some (out @ out', Some t)
         | Some (out', None) \<Rightarrow>
             (case old_nextExRecord m r of
                None \<Rightarrow> Some (out @ out', Some No_value)
              | Some r \<Rightarrow> findCatch m unwind_start type e r rbp rip (out @ out')))
      else Some (out, None))"

definition old_throw ::
  "memory \<Rightarrow> ptr \<Rightarrow> ptr \<Rightarrow> 64 word \<Rightarrow> ptr \<Rightarrow> ptr \<Rightarrow> 64 word \<Rightarrow> (64 word list \<times> throw_end) option" where
  "old_throw m unwind_start exception_top type e rbp rip =
     (case findCatch m unwind_start type e exception_top rbp rip [] of
        None \<Rightarrow> None
      | Some (out, Some t) \<Rightarrow> Some (out, t)
      | Some (out, None) \<Rightarrow> map_option (Pair out) (catchException m unwind_start type e 0 rbp rip))"

section \<open>The classes agree with those of the later unwinder\<close>

lemma old_classes:
  "old_shiftVTable = shiftVTable" "old_getObjectVTable = getObjectVTable" "old_getSuperVTable = getSuperVTable"
  "old_getCatchVTable = getCatchVTable"
  by (simp_all add: fun_eq_iff old_shiftVTable_def shiftVTable_def old_getObjectVTable_def getObjectVTable_def
      old_getSuperVTable_def getSuperVTable_def old_getCatchVTable_def getCatchVTable_def)

lemma old_catches_chain:
  "class_chain m e vs \<Longrightarrow> vs \<noteq> [] \<or> c \<noteq> 0 \<Longrightarrow> old_catches m c e = Some (c \<in> set vs)"
proof (induction vs arbitrary: e)
  case Nil
  then show ?case by (subst old_catches.simps) simp
next
  case (Cons v vs)
  have e: "v = e" "e \<noteq> 0" "class_chain m (old_getSuperVTable m e) vs" using Cons.prems(1) by (simp_all add: old_classes)
  have "0 \<notin> set xs" if "class_chain m x xs" for x xs using that by (induction xs arbitrary: x) auto
  with e show ?case using Cons.IH [OF e(3)] by (subst old_catches.simps) auto
qed

section \<open>The line search\<close>

text \<open>The lines an address has: none, or the first record says which; or the search of it does not end.\<close>

definition line_ready :: "memory \<Rightarrow> ptr \<Rightarrow> 64 word \<Rightarrow> bool" where
  "line_ready m l rip \<longleftrightarrow> l = 0 \<or> load 8 m l = 0 \<or> sint (load 8 m l) \<le> sint rip"

definition line_text :: "memory \<Rightarrow> ptr \<Rightarrow> appended list" where
  "line_text m l =
     (if l = 0 \<or> load 8 m l = 0 then [Append_c newline] else [Append_Pc '': '', Append_i (load 8 m (l + 8)), Append_c newline])"

lemma findLineNumber_ready:
  "line_ready m l rip \<Longrightarrow> old_findLineNumber m l rip bt = Some (append_all (line_text m l) bt)"
  by (subst old_findLineNumber.simps) (auto simp: line_ready_def line_text_def)

lemma findLineNumber_stuck: "\<not> line_ready m l rip \<Longrightarrow> old_findLineNumber m l rip bt = None"
proof -
  assume n: "\<not> line_ready m l rip"
  have "line_ready m l rip" if "old_findLineNumber m l rip bt = Some y" for y
    by (rule old_findLineNumber.raw_induct [where P = "\<lambda>m l rip bt y. line_ready m l rip", OF _ that])
      (fastforce simp: line_ready_def split: if_split_asm)
  with n show ?thesis by (cases "old_findLineNumber m l rip bt") auto
qed

section \<open>The table of methods\<close>

text \<open>The records of the table at \<open>p\<close>, up to the one with start 0, and the record of an address.\<close>

fun method_table :: "memory \<Rightarrow> ptr \<Rightarrow> ptr list \<Rightarrow> bool" where
  "method_table m p [] \<longleftrightarrow> load 8 m p = 0"
| "method_table m p (u # us) \<longleftrightarrow> u = p \<and> load 8 m p \<noteq> 0 \<and> method_table m (p + 40) us"

definition method_at :: "memory \<Rightarrow> ptr list \<Rightarrow> 64 word \<Rightarrow> ptr" where
  "method_at m us rip = (case find (in_method m rip) us of None \<Rightarrow> 0 | Some u \<Rightarrow> u)"

definition method_lines :: "memory \<Rightarrow> ptr \<Rightarrow> ptr" where "method_lines m u = load 8 m (u + 24)"

lemma find_loop_method:
  "method_table m p us \<Longrightarrow> old_find_loop m p rip bt = (case find (in_method m rip) us of
     None \<Rightarrow> Some (0, bt)
   | Some u \<Rightarrow> map_option (Pair u) (old_findLineNumber m (method_lines m u) rip
       (append_all [Append_c (CHR 0x09), Append_name (load 8 m (u + 16))] bt)))"
proof (induction us arbitrary: p)
  case Nil
  then show ?case by (subst old_find_loop.simps) simp
next
  case (Cons u us)
  then have "load 8 m p \<noteq> 0" "u = p" "method_table m (p + 40) us" by simp_all
  with Cons.IH show ?case by (subst old_find_loop.simps) (simp add: method_lines_def)
qed

lemma append_all_append [simp]: "append_all ys (append_all xs b) = append_all (xs @ ys) b"
  by (cases b) (simp_all add: append_all_def)

lemma append_all_None [simp]: "append_all xs None = None"
  by (simp add: append_all_def)

lemma append_all_Nil [simp]: "append_all [] b = b"
  by (cases b) (simp_all add: append_all_def)

lemma append_all_eq_None [simp]: "append_all xs b = None \<longleftrightarrow> b = None"
  by (simp add: append_all_def)

definition method_text :: "memory \<Rightarrow> ptr \<Rightarrow> appended list" where
  "method_text m u = [Append_c (CHR 0x09), Append_name (load 8 m (u + 16))] @ line_text m (method_lines m u)"

lemma findUnwindInfo_known:
  assumes "method_table m start us" and "method_at m us rip \<noteq> 0" and "line_ready m (method_lines m (method_at m us rip)) rip"
  shows "old_findUnwindInfo m start rip bt = Some (method_at m us rip, append_all (method_text m (method_at m us rip)) bt)"
  using assms(2,3) by (auto simp: old_findUnwindInfo_def find_loop_method [OF assms(1)] method_at_def findLineNumber_ready
      method_text_def split: option.splits)

lemma findUnwindInfo_stuck:
  assumes "method_table m start us" and "method_at m us rip \<noteq> 0" and "\<not> line_ready m (method_lines m (method_at m us rip)) rip"
  shows "old_findUnwindInfo m start rip bt = None"
  using assms(2,3) by (auto simp: old_findUnwindInfo_def find_loop_method [OF assms(1)] method_at_def findLineNumber_stuck
      split: option.splits)

section \<open>The frames\<close>

definition old_above :: "memory \<Rightarrow> ptr list \<Rightarrow> 64 word \<Rightarrow> (ptr \<times> 64 word) list \<Rightarrow> (ptr \<times> 64 word) list" where
  "old_above m us stop fs = takeWhile (\<lambda>f. load 8 m (method_at m us (snd f)) \<noteq> stop) fs"

definition old_restored :: "memory \<Rightarrow> ptr list \<Rightarrow> (ptr \<times> 64 word) list \<Rightarrow> old_registers \<Rightarrow> old_registers" where
  "old_restored m us fs r = fold (\<lambda>f. old_unwindFrame m (fst f) (ucast (load 8 m (method_at m us (snd f) + 32)))) fs r"

text \<open>The frames with the flags of their methods, which say what each has saved.\<close>

definition old_flags_of :: "memory \<Rightarrow> ptr list \<Rightarrow> (ptr \<times> 64 word) list \<Rightarrow> (ptr \<times> 32 word) list" where
  "old_flags_of m us fs = map (\<lambda>f. (fst f, ucast (load 8 m (method_at m us (snd f) + 32)))) fs"

lemma old_unwindFrame_registers:
  "old_unwindFrame m rbp flags r = r\<lparr>old_rbp := load 8 m rbp,
     old_rbx := (if bit flags 2 then load 8 m (slot rbp flags 2) else old_rbx r),
     old_r12 := (if bit flags 13 then load 8 m (slot rbp flags 13) else old_r12 r),
     old_r13 := (if bit flags 14 then load 8 m (slot rbp flags 14) else old_r13 r),
     old_r14 := (if bit flags 15 then load 8 m (slot rbp flags 15) else old_r14 r),
     old_r15 := (if bit flags 16 then load 8 m (slot rbp flags 16) else old_r15 r)\<rparr>"
  unfolding old_unwindFrame_def flag_bits slot_def saved_bits_def Let_def
  by (cases "bit flags 2"; cases "bit flags 13"; cases "bit flags 14"; cases "bit flags 15"; cases "bit flags 16") simp_all

lemma old_restored_registers:
  "old_restored m us fs old_clearRegisters =
     \<lparr>old_r8 = 0, old_r9 = 0, old_r10 = 0, old_r11 = 0, old_r12 = saved_word m (old_flags_of m us fs) 13,
      old_r13 = saved_word m (old_flags_of m us fs) 14, old_r14 = saved_word m (old_flags_of m us fs) 15,
      old_r15 = saved_word m (old_flags_of m us fs) 16, old_rdi = 0, old_rsi = 0, old_rbp = saved_rbp m (old_flags_of m us fs),
      old_rbx = saved_word m (old_flags_of m us fs) 2, old_rdx = 0, old_rax = 0, old_rcx = 0, old_rsp = 0, old_rflags = 0\<rparr>"
proof (induction fs rule: rev_induct)
  case Nil
  then show ?case by (simp add: old_restored_def old_flags_of_def old_clearRegisters_def)
next
  case (snoc f fs)
  have "old_restored m us (fs @ [f]) old_clearRegisters =
      old_unwindFrame m (fst f) (ucast (load 8 m (method_at m us (snd f) + 32))) (old_restored m us fs old_clearRegisters)"
    by (simp add: old_restored_def)
  then show ?case by (simp add: old_unwindFrame_registers snoc.IH) (simp add: old_flags_of_def)
qed

definition frame_text :: "memory \<Rightarrow> ptr list \<Rightarrow> 64 word \<Rightarrow> ptr \<times> 64 word \<Rightarrow> appended list" where
  "frame_text m us stop f = method_text m (method_at m us (snd f)) @
     (if load 8 m (method_at m us (snd f)) = stop then [Append_Pc (''(handled)'' @ [newline])] else [])"

definition frame_known :: "memory \<Rightarrow> ptr list \<Rightarrow> ptr \<times> 64 word \<Rightarrow> bool" where
  "frame_known m us f \<longleftrightarrow> method_at m us (snd f) \<noteq> 0 \<and> line_ready m (method_lines m (method_at m us (snd f))) (snd f)"

lemma old_unwind_loop_frames:
  assumes t: "method_table m start us"
  shows "frame_chain m rbp rip fs \<Longrightarrow> list_all (frame_known m us) fs \<Longrightarrow>
    old_unwind_loop m start stop rbp rip (found, regs, bt) =
      Some (found \<or> old_above m us stop fs \<noteq> fs, if found then regs else old_restored m us (old_above m us stop fs) regs,
        append_all (concat (map (frame_text m us stop) fs)) bt)"
proof (induction fs arbitrary: rbp rip found regs bt)
  case Nil
  then show ?case
    by (subst old_unwind_loop.simps) (simp add: old_above_def old_restored_def)
next
  case (Cons f fs)
  let ?u = "method_at m us rip" and ?f = "found \<or> stop = load 8 m (method_at m us rip)"
  have f: "f = (rbp, rip)" "rbp \<noteq> 0" "frame_chain m (load 8 m rbp) (up_rip m rbp rip) fs" using Cons.prems(1) by auto
  have "frame_known m us f" "list_all (frame_known m us) fs" using Cons.prems(2) by simp_all
  then have k: "?u \<noteq> 0" "line_ready m (method_lines m ?u) rip" "list_all (frame_known m us) fs"
    by (simp_all only: f(1) frame_known_def snd_conv simp_thms)
  let ?r = "if ?f then regs else old_unwindFrame m rbp (ucast (load 8 m (?u + 32))) regs"
  have frame: "old_frame m stop rbp ?u (found, regs, append_all (method_text m ?u) bt) = (?f, ?r, append_all (frame_text m us stop f) bt)"
    using k(1) by (auto simp: old_frame_def frame_text_def f(1) Let_def)
  have "old_unwind_loop m start stop rbp rip (found, regs, bt) =
      old_unwind_loop m start stop (load 8 m rbp) (up_rip m rbp rip) (?f, ?r, append_all (frame_text m us stop f) bt)"
    by (subst old_unwind_loop.simps) (simp add: f(2) findUnwindInfo_known [OF t k(1,2)] k(1) frame up_rip_def)
  then show ?case using Cons.IH [OF f(3) k(3)]
    by (auto simp: old_above_def old_restored_def f(1))
qed

lemma old_unwind_loop_stuck:
  assumes t: "method_table m start us"
  shows "frame_chain m rbp rip fs \<Longrightarrow> list_all (\<lambda>f. method_at m us (snd f) \<noteq> 0) fs \<Longrightarrow> \<not> list_all (frame_known m us) fs \<Longrightarrow>
    old_unwind_loop m start stop rbp rip s = None"
proof (induction fs arbitrary: rbp rip s)
  case (Cons f fs)
  let ?u = "method_at m us rip"
  have f: "f = (rbp, rip)" "rbp \<noteq> 0" "frame_chain m (load 8 m rbp) (up_rip m rbp rip) fs" using Cons.prems(1) by auto
  have u: "?u \<noteq> 0" "list_all (\<lambda>f. method_at m us (snd f) \<noteq> 0) fs" using Cons.prems(2) by (simp_all add: f(1))
  show ?case
  proof (cases "line_ready m (method_lines m ?u) rip")
    case False
    show ?thesis by (subst old_unwind_loop.simps) (simp add: f(2) findUnwindInfo_stuck [OF t u(1) False])
  next
    case True
    then have "frame_known m us f" using u(1) by (simp only: frame_known_def f(1) snd_conv simp_thms)
    then have "\<not> list_all (frame_known m us) fs" using Cons.prems(3) by simp
    from Cons.IH [OF f(3) u(2) this] show ?thesis
      by (subst old_unwind_loop.simps) (simp add: f(2) findUnwindInfo_known [OF t u(1) True] u(1) up_rip_def)
  qed
qed simp

section \<open>Who takes a throw\<close>

text \<open>The records from \<open>r\<close> on up to, and without, \<open>h\<close>.\<close>

fun record_chain :: "memory \<Rightarrow> ptr \<Rightarrow> ptr list \<Rightarrow> ptr \<Rightarrow> bool" where
  "record_chain m r [] h \<longleftrightarrow> r = h"
| "record_chain m r (x # xs) h \<longleftrightarrow> x = r \<and> r \<noteq> 0 \<and>
     (case old_nextExRecord m r of None \<Rightarrow> False | Some r \<Rightarrow> record_chain m r xs h)"

text \<open>
  A record for a return or a finally block takes every throw; one for exceptions takes those of its class or a
  class below.  A throw at the end of a handler is delivered as \<^verbatim>\<open>THROW_STOP\<close>.
\<close>

definition takes :: "memory \<Rightarrow> 64 word \<Rightarrow> ptr list \<Rightarrow> ptr \<Rightarrow> bool" where
  "takes m type vs r \<longleftrightarrow> ex_type m r \<noteq> CATCH_EXCEPTION \<or> type = THROW_EXCEPTION \<and> old_getCatchVTable m r \<in> set vs"

definition delivered :: "64 word \<Rightarrow> ptr \<Rightarrow> 64 word \<times> ptr" where
  "delivered type e = (if type = THROW_FINALLY then (THROW_STOP, 0) else (type, e))"

text \<open>The classes \<open>vs\<close> of what is thrown, if it is an exception.\<close>

definition thrown :: "memory \<Rightarrow> 64 word \<Rightarrow> ptr \<Rightarrow> ptr list \<Rightarrow> bool" where
  "thrown m type e vs \<longleftrightarrow> type = THROW_RETURN \<or> type = THROW_FINALLY \<or>
     type = THROW_EXCEPTION \<and> vs \<noteq> [] \<and> class_chain m (old_getObjectVTable m e) vs"

text \<open>\<open>h\<close> is the first record from \<open>r\<close> on that takes the throw, \<open>mh\<close> the first from \<open>h\<close> on of a method.\<close>

definition handler_of :: "memory \<Rightarrow> 64 word \<Rightarrow> ptr list \<Rightarrow> ptr \<Rightarrow> ptr list \<Rightarrow> ptr \<Rightarrow> bool" where
  "handler_of m type vs r hs h \<longleftrightarrow> record_chain m r hs h \<and> list_all (\<lambda>x. \<not> takes m type vs x) hs \<and>
     h \<noteq> 0 \<and> takes m type vs h \<and> ex_type m h \<in> {CATCH_RETURN, CATCH_FINALLY, CATCH_EXCEPTION}"

definition method_handler :: "memory \<Rightarrow> ptr \<Rightarrow> ptr list \<Rightarrow> ptr \<Rightarrow> bool" where
  "method_handler m h gs mh \<longleftrightarrow> record_chain m h gs mh \<and> list_all (\<lambda>x. ex_type m x \<noteq> CATCH_RETURN) gs \<and>
     mh \<noteq> 0 \<and> ex_type m mh = CATCH_RETURN"

lemma findMethodHandler_first:
  "record_chain m h gs mh \<Longrightarrow> list_all (\<lambda>x. ex_type m x \<noteq> CATCH_RETURN) gs \<Longrightarrow> mh \<noteq> 0 \<Longrightarrow> ex_type m mh = CATCH_RETURN \<Longrightarrow>
   old_findMethodHandler m h = Some (Some mh)"
proof (induction gs arbitrary: h)
  case Nil
  then show ?case by (subst old_findMethodHandler.simps) simp
next
  case (Cons x xs)
  then show ?case by (subst old_findMethodHandler.simps) (auto split: option.splits)
qed

lemma catches_thrown:
  "thrown m type e vs \<Longrightarrow> type = THROW_EXCEPTION \<Longrightarrow>
   old_catches m c (if e \<noteq> 0 then old_getObjectVTable m e else 0) = Some (c \<in> set vs)"
  using old_catches_chain [of m "old_getObjectVTable m e" vs c]
  by (auto simp: thrown_def throw_types old_getObjectVTable_def split: if_splits)

lemma tryCatch_taken:
  assumes "thrown m type e vs" and "takes m type vs r" and "ex_type m r \<in> {CATCH_RETURN, CATCH_FINALLY, CATCH_EXCEPTION}"
  shows "tryCatch m start type e r rbp rip =
    ends (catchException m start (fst (delivered type e)) (snd (delivered type e)) r rbp rip)"
proof -
  from assms(1) consider "type = THROW_RETURN" | "type = THROW_FINALLY" | "type = THROW_EXCEPTION" by (auto simp: thrown_def)
  then show ?thesis
  proof cases
    case 3
    from assms(2,3) show ?thesis
      unfolding tryCatch_def Let_def catches_thrown [OF assms(1) 3, of "old_getCatchVTable m r"]
      by (auto simp: 3 throw_types record_types takes_def delivered_def)
  qed (use assms(2,3) in \<open>auto simp: tryCatch_def throw_types record_types takes_def delivered_def\<close>)
qed

lemma tryCatch_passed:
  assumes "thrown m type e vs" and "\<not> takes m type vs r"
  shows "tryCatch m start type e r rbp rip = Some ([], None)"
proof -
  from assms(1) consider "type = THROW_RETURN" | "type = THROW_FINALLY" | "type = THROW_EXCEPTION" by (auto simp: thrown_def)
  then show ?thesis
  proof cases
    case 3
    from assms(2) show ?thesis
      unfolding tryCatch_def Let_def catches_thrown [OF assms(1) 3, of "old_getCatchVTable m r"]
      by (auto simp: 3 throw_types record_types takes_def)
  qed (use assms(2) in \<open>auto simp: tryCatch_def throw_types record_types takes_def\<close>)
qed

lemma findCatch_handler:
  assumes T: "thrown m type e vs" and h: "h \<noteq> 0" "takes m type vs h" "ex_type m h \<in> {CATCH_RETURN, CATCH_FINALLY, CATCH_EXCEPTION}"
  shows "record_chain m r hs h \<Longrightarrow> list_all (\<lambda>x. \<not> takes m type vs x) hs \<Longrightarrow>
    findCatch m start type e r rbp rip out =
      map_option (\<lambda>t. (out, Some t)) (catchException m start (fst (delivered type e)) (snd (delivered type e)) h rbp rip)"
proof (induction hs arbitrary: r)
  case Nil
  then have r: "r = h" by simp
  show ?case unfolding r by (subst findCatch.simps)
    (auto simp: h(1) tryCatch_taken [OF T h(2,3)] ends_def split: option.splits)
next
  case (Cons x xs)
  then obtain r' where r': "x = r" "r \<noteq> 0" "old_nextExRecord m r = Some r'" "record_chain m r' xs h"
    by (auto split: option.splits)
  have "\<not> takes m type vs r" using Cons.prems(2) r'(1) by simp
  from tryCatch_passed [OF T this] Cons.IH [OF r'(4)] Cons.prems(2) r'(2,3) show ?case
    by (subst findCatch.simps) simp
qed

lemma throw_handled:
  assumes "thrown m type e vs" and "handler_of m type vs r hs h"
  shows "old_throw m start r type e rbp rip =
    map_option (Pair []) (catchException m start (fst (delivered type e)) (snd (delivered type e)) h rbp rip)"
  using assms(2) findCatch_handler [OF assms(1), of h r hs start rbp rip "[]"]
  by (auto simp: old_throw_def handler_of_def split: option.splits)

lemma catch_in_method:
  assumes "h \<noteq> 0" and "method_handler m h gs mh"
  shows "catchException m start type e h rbp rip =
    map_option (\<lambda>(found, regs, bt). if found then Catch type e (ex_func m h) regs bt else Not_caught bt)
      (old_unwindStack m start rbp rip (ex_catch m mh) (if type = THROW_EXCEPTION then Some [] else None))"
  using assms(2) findMethodHandler_first [of m h gs mh]
  by (auto simp: catchException_def assms(1) method_handler_def split: option.splits)

text \<open>
  C14: Let a return, an exception or the end of a handler be thrown, where the first record of the chain that takes
  it belongs to a method with a frame on the stack, and let the methods of all frames be in the table with line
  records that do not stop the search.  Then \<^verbatim>\<open>__throw\<close> calls the function of this record, with the frame pointer that
  the last frame above its method has saved; in each of \<^verbatim>\<open>rbx\<close> and \<^verbatim>\<open>r12\<close> to \<^verbatim>\<open>r15\<close> with the word that the last of
  these frames whose method saves this register holds for it, and 0 if none does; with 0 in the other registers, and
  for an exception with a backtrace of all frames.
\<close>

theorem throw_reaches_handler:
  assumes "thrown m type e vs" and "handler_of m type vs r hs h" and "method_handler m h gs mh"
    and "method_table m start us" and "frame_chain m rbp rip fs" and "list_all (frame_known m us) fs"
    and "list_ex (\<lambda>f. load 8 m (method_at m us (snd f)) = ex_catch m mh) fs"
  shows "let frames = old_flags_of m us (old_above m us (ex_catch m mh) fs) in
    old_throw m start r type e rbp rip =
      Some ([], Catch (fst (delivered type e)) (snd (delivered type e)) (ex_func m h)
        \<lparr>old_r8 = 0, old_r9 = 0, old_r10 = 0, old_r11 = 0, old_r12 = saved_word m frames 13,
         old_r13 = saved_word m frames 14, old_r14 = saved_word m frames 15, old_r15 = saved_word m frames 16,
         old_rdi = 0, old_rsi = 0, old_rbp = saved_rbp m frames, old_rbx = saved_word m frames 2,
         old_rdx = 0, old_rax = 0, old_rcx = 0, old_rsp = 0, old_rflags = 0\<rparr>
        (if type = THROW_EXCEPTION then Some (concat (map (frame_text m us (ex_catch m mh)) fs)) else None))"
proof -
  have h: "h \<noteq> 0" using assms(2) by (simp add: handler_of_def)
  have found: "old_above m us (ex_catch m mh) fs \<noteq> fs"
    using assms(7) by (auto simp: old_above_def takeWhile_eq_all_conv list_ex_iff)
  have "(fst (delivered type e) = THROW_EXCEPTION) = (type = THROW_EXCEPTION)" by (simp add: delivered_def throw_types)
  with found show ?thesis
    by (simp add: throw_handled [OF assms(1,2)] catch_in_method [OF h assms(3)] old_unwindStack_def
        old_unwind_loop_frames [OF assms(4-6)] append_all_def Let_def old_restored_registers)
qed

text \<open>Two records for exceptions and one for a return; the methods and the frames of \<^verbatim>\<open>f\<close> and \<^verbatim>\<open>g\<close>.\<close>

definition throw_bytes :: "8 word \<Rightarrow> (ptr \<times> 8 word) list" where
  "throw_bytes b =
    [(0x2000, b), (0x2001, 0x11), (0x2008, 7),
     (0x3001, 0x10), (0x3009, 0x11), (0x3011, 0x60), (0x3020, 4), (0x3021, 0x20),
     (0x3029, 0x11), (0x3030, 0x80), (0x3031, 0x11), (0x3038, 0x10), (0x3039, 0x60), (0x3041, 0x20),
     (0x4000, 2), (0x4008, 0x18), (0x4009, 0x52),
     (0x4020, 2), (0x4028, 0x18), (0x4029, 0x51), (0x4030, 0x10), (0x4031, 0x12), (0x4049, 0x11),
     (0x5000, 0x18), (0x5001, 0x51),
     (0x6FF0, 7), (0x6FF8, 42), (0x7000, 0x40), (0x7001, 0x70), (0x7008, 0x20), (0x7009, 0x11)]"

definition throw_memory :: "8 word \<Rightarrow> memory" where
  "throw_memory b a = (case map_of (throw_bytes b) a of None \<Rightarrow> 0 | Some x \<Rightarrow> x)"

lemma sample_loads:
  "load 8 (throw_memory b) 0x3000 = 0x1000" "load 8 (throw_memory b) 0x3008 = 0x1100" "load 8 (throw_memory b) 0x3010 = 0x6000"
  "load 8 (throw_memory b) 0x3018 = 0" "load 8 (throw_memory b) 0x3020 = 0x2004" "load 8 (throw_memory b) 0x3028 = 0x1100"
  "load 8 (throw_memory b) 0x3030 = 0x1180" "load 8 (throw_memory b) 0x3038 = 0x6010" "load 8 (throw_memory b) 0x3040 = 0x2000"
  "load 8 (throw_memory b) 0x3048 = 0" "load 8 (throw_memory b) 0x3050 = 0" "load 8 (throw_memory b) 0x4000 = 2"
  "load 8 (throw_memory b) 0x4008 = 0x5218" "load 8 (throw_memory b) 0x4018 = 0" "load 8 (throw_memory b) 0x4020 = 2"
  "load 8 (throw_memory b) 0x4028 = 0x5118" "load 8 (throw_memory b) 0x4030 = 0x1210" "load 8 (throw_memory b) 0x4038 = 0"
  "load 8 (throw_memory b) 0x4040 = 0" "load 8 (throw_memory b) 0x4048 = 0x1100" "load 8 (throw_memory b) 0x5000 = 0x5118"
  "load 8 (throw_memory b) 0x5118 = 0" "load 8 (throw_memory b) 0x6FF8 = 42" "load 8 (throw_memory b) 0x6FF0 = 7" "load 8 (throw_memory b) 0x7000 = 0x7040"
  "load 8 (throw_memory b) 0x7008 = 0x1120" "load 8 (throw_memory b) 0x7040 = 0" "load 8 (throw_memory b) 0x2008 = 7"
  by (simp_all add: load_8 throw_memory_def throw_bytes_def)

lemma sample_lines: "load 8 (throw_memory 0) 0x2000 = 0x1100" "load 8 (throw_memory 0x50) 0x2000 = 0x1150"
  by (simp_all add: load_8 throw_memory_def throw_bytes_def)

lemma sample_handlers:
  "thrown (throw_memory b) 4 0x5000 [0x5100]"
  "handler_of (throw_memory b) 4 [0x5100] 0x4000 [0x4000] 0x4020"
  "method_handler (throw_memory b) 0x4020 [0x4020] 0x4040"
  by (simp_all add: thrown_def handler_of_def method_handler_def takes_def record_types throw_types old_classes getObjectVTable_def
      getSuperVTable_def getCatchVTable_def shiftVTable_def old_nextExRecord_def ex_type_def ex_next_def sample_loads)

lemma sample_methods:
  "method_table (throw_memory b) 0x3000 [0x3000, 0x3028]"
  "frame_chain (throw_memory b) 0x7000 0x1010 [(0x7000, 0x1010), (0x7040, 0x1120)]"
  "method_at (throw_memory b) [0x3000, 0x3028] 0x1010 = 0x3000" "method_at (throw_memory b) [0x3000, 0x3028] 0x1120 = 0x3028"
  "method_lines (throw_memory b) 0x3000 = 0" "method_lines (throw_memory b) 0x3028 = 0x2000"
  by (simp_all add: up_rip_def method_at_def in_method_def method_lines_def sample_loads)

lemma throw_reaches_handler_witness:
  "old_throw (throw_memory 0) 0x3000 0x4000 4 0x5000 0x7000 0x1010 =
    Some ([], Catch 4 0x5000 0x1210 (old_clearRegisters\<lparr>old_rbp := 0x7040, old_rbx := 42, old_r12 := 7\<rparr>)
      (Some [Append_c (CHR 0x09), Append_name 0x6000, Append_c newline,
        Append_c (CHR 0x09), Append_name 0x6010, Append_Pc '': '', Append_i 7, Append_c newline,
        Append_Pc (''(handled)'' @ [newline])]))"
proof -
  let ?m = "throw_memory 0" and ?fs = "[(0x7000, 0x1010), (0x7040, 0x1120)] :: (ptr \<times> 64 word) list"
  have known: "list_all (frame_known ?m [0x3000, 0x3028]) ?fs"
    by (simp add: frame_known_def sample_methods line_ready_def sample_lines)
  have catch: "ex_catch ?m 0x4040 = 0x1100" "ex_func ?m 0x4020 = 0x1210" by (simp_all add: ex_catch_def ex_func_def sample_loads)
  then have stop: "list_ex (\<lambda>f. load 8 ?m (method_at ?m [0x3000, 0x3028] (snd f)) = ex_catch ?m 0x4040) ?fs"
    by (simp add: sample_methods sample_loads)
  have above: "old_above ?m [0x3000, 0x3028] 0x1100 ?fs = [(0x7000, 0x1010)]"
    by (simp add: old_above_def sample_methods sample_loads)
  have "ucast (0x2004 :: 64 word) = (0x2004 :: 32 word)" by simp
  then have "old_flags_of ?m [0x3000, 0x3028] [(0x7000, 0x1010)] = [(0x7000, 0x2004)]"
    by (simp add: old_flags_of_def sample_methods sample_loads)
  moreover have "saved_rbp ?m [(0x7000, 0x2004)] = 0x7040" "saved_word ?m [(0x7000, 0x2004)] 2 = 42" "saved_word ?m [(0x7000, 0x2004)] 13 = 7"
    "saved_word ?m [(0x7000, 0x2004)] 14 = 0" "saved_word ?m [(0x7000, 0x2004)] 15 = 0" "saved_word ?m [(0x7000, 0x2004)] 16 = 0"
    by (simp_all add: saved_rbp_def saved_word_def slot_def saved_bits_def sample_loads bit_numeral_rec)
  ultimately show ?thesis
    using throw_reaches_handler [OF sample_handlers sample_methods(1,2) known stop] above
    by (simp add: Let_def old_clearRegisters_def catch delivered_def throw_types frame_text_def method_text_def line_text_def
        sample_methods sample_loads sample_lines)
qed

text \<open>
  C27: But \<^verbatim>\<open>__throw\<close> does not end if the return address of some frame lies before the first line record of its
  method: \<^verbatim>\<open>findLineNumber\<close> looks at the first record only, again and again, and takes its line for any address
  behind it.
\<close>

theorem throw_hangs:
  assumes "thrown m type e vs" and "handler_of m type vs r hs h" and "method_handler m h gs mh"
    and "method_table m start us" and "frame_chain m rbp rip fs" and "list_all (\<lambda>f. method_at m us (snd f) \<noteq> 0) fs"
  shows "old_throw m start r type e rbp rip = None \<longleftrightarrow>
    list_ex (\<lambda>f. \<not> line_ready m (method_lines m (method_at m us (snd f))) (snd f)) fs"
proof -
  have h: "h \<noteq> 0" using assms(2) by (simp add: handler_of_def)
  have ex: "list_ex (\<lambda>f. \<not> line_ready m (method_lines m (method_at m us (snd f))) (snd f)) fs \<longleftrightarrow>
      \<not> list_all (frame_known m us) fs"
    using assms(6) by (auto simp: list_ex_iff list_all_iff frame_known_def)
  show ?thesis
    using old_unwind_loop_stuck [OF assms(4-6)] old_unwind_loop_frames [OF assms(4,5)]
    by (auto simp: throw_handled [OF assms(1,2)] catch_in_method [OF h assms(3)] old_unwindStack_def ex)
qed

lemma throw_hangs_witness: "old_throw (throw_memory 0x50) 0x3000 0x4000 4 0x5000 0x7000 0x1010 = None"
proof -
  let ?fs = "[(0x7000, 0x1010), (0x7040, 0x1120)] :: (ptr \<times> 64 word) list"
  have all: "list_all (\<lambda>f. method_at (throw_memory 0x50) [0x3000, 0x3028] (snd f) \<noteq> 0) ?fs" by (simp add: sample_methods)
  show ?thesis
    using throw_hangs [OF sample_handlers sample_methods(1,2) all] by (simp add: sample_methods line_ready_def sample_lines)
qed

end
