(* ===== verification/Cleanup.thy ===== *)
theory Cleanup
  imports Main
begin

text \<open>
  The clean-up of a function by the code generator, \<^verbatim>\<open>src/llvmc.cpp\<close>: blocks that nothing jumps to are deleted, one at
  a time, until there are none.  A function is the list of its blocks, each with the blocks its last instruction jumps
  to, the entry first.  \<^verbatim>\<open>DeleteDeadBlock\<close> is LLVM's, and a parameter; its documented behaviour is \<open>deletes\<close>.
\<close>

section \<open>The loop\<close>

type_synonym 'b cfg = "('b \<times> 'b list) list"

text \<open>The predecessors of a block, with a block as often as it jumps there.\<close>

definition predecessors :: "'b cfg \<Rightarrow> 'b \<Rightarrow> 'b list" where
  "predecessors f b = concat (map (\<lambda>(x, to). map (\<lambda>_. x) (filter (\<lambda>y. y = b) to)) f)"

text \<open>The scan of one round: the first block but the entry that has none.\<close>

definition first_dead :: "'b cfg \<Rightarrow> 'b option" where
  "first_dead f = map_option fst (find (\<lambda>(b, to). length (predecessors f b) = 0) (tl f))"

partial_function (option) LLVMCleanUpFunction :: "('b \<Rightarrow> 'b cfg \<Rightarrow> 'b cfg) \<Rightarrow> 'b cfg \<Rightarrow> 'b cfg option" where
  "LLVMCleanUpFunction DeleteDeadBlock f =
     (case first_dead f of
        None \<Rightarrow> Some f
      | Some b \<Rightarrow> LLVMCleanUpFunction DeleteDeadBlock (DeleteDeadBlock b f))"

section \<open>What stays\<close>

definition deletes :: "('b \<Rightarrow> 'b cfg \<Rightarrow> 'b cfg) \<Rightarrow> bool" where
  "deletes D \<longleftrightarrow> (\<forall>b f. predecessors f b = [] \<longrightarrow> D b f = filter (\<lambda>x. fst x \<noteq> b) f)"

definition blocks :: "'b cfg \<Rightarrow> 'b set" where "blocks f = fst ` set f"

definition jumps :: "'b cfg \<Rightarrow> ('b \<times> 'b) set" where
  "jumps f = {(x, b). b \<in> blocks f \<and> (\<exists>to. (x, to) \<in> set f \<and> b \<in> set to)}"

text \<open>A set of blocks each of which is the entry or has a predecessor in the set.\<close>

definition supported :: "'b cfg \<Rightarrow> 'b set \<Rightarrow> bool" where
  "supported f S \<longleftrightarrow> S \<subseteq> blocks f \<and> (\<forall>b \<in> S. b = fst (hd f) \<or> (\<exists>x \<in> S. (x, b) \<in> jumps f))"

lemma jumps_blocks: "jumps f \<subseteq> blocks f \<times> blocks f"
  by (force simp: jumps_def blocks_def)

lemma predecessors_empty: "b \<in> blocks f \<Longrightarrow> predecessors f b = [] \<longleftrightarrow> (\<forall>x. (x, b) \<notin> jumps f)"
  by (fastforce simp: predecessors_def jumps_def filter_empty_conv)

lemma find_in: "find P xs = Some x \<Longrightarrow> x \<in> set xs \<and> P x"
  by (induction xs) (auto split: if_splits)

lemma first_dead_Some:
  assumes "first_dead f = Some b" and "distinct (map fst f)"
  shows "b \<in> blocks f \<and> b \<noteq> fst (hd f) \<and> predecessors f b = []"
proof -
  obtain x where x: "x \<in> set (tl f)" "b = fst x" "predecessors f b = []"
    using assms(1) by (auto simp: first_dead_def dest!: find_in)
  then obtain y ys where f: "f = y # ys" by (cases f) auto
  with x assms(2) have "b \<in> fst ` set ys" "fst y \<notin> fst ` set ys" by auto
  then have "b \<noteq> fst y" "b \<in> fst ` set ys" by blast+
  with f x(3) show ?thesis by (simp add: blocks_def)
qed

lemma first_dead_None:
  assumes "first_dead f = None"
  shows "supported f (blocks f)"
proof -
  have "\<exists>x. (x, b) \<in> jumps f" if b: "b \<in> blocks f" "b \<noteq> fst (hd f)" for b
  proof -
    obtain to where "(b, to) \<in> set (tl f)" using b by (cases f) (auto simp: blocks_def)
    with assms have "predecessors f b \<noteq> []" by (auto simp: first_dead_def find_None_iff)
    with predecessors_empty [OF b(1)] show ?thesis by blast
  qed
  then show ?thesis unfolding supported_def using jumps_blocks by blast
qed

lemma remove_dead:
  assumes "distinct (map fst f)" and "first_dead f = Some b"
  defines "f' \<equiv> filter (\<lambda>x. fst x \<noteq> b) f"
  shows "hd f' = hd f" "distinct (map fst f')" "length f' < length f" "supported f' S \<longleftrightarrow> supported f S"
proof -
  have b: "b \<in> blocks f" "b \<noteq> fst (hd f)" "predecessors f b = []" using first_dead_Some [OF assms(2,1)] by simp_all
  show hd: "hd f' = hd f" using b(2) by (cases f) (auto simp: f'_def)
  show "distinct (map fst f')" using assms(1) unfolding f'_def by (rule distinct_map_filter)
  show "length f' < length f" using b(1) length_filter_less [of _ f "\<lambda>x. fst x \<noteq> b"] by (auto simp: f'_def blocks_def)
  have bl: "blocks f' = blocks f - {b}" by (auto simp: f'_def blocks_def)
  have e: "(x, y) \<in> jumps f' \<longleftrightarrow> (x, y) \<in> jumps f \<and> x \<noteq> b \<and> y \<noteq> b" for x y
    by (auto simp: jumps_def bl) (auto simp: f'_def)
  have no: "(x, b) \<notin> jumps f" for x using b(3) predecessors_empty [OF b(1)] by blast
  have "b \<notin> S" if "supported f S" using that no b(2) by (auto simp: supported_def)
  then show "supported f' S \<longleftrightarrow> supported f S"
    by (auto simp: supported_def hd bl e)
qed

lemma cleanup_greatest:
  assumes D: "deletes D"
  shows "distinct (map fst f) \<Longrightarrow> \<exists>g P. LLVMCleanUpFunction D f = Some g \<and> g = filter P f \<and> hd g = hd f \<and>
    supported f (blocks g) \<and> (\<forall>S. supported f S \<longrightarrow> S \<subseteq> blocks g)"
proof (induction f rule: length_induct)
  case (1 f)
  show ?case
  proof (cases "first_dead f")
    case None
    then show ?thesis
      by (intro exI [of _ f] exI [of _ "\<lambda>_. True"], subst LLVMCleanUpFunction.simps)
        (simp add: first_dead_None, auto simp: supported_def)
  next
    case (Some b)
    let ?f = "filter (\<lambda>x. fst x \<noteq> b) f"
    note r = remove_dead [OF 1(2) Some]
    obtain g P where g: "LLVMCleanUpFunction D ?f = Some g" "g = filter P ?f" "hd g = hd ?f" "supported ?f (blocks g)"
      "\<forall>S. supported ?f S \<longrightarrow> S \<subseteq> blocks g" using 1(1) r(2,3) by blast
    have "D b f = ?f" using D first_dead_Some [OF Some 1(2)] by (simp add: deletes_def)
    with g(1) Some have "LLVMCleanUpFunction D f = Some g" by (subst LLVMCleanUpFunction.simps) simp
    moreover have "g = filter (\<lambda>x. P x \<and> fst x \<noteq> b) f" unfolding g(2) by (simp add: conj_commute)
    moreover have "hd g = hd f" using g(3) r(1) by simp
    moreover have "supported f (blocks g)" "\<forall>S. supported f S \<longrightarrow> S \<subseteq> blocks g" using g(4,5) r(4) by blast+
    ultimately show ?thesis by blast
  qed
qed

text \<open>The blocks that can be reached from the entry or from a block on a cycle.\<close>

definition kept :: "'b cfg \<Rightarrow> 'b \<Rightarrow> bool" where
  "kept f b \<longleftrightarrow> b \<in> blocks f \<and> (\<exists>x. (x = fst (hd f) \<or> (x, x) \<in> (jumps f)\<^sup>+) \<and> (x, b) \<in> (jumps f)\<^sup>*)"

lemma kept_supported: "supported f {b. kept f b}"
proof -
  have "b = fst (hd f) \<or> (\<exists>y. kept f y \<and> (y, b) \<in> jumps f)" if "kept f b" for b
  proof -
    obtain x where x: "x = fst (hd f) \<or> (x, x) \<in> (jumps f)\<^sup>+" "(x, b) \<in> (jumps f)\<^sup>*" using \<open>kept f b\<close> by (auto simp: kept_def)
    from x(2) have "(\<exists>y. (x, y) \<in> (jumps f)\<^sup>* \<and> (y, b) \<in> jumps f) \<or> b = fst (hd f)"
    proof (cases rule: rtranclE)
      case base
      with x(1) tranclD2 [of b b "jumps f"] show ?thesis by auto
    qed auto
    with x(1) show ?thesis using jumps_blocks by (auto simp: kept_def)
  qed
  then show ?thesis by (auto simp: supported_def kept_def)
qed

lemma supported_kept:
  assumes "supported f S"
  shows "S \<subseteq> {b. kept f b}"
proof (intro subsetI CollectI, rule ccontr)
  fix b assume b: "b \<in> S" and n: "\<not> kept f b"
  define A where "A = {x \<in> S. (x, b) \<in> (jumps f)\<^sup>*}"
  define R where "R = jumps f \<inter> UNIV \<times> A"
  have bf: "b \<in> blocks f" using b assms by (auto simp: supported_def)
  have "finite R" unfolding R_def
    by (rule finite_subset [of _ "blocks f \<times> blocks f"]) (use jumps_blocks in \<open>auto simp: blocks_def\<close>)
  moreover have "acyclic R"
  proof (rule acyclicI, intro allI notI)
    fix x assume x: "(x, x) \<in> R\<^sup>+"
    from tranclD2 [OF x] have "(x, b) \<in> (jumps f)\<^sup>*" by (auto simp: R_def A_def)
    moreover have "(x, x) \<in> (jumps f)\<^sup>+" using x by (rule trancl_mono) (simp add: R_def)
    ultimately show False using n bf by (auto simp: kept_def)
  qed
  ultimately have wf: "wf R" by (rule finite_acyclic_wf)
  have "b \<in> A" using b by (simp add: A_def)
  then obtain x where x: "x \<in> A" "\<And>y. (y, x) \<in> R \<Longrightarrow> y \<notin> A" by (rule wfE_min [OF wf]) blast
  have "x \<noteq> fst (hd f)" using x(1) n bf by (auto simp: A_def kept_def)
  then obtain y where y: "y \<in> S" "(y, x) \<in> jumps f" using x(1) assms by (auto simp: A_def supported_def)
  then have "y \<in> A" using x(1) by (auto simp: A_def intro: converse_rtrancl_into_rtrancl)
  with x(2) [of y] y(2) x(1) show False by (simp add: R_def)
qed

text \<open>
  C21: Let the blocks of a function have different names.  Then \<^verbatim>\<open>LLVMCleanUpFunction\<close> returns, and what it leaves of the
  function are, in their order, exactly the blocks that can be reached from the entry or from a cycle: those that
  cannot be executed are all deleted, but for the cycles among them and what follows these.
\<close>

theorem cleanup_exact:
  assumes "distinct (map fst f)" and "deletes D"
  shows "LLVMCleanUpFunction D f = Some (filter (\<lambda>x. kept f (fst x)) f)"
proof -
  obtain g P where g: "LLVMCleanUpFunction D f = Some g" "g = filter P f" "supported f (blocks g)"
    "\<forall>S. supported f S \<longrightarrow> S \<subseteq> blocks g" using cleanup_greatest [OF assms(2,1)] by blast
  have "blocks g = {b. kept f b}" using supported_kept [OF g(3)] g(4) kept_supported by blast
  moreover have "P x \<longleftrightarrow> fst x \<in> blocks g" if "x \<in> set f" for x
  proof
    assume "fst x \<in> blocks g"
    then obtain y where "y \<in> set f" "P y" "fst x = fst y" by (auto simp: g(2) blocks_def)
    with that assms(1) show "P x" by (metis distinct_map inj_onD)
  qed (use that in \<open>auto simp: g(2) blocks_def\<close>)
  ultimately have "filter P f = filter (\<lambda>x. kept f (fst x)) f" by (intro filter_cong) auto
  with g(1,2) show ?thesis by simp
qed

lemma jumps_eval: "jumps f = set (concat (map (\<lambda>(x, to). map (Pair x) (filter (\<lambda>b. b \<in> set (map fst f)) to)) f))"
  by (auto simp: jumps_def blocks_def)

text \<open>Of the blocks 11 to 16, 11 is the entry, 12 and 13 follow nothing, and 14 and 15 jump to each other.\<close>

lemma cleanup_exact_witness:
  "LLVMCleanUpFunction (\<lambda>b f. filter (\<lambda>x. fst x \<noteq> b) f) [(11 :: nat, [16]), (12, [13]), (13, [16]), (14, [15]), (15, [14]), (16, [])] =
    Some [(11, [16]), (14, [15]), (15, [14]), (16, [])]"
proof -
  let ?f = "[(11 :: nat, [16]), (12, [13]), (13, [16]), (14, [15]), (15, [14]), (16, [])]"
  have E: "jumps ?f = {(11, 16), (12, 13), (13, 16), (14, 15), (15, 14)}" by (simp add: jumps_eval)
  let ?S = "{11, 14, 15, 16}"
  have "supported ?f ?S" by (simp add: supported_def E) (simp add: blocks_def)
  then have "?S \<subseteq> {b. kept ?f b}" by (rule supported_kept)
  moreover have "\<not> kept ?f 12" using kept_supported [of ?f] by (auto simp: supported_def E)
  moreover from this have "\<not> kept ?f 13" using kept_supported [of ?f] by (fastforce simp: supported_def E)
  ultimately show ?thesis
    using cleanup_exact [of ?f "\<lambda>b f. filter (\<lambda>x. fst x \<noteq> b) f"] by (simp add: deletes_def)
qed

end
