(* ===== verification/Jit.thy ===== *)
theory Jit
  imports Main
begin

text \<open>
  The run-time loading of compiled modules, \<^verbatim>\<open>src/jit.cpp\<close>.  LLVM is a parameter: the functions the code calls, as
  a record.  The globals of the file, of LLVM what the file sets, the handlers registered with \<^verbatim>\<open>atexit\<close>, and what
  has been logged are the state.  Constructors of a module that load further modules themselves are left out.
\<close>

section \<open>LLVM\<close>

text \<open>
  Buffers, modules, engines, functions and their compiled code are of types left open.  A result \<open>Inl\<close> is a
  null pointer with an error message; an engine may fail without one.
\<close>

record ('b, 'm, 'e, 'f, 'c) llvm =
  getFile :: "string \<Rightarrow> string + 'b"
  getLazyBitcodeModule :: "'b \<Rightarrow> string + 'm"
  MaterializeAllPermanently :: "'m \<Rightarrow> string option"
  verifyModule :: "'m \<Rightarrow> string option"
  create_engine :: "'m \<Rightarrow> bool \<Rightarrow> string option + 'e"
  getFunction :: "'m \<Rightarrow> string \<Rightarrow> 'f option"
  getPointerToFunction :: "'e \<Rightarrow> 'f \<Rightarrow> 'c option"

section \<open>State\<close>

datatype log_level = Log_DEBUG | Log_INFO | Log_WARN | Log_ERROR | Log_FATAL

record ('m, 'e) jit =
  main_module :: "'m option"
  execution_engine :: "'e option"
  jit_modules :: "'m list"
  enable_opt :: bool
  enable_debug :: bool
  JITExceptionHandling :: bool
  JITEmitDebugInfo :: bool
  exit_handlers :: nat
  engine_deleted :: bool
  constructed :: "'m list"
  jit_log :: "(log_level \<times> string) list"

definition initial_jit :: "('m, 'e) jit" where
  "initial_jit = \<lparr>main_module = None, execution_engine = None, jit_modules = [], enable_opt = False, enable_debug = True,
     JITExceptionHandling = False, JITEmitDebugInfo = False, exit_handlers = 0, engine_deleted = False, constructed = [],
     jit_log = []\<rparr>"

definition log_message :: "log_level \<Rightarrow> string \<Rightarrow> ('m, 'e) jit \<Rightarrow> ('m, 'e) jit" where
  "log_message level message st = st\<lparr>jit_log := jit_log st @ [(level, message)]\<rparr>"

text \<open>What stops the program: \<^verbatim>\<open>exit(1)\<close>, the use of a pointer that was never set, the second deletion of the engine.\<close>

datatype ('m, 'e) jit_stop = Exit_1 "('m, 'e) jit" | Pointer_not_set | Deleted_twice

section \<open>Loading\<close>

definition start_up :: "('m, 'e) jit \<Rightarrow> ('m, 'e) jit" where
  "start_up st =
     (if main_module st = None then
        (log_message Log_INFO (''JIT: starting up'' @ [CHR 0x0A]) (st\<lparr>JITExceptionHandling := True, JITEmitDebugInfo := True\<rparr>))
          \<lparr>exit_handlers := exit_handlers st + 1\<rparr>
      else st)"

text \<open>The module is used even if it could not be read in full; the message stays in \<^verbatim>\<open>error_message\<close>.\<close>

definition materialize :: "('b, 'm, 'e, 'f, 'c) llvm \<Rightarrow> 'm \<Rightarrow> ('m, 'e) jit \<Rightarrow> string \<times> ('m, 'e) jit" where
  "materialize L m st =
     (case MaterializeAllPermanently L m of
        None \<Rightarrow> ('''', st)
      | Some e \<Rightarrow>
          (let st = log_message Log_ERROR (''JIT: materialize module failed: '' @ e) st in
           case verifyModule L m of
             None \<Rightarrow> (e, st)
           | Some e \<Rightarrow> (e, log_message Log_ERROR (''JIT: module failed to verify: '' @ e) st)))"

definition make_engine ::
  "('b, 'm, 'e, 'f, 'c) llvm \<Rightarrow> 'm \<Rightarrow> string \<Rightarrow> ('m, 'e) jit \<Rightarrow> ('m, 'e) jit_stop + ('m, 'e) jit" where
  "make_engine L m error_message st =
     (let st = st\<lparr>main_module := Some m\<rparr> in
      case create_engine L m (enable_opt st) of
        Inl e \<Rightarrow>
          (let error_message = (case e of None \<Rightarrow> error_message | Some e \<Rightarrow> e);
               st = log_message Log_ERROR ''JIT: execution engine is null'' st
           in Inl (Exit_1 (log_message Log_ERROR
                (if error_message \<noteq> '''' then ''JIT: error creating execution_engine: '' @ error_message
                 else ''JIT: unknown error creating execution_engine!'') st)))
      | Inr e \<Rightarrow> Inr (log_message Log_INFO ''JIT: created execution engine'' (st\<lparr>execution_engine := Some e\<rparr>)))"

definition load_module ::
  "('b, 'm, 'e, 'f, 'c) llvm \<Rightarrow> string \<Rightarrow> ('m, 'e) jit \<Rightarrow> ('m, 'e) jit_stop + ('m, 'e) jit" where
  "load_module L bitcode_name st =
     (let st = log_message Log_INFO (''JIT: loading '' @ [CHR 0x27] @ bitcode_name) (start_up st) in
      case getFile L bitcode_name of
        Inl e \<Rightarrow> Inr (log_message Log_ERROR
          (''JIT: MemoryBuffer::getFile('' @ [CHR 0x27] @ bitcode_name @ [CHR 0x27] @ '') failed: '' @ e) st)
      | Inr buffer \<Rightarrow>
          (case getLazyBitcodeModule L buffer of
             Inl e \<Rightarrow> Inr (log_message Log_ERROR (''JIT: get lazy bitcode module failed: '' @ e) st)
           | Inr m \<Rightarrow>
               (let (error_message, st) = materialize L m st in
                case (if main_module st = None then make_engine L m error_message st else Inr st) of
                  Inl e \<Rightarrow> Inl e
                | Inr st \<Rightarrow>
                    Inr (log_message Log_INFO (''JIT: initialized module: '' @ bitcode_name)
                      (st\<lparr>jit_modules := jit_modules st @ [m], constructed := constructed st @ [m]\<rparr>)))))"

section \<open>Calling\<close>

text \<open>The search: \<^verbatim>\<open>f\<close> is what the last module looked at has; before the first it is not set.\<close>

fun find_function :: "('b, 'm, 'e, 'f, 'c) llvm \<Rightarrow> string \<Rightarrow> 'm list \<Rightarrow> 'f option option \<Rightarrow> 'f option option" where
  "find_function L name [] f = f"
| "find_function L name (m # ms) f =
     (case getFunction L m name of Some g \<Rightarrow> Some (Some g) | None \<Rightarrow> find_function L name ms (Some None))"

text \<open>The result is the code that is called, and whose result is returned, or null.\<close>

definition call_function ::
  "('b, 'm, 'e, 'f, 'c) llvm \<Rightarrow> string \<Rightarrow> ('m, 'e) jit \<Rightarrow> ('m, 'e) jit_stop + 'c option \<times> ('m, 'e) jit" where
  "call_function L function_name st =
     (case find_function L function_name (jit_modules st) None of
        None \<Rightarrow> Inl Pointer_not_set
      | Some None \<Rightarrow> Inr (None, log_message Log_ERROR
          (''JIT: could not locate function '' @ [CHR 0x27] @ function_name) st)
      | Some (Some f) \<Rightarrow>
          (case execution_engine st of
             None \<Rightarrow> Inl Pointer_not_set
           | Some e \<Rightarrow>
               (case getPointerToFunction L e f of
                  None \<Rightarrow> Inr (None, log_message Log_ERROR
                    (''JIT: could not compile function '' @ [CHR 0x27] @ function_name) st)
                | Some c \<Rightarrow> Inr (Some c, st))))"

section \<open>Runs\<close>

text \<open>The functions the L library calls, in any order; the answers of the calls are collected.\<close>

datatype jit_op = Enable_opt | Disable_opt | Enable_debug | Disable_debug | Load_module string | Call_function string

fun jit_step ::
  "('b, 'm, 'e, 'f, 'c) llvm \<Rightarrow> jit_op \<Rightarrow> ('m, 'e) jit \<Rightarrow> ('m, 'e) jit_stop + 'c option list \<times> ('m, 'e) jit" where
  "jit_step L Enable_opt st = Inr ([], st\<lparr>enable_opt := True\<rparr>)"
| "jit_step L Disable_opt st = Inr ([], st\<lparr>enable_opt := False\<rparr>)"
| "jit_step L Enable_debug st = Inr ([], st\<lparr>enable_debug := True\<rparr>)"
| "jit_step L Disable_debug st = Inr ([], st\<lparr>enable_debug := False\<rparr>)"
| "jit_step L (Load_module n) st = (case load_module L n st of Inl e \<Rightarrow> Inl e | Inr st \<Rightarrow> Inr ([], st))"
| "jit_step L (Call_function n) st = (case call_function L n st of Inl e \<Rightarrow> Inl e | Inr (c, st) \<Rightarrow> Inr ([c], st))"

fun jit_run ::
  "('b, 'm, 'e, 'f, 'c) llvm \<Rightarrow> jit_op list \<Rightarrow> ('m, 'e) jit \<Rightarrow> ('m, 'e) jit_stop + 'c option list \<times> ('m, 'e) jit" where
  "jit_run L [] st = Inr ([], st)"
| "jit_run L (x # xs) st =
     (case jit_step L x st of
        Inl e \<Rightarrow> Inl e
      | Inr (cs, st) \<Rightarrow> (case jit_run L xs st of Inl e \<Rightarrow> Inl e | Inr (ds, st) \<Rightarrow> Inr (cs @ ds, st)))"

text \<open>\<^verbatim>\<open>do_shutdown\<close> deletes the engine; at the exit of the program it runs as often as it was registered.\<close>

definition do_shutdown :: "('m, 'e) jit \<Rightarrow> ('m, 'e) jit_stop + ('m, 'e) jit" where
  "do_shutdown st =
     (if execution_engine st = None then Inr st
      else if engine_deleted st then Inl Deleted_twice
      else Inr (st\<lparr>engine_deleted := True\<rparr>))"

primrec shut_down :: "nat \<Rightarrow> ('m, 'e) jit \<Rightarrow> ('m, 'e) jit_stop + ('m, 'e) jit" where
  "shut_down 0 st = Inr st"
| "shut_down (Suc n) st = (case do_shutdown st of Inl e \<Rightarrow> Inl e | Inr st \<Rightarrow> shut_down n st)"

definition at_exit :: "('m, 'e) jit \<Rightarrow> ('m, 'e) jit_stop + ('m, 'e) jit" where
  "at_exit st = shut_down (exit_handlers st) st"

section \<open>What a run does\<close>

text \<open>The module a name stands for, and the modules a run has loaded.\<close>

definition module_of :: "('b, 'm, 'e, 'f, 'c) llvm \<Rightarrow> string \<Rightarrow> 'm option" where
  "module_of L n = (case getFile L n of Inl e \<Rightarrow> None | Inr b \<Rightarrow>
     (case getLazyBitcodeModule L b of Inl e \<Rightarrow> None | Inr m \<Rightarrow> Some m))"

fun loaded :: "('b, 'm, 'e, 'f, 'c) llvm \<Rightarrow> jit_op list \<Rightarrow> 'm list" where
  "loaded L [] = []"
| "loaded L (Load_module n # xs) = (case module_of L n of None \<Rightarrow> loaded L xs | Some m \<Rightarrow> m # loaded L xs)"
| "loaded L (_ # xs) = loaded L xs"

text \<open>The code of a function: that of the first module that has it, from the engine made for the first module.\<close>

definition code_of :: "('b, 'm, 'e, 'f, 'c) llvm \<Rightarrow> 'e \<Rightarrow> 'm list \<Rightarrow> string \<Rightarrow> 'c option" where
  "code_of L e ms n = (case List.map_filter (\<lambda>m. getFunction L m n) ms of [] \<Rightarrow> None | f # _ \<Rightarrow> getPointerToFunction L e f)"

fun answers :: "('b, 'm, 'e, 'f, 'c) llvm \<Rightarrow> 'e \<Rightarrow> 'm list \<Rightarrow> jit_op list \<Rightarrow> 'c option list" where
  "answers L e ms [] = []"
| "answers L e ms (Load_module n # xs) =
     (case module_of L n of None \<Rightarrow> answers L e ms xs | Some m \<Rightarrow> answers L e (ms @ [m]) xs)"
| "answers L e ms (Call_function n # xs) = code_of L e ms n # answers L e ms xs"
| "answers L e ms (_ # xs) = answers L e ms xs"

text \<open>The attempts to load up to the first that succeeds.\<close>

fun attempts :: "('b, 'm, 'e, 'f, 'c) llvm \<Rightarrow> jit_op list \<Rightarrow> nat" where
  "attempts L [] = 0"
| "attempts L (Load_module n # xs) = (case module_of L n of None \<Rightarrow> Suc (attempts L xs) | Some m \<Rightarrow> 1)"
| "attempts L (_ # xs) = attempts L xs"

text \<open>The invariant: there is an engine, made for the first module, as soon as a module is loaded.\<close>

definition jit_ok :: "('b, 'm, 'e, 'f, 'c) llvm \<Rightarrow> ('m, 'e) jit \<Rightarrow> bool" where
  "jit_ok L st \<longleftrightarrow> \<not> engine_deleted st \<and> constructed st = jit_modules st \<and>
     (case jit_modules st of
        [] \<Rightarrow> main_module st = None \<and> execution_engine st = None
      | m # _ \<Rightarrow> main_module st = Some m \<and> (\<exists>opt e. create_engine L m opt = Inr e \<and> execution_engine st = Some e))"

lemma log_message_simps [simp]:
  "main_module (log_message l s st) = main_module st" "execution_engine (log_message l s st) = execution_engine st"
  "jit_modules (log_message l s st) = jit_modules st" "exit_handlers (log_message l s st) = exit_handlers st"
  "engine_deleted (log_message l s st) = engine_deleted st" "constructed (log_message l s st) = constructed st"
  "enable_opt (log_message l s st) = enable_opt st"
  by (simp_all add: log_message_def)

lemma start_up_simps [simp]:
  "main_module (start_up st) = main_module st" "execution_engine (start_up st) = execution_engine st"
  "jit_modules (start_up st) = jit_modules st" "engine_deleted (start_up st) = engine_deleted st"
  "constructed (start_up st) = constructed st" "enable_opt (start_up st) = enable_opt st"
  "exit_handlers (start_up st) = exit_handlers st + (if main_module st = None then 1 else 0)"
  by (simp_all add: start_up_def)

lemma materialize_simps [simp]:
  "main_module (snd (materialize L m st)) = main_module st" "execution_engine (snd (materialize L m st)) = execution_engine st"
  "jit_modules (snd (materialize L m st)) = jit_modules st" "exit_handlers (snd (materialize L m st)) = exit_handlers st"
  "engine_deleted (snd (materialize L m st)) = engine_deleted st" "constructed (snd (materialize L m st)) = constructed st"
  by (simp_all add: materialize_def Let_def split: option.split)

lemma load_step:
  assumes "load_module L n st = Inr st'" and "jit_ok L st"
  shows "jit_ok L st' \<and> exit_handlers st' = exit_handlers st + (if jit_modules st = [] then 1 else 0) \<and>
    jit_modules st' = jit_modules st @ (case module_of L n of None \<Rightarrow> [] | Some m \<Rightarrow> [m]) \<and>
    (jit_modules st \<noteq> [] \<longrightarrow> execution_engine st' = execution_engine st)"
  using assms
  by (auto simp: load_module_def module_of_def Let_def make_engine_def jit_ok_def split_beta
      split: sum.splits option.splits if_splits list.splits)

lemma find_function_first:
  "find_function L n ms f = (case List.map_filter (\<lambda>m. getFunction L m n) ms of
     g # _ \<Rightarrow> Some (Some g) | [] \<Rightarrow> if ms = [] then f else Some None)"
  by (induction ms arbitrary: f) (auto simp: map_filter_simps split: option.split list.split)

text \<open>States that differ in the options and the log only.\<close>

definition alike :: "('m, 'e) jit \<Rightarrow> ('m, 'e) jit \<Rightarrow> bool" where
  "alike s t \<longleftrightarrow> main_module s = main_module t \<and> execution_engine s = execution_engine t \<and> jit_modules s = jit_modules t \<and>
     exit_handlers s = exit_handlers t \<and> engine_deleted s = engine_deleted t \<and> constructed s = constructed t"

lemma alike_ok: "alike s t \<Longrightarrow> jit_ok L s \<longleftrightarrow> jit_ok L t"
  by (simp add: alike_def jit_ok_def split: list.split)

lemma call_step:
  assumes "jit_ok L st"
  shows "(case call_function L n st of Inl x \<Rightarrow> x = Pointer_not_set \<and> jit_modules st = []
    | Inr (c, st') \<Rightarrow> jit_modules st \<noteq> [] \<and> c = code_of L (the (execution_engine st)) (jit_modules st) n \<and>
        alike st' st)"
  using assms
  by (auto simp: call_function_def find_function_first code_of_def jit_ok_def map_filter_simps alike_def
      split: option.split list.splits)

lemma step_ok:
  assumes "jit_step L x st = Inr (cs, st')" and "jit_ok L st"
  shows "jit_ok L st'" "jit_modules st' = jit_modules st @ loaded L [x]"
    "exit_handlers st' = exit_handlers st + (if jit_modules st = [] then attempts L [x] else 0)"
    "jit_modules st \<noteq> [] \<Longrightarrow> execution_engine st' = execution_engine st"
    "execution_engine st' = Some e \<Longrightarrow> cs = answers L e (jit_modules st) [x]"
    "execution_engine st' = None \<Longrightarrow> cs = [] \<and> answers L e (jit_modules st) [x] = []"
proof -
  have "jit_ok L st' \<and> jit_modules st' = jit_modules st @ loaded L [x] \<and>
    exit_handlers st' = exit_handlers st + (if jit_modules st = [] then attempts L [x] else 0) \<and>
    (jit_modules st \<noteq> [] \<longrightarrow> execution_engine st' = execution_engine st) \<and>
    (case execution_engine st' of Some e \<Rightarrow> cs = answers L e (jit_modules st) [x] | None \<Rightarrow> cs = [] \<and> (\<forall>e. answers L e (jit_modules st) [x] = []))"
  proof (cases x)
    case (Load_module n)
    with assms load_step [of L n st st'] show ?thesis by (auto simp: jit_ok_def split: sum.splits option.splits list.splits)
  next
    case (Call_function n)
    with assms(1) have c: "jit_modules st \<noteq> []" "cs = [code_of L (the (execution_engine st)) (jit_modules st) n]"
      "alike st' st"
      using call_step [OF assms(2), of n] by (auto split: sum.splits)
    then have "execution_engine st \<noteq> None" using assms(2) by (auto simp: jit_ok_def split: list.splits)
    with c alike_ok [OF c(3), of L] assms(2) Call_function show ?thesis by (auto simp: alike_def)
  qed (use assms alike_ok [of st' st L] in \<open>auto simp: alike_def split: option.split\<close>)
  then show "jit_ok L st'" "jit_modules st' = jit_modules st @ loaded L [x]"
    "exit_handlers st' = exit_handlers st + (if jit_modules st = [] then attempts L [x] else 0)"
    "jit_modules st \<noteq> [] \<Longrightarrow> execution_engine st' = execution_engine st"
    "execution_engine st' = Some e \<Longrightarrow> cs = answers L e (jit_modules st) [x]"
    "execution_engine st' = None \<Longrightarrow> cs = [] \<and> answers L e (jit_modules st) [x] = []"
    by (auto split: option.splits)
qed

lemma spec_Cons:
  "loaded L (x # xs) = loaded L [x] @ loaded L xs"
  "attempts L (x # xs) = attempts L [x] + (if loaded L [x] = [] then attempts L xs else 0)"
  "answers L e ms (x # xs) = answers L e ms [x] @ answers L e (ms @ loaded L [x]) xs"
  by (cases x; simp split: option.split)+

lemma jit_run_ok:
  "jit_run L ops st = Inr (cs, st') \<Longrightarrow> jit_ok L st \<Longrightarrow>
   jit_ok L st' \<and> jit_modules st' = jit_modules st @ loaded L ops \<and>
   exit_handlers st' = exit_handlers st + (if jit_modules st = [] then attempts L ops else 0) \<and>
   (jit_modules st \<noteq> [] \<longrightarrow> execution_engine st' = execution_engine st) \<and>
   (case execution_engine st' of Some e \<Rightarrow> cs = answers L e (jit_modules st) ops | None \<Rightarrow> cs = [])"
proof (induction ops arbitrary: st cs)
  case (Cons x xs)
  obtain as st1 bs where s: "jit_step L x st = Inr (as, st1)" "jit_run L xs st1 = Inr (bs, st')" "cs = as @ bs"
    using Cons.prems(1) by (auto split: sum.splits)
  note a = step_ok [OF s(1) Cons.prems(2)] and b = Cons.IH [OF s(2) step_ok(1) [OF s(1) Cons.prems(2)]]
  have empty: "execution_engine t = None \<longleftrightarrow> jit_modules t = []" if "jit_ok L t" for t
    using that by (auto simp: jit_ok_def split: list.splits)
  show ?case
    unfolding spec_Cons(1) [of L x xs] spec_Cons(2) [of L x xs] spec_Cons(3) [of L _ _ x xs]
    using a b empty [OF a(1)] empty [of st'] s(3) by (auto split: option.splits)
qed (auto split: option.split simp: jit_ok_def)

lemma initial_jit_ok: "jit_ok L initial_jit" "jit_modules initial_jit = []" "exit_handlers initial_jit = 0"
  by (simp_all add: jit_ok_def initial_jit_def)

text \<open>
  C29: Let a run of the JIT come to its end.  Then the modules are those whose files could be read, in their order.  If
  there is one, the engine is the one made for the first module, and every call has called the code of the first
  module loaded before it that has the function; if there is none, there is no engine, and there were no calls.
\<close>

theorem jit_runs:
  assumes "jit_run L ops initial_jit = Inr (cs, st)"
  shows "jit_modules st = loaded L ops \<and>
    (case loaded L ops of
       [] \<Rightarrow> execution_engine st = None \<and> cs = []
     | m # ms \<Rightarrow> \<exists>opt e. create_engine L m opt = Inr e \<and> execution_engine st = Some e \<and> cs = answers L e [] ops)"
  using jit_run_ok [OF assms initial_jit_ok(1)] by (auto simp: initial_jit_ok jit_ok_def split: list.splits)

text \<open>A sample of LLVM: the modules \<open>a\<close> and \<open>b\<close>, of which \<open>b\<close> and \<open>a\<close> have \<open>f\<close> and \<open>b\<close> has \<open>g\<close>.\<close>

definition sample_llvm :: "(string, string, nat, string, nat) llvm" where
  "sample_llvm = \<lparr>getFile = (\<lambda>n. if n \<in> {''a'', ''b''} then Inr n else Inl ''no such file''),
     getLazyBitcodeModule = Inr, MaterializeAllPermanently = (\<lambda>m. None), verifyModule = (\<lambda>m. None),
     create_engine = (\<lambda>m opt. Inr (if opt then 2 else 1)),
     getFunction = (\<lambda>m n. if n = ''f'' \<or> n = ''g'' \<and> m = ''b'' then Some (m @ n) else None),
     getPointerToFunction = (\<lambda>e f. Some (e + length f))\<rparr>"

definition sample_ops :: "jit_op list" where
  "sample_ops = [Load_module ''c'', Enable_opt, Load_module ''a'', Load_module ''b'', Call_function ''f'', Call_function ''h'']"

lemma sample_run:
  "\<exists>st. jit_run sample_llvm sample_ops initial_jit = Inr ([Some 4, None], st)"
  by (simp add: sample_llvm_def sample_ops_def initial_jit_def load_module_def materialize_def make_engine_def call_function_def
      start_up_def log_message_def Let_def)

lemma sample_spec:
  "loaded sample_llvm sample_ops = [''a'', ''b'']" "attempts sample_llvm sample_ops = 2"
  by (simp_all add: sample_llvm_def sample_ops_def module_of_def)

lemma jit_runs_witness:
  "\<exists>st opt e. jit_run sample_llvm sample_ops initial_jit = Inr ([Some 4, None], st) \<and> jit_modules st = [''a'', ''b''] \<and>
     create_engine sample_llvm ''a'' opt = Inr e \<and> execution_engine st = Some e"
proof -
  obtain st where st: "jit_run sample_llvm sample_ops initial_jit = Inr ([Some 4, None], st)" using sample_run by blast
  from jit_runs [OF st] st show ?thesis by (auto simp: sample_spec)
qed

section \<open>Two errors\<close>

text \<open>A call before a module is loaded.\<close>

fun early_call :: "('b, 'm, 'e, 'f, 'c) llvm \<Rightarrow> jit_op list \<Rightarrow> bool" where
  "early_call L [] \<longleftrightarrow> False"
| "early_call L (Load_module n # xs) \<longleftrightarrow> module_of L n = None \<and> early_call L xs"
| "early_call L (Call_function n # xs) \<longleftrightarrow> True"
| "early_call L (_ # xs) \<longleftrightarrow> early_call L xs"

lemma load_stop: "load_module L n st = Inl x \<Longrightarrow> x \<noteq> Pointer_not_set \<and> module_of L n \<noteq> None"
  by (auto simp: load_module_def module_of_def Let_def make_engine_def split_beta split: sum.splits if_splits)

lemma early_iff:
  "jit_ok L st \<Longrightarrow> jit_run L ops st = Inl Pointer_not_set \<longleftrightarrow> jit_modules st = [] \<and> early_call L ops"
proof (induction ops arbitrary: st)
  case (Cons x xs)
  show ?case
  proof (cases "jit_step L x st")
    case (Inl y)
    show ?thesis
    proof (cases x)
      case (Load_module n)
      with Inl load_stop [of L n st y] show ?thesis by (auto split: sum.splits)
    next
      case (Call_function n)
      with Inl call_step [OF Cons.prems, of n] show ?thesis by (auto split: sum.splits)
    qed (use Inl in auto)
  next
    case (Inr y)
    then obtain cs st1 where s: "jit_step L x st = Inr (cs, st1)" by (cases y) auto
    note a = step_ok [OF s Cons.prems]
    have "jit_run L (x # xs) st = Inl Pointer_not_set \<longleftrightarrow> jit_modules st1 = [] \<and> early_call L xs"
      using Cons.IH [OF a(1)] s by (auto split: sum.split)
    also have "\<dots> \<longleftrightarrow> jit_modules st = [] \<and> early_call L (x # xs)"
    proof (cases x)
      case (Call_function n)
      with s call_step [OF Cons.prems, of n] a(2) show ?thesis by (auto split: sum.splits)
    qed (use a(2) in \<open>auto split: option.splits\<close>)
    finally show ?thesis .
  qed
qed simp

lemma shut_down_deleted:
  "execution_engine st \<noteq> None \<Longrightarrow> engine_deleted st \<Longrightarrow> shut_down n st = (if n = 0 then Inr st else Inl Deleted_twice)"
  by (cases n) (auto simp: do_shutdown_def)

lemma at_exit_twice:
  assumes "jit_ok L st"
  shows "at_exit st = Inl Deleted_twice \<longleftrightarrow> jit_modules st \<noteq> [] \<and> 2 \<le> exit_handlers st"
proof (cases "execution_engine st")
  case None
  then have "shut_down n st = Inr st" for n by (induction n) (simp_all add: do_shutdown_def)
  with None assms show ?thesis by (auto simp: at_exit_def jit_ok_def split: list.splits)
next
  case (Some e)
  have s: "shut_down (Suc n) st = shut_down n (st\<lparr>engine_deleted := True\<rparr>)" for n
    using Some assms by (simp add: do_shutdown_def jit_ok_def)
  have "jit_modules st \<noteq> []" using Some assms by (auto simp: jit_ok_def)
  moreover have "at_exit st = Inl Deleted_twice \<longleftrightarrow> 2 \<le> exit_handlers st"
    by (cases "exit_handlers st") (simp_all only: at_exit_def s shut_down.simps(1), auto simp: shut_down_deleted Some)
  ultimately show ?thesis by simp
qed

text \<open>
  C30: A run calls through a pointer that was never set exactly if it calls a function before a module is loaded.  And
  after a run that ends, the exit of the program deletes the engine twice exactly if there is one and an attempt to
  load a module had failed before the first one was loaded.
\<close>

theorem jit_errors:
  "(jit_run L ops initial_jit = Inl Pointer_not_set \<longleftrightarrow> early_call L ops) \<and>
   (jit_run L ops initial_jit = Inr (cs, st) \<longrightarrow>
      (at_exit st = Inl Deleted_twice \<longleftrightarrow> loaded L ops \<noteq> [] \<and> 2 \<le> attempts L ops))"
  using early_iff [OF initial_jit_ok(1)] jit_run_ok [OF _ initial_jit_ok(1), of L ops cs st] at_exit_twice [of L st] by (simp add: initial_jit_ok)

lemma jit_errors_witness:
  "jit_run sample_llvm [Load_module ''c'', Call_function ''f''] initial_jit = Inl Pointer_not_set \<and>
   (\<exists>st. jit_run sample_llvm sample_ops initial_jit = Inr ([Some 4, None], st) \<and> at_exit st = Inl Deleted_twice)"
proof
  show "jit_run sample_llvm [Load_module ''c'', Call_function ''f''] initial_jit = Inl Pointer_not_set"
    using jit_errors [of sample_llvm "[Load_module ''c'', Call_function ''f'']"] by (simp add: module_of_def sample_llvm_def)
  obtain st where st: "jit_run sample_llvm sample_ops initial_jit = Inr ([Some 4, None], st)" using sample_run by blast
  with jit_errors [of sample_llvm sample_ops "[Some 4, None]" st]
  show "\<exists>st. jit_run sample_llvm sample_ops initial_jit = Inr ([Some 4, None], st) \<and> at_exit st = Inl Deleted_twice"
    by (auto simp: sample_spec)
qed

end
