(* ===== verification/Spec2Isabelle.thy ===== *)
theory Spec2Isabelle
  imports Options Output_Lines Output_Read Messages Language Roots Lsda Objects Old_Unwind Cleanup Jit
begin

text \<open>
  A model of the C code of this repository.  It has three parts: \<^verbatim>\<open>jay\<close>, the LALR(1) parser generator (a
  descendant of Berkeley Yacc) that turns \<^verbatim>\<open>syntax-l.jay\<close> into the L compiler's parser, the runtime that compiled
  L programs are linked with (\<^verbatim>\<open>lrt-exception.c\<close>, \<^verbatim>\<open>lrt-unwind.c\<close>, and its predecessor \<^verbatim>\<open>exception-old.c\<close>), and
  two pieces between the L code and LLVM (\<^verbatim>\<open>llvmc.cpp\<close>, \<^verbatim>\<open>jit.cpp\<close>).

  \<^bold>\<open>The generator.\<close>  \<^verbatim>\<open>src/jay/main.c\<close> runs \<^verbatim>\<open>reader\<close>, \<^verbatim>\<open>lr0\<close>, \<^verbatim>\<open>lalr\<close>, \<^verbatim>\<open>make_parser\<close>, \<^verbatim>\<open>verbose\<close> and
  \<^verbatim>\<open>output\<close> one after another; each pass reads and writes global arrays.  Here a pass is a function,
  the globals it reads are arguments and those it writes its result.  An array is a list, a pointer
  into an array an index, a linked list a list, an \<^verbatim>\<open>unsigned\<close> a 32-bit word.  \<^verbatim>\<open>fatal\<close> and \<^verbatim>\<open>assert\<close> are values of
  \<open>jay_error\<close>, and so is an access outside an array where the code can make one (\<open>BadAccess\<close>): on a grammar
  the reader accepts, if its token values are distinct, that is only the write past the buffer \<^verbatim>\<open>edge\<close> (\<^verbatim>\<open>lalr.c\<close>, line 442) and the search past the packed
  table (\<^verbatim>\<open>output.c\<close>, line 619).  The reader is a state monad with errors over its globals; its errors are the
  constructors of \<open>reader_error\<close>.

  A \<^verbatim>\<open>short\<close> is a \<open>nat\<close> or \<open>int\<close>.  The code itself keeps the numbers of states and of gotos within
  \<^verbatim>\<open>MAXSHORT\<close> and the packed table below \<^verbatim>\<open>MAXTABLE\<close>, but nothing else.  Where a number may leave its \<^verbatim>\<open>short\<close>,
  the model converts it as C does (\<open>short\<close>: token values, precedences, the widths of vectors), or it stops with \<open>OutOfShort\<close>
  where the code would go on with a wrong index or count: the symbols and items of the packed grammar (\<open>pack_symbols\<close>,
  \<open>pack_grammar\<close>), the totals \<^verbatim>\<open>lookaheads\<close> (\<open>initialize_LA\<close>), the counts of edges in \<^verbatim>\<open>transpose\<close> (\<open>transpose_relation\<close>),
  the mark \<^verbatim>\<open>infinity\<close> in \<^verbatim>\<open>INDEX\<close> (\<open>digraph\<close>), the conflicts of a state (\<open>remove_conflicts\<close>) and the numbers of vectors
  in \<^verbatim>\<open>order\<close> (\<open>sort_actions\<close>).  The theorems name these ends and the sizes they need; grammars below them are not touched.

  \<^bold>\<open>Theories of the reader.\<close>
  \<^item> \<open>CText\<close>: what the code uses of \<^verbatim>\<open><ctype.h>\<close> and \<^verbatim>\<open><string.h>\<close>; \<open>Symtab\<close>: \<^verbatim>\<open>symtab.c\<close>.
  \<^item> \<open>Reader_Monad\<close>: the globals of \<^verbatim>\<open>reader.c\<close> and the reader's steps; \<open>Scanner\<close>: lines, comments, names,
    numbers, literals, copied text; \<open>Declarations\<close>: the first section; \<open>Rules\<close>: the grammar section.
  \<^item> \<open>Packing\<close>: \<^verbatim>\<open>check_symbols\<close>, \<^verbatim>\<open>pack_symbols\<close>, \<^verbatim>\<open>pack_grammar\<close> and \<^verbatim>\<open>reader\<close> itself.  The theorems
    say that it ends with an error or with a well-formed grammar, and that this is the grammar read, or that the text
    has more symbols or items than a \<^verbatim>\<open>short\<close> can count.

  \<^bold>\<open>Theories of the passes.\<close>
  \<^item> \<open>Jay_Prelude\<close>: errors, loops that can stop, bit rows (\<^verbatim>\<open>defs.h\<close>), counting sort.
  \<^item> \<open>Warshall\<close>: \<^verbatim>\<open>warshall.c\<close>.
  \<^item> \<open>Grammar\<close>: the packed grammar (\<^verbatim>\<open>main.c\<close> globals) and its layout \<open>wf_grammar\<close>.
  \<^item> \<open>Derives\<close>: \<^verbatim>\<open>set_derives\<close> and \<^verbatim>\<open>set_nullable\<close> of \<^verbatim>\<open>lr0.c\<close>.
  \<^item> \<open>Closure\<close>: \<^verbatim>\<open>closure.c\<close>.
  \<^item> \<open>LR0\<close>: the LR(0) automaton, \<^verbatim>\<open>lr0.c\<close>.
  \<^item> \<open>Digraph\<close>: \<^verbatim>\<open>digraph\<close> and \<^verbatim>\<open>traverse\<close> of \<^verbatim>\<open>lalr.c\<close>.
  \<^item> \<open>Lalr\<close>: the rest of \<^verbatim>\<open>lalr.c\<close>; \<open>Gotos\<close> and \<open>Lookahead\<close> prove it right.
  \<^item> \<open>Mkpar\<close>: \<^verbatim>\<open>mkpar.c\<close>, action rows, conflicts, default reductions.
  \<^item> \<open>Pack\<close>: the vectors and the comb of \<^verbatim>\<open>output.c\<close>; \<open>Vectors\<close> proves what they hold.
  \<^item> \<open>Passes\<close>: the passes composed, with the promise of each to the next as a locale.
  \<^item> \<open>Generator\<close>: \<^verbatim>\<open>main\<close>, the reader and the passes in one: on every input its run ends, with tables that
    are right for the grammar that was read or with an error, the stops above included.
  \<^item> \<open>Output_Text\<close>: what \<^verbatim>\<open>output.c\<close> writes, and with it the program's output, \<open>jay\<close>; \<open>Output_Read\<close> reads the
    tables back from the text; \<open>Output_Lines\<close> follows the line numbers.
  \<^item> \<open>Listing\<close>: the listing of \<^verbatim>\<open>jay -v\<close>, \<^verbatim>\<open>verbose.c\<close> and \<^verbatim>\<open>print_grammar\<close>; it describes each state as the packed tables
    have it, but does not list every conflict that is counted.
  \<^item> \<open>Messages\<close>: the messages of \<^verbatim>\<open>error.c\<close>, and \<open>jay_main\<close>: the output, the messages and the listing of a run.
  \<^item> \<open>Options\<close>: the arguments and the file names of \<^verbatim>\<open>main.c\<close>.
  \<^item> \<open>Parser\<close>: the parser in the output, \<^verbatim>\<open>yyparse2\<close> of \<^verbatim>\<open>src/skeleton-l\<close>, on the tables of a run: its stack, its states
    and every branch of its loop, the recovery from errors and the accesses outside the arrays included.  The theorems
    set it against the derivations of the grammar: what it accepts without a report is derived and has the value of
    its parse tree, and a sentence of a grammar without conflicts is accepted within the stack it needs.  The rest
    says what becomes of errors: the recovery is not reached, and some errors are not reported.
  \<^item> \<open>Language\<close>: generator and parser in one, from the text of a grammar to the words its parser accepts.

  \<^bold>\<open>Theories of the runtime.\<close>  Here a pointer is a 64-bit word, and memory a function to bytes (\<open>Machine\<close>).
  \<^item> \<open>Roots\<close>: the table of roots of the garbage collector (\<^verbatim>\<open>lrt-unwind.c\<close>).  The collector is a parameter,
    with two laws of \<^verbatim>\<open>GC_add_roots\<close> and \<^verbatim>\<open>GC_remove_roots\<close>.
  \<^item> \<open>Objects\<close>: the allocation of objects and arrays (\<^verbatim>\<open>lrt-exception.c\<close>), and for which sizes an array fits its block.
  \<^item> \<open>Lsda\<close>: the personality routine, with the decoding of LEB128 and of encoded pointers.  The theorems set
    the decoders against encoders, up to the exception table of a whole function.
  \<^item> \<open>Unwind_Records\<close>: the look-up of methods, \<^verbatim>\<open>findUnwindInfo\<close>, with its cache (\<^verbatim>\<open>lrt-exception.c\<close>).  The
    invariant \<open>unwind_ok\<close> holds in every reachable state of the cache.
  \<^item> \<open>Unwind_Stack\<close>: \<^verbatim>\<open>unwindStack\<close> on top of it, \<^verbatim>\<open>catches\<close>, handlers and line numbers.  What the walk leaves in each
    register is said by where a prologue saves it (\<open>slot\<close>, \<open>saved_word\<close>), without the functions that restore it.
  \<^item> \<open>Old_Unwind\<close>: the unwinder before, \<^verbatim>\<open>x86/lrt/exception-old.c\<close>, from \<^verbatim>\<open>__throw\<close> to the call of the handler, on memory
    throughout.  The theorems say which handler a throw reaches and with what registers and backtrace, and exactly when
    it does not end.

  \<^bold>\<open>Theories of the connection to LLVM.\<close>
  \<^item> \<open>Cleanup\<close>: \<^verbatim>\<open>LLVMCleanUpFunction\<close> of \<^verbatim>\<open>llvmc.cpp\<close> returns, and what it leaves of a function.
  \<^item> \<open>Jit\<close>: the loading and calling of modules at run time, \<^verbatim>\<open>jit.cpp\<close>: the state after any run, and two errors.

  \<^bold>\<open>Fuel.\<close>  \<open>set_nullable\<close> runs on \<open>nsyms + 1\<close> rounds, each of which but the last marks a symbol;
  \<open>generate_states\<close> on \<open>MAXSHORT + 1\<close> rounds, one per state; \<open>traverse\<close> on one level per vertex; the
  loops of the reader on the characters that are left, of which each round takes one; \<open>walk_sites\<close> on
  the bytes of the call-site table, of which each round reads at least one.  The theorems show that these are
  enough.  \<open>proceed\<close>, the loop of the parser, runs on a number of steps, and the theorem on sentences says that some
  number is enough; the one on soundness holds for any.  Loops over chains in memory that may be cyclic are partial functions, whose value \<open>None\<close> is a
  run that does not end.

  \<^bold>\<open>Not modelled.\<close> Memory exhaustion (\<^verbatim>\<open>no_space\<close>), the printers under
  \<^verbatim>\<open>#ifdef DEBUG\<close>, the functions that only free memory, and I/O: signals and files of
  \<^verbatim>\<open>main.c\<close>, messages about files that cannot be opened. The warnings that stand before the
  message of an error are not part of \<open>jay_main\<close>, since an error of the reader drops its state. Of
  \<^verbatim>\<open>skeleton-l\<close> the messages (the lexer's positions, the list of expected tokens) and the
  trace; the semantic actions, the tokens' values and the lexer are parameters. The L compiler itself is written in L.
  Of the runtime the wrappers of the C library, the signal handler and the 32-bit variants. The other functions of
  \<^verbatim>\<open>llvmc.cpp\<close> hand a call on to LLVM, which is a parameter, and
  \<^verbatim>\<open>llvm-ld\<close> is LLVM's own linker.
\<close>

end
